(* ===== verification/Prelude.thy ===== *)
theory Prelude
  imports Main "HOL-Library.Word"
begin

text \<open>
  Shared vocabulary of the development.

  \<^item> \<^term>\<open>error\<close>: the ways in which the C++ code stops: a failing \<open>assert\<close> (the
    build does not define \<open>NDEBUG\<close>), an index outside an array or a
    \<open>std::vector\<close>, a null pointer, a division by zero, \<open>exit\<close>/\<open>abort\<close>,
    a failing call of a library, and undefined behaviour of the language.
  \<^item> \<open>size_t\<close> arithmetic: a \<open>size_t\<close> is a natural number below
    \<open>SIZE_MOD = 2 ^ 64\<close>; addition, subtraction and multiplication wrap around
    (\<open>size_add\<close>, \<open>size_sub\<close>, \<open>size_mul\<close>); the lemmas of the
    collection \<open>size_simps\<close> remove the wrap-around in range.
  \<^item> bounds-checked access to arrays (\<open>vec_get\<close>, \<open>vec_set\<close>).
  \<^item> generic lemmas on lists cut in blocks of equal size, which the tree
    theories share.
\<close>

named_theorems size_simps
named_theorems model_defs
named_theorems vec_simps

datatype error =
    AssertFail
  | OutOfBounds
  | NullDeref
  | DivByZero
  | ExitFailure
  | LibFail
  | UndefinedBehaviour

type_synonym 'a result = "error + 'a"

type_synonym 'a ptr = "'a option"

abbreviation nullptr :: "'a ptr" where
  "nullptr \<equiv> None"

definition SIZE_MOD :: nat where
  "SIZE_MOD = 2 ^ 64"

definition size_add :: "nat \<Rightarrow> nat \<Rightarrow> nat" where
  "size_add a b = (a + b) mod SIZE_MOD"

definition size_sub :: "nat \<Rightarrow> nat \<Rightarrow> nat" where
  "size_sub a b = (a + (SIZE_MOD - b)) mod SIZE_MOD"

definition size_mul :: "nat \<Rightarrow> nat \<Rightarrow> nat" where
  "size_mul a b = (a * b) mod SIZE_MOD"

definition div_ceil :: "nat \<Rightarrow> nat \<Rightarrow> nat" where
  "div_ceil a b = (a + b - 1) div b"

definition bind_result :: "'a result \<Rightarrow> ('a \<Rightarrow> 'b result) \<Rightarrow> 'b result" where
  "bind_result r k = (case r of Inl e \<Rightarrow> Inl e | Inr x \<Rightarrow> k x)"

definition assert_that :: "bool \<Rightarrow> unit result" where
  "assert_that b = (if b then Inr () else Inl AssertFail)"

definition vec_get :: "'a list \<Rightarrow> nat \<Rightarrow> 'a result" where
  "vec_get xs i = (if i < length xs then Inr (xs ! i) else Inl OutOfBounds)"

definition vec_set :: "'a list \<Rightarrow> nat \<Rightarrow> 'a \<Rightarrow> 'a list result" where
  "vec_set xs i x = (if i < length xs then Inr (xs[i := x]) else Inl OutOfBounds)"

fun iterate :: "nat \<Rightarrow> ('s \<Rightarrow> 's) \<Rightarrow> 's \<Rightarrow> 's" where
  "iterate 0 f s = s"
| "iterate (Suc n) f s = iterate n f (f s)"

fun map_result :: "('a \<Rightarrow> 'b result) \<Rightarrow> 'a list \<Rightarrow> 'b list result" where
  "map_result f [] = Inr []"
| "map_result f (x # xs) =
     bind_result (f x) (\<lambda>y. bind_result (map_result f xs) (\<lambda>ys. Inr (y # ys)))"

fun fold_result :: "('a \<Rightarrow> 's \<Rightarrow> 's result) \<Rightarrow> 'a list \<Rightarrow> 's \<Rightarrow> 's result" where
  "fold_result f [] s = Inr s"
| "fold_result f (x # xs) s = bind_result (f x s) (fold_result f xs)"

definition block :: "nat \<Rightarrow> 'a list \<Rightarrow> nat \<Rightarrow> 'a list" where
  "block k xs i = take k (drop (i * k) xs)"

definition blocks :: "nat \<Rightarrow> 'a list \<Rightarrow> 'a list list" where
  "blocks k xs = map (block k xs) [0..<length xs div k]"


section \<open>Machine arithmetic\<close>

lemma SIZE_MOD_pos [simp]: "0 < SIZE_MOD"
  by (simp add: SIZE_MOD_def)

lemma size_add_small [simp, size_simps]: "a + b < SIZE_MOD \<Longrightarrow> size_add a b = a + b"
  by (simp add: size_add_def)

lemma size_sub_small [simp, size_simps]:
  assumes "b \<le> a" "a < SIZE_MOD"
  shows "size_sub a b = a - b"
proof -
  have "a + (SIZE_MOD - b) = (a - b) + SIZE_MOD"
    using assms by simp
  then have "size_sub a b = (a - b) mod SIZE_MOD"
    by (simp add: size_sub_def)
  with assms show ?thesis by simp
qed

lemma size_mul_small [simp, size_simps]: "a * b < SIZE_MOD \<Longrightarrow> size_mul a b = a * b"
  by (simp add: size_mul_def)

lemma size_add_lt [simp]: "size_add a b < SIZE_MOD"
  by (simp add: size_add_def)

lemma size_sub_lt [simp]: "size_sub a b < SIZE_MOD"
  by (simp add: size_sub_def)

lemma size_mul_lt [simp]: "size_mul a b < SIZE_MOD"
  by (simp add: size_mul_def)

lemma size_sub_wrap:
  assumes "a < b" "b \<le> SIZE_MOD"
  shows "size_sub a b = SIZE_MOD - (b - a)"
  using assms by (simp add: size_sub_def)

lemma unat32_lt: "unat (w :: 32 word) < 2 ^ 32"
  by (rule order_less_le_trans [OF unsigned_less]) simp

lemma unat64_lt: "unat (w :: 64 word) < 2 ^ 64"
  by (rule order_less_le_trans [OF unsigned_less]) simp

lemma div_ceil_bounds:
  assumes "0 < b"
  shows "a \<le> div_ceil a b * b" "div_ceil a b * b < a + b"
proof -
  have eq: "(a + b - 1) div b * b + (a + b - 1) mod b = a + b - 1" by simp
  have m: "(a + b - 1) mod b < b" using assms by simp
  show "a \<le> div_ceil a b * b" using eq m assms unfolding div_ceil_def by linarith
  show "div_ceil a b * b < a + b" using eq assms unfolding div_ceil_def by linarith
qed


section \<open>Results\<close>

lemma bind_result_simps [simp]:
  "bind_result (Inl e) k = Inl e"
  "bind_result (Inr x) k = k x"
  by (simp_all add: bind_result_def)

lemma bind_result_Inr_iff:
  "bind_result r k = Inr y \<longleftrightarrow> (\<exists>x. r = Inr x \<and> k x = Inr y)"
  by (cases r) simp_all

lemma assert_that_simps [simp]:
  "assert_that True = Inr ()"
  "assert_that False = Inl AssertFail"
  by (simp_all add: assert_that_def)

lemma vec_get_in [simp, vec_simps]: "i < length xs \<Longrightarrow> vec_get xs i = Inr (xs ! i)"
  by (simp add: vec_get_def)

lemma vec_set_in [simp, vec_simps]: "i < length xs \<Longrightarrow> vec_set xs i x = Inr (xs[i := x])"
  by (simp add: vec_set_def)

lemma map_result_Inr:
  "(\<And>x. x \<in> set xs \<Longrightarrow> f x = Inr (g x)) \<Longrightarrow> map_result f xs = Inr (map g xs)"
  by (induction xs) simp_all

lemma fold_result_append:
  "fold_result f (xs @ ys) s = bind_result (fold_result f xs s) (fold_result f ys)"
proof (induction xs arbitrary: s)
  case (Cons x xs)
  then show ?case by (cases "f x s") simp_all
qed simp

lemma fold_result_Inr:
  "(\<And>x s. x \<in> set xs \<Longrightarrow> f x s = Inr (g x s)) \<Longrightarrow> fold_result f xs s = Inr (fold g xs s)"
  by (induction xs arbitrary: s) simp_all

lemma fold_result_cong:
  "(\<And>x s. x \<in> set xs \<Longrightarrow> f x s = g x s) \<Longrightarrow> fold_result f xs s = fold_result g xs s"
proof (induction xs arbitrary: s)
  case (Cons x xs)
  then show ?case by (cases "g x s") simp_all
qed simp

lemma iterate_Suc_end: "iterate (Suc n) f s = f (iterate n f s)"
  by (induction n arbitrary: s) simp_all

lemma iterate_add: "iterate (m + n) f s = iterate n f (iterate m f s)"
  by (induction m arbitrary: s) simp_all


section \<open>Lists in blocks of equal size\<close>

lemma length_block:
  assumes "Suc i * k \<le> length xs"
  shows "length (block k xs i) = k"
  using assms by (simp add: block_def)

lemma block_bound: "i < n div k \<Longrightarrow> Suc i * k \<le> (n::nat)"
proof -
  assume "i < n div k"
  then have "Suc i * k \<le> n div k * k" by (intro mult_le_mono1) simp
  also have "\<dots> \<le> n" by simp
  finally show ?thesis .
qed

lemma length_blocks [simp]: "length (blocks k xs) = length xs div k"
  by (simp add: blocks_def)

lemma nth_blocks [simp]: "i < length xs div k \<Longrightarrow> blocks k xs ! i = block k xs i"
  by (simp add: blocks_def)

lemma block_append_left:
  assumes "Suc i * k \<le> length xs"
  shows "block k (xs @ ys) i = block k xs i"
  using assms by (simp add: block_def)

lemma block_append_right:
  assumes "length xs = n * k"
  shows "block k (xs @ ys) (n + i) = block k ys i"
  using assms by (simp add: block_def algebra_simps)

lemma blocks_append:
  assumes "length xs = n * k" "0 < k"
  shows "blocks k (xs @ ys) = blocks k xs @ blocks k ys"
proof (rule nth_equalityI)
  have len: "length (xs @ ys) div k = n + length ys div k"
    using assms by simp
  show "length (blocks k (xs @ ys)) = length (blocks k xs @ blocks k ys)"
    using assms by simp
  fix i
  assume "i < length (blocks k (xs @ ys))"
  then have i: "i < n + length ys div k" using len by simp
  show "blocks k (xs @ ys) ! i = (blocks k xs @ blocks k ys) ! i"
  proof (cases "i < n")
    case True
    then have "Suc i * k \<le> length xs"
      using assms mult_le_mono1 [of "Suc i" n k] by simp
    with True i len assms show ?thesis
      by (simp add: nth_append block_append_left)
  next
    case False
    then obtain j where "i = n + j" using le_Suc_ex linorder_not_less by blast
    with i len assms show ?thesis
      by (simp add: nth_append block_append_right)
  qed
qed

lemma nth_block:
  assumes "j < k" "Suc i * k \<le> length xs"
  shows "block k xs i ! j = xs ! (i * k + j)"
  using assms by (simp add: block_def)

lemma concat_blocks:
  assumes "0 < k" "k dvd length xs"
  shows "concat (blocks k xs) = xs"
proof -
  have "concat (map (block k xs) [0..<n]) = take (n * k) xs" for n
  proof (induction n)
    case (Suc n)
    have "take (Suc n * k) xs = take (n * k) xs @ block k xs n"
      by (simp add: block_def take_add [symmetric] add.commute)
    with Suc show ?case by simp
  qed simp
  moreover have "length xs div k * k = length xs" using assms by simp
  ultimately show ?thesis by (simp add: blocks_def)
qed

lemma upt_0_numeral: "[0..<numeral n] = 0 # map Suc [0..<pred_numeral n]"
  by (simp add: map_Suc_upt numeral_eq_Suc upt_conv_Cons del: upt_Suc)

lemma blocks_map: "blocks k (map f xs) = map (map f) (blocks k xs)"
  by (simp add: blocks_def block_def drop_map take_map)

lemma grid_map:
  assumes "0 < t"
  shows "map (\<lambda>tid. G (tid div t) (tid mod t)) [0..<n * t] = concat (map (\<lambda>h. map (G h) [0..<t]) [0..<n])"
proof (induction n)
  case (Suc n)
  have "[0..<Suc n * t] = [0..<n * t] @ map (\<lambda>i. n * t + i) [0..<t]"
    using upt_add_eq_append [of 0 "n * t" t] map_add_upt [of "n * t" t] by (simp add: add.commute)
  moreover have "map (\<lambda>i. G ((n * t + i) div t) ((n * t + i) mod t)) [0..<t] = map (G n) [0..<t]"
    using assms by simp
  ultimately show ?case using Suc by (simp add: comp_def)
qed simp

lemma length_grid: "(\<And>h. h < n \<Longrightarrow> length (f h) = t) \<Longrightarrow> length (concat (map f [0..<n])) = n * t"
  by (induction n) simp_all

lemma block_grid:
  assumes "\<And>h. h < n \<Longrightarrow> length (f h) = t" "h < n"
  shows "block t (concat (map f [0..<n])) h = f h"
  using assms
proof (induction n)
  case (Suc n)
  have l: "length (concat (map f [0..<n])) = n * t" using Suc.prems(1) by (intro length_grid) simp
  show ?case
  proof (cases "h < n")
    case True
    have "Suc h * t \<le> n * t" using True by (intro mult_le_mono1) simp
    then show ?thesis using Suc True l block_append_left [of h t "concat (map f [0..<n])" "f n"] by simp
  next
    case False
    then have "h = n" using Suc.prems(2) by simp
    then show ?thesis
      using block_append_right [OF l, of "f n" 0] Suc.prems(1) [of n] by (simp add: block_def)
  qed
qed simp

lemma nth_grid:
  assumes "\<And>h. h < n \<Longrightarrow> length (f h) = t" "tid < n * t"
  shows "concat (map f [0..<n]) ! tid = f (tid div t) ! (tid mod t)"
proof -
  have t: "0 < t" using assms(2) by (cases t) simp_all
  have h: "tid div t < n" using assms(2) by (simp add: less_mult_imp_div_less)
  have "Suc (tid div t) * t \<le> n * t" using h by (intro mult_le_mono1) simp
  moreover have "length (concat (map f [0..<n])) = n * t" by (intro length_grid assms(1))
  ultimately have "block t (concat (map f [0..<n])) (tid div t) ! (tid mod t) = concat (map f [0..<n]) ! tid"
    using t by (simp add: nth_block)
  then show ?thesis using block_grid [of n f t, OF assms(1) h] by simp
qed

end
