(* ===== verification/Fifo.thy ===== *)
theory Fifo
  imports Prelude
begin

text \<open>
  The pointer queues of \<open>src/nvme/ring_t.hpp\<close>: \<open>mt_fifo_t\<close> (lock free,
  one producer and one consumer), \<open>pool_t\<close> (single threaded, with a bulk
  dequeue of contiguous entries) and \<open>mtx_fifo_t\<close> (a pool behind a mutex).
  Both classes keep a vector of \<open>count + 1\<close> pointers, a head and a tail;
  one slot always stays empty.  The operations of this theory are sequential;
  the interleaving of a producer and a consumer on a \<open>mt_fifo_t\<close> is in
  \<open>Fifo_Spsc\<close>.

  The interface \<open>queue_impl\<close> states what a client relies on: the operations
  behave as those of a bounded list queue.  It is interpreted on the
  operations of \<open>mt_fifo_t\<close>, \<open>pool_t\<close> and \<open>mtx_fifo_t\<close>.
\<close>

record 'a fifo_t =
  store :: "'a ptr list"
  contents :: "(nat \<Rightarrow> 'a) ptr"
  head :: nat
  tail :: nat

definition fifo_new :: "'a fifo_t" where
  "fifo_new = \<lparr>store = [], contents = nullptr, head = 0, tail = 0\<rparr>"

definition vec_resize :: "nat \<Rightarrow> 'a ptr list \<Rightarrow> 'a ptr list" where
  "vec_resize n xs = take n xs @ replicate (n - length xs) nullptr"

definition fifo_create :: "nat \<Rightarrow> 'a fifo_t \<Rightarrow> 'a fifo_t" where
  "fifo_create count q = q\<lparr>store := vec_resize (size_add count 1) (store q)\<rparr>"

definition fifo_size :: "'a fifo_t \<Rightarrow> nat" where
  "fifo_size q =
     (let h = head q; t = tail q in
      if h \<ge> t then size_sub h t
      else size_sub (size_add (length (store q)) h) t)"

definition fifo_capacity :: "'a fifo_t \<Rightarrow> nat" where
  "fifo_capacity q = size_sub (length (store q)) 1"

definition fifo_is_full :: "'a fifo_t \<Rightarrow> bool" where
  "fifo_is_full q \<longleftrightarrow> fifo_size q = size_sub (length (store q)) 1"

definition fifo_free_count :: "'a fifo_t \<Rightarrow> nat" where
  "fifo_free_count q = size_sub (fifo_capacity q) (fifo_size q)"

definition fifo_index :: "nat \<Rightarrow> 'a fifo_t \<Rightarrow> 'a result" where
  "fifo_index i q =
     bind_result (vec_get (store q) i)
       (\<lambda>p. case p of None \<Rightarrow> Inl NullDeref | Some a \<Rightarrow> Inr a)"

definition fifo_fill :: "nat \<Rightarrow> (nat \<Rightarrow> (nat \<Rightarrow> 'a) ptr) \<Rightarrow> 'a fifo_t \<Rightarrow> nat \<times> 'a fifo_t" where
  "fifo_fill sizeof_T ring_spdk_alloc q =
     (let n = size_sub (length (store q)) 1 in
      case ring_spdk_alloc (size_mul sizeof_T n) of
        None \<Rightarrow> (1, q\<lparr>contents := nullptr\<rparr>)
      | Some base \<Rightarrow>
          (0, q\<lparr>contents := Some base,
                store := map (\<lambda>i. if i < n then Some (base i) else store q ! i)
                           [0..<length (store q)],
                head := n\<rparr>))"

definition mt_enqueue_nocheck :: "'a ptr \<Rightarrow> 'a fifo_t \<Rightarrow> 'a fifo_t result" where
  "mt_enqueue_nocheck obj q =
     (let h = head q in
      bind_result (vec_set (store q) h obj) (\<lambda>st.
      Inr (q\<lparr>store := st,
             head := if h = size_sub (length (store q)) 1 then 0 else size_add h 1\<rparr>)))"

definition mt_enqueue :: "'a ptr \<Rightarrow> 'a fifo_t \<Rightarrow> 'a fifo_t result" where
  "mt_enqueue obj q =
     bind_result (assert_that (\<not> fifo_is_full q)) (\<lambda>_.
     let h = head q in
     bind_result (vec_set (store q) h obj) (\<lambda>st.
     Inr (q\<lparr>store := st,
            head := if h = size_sub (length (store q)) 1 then 0 else size_add h 1\<rparr>)))"

definition mt_dequeue :: "'a fifo_t \<Rightarrow> ('a ptr \<times> 'a fifo_t) result" where
  "mt_dequeue q =
     (if fifo_size q \<noteq> 0 then
        let t = tail q in
        bind_result (vec_get (store q) t) (\<lambda>obj.
        Inr (obj, q\<lparr>tail := if t = size_sub (length (store q)) 1 then 0 else size_add t 1\<rparr>))
      else Inr (nullptr, q))"

definition pool_enqueue :: "'a ptr \<Rightarrow> 'a fifo_t \<Rightarrow> 'a fifo_t result" where
  "pool_enqueue obj q =
     bind_result (assert_that (\<not> fifo_is_full q)) (\<lambda>_.
     bind_result (vec_set (store q) (head q) obj) (\<lambda>st.
     let h = size_add (head q) 1 in
     Inr (q\<lparr>store := st, head := if h \<ge> length st then 0 else h\<rparr>)))"

definition pool_dequeue :: "'a fifo_t \<Rightarrow> ('a ptr \<times> 'a fifo_t) result" where
  "pool_dequeue q =
     (if fifo_size q \<noteq> 0 then
        bind_result (vec_get (store q) (tail q)) (\<lambda>obj.
        let t = size_add (tail q) 1 in
        Inr (obj, q\<lparr>tail := if t \<ge> length (store q) then 0 else t\<rparr>))
      else Inr (nullptr, q))"

definition pool_dequeue_bulk :: "nat \<Rightarrow> 'a fifo_t \<Rightarrow> 'a ptr list ptr \<times> 'a fifo_t" where
  "pool_dequeue_bulk count q =
     (if fifo_size q \<ge> count \<and> size_add (tail q) count \<le> length (store q) then
        let t = size_add (tail q) count in
        (Some (take count (drop (tail q) (store q))),
         q\<lparr>tail := if t \<ge> length (store q) then size_sub t (length (store q)) else t\<rparr>)
      else (nullptr, q))"

record 'a mtx_fifo_t =
  pool :: "'a fifo_t"
  mtx_locked :: bool

definition with_lock :: "('a fifo_t \<Rightarrow> ('b \<times> 'a fifo_t) result) \<Rightarrow> 'a mtx_fifo_t \<Rightarrow>
    ('b \<times> 'a mtx_fifo_t) result" where
  "with_lock f m =
     (if mtx_locked m then Inl LibFail
      else bind_result (f (pool (m\<lparr>mtx_locked := True\<rparr>))) (\<lambda>(r, p).
           Inr (r, m\<lparr>pool := p, mtx_locked := False\<rparr>)))"

definition mtx_create :: "nat \<Rightarrow> 'a mtx_fifo_t \<Rightarrow> (nat \<times> 'a mtx_fifo_t) result" where
  "mtx_create count = with_lock (\<lambda>p. Inr (0, fifo_create count p))"

definition mtx_enqueue :: "'a ptr \<Rightarrow> 'a mtx_fifo_t \<Rightarrow> 'a mtx_fifo_t result" where
  "mtx_enqueue obj m =
     bind_result (with_lock (\<lambda>p. bind_result (pool_enqueue obj p) (\<lambda>p'. Inr ((), p'))) m)
       (\<lambda>(_, m'). Inr m')"

definition mtx_dequeue :: "'a mtx_fifo_t \<Rightarrow> ('a ptr \<times> 'a mtx_fifo_t) result" where
  "mtx_dequeue = with_lock pool_dequeue"

definition mtx_size :: "'a mtx_fifo_t \<Rightarrow> (nat \<times> 'a mtx_fifo_t) result" where
  "mtx_size = with_lock (\<lambda>p. Inr (fifo_size p, p))"

definition mtx_is_full :: "'a mtx_fifo_t \<Rightarrow> (bool \<times> 'a mtx_fifo_t) result" where
  "mtx_is_full = with_lock (\<lambda>p. Inr (fifo_is_full p, p))"

definition mtx_capacity :: "'a mtx_fifo_t \<Rightarrow> (nat \<times> 'a mtx_fifo_t) result" where
  "mtx_capacity = with_lock (\<lambda>p. Inr (fifo_capacity p, p))"

definition mtx_free_count :: "'a mtx_fifo_t \<Rightarrow> (nat \<times> 'a mtx_fifo_t) result" where
  "mtx_free_count = with_lock (\<lambda>p. Inr (fifo_free_count p, p))"


section \<open>The bounded list queue\<close>

datatype 'a queue_op = Enq "'a ptr" | Deq

fun queue_spec :: "nat \<Rightarrow> 'a queue_op list \<Rightarrow> 'a ptr list \<Rightarrow> ('a ptr list \<times> 'a ptr list) result"
where
  "queue_spec c [] l = Inr ([], l)"
| "queue_spec c (Enq x # ops) l =
     (if length l = c then Inl AssertFail else queue_spec c ops (l @ [x]))"
| "queue_spec c (Deq # ops) l =
     (case l of
        [] \<Rightarrow> bind_result (queue_spec c ops []) (\<lambda>(outs, l'). Inr (nullptr # outs, l'))
      | x # xs \<Rightarrow> bind_result (queue_spec c ops xs) (\<lambda>(outs, l'). Inr (x # outs, l')))"

fun queue_run :: "('a ptr \<Rightarrow> 'q \<Rightarrow> 'q result) \<Rightarrow> ('q \<Rightarrow> ('a ptr \<times> 'q) result) \<Rightarrow>
    'a queue_op list \<Rightarrow> 'q \<Rightarrow> ('a ptr list \<times> 'q) result" where
  "queue_run enq deq [] q = Inr ([], q)"
| "queue_run enq deq (Enq x # ops) q = bind_result (enq x q) (queue_run enq deq ops)"
| "queue_run enq deq (Deq # ops) q =
     bind_result (deq q) (\<lambda>(x, q').
     bind_result (queue_run enq deq ops q') (\<lambda>(outs, q'').
     Inr (x # outs, q'')))"

locale queue_impl =
  fixes enq :: "'a ptr \<Rightarrow> 'q \<Rightarrow> 'q result"
    and deq :: "'q \<Rightarrow> ('a ptr \<times> 'q) result"
    and invar :: "'q \<Rightarrow> bool"
    and abs :: "'q \<Rightarrow> 'a ptr list"
    and cap :: "'q \<Rightarrow> nat"
  assumes enq_full: "invar q \<Longrightarrow> length (abs q) = cap q \<Longrightarrow> enq x q = Inl AssertFail"
    and enq_room: "invar q \<Longrightarrow> length (abs q) \<noteq> cap q \<Longrightarrow>
      \<exists>q'. enq x q = Inr q' \<and> invar q' \<and> abs q' = abs q @ [x] \<and> cap q' = cap q"
    and deq_empty: "invar q \<Longrightarrow> abs q = [] \<Longrightarrow> deq q = Inr (nullptr, q)"
    and deq_cons: "invar q \<Longrightarrow> abs q = x # xs \<Longrightarrow>
      \<exists>q'. deq q = Inr (x, q') \<and> invar q' \<and> abs q' = xs \<and> cap q' = cap q"
    and abs_le_cap: "invar q \<Longrightarrow> length (abs q) \<le> cap q"
begin

lemma run_refines_ok:
  assumes "invar q" "queue_spec (cap q) ops (abs q) = Inr (outs, l)"
  shows "\<exists>q'. queue_run enq deq ops q = Inr (outs, q') \<and> invar q' \<and> abs q' = l \<and> cap q' = cap q"
  using assms
proof (induction "cap q" ops "abs q" arbitrary: q outs rule: queue_spec.induct)
  case (2 x ops)
  then have room: "length (abs q) \<noteq> cap q" by auto
  from enq_room [OF \<open>invar q\<close> room] obtain q'
    where q': "enq x q = Inr q'" "invar q'" "abs q' = abs q @ [x]" "cap q' = cap q" by blast
  from 2(1) [OF room q'(4) [symmetric] q'(3) [symmetric] q'(2)] 2(3) room q'
  show ?case by auto
next
  case (3 ops)
  show ?case
  proof (cases "abs q")
    case Nil
    with 3(4) obtain o' where o': "queue_spec (cap q) ops (abs q) = Inr (o', l)" "outs = nullptr # o'"
      by (auto simp: bind_result_Inr_iff)
    from 3(1) [of q, OF Nil refl _ 3(3)] Nil o'
    show ?thesis using deq_empty [OF 3(3) Nil] by auto
  next
    case (Cons x xs)
    with 3(4) obtain o' where o': "queue_spec (cap q) ops xs = Inr (o', l)" "outs = x # o'"
      by (auto simp: bind_result_Inr_iff)
    from deq_cons [OF 3(3) Cons] obtain q'
      where q': "deq q = Inr (x, q')" "invar q'" "abs q' = xs" "cap q' = cap q" by blast
    from 3(2) [of x q'] Cons q' o' show ?thesis by auto
  qed
qed auto

lemma run_refines_err:
  assumes "invar q" "queue_spec (cap q) ops (abs q) = Inl e"
  shows "queue_run enq deq ops q = Inl e"
  using assms
proof (induction "cap q" ops "abs q" arbitrary: q rule: queue_spec.induct)
  case (2 x ops)
  show ?case
  proof (cases "length (abs q) = cap q")
    case True
    with 2 enq_full show ?thesis by auto
  next
    case False
    from enq_room [OF \<open>invar q\<close> False] obtain q'
      where q': "enq x q = Inr q'" "invar q'" "abs q' = abs q @ [x]" "cap q' = cap q" by blast
    from 2(1) [OF False q'(4) [symmetric] q'(3) [symmetric] q'(2)] 2(3) False q'
    show ?thesis by auto
  qed
next
  case (3 ops)
  show ?case
  proof (cases "abs q")
    case Nil
    with 3(4) have "queue_spec (cap q) ops (abs q) = Inl e"
      by (auto simp: bind_result_def split: sum.splits)
    from 3(1) [of q, OF Nil refl _ 3(3)] Nil this
    show ?thesis using deq_empty [OF 3(3) Nil] by auto
  next
    case (Cons x xs)
    with 3(4) have o': "queue_spec (cap q) ops xs = Inl e"
      by (auto simp: bind_result_def split: sum.splits)
    from deq_cons [OF 3(3) Cons] obtain q'
      where q': "deq q = Inr (x, q')" "invar q'" "abs q' = xs" "cap q' = cap q" by blast
    from 3(2) [of x q'] Cons q' o' show ?thesis by auto
  qed
qed auto

end


section \<open>Invariant and contents\<close>

definition fifo_inv :: "'a fifo_t \<Rightarrow> bool" where
  "fifo_inv q \<longleftrightarrow>
     0 < length (store q) \<and> length (store q) < 2 ^ 63 \<and>
     head q < length (store q) \<and> tail q < length (store q)"

definition ring_span :: "nat \<Rightarrow> nat \<Rightarrow> nat \<Rightarrow> nat" where
  "ring_span n h t = (if t \<le> h then h - t else n + h - t)"

definition ring_next :: "nat \<Rightarrow> nat \<Rightarrow> nat" where
  "ring_next n i = (if i + 1 = n then 0 else i + 1)"

definition ring_slice :: "'a list \<Rightarrow> nat \<Rightarrow> nat \<Rightarrow> 'a list" where
  "ring_slice xs h t =
     map (\<lambda>i. xs ! ((t + i) mod length xs)) [0..<ring_span (length xs) h t]"

definition fifo_list :: "'a fifo_t \<Rightarrow> 'a ptr list" where
  "fifo_list q = ring_slice (store q) (head q) (tail q)"

lemma ring_span_lt: "h < n \<Longrightarrow> t < n \<Longrightarrow> ring_span n h t < n"
  by (auto simp: ring_span_def)

lemma ring_next_lt [simp]: "i < n \<Longrightarrow> ring_next n i < n"
  by (auto simp: ring_next_def)

lemma ring_next_mod: "i < n \<Longrightarrow> ring_next n i = Suc i mod n"
  by (auto simp: ring_next_def)

lemma ring_span_add: "h < n \<Longrightarrow> t < n \<Longrightarrow> (t + ring_span n h t) mod n = h"
  by (auto simp: ring_span_def)

lemma ring_span_self [simp]: "ring_span n h h = 0"
  by (simp add: ring_span_def)

lemma ring_span_0 [simp]: "h < n \<Longrightarrow> t < n \<Longrightarrow> ring_span n h t = 0 \<longleftrightarrow> h = t"
  by (auto simp: ring_span_def)

lemma ring_span_next_head:
  "h < n \<Longrightarrow> t < n \<Longrightarrow> ring_span n h t < n - 1 \<Longrightarrow>
   ring_span n (ring_next n h) t = Suc (ring_span n h t)"
  by (auto simp: ring_span_def ring_next_def split: if_splits)

lemma ring_span_next_tail:
  "h < n \<Longrightarrow> t < n \<Longrightarrow> h \<noteq> t \<Longrightarrow>
   ring_span n h t = Suc (ring_span n h (ring_next n t))"
  by (auto simp: ring_span_def ring_next_def)

lemma ring_pos_neq_head:
  assumes "h < n" "t < n" "i < ring_span n h t"
  shows "(t + i) mod n \<noteq> h"
proof -
  have "t + i < 2 * n" using assms ring_span_lt [OF assms(1,2)] by linarith
  then have "(t + i) mod n = (if t + i < n then t + i else t + i - n)"
    by (simp add: mod_if)
  with assms show ?thesis by (auto simp: ring_span_def split: if_splits)
qed

lemma length_ring_slice [simp]: "length (ring_slice xs h t) = ring_span (length xs) h t"
  by (simp add: ring_slice_def)

lemma ring_slice_push:
  assumes "h < length xs" "t < length xs" "ring_span (length xs) h t < length xs - 1"
  shows "ring_slice (xs[h := x]) (ring_next (length xs) h) t = ring_slice xs h t @ [x]"
proof -
  have "xs[h := x] ! ((t + i) mod length xs) = xs ! ((t + i) mod length xs)"
    if "i < ring_span (length xs) h t" for i
    using ring_pos_neq_head [OF assms(1,2) that] by simp
  then have "map (\<lambda>i. xs[h := x] ! ((t + i) mod length xs)) [0..<ring_span (length xs) h t] =
        ring_slice xs h t"
    by (simp add: ring_slice_def)
  moreover have "xs[h := x] ! ((t + ring_span (length xs) h t) mod length xs) = x"
    using assms by (simp add: ring_span_add)
  ultimately show ?thesis
    using assms unfolding ring_slice_def by (simp add: ring_span_next_head)
qed

lemma ring_slice_pop:
  assumes "h < length xs" "t < length xs" "h \<noteq> t"
  shows "ring_slice xs h t = xs ! t # ring_slice xs h (ring_next (length xs) t)"
proof -
  have "(t + Suc i) mod length xs = (ring_next (length xs) t + i) mod length xs" for i
    using assms by (simp add: ring_next_mod mod_simps)
  then show ?thesis
    using assms unfolding ring_slice_def ring_span_next_tail [OF assms]
    by (simp del: upt_Suc add: upt_conv_Cons map_Suc_upt [symmetric])
qed

lemma ring_slice_Nil: "h < length xs \<Longrightarrow> t < length xs \<Longrightarrow> ring_slice xs h t = [] \<longleftrightarrow> h = t"
  by (auto simp: ring_slice_def)

lemma fifo_inv_bound: "fifo_inv q \<Longrightarrow> length (store q) + length (store q) < SIZE_MOD"
  by (simp add: fifo_inv_def SIZE_MOD_def)

lemma fifo_size_span:
  "fifo_inv q \<Longrightarrow> fifo_size q = ring_span (length (store q)) (head q) (tail q)"
  using fifo_inv_bound [of q]
  by (auto simp: fifo_size_def fifo_inv_def ring_span_def Let_def)

lemma fifo_size_list: "fifo_inv q \<Longrightarrow> length (fifo_list q) = fifo_size q"
  by (simp add: fifo_list_def fifo_size_span)

lemma fifo_len_sub1: "fifo_inv q \<Longrightarrow> size_sub (length (store q)) (Suc 0) = length (store q) - Suc 0"
  using fifo_inv_bound [of q] by (simp add: fifo_inv_def)

lemma fifo_capacity_eq: "fifo_inv q \<Longrightarrow> fifo_capacity q = length (store q) - 1"
  by (simp add: fifo_capacity_def fifo_len_sub1)

lemma fifo_is_full_iff:
  "fifo_inv q \<Longrightarrow> fifo_is_full q \<longleftrightarrow> length (fifo_list q) = fifo_capacity q"
  by (simp add: fifo_is_full_def fifo_capacity_def fifo_size_list)

lemma fifo_size_le_capacity: "fifo_inv q \<Longrightarrow> fifo_size q \<le> fifo_capacity q"
  using ring_span_lt [of "head q" "length (store q)" "tail q"]
  by (simp add: fifo_size_span fifo_capacity_eq fifo_inv_def)

lemma fifo_next_head:
  assumes "fifo_inv q" "i < length (store q)"
  shows "(if i = size_sub (length (store q)) (Suc 0) then 0 else size_add i (Suc 0)) = ring_next (length (store q)) i"
    and "(if size_add i (Suc 0) \<ge> length (store q) then 0 else size_add i (Suc 0)) = ring_next (length (store q)) i"
  using assms fifo_inv_bound [OF assms(1)] fifo_len_sub1 [OF assms(1)]
  by (auto simp: ring_next_def fifo_inv_def)

lemma mt_enqueue_room:
  assumes "fifo_inv q" "\<not> fifo_is_full q"
  shows "mt_enqueue x q =
    Inr (q\<lparr>store := (store q)[head q := x], head := ring_next (length (store q)) (head q)\<rparr>)"
  using assms fifo_next_head(1) [of q "head q"]
  by (auto simp: mt_enqueue_def fifo_inv_def Let_def split: if_splits)

lemma pool_enqueue_room:
  assumes "fifo_inv q" "\<not> fifo_is_full q"
  shows "pool_enqueue x q =
    Inr (q\<lparr>store := (store q)[head q := x], head := ring_next (length (store q)) (head q)\<rparr>)"
  using assms fifo_next_head(2) [of q "head q"]
  by (simp add: pool_enqueue_def fifo_inv_def Let_def)

lemma mt_dequeue_some:
  assumes "fifo_inv q" "head q \<noteq> tail q"
  shows "mt_dequeue q =
    Inr (store q ! tail q, q\<lparr>tail := ring_next (length (store q)) (tail q)\<rparr>)"
  using assms fifo_next_head(1) [of q "tail q"]
  by (auto simp: mt_dequeue_def fifo_inv_def Let_def fifo_size_span split: if_splits)

lemma pool_dequeue_some:
  assumes "fifo_inv q" "head q \<noteq> tail q"
  shows "pool_dequeue q =
    Inr (store q ! tail q, q\<lparr>tail := ring_next (length (store q)) (tail q)\<rparr>)"
  using assms fifo_next_head(2) [of q "tail q"]
  by (simp add: pool_dequeue_def fifo_inv_def Let_def fifo_size_span)

lemma fifo_list_Nil: "fifo_inv q \<Longrightarrow> fifo_list q = [] \<longleftrightarrow> head q = tail q"
  by (simp add: fifo_list_def ring_slice_Nil fifo_inv_def)

lemma fifo_push_list:
  assumes "fifo_inv q" "\<not> fifo_is_full q"
    "q' = q\<lparr>store := (store q)[head q := x], head := ring_next (length (store q)) (head q)\<rparr>"
  shows "fifo_inv q' \<and> fifo_list q' = fifo_list q @ [x] \<and> fifo_capacity q' = fifo_capacity q"
proof -
  have "ring_span (length (store q)) (head q) (tail q) < length (store q) - 1"
    using assms fifo_size_le_capacity [OF assms(1)] fifo_size_span [OF assms(1)]
    by (simp add: fifo_is_full_def fifo_capacity_def fifo_len_sub1)
  with assms show ?thesis
    by (simp add: fifo_inv_def fifo_list_def ring_slice_push fifo_capacity_def)
qed

lemma fifo_pop_list:
  assumes "fifo_inv q" "head q \<noteq> tail q"
    "q' = q\<lparr>tail := ring_next (length (store q)) (tail q)\<rparr>"
  shows "fifo_inv q' \<and> fifo_list q = store q ! tail q # fifo_list q' \<and>
    fifo_capacity q' = fifo_capacity q"
  using assms
  by (simp add: fifo_inv_def fifo_list_def ring_slice_pop fifo_capacity_def)

lemmas fifo_op_lemmas = mt_enqueue_room pool_enqueue_room mt_dequeue_some pool_dequeue_some
  fifo_push_list [OF _ _ refl] fifo_pop_list [OF _ _ refl] fifo_is_full_iff fifo_list_Nil

interpretation mtq: queue_impl mt_enqueue mt_dequeue fifo_inv fifo_list fifo_capacity
proof (unfold_locales, goal_cases)
  case (1 q x)
  then show ?case by (simp add: mt_enqueue_def fifo_is_full_iff)
next
  case (2 q x)
  then show ?case by (simp add: fifo_op_lemmas)
next
  case (3 q)
  then show ?case by (simp add: mt_dequeue_def fifo_size_list [symmetric])
next
  case (4 q x xs)
  then have "head q \<noteq> tail q" using fifo_list_Nil by force
  with 4 show ?case using fifo_pop_list [OF _ _ refl, of q] by (auto simp: mt_dequeue_some)
next
  case (5 q)
  then show ?case by (simp add: fifo_size_list fifo_size_le_capacity)
qed

interpretation poolq: queue_impl pool_enqueue pool_dequeue fifo_inv fifo_list fifo_capacity
proof (unfold_locales, goal_cases)
  case (1 q x)
  then show ?case by (simp add: pool_enqueue_def fifo_is_full_iff)
next
  case (2 q x)
  then show ?case by (simp add: fifo_op_lemmas)
next
  case (3 q)
  then show ?case by (simp add: pool_dequeue_def fifo_size_list [symmetric])
next
  case (4 q x xs)
  then have "head q \<noteq> tail q" using fifo_list_Nil by force
  with 4 show ?case using fifo_pop_list [OF _ _ refl, of q] by (auto simp: pool_dequeue_some)
next
  case (5 q)
  then show ?case by (simp add: fifo_size_list fifo_size_le_capacity)
qed


definition mtx_inv :: "'a mtx_fifo_t \<Rightarrow> bool" where
  "mtx_inv m \<longleftrightarrow> \<not> mtx_locked m \<and> fifo_inv (pool m)"

lemma mtx_enqueue_unlocked:
  "\<not> mtx_locked m \<Longrightarrow> mtx_enqueue x m =
     bind_result (pool_enqueue x (pool m)) (\<lambda>p. Inr (m\<lparr>pool := p\<rparr>))"
  by (cases "pool_enqueue x (pool m)") (simp_all add: mtx_enqueue_def with_lock_def)

lemma mtx_dequeue_unlocked:
  "\<not> mtx_locked m \<Longrightarrow> mtx_dequeue m =
     bind_result (pool_dequeue (pool m)) (\<lambda>(r, p). Inr (r, m\<lparr>pool := p\<rparr>))"
  by (cases "pool_dequeue (pool m)") (auto simp add: mtx_dequeue_def with_lock_def)

interpretation mtxq: queue_impl mtx_enqueue mtx_dequeue mtx_inv
  "\<lambda>m. fifo_list (pool m)" "\<lambda>m. fifo_capacity (pool m)"
proof (unfold_locales, goal_cases)
  case (1 m x)
  then show ?case by (simp add: mtx_inv_def mtx_enqueue_unlocked poolq.enq_full)
next
  case (2 m x)
  then show ?case
    using poolq.enq_room [of "pool m" x]
    by (auto simp: mtx_inv_def mtx_enqueue_unlocked)
next
  case (3 m)
  then show ?case by (simp add: mtx_inv_def mtx_dequeue_unlocked poolq.deq_empty)
next
  case (4 m x xs)
  then show ?case
    using poolq.deq_cons [of "pool m" x xs]
    by (auto simp: mtx_inv_def mtx_dequeue_unlocked)
next
  case (5 m)
  then show ?case by (simp add: mtx_inv_def poolq.abs_le_cap)
qed

lemma fifo_create_inv:
  fixes q :: "'a fifo_t"
  assumes "count < 2 ^ 63 - 1" "q = fifo_create count fifo_new"
  shows "fifo_inv q" "fifo_list q = []" "fifo_capacity q = count"
proof -
  have b: "count + 1 < SIZE_MOD" "size_add count 1 = count + 1"
    using assms by (simp_all add: SIZE_MOD_def)
  have q: "head q = 0" "tail q = 0" "length (store q) = count + 1"
    using b assms(2) by (simp_all add: fifo_create_def vec_resize_def fifo_new_def)
  then show i: "fifo_inv q"
    using assms(1) by (auto simp add: fifo_inv_def)
  show "fifo_list q = []"
    by (simp add: fifo_list_Nil [OF i] q)
  show "fifo_capacity q = count"
    by (simp add: fifo_capacity_eq [OF i] q)
qed


section \<open>Properties\<close>

text \<open>
  C12: a \<open>mt_fifo_t\<close> made by \<open>create(count)\<close> behaves, over every sequence of
  \<open>enqueue\<close> and \<open>dequeue\<close> calls, exactly as a list queue bounded by
  \<open>count\<close>: the same pointers come out in the same order, \<open>nullptr\<close> exactly
  when the queue is empty, and the assertion of \<open>enqueue\<close> fails exactly when
  the queue holds \<open>count\<close> pointers.
\<close>
theorem mt_fifo_refines_queue:
  fixes ops :: "'a queue_op list"
  assumes "count < 2 ^ 63 - 1"
  shows "case queue_spec count ops [] of
      Inl e \<Rightarrow> queue_run mt_enqueue mt_dequeue ops (fifo_create count fifo_new) = Inl e
    | Inr (outs, l) \<Rightarrow>
        \<exists>q. queue_run mt_enqueue mt_dequeue ops (fifo_create count fifo_new) = Inr (outs, q) \<and>
            fifo_inv q \<and> fifo_list q = l"
proof -
  let ?q = "fifo_create count fifo_new :: 'a fifo_t"
  note q = fifo_create_inv [OF assms refl, where ?'a = 'a]
  show ?thesis
    using mtq.run_refines_ok [OF q(1), of ops] mtq.run_refines_err [OF q(1), of ops]
    unfolding q by (auto split: sum.splits)
qed

theorem mt_fifo_refines_queue_witness:
  "\<exists>q. queue_run mt_enqueue mt_dequeue [Enq (Some 7), Enq (Some 8), Deq, Enq (Some (9::nat)), Deq]
      (fifo_create 2 fifo_new) = Inr ([Some 7, Some 8], q) \<and> fifo_inv q \<and> fifo_list q = [Some 9]"
  using mt_fifo_refines_queue
    [of 2 "[Enq (Some 7), Enq (Some 8), Deq, Enq (Some (9::nat)), Deq]"]
  by simp

lemma pool_bulk_pointers:
  assumes "fifo_inv q" "fifo_size q \<ge> count" "tail q + count \<le> length (store q)"
  shows "take count (drop (tail q) (store q)) = take count (fifo_list q)"
proof (rule nth_equalityI)
  have sz: "count \<le> ring_span (length (store q)) (head q) (tail q)"
    using assms by (simp add: fifo_size_span)
  then show "length (take count (drop (tail q) (store q))) = length (take count (fifo_list q))"
    using assms by (simp add: fifo_list_def)
  fix i
  assume "i < length (take count (drop (tail q) (store q)))"
  then have "i < count" by simp
  with assms sz show "take count (drop (tail q) (store q)) ! i = take count (fifo_list q) ! i"
    by (simp add: fifo_list_def ring_slice_def)
qed

lemma ring_span_advance:
  assumes "h < n" "t < n" "c \<le> ring_span n h t"
  shows "ring_span n h ((t + c) mod n) = ring_span n h t - c"
proof -
  have "t + c < 2 * n" using assms ring_span_lt [OF assms(1,2)] by linarith
  then have "(t + c) mod n = (if t + c < n then t + c else t + c - n)"
    by (simp add: mod_if)
  with assms show ?thesis by (auto simp: ring_span_def split: if_splits)
qed

lemma ring_slice_drop:
  assumes "h < length xs" "t < length xs" "c \<le> ring_span (length xs) h t"
  shows "ring_slice xs h ((t + c) mod length xs) = drop c (ring_slice xs h t)"
proof (rule nth_equalityI)
  show "length (ring_slice xs h ((t + c) mod length xs)) = length (drop c (ring_slice xs h t))"
    using assms by (simp add: ring_span_advance)
  fix i
  assume "i < length (ring_slice xs h ((t + c) mod length xs))"
  with assms have "i < ring_span (length xs) h t - c" by (simp add: ring_span_advance)
  then have "i < ring_span (length xs) h t - c" "c + i < ring_span (length xs) h t" by simp_all
  then show "ring_slice xs h ((t + c) mod length xs) ! i = drop c (ring_slice xs h t) ! i"
    using assms by (simp add: ring_slice_def ring_span_advance mod_simps add.assoc)
qed

text \<open>
  \<open>pool_t::dequeue_bulk(count)\<close> hands out exactly the next \<open>count\<close>
  pointers in queue order and removes exactly those; it returns \<open>nullptr\<close> and
  changes nothing when fewer are present or when they wrap around the end of
  the vector.
\<close>
theorem pool_dequeue_bulk_spec:
  assumes "fifo_inv q" "count < 2 ^ 63"
  shows "if count \<le> length (fifo_list q) \<and> tail q + count \<le> length (store q)
    then \<exists>q'. pool_dequeue_bulk count q = (Some (take count (fifo_list q)), q') \<and>
           fifo_inv q' \<and> fifo_list q' = drop count (fifo_list q) \<and> store q' = store q
    else pool_dequeue_bulk count q = (nullptr, q)"
proof -
  have b: "tail q + count < SIZE_MOD" "length (store q) < SIZE_MOD"
    using assms by (auto simp: fifo_inv_def SIZE_MOD_def)
  show ?thesis
  proof (cases "count \<le> length (fifo_list q) \<and> tail q + count \<le> length (store q)")
    case True
    have sz: "count \<le> ring_span (length (store q)) (head q) (tail q)"
      using True assms by (simp add: fifo_list_def)
    let ?t = "(tail q + count) mod length (store q)"
    have t: "(if tail q + count \<ge> length (store q) then tail q + count - length (store q)
      else tail q + count) = ?t"
      using True by auto
    have "pool_dequeue_bulk count q = (Some (take count (fifo_list q)), q\<lparr>tail := ?t\<rparr>)"
      using True b pool_bulk_pointers [OF assms(1), of count] assms(1) t
      by (auto simp: pool_dequeue_bulk_def fifo_size_list Let_def)
    moreover have "fifo_inv (q\<lparr>tail := ?t\<rparr>)"
      using assms by (simp add: fifo_inv_def)
    moreover have "fifo_list (q\<lparr>tail := ?t\<rparr>) = drop count (fifo_list q)"
      using assms sz by (simp add: fifo_list_def fifo_inv_def ring_slice_drop)
    ultimately show ?thesis using True by simp
  next
    case False
    with b assms show ?thesis by (auto simp: pool_dequeue_bulk_def fifo_size_list)
  qed
qed

theorem pool_dequeue_bulk_spec_witness:
  "let q = \<lparr>store = [Some 5, Some 6, Some 7, nullptr], contents = nullptr, head = 3, tail = 0\<rparr>
     :: nat fifo_t in
   fifo_inv q \<and> (\<exists>q'. pool_dequeue_bulk 2 q = (Some [Some 5, Some 6], q') \<and>
      fifo_list q' = [Some 7])"
proof -
  let ?q = "\<lparr>store = [Some 5, Some 6, Some 7, nullptr], contents = nullptr, head = 3, tail = 0\<rparr>
     :: nat fifo_t"
  have i: "fifo_inv ?q" by (simp add: fifo_inv_def)
  have l: "fifo_list ?q = [Some 5, Some 6, Some 7]"
    by (simp add: fifo_list_def ring_slice_def ring_span_def upt_conv_Cons)
  show ?thesis using pool_dequeue_bulk_spec [OF i, of 2] i unfolding l by auto
qed

end
