(* ===== verification/Fifo_Spsc.thy ===== *)
theory Fifo_Spsc
  imports Fifo
begin

text \<open>
  One producer and one consumer on a shared \<open>mt_fifo_t\<close>
  (\<open>src/nvme/ring_t.hpp\<close>).  \<open>enqueue\<close> and \<open>dequeue\<close> are cut at every
  access to the shared fields \<open>head\<close>, \<open>tail\<close> (sequentially consistent
  atomics) and \<open>store\<close> (plain memory); a step relation interleaves the cuts
  of the two threads in every order.  The ghost fields \<open>enq_log\<close> and
  \<open>deq_log\<close> record the pointers whose \<open>enqueue\<close> has published its head and
  whose \<open>dequeue\<close> has published its tail.
\<close>

datatype 'a prod_pc =
    PIdle
  | PSizeHead "'a ptr" nat
  | PChecked "'a ptr"
  | PLoaded "'a ptr" nat
  | PStored "'a ptr" nat
  | PAssertFailed

datatype 'a cons_pc =
    CIdle
  | CSizeHead nat
  | CChecked
  | CLoaded nat
  | CRead nat "'a ptr"

record 'a spsc_t =
  fifo :: "'a fifo_t"
  prod :: "'a prod_pc"
  consumer :: "'a cons_pc"
  enq_log :: "'a ptr list"
  deq_log :: "'a ptr list"

definition spsc_init :: "nat \<Rightarrow> 'a spsc_t" where
  "spsc_init count =
     \<lparr>fifo = fifo_create count fifo_new, prod = PIdle, consumer = CIdle, enq_log = [], deq_log = []\<rparr>"

definition next_index :: "'a fifo_t \<Rightarrow> nat \<Rightarrow> nat" where
  "next_index q i = (if i = size_sub (length (store q)) 1 then 0 else size_add i 1)"

inductive prod_step :: "'a spsc_t \<Rightarrow> 'a spsc_t \<Rightarrow> bool" where
  call: "prod s = PIdle \<Longrightarrow>
    prod_step s (s\<lparr>prod := PSizeHead obj (head (fifo s))\<rparr>)"
| check_ok: "prod s = PSizeHead obj h \<Longrightarrow> \<not> fifo_is_full ((fifo s)\<lparr>head := h\<rparr>) \<Longrightarrow>
    prod_step s (s\<lparr>prod := PChecked obj\<rparr>)"
| check_full: "prod s = PSizeHead obj h \<Longrightarrow> fifo_is_full ((fifo s)\<lparr>head := h\<rparr>) \<Longrightarrow>
    prod_step s (s\<lparr>prod := PAssertFailed\<rparr>)"
| load_head: "prod s = PChecked obj \<Longrightarrow>
    prod_step s (s\<lparr>prod := PLoaded obj (head (fifo s))\<rparr>)"
| write_store: "prod s = PLoaded obj h \<Longrightarrow>
    prod_step s (s\<lparr>fifo := (fifo s)\<lparr>store := (store (fifo s))[h := obj]\<rparr>, prod := PStored obj h\<rparr>)"
| publish_head: "prod s = PStored obj h \<Longrightarrow>
    prod_step s (s\<lparr>fifo := (fifo s)\<lparr>head := next_index (fifo s) h\<rparr>, prod := PIdle,
                   enq_log := enq_log s @ [obj]\<rparr>)"

inductive cons_step :: "'a spsc_t \<Rightarrow> 'a spsc_t \<Rightarrow> bool" where
  call: "consumer s = CIdle \<Longrightarrow>
    cons_step s (s\<lparr>consumer := CSizeHead (head (fifo s))\<rparr>)"
| check_empty: "consumer s = CSizeHead h \<Longrightarrow> fifo_size ((fifo s)\<lparr>head := h\<rparr>) = 0 \<Longrightarrow>
    cons_step s (s\<lparr>consumer := CIdle\<rparr>)"
| check_ok: "consumer s = CSizeHead h \<Longrightarrow> fifo_size ((fifo s)\<lparr>head := h\<rparr>) \<noteq> 0 \<Longrightarrow>
    cons_step s (s\<lparr>consumer := CChecked\<rparr>)"
| load_tail: "consumer s = CChecked \<Longrightarrow>
    cons_step s (s\<lparr>consumer := CLoaded (tail (fifo s))\<rparr>)"
| read_store: "consumer s = CLoaded t \<Longrightarrow>
    cons_step s (s\<lparr>consumer := CRead t (store (fifo s) ! t)\<rparr>)"
| publish_tail: "consumer s = CRead t obj \<Longrightarrow>
    cons_step s (s\<lparr>fifo := (fifo s)\<lparr>tail := next_index (fifo s) t\<rparr>, consumer := CIdle,
                   deq_log := deq_log s @ [obj]\<rparr>)"

inductive spsc_reach :: "nat \<Rightarrow> 'a spsc_t \<Rightarrow> bool" for count where
  init: "spsc_reach count (spsc_init count)"
| producer: "spsc_reach count s \<Longrightarrow> prod_step s s' \<Longrightarrow> spsc_reach count s'"
| consumer: "spsc_reach count s \<Longrightarrow> cons_step s s' \<Longrightarrow> spsc_reach count s'"

inductive_simps prod_step_simps: "prod_step s s'"
inductive_simps cons_step_simps: "cons_step s s'"

fun prod_inv :: "'a fifo_t \<Rightarrow> 'a prod_pc \<Rightarrow> bool" where
  "prod_inv q PIdle = True"
| "prod_inv q PAssertFailed = True"
| "prod_inv q (PSizeHead obj h) \<longleftrightarrow> h = head q"
| "prod_inv q (PChecked obj) \<longleftrightarrow> \<not> fifo_is_full q"
| "prod_inv q (PLoaded obj h) \<longleftrightarrow> \<not> fifo_is_full q \<and> h = head q"
| "prod_inv q (PStored obj h) \<longleftrightarrow> \<not> fifo_is_full q \<and> h = head q \<and> store q ! h = obj"

fun cons_inv :: "'a fifo_t \<Rightarrow> 'a cons_pc \<Rightarrow> bool" where
  "cons_inv q CIdle = True"
| "cons_inv q (CSizeHead h) \<longleftrightarrow> h < length (store q) \<and> (h \<noteq> tail q \<longrightarrow> head q \<noteq> tail q)"
| "cons_inv q CChecked \<longleftrightarrow> head q \<noteq> tail q"
| "cons_inv q (CLoaded t) \<longleftrightarrow> head q \<noteq> tail q \<and> t = tail q"
| "cons_inv q (CRead t obj) \<longleftrightarrow> head q \<noteq> tail q \<and> t = tail q \<and> obj = store q ! t"

definition spsc_inv :: "'a spsc_t \<Rightarrow> bool" where
  "spsc_inv s \<longleftrightarrow>
     fifo_inv (fifo s) \<and> prod_inv (fifo s) (prod s) \<and> cons_inv (fifo s) (consumer s) \<and>
     enq_log s = deq_log s @ fifo_list (fifo s)"

definition no_race :: "'a spsc_t \<Rightarrow> bool" where
  "no_race s \<longleftrightarrow>
     (case (prod s, consumer s) of
        (PLoaded obj h, CLoaded t) \<Rightarrow> h < length (store (fifo s)) \<and> t < length (store (fifo s)) \<and> h \<noteq> t
      | (PLoaded obj h, _) \<Rightarrow> h < length (store (fifo s))
      | (_, CLoaded t) \<Rightarrow> t < length (store (fifo s))
      | _ \<Rightarrow> True)"


section \<open>The invariant of the interleaving\<close>

lemma next_index_eq:
  "fifo_inv q \<Longrightarrow> i < length (store q) \<Longrightarrow> next_index q i = ring_next (length (store q)) i"
  using fifo_next_head(1) [of q i] by (auto simp: next_index_def split: if_splits)

lemma ring_slice_update_head:
  assumes "h < length xs" "t < length xs"
  shows "ring_slice (xs[h := x]) h t = ring_slice xs h t"
proof -
  have "xs[h := x] ! ((t + i) mod length xs) = xs ! ((t + i) mod length xs)"
    if "i < ring_span (length xs) h t" for i
    using ring_pos_neq_head [OF assms that] by simp
  then show ?thesis by (simp add: ring_slice_def)
qed

lemma fifo_write_slot:
  fixes obj :: "'a ptr"
  assumes "fifo_inv q"
  defines "q' \<equiv> q\<lparr>store := (store q)[head q := obj]\<rparr>"
  shows "fifo_inv q'" "fifo_list q' = fifo_list q" "fifo_is_full q' = fifo_is_full q"
  using assms
  by (simp_all add: q'_def fifo_inv_def fifo_list_def ring_slice_update_head
        fifo_is_full_def fifo_size_def Let_def)

lemma cons_inv_write_slot:
  assumes "fifo_inv q" "cons_inv q c"
  shows "cons_inv (q\<lparr>store := (store q)[head q := obj]\<rparr>) c"
  using assms by (cases c) auto

lemma fifo_push_published:
  assumes "fifo_inv q" "\<not> fifo_is_full q" "store q ! head q = obj"
  defines "q' \<equiv> q\<lparr>head := next_index q (head q)\<rparr>"
  shows "fifo_inv q'" "fifo_list q' = fifo_list q @ [obj]"
proof -
  have "(store q)[head q := obj] = store q" using assms(3) by auto
  then have "q' = q\<lparr>store := (store q)[head q := obj], head := ring_next (length (store q)) (head q)\<rparr>"
    using assms by (simp add: q'_def next_index_eq fifo_inv_def)
  from fifo_push_list [OF assms(1,2) this] show "fifo_inv q'" "fifo_list q' = fifo_list q @ [obj]"
    by simp_all
qed

lemma cons_inv_push:
  assumes "fifo_inv q" "\<not> fifo_is_full q" "store q ! head q = obj" "cons_inv q c"
  shows "cons_inv (q\<lparr>head := next_index q (head q)\<rparr>) c"
proof -
  let ?q = "q\<lparr>head := next_index q (head q)\<rparr>"
  have "head ?q \<noteq> tail ?q"
    using fifo_push_published [OF assms(1-3)] fifo_list_Nil [of ?q] by simp
  with assms(4) show ?thesis by (cases c) auto
qed

lemma fifo_pop_published:
  assumes "fifo_inv q" "head q \<noteq> tail q"
  defines "q' \<equiv> q\<lparr>tail := next_index q (tail q)\<rparr>"
  shows "fifo_inv q'" "fifo_list q = store q ! tail q # fifo_list q'" "\<not> fifo_is_full q'"
proof -
  have "q' = q\<lparr>tail := ring_next (length (store q)) (tail q)\<rparr>"
    using assms by (simp add: q'_def next_index_eq fifo_inv_def)
  from fifo_pop_list [OF assms(1,2) this]
  show i: "fifo_inv q'" and l: "fifo_list q = store q ! tail q # fifo_list q'"
    and "\<not> fifo_is_full q'"
    using mtq.abs_le_cap [OF assms(1)] by (auto simp: fifo_is_full_iff)
qed

lemma prod_inv_pop:
  assumes "fifo_inv q" "head q \<noteq> tail q" "prod_inv q p"
  shows "prod_inv (q\<lparr>tail := next_index q (tail q)\<rparr>) p"
  using assms fifo_pop_published(3) [OF assms(1,2)] by (cases p) auto

lemma fifo_is_full_head [simp]: "fifo_is_full (q\<lparr>head := head q\<rparr>) = fifo_is_full q"
  by (simp add: fifo_is_full_def fifo_size_def)

lemma spsc_inv_prod: "prod_step s s' \<Longrightarrow> spsc_inv s \<Longrightarrow> spsc_inv s'"
proof (induction rule: prod_step.induct)
  case (write_store s obj h)
  then show ?case
    by (auto simp: spsc_inv_def fifo_write_slot cons_inv_write_slot) (simp add: fifo_inv_def)
next
  case (publish_head s obj h)
  then show ?case
    by (auto simp: spsc_inv_def fifo_push_published cons_inv_push)
qed (auto simp: spsc_inv_def)

lemma fifo_size_head:
  assumes "fifo_inv q" "h < length (store q)"
  shows "fifo_size (q\<lparr>head := h\<rparr>) = 0 \<longleftrightarrow> h = tail q"
proof -
  have "fifo_inv (q\<lparr>head := h\<rparr>)" using assms by (simp add: fifo_inv_def)
  from fifo_size_span [OF this] show ?thesis using assms by (simp add: fifo_inv_def)
qed

lemma spsc_inv_cons: "cons_step s s' \<Longrightarrow> spsc_inv s \<Longrightarrow> spsc_inv s'"
proof (induction rule: cons_step.induct)
  case (publish_tail s t obj)
  then show ?case
    using fifo_pop_published [of "fifo s"] by (auto simp: spsc_inv_def prod_inv_pop)
next
  case (check_ok s h)
  then show ?case using fifo_size_head [of "fifo s" h] by (auto simp: spsc_inv_def)
qed (auto simp: spsc_inv_def fifo_inv_def)

lemma spsc_reach_inv:
  fixes s :: "'a spsc_t"
  assumes "count < 2 ^ 63 - 1" "spsc_reach count s"
  shows "spsc_inv s"
  using assms(2)
proof induction
  case init
  show ?case
    using fifo_create_inv [OF assms(1) refl, where ?'a = 'a] by (simp add: spsc_init_def spsc_inv_def)
qed (auto intro: spsc_inv_prod spsc_inv_cons)

lemma spsc_inv_no_race: "spsc_inv s \<Longrightarrow> no_race s"
  by (auto simp: no_race_def spsc_inv_def fifo_inv_def split: prod_pc.splits cons_pc.splits)


section \<open>Properties\<close>

text \<open>
  C18: under every interleaving of one producer and one consumer, the pointers
  handed out by \<open>dequeue\<close> are, in order, a prefix of the pointers published
  by \<open>enqueue\<close>; the rest is exactly the content of the ring; nothing is lost,
  duplicated or reordered.  Whenever the producer is about to write a slot
  and the consumer is about to read one, both slots are inside the vector and
  distinct.
\<close>
theorem spsc_safe:
  assumes "count < 2 ^ 63 - 1" "spsc_reach count s"
  shows "enq_log s = deq_log s @ fifo_list (fifo s) \<and>
    length (fifo_list (fifo s)) \<le> fifo_capacity (fifo s) \<and> no_race s"
  using spsc_reach_inv [OF assms] spsc_inv_no_race mtq.abs_le_cap
  by (auto simp: spsc_inv_def)

theorem spsc_safe_witness:
  "\<exists>s :: nat spsc_t. spsc_reach 1 s \<and> prod s = PSizeHead (Some 3) 0 \<and>
    enq_log s = deq_log s @ fifo_list (fifo s) \<and> no_race s"
proof -
  let ?s = "(spsc_init 1)\<lparr>prod := PSizeHead (Some (3::nat)) 0\<rparr>"
  have "prod_step (spsc_init 1) ((spsc_init 1)\<lparr>prod := PSizeHead (Some (3::nat)) (head (fifo (spsc_init 1 :: nat spsc_t)))\<rparr>)"
    by (rule prod_step.call) (simp add: spsc_init_def)
  then have r: "spsc_reach 1 ?s"
    using spsc_reach.producer [OF spsc_reach.init]
    by (simp add: spsc_init_def fifo_create_def fifo_new_def)
  show ?thesis using spsc_safe [OF _ r] r by (intro exI [of _ ?s]) simp
qed

end
