(* ===== verification/Ring_Buffer.thy ===== *)
theory Ring_Buffer
  imports Fifo
begin

text \<open>
  The disk ring buffer \<open>ring_buffer_t\<close> and the wrapping counter
  \<open>ring_counter_t\<close> of \<open>src/nvme/ring_t.hpp\<close>.  The template arguments
  \<open>SIZE\<close> and \<open>_VALID_THRESHOLD\<close> are the arguments \<open>cnt\<close> and
  \<open>thr\<close>.  The address of entry \<open>i\<close> is \<open>base i\<close> for the base
  pointer given to \<open>create\<close>.  The loops that only end when a valid counter
  is below the threshold (\<open>advance_valid\<close>, \<open>release_valid\<close>) are partial
  functions: not ending is the value \<open>None\<close>.

  The window of a buffer is the list of reserved indices from the tail to the
  head; the lemmas describe every operation by its effect on the window.
\<close>

record 'p ring_buffer_t =
  entries :: "(nat \<Rightarrow> 'p) ptr"
  valid :: "nat list"
  rb_head :: nat
  head_valid :: nat
  rb_tail :: nat
  cur_size :: nat

definition rb_new :: "'p ring_buffer_t" where
  "rb_new = \<lparr>entries = nullptr, valid = [], rb_head = 0, head_valid = 0, rb_tail = 0, cur_size = 0\<rparr>"

definition rb_create :: "nat \<Rightarrow> (nat \<Rightarrow> 'p) ptr \<Rightarrow> 'p ring_buffer_t \<Rightarrow> 'p ring_buffer_t" where
  "rb_create cnt es rb = rb\<lparr>entries := es, valid := replicate cnt 0\<rparr>"

definition rb_capacity :: "nat \<Rightarrow> nat" where
  "rb_capacity cnt = size_sub cnt 1"

definition rb_free_count :: "nat \<Rightarrow> 'p ring_buffer_t \<Rightarrow> nat" where
  "rb_free_count cnt rb = size_sub (rb_capacity cnt) (cur_size rb)"

definition rb_is_full :: "nat \<Rightarrow> 'p ring_buffer_t \<Rightarrow> bool" where
  "rb_is_full cnt rb \<longleftrightarrow> cur_size rb = rb_capacity cnt"

definition get_entry :: "'p ring_buffer_t \<Rightarrow> nat \<Rightarrow> 'p ptr" where
  "get_entry rb idx = map_option (\<lambda>base. base idx) (entries rb)"

definition rb_incr :: "nat \<Rightarrow> nat \<Rightarrow> nat" where
  "rb_incr cnt idx = (if idx = size_sub cnt 1 then 0 else size_add idx 1)"

definition rb_decr :: "nat \<Rightarrow> nat \<Rightarrow> nat" where
  "rb_decr cnt idx = (if idx = 0 then size_sub cnt 1 else size_sub idx 1)"

definition rb_sub :: "nat \<Rightarrow> nat \<Rightarrow> nat \<Rightarrow> nat" where
  "rb_sub cnt a b = (if a \<ge> b then size_sub a b else size_sub (size_add cnt a) b)"

definition rb_add :: "nat \<Rightarrow> nat \<Rightarrow> nat \<Rightarrow> nat" where
  "rb_add cnt a b = (let res = size_add a b in if res \<ge> cnt then size_sub res cnt else res)"

definition reserve_nocheck :: "nat \<Rightarrow> 'p ring_buffer_t \<Rightarrow> ((nat \<times> 'p ptr) \<times> 'p ring_buffer_t) result" where
  "reserve_nocheck cnt rb =
     (let idx = rb_head rb; next_head = rb_incr cnt (rb_head rb) in
      bind_result (vec_set (valid rb) next_head 0) (\<lambda>v.
      Inr ((idx, get_entry rb idx),
           rb\<lparr>valid := v, rb_head := next_head, cur_size := size_add (cur_size rb) 1\<rparr>)))"

definition reserve :: "nat \<Rightarrow> 'p ring_buffer_t \<Rightarrow> ((nat \<times> 'p ptr) ptr \<times> 'p ring_buffer_t) result" where
  "reserve cnt rb =
     (if rb_is_full cnt rb then Inr (nullptr, rb)
      else
        let idx = rb_head rb; next_head = rb_incr cnt (rb_head rb) in
        bind_result (vec_set (valid rb) next_head 0) (\<lambda>v.
        Inr (Some (idx, get_entry rb idx),
             rb\<lparr>valid := v, rb_head := next_head, cur_size := size_add (cur_size rb) 1\<rparr>)))"

fun reserve_batch_loop :: "nat \<Rightarrow> nat \<Rightarrow> 'p ring_buffer_t \<Rightarrow> ('p ptr list \<times> 'p ring_buffer_t) result"
where
  "reserve_batch_loop cnt 0 rb = Inr ([], rb)"
| "reserve_batch_loop cnt (Suc n) rb =
     (let e = get_entry rb (rb_head rb); next_head = rb_incr cnt (rb_head rb) in
      bind_result (vec_set (valid rb) next_head 0) (\<lambda>v.
      bind_result (reserve_batch_loop cnt n (rb\<lparr>valid := v, rb_head := next_head\<rparr>)) (\<lambda>(es, rb').
      Inr (e # es, rb'))))"

definition reserve_batch_nocheck ::
    "nat \<Rightarrow> nat \<Rightarrow> 'p ring_buffer_t \<Rightarrow> ((nat \<times> 'p ptr list) \<times> 'p ring_buffer_t) result" where
  "reserve_batch_nocheck cnt n rb =
     bind_result (reserve_batch_loop cnt n rb) (\<lambda>(es, rb').
     Inr ((rb_head rb, es), rb'\<lparr>cur_size := size_add (cur_size rb') n\<rparr>))"

definition incr_valid :: "nat \<Rightarrow> nat \<Rightarrow> 'p ring_buffer_t \<Rightarrow> 'p ring_buffer_t result" where
  "incr_valid idx amount rb =
     bind_result (vec_get (valid rb) idx) (\<lambda>v.
     bind_result (vec_set (valid rb) idx (size_add v amount)) (\<lambda>vs.
     Inr (rb\<lparr>valid := vs\<rparr>)))"

definition is_valid :: "nat \<Rightarrow> nat \<Rightarrow> 'p ring_buffer_t \<Rightarrow> bool result" where
  "is_valid thr idx rb = bind_result (vec_get (valid rb) idx) (\<lambda>v. Inr (v \<ge> thr))"

definition is_tail_valid :: "nat \<Rightarrow> 'p ring_buffer_t \<Rightarrow> bool result" where
  "is_tail_valid thr rb = is_valid thr (rb_tail rb) rb"

partial_function (option) advance_valid ::
    "nat \<Rightarrow> nat \<Rightarrow> nat \<Rightarrow> 'p ring_buffer_t \<Rightarrow> (nat \<times> 'p ring_buffer_t) result option" where
  "advance_valid cnt thr n rb =
     (case vec_get (valid rb) (head_valid rb) of
        Inl e \<Rightarrow> Some (Inl e)
      | Inr v \<Rightarrow>
          if v \<ge> thr then
            advance_valid cnt thr (size_add n 1) (rb\<lparr>head_valid := rb_incr cnt (head_valid rb)\<rparr>)
          else Some (Inr (n, rb)))"

definition release :: "nat \<Rightarrow> 'p ring_buffer_t \<Rightarrow> 'p ring_buffer_t" where
  "release cnt rb = rb\<lparr>rb_tail := rb_incr cnt (rb_tail rb), cur_size := size_sub (cur_size rb) 1\<rparr>"

partial_function (option) release_valid ::
    "nat \<Rightarrow> nat \<Rightarrow> nat \<Rightarrow> 'p ring_buffer_t \<Rightarrow> (nat \<times> 'p ring_buffer_t) result option" where
  "release_valid cnt thr n rb =
     (case vec_get (valid rb) (rb_tail rb) of
        Inl e \<Rightarrow> Some (Inl e)
      | Inr v \<Rightarrow>
          if v \<ge> thr then
            release_valid cnt thr (size_add n 1)
              (rb\<lparr>valid := (valid rb)[rb_tail rb := 0],
                  rb_tail := rb_incr cnt (rb_tail rb),
                  cur_size := size_sub (cur_size rb) 1\<rparr>)
          else Some (Inr (n, rb)))"

record ring_counter_t =
  rc_abs :: nat
  rc_idx :: nat

definition ring_counter_new :: "nat \<Rightarrow> ring_counter_t" where
  "ring_counter_new a = \<lparr>rc_abs = a, rc_idx = 0\<rparr>"

definition counter_idx :: "nat \<Rightarrow> ring_counter_t \<Rightarrow> nat" where
  "counter_idx divisor c = rc_idx c div divisor"

definition counter_offset :: "nat \<Rightarrow> ring_counter_t \<Rightarrow> nat" where
  "counter_offset divisor c = rc_idx c mod divisor"

definition counter_incr :: "nat \<Rightarrow> ring_counter_t \<Rightarrow> ring_counter_t" where
  "counter_incr ring_size c =
     (let i = size_add (rc_idx c) 1 in
      \<lparr>rc_abs = size_add (rc_abs c) 1, rc_idx = if i = ring_size then 0 else i\<rparr>)"

definition counter_add :: "nat \<Rightarrow> nat \<Rightarrow> ring_counter_t \<Rightarrow> ring_counter_t" where
  "counter_add ring_size rhs c =
     (let i = size_add (rc_idx c) rhs in
      \<lparr>rc_abs = size_add (rc_abs c) rhs,
       rc_idx = if i \<ge> ring_size then size_sub i ring_size else i\<rparr>)"


section \<open>Invariant and window\<close>

definition rb_inv :: "nat \<Rightarrow> 'p ring_buffer_t \<Rightarrow> bool" where
  "rb_inv cnt rb \<longleftrightarrow>
     2 \<le> cnt \<and> cnt < 2 ^ 31 \<and> length (valid rb) = cnt \<and>
     rb_head rb < cnt \<and> rb_tail rb < cnt \<and>
     cur_size rb = ring_span cnt (rb_head rb) (rb_tail rb) \<and>
     valid rb ! rb_head rb = 0"

definition window :: "nat \<Rightarrow> 'p ring_buffer_t \<Rightarrow> nat list" where
  "window cnt rb = ring_slice [0..<cnt] (rb_head rb) (rb_tail rb)"

lemma rb_incr_next: "0 < cnt \<Longrightarrow> cnt < 2 ^ 31 \<Longrightarrow> i < cnt \<Longrightarrow> rb_incr cnt i = ring_next cnt i"
  by (auto simp: rb_incr_def ring_next_def SIZE_MOD_def)

lemma rb_capacity_eq: "2 \<le> cnt \<Longrightarrow> cnt < 2 ^ 31 \<Longrightarrow> rb_capacity cnt = cnt - 1"
  by (simp add: rb_capacity_def SIZE_MOD_def)

lemma rb_cur_size_lt: "rb_inv cnt rb \<Longrightarrow> cur_size rb < cnt"
  by (simp add: rb_inv_def ring_span_lt)

lemma length_window: "rb_inv cnt rb \<Longrightarrow> length (window cnt rb) = cur_size rb"
  by (simp add: rb_inv_def window_def)

lemma window_mem_iff:
  assumes "rb_inv cnt rb"
  shows "i \<in> set (window cnt rb) \<longleftrightarrow>
    (\<exists>k < cur_size rb. i = (rb_tail rb + k) mod cnt)"
  using assms by (auto simp: window_def ring_slice_def rb_inv_def)

lemma window_props:
  assumes "rb_inv cnt rb" "i \<in> set (window cnt rb)"
  shows "i < cnt" "i \<noteq> rb_head rb"
proof -
  from assms obtain k where k: "k < cur_size rb" "i = (rb_tail rb + k) mod cnt"
    by (auto simp: window_mem_iff)
  with assms ring_pos_neq_head [of "rb_head rb" cnt "rb_tail rb" k]
  show "i < cnt" "i \<noteq> rb_head rb" by (auto simp: rb_inv_def)
qed

lemma window_push:
  assumes "rb_inv cnt rb" "cur_size rb < cnt - 1" "rb_tail rb' = rb_tail rb"
    "rb_head rb' = ring_next cnt (rb_head rb)"
  shows "window cnt rb' = window cnt rb @ [rb_head rb]"
proof -
  have "[0..<cnt][rb_head rb := rb_head rb] = [0..<cnt]"
    using assms(1) by (simp add: list_update_same_conv rb_inv_def)
  with ring_slice_push [of "rb_head rb" "[0..<cnt]" "rb_tail rb" "rb_head rb"] assms
  show ?thesis by (simp add: window_def rb_inv_def)
qed

lemma window_pop:
  assumes "rb_inv cnt rb" "0 < cur_size rb" "rb_head rb' = rb_head rb"
    "rb_tail rb' = ring_next cnt (rb_tail rb)"
  shows "window cnt rb = rb_tail rb # window cnt rb'"
  using assms ring_slice_pop [of "rb_head rb" "[0..<cnt]" "rb_tail rb"]
  by (simp add: window_def rb_inv_def) (auto simp: ring_span_def split: if_splits)

lemma reserve_nocheck_spec:
  assumes "rb_inv cnt rb" "cur_size rb < cnt - 1"
  shows "\<exists>rb'. reserve_nocheck cnt rb = Inr ((rb_head rb, get_entry rb (rb_head rb)), rb') \<and>
     rb_inv cnt rb' \<and> window cnt rb' = window cnt rb @ [rb_head rb] \<and>
     cur_size rb' = Suc (cur_size rb) \<and> entries rb' = entries rb \<and> head_valid rb' = head_valid rb \<and>
     valid rb' = (valid rb)[rb_head rb' := 0]"
proof -
  let ?nh = "ring_next cnt (rb_head rb)"
  let ?rb = "rb\<lparr>valid := (valid rb)[?nh := 0], rb_head := ?nh, cur_size := Suc (cur_size rb)\<rparr>"
  have nh: "rb_incr cnt (rb_head rb) = ?nh" "?nh < cnt"
    using assms(1) by (auto simp: rb_inv_def rb_incr_next)
  have sz: "size_add (cur_size rb) (Suc 0) = Suc (cur_size rb)"
    using assms by (intro size_add_small [THEN trans]) (auto simp: SIZE_MOD_def rb_inv_def)
  have "reserve_nocheck cnt rb = Inr ((rb_head rb, get_entry rb (rb_head rb)), ?rb)"
    using assms(1) nh sz by (simp add: reserve_nocheck_def rb_inv_def Let_def)
  moreover have "rb_inv cnt ?rb"
    using assms nh(2) ring_span_next_head [of "rb_head rb" cnt "rb_tail rb"]
    by (simp add: rb_inv_def)
  moreover have "window cnt ?rb = window cnt rb @ [rb_head rb]"
    using assms by (intro window_push) simp_all
  ultimately show ?thesis by simp
qed

lemma reserve_eq_nocheck:
  "\<not> rb_is_full cnt rb \<Longrightarrow>
   reserve cnt rb = bind_result (reserve_nocheck cnt rb) (\<lambda>(r, rb'). Inr (Some r, rb'))"
  by (cases "vec_set (valid rb) (rb_incr cnt (rb_head rb)) 0")
    (simp_all add: reserve_def reserve_nocheck_def Let_def)

lemma release_spec:
  assumes "rb_inv cnt rb" "0 < cur_size rb"
  shows "rb_inv cnt (release cnt rb)" "window cnt rb = rb_tail rb # window cnt (release cnt rb)"
    "cur_size (release cnt rb) = cur_size rb - 1"
proof -
  have t: "rb_incr cnt (rb_tail rb) = ring_next cnt (rb_tail rb)"
    using assms(1) by (auto simp: rb_inv_def rb_incr_next)
  have c: "size_sub (cur_size rb) (Suc 0) = cur_size rb - Suc 0"
    using assms rb_cur_size_lt [OF assms(1)] by (simp add: SIZE_MOD_def rb_inv_def)
  have "rb_head rb \<noteq> rb_tail rb" using assms by (auto simp: rb_inv_def)
  then show "rb_inv cnt (release cnt rb)"
    using assms t c ring_span_next_tail [of "rb_head rb" cnt "rb_tail rb"]
    by (simp add: rb_inv_def release_def)
  show "window cnt rb = rb_tail rb # window cnt (release cnt rb)"
    using assms t by (intro window_pop) (simp_all add: release_def)
  show "cur_size (release cnt rb) = cur_size rb - 1"
    using c by (simp add: release_def)
qed

lemma incr_valid_spec:
  assumes "rb_inv cnt rb" "i \<in> set (window cnt rb)"
  shows "\<exists>rb'. incr_valid i amount rb = Inr rb' \<and> rb_inv cnt rb' \<and> window cnt rb' = window cnt rb \<and>
    cur_size rb' = cur_size rb"
  using assms window_props [OF assms]
  by (auto simp: incr_valid_def rb_inv_def window_def)

lemma rb_create_inv:
  assumes "2 \<le> cnt" "cnt < 2 ^ 31"
  shows "rb_inv cnt (rb_create cnt es rb_new)"
  using assms by (simp add: rb_inv_def rb_create_def rb_new_def ring_span_def)


section \<open>Loops over the valid counters\<close>

lemma window_hd:
  assumes "rb_inv cnt rb" "window cnt rb = i # js"
  shows "i = rb_tail rb" "0 < cur_size rb"
proof -
  have "cur_size rb = length (i # js)" using assms length_window by metis
  then show s: "0 < cur_size rb" by simp
  from release_spec(2) [OF assms(1) s] assms(2) show "i = rb_tail rb" by simp
qed

lemma release_valid_step:
  assumes "rb_inv cnt rb" "0 < cur_size rb"
  defines "rb' \<equiv> rb\<lparr>valid := (valid rb)[rb_tail rb := 0], rb_tail := rb_incr cnt (rb_tail rb),
      cur_size := size_sub (cur_size rb) 1\<rparr>"
  shows "rb_inv cnt rb'" "window cnt rb = rb_tail rb # window cnt rb'"
    "cur_size rb' = cur_size rb - 1"
proof -
  let ?r = "release cnt rb"
  have *: "rb' = ?r\<lparr>valid := (valid rb)[rb_tail rb := 0]\<rparr>"
    by (simp add: rb'_def release_def)
  have "rb_head rb \<noteq> rb_tail rb" using assms by (auto simp: rb_inv_def)
  then show "rb_inv cnt rb'"
    using release_spec(1) [OF assms(1,2)] assms(1) by (simp add: * rb_inv_def release_def)
  show "window cnt rb = rb_tail rb # window cnt rb'"
    using release_spec(2) [OF assms(1,2)] by (simp add: * window_def)
  show "cur_size rb' = cur_size rb - 1"
    using release_spec(3) [OF assms(1,2)] by (simp add: *)
qed

lemma window_distinct:
  assumes "rb_inv cnt rb"
  shows "distinct (window cnt rb)"
  using assms
proof (induction "cur_size rb" arbitrary: rb)
  case 0
  then show ?case using length_window by fastforce
next
  case (Suc k)
  then have s: "0 < cur_size rb" by simp
  note r = release_spec [OF Suc.prems s]
  have "rb_tail rb \<notin> set (window cnt (release cnt rb))"
  proof
    assume "rb_tail rb \<in> set (window cnt (release cnt rb))"
    then obtain j where j: "j < cur_size rb - 1"
        "rb_tail rb = (rb_tail (release cnt rb) + j) mod cnt"
      using window_mem_iff [OF r(1)] r(3) by auto
    have "rb_tail (release cnt rb) = Suc (rb_tail rb) mod cnt"
      using Suc.prems by (simp add: release_def rb_inv_def rb_incr_next ring_next_mod)
    with j have *: "rb_tail rb = (rb_tail rb + Suc j) mod cnt" by (simp add: mod_simps)
    have "Suc j < cnt" using j rb_cur_size_lt [OF Suc.prems] by simp
    with * Suc.prems show False
      by (auto simp: rb_inv_def mod_if split: if_splits)
  qed
  moreover have "distinct (window cnt (release cnt rb))"
    using Suc.hyps(1) [OF _ r(1)] Suc.hyps(2) r(3) by simp
  ultimately show ?case using r(2) by simp
qed

lemma release_valid_loop:
  assumes "rb_inv cnt rb" "0 < thr" "n + cur_size rb < SIZE_MOD"
  defines "k \<equiv> length (takeWhile (\<lambda>i. thr \<le> valid rb ! i) (window cnt rb))"
  shows "\<exists>rb'. release_valid cnt thr n rb = Some (Inr (n + k, rb')) \<and> rb_inv cnt rb' \<and>
    window cnt rb' = drop k (window cnt rb)"
  using assms(1,3) unfolding k_def
proof (induction "window cnt rb" arbitrary: rb n)
  case Nil
  then have "rb_head rb = rb_tail rb"
    using length_window [OF Nil.prems(1)] by (auto simp: rb_inv_def)
  with Nil assms(2) show ?case
    by (simp add: release_valid.simps rb_inv_def)
next
  case (Cons i js)
  note h = window_hd [OF Cons.prems(1) Cons.hyps(2) [symmetric]]
  have t: "rb_tail rb < length (valid rb)" using Cons.prems(1) by (simp add: rb_inv_def)
  let ?rb = "rb\<lparr>valid := (valid rb)[rb_tail rb := 0], rb_tail := rb_incr cnt (rb_tail rb),
      cur_size := size_sub (cur_size rb) 1\<rparr>"
  note st = release_valid_step [OF Cons.prems(1) h(2)]
  have w: "window cnt ?rb = js" using st(2) Cons.hyps(2) by simp
  have "i \<notin> set js" using window_distinct [OF Cons.prems(1)] Cons.hyps(2) by (metis distinct.simps(2))
  then have "valid ?rb ! x = valid rb ! x" if "x \<in> set js" for x
    using that h(1) by (cases "x = rb_tail rb") auto
  then have same: "takeWhile (\<lambda>i. thr \<le> valid ?rb ! i) js = takeWhile (\<lambda>i. thr \<le> valid rb ! i) js"
    by (intro takeWhile_cong) simp_all
  show ?case
  proof (cases "thr \<le> valid rb ! i")
    case True
    have n: "size_add n 1 = n + 1" using Cons.prems(2) h(2) by simp
    have bd: "n + 1 + cur_size ?rb < SIZE_MOD" using Cons.prems(2) st(3) h(2) by simp
    have "release_valid cnt thr n rb = release_valid cnt thr (n + 1) ?rb"
      using True h(1) t n by (subst release_valid.simps) simp
    with Cons.hyps(1) [OF w [symmetric] st(1) bd] True same w Cons.hyps(2) [symmetric]
    show ?thesis by simp
  next
    case False
    then show ?thesis
      using h(1) t Cons.prems(1) Cons.hyps(2) [symmetric] by (simp add: release_valid.simps)
  qed
qed


lemma advance_valid_loop:
  assumes "rb_inv cnt rb" "0 < thr" "head_valid rb < cnt"
    "n + ring_span cnt (rb_head rb) (head_valid rb) < SIZE_MOD"
  defines "ahead \<equiv> ring_slice (valid rb) (rb_head rb) (head_valid rb)"
  defines "k \<equiv> length (takeWhile (\<lambda>v. thr \<le> v) ahead)"
  shows "advance_valid cnt thr n rb =
    Some (Inr (n + k, rb\<lparr>head_valid := (head_valid rb + k) mod cnt\<rparr>))"
  using assms(1,3,4) unfolding k_def ahead_def
proof (induction "ring_span cnt (rb_head rb) (head_valid rb)" arbitrary: rb n)
  case 0
  then have "rb_head rb = head_valid rb" by (simp add: rb_inv_def)
  with 0 assms(2) show ?case
    by (subst advance_valid.simps) (auto simp: rb_inv_def ring_slice_def)
next
  case (Suc d)
  have ne: "rb_head rb \<noteq> head_valid rb" using Suc.hyps(2) by auto
  have lv: "head_valid rb < length (valid rb)" "length (valid rb) = cnt" "rb_head rb < cnt"
    using Suc.prems by (auto simp: rb_inv_def)
  have nx: "rb_incr cnt (head_valid rb) = ring_next cnt (head_valid rb)"
    using Suc.prems by (simp add: rb_inv_def rb_incr_next)
  let ?rb = "rb\<lparr>head_valid := ring_next cnt (head_valid rb)\<rparr>"
  have sl: "ring_slice (valid rb) (rb_head rb) (head_valid rb) =
      valid rb ! head_valid rb # ring_slice (valid rb) (rb_head rb) (ring_next cnt (head_valid rb))"
    using ring_slice_pop [of "rb_head rb" "valid rb" "head_valid rb"] ne lv by simp
  show ?case
  proof (cases "thr \<le> valid rb ! head_valid rb")
    case True
    have d: "d = ring_span cnt (rb_head ?rb) (head_valid ?rb)"
      using Suc.hyps(2) ring_span_next_tail [of "rb_head rb" cnt "head_valid rb"] ne lv by simp
    have n: "size_add n 1 = n + 1" using Suc.prems(3) Suc.hyps(2) by simp
    have i: "rb_inv cnt ?rb" "head_valid ?rb < cnt" "n + 1 + ring_span cnt (rb_head ?rb) (head_valid ?rb) < SIZE_MOD"
      using Suc.prems Suc.hyps(2) d by (simp_all add: rb_inv_def)
    have "advance_valid cnt thr n rb = advance_valid cnt thr (n + 1) ?rb"
      using True lv nx n by (subst advance_valid.simps) simp
    with Suc.hyps(1) [OF d i] True sl lv show ?thesis
      by (simp add: ring_next_mod mod_simps)
  next
    case False
    with sl lv show ?thesis by (subst advance_valid.simps) simp
  qed
qed


section \<open>Batched reservation\<close>

fun reserve_times :: "nat \<Rightarrow> nat \<Rightarrow> 'p ring_buffer_t \<Rightarrow> ('p ptr list \<times> 'p ring_buffer_t) result" where
  "reserve_times cnt 0 rb = Inr ([], rb)"
| "reserve_times cnt (Suc n) rb =
     bind_result (reserve_nocheck cnt rb) (\<lambda>((idx, e), rb').
     bind_result (reserve_times cnt n rb') (\<lambda>(es, rb'').
     Inr (e # es, rb'')))"

lemma get_entry_update [simp]:
  "get_entry (rb\<lparr>valid := v, rb_head := h\<rparr>) i = get_entry rb i"
  "get_entry (rb\<lparr>cur_size := c\<rparr>) i = get_entry rb i"
  by (simp_all add: get_entry_def)

lemma rb_update_commute:
  "rb\<lparr>cur_size := c, valid := v, rb_head := h\<rparr> = rb\<lparr>valid := v, rb_head := h, cur_size := c\<rparr>"
  by (cases rb) simp

lemma reserve_batch_loop_size:
  "reserve_batch_loop cnt n rb = Inr (es, rb') \<Longrightarrow> cur_size rb' = cur_size rb"
  by (induction n arbitrary: rb es) (fastforce simp: Let_def bind_result_Inr_iff)+

lemma reserve_batch_loop_cur_size:
  "reserve_batch_loop cnt n (rb\<lparr>cur_size := c\<rparr>) =
    bind_result (reserve_batch_loop cnt n rb) (\<lambda>(es, rb'). Inr (es, rb'\<lparr>cur_size := c\<rparr>))"
proof (induction n arbitrary: rb)
  case (Suc n)
  show ?case
  proof (cases "vec_set (valid rb) (rb_incr cnt (rb_head rb)) 0")
    case (Inr v)
    let ?r = "rb\<lparr>valid := v, rb_head := rb_incr cnt (rb_head rb)\<rparr>"
    show ?thesis
      using Inr Suc [of ?r]
      by (cases "reserve_batch_loop cnt n ?r") (auto simp: Let_def rb_update_commute)
  qed (simp add: Let_def)
qed simp

lemma reserve_batch_loop_times:
  assumes "cur_size rb + n < SIZE_MOD"
  shows "reserve_times cnt n rb =
    bind_result (reserve_batch_loop cnt n rb) (\<lambda>(es, rb').
    Inr (es, rb'\<lparr>cur_size := size_add (cur_size rb') n\<rparr>))"
  using assms
proof (induction n arbitrary: rb)
  case (Suc n)
  show ?case
  proof (cases "vec_set (valid rb) (rb_incr cnt (rb_head rb)) 0")
    case (Inr v)
    let ?r = "rb\<lparr>valid := v, rb_head := rb_incr cnt (rb_head rb)\<rparr>"
    let ?r1 = "?r\<lparr>cur_size := Suc (cur_size rb)\<rparr>"
    have IH: "reserve_times cnt n ?r1 = bind_result (reserve_batch_loop cnt n ?r1)
        (\<lambda>(es, rb'). Inr (es, rb'\<lparr>cur_size := size_add (cur_size rb') n\<rparr>))"
      using Suc by simp
    have "reserve_times cnt (Suc n) rb = bind_result (reserve_times cnt n ?r1) (\<lambda>(es, rb'').
        Inr (get_entry rb (rb_head rb) # es, rb''))"
      using Inr Suc.prems by (simp add: reserve_nocheck_def Let_def)
    with IH Inr Suc.prems show ?thesis
      using reserve_batch_loop_size [of cnt n ?r] 
        reserve_batch_loop_cur_size [of cnt n "Suc (cur_size rb)" ?r]
      by (cases "reserve_batch_loop cnt n ?r") (auto simp: Let_def)
  qed (simp add: reserve_nocheck_def Let_def)
qed (simp add: size_add_def)

lemma reserve_times_spec:
  assumes "rb_inv cnt rb" "cur_size rb + n < cnt"
  shows "\<exists>es rb'. reserve_times cnt n rb = Inr (es, rb') \<and> rb_inv cnt rb' \<and>
    (\<exists>new. window cnt rb' = window cnt rb @ new \<and> length new = n \<and> es = map (get_entry rb) new)"
  using assms
proof (induction n arbitrary: rb)
  case (Suc n)
  have "cur_size rb < cnt - 1" using Suc.prems(2) by simp
  from reserve_nocheck_spec [OF Suc.prems(1) this] obtain rb1 where r:
    "reserve_nocheck cnt rb = Inr ((rb_head rb, get_entry rb (rb_head rb)), rb1)"
    "rb_inv cnt rb1" "window cnt rb1 = window cnt rb @ [rb_head rb]"
    "cur_size rb1 = Suc (cur_size rb)" "entries rb1 = entries rb" by auto
  have ge: "get_entry rb1 = get_entry rb" using r(5) by (simp add: get_entry_def fun_eq_iff)
  from Suc.IH [OF r(2)] r(4) Suc.prems(2) obtain es rb' new where n:
    "reserve_times cnt n rb1 = Inr (es, rb')" "rb_inv cnt rb'"
    "window cnt rb' = window cnt rb1 @ new" "length new = n" "es = map (get_entry rb1) new" by auto
  show ?case
    using r(1,3) n ge by (auto intro: exI [of _ "rb_head rb # new"])
qed simp


section \<open>Properties\<close>

datatype rb_op = RbReserve | RbReserveBatch nat | RbIncrValid nat nat | RbRelease | RbReleaseValid

inductive rb_step :: "nat \<Rightarrow> nat \<Rightarrow> 'p ring_buffer_t \<Rightarrow> rb_op \<Rightarrow> 'p ring_buffer_t \<Rightarrow> bool" for cnt thr where
  reserve: "reserve cnt rb = Inr (r, rb') \<Longrightarrow> rb_step cnt thr rb RbReserve rb'"
| batch: "n \<le> rb_free_count cnt rb \<Longrightarrow> reserve_batch_nocheck cnt n rb = Inr (r, rb') \<Longrightarrow>
    rb_step cnt thr rb (RbReserveBatch n) rb'"
| incr_valid: "i \<in> set (window cnt rb) \<Longrightarrow> incr_valid i amount rb = Inr rb' \<Longrightarrow>
    rb_step cnt thr rb (RbIncrValid i amount) rb'"
| release: "0 < cur_size rb \<Longrightarrow> rb_step cnt thr rb RbRelease (release cnt rb)"
| release_valid: "release_valid cnt thr 0 rb = Some (Inr (k, rb')) \<Longrightarrow>
    rb_step cnt thr rb RbReleaseValid rb'"

inductive rb_reach :: "nat \<Rightarrow> nat \<Rightarrow> 'p ring_buffer_t \<Rightarrow> bool" for cnt thr where
  init: "rb_reach cnt thr (rb_create cnt es rb_new)"
| step: "rb_reach cnt thr rb \<Longrightarrow> rb_step cnt thr rb op rb' \<Longrightarrow> rb_reach cnt thr rb'"

lemma rb_not_full: "rb_inv cnt rb \<Longrightarrow> \<not> rb_is_full cnt rb \<Longrightarrow> cur_size rb < cnt - 1"
  using rb_cur_size_lt [of cnt rb] by (auto simp: rb_is_full_def rb_inv_def rb_capacity_eq)

lemma rb_free_count_eq: "rb_inv cnt rb \<Longrightarrow> rb_free_count cnt rb = cnt - 1 - cur_size rb"
  using rb_cur_size_lt [of cnt rb]
  by (auto simp: rb_free_count_def rb_inv_def rb_capacity_eq SIZE_MOD_def)

lemma reserve_inv:
  assumes "rb_inv cnt rb" "reserve cnt rb = Inr (r, rb')"
  shows "rb_inv cnt rb'"
proof (cases "rb_is_full cnt rb")
  case True
  with assms show ?thesis by (simp add: reserve_def)
next
  case False
  with assms reserve_nocheck_spec [OF assms(1) rb_not_full [OF assms(1)]] show ?thesis
    by (auto simp: reserve_eq_nocheck)
qed

lemma reserve_batch_times:
  assumes "rb_inv cnt rb" "n \<le> rb_free_count cnt rb"
  shows "reserve_batch_nocheck cnt n rb =
    bind_result (reserve_times cnt n rb) (\<lambda>(es, rb'). Inr ((rb_head rb, es), rb'))"
proof -
  have "cur_size rb + n < SIZE_MOD"
    using assms(2) rb_cur_size_lt [OF assms(1)] assms(1)
    unfolding rb_free_count_eq [OF assms(1)] by (auto simp: rb_inv_def SIZE_MOD_def)
  from reserve_batch_loop_times [OF this] show ?thesis
    by (cases "reserve_batch_loop cnt n rb") (auto simp: reserve_batch_nocheck_def)
qed

lemma rb_reach_inv:
  assumes "2 \<le> cnt" "cnt < 2 ^ 31" "0 < thr" "rb_reach cnt thr rb"
  shows "rb_inv cnt rb"
  using assms(4)
proof induction
  case (init es)
  show ?case using rb_create_inv [OF assms(1,2)] .
next
  case (step rb op rb')
  note inv = step.IH
  from step.hyps(2) show ?case
  proof cases
    case (batch n r)
    then have "cur_size rb + n < cnt"
      using inv rb_cur_size_lt [OF inv] by (simp add: rb_free_count_eq)
    from reserve_times_spec [OF inv this] reserve_batch_times [OF inv batch(2)] batch(3)
    show ?thesis by auto
  next
    case (incr_valid i amount)
    then show ?thesis using incr_valid_spec [OF inv incr_valid(2), of amount] by auto
  next
    case (release_valid k)
    have "0 + cur_size rb < SIZE_MOD"
      using rb_cur_size_lt [OF inv] inv by (simp add: rb_inv_def SIZE_MOD_def)
    from release_valid_loop [OF inv assms(3) this] release_valid show ?thesis by auto
  qed (use inv reserve_inv release_spec in auto)
qed



text \<open>
  \<open>release_valid\<close> returns, releases exactly the longest run of entries
  from the tail whose counters reached the threshold, and reports their number;
  it stops at the head at the latest, so \<open>cur_size\<close> does not wrap.
\<close>
theorem release_valid_spec:
  assumes "rb_inv cnt rb" "0 < thr"
  shows "\<exists>k rb'. release_valid cnt thr 0 rb = Some (Inr (k, rb')) \<and>
    k = length (takeWhile (\<lambda>i. thr \<le> valid rb ! i) (window cnt rb)) \<and>
    window cnt rb' = drop k (window cnt rb) \<and> cur_size rb' = cur_size rb - k"
proof -
  have "0 + cur_size rb < SIZE_MOD"
    using rb_cur_size_lt [OF assms(1)] assms(1) by (simp add: rb_inv_def SIZE_MOD_def)
  from release_valid_loop [OF assms this] obtain rb' where r:
    "release_valid cnt thr 0 rb = Some (Inr (length (takeWhile (\<lambda>i. thr \<le> valid rb ! i) (window cnt rb)), rb'))"
    "rb_inv cnt rb'"
    "window cnt rb' = drop (length (takeWhile (\<lambda>i. thr \<le> valid rb ! i) (window cnt rb))) (window cnt rb)"
    by auto
  then show ?thesis
    using length_window [OF r(2)] length_window [OF assms(1)] by auto
qed

theorem release_valid_spec_witness:
  "let rb = \<lparr>entries = nullptr, valid = [2, 1, 0, 2], rb_head = 2, head_valid = 0, rb_tail = 3,
       cur_size = 3\<rparr> :: nat ring_buffer_t
   in rb_inv 4 rb \<and> (\<exists>k rb'. release_valid 4 2 0 rb = Some (Inr (k, rb')) \<and>
      window 4 rb' = drop k (window 4 rb))"
proof -
  let ?rb = "\<lparr>entries = nullptr, valid = [2, 1, 0, 2], rb_head = 2, head_valid = 0, rb_tail = 3,
       cur_size = 3\<rparr> :: nat ring_buffer_t"
  have i: "rb_inv 4 ?rb" by (simp add: rb_inv_def ring_span_def)
  show ?thesis using release_valid_spec [OF i, of 2] i by auto
qed

text \<open>
  \<open>reserve_batch_nocheck(n)\<close> is \<open>n\<close> single reservations: the same
  entries, the same buffer afterwards; within \<open>free_count\<close> it appends
  exactly \<open>n\<close> fresh indices to the window.
\<close>
theorem reserve_batch_is_iterated_reserve:
  assumes "rb_inv cnt rb" "n \<le> rb_free_count cnt rb"
  shows "\<exists>es rb' new. reserve_times cnt n rb = Inr (es, rb') \<and>
    reserve_batch_nocheck cnt n rb = Inr ((rb_head rb, es), rb') \<and> rb_inv cnt rb' \<and>
    window cnt rb' = window cnt rb @ new \<and> length new = n \<and> es = map (get_entry rb) new"
proof -
  have "cur_size rb + n < cnt"
    using assms rb_cur_size_lt [OF assms(1)] by (simp add: rb_free_count_eq)
  from reserve_times_spec [OF assms(1) this] show ?thesis
    by (auto simp: reserve_batch_times [OF assms])
qed

theorem reserve_batch_is_iterated_reserve_witness:
  "\<exists>es rb'. reserve_batch_nocheck 4 2 (rb_create 4 nullptr (rb_new :: nat ring_buffer_t)) =
    Inr ((0, es), rb') \<and> length es = 2"
proof -
  let ?rb = "rb_create 4 nullptr (rb_new :: nat ring_buffer_t)"
  have i: "rb_inv 4 ?rb" by (rule rb_create_inv) simp_all
  have f: "2 \<le> rb_free_count 4 ?rb"
    unfolding rb_free_count_eq [OF i] by (simp add: rb_create_def rb_new_def)
  have "rb_head ?rb = 0" by (simp add: rb_create_def rb_new_def)
  with reserve_batch_is_iterated_reserve [OF i f] show ?thesis by auto
qed

end
