(* ===== verification/Sector_Params.thy ===== *)
theory Sector_Params
  imports Prelude
begin

unbundle bit_operations_syntax

text \<open>
  The compile-time parameters of a sealing: \<open>src/sealing/constants.hpp\<close>,
  \<open>src/sealing/sector_parameters.hpp\<close> (the class template
  \<open>SectorParameters\<close>, one function of the sector size per constant),
  \<open>sealing_config_t\<close>, the run-time selection of a parameter set
  (\<open>SECTOR_PARAMS_TABLE\<close>, \<open>SECTOR_CALL_TABLE\<close>,
  \<open>get_sector_size_from_string\<close>) and the lists of explicit template
  instantiations.  The macro \<open>RUNTIME_SECTOR_SIZE\<close> is the argument
  \<open>rt\<close>.
\<close>

datatype SectorSizeLg =
    Sector2KB | Sector4KB | Sector16KB | Sector32KB | Sector8MB | Sector16MB
  | Sector512MB | Sector1GB | Sector32GB | Sector64GB

fun sector_lg :: "SectorSizeLg \<Rightarrow> nat" where
  "sector_lg Sector2KB = 11"
| "sector_lg Sector4KB = 12"
| "sector_lg Sector16KB = 14"
| "sector_lg Sector32KB = 15"
| "sector_lg Sector8MB = 23"
| "sector_lg Sector16MB = 24"
| "sector_lg Sector512MB = 29"
| "sector_lg Sector1GB = 30"
| "sector_lg Sector32GB = 35"
| "sector_lg Sector64GB = 36"

definition all_sectors :: "SectorSizeLg list" where
  "all_sectors = [Sector2KB, Sector4KB, Sector16KB, Sector32KB, Sector8MB, Sector16MB,
     Sector512MB, Sector1GB, Sector32GB, Sector64GB]"

definition NODE_SIZE_LG :: nat where "NODE_SIZE_LG = 5"
definition NODE_SIZE :: nat where "NODE_SIZE = 2 ^ NODE_SIZE_LG"
definition NODE_WORDS :: nat where "NODE_WORDS = NODE_SIZE div 4"
definition PARENT_COUNT_BASE :: nat where "PARENT_COUNT_BASE = 6"
definition PARENT_COUNT_EXP :: nat where "PARENT_COUNT_EXP = 8"
definition PARENT_COUNT :: nat where "PARENT_COUNT = PARENT_COUNT_BASE + PARENT_COUNT_EXP"
definition PAGE_SIZE :: nat where "PAGE_SIZE = 4096"
definition NODES_PER_HASHER :: nat where "NODES_PER_HASHER = 2"
definition PARENT_PTR_BATCH_SIZE :: nat where "PARENT_PTR_BATCH_SIZE = PARENT_COUNT"
definition PAGE_BATCH_SIZE :: nat where "PAGE_BATCH_SIZE = PARENT_COUNT - 1"
definition PARENT_BUFFER_BATCHES :: nat where "PARENT_BUFFER_BATCHES = 2 ^ 18"
definition PARENT_BUFFER_NODES :: nat where
  "PARENT_BUFFER_NODES = PARENT_BUFFER_BATCHES * PAGE_BATCH_SIZE"
definition NODE_BUFFER_BATCHES :: nat where "NODE_BUFFER_BATCHES = PARENT_BUFFER_BATCHES * 2"
definition NODE_BUFFER_NODES :: nat where "NODE_BUFFER_NODES = NODE_BUFFER_BATCHES"
definition NODE_BUFFER_SYNC_LG_BATCH_SIZE :: nat where "NODE_BUFFER_SYNC_LG_BATCH_SIZE = 2"
definition NODE_BUFFER_SYNC_BATCH_SIZE :: nat where
  "NODE_BUFFER_SYNC_BATCH_SIZE = 2 ^ NODE_BUFFER_SYNC_LG_BATCH_SIZE"
definition NODE_BUFFER_SYNC_BATCH_MASK :: nat where
  "NODE_BUFFER_SYNC_BATCH_MASK = NODE_BUFFER_SYNC_BATCH_SIZE - 1"
definition NODE_BUFFER_SYNC_BATCHES :: nat where
  "NODE_BUFFER_SYNC_BATCHES = NODE_BUFFER_BATCHES div NODE_BUFFER_SYNC_BATCH_SIZE"
definition NODE_IDX_TO_SYNC_IDX :: "nat \<Rightarrow> nat" where
  "NODE_IDX_TO_SYNC_IDX node = drop_bit NODE_BUFFER_SYNC_LG_BATCH_SIZE node"
definition COORD_BATCH_SIZE :: nat where "COORD_BATCH_SIZE = 256"
definition COORD_BATCH_COUNT :: nat where "COORD_BATCH_COUNT = 4"
definition COORD_BATCH_NODE_COUNT :: nat where
  "COORD_BATCH_NODE_COUNT = COORD_BATCH_SIZE * COORD_BATCH_COUNT"
definition LABEL_PARENTS :: nat where "LABEL_PARENTS = 37"
definition LAYER_ONE_REPEAT_SEQ :: nat where "LAYER_ONE_REPEAT_SEQ = 6"
definition LAYER_ONE_FINAL_SEQ :: nat where
  "LAYER_ONE_FINAL_SEQ = LABEL_PARENTS mod (LAYER_ONE_REPEAT_SEQ * PARENT_COUNT_BASE)"
definition LAYER_N_REPEAT_SEQ :: nat where "LAYER_N_REPEAT_SEQ = 2"
definition LAYER_N_FINAL_SEQ :: nat where
  "LAYER_N_FINAL_SEQ = LABEL_PARENTS mod (LAYER_N_REPEAT_SEQ * PARENT_COUNT)"
definition SINGLE_PROOF_DATA :: nat where "SINGLE_PROOF_DATA = 0"

lemmas constant_defs [model_defs] = NODE_SIZE_LG_def NODE_SIZE_def NODE_WORDS_def
  PARENT_COUNT_BASE_def PARENT_COUNT_EXP_def PARENT_COUNT_def PAGE_SIZE_def NODES_PER_HASHER_def
  PARENT_PTR_BATCH_SIZE_def PAGE_BATCH_SIZE_def PARENT_BUFFER_BATCHES_def PARENT_BUFFER_NODES_def
  NODE_BUFFER_BATCHES_def NODE_BUFFER_NODES_def NODE_BUFFER_SYNC_LG_BATCH_SIZE_def
  NODE_BUFFER_SYNC_BATCH_SIZE_def NODE_BUFFER_SYNC_BATCH_MASK_def NODE_BUFFER_SYNC_BATCHES_def
  COORD_BATCH_SIZE_def COORD_BATCH_COUNT_def COORD_BATCH_NODE_COUNT_def LABEL_PARENTS_def
  LAYER_ONE_REPEAT_SEQ_def LAYER_ONE_FINAL_SEQ_def LAYER_N_REPEAT_SEQ_def LAYER_N_FINAL_SEQ_def
  SINGLE_PROOF_DATA_def

definition clzll :: "nat \<Rightarrow> nat" where
  "clzll x = length (takeWhile (\<lambda>i. \<not> bit x i) (rev [0..<64]))"

definition log2_floor :: "nat \<Rightarrow> nat" where
  "log2_floor x = 63 - clzll x"

definition size_not :: "nat \<Rightarrow> nat" where
  "size_not x = SIZE_MOD - 1 - x"

definition ONE_KB :: nat where "ONE_KB = 1024"
definition ONE_MB :: nat where "ONE_MB = ONE_KB * 1024"
definition ONE_GB :: nat where "ONE_GB = ONE_MB * 1024"

definition GetSectorSizeLg :: "nat \<Rightarrow> nat" where
  "GetSectorSizeLg sz = 63 - clzll sz"

definition GetNodeBits :: "nat \<Rightarrow> nat" where
  "GetNodeBits sz = GetSectorSizeLg sz - NODE_SIZE_LG"

definition GetNodeMask :: "nat \<Rightarrow> nat" where
  "GetNodeMask sz = 2 ^ GetNodeBits sz - 1"

definition GetNumChallenges :: "nat \<Rightarrow> nat" where
  "GetNumChallenges sz = (if sz \<le> ONE_GB then 2 else 180)"

definition GetNumPartitions :: "nat \<Rightarrow> nat" where
  "GetNumPartitions sz = (if sz \<le> ONE_GB then 1 else 10)"

definition GetNumLayers :: "nat \<Rightarrow> nat" where
  "GetNumLayers sz = (if sz \<le> ONE_GB then 2 else 11)"

definition GetNumLeaves :: "nat \<Rightarrow> nat" where
  "GetNumLeaves sz = sz div NODE_SIZE"

definition GetNumNodes :: "nat \<Rightarrow> nat" where
  "GetNumNodes sz = GetNumLeaves sz"

definition GetNumTreeDArity :: nat where
  "GetNumTreeDArity = 2"

definition GetNumTreeDLevels :: "nat \<Rightarrow> nat" where
  "GetNumTreeDLevels sz = log2_floor (GetNumLeaves sz)"

definition GetNumTreeRCConfig :: "nat \<Rightarrow> nat" where
  "GetNumTreeRCConfig sz =
     (if sz = 2 * ONE_KB \<or> sz = 8 * ONE_MB \<or> sz = 512 * ONE_MB then 0
      else if sz = 32 * ONE_KB \<or> sz = 64 * ONE_GB then 2
      else 1)"

definition GetNumTreeRCLgArity :: nat where
  "GetNumTreeRCLgArity = 3"

definition GetNumTreeRCArity :: nat where
  "GetNumTreeRCArity = 2 ^ GetNumTreeRCLgArity"

definition GetNumTreeRCArityDT :: nat where
  "GetNumTreeRCArityDT = GetNumTreeRCArity + 1"

definition tree_rc_sub_arity :: "nat \<Rightarrow> nat" where
  "tree_rc_sub_arity sz =
     (if sz = 2 * ONE_KB \<or> sz = 8 * ONE_MB \<or> sz = 512 * ONE_MB then 0
      else if sz = 4 * ONE_KB \<or> sz = 16 * ONE_MB \<or> sz = 1 * ONE_GB then 2
      else 8)"

definition tree_rc_top_arity :: "nat \<Rightarrow> nat" where
  "tree_rc_top_arity sz = (if sz = 32 * ONE_KB \<or> sz = 64 * ONE_GB then 2 else 0)"

definition GetNumTreeRDiscardRows :: "nat \<Rightarrow> nat" where
  "GetNumTreeRDiscardRows sz = (if sz \<le> 32 * ONE_KB then 1 else 2)"

definition GetNumTreeRCFiles :: "nat \<Rightarrow> nat" where
  "GetNumTreeRCFiles sz =
     (if tree_rc_top_arity sz = 0 \<and> tree_rc_sub_arity sz = 0 then 1
      else if tree_rc_top_arity sz > 0 then tree_rc_top_arity sz * tree_rc_sub_arity sz
      else tree_rc_sub_arity sz)"

definition GetNumTreeRLabels :: "nat \<Rightarrow> nat" where
  "GetNumTreeRLabels sz = GetNumTreeRCArity ^ (GetNumTreeRDiscardRows sz + 1)"

definition GetChallengeStartMask :: "nat \<Rightarrow> nat" where
  "GetChallengeStartMask sz = size_not (size_sub (GetNumTreeRLabels sz) 1)"

definition GetNumTreeRCLevels :: "nat \<Rightarrow> nat result" where
  "GetNumTreeRCLevels sz =
     bind_result (assert_that (tree_rc_top_arity sz = 0)) (\<lambda>_.
     bind_result (assert_that (tree_rc_sub_arity sz \<noteq> 2)) (\<lambda>_.
     Inr (log2_floor (GetNumLeaves sz) div log2_floor GetNumTreeRCArity)))"

lemmas sector_defs [model_defs] = ONE_KB_def ONE_MB_def ONE_GB_def GetNumChallenges_def
  GetNumPartitions_def GetNumLayers_def GetNumLeaves_def GetNumNodes_def GetNumTreeDArity_def
  GetNumTreeRCConfig_def GetNumTreeRCLgArity_def GetNumTreeRCArity_def GetNumTreeRCArityDT_def
  tree_rc_sub_arity_def tree_rc_top_arity_def GetNumTreeRDiscardRows_def GetNumTreeRCFiles_def
  GetNumTreeRLabels_def

record sealing_config_t =
  PARALLEL_SECTORS :: nat
  sector_size :: nat

definition NODES_PER_PAGE :: "nat \<Rightarrow> nat" where
  "NODES_PER_PAGE sectors = PAGE_SIZE div (sectors * NODE_SIZE)"

definition runtime_sizes :: "SectorSizeLg list" where
  "runtime_sizes = [Sector2KB, Sector4KB, Sector16KB, Sector32KB, Sector8MB, Sector16MB, Sector1GB, Sector64GB]"

definition config_grid :: "nat list \<Rightarrow> SectorSizeLg list \<Rightarrow> (nat \<times> SectorSizeLg) list" where
  "config_grid ns ss = concat (map (\<lambda>n. map (\<lambda>s. (n, s)) ss) ns)"

definition sealing_config_typedefs :: "bool \<Rightarrow> (nat \<times> SectorSizeLg) list" where
  "sealing_config_typedefs rt =
     (if rt then config_grid [128, 64, 32, 16, 8, 4, 2, 1] runtime_sizes else []) @
     config_grid [128, 64, 32, 16, 8, 4, 2, 1] [Sector512MB, Sector32GB]"

definition do_pc1_instances :: "bool \<Rightarrow> (nat \<times> SectorSizeLg) list" where
  "do_pc1_instances rt =
     (if rt then config_grid [128, 64, 32, 16, 8, 4, 2, 1] runtime_sizes else []) @
     config_grid [128, 64, 32, 16, 8, 4, 2, 1] [Sector512MB, Sector32GB]"

definition node_reader_instances :: "bool \<Rightarrow> (nat \<times> SectorSizeLg) list" where
  "node_reader_instances rt =
     (if rt then config_grid [128, 64, 32, 16, 8, 4, 2, 1] runtime_sizes else []) @
     config_grid [128, 64, 32, 16, 8, 4, 2, 1] [Sector512MB, Sector32GB]"

definition pc2_hash_instances :: "bool \<Rightarrow> (nat \<times> SectorSizeLg) list" where
  "pc2_hash_instances rt =
     (if rt then config_grid [128, 64, 32, 16, 8, 4, 2, 1] runtime_sizes else []) @
     config_grid [128, 64, 32, 16, 8, 4, 2, 1] [Sector512MB, Sector32GB]"

definition pc2_cleanup_instances :: "bool \<Rightarrow> (nat \<times> SectorSizeLg) list" where
  "pc2_cleanup_instances rt =
     (if rt then config_grid [128, 64, 32, 16, 8, 4, 2, 1] runtime_sizes else []) @
     config_grid [128, 64, 32, 16, 8, 4, 2, 1] [Sector512MB, Sector32GB]"

fun find_sector :: "SectorSizeLg list \<Rightarrow> nat \<Rightarrow> SectorSizeLg result" where
  "find_sector [] sz = Inl ExitFailure"
| "find_sector (s # ss) sz = (if sz = 2 ^ sector_lg s then Inr s else find_sector ss sz)"

definition SECTOR_PARAMS_TABLE :: "bool \<Rightarrow> nat \<Rightarrow> SectorSizeLg result" where
  "SECTOR_PARAMS_TABLE rt sz =
     find_sector
       (if rt then [Sector64GB, Sector32GB, Sector1GB, Sector512MB, Sector16MB, Sector8MB,
          Sector32KB, Sector16KB, Sector4KB, Sector2KB]
        else [Sector32GB, Sector512MB]) sz"

definition SECTOR_CALL_TABLE :: "nat \<Rightarrow> nat ptr" where
  "SECTOR_CALL_TABLE num_sectors =
     (if num_sectors \<in> set [128, 64, 32, 16, 8, 4, 2] then Some num_sectors else nullptr)"

definition get_sector_size_from_string :: "bool \<Rightarrow> string \<Rightarrow> nat result" where
  "get_sector_size_from_string rt s =
     (if s = ''32GiB'' then Inr (2 ^ sector_lg Sector32GB)
      else if s = ''512MiB'' then Inr (2 ^ sector_lg Sector512MB)
      else if rt \<and> s = ''2KiB'' then Inr (2 ^ sector_lg Sector2KB)
      else if rt \<and> s = ''4KiB'' then Inr (2 ^ sector_lg Sector4KB)
      else if rt \<and> s = ''16KiB'' then Inr (2 ^ sector_lg Sector16KB)
      else if rt \<and> s = ''32KiB'' then Inr (2 ^ sector_lg Sector32KB)
      else if rt \<and> s = ''8MiB'' then Inr (2 ^ sector_lg Sector8MB)
      else if rt \<and> s = ''16MiB'' then Inr (2 ^ sector_lg Sector16MB)
      else if rt \<and> s = ''1GiB'' then Inr (2 ^ sector_lg Sector1GB)
      else if rt \<and> s = ''64GiB'' then Inr (2 ^ sector_lg Sector64GB)
      else Inl ExitFailure)"


section \<open>Evaluation of the parameters\<close>

lemma clzll_pow2:
  assumes "n < 64"
  shows "clzll (2 ^ n) = 63 - n"
proof -
  have split: "rev [0..<64] = rev [Suc n..<64] @ n # rev [0..<n]"
  proof -
    have "[0..<64] = [0..<n] @ [n..<64]" 
      using assms upt_add_eq_append [of 0 n "64 - n"] by simp
    also have "[n..<64] = n # [Suc n..<64]" using assms by (simp add: upt_conv_Cons)
    finally show ?thesis by simp
  qed
  have "takeWhile (\<lambda>i. \<not> bit (2 ^ n :: nat) i) (rev [Suc n..<64] @ n # rev [0..<n]) = rev [Suc n..<64]"
    by (subst takeWhile_append2) (auto simp: bit_simps)
  with assms show ?thesis by (simp add: clzll_def split)
qed

lemma GetSectorSizeLg_pow2: "n < 64 \<Longrightarrow> GetSectorSizeLg (2 ^ n) = n"
  by (simp add: GetSectorSizeLg_def clzll_pow2)

lemma log2_floor_pow2: "n < 64 \<Longrightarrow> log2_floor (2 ^ n) = n"
  by (simp add: log2_floor_def clzll_pow2)

lemma sector_lg_bounds: "11 \<le> sector_lg s" "sector_lg s \<le> 36"
  by (cases s; simp)+

lemma GetNumLeaves_sector: "GetNumLeaves (2 ^ sector_lg s) = 2 ^ (sector_lg s - 5)"
  using sector_lg_bounds [of s]
  by (simp add: GetNumLeaves_def NODE_SIZE_def NODE_SIZE_LG_def power_diff)

lemma GetNodeBits_sector: "GetNodeBits (2 ^ sector_lg s) = sector_lg s - 5"
  using sector_lg_bounds [of s]
  by (simp add: GetNodeBits_def GetSectorSizeLg_pow2 NODE_SIZE_LG_def)

lemma GetNodeMask_sector: "GetNodeMask (2 ^ sector_lg s) = 2 ^ (sector_lg s - 5) - 1"
  by (simp add: GetNodeMask_def GetNodeBits_sector)


section \<open>Properties\<close>

text \<open>
  The derived constants agree with each other for every supported sector
  size: the node count is \<open>2 ^ GetNodeBits\<close> and is \<open>GetNodeMask + 1\<close>; the
  tree-D has \<open>log2\<close> levels over them; every tree-C/tree-R file holds a
  perfect 8-ary tree, that is, the leaves are \<open>files * 8 ^ k\<close> for some
  \<open>k\<close> above the discarded rows; and the partitions divide the challenges.
\<close>
theorem sector_parameters_consistent:
  fixes s :: SectorSizeLg
  defines "sz \<equiv> 2 ^ sector_lg s :: nat"
  shows "GetNumNodes sz = 2 ^ GetNodeBits sz \<and> GetNumNodes sz = GetNodeMask sz + 1 \<and>
    GetNumNodes sz * NODE_SIZE = sz \<and>
    2 ^ GetNumTreeDLevels sz = GetNumLeaves sz \<and>
    (\<exists>k > GetNumTreeRDiscardRows sz. GetNumLeaves sz = GetNumTreeRCFiles sz * GetNumTreeRCArity ^ k) \<and>
    GetNumPartitions sz dvd GetNumChallenges sz"
proof -
  have le: "5 \<le> sector_lg s" "sector_lg s - 5 < 64" using sector_lg_bounds [of s] by simp_all
  have n: "GetNumNodes sz = 2 ^ GetNodeBits sz" "GetNumNodes sz = GetNodeMask sz + 1"
    by (simp_all add: sz_def GetNumNodes_def GetNumLeaves_sector GetNodeBits_sector GetNodeMask_sector)
  have m: "GetNumNodes sz * NODE_SIZE = sz"
    unfolding sz_def by (cases s) (simp_all add: sector_defs constant_defs)
  have d: "2 ^ GetNumTreeDLevels sz = GetNumLeaves sz"
    using le by (simp add: sz_def GetNumTreeDLevels_def GetNumLeaves_sector log2_floor_pow2)
  let ?k = "(sector_lg s - 5 - (GetNumTreeRCFiles sz - 1) mod 8 div 2 - GetNumTreeRCFiles sz div 16) div 3"
  have t: "\<exists>k > GetNumTreeRDiscardRows sz. GetNumLeaves sz = GetNumTreeRCFiles sz * GetNumTreeRCArity ^ k"
  proof (rule exI)
    show "GetNumTreeRDiscardRows sz < ?k \<and> GetNumLeaves sz = GetNumTreeRCFiles sz * GetNumTreeRCArity ^ ?k"
      unfolding sz_def by (cases s) (simp_all add: sector_defs constant_defs)
  qed
  have p: "GetNumPartitions sz dvd GetNumChallenges sz"
    by (simp add: GetNumPartitions_def GetNumChallenges_def)
  from n m d t p show ?thesis by blast
qed



end
