(* ===== verification/Node_Id.thy ===== *)
theory Node_Id
  imports Sector_Params
begin

unbundle bit_operations_syntax

text \<open>
  Node identifiers and the parent iterator: \<open>node_id_t\<close> of
  \<open>src/sealing/data_structures.hpp\<close> (layer and node packed in 64 bits) and
  \<open>parent_iter_t\<close> of \<open>src/pc1/parent_iter_t.hpp\<close> (a walk over the cached
  parent graph of 14 parents per node).  Identifiers are 64-bit words and the
  layer, node and parent numbers 32-bit words, with the conversions of the
  code.  The template argument is the number of node bits, \<open>bits\<close>.
\<close>

type_synonym node_id_t = "64 word"

definition node_id_of :: "nat \<Rightarrow> 32 word \<Rightarrow> 32 word \<Rightarrow> node_id_t" where
  "node_id_of bits layer node = push_bit bits (ucast layer) OR ucast node"

definition node_id_node :: "nat \<Rightarrow> node_id_t \<Rightarrow> 32 word" where
  "node_id_node bits i = ucast (i AND mask bits)"

definition node_id_layer :: "nat \<Rightarrow> node_id_t \<Rightarrow> 32 word" where
  "node_id_layer bits i = ucast (drop_bit bits i)"

definition node_id_less :: "node_id_t \<Rightarrow> node_id_t \<Rightarrow> bool" where
  "node_id_less i j \<longleftrightarrow> i < j"

definition node_id_incr :: "node_id_t \<Rightarrow> node_id_t" where
  "node_id_incr i = i + 1"

definition node_id_decr :: "node_id_t \<Rightarrow> node_id_t" where
  "node_id_decr i = i - 1"

definition node_id_add :: "64 word \<Rightarrow> node_id_t \<Rightarrow> node_id_t" where
  "node_id_add x i = i + x"

definition NOT_NODE_BUFFER :: "32 word" where
  "NOT_NODE_BUFFER = - 1"

definition LOCAL_NODE :: "32 word" where
  "LOCAL_NODE = - 2"

definition is_node_buffer :: "32 word \<Rightarrow> bool" where
  "is_node_buffer idx \<longleftrightarrow> idx \<noteq> NOT_NODE_BUFFER \<and> idx \<noteq> LOCAL_NODE"

datatype io_type = READ | WRITE | NOP

record node_io_t =
  io_node :: "64 word"
  io_type :: io_type
  io_valid :: "nat ptr"

record parent_iter_t =
  pi_node :: node_id_t
  pi_parent :: "32 word"
  parent_buf :: "32 word list"
  parent_ptr :: nat

definition parent_iter_new :: "node_id_t \<Rightarrow> parent_iter_t" where
  "parent_iter_new start = \<lparr>pi_node = start, pi_parent = 0, parent_buf = [], parent_ptr = 0\<rparr>"

definition parent_bytes :: "nat \<Rightarrow> nat" where
  "parent_bytes node_count = size_mul (size_mul node_count PARENT_COUNT) 4"

definition set_buf :: "32 word list \<Rightarrow> parent_iter_t \<Rightarrow> parent_iter_t" where
  "set_buf buf it = it\<lparr>parent_buf := buf, parent_ptr := 0\<rparr>"

definition is_prev_layer :: "parent_iter_t \<Rightarrow> bool" where
  "is_prev_layer it \<longleftrightarrow> PARENT_COUNT_BASE \<le> unat (pi_parent it)"

definition parent_iter_next :: "nat \<Rightarrow> parent_iter_t \<Rightarrow> parent_iter_t" where
  "parent_iter_next bits it =
     (let p = pi_parent it + 1;
          q = parent_ptr it + 1;
          wrap = unat p = PARENT_COUNT;
          nd = (if wrap then node_id_incr (pi_node it) else pi_node it);
          p' = (if wrap then 0 else p);
          restart = (node_id_node bits nd = 0 \<and> p' = 0)
      in it\<lparr>pi_node := nd, pi_parent := p', parent_ptr := if restart then 0 else q\<rparr>)"

definition parent_iter_deref :: "nat \<Rightarrow> parent_iter_t \<Rightarrow> node_id_t result" where
  "parent_iter_deref bits it =
     (let l = node_id_layer bits (pi_node it);
          layer = (if l = 0 then 0 else if is_prev_layer it then l - 1 else l)
      in bind_result (vec_get (parent_buf it) (parent_ptr it)) (\<lambda>p.
         Inr (node_id_of bits layer p)))"


section \<open>Identifiers as numbers\<close>

lemma unat_node_id_of:
  assumes "bits \<le> 32" "unat node < 2 ^ bits"
  shows "unat (node_id_of bits layer node) = unat layer * 2 ^ bits + unat node"
proof -
  let ?a = "push_bit bits (ucast layer) :: 64 word" and ?b = "ucast node :: 64 word"
  have ub: "unat ?b = unat node" and ul: "unat (ucast layer :: 64 word) = unat layer"
    using unat32_lt [of node] unat32_lt [of layer]
    by (simp_all add: unsigned_ucast_eq take_bit_nat_eq_self)
  have "\<not> bit ?a n \<or> \<not> bit ?b n" for n
  proof (cases "n < bits")
    case False
    have "\<not> bit (unat node) n"
      using assms(2) False
      by (metis bit_take_bit_iff linorder_not_less take_bit_nat_eq_self_iff)
    then have "\<not> bit node n" by (simp add: bit_unsigned_iff)
    then show ?thesis by (auto simp: bit_simps)
  qed (simp add: bit_simps)
  then have "node_id_of bits layer node = ?a + ?b"
    by (simp add: node_id_of_def disjunctive_add)
  moreover have "unat layer < 2 ^ 32" using unat32_lt [of layer] by simp
  then have lt: "unat layer * 2 ^ bits + unat node < 2 ^ 64"
  proof -
    have "unat layer * 2 ^ bits + unat node < Suc (unat layer) * 2 ^ bits" using assms(2) by simp
    also have "\<dots> \<le> 2 ^ 32 * 2 ^ bits" using \<open>unat layer < 2 ^ 32\<close> by (intro mult_le_mono1) simp
    also have "\<dots> \<le> 2 ^ 32 * 2 ^ 32" using assms(1) by (intro mult_le_mono2 power_increasing) simp_all
    finally show ?thesis by simp
  qed
  have "unat ?a = unat layer * 2 ^ bits"
  proof -
    have "unat ?a = take_bit 64 (push_bit bits (unat layer))"
      using ul by (simp add: unsigned_push_bit_eq flip: push_bit_eq_mult)
    with lt show ?thesis by (simp add: take_bit_nat_eq_self push_bit_eq_mult)
  qed
  ultimately show ?thesis
    using lt ub by (simp add: unat_plus_if')
qed

lemma unat_node_id_node:
  assumes "bits \<le> 32"
  shows "unat (node_id_node bits i) = unat i mod 2 ^ bits"
proof -
  have "unat (take_bit bits i) = unat i mod 2 ^ bits"
    by (simp add: unsigned_take_bit_eq flip: take_bit_eq_mod)
  moreover have "unat i mod 2 ^ bits < (2 :: nat) ^ 32"
    using assms by (meson less_le_trans mod_less_divisor one_le_numeral power_increasing zero_less_numeral zero_less_power)
  ultimately show ?thesis
    by (simp add: node_id_node_def take_bit_eq_mask [symmetric] unsigned_ucast_eq take_bit_nat_eq_self)
qed

lemma unat_node_id_layer:
  assumes "unat i div 2 ^ bits < 2 ^ 32"
  shows "unat (node_id_layer bits i) = unat i div 2 ^ bits"
proof -
  have "unat (drop_bit bits i) = unat i div 2 ^ bits"
    using unat64_lt [of i]
    by (simp add: unsigned_drop_bit_eq take_bit_nat_eq_self flip: drop_bit_eq_div)
  with assms show ?thesis
    by (simp add: node_id_layer_def unsigned_ucast_eq take_bit_nat_eq_self)
qed

lemma lex_pack:
  assumes "n < b" "n' < (b :: nat)"
  shows "l * b + n < l' * b + n' \<longleftrightarrow> l < l' \<or> l = l' \<and> n < n'"
proof (cases l l' rule: linorder_cases)
  case less
  then have "Suc l * b \<le> l' * b" by (intro mult_le_mono1) simp
  with less assms show ?thesis by simp
next
  case greater
  then have "Suc l' * b \<le> l * b" by (intro mult_le_mono1) simp
  with greater assms show ?thesis by simp
qed simp

lemmas node_id_unat = unat_node_id_of unat_node_id_node unat_node_id_layer


section \<open>The walk over the parent graph\<close>

fun parent_walk :: "nat \<Rightarrow> nat \<Rightarrow> parent_iter_t \<Rightarrow> parent_iter_t" where
  "parent_walk bits 0 it = it"
| "parent_walk bits (Suc n) it = parent_iter_next bits (parent_walk bits n it)"

definition walk_inv :: "nat \<Rightarrow> nat \<Rightarrow> nat \<Rightarrow> parent_iter_t \<Rightarrow> bool" where
  "walk_inv bits start n it \<longleftrightarrow>
     unat (pi_node it) = start + n div PARENT_COUNT \<and>
     unat (pi_parent it) = n mod PARENT_COUNT \<and>
     parent_ptr it = (unat (pi_node it) mod 2 ^ bits) * PARENT_COUNT + n mod PARENT_COUNT"

lemma div_mod_14:
  "Suc n mod 14 = (if n mod 14 = 13 then 0 else Suc (n mod 14))"
  "Suc n div 14 = (if n mod 14 = 13 then Suc (n div 14) else n div (14::nat))"
  by (simp_all add: mod_Suc div_Suc)

lemma walk_inv_step:
  assumes "bits \<le> 32" "walk_inv bits start n it" "start + Suc n div PARENT_COUNT < 2 ^ 64"
  shows "walk_inv bits start (Suc n) (parent_iter_next bits it)"
proof -
  have P: "PARENT_COUNT = 14" by (simp add: constant_defs)
  have nd: "unat (pi_node it) = start + n div 14" and pr: "unat (pi_parent it) = n mod 14"
    and pt: "parent_ptr it = (unat (pi_node it) mod 2 ^ bits) * 14 + n mod 14"
    using assms(2) by (simp_all add: walk_inv_def P)
  have m14: "n mod 14 < 14" by simp
  then have p1: "unat (pi_parent it + 1) = Suc (n mod 14)"
    using pr by (simp add: unat_plus_if')
  show ?thesis
  proof (cases "n mod 14 = 13")
    case False
    let ?it = "it\<lparr>pi_parent := pi_parent it + 1, parent_ptr := parent_ptr it + 1\<rparr>"
    have "pi_parent it + 1 \<noteq> 0" using p1 by (metis nat.simps(3) unat_0)
    then have "parent_iter_next bits it = ?it"
      using p1 False by (simp add: parent_iter_next_def Let_def P)
    with False show ?thesis
      using nd p1 pt by (simp add: walk_inv_def P div_mod_14)
  next
    case True
    have lt: "start + Suc (n div 14) < 2 ^ 64" using assms(3) True by (simp add: P div_mod_14)
    have nn: "unat (node_id_incr (pi_node it)) = Suc (unat (pi_node it))"
      using nd lt by (simp add: node_id_incr_def unat_plus_if')
    have z: "node_id_node bits (node_id_incr (pi_node it)) = 0 \<longleftrightarrow> Suc (unat (pi_node it)) mod 2 ^ bits = 0"
      using unat_node_id_node [OF assms(1), of "node_id_incr (pi_node it)"] nn
      by (metis unat_eq_zero)
    have "Suc (unat (pi_node it)) mod 2 ^ bits * 14 =
      (if Suc (unat (pi_node it)) mod 2 ^ bits = 0 then 0 else (unat (pi_node it) mod 2 ^ bits) * 14 + 14)"
      by (auto simp: mod_Suc split: if_splits)
    then show ?thesis
      using True p1 nn z nd pt
      by (simp add: walk_inv_def P parent_iter_next_def Let_def div_mod_14)
  qed
qed

lemma walk_inv_walk:
  assumes "bits \<le> 32" "unat start mod 2 ^ bits = 0" "unat start + n div PARENT_COUNT < 2 ^ 64"
  shows "walk_inv bits (unat start) n (parent_walk bits n (set_buf buf (parent_iter_new start)))"
  using assms(3)
proof (induction n)
  case 0
  show ?case using assms(2) by (simp add: walk_inv_def set_buf_def parent_iter_new_def constant_defs)
next
  case (Suc n)
  have "n div PARENT_COUNT \<le> Suc n div PARENT_COUNT" by (simp add: div_le_mono)
  with Suc.prems have "walk_inv bits (unat start) n
      (parent_walk bits n (set_buf buf (parent_iter_new start)))"
    by (intro Suc.IH) linarith
  from walk_inv_step [OF assms(1) this Suc.prems] show ?case by simp
qed

lemma parent_walk_buf [simp]:
  "parent_buf (parent_walk bits n (set_buf buf (parent_iter_new start))) = buf"
  by (induction n) (simp_all add: set_buf_def parent_iter_new_def parent_iter_next_def Let_def)


section \<open>Properties\<close>

text \<open>
  C23: packing is lossless and ordered: for every supported sector size, layer
  and node are recovered from the packed identifier, identifiers are ordered
  by layer first and node second, and incrementing the last node of a layer
  gives node 0 of the next layer.
\<close>
theorem node_id_roundtrip:
  fixes s :: SectorSizeLg and l :: "32 word"
  defines "bits \<equiv> GetNodeBits (2 ^ sector_lg s)"
  assumes "unat n < GetNumNodes (2 ^ sector_lg s)" "unat n' < GetNumNodes (2 ^ sector_lg s)"
  shows "node_id_layer bits (node_id_of bits l n) = l \<and>
    node_id_node bits (node_id_of bits l n) = n \<and>
    (node_id_less (node_id_of bits l n) (node_id_of bits l' n') \<longleftrightarrow>
       unat l < unat l' \<or> l = l' \<and> unat n < unat n') \<and>
    (unat n + 1 = GetNumNodes (2 ^ sector_lg s) \<and> unat l + 1 < 2 ^ 32 \<longrightarrow>
       node_id_incr (node_id_of bits l n) = node_id_of bits (l + 1) 0)"
proof -
  have b: "bits \<le> 32" "bits < 32" "GetNumNodes (2 ^ sector_lg s) = 2 ^ bits"
    using sector_lg_bounds [of s]
    by (simp_all add: bits_def GetNodeBits_sector GetNumNodes_def GetNumLeaves_sector)
  have n: "unat n < 2 ^ bits" and n': "unat n' < 2 ^ bits" using assms(2,3) b by simp_all
  note u = unat_node_id_of [OF b(1) n, of l] and u' = unat_node_id_of [OF b(1) n', of l']
  have "(unat l * 2 ^ bits + unat n) div 2 ^ bits = unat l" using n by simp
  then have L: "node_id_layer bits (node_id_of bits l n) = l"
    using unat_node_id_layer [of "node_id_of bits l n" bits] u unat32_lt [of l]
    by (metis unsigned_word_eqI)
  have N: "node_id_node bits (node_id_of bits l n) = n"
    using unat_node_id_node [OF b(1), of "node_id_of bits l n"] u n
    by (metis mod_less mod_mult_self3 unsigned_word_eqI)
  have O: "node_id_less (node_id_of bits l n) (node_id_of bits l' n') \<longleftrightarrow>
      unat l < unat l' \<or> l = l' \<and> unat n < unat n'"
  proof -
    have ne: "unat l = unat l' \<longleftrightarrow> l = l'" by (rule word_unat_eq_iff [symmetric])
    have "unat l * 2 ^ bits + unat n < unat l' * 2 ^ bits + unat n' \<longleftrightarrow>
      unat l < unat l' \<or> unat l = unat l' \<and> unat n < unat n'"
      using n n' by (rule lex_pack)
    then show ?thesis unfolding node_id_less_def word_less_nat_alt u u' ne .
  qed
  have I: "node_id_incr (node_id_of bits l n) = node_id_of bits (l + 1) 0"
    if h: "unat n + 1 = 2 ^ bits" "unat l + 1 < 2 ^ 32"
  proof -
    have l1: "unat (l + 1) = unat l + 1" using h(2) by (simp add: unat_plus_if')
    have v: "unat (node_id_of bits (l + 1) 0) = (unat l + 1) * 2 ^ bits"
      using unat_node_id_of [OF b(1), of 0 "l + 1"] l1 by simp
    have "unat (node_id_of bits l n) + 1 = (unat l + 1) * 2 ^ bits" using u h(1) by simp
    moreover have "unat (node_id_of bits (l + 1) 0) < 2 ^ 64" by (rule unat64_lt)
    ultimately have "unat (node_id_of bits l n + 1) = (unat l + 1) * 2 ^ bits"
      using v by (simp add: unat_plus_if')
    with v show ?thesis by (simp add: node_id_incr_def word_unat_eq_iff)
  qed
  show ?thesis using L N O I b(3) by auto
qed

theorem node_id_roundtrip_witness:
  "node_id_node (GetNodeBits (2 ^ sector_lg Sector32GB))
     (node_id_of (GetNodeBits (2 ^ sector_lg Sector32GB)) 11 5) = 5 \<and>
   node_id_layer (GetNodeBits (2 ^ sector_lg Sector32GB))
     (node_id_of (GetNodeBits (2 ^ sector_lg Sector32GB)) 11 5) = 11"
  using node_id_roundtrip [of 5 Sector32GB 5 11 11]
  by (simp add: GetNumNodes_def GetNumLeaves_def constant_defs)

text \<open>
  C22: the parent iterator started at node 0 of a layer visits, at step \<open>n\<close>,
  parent \<open>n mod 14\<close> of the \<open>n div 14\<close>-th node from the start; its
  pointer into the parent graph is at \<open>node * 14 + parent\<close>, also after
  crossing any number of layer boundaries; the first six parents are named in
  the node's own layer and the other eight in the layer below (layer 0 keeps
  all of them).
\<close>
theorem parent_iter_position:
  fixes start :: node_id_t and n :: nat
  defines "nd \<equiv> unat start + n div PARENT_COUNT"
  assumes "bits \<le> 32" "unat start mod 2 ^ bits = 0" "nd < 2 ^ 64" "nd div 2 ^ bits < 2 ^ 32"
    "length buf = 2 ^ bits * PARENT_COUNT" "\<forall>p \<in> set buf. unat p < 2 ^ bits"
  shows "let it = parent_walk bits n (set_buf buf (parent_iter_new start));
             p = buf ! (nd mod 2 ^ bits * PARENT_COUNT + n mod PARENT_COUNT);
             layer = nd div 2 ^ bits;
             player = (if layer \<noteq> 0 \<and> PARENT_COUNT_BASE \<le> n mod PARENT_COUNT then layer - 1 else layer)
         in unat (pi_node it) = nd \<and>
            (\<exists>i. parent_iter_deref bits it = Inr i \<and> unat i = player * 2 ^ bits + unat p)"
proof -
  let ?it = "parent_walk bits n (set_buf buf (parent_iter_new start))"
  let ?k = "nd mod 2 ^ bits * PARENT_COUNT + n mod PARENT_COUNT"
  have w: "walk_inv bits (unat start) n ?it"
    using walk_inv_walk [OF assms(2,3)] assms(4) by (simp add: nd_def)
  then have nd: "unat (pi_node ?it) = nd" and pp: "unat (pi_parent ?it) = n mod PARENT_COUNT"
    and pt: "parent_ptr ?it = ?k"
    by (simp_all add: walk_inv_def nd_def)
  have k: "?k < length buf"
  proof -
    have "n mod PARENT_COUNT < PARENT_COUNT" by (simp add: constant_defs)
    then have "?k < Suc (nd mod 2 ^ bits) * PARENT_COUNT" by simp
    also have "\<dots> \<le> 2 ^ bits * PARENT_COUNT" by (intro mult_le_mono1) (simp add: Suc_leI)
    finally show ?thesis using assms(6) by simp
  qed
  have lay: "unat (node_id_layer bits (pi_node ?it)) = nd div 2 ^ bits"
    using unat_node_id_layer [of "pi_node ?it" bits] assms(5) nd by simp
  let ?l = "node_id_layer bits (pi_node ?it)"
  have l0: "?l = 0 \<longleftrightarrow> nd div 2 ^ bits = 0" using lay by (metis unat_eq_zero)
  have lm: "?l \<noteq> 0 \<Longrightarrow> unat (?l - 1) = nd div 2 ^ bits - 1" using lay by (metis unat_minus_one)
  have "unat (buf ! ?k) < 2 ^ bits" using k assms(7) by simp
  note u = unat_node_id_of [OF assms(2) this]
  have "\<exists>i. parent_iter_deref bits ?it = Inr i \<and> unat i =
      (if nd div 2 ^ bits \<noteq> 0 \<and> PARENT_COUNT_BASE \<le> n mod PARENT_COUNT then nd div 2 ^ bits - 1
       else nd div 2 ^ bits) * 2 ^ bits + unat (buf ! ?k)"
    using k pt pp lay l0 lm
    by (auto simp: parent_iter_deref_def Let_def is_prev_layer_def u)
  with nd show ?thesis by (simp add: Let_def)
qed

theorem parent_iter_position_witness:
  "let buf = replicate 28 (1 :: 32 word)
   in unat (pi_node (parent_walk 1 34 (set_buf buf (parent_iter_new 2)))) = 4 \<and>
      (\<exists>i. parent_iter_deref 1 (parent_walk 1 34 (set_buf buf (parent_iter_new 2))) = Inr i \<and>
           unat i = 3)"
  using parent_iter_position [of 1 2 34 "replicate 28 1"]
  by (simp add: constant_defs Let_def numeral_3_eq_3)

end
