(* ===== verification/Merkle.thy ===== *)
theory Merkle
  imports Prelude
begin

text \<open>
  The abstract specification of the trees of the program: perfect \<open>a\<close>-ary
  Merkle trees over a list of leaves.  \<open>level\<close> hashes consecutive groups of
  \<open>a\<close> nodes, \<open>levels k\<close> iterates it, \<open>rows k\<close> lists the rows
  above the leaves from the bottom up, and \<open>root k\<close> is the single node of
  row \<open>k\<close> over \<open>a ^ k\<close> leaves.  The hash function is a parameter.

  The interface \<open>merkle_hash\<close> fixes a hash and an arity of at least two;
  its lemmas are what every tree component uses: lengths of the rows, the
  splitting of a tree in sub-trees, and paths from a leaf to the root.
\<close>

definition level :: "('n list \<Rightarrow> 'n) \<Rightarrow> nat \<Rightarrow> 'n list \<Rightarrow> 'n list" where
  "level h a xs = map h (blocks a xs)"

fun levels :: "('n list \<Rightarrow> 'n) \<Rightarrow> nat \<Rightarrow> nat \<Rightarrow> 'n list \<Rightarrow> 'n list" where
  "levels h a 0 xs = xs"
| "levels h a (Suc k) xs = levels h a k (level h a xs)"

fun rows :: "('n list \<Rightarrow> 'n) \<Rightarrow> nat \<Rightarrow> nat \<Rightarrow> 'n list \<Rightarrow> 'n list list" where
  "rows h a 0 xs = []"
| "rows h a (Suc k) xs = level h a xs # rows h a k (level h a xs)"

definition root :: "('n list \<Rightarrow> 'n) \<Rightarrow> nat \<Rightarrow> nat \<Rightarrow> 'n list \<Rightarrow> 'n" where
  "root h a k xs = hd (levels h a k xs)"

definition overlay :: "nat \<Rightarrow> 'a list \<Rightarrow> 'a list \<Rightarrow> 'a list" where
  "overlay d ys xs = take d xs @ ys @ drop (d + length ys) xs"

lemma length_level [simp]: "length (level h a xs) = length xs div a"
  by (simp add: level_def)

lemma nth_level: "i < length xs div a \<Longrightarrow> level h a xs ! i = h (block a xs i)"
  by (simp add: level_def)

lemma levels_Suc_end: "levels h a (Suc k) xs = level h a (levels h a k xs)"
  by (induction k arbitrary: xs) simp_all

lemma length_overlay [simp]: "d + length ys \<le> length xs \<Longrightarrow> length (overlay d ys xs) = length xs"
  by (simp add: overlay_def)

lemma nth_overlay:
  "d + length ys \<le> length xs \<Longrightarrow> i < length xs \<Longrightarrow>
   overlay d ys xs ! i = (if d \<le> i \<and> i < d + length ys then ys ! (i - d) else xs ! i)"
  by (auto simp: overlay_def nth_append)

lemma overlay_Nil [simp]: "overlay d [] xs = xs"
  by (simp add: overlay_def)

lemma overlay_snoc:
  "d + length ys < length xs \<Longrightarrow> overlay d (ys @ [y]) xs = (overlay d ys xs)[d + length ys := y]"
  by (rule nth_equalityI) (auto simp: nth_overlay nth_list_update nth_append)

lemma overlay_append:
  "d + length ys + length zs \<le> length xs \<Longrightarrow>
   overlay (d + length ys) zs (overlay d ys xs) = overlay d (ys @ zs) xs"
  by (rule nth_equalityI) (auto simp: nth_overlay nth_append)

lemma take_drop_overlay_same:
  "d + length ys \<le> length xs \<Longrightarrow> take (length ys) (drop d (overlay d ys xs)) = ys"
  by (simp add: overlay_def)

lemma take_drop_overlay_other:
  assumes "d + length ys \<le> length xs" "k + n \<le> length xs" "k + n \<le> d \<or> d + length ys \<le> k"
  shows "take n (drop k (overlay d ys xs)) = take n (drop k xs)"
  using assms by (intro nth_equalityI) (auto simp: nth_overlay)

locale merkle_hash =
  fixes h :: "'n list \<Rightarrow> 'n" and a :: nat
  assumes arity: "2 \<le> a"
begin

lemma a_pos [simp]: "0 < a" "a \<noteq> 0" "a \<noteq> Suc 0"
  using arity by simp_all

lemma level_append:
  "length xs = n * a \<Longrightarrow> level h a (xs @ ys) = level h a xs @ level h a ys"
  by (simp add: level_def blocks_append [where n = n])

lemma length_levels: "length xs = m * a ^ k \<Longrightarrow> length (levels h a k xs) = m"
proof (induction k arbitrary: xs)
  case (Suc k)
  then have "length (level h a xs) = m * a ^ k" by simp
  from Suc.IH [OF this] show ?case by simp
qed simp

lemma levels_append:
  assumes "length xs = n * a ^ k"
  shows "levels h a k (xs @ ys) = levels h a k xs @ levels h a k ys"
  using assms
proof (induction k arbitrary: xs ys)
  case (Suc k)
  then have x: "length xs = (n * a ^ k) * a" by (simp add: mult.commute mult.left_commute)
  have l: "length (level h a xs) = n * a ^ k" using x by simp
  show ?case using Suc.IH [OF l] by (simp add: level_append [OF x])
qed simp

lemma levels_subtrees:
  assumes "length xs = m * a ^ k" "i < m"
  shows "levels h a k xs ! i = root h a k (block (a ^ k) xs i)"
proof -
  let ?l = "take (i * a ^ k) xs" and ?r = "drop (i * a ^ k) xs"
  let ?b = "block (a ^ k) xs i"
  have im: "Suc i * a ^ k \<le> m * a ^ k" using assms(2) by (intro mult_le_mono1) simp
  then have ll: "length ?l = i * a ^ k" using assms(1) by simp
  have lb: "length ?b = 1 * a ^ k" using im assms(1) by (simp add: block_def)
  have r: "?r = ?b @ drop (a ^ k) ?r" unfolding block_def by (rule append_take_drop_id [symmetric])
  have "levels h a k xs = levels h a k (?l @ ?b @ drop (a ^ k) ?r)"
    using r by (metis append_take_drop_id)
  also have "\<dots> = levels h a k ?l @ levels h a k ?b @ levels h a k (drop (a ^ k) ?r)"
    by (simp add: levels_append [OF ll] levels_append [OF lb])
  finally show ?thesis
    using length_levels [OF ll] length_levels [OF lb]
    by (cases "levels h a k ?b") (simp_all add: nth_append root_def)
qed

lemma levels_blocks:
  assumes "length xs = m * a ^ k"
  shows "levels h a k xs = map (root h a k) (blocks (a ^ k) xs)"
  using assms
  by (intro nth_equalityI)
    (simp_all add: length_levels [where m = m] levels_subtrees [where m = m])

lemma levels_add: "levels h a (j + k) xs = levels h a k (levels h a j xs)"
  by (induction j arbitrary: xs) simp_all

lemma root_levels:
  "length xs = a ^ k \<Longrightarrow> levels h a k xs = [root h a k xs]"
  using length_levels [of xs 1 k] by (cases "levels h a k xs") (auto simp: root_def)

lemma root_of_subroots:
  assumes "length xs = a ^ (j + k)"
  shows "root h a (j + k) xs = root h a k (map (root h a j) (blocks (a ^ j) xs))"
proof -
  have "length xs = a ^ k * a ^ j" using assms by (simp add: power_add mult.commute)
  then show ?thesis by (simp add: root_def levels_add levels_blocks [where m = "a ^ k"])
qed

lemma root_Suc_block:
  assumes "length xs = a ^ Suc k"
  shows "root h a (Suc k) xs = h (levels h a k xs)"
proof -
  have l: "length (levels h a k xs) = a" using assms by (intro length_levels) simp
  then show ?thesis
    by (simp only: root_def levels_Suc_end) (simp add: level_def blocks_def block_def)
qed

lemma nth_rows:
  "i < k \<Longrightarrow> rows h a k xs ! i = levels h a (Suc i) xs"
  by (induction k arbitrary: i xs) (auto simp: nth_Cons split: nat.splits)

lemma length_rows [simp]: "length (rows h a k xs) = k"
  by (induction k arbitrary: xs) simp_all

end

lemma rows_levels: "rows h a k xs = map (\<lambda>j. levels h a j xs) [1..<Suc k]"
proof (induction k arbitrary: xs)
  case (Suc k)
  have "[1..<Suc (Suc k)] = 1 # map Suc [1..<Suc k]" by (simp add: map_Suc_upt upt_conv_Cons del: upt_Suc)
  with Suc show ?case by (simp add: comp_def del: upt_Suc)
qed simp

lemma stored_rows_rows: "concat (map (\<lambda>j. levels h a j xs) [0..<Suc k]) = xs @ concat (rows h a k xs)"
  unfolding rows_levels by (simp add: upt_conv_Cons del: upt_Suc)

end
