(* ===== verification/Tree_Builder.thy ===== *)
theory Tree_Builder
  imports Merkle Sector_Params
begin

text \<open>
  The Poseidon tree builder of \<open>src/pc1/tree_builder.hpp\<close>.  A pointer is a
  region and an offset: the leaves, the output array and the scratch array
  \<open>discarded_rows\<close> are the three regions of a store, because the builder
  reads a row it has just written and, with two discarded rows, overwrites the
  scratch array in place.  Every access is bounds checked.  The two hashers
  are the parameters \<open>col_hash\<close> and \<open>hash\<close>; reading the inputs of a
  hash precedes writing its result.

  The row loops and \<open>size\<close> only end when the arity is at least two, so they
  are partial functions.  This theory has the single threaded builder; the
  builder over a thread pool is in the theory \<open>Tree_Builder_MT\<close>.
\<close>

datatype region = RIn | ROut | RDisc

type_synonym pointer = "region \<times> nat"

type_synonym 'n store = "region \<Rightarrow> 'n list"

record 'n TreeBuilder =
  col_arity :: nat
  tb_arity :: nat
  discard_rows :: nat
  col_hash :: "'n list \<Rightarrow> 'n"
  tb_hash :: "'n list \<Rightarrow> 'n"

definition TreeBuilder_new :: "(nat \<Rightarrow> 'n list \<Rightarrow> 'n) \<Rightarrow> nat \<Rightarrow> nat \<Rightarrow> nat \<Rightarrow> 'n TreeBuilder" where
  "TreeBuilder_new poseidon ca a d =
     \<lparr>col_arity = ca, tb_arity = a, discard_rows = d, col_hash = poseidon ca, tb_hash = poseidon a\<rparr>"

partial_function (option) size_loop :: "nat \<Rightarrow> nat \<Rightarrow> nat \<Rightarrow> nat \<Rightarrow> nat option" where
  "size_loop a discards cur_count total_nodes =
     (if cur_count > 1 then
        if discards > 0 then size_loop a (discards - 1) (cur_count div a) total_nodes
        else size_loop a discards (cur_count div a) (total_nodes + cur_count div a)
      else Some total_nodes)"

definition tree_size :: "'n TreeBuilder \<Rightarrow> nat \<Rightarrow> bool \<Rightarrow> bool \<Rightarrow> nat result option" where
  "tree_size tb count cols no_discard =
     (if tb_arity tb = 0 \<or> cols \<and> col_arity tb = 0 then Some (Inl DivByZero)
      else if count mod tb_arity tb \<noteq> 0 then Some (Inl AssertFail)
      else
        let total_nodes = (if cols then count div col_arity tb else 0);
            cur_count = (if cols then count div col_arity tb else count);
            discards = (if cols \<or> no_discard then 0 else discard_rows tb)
        in map_option Inr (size_loop (tb_arity tb) discards cur_count total_nodes))"

definition read_nodes :: "'n store \<Rightarrow> pointer \<Rightarrow> nat \<Rightarrow> 'n list result" where
  "read_nodes mem p n =
     (if snd p + n \<le> length (mem (fst p)) then Inr (take n (drop (snd p) (mem (fst p))))
      else Inl OutOfBounds)"

definition write_node :: "pointer \<Rightarrow> 'n \<Rightarrow> 'n store \<Rightarrow> 'n store result" where
  "write_node p x mem =
     (if snd p < length (mem (fst p)) then Inr (mem(fst p := (mem (fst p))[snd p := x]))
      else Inl OutOfBounds)"

definition HashNode :: "('n list \<Rightarrow> 'n) \<Rightarrow> nat \<Rightarrow> pointer \<Rightarrow> pointer \<Rightarrow> 'n store \<Rightarrow> 'n store result" where
  "HashNode hash a out_p in_p mem =
     bind_result (read_nodes mem in_p a) (\<lambda>xs. write_node out_p (hash xs) mem)"

definition hash_row ::
    "('n list \<Rightarrow> 'n) \<Rightarrow> nat \<Rightarrow> nat \<Rightarrow> pointer \<Rightarrow> pointer \<Rightarrow> 'n store \<Rightarrow> 'n store result" where
  "hash_row hash a n src dst mem =
     fold_result (\<lambda>i. HashNode hash a (fst dst, snd dst + i) (fst src, snd src + i * a)) [0..<n] mem"

partial_function (option) build_loop ::
    "('n list \<Rightarrow> 'n) \<Rightarrow> nat \<Rightarrow> pointer \<Rightarrow> nat \<Rightarrow> pointer \<Rightarrow> pointer \<Rightarrow> int \<Rightarrow> 'n store \<Rightarrow>
      (pointer \<times> 'n store) result option" where
  "build_loop hash a out_p cur_count src dst discards mem =
     (if cur_count > 1 then
        case hash_row hash a (div_ceil cur_count a) src dst mem of
          Inl e \<Rightarrow> Some (Inl e)
        | Inr mem' \<Rightarrow>
            build_loop hash a out_p (cur_count div a) dst
              (if discards - 1 = 1 then (RDisc, 0)
               else if discards - 1 = 0 then out_p
               else (fst dst, snd dst + div_ceil cur_count a))
              (discards - 1) mem'
      else Some (Inr (dst, mem)))"

definition build_result :: "pointer \<times> 'n store \<Rightarrow> ('n \<times> 'n store) result" where
  "build_result r =
     (let (dst, mem) = r in
      if snd dst = 0 then Inl OutOfBounds
      else bind_result (vec_get (mem (fst dst)) (snd dst - 1)) (\<lambda>x.
           Inr (x, mem(RDisc := []))))"

definition BuildTree :: "'n TreeBuilder \<Rightarrow> 'n \<Rightarrow> nat \<Rightarrow> pointer \<Rightarrow> pointer \<Rightarrow> bool \<Rightarrow> bool \<Rightarrow>
    'n store \<Rightarrow> ('n \<times> 'n store) result option" where
  "BuildTree tb uninit count out_p in_p cols no_discard mem =
     (let a = tb_arity tb; ca = col_arity tb in
      if a = 0 \<or> cols \<and> ca = 0 then Some (Inl DivByZero)
      else if cols \<and> count mod ca \<noteq> 0 then Some (Inl AssertFail)
      else if (if cols then count div ca else count) mod a \<noteq> 0 then Some (Inl AssertFail)
      else
        case (if cols then hash_row (col_hash tb) ca (div_ceil count ca) in_p out_p mem else Inr mem) of
          Inl e \<Rightarrow> Some (Inl e)
        | Inr mem1 \<Rightarrow>
            let src = (if cols then out_p else in_p);
                dst = (if cols then (fst out_p, snd out_p + div_ceil count ca) else out_p);
                cur_count = (if cols then count div ca else count);
                discards = (if cols \<or> no_discard then - 1 else int (discard_rows tb));
                mem2 = (if discards > 0 then mem1(RDisc := replicate (count div a) uninit) else mem1);
                dst2 = (if discards > 0 then (RDisc, 0) else dst)
            in map_option (\<lambda>r. bind_result r build_result)
                 (build_loop (tb_hash tb) a out_p cur_count src dst2 discards mem2))"


section \<open>One row\<close>

definition row_ok :: "nat \<Rightarrow> nat \<Rightarrow> pointer \<Rightarrow> pointer \<Rightarrow> 'n store \<Rightarrow> bool" where
  "row_ok a n src dst mem \<longleftrightarrow>
     snd src + n * a \<le> length (mem (fst src)) \<and> snd dst + n \<le> length (mem (fst dst)) \<and>
     (fst src \<noteq> fst dst \<or> snd dst \<le> snd src \<or> snd src + n * a \<le> snd dst)"

lemma level_take_Suc:
  assumes "Suc n * a \<le> length xs" "0 < a"
  shows "level h a (take (Suc n * a) xs) = level h a (take (n * a) xs) @ [h (take a (drop (n * a) xs))]"
proof -
  have s: "take (Suc n * a) xs = take (n * a) xs @ take a (drop (n * a) xs)"
    by (metis add.commute mult_Suc take_add)
  have "length (take (n * a) xs) = n * a" using assms by simp
  from blocks_append [OF this assms(2)]
  have "level h a (take (Suc n * a) xs) =
      level h a (take (n * a) xs) @ level h a (take a (drop (n * a) xs))"
    unfolding s by (simp add: level_def)
  moreover have "level h a (take a (drop (n * a) xs)) = [h (take a (drop (n * a) xs))]"
    using assms by (simp add: level_def blocks_def block_def)
  ultimately show ?thesis by simp
qed

lemma hash_row_overlay:
  assumes "0 < a" "row_ok a n src dst mem"
  shows "hash_row hash a n src dst mem =
    Inr (mem(fst dst := overlay (snd dst)
          (level hash a (take (n * a) (drop (snd src) (mem (fst src))))) (mem (fst dst))))"
  using assms(2)
proof (induction n)
  case 0
  show ?case by (simp add: hash_row_def level_def blocks_def)
next
  case (Suc n)
  let ?xs = "drop (snd src) (mem (fst src))"
  let ?r = "level hash a (take (n * a) ?xs)"
  let ?mem = "mem(fst dst := overlay (snd dst) ?r (mem (fst dst)))"
  have ok: "row_ok a n src dst mem" using Suc.prems by (auto simp: row_ok_def)
  have b: "snd src + Suc n * a \<le> length (mem (fst src))" "snd dst + Suc n \<le> length (mem (fst dst))"
    using Suc.prems by (auto simp: row_ok_def)
  have lr: "length ?r = n" using b(1) assms(1) by simp
  have len: "length (?mem r) = length (mem r)" for r using b(2) lr by simp
  have rd: "read_nodes ?mem (fst src, snd src + n * a) a = Inr (take a (drop (n * a) ?xs))"
  proof -
    have "take a (drop (snd src + n * a) (?mem (fst src))) = take a (drop (n * a) ?xs)"
    proof (cases "fst src = fst dst")
      case True
      have "n \<le> n * a" using assms(1) by simp
      then have "snd src + n * a + a \<le> snd dst \<or> snd dst + n \<le> snd src + n * a"
        using Suc.prems True unfolding row_ok_def mult_Suc by linarith
      with True b lr show ?thesis
        by (simp add: take_drop_overlay_other add.assoc add.commute)
    qed (simp add: add.commute)
    moreover have "snd src + n * a + a \<le> length (?mem (fst src))" using len b(1) by simp
    ultimately show ?thesis by (simp add: read_nodes_def)
  qed
  have wr: "write_node (fst dst, snd dst + n) y ?mem =
      Inr (mem(fst dst := (overlay (snd dst) ?r (mem (fst dst)))[snd dst + n := y]))" for y
    using len [of "fst dst"] b(2) by (simp add: write_node_def)
  have "hash_row hash a (Suc n) src dst mem =
      bind_result (hash_row hash a n src dst mem)
        (HashNode hash a (fst dst, snd dst + n) (fst src, snd src + n * a))"
    by (simp add: hash_row_def fold_result_append)
       (simp add: bind_result_def split: sum.splits)
  also have "\<dots> = Inr (mem(fst dst := (overlay (snd dst) ?r (mem (fst dst)))
      [snd dst + n := hash (take a (drop (n * a) ?xs))]))"
    by (simp only: Suc.IH [OF ok] bind_result_simps HashNode_def rd wr)
  also have "(overlay (snd dst) ?r (mem (fst dst)))[snd dst + n := hash (take a (drop (n * a) ?xs))] =
      overlay (snd dst) (level hash a (take (Suc n * a) ?xs)) (mem (fst dst))"
  proof -
    have "Suc n * a \<le> length ?xs" using b(1) by simp
    from level_take_Suc [OF this assms(1), of hash] show ?thesis
      using overlay_snoc [of "snd dst" ?r "mem (fst dst)"] b(2) lr by simp
  qed
  finally show ?case .
qed


section \<open>The row loop\<close>

lemma div_ceil_exact: "0 < a \<Longrightarrow> div_ceil (n * a) a = n"
  unfolding div_ceil_def by (simp add: div_nat_eqI algebra_simps)

lemma row_block:
  "s + n \<le> length xs \<Longrightarrow> length (take n (drop s xs)) = n"
  by simp

lemma build_result_overlay:
  assumes "c \<noteq> []" "d + length c \<le> length (mem ROut)"
  shows "build_result ((ROut, d + length c), mem(ROut := overlay d c (mem ROut))) =
    Inr (last c, mem(ROut := overlay d c (mem ROut), RDisc := []))"
proof -
  have "overlay d c (mem ROut) ! (d + length c - 1) = last c"
    using assms by (cases c rule: rev_cases) (simp_all add: nth_overlay)
  with assms show ?thesis by (cases c) (simp_all add: build_result_def)
qed

context merkle_hash
begin

lemma concat_rows_Suc:
  "concat (rows h a (Suc k) xs) = level h a xs @ concat (rows h a k (level h a xs))"
  by simp

lemma build_loop_plain:
  assumes "discards \<le> 0" "length xs = a ^ k" "s + a ^ k \<le> length (mem rs)"
    "xs = take (a ^ k) (drop s (mem rs))" "rs \<noteq> rd \<or> s + a ^ k \<le> d"
    "d + length (concat (rows h a k xs)) \<le> length (mem rd)"
  shows "build_loop h a out_p (a ^ k) (rs, s) (rd, d) discards mem =
    Some (Inr ((rd, d + length (concat (rows h a k xs))),
               mem(rd := overlay d (concat (rows h a k xs)) (mem rd))))"
  using assms
proof (induction k arbitrary: xs s rs d discards mem)
  case 0
  then show ?case by (subst build_loop.simps) simp
next
  case (Suc k)
  let ?l = "level h a xs"
  let ?mem = "mem(rd := overlay d ?l (mem rd))"
  have ll: "length ?l = a ^ k" using Suc.prems(2) by simp
  have gt: "1 < a ^ Suc k" using arity one_less_power [of a "Suc k"] by simp
  have dl: "d + a ^ k \<le> length (mem rd)" using Suc.prems(6) ll by simp
  have ok: "row_ok a (a ^ k) (rs, s) (rd, d) mem"
    using Suc.prems(3,5) dl by (auto simp: row_ok_def mult.commute)
  have dc: "div_ceil (a ^ Suc k) a = a ^ k"
    using div_ceil_exact [of a "a ^ k"] by (simp add: mult.commute)
  have row: "hash_row h a (a ^ k) (rs, s) (rd, d) mem = Inr ?mem"
    using hash_row_overlay [OF _ ok, of h] Suc.prems(4) by (simp add: mult.commute)
  have IH: "build_loop h a out_p (a ^ k) (rd, d) (rd, d + a ^ k) (discards - 1) ?mem =
    Some (Inr ((rd, d + a ^ k + length (concat (rows h a k ?l))),
               ?mem(rd := overlay (d + a ^ k) (concat (rows h a k ?l)) (?mem rd))))"
  proof (rule Suc.IH)
    show "?l = take (a ^ k) (drop d (?mem rd))"
      using dl ll take_drop_overlay_same [of d ?l "mem rd"] by simp
  qed (use Suc.prems dl ll in auto)
  have "build_loop h a out_p (a ^ Suc k) (rs, s) (rd, d) discards mem =
      build_loop h a out_p (a ^ k) (rd, d) (rd, d + a ^ k) (discards - 1) ?mem"
    using gt row dc Suc.prems(1) by (subst build_loop.simps) simp
  also have "\<dots> = Some (Inr ((rd, d + length (concat (rows h a (Suc k) xs))),
               mem(rd := overlay d (concat (rows h a (Suc k) xs)) (mem rd))))"
    unfolding IH using ll overlay_append [of d ?l "concat (rows h a k ?l)" "mem rd"] Suc.prems(6)
    by (simp add: add.assoc)
  finally show ?case .
qed

lemma last_of_rows:
  assumes "length xs = a ^ k" "0 < k"
  shows "concat (rows h a k xs) \<noteq> []" "last (concat (rows h a k xs)) = root h a k xs"
proof -
  have "concat (rows h a k xs) \<noteq> [] \<and> last (concat (rows h a k xs)) = root h a k xs"
    using assms
  proof (induction k arbitrary: xs)
    case (Suc k)
    show ?case
    proof (cases k)
      case 0
      with Suc.prems have "length (level h a xs) = 1" by simp
      then show ?thesis using 0 by (cases "level h a xs") (auto simp: root_def)
    next
      case (Suc k')
      with Suc.prems Suc.IH [of "level h a xs"] show ?thesis by (simp add: root_def)
    qed
  qed simp
  then show "concat (rows h a k xs) \<noteq> []" "last (concat (rows h a k xs)) = root h a k xs"
    by blast+
qed

lemma build_step:
  assumes "length xs = a ^ Suc k" "xs = take (a ^ Suc k) (drop s (mem rs))"
    "s + a ^ Suc k \<le> length (mem rs)" "d + a ^ k \<le> length (mem rd)" "rs \<noteq> rd \<or> d \<le> s"
  shows "build_loop h a out_p (a ^ Suc k) (rs, s) (rd, d) discards mem =
    build_loop h a out_p (a ^ k) (rd, d)
      (if discards - 1 = 1 then (RDisc, 0) else if discards - 1 = 0 then out_p else (rd, d + a ^ k))
      (discards - 1) (mem(rd := overlay d (level h a xs) (mem rd)))"
proof -
  have gt: "1 < a ^ Suc k" using arity one_less_power [of a "Suc k"] by simp
  have ok: "row_ok a (a ^ k) (rs, s) (rd, d) mem"
    using assms by (auto simp: row_ok_def mult.commute)
  have dc: "div_ceil (a ^ Suc k) a = a ^ k"
    using div_ceil_exact [of a "a ^ k"] by (simp add: mult.commute)
  have row: "hash_row h a (a ^ k) (rs, s) (rd, d) mem = Inr (mem(rd := overlay d (level h a xs) (mem rd)))"
    using hash_row_overlay [OF _ ok, of h] assms(2) by (simp add: mult.commute)
  show ?thesis using gt row dc by (subst build_loop.simps) simp
qed

lemma build_rows:
  assumes "d \<le> 2" "d < k" "length xs = a ^ k" "xs = take (a ^ k) (drop s (mem RIn))"
    "s + a ^ k \<le> length (mem RIn)" "dst + length (concat (drop d (rows h a k xs))) \<le> length (mem ROut)"
    "0 < d \<Longrightarrow> length (mem RDisc) = a ^ (k - 1)" "0 < d \<Longrightarrow> dis = int d" "d = 0 \<Longrightarrow> dis \<le> 0"
    "p = (if 0 < d then (RDisc, 0) else (ROut, dst))"
  shows "\<exists>mem'. build_loop h a (ROut, dst) (a ^ k) (RIn, s) p dis mem =
     Some (Inr ((ROut, dst + length (concat (drop d (rows h a k xs)))),
       mem'(ROut := overlay dst (concat (drop d (rows h a k xs))) (mem' ROut)))) \<and>
     mem' RIn = mem RIn \<and> mem' ROut = mem ROut"
proof -
  consider "d = 0" | "d = 1" | "d = 2" using assms(1) by linarith
  then show ?thesis
  proof cases
    case 1
    with assms show ?thesis
      using build_loop_plain [of dis xs k s mem RIn ROut dst "(ROut, dst)"] by auto
  next
    case 2
    then obtain k1 where k: "k = Suc k1" using assms(2) by (cases k) auto
    let ?l = "level h a xs"
    let ?m = "mem(RDisc := overlay 0 ?l (mem RDisc))"
    have ll: "length ?l = a ^ k1" "length (mem RDisc) = a ^ k1" using assms(3,7) 2 k by simp_all
    then have ov: "overlay 0 ?l (mem RDisc) = ?l" by (simp add: overlay_def)
    have "build_loop h a (ROut, dst) (a ^ k) (RIn, s) p dis mem =
        build_loop h a (ROut, dst) (a ^ k1) (RDisc, 0) (ROut, dst) 0 ?m"
      using build_step [of xs k1 s mem RIn 0 RDisc] assms 2 k ll by simp
    moreover have "build_loop h a (ROut, dst) (a ^ k1) (RDisc, 0) (ROut, dst) 0 ?m =
      Some (Inr ((ROut, dst + length (concat (rows h a k1 ?l))),
         ?m(ROut := overlay dst (concat (rows h a k1 ?l)) (?m ROut))))"
      using assms 2 k ll ov by (intro build_loop_plain) simp_all
    ultimately show ?thesis using 2 k by (intro exI [of _ ?m]) simp
  next
    case 3
    then obtain k2 where k: "k = Suc (Suc k2)" using assms(2) by (cases k; cases "k - 1") auto
    let ?l = "level h a xs" and ?l2 = "level h a (level h a xs)"
    let ?m = "mem(RDisc := overlay 0 ?l (mem RDisc))"
    let ?m2 = "?m(RDisc := overlay 0 ?l2 (?m RDisc))"
    have ll: "length ?l = a ^ Suc k2" "length (mem RDisc) = a ^ Suc k2" "length ?l2 = a ^ k2"
      using assms(3,7) 3 k by simp_all
    then have ov: "overlay 0 ?l (mem RDisc) = ?l" by (simp add: overlay_def)
    have "build_loop h a (ROut, dst) (a ^ k) (RIn, s) p dis mem =
        build_loop h a (ROut, dst) (a ^ Suc k2) (RDisc, 0) (RDisc, 0) 1 ?m"
      using build_step [of xs "Suc k2" s mem RIn 0 RDisc] assms 3 k ll by simp
    moreover have "build_loop h a (ROut, dst) (a ^ Suc k2) (RDisc, 0) (RDisc, 0) 1 ?m =
        build_loop h a (ROut, dst) (a ^ k2) (RDisc, 0) (ROut, dst) 0 ?m2"
      using build_step [of ?l k2 0 ?m RDisc 0 RDisc] ll ov arity by simp
    moreover have "build_loop h a (ROut, dst) (a ^ k2) (RDisc, 0) (ROut, dst) 0 ?m2 =
      Some (Inr ((ROut, dst + length (concat (rows h a k2 ?l2))),
         ?m2(ROut := overlay dst (concat (rows h a k2 ?l2)) (?m2 ROut))))"
    proof (rule build_loop_plain)
      have l2: "a ^ k2 \<le> a ^ Suc k2" using arity by simp
      then show "0 + a ^ k2 \<le> length (?m2 RDisc)" using ll ov by simp
      show "?l2 = take (a ^ k2) (drop 0 (?m2 RDisc))"
        using ll l2 ov take_drop_overlay_same [of 0 ?l2 ?l] by simp
    qed (use assms 3 k ll in simp_all)
    ultimately show ?thesis using 3 k by (intro exI [of _ ?m2]) (simp add: numeral_2_eq_2)
  qed
qed

lemma last_drop_rows:
  assumes "length xs = a ^ k" "d < k"
  shows "concat (drop d (rows h a k xs)) \<noteq> []" "last (concat (drop d (rows h a k xs))) = root h a k xs"
proof -
  have "drop d (rows h a k xs) = rows h a (k - d) (levels h a d xs)"
    using assms(2)
  proof (induction d arbitrary: k xs)
    case (Suc d)
    then show ?case by (cases k) simp_all
  qed simp
  moreover have "length (levels h a d xs) = a ^ (k - d)"
    using assms by (intro length_levels) (simp add: power_add [symmetric])
  moreover have "root h a (k - d) (levels h a d xs) = root h a k xs"
    using assms(2) by (simp add: root_def levels_add [symmetric])
  ultimately show "concat (drop d (rows h a k xs)) \<noteq> []"
    "last (concat (drop d (rows h a k xs))) = root h a k xs"
    using last_of_rows [of "levels h a d xs" "k - d"] assms(2) by simp_all
qed

end


section \<open>The storage size\<close>

lemma size_loop_exact:
  assumes "2 \<le> a" "d \<le> k"
  shows "size_loop a d (a ^ k) t = Some (t + (\<Sum>i<k - d. a ^ i))"
  using assms(2)
proof (induction k arbitrary: d t)
  case 0
  then show ?case by (subst size_loop.simps) simp
next
  case (Suc k)
  have gt: "1 < a ^ Suc k" using assms(1) one_less_power [of a "Suc k"] by simp
  have dv: "a ^ Suc k div a = a ^ k" using assms(1) by simp
  show ?case
  proof (cases d)
    case 0
    have "size_loop a d (a ^ Suc k) t = size_loop a 0 (a ^ k) (t + a ^ k)"
      using gt dv 0 by (subst size_loop.simps) simp
    with Suc.IH [of 0 "t + a ^ k"] 0 show ?thesis by simp
  next
    case (Suc d')
    have "size_loop a d (a ^ Suc k) t = size_loop a d' (a ^ k) t"
      using gt dv Suc by (subst size_loop.simps) simp
    with Suc.IH [of d' t] Suc \<open>d \<le> Suc k\<close> show ?thesis by simp
  qed
qed

context merkle_hash
begin

lemma length_concat_drop_rows:
  assumes "length xs = a ^ k" "d \<le> k"
  shows "length (concat (drop d (rows h a k xs))) = (\<Sum>i<k - d. a ^ i)"
  using assms
proof (induction k arbitrary: d xs)
  case (Suc k)
  have l: "length (level h a xs) = a ^ k" using Suc.prems(1) by simp
  show ?case
  proof (cases d)
    case 0
    with Suc.IH [OF l, of 0] l show ?thesis by simp
  next
    case (Suc d')
    with Suc.IH [OF l, of d'] Suc.prems(2) show ?thesis by simp
  qed
qed simp

end


section \<open>Properties of the single threaded builder\<close>

lemma BuildTree_plain_unfold:
  assumes "tb_arity tb = a" "2 \<le> a" "0 < k" "e = (if no_discard then 0 else discard_rows tb)"
  shows "BuildTree tb u (a ^ k) out_p in_p False no_discard mem =
    map_option (\<lambda>r. bind_result r build_result)
      (build_loop (tb_hash tb) a out_p (a ^ k) in_p (if 0 < e then (RDisc, 0) else out_p)
        (if no_discard then - 1 else int (discard_rows tb))
        (if 0 < e then mem(RDisc := replicate (a ^ (k - 1)) u) else mem))"
proof -
  have "a ^ k mod a = 0" "a ^ k div a = a ^ (k - 1)"
    using assms(2,3) by (cases k; simp)+
  with assms show ?thesis by (auto simp: BuildTree_def Let_def)
qed

lemma BuildTree_spec:
  fixes tb :: "'n TreeBuilder"
  defines "a \<equiv> tb_arity tb"
  defines "h \<equiv> tb_hash tb"
  assumes "2 \<le> a" "d = (if no_discard then 0 else discard_rows tb)" "d \<le> 2" "d < k"
    "s + a ^ k \<le> length (mem RIn)" "xs = take (a ^ k) (drop s (mem RIn))"
    "stored = concat (drop d (rows h a k xs))" "dst + length stored \<le> length (mem ROut)"
  shows "\<exists>mem'. BuildTree tb u (a ^ k) (ROut, dst) (RIn, s) False no_discard mem =
      Some (Inr (root h a k xs, mem')) \<and>
    mem' ROut = overlay dst stored (mem ROut) \<and> mem' RIn = mem RIn \<and>
    tree_size tb (a ^ k) False no_discard = Some (Inr (length stored))"
proof -
  have k: "0 < k" using assms(6) by simp
  have mh: "merkle_hash a" using assms(3) by (rule merkle_hash.intro)
  have len: "length xs = a ^ k" using assms(7,8) by simp
  define M where "M = (if 0 < d then mem(RDisc := replicate (a ^ (k - 1)) u) else mem)"
  have M: "M RIn = mem RIn" "M ROut = mem ROut" by (simp_all add: M_def)
  let ?p = "if 0 < d then (RDisc, 0) else (ROut, dst)"
  let ?dis = "if no_discard then - 1 else int (discard_rows tb)"
  have "\<exists>mem'. build_loop h a (ROut, dst) (a ^ k) (RIn, s) ?p ?dis M =
     Some (Inr ((ROut, dst + length (concat (drop d (rows h a k xs)))),
       mem'(ROut := overlay dst (concat (drop d (rows h a k xs))) (mem' ROut)))) \<and>
     mem' RIn = M RIn \<and> mem' ROut = M ROut"
    using assms len M by (intro merkle_hash.build_rows [OF mh]) (auto simp: M_def)
  then obtain m where m: "build_loop h a (ROut, dst) (a ^ k) (RIn, s) ?p ?dis M =
      Some (Inr ((ROut, dst + length stored), m(ROut := overlay dst stored (m ROut))))"
    "m RIn = mem RIn" "m ROut = mem ROut"
    using assms(9) M by metis
  have st: "stored \<noteq> []" "last stored = root h a k xs"
    using merkle_hash.last_drop_rows [OF mh len assms(6)] assms(9) by simp_all
  have sz: "tree_size tb (a ^ k) False no_discard = Some (Inr (length stored))"
  proof -
    have "a ^ k mod a = 0" using k by (cases k) simp_all
    with size_loop_exact [OF assms(3), of d k 0] merkle_hash.length_concat_drop_rows [OF mh len, of d]
    show ?thesis using assms(3,4,6,9) by (simp add: tree_size_def a_def [symmetric])
  qed
  have "BuildTree tb u (a ^ k) (ROut, dst) (RIn, s) False no_discard mem =
      Some (build_result ((ROut, dst + length stored), m(ROut := overlay dst stored (m ROut))))"
    using BuildTree_plain_unfold [of tb a k d no_discard] assms(3,4) k m(1)
    by (simp add: a_def h_def M_def)
  then show ?thesis
    using build_result_overlay [OF st(1), of dst m] st(2) m assms(10) sz by simp
qed

text \<open>
  C11: the single threaded \<open>BuildTree\<close> over \<open>arity ^ k\<close> leaves, with up to two
  discarded rows: it returns (never leaving an array, also when the second
  discarded row overwrites the first in place) the Merkle root of the leaves;
  it stores, from the output pointer on, exactly the rows above the discarded
  ones from the bottom up, whose number is what \<open>size\<close> reports; and it leaves
  the leaves and the rest of the output unchanged.
\<close>
theorem BuildTree_correct:
  fixes tb :: "'n TreeBuilder"
  defines "a \<equiv> tb_arity tb"
  defines "h \<equiv> tb_hash tb"
  assumes "2 \<le> a" "d = (if no_discard then 0 else discard_rows tb)" "d \<le> 2" "d < k"
    "s + a ^ k \<le> length (mem RIn)" "xs = take (a ^ k) (drop s (mem RIn))"
    "stored = concat (drop d (rows h a k xs))" "dst + length stored \<le> length (mem ROut)"
  shows "\<exists>mem'. BuildTree tb u (a ^ k) (ROut, dst) (RIn, s) False no_discard mem =
      Some (Inr (root h a k xs, mem')) \<and>
    mem' ROut = overlay dst stored (mem ROut) \<and> mem' RIn = mem RIn \<and>
    tree_size tb (a ^ k) False no_discard = Some (Inr (length stored))"
  using BuildTree_spec assms unfolding a_def h_def by metis

theorem BuildTree_correct_witness:
  "let tb = TreeBuilder_new (\<lambda>n. sum_list) 2 2 (Suc 0);
       mem = (\<lambda>_. [])(RIn := [5, 6, 7, 8 :: nat], ROut := [0, 0])
   in \<exists>mem'. BuildTree tb 0 (2 ^ 2) (ROut, Suc 0) (RIn, 0) False False mem = Some (Inr (26, mem')) \<and>
       mem' ROut = [0, 26]"
proof -
  let ?tb = "TreeBuilder_new (\<lambda>n. sum_list) 2 2 (Suc 0) :: nat TreeBuilder"
  let ?mem = "(\<lambda>_. [])(RIn := [5, 6, 7, 8 :: nat], ROut := [0, 0])"
  have h: "tb_arity ?tb = 2" "tb_hash ?tb = sum_list" "discard_rows ?tb = Suc 0"
    by (simp_all add: TreeBuilder_new_def)
  have two: "(2 :: nat) = Suc (Suc 0)" by simp
  have r: "level sum_list 2 [5, 6, 7, 8 :: nat] = [11, 15]" "level sum_list 2 [11, 15 :: nat] = [26]"
    by (simp_all add: level_def blocks_def block_def upt_conv_Cons)
  then have rr: "concat (drop (Suc 0) (rows sum_list 2 2 [5, 6, 7, 8 :: nat])) = [26]"
    "root sum_list 2 2 [5, 6, 7, 8 :: nat] = 26"
    by (simp_all add: two root_def r [unfolded two])
  show ?thesis
    using BuildTree_correct [of ?tb "Suc 0" False 2 0 ?mem "[5, 6, 7, 8]" "[26]" "Suc 0" 0]
    by (auto simp: h rr overlay_def)
qed

end
