(* ===== verification/Planner.thy ===== *)
theory Planner
  imports Node_Id Merkle
begin

unbundle bit_operations_syntax

text \<open>
  The hash scheduler of PC2, \<open>src/pc2/planner.cpp\<close>: work items, the pool of
  device buffers and \<open>scheduler_t\<close>.  Identifiers are the packed 64-bit node
  identifiers of \<open>Node_Id\<close>.  A buffer is a number, allocated in order by
  \<open>buffers_t::get\<close>; what the buffers hold, and whatever else the hash callback
  changes, is the field \<open>data\<close>.  The stack of work is a list with the top first; the work in
  progress is the ordered map of the source, kept as an association list in
  key order.
\<close>

record work_item_t =
  wi_idx :: node_id_t
  dependencies_ready :: nat
  is_leaf :: bool
  buf :: "nat ptr"
  inputs :: "nat ptr list"

definition work_item_new :: work_item_t where
  "work_item_new = \<lparr>wi_idx = - 1, dependencies_ready = 0, is_leaf = False, buf = nullptr,
     inputs = replicate GetNumTreeRCArity nullptr\<rparr>"

definition work_item :: "node_id_t \<Rightarrow> bool \<Rightarrow> work_item_t" where
  "work_item idx leaf = \<lparr>wi_idx = idx, dependencies_ready = 0, is_leaf = leaf, buf = nullptr,
     inputs = replicate GetNumTreeRCArity nullptr\<rparr>"

definition leaf_num :: "nat \<Rightarrow> work_item_t \<Rightarrow> nat" where
  "leaf_num bits w = unat (node_id_node bits (wi_idx w) AND of_nat (GetNumTreeRCArity - 1))"

record buffers_t =
  buffers :: "nat ptr list"
  num_elements :: nat
  num_buffers :: nat

definition buffers_new :: "nat \<Rightarrow> buffers_t" where
  "buffers_new n = \<lparr>buffers = [], num_elements = n, num_buffers = 0\<rparr>"

definition buffers_get :: "buffers_t \<Rightarrow> nat ptr \<times> buffers_t" where
  "buffers_get bs =
     (case buffers bs of
        [] \<Rightarrow> (Some (num_buffers bs), bs\<lparr>num_buffers := num_buffers bs + 1\<rparr>)
      | b # rest \<Rightarrow> (b, bs\<lparr>buffers := rest\<rparr>))"

definition buffers_put :: "nat ptr \<Rightarrow> buffers_t \<Rightarrow> buffers_t" where
  "buffers_put b bs = bs\<lparr>buffers := b # buffers bs\<rparr>"

type_synonym work_map_t = "(node_id_t \<times> work_item_t) list"

fun wip_emplace :: "node_id_t \<Rightarrow> work_item_t \<Rightarrow> work_map_t \<Rightarrow> work_map_t" where
  "wip_emplace k v [] = [(k, v)]"
| "wip_emplace k v ((k', v') # m) = (if k < k' then (k, v) # (k', v') # m else (k', v') # wip_emplace k v m)"

definition wip_modify :: "node_id_t \<Rightarrow> (work_item_t \<Rightarrow> work_item_t) \<Rightarrow> work_map_t \<Rightarrow> work_map_t" where
  "wip_modify k f m = map (\<lambda>(k', v). (k', if k' = k then f v else v)) m"

definition wip_erase :: "node_id_t \<Rightarrow> work_map_t \<Rightarrow> work_map_t" where
  "wip_erase k m = filter (\<lambda>p. fst p \<noteq> k) m"

record 'd scheduler_t =
  initial_nodes :: nat
  stack :: "work_item_t list"
  wip :: work_map_t
  bufs :: buffers_t
  hash_count :: nat
  arity :: nat
  data :: 'd

type_synonym 'd hash_cb_t = "work_item_t \<Rightarrow> 'd \<Rightarrow> 'd"

definition sched_reset :: "nat \<Rightarrow> 'd scheduler_t \<Rightarrow> 'd scheduler_t" where
  "sched_reset bits s =
     s\<lparr>hash_count := 0, wip := [],
       stack := rev (map (\<lambda>i. work_item (node_id_of bits 1 (of_nat (initial_nodes s - i - 1))) True)
                     [0..<initial_nodes s])\<rparr>"

definition sched_new :: "nat \<Rightarrow> nat \<Rightarrow> nat \<Rightarrow> buffers_t \<Rightarrow> 'd \<Rightarrow> 'd scheduler_t" where
  "sched_new bits n a bs d =
     sched_reset bits \<lparr>initial_nodes = n, stack = [], wip = [], bufs = bs, hash_count = 0, arity = a,
       data = d\<rparr>"

definition sched_record :: "nat \<Rightarrow> work_item_t \<Rightarrow> 'd scheduler_t \<Rightarrow> 'd scheduler_t" where
  "sched_record bits w s =
     (let next_layer_id = node_id_of bits (node_id_layer bits (wi_idx w) + 1)
            (node_id_node bits (wi_idx w) div of_nat (arity s));
          m1 = (if map_of (wip s) next_layer_id = None
                then wip_emplace next_layer_id (work_item next_layer_id False) (wip s) else wip s);
          m2 = wip_modify next_layer_id
                 (\<lambda>d. d\<lparr>inputs := (inputs d)[leaf_num bits w := buf w],
                        dependencies_ready := dependencies_ready d + 1\<rparr>) m1
      in case map_of m2 next_layer_id of
           None \<Rightarrow> s\<lparr>wip := m2\<rparr>
         | Some d \<Rightarrow>
             if dependencies_ready d = arity s
             then s\<lparr>stack := d # stack s, wip := wip_erase next_layer_id m2\<rparr>
             else s\<lparr>wip := m2\<rparr>)"

definition sched_next :: "nat \<Rightarrow> 'd hash_cb_t \<Rightarrow> bool \<Rightarrow> 'd scheduler_t \<Rightarrow>
    bool \<times> work_item_t ptr \<times> 'd scheduler_t" where
  "sched_next bits hash_cb want_work s =
     (case stack s of
        [] \<Rightarrow> (False, nullptr, s)
      | w0 # rest \<Rightarrow>
          let (b, bs) = buffers_get (bufs s);
              w = w0\<lparr>buf := b\<rparr>;
              d = (if want_work then data s else hash_cb w (data s));
              bs' = (if is_leaf w then bs else fold buffers_put (inputs w) bs);
              s' = sched_record bits w
                     (s\<lparr>stack := rest, bufs := bs', hash_count := hash_count s + 1, data := d\<rparr>)
          in (stack s' \<noteq> [], if want_work then Some w else nullptr, s'))"

definition sched_is_done :: "'d scheduler_t \<Rightarrow> bool result" where
  "sched_is_done s =
     (case wip s of
        [(k, w)] \<Rightarrow>
          if inputs w ! 0 = nullptr then Inl AssertFail
          else if inputs w ! 1 \<noteq> nullptr then Inl AssertFail
          else Inr True
      | _ \<Rightarrow> Inl AssertFail)"

partial_function (option) sched_loop :: "nat \<Rightarrow> 'd hash_cb_t \<Rightarrow> 'd scheduler_t \<Rightarrow> 'd scheduler_t option" where
  "sched_loop bits hash_cb s =
     (if fst (sched_next bits hash_cb False s)
      then sched_loop bits hash_cb (snd (snd (sched_next bits hash_cb False s)))
      else Some (snd (snd (sched_next bits hash_cb False s))))"

definition sched_run :: "nat \<Rightarrow> 'd hash_cb_t \<Rightarrow> 'd scheduler_t \<Rightarrow> (nat ptr \<times> 'd scheduler_t) result option" where
  "sched_run bits hash_cb s =
     map_option (\<lambda>s'. case wip s' of [] \<Rightarrow> Inl NullDeref | (k, w) # _ \<Rightarrow> Inr (inputs w ! 0, s'))
       (sched_loop bits hash_cb s)"


section \<open>The work map\<close>

abbreviation keys :: "work_map_t \<Rightarrow> node_id_t set" where
  "keys m \<equiv> fst ` set m"

lemma keys_emplace [simp]: "keys (wip_emplace k v m) = insert k (keys m)"
  by (induction k v m rule: wip_emplace.induct) (simp_all add: insert_commute)

lemma map_of_emplace [simp]: "k \<notin> keys m \<Longrightarrow> map_of (wip_emplace k v m) k = Some v"
  by (induction k v m rule: wip_emplace.induct) simp_all

lemma modify_absent [simp]: "k \<notin> keys m \<Longrightarrow> wip_modify k f m = m"
  unfolding wip_modify_def by (induction m) auto

lemma modify_emplace [simp]: "k \<notin> keys m \<Longrightarrow> wip_modify k f (wip_emplace k v m) = wip_emplace k (f v) m"
proof (induction k v m rule: wip_emplace.induct)
  case (2 k v k' v' m)
  then show ?case using modify_absent [of k m f] by (auto simp: wip_modify_def)
qed (simp add: wip_modify_def)

lemma erase_absent [simp]: "k \<notin> keys m \<Longrightarrow> wip_erase k m = m"
  by (induction m) (auto simp: wip_erase_def)

lemma erase_emplace [simp]: "k \<notin> keys m \<Longrightarrow> wip_erase k (wip_emplace k v m) = m"
proof (induction m)
  case (Cons p m)
  then show ?case using erase_absent [of k m] by (cases p) (auto simp: wip_erase_def)
qed (simp add: wip_erase_def)

lemma map_of_absent: "k \<notin> keys m \<Longrightarrow> map_of m k = None"
  by (simp add: map_of_eq_None_iff)


section \<open>Recording a result\<close>

definition nid :: "nat \<Rightarrow> nat \<Rightarrow> nat \<Rightarrow> node_id_t" where
  "nid bits l n = node_id_of bits (of_nat l) (of_nat n)"

lemma unat_of_nat32: "n < 2 ^ 32 \<Longrightarrow> unat (of_nat n :: 32 word) = n"
  by (simp add: unat_of_nat take_bit_nat_eq_self)

lemma unat_nid: "bits \<le> 32 \<Longrightarrow> l < 2 ^ 32 \<Longrightarrow> n < 2 ^ bits \<Longrightarrow> unat (nid bits l n) = l * 2 ^ bits + n"
proof -
  assume a: "bits \<le> 32" "l < 2 ^ 32" "n < 2 ^ bits"
  have "(2 :: nat) ^ bits \<le> 2 ^ 32" using a(1) by (intro power_increasing) simp_all
  with a(3) have "n < 2 ^ 32" by linarith
  with a show ?thesis by (simp add: nid_def unat_node_id_of unat_of_nat32)
qed

lemma nid_inj:
  assumes "bits \<le> 32" "l < 2 ^ 32" "n < 2 ^ bits" "l' < 2 ^ 32" "n' < 2 ^ bits"
  shows "nid bits l n = nid bits l' n' \<longleftrightarrow> l = l' \<and> n = n'"
proof
  assume "nid bits l n = nid bits l' n'"
  then have e: "l * 2 ^ bits + n = l' * 2 ^ bits + n'" using assms unat_nid by metis
  have "l = (l * 2 ^ bits + n) div 2 ^ bits" "l' = (l' * 2 ^ bits + n') div 2 ^ bits"
    using assms by simp_all
  with e have "l = l'" by simp
  with e show "l = l' \<and> n = n'" by simp
qed simp

lemma nid_layer: "bits \<le> 32 \<Longrightarrow> l < 2 ^ 32 \<Longrightarrow> n < 2 ^ bits \<Longrightarrow> node_id_layer bits (nid bits l n) = of_nat l"
  by (simp add: word_unat_eq_iff unat_node_id_layer unat_nid unat_of_nat32)

lemma nid_node:
  assumes "bits \<le> 32" "l < 2 ^ 32" "n < 2 ^ bits"
  shows "node_id_node bits (nid bits l n) = of_nat n"
proof -
  have "(2 :: nat) ^ bits \<le> 2 ^ 32" using assms(1) by (intro power_increasing) simp_all
  with assms(3) have "n < 2 ^ 32" by linarith
  with assms show ?thesis by (simp add: word_unat_eq_iff unat_node_id_node unat_nid unat_of_nat32)
qed

lemma arity8: "GetNumTreeRCArity = 8"
  by (simp add: GetNumTreeRCArity_def GetNumTreeRCLgArity_def)

lemma leaf_num_nid:
  assumes "bits \<le> 32" "l < 2 ^ 32" "n < 2 ^ bits" "wi_idx w = nid bits l n"
  shows "leaf_num bits w = n mod 8"
proof -
  have "(2 :: nat) ^ bits \<le> 2 ^ 32" using assms(1) by (intro power_increasing) simp_all
  with assms(3) have n: "n < 2 ^ 32" by linarith
  have m: "(7 :: 32 word) = mask 3" by (simp add: mask_eq_decr_exp)
  have "leaf_num bits w = unat (take_bit 3 (of_nat n :: 32 word))"
    using assms by (simp add: leaf_num_def nid_node arity8 m take_bit_eq_mask)
  also have "\<dots> = n mod 8"
    using n by (simp add: unsigned_take_bit_eq unat_of_nat32 take_bit_eq_mod unat_mod)
  finally show ?thesis .
qed

lemma nid_parent:
  assumes "bits \<le> 32" "Suc l < 2 ^ 32" "n < 2 ^ bits"
  shows "node_id_of bits (node_id_layer bits (nid bits l n) + 1)
      (node_id_node bits (nid bits l n) div of_nat 8) = nid bits (Suc l) (n div 8)"
proof -
  have "(2 :: nat) ^ bits \<le> 2 ^ 32" using assms(1) by (intro power_increasing) simp_all
  with assms(3) have n: "n < 2 ^ 32" by linarith
  then have "(of_nat n :: 32 word) div of_nat 8 = of_nat (n div 8)"
    by (simp add: word_unat_eq_iff unat_div unat_of_nat32)
  moreover have "(of_nat l :: 32 word) + 1 = of_nat (Suc l)" by simp
  ultimately show ?thesis
    using assms by (simp only: nid_layer nid_node nid_def [of bits "Suc l"] Suc_lessD)
qed


definition pending :: "node_id_t \<Rightarrow> nat list \<Rightarrow> work_item_t" where
  "pending k bs = \<lparr>wi_idx = k, dependencies_ready = length bs, is_leaf = False, buf = nullptr,
     inputs = map Some bs @ replicate (8 - length bs) nullptr\<rparr>"

definition wip_with :: "node_id_t \<Rightarrow> nat list \<Rightarrow> work_map_t \<Rightarrow> work_map_t" where
  "wip_with k bs m = (if bs = [] then m else wip_emplace k (pending k bs) m)"

lemma work_item_pending: "work_item k False = pending k []"
  by (simp add: work_item_def pending_def arity8)

lemma pending_snoc:
  assumes "length bs < 8"
  shows "(pending k bs)\<lparr>inputs := (inputs (pending k bs))[length bs := Some b],
           dependencies_ready := dependencies_ready (pending k bs) + 1\<rparr> = pending k (bs @ [b])"
proof -
  have "replicate (8 - length bs) nullptr = nullptr # replicate (7 - length bs) (nullptr :: nat ptr)"
    using assms by (cases "8 - length bs") (auto simp: Suc_diff_Suc)
  then show ?thesis using assms by (simp add: pending_def list_update_append)
qed

lemma sched_record_pending:
  assumes "bits \<le> 32" "Suc l < 2 ^ 32" "n < 2 ^ bits" "arity s = 8"
    "wi_idx w = nid bits l n" "buf w = Some b" "k = nid bits (Suc l) (n div 8)" "k \<notin> keys m"
    "length bs = n mod 8" "wip s = wip_with k bs m"
  shows "sched_record bits w s =
    (if length bs = 7 then s\<lparr>stack := pending k (bs @ [b]) # stack s, wip := m\<rparr>
     else s\<lparr>wip := wip_with k (bs @ [b]) m\<rparr>)"
proof -
  have l8: "length bs < 8" using assms(9) by simp
  have ln: "leaf_num bits w = length bs" using leaf_num_nid [of bits l n w] assms by simp
  have key: "node_id_of bits (node_id_layer bits (wi_idx w) + 1)
      (node_id_node bits (wi_idx w) div of_nat (arity s)) = k"
    using nid_parent [OF assms(1-3)] assms(4,5,7) by simp
  have m1: "(if map_of (wip s) k = None then wip_emplace k (work_item k False) (wip s) else wip s) =
      wip_emplace k (pending k bs) m"
    using assms(8,10) by (auto simp: wip_with_def map_of_absent work_item_pending)
  have m2: "wip_modify k (\<lambda>d. d\<lparr>inputs := (inputs d)[leaf_num bits w := buf w],
        dependencies_ready := dependencies_ready d + 1\<rparr>) (wip_emplace k (pending k bs) m) =
      wip_emplace k (pending k (bs @ [b])) m"
    using assms(6,8) pending_snoc [OF l8, of k b] ln by simp
  have dr: "dependencies_ready (pending k (bs @ [b])) = Suc (length bs)" by (simp add: pending_def)
  show ?thesis
    unfolding sched_record_def Let_def key m1 m2
    using assms(4,8) dr by (auto simp: wip_with_def)
qed


section \<open>The buffer pool\<close>

definition pool_ok :: "buffers_t \<Rightarrow> nat set \<Rightarrow> bool" where
  "pool_ok bs live \<longleftrightarrow>
     (\<exists>free. buffers bs = map Some free \<and> distinct free \<and> set free \<inter> live = {} \<and>
        set free \<union> live = {..<num_buffers bs})"

lemma pool_get:
  assumes "pool_ok bs live"
  shows "\<exists>b bs'. buffers_get bs = (Some b, bs') \<and> b \<notin> live \<and> pool_ok bs' (insert b live) \<and>
    num_buffers bs' \<le> max (num_buffers bs) (card live + 1) \<and> num_buffers bs \<le> num_buffers bs'"
proof -
  from assms obtain free where f: "buffers bs = map Some free" "distinct free" "set free \<inter> live = {}"
    "set free \<union> live = {..<num_buffers bs}" unfolding pool_ok_def by blast
  show ?thesis
  proof (cases free)
    case Nil
    with f have live: "live = {..<num_buffers bs}" by simp
    then have "insert (num_buffers bs) live = {..<Suc (num_buffers bs)}" by (auto simp: lessThan_Suc)
    with Nil f live show ?thesis
      by (auto simp: buffers_get_def pool_ok_def lessThan_Suc)
  next
    case (Cons b rest)
    with f have "pool_ok (bs\<lparr>buffers := map Some rest\<rparr>) (insert b live)" "b \<notin> live"
      unfolding pool_ok_def by auto
    with Cons f show ?thesis by (auto simp: buffers_get_def)
  qed
qed

lemma fold_put: "fold buffers_put ps bs = bs\<lparr>buffers := rev ps @ buffers bs\<rparr>"
  by (induction ps arbitrary: bs) (simp_all add: buffers_put_def)

lemma pool_put:
  assumes "pool_ok bs (live \<union> set xs)" "distinct xs" "set xs \<inter> live = {}"
  shows "pool_ok (fold buffers_put (map Some xs) bs) live"
proof -
  from assms(1) obtain free where f: "buffers bs = map Some free" "distinct free"
    "set free \<inter> (live \<union> set xs) = {}" "set free \<union> (live \<union> set xs) = {..<num_buffers bs}"
    unfolding pool_ok_def by blast
  have "buffers (fold buffers_put (map Some xs) bs) = map Some (rev xs @ free)"
    by (simp add: fold_put f(1) rev_map)
  moreover have "distinct (rev xs @ free)" using f assms by auto
  moreover have "set (rev xs @ free) \<inter> live = {}" using f assms by auto
  moreover have "set (rev xs @ free) \<union> live = {..<num_buffers (fold buffers_put (map Some xs) bs)}"
    using f(4) by (auto simp: fold_put)
  ultimately show ?thesis unfolding pool_ok_def by blast
qed

lemma pool_finite: "pool_ok bs live \<Longrightarrow> finite live"
  unfolding pool_ok_def by (metis finite_Un finite_lessThan)


section \<open>Runs of the scheduler\<close>

definition tree_cb :: "nat \<Rightarrow> (nat \<Rightarrow> 'v) \<Rightarrow> ('v list \<Rightarrow> 'v) \<Rightarrow> (nat \<Rightarrow> 'v) hash_cb_t" where
  "tree_cb bits leaf h w d =
     d(the (buf w) := if is_leaf w then leaf (unat (node_id_node bits (wi_idx w)))
                      else h (map (\<lambda>p. d (the p)) (inputs w)))"

inductive runs :: "nat \<Rightarrow> 'd hash_cb_t \<Rightarrow> 'd scheduler_t \<Rightarrow> nat \<Rightarrow> 'd scheduler_t \<Rightarrow> bool"
  for bits cb where
  runs_refl: "runs bits cb s 0 s"
| runs_step: "fst (sched_next bits cb False s) \<Longrightarrow>
    runs bits cb (snd (snd (sched_next bits cb False s))) n t \<Longrightarrow> runs bits cb s (Suc n) t"

lemma runs_trans: "runs bits cb s m t \<Longrightarrow> runs bits cb t n u \<Longrightarrow> runs bits cb s (m + n) u"
  by (induction rule: runs.induct) (auto intro: runs.intros)

lemma runs_snoc:
  "runs bits cb s m t \<Longrightarrow> fst (sched_next bits cb False t) \<Longrightarrow>
   u = snd (snd (sched_next bits cb False t)) \<Longrightarrow> runs bits cb s (Suc m) u"
  using runs_trans [of bits cb s m t 1 u] runs.intros by fastforce

lemma runs_loop:
  "runs bits cb s n t \<Longrightarrow> \<not> fst (sched_next bits cb False t) \<Longrightarrow>
   sched_loop bits cb s = Some (snd (snd (sched_next bits cb False t)))"
proof (induction rule: runs.induct)
  case (runs_refl s)
  then show ?case by (subst sched_loop.simps) simp
next
  case (runs_step s n t)
  then show ?case by (subst sched_loop.simps) simp
qed

lemma sched_next_pop:
  assumes "stack s = w0 # rest" "buffers_get (bufs s) = (Some b, bs)"
  shows "snd (snd (sched_next bits cb False s)) =
      sched_record bits (w0\<lparr>buf := Some b\<rparr>)
        (s\<lparr>stack := rest, bufs := if is_leaf w0 then bs else fold buffers_put (inputs w0) bs,
           hash_count := hash_count s + 1, data := cb (w0\<lparr>buf := Some b\<rparr>) (data s)\<rparr>)"
    and "fst (sched_next bits cb False s) \<longleftrightarrow> stack (snd (snd (sched_next bits cb False s))) \<noteq> []"
  using assms by (simp_all add: sched_next_def Let_def)

fun tree_steps :: "nat \<Rightarrow> nat" where
  "tree_steps 0 = 1"
| "tree_steps (Suc j) = Suc (8 * tree_steps j)"

fun bufs_needed :: "nat \<Rightarrow> nat" where
  "bufs_needed 0 = 1"
| "bufs_needed (Suc j) = 7 * Suc j + 2"

definition leaf_items :: "nat \<Rightarrow> nat \<Rightarrow> nat \<Rightarrow> work_item_t list" where
  "leaf_items bits i j = map (\<lambda>n. work_item (nid bits 1 n) True) [i..<j]"

definition subroot :: "('v list \<Rightarrow> 'v) \<Rightarrow> (nat \<Rightarrow> 'v) \<Rightarrow> nat \<Rightarrow> nat \<Rightarrow> 'v" where
  "subroot h leaf j n = root h 8 j (map leaf [n * 8 ^ j..<Suc n * 8 ^ j])"

interpretation tree8: merkle_hash h GetNumTreeRCArity for h
  by unfold_locales (simp add: arity8)

lemma subtree_bound: "q < 8 \<Longrightarrow> Suc (8 * n + q) * 8 ^ j \<le> Suc n * 8 ^ Suc j"
proof -
  assume "q < 8"
  then have "Suc (8 * n + q) * 8 ^ j \<le> (8 * Suc n) * 8 ^ j" by (intro mult_le_mono1) simp
  also have "\<dots> = Suc n * 8 ^ Suc j" by (simp only: power_Suc mult_ac)
  finally show ?thesis .
qed

lemma node_bound: "Suc n * 8 ^ j \<le> N \<Longrightarrow> n < (N :: nat)"
  using mult_le_mono2 [of 1 "8 ^ j" "Suc n"] by simp

lemma subroot_Suc: "subroot h leaf (Suc j) n = h (map (\<lambda>q. subroot h leaf j (8 * n + q)) [0..<8])"
proof -
  let ?xs = "map leaf [n * 8 ^ Suc j..<Suc n * 8 ^ Suc j]"
  have len: "length ?xs = 8 ^ Suc j" by simp
  have "levels h 8 j ?xs = map (\<lambda>q. subroot h leaf j (8 * n + q)) [0..<8]"
  proof (rule nth_equalityI)
    show "length (levels h 8 j ?xs) = length (map (\<lambda>q. subroot h leaf j (8 * n + q)) [0..<8])"
      using tree8.length_levels [of ?xs 8 j h] len by (simp add: arity8)
    fix q
    assume "q < length (levels h 8 j ?xs)"
    then have q: "q < 8" using tree8.length_levels [of ?xs 8 j h] len by (simp add: arity8)
    have lb: "n * 8 ^ Suc j + q * 8 ^ j = (8 * n + q) * 8 ^ j" by (simp add: algebra_simps)
    from subtree_bound [OF q] have "block (8 ^ j) ?xs q = map leaf [(8 * n + q) * 8 ^ j..<Suc (8 * n + q) * 8 ^ j]"
      unfolding block_def drop_map take_map drop_upt lb by (simp add: take_upt add.commute)
    then show "levels h 8 j ?xs ! q = map (\<lambda>q. subroot h leaf j (8 * n + q)) [0..<8] ! q"
      using tree8.levels_subtrees [of ?xs 8 j q h] len q by (simp add: arity8 subroot_def)
  qed
  then show ?thesis
    using tree8.root_Suc_block [of ?xs j h] len by (simp add: arity8 subroot_def)
qed


definition low_free :: "nat \<Rightarrow> nat \<Rightarrow> work_map_t \<Rightarrow> bool" where
  "low_free bits j m \<longleftrightarrow> (\<forall>l n. l \<le> Suc j \<longrightarrow> n < 2 ^ bits \<longrightarrow> nid bits l n \<notin> keys m)"

definition completes :: "nat \<Rightarrow> (nat \<Rightarrow> 'v) \<Rightarrow> ('v list \<Rightarrow> 'v) \<Rightarrow> nat \<Rightarrow> nat \<Rightarrow> nat set \<Rightarrow>
    (nat \<Rightarrow> 'v) scheduler_t \<Rightarrow> work_item_t list \<Rightarrow> bool" where
  "completes bits leaf h j n live s rest \<longleftrightarrow>
     (\<exists>t w b bs d. runs bits (tree_cb bits leaf h) s (tree_steps j - 1) t \<and>
        snd (snd (sched_next bits (tree_cb bits leaf h) False t)) =
          sched_record bits w (s\<lparr>stack := rest, bufs := bs, hash_count := hash_count s + tree_steps j,
            data := d\<rparr>) \<and>
        (fst (sched_next bits (tree_cb bits leaf h) False t) \<longleftrightarrow>
           stack (snd (snd (sched_next bits (tree_cb bits leaf h) False t))) \<noteq> []) \<and>
        wi_idx w = nid bits (Suc j) n \<and> buf w = Some b \<and> b \<notin> live \<and>
        d b = subroot h leaf j n \<and> (\<forall>x \<in> live. d x = data s x) \<and> pool_ok bs (insert b live) \<and>
        num_buffers bs \<le> max (num_buffers (bufs s)) (card live + bufs_needed j))"

definition subtree_ready :: "nat \<Rightarrow> nat \<Rightarrow> nat \<Rightarrow> nat set \<Rightarrow> (nat \<Rightarrow> 'v) scheduler_t \<Rightarrow> work_item_t list \<Rightarrow> bool" where
  "subtree_ready bits j n live s rest \<longleftrightarrow>
     stack s = leaf_items bits (n * 8 ^ j) (Suc n * 8 ^ j) @ rest \<and> arity s = 8 \<and>
     low_free bits j (wip s) \<and> pool_ok (bufs s) live \<and> Suc n * 8 ^ j \<le> 2 ^ bits"

lemma tree_steps_pos: "0 < tree_steps j"
  by (induction j) simp_all

lemma completes_leaf:
  assumes "bits \<le> 32" "subtree_ready bits 0 n live s rest"
  shows "completes bits leaf h 0 n live s rest"
proof -
  let ?w = "work_item (nid bits 1 n) True"
  have st: "stack s = ?w # rest" and p: "pool_ok (bufs s) live" and n: "n < 2 ^ bits"
    using assms(2) by (auto simp: subtree_ready_def leaf_items_def)
  from pool_get [OF p] obtain b bs where g: "buffers_get (bufs s) = (Some b, bs)" "b \<notin> live"
    "pool_ok bs (insert b live)" "num_buffers bs \<le> max (num_buffers (bufs s)) (card live + 1)" by blast
  have n32: "n < 2 ^ 32"
    using n assms(1) power_increasing [of bits 32 "2 :: nat"] by simp
  have cb: "tree_cb bits leaf h (?w\<lparr>buf := Some b\<rparr>) (data s) = (data s)(b := leaf n)"
    using nid_node [OF assms(1) _ n, of 1] n32
    by (simp add: tree_cb_def work_item_def unat_of_nat32)
  note nx = sched_next_pop [OF st g(1), of bits "tree_cb bits leaf h"]
  have sr: "subroot h leaf 0 n = leaf n" by (simp add: subroot_def root_def)
  show ?thesis
    unfolding completes_def
    apply (rule exI [of _ s], rule exI [of _ "?w\<lparr>buf := Some b\<rparr>"], rule exI [of _ b],
        rule exI [of _ bs], rule exI [of _ "(data s)(b := leaf n)"])
    using nx cb g sr by (auto simp: runs_refl work_item_def)
qed

lemma low_free_with:
  assumes "bits \<le> 32" "low_free bits (Suc j) m" "n < 2 ^ bits" "j + 2 < 2 ^ 32"
  shows "low_free bits j (wip_with (nid bits (j + 2) n) bs m)"
  unfolding low_free_def
proof (intro allI impI)
  fix l n' :: nat
  assume a: "l \<le> Suc j" "n' < 2 ^ bits"
  then have "nid bits l n' \<noteq> nid bits (j + 2) n" using assms nid_inj [of bits l n' "j + 2" n] by auto
  with a assms(2) show "nid bits l n' \<notin> keys (wip_with (nid bits (j + 2) n) bs m)"
    by (auto simp: wip_with_def low_free_def)
qed

definition siblings_done :: "nat \<Rightarrow> (nat \<Rightarrow> 'v) \<Rightarrow> ('v list \<Rightarrow> 'v) \<Rightarrow> nat \<Rightarrow> nat \<Rightarrow> nat set \<Rightarrow>
    (nat \<Rightarrow> 'v) scheduler_t \<Rightarrow> work_item_t list \<Rightarrow> nat \<Rightarrow> nat list \<Rightarrow> buffers_t \<Rightarrow> (nat \<Rightarrow> 'v) \<Rightarrow> bool" where
  "siblings_done bits leaf h j n live s rest i xs bs d \<longleftrightarrow>
     length xs = i \<and> distinct xs \<and> set xs \<inter> live = {} \<and> pool_ok bs (live \<union> set xs) \<and>
     (\<forall>q < i. d (xs ! q) = subroot h leaf j (8 * n + q)) \<and> (\<forall>x \<in> live. d x = data s x) \<and>
     num_buffers bs \<le> max (num_buffers (bufs s)) (card live + 7 + bufs_needed j)"

definition sibling_state :: "nat \<Rightarrow> nat \<Rightarrow> nat \<Rightarrow> (nat \<Rightarrow> 'v) scheduler_t \<Rightarrow> work_item_t list \<Rightarrow> nat \<Rightarrow> nat list \<Rightarrow>
    buffers_t \<Rightarrow> (nat \<Rightarrow> 'v) \<Rightarrow> (nat \<Rightarrow> 'v) scheduler_t" where
  "sibling_state bits j n s rest i xs bs d =
     s\<lparr>stack := leaf_items bits ((8 * n + i) * 8 ^ j) (Suc n * 8 ^ Suc j) @ rest,
       wip := wip_with (nid bits (j + 2) n) xs (wip s), bufs := bs,
       hash_count := hash_count s + i * tree_steps j, data := d\<rparr>"

lemma leaf_items_split:
  "i \<le> j \<Longrightarrow> j \<le> k \<Longrightarrow> leaf_items bits i k = leaf_items bits i j @ leaf_items bits j k"
  unfolding leaf_items_def map_append [symmetric]
  using upt_add_eq_append [of i j "k - j"] by simp

lemma sibling_ready:
  assumes "bits \<le> 32" "j + 2 < 2 ^ 32" "subtree_ready bits (Suc j) n live s rest" "i < 8"
    "siblings_done bits leaf h j n live s rest i xs bs d"
  shows "subtree_ready bits j (8 * n + i) (live \<union> set xs) (sibling_state bits j n s rest i xs bs d)
    (leaf_items bits (Suc (8 * n + i) * 8 ^ j) (Suc n * 8 ^ Suc j) @ rest)"
    "8 * n + i < 2 ^ bits" "n < 2 ^ bits" "nid bits (j + 2) n \<notin> keys (wip s)"
proof -
  have nn: "Suc n * 8 ^ Suc j \<le> 2 ^ bits" using assms(3) by (simp add: subtree_ready_def)
  note le = subtree_bound [OF assms(4), of n j]
  show nb: "n < 2 ^ bits" using node_bound [OF nn] .
  show "8 * n + i < 2 ^ bits" using node_bound [OF le] le nn
    by (meson node_bound order.trans)
  show "nid bits (j + 2) n \<notin> keys (wip s)"
    using assms(3) nb unfolding subtree_ready_def low_free_def by simp
  have lf: "low_free bits j (wip_with (nid bits (j + 2) n) xs (wip s))"
    using low_free_with [OF assms(1) _ nb assms(2)] assms(3) by (simp add: subtree_ready_def)
  have sp: "leaf_items bits ((8 * n + i) * 8 ^ j) (Suc n * 8 ^ Suc j) =
      leaf_items bits ((8 * n + i) * 8 ^ j) (Suc (8 * n + i) * 8 ^ j) @
      leaf_items bits (Suc (8 * n + i) * 8 ^ j) (Suc n * 8 ^ Suc j)"
    by (rule leaf_items_split) (use le in simp_all)
  have b: "Suc (8 * n + i) * 8 ^ j \<le> 2 ^ bits" using le nn by (rule order.trans)
  have st: "stack (sibling_state bits j n s rest i xs bs d) =
      leaf_items bits ((8 * n + i) * 8 ^ j) (Suc (8 * n + i) * 8 ^ j) @
      (leaf_items bits (Suc (8 * n + i) * 8 ^ j) (Suc n * 8 ^ Suc j) @ rest)"
    unfolding sibling_state_def sp by simp
  show "subtree_ready bits j (8 * n + i) (live \<union> set xs) (sibling_state bits j n s rest i xs bs d)
    (leaf_items bits (Suc (8 * n + i) * 8 ^ j) (Suc n * 8 ^ Suc j) @ rest)"
    unfolding subtree_ready_def st
    using lf b assms(3,5) by (simp add: sibling_state_def siblings_done_def subtree_ready_def)
qed

lemma siblings_done_snoc:
  assumes "siblings_done bits leaf h j n live s rest i xs bs d" "i < 8" "finite live"
    "b \<notin> live \<union> set xs" "d' b = subroot h leaf j (8 * n + i)" "\<forall>x \<in> live \<union> set xs. d' x = d x"
    "pool_ok bs' (insert b (live \<union> set xs))"
    "num_buffers bs' \<le> max (num_buffers bs) (card (live \<union> set xs) + bufs_needed j)"
  shows "siblings_done bits leaf h j n live s rest (Suc i) (xs @ [b]) bs' d'"
proof -
  have "card (live \<union> set xs) \<le> card live + i"
    using assms(1,3) card_Un_le [of live "set xs"] distinct_card [of xs]
    by (simp add: siblings_done_def)
  with assms(1,2,8) have "num_buffers bs' \<le> max (num_buffers (bufs s)) (card live + 7 + bufs_needed j)"
    unfolding siblings_done_def by linarith
  moreover have "d' ((xs @ [b]) ! q) = subroot h leaf j (8 * n + q)" if "q < Suc i" for q
    using that assms(1,5,6) by (cases "q < i") (auto simp: siblings_done_def nth_append less_Suc_eq)
  moreover have "insert b (live \<union> set xs) = live \<union> set (xs @ [b])" by auto
  ultimately show ?thesis
    using assms(1,4,6,7) by (auto simp: siblings_done_def)
qed

lemma sibling_step:
  assumes IH: "\<And>n live s rest. subtree_ready bits j n live s rest \<Longrightarrow>
      completes bits leaf h j n live (s :: (nat \<Rightarrow> 'v) scheduler_t) rest"
    and b: "bits \<le> 32" "j + 2 < 2 ^ 32" and sr: "subtree_ready bits (Suc j) n live s rest"
    and i: "i < 8" and sd: "siblings_done bits leaf h j n live s rest i xs bs d"
  defines "cb \<equiv> tree_cb bits leaf h"
  shows "\<exists>b' bs' d'. siblings_done bits leaf h j n live s rest (Suc i) (xs @ [b']) bs' d' \<and>
    runs bits cb (sibling_state bits j n s rest i xs bs d) (tree_steps j)
      (if i < 7 then sibling_state bits j n s rest (Suc i) (xs @ [b']) bs' d'
       else s\<lparr>stack := pending (nid bits (j + 2) n) (xs @ [b']) # rest, bufs := bs',
              hash_count := hash_count s + 8 * tree_steps j, data := d'\<rparr>)"
proof -
  let ?k = "nid bits (j + 2) n"
  let ?s = "sibling_state bits j n s rest i xs bs d"
  let ?rest = "leaf_items bits (Suc (8 * n + i) * 8 ^ j) (Suc n * 8 ^ Suc j) @ rest"
  note r = sibling_ready [OF b sr i sd]
  from IH [OF r(1)] obtain t w b' bs' d' where c:
    "runs bits cb ?s (tree_steps j - 1) t"
    "snd (snd (sched_next bits cb False t)) = sched_record bits w (?s\<lparr>stack := ?rest, bufs := bs',
       hash_count := hash_count ?s + tree_steps j, data := d'\<rparr>)"
    "fst (sched_next bits cb False t) \<longleftrightarrow> stack (snd (snd (sched_next bits cb False t))) \<noteq> []"
    "wi_idx w = nid bits (Suc j) (8 * n + i)" "buf w = Some b'" "b' \<notin> live \<union> set xs"
    "d' b' = subroot h leaf j (8 * n + i)" "\<forall>x \<in> live \<union> set xs. d' x = data ?s x"
    "pool_ok bs' (insert b' (live \<union> set xs))"
    "num_buffers bs' \<le> max (num_buffers (bufs ?s)) (card (live \<union> set xs) + bufs_needed j)"
    unfolding completes_def cb_def by blast
  let ?u = "?s\<lparr>stack := ?rest, bufs := bs', hash_count := hash_count ?s + tree_steps j, data := d'\<rparr>"
  let ?t = "if i < 7 then sibling_state bits j n s rest (Suc i) (xs @ [b']) bs' d'
       else s\<lparr>stack := pending ?k (xs @ [b']) # rest, bufs := bs',
              hash_count := hash_count s + 8 * tree_steps j, data := d'\<rparr>"
  have xs: "length xs = i" using sd by (simp add: siblings_done_def)
  have ar: "arity ?u = 8" using sr by (simp add: sibling_state_def subtree_ready_def)
  have rec: "sched_record bits w ?u =
    (if length xs = 7 then ?u\<lparr>stack := pending ?k (xs @ [b']) # stack ?u, wip := wip s\<rparr>
     else ?u\<lparr>wip := wip_with ?k (xs @ [b']) (wip s)\<rparr>)"
    by (rule sched_record_pending [of bits "Suc j" "8 * n + i"])
      (use b r(2,4) c(4,5) i xs ar in \<open>simp_all add: sibling_state_def\<close>)
  have last: "i = 7 \<Longrightarrow> leaf_items bits (Suc (8 * n + i) * 8 ^ j) (Suc n * 8 ^ Suc j) = []"
    by (simp add: leaf_items_def algebra_simps)
  have hc: "hash_count ?s + tree_steps j = hash_count s + Suc i * tree_steps j"
    by (simp add: sibling_state_def)
  have res: "sched_record bits w ?u = ?t"
  proof (cases "i < 7")
    case True
    with rec xs hc show ?thesis by (cases s) (simp add: sibling_state_def)
  next
    case False
    with i have "i = 7" by simp
    with rec xs hc last show ?thesis by (cases s) (simp add: sibling_state_def)
  qed
  have "stack ?t \<noteq> []"
    using i by (auto simp: sibling_state_def leaf_items_def algebra_simps)
  with res c(2,3) have f: "fst (sched_next bits cb False t)" by simp
  have "runs bits cb ?s (Suc (tree_steps j - 1)) ?t"
    using runs_snoc [OF c(1) f] c(2) res by simp
  then have "runs bits cb ?s (tree_steps j) ?t" using tree_steps_pos [of j] by simp
  moreover have "siblings_done bits leaf h j n live s rest (Suc i) (xs @ [b']) bs' d'"
    by (rule siblings_done_snoc [OF sd i _ c(6)])
      (use c(7-10) pool_finite sr in \<open>auto simp: sibling_state_def subtree_ready_def\<close>)
  ultimately show ?thesis by blast
qed

lemma siblings_all:
  assumes IH: "\<And>n live s rest. subtree_ready bits j n live s rest \<Longrightarrow>
      completes bits leaf h j n live (s :: (nat \<Rightarrow> 'v) scheduler_t) rest"
    and b: "bits \<le> 32" "j + 2 < 2 ^ 32" and sr: "subtree_ready bits (Suc j) n live s rest"
    and i: "i < 8"
  shows "\<exists>xs bs d. siblings_done bits leaf h j n live s rest i xs bs d \<and>
    runs bits (tree_cb bits leaf h) s (i * tree_steps j) (sibling_state bits j n s rest i xs bs d)"
  using i
proof (induction i)
  case 0
  have e: "(8 * n + 0) * 8 ^ j = n * 8 ^ Suc j" by simp
  have "sibling_state bits j n s rest 0 [] (bufs s) (data s) = s"
    using sr unfolding sibling_state_def subtree_ready_def wip_with_def e by (cases s) simp
  moreover have "siblings_done bits leaf h j n live s rest 0 [] (bufs s) (data s)"
    using sr by (simp add: siblings_done_def subtree_ready_def)
  ultimately show ?case using runs_refl by fastforce
next
  case (Suc i)
  then obtain xs bs d where st: "siblings_done bits leaf h j n live s rest i xs bs d"
    "runs bits (tree_cb bits leaf h) s (i * tree_steps j) (sibling_state bits j n s rest i xs bs d)"
    by auto
  from Suc.prems have i: "i < 8" "i < 7" by simp_all
  from sibling_step [OF IH b sr i(1) st(1)] i(2) runs_trans [OF st(2)] show ?case
    by (fastforce simp: add.commute)
qed


lemma inputs_pending: "length xs = 8 \<Longrightarrow> inputs (pending k xs) = map Some xs"
  by (simp add: pending_def)

lemma tree_cb_pending:
  assumes "length xs = 8" "\<forall>q < 8. d (xs ! q) = subroot h leaf j (8 * n + q)"
  shows "tree_cb bits leaf h ((pending k xs)\<lparr>buf := Some b\<rparr>) d = d(b := subroot h leaf (Suc j) n)"
proof -
  have "map d xs = map (\<lambda>q. subroot h leaf j (8 * n + q)) [0..<8]"
    using assms by (intro nth_equalityI) simp_all
  moreover have "map (\<lambda>p. d (the p)) (map Some xs) = map d xs" by simp
  ultimately show ?thesis
    using inputs_pending [OF assms(1), of k] by (simp add: tree_cb_def subroot_Suc pending_def)
qed

lemma completes_node:
  assumes IH: "\<And>n live s rest. subtree_ready bits j n live s rest \<Longrightarrow>
      completes bits leaf h j n live (s :: (nat \<Rightarrow> 'v) scheduler_t) rest"
    and b: "bits \<le> 32" "j + 2 < 2 ^ 32" and sr: "subtree_ready bits (Suc j) n live s rest"
  shows "completes bits leaf h (Suc j) n live s rest"
proof -
  let ?cb = "tree_cb bits leaf h" and ?k = "nid bits (j + 2) n"
  have "(7 :: nat) < 8" by simp
  from siblings_all [OF IH b sr this] obtain xs bs d where s7:
    "siblings_done bits leaf h j n live s rest 7 xs bs d"
    "runs bits ?cb s (7 * tree_steps j) (sibling_state bits j n s rest 7 xs bs d)" by blast
  from sibling_step [OF IH b sr _ s7(1)] obtain b7 bs8 d8 where s8:
    "siblings_done bits leaf h j n live s rest 8 (xs @ [b7]) bs8 d8"
    "runs bits ?cb (sibling_state bits j n s rest 7 xs bs d) (tree_steps j)
      (s\<lparr>stack := pending ?k (xs @ [b7]) # rest, bufs := bs8,
         hash_count := hash_count s + 8 * tree_steps j, data := d8\<rparr>)" (is "runs _ _ _ _ ?t")
    by auto
  let ?xs = "xs @ [b7]"
  have l8: "length ?xs = 8" "distinct ?xs" "set ?xs \<inter> live = {}"
    using s8(1) by (auto simp: siblings_done_def)
  have r8: "runs bits ?cb s (tree_steps (Suc j) - 1) ?t"
    using runs_trans [OF s7(2) s8(2)] by (simp add: algebra_simps)
  have "pool_ok (bufs ?t) (live \<union> set ?xs)" using s8(1) by (simp add: siblings_done_def)
  from pool_get [OF this] obtain o' bs9 where g: "buffers_get (bufs ?t) = (Some o', bs9)"
    "o' \<notin> live \<union> set ?xs" "pool_ok bs9 (insert o' (live \<union> set ?xs))"
    "num_buffers bs9 \<le> max (num_buffers (bufs ?t)) (card (live \<union> set ?xs) + 1)" by blast
  let ?w = "(pending ?k ?xs)\<lparr>buf := Some o'\<rparr>"
  have "stack ?t = pending ?k ?xs # rest" by simp
  note nx = sched_next_pop [OF this g(1), of bits ?cb]
  let ?bs = "fold buffers_put (inputs (pending ?k ?xs)) bs9"
  have pool: "pool_ok ?bs (insert o' live)"
    using pool_put [of bs9 "insert o' live" ?xs] g(2,3) l8 inputs_pending [OF l8(1), of ?k]
    by (auto simp: insert_commute Un_commute)
  have dat: "?cb ?w d8 = d8(o' := subroot h leaf (Suc j) n)"
    using tree_cb_pending [OF l8(1)] s8(1) by (auto simp: siblings_done_def)
  have "card (live \<union> set ?xs) \<le> card live + 8"
    using card_Un_le [of live "set ?xs"] distinct_card [OF l8(2)] l8(1) by simp
  moreover have "num_buffers ?bs = num_buffers bs9" by (simp add: fold_put)
  moreover have "bufs_needed j \<le> 7 * j + 2" by (cases j) simp_all
  moreover have "num_buffers bs8 \<le> max (num_buffers (bufs s)) (card live + 7 + bufs_needed j)"
    using s8(1) by (simp add: siblings_done_def)
  moreover have "num_buffers bs9 \<le> max (num_buffers bs8) (card (live \<union> set ?xs) + 1)"
    using g(4) by simp
  moreover have "bufs_needed (Suc j) = 7 * j + 9" by simp
  ultimately have nb: "num_buffers ?bs \<le> max (num_buffers (bufs s)) (card live + bufs_needed (Suc j))"
    by linarith
  have leaf: "\<not> is_leaf (pending ?k ?xs)" by (simp add: pending_def)
  have fin: "snd (snd (sched_next bits ?cb False ?t)) = sched_record bits ?w
      (s\<lparr>stack := rest, bufs := ?bs, hash_count := hash_count s + tree_steps (Suc j),
         data := d8(o' := subroot h leaf (Suc j) n)\<rparr>)"
    using nx(1) leaf dat by (cases s) (simp add: tree_cb_def)
  have "\<forall>x \<in> live. (d8(o' := subroot h leaf (Suc j) n)) x = data s x"
    using s8(1) g(2) by (auto simp: siblings_done_def)
  with r8 fin nx(2) pool nb g(2) show ?thesis
    unfolding completes_def
    by (intro exI [of _ ?t] exI [of _ ?w] exI [of _ o'] exI [of _ ?bs]
        exI [of _ "d8(o' := subroot h leaf (Suc j) n)"]) (simp add: pending_def)
qed

lemma completes_subtree:
  assumes "bits \<le> 32" "j + 2 \<le> 2 ^ 31"
  shows "subtree_ready bits j n live s rest \<Longrightarrow> completes bits leaf h j n live s rest"
  using assms(2)
proof (induction j arbitrary: n live s rest)
  case 0
  then show ?case using completes_leaf [OF assms(1)] by blast
next
  case (Suc j)
  show ?case
    by (rule completes_node [OF Suc.IH assms(1) _ Suc.prems(1)]) (use Suc.prems(2) in simp_all)
qed


section \<open>Properties\<close>

lemma sched_reset_stack:
  assumes "0 < n"
  shows "rev (map (\<lambda>i. work_item (node_id_of bits 1 (of_nat (n - i - 1))) True) [0..<n]) =
    leaf_items bits 0 n"
proof (rule nth_equalityI)
  fix i
  assume "i < length (rev (map (\<lambda>i. work_item (node_id_of bits 1 (of_nat (n - i - 1))) True) [0..<n]))"
  then have "i < n" by simp
  then show "rev (map (\<lambda>i. work_item (node_id_of bits 1 (of_nat (n - i - 1))) True) [0..<n]) ! i =
      leaf_items bits 0 n ! i"
    by (simp add: rev_nth leaf_items_def nid_def)
qed (simp add: leaf_items_def)

lemma sched_new_ready:
  assumes "8 ^ k \<le> (2 :: nat) ^ bits" "pool_ok bs {}"
  shows "subtree_ready bits k 0 {} (sched_new bits (8 ^ k) 8 bs d) []"
  using assms sched_reset_stack [of "8 ^ k" bits]
  by (simp add: subtree_ready_def sched_new_def sched_reset_def low_free_def)

lemma tree_steps_sum: "tree_steps k = (\<Sum>i\<le>k. 8 ^ i)"
proof (induction k)
  case (Suc k)
  have "(\<Sum>i\<le>Suc k. 8 ^ i) = 1 + 8 * (\<Sum>i\<le>k. 8 ^ i :: nat)"
    by (simp add: sum.atMost_Suc_shift sum_distrib_left del: sum.atMost_Suc)
  with Suc show ?case by simp
qed simp

text \<open>
  C10: \<open>scheduler_t::run\<close> over \<open>8 ^ k\<close> bottom nodes ends and computes the tree:
  with a callback that writes the hash of its inputs to the output buffer, the
  returned buffer holds the Merkle root of the bottom nodes; every tree node is
  hashed exactly once; exactly one entry is left in \<open>wip\<close>, so the assertions
  of \<open>is_done\<close> hold; all other buffers are back in the pool; and at most
  \<open>7 * k + 2\<close> buffers are ever allocated.
\<close>
theorem scheduler_run_correct:
  fixes leaf :: "nat \<Rightarrow> 'v" and h :: "'v list \<Rightarrow> 'v"
  assumes "bits \<le> 32" "8 ^ k \<le> (2 :: nat) ^ bits"
  shows "\<exists>b s'. sched_run bits (tree_cb bits leaf h)
        (sched_new bits (8 ^ k) GetNumTreeRCArity (buffers_new n) d) = Some (Inr (Some b, s')) \<and>
      data s' b = root h GetNumTreeRCArity k (map leaf [0..<8 ^ k]) \<and>
      hash_count s' = (\<Sum>i\<le>k. 8 ^ i) \<and> sched_is_done s' = Inr True \<and>
      pool_ok (bufs s') {b} \<and> num_buffers (bufs s') \<le> 7 * k + 2"
proof -
  let ?s = "sched_new bits (8 ^ k) 8 (buffers_new n) d" and ?cb = "tree_cb bits leaf h"
  have k: "k + 2 \<le> 2 ^ 31"
  proof -
    have "(2 :: nat) ^ (3 * k) \<le> 2 ^ bits" using assms(2) by (simp add: power_mult)
    then have "3 * k \<le> bits" by (simp add: power_le_imp_le_exp)
    with assms(1) show ?thesis by simp
  qed
  have "pool_ok (buffers_new n) {}" by (simp add: pool_ok_def buffers_new_def)
  then have "completes bits leaf h k 0 {} ?s []"
    using completes_subtree [OF assms(1) k] sched_new_ready [OF assms(2)] by blast
  then obtain t w b bs d' where c: "runs bits ?cb ?s (tree_steps k - 1) t"
    "snd (snd (sched_next bits ?cb False t)) = sched_record bits w (?s\<lparr>stack := [], bufs := bs,
       hash_count := hash_count ?s + tree_steps k, data := d'\<rparr>)"
    "fst (sched_next bits ?cb False t) \<longleftrightarrow> stack (snd (snd (sched_next bits ?cb False t))) \<noteq> []"
    "wi_idx w = nid bits (Suc k) 0" "buf w = Some b" "d' b = subroot h leaf k 0"
    "pool_ok bs (insert b {})" "num_buffers bs \<le> max (num_buffers (bufs ?s)) (card ({} :: nat set) + bufs_needed k)"
    unfolding completes_def by blast
  let ?u = "?s\<lparr>stack := [], bufs := bs, hash_count := hash_count ?s + tree_steps k, data := d'\<rparr>"
  let ?key = "nid bits (Suc (Suc k)) 0"
  have ini: "wip ?s = []" "arity ?s = 8" "hash_count ?s = 0" "bufs ?s = buffers_new n"
    by (simp_all add: sched_new_def sched_reset_def)
  have rec: "sched_record bits w ?u = ?u\<lparr>wip := [(?key, pending ?key [b])]\<rparr>"
    using sched_record_pending [of bits "Suc k" 0 ?u w b ?key "[]" "[]"] assms(1) k c(4,5) ini
    by (simp add: wip_with_def)
  let ?f = "?u\<lparr>wip := [(?key, pending ?key [b])]\<rparr>"
  have "\<not> fst (sched_next bits ?cb False t)" using c(2,3) rec by simp
  from runs_loop [OF c(1) this] c(2) rec have loop: "sched_loop bits ?cb ?s = Some ?f" by simp
  have "inputs (pending ?key [b]) = Some b # replicate 7 nullptr" by (simp add: pending_def eval_nat_numeral)
  then have run: "sched_run bits ?cb ?s = Some (Inr (Some b, ?f))" and dn: "sched_is_done ?f = Inr True"
    using loop by (simp_all add: sched_run_def sched_is_done_def eval_nat_numeral)
  have "bufs_needed k \<le> 7 * k + 2" by (cases k) simp_all
  with c(8) ini have "num_buffers bs \<le> 7 * k + 2" by (simp add: buffers_new_def)
  with run dn c(6,7) ini show ?thesis
    by (intro exI [of _ b] exI [of _ ?f]) (simp add: arity8 subroot_def tree_steps_sum)
qed

theorem scheduler_run_correct_witness:
  "\<exists>b s'. sched_run 26 (tree_cb 26 (\<lambda>i. i) sum_list)
        (sched_new 26 (8 ^ 1) GetNumTreeRCArity (buffers_new 1) (\<lambda>_. 0)) = Some (Inr (Some b, s')) \<and>
      data s' b = root sum_list GetNumTreeRCArity 1 (map (\<lambda>i. i) [0..<8 ^ 1]) \<and> hash_count s' = 9"
  using scheduler_run_correct [of 26 1 "\<lambda>i. i" sum_list 1 "\<lambda>_. 0"] by auto

end
