(* ===== verification/Tree_D.thy ===== *)
theory Tree_D
  imports Tree_Builder
begin

unbundle bit_operations_syntax

text \<open>
  Tree-D of \<open>src/pc1/tree_d.hpp\<close>: the binary SHA-256 tree over the unsealed
  data, with the top two bits of every digest cleared, and the shortcut
  \<open>BuildCCTree\<close> for committed-capacity sectors, whose data is all zero.

  A node is a list of eight 32-bit limbs.  The SHA-256 compression function
  and the serialisation of a digest (\<open>blst_sha256_block\<close>,
  \<open>blst_sha256_emit\<close>, not part of the repository) are the parameters
  \<open>sha_block\<close> and \<open>sha_emit\<close>.  The data file is the region \<open>RIn\<close>
  and the tree-D file the region \<open>ROut\<close> of a store.
\<close>

type_synonym node_t = "32 word list"

definition SHA256_INITIAL_DIGEST :: node_t where
  "SHA256_INITIAL_DIGEST =
     [0x6a09e667, 0xbb67ae85, 0x3c6ef372, 0xa54ff53a, 0x510e527f, 0x9b05688c, 0x1f83d9ab, 0x5be0cd19]"

definition padding_block :: "8 word list" where
  "padding_block = (replicate 64 0)[0 := 0x80, 62 := 0x2]"

definition limb_bytes :: "32 word \<Rightarrow> 8 word list" where
  "limb_bytes w = [ucast w, ucast (drop_bit 8 w), ucast (drop_bit 16 w), ucast (drop_bit 24 w)]"

definition node_bytes :: "node_t \<Rightarrow> 8 word list" where
  "node_bytes n = concat (map limb_bytes n)"

definition clear_top :: "node_t \<Rightarrow> node_t" where
  "clear_top n = n[7 := (n ! 7) AND 0x3FFFFFFF]"

definition TreeD_HashNode :: "(node_t \<Rightarrow> 8 word list \<Rightarrow> node_t) \<Rightarrow> (node_t \<Rightarrow> node_t) \<Rightarrow> node_t list \<Rightarrow> node_t"
where
  "TreeD_HashNode sha_block sha_emit input =
     (let r0 = SHA256_INITIAL_DIGEST;
          r1 = sha_block r0 (concat (map node_bytes input));
          r2 = sha_block r1 padding_block
      in clear_top (sha_emit r2))"

partial_function (option) tree_d_loop :: "('n list \<Rightarrow> 'n) \<Rightarrow> nat \<Rightarrow> nat \<Rightarrow> nat \<Rightarrow> pointer \<Rightarrow> pointer \<Rightarrow>
    'n store \<Rightarrow> (pointer \<times> 'n store) result option" where
  "tree_d_loop hash a a_lg cur_nodes in_p tree_p mem =
     (if cur_nodes > 1 then
        case hash_row hash a (div_ceil cur_nodes a) in_p tree_p mem of
          Inl e \<Rightarrow> Some (Inl e)
        | Inr mem' \<Rightarrow>
            tree_d_loop hash a a_lg (drop_bit a_lg cur_nodes) tree_p
              (fst tree_p, snd tree_p + div_ceil cur_nodes a) mem'
      else Some (Inr (in_p, mem)))"

definition TreeD_file_nodes :: "nat \<Rightarrow> bool \<Rightarrow> nat" where
  "TreeD_file_nodes sz copy =
     (let cur_nodes = sz div NODE_SIZE;
          file_size = (cur_nodes - 1) * NODE_SIZE
      in (if copy then file_size + sz else file_size) div NODE_SIZE)"

definition TreeD_BuildTree :: "(node_t list \<Rightarrow> node_t) \<Rightarrow> nat \<Rightarrow> bool \<Rightarrow> node_t list \<Rightarrow> node_t \<Rightarrow>
    (node_t \<times> node_t list) result option" where
  "TreeD_BuildTree hash sz copy data_file fill =
     (let a = GetNumTreeDArity;
          a_lg = log2_floor a;
          cur_nodes = sz div NODE_SIZE;
          mem0 = (\<lambda>_. [])(RIn := data_file, ROut := replicate (TreeD_file_nodes sz copy) fill)
      in case (if copy then bind_result (read_nodes mem0 (RIn, 0) cur_nodes) (\<lambda>xs.
                 if cur_nodes \<le> length (mem0 ROut) then Inr (mem0(ROut := overlay 0 xs (mem0 ROut)))
                 else Inl OutOfBounds)
               else Inr mem0) of
           Inl e \<Rightarrow> Some (Inl e)
         | Inr mem1 \<Rightarrow>
             map_option (\<lambda>r. bind_result r (\<lambda>(in_p, mem).
                 bind_result (vec_get (mem (fst in_p)) (snd in_p)) (\<lambda>comm_d.
                 Inr (comm_d, mem ROut))))
               (tree_d_loop hash a a_lg cur_nodes
                 (if copy then (ROut, 0) else (RIn, 0))
                 (ROut, if copy then cur_nodes else 0) mem1))"

fun cc_nodes :: "('n list \<Rightarrow> 'n) \<Rightarrow> nat \<Rightarrow> 'n list \<Rightarrow> 'n list" where
  "cc_nodes hash 0 b = []"
| "cc_nodes hash (Suc n) b = (let c = hash b in c # cc_nodes hash n [c, c])"

partial_function (option) cc_fill :: "nat \<Rightarrow> 'n list \<Rightarrow> nat \<Rightarrow> nat \<Rightarrow> nat \<Rightarrow> 'n list \<Rightarrow>
    'n list result option" where
  "cc_fill a_lg cc cur_nodes cur_level tree_p fl =
     (if cur_nodes > 0 then
        if cur_level < length cc \<and> tree_p + cur_nodes \<le> length fl then
          cc_fill a_lg cc (drop_bit a_lg cur_nodes) (cur_level + 1) (tree_p + cur_nodes)
            (overlay tree_p (replicate cur_nodes (cc ! cur_level)) fl)
        else Some (Inl OutOfBounds)
      else Some (Inr fl))"

definition TreeD_BuildCCTree :: "(node_t list \<Rightarrow> node_t) \<Rightarrow> nat \<Rightarrow> node_t \<Rightarrow> (node_t \<times> node_t list) result option"
where
  "TreeD_BuildCCTree hash sz fill =
     (let a_lg = log2_floor GetNumTreeDArity;
          cur_nodes = sz div NODE_SIZE;
          zero = replicate NODE_WORDS 0;
          cc = zero # cc_nodes hash (GetNumTreeDLevels sz) [zero, zero]
      in map_option (\<lambda>r. bind_result r (\<lambda>fl. Inr (cc ! GetNumTreeDLevels sz, fl)))
           (cc_fill a_lg cc cur_nodes 0 0 (replicate (2 * cur_nodes - 1) fill)))"


section \<open>The tree over a data file\<close>

interpretation tree_d: merkle_hash "TreeD_HashNode sha_block sha_emit" GetNumTreeDArity
  for sha_block sha_emit
  by unfold_locales (simp add: GetNumTreeDArity_def)

context merkle_hash
begin

lemma tree_d_loop_rows:
  assumes "a = 2" "length xs = a ^ k" "s + a ^ k \<le> length (mem rs)"
    "xs = take (a ^ k) (drop s (mem rs))" "rs \<noteq> rd \<or> s + a ^ k \<le> d"
    "d + length (concat (rows h a k xs)) \<le> length (mem rd)"
  shows "\<exists>p mem'. tree_d_loop h a 1 (a ^ k) (rs, s) (rd, d) mem = Some (Inr (p, mem')) \<and>
    mem' rd = overlay d (concat (rows h a k xs)) (mem rd) \<and>
    vec_get (mem' (fst p)) (snd p) = Inr (root h a k xs)"
  using assms(2-)
proof (induction k arbitrary: xs s rs d mem)
  case 0
  then have "mem rs ! s = root h a 0 xs"
    by (cases "drop s (mem rs)") (auto simp: root_def hd_drop_conv_nth [symmetric])
  with 0 show ?case
    by (intro exI [of _ "(rs, s)"] exI [of _ mem]) (subst tree_d_loop.simps, simp add: vec_get_def)
next
  case (Suc k)
  let ?l = "level h a xs"
  let ?mem = "mem(rd := overlay d ?l (mem rd))"
  have ll: "length ?l = a ^ k" using Suc.prems(1) by simp
  have gt: "1 < a ^ Suc k" using arity one_less_power [of a "Suc k"] by simp
  have dl: "d + a ^ k \<le> length (mem rd)" using Suc.prems(5) ll by simp
  have ok: "row_ok a (a ^ k) (rs, s) (rd, d) mem"
    using Suc.prems(2,4) dl by (auto simp: row_ok_def mult.commute)
  have dc: "div_ceil (a ^ Suc k) a = a ^ k"
    using div_ceil_exact [of a "a ^ k"] by (simp add: mult.commute)
  have db: "drop_bit 1 (a ^ Suc k) = a ^ k" by (simp add: drop_bit_eq_div assms(1))
  have row: "hash_row h a (a ^ k) (rs, s) (rd, d) mem = Inr ?mem"
    using hash_row_overlay [OF _ ok, of h] Suc.prems(3) by (simp add: mult.commute)
  have "\<exists>p mem'. tree_d_loop h a 1 (a ^ k) (rd, d) (rd, d + a ^ k) ?mem = Some (Inr (p, mem')) \<and>
    mem' rd = overlay (d + a ^ k) (concat (rows h a k ?l)) (?mem rd) \<and>
    vec_get (mem' (fst p)) (snd p) = Inr (root h a k ?l)"
  proof (rule Suc.IH)
    show "?l = take (a ^ k) (drop d (?mem rd))"
      using dl ll take_drop_overlay_same [of d ?l "mem rd"] by simp
  qed (use Suc.prems dl ll in auto)
  moreover have "tree_d_loop h a 1 (a ^ Suc k) (rs, s) (rd, d) mem =
      tree_d_loop h a 1 (a ^ k) (rd, d) (rd, d + a ^ k) ?mem"
    using gt row dc db by (subst tree_d_loop.simps) simp
  moreover have "overlay (d + a ^ k) (concat (rows h a k ?l)) (?mem rd) =
      overlay d (concat (rows h a (Suc k) xs)) (mem rd)"
    using ll overlay_append [of d ?l "concat (rows h a k ?l)" "mem rd"] Suc.prems(5) by simp
  ultimately show ?case by (simp add: root_def)
qed

end

lemma log2_floor_2: "log2_floor GetNumTreeDArity = 1"
  using log2_floor_pow2 [of 1] by (simp add: GetNumTreeDArity_def)


lemma TreeD_file_nodes_eq: "1 < sz div NODE_SIZE \<Longrightarrow> NODE_SIZE dvd sz \<Longrightarrow>
  TreeD_file_nodes sz copy = (sz div NODE_SIZE - 1) + (if copy then sz div NODE_SIZE else 0)"
  by (auto simp: TreeD_file_nodes_def Let_def constant_defs)

lemma length_concat_rows2:
  "length xs = 2 ^ k \<Longrightarrow> length (concat (rows h 2 k xs)) = 2 ^ k - 1"
proof (induction k arbitrary: xs)
  case (Suc k)
  then have "length (level h 2 xs) = 2 ^ k" by simp
  with Suc.IH [OF this] show ?case by simp
qed simp

lemma TreeD_BuildTree_rows:
  fixes b e
  defines "hash \<equiv> TreeD_HashNode b e"
  assumes "sz = 2 ^ k * NODE_SIZE" "0 < k" "2 ^ k \<le> length data_file" "xs = take (2 ^ k) data_file"
  shows "TreeD_BuildTree hash sz copy data_file fill =
    Some (Inr (root hash 2 k xs, (if copy then xs else []) @ concat (rows hash 2 k xs)))"
proof -
  have N: "sz div NODE_SIZE = 2 ^ k" using assms(2) by (simp add: constant_defs)
  have k1: "1 < (2 :: nat) ^ k" using assms(3) one_less_power [of "2 :: nat" k] by simp
  have len: "length xs = 2 ^ k" using assms(4,5) by simp
  have lr: "length (concat (rows hash 2 k xs)) = 2 ^ k - 1"
    by (rule length_concat_rows2 [OF len])
  have nf: "TreeD_file_nodes sz copy = (2 ^ k - 1) + (if copy then 2 ^ k else 0)"
    using TreeD_file_nodes_eq [of sz copy] N k1 assms(2) by simp
  define mem0 where "mem0 = (\<lambda>_. [])(RIn := data_file, ROut := replicate (TreeD_file_nodes sz copy) fill)"
  define mem1 where "mem1 = (if copy then mem0(ROut := overlay 0 xs (mem0 ROut)) else mem0)"
  let ?p = "(if copy then (ROut, 0) else (RIn, 0)) :: pointer" and ?t = "if copy then 2 ^ k else (0 :: nat)"
  have lo: "length (mem1 ROut) = (2 ^ k - 1) + ?t"
    using nf len k1 by (cases copy) (simp_all add: mem1_def mem0_def)
  have cp: "copy \<Longrightarrow> xs = take (2 ^ k) (mem1 ROut)"
    using len nf k1 take_drop_overlay_same [of 0 xs "mem0 ROut"] by (simp add: mem1_def mem0_def)
  have key: "\<exists>p mem'. tree_d_loop hash 2 1 (2 ^ k) (fst ?p, snd ?p) (ROut, ?t) mem1 = Some (Inr (p, mem')) \<and>
    mem' ROut = overlay ?t (concat (rows hash 2 k xs)) (mem1 ROut) \<and>
    vec_get (mem' (fst p)) (snd p) = Inr (root hash 2 k xs)"
    unfolding hash_def
    by (rule tree_d.tree_d_loop_rows [unfolded GetNumTreeDArity_def])
      (use len lo lr cp assms(4,5) in \<open>auto simp: hash_def mem1_def mem0_def\<close>)
  from key [unfolded prod.collapse]
  obtain p mem' where l: "tree_d_loop hash 2 1 (2 ^ k) ?p (ROut, ?t) mem1 = Some (Inr (p, mem'))"
    "mem' ROut = overlay ?t (concat (rows hash 2 k xs)) (mem1 ROut)"
    "vec_get (mem' (fst p)) (snd p) = Inr (root hash 2 k xs)" by blast
  have out: "mem' ROut = (if copy then xs else []) @ concat (rows hash 2 k xs)"
    using l(2) lo lr cp by (auto simp: overlay_def)
  have cpy: "(if copy then bind_result (read_nodes mem0 (RIn, 0) (2 ^ k)) (\<lambda>xs.
                 if 2 ^ k \<le> length (mem0 ROut) then Inr (mem0(ROut := overlay 0 xs (mem0 ROut)))
                 else Inl OutOfBounds)
               else Inr mem0) = Inr mem1"
    using assms(4,5) nf k1 by (cases copy) (simp_all add: read_nodes_def mem1_def mem0_def)
  show ?thesis
    unfolding TreeD_BuildTree_def Let_def N log2_floor_2 mem0_def [symmetric] cpy
    using l(1,3) out by (simp add: GetNumTreeDArity_def)
qed


section \<open>Committed-capacity sectors\<close>

lemma level_replicate:
  "level h 2 (replicate (2 * n) x) = replicate n (h [x, x])"
proof -
  have "block 2 (replicate (2 * n) x) i = [x, x]" if "i < n" for i
  proof -
    have "take 2 (drop (i * 2) (replicate (2 * n) x)) = replicate 2 x" using that by simp
    then show ?thesis by (simp add: block_def numeral_2_eq_2)
  qed
  then show ?thesis
    by (intro nth_equalityI) (simp_all add: nth_level)
qed

fun cc_rows :: "('n list \<Rightarrow> 'n) \<Rightarrow> nat \<Rightarrow> 'n \<Rightarrow> 'n list" where
  "cc_rows h 0 x = [x]"
| "cc_rows h (Suc k) x = x # cc_rows h k (h [x, x])"

lemma cc_nodes_rows: "x # cc_nodes h k [x, x] = cc_rows h k x"
  by (induction k arbitrary: x) (simp_all add: Let_def)

lemma cc_rows_last: "cc_rows h k x ! k = root h 2 k (replicate (2 ^ k) x)"
  by (induction k arbitrary: x) (simp_all add: root_def level_replicate)

lemma length_cc_rows [simp]: "length (cc_rows h k x) = Suc k"
  by (induction k arbitrary: x) simp_all

lemma cc_fill_0: "cc_fill l cc 0 lev p fl = Some (Inr fl)"
  by (subst cc_fill.simps) simp

lemma drop_Cons_D:
  assumes "drop n xs = y # ys"
  shows "n < length xs" "xs ! n = y" "drop (Suc n) xs = ys"
proof -
  show l: "n < length xs" using assms by (metis drop_all linorder_not_less list.distinct(1))
  show "xs ! n = y" "drop (Suc n) xs = ys"
    using assms Cons_nth_drop_Suc [OF l] by (metis list.inject)+
qed

lemma cc_fill_rows:
  assumes "drop lev cc = cc_rows h k x" "p + (2 ^ Suc k - 1) \<le> length fl"
  shows "cc_fill 1 cc (2 ^ k) lev p fl =
    Some (Inr (overlay p (replicate (2 ^ k) x @ concat (rows h 2 k (replicate (2 ^ k) x))) fl))"
  using assms
proof (induction k arbitrary: lev p x fl)
  case 0
  then have c: "lev < length cc" "cc ! lev = x" using drop_Cons_D [of lev cc x "[]"] by simp_all
  have "drop_bit (Suc 0) (Suc 0) = 0" by (simp add: drop_bit_eq_div)
  with c 0 show ?case by (subst cc_fill.simps) (simp add: cc_fill_0)
next
  case (Suc k)
  let ?y = "h [x, x]"
  note c = drop_Cons_D [OF Suc.prems(1) [unfolded cc_rows.simps]]
  let ?row = "replicate (2 ^ Suc k) x"
  let ?up = "replicate (2 ^ k) ?y @ concat (rows h 2 k (replicate (2 ^ k) ?y))"
  have lv: "level h 2 ?row = replicate (2 ^ k) ?y" using level_replicate [of h "2 ^ k" x] by simp
  have lu: "length ?up = 2 ^ Suc k - 1" using length_concat_rows2 [of "replicate (2 ^ k) ?y" k h] by simp
  have pl: "p + 2 ^ Suc k + (2 ^ Suc k - 1) \<le> length fl" "p + 2 ^ Suc k \<le> length fl"
  proof -
    have "1 \<le> (2 :: nat) ^ k" by simp
    with Suc.prems(2) show "p + 2 ^ Suc k + (2 ^ Suc k - 1) \<le> length fl" "p + 2 ^ Suc k \<le> length fl"
      unfolding power_Suc by linarith+
  qed
  have db: "drop_bit 1 ((2 :: nat) ^ Suc k) = 2 ^ k" by (simp add: drop_bit_eq_div)
  have "cc_fill 1 cc (2 ^ Suc k) lev p fl =
      cc_fill 1 cc (2 ^ k) (Suc lev) (p + 2 ^ Suc k) (overlay p ?row fl)"
    using c pl db by (subst cc_fill.simps) simp
  also have "\<dots> = Some (Inr (overlay (p + 2 ^ Suc k) ?up (overlay p ?row fl)))"
    using c(3) pl by (intro Suc.IH) simp_all
  also have "overlay (p + 2 ^ Suc k) ?up (overlay p ?row fl) = overlay p (?row @ ?up) fl"
    using overlay_append [of p ?row ?up fl] lu pl by simp
  finally show ?case using lv by simp
qed


section \<open>Properties\<close>

text \<open>
  C21: \<open>TreeD::BuildTree\<close> over a data file of at least the sector size returns
  the Merkle root of the sector's nodes as \<open>comm_d\<close> and writes a tree-D file
  that is exactly the rows above the data from the bottom up, preceded by the
  data itself when \<open>copy\<close> is set; it never reads or writes outside the two
  files.
\<close>
theorem TreeD_BuildTree_correct:
  fixes s :: SectorSizeLg and sha_block sha_emit
  defines "sz \<equiv> 2 ^ sector_lg s"
  defines "hash \<equiv> TreeD_HashNode sha_block sha_emit"
  assumes "GetNumNodes sz \<le> length data_file" "xs = take (GetNumNodes sz) data_file"
  shows "TreeD_BuildTree hash sz copy data_file fill =
    Some (Inr (root hash GetNumTreeDArity (GetNumTreeDLevels sz) xs,
      (if copy then xs else []) @ concat (rows hash GetNumTreeDArity (GetNumTreeDLevels sz) xs)))"
proof -
  let ?k = "sector_lg s - 5"
  have b: "5 \<le> sector_lg s" "0 < ?k" "?k < 64" using sector_lg_bounds [of s] by simp_all
  have N: "GetNumNodes sz = 2 ^ ?k" by (simp add: sz_def GetNumNodes_def GetNumLeaves_sector)
  have L: "GetNumTreeDLevels sz = ?k"
    using b(3) by (simp add: sz_def GetNumTreeDLevels_def GetNumLeaves_sector log2_floor_pow2)
  have sz: "sz = 2 ^ ?k * NODE_SIZE"
    using b(1) power_add [of "2 :: nat" ?k 5] by (simp add: sz_def NODE_SIZE_def NODE_SIZE_LG_def)
  show ?thesis
    using TreeD_BuildTree_rows [OF sz b(2), of data_file xs] assms(3,4) N L
    by (simp add: hash_def GetNumTreeDArity_def)
qed

theorem TreeD_BuildTree_correct_witness:
  "let hash = TreeD_HashNode (\<lambda>d _. d) (\<lambda>d. d); xs = replicate 64 (replicate 8 (0 :: 32 word))
   in TreeD_BuildTree hash (2 ^ sector_lg Sector2KB) False xs [] =
     Some (Inr (root hash GetNumTreeDArity (GetNumTreeDLevels (2 ^ sector_lg Sector2KB)) xs,
       concat (rows hash GetNumTreeDArity (GetNumTreeDLevels (2 ^ sector_lg Sector2KB)) xs)))"
  using TreeD_BuildTree_correct [of Sector2KB "replicate 64 (replicate 8 0)"
      "replicate 64 (replicate 8 0)" "\<lambda>d _. d" "\<lambda>d. d" False "[]"]
  by (simp add: GetNumNodes_def GetNumLeaves_def constant_defs)

text \<open>
  C20: for a committed-capacity sector the shortcut is equivalent to the full
  computation: \<open>BuildCCTree\<close> returns the same \<open>comm_d\<close> and writes the same
  tree-D file as \<open>BuildTree\<close> with \<open>copy\<close> over an all-zero data file, for
  every supported sector size.
\<close>
theorem BuildCCTree_equiv_BuildTree:
  fixes s :: SectorSizeLg and sha_block sha_emit
  defines "sz \<equiv> 2 ^ sector_lg s"
  defines "hash \<equiv> TreeD_HashNode sha_block sha_emit"
  shows "TreeD_BuildCCTree hash sz fill =
    TreeD_BuildTree hash sz True (replicate (GetNumNodes sz) (replicate NODE_WORDS 0)) fill"
proof -
  let ?k = "sector_lg s - 5" and ?z = "replicate NODE_WORDS 0 :: node_t"
  have b: "5 \<le> sector_lg s" "0 < ?k" "?k < 64" using sector_lg_bounds [of s] by simp_all
  have N: "GetNumNodes sz = 2 ^ ?k" by (simp add: sz_def GetNumNodes_def GetNumLeaves_sector)
  have L: "GetNumTreeDLevels sz = ?k"
    using b(3) by (simp add: sz_def GetNumTreeDLevels_def GetNumLeaves_sector log2_floor_pow2)
  have sz: "sz = 2 ^ ?k * NODE_SIZE"
    using b(1) power_add [of "2 :: nat" ?k 5] by (simp add: sz_def NODE_SIZE_def NODE_SIZE_LG_def)
  have d: "sz div NODE_SIZE = 2 ^ ?k" using sz by (simp add: constant_defs)
  let ?file = "replicate (2 ^ ?k) ?z @ concat (rows hash 2 ?k (replicate (2 ^ ?k) ?z))"
  have len: "length ?file = 2 * 2 ^ ?k - 1"
    using length_concat_rows2 [of "replicate (2 ^ ?k) ?z" ?k hash] by simp
  have "cc_fill 1 (cc_rows hash ?k ?z) (2 ^ ?k) 0 0 (replicate (2 * 2 ^ ?k - 1) fill) =
      Some (Inr (overlay 0 ?file (replicate (2 * 2 ^ ?k - 1) fill)))"
    by (rule cc_fill_rows) simp_all
  also have "overlay 0 ?file (replicate (2 * 2 ^ ?k - 1) fill) = ?file"
    using len by (simp add: overlay_def)
  finally have "TreeD_BuildCCTree hash sz fill = Some (Inr (root hash 2 ?k (replicate (2 ^ ?k) ?z), ?file))"
    unfolding TreeD_BuildCCTree_def Let_def d L log2_floor_2 cc_nodes_rows
    by (simp add: cc_rows_last)
  moreover have "TreeD_BuildTree hash sz True (replicate (2 ^ ?k) ?z) fill =
      Some (Inr (root hash 2 ?k (replicate (2 ^ ?k) ?z), ?file))"
    using TreeD_BuildTree_rows [OF sz b(2), of "replicate (2 ^ ?k) ?z" "replicate (2 ^ ?k) ?z"
        sha_block sha_emit True fill] by (simp add: hash_def)
  ultimately show ?thesis using N by simp
qed

end
