(* ===== verification/Tree_Proof.thy ===== *)
theory Tree_Proof
  imports Tree_D
begin

unbundle bit_operations_syntax

text \<open>
  Inclusion proofs of C1: \<open>PathElement\<close> (\<open>src/c1/path_element.hpp\<close>),
  \<open>TreeProof\<close> and \<open>TreeDCCProof\<close> (\<open>src/c1/tree_proof.hpp\<close>).

  The tree buffers are the mapped tree files; each is a list of nodes, and a
  pointer to a node is modelled by the node it points to, since nothing is
  overwritten before the proof is written out.  Every read of a buffer is
  bounds checked.  The arity is a power of two, \<open>2 ^ lg\<close>; masks and shifts
  are those of the code on 64-bit values.

  The specification of an inclusion path is \<open>spec_path\<close>: at level \<open>l\<close>,
  the digit of the challenge and the siblings of its ancestor;
  \<open>path_root\<close> recomputes the root that a verifier obtains.
\<close>

record 'n PathElement =
  pe_arity :: nat
  pe_index :: nat
  pe_hashes :: "'n ptr list"

definition PathElement_new :: "nat \<Rightarrow> nat \<Rightarrow> 'n PathElement" where
  "PathElement_new a idx = \<lparr>pe_arity = a, pe_index = idx, pe_hashes = replicate (a - 1) nullptr\<rparr>"

definition SetHash :: "nat \<Rightarrow> 'n \<Rightarrow> 'n PathElement \<Rightarrow> 'n PathElement result" where
  "SetHash i x p =
     (if i < length (pe_hashes p) then Inr (p\<lparr>pe_hashes := (pe_hashes p)[i := Some x]\<rparr>)
      else Inl OutOfBounds)"

record 'n TreeProof =
  tp_arity :: nat
  tp_levels :: nat
  tree_bufs :: "'n list list"
  tp_discard_rows :: nat
  tp_root :: "'n ptr"
  tp_leaf :: "'n ptr"
  tp_path :: "'n PathElement list"

definition TreeProof_new :: "nat \<Rightarrow> nat \<Rightarrow> 'n list list \<Rightarrow> nat \<Rightarrow> 'n TreeProof" where
  "TreeProof_new a lv bufs discard =
     \<lparr>tp_arity = a, tp_levels = lv, tree_bufs = bufs, tp_discard_rows = discard,
      tp_root = nullptr, tp_leaf = nullptr, tp_path = []\<rparr>"

definition SetRoot :: "'n \<Rightarrow> 'n TreeProof \<Rightarrow> 'n TreeProof" where
  "SetRoot r tp = tp\<lparr>tp_root := Some r\<rparr>"

definition SetLeaf :: "'n \<Rightarrow> 'n TreeProof \<Rightarrow> 'n TreeProof" where
  "SetLeaf r tp = tp\<lparr>tp_leaf := Some r\<rparr>"

fun GetTreePaths :: "nat \<Rightarrow> nat \<Rightarrow> nat \<Rightarrow> nat list" where
  "GetTreePaths a 0 challenge = []"
| "GetTreePaths a (Suc n) challenge =
     (challenge AND (a - 1)) # GetTreePaths a n (drop_bit (log2_floor a) challenge)"

definition sibling_fold :: "nat \<Rightarrow> nat \<Rightarrow> (nat \<Rightarrow> nat \<Rightarrow> 'n result) \<Rightarrow> 'n PathElement \<Rightarrow>
    'n PathElement result" where
  "sibling_fold a skip get pe0 =
     bind_result (fold_result (\<lambda>i (hash_idx, pe).
         if i \<noteq> skip then
           bind_result (get hash_idx i) (\<lambda>x. bind_result (SetHash hash_idx x pe) (\<lambda>pe'. Inr (hash_idx + 1, pe')))
         else Inr (hash_idx, pe)) [0..<a] (0, pe0))
       (\<lambda>(_, pe). Inr pe)"

definition sibling_hashes :: "nat \<Rightarrow> nat \<Rightarrow> (nat \<Rightarrow> nat \<Rightarrow> 'n result) \<Rightarrow> 'n PathElement result" where
  "sibling_hashes a leaf_idx get = sibling_fold a leaf_idx get (PathElement_new a leaf_idx)"

definition get_block :: "'n list \<Rightarrow> nat \<Rightarrow> nat \<Rightarrow> 'n list result" where
  "get_block xs start n = (if start + n \<le> length xs then Inr (take n (drop start xs)) else Inl OutOfBounds)"

definition PerformFirstLevels :: "('n list \<Rightarrow> 'n) \<Rightarrow> nat \<Rightarrow> 'n list \<Rightarrow> nat list \<Rightarrow> 'n TreeProof \<Rightarrow>
    (bool \<times> 'n TreeProof) result" where
  "PerformFirstLevels hash challenge first_level indices tp =
     (let a = tp_arity tp;
          path_buf_len = tp_discard_rows tp * (a - 1);
          arity_mask = size_not (a - 1);
          labels = a ^ (tp_discard_rows tp + 1);
          index_mask = labels - 1;
          sec_mask = size_not (a * a - 1);
          leaf_start = (challenge AND arity_mask) AND index_mask;
          leaf_start2 = leaf_start AND sec_mask;
          leaf_start3 = drop_bit (log2_floor (a * a)) leaf_start2
      in
      bind_result (vec_get indices 0) (\<lambda>i0.
      bind_result (vec_get first_level (leaf_start + i0)) (\<lambda>leaf.
      bind_result (sibling_hashes a i0 (\<lambda>_ q. vec_get first_level (leaf_start + q))) (\<lambda>p0.
      bind_result (vec_get indices 1) (\<lambda>i1.
      bind_result (sibling_hashes a i1 (\<lambda>hash_idx q.
          bind_result (get_block first_level (leaf_start2 + q * a) a) (\<lambda>b.
          if hash_idx < path_buf_len then Inr (hash b) else Inl OutOfBounds))) (\<lambda>p1.
      let tp1 = (SetLeaf leaf tp)\<lparr>tp_path := tp_path tp @ [p0, p1]\<rparr> in
      if tp_levels tp = 2 then Inr (True, tp1)
      else
        bind_result (vec_get indices 2) (\<lambda>i2.
        bind_result (sibling_fold a leaf_start3 (\<lambda>hash_idx q.
            bind_result (map_result (\<lambda>q2. bind_result
                (get_block first_level (q * a * a + q2 * a) a) (\<lambda>b. Inr (hash b))) [0..<a]) (\<lambda>bs.
            if hash_idx + a - 1 < path_buf_len then Inr (hash bs) else Inl OutOfBounds))
          (PathElement_new a i2)) (\<lambda>p2.
        Inr (tp_levels tp = 3, tp1\<lparr>tp_path := tp_path tp1 @ [p2]\<rparr>)))))))))"

fun gen_levels :: "nat \<Rightarrow> nat \<Rightarrow> nat \<Rightarrow> nat list \<Rightarrow> nat \<Rightarrow> 'n list \<Rightarrow> nat \<Rightarrow> nat \<Rightarrow> nat \<Rightarrow> 'n TreeProof \<Rightarrow>
    (nat \<times> 'n TreeProof) result" where
  "gen_levels 0 l challenge indices tree_idx_mask tbuf arity_lg add_sz cur_sz tp = Inr (add_sz, tp)"
| "gen_levels (Suc n) l challenge indices tree_idx_mask tbuf arity_lg add_sz cur_sz tp =
     (let a = tp_arity tp;
          leaf_start = ((drop_bit (l * arity_lg) (challenge AND tree_idx_mask)) AND size_not (a - 1)) + add_sz
      in bind_result (vec_get indices l) (\<lambda>leaf_idx.
         bind_result (if l = 0 then bind_result (vec_get tbuf (leaf_start + leaf_idx)) (\<lambda>x. Inr (SetLeaf x tp))
                      else Inr tp) (\<lambda>tp1.
         bind_result (sibling_hashes a leaf_idx (\<lambda>_ q. vec_get tbuf (leaf_start + q))) (\<lambda>pe.
         gen_levels n (Suc l) challenge indices tree_idx_mask tbuf arity_lg (add_sz + cur_sz)
           (drop_bit arity_lg cur_sz) (tp1\<lparr>tp_path := tp_path tp1 @ [pe]\<rparr>)))))"

definition GenInclusionPath :: "('n list \<Rightarrow> 'n) \<Rightarrow> nat \<Rightarrow> 'n list ptr \<Rightarrow> 'n TreeProof \<Rightarrow> 'n TreeProof result"
where
  "GenInclusionPath hash challenge first_level tp =
     (let a = tp_arity tp; lv = tp_levels tp; nbufs = length (tree_bufs tp);
          indices = GetTreePaths a lv challenge
      in
      bind_result (case first_level of
           None \<Rightarrow> Inr (False, tp)
         | Some fl \<Rightarrow> PerformFirstLevels hash challenge fl indices tp) (\<lambda>(done, tp1).
      if done then Inr tp1
      else
        let starting_level = (if first_level = nullptr then 0 else 3);
            finish_level = (if nbufs = 1 then lv else lv - 1);
            arity_lg = log2_floor a;
            leaves = 2 ^ (lv * arity_lg);
            file_leaves = leaves div nbufs;
            file_shift = log2_floor file_leaves;
            tree_idx_mask = file_leaves - 1;
            act_file_leaves = 2 ^ ((lv - (tp_discard_rows tp + 1)) * arity_lg);
            start_level_size = (if first_level = nullptr then file_leaves else act_file_leaves div nbufs);
            buf_idx = drop_bit file_shift challenge
        in
        bind_result (vec_get (tree_bufs tp) buf_idx) (\<lambda>tbuf.
        bind_result (gen_levels (finish_level - starting_level) starting_level challenge indices
            tree_idx_mask tbuf arity_lg 0 start_level_size tp1) (\<lambda>(add_sz, tp2).
        if nbufs = 1 then Inr tp2
        else
          bind_result (vec_get indices (lv - 1)) (\<lambda>leaf_idx.
          bind_result (sibling_hashes a leaf_idx (\<lambda>_ q.
              bind_result (vec_get (tree_bufs tp) q) (\<lambda>b. vec_get b add_sz))) (\<lambda>pe.
          Inr (tp2\<lparr>tp_path := tp_path tp2 @ [pe]\<rparr>)))))))"

definition TreeDCCProof_new :: "'n list \<Rightarrow> nat \<Rightarrow> nat \<Rightarrow> 'n TreeProof result" where
  "TreeDCCProof_new cc_values a lv =
     bind_result (assert_that (lv \<le> 31)) (\<lambda>_.
     bind_result (vec_get cc_values lv) (\<lambda>r.
     bind_result (vec_get cc_values 0) (\<lambda>l.
     Inr (SetLeaf l (SetRoot r (TreeProof_new a lv [] 0))))))"

definition TreeDCC_GenInclusionPath :: "nat \<Rightarrow> 'n list \<Rightarrow> 'n TreeProof \<Rightarrow> 'n TreeProof result" where
  "TreeDCC_GenInclusionPath challenge first_level tp =
     bind_result (map_result (\<lambda>l.
         bind_result (vec_get (GetTreePaths (tp_arity tp) (tp_levels tp) challenge) l) (\<lambda>i.
         bind_result (vec_get first_level l) (\<lambda>x. SetHash 0 x (PathElement_new (tp_arity tp) i))))
       [0..<tp_levels tp])
     (\<lambda>ps. Inr (tp\<lparr>tp_path := tp_path tp @ ps\<rparr>))"


section \<open>Masks and shifts as arithmetic\<close>

lemma tp_path_leaf: "tp_path (tp\<lparr>tp_leaf := x\<rparr>) = tp_path tp"
  by simp

lemma and_low_mask: "x AND (2 ^ n - 1) = x mod (2 ^ n :: nat)"
  by (simp add: take_bit_eq_mod [symmetric] take_bit_eq_mask mask_eq_exp_minus_1)

lemma bit_nat_lt: "bit (x :: nat) i \<Longrightarrow> x < 2 ^ n \<Longrightarrow> i < n"
  by (metis bit_take_bit_iff take_bit_nat_eq_self)

lemma and_high_mask:
  assumes "x < 2 ^ 64" "n \<le> 64"
  shows "x AND size_not (2 ^ n - 1) = x div 2 ^ n * (2 ^ n :: nat)"
proof -
  have e: "(2 :: nat) ^ n \<le> 2 ^ 64" using assms(2) by (intro power_increasing) simp_all
  have "size_not (2 ^ n - 1) = 2 ^ 64 - 2 ^ n"
    using e by (simp add: size_not_def SIZE_MOD_def)
  also have "\<dots> = push_bit n (mask (64 - n))"
    using assms(2)
    by (simp add: push_bit_eq_mult mask_eq_exp_minus_1 diff_mult_distrib power_add [symmetric]
        del: power_numeral_even power_numeral_odd)
  finally have "x AND size_not (2 ^ n - 1) = push_bit n (drop_bit n x)"
    using bit_nat_lt [OF _ assms(1)] assms(2)
    by (intro bit_eqI) (auto simp: bit_simps intro: diff_less_mono)
  then show ?thesis by (simp add: push_bit_eq_mult drop_bit_eq_div)
qed


lemma log2_floor_power: "lg < 64 \<Longrightarrow> log2_floor (2 ^ lg) = lg"
  by (rule log2_floor_pow2)

lemma GetTreePaths_digits:
  assumes "lg < 64"
  shows "GetTreePaths (2 ^ lg) n c = map (\<lambda>l. c div (2 ^ lg) ^ l mod 2 ^ lg) [0..<n]"
proof (induction n arbitrary: c)
  case (Suc n)
  have "map (\<lambda>l. c div (2 ^ lg) ^ l mod 2 ^ lg) [0..<Suc n] =
      c mod 2 ^ lg # map (\<lambda>l. c div 2 ^ lg div (2 ^ lg) ^ l mod 2 ^ lg) [0..<n]"
    by (simp add: upt_conv_Cons map_Suc_upt [symmetric] div_mult2_eq del: upt_Suc)
  moreover have "c AND (2 ^ lg - Suc 0) = c mod 2 ^ lg" using and_low_mask [of c lg] by simp
  ultimately show ?case
    using Suc [of "drop_bit lg c"] assms by (simp add: log2_floor_pow2 drop_bit_eq_div)
qed simp


lemma drop_eq_single: "drop n xs = [y] \<Longrightarrow> length xs = Suc n"
proof -
  assume "drop n xs = [y]"
  then have "length xs - n = 1" by (metis One_nat_def length_drop length_Cons list.size(3))
  then show ?thesis by simp
qed


section \<open>Path elements\<close>

abbreviation others :: "nat \<Rightarrow> nat \<Rightarrow> nat list" where
  "others a i \<equiv> filter (\<lambda>q. q \<noteq> i) [0..<a]"

lemma others_split: "i < a \<Longrightarrow> others a i = [0..<i] @ [Suc i..<a]"
proof -
  assume "i < a"
  then have "[0..<a] = [0..<i] @ i # [Suc i..<a]"
    using upt_add_eq_append [of 0 i "a - i"] by (simp add: upt_conv_Cons)
  then show ?thesis by (simp add: filter_id_conv)
qed

lemma length_others: "i < a \<Longrightarrow> length (others a i) = a - 1"
  by (simp add: others_split)

lemma sibling_fold_ok:
  assumes "skip < a" "length (pe_hashes pe0) = a - 1"
    "\<And>hi q. hi < a - 1 \<Longrightarrow> q < a \<Longrightarrow> q \<noteq> skip \<Longrightarrow> get hi q = Inr (g q)"
  shows "sibling_fold a skip get pe0 = Inr (pe0\<lparr>pe_hashes := map (\<lambda>q. Some (g q)) (others a skip)\<rparr>)"
proof -
  let ?f = "\<lambda>i (hash_idx, pe).
         if i \<noteq> skip then
           bind_result (get hash_idx i) (\<lambda>x. bind_result (SetHash hash_idx x pe) (\<lambda>pe'. Inr (hash_idx + 1, pe')))
         else Inr (hash_idx, pe)"
  let ?o = "\<lambda>n. filter (\<lambda>q. q \<noteq> skip) [0..<n]"
  have main: "n \<le> a \<Longrightarrow> fold_result ?f [0..<n] (0, pe0) =
      Inr (length (?o n), pe0\<lparr>pe_hashes := map (\<lambda>q. Some (g q)) (?o n) @ drop (length (?o n)) (pe_hashes pe0)\<rparr>)" for n
  proof (induction n)
    case (Suc n)
    show ?case
    proof (cases "n = skip")
      case False
      have lt: "length (?o n) < a - 1"
      proof -
        have "length (?o (Suc n)) \<le> length (?o a)"
        proof -
          have "[0..<a] = [0..<Suc n] @ [Suc n..<a]"
            using Suc.prems upt_add_eq_append [of 0 "Suc n" "a - Suc n"] by simp
          then show ?thesis by simp
        qed
        with False length_others [OF assms(1)] show ?thesis by simp
      qed
      let ?hs = "map (\<lambda>q. Some (g q)) (?o n) @ drop (length (?o n)) (pe_hashes pe0)"
      have "?hs[length (?o n) := Some (g n)] =
          map (\<lambda>q. Some (g q)) (?o n @ [n]) @ drop (Suc (length (?o n))) (pe_hashes pe0)"
        using lt assms(2) by (simp add: list_update_append Cons_nth_drop_Suc [symmetric])
      with Suc False lt assms show ?thesis
        by (simp add: fold_result_append SetHash_def)
    qed (use Suc in \<open>simp add: fold_result_append\<close>)
  qed simp
  from main [of a] assms(2) length_others [OF assms(1)] show ?thesis
    by (simp add: sibling_fold_def)
qed

definition path_step :: "('n list \<Rightarrow> 'n) \<Rightarrow> 'n PathElement \<Rightarrow> 'n \<Rightarrow> 'n" where
  "path_step h e cur =
     (let hs = map the (pe_hashes e) in h (take (pe_index e) hs @ cur # drop (pe_index e) hs))"

definition path_root :: "('n list \<Rightarrow> 'n) \<Rightarrow> 'n PathElement list \<Rightarrow> 'n \<Rightarrow> 'n" where
  "path_root h es leaf = fold (path_step h) es leaf"

definition spec_element :: "('n list \<Rightarrow> 'n) \<Rightarrow> nat \<Rightarrow> 'n list \<Rightarrow> nat \<Rightarrow> nat \<Rightarrow> 'n PathElement" where
  "spec_element h a xs c l =
     \<lparr>pe_arity = a, pe_index = c div a ^ l mod a,
      pe_hashes = map (\<lambda>q. Some (levels h a l xs ! (c div a ^ Suc l * a + q))) (others a (c div a ^ l mod a))\<rparr>"

definition spec_path :: "('n list \<Rightarrow> 'n) \<Rightarrow> nat \<Rightarrow> nat \<Rightarrow> 'n list \<Rightarrow> nat \<Rightarrow> 'n PathElement list" where
  "spec_path h a k xs c = map (spec_element h a xs c) [0..<k]"

definition stored_rows :: "('n list \<Rightarrow> 'n) \<Rightarrow> nat \<Rightarrow> nat \<Rightarrow> nat \<Rightarrow> 'n list \<Rightarrow> 'n list" where
  "stored_rows h a st K ys = concat (map (\<lambda>j. levels h a j ys) [st..<Suc K])"

lemma sibling_hashes_ok:
  assumes "i < a" "\<And>hi q. hi < a - 1 \<Longrightarrow> q < a \<Longrightarrow> q \<noteq> i \<Longrightarrow> get hi q = Inr (g q)"
  shows "sibling_hashes a i get =
    Inr \<lparr>pe_arity = a, pe_index = i, pe_hashes = map (\<lambda>q. Some (g q)) (others a i)\<rparr>"
  using sibling_fold_ok [OF assms(1), of "PathElement_new a i" get g] assms(2)
  by (simp add: sibling_hashes_def PathElement_new_def)

context merkle_hash
begin

lemma div_Suc_pow: "c div a ^ Suc l = c div a ^ l div a"
  by (simp only: power_Suc2 div_mult2_eq)

lemma spec_path_step:
  assumes "length xs = a ^ k" "l < k" "c < a ^ k"
  shows "path_step h (spec_element h a xs c l) (levels h a l xs ! (c div a ^ l)) =
    levels h a (Suc l) xs ! (c div a ^ Suc l)"
proof -
  let ?i = "c div a ^ l mod a" and ?p = "c div a ^ Suc l"
  let ?r = "levels h a l xs"
  let ?g = "\<lambda>q. ?r ! (?p * a + q)"
  have i: "?i < a" by simp
  have len: "length ?r = a ^ (k - l)"
    using assms by (intro length_levels) (simp add: power_add [symmetric])
  have p: "?p < length ?r div a"
  proof -
    have "c div a ^ Suc l < a ^ (k - Suc l)"
      using assms by (simp add: less_mult_imp_div_less power_add [symmetric] del: power_Suc)
    moreover have "length ?r div a = a ^ (k - Suc l)"
      using Suc_diff_Suc [OF assms(2)] len by (metis a_pos(1) nonzero_mult_div_cancel_left a_pos(2) power_Suc)
    ultimately show ?thesis by simp
  qed
  have cur: "?r ! (c div a ^ l) = ?g ?i"
    by (simp only: div_Suc_pow div_mult_mod_eq)
  have "take ?i (map ?g (others a ?i)) @ ?g ?i # drop ?i (map ?g (others a ?i)) = map ?g [0..<a]"
    unfolding others_split [OF i]
    using i upt_add_eq_append [of 0 ?i "a - ?i"] by (simp add: upt_conv_Cons)
  moreover have "map ?g [0..<a] = block a ?r ?p"
    using block_bound [OF p] by (intro nth_equalityI) (simp_all add: length_block nth_block)
  moreover have "map the (map (\<lambda>q. Some (?g q)) (others a ?i)) = map ?g (others a ?i)" by simp
  ultimately have "path_step h (spec_element h a xs c l) (?r ! (c div a ^ l)) = h (block a ?r ?p)"
    unfolding path_step_def spec_element_def Let_def cur by (simp add: comp_def)
  also have "\<dots> = level h a ?r ! ?p" using p by (simp add: nth_level)
  finally show ?thesis by (simp only: levels_Suc_end)
qed

lemma spec_path_root:
  assumes "length xs = a ^ k" "c < a ^ k"
  shows "path_root h (spec_path h a k xs c) (xs ! c) = root h a k xs"
proof -
  have "n \<le> k \<Longrightarrow> fold (path_step h) (map (spec_element h a xs c) [0..<n]) (xs ! c) =
      levels h a n xs ! (c div a ^ n)" for n
    by (induction n) (use spec_path_step [OF assms(1) _ assms(2)] in simp_all)
  from this [of k] show ?thesis
    using assms root_levels [OF assms(1)] by (simp add: path_root_def spec_path_def)
qed


section \<open>Paths inside a block of the tree\<close>

lemma levels_of_block:
  assumes "length xs = m * a ^ K" "f < m" "l \<le> K" "i < a ^ (K - l)"
  shows "levels h a l (block (a ^ K) xs f) ! i = levels h a l xs ! (f * a ^ (K - l) + i)"
proof -
  let ?l = "take (f * a ^ K) xs" and ?r = "drop (f * a ^ K) xs" and ?b = "block (a ^ K) xs f"
  have e: "a ^ K = a ^ (K - l) * a ^ l" using assms(3) by (simp add: power_add [symmetric])
  have im: "Suc f * a ^ K \<le> m * a ^ K" using assms(2) by (intro mult_le_mono1) simp
  then have ll: "length ?l = (f * a ^ (K - l)) * a ^ l" using assms(1) e by (simp add: mult.assoc)
  have lb: "length ?b = a ^ (K - l) * a ^ l" using im assms(1) e by (simp add: block_def)
  have r: "?r = ?b @ drop (a ^ K) ?r" unfolding block_def by (rule append_take_drop_id [symmetric])
  have "levels h a l xs = levels h a l (?l @ ?b @ drop (a ^ K) ?r)"
    using r by (metis append_take_drop_id)
  also have "\<dots> = levels h a l ?l @ levels h a l ?b @ levels h a l (drop (a ^ K) ?r)"
    by (simp add: levels_append [OF ll] levels_append [OF lb])
  finally show ?thesis
    using length_levels [OF ll] length_levels [OF lb] assms(4) by (simp add: nth_append)
qed

lemma div_split:
  assumes "l \<le> K"
  shows "c div a ^ l = c div a ^ K * a ^ (K - l) + c mod a ^ K div a ^ l"
proof -
  have e: "a ^ K = a ^ (K - l) * a ^ l" using assms by (simp add: power_add [symmetric])
  have "c = c div a ^ K * a ^ (K - l) * a ^ l + c mod a ^ K"
    using div_mult_mod_eq [of c "a ^ K"] e by (simp add: mult.assoc)
  then have "c div a ^ l = (c mod a ^ K + c div a ^ K * a ^ (K - l) * a ^ l) div a ^ l"
    by (simp add: add.commute)
  then show ?thesis by simp
qed

lemma digit_mod:
  assumes "l < K"
  shows "c mod a ^ K div a ^ l mod a = c div a ^ l mod a"
proof -
  have "a dvd c div a ^ K * a ^ (K - l)" using assms by (simp add: dvd_power)
  then obtain t where "c div a ^ K * a ^ (K - l) = a * t" by (rule dvdE)
  with div_split [of l K c] assms have "c div a ^ l = c mod a ^ K div a ^ l + a * t" by simp
  then show ?thesis by simp
qed

lemma sibling_bound:
  assumes "l < K" "c < a ^ K" "q < a"
  shows "c div a ^ Suc l * a + q < a ^ (K - l)"
proof -
  have "c div a ^ Suc l < a ^ (K - Suc l)"
    using assms by (simp add: less_mult_imp_div_less power_add [symmetric] del: power_Suc)
  then have "Suc (c div a ^ Suc l) * a \<le> a ^ (K - Suc l) * a" by (intro mult_le_mono1) simp
  also have "\<dots> = a ^ (K - l)" using Suc_diff_Suc [OF assms(1)] by (metis power_Suc2)
  finally show ?thesis using assms(3) by simp
qed

lemma spec_element_block:
  assumes "length xs = m * a ^ K" "c < m * a ^ K" "l < K"
  shows "spec_element h a (block (a ^ K) xs (c div a ^ K)) (c mod a ^ K) l = spec_element h a xs c l"
proof -
  let ?f = "c div a ^ K" and ?c = "c mod a ^ K"
  have f: "?f < m" using assms(2) by (simp add: less_mult_imp_div_less)
  have q: "?c div a ^ Suc l * a + q < a ^ (K - l)" if "q < a" for q
    by (rule sibling_bound [OF assms(3) _ that]) simp
  have e: "?f * a ^ (K - l) + (?c div a ^ Suc l * a + q) = c div a ^ Suc l * a + q" for q
  proof -
    have "a ^ (K - l) = a ^ (K - Suc l) * a" using Suc_diff_Suc [OF assms(3)] by (metis power_Suc2)
    with div_split [of "Suc l" K c] assms(3) show ?thesis
      by (simp add: add_mult_distrib mult.assoc del: power_Suc)
  qed
  have "levels h a l (block (a ^ K) xs ?f) ! (?c div a ^ Suc l * a + q) =
      levels h a l xs ! (c div a ^ Suc l * a + q)" if "q < a" for q
    by (rule levels_of_block [OF assms(1) f less_imp_le [OF assms(3)] q [OF that], unfolded e])
  then show ?thesis
    unfolding spec_element_def digit_mod [OF assms(3)] by simp
qed

lemma nth_of_block:
  assumes "length xs = m * a ^ K" "c < m * a ^ K"
  shows "block (a ^ K) xs (c div a ^ K) ! (c mod a ^ K) = xs ! c"
proof -
  have "c div a ^ K < m" using assms(2) by (simp add: less_mult_imp_div_less)
  then have "Suc (c div a ^ K) * a ^ K \<le> length xs" unfolding assms(1) by (intro mult_le_mono1) simp
  then show ?thesis by (simp add: nth_block div_mult_mod_eq)
qed


section \<open>The levels kept in the tree files\<close>

lemma stored_rows_step:
  assumes "l < K" "length ys = a ^ K" "drop add_sz tbuf = concat (map (\<lambda>j. levels h a j ys) [l..<Suc K])"
  shows "drop (add_sz + a ^ (K - l)) tbuf = concat (map (\<lambda>j. levels h a j ys) [Suc l..<Suc K])"
    "i < a ^ (K - l) \<Longrightarrow> vec_get tbuf (add_sz + i) = Inr (levels h a l ys ! i)"
proof -
  have len: "length (levels h a l ys) = a ^ (K - l)"
    using assms(1,2) by (intro length_levels) (simp add: power_add [symmetric])
  have d: "drop add_sz tbuf = levels h a l ys @ concat (map (\<lambda>j. levels h a j ys) [Suc l..<Suc K])"
    using assms(1,3) by (simp add: upt_conv_Cons del: upt_Suc)
  then have "drop (a ^ (K - l)) (drop add_sz tbuf) = concat (map (\<lambda>j. levels h a j ys) [Suc l..<Suc K])"
    using len by simp
  then show "drop (add_sz + a ^ (K - l)) tbuf = concat (map (\<lambda>j. levels h a j ys) [Suc l..<Suc K])"
    by (simp add: add.commute)
  assume i: "i < a ^ (K - l)"
  have "length (drop add_sz tbuf) \<ge> a ^ (K - l)" using d len by simp
  moreover have "0 < a ^ (K - l)" by simp
  ultimately have "add_sz + i < length tbuf" using i by simp
  moreover have "tbuf ! (add_sz + i) = drop add_sz tbuf ! i" using calculation by simp
  ultimately show "vec_get tbuf (add_sz + i) = Inr (levels h a l ys ! i)"
    using d len i by (simp add: nth_append)
qed

lemma gen_levels_ok:
  assumes "a = 2 ^ lg" "0 < lg" "lg < 64" "c < 2 ^ 64" "K * lg < 64" "length ys = a ^ K"
    "indices = GetTreePaths a k c" "K \<le> k" "tp_arity tp = a" "l + n = K"
    "drop add_sz tbuf = concat (map (\<lambda>j. levels h a j ys) [l..<Suc K])"
  shows "\<exists>add' tp'. gen_levels n l c indices (a ^ K - 1) tbuf lg add_sz (a ^ (K - l)) tp = Inr (add', tp') \<and>
    drop add' tbuf = [root h a K ys] \<and>
    tp_path tp' = tp_path tp @ map (spec_element h a ys (c mod a ^ K)) [l..<K] \<and>
    tp_leaf tp' = (if l = 0 \<and> 0 < n then Some (ys ! (c mod a ^ K)) else tp_leaf tp) \<and>
    tp_root tp' = tp_root tp \<and> tp_levels tp' = tp_levels tp \<and> tp_arity tp' = tp_arity tp"
  using assms(9-)
proof (induction n arbitrary: l add_sz tp)
  case 0
  then show ?case using root_levels [OF assms(6)] by simp
next
  case (Suc n)
  let ?c = "c mod a ^ K"
  have l: "l < K" using Suc.prems(2) by simp
  have aK: "a ^ K = 2 ^ (K * lg)" "a ^ l = 2 ^ (l * lg)" using assms(1)
    by (simp_all add: power_mult [symmetric] mult.commute)
  have msk: "c AND (a ^ K - 1) = ?c" using and_low_mask [of c "K * lg"] aK(1) by simp
  have c64: "?c div a ^ l < 2 ^ 64"
    using assms(4) by (meson div_le_dividend mod_less_eq_dividend order.trans le_less_trans)
  have ls: "(drop_bit (l * lg) (c AND (a ^ K - 1)) AND size_not (a - 1)) = ?c div a ^ Suc l * a"
    unfolding msk drop_bit_eq_div aK(2) [symmetric] div_Suc_pow
    using and_high_mask [OF c64, of lg] assms(1,3) by simp
  have idx: "vec_get indices l = Inr (?c div a ^ l mod a)"
    using l assms(7,8) GetTreePaths_digits [OF assms(3), of k c] digit_mod [OF l, of c]
    by (simp add: assms(1))
  have bound: "?c div a ^ Suc l * a + q < a ^ (K - l)" if "q < a" for q
    by (rule sibling_bound [OF l _ that]) simp
  note st = stored_rows_step [OF l assms(6) Suc.prems(3)]
  have get: "vec_get tbuf (?c div a ^ Suc l * a + add_sz + q) =
      Inr (levels h a l ys ! (?c div a ^ Suc l * a + q))" if "q < a" for q
    using st(2) [OF bound [OF that]] by (simp add: ac_simps del: power_Suc)
  have sib: "sibling_hashes a (?c div a ^ l mod a) (\<lambda>_ q. vec_get tbuf (?c div a ^ Suc l * a + add_sz + q)) =
      Inr (spec_element h a ys ?c l)"
    unfolding spec_element_def
    by (rule sibling_hashes_ok) (use get in simp_all)
  have leaf: "l = 0 \<Longrightarrow> vec_get tbuf (?c div a ^ Suc l * a + add_sz + ?c div a ^ l mod a) = Inr (ys ! ?c)"
    using get [of "?c div a ^ l mod a"] by simp
  let ?tp1 = "if l = 0 then SetLeaf (ys ! ?c) tp else tp"
  let ?tp2 = "?tp1\<lparr>tp_path := tp_path tp @ [spec_element h a ys ?c l]\<rparr>"
  have cur: "drop_bit lg (a ^ (K - l)) = a ^ (K - Suc l)"
    using Suc_diff_Suc [OF l] assms(1)
    by (metis a_pos(2) drop_bit_eq_div nonzero_mult_div_cancel_left power_Suc)
  have "gen_levels (Suc n) l c indices (a ^ K - 1) tbuf lg add_sz (a ^ (K - l)) tp =
      gen_levels n (Suc l) c indices (a ^ K - 1) tbuf lg (add_sz + a ^ (K - l)) (a ^ (K - Suc l)) ?tp2"
    unfolding gen_levels.simps Let_def Suc.prems(1) ls idx bind_result_simps sib cur
    using leaf by (cases "l = 0") (simp_all only: if_True if_False bind_result_simps SetLeaf_def simp_thms
        tp_path_leaf)
  moreover have "tp_arity ?tp2 = a" using Suc.prems(1) by (simp add: SetLeaf_def)
  note IH = Suc.IH [OF this _ st(1)]
  ultimately show ?case
    using IH Suc.prems(2) l by (auto simp: SetLeaf_def upt_conv_Cons)
qed


section \<open>The levels rebuilt from labels\<close>

lemma first_levels_masks:
  assumes "a = 2 ^ lg" "3 * lg < 64" "c < 2 ^ 64"
  defines "c3 \<equiv> c mod a ^ 3"
  shows "(c AND size_not (a - 1)) AND (a ^ 3 - 1) = c3 div a * a"
    "(c3 div a * a) AND size_not (a * a - 1) = c3 div a ^ 2 * a ^ 2"
    "drop_bit (log2_floor (a * a)) (c3 div a ^ 2 * a ^ 2) = c3 div a ^ 2"
proof -
  have a2: "a * a = 2 ^ (2 * lg)" "a ^ 2 = 2 ^ (2 * lg)" "a ^ 3 = 2 ^ (3 * lg)"
    using assms(1) by (simp_all add: power_mult [symmetric] mult.commute power_add [symmetric] mult_2)
  have "c AND size_not (a - 1) = c div a * a"
    using and_high_mask [OF assms(3), of lg] assms(1,2) by simp
  moreover have "(c div a * a) mod a ^ 3 = c3 div a * a"
  proof -
    have "c div a * a = c div a ^ 3 * a ^ 3 + c3 div a * a"
      using div_split [of 1 3 c] by (simp add: c3_def power3_eq_cube power2_eq_square algebra_simps)
    moreover have "c3 div a * a < a ^ 3"
      unfolding c3_def by (meson a_pos(1) div_times_less_eq_dividend le_less_trans mod_less_divisor zero_less_power)
    ultimately show ?thesis by simp
  qed
  moreover have "x AND (a ^ 3 - 1) = x mod a ^ 3" for x using and_low_mask [of x "3 * lg"] a2(3) by simp
  ultimately show "(c AND size_not (a - 1)) AND (a ^ 3 - 1) = c3 div a * a" by simp
  have lt: "c3 div a * a < 2 ^ 64"
    using assms(3) unfolding c3_def
    by (meson div_times_less_eq_dividend mod_less_eq_dividend le_less_trans)
  have "c3 div a * a div (a * a) = c3 div a ^ 2"
    by (simp add: div_mult2_eq power2_eq_square)
  then show "(c3 div a * a) AND size_not (a * a - 1) = c3 div a ^ 2 * a ^ 2"
    using and_high_mask [OF lt, of "2 * lg"] assms(2) a2(1,2) by simp
  show "drop_bit (log2_floor (a * a)) (c3 div a ^ 2 * a ^ 2) = c3 div a ^ 2"
    using assms(2) a2 by (simp add: log2_floor_pow2 drop_bit_eq_div)
qed

lemma get_block_level:
  assumes "i < length xs div a"
  shows "get_block xs (i * a) a = Inr (block a xs i)"
  using block_bound [OF assms] by (simp add: get_block_def block_def add.commute)

lemma second_level_get:
  assumes "length fl = a ^ 3" "c3 < a ^ 3" "q < a"
  shows "get_block fl (c3 div a ^ 2 * a ^ 2 + q * a) a = Inr (block a fl (c3 div a ^ 2 * a + q))"
    "h (block a fl (c3 div a ^ 2 * a + q)) = levels h a 1 fl ! (c3 div a ^ 2 * a + q)"
proof -
  have b: "c3 div a ^ 2 * a + q < length fl div a"
    using sibling_bound [of 1 3 c3 q] assms by (simp add: numeral_2_eq_2 numeral_3_eq_3)
  have "c3 div a ^ 2 * a ^ 2 + q * a = (c3 div a ^ 2 * a + q) * a"
    by (simp add: power2_eq_square algebra_simps)
  with get_block_level [OF b]
  show "get_block fl (c3 div a ^ 2 * a ^ 2 + q * a) a = Inr (block a fl (c3 div a ^ 2 * a + q))" by simp
  show "h (block a fl (c3 div a ^ 2 * a + q)) = levels h a 1 fl ! (c3 div a ^ 2 * a + q)"
    using b by (simp add: nth_level)
qed

lemma third_level_get:
  assumes "length fl = a ^ 3" "q < a"
  shows "map_result (\<lambda>q2. bind_result (get_block fl (q * a * a + q2 * a) a) (\<lambda>b. Inr (h b))) [0..<a] =
      Inr (block a (level h a fl) q)"
    "h (block a (level h a fl) q) = levels h a 2 fl ! q"
proof -
  have ll: "length (level h a fl) = a * a" using assms(1) by (simp add: power3_eq_cube)
  have sq: "Suc q * a \<le> a * a" using assms(2) by (intro mult_le_mono1) simp
  have "get_block fl (q * a * a + q2 * a) a = Inr (block a fl (q * a + q2))" if "q2 < a" for q2
  proof -
    have "q * a + q2 < length fl div a" using that sq assms(1) by (simp add: power3_eq_cube)
    from get_block_level [OF this] show ?thesis by (simp add: algebra_simps)
  qed
  then have "map_result (\<lambda>q2. bind_result (get_block fl (q * a * a + q2 * a) a) (\<lambda>b. Inr (h b))) [0..<a] =
      Inr (map (\<lambda>q2. h (block a fl (q * a + q2))) [0..<a])"
    by (intro map_result_Inr) simp
  moreover have "map (\<lambda>q2. h (block a fl (q * a + q2))) [0..<a] = block a (level h a fl) q"
    using sq ll assms(1)
    by (intro nth_equalityI) (simp_all add: length_block nth_block nth_level power3_eq_cube)
  ultimately show "map_result (\<lambda>q2. bind_result (get_block fl (q * a * a + q2 * a) a) (\<lambda>b. Inr (h b))) [0..<a] =
      Inr (block a (level h a fl) q)" by simp
  show "h (block a (level h a fl) q) = levels h a 2 fl ! q"
    using assms(2) ll by (simp add: numeral_2_eq_2 nth_level)
qed

lemma first_levels_ok:
  assumes "a = 2 ^ lg" "3 * lg < 64" "c < 2 ^ 64" "length fl = a ^ 3" "tp_arity tp = a"
    "tp_levels tp = k" "3 \<le> k" "tp_discard_rows tp = 2" "tp_path tp = []"
  defines "c3 \<equiv> c mod a ^ 3"
  shows "PerformFirstLevels h c fl (GetTreePaths a k c) tp =
    Inr (k = 3, tp\<lparr>tp_leaf := Some (fl ! c3), tp_path := map (spec_element h a fl c3) [0..<3]\<rparr>)"
proof -
  have c3: "c3 < a ^ 3" by (simp add: c3_def)
  note m = first_levels_masks [OF assms(1-3), folded c3_def]
  have lb: "tp_arity tp ^ (tp_discard_rows tp + 1) = a ^ 3" using assms(5,8) by (simp add: numeral_3_eq_3)
  have lg: "lg < 64" using assms(2) by simp
  have idx: "vec_get (GetTreePaths a k c) l = Inr (c3 div a ^ l mod a)" if "l < 3" for l
    using that assms(7) GetTreePaths_digits [OF lg, of k c] digit_mod [OF that, of c]
    by (simp add: assms(1) c3_def)
  have g0: "vec_get fl (c3 div a * a + q) = Inr (fl ! (c3 div a * a + q))" if "q < a" for q
    using sibling_bound [of 0 3 c3 q] c3 that assms(4) by simp
  have s0: "sibling_hashes a (c3 div a ^ 0 mod a) (\<lambda>_ q. vec_get fl (c3 div a * a + q)) =
      Inr (spec_element h a fl c3 0)"
    unfolding spec_element_def by (rule sibling_hashes_ok) (use g0 in simp_all)
  have lf: "vec_get fl (c3 div a * a + c3 div a ^ 0 mod a) = Inr (fl ! c3)"
    using g0 [of "c3 mod a"] by (simp add: div_mult_mod_eq)
  have s1: "sibling_hashes a (c3 div a ^ 1 mod a) (\<lambda>hash_idx q.
        bind_result (get_block fl (c3 div a ^ 2 * a ^ 2 + q * a) a) (\<lambda>b.
        if hash_idx < 2 * (a - 1) then Inr (h b) else Inl OutOfBounds)) = Inr (spec_element h a fl c3 1)"
    unfolding spec_element_def
    by (rule sibling_hashes_ok)
      (use second_level_get [OF assms(4) c3] in \<open>simp_all add: numeral_2_eq_2\<close>)
  have dg: "c3 div a ^ 2 mod a = c3 div a ^ 2"
    using c3 by (simp add: less_mult_imp_div_less power3_eq_cube power2_eq_square)
  have s2: "sibling_fold a (c3 div a ^ 2) (\<lambda>hash_idx q.
        bind_result (map_result (\<lambda>q2. bind_result (get_block fl (q * a * a + q2 * a) a)
          (\<lambda>b. Inr (h b))) [0..<a]) (\<lambda>bs.
        if hash_idx + a - 1 < 2 * (a - 1) then Inr (h bs) else Inl OutOfBounds))
      (PathElement_new a (c3 div a ^ 2 mod a)) = Inr (spec_element h a fl c3 2)"
  proof -
    have z: "c3 div a ^ Suc 2 = 0" using c3 by (simp add: numeral_3_eq_3)
    have "c3 div a ^ 2 < a" using dg by (metis a_pos(1) mod_less_divisor)
    from sibling_fold_ok [OF this, of "PathElement_new a (c3 div a ^ 2 mod a)" _
        "\<lambda>q. levels h a 2 fl ! q"] show ?thesis
      using third_level_get [OF assms(4)] dg
      unfolding spec_element_def z by (simp add: PathElement_new_def)
  qed
  have up: "[0..<3] = [0, 1, 2 :: nat]" by (simp add: upt_conv_Cons numeral_3_eq_3)
  show ?thesis
    unfolding PerformFirstLevels_def Let_def lb
    unfolding assms(5,6,8) m bind_result_simps
    using idx [of 0] idx [of 1] idx [of 2] lf s0 s1 s2 assms(7,9)
    unfolding up by (simp add: SetLeaf_def)
qed

lemma length_stored_rows:
  "length ys = a ^ K \<Longrightarrow> length zs = a ^ K \<Longrightarrow> length (stored_rows h a st K ys) = length (stored_rows h a st K zs)"
proof -
  assume l: "length ys = a ^ K" "length zs = a ^ K"
  have "length (levels h a j ys) = length (levels h a j zs)" if "j \<le> K" for j
  proof -
    have e: "a ^ K = a ^ (K - j) * a ^ j" using that by (simp add: power_add [symmetric])
    show ?thesis using length_levels [of ys "a ^ (K - j)" j] length_levels [of zs "a ^ (K - j)" j] l e by simp
  qed
  then show ?thesis
    unfolding stored_rows_def length_concat by (intro arg_cong [where f = sum_list]) auto
qed

lemma last_stored_row:
  assumes "length ys = a ^ K" "st \<le> K" "length (stored_rows h a st K ys) = Suc n"
  shows "vec_get (stored_rows h a st K ys) n = Inr (root h a K ys)"
proof -
  have "stored_rows h a st K ys = concat (map (\<lambda>j. levels h a j ys) [st..<K]) @ [root h a K ys]"
    using assms(2) root_levels [OF assms(1)] by (simp add: stored_rows_def)
  with assms(3) show ?thesis by (simp add: nth_append)
qed

lemma top_element:
  assumes "length xs = a ^ Suc K" "c < a ^ Suc K" "st \<le> K"
    "bufs = map (\<lambda>f. stored_rows h a st K (block (a ^ K) xs f)) [0..<a]"
    "c div a ^ K < a" "length (bufs ! (c div a ^ K)) = Suc n"
  shows "sibling_hashes a (c div a ^ K mod a) (\<lambda>_ q. bind_result (vec_get bufs q) (\<lambda>b. vec_get b n)) =
    Inr (spec_element h a xs c K)"
proof -
  have lb: "length (block (a ^ K) xs q) = a ^ K" if "q < a" for q
  proof -
    have "Suc q * a ^ K \<le> a * a ^ K" using that by (intro mult_le_mono1) simp
    then show ?thesis using assms(1) by (intro length_block) simp
  qed
  have "bind_result (vec_get bufs q) (\<lambda>b. vec_get b n) = Inr (levels h a K xs ! (c div a ^ Suc K * a + q))"
    if q: "q < a" for q
  proof -
    have "length (stored_rows h a st K (block (a ^ K) xs q)) = Suc n"
      using length_stored_rows [OF lb [OF q] lb [OF assms(5)], of st] assms(4-6) by simp
    from last_stored_row [OF lb [OF q] assms(3) this]
    have "bind_result (vec_get bufs q) (\<lambda>b. vec_get b n) = Inr (root h a K (block (a ^ K) xs q))"
      using q assms(4) by simp
    moreover have "levels h a K xs ! q = root h a K (block (a ^ K) xs q)"
      using levels_subtrees [of xs a K q] q assms(1) by simp
    ultimately show ?thesis using assms(2) by simp
  qed
  then show ?thesis
    unfolding spec_element_def by (intro sibling_hashes_ok) simp_all
qed

lemma first_levels_part:
  assumes "a = 2 ^ lg" "k * lg < 64" "length xs = a ^ k" "c < a ^ k" "3 < k" "c < 2 ^ 64"
    "tp_arity tp = a" "tp_levels tp = k" "tp_path tp = []" "tp_discard_rows tp = 2"
  shows "PerformFirstLevels h c (block (a ^ 3) xs (c div a ^ 3)) (GetTreePaths a k c) tp =
    Inr (False, tp\<lparr>tp_leaf := Some (xs ! c), tp_path := map (spec_element h a xs c) [0..<3]\<rparr>)"
proof -
  have km: "a ^ k = a ^ (k - 3) * a ^ 3" using assms(5) by (simp add: power_add [symmetric])
  have f: "c div a ^ 3 < a ^ (k - 3)" using assms(4) km by (simp add: less_mult_imp_div_less)
  have lf: "length (block (a ^ 3) xs (c div a ^ 3)) = a ^ 3"
    using f km assms(3) mult_le_mono1 [of "Suc (c div a ^ 3)" "a ^ (k - 3)" "a ^ 3"]
    by (intro length_block) simp
  have "3 * lg \<le> k * lg" using assms(5) by (intro mult_le_mono1) simp
  then have lg3: "3 * lg < 64" using assms(2) by linarith
  have "spec_element h a (block (a ^ 3) xs (c div a ^ 3)) (c mod a ^ 3) l = spec_element h a xs c l"
    if "l < 3" for l
    using spec_element_block [of xs "a ^ (k - 3)" 3 c l] that assms(3,4) km by simp
  then have mp: "map (spec_element h a (block (a ^ 3) xs (c div a ^ 3)) (c mod a ^ 3)) [0..<3] =
      map (spec_element h a xs c) [0..<3]" by simp
  have lf': "block (a ^ 3) xs (c div a ^ 3) ! (c mod a ^ 3) = xs ! c"
    using nth_of_block [of xs "a ^ (k - 3)" 3 c] assms(3,4) km by simp
  show ?thesis
    using first_levels_ok [OF assms(1) lg3 assms(6) lf assms(7,8) _ assms(10,9)] assms(5)
    unfolding mp lf' by simp
qed

lemma start_size:
  assumes "a = 2 ^ lg" "m = 1 \<and> K = k \<or> m = a \<and> k = Suc K"
    "fl = None \<and> st = 0 \<or> fl \<noteq> None \<and> st = 3 \<and> d = (2 :: nat) \<and> 3 < K"
  shows "(if fl = None then 2 ^ (k * lg) div m else 2 ^ ((k - (d + 1)) * lg) div m) = a ^ (K - st)"
proof -
  have p: "2 ^ (n * lg) = a ^ n" for n using assms(1) by (simp add: power_mult mult.commute)
  have "a ^ Suc n div a = a ^ n" for n by simp
  moreover have "3 < K \<Longrightarrow> k = Suc K \<Longrightarrow> k - 3 = Suc (K - 3)" by simp
  ultimately show ?thesis using assms(2,3) unfolding p by (auto simp del: power_Suc)
qed

lemma gen_inclusion_ok:
  assumes "a = 2 ^ lg" "0 < lg" "k * lg < 64" "length xs = a ^ k" "c < a ^ k"
    and mK: "m = 1 \<and> K = k \<or> m = a \<and> k = Suc K" and K: "0 < K"
    and tp: "tree_bufs tp = map (\<lambda>f. stored_rows h a st K (block (a ^ K) xs f)) [0..<m]"
      "tp_arity tp = a" "tp_levels tp = k" "tp_path tp = []"
    and fl: "fl = None \<and> st = 0 \<or>
      fl = Some (block (a ^ 3) xs (c div a ^ 3)) \<and> st = 3 \<and> tp_discard_rows tp = 2 \<and> 3 < K"
  shows "\<exists>tp'. GenInclusionPath h c fl tp = Inr tp' \<and> tp_path tp' = spec_path h a k xs c \<and>
    tp_leaf tp' = Some (xs ! c) \<and> tp_root tp' = tp_root tp"
proof -
  let ?f = "c div a ^ K" and ?ys = "block (a ^ K) xs (c div a ^ K)"
  have km: "a ^ k = m * a ^ K" and Kk: "K \<le> k" and m0: "0 < m" using mK by auto
  have f: "?f < m" using assms(5) km by (simp add: less_mult_imp_div_less)
  have aK: "a ^ K = 2 ^ (K * lg)" "a ^ k = 2 ^ (k * lg)"
    using assms(1) by (simp_all add: power_mult [symmetric] mult.commute)
  have Klg: "K * lg < 64" using assms(3) mult_le_mono1 [OF Kk, of lg] by linarith
  have lg: "lg < 64" using K Klg by (cases K) auto
  have c64: "c < 2 ^ 64"
  proof -
    have "a ^ k \<le> 2 ^ 64" unfolding aK(2) using assms(3) by (intro power_increasing) simp_all
    with assms(5) show ?thesis by linarith
  qed
  have ly: "length ?ys = a ^ K"
    using f km assms(4) mult_le_mono1 [of "Suc ?f" m "a ^ K"] by (intro length_block) simp
  have nb: "length (tree_bufs tp) = m" using tp(1) by simp
  have st: "st \<le> K" using fl by auto
  define tp1 where "tp1 = (if fl = None then tp else
      tp\<lparr>tp_leaf := Some (xs ! c), tp_path := map (spec_element h a xs c) [0..<3]\<rparr>)"
  have t1: "tp_arity tp1 = a" "tp_path tp1 = map (spec_element h a xs c) [0..<st]"
    "tp_root tp1 = tp_root tp" "0 < st \<Longrightarrow> tp_leaf tp1 = Some (xs ! c)"
    using fl tp by (auto simp: tp1_def)
  have first: "(case fl of None \<Rightarrow> Inr (False, tp)
       | Some fl \<Rightarrow> PerformFirstLevels h c fl (GetTreePaths a k c) tp) = Inr (False, tp1)"
    using fl first_levels_part [OF assms(1,3-5) _ c64 tp(2-4)] Kk by (auto simp: tp1_def)
  have buf: "vec_get (tree_bufs tp) ?f = Inr (stored_rows h a st K ?ys)" using tp(1) f by simp
  have dr: "drop 0 (stored_rows h a st K ?ys) = concat (map (\<lambda>j. levels h a j ?ys) [st..<Suc K])"
    by (simp add: stored_rows_def)
  from gen_levels_ok [OF assms(1,2) lg c64 Klg ly refl Kk t1(1) _ dr, of "K - st"] st
  obtain add' tp2 where g: "gen_levels (K - st) st c (GetTreePaths a k c) (a ^ K - 1)
      (stored_rows h a st K ?ys) lg 0 (a ^ (K - st)) tp1 = Inr (add', tp2)"
    "drop add' (stored_rows h a st K ?ys) = [root h a K ?ys]"
    "tp_path tp2 = tp_path tp1 @ map (spec_element h a ?ys (c mod a ^ K)) [st..<K]"
    "tp_leaf tp2 = (if st = 0 \<and> 0 < K - st then Some (?ys ! (c mod a ^ K)) else tp_leaf tp1)"
    "tp_root tp2 = tp_root tp1" by auto
  have c': "c < m * a ^ K" "length xs = m * a ^ K" using assms(4,5) km by simp_all
  have path: "tp_path tp2 = map (spec_element h a xs c) [0..<K]"
  proof -
    have "map (spec_element h a ?ys (c mod a ^ K)) [st..<K] = map (spec_element h a xs c) [st..<K]"
      using spec_element_block [OF c'(2,1)] by simp
    moreover have "[0..<K] = [0..<st] @ [st..<K]" using st upt_add_eq_append [of 0 st "K - st"] by simp
    ultimately show ?thesis using g(3) t1(2) by simp
  qed
  have leaf: "tp_leaf tp2 = Some (xs ! c)"
    using g(4) t1(4) nth_of_block [OF c'(2,1)] K by auto
  have fin: "(if m = 1 then k else k - 1) - st = K - st"
    "(if fl = None then (0 :: nat) else 3) = st"
    using mK fl by auto
  have "fl = None \<and> st = 0 \<or> fl \<noteq> None \<and> st = 3 \<and> tp_discard_rows tp = 2 \<and> 3 < K" using fl by auto
  note sz = start_size [OF assms(1) mK this]
  have fm: "2 ^ (k * lg) div m = a ^ K" using km aK m0 by simp
  have lgs: "log2_floor a = lg" "log2_floor (a ^ K) = K * lg" "drop_bit (K * lg) c = ?f"
    using lg Klg aK(1) by (simp_all add: assms(1) log2_floor_pow2 drop_bit_eq_div power_mult [symmetric] mult.commute)
  have gi: "GenInclusionPath h c fl tp =
      (if m = 1 then Inr tp2
       else bind_result (vec_get (GetTreePaths a k c) (k - 1)) (\<lambda>leaf_idx.
            bind_result (sibling_hashes a leaf_idx (\<lambda>_ q.
                bind_result (vec_get (tree_bufs tp) q) (\<lambda>b. vec_get b add'))) (\<lambda>pe.
            Inr (tp2\<lparr>tp_path := tp_path tp2 @ [pe]\<rparr>))))"
    unfolding GenInclusionPath_def Let_def tp(2,3) nb first bind_result_simps prod.case if_False lgs(1)
      fin(2)
    unfolding fin(1) fm sz [unfolded fm] lgs(2,3) buf bind_result_simps g(1) prod.case ..
  show ?thesis
  proof (cases "m = 1")
    case True
    then have "K = k" using mK by auto
    with gi True path leaf g(5) t1(3) show ?thesis by (simp add: spec_path_def)
  next
    case False
    then have ma: "m = a" "k = Suc K" using mK by auto
    have len: "length (tree_bufs tp ! ?f) = Suc add'"
      using g(2) tp(1) f by (simp add: drop_eq_single)
    have "sibling_hashes a (?f mod a) (\<lambda>_ q. bind_result (vec_get (tree_bufs tp) q) (\<lambda>b. vec_get b add')) =
        Inr (spec_element h a xs c K)"
      using top_element [OF _ _ st tp(1) [unfolded ma(1)] _ len] assms(4,5) f ma by simp
    moreover have "vec_get (GetTreePaths a k c) (k - 1) = Inr (?f mod a)"
      using GetTreePaths_digits [OF lg, of k c] ma(2) by (simp add: assms(1) nth_append del: GetTreePaths.simps)
    ultimately have "GenInclusionPath h c fl tp = Inr (tp2\<lparr>tp_path := tp_path tp2 @ [spec_element h a xs c K]\<rparr>)"
      using gi False by simp
    with path leaf g(5) t1(3) ma(2) show ?thesis by (simp add: spec_path_def)
  qed
qed

end


section \<open>The trees of a sector\<close>

interpretation tree_rc: merkle_hash h GetNumTreeRCArity for h :: "'n list \<Rightarrow> 'n"
  by unfold_locales (simp add: GetNumTreeRCArity_def GetNumTreeRCLgArity_def)

interpretation tree_2: merkle_hash h GetNumTreeDArity for h :: "'n list \<Rightarrow> 'n"
  by unfold_locales (simp add: GetNumTreeDArity_def)

lemma RCArity_8: "GetNumTreeRCArity = 2 ^ 3"
  by (simp add: GetNumTreeRCArity_def GetNumTreeRCLgArity_def)

lemma tree_rc_shape:
  fixes s :: SectorSizeLg
  defines "sz \<equiv> 2 ^ sector_lg s"
  assumes "GetNumTreeRCLevels sz = Inr k"
  shows "GetNumLeaves sz = GetNumTreeRCArity ^ k" "k * 3 < 64" "1 < k"
    "GetNumTreeRCFiles sz = 1 \<or> GetNumTreeRCFiles sz = GetNumTreeRCArity"
  using assms(2) unfolding sz_def GetNumTreeRCLevels_def GetNumLeaves_sector
  by (cases s; simp add: sector_defs constant_defs log2_floor_pow2 [of 3, simplified]
        log2_floor_pow2 [of 6, simplified] log2_floor_pow2 [of 9, simplified]
        log2_floor_pow2 [of 18, simplified] log2_floor_pow2 [of 24, simplified]
        log2_floor_pow2 [of 30, simplified] assert_that_def; fail)+

lemma tree_rc_split:
  fixes s :: SectorSizeLg
  defines "sz \<equiv> 2 ^ sector_lg s"
  assumes "GetNumTreeRCLevels sz = Inr k" "GetNumLeaves sz div GetNumTreeRCFiles sz = GetNumTreeRCArity ^ K"
  shows "GetNumTreeRCFiles sz = 1 \<and> K = k \<or> GetNumTreeRCFiles sz = GetNumTreeRCArity \<and> k = Suc K"
proof -
  note sh = tree_rc_shape [OF assms(2) [unfolded sz_def], folded sz_def]
  have inj: "GetNumTreeRCArity ^ i = GetNumTreeRCArity ^ j \<Longrightarrow> i = j" for i j
    by (simp add: RCArity_8)
  from sh(4) show ?thesis
  proof
    assume "GetNumTreeRCFiles sz = 1"
    with assms(3) sh(1) inj [of k K] show ?thesis by simp
  next
    assume f: "GetNumTreeRCFiles sz = GetNumTreeRCArity"
    obtain j where j: "k = Suc j" using sh(3) by (cases k) auto
    with f assms(3) sh(1) inj [of j K] show ?thesis by simp
  qed
qed


lemma tree_rc_deep:
  fixes s :: SectorSizeLg
  defines "sz \<equiv> 2 ^ sector_lg s"
  assumes "GetNumTreeRCLevels sz = Inr k" "GetNumLeaves sz div GetNumTreeRCFiles sz = GetNumTreeRCArity ^ K"
    "GetNumTreeRDiscardRows sz = 2"
  shows "3 < K"
proof -
  have "(8 :: nat) ^ 3 < 8 ^ K"
    using assms(2-4) unfolding sz_def GetNumLeaves_sector GetNumTreeRCLevels_def
    by (cases s) (simp_all add: sector_defs constant_defs assert_that_def)
  then show ?thesis by (simp only: power_strict_increasing_iff one_less_numeral_iff semiring_norm)
qed

lemma tree_c_path:
  fixes s :: SectorSizeLg and hash :: "'n list \<Rightarrow> 'n"
  defines "sz \<equiv> 2 ^ sector_lg s"
  assumes "GetNumTreeRCLevels sz = Inr k"
    and "GetNumLeaves sz div GetNumTreeRCFiles sz = GetNumTreeRCArity ^ K"
    and "length xs = GetNumLeaves sz" "c < GetNumLeaves sz"
    and "bufs = map (\<lambda>f. stored_rows hash GetNumTreeRCArity 0 K (block (GetNumTreeRCArity ^ K) xs f))
           [0..<GetNumTreeRCFiles sz]"
  shows "\<exists>tp. GenInclusionPath hash c nullptr
      (SetRoot rt (TreeProof_new GetNumTreeRCArity k bufs 0)) = Inr tp \<and>
    tp_path tp = spec_path hash GetNumTreeRCArity k xs c \<and>
    tp_leaf tp = Some (xs ! c) \<and> tp_root tp = Some rt"
proof -
  note sh = tree_rc_shape [OF assms(2) [unfolded sz_def], folded sz_def]
  note sp = tree_rc_split [OF assms(2,3) [unfolded sz_def], folded sz_def]
  have K: "0 < K" using sp sh(3) by auto
  let ?tp = "SetRoot rt (TreeProof_new GetNumTreeRCArity k bufs 0)"
  have "\<exists>tp'. GenInclusionPath hash c nullptr ?tp = Inr tp' \<and>
      tp_path tp' = spec_path hash GetNumTreeRCArity k xs c \<and>
      tp_leaf tp' = Some (xs ! c) \<and> tp_root tp' = tp_root ?tp"
    by (rule tree_rc.gen_inclusion_ok [OF RCArity_8 _ sh(2) _ _ sp K, where st = 0])
      (use assms(4-6) sh in \<open>simp_all add: SetRoot_def TreeProof_new_def\<close>)
  then show ?thesis by (simp add: SetRoot_def TreeProof_new_def)
qed

lemma tree_r_path:
  fixes s :: SectorSizeLg and hash :: "'n list \<Rightarrow> 'n"
  defines "sz \<equiv> 2 ^ sector_lg s"
  assumes "GetNumTreeRCLevels sz = Inr k" "GetNumTreeRDiscardRows sz = 2"
    and "GetNumLeaves sz div GetNumTreeRCFiles sz = GetNumTreeRCArity ^ K"
    and "length xs = GetNumLeaves sz" "c < GetNumLeaves sz"
    and "bufs = map (\<lambda>f. stored_rows hash GetNumTreeRCArity 3 K (block (GetNumTreeRCArity ^ K) xs f))
           [0..<GetNumTreeRCFiles sz]"
  shows "\<exists>tp. GenInclusionPath hash c (Some (block (GetNumTreeRLabels sz) xs (c div GetNumTreeRLabels sz)))
      (SetRoot rt (TreeProof_new GetNumTreeRCArity k bufs (GetNumTreeRDiscardRows sz))) = Inr tp \<and>
    tp_path tp = spec_path hash GetNumTreeRCArity k xs c \<and>
    tp_leaf tp = Some (xs ! c) \<and> tp_root tp = Some rt"
proof -
  note sh = tree_rc_shape [OF assms(2) [unfolded sz_def], folded sz_def]
  note sp = tree_rc_split [OF assms(2,4) [unfolded sz_def], folded sz_def]
  have k4: "3 < K" using tree_rc_deep [OF assms(2,4,3) [unfolded sz_def]] .
  have lb: "GetNumTreeRLabels sz = GetNumTreeRCArity ^ 3"
    using assms(3) by (simp add: GetNumTreeRLabels_def)
  let ?tp = "SetRoot rt (TreeProof_new GetNumTreeRCArity k bufs (GetNumTreeRDiscardRows sz))"
  let ?fl = "Some (block (GetNumTreeRLabels sz) xs (c div GetNumTreeRLabels sz))"
  have "\<exists>tp'. GenInclusionPath hash c ?fl ?tp = Inr tp' \<and>
      tp_path tp' = spec_path hash GetNumTreeRCArity k xs c \<and>
      tp_leaf tp' = Some (xs ! c) \<and> tp_root tp' = tp_root ?tp"
    by (rule tree_rc.gen_inclusion_ok [OF RCArity_8 _ sh(2) _ _ sp, where st = 3])
      (use assms(3,5-7) sh k4 lb in \<open>simp_all add: SetRoot_def TreeProof_new_def\<close>)
  then show ?thesis by (simp add: SetRoot_def TreeProof_new_def)
qed

lemma tree_d_path:
  fixes s :: SectorSizeLg and hash :: "'n list \<Rightarrow> 'n"
  defines "sz \<equiv> 2 ^ sector_lg s"
  assumes "length xs = GetNumNodes sz" "c < GetNumNodes sz"
  shows "\<exists>tp. GenInclusionPath hash c nullptr
      (SetRoot rt (TreeProof_new GetNumTreeDArity (GetNumTreeDLevels sz)
        [stored_rows hash GetNumTreeDArity 0 (GetNumTreeDLevels sz) xs] 0)) = Inr tp \<and>
    tp_path tp = spec_path hash GetNumTreeDArity (GetNumTreeDLevels sz) xs c \<and>
    tp_leaf tp = Some (xs ! c) \<and> tp_root tp = Some rt"
proof -
  let ?k = "sector_lg s - 5" and ?a = GetNumTreeDArity
  have b: "5 \<le> sector_lg s" "0 < ?k" "?k < 64" using sector_lg_bounds [of s] by simp_all
  have N: "GetNumNodes sz = ?a ^ ?k"
    by (simp add: sz_def GetNumNodes_def GetNumLeaves_sector GetNumTreeDArity_def)
  have L: "GetNumTreeDLevels sz = ?k"
    using b(3) by (simp add: sz_def GetNumTreeDLevels_def GetNumLeaves_sector log2_floor_pow2)
  have bl: "block (?a ^ ?k) xs 0 = xs" using assms(2) N by (simp add: block_def)
  let ?tp = "SetRoot rt (TreeProof_new ?a ?k [stored_rows hash ?a 0 ?k xs] 0)"
  have "\<exists>tp'. GenInclusionPath hash c nullptr ?tp = Inr tp' \<and> tp_path tp' = spec_path hash ?a ?k xs c \<and>
      tp_leaf tp' = Some (xs ! c) \<and> tp_root tp' = tp_root ?tp"
    by (rule tree_2.gen_inclusion_ok [where lg = 1 and m = 1 and K = ?k and st = 0])
      (use assms(2,3) N b bl in \<open>simp_all add: GetNumTreeDArity_def SetRoot_def TreeProof_new_def\<close>)
  then show ?thesis unfolding L by (simp add: SetRoot_def TreeProof_new_def)
qed

section \<open>Properties\<close>

text \<open>
  C9: end to end for tree-D: a C1 inclusion proof generated from the file that
  \<open>TreeD::BuildTree\<close> wrote (with \<open>copy\<close>) never reads outside the file, has
  the challenged data node as its leaf, and recomputing the root along the path
  gives exactly the \<open>comm_d\<close> that \<open>BuildTree\<close> returned, for every sector size
  and every challenge.
\<close>
theorem tree_d_inclusion_verifies:
  fixes s :: SectorSizeLg and sha_block sha_emit
  defines "sz \<equiv> 2 ^ sector_lg s"
  defines "hash \<equiv> TreeD_HashNode sha_block sha_emit"
  assumes "length data_file = GetNumNodes sz" "c < GetNumNodes sz"
    and "TreeD_BuildTree hash sz True data_file fill = Some (Inr (comm_d, tree_d_buf))"
  shows "\<exists>tp. GenInclusionPath hash c nullptr
      (SetRoot comm_d (TreeProof_new GetNumTreeDArity (GetNumTreeDLevels sz) [tree_d_buf] 0)) = Inr tp \<and>
    tp_leaf tp = Some (data_file ! c) \<and> tp_root tp = Some comm_d \<and>
    length (tp_path tp) = GetNumTreeDLevels sz \<and>
    path_root hash (tp_path tp) (data_file ! c) = comm_d"
proof -
  let ?k = "sector_lg s - 5" and ?a = GetNumTreeDArity
  have b: "5 \<le> sector_lg s" "0 < ?k" "?k < 64" using sector_lg_bounds [of s] by simp_all
  have N: "GetNumNodes sz = 2 ^ ?k" by (simp add: sz_def GetNumNodes_def GetNumLeaves_sector)
  have L: "GetNumTreeDLevels sz = ?k"
    using b(3) by (simp add: sz_def GetNumTreeDLevels_def GetNumLeaves_sector log2_floor_pow2)
  have S: "sz = 2 ^ ?k * NODE_SIZE"
    using b(1) power_add [of "2 :: nat" ?k 5] by (simp add: sz_def NODE_SIZE_def NODE_SIZE_LG_def)
  have bt: "comm_d = root hash 2 ?k data_file" "tree_d_buf = data_file @ concat (rows hash 2 ?k data_file)"
    using TreeD_BuildTree_rows [OF S b(2), of data_file data_file sha_block sha_emit True fill]
      assms(3,5) N by (simp_all add: hash_def)
  have st: "tree_d_buf = stored_rows hash ?a 0 (GetNumTreeDLevels sz) data_file"
    unfolding bt stored_rows_def stored_rows_rows L by (simp add: GetNumTreeDArity_def)
  have "path_root hash (spec_path hash ?a ?k data_file c) (data_file ! c) = root hash ?a ?k data_file"
    using tree_2.spec_path_root [of data_file ?k c hash] assms(3,4) N by (simp add: GetNumTreeDArity_def)
  with tree_d_path [of data_file s c hash comm_d, folded sz_def] assms(3,4) L bt(1) st show ?thesis
    by (auto simp: spec_path_def GetNumTreeDArity_def)
qed

theorem tree_d_inclusion_verifies_witness:
  "let hash = TreeD_HashNode (\<lambda>d _. d) (\<lambda>d. d); xs = replicate 64 (replicate 8 0);
       buf = xs @ concat (rows hash 2 6 xs); comm_d = root hash 2 6 xs
   in \<exists>tp. GenInclusionPath hash 37 nullptr
      (SetRoot comm_d (TreeProof_new GetNumTreeDArity (GetNumTreeDLevels (2 ^ sector_lg Sector2KB)) [buf] 0)) = Inr tp \<and>
    tp_leaf tp = Some (replicate 8 0) \<and> path_root hash (tp_path tp) (replicate 8 0) = comm_d"
proof -
  have "TreeD_BuildTree (TreeD_HashNode (\<lambda>d _. d) (\<lambda>d. d)) (2 ^ sector_lg Sector2KB) True
      (replicate 64 (replicate 8 0)) [] =
    Some (Inr (root (TreeD_HashNode (\<lambda>d _. d) (\<lambda>d. d)) 2 6 (replicate 64 (replicate 8 0)),
      replicate 64 (replicate 8 0) @ concat (rows (TreeD_HashNode (\<lambda>d _. d) (\<lambda>d. d)) 2 6
        (replicate 64 (replicate 8 0)))))"
    using TreeD_BuildTree_rows [of "2 ^ 11" 6 "replicate 64 (replicate 8 0)" "replicate 64 (replicate 8 0)"
        "\<lambda>d _. d" "\<lambda>d. d" True "[]"] by (simp add: constant_defs del: replicate.simps rows.simps)
  from tree_d_inclusion_verifies [OF _ _ this, of 37] show ?thesis
    by (simp add: GetNumNodes_def GetNumLeaves_def constant_defs Let_def
        del: replicate.simps rows.simps) blast
qed

text \<open>
  C17: a C1 inclusion proof of tree-C, or of tree-R when no row is discarded,
  from the tree files of a sector (each file one sub-tree with its leaves)
  verifies: for every sector size that C1 supports (one file, or eight files
  joined by a top node), every hash function and every challenge, the reads stay inside
  the files, the leaf is the challenged node and the path leads to the root
  over all the files.
\<close>
theorem tree_c_inclusion_verifies:
  fixes s :: SectorSizeLg and hash :: "'n list \<Rightarrow> 'n"
  defines "sz \<equiv> 2 ^ sector_lg s"
  assumes "GetNumTreeRCLevels sz = Inr k"
    and "GetNumLeaves sz div GetNumTreeRCFiles sz = GetNumTreeRCArity ^ K"
    and "length xs = GetNumLeaves sz" "c < GetNumLeaves sz"
    and "bufs = map (\<lambda>f. stored_rows hash GetNumTreeRCArity 0 K (block (GetNumTreeRCArity ^ K) xs f))
           [0..<GetNumTreeRCFiles sz]"
  shows "\<exists>tp. GenInclusionPath hash c nullptr
      (SetRoot rt (TreeProof_new GetNumTreeRCArity k bufs 0)) = Inr tp \<and>
    tp_leaf tp = Some (xs ! c) \<and> tp_root tp = Some rt \<and> length (tp_path tp) = k \<and>
    path_root hash (tp_path tp) (xs ! c) = root hash GetNumTreeRCArity k xs"
proof -
  note sh = tree_rc_shape [OF assms(2) [unfolded sz_def], folded sz_def]
  obtain tp where "GenInclusionPath hash c nullptr (SetRoot rt (TreeProof_new GetNumTreeRCArity k bufs 0)) = Inr tp"
    "tp_path tp = spec_path hash GetNumTreeRCArity k xs c" "tp_leaf tp = Some (xs ! c)" "tp_root tp = Some rt"
    using tree_c_path [OF assms(2-6) [unfolded sz_def]] unfolding sz_def by blast
  with tree_rc.spec_path_root [of xs k c] assms(4,5) sh(1) show ?thesis by (auto simp: spec_path_def)
qed

theorem tree_c_inclusion_verifies_witness:
  "\<exists>tp. GenInclusionPath sum_list 37 nullptr (SetRoot 0 (TreeProof_new GetNumTreeRCArity 2
      [stored_rows sum_list GetNumTreeRCArity 0 2 [0..<64]] 0)) = Inr tp \<and>
    path_root sum_list (tp_path tp) 37 = root sum_list GetNumTreeRCArity 2 [0..<64]"
  using tree_c_inclusion_verifies [of Sector2KB 2 2 "[0..<64]" 37
      "[stored_rows sum_list GetNumTreeRCArity 0 2 [0..<64]]" sum_list 0]
  by (simp add: GetNumTreeRCLevels_def GetNumLeaves_sector block_def sector_defs constant_defs
      log2_floor_pow2 [of 3, simplified] log2_floor_pow2 [of 6, simplified] del: upt_rec_numeral) blast

text \<open>
  C16: a C1 inclusion proof of tree-R for the production sizes, whose two
  bottom rows of hashes are not stored: with the \<open>8 ^ 3\<close> replica nodes around the challenge as first level,
  the three lower path elements are rebuilt by hashing, the others are read
  from the files, which start at the third row; nothing is read outside the files,
  the scratch buffer for the rebuilt hashes is large enough, and the path leads
  from the challenged replica node to the root.
\<close>
theorem tree_r_inclusion_verifies:
  fixes s :: SectorSizeLg and hash :: "'n list \<Rightarrow> 'n"
  defines "sz \<equiv> 2 ^ sector_lg s"
  assumes "GetNumTreeRCLevels sz = Inr k" "GetNumTreeRDiscardRows sz = 2"
    and "GetNumLeaves sz div GetNumTreeRCFiles sz = GetNumTreeRCArity ^ K"
    and "length xs = GetNumLeaves sz" "c < GetNumLeaves sz"
    and "bufs = map (\<lambda>f. stored_rows hash GetNumTreeRCArity 3 K (block (GetNumTreeRCArity ^ K) xs f))
           [0..<GetNumTreeRCFiles sz]"
  shows "\<exists>tp. GenInclusionPath hash c (Some (block (GetNumTreeRLabels sz) xs (c div GetNumTreeRLabels sz)))
      (SetRoot rt (TreeProof_new GetNumTreeRCArity k bufs (GetNumTreeRDiscardRows sz))) = Inr tp \<and>
    tp_leaf tp = Some (xs ! c) \<and> tp_root tp = Some rt \<and> length (tp_path tp) = k \<and>
    path_root hash (tp_path tp) (xs ! c) = root hash GetNumTreeRCArity k xs"
proof -
  note sh = tree_rc_shape [OF assms(2) [unfolded sz_def], folded sz_def]
  obtain tp where "GenInclusionPath hash c (Some (block (GetNumTreeRLabels sz) xs (c div GetNumTreeRLabels sz)))
      (SetRoot rt (TreeProof_new GetNumTreeRCArity k bufs (GetNumTreeRDiscardRows sz))) = Inr tp"
    "tp_path tp = spec_path hash GetNumTreeRCArity k xs c" "tp_leaf tp = Some (xs ! c)" "tp_root tp = Some rt"
    using tree_r_path [OF assms(2-7) [unfolded sz_def]] unfolding sz_def by blast
  with tree_rc.spec_path_root [of xs k c] assms(5,6) sh(1) show ?thesis by (auto simp: spec_path_def)
qed

theorem tree_r_inclusion_verifies_witness:
  "let xs = replicate (2 ^ 18) (7 :: nat) in
   \<exists>tp. GenInclusionPath sum_list 1000 (Some (block 512 xs 1)) (SetRoot 0 (TreeProof_new GetNumTreeRCArity 6
      [stored_rows sum_list GetNumTreeRCArity 3 6 xs] 2)) = Inr tp \<and>
    path_root sum_list (tp_path tp) 7 = root sum_list GetNumTreeRCArity 6 xs"
  using tree_r_inclusion_verifies [of Sector8MB 6 6 "replicate (2 ^ 18) 7" 1000
      "[stored_rows sum_list GetNumTreeRCArity 3 6 (replicate (2 ^ 18) 7)]" sum_list 0]
  by (simp add: GetNumTreeRCLevels_def GetNumLeaves_sector block_def sector_defs constant_defs Let_def
      log2_floor_pow2 [of 3, simplified] log2_floor_pow2 [of 18, simplified]
      del: upt_rec_numeral replicate.simps) blast

end
