(* ===== verification/Proof_Writer.thy ===== *)
theory Proof_Writer
  imports Tree_Proof
begin

text \<open>
  Serialisation of the C1 proofs: \<open>PathElement::Write\<close>
  (\<open>src/c1/path_element.hpp\<close>), \<open>TreeProof::WriteProof\<close>/\<open>ProofSize\<close>
  (\<open>src/c1/tree_proof.hpp\<close>), \<open>ColumnProof\<close> (\<open>src/c1/column_proof.hpp\<close>)
  and \<open>LabelProof\<close> (\<open>src/c1/label_proof.hpp\<close>).

  The output file is a mapped byte array together with the write position
  \<open>buf_index\<close>; \<open>put\<close> is a \<open>memcpy\<close> to the position followed by the
  advance of the position, and fails outside the mapping.  Integers are little
  endian.  The central notion of the proofs is \<open>emits w n bs\<close>: the writer
  \<open>w\<close> does the same as one copy of the byte string \<open>bs\<close> of length \<open>n\<close>.
\<close>

type_synonym bytes = "8 word list"

type_synonym out = "bytes \<times> nat"

definition put :: "bytes \<Rightarrow> out \<Rightarrow> out result" where
  "put bs o1 =
     (let (file_ptr, buf_index) = o1 in
      if buf_index + length bs \<le> length file_ptr
      then Inr (overlay buf_index bs file_ptr, buf_index + length bs)
      else Inl OutOfBounds)"

definition le_bytes :: "nat \<Rightarrow> nat \<Rightarrow> bytes" where
  "le_bytes n x = map (\<lambda>i. of_nat (x div 256 ^ i)) [0..<n]"

definition put_u32 :: "nat \<Rightarrow> out \<Rightarrow> out result" where
  "put_u32 x = put (le_bytes 4 x)"

definition put_u64 :: "nat \<Rightarrow> out \<Rightarrow> out result" where
  "put_u64 x = put (le_bytes 8 x)"

definition node_image :: "node_t \<Rightarrow> bytes" where
  "node_image n = concat (map (\<lambda>i. limb_bytes (if i < length n then n ! i else 0)) [0..<NODE_WORDS])"

definition deref :: "'a ptr \<Rightarrow> 'a result" where
  "deref p = (case p of None \<Rightarrow> Inl NullDeref | Some x \<Rightarrow> Inr x)"

definition put_node :: "node_t ptr \<Rightarrow> out \<Rightarrow> out result" where
  "put_node p o1 = bind_result (deref p) (\<lambda>n. put (node_image n) o1)"

definition PathElement_Write :: "node_t PathElement \<Rightarrow> out \<Rightarrow> out result" where
  "PathElement_Write pe o1 =
     (let len = size_sub (pe_arity pe) 1 in
      bind_result (put_u64 len o1) (\<lambda>o2.
      bind_result (fold_result (\<lambda>i o3. bind_result (vec_get (pe_hashes pe) i) (\<lambda>p. put_node p o3)) [0..<len] o2)
        (put_u64 (pe_index pe))))"

definition TreeProof_ProofSize :: "nat \<Rightarrow> nat \<Rightarrow> nat \<Rightarrow> nat" where
  "TreeProof_ProofSize a lv proof_type =
     4 + NODE_SIZE + NODE_SIZE + 8 + (NODE_SIZE * (a - 1) + 8 + 8) * lv + (if proof_type = 1 then 8 else 0)"

definition write_paths :: "nat \<Rightarrow> node_t TreeProof \<Rightarrow> out \<Rightarrow> out result" where
  "write_paths n tp = fold_result (\<lambda>i o1. bind_result (vec_get (tp_path tp) i) (\<lambda>pe. PathElement_Write pe o1)) [0..<n]"

definition TreeProof_WriteProof :: "nat \<Rightarrow> node_t TreeProof \<Rightarrow> out \<Rightarrow> out result" where
  "TreeProof_WriteProof proof_type tp o1 =
     bind_result (put_u32 proof_type o1) (\<lambda>o2.
     if proof_type = 0 then
       bind_result (put_node (tp_root tp) o2) (\<lambda>o3.
       bind_result (put_node (tp_leaf tp) o3) (\<lambda>o4.
       bind_result (put_u64 (tp_levels tp) o4) (write_paths (tp_levels tp) tp)))
     else if proof_type = 1 then
       let base_proof_vec_len = size_sub (tp_levels tp) 1 in
       bind_result (put_u64 base_proof_vec_len o2) (\<lambda>o3.
       bind_result (write_paths base_proof_vec_len tp o3) (\<lambda>o4.
       bind_result (put_u64 1 o4) (\<lambda>o5.
       bind_result (bind_result (vec_get (tp_path tp) base_proof_vec_len) (\<lambda>pe. PathElement_Write pe o5)) (\<lambda>o6.
       bind_result (put_node (tp_root tp) o6) (put_node (tp_leaf tp))))))
     else Inr o2)"

record ColumnProof =
  cp_challenge :: nat
  cp_layers :: nat
  cp_labels :: "node_t list"
  cp_label_idx :: nat
  cp_label_inc :: nat
  cp_tree :: "node_t TreeProof"

definition ColumnProof_new :: "(nat \<Rightarrow> node_t list \<Rightarrow> node_t) \<Rightarrow> nat \<Rightarrow> nat \<Rightarrow> node_t list \<Rightarrow> nat \<Rightarrow> nat \<Rightarrow>
    node_t list list \<Rightarrow> node_t \<Rightarrow> ColumnProof result" where
  "ColumnProof_new hash sz challenge labels label_idx label_inc bufs rt =
     bind_result (GetNumTreeRCLevels sz) (\<lambda>lv.
     bind_result (GenInclusionPath (hash GetNumTreeRCArity) challenge nullptr
         (SetRoot rt (TreeProof_new GetNumTreeRCArity lv bufs 0))) (\<lambda>tree.
     Inr \<lparr>cp_challenge = challenge, cp_layers = GetNumLayers sz, cp_labels = labels,
          cp_label_idx = label_idx, cp_label_inc = label_inc, cp_tree = tree\<rparr>))"

definition ColumnProof_ProofSize :: "nat \<Rightarrow> nat result" where
  "ColumnProof_ProofSize sz =
     bind_result (GetNumTreeRCLevels sz) (\<lambda>lv.
     Inr (4 + 8 + NODE_SIZE * GetNumLayers sz +
          TreeProof_ProofSize GetNumTreeRCArity lv (GetNumTreeRCConfig sz)))"

definition put_label :: "node_t list \<Rightarrow> nat \<Rightarrow> out \<Rightarrow> out result" where
  "put_label labels i o1 = bind_result (vec_get labels i) (\<lambda>n. put_node (Some n) o1)"

definition ColumnProof_WriteProof :: "nat \<Rightarrow> ColumnProof \<Rightarrow> out \<Rightarrow> out result" where
  "ColumnProof_WriteProof proof_type cp o1 =
     bind_result (put_u32 (cp_challenge cp mod 2 ^ 32) o1) (\<lambda>o2.
     bind_result (put_u64 (cp_layers cp) o2) (\<lambda>o3.
     bind_result (fold_result (\<lambda>l. put_label (cp_labels cp) (cp_label_idx cp + l * cp_label_inc cp))
         [0..<cp_layers cp] o3)
       (TreeProof_WriteProof proof_type (cp_tree cp))))"

record LabelProof =
  lp_challenge :: nat
  lp_layers :: nat
  lp_labels :: "node_t list"
  lp_label_inc :: nat

definition LabelProof_new :: "nat \<Rightarrow> nat \<Rightarrow> node_t list \<Rightarrow> nat \<Rightarrow> LabelProof" where
  "LabelProof_new challenge lay labels inc =
     \<lparr>lp_challenge = challenge, lp_layers = lay, lp_labels = labels, lp_label_inc = inc\<rparr>"

definition LabelProof_ProofSize :: "nat \<Rightarrow> bool \<Rightarrow> nat" where
  "LabelProof_ProofSize layers0 enc =
     (let first = (enc = False \<or> layers0 = 1);
          size1 = 8 + (if first then
              (if enc = False then layers0 * 8 else 0) +
              NODE_SIZE * LAYER_ONE_REPEAT_SEQ * PARENT_COUNT_BASE + NODE_SIZE * LAYER_ONE_FINAL_SEQ + 4 + 8
            else 0);
          layers1 = (if first then layers0 - 1 else layers0);
          layers2 = (if enc = True \<and> layers1 > 1 then 1 else layers1)
      in size1 + layers2 * NODE_SIZE * LAYER_N_REPEAT_SEQ * PARENT_COUNT_BASE +
         layers2 * NODE_SIZE * LAYER_N_REPEAT_SEQ * PARENT_COUNT_EXP +
         layers2 * NODE_SIZE * LAYER_N_FINAL_SEQ + layers2 * 4 + layers2 * 8)"

definition label_offsets :: "nat \<Rightarrow> nat \<Rightarrow> nat list" where
  "label_offsets inc l =
     (if l = 1 then
        concat (map (\<lambda>k. map (\<lambda>c. c + 1 + (l - 1) * inc) [0..<PARENT_COUNT_BASE]) [0..<LAYER_ONE_REPEAT_SEQ]) @
        map (\<lambda>c. c + 1 + (l - 1) * inc) [0..<LAYER_ONE_FINAL_SEQ]
      else
        concat (map (\<lambda>k. map (\<lambda>c. c + 1 + (l - 1) * inc) [0..<PARENT_COUNT_BASE] @
            map (\<lambda>c. c + 1 + PARENT_COUNT_BASE + (l - 2) * inc) [0..<PARENT_COUNT_EXP]) [0..<LAYER_N_REPEAT_SEQ]) @
        map (\<lambda>c. if c < PARENT_COUNT_BASE then c + 1 + (l - 1) * inc else c + 1 + (l - 2) * inc)
          [0..<LAYER_N_FINAL_SEQ])"

definition write_label_layer :: "LabelProof \<Rightarrow> nat \<Rightarrow> out \<Rightarrow> out result" where
  "write_label_layer lp l o1 =
     bind_result (put_u64 LABEL_PARENTS o1) (\<lambda>o2.
     bind_result (fold_result (put_label (lp_labels lp)) (label_offsets (lp_label_inc lp) l) o2) (\<lambda>o3.
     bind_result (put_u32 l o3) (put_u64 (lp_challenge lp))))"

definition LabelProof_WriteProof :: "LabelProof \<Rightarrow> bool \<Rightarrow> out \<Rightarrow> out result" where
  "LabelProof_WriteProof lp enc o1 =
     (let l = (if enc then lp_layers lp mod 2 ^ 32 else 1) in
      bind_result (if enc then Inr o1 else put_u64 (lp_layers lp) o1)
        (fold_result (write_label_layer lp) [l..<Suc (lp_layers lp)]))"


section \<open>Writers as byte strings\<close>

lemma put_Nil [simp]: "snd o1 \<le> length (fst o1) \<Longrightarrow> put [] o1 = Inr o1"
  by (cases o1) (simp add: put_def)

lemma put_append: "put (xs @ ys) o1 = bind_result (put xs o1) (put ys)"
  by (cases o1) (simp add: put_def overlay_append add.assoc)

definition emits :: "(out \<Rightarrow> out result) \<Rightarrow> nat \<Rightarrow> bytes \<Rightarrow> bool" where
  "emits w n bs \<longleftrightarrow> length bs = n \<and> (\<forall>o1. snd o1 \<le> length (fst o1) \<longrightarrow> w o1 = put bs o1)"

lemma put_inside: "put bs o1 = Inr o2 \<Longrightarrow> snd o2 \<le> length (fst o2)"
  by (cases o1) (auto simp: put_def split: if_splits)

lemma emits_put: "emits (put bs) (length bs) bs"
  by (simp add: emits_def)

lemma emits_bind:
  assumes "emits w1 n1 b1" "emits w2 n2 b2"
  shows "emits (\<lambda>o1. bind_result (w1 o1) w2) (n1 + n2) (b1 @ b2)"
  unfolding emits_def
proof (intro conjI allI impI)
  show "length (b1 @ b2) = n1 + n2" using assms by (simp add: emits_def)
  fix o1 :: out
  assume o: "snd o1 \<le> length (fst o1)"
  then have "bind_result (w1 o1) w2 = bind_result (put b1 o1) w2" using assms(1) by (cases o1) (simp add: emits_def)
  also have "\<dots> = bind_result (put b1 o1) (put b2)"
  proof (cases "put b1 o1")
    case (Inr o2)
    with put_inside assms(2) have "w2 o2 = put b2 o2" by (simp add: emits_def del: split_paired_All)
    with Inr show ?thesis by simp
  qed simp
  finally show "bind_result (w1 o1) w2 = put (b1 @ b2) o1" by (simp add: put_append)
qed

lemma emits_skip: "emits Inr 0 []"
  by (simp add: emits_def)

lemma emits_fold:
  assumes "\<And>i. i \<in> set is1 \<Longrightarrow> emits (w i) n (b i)"
  shows "emits (fold_result w is1) (length is1 * n) (concat (map b is1))"
  using assms
proof (induction is1)
  case Nil
  have "fold_result w [] = Inr" by (rule ext) simp
  then show ?case using emits_skip by simp
next
  case (Cons i is1)
  have "fold_result w (i # is1) = (\<lambda>o1. bind_result (w i o1) (fold_result w is1))" by (rule ext) simp
  with emits_bind [of "w i" n "b i" "fold_result w is1"] Cons show ?case by simp
qed

lemma length_limb_bytes [simp]: "length (limb_bytes w) = 4"
  by (simp add: limb_bytes_def)

lemma length_node_image [simp]: "length (node_image n) = NODE_SIZE"
  by (simp add: node_image_def length_concat comp_def sum_list_triv constant_defs)

lemma node_image_bytes: "length n = NODE_WORDS \<Longrightarrow> node_image n = node_bytes n"
proof -
  assume l: "length n = NODE_WORDS"
  have "map (\<lambda>i. limb_bytes (if i < length n then n ! i else 0)) [0..<length n] = map limb_bytes n"
    by (rule nth_equalityI) simp_all
  then show ?thesis using l by (simp add: node_image_def node_bytes_def)
qed

lemma emits_u32: "emits (put_u32 x) 4 (le_bytes 4 x)"
  and emits_u64: "emits (put_u64 x) 8 (le_bytes 8 x)"
  using emits_put [of "le_bytes 4 x"] emits_put [of "le_bytes 8 x"]
  by (simp_all add: put_u32_def put_u64_def le_bytes_def)

lemma emits_node: "emits (put_node (Some n)) NODE_SIZE (node_image n)"
  using emits_put [of "node_image n"] by (simp add: put_node_def deref_def emits_def)

lemma emits_label: "i < length labels \<Longrightarrow> emits (put_label labels i) NODE_SIZE (node_image (labels ! i))"
  using emits_node [of "labels ! i"] by (simp add: put_label_def emits_def)

lemma emits_vec:
  "i < length xs \<Longrightarrow> emits (f (xs ! i)) n b \<Longrightarrow> emits (\<lambda>o1. bind_result (vec_get xs i) (\<lambda>x. f x o1)) n b"
  by (simp add: emits_def)

lemma emits_cong: "emits w n b \<Longrightarrow> n = n' \<Longrightarrow> b = b' \<Longrightarrow> emits w n' b'"
  by simp


section \<open>The proofs as byte strings\<close>

definition pe_ok :: "nat \<Rightarrow> 'n PathElement \<Rightarrow> bool" where
  "pe_ok a pe \<longleftrightarrow> pe_arity pe = a \<and> length (pe_hashes pe) = a - 1 \<and> None \<notin> set (pe_hashes pe)"

definition tp_ok :: "nat \<Rightarrow> nat \<Rightarrow> 'n TreeProof \<Rightarrow> bool" where
  "tp_ok a lv tp \<longleftrightarrow> tp_levels tp = lv \<and> length (tp_path tp) = lv \<and> (\<forall>pe \<in> set (tp_path tp). pe_ok a pe) \<and>
     tp_root tp \<noteq> None \<and> tp_leaf tp \<noteq> None"

definition pe_bytes :: "node_t PathElement \<Rightarrow> bytes" where
  "pe_bytes pe = le_bytes 8 (pe_arity pe - 1) @
     concat (map (\<lambda>i. node_image (the (pe_hashes pe ! i))) [0..<pe_arity pe - 1]) @ le_bytes 8 (pe_index pe)"

definition tree_proof_bytes :: "nat \<Rightarrow> node_t TreeProof \<Rightarrow> bytes" where
  "tree_proof_bytes proof_type tp =
     (let lv = tp_levels tp; pb = (\<lambda>i. pe_bytes (tp_path tp ! i));
          rl = node_image (the (tp_root tp)) @ node_image (the (tp_leaf tp)) in
      le_bytes 4 proof_type @
      (if proof_type = 0 then rl @ le_bytes 8 lv @ concat (map pb [0..<lv])
       else le_bytes 8 (lv - 1) @ concat (map pb [0..<lv - 1]) @ le_bytes 8 1 @ pb (lv - 1) @ rl))"

lemma emits_PathElement:
  assumes "pe_ok a pe" "0 < a" "a < SIZE_MOD"
  shows "emits (PathElement_Write pe) (NODE_SIZE * (a - 1) + 8 + 8) (pe_bytes pe)"
proof -
  have len: "size_sub (pe_arity pe) 1 = a - 1" using assms by (simp add: pe_ok_def)
  have "emits (\<lambda>o1. bind_result (vec_get (pe_hashes pe) i) (\<lambda>p. put_node p o1)) NODE_SIZE
      (node_image (the (pe_hashes pe ! i)))" if "i < a - 1" for i
  proof -
    have l: "i < length (pe_hashes pe)" using that assms(1) by (simp add: pe_ok_def)
    then obtain n where "pe_hashes pe ! i = Some n"
      using assms(1) nth_mem [OF l] by (cases "pe_hashes pe ! i") (auto simp: pe_ok_def)
    with emits_vec [OF l, of put_node, OF emits_node [of n, folded this]] show ?thesis
      by (simp add: emits_def)
  qed
  from emits_fold [of "[0..<a - 1]", OF this]
  have "emits (fold_result (\<lambda>i o1. bind_result (vec_get (pe_hashes pe) i) (\<lambda>p. put_node p o1)) [0..<a - 1])
      (length [0..<a - 1] * NODE_SIZE) (concat (map (\<lambda>i. node_image (the (pe_hashes pe ! i))) [0..<a - 1]))"
    by simp
  from emits_bind [OF emits_u64 emits_bind [OF this emits_u64 [of "pe_index pe"]], of "a - 1"]
  show ?thesis
    unfolding PathElement_Write_def Let_def len
    by (rule emits_cong) (use assms(1) in \<open>simp_all add: pe_bytes_def pe_ok_def\<close>)
qed

lemma emits_path:
  assumes "tp_ok a lv tp" "0 < a" "a < SIZE_MOD" "i < lv"
  shows "emits (\<lambda>o1. bind_result (vec_get (tp_path tp) i) (\<lambda>pe. PathElement_Write pe o1))
    (NODE_SIZE * (a - 1) + 8 + 8) (pe_bytes (tp_path tp ! i))"
  using assms by (intro emits_vec emits_PathElement) (simp_all add: tp_ok_def)

lemma emits_write_paths:
  assumes "tp_ok a lv tp" "0 < a" "a < SIZE_MOD" "n \<le> lv"
  shows "emits (write_paths n tp) (n * (NODE_SIZE * (a - 1) + 8 + 8))
    (concat (map (\<lambda>i. pe_bytes (tp_path tp ! i)) [0..<n]))"
proof -
  have "emits (\<lambda>o1. bind_result (vec_get (tp_path tp) i) (\<lambda>pe. PathElement_Write pe o1))
      (NODE_SIZE * (a - 1) + 8 + 8) (pe_bytes (tp_path tp ! i))" if "i \<in> set [0..<n]" for i
    using that assms(4) by (intro emits_path [OF assms(1-3)]) simp
  from emits_fold [of "[0..<n]", OF this] show ?thesis unfolding write_paths_def by simp
qed

lemma emits_TreeProof:
  assumes "tp_ok a lv tp" "0 < a" "a < SIZE_MOD" "0 < lv" "lv < SIZE_MOD" "ty = 0 \<or> ty = 1"
  shows "emits (TreeProof_WriteProof ty tp) (TreeProof_ProofSize a lv ty) (tree_proof_bytes ty tp)"
proof -
  obtain r f where rf: "tp_root tp = Some r" "tp_leaf tp = Some f" using assms(1) by (auto simp: tp_ok_def)
  have lv: "tp_levels tp = lv" "size_sub lv (Suc 0) = lv - 1" using assms(1,4,5) by (auto simp: tp_ok_def)
  note paths = emits_write_paths [OF assms(1-3)]
  show ?thesis
  proof (cases "ty = 0")
    case True
    note e = emits_bind [OF emits_u32 emits_bind [OF emits_node emits_bind [OF emits_node
        emits_bind [OF emits_u64 paths [OF order_refl]]]], of 0 r f lv]
    have "TreeProof_WriteProof ty tp = (\<lambda>o1. bind_result (put_u32 0 o1) (\<lambda>o1. bind_result (put_node (Some r) o1)
        (\<lambda>o1. bind_result (put_node (Some f) o1) (\<lambda>o1. bind_result (put_u64 lv o1) (write_paths lv tp)))))"
      by (rule ext) (simp add: TreeProof_WriteProof_def True rf lv)
    with e show ?thesis
      by (simp add: True)
        (erule emits_cong, simp_all add: TreeProof_ProofSize_def tree_proof_bytes_def rf lv Let_def)
  next
    case False
    then have ty: "ty = 1" using assms(6) by simp
    have l: "lv - 1 < lv" using assms(4) by simp
    note e = emits_bind [OF emits_u32 emits_bind [OF emits_u64 emits_bind [OF paths [of "lv - 1"]
        emits_bind [OF emits_u64 emits_bind [OF emits_path [OF assms(1-3) l]
        emits_bind [OF emits_node emits_node]]]]], of 1 "lv - 1" 1 r f]
    have "TreeProof_WriteProof ty tp = (\<lambda>o1. bind_result (put_u32 1 o1) (\<lambda>o1. bind_result (put_u64 (lv - 1) o1)
        (\<lambda>o1. bind_result (write_paths (lv - 1) tp o1) (\<lambda>o1. bind_result (put_u64 1 o1) (\<lambda>o1.
        bind_result (bind_result (vec_get (tp_path tp) (lv - 1)) (\<lambda>pe. PathElement_Write pe o1))
        (\<lambda>o1. bind_result (put_node (Some r) o1) (put_node (Some f))))))))"
      by (rule ext) (simp add: TreeProof_WriteProof_def Let_def ty rf lv)
    moreover have "lv = Suc (lv - 1)" using assms(4) by simp
    then have "(NODE_SIZE * (a - 1) + 8 + 8) * lv =
        (lv - 1) * (NODE_SIZE * (a - 1) + 8 + 8) + (NODE_SIZE * (a - 1) + 8 + 8)"
      by (metis add.commute mult.commute mult_Suc_right)
    ultimately show ?thesis
      using e l by (simp add: ty)
        (erule emits_cong, simp_all add: TreeProof_ProofSize_def tree_proof_bytes_def rf lv Let_def)
  qed
qed

lemma fold_result_emits:
  assumes "\<forall>i \<in> set is1. i < length labels"
  shows "emits (fold_result (put_label labels) is1) (length is1 * NODE_SIZE)
    (concat (map (\<lambda>i. node_image (labels ! i)) is1))"
  using assms by (intro emits_fold emits_label) simp

definition column_proof_bytes :: "nat \<Rightarrow> ColumnProof \<Rightarrow> bytes" where
  "column_proof_bytes proof_type cp =
     le_bytes 4 (cp_challenge cp mod 2 ^ 32) @ le_bytes 8 (cp_layers cp) @
     concat (map (\<lambda>l. node_image (cp_labels cp ! (cp_label_idx cp + l * cp_label_inc cp))) [0..<cp_layers cp]) @
     tree_proof_bytes proof_type (cp_tree cp)"

lemma emits_ColumnProof:
  assumes "emits (TreeProof_WriteProof ty (cp_tree cp)) n (tree_proof_bytes ty (cp_tree cp))"
    "\<forall>l < cp_layers cp. cp_label_idx cp + l * cp_label_inc cp < length (cp_labels cp)"
  shows "emits (ColumnProof_WriteProof ty cp) (4 + 8 + NODE_SIZE * cp_layers cp + n)
    (column_proof_bytes ty cp)"
proof -
  have "emits (fold_result (\<lambda>l. put_label (cp_labels cp) (cp_label_idx cp + l * cp_label_inc cp)) [0..<cp_layers cp])
      (length [0..<cp_layers cp] * NODE_SIZE)
      (concat (map (\<lambda>l. node_image (cp_labels cp ! (cp_label_idx cp + l * cp_label_inc cp))) [0..<cp_layers cp]))"
    using assms(2) by (intro emits_fold emits_label) simp
  from emits_bind [OF emits_u32 emits_bind [OF emits_u64 emits_bind [OF this assms(1)]]]
  show ?thesis
    unfolding ColumnProof_WriteProof_def by (rule emits_cong) (simp_all add: column_proof_bytes_def)
qed

definition label_layer_bytes :: "LabelProof \<Rightarrow> nat \<Rightarrow> bytes" where
  "label_layer_bytes lp l =
     le_bytes 8 LABEL_PARENTS @
     concat (map (\<lambda>i. node_image (lp_labels lp ! i)) (label_offsets (lp_label_inc lp) l)) @
     le_bytes 4 l @ le_bytes 8 (lp_challenge lp)"

definition label_proof_bytes :: "LabelProof \<Rightarrow> bool \<Rightarrow> bytes" where
  "label_proof_bytes lp enc =
     (if enc then label_layer_bytes lp (lp_layers lp)
      else le_bytes 8 (lp_layers lp) @ concat (map (label_layer_bytes lp) [1..<Suc (lp_layers lp)]))"

lemma length_label_offsets: "length (label_offsets inc l) = LABEL_PARENTS"
  by (simp add: label_offsets_def length_concat comp_def sum_list_triv constant_defs)

lemma label_offsets_bound:
  assumes "1 \<le> l" "l \<le> n" "PARENT_COUNT < inc" "i \<in> set (label_offsets inc l)"
  shows "i < n * inc"
proof -
  obtain A B where AB: "(l - 2) * inc = A" "(l - 1) * inc = B" by blast
  moreover have "(l - 2) * inc \<le> (l - 1) * inc" by (intro mult_le_mono1) simp
  ultimately have le: "A \<le> B" by simp
  have "i < inc + B"
    using assms(4) assms(3) le unfolding label_offsets_def AB
    by (auto simp: constant_defs split: if_splits)
  also have "\<dots> = l * inc" using assms(1) AB(2) by (cases l) simp_all
  also have "\<dots> \<le> n * inc" using assms(2) by (intro mult_le_mono1)
  finally show ?thesis .
qed

lemma emits_label_layer:
  assumes "1 \<le> l" "l \<le> lp_layers lp" "PARENT_COUNT < lp_label_inc lp"
    "length (lp_labels lp) = lp_layers lp * lp_label_inc lp"
  shows "emits (write_label_layer lp l) (8 + LABEL_PARENTS * NODE_SIZE + 4 + 8) (label_layer_bytes lp l)"
proof -
  have "emits (fold_result (put_label (lp_labels lp)) (label_offsets (lp_label_inc lp) l))
      (length (label_offsets (lp_label_inc lp) l) * NODE_SIZE)
      (concat (map (\<lambda>i. node_image (lp_labels lp ! i)) (label_offsets (lp_label_inc lp) l)))"
    using label_offsets_bound [OF assms(1-3)] assms(4) by (intro fold_result_emits) simp
  from emits_bind [OF emits_u64 emits_bind [OF this emits_bind [OF emits_u32 emits_u64]]]
  show ?thesis
    unfolding write_label_layer_def
    by (rule emits_cong) (simp_all add: length_label_offsets label_layer_bytes_def)
qed

lemma LabelProof_sizes:
  assumes "0 < n"
  shows "LabelProof_ProofSize n False = 8 + n * (8 + LABEL_PARENTS * NODE_SIZE + 4 + 8)"
    "LabelProof_ProofSize n True = 8 + LABEL_PARENTS * NODE_SIZE + 4 + 8"
proof -
  obtain m where n: "n = Suc m" using assms by (cases n) simp_all
  show "LabelProof_ProofSize n False = 8 + n * (8 + LABEL_PARENTS * NODE_SIZE + 4 + 8)"
    unfolding LabelProof_ProofSize_def Let_def n by (simp add: constant_defs)
  show "LabelProof_ProofSize n True = 8 + LABEL_PARENTS * NODE_SIZE + 4 + 8"
    unfolding LabelProof_ProofSize_def Let_def n by (cases m) (simp_all add: constant_defs)
qed

lemma emits_LabelProof:
  assumes "0 < lp_layers lp" "lp_layers lp < 2 ^ 32" "PARENT_COUNT < lp_label_inc lp"
    "length (lp_labels lp) = lp_layers lp * lp_label_inc lp"
  shows "emits (LabelProof_WriteProof lp enc) (LabelProof_ProofSize (lp_layers lp) enc) (label_proof_bytes lp enc)"
proof (cases enc)
  case True
  have e: "emits (write_label_layer lp (lp_layers lp)) (8 + LABEL_PARENTS * NODE_SIZE + 4 + 8)
      (label_layer_bytes lp (lp_layers lp))"
    using assms by (intro emits_label_layer) simp_all
  have "fold_result (write_label_layer lp) [n] o1 = write_label_layer lp n o1" for n o1
    by (cases "write_label_layer lp n o1") simp_all
  moreover have "lp_layers lp mod 2 ^ 32 = lp_layers lp" "[lp_layers lp..<Suc (lp_layers lp)] = [lp_layers lp]"
    using assms(2) by simp_all
  ultimately have "LabelProof_WriteProof lp True = write_label_layer lp (lp_layers lp)"
    by (intro ext) (simp only: LabelProof_WriteProof_def Let_def if_True bind_result_simps)
  with e True LabelProof_sizes(2) [OF assms(1)] show ?thesis by (simp add: label_proof_bytes_def)
next
  case False
  have "emits (fold_result (write_label_layer lp) [1..<Suc (lp_layers lp)])
      (length [1..<Suc (lp_layers lp)] * (8 + LABEL_PARENTS * NODE_SIZE + 4 + 8))
      (concat (map (label_layer_bytes lp) [1..<Suc (lp_layers lp)]))"
    using assms by (intro emits_fold emits_label_layer) auto
  from emits_bind [OF emits_u64 this, of "lp_layers lp"] have
    "emits (LabelProof_WriteProof lp enc) (8 + length [1..<Suc (lp_layers lp)] * (8 + LABEL_PARENTS * NODE_SIZE + 4 + 8))
      (le_bytes 8 (lp_layers lp) @ concat (map (label_layer_bytes lp) [1..<Suc (lp_layers lp)]))"
    using False by (simp only: LabelProof_WriteProof_def [abs_def] Let_def if_False)
  then show ?thesis
    by (rule emits_cong) (use False LabelProof_sizes(1) [OF assms(1)] in \<open>simp_all add: label_proof_bytes_def\<close>)
qed


section \<open>Properties\<close>

text \<open>
  C31: the size announced for an inclusion proof is exactly what is written:
  for a proof with a path of \<open>lv\<close> complete elements of arity \<open>a\<close> and either
  proof type, \<open>WriteProof\<close> copies exactly \<open>ProofSize\<close> bytes at the
  write position, nothing else in the file changes, and with less room it fails
  without an overrun.
\<close>
theorem TreeProof_size_exact:
  assumes "tp_ok a lv tp" "0 < a" "a < SIZE_MOD" "0 < lv" "lv < SIZE_MOD" "ty = 0 \<or> ty = 1"
    "i \<le> length f"
  shows "TreeProof_WriteProof ty tp (f, i) =
    (if i + TreeProof_ProofSize a lv ty \<le> length f
     then Inr (overlay i (tree_proof_bytes ty tp) f, i + TreeProof_ProofSize a lv ty)
     else Inl OutOfBounds) \<and>
    length (tree_proof_bytes ty tp) = TreeProof_ProofSize a lv ty"
  using emits_TreeProof [OF assms(1-6)] assms(7) by (simp add: emits_def put_def)

theorem TreeProof_size_exact_witness:
  "let tp = \<lparr>tp_arity = 2, tp_levels = 1, tree_bufs = [], tp_discard_rows = 0, tp_root = Some [],
        tp_leaf = Some [], tp_path = [\<lparr>pe_arity = 2, pe_index = 0, pe_hashes = [Some []]\<rparr>]\<rparr>
   in TreeProof_WriteProof 0 tp (replicate 200 0, 3) =
     Inr (overlay 3 (tree_proof_bytes 0 tp) (replicate 200 0), 3 + TreeProof_ProofSize 2 1 0)"
  using TreeProof_size_exact [of 2 1 "\<lparr>tp_arity = 2, tp_levels = 1, tree_bufs = [], tp_discard_rows = 0,
        tp_root = Some [], tp_leaf = Some [], tp_path = [\<lparr>pe_arity = 2, pe_index = 0, pe_hashes = [Some []]\<rparr>]\<rparr>"
      0 3 "replicate 200 0"]
  by (simp add: tp_ok_def pe_ok_def TreeProof_ProofSize_def SIZE_MOD_def constant_defs Let_def)

text \<open>
  The label proof of layer \<open>l\<close> lists the parents in the order in which the
  labelling hashes them: the 37 offsets are the first 37 of the cyclic
  repetition of the six base parents of the layer (first layer), or of the six base
  parents of the layer followed by the eight expander parents of the layer
  below (other layers), in a block of \<open>PARENT_COUNT + 1\<close> nodes per layer.
\<close>
theorem label_offsets_cyclic:
  fixes l :: nat
  defines "inc \<equiv> PARENT_COUNT + 1"
  defines "base \<equiv> map (\<lambda>k. k + 1 + (l - 1) * inc) [0..<PARENT_COUNT_BASE]"
    and "expander \<equiv> map (\<lambda>k. PARENT_COUNT_BASE + k + 1 + (l - 2) * inc) [0..<PARENT_COUNT_EXP]"
  shows "label_offsets inc l =
    take LABEL_PARENTS (concat (map (\<lambda>_. if l = 1 then base else base @ expander) [0..<7]))"
proof (cases "l = 1")
  case True
  then show ?thesis
    unfolding label_offsets_def base_def expander_def inc_def by (simp add: constant_defs upt_0_numeral)
next
  case False
  then show ?thesis
    unfolding label_offsets_def base_def expander_def inc_def by (simp add: constant_defs upt_0_numeral)
qed

end
