(* ===== verification/C1.thy ===== *)
theory C1
  imports Proof_Writer
begin

unbundle bit_operations_syntax

text \<open>
  Commit phase 1: \<open>C1Challenge\<close> (\<open>src/c1/challenge.hpp\<close>) and \<open>C1\<close>
  (\<open>src/c1/c1.hpp\<close>): the derivation of the challenges, the proof of one
  challenge, the output file of all proofs, and the combination of separately
  written tree and node proofs.

  A mapped file is a list of nodes (or of parents); an open file is \<open>Some\<close>.
  The mapping of a file that was not opened is the empty list, so that every
  access through its null pointer is an error.
  The Poseidon hash of an arity is the parameter \<open>hash\<close>, SHA-256 of blst the
  parameters \<open>sha_block\<close> (one block) and \<open>sha_emit\<close>; the layers are read
  through the parameter \<open>reader\<close>, the node at a layer and an index of the sector.
\<close>

definition CC_TREE_D_NODE_VALUES :: "node_t list" where
  "CC_TREE_D_NODE_VALUES = [
    [0x0, 0x0, 0x0, 0x0, 0x0, 0x0, 0x0, 0x0],
    [0x42fda5f5, 0x30206ad1, 0x6eef9827, 0x9b9709d3, 0x233d0043, 0xe8f0d920, 0xa93198ea, 0xbfb5927],
    [0x99bb3137, 0x669f68ac, 0x3e97f5ee, 0x18da944a, 0xaedc4d8f, 0xfc240758, 0xdd63f6f, 0x338348fd],
    [0x7e602a64, 0x4b086f8, 0x78192cbf, 0xd4e13a46, 0xf4c03a69, 0x1b2deb10, 0x20fe477a, 0xf755e5e],
    [0x1a38a257, 0xf42b6528, 0x7aef6b7f, 0xe49b67ca, 0x7158deae, 0xebf35cab, 0x4411082c, 0x2685cb88],
    [0x59c97a1f, 0x9ee01055, 0xb461ca4, 0xbb306417, 0xfbd62c32, 0x7cc52e41, 0x9a987db1, 0x2f371043],
    [0x82927efc, 0xfa16e596, 0xb286e9ad, 0x4ad4928f, 0x35b9244f, 0x37235248, 0x2790796a, 0x33f818bc],
    [0x387bc408, 0x43bc13ee, 0x5c911bf4, 0x1199ed0e, 0xb38660a2, 0x1b4062ed, 0x8d8bd5f9, 0x24f6df19],
    [0xfb7be4b2, 0x94cdfa11, 0x5caf621f, 0xa53e0f75, 0x17f54dcc, 0x6df1c4d5, 0x7bd7b4b2, 0x2fa3c1ae],
    [0x606122f9, 0xbf27f9c8, 0xcd18c4dc, 0x314903f2, 0xae8e0046, 0x19027dfb, 0x81545e4d, 0x8510089],
    [0x4b961a2c, 0xeb590bb9, 0xa26d0ffe, 0xe35ad69a, 0x4a7217e4, 0x74117c8f, 0xc1ca405a, 0x1140e7e5],
    [0xce78e3fe, 0xb10464f1, 0xb1e0ed99, 0x24b6113e, 0x4f789dff, 0x8d87edbb, 0x797e2983, 0x24f025e],
    [0x3249e8e, 0xf64c88fa, 0xdf607f23, 0xe43ef825, 0xd89eca0d, 0x636feb79, 0x8450d152, 0x3f0dadf5],
    [0x93962d75, 0x247516fa, 0xe3765439, 0x8085a917, 0xaf4709f0, 0x4005a3b7, 0x29a925d6, 0x72ac11c],
    [0xff62270, 0xfaadf67e, 0x527a1117, 0xce309e61, 0x7682ca8, 0x661cdf5a, 0x50ec8677, 0x192def6e],
    [0xb98798d9, 0x963a5773, 0x649313e1, 0x7bc13652, 0x34704c1f, 0xa9c723d7, 0xb49b709f, 0x2b1661da],
    [0xdb30b5d0, 0x5cf2b4b0, 0x282a2f5d, 0x8b80eedf, 0x22a4153, 0xc4181f93, 0x54a2f599, 0x26136b08],
    [0x1b42c084, 0x15a68a0, 0x235a79bf, 0xe44f0644, 0xa952bd24, 0xb37743d2, 0x4b4cff94, 0x11e86845],
    [0x5d9ef265, 0xc346d298, 0xfc8c388b, 0x6b1fdb06, 0xc5031302, 0xb0089a2, 0xa932e8dc, 0x1c42ecc3],
    [0x87524a2, 0x96505828, 0x4b337e5b, 0xc0b02731, 0x46d0b142, 0x214054dc, 0xd87c6237, 0x3ae19c79],
    [0x6dabfdda, 0x534436a9, 0x72336dc2, 0xe3ef9f6b, 0x818fbe43, 0x9c09e64, 0xfffad3aa, 0x8756150],
    [0xe0d541d9, 0x994a31d6, 0xbdff335c, 0x1169be4f, 0xe5d4738d, 0x1fd32cfd, 0xeb867c0f, 0x6e714dd],
    [0x5c434c51, 0x49d3043d, 0xbd5f36a5, 0x13c7ff59, 0x78119162, 0xa3c19159, 0x20f23ac5, 0x2f1a7479],
    [0x398506ad, 0x347dd369, 0x9fe008ff, 0x4a0a9356, 0xde899ad1, 0xeebf0cf6, 0x81331d7e, 0x371ce7c1],
    [0x7b0e5639, 0x73ba913, 0x27fd43a2, 0xcba7ff20, 0x502e1d3e, 0x9e62b35a, 0x1363f479, 0x6da2c51],
    [0x12c0c3cc, 0x815eb0f5, 0xddbf2b1a, 0xb833680f, 0x7bb47542, 0x5c029f2, 0x4f48822a, 0x3d5b1a3c],
    [0x699bf27d, 0xe8993177, 0x770bb4f2, 0x85049d91, 0x68d7ee09, 0x7b29c7e2, 0x337141f, 0x2cc6c34f],
    [0xa305ce66, 0xcf527566, 0xcc2bc045, 0x9192834e, 0x35acde9b, 0x62f52fde, 0x9f8e8471, 0x751677b],
    [0x180261d8, 0xe9b55a42, 0x23a61c5b, 0xe4a2299d, 0xa906d720, 0x2f3e376f, 0xd7919a9c, 0x19bd159],
    [0x1e4b366d, 0x1a4446f8, 0x86684a5a, 0xc0ac1423, 0x67016fa4, 0x4334e517, 0xdfee39e8, 0x3c85c283],
    [0xde5f7e07, 0x930ac535, 0x950a503, 0x4e8a49e3, 0x9cf3dfbe, 0xb710b742, 0x7aecd830, 0x3ea6afc7],
    [0x0, 0x0, 0x0, 0x0, 0x0, 0x0, 0x0, 0x0]]"

record C1Challenge =
  ch_challenge :: nat
  drg_parents :: "nat list"
  exp_parents :: "nat list"
  ch_nodes :: "node_t list"
  tree_r_nodes :: "node_t list"
  ch_tree_r_root :: node_t
  ch_tree_c_root :: node_t
  ch_tree_d_root :: "node_t ptr"

definition C1Challenge_new :: "nat \<Rightarrow> node_t \<Rightarrow> node_t \<Rightarrow> node_t ptr \<Rightarrow> C1Challenge" where
  "C1Challenge_new challenge r c d =
     \<lparr>ch_challenge = challenge, drg_parents = [], exp_parents = [], ch_nodes = [], tree_r_nodes = [],
      ch_tree_r_root = r, ch_tree_c_root = c, ch_tree_d_root = d\<rparr>"

definition GetParents :: "32 word list \<Rightarrow> C1Challenge \<Rightarrow> C1Challenge result" where
  "GetParents parents_buf ch =
     (let p_idx = ch_challenge ch * PARENT_COUNT in
      bind_result (map_result (\<lambda>k. vec_get parents_buf (p_idx + k)) [0..<PARENT_COUNT_BASE]) (\<lambda>drg.
      bind_result (map_result (\<lambda>k. vec_get parents_buf (p_idx + PARENT_COUNT_BASE + k)) [0..<PARENT_COUNT_EXP]) (\<lambda>ex.
      Inr (ch\<lparr>drg_parents := map unat drg, exp_parents := map unat ex\<rparr>))))"

definition node_requests :: "nat \<Rightarrow> C1Challenge \<Rightarrow> (nat \<times> nat) list" where
  "node_requests sz ch =
     concat (map (\<lambda>l. (l, ch_challenge ch) # map (Pair l) (drg_parents ch) @ map (Pair l) (exp_parents ch))
       [0..<GetNumLayers sz])"

definition GetNodes :: "nat \<Rightarrow> (nat \<times> nat \<Rightarrow> node_t) \<Rightarrow> C1Challenge \<Rightarrow> C1Challenge" where
  "GetNodes sz reader ch = ch\<lparr>ch_nodes := map reader (node_requests sz ch)\<rparr>"

definition GetTreeRNodes :: "nat \<Rightarrow> node_t list \<Rightarrow> C1Challenge \<Rightarrow> C1Challenge result" where
  "GetTreeRNodes sz replica_buf ch =
     (let tree_r_label_idx = ch_challenge ch AND GetChallengeStartMask sz in
      bind_result (map_result (\<lambda>k. vec_get replica_buf (tree_r_label_idx + k)) [0..<GetNumTreeRLabels sz]) (\<lambda>ns.
      Inr (ch\<lparr>tree_r_nodes := ns\<rparr>)))"

definition WriteTreeD :: "(nat \<Rightarrow> node_t list \<Rightarrow> node_t) \<Rightarrow> nat \<Rightarrow> node_t list ptr \<Rightarrow> C1Challenge \<Rightarrow> out \<Rightarrow> out result" where
  "WriteTreeD hash sz tree_d_buf ch o1 =
     (case tree_d_buf of
        None \<Rightarrow>
          bind_result (TreeDCCProof_new CC_TREE_D_NODE_VALUES GetNumTreeDArity (GetNumTreeDLevels sz)) (\<lambda>tree_d.
          bind_result (TreeDCC_GenInclusionPath (ch_challenge ch) CC_TREE_D_NODE_VALUES tree_d) (\<lambda>tree_d.
          TreeProof_WriteProof SINGLE_PROOF_DATA tree_d o1))
      | Some buf1 \<Rightarrow>
          bind_result (deref (ch_tree_d_root ch)) (\<lambda>rt.
          bind_result (GenInclusionPath (hash GetNumTreeDArity) (ch_challenge ch) nullptr
              (SetRoot rt (TreeProof_new GetNumTreeDArity (GetNumTreeDLevels sz) [buf1] 0))) (\<lambda>tree_d.
          TreeProof_WriteProof SINGLE_PROOF_DATA tree_d o1)))"

definition WriteTreeR :: "(nat \<Rightarrow> node_t list \<Rightarrow> node_t) \<Rightarrow> nat \<Rightarrow> node_t list list \<Rightarrow> C1Challenge \<Rightarrow> out \<Rightarrow> out result" where
  "WriteTreeR hash sz tree_r_bufs ch o1 =
     bind_result (GetNumTreeRCLevels sz) (\<lambda>lv.
     bind_result (GenInclusionPath (hash GetNumTreeRCArity) (ch_challenge ch) (Some (tree_r_nodes ch))
         (SetRoot (ch_tree_r_root ch)
           (TreeProof_new GetNumTreeRCArity lv tree_r_bufs (GetNumTreeRDiscardRows sz)))) (\<lambda>tree_r.
     TreeProof_WriteProof (GetNumTreeRCConfig sz) tree_r o1))"

definition WriteTreeProof :: "(nat \<Rightarrow> node_t list \<Rightarrow> node_t) \<Rightarrow> nat \<Rightarrow> node_t list list \<Rightarrow> node_t list ptr \<Rightarrow>
    C1Challenge \<Rightarrow> out \<Rightarrow> out result" where
  "WriteTreeProof hash sz tree_r_bufs tree_d_buf ch o1 =
     bind_result (WriteTreeD hash sz tree_d_buf ch o1) (WriteTreeR hash sz tree_r_bufs ch)"

definition WriteColumn :: "(nat \<Rightarrow> node_t list \<Rightarrow> node_t) \<Rightarrow> nat \<Rightarrow> node_t list list \<Rightarrow> C1Challenge \<Rightarrow>
    nat \<Rightarrow> nat \<Rightarrow> out \<Rightarrow> out result" where
  "WriteColumn hash sz tree_c_bufs ch node label_idx o1 =
     bind_result (ColumnProof_new hash sz node (ch_nodes ch) label_idx (PARENT_COUNT + 1) tree_c_bufs
         (ch_tree_c_root ch)) (\<lambda>cp.
     ColumnProof_WriteProof (GetNumTreeRCConfig sz) cp o1)"

definition WriteNodeProof :: "(nat \<Rightarrow> node_t list \<Rightarrow> node_t) \<Rightarrow> nat \<Rightarrow> node_t list list \<Rightarrow>
    C1Challenge \<Rightarrow> out \<Rightarrow> out result" where
  "WriteNodeProof hash sz tree_c_bufs ch o1 =
     (let col = WriteColumn hash sz tree_c_bufs ch;
          lp = LabelProof_new (ch_challenge ch) (GetNumLayers sz) (ch_nodes ch) (PARENT_COUNT + 1) in
      bind_result (col (ch_challenge ch) 0 o1) (\<lambda>o2.
      bind_result (put_u64 PARENT_COUNT_BASE o2) (\<lambda>o3.
      bind_result (fold_result (\<lambda>k o4. bind_result (vec_get (drg_parents ch) k) (\<lambda>p. col p (k + 1) o4))
          [0..<PARENT_COUNT_BASE] o3) (\<lambda>o5.
      bind_result (put_u64 PARENT_COUNT_EXP o5) (\<lambda>o6.
      bind_result (fold_result (\<lambda>k o7. bind_result (vec_get (exp_parents ch) k)
          (\<lambda>p. col p (k + 1 + PARENT_COUNT_BASE) o7)) [0..<PARENT_COUNT_EXP] o6) (\<lambda>o8.
      bind_result (LabelProof_WriteProof lp False o8) (LabelProof_WriteProof lp True)))))))"

definition Challenge_WriteProof :: "(nat \<Rightarrow> node_t list \<Rightarrow> node_t) \<Rightarrow> nat \<Rightarrow> node_t list list \<Rightarrow> node_t list list \<Rightarrow>
    node_t list ptr \<Rightarrow> C1Challenge \<Rightarrow> out \<Rightarrow> out result" where
  "Challenge_WriteProof hash sz tree_r_bufs tree_c_bufs tree_d_buf ch o1 =
     bind_result (WriteTreeProof hash sz tree_r_bufs tree_d_buf ch o1) (WriteNodeProof hash sz tree_c_bufs ch)"

record c1_t =
  challenges :: "nat list"
  challenges_count :: nat
  replica_id :: "node_t ptr"
  ticket :: "node_t ptr"
  seed :: "node_t ptr"
  replica_buf :: "node_t list"
  tree_r_bufs :: "node_t list ptr list"
  tree_c_bufs :: "node_t list ptr list"
  tree_d_buf :: "node_t list ptr"
  tree_c_root :: node_t
  tree_r_root :: node_t
  comm_r :: node_t
  comm_d :: "node_t ptr"
  parents_buf :: "32 word list"

definition C1_new :: "nat \<Rightarrow> c1_t" where
  "C1_new sz =
     \<lparr>challenges = [], challenges_count = GetNumChallenges sz div GetNumPartitions sz,
      replica_id = nullptr, ticket = nullptr, seed = nullptr, replica_buf = [],
      tree_r_bufs = [], tree_c_bufs = [], tree_d_buf = nullptr,
      tree_c_root = [], tree_r_root = [], comm_r = [], comm_d = nullptr, parents_buf = []\<rparr>"

definition sha_two_blocks :: "(node_t \<Rightarrow> bytes \<Rightarrow> node_t) \<Rightarrow> bytes \<Rightarrow> node_t" where
  "sha_two_blocks sha_block msg =
     sha_block (sha_block SHA256_INITIAL_DIGEST (take 64 msg)) (take 64 (drop 64 msg))"

definition challenge_buf :: "node_t \<Rightarrow> node_t \<Rightarrow> nat \<Rightarrow> bytes" where
  "challenge_buf rid sd j =
     (overlay 32 (node_image sd) (overlay 0 (node_image rid) (replicate 128 0)))
       [68 := 0x80, 126 := 0x02, 127 := 0x20, 64 := of_nat (j mod 256), 65 := of_nat (j div 256 mod 256)]"

definition mpz_import :: "node_t \<Rightarrow> nat" where
  "mpz_import ws = (\<Sum>i<length ws. unat (ws ! i) * 2 ^ (32 * i))"

definition derive_challenge :: "(node_t \<Rightarrow> bytes \<Rightarrow> node_t) \<Rightarrow> (node_t \<Rightarrow> node_t) \<Rightarrow> nat \<Rightarrow> node_t \<Rightarrow> node_t \<Rightarrow> nat \<Rightarrow> nat"
where
  "derive_challenge sha_block sha_emit leaves rid sd j =
     mpz_import (sha_emit (sha_two_blocks sha_block (challenge_buf rid sd j))) mod (leaves - 1) + 1"

definition DeriveChallenges :: "(node_t \<Rightarrow> bytes \<Rightarrow> node_t) \<Rightarrow> (node_t \<Rightarrow> node_t) \<Rightarrow> nat \<Rightarrow> node_t \<Rightarrow> c1_t \<Rightarrow> c1_t result"
where
  "DeriveChallenges sha_block sha_emit sz sd c1 =
     bind_result (deref (replica_id c1)) (\<lambda>rid.
     bind_result (fold_result (\<lambda>k. fold_result (\<lambda>i cs.
         let j = (challenges_count c1 * k + i) mod 2 ^ 32 in
         vec_set cs (i + k * challenges_count c1)
           (derive_challenge sha_block sha_emit (GetNumLeaves sz) rid sd j)) [0..<challenges_count c1])
       [0..<GetNumPartitions sz] (replicate (GetNumChallenges sz) 0)) (\<lambda>cs.
     Inr (c1\<lparr>seed := Some sd, challenges := cs\<rparr>)))"

section \<open>Files\<close>

record c1_files =
  node_files :: "string \<Rightarrow> node_t list option"
  parent_files :: "string \<Rightarrow> 32 word list option"

fun show_nat_aux :: "nat \<Rightarrow> nat \<Rightarrow> string" where
  "show_nat_aux 0 n = []"
| "show_nat_aux (Suc k) n =
     (if n < 10 then [char_of (48 + n)] else show_nat_aux k (n div 10) @ [char_of (48 + n mod 10)])"

definition show_nat :: "nat \<Rightarrow> string" where
  "show_nat n = show_nat_aux 20 n"

definition snprintf256 :: "string \<Rightarrow> string" where
  "snprintf256 str = take 255 str"

fun SetTreeBufs :: "c1_files \<Rightarrow> (nat \<Rightarrow> string) \<Rightarrow> nat list \<Rightarrow> node_t list ptr list \<Rightarrow> node_t list ptr list result" where
  "SetTreeBufs fs fname [] bufs = Inr bufs"
| "SetTreeBufs fs fname (l # ls) bufs =
     (case node_files fs (snprintf256 (fname l)) of
        None \<Rightarrow> Inr bufs
      | Some f \<Rightarrow> bind_result (vec_set bufs l (Some f)) (SetTreeBufs fs fname ls))"

definition tree_name :: "string \<Rightarrow> string \<Rightarrow> nat \<Rightarrow> nat \<Rightarrow> string" where
  "tree_name cache stem num_files l =
     cache @ stem @ (if num_files = 1 then [] else ''-'' @ show_nat l) @ ''.dat''"

definition SetTreeRBufs :: "c1_files \<Rightarrow> nat \<Rightarrow> string \<Rightarrow> c1_t \<Rightarrow> c1_t result" where
  "SetTreeRBufs fs sz cache c1 =
     (let num_files = GetNumTreeRCFiles sz in
      bind_result (SetTreeBufs fs (tree_name cache ''/sc-02-data-tree-r-last'' num_files) [0..<num_files]
          (replicate num_files nullptr)) (\<lambda>bufs. Inr (c1\<lparr>tree_r_bufs := bufs\<rparr>)))"

definition SetTreeCBufs :: "c1_files \<Rightarrow> nat \<Rightarrow> string \<Rightarrow> c1_t \<Rightarrow> c1_t result" where
  "SetTreeCBufs fs sz cache c1 =
     (let num_files = GetNumTreeRCFiles sz in
      bind_result (SetTreeBufs fs (tree_name cache ''/sc-02-data-tree-c'' num_files) [0..<num_files]
          (replicate num_files nullptr)) (\<lambda>bufs. Inr (c1\<lparr>tree_c_bufs := bufs\<rparr>)))"

definition SetTreeDBuf :: "c1_files \<Rightarrow> nat \<Rightarrow> string \<Rightarrow> c1_t \<Rightarrow> c1_t result" where
  "SetTreeDBuf fs sz cache c1 =
     bind_result (SetTreeBufs fs (tree_name cache ''/sc-02-data-tree-d'' 1) [0..<1] [nullptr]) (\<lambda>bufs.
     case bufs ! 0 of
       None \<Rightarrow>
         bind_result (assert_that (GetNumTreeDLevels sz \<le> 31)) (\<lambda>_.
         bind_result (vec_get CC_TREE_D_NODE_VALUES (GetNumTreeDLevels sz)) (\<lambda>r.
         Inr (c1\<lparr>tree_d_buf := nullptr, comm_d := Some r\<rparr>)))
     | Some f \<Rightarrow>
         bind_result (vec_get f (length f - 1)) (\<lambda>r. Inr (c1\<lparr>tree_d_buf := Some f, comm_d := Some r\<rparr>)))"

definition GetRoots :: "(nat \<Rightarrow> node_t list \<Rightarrow> node_t) \<Rightarrow> c1_files \<Rightarrow> string \<Rightarrow> c1_t \<Rightarrow> c1_t result" where
  "GetRoots hash fs cache c1 =
     bind_result (deref (node_files fs (snprintf256 (cache @ ''/p_aux'')))) (\<lambda>p_aux.
     bind_result (vec_get p_aux 0) (\<lambda>c.
     bind_result (vec_get p_aux 1) (\<lambda>r.
     Inr (c1\<lparr>tree_c_root := c, tree_r_root := r, comm_r := hash 2 [c, r]\<rparr>))))"

definition SetReplicaBuf :: "c1_files \<Rightarrow> string \<Rightarrow> c1_t \<Rightarrow> c1_t result" where
  "SetReplicaBuf fs cache c1 =
     (case node_files fs (snprintf256 (cache @ ''/sealed-file'')) of
        None \<Rightarrow> Inl AssertFail | Some f \<Rightarrow> Inr (c1\<lparr>replica_buf := f\<rparr>))"

definition SetParentsBuf :: "c1_files \<Rightarrow> string \<Rightarrow> c1_t \<Rightarrow> c1_t result" where
  "SetParentsBuf fs filename c1 =
     (case parent_files fs filename of
        None \<Rightarrow> Inl AssertFail | Some f \<Rightarrow> Inr (c1\<lparr>parents_buf := f\<rparr>))"


section \<open>The output file\<close>

definition tree_proof_size :: "nat \<Rightarrow> nat result" where
  "tree_proof_size sz =
     bind_result (GetNumTreeRCLevels sz) (\<lambda>lv.
     Inr (TreeProof_ProofSize GetNumTreeDArity (GetNumTreeDLevels sz) SINGLE_PROOF_DATA +
          TreeProof_ProofSize GetNumTreeRCArity lv (GetNumTreeRCConfig sz)))"

definition node_proof_size :: "nat \<Rightarrow> nat result" where
  "node_proof_size sz =
     bind_result (ColumnProof_ProofSize sz) (\<lambda>cps.
     Inr (LabelProof_ProofSize (GetNumLayers sz) False + LabelProof_ProofSize (GetNumLayers sz) True +
          ((1 + PARENT_COUNT_BASE + PARENT_COUNT_EXP) * cps + 2 * 8)))"

definition C1_ProofSize :: "nat \<Rightarrow> bool \<Rightarrow> bool \<Rightarrow> nat result" where
  "C1_ProofSize sz do_tree do_node =
     bind_result (tree_proof_size sz) (\<lambda>tps.
     bind_result (node_proof_size sz) (\<lambda>nps.
     Inr (GetNumPartitions sz * 8 + 8 +
          (if do_tree then tps * GetNumChallenges sz + 2 * NODE_SIZE else 0) +
          (if do_node then nps * GetNumChallenges sz + 3 * NODE_SIZE else 0))))"

definition mapped :: "node_t list ptr \<Rightarrow> node_t list" where
  "mapped b = (case b of None \<Rightarrow> [] | Some f \<Rightarrow> f)"

definition write_challenge :: "(nat \<Rightarrow> node_t list \<Rightarrow> node_t) \<Rightarrow> (nat \<times> nat \<Rightarrow> node_t) \<Rightarrow> nat \<Rightarrow> bool \<Rightarrow> bool \<Rightarrow>
    node_t list list \<Rightarrow> node_t list list \<Rightarrow> c1_t \<Rightarrow> nat \<Rightarrow> out \<Rightarrow> out result" where
  "write_challenge hash reader sz do_tree do_node tree_r tree_c c1 c o1 =
     (let ch = C1Challenge_new c (tree_r_root c1) (tree_c_root c1) (comm_d c1) in
      if do_node then
        bind_result (GetParents (parents_buf c1) ch) (\<lambda>ch1.
        let ch2 = GetNodes sz reader ch1 in
        if do_tree then
          bind_result (GetTreeRNodes sz (replica_buf c1) ch2) (\<lambda>ch3.
          Challenge_WriteProof hash sz tree_r tree_c (tree_d_buf c1) ch3 o1)
        else WriteNodeProof hash sz tree_c ch2 o1)
      else
        bind_result (GetTreeRNodes sz (replica_buf c1) ch) (\<lambda>ch1.
        WriteTreeProof hash sz tree_r (tree_d_buf c1) ch1 o1))"

definition WriteProofs :: "(nat \<Rightarrow> node_t list \<Rightarrow> node_t) \<Rightarrow> (nat \<times> nat \<Rightarrow> node_t) \<Rightarrow> nat \<Rightarrow> bool \<Rightarrow> bool \<Rightarrow>
    c1_t \<Rightarrow> bytes result" where
  "WriteProofs hash reader sz do_tree do_node c1 =
     bind_result (C1_ProofSize sz do_tree do_node) (\<lambda>expected_file_size.
     bind_result (put_u64 (GetNumPartitions sz) (replicate expected_file_size 0, 0)) (\<lambda>o1.
     bind_result (map_result (\<lambda>i. bind_result (vec_get (tree_r_bufs c1) i) (\<lambda>b. Inr (mapped b))) [0..<GetNumTreeRCFiles sz]) (\<lambda>tree_r.
     bind_result (map_result (\<lambda>i. bind_result (vec_get (tree_c_bufs c1) i) (\<lambda>b. Inr (mapped b))) [0..<GetNumTreeRCFiles sz]) (\<lambda>tree_c.
     bind_result (fold_result (\<lambda>i o2.
         bind_result (put_u64 (challenges_count c1) o2)
           (fold_result (\<lambda>j o3.
               bind_result (vec_get (challenges c1) (j + i * challenges_count c1)) (\<lambda>c.
               write_challenge hash reader sz do_tree do_node tree_r tree_c c1 c o3))
             [0..<challenges_count c1])) [0..<GetNumPartitions sz] o1) (\<lambda>o4.
     bind_result (if do_tree then
         bind_result (put_node (Some (comm_r c1)) o4) (put_node (comm_d c1)) else Inr o4) (\<lambda>o5.
     bind_result (if do_node then
         bind_result (put_node (replica_id c1) o5) (\<lambda>o6.
         bind_result (put_node (seed c1) o6) (put_node (ticket c1))) else Inr o5) (\<lambda>o7.
     bind_result (assert_that (snd o7 = expected_file_size)) (\<lambda>_. Inr (fst o7)))))))))"

definition copy_from :: "bytes \<Rightarrow> nat \<Rightarrow> (nat \<times> out) \<Rightarrow> (nat \<times> out) result" where
  "copy_from src n s =
     (let (src_index, o1) = s in
      if src_index + n \<le> length src
      then bind_result (put (take n (drop src_index src)) o1) (\<lambda>o2. Inr (src_index + n, o2))
      else Inl OutOfBounds)"

record comb_t =
  cb_out :: out
  cb_tree :: nat
  cb_node :: nat

definition copy_tree :: "bytes \<Rightarrow> nat \<Rightarrow> comb_t \<Rightarrow> comb_t result" where
  "copy_tree tree_ptr n s =
     bind_result (copy_from tree_ptr n (cb_tree s, cb_out s)) (\<lambda>(i, o1). Inr (s\<lparr>cb_out := o1, cb_tree := i\<rparr>))"

definition copy_node :: "bytes \<Rightarrow> nat \<Rightarrow> comb_t \<Rightarrow> comb_t result" where
  "copy_node node_ptr n s =
     bind_result (copy_from node_ptr n (cb_node s, cb_out s)) (\<lambda>(i, o1). Inr (s\<lparr>cb_out := o1, cb_node := i\<rparr>))"

definition comb_header :: "nat \<Rightarrow> comb_t \<Rightarrow> comb_t result" where
  "comb_header x s =
     bind_result (put_u64 x (cb_out s)) (\<lambda>o1. Inr \<lparr>cb_out = o1, cb_tree = cb_tree s + 8, cb_node = cb_node s + 8\<rparr>)"

definition CombineProofs :: "nat \<Rightarrow> nat \<Rightarrow> bytes \<Rightarrow> bytes \<Rightarrow> bytes result" where
  "CombineProofs sz count tree_file node_ptr =
     bind_result (C1_ProofSize sz True True) (\<lambda>expected_file_size.
     bind_result (C1_ProofSize sz True False) (\<lambda>exp_tree_buf_size.
     let tree_ptr = tree_file @ replicate (exp_tree_buf_size - length tree_file) 0 in
     bind_result (tree_proof_size sz) (\<lambda>tps.
     bind_result (node_proof_size sz) (\<lambda>nps.
     bind_result (comb_header (GetNumPartitions sz)
         \<lparr>cb_out = (replicate expected_file_size 0, 0), cb_tree = 0, cb_node = 0\<rparr>) (\<lambda>s1.
     bind_result (fold_result (\<lambda>i s2.
         bind_result (comb_header count s2)
           (fold_result (\<lambda>j s3. bind_result (copy_tree tree_ptr tps s3) (copy_node node_ptr nps)) [0..<count]))
         [0..<GetNumPartitions sz] s1) (\<lambda>s4.
     bind_result (copy_tree tree_ptr NODE_SIZE s4) (\<lambda>s5.
     bind_result (copy_tree tree_ptr NODE_SIZE s5) (\<lambda>s6.
     bind_result (copy_node node_ptr NODE_SIZE s6) (\<lambda>s7.
     bind_result (copy_node node_ptr NODE_SIZE s7) (\<lambda>s8.
     bind_result (copy_node node_ptr NODE_SIZE s8) (\<lambda>s9.
     bind_result (assert_that (snd (cb_out s9) = expected_file_size)) (\<lambda>_.
     bind_result (assert_that (cb_tree s9 = exp_tree_buf_size)) (\<lambda>_.
     bind_result (assert_that (cb_node s9 = length node_ptr)) (\<lambda>_.
     Inr (fst (cb_out s9))))))))))))))))"

definition do_c1 :: "(nat \<Rightarrow> node_t list \<Rightarrow> node_t) \<Rightarrow> (node_t \<Rightarrow> bytes \<Rightarrow> node_t) \<Rightarrow> (node_t \<Rightarrow> node_t) \<Rightarrow>
    (nat \<times> nat \<Rightarrow> node_t) \<Rightarrow> nat \<Rightarrow> c1_files \<Rightarrow> node_t \<Rightarrow> node_t \<Rightarrow> node_t \<Rightarrow> string \<Rightarrow> string \<Rightarrow> string \<Rightarrow>
    bytes result" where
  "do_c1 hash sha_block sha_emit reader sz fs rid sd tk cache parents_filename replica_path =
     bind_result (DeriveChallenges sha_block sha_emit sz sd
         ((C1_new sz)\<lparr>replica_id := Some rid, ticket := Some tk\<rparr>)) (\<lambda>c1.
     bind_result (SetTreeRBufs fs sz cache c1) (\<lambda>c2.
     bind_result (SetTreeCBufs fs sz cache c2) (\<lambda>c3.
     bind_result (SetTreeDBuf fs sz cache c3) (\<lambda>c4.
     bind_result (GetRoots hash fs cache c4) (\<lambda>c5.
     bind_result (SetReplicaBuf fs replica_path c5) (\<lambda>c6.
     bind_result (SetParentsBuf fs parents_filename c6) (\<lambda>c7.
     WriteProofs hash reader sz True True c7)))))))"

definition do_c1_tree :: "(nat \<Rightarrow> node_t list \<Rightarrow> node_t) \<Rightarrow> (node_t \<Rightarrow> bytes \<Rightarrow> node_t) \<Rightarrow> (node_t \<Rightarrow> node_t) \<Rightarrow>
    (nat \<times> nat \<Rightarrow> node_t) \<Rightarrow> nat \<Rightarrow> c1_files \<Rightarrow> node_t \<Rightarrow> node_t \<Rightarrow> string \<Rightarrow> string \<Rightarrow> bytes result" where
  "do_c1_tree hash sha_block sha_emit reader sz fs rid sd cache replica_path =
     bind_result (DeriveChallenges sha_block sha_emit sz sd ((C1_new sz)\<lparr>replica_id := Some rid\<rparr>)) (\<lambda>c1.
     bind_result (SetTreeRBufs fs sz cache c1) (\<lambda>c2.
     bind_result (SetTreeDBuf fs sz cache c2) (\<lambda>c3.
     bind_result (GetRoots hash fs cache c3) (\<lambda>c4.
     bind_result (SetReplicaBuf fs replica_path c4) (\<lambda>c5.
     WriteProofs hash reader sz True False c5)))))"

definition do_c1_node :: "(nat \<Rightarrow> node_t list \<Rightarrow> node_t) \<Rightarrow> (node_t \<Rightarrow> bytes \<Rightarrow> node_t) \<Rightarrow> (node_t \<Rightarrow> node_t) \<Rightarrow>
    (nat \<times> nat \<Rightarrow> node_t) \<Rightarrow> nat \<Rightarrow> c1_files \<Rightarrow> node_t \<Rightarrow> node_t \<Rightarrow> node_t \<Rightarrow> string \<Rightarrow> string \<Rightarrow> bytes result" where
  "do_c1_node hash sha_block sha_emit reader sz fs rid sd tk cache parents_filename =
     bind_result (DeriveChallenges sha_block sha_emit sz sd
         ((C1_new sz)\<lparr>replica_id := Some rid, ticket := Some tk\<rparr>)) (\<lambda>c1.
     bind_result (SetTreeCBufs fs sz cache c1) (\<lambda>c2.
     bind_result (SetParentsBuf fs parents_filename c2) (\<lambda>c3.
     bind_result (GetRoots hash fs cache c3) (\<lambda>c4.
     WriteProofs hash reader sz False True c4))))"

definition do_c1_comb :: "nat \<Rightarrow> bytes \<Rightarrow> bytes \<Rightarrow> bytes result" where
  "do_c1_comb sz tree_file node_file = CombineProofs sz (challenges_count (C1_new sz)) tree_file node_file"


section \<open>Proofs of one challenge\<close>

lemma GenInclusionPath_no_hash: "GenInclusionPath h c nullptr tp = GenInclusionPath h' c nullptr tp"
  by (simp add: GenInclusionPath_def Let_def)

lemma gen_levels_keeps:
  "gen_levels n l c is1 msk tb lg ad cu tp = Inr (ad', tp') \<Longrightarrow> tp_levels tp' = tp_levels tp"
proof (induction n arbitrary: l ad cu tp)
  case (Suc n)
  then show ?case by (auto simp: Let_def bind_result_Inr_iff SetLeaf_def split: if_splits dest!: Suc.IH)
qed simp

lemma PerformFirstLevels_keeps:
  "PerformFirstLevels h c fl is1 tp = Inr (d, tp') \<Longrightarrow> tp_levels tp' = tp_levels tp"
  by (auto simp: PerformFirstLevels_def Let_def bind_result_Inr_iff SetLeaf_def split: if_splits)

lemma GenInclusionPath_keeps:
  assumes "GenInclusionPath h c fl tp = Inr tp'"
  shows "tp_levels tp' = tp_levels tp"
  using assms
  by (auto simp: GenInclusionPath_def Let_def bind_result_Inr_iff split: if_splits option.splits
      dest!: gen_levels_keeps PerformFirstLevels_keeps)

definition proof_of :: "('n list \<Rightarrow> 'n) \<Rightarrow> nat \<Rightarrow> nat \<Rightarrow> 'n list \<Rightarrow> 'n \<Rightarrow> nat \<Rightarrow> 'n TreeProof" where
  "proof_of h a k xs rt c =
     \<lparr>tp_arity = a, tp_levels = k, tree_bufs = [], tp_discard_rows = 0, tp_root = Some rt,
      tp_leaf = Some (xs ! c), tp_path = spec_path h a k xs c\<rparr>"

lemma tree_proof_bytes_cong:
  "tp_levels tp = tp_levels tq \<Longrightarrow> tp_root tp = tp_root tq \<Longrightarrow> tp_leaf tp = tp_leaf tq \<Longrightarrow>
   tp_path tp = tp_path tq \<Longrightarrow> tree_proof_bytes ty tp = tree_proof_bytes ty tq"
  by (simp add: tree_proof_bytes_def)

lemma pe_ok_spec: "c div a ^ l mod a < a \<Longrightarrow> pe_ok a (spec_element h a xs c l)"
  by (auto simp: pe_ok_def spec_element_def length_others)

lemma tp_ok_spec:
  assumes "0 < a" "tp_levels tp = k" "tp_path tp = spec_path h a k xs c" "tp_root tp \<noteq> None" "tp_leaf tp \<noteq> None"
  shows "tp_ok a k tp"
  using assms by (auto simp: tp_ok_def spec_path_def intro!: pe_ok_spec)

lemma emits_generated:
  assumes gen: "GenInclusionPath h c fl (SetRoot rt (TreeProof_new a k bufs d)) = Inr tp"
    and path: "tp_path tp = spec_path h' a k xs c" and leaf: "tp_leaf tp = Some (xs ! c)"
    and root: "tp_root tp = Some rt"
    and "0 < a" "a < SIZE_MOD" "0 < k" "k < SIZE_MOD" "ty = 0 \<or> ty = 1"
  shows "emits (TreeProof_WriteProof ty tp) (TreeProof_ProofSize a k ty)
    (tree_proof_bytes ty (proof_of h' a k xs rt c))"
proof -
  have lv: "tp_levels tp = k" using GenInclusionPath_keeps [OF gen] by (simp add: SetRoot_def TreeProof_new_def)
  have "tree_proof_bytes ty tp = tree_proof_bytes ty (proof_of h' a k xs rt c)"
    using lv path leaf root by (intro tree_proof_bytes_cong) (simp_all add: proof_of_def)
  with emits_TreeProof [OF tp_ok_spec [OF assms(5) lv path] assms(5-)] leaf root assms(5-)
  show ?thesis by simp
qed

definition cc_proof :: "nat \<Rightarrow> nat \<Rightarrow> node_t TreeProof" where
  "cc_proof lv c =
     \<lparr>tp_arity = GetNumTreeDArity, tp_levels = lv, tree_bufs = [], tp_discard_rows = 0,
      tp_root = Some (CC_TREE_D_NODE_VALUES ! lv), tp_leaf = Some (CC_TREE_D_NODE_VALUES ! 0),
      tp_path = map (\<lambda>l. \<lparr>pe_arity = GetNumTreeDArity, pe_index = c div 2 ^ l mod 2,
        pe_hashes = [Some (CC_TREE_D_NODE_VALUES ! l)]\<rparr>) [0..<lv]\<rparr>"

lemma length_CC: "length CC_TREE_D_NODE_VALUES = 32"
  by (simp add: CC_TREE_D_NODE_VALUES_def)

lemma zero_node: "replicate NODE_WORDS (0 :: 32 word) = [0, 0, 0, 0, 0, 0, 0, 0]"
proof -
  have "NODE_WORDS = 8" by (simp add: constant_defs)
  moreover have "replicate 8 (0 :: 32 word) = [0, 0, 0, 0, 0, 0, 0, 0]" by (simp add: numeral_eq_Suc)
  ultimately show ?thesis by metis
qed

lemma CC_entries:
  "CC_TREE_D_NODE_VALUES ! 0 = replicate NODE_WORDS 0"
  "CC_TREE_D_NODE_VALUES ! 31 = replicate NODE_WORDS 0"
  "CC_TREE_D_NODE_VALUES ! 1 \<noteq> CC_TREE_D_NODE_VALUES ! 0"
  unfolding zero_node by (simp_all add: CC_TREE_D_NODE_VALUES_def)

lemma cc_generated:
  assumes "lv \<le> 31"
  shows "bind_result (TreeDCCProof_new CC_TREE_D_NODE_VALUES GetNumTreeDArity lv)
    (TreeDCC_GenInclusionPath c CC_TREE_D_NODE_VALUES) = Inr (cc_proof lv c)"
proof -
  let ?e = "\<lambda>l. \<lparr>pe_arity = GetNumTreeDArity, pe_index = c div 2 ^ l mod 2,
        pe_hashes = [Some (CC_TREE_D_NODE_VALUES ! l)]\<rparr>"
  have paths: "GetTreePaths GetNumTreeDArity lv c = map (\<lambda>l. c div 2 ^ l mod 2) [0..<lv]"
    using GetTreePaths_digits [of 1 lv c] by (simp add: GetNumTreeDArity_def)
  have "map_result (\<lambda>l. bind_result (vec_get (GetTreePaths GetNumTreeDArity lv c) l) (\<lambda>i.
      bind_result (vec_get CC_TREE_D_NODE_VALUES l) (\<lambda>x. SetHash 0 x (PathElement_new GetNumTreeDArity i)))) [0..<lv] =
      Inr (map ?e [0..<lv])"
    using assms by (intro map_result_Inr)
      (simp add: paths [unfolded GetNumTreeDArity_def] length_CC SetHash_def PathElement_new_def GetNumTreeDArity_def)
  then show ?thesis
    using assms by (simp add: TreeDCCProof_new_def TreeDCC_GenInclusionPath_def length_CC SetLeaf_def
        SetRoot_def TreeProof_new_def cc_proof_def del: GetTreePaths.simps)
qed

definition d_proof :: "(node_t list \<Rightarrow> node_t) \<Rightarrow> nat \<Rightarrow> node_t list \<Rightarrow> c1_t \<Rightarrow> nat \<Rightarrow> node_t TreeProof" where
  "d_proof dhash sz xd c1 c =
     (case tree_d_buf c1 of
        None \<Rightarrow> cc_proof (GetNumTreeDLevels sz) c
      | Some _ \<Rightarrow> proof_of dhash GetNumTreeDArity (GetNumTreeDLevels sz) xd (the (comm_d c1)) c)"

definition sector_files :: "(node_t list \<Rightarrow> node_t) \<Rightarrow> nat \<Rightarrow> nat \<Rightarrow> nat \<Rightarrow> node_t list \<Rightarrow> node_t list list" where
  "sector_files h st sz K xs =
     map (\<lambda>f. stored_rows h GetNumTreeRCArity st K (block (GetNumTreeRCArity ^ K) xs f)) [0..<GetNumTreeRCFiles sz]"

definition c1_ready :: "(nat \<Rightarrow> node_t list \<Rightarrow> node_t) \<Rightarrow> (node_t list \<Rightarrow> node_t) \<Rightarrow> nat \<Rightarrow> nat \<Rightarrow> nat \<Rightarrow>
    node_t list \<Rightarrow> node_t list \<Rightarrow> node_t list \<Rightarrow> c1_t \<Rightarrow> bool" where
  "c1_ready hash dhash sz k K xd xc xr c1 \<longleftrightarrow>
     GetNumTreeRCLevels sz = Inr k \<and> GetNumTreeRDiscardRows sz = 2 \<and>
     GetNumLeaves sz div GetNumTreeRCFiles sz = GetNumTreeRCArity ^ K \<and>
     length xd = GetNumLeaves sz \<and> length xc = GetNumLeaves sz \<and> length xr = GetNumLeaves sz \<and>
     (tree_d_buf c1 = None \<and> GetNumTreeDLevels sz \<le> 31 \<or>
      tree_d_buf c1 = Some (stored_rows dhash GetNumTreeDArity 0 (GetNumTreeDLevels sz) xd)) \<and>
     comm_d c1 \<noteq> None \<and>
     tree_c_bufs c1 = map Some (sector_files (hash GetNumTreeRCArity) 0 sz K xc) \<and>
     tree_r_bufs c1 = map Some (sector_files (hash GetNumTreeRCArity) 3 sz K xr) \<and>
     replica_buf c1 = xr \<and>
     length (parents_buf c1) = GetNumLeaves sz * PARENT_COUNT \<and>
     (\<forall>p \<in> set (parents_buf c1). unat p < GetNumLeaves sz) \<and>
     challenges_count c1 = GetNumChallenges sz div GetNumPartitions sz \<and>
     length (challenges c1) = GetNumChallenges sz \<and> (\<forall>c \<in> set (challenges c1). c < GetNumLeaves sz) \<and>
     replica_id c1 \<noteq> None \<and> seed c1 \<noteq> None \<and> ticket c1 \<noteq> None"

lemma sector_facts:
  fixes s :: SectorSizeLg
  defines "sz \<equiv> 2 ^ sector_lg s"
  assumes "GetNumTreeRCLevels sz = Inr k"
  shows "GetNumTreeRCConfig sz = 0 \<or> GetNumTreeRCConfig sz = 1" "0 < k" "k < SIZE_MOD"
    "0 < GetNumTreeDLevels sz" "GetNumTreeDLevels sz < SIZE_MOD"
    "GetNumTreeRCArity < SIZE_MOD" "GetNumTreeDArity < SIZE_MOD" "0 < GetNumTreeRCArity" "0 < GetNumTreeDArity"
    "0 < GetNumLayers sz" "GetNumLayers sz < 2 ^ 32"
proof -
  note sh = tree_rc_shape [OF assms(2) [unfolded sz_def], folded sz_def]
  show "GetNumTreeRCConfig sz = 0 \<or> GetNumTreeRCConfig sz = 1"
    using assms(2) unfolding sz_def
    by (cases s) (simp_all add: GetNumTreeRCLevels_def sector_defs assert_that_def)
  show "0 < k" "k < SIZE_MOD" using sh(2,3) by (simp_all add: SIZE_MOD_def)
  have "5 < sector_lg s" "sector_lg s - 5 < 64" using sector_lg_bounds [of s] by simp_all
  then show "0 < GetNumTreeDLevels sz" "GetNumTreeDLevels sz < SIZE_MOD"
    by (simp_all add: sz_def GetNumTreeDLevels_def GetNumLeaves_sector log2_floor_pow2 SIZE_MOD_def)
qed (simp_all add: sector_defs SIZE_MOD_def)

lemma emits_tree_d:
  fixes s :: SectorSizeLg
  defines "sz \<equiv> 2 ^ sector_lg s"
  assumes r: "c1_ready hash dhash sz k K xd xc xr c1" and c: "c < GetNumLeaves sz"
    and ch: "ch_challenge ch = c" "ch_tree_d_root ch = comm_d c1"
  shows "emits (WriteTreeD hash sz (tree_d_buf c1) ch)
    (TreeProof_ProofSize GetNumTreeDArity (GetNumTreeDLevels sz) SINGLE_PROOF_DATA)
    (tree_proof_bytes SINGLE_PROOF_DATA (d_proof dhash sz xd c1 c))"
proof -
  have "GetNumTreeRCLevels sz = Inr k" using r by (simp add: c1_ready_def)
  note f = sector_facts [OF this [unfolded sz_def], folded sz_def]
  have S0: "SINGLE_PROOF_DATA = 0" by (simp add: constant_defs)
  show ?thesis
  proof (cases "tree_d_buf c1")
    case None
    then have lv: "GetNumTreeDLevels sz \<le> 31" using r by (simp add: c1_ready_def)
    have bb: "bind_result r1 (\<lambda>x. bind_result (g x) f) = bind_result (bind_result r1 g) f"
      for r1 :: "node_t TreeProof result" and g :: "node_t TreeProof \<Rightarrow> node_t TreeProof result" and f :: "node_t TreeProof \<Rightarrow> out result"
      by (cases r1) simp_all
    have "WriteTreeD hash sz None ch = TreeProof_WriteProof SINGLE_PROOF_DATA (cc_proof (GetNumTreeDLevels sz) c)"
      by (rule ext) (simp add: WriteTreeD_def ch bb cc_generated [OF lv])
    moreover have "tp_ok GetNumTreeDArity (GetNumTreeDLevels sz) (cc_proof (GetNumTreeDLevels sz) c)"
      by (auto simp: tp_ok_def cc_proof_def pe_ok_def GetNumTreeDArity_def)
    ultimately show ?thesis
      using None emits_TreeProof [OF _ f(9) f(7) f(4,5)] S0 by (simp add: d_proof_def)
  next
    case (Some b)
    then have b: "b = stored_rows dhash GetNumTreeDArity 0 (GetNumTreeDLevels sz) xd"
      "length xd = GetNumNodes sz" using r by (auto simp: c1_ready_def GetNumNodes_def)
    obtain rt where rt: "comm_d c1 = Some rt" using r by (auto simp: c1_ready_def)
    obtain tp where tp: "GenInclusionPath dhash c nullptr
        (SetRoot rt (TreeProof_new GetNumTreeDArity (GetNumTreeDLevels sz) [b] 0)) = Inr tp"
      "tp_path tp = spec_path dhash GetNumTreeDArity (GetNumTreeDLevels sz) xd c" "tp_leaf tp = Some (xd ! c)"
      "tp_root tp = Some rt"
      using tree_d_path [of xd s c dhash rt, folded sz_def] b c by (auto simp: GetNumNodes_def)
    have "WriteTreeD hash sz (Some b) ch = TreeProof_WriteProof SINGLE_PROOF_DATA tp"
      using tp(1) GenInclusionPath_no_hash [of "hash GetNumTreeDArity" c _ dhash]
      by (intro ext) (simp add: WriteTreeD_def ch rt deref_def)
    with emits_generated [OF tp f(9) f(7) f(4,5), of 0] Some rt S0 show ?thesis by (simp add: d_proof_def)
  qed
qed

lemma emits_tree_r:
  fixes s :: SectorSizeLg
  defines "sz \<equiv> 2 ^ sector_lg s"
  assumes r: "c1_ready hash dhash sz k K xd xc xr c1" and c: "c < GetNumLeaves sz"
    and ch: "ch_challenge ch = c"
      "tree_r_nodes ch = block (GetNumTreeRLabels sz) xr (c div GetNumTreeRLabels sz)"
  shows "emits (WriteTreeR hash sz (sector_files (hash GetNumTreeRCArity) 3 sz K xr) ch)
    (TreeProof_ProofSize GetNumTreeRCArity k (GetNumTreeRCConfig sz))
    (tree_proof_bytes (GetNumTreeRCConfig sz)
      (proof_of (hash GetNumTreeRCArity) GetNumTreeRCArity k xr (ch_tree_r_root ch) c))"
proof -
  have lv: "GetNumTreeRCLevels sz = Inr k" using r by (simp add: c1_ready_def)
  note f = sector_facts [OF this [unfolded sz_def], folded sz_def]
  obtain tp where tp: "GenInclusionPath (hash GetNumTreeRCArity) c (Some (tree_r_nodes ch))
      (SetRoot (ch_tree_r_root ch) (TreeProof_new GetNumTreeRCArity k
        (sector_files (hash GetNumTreeRCArity) 3 sz K xr) (GetNumTreeRDiscardRows sz))) = Inr tp"
    "tp_path tp = spec_path (hash GetNumTreeRCArity) GetNumTreeRCArity k xr c" "tp_leaf tp = Some (xr ! c)"
    "tp_root tp = Some (ch_tree_r_root ch)"
    using tree_r_path [where s = s and k = k and K = K and xs = xr and c = c and hash = "hash GetNumTreeRCArity"
        and rt = "ch_tree_r_root ch", folded sz_def, OF _ _ _ _ _ refl] r c ch(2)
    by (auto simp: c1_ready_def sector_files_def)
  have "WriteTreeR hash sz (sector_files (hash GetNumTreeRCArity) 3 sz K xr) ch =
      TreeProof_WriteProof (GetNumTreeRCConfig sz) tp"
    using tp(1) by (intro ext) (simp add: WriteTreeR_def ch(1) lv)
  with emits_generated [OF tp f(8) f(6) f(2,3,1)] show ?thesis by simp
qed

definition column_of :: "(nat \<Rightarrow> node_t list \<Rightarrow> node_t) \<Rightarrow> nat \<Rightarrow> nat \<Rightarrow> node_t list \<Rightarrow> C1Challenge \<Rightarrow> nat \<Rightarrow> nat \<Rightarrow> ColumnProof"
where
  "column_of hash sz k xc ch p label_idx =
     \<lparr>cp_challenge = p, cp_layers = GetNumLayers sz, cp_labels = ch_nodes ch, cp_label_idx = label_idx,
      cp_label_inc = PARENT_COUNT + 1,
      cp_tree = proof_of (hash GetNumTreeRCArity) GetNumTreeRCArity k xc (ch_tree_c_root ch) p\<rparr>"

lemma emits_column:
  fixes s :: SectorSizeLg
  defines "sz \<equiv> 2 ^ sector_lg s"
  assumes r: "c1_ready hash dhash sz k K xd xc xr c1" and p: "p < GetNumLeaves sz"
    and ch: "length (ch_nodes ch) = GetNumLayers sz * (PARENT_COUNT + 1)" "label_idx < PARENT_COUNT + 1"
  shows "emits (WriteColumn hash sz (sector_files (hash GetNumTreeRCArity) 0 sz K xc) ch p label_idx)
    (4 + 8 + NODE_SIZE * GetNumLayers sz + TreeProof_ProofSize GetNumTreeRCArity k (GetNumTreeRCConfig sz))
    (column_proof_bytes (GetNumTreeRCConfig sz) (column_of hash sz k xc ch p label_idx))"
proof -
  have lv: "GetNumTreeRCLevels sz = Inr k" using r by (simp add: c1_ready_def)
  note f = sector_facts [OF this [unfolded sz_def], folded sz_def]
  obtain tp where tp: "GenInclusionPath (hash GetNumTreeRCArity) p nullptr
      (SetRoot (ch_tree_c_root ch) (TreeProof_new GetNumTreeRCArity k
        (sector_files (hash GetNumTreeRCArity) 0 sz K xc) 0)) = Inr tp"
    "tp_path tp = spec_path (hash GetNumTreeRCArity) GetNumTreeRCArity k xc p" "tp_leaf tp = Some (xc ! p)"
    "tp_root tp = Some (ch_tree_c_root ch)"
    using tree_c_path [where s = s and k = k and K = K and xs = xc and c = p and hash = "hash GetNumTreeRCArity"
        and rt = "ch_tree_c_root ch", folded sz_def, OF _ _ _ _ refl] r p
    by (auto simp: c1_ready_def sector_files_def)
  let ?cp = "\<lparr>cp_challenge = p, cp_layers = GetNumLayers sz, cp_labels = ch_nodes ch, cp_label_idx = label_idx,
      cp_label_inc = PARENT_COUNT + 1, cp_tree = tp\<rparr>"
  have w: "WriteColumn hash sz (sector_files (hash GetNumTreeRCArity) 0 sz K xc) ch p label_idx =
      ColumnProof_WriteProof (GetNumTreeRCConfig sz) ?cp"
    using tp(1) by (intro ext) (simp add: WriteColumn_def ColumnProof_new_def lv)
  have lv': "tp_levels tp = k" using GenInclusionPath_keeps [OF tp(1)] by (simp add: SetRoot_def TreeProof_new_def)
  have tb: "tree_proof_bytes (GetNumTreeRCConfig sz) tp = tree_proof_bytes (GetNumTreeRCConfig sz)
      (proof_of (hash GetNumTreeRCArity) GetNumTreeRCArity k xc (ch_tree_c_root ch) p)"
    using lv' tp by (intro tree_proof_bytes_cong) (simp_all add: proof_of_def)
  have cb: "column_proof_bytes (GetNumTreeRCConfig sz) ?cp =
      column_proof_bytes (GetNumTreeRCConfig sz) (column_of hash sz k xc ch p label_idx)"
    using tb by (simp add: column_proof_bytes_def column_of_def)
  have "label_idx + l * (PARENT_COUNT + 1) < length (ch_nodes ch)" if "l < GetNumLayers sz" for l
  proof -
    have "Suc l * (PARENT_COUNT + 1) \<le> GetNumLayers sz * (PARENT_COUNT + 1)"
      using that by (intro mult_le_mono1) simp
    then show ?thesis using ch by simp
  qed
  then have "emits (ColumnProof_WriteProof (GetNumTreeRCConfig sz) ?cp)
      (4 + 8 + NODE_SIZE * cp_layers ?cp + TreeProof_ProofSize GetNumTreeRCArity k (GetNumTreeRCConfig sz))
      (column_proof_bytes (GetNumTreeRCConfig sz) ?cp)"
    using emits_generated [OF tp f(8) f(6) f(2,3,1)] tb by (intro emits_ColumnProof) simp_all
  then show ?thesis unfolding w cb by simp
qed

definition node_proof_bytes :: "(nat \<Rightarrow> node_t list \<Rightarrow> node_t) \<Rightarrow> nat \<Rightarrow> nat \<Rightarrow> node_t list \<Rightarrow> C1Challenge \<Rightarrow> bytes" where
  "node_proof_bytes hash sz k xc ch =
     (let col = (\<lambda>p i. column_proof_bytes (GetNumTreeRCConfig sz) (column_of hash sz k xc ch p i));
          lp = LabelProof_new (ch_challenge ch) (GetNumLayers sz) (ch_nodes ch) (PARENT_COUNT + 1) in
      col (ch_challenge ch) 0 @
      le_bytes 8 PARENT_COUNT_BASE @ concat (map (\<lambda>j. col (drg_parents ch ! j) (j + 1)) [0..<PARENT_COUNT_BASE]) @
      le_bytes 8 PARENT_COUNT_EXP @
      concat (map (\<lambda>j. col (exp_parents ch ! j) (j + 1 + PARENT_COUNT_BASE)) [0..<PARENT_COUNT_EXP]) @
      label_proof_bytes lp False @ label_proof_bytes lp True)"

lemma emits_node_proof:
  fixes s :: SectorSizeLg
  defines "sz \<equiv> 2 ^ sector_lg s"
  assumes r: "c1_ready hash dhash sz k K xd xc xr c1" and c: "ch_challenge ch < GetNumLeaves sz"
    and ch: "length (ch_nodes ch) = GetNumLayers sz * (PARENT_COUNT + 1)"
      "length (drg_parents ch) = PARENT_COUNT_BASE" "length (exp_parents ch) = PARENT_COUNT_EXP"
      "\<forall>p \<in> set (drg_parents ch) \<union> set (exp_parents ch). p < GetNumLeaves sz"
    and nps: "node_proof_size sz = Inr nps"
  shows "emits (WriteNodeProof hash sz (sector_files (hash GetNumTreeRCArity) 0 sz K xc) ch) nps
    (node_proof_bytes hash sz k xc ch)"
proof -
  have lv: "GetNumTreeRCLevels sz = Inr k" using r by (simp add: c1_ready_def)
  note f = sector_facts [OF this [unfolded sz_def], folded sz_def]
  let ?n = "4 + 8 + NODE_SIZE * GetNumLayers sz + TreeProof_ProofSize GetNumTreeRCArity k (GetNumTreeRCConfig sz)"
  let ?w = "WriteColumn hash sz (sector_files (hash GetNumTreeRCArity) 0 sz K xc) ch"
  let ?b = "\<lambda>p i. column_proof_bytes (GetNumTreeRCConfig sz) (column_of hash sz k xc ch p i)"
  let ?lp = "LabelProof_new (ch_challenge ch) (GetNumLayers sz) (ch_nodes ch) (PARENT_COUNT + 1)"
  note col = emits_column [OF r [unfolded sz_def] _ ch(1) [unfolded sz_def], folded sz_def]
  have vec: "emits (\<lambda>o1. bind_result (vec_get ps j) (\<lambda>p. ?w p (g j) o1)) ?n (?b (ps ! j) (g j))"
    if "j < length ps" "\<forall>p \<in> set ps. p < GetNumLeaves sz" "g j < PARENT_COUNT + 1" for ps j g
    using that col by (intro emits_vec [where f = "\<lambda>p. ?w p (g j)"]) simp_all
  have drg: "emits (fold_result (\<lambda>j o1. bind_result (vec_get (drg_parents ch) j) (\<lambda>p. ?w p (j + 1) o1)) [0..<PARENT_COUNT_BASE])
      (length [0..<PARENT_COUNT_BASE] * ?n) (concat (map (\<lambda>j. ?b (drg_parents ch ! j) (j + 1)) [0..<PARENT_COUNT_BASE]))"
    using ch(2,4) by (intro emits_fold vec) (simp_all add: constant_defs)
  have ex: "emits (fold_result (\<lambda>j o1. bind_result (vec_get (exp_parents ch) j)
        (\<lambda>p. ?w p (j + 1 + PARENT_COUNT_BASE) o1)) [0..<PARENT_COUNT_EXP])
      (length [0..<PARENT_COUNT_EXP] * ?n)
      (concat (map (\<lambda>j. ?b (exp_parents ch ! j) (j + 1 + PARENT_COUNT_BASE)) [0..<PARENT_COUNT_EXP]))"
    using ch(3,4) by (intro emits_fold vec) (simp_all add: constant_defs)
  have lp: "emits (LabelProof_WriteProof ?lp enc) (LabelProof_ProofSize (GetNumLayers sz) enc) (label_proof_bytes ?lp enc)" for enc
    using emits_LabelProof [of ?lp enc] f(10,11) ch(1) by (simp add: LabelProof_new_def)
  have c0: "emits (?w (ch_challenge ch) 0) ?n (?b (ch_challenge ch) 0)" using c by (intro col) simp_all
  note e = emits_bind [OF c0 emits_bind [OF emits_u64 emits_bind [OF drg emits_bind [OF emits_u64
      emits_bind [OF ex emits_bind [OF lp lp]]]]], of PARENT_COUNT_BASE PARENT_COUNT_EXP False True]
  have "nps = ?n + (8 + (length [0..<PARENT_COUNT_BASE] * ?n + (8 + (length [0..<PARENT_COUNT_EXP] * ?n +
      (LabelProof_ProofSize (GetNumLayers sz) False + LabelProof_ProofSize (GetNumLayers sz) True)))))"
    using nps by (simp add: node_proof_size_def ColumnProof_ProofSize_def lv constant_defs(4,5) algebra_simps)
  then show ?thesis
    unfolding WriteNodeProof_def Let_def
    by (intro emits_cong [OF e]) (simp_all only: node_proof_bytes_def Let_def append_assoc)
qed


section \<open>The proofs of all challenges\<close>

definition challenge_of :: "nat \<Rightarrow> (nat \<times> nat \<Rightarrow> node_t) \<Rightarrow> c1_t \<Rightarrow> nat \<Rightarrow> C1Challenge" where
  "challenge_of sz reader c1 c =
     GetNodes sz reader ((C1Challenge_new c (tree_r_root c1) (tree_c_root c1) (comm_d c1))
       \<lparr>drg_parents := map (\<lambda>j. unat (parents_buf c1 ! (c * PARENT_COUNT + j))) [0..<PARENT_COUNT_BASE],
        exp_parents := map (\<lambda>j. unat (parents_buf c1 ! (c * PARENT_COUNT + PARENT_COUNT_BASE + j))) [0..<PARENT_COUNT_EXP]\<rparr>)"

definition tree_bytes :: "(nat \<Rightarrow> node_t list \<Rightarrow> node_t) \<Rightarrow> (node_t list \<Rightarrow> node_t) \<Rightarrow> nat \<Rightarrow> nat \<Rightarrow> node_t list \<Rightarrow>
    node_t list \<Rightarrow> c1_t \<Rightarrow> nat \<Rightarrow> bytes" where
  "tree_bytes hash dhash sz k xd xr c1 c =
     tree_proof_bytes SINGLE_PROOF_DATA (d_proof dhash sz xd c1 c) @
     tree_proof_bytes (GetNumTreeRCConfig sz)
       (proof_of (hash GetNumTreeRCArity) GetNumTreeRCArity k xr (tree_r_root c1) c)"

definition node_bytes_of :: "(nat \<Rightarrow> node_t list \<Rightarrow> node_t) \<Rightarrow> nat \<Rightarrow> nat \<Rightarrow> node_t list \<Rightarrow>
    (nat \<times> nat \<Rightarrow> node_t) \<Rightarrow> c1_t \<Rightarrow> nat \<Rightarrow> bytes" where
  "node_bytes_of hash sz k xc reader c1 c = node_proof_bytes hash sz k xc (challenge_of sz reader c1 c)"

lemma GetParents_ok:
  assumes "c1_ready hash dhash sz k K xd xc xr c1" "c < GetNumLeaves sz"
    "ch = C1Challenge_new c (tree_r_root c1) (tree_c_root c1) (comm_d c1)"
  shows "bind_result (GetParents (parents_buf c1) ch) (\<lambda>ch. Inr (GetNodes sz reader ch)) =
    Inr (challenge_of sz reader c1 c)"
proof -
  have l: "length (parents_buf c1) = GetNumLeaves sz * PARENT_COUNT" using assms(1) by (simp add: c1_ready_def)
  have "Suc c * PARENT_COUNT \<le> GetNumLeaves sz * PARENT_COUNT" using assms(2) by (intro mult_le_mono1) simp
  then have b: "c * PARENT_COUNT + j < length (parents_buf c1)" if "j < PARENT_COUNT" for j using l that by simp
  have "map_result (\<lambda>j. vec_get (parents_buf c1) (c * PARENT_COUNT + j)) [0..<PARENT_COUNT_BASE] =
      Inr (map (\<lambda>j. parents_buf c1 ! (c * PARENT_COUNT + j)) [0..<PARENT_COUNT_BASE])"
    using b by (intro map_result_Inr vec_get_in) (simp add: PARENT_COUNT_def)
  moreover have "map_result (\<lambda>j. vec_get (parents_buf c1) (c * PARENT_COUNT + PARENT_COUNT_BASE + j)) [0..<PARENT_COUNT_EXP] =
      Inr (map (\<lambda>j. parents_buf c1 ! (c * PARENT_COUNT + PARENT_COUNT_BASE + j)) [0..<PARENT_COUNT_EXP])"
    using b [of "PARENT_COUNT_BASE + _"]
    by (intro map_result_Inr vec_get_in) (simp add: PARENT_COUNT_def add.assoc)
  ultimately show ?thesis
    using assms(3) by (simp add: GetParents_def Let_def C1Challenge_new_def challenge_of_def comp_def)
qed

lemma challenge_of_shape:
  assumes r: "c1_ready hash dhash sz k K xd xc xr c1" and c: "c < GetNumLeaves sz"
    and ch: "ch = challenge_of sz reader c1 c"
  shows "ch_challenge ch = c" "ch_tree_r_root ch = tree_r_root c1" "ch_tree_d_root ch = comm_d c1"
    "length (ch_nodes ch) = GetNumLayers sz * (PARENT_COUNT + 1)"
    "length (drg_parents ch) = PARENT_COUNT_BASE" "length (exp_parents ch) = PARENT_COUNT_EXP"
    "\<forall>p \<in> set (drg_parents ch) \<union> set (exp_parents ch). p < GetNumLeaves sz"
proof -
  have l: "length (parents_buf c1) = GetNumLeaves sz * PARENT_COUNT"
    "\<forall>p \<in> set (parents_buf c1). unat p < GetNumLeaves sz" using r by (simp_all add: c1_ready_def)
  have "Suc c * PARENT_COUNT \<le> GetNumLeaves sz * PARENT_COUNT" using c by (intro mult_le_mono1) simp
  then have b: "unat (parents_buf c1 ! (c * PARENT_COUNT + j)) < GetNumLeaves sz" if "j < PARENT_COUNT" for j
    using l that by simp
  show "\<forall>p \<in> set (drg_parents ch) \<union> set (exp_parents ch). p < GetNumLeaves sz"
    using b b [of "PARENT_COUNT_BASE + _"]
    by (auto simp: ch challenge_of_def GetNodes_def PARENT_COUNT_def add.assoc)
  show "length (ch_nodes ch) = GetNumLayers sz * (PARENT_COUNT + 1)"
    by (simp add: ch challenge_of_def GetNodes_def C1Challenge_new_def node_requests_def length_concat comp_def
        sum_list_triv PARENT_COUNT_def)
qed (simp_all add: ch challenge_of_def GetNodes_def C1Challenge_new_def)

lemma GetTreeRNodes_ok:
  fixes s :: SectorSizeLg
  defines "sz \<equiv> 2 ^ sector_lg s"
  assumes "GetNumTreeRDiscardRows sz = 2" "length xr = GetNumLeaves sz" "ch_challenge ch < GetNumLeaves sz"
  shows "GetTreeRNodes sz xr ch = Inr (ch\<lparr>tree_r_nodes :=
    block (GetNumTreeRLabels sz) xr (ch_challenge ch div GetNumTreeRLabels sz)\<rparr>)"
proof -
  let ?c = "ch_challenge ch" and ?L = "2 ^ 9 :: nat"
  have L: "GetNumTreeRLabels sz = ?L" using assms(2) by (simp add: GetNumTreeRLabels_def RCArity_8)
  have "?L dvd GetNumLeaves sz"
    using assms(2) unfolding sz_def GetNumLeaves_sector
    by (intro le_imp_power_dvd) (cases s; simp add: GetNumTreeRDiscardRows_def sector_defs)
  then obtain m where m: "GetNumLeaves sz = m * ?L" by (metis dvdE mult.commute)
  have "GetNumLeaves sz \<le> 2 ^ 64"
    unfolding sz_def GetNumLeaves_sector by (intro power_increasing) (use sector_lg_bounds [of s] in simp_all)
  then have mk: "?c AND GetChallengeStartMask sz = ?c div ?L * ?L"
    using and_high_mask [of ?c 9] assms(4) by (simp add: GetChallengeStartMask_def L SIZE_MOD_def)
  have "?c div ?L < m" using assms(4) m by (simp add: less_mult_imp_div_less)
  then have b: "Suc (?c div ?L) * ?L \<le> length xr"
    using assms(3) m mult_le_mono1 [of "Suc (?c div ?L)" m ?L] by simp
  have "map_result (\<lambda>j. vec_get xr (?c div ?L * ?L + j)) [0..<?L] = Inr (map (\<lambda>j. xr ! (?c div ?L * ?L + j)) [0..<?L])"
    using b by (intro map_result_Inr vec_get_in) auto
  moreover have "map (\<lambda>j. xr ! (?c div ?L * ?L + j)) [0..<?L] = block ?L xr (?c div ?L)"
    using b length_block [OF b] by (intro nth_equalityI) (simp_all add: nth_block)
  ultimately show ?thesis by (simp only: GetTreeRNodes_def Let_def mk L bind_result_simps)
qed

lemma emits_challenge:
  fixes s :: SectorSizeLg
  defines "sz \<equiv> 2 ^ sector_lg s"
  assumes r: "c1_ready hash dhash sz k K xd xc xr c1" and c: "c < GetNumLeaves sz"
    and sizes: "tree_proof_size sz = Inr tps" "node_proof_size sz = Inr nps"
    and mode: "do_tree \<or> do_node"
  shows "emits (write_challenge hash reader sz do_tree do_node (sector_files (hash GetNumTreeRCArity) 3 sz K xr)
      (sector_files (hash GetNumTreeRCArity) 0 sz K xc) c1 c)
    ((if do_tree then tps else 0) + (if do_node then nps else 0))
    ((if do_tree then tree_bytes hash dhash sz k xd xr c1 c else []) @
     (if do_node then node_bytes_of hash sz k xc reader c1 c else []))"
proof -
  have rd: "GetNumTreeRCLevels sz = Inr k" "GetNumTreeRDiscardRows sz = 2" "length xr = GetNumLeaves sz"
    "replica_buf c1 = xr" using r by (simp_all add: c1_ready_def)
  let ?init = "C1Challenge_new c (tree_r_root c1) (tree_c_root c1) (comm_d c1)"
  let ?ch = "challenge_of sz reader c1 c"
  let ?blk = "block (GetNumTreeRLabels sz) xr (c div GetNumTreeRLabels sz)"
  let ?R = "sector_files (hash GetNumTreeRCArity) 3 sz K xr" and ?C = "sector_files (hash GetNumTreeRCArity) 0 sz K xc"
  note shape = challenge_of_shape [OF r c refl, of reader]
  obtain cp where gp: "GetParents (parents_buf c1) ?init = Inr cp" "GetNodes sz reader cp = ?ch"
    using GetParents_ok [OF r c refl, of reader] by (auto simp: bind_result_Inr_iff)
  have gt: "GetTreeRNodes sz (replica_buf c1) ch = Inr (ch\<lparr>tree_r_nodes := ?blk\<rparr>)" if "ch_challenge ch = c" for ch
    using GetTreeRNodes_ok [OF rd(2,3) [unfolded sz_def], of ch] c that by (simp add: sz_def rd(4))
  have tree: "emits (WriteTreeProof hash sz (sector_files (hash GetNumTreeRCArity) 3 sz K xr) (tree_d_buf c1) ch)
      tps (tree_bytes hash dhash sz k xd xr c1 c)"
    if "ch_challenge ch = c" "ch_tree_d_root ch = comm_d c1" "ch_tree_r_root ch = tree_r_root c1"
      "tree_r_nodes ch = ?blk" for ch
    using emits_bind [OF emits_tree_d [OF r [unfolded sz_def] c [unfolded sz_def] that(1,2)]
        emits_tree_r [OF r [unfolded sz_def] c [unfolded sz_def] that(1,4) [unfolded sz_def]]] sizes(1) that(3)
    by (simp add: WriteTreeProof_def [abs_def] tree_bytes_def tree_proof_size_def rd(1) [unfolded sz_def] sz_def)
  have node: "emits (WriteNodeProof hash sz (sector_files (hash GetNumTreeRCArity) 0 sz K xc) ch)
      nps (node_bytes_of hash sz k xc reader c1 c)" if "ch = ?ch \<or> ch = ?ch\<lparr>tree_r_nodes := ?blk\<rparr>" for ch
  proof -
    have "node_proof_bytes hash sz k xc ch = node_bytes_of hash sz k xc reader c1 c"
      using that by (auto simp: node_bytes_of_def node_proof_bytes_def column_of_def)
    moreover have "emits (WriteNodeProof hash sz (sector_files (hash GetNumTreeRCArity) 0 sz K xc) ch) nps
        (node_proof_bytes hash sz k xc ch)"
      unfolding sz_def
      by (rule emits_node_proof [OF r [unfolded sz_def] _ _ _ _ _ sizes(2) [unfolded sz_def]])
        (use that shape c in \<open>auto simp: sz_def\<close>)
    ultimately show ?thesis by simp
  qed
  consider "do_tree" "do_node" | "do_tree" "\<not> do_node" | "\<not> do_tree" "do_node" using mode by blast
  then show ?thesis
  proof cases
    case 1
    note e = emits_bind [OF tree [of "?ch\<lparr>tree_r_nodes := ?blk\<rparr>"] node [of "?ch\<lparr>tree_r_nodes := ?blk\<rparr>"]]
    have "write_challenge hash reader sz True True ?R ?C c1 c =
        (\<lambda>o1. bind_result (WriteTreeProof hash sz ?R (tree_d_buf c1) (?ch\<lparr>tree_r_nodes := ?blk\<rparr>) o1)
           (WriteNodeProof hash sz ?C (?ch\<lparr>tree_r_nodes := ?blk\<rparr>)))"
      unfolding write_challenge_def Let_def if_True gp gt [OF shape(1)] bind_result_simps Challenge_WriteProof_def ..
    with 1 e shape show ?thesis by simp
  next
    case 2
    have "ch_challenge ?init = c" by (simp add: C1Challenge_new_def)
    from gt [OF this] 2 tree [of "?init\<lparr>tree_r_nodes := ?blk\<rparr>"] show ?thesis
      by (simp add: write_challenge_def [abs_def] Let_def C1Challenge_new_def)
  next
    case 3
    have "write_challenge hash reader sz False True ?R ?C c1 c = WriteNodeProof hash sz ?C ?ch"
      by (rule ext) (simp only: write_challenge_def Let_def if_True if_False gp bind_result_simps)
    with 3 node [of ?ch] show ?thesis by simp
  qed
qed

definition proof_file :: "nat \<Rightarrow> nat \<Rightarrow> nat list \<Rightarrow> (nat \<Rightarrow> bytes) \<Rightarrow> bytes \<Rightarrow> bytes" where
  "proof_file parts count cs body trailer =
     le_bytes 8 parts @
     concat (map (\<lambda>i. le_bytes 8 count @ concat (map (\<lambda>j. body (cs ! (j + i * count))) [0..<count])) [0..<parts]) @
     trailer"

definition c1_trailer :: "bool \<Rightarrow> bool \<Rightarrow> c1_t \<Rightarrow> bytes" where
  "c1_trailer do_tree do_node c1 =
     (if do_tree then node_image (comm_r c1) @ node_image (the (comm_d c1)) else []) @
     (if do_node then node_image (the (replica_id c1)) @ node_image (the (seed c1)) @ node_image (the (ticket c1)) else [])"

lemma bind_result_assoc: "bind_result (bind_result r f) g = bind_result r (\<lambda>x. bind_result (f x) g)"
  by (cases r) simp_all

lemma emits_if: "(b \<Longrightarrow> emits w n bs) \<Longrightarrow> emits (\<lambda>o1. if b then w o1 else Inr o1) (if b then n else 0) (if b then bs else [])"
  using emits_skip by (cases b) simp_all

lemma put_whole: "length bs = n \<Longrightarrow> put bs (replicate n x, 0) = Inr (bs, n)"
  by (simp add: put_def overlay_def)

lemma partitions_split: "GetNumPartitions sz * (GetNumChallenges sz div GetNumPartitions sz) = GetNumChallenges sz"
  by (simp add: sector_defs)

lemma emits_proof_file:
  assumes "\<And>c. c \<in> set cs \<Longrightarrow> emits (w c) n (body c)" "length cs = parts * count" "emits t m trailer"
  shows "emits (\<lambda>o1. bind_result (put_u64 parts o1) (\<lambda>o1. bind_result
      (fold_result (\<lambda>i o2. bind_result (put_u64 count o2)
         (fold_result (\<lambda>j o3. bind_result (vec_get cs (j + i * count)) (\<lambda>c. w c o3)) [0..<count])) [0..<parts] o1) t))
    (8 + parts * (8 + count * n) + m) (proof_file parts count cs body trailer)"
proof -
  have bnd: "j + i * count < length cs" if "i < parts" "j < count" for i j
  proof -
    have "Suc i * count \<le> parts * count" using that(1) by (intro mult_le_mono1) simp
    then show ?thesis using that(2) assms(2) by simp
  qed
  have "emits (fold_result (\<lambda>j o3. bind_result (vec_get cs (j + i * count)) (\<lambda>c. w c o3)) [0..<count])
      (length [0..<count] * n) (concat (map (\<lambda>j. body (cs ! (j + i * count))) [0..<count]))" if "i < parts" for i
    using bnd [OF that] assms(1) by (intro emits_fold emits_vec) simp_all
  from emits_bind [OF emits_u64 this]
  have "emits (\<lambda>o2. bind_result (put_u64 count o2)
         (fold_result (\<lambda>j o3. bind_result (vec_get cs (j + i * count)) (\<lambda>c. w c o3)) [0..<count]))
      (8 + length [0..<count] * n) (le_bytes 8 count @ concat (map (\<lambda>j. body (cs ! (j + i * count))) [0..<count]))"
    if "i \<in> set [0..<parts]" for i using that by simp
  from emits_bind [OF emits_u64 emits_bind [OF emits_fold [of "[0..<parts]", OF this] assms(3)]]
  show ?thesis by (rule emits_cong) (simp_all add: proof_file_def)
qed

lemma WriteProofs_bytes:
  fixes s :: SectorSizeLg
  defines "sz \<equiv> 2 ^ sector_lg s"
  assumes r: "c1_ready hash dhash sz k K xd xc xr c1" and mode: "do_tree \<or> do_node"
    and sizes: "tree_proof_size sz = Inr tps" "node_proof_size sz = Inr nps"
  shows "WriteProofs hash reader sz do_tree do_node c1 =
    Inr (proof_file (GetNumPartitions sz) (challenges_count c1) (challenges c1)
      (\<lambda>c. (if do_tree then tree_bytes hash dhash sz k xd xr c1 c else []) @
            (if do_node then node_bytes_of hash sz k xc reader c1 c else []))
      (c1_trailer do_tree do_node c1)) \<and>
    C1_ProofSize sz do_tree do_node = Inr (length (proof_file (GetNumPartitions sz) (challenges_count c1) (challenges c1)
      (\<lambda>c. (if do_tree then tree_bytes hash dhash sz k xd xr c1 c else []) @
            (if do_node then node_bytes_of hash sz k xc reader c1 c else []))
      (c1_trailer do_tree do_node c1)))"
proof -
  let ?P = "GetNumPartitions sz" and ?n = "challenges_count c1"
  let ?R = "sector_files (hash GetNumTreeRCArity) 3 sz K xr" and ?C = "sector_files (hash GetNumTreeRCArity) 0 sz K xc"
  let ?body = "\<lambda>c. (if do_tree then tree_bytes hash dhash sz k xd xr c1 c else []) @
            (if do_node then node_bytes_of hash sz k xc reader c1 c else [])"
  let ?N = "?P * 8 + 8 + (if do_tree then tps * GetNumChallenges sz + 2 * NODE_SIZE else 0) +
          (if do_node then nps * GetNumChallenges sz + 3 * NODE_SIZE else 0)"
  let ?bs = "proof_file ?P ?n (challenges c1) ?body (c1_trailer do_tree do_node c1)"
  obtain cd rid sd tk where ptrs: "comm_d c1 = Some cd" "replica_id c1 = Some rid" "seed c1 = Some sd" "ticket c1 = Some tk"
    using r by (auto simp: c1_ready_def)
  have cnt: "?n = GetNumChallenges sz div ?P" "length (challenges c1) = GetNumChallenges sz"
    "\<forall>c \<in> set (challenges c1). c < GetNumLeaves sz" using r by (simp_all add: c1_ready_def)
  have cc: "?P * ?n = GetNumChallenges sz" using partitions_split cnt(1) by simp
  have N: "C1_ProofSize sz do_tree do_node = Inr ?N" using sizes by (simp add: C1_ProofSize_def)
  have maps: "map_result (\<lambda>i. bind_result (vec_get (map Some fs) i) (\<lambda>b. Inr (mapped b))) [0..<length fs] = Inr fs" for fs
    by (subst map_result_Inr [where g = "\<lambda>i. fs ! i"]) (simp_all add: mapped_def map_nth)
  have bufs: "tree_r_bufs c1 = map Some ?R" "tree_c_bufs c1 = map Some ?C"
    "length ?R = GetNumTreeRCFiles sz" "length ?C = GetNumTreeRCFiles sz"
    using r by (simp_all add: c1_ready_def sector_files_def)
  have t1: "emits (\<lambda>o1. if do_tree then bind_result (put_node (Some (comm_r c1)) o1) (put_node (Some cd)) else Inr o1)
      (if do_tree then NODE_SIZE + NODE_SIZE else 0)
      (if do_tree then node_image (comm_r c1) @ node_image cd else [])"
    by (intro emits_if emits_bind emits_node)
  have t2: "emits (\<lambda>o1. if do_node then bind_result (put_node (Some rid) o1) (\<lambda>o6. bind_result (put_node (Some sd) o6)
        (put_node (Some tk))) else Inr o1) (if do_node then NODE_SIZE + (NODE_SIZE + NODE_SIZE) else 0)
      (if do_node then node_image rid @ node_image sd @ node_image tk else [])"
    by (intro emits_if emits_bind emits_node)
  have body: "emits (write_challenge hash reader sz do_tree do_node ?R ?C c1 c)
      ((if do_tree then tps else 0) + (if do_node then nps else 0)) (?body c)" if "c \<in> set (challenges c1)" for c
    using cnt(3) that unfolding sz_def
    by (intro emits_challenge [OF r [unfolded sz_def] _ sizes [unfolded sz_def] mode]) simp
  note e = emits_proof_file [of "challenges c1", OF body _ emits_bind [OF t1 t2], where parts = ?P and count = ?n]
  have len: "length ?bs = ?N"
  proof -
    have "length ?bs = 8 + ?P * (8 + ?n * ((if do_tree then tps else 0) + (if do_node then nps else 0))) +
        ((if do_tree then NODE_SIZE + NODE_SIZE else 0) + (if do_node then NODE_SIZE + (NODE_SIZE + NODE_SIZE) else 0))"
      using e cc cnt(2) ptrs by (simp add: emits_def c1_trailer_def cong: if_cong)
    also have "\<dots> = ?N" using cc by (auto simp: algebra_simps simp flip: cc)
    finally show ?thesis .
  qed
  from e cc cnt(2) ptrs have wr: "(bind_result (put_u64 ?P (replicate ?N 0, 0)) (\<lambda>o1. bind_result
      (fold_result (\<lambda>i o2. bind_result (put_u64 ?n o2)
         (fold_result (\<lambda>j o3. bind_result (vec_get (challenges c1) (j + i * ?n))
            (\<lambda>c. write_challenge hash reader sz do_tree do_node ?R ?C c1 c o3)) [0..<?n])) [0..<?P] o1)
       (\<lambda>o1. bind_result (if do_tree then bind_result (put_node (Some (comm_r c1)) o1) (put_node (Some cd)) else Inr o1)
       (\<lambda>o1. if do_node then bind_result (put_node (Some rid) o1) (\<lambda>o6. bind_result (put_node (Some sd) o6)
        (put_node (Some tk))) else Inr o1)))) = put ?bs (replicate ?N 0, 0)"
    by (simp add: emits_def c1_trailer_def)
  have "WriteProofs hash reader sz do_tree do_node c1 =
      bind_result (put ?bs (replicate ?N 0, 0)) (\<lambda>o7. bind_result (assert_that (snd o7 = ?N)) (\<lambda>_. Inr (fst o7)))"
    unfolding wr [symmetric] WriteProofs_def N bufs(1,2) bind_result_assoc bind_result_simps
      maps [of ?R, unfolded bufs(3)] maps [of ?C, unfolded bufs(4)] ptrs
    by simp
  also have "\<dots> = Inr ?bs" using put_whole [OF len] by simp
  finally show ?thesis using N unfolding len by blast
qed


section \<open>Combining tree and node proofs\<close>

definition combines :: "bytes \<Rightarrow> bytes \<Rightarrow> (comb_t \<Rightarrow> comb_t result) \<Rightarrow> bytes \<Rightarrow> bytes \<Rightarrow> bytes \<Rightarrow> bool" where
  "combines T N w ts ns os \<longleftrightarrow>
     (\<forall>st. cb_tree st \<le> length T \<and> cb_node st \<le> length N \<and>
       take (length ts) (drop (cb_tree st) T) = ts \<and> take (length ns) (drop (cb_node st) N) = ns \<longrightarrow>
       w st = bind_result (put os (cb_out st)) (\<lambda>o1.
         Inr \<lparr>cb_out = o1, cb_tree = cb_tree st + length ts, cb_node = cb_node st + length ns\<rparr>))"

lemma take_drop_append:
  assumes "take (length (xs @ ys)) (drop i zs) = xs @ ys" "i \<le> length zs"
  shows "take (length xs) (drop i zs) = xs" "take (length ys) (drop (i + length xs) zs) = ys" "i + length xs \<le> length zs"
proof -
  have e: "take (length xs) (take (length (xs @ ys)) (drop i zs)) = xs" unfolding assms(1) by simp
  then show "take (length xs) (drop i zs) = xs" by simp
  have "drop (length xs) (take (length (xs @ ys)) (drop i zs)) = ys" unfolding assms(1) by simp
  then show "take (length ys) (drop (i + length xs) zs) = ys" by (simp add: drop_take add.commute)
  have "length (take (length (xs @ ys)) (drop i zs)) = length xs + length ys" unfolding assms(1) by simp
  then show "i + length xs \<le> length zs" using assms(2) by simp
qed

lemma combines_bind:
  assumes "combines T N w1 t1 n1 o1" "combines T N w2 t2 n2 o2"
  shows "combines T N (\<lambda>st. bind_result (w1 st) w2) (t1 @ t2) (n1 @ n2) (o1 @ o2)"
  unfolding combines_def
proof (intro allI impI, elim conjE)
  fix st :: comb_t
  assume b: "cb_tree st \<le> length T" "cb_node st \<le> length N"
    and t: "take (length (t1 @ t2)) (drop (cb_tree st) T) = t1 @ t2"
    and n: "take (length (n1 @ n2)) (drop (cb_node st) N) = n1 @ n2"
  note t' = take_drop_append [OF t b(1)] and n' = take_drop_append [OF n b(2)]
  let ?st = "\<lambda>o3. \<lparr>cb_out = o3, cb_tree = cb_tree st + length t1, cb_node = cb_node st + length n1\<rparr>"
  have "w1 st = bind_result (put o1 (cb_out st)) (\<lambda>o3. Inr (?st o3))"
    using assms(1) b t'(1) n'(1) by (simp add: combines_def)
  moreover have "w2 (?st o3) = bind_result (put o2 o3) (\<lambda>o1. Inr \<lparr>cb_out = o1,
      cb_tree = cb_tree st + length t1 + length t2, cb_node = cb_node st + length n1 + length n2\<rparr>)" for o3
    using assms(2) t'(2,3) n'(2,3) by (simp add: combines_def)
  ultimately show "bind_result (w1 st) w2 = bind_result (put (o1 @ o2) (cb_out st)) (\<lambda>o1. Inr \<lparr>cb_out = o1,
      cb_tree = cb_tree st + length (t1 @ t2), cb_node = cb_node st + length (n1 @ n2)\<rparr>)"
    by (simp add: put_append bind_result_assoc add.assoc)
qed

lemma combines_fold:
  assumes "\<And>i. i \<in> set is1 \<Longrightarrow> combines T N (w i) (t i) (n i) (b i)" "is1 \<noteq> []"
  shows "combines T N (fold_result w is1) (concat (map t is1)) (concat (map n is1)) (concat (map b is1))"
  using assms
proof (induction is1)
  case (Cons i is1)
  have w1: "fold_result w (i # is1) = (\<lambda>o1. bind_result (w i o1) (fold_result w is1))" by (rule ext) simp
  show ?case
  proof (cases "is1 = []")
    case True
    have "fold_result w [i] st = w i st" for st by (cases "w i st") simp_all
    then have "fold_result w [i] = w i" by (rule ext)
    with True Cons.prems show ?thesis by simp
  next
    case False
    with Cons combines_bind [of T N "w i" "t i" "n i" "b i" "fold_result w is1"] w1 show ?thesis by simp
  qed
qed simp

lemma combines_tree: "combines T N (copy_tree T (length bs)) bs [] bs"
  unfolding combines_def
proof (intro allI impI, elim conjE)
  fix st :: comb_t
  assume a: "cb_tree st \<le> length T" "take (length bs) (drop (cb_tree st) T) = bs"
  then have "cb_tree st + length bs \<le> length T" using take_drop_append(3) [of bs "[]" "cb_tree st" T] by simp
  with a show "copy_tree T (length bs) st = bind_result (put bs (cb_out st)) (\<lambda>o1. Inr \<lparr>cb_out = o1,
      cb_tree = cb_tree st + length bs, cb_node = cb_node st + length []\<rparr>)"
    by (cases st) (simp add: copy_tree_def copy_from_def bind_result_assoc)
qed

lemma combines_node: "combines T N (copy_node N (length bs)) [] bs bs"
  unfolding combines_def
proof (intro allI impI, elim conjE)
  fix st :: comb_t
  assume a: "cb_node st \<le> length N" "take (length bs) (drop (cb_node st) N) = bs"
  then have "cb_node st + length bs \<le> length N" using take_drop_append(3) [of bs "[]" "cb_node st" N] by simp
  with a show "copy_node N (length bs) st = bind_result (put bs (cb_out st)) (\<lambda>o1. Inr \<lparr>cb_out = o1,
      cb_tree = cb_tree st + length [], cb_node = cb_node st + length bs\<rparr>)"
    by (cases st) (simp add: copy_node_def copy_from_def bind_result_assoc)
qed

lemma length_le_bytes [simp]: "length (le_bytes n x) = n"
  by (simp add: le_bytes_def)

lemma combines_header: "combines T N (comb_header x) (le_bytes 8 x) (le_bytes 8 x) (le_bytes 8 x)"
  by (simp add: combines_def comb_header_def put_u64_def)

lemma combines_file:
  assumes "\<And>c. c \<in> set cs \<Longrightarrow> length (tb c) = tn" "\<And>c. c \<in> set cs \<Longrightarrow> length (nb c) = nn"
    "length cs = parts * count" "0 < parts" "0 < count"
  shows "combines T N (\<lambda>st. bind_result (comb_header parts st) (fold_result (\<lambda>i s2. bind_result (comb_header count s2)
      (fold_result (\<lambda>j s3. bind_result (copy_tree T tn s3) (copy_node N nn)) [0..<count])) [0..<parts]))
    (proof_file parts count cs tb []) (proof_file parts count cs nb [])
    (proof_file parts count cs (\<lambda>c. tb c @ nb c) [])"
proof -
  have mem: "cs ! (j + i * count) \<in> set cs" if "i < parts" "j < count" for i j
  proof -
    have "Suc i * count \<le> parts * count" using that(1) by (intro mult_le_mono1) simp
    then show ?thesis using that(2) assms(3) by (intro nth_mem) simp
  qed
  have step: "combines T N (\<lambda>s3. bind_result (copy_tree T tn s3) (copy_node N nn)) (tb c) (nb c) (tb c @ nb c)"
    if "c \<in> set cs" for c
    using combines_bind [OF combines_tree [of T N "tb c"] combines_node [of T N "nb c"]] assms(1,2) that by simp
  have "combines T N (fold_result (\<lambda>j s3. bind_result (copy_tree T tn s3) (copy_node N nn)) [0..<count])
      (concat (map (\<lambda>j. tb (cs ! (j + i * count))) [0..<count])) (concat (map (\<lambda>j. nb (cs ! (j + i * count))) [0..<count]))
      (concat (map (\<lambda>j. tb (cs ! (j + i * count)) @ nb (cs ! (j + i * count))) [0..<count]))" if "i < parts" for i
    using mem [OF that] assms(5) by (intro combines_fold step) simp_all
  note inner = combines_bind [OF combines_header [of T N count] this]
  have "combines T N (fold_result (\<lambda>i s2. bind_result (comb_header count s2)
      (fold_result (\<lambda>j s3. bind_result (copy_tree T tn s3) (copy_node N nn)) [0..<count])) [0..<parts])
    (concat (map (\<lambda>i. le_bytes 8 count @ concat (map (\<lambda>j. tb (cs ! (j + i * count))) [0..<count])) [0..<parts]))
    (concat (map (\<lambda>i. le_bytes 8 count @ concat (map (\<lambda>j. nb (cs ! (j + i * count))) [0..<count])) [0..<parts]))
    (concat (map (\<lambda>i. le_bytes 8 count @
       concat (map (\<lambda>j. tb (cs ! (j + i * count)) @ nb (cs ! (j + i * count))) [0..<count])) [0..<parts]))"
    using assms(4) by (intro combines_fold inner) simp_all
  from combines_bind [OF combines_header [of T N parts] this] show ?thesis by (simp add: proof_file_def)
qed

lemma combines_nodes3:
  assumes "length n1 = NODE_SIZE" "length n2 = NODE_SIZE" "length n3 = NODE_SIZE" "length t1 = NODE_SIZE" "length t2 = NODE_SIZE"
  shows "combines T N (\<lambda>s4. bind_result (copy_tree T NODE_SIZE s4) (\<lambda>s5. bind_result (copy_tree T NODE_SIZE s5)
      (\<lambda>s6. bind_result (copy_node N NODE_SIZE s6) (\<lambda>s7. bind_result (copy_node N NODE_SIZE s7) (copy_node N NODE_SIZE)))))
    (t1 @ t2) (n1 @ n2 @ n3) ((t1 @ t2) @ (n1 @ n2 @ n3))"
  using combines_bind [OF combines_tree [of T N t1] combines_bind [OF combines_tree [of T N t2]
      combines_bind [OF combines_node [of T N n1] combines_bind [OF combines_node [of T N n2] combines_node [of T N n3]]]]] assms
  by simp

lemma proof_file_append: "proof_file p n cs b t = proof_file p n cs b [] @ t"
  by (simp add: proof_file_def)

lemma combine_bytes:
  assumes body: "\<And>c. c \<in> set cs \<Longrightarrow> length (tb c) = tps" "\<And>c. c \<in> set cs \<Longrightarrow> length (nb c) = nps"
    and cs: "length cs = GetNumChallenges sz" "count = GetNumChallenges sz div GetNumPartitions sz"
    and len: "length n1 = NODE_SIZE" "length n2 = NODE_SIZE" "length n3 = NODE_SIZE" "length t1 = NODE_SIZE" "length t2 = NODE_SIZE"
    and sizes: "tree_proof_size sz = Inr tps" "node_proof_size sz = Inr nps"
      "C1_ProofSize sz True True = Inr E" "C1_ProofSize sz True False = Inr ET"
    and T: "T = proof_file (GetNumPartitions sz) count cs tb (t1 @ t2)" "length T = ET"
    and N: "N = proof_file (GetNumPartitions sz) count cs nb (n1 @ n2 @ n3)"
    and R: "R = proof_file (GetNumPartitions sz) count cs (\<lambda>c. tb c @ nb c) ((t1 @ t2) @ n1 @ n2 @ n3)" "length R = E"
  shows "CombineProofs sz count T N = Inr R"
proof -
  let ?P = "GetNumPartitions sz"
  have pc: "length cs = ?P * count" "0 < ?P" "0 < count"
    using cs partitions_split [of sz] by (simp_all add: sector_defs)
  have TT: "T @ replicate (ET - length T) 0 = T" using T(2) by simp
  note whole = combines_file [where T = T and N = N and parts = ?P and count = count, OF body pc]
  let ?w = "\<lambda>st. bind_result (bind_result (comb_header ?P st) (fold_result (\<lambda>i s2. bind_result (comb_header count s2)
      (fold_result (\<lambda>j s3. bind_result (copy_tree T tps s3) (copy_node N nps)) [0..<count])) [0..<?P]))
      (\<lambda>s4. bind_result (copy_tree T NODE_SIZE s4) (\<lambda>s5. bind_result (copy_tree T NODE_SIZE s5)
      (\<lambda>s6. bind_result (copy_node N NODE_SIZE s6) (\<lambda>s7. bind_result (copy_node N NODE_SIZE s7) (copy_node N NODE_SIZE)))))"
  have "combines T N ?w T N R"
    using combines_bind [OF whole combines_nodes3 [OF len]]
    unfolding T(1) N R(1) proof_file_append [of _ _ _ _ "_ @ _"] by simp
  then have "?w \<lparr>cb_out = (replicate E 0, 0), cb_tree = 0, cb_node = 0\<rparr> =
      Inr \<lparr>cb_out = (R, E), cb_tree = length T, cb_node = length N\<rparr>"
    using put_whole [OF R(2), of 0] by (simp add: combines_def)
  then show ?thesis
    using T(2) unfolding CombineProofs_def sizes Let_def TT
    by (simp add: bind_result_assoc)
       (simp add: bind_result_assoc [symmetric])
qed


section \<open>Challenges\<close>

lemma fold_vec_set:
  assumes "off + n \<le> length cs"
  shows "fold_result (\<lambda>i cs. vec_set cs (i + off) (f i)) [0..<n] cs = Inr (overlay off (map f [0..<n]) cs)"
  using assms
proof (induction n)
  case (Suc n)
  then show ?case by (simp add: fold_result_append overlay_snoc add.commute)
qed simp

lemma derive_loop:
  assumes "length cs = parts * n"
  shows "fold_result (\<lambda>k. fold_result (\<lambda>i cs. vec_set cs (i + k * n) (f (n * k + i))) [0..<n]) [0..<parts] cs =
    Inr (map f [0..<parts * n])"
proof -
  have "p \<le> parts \<Longrightarrow> fold_result (\<lambda>k. fold_result (\<lambda>i cs. vec_set cs (i + k * n) (f (n * k + i))) [0..<n]) [0..<p] cs =
      Inr (overlay 0 (map f [0..<p * n]) cs)" for p
  proof (induction p)
    case (Suc p)
    have le: "p * n + n \<le> parts * n" using mult_le_mono1 [OF Suc.prems, of n] by simp
    have "0 + length (map f [0..<p * n]) \<le> length cs" using Suc.prems by (simp add: assms)
    then have l0: "length (overlay 0 (map f [0..<p * n]) cs) = parts * n" using assms by (simp only: length_overlay)
    have u: "[n * p..<n * p + n] = map (\<lambda>i. n * p + i) [0..<n]"
      using map_add_upt [of "n * p" n] by (simp add: add.commute)
    have "[0..<Suc p * n] = [0..<p * n] @ [n * p..<n * p + n]"
      using upt_add_eq_append [of 0 "p * n" n] by (simp add: add.commute mult.commute)
    then have m: "map f [0..<Suc p * n] = map f [0..<p * n] @ map (\<lambda>i. f (n * p + i)) [0..<n]"
      unfolding u by (simp add: comp_def)
    have "fold_result (\<lambda>i cs. vec_set cs (i + p * n) (f (n * p + i))) [0..<n] (overlay 0 (map f [0..<p * n]) cs) =
        Inr (overlay (p * n) (map (\<lambda>i. f (n * p + i)) [0..<n]) (overlay 0 (map f [0..<p * n]) cs))"
      using le l0 by (intro fold_vec_set) simp
    also have "overlay (p * n) (map (\<lambda>i. f (n * p + i)) [0..<n]) (overlay 0 (map f [0..<p * n]) cs) =
        overlay 0 (map f [0..<Suc p * n]) cs"
      using overlay_append [of 0 "map f [0..<p * n]" "map (\<lambda>i. f (n * p + i)) [0..<n]" cs] le assms m by simp
    finally show ?case using Suc by (simp add: fold_result_append)
  qed simp
  from this [of parts] assms show ?thesis by (simp add: overlay_def)
qed

lemma DeriveChallenges_map:
  assumes "replica_id c1 = Some rid" "challenges_count c1 = GetNumChallenges sz div GetNumPartitions sz"
  shows "DeriveChallenges sha_block sha_emit sz sd c1 = Inr (c1\<lparr>seed := Some sd,
    challenges := map (derive_challenge sha_block sha_emit (GetNumLeaves sz) rid sd) [0..<GetNumChallenges sz]\<rparr>)"
proof -
  let ?n = "GetNumChallenges sz div GetNumPartitions sz" and ?d = "derive_challenge sha_block sha_emit (GetNumLeaves sz) rid sd"
  let ?g = "\<lambda>j. ?d (j mod 2 ^ 32)"
  have "map ?g [0..<GetNumChallenges sz] = map ?d [0..<GetNumChallenges sz]"
    by (auto simp: sector_defs split: if_splits)
  with derive_loop [of "replicate (GetNumChallenges sz) 0" "GetNumPartitions sz" ?n ?g] partitions_split [of sz]
  show ?thesis by (simp add: DeriveChallenges_def deref_def assms Let_def)
qed

lemma challenge_buf_padded:
  assumes "j < 2 ^ 16"
  shows "challenge_buf rid sd j =
    node_image rid @ node_image sd @ le_bytes 4 j @ [0x80] @ replicate 51 0 @ [0, 0, 0, 0, 0, 0, 0x02, 0x20]"
proof -
  have l: "length (node_image n) = 32" for n by (simp add: constant_defs)
  have z: "overlay 32 (node_image sd) (overlay 0 (node_image rid) (replicate 128 0)) =
      node_image rid @ node_image sd @ replicate 64 0"
    by (simp add: overlay_def l del: length_node_image)
  have b: "le_bytes 4 j = [of_nat (j mod 256), of_nat (j div 256 mod 256), 0, 0]"
  proof -
    have d: "j div 65536 = 0" "j div 16777216 = 0" using assms by simp_all
    have m: "(of_nat (x mod 256) :: 8 word) = of_nat x" for x
      by (simp add: word_of_nat_eq_iff take_bit_eq_mod)
    show ?thesis by (simp add: le_bytes_def upt_0_numeral m d)
  qed
  have u: "(x @ y @ zs)[64 + n := v] = x @ y @ zs[n := v]" if "length x = 32" "length y = 32"
    for x y zs :: bytes and n v
    using that by (simp add: list_update_append)
  have tl: "(replicate 64 0)[4 := a, 62 := b, 63 := c, 0 := d, Suc 0 := e] =
      [d, e, 0, 0] @ [a] @ replicate 51 0 @ [0, 0, 0, 0, 0, 0, b, c]" for a b c d e :: "8 word"
    by (rule nth_equalityI) (auto simp: nth_list_update nth_append nth_Cons')
  note us = u [OF l l, of _ _ _ 4] u [OF l l, of _ _ _ 62] u [OF l l, of _ _ _ 63] u [OF l l, of _ _ _ 0] u [OF l l, of _ _ _ 1]
  show ?thesis
    unfolding challenge_buf_def z b us [simplified] tl [simplified] by simp
qed


section \<open>Properties\<close>

text \<open>
  C27: challenge derivation: exactly the configured number of challenges is
  derived; challenge \<open>j\<close> is the little-endian SHA-256 digest of replica
  identifier, seed and \<open>j\<close> (as a 32-bit little-endian number, correctly padded to two
  blocks), reduced to a leaf index that is never the first leaf.
\<close>
theorem DeriveChallenges_correct:
  fixes s :: SectorSizeLg and rid sd :: node_t and sha_block :: "node_t \<Rightarrow> bytes \<Rightarrow> node_t" and sha_emit :: "node_t \<Rightarrow> node_t"
  defines "sz \<equiv> 2 ^ sector_lg s"
  defines "pad \<equiv> [0x80] @ replicate 51 0 @ [0, 0, 0, 0, 0, 0, 0x02, 0x20] :: bytes"
  defines "digest \<equiv> \<lambda>j. sha_emit (sha_two_blocks sha_block (node_image rid @ node_image sd @ le_bytes 4 j @ pad))"
  assumes "c1 = (C1_new sz)\<lparr>replica_id := Some rid\<rparr>"
  shows "\<exists>c1'. DeriveChallenges sha_block sha_emit sz sd c1 = Inr c1' \<and>
    challenges c1' = map (\<lambda>j. mpz_import (digest j) mod (GetNumLeaves sz - 1) + 1) [0..<GetNumChallenges sz] \<and>
    (\<forall>c \<in> set (challenges c1'). 0 < c \<and> c < GetNumLeaves sz)"
proof -
  have L: "1 < GetNumLeaves sz"
    unfolding sz_def GetNumLeaves_sector using sector_lg_bounds [of s] by (intro one_less_power) simp_all
  have "map (derive_challenge sha_block sha_emit (GetNumLeaves sz) rid sd) [0..<GetNumChallenges sz] =
      map (\<lambda>j. mpz_import (digest j) mod (GetNumLeaves sz - 1) + 1) [0..<GetNumChallenges sz]"
    by (rule map_cong) (auto simp: derive_challenge_def digest_def pad_def challenge_buf_padded sector_defs split: if_splits)
  moreover have "mpz_import (digest j) mod (GetNumLeaves sz - 1) + 1 < GetNumLeaves sz" for j
    using L mod_less_divisor [of "GetNumLeaves sz - 1" "mpz_import (digest j)"] by linarith
  ultimately show ?thesis
    using DeriveChallenges_map [of c1 rid sz sha_block sha_emit sd] assms(4) by (auto simp: C1_new_def)
qed

theorem DeriveChallenges_correct_witness:
  "\<exists>c1'. DeriveChallenges (\<lambda>d _. d) (\<lambda>d. d) (2 ^ sector_lg Sector2KB) [] ((C1_new (2 ^ sector_lg Sector2KB))\<lparr>replica_id := Some []\<rparr>)
     = Inr c1' \<and> length (challenges c1') = 2"
  using DeriveChallenges_correct [OF refl, where s = Sector2KB and rid = "[]" and sha_emit = "\<lambda>d. d"
      and sha_block = "\<lambda>d _. d" and sd = "[]"] by (auto simp: sector_defs)

text \<open>
  C25: the C1 output of a sector: for every sector size whose tree-R discards
  two rows, \<open>WriteProofs\<close> terminates without a failed assertion or an access
  outside a mapped file, and the file, of exactly the announced size, is the
  serialisation, per partition and challenge, of the tree-D and tree-R
  inclusion proofs and of the column and labelling proofs of the challenged
  node and its parents, followed by the commitments and identifiers.
\<close>
theorem WriteProofs_correct:
  fixes s :: SectorSizeLg
  defines "sz \<equiv> 2 ^ sector_lg s"
  assumes "c1_ready hash dhash sz k K xd xc xr c1" "do_tree \<or> do_node"
  shows "\<exists>f. WriteProofs hash reader sz do_tree do_node c1 = Inr f \<and>
    C1_ProofSize sz do_tree do_node = Inr (length f) \<and>
    f = proof_file (GetNumPartitions sz) (GetNumChallenges sz div GetNumPartitions sz) (challenges c1)
      (\<lambda>c. (if do_tree then tree_bytes hash dhash sz k xd xr c1 c else []) @
            (if do_node then node_bytes_of hash sz k xc reader c1 c else []))
      (c1_trailer do_tree do_node c1)"
proof -
  have lv: "GetNumTreeRCLevels sz = Inr k" and cnt: "challenges_count c1 = GetNumChallenges sz div GetNumPartitions sz"
    using assms(2) by (simp_all add: c1_ready_def)
  obtain tps nps where sizes: "tree_proof_size sz = Inr tps" "node_proof_size sz = Inr nps"
    by (simp add: tree_proof_size_def node_proof_size_def ColumnProof_ProofSize_def lv)
  show ?thesis
    using WriteProofs_bytes [OF assms(2) [unfolded sz_def] assms(3) sizes [unfolded sz_def], of reader, folded sz_def]
    unfolding cnt by blast
qed

definition example_c1 :: c1_t where
  "example_c1 =
     \<lparr>challenges = [1, 1000], challenges_count = 2, replica_id = Some [], ticket = Some [], seed = Some [],
      replica_buf = replicate (2 ^ 18) [],
      tree_r_bufs = map Some (sector_files (\<lambda>_. []) 3 (2 ^ 23) 6 (replicate (2 ^ 18) [])),
      tree_c_bufs = map Some (sector_files (\<lambda>_. []) 0 (2 ^ 23) 6 (replicate (2 ^ 18) [])),
      tree_d_buf = nullptr, tree_c_root = [], tree_r_root = [], comm_r = [], comm_d = Some [],
      parents_buf = replicate (2 ^ 18 * 14) 0\<rparr>"

lemma example_c1_ready:
  "c1_ready (\<lambda>_ _. []) (\<lambda>_. []) (2 ^ sector_lg Sector8MB) 6 6
     (replicate (2 ^ 18) []) (replicate (2 ^ 18) []) (replicate (2 ^ 18) []) example_c1"
  using log2_floor_pow2 [of 3] log2_floor_pow2 [of 18]
  by (simp add: c1_ready_def example_c1_def GetNumTreeRCLevels_def GetNumTreeDLevels_def sector_defs constant_defs
      del: replicate.simps)

theorem WriteProofs_correct_witness:
  "\<exists>f. WriteProofs (\<lambda>_ _. []) (\<lambda>_. []) (2 ^ sector_lg Sector8MB) True True example_c1 = Inr f \<and>
     C1_ProofSize (2 ^ sector_lg Sector8MB) True True = Inr (length f)"
  using WriteProofs_correct [OF example_c1_ready, of True True "\<lambda>_. []"] by blast

text \<open>
  C26: splitting the work is equivalent to doing it at once: \<open>CombineProofs\<close>
  applied to the file of the tree proofs and the file of the node proofs of a
  sector passes its three size assertions and produces, byte for byte, the file that
  \<open>WriteProofs\<close> writes with both.
\<close>
theorem CombineProofs_equiv:
  fixes s :: SectorSizeLg
  defines "sz \<equiv> 2 ^ sector_lg s"
  assumes "c1_ready hash dhash sz k K xd xc xr c1"
    and "WriteProofs hash reader sz True False c1 = Inr tree_file"
    and "WriteProofs hash reader sz False True c1 = Inr node_file"
  shows "CombineProofs sz (challenges_count c1) tree_file node_file = WriteProofs hash reader sz True True c1"
proof -
  let ?P = "GetNumPartitions sz" and ?n = "challenges_count c1"
  let ?tb = "tree_bytes hash dhash sz k xd xr c1" and ?nb = "node_bytes_of hash sz k xc reader c1"
  have lv: "GetNumTreeRCLevels sz = Inr k" and cnt: "?n = GetNumChallenges sz div ?P"
    "length (challenges c1) = GetNumChallenges sz" "\<forall>c \<in> set (challenges c1). c < GetNumLeaves sz"
    using assms(2) by (simp_all add: c1_ready_def)
  obtain tps nps where sizes: "tree_proof_size sz = Inr tps" "node_proof_size sz = Inr nps"
    by (simp add: tree_proof_size_def node_proof_size_def ColumnProof_ProofSize_def lv)
  note w = WriteProofs_bytes [OF assms(2) [unfolded sz_def] _ sizes [unfolded sz_def], of _ _ reader, folded sz_def]
  note e = emits_challenge [OF assms(2) [unfolded sz_def] _ sizes [unfolded sz_def], of _ _ _ reader, folded sz_def]
  have tb: "length (?tb c) = tps" if "c \<in> set (challenges c1)" for c
    using e [of c True False] cnt(3) that by (simp add: emits_def)
  have nb: "length (?nb c) = nps" if "c \<in> set (challenges c1)" for c
    using e [of c False True] cnt(3) that by (simp add: emits_def)
  let ?t = "node_image (comm_r c1)" and ?d = "node_image (the (comm_d c1))"
  let ?i = "node_image (the (replica_id c1))" and ?s = "node_image (the (seed c1))" and ?k = "node_image (the (ticket c1))"
  let ?T = "proof_file ?P ?n (challenges c1) ?tb (?t @ ?d)"
  let ?N = "proof_file ?P ?n (challenges c1) ?nb (?i @ ?s @ ?k)"
  let ?R = "proof_file ?P ?n (challenges c1) (\<lambda>c. ?tb c @ ?nb c) ((?t @ ?d) @ ?i @ ?s @ ?k)"
  have T: "tree_file = ?T" "C1_ProofSize sz True False = Inr (length ?T)"
    using w [of True False] assms(3) by (simp_all add: c1_trailer_def)
  have N: "node_file = ?N" using w [of False True] assms(4) by (simp add: c1_trailer_def)
  have R: "WriteProofs hash reader sz True True c1 = Inr ?R" "C1_ProofSize sz True True = Inr (length ?R)"
    using w [of True True] by (simp_all add: c1_trailer_def)
  have "CombineProofs sz ?n ?T ?N = Inr ?R"
    by (rule combine_bytes [OF tb nb cnt(2,1) _ _ _ _ _ sizes R(2) T(2) refl refl refl refl refl]) simp_all
  then show ?thesis using T(1) N R(1) by simp
qed

theorem CombineProofs_equiv_witness:
  "\<exists>tree_file node_file.
     WriteProofs (\<lambda>_ _. []) (\<lambda>_. []) (2 ^ sector_lg Sector8MB) True False example_c1 = Inr tree_file \<and>
     WriteProofs (\<lambda>_ _. []) (\<lambda>_. []) (2 ^ sector_lg Sector8MB) False True example_c1 = Inr node_file \<and>
     CombineProofs (2 ^ sector_lg Sector8MB) (challenges_count example_c1) tree_file node_file =
       WriteProofs (\<lambda>_ _. []) (\<lambda>_. []) (2 ^ sector_lg Sector8MB) True True example_c1"
proof -
  have lv: "GetNumTreeRCLevels (2 ^ sector_lg Sector8MB) = Inr 6"
    using example_c1_ready by (simp only: c1_ready_def)
  obtain tps nps where sizes: "tree_proof_size (2 ^ sector_lg Sector8MB) = Inr tps"
    "node_proof_size (2 ^ sector_lg Sector8MB) = Inr nps"
    by (simp only: tree_proof_size_def node_proof_size_def ColumnProof_ProofSize_def lv bind_result_simps)
  note w1 = WriteProofs_bytes [where do_tree = True and do_node = False and reader = "\<lambda>_. []", OF example_c1_ready _ sizes]
  note w2 = WriteProofs_bytes [where do_tree = False and do_node = True and reader = "\<lambda>_. []", OF example_c1_ready _ sizes]
  from w1 w2 show ?thesis
    using CombineProofs_equiv [where reader = "\<lambda>_. []", OF example_c1_ready] by blast
qed




text \<open>
  The last entry of the table is a placeholder: for a 64 GiB sector without
  a tree-D file the assertion on the levels passes and \<open>comm_d\<close> becomes the
  zero node, the same value as a leaf.
\<close>
theorem cc_64GB_placeholder:
  "GetNumTreeDLevels (2 ^ sector_lg Sector64GB) = 31 \<and>
   (\<forall>fs cache c1. node_files fs (snprintf256 (tree_name cache ''/sc-02-data-tree-d'' 1 0)) = None \<longrightarrow>
     SetTreeDBuf fs (2 ^ sector_lg Sector64GB) cache c1 =
       Inr (c1\<lparr>tree_d_buf := nullptr, comm_d := Some (replicate NODE_WORDS 0)\<rparr>))"
proof -
  have lv: "GetNumTreeDLevels (2 ^ sector_lg Sector64GB) = 31"
    using log2_floor_pow2 [of 31] by (simp add: GetNumTreeDLevels_def GetNumLeaves_def constant_defs)
  have "vec_get CC_TREE_D_NODE_VALUES 31 = Inr (replicate NODE_WORDS 0)"
    by (simp add: CC_entries(2) length_CC)
  with lv show ?thesis by (simp add: SetTreeDBuf_def)
qed

theorem cc_64GB_placeholder_witness:
  "SetTreeDBuf \<lparr>node_files = \<lambda>_. None, parent_files = \<lambda>_. None\<rparr> (2 ^ sector_lg Sector64GB) [] (C1_new (2 ^ 36)) =
     Inr ((C1_new (2 ^ 36))\<lparr>tree_d_buf := nullptr, comm_d := Some (replicate NODE_WORDS 0)\<rparr>)"
  using cc_64GB_placeholder [THEN conjunct2, rule_format,
      of "\<lparr>node_files = \<lambda>_. None, parent_files = \<lambda>_. None\<rparr>" "[]" "C1_new (2 ^ 36)"] by simp

end
