(* ===== verification/Poseidon.thy ===== *)
theory Poseidon
  imports Tree_Proof
begin

text \<open>
  The Poseidon hash: the CPU class (\<open>src/poseidon/poseidon.cpp\<close>) and the
  CUDA kernels with their launch code (\<open>src/poseidon/cuda/\<close>).

  A field element is a value of any commutative ring; the conversions from
  and to bytes and Montgomery form (of the field library) are parameters, as is the
  library's \<open>dot_product\<close>.  The constants of an arity are one list, as in the
  constants file, and the four pointers into it are offsets; every block that
  is read from it is bounds checked.

  A kernel launch is modelled as the function it computes on the whole grid:
  the threads of one hash exchange their elements through shared memory
  between barriers, so that a matrix product reads the elements of all threads
  of the hash as they were before the barrier.
\<close>

record 'f Poseidon =
  ps_arity :: nat
  partial_rounds :: nat
  half_full_rounds :: nat
  ps_t :: nat
  domain_tag :: 'f
  ps_consts :: "'f list"
  round_constants :: nat
  mds_matrix :: nat
  pre_sparse_matrix :: nat
  sparse_matrices :: nat

definition partial_rounds_map :: "(nat \<times> nat) list" where
  "partial_rounds_map = [(2, 55), (4, 56), (8, 57), (11, 57), (16, 59), (24, 59), (36, 60)]"

definition shl_one :: "nat \<Rightarrow> nat result" where
  "shl_one n = (if n < 31 then Inr (2 ^ n) else Inl UndefinedBehaviour)"

definition AssignPointers :: "'f Poseidon \<Rightarrow> 'f Poseidon" where
  "AssignPointers p =
     (let rc = 0;
          mds = rc + ps_t p * half_full_rounds p * 2 + partial_rounds p;
          pre = mds + ps_t p * ps_t p;
          sp = pre + ps_t p * ps_t p
      in p\<lparr>round_constants := rc, mds_matrix := mds, pre_sparse_matrix := pre, sparse_matrices := sp\<rparr>)"

definition Poseidon_new :: "(nat \<Rightarrow> 'f list) \<Rightarrow> nat \<Rightarrow> 'f :: comm_ring_1 Poseidon result" where
  "Poseidon_new constants_file a =
     bind_result (shl_one a) (\<lambda>tag.
     case map_of partial_rounds_map a of
       None \<Rightarrow> Inl UndefinedBehaviour
     | Some pr \<Rightarrow>
         Inr (AssignPointers
           \<lparr>ps_arity = a, partial_rounds = pr, half_full_rounds = 4, ps_t = a + 1, domain_tag = of_nat (tag - 1),
            ps_consts = constants_file a, round_constants = 0, mds_matrix = 0, pre_sparse_matrix = 0,
            sparse_matrices = 0\<rparr>))"

definition QuinticSBox :: "'f :: comm_ring_1 \<Rightarrow> 'f \<Rightarrow> 'f" where
  "QuinticSBox x round_constant = x ^ 5 + round_constant"

definition MatrixMul :: "nat \<Rightarrow> 'f :: comm_ring_1 list \<Rightarrow> 'f list \<Rightarrow> 'f list" where
  "MatrixMul t elements matrix =
     map (\<lambda>i. fold (\<lambda>j acc. acc + elements ! j * matrix ! (j * t + i)) [1..<t] (elements ! 0 * matrix ! i)) [0..<t]"

definition SparseMatrixMul :: "nat \<Rightarrow> 'f :: comm_ring_1 list \<Rightarrow> 'f list \<Rightarrow> 'f list" where
  "SparseMatrixMul t elements sparse =
     (let element0 = elements ! 0 in
      fold (\<lambda>i acc. acc + elements ! i * sparse ! i) [1..<t] (elements ! 0 * sparse ! 0) #
      map (\<lambda>i. elements ! i + element0 * sparse ! (t + i - 1)) [1..<t])"

definition RoundMatrixMul :: "'f :: comm_ring_1 Poseidon \<Rightarrow> 'f list \<Rightarrow> nat \<Rightarrow> 'f list result" where
  "RoundMatrixMul p elements current_round =
     (let t = ps_t p in
      if current_round = 3 then
        bind_result (get_block (ps_consts p) (pre_sparse_matrix p) (t * t)) (\<lambda>m. Inr (MatrixMul t elements m))
      else if current_round > 3 \<and> current_round < half_full_rounds p + partial_rounds p then
        let index = current_round - half_full_rounds p in
        bind_result (get_block (ps_consts p) (sparse_matrices p + (t * 2 - 1) * index) (t * 2 - 1)) (\<lambda>m.
        Inr (SparseMatrixMul t elements m))
      else
        bind_result (get_block (ps_consts p) (mds_matrix p) (t * t)) (\<lambda>m. Inr (MatrixMul t elements m)))"

record 'f round_state =
  elements :: "'f list"
  rk_offset :: nat
  current_round :: nat

definition FullRound :: "'f :: comm_ring_1 Poseidon \<Rightarrow> 'f round_state \<Rightarrow> 'f round_state result" where
  "FullRound p s =
     bind_result (get_block (ps_consts p) (round_constants p + rk_offset s) (ps_t p)) (\<lambda>rc.
     bind_result (RoundMatrixMul p (map (\<lambda>i. QuinticSBox (elements s ! i) (rc ! i)) [0..<ps_t p]) (current_round s)) (\<lambda>es.
     Inr \<lparr>elements = es, rk_offset = rk_offset s + ps_t p, current_round = current_round s + 1\<rparr>))"

definition PartialRound :: "'f :: comm_ring_1 Poseidon \<Rightarrow> 'f round_state \<Rightarrow> 'f round_state result" where
  "PartialRound p s =
     bind_result (vec_get (ps_consts p) (round_constants p + rk_offset s)) (\<lambda>rc.
     bind_result (RoundMatrixMul p ((elements s)[0 := QuinticSBox (elements s ! 0) rc]) (current_round s)) (\<lambda>es.
     Inr \<lparr>elements = es, rk_offset = rk_offset s + 1, current_round = current_round s + 1\<rparr>))"

definition LastFullRound :: "'f :: comm_ring_1 Poseidon \<Rightarrow> 'f list \<Rightarrow> 'f list result" where
  "LastFullRound p es =
     bind_result (get_block (ps_consts p) (mds_matrix p) (ps_t p * ps_t p)) (\<lambda>m.
     Inr (MatrixMul (ps_t p) (map (\<lambda>i. (es ! i) ^ 5) [0..<ps_t p]) m))"

fun repeat_result :: "nat \<Rightarrow> ('s \<Rightarrow> 's result) \<Rightarrow> 's \<Rightarrow> 's result" where
  "repeat_result 0 f s = Inr s"
| "repeat_result (Suc n) f s = bind_result (f s) (repeat_result n f)"

definition Hash_elements :: "'f :: comm_ring_1 Poseidon \<Rightarrow> 'f list \<Rightarrow> 'f result" where
  "Hash_elements p input =
     bind_result (get_block (ps_consts p) (round_constants p) (ps_t p)) (\<lambda>rc.
     let es = map (\<lambda>i. (domain_tag p # input) ! i + rc ! i) [0..<ps_t p];
         s0 = \<lparr>elements = es, rk_offset = ps_t p, current_round = 0\<rparr>
     in
     bind_result (repeat_result (half_full_rounds p) (FullRound p) s0) (\<lambda>s1.
     bind_result (repeat_result (partial_rounds p) (PartialRound p) s1) (\<lambda>s2.
     bind_result (repeat_result (half_full_rounds p - 1) (FullRound p) s2) (\<lambda>s3.
     bind_result (LastFullRound p (elements s3)) (\<lambda>es. Inr (es ! 1))))))"

definition Hash :: "('n \<Rightarrow> 'f) \<Rightarrow> ('f \<Rightarrow> 'n) \<Rightarrow> 'f :: comm_ring_1 Poseidon \<Rightarrow> 'n list \<Rightarrow> 'n result" where
  "Hash to_mont to_scalar p input =
     bind_result (get_block input 0 (ps_t p - 1)) (\<lambda>ns.
     bind_result (Hash_elements p (map to_mont ns)) (\<lambda>e. Inr (to_scalar e)))"


section \<open>The CUDA kernels\<close>

definition pow_5 :: "'f :: comm_ring_1 \<Rightarrow> 'f" where
  "pow_5 x = (let tmp = x * x; tmp = tmp * tmp in x * tmp)"

definition quintic_s_box :: "'f :: comm_ring_1 \<Rightarrow> 'f \<Rightarrow> 'f" where
  "quintic_s_box x round_constant = pow_5 x + round_constant"

definition matrix_mul :: "('f list \<Rightarrow> 'f list \<Rightarrow> 'f) \<Rightarrow> nat \<Rightarrow> nat \<Rightarrow> 'f list \<Rightarrow> 'f list \<Rightarrow> 'f list" where
  "matrix_mul dot_product t n matrix scratchpad =
     map (\<lambda>tid. dot_product (block t scratchpad (tid div t)) (map (\<lambda>j. matrix ! (tid mod t + j * t)) [0..<t])) [0..<n * t]"

definition sparse_matrix_mul :: "('f list \<Rightarrow> 'f list \<Rightarrow> 'f) \<Rightarrow> nat \<Rightarrow> 'f list \<Rightarrow> 'f list \<Rightarrow> 'f :: comm_ring_1 list" where
  "sparse_matrix_mul dot_product t es sparse =
     (let element0 = es ! 0 in
      (es ! 0 * sparse ! 0 + dot_product (drop 1 es) (take (t - 1) (drop 1 sparse))) #
      map (\<lambda>i. es ! i + element0 * sparse ! (t + i - 1)) [1..<t])"

definition gpu_full_round :: "('f list \<Rightarrow> 'f list \<Rightarrow> 'f) \<Rightarrow> 'f :: comm_ring_1 Poseidon \<Rightarrow> nat \<Rightarrow> 'f round_state \<Rightarrow>
    'f round_state result" where
  "gpu_full_round dot_product p n s =
     (let t = ps_t p; c = ps_consts p in
      bind_result (get_block c (round_constants p + rk_offset s) t) (\<lambda>rc.
      bind_result (get_block c (if current_round s = half_full_rounds p - 1 then pre_sparse_matrix p else mds_matrix p)
          (t * t)) (\<lambda>m.
      Inr \<lparr>elements = matrix_mul dot_product t n m
             (map (\<lambda>tid. quintic_s_box (elements s ! tid) (rc ! (tid mod t))) [0..<n * t]),
           rk_offset = rk_offset s + t, current_round = current_round s + 1\<rparr>)))"

definition gpu_partial_round :: "('f list \<Rightarrow> 'f list \<Rightarrow> 'f) \<Rightarrow> 'f :: comm_ring_1 Poseidon \<Rightarrow> 'f round_state \<Rightarrow>
    'f round_state result" where
  "gpu_partial_round dot_product p s =
     (let t = ps_t p; c = ps_consts p in
      bind_result (vec_get c (round_constants p + rk_offset s)) (\<lambda>rc.
      bind_result (get_block c (sparse_matrices p + (t * 2 - 1) * (current_round s - half_full_rounds p)) (t * 2 - 1)) (\<lambda>m.
      Inr \<lparr>elements = sparse_matrix_mul dot_product t
             ((elements s)[0 := quintic_s_box (elements s ! 0) rc]) m,
           rk_offset = rk_offset s + 1, current_round = current_round s + 1\<rparr>)))"

record hash_flags =
  to_mont :: bool
  from_mont :: bool
  do_bswap :: bool
  first_tree_c :: bool
  first_tree_r :: bool
  multi_in_ptr :: bool

definition input_index :: "hash_flags \<Rightarrow> nat \<Rightarrow> nat \<Rightarrow> nat \<Rightarrow> nat \<Rightarrow> nat \<Rightarrow> nat \<times> nat" where
  "input_index fl a num_hashes stride hash_num hash_input =
     (let num_batches = (num_hashes + stride - 1) div stride;
          node = hash_num mod num_batches;
          sector = hash_num div num_batches
      in
      if multi_in_ptr fl then
        let elements_per_hash_per_ptr = num_hashes div stride;
            element_idx = hash_num * a + (hash_input - 1);
            element_batch_idx = element_idx div elements_per_hash_per_ptr;
            element_batch_off = element_idx mod elements_per_hash_per_ptr;
            ptr_num = element_batch_idx mod a;
            ptr_idx = element_idx div (a * elements_per_hash_per_ptr) * elements_per_hash_per_ptr + element_batch_off
        in (ptr_num, ptr_idx)
      else if first_tree_c fl then (0, node * stride + sector + (hash_input - 1) * stride * num_batches)
      else if first_tree_r fl then (0, node * a * stride + sector + (hash_input - 1) * stride)
      else (0, hash_num * a + (hash_input - 1)))"

definition load_element :: "('f \<Rightarrow> 'f) \<Rightarrow> ('f \<Rightarrow> 'f) \<Rightarrow> hash_flags \<Rightarrow> nat \<Rightarrow> nat \<Rightarrow> nat \<Rightarrow> 'f list list \<Rightarrow> 'f \<Rightarrow> nat \<Rightarrow> 'f result"
where
  "load_element to bswap fl t num_hashes stride in_ptrs tag tid =
     (let hash_num = tid div t; hash_input = tid mod t in
      if hash_input = 0 then Inr tag
      else
        let (ptr_num, idx) = input_index fl (t - 1) num_hashes stride hash_num hash_input in
        bind_result (vec_get in_ptrs ptr_num) (\<lambda>b.
        bind_result (vec_get b idx) (\<lambda>x.
        let y = (if \<not> multi_in_ptr fl \<and> (first_tree_r fl \<or> first_tree_c fl) \<and> do_bswap fl then bswap x else x)
        in Inr (if to_mont fl then to y else y))))"

definition poseidon_hash_1_0 :: "('f list \<Rightarrow> 'f list \<Rightarrow> 'f) \<Rightarrow> ('f \<Rightarrow> 'f) \<Rightarrow> ('f \<Rightarrow> 'f) \<Rightarrow> 'f :: comm_ring_1 Poseidon \<Rightarrow>
    hash_flags \<Rightarrow> nat \<Rightarrow> nat \<Rightarrow> 'f list list \<Rightarrow> 'f list result" where
  "poseidon_hash_1_0 dot_product to bswap p fl num_hashes stride in_ptrs =
     (let t = ps_t p in
      if stride = 0 then Inl DivByZero
      else
        bind_result (map_result (load_element to bswap fl t num_hashes stride in_ptrs (domain_tag p)) [0..<num_hashes * t]) (\<lambda>es.
        bind_result (get_block (ps_consts p) (round_constants p) t) (\<lambda>rc.
        bind_result (repeat_result (half_full_rounds p) (gpu_full_round dot_product p num_hashes)
            \<lparr>elements = map (\<lambda>tid. es ! tid + rc ! (tid mod t)) [0..<num_hashes * t], rk_offset = t, current_round = 0\<rparr>)
          (\<lambda>s. Inr (elements s)))))"

definition poseidon_hash_2 :: "('f list \<Rightarrow> 'f list \<Rightarrow> 'f) \<Rightarrow> 'f :: comm_ring_1 Poseidon \<Rightarrow> nat \<Rightarrow> nat \<Rightarrow> nat \<Rightarrow>
    'f list \<Rightarrow> 'f list result" where
  "poseidon_hash_2 dot_product p rk cur n aux =
     bind_result (map_result (\<lambda>idx.
         bind_result (repeat_result (partial_rounds p) (gpu_partial_round dot_product p)
             \<lparr>elements = block (ps_t p) aux idx, rk_offset = rk, current_round = cur\<rparr>) (\<lambda>s. Inr (elements s))) [0..<n])
       (\<lambda>ess. Inr (concat ess))"

definition poseidon_hash_3 :: "('f list \<Rightarrow> 'f list \<Rightarrow> 'f) \<Rightarrow> 'f :: comm_ring_1 Poseidon \<Rightarrow> nat \<Rightarrow> nat \<Rightarrow> nat \<Rightarrow>
    'f list \<Rightarrow> 'f list result" where
  "poseidon_hash_3 dot_product p rk cur n aux =
     bind_result (repeat_result (half_full_rounds p - 1) (gpu_full_round dot_product p n)
         \<lparr>elements = aux, rk_offset = rk, current_round = cur\<rparr>) (\<lambda>s. Inr (map pow_5 (elements s)))"

definition poseidon_hash_4 :: "('f list \<Rightarrow> 'f list \<Rightarrow> 'f) \<Rightarrow> ('f \<Rightarrow> 'f) \<Rightarrow> 'f :: comm_ring_1 Poseidon \<Rightarrow> hash_flags \<Rightarrow> nat \<Rightarrow>
    'f list \<Rightarrow> 'f list result" where
  "poseidon_hash_4 dot_product from p fl n aux =
     (let t = ps_t p in
      bind_result (get_block (ps_consts p) (mds_matrix p) (t * t)) (\<lambda>m.
      Inr (map (\<lambda>idx. let r = dot_product (block t aux idx) (map (\<lambda>j. m ! (1 + j * t)) [0..<t])
                      in if from_mont fl then from r else r) [0..<n])))"

definition hash_batch_ptrs :: "('f list \<Rightarrow> 'f list \<Rightarrow> 'f) \<Rightarrow> ('f \<Rightarrow> 'f) \<Rightarrow> ('f \<Rightarrow> 'f) \<Rightarrow> ('f \<Rightarrow> 'f) \<Rightarrow>
    'f :: comm_ring_1 Poseidon \<Rightarrow> hash_flags \<Rightarrow> nat \<Rightarrow> nat \<Rightarrow> 'f list list \<Rightarrow> 'f list result" where
  "hash_batch_ptrs dot_product to from bswap p fl num_hashes stride in_d =
     bind_result (poseidon_hash_1_0 dot_product to bswap p fl num_hashes stride in_d) (\<lambda>a1.
     bind_result (poseidon_hash_2 dot_product p (ps_t p * (half_full_rounds p + 1)) (half_full_rounds p) num_hashes a1) (\<lambda>a2.
     bind_result (poseidon_hash_3 dot_product p (ps_t p * (half_full_rounds p + 1) + partial_rounds p)
         (half_full_rounds p + partial_rounds p) num_hashes a2)
       (poseidon_hash_4 dot_product from p fl num_hashes)))"

definition hash_batch_device_ptrs :: "('f list \<Rightarrow> 'f list \<Rightarrow> 'f) \<Rightarrow> ('f \<Rightarrow> 'f) \<Rightarrow> ('f \<Rightarrow> 'f) \<Rightarrow> ('f \<Rightarrow> 'f) \<Rightarrow>
    'f :: comm_ring_1 Poseidon \<Rightarrow> hash_flags \<Rightarrow> nat \<Rightarrow> nat \<Rightarrow> 'f list list \<Rightarrow> 'f list result" where
  "hash_batch_device_ptrs dot_product to from bswap p fl count stride in_d =
     (if stride = 0 then Inl DivByZero
      else bind_result (assert_that (count mod stride = 0)) (\<lambda>_.
        hash_batch_ptrs dot_product to from bswap p fl count stride in_d))"

definition hash_batch_device :: "('f list \<Rightarrow> 'f list \<Rightarrow> 'f) \<Rightarrow> ('f \<Rightarrow> 'f) \<Rightarrow> ('f \<Rightarrow> 'f) \<Rightarrow> ('f \<Rightarrow> 'f) \<Rightarrow>
    'f :: comm_ring_1 Poseidon \<Rightarrow> hash_flags \<Rightarrow> nat \<Rightarrow> nat \<Rightarrow> 'f list \<Rightarrow> 'f list result" where
  "hash_batch_device dot_product to from bswap p fl count stride in_d =
     hash_batch_device_ptrs dot_product to from bswap p (fl\<lparr>multi_in_ptr := False\<rparr>) count stride [in_d]"

definition hash_batch :: "('f list \<Rightarrow> 'f list \<Rightarrow> 'f) \<Rightarrow> ('f \<Rightarrow> 'f) \<Rightarrow> ('f \<Rightarrow> 'f) \<Rightarrow> ('f \<Rightarrow> 'f) \<Rightarrow>
    'f :: comm_ring_1 Poseidon \<Rightarrow> hash_flags \<Rightarrow> nat \<Rightarrow> nat \<Rightarrow> 'f list \<Rightarrow> 'f list result" where
  "hash_batch dot_product to from bswap p fl count stride input =
     (if stride = 0 then Inl DivByZero else
      let batch_count = (count + stride - 1) div stride; elements_per_arity = batch_count * stride in
      bind_result (get_block input 0 (ps_arity p * elements_per_arity)) (\<lambda>in_d.
      hash_batch_device dot_product to from bswap p fl count stride in_d))"


section \<open>Reference definition\<close>

definition vecmat :: "nat \<Rightarrow> 'f :: comm_ring_1 list \<Rightarrow> 'f list \<Rightarrow> 'f list" where
  "vecmat t es m = map (\<lambda>i. \<Sum>j<t. es ! j * m ! (j * t + i)) [0..<t]"

definition dense :: "nat \<Rightarrow> 'f :: comm_ring_1 list \<Rightarrow> 'f list" where
  "dense t sp = map (\<lambda>k. let j = k div t; i = k mod t in
     if i = 0 then sp ! j else if j = 0 then sp ! (t + i - 1) else if i = j then 1 else 0) [0..<t * t]"

record 'f poseidon_consts =
  pc_t :: nat
  pc_partial :: nat
  pc_rc :: "nat \<Rightarrow> 'f"
  pc_pre :: "'f list"
  pc_mds :: "'f list"
  pc_sparse :: "nat \<Rightarrow> 'f list"

definition spec_round :: "'f :: comm_ring_1 poseidon_consts \<Rightarrow> nat \<Rightarrow> 'f list \<Rightarrow> 'f list" where
  "spec_round pc r es =
     (let t = pc_t pc in
      if r < 4 then vecmat t (map (\<lambda>i. es ! i ^ 5 + pc_rc pc (t * Suc r + i)) [0..<t]) (if r = 3 then pc_pre pc else pc_mds pc)
      else if r < 4 + pc_partial pc then
        vecmat t (es[0 := es ! 0 ^ 5 + pc_rc pc (t * 5 + (r - 4))]) (dense t (pc_sparse pc (r - 4)))
      else vecmat t (map (\<lambda>i. es ! i ^ 5 +
          (if r < 7 + pc_partial pc then pc_rc pc (t * 5 + pc_partial pc + t * (r - 4 - pc_partial pc) + i) else 0)) [0..<t])
        (pc_mds pc))"

definition poseidon_spec :: "'f :: comm_ring_1 poseidon_consts \<Rightarrow> 'f \<Rightarrow> 'f list \<Rightarrow> 'f" where
  "poseidon_spec pc tag input =
     fold (spec_round pc) [0..<8 + pc_partial pc] (map (\<lambda>i. (tag # input) ! i + pc_rc pc i) [0..<pc_t pc]) ! 1"

definition consts_of :: "'f Poseidon \<Rightarrow> 'f poseidon_consts" where
  "consts_of p =
     \<lparr>pc_t = ps_t p, pc_partial = partial_rounds p, pc_rc = (\<lambda>i. ps_consts p ! i),
      pc_pre = take (ps_t p * ps_t p) (drop (pre_sparse_matrix p) (ps_consts p)),
      pc_mds = take (ps_t p * ps_t p) (drop (mds_matrix p) (ps_consts p)),
      pc_sparse = (\<lambda>i. take (ps_t p * 2 - 1) (drop (sparse_matrices p + (ps_t p * 2 - 1) * i) (ps_consts p)))\<rparr>"

definition layout_size :: "nat \<Rightarrow> nat \<Rightarrow> nat" where
  "layout_size t pr = t * 8 + pr + 2 * (t * t) + (t * 2 - 1) * pr"

definition poseidon_ok :: "'f :: comm_ring_1 Poseidon \<Rightarrow> bool" where
  "poseidon_ok p \<longleftrightarrow> 2 < ps_t p \<and> half_full_rounds p = 4 \<and> 0 < partial_rounds p \<and> p = AssignPointers p \<and>
     length (ps_consts p) = layout_size (ps_t p) (partial_rounds p)"


section \<open>Matrix products\<close>

lemma fold_plus_sum:
  "fold (\<lambda>j acc. acc + f j) [1..<Suc n] a = a + (\<Sum>j = 1..<Suc n. (f j :: 'f :: comm_ring_1))"
  by (induction n) (simp_all add: add.assoc)

lemma sum_from_1: "0 < (t :: nat) \<Longrightarrow> (\<Sum>j<t. f j) = f 0 + (\<Sum>j = 1..<t. (f j :: 'f :: comm_ring_1))"
  by (cases t) (simp_all add: lessThan_atLeast0 sum.atLeast_Suc_lessThan del: sum.lessThan_Suc)

lemma fold_dot: "0 < t \<Longrightarrow> fold (\<lambda>j acc. acc + f j) [1..<t] (f 0) = (\<Sum>j<t. (f j :: 'f :: comm_ring_1))"
  using fold_plus_sum [of f "t - 1" "f 0"] sum_from_1 [of t f] by simp

lemma MatrixMul_vecmat: "0 < t \<Longrightarrow> MatrixMul t es m = vecmat t es m"
  unfolding MatrixMul_def vecmat_def by (intro map_cong refl) (simp add: fold_dot [where f = "\<lambda>j. es ! j * m ! (j * t + _)", simplified])

lemma nth_dense: "j < t \<Longrightarrow> i < t \<Longrightarrow> dense t sp ! (j * t + i) =
    (if i = 0 then sp ! j else if j = 0 then sp ! (t + i - 1) else if i = j then 1 else 0)"
proof -
  assume a: "j < t" "i < t"
  have "Suc j * t \<le> t * t" using a(1) by (intro mult_le_mono1) simp
  then have "j * t + i < t * t" using a(2) by simp
  with a show ?thesis by (simp add: dense_def Let_def)
qed

lemma SparseMatrixMul_vecmat:
  assumes "0 < t" "length es = t"
  shows "SparseMatrixMul t es sp = vecmat t es (dense t sp)"
proof (rule nth_equalityI)
  show "length (SparseMatrixMul t es sp) = length (vecmat t es (dense t sp))"
    using assms by (simp add: SparseMatrixMul_def vecmat_def)
next
  fix i
  assume "i < length (SparseMatrixMul t es sp)"
  then have i: "i < t" using assms by (simp add: SparseMatrixMul_def)
  show "SparseMatrixMul t es sp ! i = vecmat t es (dense t sp) ! i"
  proof (cases "i = 0")
    case True
    have "(\<Sum>j<t. es ! j * dense t sp ! (j * t)) = (\<Sum>j<t. es ! j * sp ! j)"
      using nth_dense [of _ t 0 sp] assms(1) by (intro sum.cong) simp_all
    with True assms(1) show ?thesis
      using fold_dot [of t "\<lambda>j. es ! j * sp ! j"] by (simp add: SparseMatrixMul_def vecmat_def Let_def)
  next
    case False
    then have i1: "1 \<le> i" by simp
    have "(\<Sum>j<t. es ! j * dense t sp ! (j * t + i)) =
        (\<Sum>j<t. (if j = 0 then es ! 0 * sp ! (t + i - 1) else 0) + (if j = i then es ! i else 0))"
      using nth_dense [OF _ i, of _ sp] False by (intro sum.cong) auto
    also have "\<dots> = es ! 0 * sp ! (t + i - 1) + es ! i"
      using assms(1) i by (simp add: sum.distrib)
    finally show ?thesis
      using False i i1 by (simp add: SparseMatrixMul_def vecmat_def Let_def nth_Cons' add.commute)
  qed
qed


section \<open>The CPU implementation\<close>

lemma length_vecmat [simp]: "length (vecmat t es m) = t"
  by (simp add: vecmat_def)

lemma length_spec_round [simp]: "length (spec_round pc r es) = pc_t pc"
  by (simp add: spec_round_def Let_def)

lemma consts_of_sizes [simp]: "pc_t (consts_of p) = ps_t p" "pc_partial (consts_of p) = partial_rounds p"
  by (simp_all add: consts_of_def)

lemma poseidon_layout:
  assumes "poseidon_ok p"
  shows "round_constants p = 0" "mds_matrix p = ps_t p * 8 + partial_rounds p"
    "pre_sparse_matrix p = ps_t p * 8 + partial_rounds p + ps_t p * ps_t p"
    "sparse_matrices p = ps_t p * 8 + partial_rounds p + 2 * (ps_t p * ps_t p)"
proof -
  have p: "p = AssignPointers p" "half_full_rounds p = 4" using assms by (simp_all add: poseidon_ok_def)
  have "round_constants (AssignPointers p) = 0" "mds_matrix (AssignPointers p) = ps_t p * 8 + partial_rounds p"
    "pre_sparse_matrix (AssignPointers p) = ps_t p * 8 + partial_rounds p + ps_t p * ps_t p"
    "sparse_matrices (AssignPointers p) = ps_t p * 8 + partial_rounds p + 2 * (ps_t p * ps_t p)"
    using p(2) by (simp_all add: AssignPointers_def Let_def)
  with p(1) show "round_constants p = 0" "mds_matrix p = ps_t p * 8 + partial_rounds p"
    "pre_sparse_matrix p = ps_t p * 8 + partial_rounds p + ps_t p * ps_t p"
    "sparse_matrices p = ps_t p * 8 + partial_rounds p + 2 * (ps_t p * ps_t p)" by metis+
qed

lemma poseidon_blocks:
  assumes "poseidon_ok p"
  shows "get_block (ps_consts p) (mds_matrix p) (ps_t p * ps_t p) = Inr (pc_mds (consts_of p))"
    "get_block (ps_consts p) (pre_sparse_matrix p) (ps_t p * ps_t p) = Inr (pc_pre (consts_of p))"
    "i < partial_rounds p \<Longrightarrow> get_block (ps_consts p) (sparse_matrices p + (ps_t p * 2 - 1) * i) (ps_t p * 2 - 1) =
      Inr (pc_sparse (consts_of p) i)"
    "r + ps_t p \<le> ps_t p * 8 + partial_rounds p \<Longrightarrow>
      get_block (ps_consts p) (round_constants p + r) (ps_t p) = Inr (take (ps_t p) (drop r (ps_consts p)))"
    "r < ps_t p * 8 + partial_rounds p \<Longrightarrow> vec_get (ps_consts p) (round_constants p + r) = Inr (pc_rc (consts_of p) r)"
proof -
  note l = poseidon_layout [OF assms]
  have len: "length (ps_consts p) = ps_t p * 8 + partial_rounds p + 2 * (ps_t p * ps_t p) + (ps_t p * 2 - 1) * partial_rounds p"
    using assms by (simp add: poseidon_ok_def layout_size_def)
  show "get_block (ps_consts p) (mds_matrix p) (ps_t p * ps_t p) = Inr (pc_mds (consts_of p))"
    "get_block (ps_consts p) (pre_sparse_matrix p) (ps_t p * ps_t p) = Inr (pc_pre (consts_of p))"
    by (simp_all add: get_block_def l len consts_of_def)
  show "get_block (ps_consts p) (sparse_matrices p + (ps_t p * 2 - 1) * i) (ps_t p * 2 - 1) = Inr (pc_sparse (consts_of p) i)"
    if "i < partial_rounds p"
  proof -
    have "(ps_t p * 2 - 1) * Suc i \<le> (ps_t p * 2 - 1) * partial_rounds p" using that by (intro mult_le_mono2) simp
    then have "sparse_matrices p + (ps_t p * 2 - 1) * i + (ps_t p * 2 - 1) \<le> length (ps_consts p)"
      unfolding l len by simp
    then show ?thesis by (simp add: get_block_def consts_of_def)
  qed
  show "r + ps_t p \<le> ps_t p * 8 + partial_rounds p \<Longrightarrow>
      get_block (ps_consts p) (round_constants p + r) (ps_t p) = Inr (take (ps_t p) (drop r (ps_consts p)))"
    by (simp add: get_block_def l len)
  show "r < ps_t p * 8 + partial_rounds p \<Longrightarrow> vec_get (ps_consts p) (round_constants p + r) = Inr (pc_rc (consts_of p) r)"
    by (simp add: l len consts_of_def)
qed

definition rk_of :: "'f Poseidon \<Rightarrow> nat \<Rightarrow> nat" where
  "rk_of p r = (if r \<le> 4 then ps_t p * Suc r
     else if r \<le> 4 + partial_rounds p then ps_t p * 5 + (r - 4)
     else ps_t p * 5 + partial_rounds p + ps_t p * (r - 4 - partial_rounds p))"

definition full_index :: "'f Poseidon \<Rightarrow> nat \<Rightarrow> bool" where
  "full_index p r \<longleftrightarrow> r < 4 \<or> 4 + partial_rounds p \<le> r \<and> r < 7 + partial_rounds p"

lemma rk_full:
  assumes "poseidon_ok p" "full_index p r"
  shows "rk_of p r + ps_t p = rk_of p (Suc r)" "rk_of p r + ps_t p \<le> ps_t p * 8 + partial_rounds p"
proof -
  have p: "0 < partial_rounds p" using assms(1) by (simp add: poseidon_ok_def)
  show "rk_of p r + ps_t p = rk_of p (Suc r)"
  proof (cases "r < 4")
    case False
    then obtain d where "r = 4 + partial_rounds p + d"
      using assms(2) by (auto simp: full_index_def dest!: le_Suc_ex)
    with p show ?thesis by (auto simp: rk_of_def)
  qed (simp add: rk_of_def)
  show "rk_of p r + ps_t p \<le> ps_t p * 8 + partial_rounds p"
  proof (cases "r < 4")
    case True
    then have "ps_t p * Suc (Suc r) \<le> ps_t p * 8" by (intro mult_le_mono2) simp
    moreover have "rk_of p r + ps_t p = ps_t p * Suc (Suc r)" using True by (simp add: rk_of_def)
    ultimately show ?thesis by linarith
  next
    case False
    then have r: "4 + partial_rounds p \<le> r" "r < 7 + partial_rounds p" using assms(2) by (simp_all add: full_index_def)
    then have "ps_t p * Suc (r - 4 - partial_rounds p) \<le> ps_t p * 3" by (intro mult_le_mono2) simp
    moreover have "rk_of p r = ps_t p * 5 + partial_rounds p + ps_t p * (r - 4 - partial_rounds p)"
      using r(1) p by (auto simp: rk_of_def)
    ultimately show ?thesis by simp
  qed
qed

lemma spec_full:
  assumes "poseidon_ok p" "full_index p r"
  shows "spec_round (consts_of p) r es =
    vecmat (ps_t p) (map (\<lambda>i. es ! i ^ 5 + ps_consts p ! (rk_of p r + i)) [0..<ps_t p])
      (if r = 3 then pc_pre (consts_of p) else pc_mds (consts_of p))"
  using assms by (auto simp: full_index_def spec_round_def rk_of_def consts_of_def Let_def poseidon_ok_def)

lemma FullRound_spec:
  assumes "poseidon_ok p" "full_index p r"
  shows "FullRound p \<lparr>elements = es, rk_offset = rk_of p r, current_round = r\<rparr> =
    Inr \<lparr>elements = spec_round (consts_of p) r es, rk_offset = rk_of p (Suc r), current_round = Suc r\<rparr>"
proof -
  have t: "0 < ps_t p" "half_full_rounds p = 4" using assms(1) by (simp_all add: poseidon_ok_def)
  note rk = rk_full [OF assms]
  note b = poseidon_blocks [OF assms(1)]
  have len: "rk_of p r + ps_t p \<le> length (ps_consts p)"
    using b(4) [OF rk(2)] poseidon_layout(1) [OF assms(1)] by (simp add: get_block_def split: if_splits)
  have m: "map (\<lambda>i. QuinticSBox (es ! i) (take (ps_t p) (drop (rk_of p r) (ps_consts p)) ! i)) [0..<ps_t p] =
      map (\<lambda>i. es ! i ^ 5 + ps_consts p ! (rk_of p r + i)) [0..<ps_t p]"
    using len by (simp add: QuinticSBox_def)
  have "RoundMatrixMul p xs r = Inr (vecmat (ps_t p) xs (if r = 3 then pc_pre (consts_of p) else pc_mds (consts_of p)))" for xs
    using assms(2) t b(1,2) by (auto simp: RoundMatrixMul_def Let_def full_index_def MatrixMul_vecmat)
  then show ?thesis
    unfolding spec_full [OF assms] by (simp add: FullRound_def b(4) [OF rk(2)] m rk(1))
qed

lemma PartialRound_spec:
  assumes "poseidon_ok p" "4 \<le> r" "r < 4 + partial_rounds p" "length es = ps_t p"
  shows "PartialRound p \<lparr>elements = es, rk_offset = rk_of p r, current_round = r\<rparr> =
    Inr \<lparr>elements = spec_round (consts_of p) r es, rk_offset = rk_of p (Suc r), current_round = Suc r\<rparr>"
proof -
  have t: "0 < ps_t p" "half_full_rounds p = 4" using assms(1) by (simp_all add: poseidon_ok_def)
  have rk: "rk_of p r = ps_t p * 5 + (r - 4)" "rk_of p (Suc r) = Suc (rk_of p r)"
    "rk_of p r < ps_t p * 8 + partial_rounds p"
    using assms(2,3) by (auto simp: rk_of_def)
  have i: "r - 4 < partial_rounds p" using assms(2,3) by simp
  note b = poseidon_blocks [OF assms(1)]
  have "spec_round (consts_of p) r es = vecmat (ps_t p) (es[0 := QuinticSBox (es ! 0) (pc_rc (consts_of p) (rk_of p r))])
      (dense (ps_t p) (pc_sparse (consts_of p) (r - 4)))"
    using assms(2,3) by (simp add: spec_round_def Let_def rk(1) QuinticSBox_def consts_of_def)
  then show ?thesis
    using assms(2-4) t
    by (simp add: PartialRound_def b(5) [OF rk(3)] RoundMatrixMul_def b(2) b(3) [OF i, unfolded One_nat_def] Let_def rk(2) SparseMatrixMul_vecmat)
qed

lemma repeat_rounds:
  assumes "\<And>r es. a \<le> r \<Longrightarrow> r < a + n \<Longrightarrow> length es = t \<Longrightarrow>
      f \<lparr>elements = es, rk_offset = rk r, current_round = r\<rparr> =
      Inr \<lparr>elements = g r es, rk_offset = rk (Suc r), current_round = Suc r\<rparr> \<and> length (g r es) = t"
    "length es = t"
  shows "repeat_result n f \<lparr>elements = es, rk_offset = rk a, current_round = a\<rparr> =
      Inr \<lparr>elements = fold g [a..<a + n] es, rk_offset = rk (a + n), current_round = a + n\<rparr>"
    "length (fold g [a..<a + n] es) = t"
  using assms
proof (induction n arbitrary: a es)
  case (Suc n)
  {
    case 1
    from 1(1) [of a es] 1(2) Suc.IH(1) [of "Suc a" "g a es"] 1 show ?case
      by (simp add: upt_conv_Cons del: upt_Suc)
  next
    case 2
    from 2(1) [of a es] 2(2) Suc.IH(2) [of "Suc a" "g a es"] 2 show ?case
      by (simp add: upt_conv_Cons del: upt_Suc)
  }
qed simp_all

lemma Hash_elements_spec:
  assumes "poseidon_ok p" "length input = ps_t p - 1"
  shows "Hash_elements p input = Inr (poseidon_spec (consts_of p) (domain_tag p) input)"
proof -
  let ?t = "ps_t p" and ?pr = "partial_rounds p" and ?g = "spec_round (consts_of p)"
  have h: "half_full_rounds p = 4" "2 < ?t" "0 < ?pr" using assms(1) by (simp_all add: poseidon_ok_def)
  note b = poseidon_blocks [OF assms(1)]
  let ?e0 = "map (\<lambda>i. (domain_tag p # input) ! i + pc_rc (consts_of p) i) [0..<?t]"
  have l0: "length ?e0 = ?t" by simp
  have gb: "get_block (ps_consts p) (round_constants p) ?t = Inr (take ?t (ps_consts p))"
    using b(4) [of 0] by simp
  have "?t \<le> length (ps_consts p)" using gb poseidon_layout(1) [OF assms(1)] by (simp add: get_block_def split: if_splits)
  then have e0: "map (\<lambda>i. (domain_tag p # input) ! i + take ?t (ps_consts p) ! i) [0..<?t] = ?e0"
    by (simp add: consts_of_def)
  have full: "FullRound p \<lparr>elements = es, rk_offset = rk_of p r, current_round = r\<rparr> =
      Inr \<lparr>elements = ?g r es, rk_offset = rk_of p (Suc r), current_round = Suc r\<rparr> \<and> length (?g r es) = ?t"
    if "full_index p r" for r es using FullRound_spec [OF assms(1) that] by simp
  have part: "PartialRound p \<lparr>elements = es, rk_offset = rk_of p r, current_round = r\<rparr> =
      Inr \<lparr>elements = ?g r es, rk_offset = rk_of p (Suc r), current_round = Suc r\<rparr> \<and> length (?g r es) = ?t"
    if "4 \<le> r" "r < 4 + ?pr" "length es = ?t" for r es
    using PartialRound_spec [OF assms(1) that] by simp
  have rk0: "rk_of p 0 = ?t" by (simp add: rk_of_def)
  let ?e1 = "fold ?g [0..<4] ?e0"
  have r1: "repeat_result 4 (FullRound p) \<lparr>elements = ?e0, rk_offset = ?t, current_round = 0\<rparr> =
      Inr \<lparr>elements = ?e1, rk_offset = rk_of p 4, current_round = 4\<rparr>" and l1: "length ?e1 = ?t"
    using repeat_rounds [of 0 4 ?t "FullRound p" "rk_of p" ?g ?e0] full l0 rk0 by (simp_all add: full_index_def)
  let ?e2 = "fold ?g [4..<4 + ?pr] ?e1"
  have r2: "repeat_result ?pr (PartialRound p) \<lparr>elements = ?e1, rk_offset = rk_of p 4, current_round = 4\<rparr> =
      Inr \<lparr>elements = ?e2, rk_offset = rk_of p (4 + ?pr), current_round = 4 + ?pr\<rparr>" and l2: "length ?e2 = ?t"
    using repeat_rounds [of 4 ?pr ?t "PartialRound p" "rk_of p" ?g ?e1] part l1 by simp_all
  let ?e3 = "fold ?g [4 + ?pr..<4 + ?pr + 3] ?e2"
  have r3: "repeat_result 3 (FullRound p) \<lparr>elements = ?e2, rk_offset = rk_of p (4 + ?pr), current_round = 4 + ?pr\<rparr> =
      Inr \<lparr>elements = ?e3, rk_offset = rk_of p (4 + ?pr + 3), current_round = 4 + ?pr + 3\<rparr>" and l3: "length ?e3 = ?t"
    using repeat_rounds [of "4 + ?pr" 3 ?t "FullRound p" "rk_of p" ?g ?e2] full l2 by (simp_all add: full_index_def)
  have last: "LastFullRound p ?e3 = Inr (?g (7 + ?pr) ?e3)"
    using h by (simp add: LastFullRound_def b(1) MatrixMul_vecmat spec_round_def Let_def)
  have "[0..<8 + ?pr] = [0..<4] @ [4..<4 + ?pr] @ [4 + ?pr..<4 + ?pr + 3] @ [7 + ?pr]"
  proof -
    have "[0..<8 + ?pr] = [0..<4 + ?pr + 3] @ [7 + ?pr]" using upt_Suc_append [of 0 "7 + ?pr"] by (simp add: add.commute)
    moreover have "[0..<4 + ?pr + 3] = [0..<4] @ [4..<4 + ?pr] @ [4 + ?pr..<4 + ?pr + 3]"
      using upt_add_eq_append [of 0 4 ?pr] upt_add_eq_append [of 0 "4 + ?pr" 3] by simp
    ultimately show ?thesis by simp
  qed
  then have sp: "poseidon_spec (consts_of p) (domain_tag p) input = ?g (7 + ?pr) ?e3 ! 1"
    by (simp add: poseidon_spec_def)
  show ?thesis
    unfolding Hash_elements_def gb Let_def bind_result_simps e0 h(1) r1 r2
    by (simp add: r3 [simplified] last [simplified] sp [simplified])
qed


section \<open>The GPU implementation\<close>

lemma pow_5: "pow_5 x = x ^ 5"
  by (simp add: pow_5_def Let_def numeral_eq_Suc mult.assoc)

locale field_library =
  fixes dot_product :: "'f :: comm_ring_1 list \<Rightarrow> 'f list \<Rightarrow> 'f"
  assumes dot_product_sum: "length xs = length ys \<Longrightarrow> dot_product xs ys = (\<Sum>i<length xs. xs ! i * ys ! i)"
begin

lemma matrix_mul_grid:
  assumes "\<And>h. h < n \<Longrightarrow> length (f h) = t" "0 < t"
  shows "matrix_mul dot_product t n m (concat (map f [0..<n])) = concat (map (\<lambda>h. vecmat t (f h) m) [0..<n])"
proof -
  have "matrix_mul dot_product t n m (concat (map f [0..<n])) =
      concat (map (\<lambda>h. map (\<lambda>i. dot_product (block t (concat (map f [0..<n])) h) (map (\<lambda>j. m ! (i + j * t)) [0..<t])) [0..<t]) [0..<n])"
    unfolding matrix_mul_def
    by (rule grid_map [OF assms(2), of "\<lambda>h i. dot_product (block t (concat (map f [0..<n])) h) (map (\<lambda>j. m ! (i + j * t)) [0..<t])"])
  also have "\<dots> = concat (map (\<lambda>h. vecmat t (f h) m) [0..<n])"
  proof (intro arg_cong [where f = concat] map_cong refl)
    fix h
    assume "h \<in> set [0..<n]"
    then have h: "h < n" by simp
    have "dot_product (f h) (map (\<lambda>j. m ! (i + j * t)) [0..<t]) = (\<Sum>j<t. f h ! j * m ! (j * t + i))" for i
      using assms(1) [OF h] dot_product_sum [of "f h" "map (\<lambda>j. m ! (i + j * t)) [0..<t]"]
      by (simp add: add.commute)
    moreover have "block t (concat (map f [0..<n])) h = f h" by (intro block_grid assms(1) h)
    ultimately show "map (\<lambda>i. dot_product (block t (concat (map f [0..<n])) h) (map (\<lambda>j. m ! (i + j * t)) [0..<t])) [0..<t] =
        vecmat t (f h) m"
      unfolding vecmat_def by simp
  qed
  finally show ?thesis .
qed

lemma gpu_full_round_grid:
  assumes "poseidon_ok p" "full_index p r" "\<And>h. h < n \<Longrightarrow> length (f h) = ps_t p"
  shows "gpu_full_round dot_product p n \<lparr>elements = concat (map f [0..<n]), rk_offset = rk_of p r, current_round = r\<rparr> =
    Inr \<lparr>elements = concat (map (\<lambda>h. spec_round (consts_of p) r (f h)) [0..<n]),
      rk_offset = rk_of p (Suc r), current_round = Suc r\<rparr>"
proof -
  let ?t = "ps_t p" and ?rc = "take (ps_t p) (drop (rk_of p r) (ps_consts p))"
  have t: "0 < ?t" "half_full_rounds p = 4" using assms(1) by (simp_all add: poseidon_ok_def)
  note rk = rk_full [OF assms(1,2)]
  note b = poseidon_blocks [OF assms(1)]
  have len: "rk_of p r + ?t \<le> length (ps_consts p)"
    using b(4) [OF rk(2)] poseidon_layout(1) [OF assms(1)] by (simp add: get_block_def split: if_splits)
  have "map (\<lambda>tid. quintic_s_box (concat (map f [0..<n]) ! tid) (?rc ! (tid mod ?t))) [0..<n * ?t] =
      map (\<lambda>tid. quintic_s_box (f (tid div ?t) ! (tid mod ?t)) (?rc ! (tid mod ?t))) [0..<n * ?t]"
    using nth_grid [of n f ?t] assms(3) by (intro map_cong) simp_all
  also have "\<dots> = concat (map (\<lambda>h. map (\<lambda>i. quintic_s_box (f h ! i) (?rc ! i)) [0..<?t]) [0..<n])"
    by (rule grid_map [OF t(1), of "\<lambda>h i. quintic_s_box (f h ! i) (?rc ! i)"])
  also have "\<dots> = concat (map (\<lambda>h. map (\<lambda>i. f h ! i ^ 5 + ps_consts p ! (rk_of p r + i)) [0..<?t]) [0..<n])"
    using len by (intro arg_cong [where f = concat] map_cong refl) (simp add: quintic_s_box_def pow_5)
  finally have q: "map (\<lambda>tid. quintic_s_box (concat (map f [0..<n]) ! tid) (?rc ! (tid mod ?t))) [0..<n * ?t] =
      concat (map (\<lambda>h. map (\<lambda>i. f h ! i ^ 5 + ps_consts p ! (rk_of p r + i)) [0..<?t]) [0..<n])" .
  have m: "get_block (ps_consts p) (if r = 4 - 1 then pre_sparse_matrix p else mds_matrix p) (?t * ?t) =
      Inr (if r = 3 then pc_pre (consts_of p) else pc_mds (consts_of p))" using b(1,2) by simp
  have mm: "matrix_mul dot_product ?t n M (concat (map (\<lambda>h. map (g h) [0..<?t]) [0..<n])) =
      concat (map (\<lambda>h. vecmat ?t (map (g h) [0..<?t]) M) [0..<n])" for M g
    using matrix_mul_grid [of n "\<lambda>h. map (g h) [0..<?t]" ?t] t(1) by simp
  show ?thesis
    unfolding spec_full [OF assms(1,2)] gpu_full_round_def Let_def round_state.simps t(2) m b(4) [OF rk(2)]
      bind_result_simps q mm rk(1) by simp
qed

lemma gpu_partial_round_eq:
  assumes "poseidon_ok p" "4 \<le> r" "r < 4 + partial_rounds p" "length es = ps_t p"
  shows "gpu_partial_round dot_product p \<lparr>elements = es, rk_offset = rk_of p r, current_round = r\<rparr> =
    Inr \<lparr>elements = spec_round (consts_of p) r es, rk_offset = rk_of p (Suc r), current_round = Suc r\<rparr>"
proof -
  let ?t = "ps_t p" and ?m = "pc_sparse (consts_of p) (r - 4)"
  have t: "0 < ?t" "half_full_rounds p = 4" using assms(1) by (simp_all add: poseidon_ok_def)
  note b = poseidon_blocks [OF assms(1)]
  have i: "r - 4 < partial_rounds p" using assms(2,3) by simp
  have lm: "length ?m = ?t * 2 - 1"
    using b(3) [OF i] by (auto simp: get_block_def consts_of_def split: if_splits)
  have rk: "rk_of p r = ?t * 5 + (r - 4)" "rk_of p (Suc r) = Suc (rk_of p r)" "rk_of p r < ?t * 8 + partial_rounds p"
    using assms(2,3) by (auto simp: rk_of_def)
  have sm: "sparse_matrix_mul dot_product ?t xs ?m = SparseMatrixMul ?t xs ?m" if "length xs = ?t" for xs
  proof -
    have "dot_product (drop 1 xs) (take (?t - 1) (drop 1 ?m)) = (\<Sum>j<?t - 1. xs ! Suc j * ?m ! Suc j)"
      using dot_product_sum [of "drop 1 xs" "take (?t - 1) (drop 1 ?m)"] that lm t(1) by simp
    moreover have "fold (\<lambda>j acc. acc + xs ! j * ?m ! j) [1..<?t] (xs ! 0 * ?m ! 0) =
        xs ! 0 * ?m ! 0 + (\<Sum>j<?t - 1. xs ! Suc j * ?m ! Suc j)"
      using fold_dot [OF t(1), of "\<lambda>j. xs ! j * ?m ! j"] sum.lessThan_Suc_shift [of "\<lambda>j. xs ! j * ?m ! j" "?t - 1"] t(1)
      by simp
    ultimately show ?thesis by (simp add: sparse_matrix_mul_def SparseMatrixMul_def Let_def)
  qed
  have "PartialRound p \<lparr>elements = es, rk_offset = rk_of p r, current_round = r\<rparr> =
      gpu_partial_round dot_product p \<lparr>elements = es, rk_offset = rk_of p r, current_round = r\<rparr>"
    using assms(2-4) t sm [of "es[0 := _]"]
    by (simp add: PartialRound_def gpu_partial_round_def b(5) [OF rk(3)] RoundMatrixMul_def b(2)
        b(3) [OF i, unfolded One_nat_def] Let_def QuinticSBox_def quintic_s_box_def pow_5)
  then show ?thesis using PartialRound_spec [OF assms] by simp
qed

lemma gpu_full_rounds:
  assumes "poseidon_ok p" "\<And>r. a \<le> r \<Longrightarrow> r < a + m \<Longrightarrow> full_index p r" "\<And>h. h < n \<Longrightarrow> length (f h) = ps_t p"
  shows "repeat_result m (gpu_full_round dot_product p n)
      \<lparr>elements = concat (map f [0..<n]), rk_offset = rk_of p a, current_round = a\<rparr> =
    Inr \<lparr>elements = concat (map (\<lambda>h. fold (spec_round (consts_of p)) [a..<a + m] (f h)) [0..<n]),
      rk_offset = rk_of p (a + m), current_round = a + m\<rparr>"
  using assms(2,3)
proof (induction m arbitrary: a f)
  case (Suc m)
  from Suc.prems(1) [of a] have "full_index p a" by simp
  note gpu_full_round_grid [OF assms(1) this Suc.prems(2)]
  moreover have "repeat_result m (gpu_full_round dot_product p n)
      \<lparr>elements = concat (map (\<lambda>h. spec_round (consts_of p) a (f h)) [0..<n]), rk_offset = rk_of p (Suc a), current_round = Suc a\<rparr> =
    Inr \<lparr>elements = concat (map (\<lambda>h. fold (spec_round (consts_of p)) [Suc a..<Suc a + m] (spec_round (consts_of p) a (f h))) [0..<n]),
      rk_offset = rk_of p (Suc a + m), current_round = Suc a + m\<rparr>"
    using Suc.prems(1) by (intro Suc.IH) simp_all
  ultimately show ?case by (simp add: upt_conv_Cons del: upt_Suc)
qed simp

lemma length_fold_rounds:
  "length es = pc_t pc \<Longrightarrow> length (fold (spec_round pc) rs es) = pc_t pc"
  by (induction rs arbitrary: es) simp_all

lemma kernel_2:
  assumes "poseidon_ok p" "\<And>h. h < n \<Longrightarrow> length (f h) = ps_t p"
  shows "poseidon_hash_2 dot_product p (ps_t p * 5) 4 n (concat (map f [0..<n])) =
    Inr (concat (map (\<lambda>h. fold (spec_round (consts_of p)) [4..<4 + partial_rounds p] (f h)) [0..<n]))"
proof -
  have rk: "rk_of p 4 = ps_t p * 5" by (simp add: rk_of_def)
  have "bind_result (repeat_result (partial_rounds p) (gpu_partial_round dot_product p)
      \<lparr>elements = block (ps_t p) (concat (map f [0..<n])) h, rk_offset = ps_t p * 5, current_round = 4\<rparr>) (\<lambda>s. Inr (elements s)) =
    Inr (fold (spec_round (consts_of p)) [4..<4 + partial_rounds p] (f h))" if "h \<in> set [0..<n]" for h
  proof -
    have h: "h < n" using that by simp
    have "block (ps_t p) (concat (map f [0..<n])) h = f h" by (intro block_grid assms(2) h)
    with repeat_rounds(1) [of 4 "partial_rounds p" "ps_t p" "gpu_partial_round dot_product p" "rk_of p"
        "spec_round (consts_of p)" "f h"] gpu_partial_round_eq [OF assms(1)] assms(2) [OF h] rk
    show ?thesis by simp
  qed
  from map_result_Inr [of "[0..<n]", OF this] show ?thesis by (simp add: poseidon_hash_2_def)
qed

lemma kernels_spec:
  assumes "poseidon_ok p" "0 < stride" "\<And>h. h < n \<Longrightarrow> length (inp h) = ps_t p - 1"
    and load: "\<And>h i. h < n \<Longrightarrow> i < ps_t p \<Longrightarrow>
      load_element to bswap fl (ps_t p) n stride in_d (domain_tag p) (h * ps_t p + i) = Inr ((domain_tag p # inp h) ! i)"
  shows "hash_batch_ptrs dot_product to from bswap p fl n stride in_d =
    Inr (map (\<lambda>h. let r = poseidon_spec (consts_of p) (domain_tag p) (inp h) in if from_mont fl then from r else r) [0..<n])"
proof -
  let ?t = "ps_t p" and ?pr = "partial_rounds p" and ?g = "spec_round (consts_of p)"
  have h: "half_full_rounds p = 4" "2 < ?t" "0 < ?pr" using assms(1) by (simp_all add: poseidon_ok_def)
  note b = poseidon_blocks [OF assms(1)]
  let ?f0 = "\<lambda>h. map (\<lambda>i. (domain_tag p # inp h) ! i + pc_rc (consts_of p) i) [0..<?t]"
  have gb: "get_block (ps_consts p) (round_constants p) ?t = Inr (take ?t (ps_consts p))" using b(4) [of 0] by simp
  have lc: "?t \<le> length (ps_consts p)" using gb poseidon_layout(1) [OF assms(1)] by (simp add: get_block_def split: if_splits)
  let ?ld = "map (\<lambda>tid. (domain_tag p # inp (tid div ?t)) ! (tid mod ?t)) [0..<n * ?t]"
  have "map_result (load_element to bswap fl ?t n stride in_d (domain_tag p)) [0..<n * ?t] = Inr ?ld"
  proof (rule map_result_Inr)
    fix tid
    assume "tid \<in> set [0..<n * ?t]"
    then have "tid div ?t < n" "tid mod ?t < ?t" using h(2) by (simp_all add: less_mult_imp_div_less)
    from load [OF this] show "load_element to bswap fl ?t n stride in_d (domain_tag p) tid =
        Inr ((domain_tag p # inp (tid div ?t)) ! (tid mod ?t))" by simp
  qed
  moreover have "map (\<lambda>tid. ?ld ! tid + take ?t (ps_consts p) ! (tid mod ?t)) [0..<n * ?t] =
      map (\<lambda>tid. (domain_tag p # inp (tid div ?t)) ! (tid mod ?t) + pc_rc (consts_of p) (tid mod ?t)) [0..<n * ?t]"
    using lc h(2) by (intro map_cong refl) (simp add: consts_of_def)
  moreover have "\<dots> = concat (map ?f0 [0..<n])"
    using h(2) by (intro grid_map [where G = "\<lambda>h i. (domain_tag p # inp h) ! i + pc_rc (consts_of p) i"]) simp
  moreover have "rk_of p 0 = ?t" by (simp add: rk_of_def)
  moreover have "repeat_result 4 (gpu_full_round dot_product p n)
      \<lparr>elements = concat (map ?f0 [0..<n]), rk_offset = rk_of p 0, current_round = 0\<rparr> =
    Inr \<lparr>elements = concat (map (\<lambda>h. fold ?g [0..<0 + 4] (?f0 h)) [0..<n]), rk_offset = rk_of p (0 + 4), current_round = 0 + 4\<rparr>"
    by (rule gpu_full_rounds [OF assms(1)]) (simp_all add: full_index_def)
  ultimately have k1: "poseidon_hash_1_0 dot_product to bswap p fl n stride in_d =
      Inr (concat (map (\<lambda>h. fold ?g [0..<4] (?f0 h)) [0..<n]))"
    using assms(2) by (simp add: poseidon_hash_1_0_def Let_def gb h(1))
  let ?f1 = "\<lambda>h. fold ?g [0..<4] (?f0 h)" and ?f2 = "\<lambda>h. fold ?g [4..<4 + ?pr] (fold ?g [0..<4] (?f0 h))"
  have l1: "length (?f1 h) = ?t" and l2: "length (?f2 h) = ?t" for h
    using length_fold_rounds [of _ "consts_of p"] by simp_all
  let ?f3 = "\<lambda>h. fold ?g [4 + ?pr..<4 + ?pr + 3] (?f2 h)"
  have l3: "length (?f3 h) = ?t" for h using l2 length_fold_rounds [of _ "consts_of p"] by simp
  have "rk_of p (4 + ?pr) = ?t * 5 + ?pr" using h(3) by (simp add: rk_of_def)
  moreover have "repeat_result 3 (gpu_full_round dot_product p n)
      \<lparr>elements = concat (map ?f2 [0..<n]), rk_offset = rk_of p (4 + ?pr), current_round = 4 + ?pr\<rparr> =
    Inr \<lparr>elements = concat (map ?f3 [0..<n]), rk_offset = rk_of p (4 + ?pr + 3), current_round = 4 + ?pr + 3\<rparr>"
    using l2 by (intro gpu_full_rounds [OF assms(1)]) (simp_all add: full_index_def)
  ultimately have k3: "poseidon_hash_3 dot_product p (?t * 5 + ?pr) (4 + ?pr) n (concat (map ?f2 [0..<n])) =
      Inr (concat (map (\<lambda>h. map pow_5 (?f3 h)) [0..<n]))"
    by (simp add: poseidon_hash_3_def h(1) map_concat comp_def)
  have out: "dot_product (map pow_5 (?f3 h)) (map (\<lambda>j. pc_mds (consts_of p) ! (1 + j * ?t)) [0..<?t]) =
      poseidon_spec (consts_of p) (domain_tag p) (inp h)" for h
  proof -
    have "[0..<8 + ?pr] = [0..<4] @ [4..<4 + ?pr] @ [4 + ?pr..<4 + ?pr + 3] @ [7 + ?pr]"
    proof -
      have "[0..<8 + ?pr] = [0..<4 + ?pr + 3] @ [7 + ?pr]" using upt_Suc_append [of 0 "7 + ?pr"] by (simp add: add.commute)
      moreover have "[0..<4 + ?pr + 3] = [0..<4] @ [4..<4 + ?pr] @ [4 + ?pr..<4 + ?pr + 3]"
        using upt_add_eq_append [of 0 4 ?pr] upt_add_eq_append [of 0 "4 + ?pr" 3] by simp
      ultimately show ?thesis by simp
    qed
    then have "poseidon_spec (consts_of p) (domain_tag p) (inp h) = ?g (7 + ?pr) (?f3 h) ! 1"
      by (simp add: poseidon_spec_def)
    also have "\<dots> = (\<Sum>j<?t. ?f3 h ! j ^ 5 * pc_mds (consts_of p) ! (j * ?t + 1))"
      using h(2) by (simp add: spec_round_def Let_def vecmat_def)
    also have "\<dots> = dot_product (map pow_5 (?f3 h)) (map (\<lambda>j. pc_mds (consts_of p) ! (1 + j * ?t)) [0..<?t])"
      using dot_product_sum [of "map pow_5 (?f3 h)" "map (\<lambda>j. pc_mds (consts_of p) ! (1 + j * ?t)) [0..<?t]"] l3 [of h]
      by (simp add: pow_5 add.commute)
    finally show ?thesis by simp
  qed
  have blk: "block ?t (concat (map (\<lambda>h. map pow_5 (?f3 h)) [0..<n])) idx = map pow_5 (?f3 idx)" if "idx < n" for idx
    using that l3 by (intro block_grid) simp_all
  have k4: "poseidon_hash_4 dot_product from p fl n (concat (map (\<lambda>h. map pow_5 (?f3 h)) [0..<n])) =
      Inr (map (\<lambda>h. let r = poseidon_spec (consts_of p) (domain_tag p) (inp h) in if from_mont fl then from r else r) [0..<n])"
    unfolding poseidon_hash_4_def Let_def b(1) bind_result_simps
    by (intro arg_cong [where f = Inr] map_cong refl) (simp only: set_upt atLeastLessThan_iff blk out)
  have k2: "poseidon_hash_2 dot_product p (?t * 5) 4 n (concat (map ?f1 [0..<n])) = Inr (concat (map ?f2 [0..<n]))"
    using l1 by (intro kernel_2 [OF assms(1)])
  have c: "?t * (4 + 1) = ?t * 5" by simp
  show ?thesis
    unfolding hash_batch_ptrs_def h(1) c k1 bind_result_simps k2 k3 k4 ..
qed

end

definition dot_sum :: "'f :: comm_ring_1 list \<Rightarrow> 'f list \<Rightarrow> 'f" where
  "dot_sum xs ys = (\<Sum>i<length xs. xs ! i * ys ! i)"

interpretation sum_library: field_library dot_sum
  by unfold_locales (simp add: dot_sum_def)


section \<open>Where the inputs of a hash come from\<close>

definition gathered :: "hash_flags \<Rightarrow> nat \<Rightarrow> nat \<Rightarrow> nat \<Rightarrow> 'f list list \<Rightarrow> nat \<Rightarrow> nat \<Rightarrow> 'f" where
  "gathered fl a B stride in_d h i =
     (let sector = h div B; node = h mod B; q = node * a + i in
      if multi_in_ptr fl then in_d ! (q div B) ! (sector * B + q mod B)
      else if first_tree_c fl then in_d ! 0 ! ((i * B + node) * stride + sector)
      else if first_tree_r fl then in_d ! 0 ! (q * stride + sector)
      else in_d ! 0 ! (h * a + i))"

definition converted :: "('f \<Rightarrow> 'f) \<Rightarrow> ('f \<Rightarrow> 'f) \<Rightarrow> hash_flags \<Rightarrow> 'f \<Rightarrow> 'f" where
  "converted to bswap fl x =
     (let y = (if \<not> multi_in_ptr fl \<and> (first_tree_r fl \<or> first_tree_c fl) \<and> do_bswap fl then bswap x else x)
      in if to_mont fl then to y else y)"

lemma multi_index:
  fixes a B h i :: nat
  assumes "0 < B" "i < a"
  defines "q \<equiv> h mod B * a + i" and "s \<equiv> h div B"
  shows "(h * a + i) div B mod a = q div B" "(h * a + i) div (a * B) * B + (h * a + i) mod B = s * B + q mod B"
    "q < a * B"
proof -
  have "h mod B < B" using assms(1) by simp
  then have "Suc (h mod B) * a \<le> B * a" by (intro mult_le_mono1) simp
  then show q: "q < a * B" using assms(2) by (simp add: q_def mult.commute)
  have e: "h * a + i = s * (a * B) + q"
    using div_mult_mod_eq [of h B] by (metis add_mult_distrib add.assoc mult.assoc mult.commute q_def s_def)
  have e2: "h * a + i = s * a * B + q" using e by (simp add: mult.assoc)
  have "(h * a + i) div B = s * a + q div B" using assms(1) e2 by simp
  moreover have "q div B < a" using q by (simp add: less_mult_imp_div_less)
  ultimately show "(h * a + i) div B mod a = q div B" by simp
  have "0 < a * B" using assms(1,2) by simp
  then have "(s * (a * B) + q) div (a * B) = s + q div (a * B)" by (intro div_mult_self3) linarith
  then have "(h * a + i) div (a * B) = s" unfolding e div_less [OF q] by (simp only: add_0_right)
  moreover have "(h * a + i) mod B = q mod B" using e2 by simp
  ultimately show "(h * a + i) div (a * B) * B + (h * a + i) mod B = s * B + q mod B" by simp
qed

lemma load_gathered:
  assumes "0 < B" "0 < stride" "h < B * stride" "i < a"
    and bufs: "if multi_in_ptr fl then length in_d = a \<and> (\<forall>b \<in> set in_d. length b = B * stride)
      else in_d \<noteq> [] \<and> length (in_d ! 0) = a * (B * stride)"
  shows "load_element to bswap fl (a + 1) (B * stride) stride in_d tag (h * (a + 1) + Suc i) =
    Inr (converted to bswap fl (gathered fl a B stride in_d h i))"
proof -
  let ?s = "h div B" and ?n = "h mod B" and ?q = "h mod B * a + i"
  have tid: "(h * (a + 1) + Suc i) div (a + 1) = h" "(h * (a + 1) + Suc i) mod (a + 1) = Suc i"
    using assms(4) div_mult_self3 [of "a + 1" h "Suc i"] mod_mult_self3 [of h "a + 1" "Suc i"] by simp_all
  have nb: "(B * stride + stride - 1) div stride = B" "B * stride div stride = B"
    using assms(2) div_ceil_exact [of stride B] by (simp_all add: div_ceil_def)
  note m = multi_index [OF assms(1,4), of h]
  have s: "?s < stride" using assms(3) by (simp add: less_mult_imp_div_less mult.commute)
  have n: "?n < B" using assms(1) by simp
  have sN: "?s * B + r < B * stride" if "r < B" for r
  proof -
    have "Suc ?s * B \<le> stride * B" using s by (intro mult_le_mono1) simp
    then show ?thesis using that by (simp add: mult.commute)
  qed
  have row: "x * stride + ?s < a * (B * stride)" if "x < a * B" for x
  proof -
    have "Suc x * stride \<le> a * B * stride" using that by (intro mult_le_mono1) simp
    then show ?thesis using s by (simp add: mult.assoc)
  qed
  have ci: "i * B + ?n < a * B"
  proof -
    have "Suc i * B \<le> a * B" using assms(4) by (intro mult_le_mono1) simp
    then show ?thesis using n by simp
  qed
  have pk: "h * a + i < a * (B * stride)"
  proof -
    have "Suc h * a \<le> B * stride * a" using assms(3) by (intro mult_le_mono1) simp
    then show ?thesis using assms(4) by (simp add: mult.commute)
  qed
  have tc: "?n * stride + ?s + i * stride * B = (i * B + ?n) * stride + ?s"
    "?n * a * stride + ?s + i * stride = ?q * stride + ?s"
    by (simp_all add: algebra_simps)
  show ?thesis
  proof (cases "multi_in_ptr fl")
    case True
    have "?q div B < a" using m(3) by (simp add: less_mult_imp_div_less)
    with True bufs m(1,2) sN [of "?q mod B"] assms(1) show ?thesis
      unfolding load_element_def input_index_def Let_def tid nb
      by (simp add: gathered_def converted_def Let_def)
  next
    case False
    with bufs row [OF ci] row [OF m(3)] pk show ?thesis
      unfolding load_element_def input_index_def Let_def tid nb
      by (simp add: gathered_def converted_def Let_def tc)
  qed
qed

definition constants_len :: "nat \<Rightarrow> nat option" where
  "constants_len a = map_of [(2, 11904), (4, 20800), (8, 40320), (11, 56064), (16, 87040), (24, 140800), (36, 239168)] a"

definition fr_bytes :: nat where
  "fr_bytes = 32"

lemma Poseidon_new_fields:
  assumes "map_of partial_rounds_map a = Some pr" "a < 31" "1 < a" "0 < pr"
    "length (constants_file a) = layout_size (a + 1) pr"
  shows "\<exists>p. Poseidon_new constants_file a = Inr p \<and> poseidon_ok p \<and> ps_t p = a + 1 \<and>
    domain_tag p = of_nat (2 ^ a - 1) \<and> ps_consts p = constants_file a"
  using assms by (simp add: Poseidon_new_def shl_one_def poseidon_ok_def AssignPointers_def Let_def)

lemma constants_fit:
  assumes "constants_len a = Some len" "n * fr_bytes = len"
  shows "\<exists>pr. map_of partial_rounds_map a = Some pr \<and> 0 < pr \<and> 1 < a \<and> n = layout_size (a + 1) pr"
proof -
  have "a = 2 \<and> len = 11904 \<or> a = 4 \<and> len = 20800 \<or> a = 8 \<and> len = 40320 \<or> a = 11 \<and> len = 56064 \<or>
      a = 16 \<and> len = 87040 \<or> a = 24 \<and> len = 140800 \<or> a = 36 \<and> len = 239168"
    using assms(1) by (auto simp: constants_len_def split: if_splits)
  then show ?thesis
    using assms(2) by (elim disjE) (simp_all add: partial_rounds_map_def layout_size_def fr_bytes_def)
qed

lemma Poseidon_new_ok:
  fixes constants_file :: "nat \<Rightarrow> 'f :: comm_ring_1 list"
  assumes "constants_len a = Some len" "length (constants_file a) * fr_bytes = len" "a < 31"
  shows "\<exists>p. Poseidon_new constants_file a = Inr p \<and> poseidon_ok p \<and> ps_t p = a + 1 \<and>
    domain_tag p = of_nat (2 ^ a - 1) \<and> ps_consts p = constants_file a"
  using constants_fit [OF assms(1,2)] assms(3) Poseidon_new_fields by blast


lemma Poseidon_new_36: "Poseidon_new constants_file 36 = Inl UndefinedBehaviour"
  by (simp add: Poseidon_new_def shl_one_def partial_rounds_map_def)


lemma gpu_hash_spec:
  fixes p :: "'f :: comm_ring_1 Poseidon"
  assumes dot: "\<forall>xs ys. length xs = length ys \<longrightarrow> dot_product xs ys = (\<Sum>i<length xs. xs ! i * ys ! i)"
    and p: "poseidon_ok p" "ps_t p = a + 1"
    and pos: "0 < B" "0 < stride"
    and bufs: "if multi_in_ptr fl then length in_d = a \<and> (\<forall>b \<in> set in_d. length b = B * stride)
      else in_d \<noteq> [] \<and> length (in_d ! 0) = a * (B * stride)"
  shows "hash_batch_device_ptrs dot_product to from bswap p fl (B * stride) stride in_d =
    Inr (map (\<lambda>h. let r = poseidon_spec (consts_of p) (domain_tag p)
        (map (\<lambda>i. converted to bswap fl (gathered fl a B stride in_d h i)) [0..<a]) in if from_mont fl then from r else r) [0..<B * stride])"
proof -
  let ?inp = "\<lambda>h. map (\<lambda>i. converted to bswap fl (gathered fl a B stride in_d h i)) [0..<a]"
  have fl: "field_library dot_product" using dot by unfold_locales blast
  have "hash_batch_ptrs dot_product to from bswap p fl (B * stride) stride in_d =
      Inr (map (\<lambda>h. let r = poseidon_spec (consts_of p) (domain_tag p) (?inp h) in if from_mont fl then from r else r) [0..<B * stride])"
  proof (rule field_library.kernels_spec [OF fl p(1) pos(2)])
    fix h i
    assume h: "h < B * stride" and i: "i < ps_t p"
    show "load_element to bswap fl (ps_t p) (B * stride) stride in_d (domain_tag p) (h * ps_t p + i) =
        Inr ((domain_tag p # ?inp h) ! i)"
    proof (cases i)
      case 0
      then show ?thesis by (simp add: load_element_def Let_def)
    next
      case (Suc j)
      then have "j < a" using i p(2) by simp
      with load_gathered [OF pos h this bufs, of to bswap "domain_tag p"] Suc p(2) show ?thesis by simp
    qed
  qed (simp add: p(2))
  then show ?thesis using pos(2) by (simp add: hash_batch_device_ptrs_def)
qed


section \<open>Properties\<close>

text \<open>
  C32: for every arity with a domain tag that fits an \<open>int\<close> the constants
  file has exactly the size that the pointer layout needs, so that
  \<open>Poseidon::Hash\<close> never reads outside it, and the hash is the reference
  permutation: four full rounds, the partial rounds with the sparse matrices
  (as dense matrix products), four full rounds, element one of the state, on
  the domain tag \<open>2 ^ arity - 1\<close> followed by the inputs.
\<close>
theorem Poseidon_Hash_correct:
  fixes constants_file :: "nat \<Rightarrow> 'f :: comm_ring_1 list"
  assumes "constants_len a = Some len" "length (constants_file a) * fr_bytes = len" "a < 31" "length ns = a"
  shows "\<exists>p. Poseidon_new constants_file a = Inr p \<and>
    Hash to to_scalar p ns = Inr (to_scalar (poseidon_spec (consts_of p) (of_nat (2 ^ a - 1)) (map to ns)))"
proof -
  obtain p where p: "Poseidon_new constants_file a = Inr p" "poseidon_ok p" "ps_t p = a + 1"
    "domain_tag p = of_nat (2 ^ a - 1)"
    using Poseidon_new_ok [of a len constants_file] assms(1-3) by blast
  have "get_block ns 0 (ps_t p - 1) = Inr ns" using assms(4) p(3) by (simp add: get_block_def)
  moreover have "Hash_elements p (map to ns) = Inr (poseidon_spec (consts_of p) (of_nat (2 ^ a - 1)) (map to ns))"
    using Hash_elements_spec [OF p(2), of "map to ns"] assms(4) p(3,4) by simp
  ultimately show ?thesis using p(1) by (simp add: Hash_def)
qed

theorem Poseidon_Hash_correct_witness:
  "\<exists>p. Poseidon_new (\<lambda>_. replicate 372 (1 :: int)) 2 = Inr p \<and>
    Hash id id p [5, 6] = Inr (poseidon_spec (consts_of p) 3 [5, 6])"
  using Poseidon_Hash_correct [of 2 11904 "\<lambda>_. replicate 372 (1 :: int)" "[5, 6]" id id]
  by (simp add: constants_len_def fr_bytes_def)



end
