(* ===== verification/Tree_Builder_MT.thy ===== *)
theory Tree_Builder_MT
  imports Tree_Builder
begin

text \<open>
  The builder over a thread pool of \<open>src/pc1/tree_builder.hpp\<close>.

  The chunks of a tree run on the threads of the pool.  Every chunk reads
  only the leaves and the nodes it has written itself, and the chunks write to
  disjoint parts of the output, so a run of \<open>pool.par_map\<close> is modelled by the
  order in which the chunks take effect: a list of chunk numbers, of which the
  documented behaviour of \<open>par_map\<close> (of the thread pool library) says that it holds
  every number below the chunk count once.  The properties hold for every such
  order.

  The second part has the generic facts: rows of nodes of which every chunk
  writes its own slice.  The owner of a position in the rows is the only
  chunk that writes it.
\<close>

partial_function (option) grow_chunks :: "nat \<Rightarrow> nat \<Rightarrow> nat \<Rightarrow> nat option" where
  "grow_chunks a min_chunks num_chunks =
     (if num_chunks < min_chunks then grow_chunks a min_chunks (num_chunks * a) else Some num_chunks)"

partial_function (option) chunk_loop ::
    "('n list \<Rightarrow> 'n) \<Rightarrow> nat \<Rightarrow> nat \<Rightarrow> pointer \<Rightarrow> nat \<Rightarrow> nat \<Rightarrow> nat \<Rightarrow> pointer \<Rightarrow> pointer \<Rightarrow> int \<Rightarrow> 'n store \<Rightarrow>
      'n store result option" where
  "chunk_loop hash a chunk out_p cur_count layer_size layer_out_start src dst discards mem =
     (if cur_count > 1 then
        case hash_row hash a (div_ceil cur_count a) src dst mem of
          Inl e \<Rightarrow> Some (Inl e)
        | Inr mem' \<Rightarrow>
            if discards - 1 = 1 then
              chunk_loop hash a chunk out_p (cur_count div a) (layer_size div a) layer_out_start
                dst (RDisc, 0) (discards - 1) mem'
            else if discards - 1 = 0 then
              chunk_loop hash a chunk out_p (cur_count div a) (layer_size div a) layer_out_start
                dst (fst out_p, snd out_p + chunk * (cur_count div a) div a) (discards - 1) mem'
            else
              chunk_loop hash a chunk out_p (cur_count div a) (layer_size div a) (layer_out_start + layer_size div a)
                dst (fst out_p, layer_out_start + layer_size div a + chunk * (cur_count div a) div a) (discards - 1) mem'
      else Some (Inr mem))"

definition build_chunk :: "'n TreeBuilder \<Rightarrow> 'n \<Rightarrow> nat \<Rightarrow> nat \<Rightarrow> pointer \<Rightarrow> pointer \<Rightarrow> bool \<Rightarrow> bool \<Rightarrow>
    nat \<Rightarrow> 'n store \<Rightarrow> 'n store result option" where
  "build_chunk tb uninit count chunk_size out_p in_p cols no_discard chunk mem =
     (let a = tb_arity tb; ca = col_arity tb;
          dst = (fst out_p, snd out_p + chunk * chunk_size div (if cols then ca else a));
          src = (fst in_p, snd in_p + chunk * chunk_size)
      in case (if cols then hash_row (col_hash tb) ca (div_ceil chunk_size ca) src dst mem else Inr mem) of
           Inl e \<Rightarrow> Some (Inl e)
         | Inr mem1 \<Rightarrow>
             let cur_count = (if cols then chunk_size div ca else chunk_size);
                 layer_size = (if cols then count div ca else count);
                 layer_out_start = (if cols then snd out_p + layer_size else snd out_p);
                 src2 = (if cols then dst else src);
                 dst2 = (if cols then (fst out_p, layer_out_start + chunk * cur_count div a) else dst);
                 discards = (if cols \<or> no_discard then - 1 else int (discard_rows tb));
                 mem2 = (if discards > 0 then mem1(RDisc := replicate (count div a) uninit) else mem1);
                 dst3 = (if discards > 0 then (RDisc, 0) else dst2)
             in map_option (\<lambda>r. bind_result r (\<lambda>m. Inr (m(RDisc := []))))
                  (chunk_loop (tb_hash tb) a chunk out_p cur_count layer_size layer_out_start src2 dst3 discards mem2))"

fun par_map :: "(nat \<Rightarrow> 's \<Rightarrow> 's result option) \<Rightarrow> nat list \<Rightarrow> 's \<Rightarrow> 's result option" where
  "par_map f [] s = Some (Inr s)"
| "par_map f (c # cs) s =
     (case f c s of
        None \<Rightarrow> None
      | Some (Inl e) \<Rightarrow> Some (Inl e)
      | Some (Inr s') \<Rightarrow> par_map f cs s')"

text \<open>
  \<open>schedule n\<close> is the order in which the pool completes \<open>n\<close> chunks; \<open>pool_size\<close>
  is the number of its threads.
\<close>

definition merge_chunks :: "'n TreeBuilder \<Rightarrow> 'n \<Rightarrow> nat \<Rightarrow> nat \<Rightarrow> pointer \<Rightarrow> bool \<Rightarrow> 'n store \<Rightarrow>
    ('n \<times> 'n store) result option" where
  "merge_chunks tb uninit count num_chunks out_p cols mem =
     (case (tree_size tb (num_chunks * tb_arity tb) False True, tree_size tb count cols False) of
        (Some (Inr top_tree_size), Some (Inr total_size)) \<Rightarrow>
          (if total_size < top_tree_size then Some (Inl OutOfBounds)
           else
             let top_tree_start_idx = total_size - top_tree_size in
             BuildTree tb uninit num_chunks (fst out_p, snd out_p + top_tree_start_idx + num_chunks)
               (fst out_p, snd out_p + top_tree_start_idx) False True mem)
      | (Some (Inl e), _) \<Rightarrow> Some (Inl e)
      | (_, Some (Inl e)) \<Rightarrow> Some (Inl e)
      | _ \<Rightarrow> None)"

definition BuildTree_mt :: "'n TreeBuilder \<Rightarrow> 'n \<Rightarrow> nat \<Rightarrow> (nat \<Rightarrow> nat list) \<Rightarrow> nat \<Rightarrow> pointer \<Rightarrow> pointer \<Rightarrow>
    bool \<Rightarrow> bool \<Rightarrow> 'n store \<Rightarrow> ('n \<times> 'n store) result option" where
  "BuildTree_mt tb uninit pool_size schedule count out_p in_p cols no_discard mem =
     (let a = tb_arity tb; ca = col_arity tb in
      if a = 0 \<or> cols \<and> ca = 0 then Some (Inl DivByZero)
      else if cols \<and> count mod ca \<noteq> 0 then Some (Inl AssertFail)
      else if (if cols then count div ca else count) mod a \<noteq> 0 then Some (Inl AssertFail)
      else if \<not> (if cols then 128 else 64) < count then Some (Inl AssertFail)
      else
        case grow_chunks a (pool_size * 4) a of
          None \<Rightarrow> None
        | Some num_chunks \<Rightarrow>
            (case par_map (build_chunk tb uninit count (count div num_chunks) out_p in_p cols no_discard)
                    (schedule num_chunks) mem of
               None \<Rightarrow> None
             | Some (Inl e) \<Rightarrow> Some (Inl e)
             | Some (Inr mem') \<Rightarrow> merge_chunks tb uninit count num_chunks out_p cols mem'))"


section \<open>Slices of rows\<close>

fun put_slices :: "nat \<Rightarrow> nat \<Rightarrow> 'n list list \<Rightarrow> nat \<Rightarrow> 'n list \<Rightarrow> 'n list" where
  "put_slices M c [] p out = out"
| "put_slices M c (R # Rs) p out =
     put_slices M c Rs (p + length R)
       (overlay (p + c * (length R div M)) (block (length R div M) R c) out)"

fun owner :: "nat \<Rightarrow> 'n list list \<Rightarrow> nat \<Rightarrow> nat option" where
  "owner M [] q = None"
| "owner M (R # Rs) q =
     (if q < length R then Some (q div (length R div M)) else owner M Rs (q - length R))"

lemma slice_bound:
  assumes "M dvd n" "c < M"
  shows "c * (n div M) + n div M \<le> (n :: nat)"
proof -
  have "Suc c * (n div M) \<le> M * (n div M)" using assms(2) by (intro mult_le_mono1) simp
  with assms(1) show ?thesis by simp
qed

lemma length_slice:
  assumes "M dvd length R" "c < M"
  shows "length (block (length R div M) R c) = length R div M"
  using slice_bound [OF assms] by (intro length_block) simp

lemma length_put_slices [simp]:
  "\<forall>R \<in> set Rs. M dvd length R \<Longrightarrow> c < M \<Longrightarrow> p + length (concat Rs) \<le> length out \<Longrightarrow>
   length (put_slices M c Rs p out) = length out"
proof (induction Rs arbitrary: p out)
  case (Cons R Rs)
  then have "length (overlay (p + c * (length R div M)) (block (length R div M) R c) out) = length out"
    using slice_bound [of M "length R" c] length_slice [of M R c] by simp
  with Cons show ?case by simp
qed simp

lemma nth_put_slices:
  assumes "\<forall>R \<in> set Rs. M dvd length R" "c < M" "p + length (concat Rs) \<le> length out" "q < length out"
  shows "put_slices M c Rs p out ! q =
    (if p \<le> q \<and> owner M Rs (q - p) = Some c then concat Rs ! (q - p) else out ! q)"
  using assms
proof (induction Rs arbitrary: p out)
  case (Cons R Rs)
  let ?w = "length R div M"
  let ?o = "overlay (p + c * ?w) (block ?w R c) out"
  have w: "c * ?w + ?w \<le> length R" "length (block ?w R c) = ?w"
    using Cons.prems(1,2) slice_bound [of M "length R" c] length_slice [of M R c] by simp_all
  have lo: "length ?o = length out" using w Cons.prems(3) by simp
  have IH: "put_slices M c Rs (p + length R) ?o ! q =
    (if p + length R \<le> q \<and> owner M Rs (q - (p + length R)) = Some c
     then concat Rs ! (q - (p + length R)) else ?o ! q)"
    using Cons.prems lo by (intro Cons.IH) simp_all
  have o: "?o ! q = (if p + c * ?w \<le> q \<and> q < p + c * ?w + ?w then R ! (q - p) else out ! q)"
  proof (cases "p + c * ?w \<le> q \<and> q < p + c * ?w + ?w")
    case True
    then obtain i where i: "q = p + c * ?w + i" "i < ?w"
      by (metis le_add_diff_inverse nat_add_left_cancel_less)
    with nth_overlay [of "p + c * ?w" "block ?w R c" out q] w Cons.prems(3,4) nth_block [of i ?w c R]
    show ?thesis by (simp add: add.assoc)
  next
    case False
    with nth_overlay [of "p + c * ?w" "block ?w R c" out q] w Cons.prems(3,4) show ?thesis by auto
  qed
  have d: "(p + c * ?w \<le> q \<and> q < p + c * ?w + ?w) = (p \<le> q \<and> (q - p) div ?w = c)" if "q < p + length R"
  proof -
    have wp: "0 < ?w" if "p \<le> q"
      using that \<open>q < p + length R\<close> Cons.prems(1,2) by (cases "?w = 0") (auto elim!: dvdE)
    have "(q - p) div ?w = c \<longleftrightarrow> c * ?w \<le> q - p \<and> q - p < Suc c * ?w" if "p \<le> q"
      using wp [OF that] div_nat_eqI [of ?w c "q - p"] div_times_less_eq_dividend [of "q - p" ?w]
        dividend_less_div_times [of ?w "q - p"] by (auto simp: mult.commute)
    moreover have "p + c * ?w \<le> q \<longleftrightarrow> p \<le> q \<and> c * ?w \<le> q - p" by linarith
    moreover have "q < p + c * ?w + ?w \<longleftrightarrow> q - p < Suc c * ?w \<or> q < p" if "0 < ?w"
      using that by (auto simp: less_diff_conv2)
    ultimately show ?thesis using wp by auto
  qed
  show ?case
  proof (cases "q < p + length R")
    case True
    then have "q - p < length R \<or> q < p" by linarith
    with True d [OF True] show ?thesis by (auto simp: IH o nth_append)
  next
    case False
    then show ?thesis using w(1) by (auto simp: IH o nth_append)
  qed
qed simp

lemma owner_Some:
  assumes "\<forall>R \<in> set Rs. M dvd length R" "0 < M" "q < length (concat Rs)"
  shows "\<exists>c < M. owner M Rs q = Some c"
  using assms
proof (induction Rs arbitrary: q)
  case (Cons R Rs)
  show ?case
  proof (cases "q < length R")
    case True
    then have "q < M * (length R div M)" using Cons.prems(1) by simp
    then have "q div (length R div M) < M" by (simp add: less_mult_imp_div_less)
    with True show ?thesis by simp
  next
    case False
    with Cons show ?thesis by simp
  qed
qed simp

lemma owner_None: "length (concat Rs) \<le> q \<Longrightarrow> owner M Rs q = None"
  by (induction Rs arbitrary: q) simp_all

lemma put_all_slices:
  assumes "\<forall>R \<in> set Rs. M dvd length R" "0 < M" "set cs = {0..<M}" "p + length (concat Rs) \<le> length out"
  shows "fold (\<lambda>c. put_slices M c Rs p) cs out = overlay p (concat Rs) out"
proof -
  have "set cs' \<subseteq> {0..<M} \<Longrightarrow> length (fold (\<lambda>c. put_slices M c Rs p) cs' out) = length out \<and>
     (\<forall>q < length out. fold (\<lambda>c. put_slices M c Rs p) cs' out ! q =
       (if p \<le> q \<and> owner M Rs (q - p) \<in> Some ` set cs' then concat Rs ! (q - p) else out ! q))" for cs'
  proof (induction cs' rule: rev_induct)
    case (snoc c cs')
    then have c: "c < M" and IH: "length (fold (\<lambda>c. put_slices M c Rs p) cs' out) = length out"
      "\<forall>q < length out. fold (\<lambda>c. put_slices M c Rs p) cs' out ! q =
       (if p \<le> q \<and> owner M Rs (q - p) \<in> Some ` set cs' then concat Rs ! (q - p) else out ! q)"
      by auto
    show ?case using IH nth_put_slices [OF assms(1) c] assms(1,4) c by (auto simp del: split_paired_All)
  qed simp
  from this [of cs] assms(3)
  have l: "length (fold (\<lambda>c. put_slices M c Rs p) cs out) = length out" and
    n: "\<And>q. q < length out \<Longrightarrow> fold (\<lambda>c. put_slices M c Rs p) cs out ! q =
       (if p \<le> q \<and> owner M Rs (q - p) \<in> Some ` {0..<M} then concat Rs ! (q - p) else out ! q)"
    by auto
  show ?thesis
  proof (rule nth_equalityI)
    fix q
    assume "q < length (fold (\<lambda>c. put_slices M c Rs p) cs out)"
    then have q: "q < length out" using l by simp
    show "fold (\<lambda>c. put_slices M c Rs p) cs out ! q = overlay p (concat Rs) out ! q"
    proof (cases "q - p < length (concat Rs)")
      case True
      with owner_Some [OF assms(1,2) True] show ?thesis
        using n [OF q] nth_overlay [OF assms(4) q] by (auto simp: image_def)
    next
      case False
      with owner_None [of Rs "q - p" M] show ?thesis
        using n [OF q] nth_overlay [OF assms(4) q] by auto
    qed
  qed (use l assms(4) in simp)
qed


section \<open>One chunk\<close>

lemma level_block:
  assumes "length X = M * (n * a)" "c < M" "0 < a"
  shows "level h a (block (n * a) X c) = block n (level h a X) c"
proof -
  have c: "Suc c * (n * a) \<le> M * (n * a)" using assms(2) by (intro mult_le_mono1) simp
  have cn: "Suc c * n \<le> M * n" using assms(2) by (intro mult_le_mono1) simp
  have lb: "length (block (n * a) X c) = n * a" using c assms(1) by (intro length_block) simp
  have lX: "length X div a = M * n" using assms(1,3) by (simp add: mult.assoc [symmetric])
  show ?thesis
  proof (rule nth_equalityI)
    show "length (level h a (block (n * a) X c)) = length (block n (level h a X) c)"
      using lb assms(3) cn lX by (simp add: block_def)
    fix i
    assume "i < length (level h a (block (n * a) X c))"
    then have i: "i < n" using lb assms(3) by simp
    have ia: "i * a + a \<le> n * a" using i mult_le_mono1 [of "Suc i" n a] by simp
    have "block a (block (n * a) X c) i = take a (take (n * a - i * a) (drop (c * (n * a) + i * a) X))"
      by (simp add: block_def drop_take add.commute)
    also have "\<dots> = block a X (c * n + i)"
      using ia by (simp add: block_def min_def add_mult_distrib mult.assoc)
    finally have "block a (block (n * a) X c) i = block a X (c * n + i)" .
    moreover have "c * n + i < M * n" using cn i by simp
    ultimately show "level h a (block (n * a) X c) ! i = block n (level h a X) c ! i"
      using i lb assms(3) lX cn by (simp add: nth_level nth_block)
  qed
qed

context merkle_hash
begin

lemma rows_dvd: "length X = M * a ^ K \<Longrightarrow> \<forall>R \<in> set (rows h a K X). M dvd length R"
proof (induction K arbitrary: X)
  case (Suc K)
  then have "length (level h a X) = M * a ^ K" by simp
  with Suc.IH [OF this] show ?case by simp
qed simp

lemma chunk_step:
  assumes "length X = M * a ^ Suc K" "c < M" "s + a ^ Suc K \<le> length (mem rs)"
    "block (a ^ Suc K) X c = take (a ^ Suc K) (drop s (mem rs))"
    "d + a ^ K \<le> length (mem rd)" "rs \<noteq> rd \<or> d \<le> s \<or> s + a ^ Suc K \<le> d"
  shows "chunk_loop h a c out_p (a ^ Suc K) (M * a ^ Suc K) los (rs, s) (rd, d) discards mem =
    (let mem' = mem(rd := overlay d (block (a ^ K) (level h a X) c) (mem rd)) in
     if discards - 1 = 1 then chunk_loop h a c out_p (a ^ K) (M * a ^ K) los (rd, d) (RDisc, 0) (discards - 1) mem'
     else if discards - 1 = 0 then
       chunk_loop h a c out_p (a ^ K) (M * a ^ K) los (rd, d) (fst out_p, snd out_p + c * a ^ K div a) (discards - 1) mem'
     else chunk_loop h a c out_p (a ^ K) (M * a ^ K) (los + M * a ^ K) (rd, d)
       (fst out_p, los + M * a ^ K + c * a ^ K div a) (discards - 1) mem')"
proof -
  have gt: "1 < a ^ Suc K" using arity one_less_power [of a "Suc K"] by simp
  have dc: "div_ceil (a ^ Suc K) a = a ^ K"
    using div_ceil_exact [of a "a ^ K"] by (simp add: mult.commute)
  have ok: "row_ok a (a ^ K) (rs, s) (rd, d) mem"
    using assms by (auto simp: row_ok_def mult.commute)
  have "level h a (block (a ^ Suc K) X c) = block (a ^ K) (level h a X) c"
    using level_block [of X M "a ^ K" a c h] assms(1,2) by (simp add: mult.commute)
  then have row: "hash_row h a (a ^ K) (rs, s) (rd, d) mem =
      Inr (mem(rd := overlay d (block (a ^ K) (level h a X) c) (mem rd)))"
    using hash_row_overlay [OF _ ok, of h] assms(4) by (simp add: mult.commute)
  have dv: "M * a ^ Suc K div a = M * a ^ K" "a ^ Suc K div a = a ^ K" by simp_all
  show ?thesis
    using gt row dc by (subst chunk_loop.simps) (simp only: dv Let_def if_True sum.case)
qed

lemma chunk_loop_plain:
  assumes "discards \<le> 0" "length X = M * a ^ K" "c < M" "s + a ^ K \<le> length (mem rs)"
    "block (a ^ K) X c = take (a ^ K) (drop s (mem rs))"
    "rs \<noteq> ro \<or> s + a ^ K \<le> los" "los + length (concat (rows h a K X)) \<le> length (mem ro)"
    "fst out_p = ro"
  shows "chunk_loop h a c out_p (a ^ K) (M * a ^ K) los (rs, s) (ro, los + c * a ^ K div a) discards mem =
    Some (Inr (mem(ro := put_slices M c (rows h a K X) los (mem ro))))"
  using assms
proof (induction K arbitrary: X s rs los discards mem)
  case 0
  then show ?case by (subst chunk_loop.simps) simp
next
  case (Suc K)
  let ?L = "level h a X"
  let ?d = "los + c * a ^ K"
  have lL: "length ?L = M * a ^ K" "length ?L div M = a ^ K" using Suc.prems(2,3) by simp_all
  have cK: "c * a ^ K + a ^ K \<le> M * a ^ K" using Suc.prems(3) mult_le_mono1 [of "Suc c" M "a ^ K"] by simp
  have lb: "length (block (a ^ K) ?L c) = a ^ K" using cK lL by (intro length_block) simp
  have fits: "?d + a ^ K \<le> length (mem ro)" using Suc.prems(7) cK lL by simp
  let ?mem = "mem(ro := overlay ?d (block (a ^ K) ?L c) (mem ro))"
  have "chunk_loop h a c out_p (a ^ Suc K) (M * a ^ Suc K) los (rs, s) (ro, ?d) discards mem =
    chunk_loop h a c out_p (a ^ K) (M * a ^ K) (los + M * a ^ K) (ro, ?d)
       (ro, los + M * a ^ K + c * a ^ K div a) (discards - 1) ?mem"
    using chunk_step [of X M K c s mem rs ?d ro out_p los discards] Suc.prems fits by (auto simp: Let_def)
  also have "\<dots> = Some (Inr (?mem(ro := put_slices M c (rows h a K ?L) (los + M * a ^ K) (?mem ro))))"
  proof (rule Suc.IH)
    show "block (a ^ K) ?L c = take (a ^ K) (drop ?d (?mem ro))"
      using take_drop_overlay_same [of ?d "block (a ^ K) ?L c" "mem ro"] lb fits by simp
    show "ro \<noteq> ro \<or> ?d + a ^ K \<le> los + M * a ^ K" using cK by simp
  qed (use Suc.prems lL lb fits in simp_all)
  also have "\<dots> = Some (Inr (mem(ro := put_slices M c (rows h a (Suc K) X) los (mem ro))))"
    using lL by (simp add: mult.commute)
  finally show ?case by (simp add: fun_upd_def)
qed

lemma chunk_discard_step:
  assumes "length X = M * a ^ Suc K" "c < M" "s + a ^ Suc K \<le> length (mem rs)"
    "block (a ^ Suc K) X c = take (a ^ Suc K) (drop s (mem rs))" "a ^ K \<le> length (mem RDisc)"
    "rs \<noteq> RDisc \<or> s = 0" "0 < dis" "dis \<le> 2"
  defines "B \<equiv> block (a ^ K) (level h a X) c"
  defines "mem' \<equiv> mem(RDisc := overlay 0 B (mem RDisc))"
  shows "chunk_loop h a c (ro, p) (a ^ Suc K) (M * a ^ Suc K) p (rs, s) (RDisc, 0) dis mem =
      chunk_loop h a c (ro, p) (a ^ K) (M * a ^ K) p (RDisc, 0)
        (if dis = 2 then (RDisc, 0) else (ro, p + c * a ^ K div a)) (dis - 1) mem'"
    "B = take (a ^ K) (drop 0 (mem' RDisc))" "length (mem' RDisc) = length (mem RDisc)"
proof -
  have cK: "Suc c * a ^ K \<le> M * a ^ K" using assms(2) by (intro mult_le_mono1) simp
  have lB: "length B = a ^ K" using cK assms(1) unfolding B_def by (intro length_block) simp
  show "B = take (a ^ K) (drop 0 (mem' RDisc))" "length (mem' RDisc) = length (mem RDisc)"
    using take_drop_overlay_same [of 0 B "mem RDisc"] lB assms(5) by (simp_all add: mem'_def)
  have "dis - 1 = 1 \<longleftrightarrow> dis = 2" "dis - 1 = 0 \<longleftrightarrow> dis \<noteq> 2" using assms(7,8) by linarith+
  then show "chunk_loop h a c (ro, p) (a ^ Suc K) (M * a ^ Suc K) p (rs, s) (RDisc, 0) dis mem =
      chunk_loop h a c (ro, p) (a ^ K) (M * a ^ K) p (RDisc, 0)
        (if dis = 2 then (RDisc, 0) else (ro, p + c * a ^ K div a)) (dis - 1) mem'"
    using chunk_step [of X M K c s mem rs 0 RDisc "(ro, p)" p dis] assms(1-6)
    by (auto simp: Let_def mem'_def B_def)
qed

lemma chunk_rows:
  assumes "d \<le> 2" "d < K" "length X = M * a ^ K" "c < M" "block (a ^ K) X c = take (a ^ K) (drop s (mem RIn))"
    "s + a ^ K \<le> length (mem RIn)" "p + length (concat (drop d (rows h a K X))) \<le> length (mem ROut)"
    "0 < d \<Longrightarrow> a ^ (K - 1) \<le> length (mem RDisc)" "0 < d \<Longrightarrow> dis = int d" "d = 0 \<Longrightarrow> dis \<le> 0"
    "dst = (if 0 < d then (RDisc, 0) else (ROut, p + c * a ^ K div a))"
  shows "\<exists>mem'. chunk_loop h a c (ROut, p) (a ^ K) (M * a ^ K) p (RIn, s) dst dis mem = Some (Inr mem') \<and>
     mem' RIn = mem RIn \<and> mem' ROut = put_slices M c (drop d (rows h a K X)) p (mem ROut)"
proof -
  consider "d = 0" | "d = 1" | "d = 2" using assms(1) by linarith
  then show ?thesis
  proof cases
    case 1
    with assms show ?thesis
      using chunk_loop_plain [of dis X M K c s mem RIn ROut p "(ROut, p)"] by simp
  next
    case 2
    then obtain k where k: "K = Suc k" using assms(2) by (cases K) auto
    let ?L = "level h a X"
    let ?m = "mem(RDisc := overlay 0 (block (a ^ k) ?L c) (mem RDisc))"
    note st = chunk_discard_step [where X = X and M = M and K = k and c = c and s = s and mem = mem and rs = RIn
        and dis = 1]
    have "chunk_loop h a c (ROut, p) (a ^ K) (M * a ^ K) p (RIn, s) dst dis mem =
        chunk_loop h a c (ROut, p) (a ^ k) (M * a ^ k) p (RDisc, 0) (ROut, p + c * a ^ k div a) 0 ?m"
      using st(1) assms 2 k by simp
    also have "\<dots> = Some (Inr (?m(ROut := put_slices M c (rows h a k ?L) p (?m ROut))))"
    proof (rule chunk_loop_plain)
      show "block (a ^ k) ?L c = take (a ^ k) (drop 0 (?m RDisc))" "0 + a ^ k \<le> length (?m RDisc)"
        using st(2,3) assms 2 k by simp_all
    qed (use assms 2 k in simp_all)
    finally show ?thesis using 2 k by simp
  next
    case 3
    then obtain k where k: "K = Suc (Suc k)" using assms(2) by (cases K; cases "K - 1") auto
    let ?L = "level h a X" and ?L2 = "level h a (level h a X)"
    let ?m = "mem(RDisc := overlay 0 (block (a ^ Suc k) ?L c) (mem RDisc))"
    let ?m2 = "?m(RDisc := overlay 0 (block (a ^ k) ?L2 c) (?m RDisc))"
    have kk: "a ^ k \<le> a ^ Suc k" using arity by simp
    have lL: "length ?L = M * a ^ Suc k" using assms(3) k by simp
    note st = chunk_discard_step [where X = X and M = M and K = "Suc k" and c = c and s = s and mem = mem and rs = RIn
        and dis = 2]
    note st2 = chunk_discard_step [where X = ?L and M = M and K = k and c = c and s = 0 and mem = ?m and rs = RDisc
        and dis = 1]
    have d1: "a ^ Suc k \<le> length (mem RDisc)" "length (?m RDisc) = length (mem RDisc)"
      "block (a ^ Suc k) ?L c = take (a ^ Suc k) (drop 0 (?m RDisc))"
      using assms 3 k st(2,3) by simp_all
    have d2: "a ^ k \<le> length (mem RDisc)" using d1(1) kk by linarith
    have "chunk_loop h a c (ROut, p) (a ^ K) (M * a ^ K) p (RIn, s) dst dis mem =
        chunk_loop h a c (ROut, p) (a ^ Suc k) (M * a ^ Suc k) p (RDisc, 0) (RDisc, 0) 1 ?m"
      using st(1) assms 3 k by simp
    also have "\<dots> = chunk_loop h a c (ROut, p) (a ^ k) (M * a ^ k) p (RDisc, 0) (ROut, p + c * a ^ k div a) 0 ?m2"
      using st2(1) assms(4) lL d1 d2 by simp
    also have "\<dots> = Some (Inr (?m2(ROut := put_slices M c (rows h a k ?L2) p (?m2 ROut))))"
    proof (rule chunk_loop_plain)
      show "block (a ^ k) ?L2 c = take (a ^ k) (drop 0 (?m2 RDisc))" "0 + a ^ k \<le> length (?m2 RDisc)"
        using st2(2,3) assms(4) lL d1 d2 by simp_all
    qed (use assms 3 k in \<open>simp_all add: numeral_2_eq_2\<close>)
    finally show ?thesis using 3 k by (simp add: numeral_2_eq_2)
  qed
qed

end

lemma block_of_take:
  assumes "c < M" "s + M * n \<le> length xs"
  shows "block n (take (M * n) (drop s xs)) c = take n (drop (s + c * n) xs)"
proof -
  have "c * n + n \<le> M * n" using assms(1) mult_le_mono1 [of "Suc c" M n] by simp
  then show ?thesis by (simp add: block_def drop_take min_def add.commute)
qed

lemma build_chunk_plain:
  assumes "2 \<le> a" "a = tb_arity tb" "h = tb_hash tb" "d = discard_rows tb" "d \<le> 2" "d < K" "c < M"
    "s + M * a ^ K \<le> length (mem RIn)" "X = take (M * a ^ K) (drop s (mem RIn))"
    "p + length (concat (drop d (rows h a K X))) \<le> length (mem ROut)"
  shows "\<exists>mem'. build_chunk tb u (M * a ^ K) (a ^ K) (ROut, p) (RIn, s) False False c mem = Some (Inr mem') \<and>
    mem' RIn = mem RIn \<and> mem' ROut = put_slices M c (drop d (rows h a K X)) p (mem ROut)"
proof -
  have mh: "merkle_hash a" using assms(1) by (simp add: merkle_hash.intro)
  define mem2 where "mem2 = (if 0 < d then mem(RDisc := replicate (M * a ^ K div a) u) else mem)"
  have m2: "mem2 RIn = mem RIn" "mem2 ROut = mem ROut" by (simp_all add: mem2_def)
  have cK: "c * a ^ K + a ^ K \<le> M * a ^ K" using assms(7) mult_le_mono1 [of "Suc c" M "a ^ K"] by simp
  have "a ^ (K - 1) \<le> M * a ^ K div a"
  proof (cases K)
    case (Suc k)
    then have "M * a ^ K div a = M * a ^ k" using assms(1) by simp
    with Suc assms(7) show ?thesis by simp
  qed (use assms(6) in simp)
  then have "\<exists>mem'. chunk_loop h a c (ROut, p) (a ^ K) (M * a ^ K) p (RIn, s + c * a ^ K)
      (if 0 < d then (RDisc, 0) else (ROut, p + c * a ^ K div a)) (int d) mem2 = Some (Inr mem') \<and>
     mem' RIn = mem2 RIn \<and> mem' ROut = put_slices M c (drop d (rows h a K X)) p (mem2 ROut)"
    using assms cK by (intro merkle_hash.chunk_rows [OF mh])
      (simp_all add: m2 block_of_take, simp_all add: mem2_def)
  then obtain mem' where r: "chunk_loop h a c (ROut, p) (a ^ K) (M * a ^ K) p (RIn, s + c * a ^ K)
      (if 0 < d then (RDisc, 0) else (ROut, p + c * a ^ K div a)) (int d) mem2 = Some (Inr mem')"
    "mem' RIn = mem RIn" "mem' ROut = put_slices M c (drop d (rows h a K X)) p (mem ROut)"
    using m2 by auto
  have "build_chunk tb u (M * a ^ K) (a ^ K) (ROut, p) (RIn, s) False False c mem = Some (Inr (mem'(RDisc := [])))"
    using r(1) by (cases "0 < d") (simp_all add: build_chunk_def Let_def mem2_def assms(2-4) [symmetric])
  with r(2,3) show ?thesis by simp
qed

lemma build_chunk_cols:
  assumes "2 \<le> a" "a = tb_arity tb" "h = tb_hash tb" "ca = col_arity tb" "0 < ca" "c < M"
    "s + M * (a ^ K * ca) \<le> length (mem RIn)" "X = level (col_hash tb) ca (take (M * (a ^ K * ca)) (drop s (mem RIn)))"
    "p + length (concat (X # rows h a K X)) \<le> length (mem ROut)"
  shows "\<exists>mem'. build_chunk tb u (M * (a ^ K * ca)) (a ^ K * ca) (ROut, p) (RIn, s) True nd c mem = Some (Inr mem') \<and>
    mem' RIn = mem RIn \<and> mem' ROut = put_slices M c (X # rows h a K X) p (mem ROut)"
proof -
  have mh: "merkle_hash a" using assms(1) by (simp add: merkle_hash.intro)
  let ?n = "a ^ K"
  let ?B = "block ?n X c"
  let ?m = "mem(ROut := overlay (p + c * ?n) ?B (mem ROut))"
  have lX: "length X = M * ?n" using assms(5,7,8) by (simp add: mult.assoc [symmetric])
  have cK: "c * ?n + ?n \<le> M * ?n" using assms(6) mult_le_mono1 [of "Suc c" M ?n] by simp
  have cc: "c * (?n * ca) + ?n * ca \<le> M * (?n * ca)" using assms(6) mult_le_mono1 [of "Suc c" M "?n * ca"] by simp
  have lB: "length ?B = ?n" using cK lX by (intro length_block) simp
  have fits: "p + c * ?n + ?n \<le> length (mem ROut)" using assms(9) cK lX by simp
  have ok: "row_ok ca ?n (RIn, s + c * (?n * ca)) (ROut, p + c * ?n) mem"
    using assms(7) cc fits by (simp add: row_ok_def)
  have dv: "c * (?n * ca) div ca = c * ?n" "?n * ca div ca = ?n" "M * (?n * ca) div ca = M * ?n"
    "div_ceil (?n * ca) ca = ?n"
    using assms(5) div_ceil_exact [of ca ?n] by (simp_all add: mult.assoc [symmetric])
  have "level (col_hash tb) ca (take (?n * ca) (drop (s + c * (?n * ca)) (mem RIn))) = ?B"
    using level_block [of "take (M * (?n * ca)) (drop s (mem RIn))" M ?n ca c "col_hash tb"] assms(5-8)
      block_of_take [of c M s "?n * ca" "mem RIn"] by simp
  then have row: "hash_row (col_hash tb) ca ?n (RIn, s + c * (?n * ca)) (ROut, p + c * ?n) mem = Inr ?m"
    using hash_row_overlay [OF assms(5) ok, of "col_hash tb"] by simp
  have "chunk_loop h a c (ROut, p) ?n (M * ?n) (p + M * ?n) (ROut, p + c * ?n)
      (ROut, p + M * ?n + c * ?n div a) (- 1) ?m =
    Some (Inr (?m(ROut := put_slices M c (rows h a K X) (p + M * ?n) (?m ROut))))"
  proof (rule merkle_hash.chunk_loop_plain [OF mh])
    show "block ?n X c = take ?n (drop (p + c * ?n) (?m ROut))"
      using take_drop_overlay_same [of "p + c * ?n" ?B "mem ROut"] lB fits by simp
    show "ROut \<noteq> ROut \<or> p + c * ?n + ?n \<le> p + M * ?n" using cK by simp
  qed (use assms lX lB fits in simp_all)
  then show ?thesis
    using row assms(5,6) lX by (simp add: build_chunk_def Let_def assms(2-4) [symmetric] dv del: nonzero_mult_div_cancel_right)
qed

lemma par_map_slices:
  assumes "\<And>c mem. c < M \<Longrightarrow> mem RIn = I \<Longrightarrow> length (mem ROut) = n \<Longrightarrow>
      \<exists>mem'. f c mem = Some (Inr mem') \<and> mem' RIn = I \<and> mem' ROut = put_slices M c Rs p (mem ROut)"
    and "\<forall>R \<in> set Rs. M dvd length R" "p + length (concat Rs) \<le> n" "set cs \<subseteq> {0..<M}"
    "mem RIn = I" "length (mem ROut) = n"
  shows "\<exists>mem'. par_map f cs mem = Some (Inr mem') \<and> mem' RIn = I \<and>
    mem' ROut = fold (\<lambda>c. put_slices M c Rs p) cs (mem ROut)"
  using assms(4-6)
proof (induction cs arbitrary: mem)
  case (Cons c cs)
  then obtain m where m: "f c mem = Some (Inr m)" "m RIn = I" "m ROut = put_slices M c Rs p (mem ROut)"
    using assms(1) [of c mem] by auto
  have "length (m ROut) = n" using m(3) Cons.prems assms(2,3) by simp
  with Cons.IH [of m] Cons.prems(1) m show ?case by simp
qed simp


section \<open>Merging the chunks\<close>

lemma rows_add: "rows h a (j + m) X = rows h a j X @ rows h a m (levels h a j X)"
  by (induction j arbitrary: X) simp_all

lemma drop_rows_Suc: "d \<le> j \<Longrightarrow> drop d (rows h a (Suc j) X) = drop d (rows h a j X) @ [levels h a (Suc j) X]"
  by (subst rows_levels, subst rows_levels) (simp del: upt_Suc add: upt_Suc_append)

lemma tree_size_top:
  assumes "2 \<le> a" "a = tb_arity tb"
  shows "tree_size tb (a ^ m * a) False True = Some (Inr (a ^ m + (\<Sum>i<m. a ^ i)))"
  using size_loop_exact [OF assms(1), of 0 "Suc m" 0] assms
  by (simp add: tree_size_def mult.commute)

lemma tree_size_cols:
  assumes "2 \<le> a" "a = tb_arity tb" "ca = col_arity tb" "0 < ca" "0 < k"
  shows "tree_size tb (a ^ k * ca) True nd = Some (Inr (a ^ k + (\<Sum>i<k. a ^ i)))"
proof -
  have "a ^ k * ca mod a = 0" using assms(5) by (cases k) simp_all
  then show ?thesis
    using size_loop_exact [OF assms(1), of 0 k "a ^ k"] assms(1,4,5)
    by (simp add: tree_size_def Let_def assms(2,3) [symmetric])
qed

lemma tree_size_plain:
  assumes "2 \<le> a" "a = tb_arity tb" "discard_rows tb \<le> k" "0 < k"
  shows "tree_size tb (a ^ k) False False = Some (Inr (\<Sum>i<k - discard_rows tb. a ^ i))"
proof -
  have "a ^ k mod a = 0" using assms(4) by (cases k) simp_all
  then show ?thesis
    using size_loop_exact [OF assms(1,3), of 0] assms(1)
    by (simp add: tree_size_def Let_def assms(2) [symmetric])
qed

lemma length_rows_sum:
  assumes "2 \<le> a" "length Y = a ^ m"
  shows "length (concat (rows h a m Y)) = (\<Sum>i<m. a ^ i)"
proof -
  have "merkle_hash a" using assms(1) by (rule merkle_hash.intro)
  from merkle_hash.length_concat_drop_rows [OF this assms(2), of 0 h] show ?thesis by simp
qed

lemma merge_build:
  assumes "2 \<le> a" "a = tb_arity tb" "h = tb_hash tb" "0 < m" "length Y = a ^ m" "Y = take (a ^ m) (drop q (mem ROut))"
    "q + a ^ m + length (concat (rows h a m Y)) \<le> length (mem ROut)"
  shows "BuildTree tb u (a ^ m) (ROut, q + a ^ m) (ROut, q) False True mem =
    Some (Inr (root h a m Y, mem(ROut := overlay (q + a ^ m) (concat (rows h a m Y)) (mem ROut), RDisc := [])))"
proof -
  have mh: "merkle_hash a" using assms(1) by (rule merkle_hash.intro)
  have st: "concat (rows h a m Y) \<noteq> []" "last (concat (rows h a m Y)) = root h a m Y"
    using merkle_hash.last_of_rows [OF mh assms(5,4)] by simp_all
  have "build_loop h a (ROut, q + a ^ m) (a ^ m) (ROut, q) (ROut, q + a ^ m) (- 1) mem =
    Some (Inr ((ROut, q + a ^ m + length (concat (rows h a m Y))),
      mem(ROut := overlay (q + a ^ m) (concat (rows h a m Y)) (mem ROut))))"
    using assms(5-7) by (intro merkle_hash.build_loop_plain [OF mh]) simp_all
  then show ?thesis
    using BuildTree_plain_unfold [OF assms(2) [symmetric] assms(1,4), of 0 True]
      build_result_overlay [OF st(1), of "q + a ^ m" mem] st(2) assms(7)
    by (simp add: assms(2,3) [symmetric])
qed

lemma merge_chunks_spec:
  assumes "2 \<le> a" "a = tb_arity tb" "h = tb_hash tb" "0 < m" "length Y = a ^ m" "Rs = P @ [Y]"
    "tree_size tb count cols False = Some (Inr (length (concat Rs) + (\<Sum>i<m. a ^ i)))"
    "mem ROut = overlay p (concat Rs) out" "p + length (concat Rs) + (\<Sum>i<m. a ^ i) \<le> length out"
  shows "\<exists>mem'. merge_chunks tb u count (a ^ m) (ROut, p) cols mem = Some (Inr (root h a m Y, mem')) \<and>
    mem' ROut = overlay p (concat Rs @ concat (rows h a m Y)) out \<and> mem' RIn = mem RIn"
proof -
  let ?q = "p + length (concat P)" and ?T = "concat (rows h a m Y)"
  have lT: "length ?T = (\<Sum>i<m. a ^ i)" using length_rows_sum [OF assms(1,5)] .
  have lR: "length (concat Rs) = length (concat P) + a ^ m" using assms(5,6) by simp
  have "take (a ^ m) (drop ?q (mem ROut)) = take (a ^ m) (drop (length (concat P)) (concat Rs))"
  proof -
    have "length (concat P) + a ^ m = length (concat Rs)" using lR by simp
    then show ?thesis using assms(8,9)
      by (simp add: overlay_def take_drop add.commute add.assoc)
  qed
  then have Y: "Y = take (a ^ m) (drop ?q (mem ROut))" using assms(5,6) by simp
  have len: "length (mem ROut) = length out" using assms(8,9) by simp
  let ?mem = "mem(ROut := overlay (?q + a ^ m) ?T (mem ROut), RDisc := [])"
  have "BuildTree tb u (a ^ m) (ROut, ?q + a ^ m) (ROut, ?q) False True mem = Some (Inr (root h a m Y, ?mem))"
    using merge_build [where mem = mem, OF assms(1-5) Y, of u] len lT lR assms(9) by simp
  moreover have "tree_size tb (a ^ m * tb_arity tb) False True = Some (Inr (a ^ m + (\<Sum>i<m. a ^ i)))"
    using tree_size_top [OF assms(1,2), of m] assms(2) by simp
  ultimately have "merge_chunks tb u count (a ^ m) (ROut, p) cols mem = Some (Inr (root h a m Y, ?mem))"
    using assms(7) lR by (simp add: merge_chunks_def Let_def)
  moreover have "?mem ROut = overlay p (concat Rs @ ?T) out"
    using overlay_append [of p "concat Rs" ?T out] assms(8,9) lT lR by (simp add: add.assoc)
  ultimately show ?thesis by (intro exI [of _ ?mem]) simp
qed


section \<open>The number of chunks\<close>

lemma grow_chunks_power:
  assumes "2 \<le> a"
  shows "\<exists>j. grow_chunks a n (a ^ i) = Some (a ^ j) \<and> i \<le> j \<and> n \<le> a ^ j \<and> (\<forall>l \<ge> i. n \<le> a ^ l \<longrightarrow> j \<le> l)"
proof (induction "n - a ^ i" arbitrary: i rule: less_induct)
  case less
  show ?case
  proof (cases "a ^ i < n")
    case True
    have "a ^ i < a ^ Suc i" using assms by simp
    with True have "n - a ^ Suc i < n - a ^ i" by linarith
    from less [OF this] obtain j where j: "grow_chunks a n (a ^ Suc i) = Some (a ^ j)" "Suc i \<le> j" "n \<le> a ^ j"
      "\<forall>l \<ge> Suc i. n \<le> a ^ l \<longrightarrow> j \<le> l" by blast
    have "j \<le> l" if "i \<le> l" "n \<le> a ^ l" for l
      using that j(4) True by (cases "l = i") auto
    moreover have "grow_chunks a n (a ^ i) = grow_chunks a n (a ^ Suc i)"
      using True by (subst grow_chunks.simps) (simp add: mult.commute)
    ultimately show ?thesis using j by (intro exI [of _ j]) auto
  next
    case False
    then show ?thesis by (intro exI [of _ i]) (subst grow_chunks.simps, simp)
  qed
qed

lemma grow_chunks_depth:
  assumes "2 \<le> a" "0 < e" "n \<le> a ^ e"
  shows "\<exists>m. grow_chunks a n a = Some (a ^ m) \<and> 0 < m \<and> m \<le> e"
proof -
  from grow_chunks_power [OF assms(1), of n 1] obtain m where
    "grow_chunks a n (a ^ 1) = Some (a ^ m)" "1 \<le> m" "\<forall>l \<ge> 1. n \<le> a ^ l \<longrightarrow> m \<le> l" by blast
  then show ?thesis using assms(2,3) by (intro exI [of _ m]) simp
qed


section \<open>Both builders compute the same tree\<close>

lemma BuildTree_cols_spec:
  assumes "2 \<le> a" "a = tb_arity tb" "h = tb_hash tb" "ca = col_arity tb" "0 < ca" "0 < k"
    "s + a ^ k * ca \<le> length (mem RIn)" "X = level (col_hash tb) ca (take (a ^ k * ca) (drop s (mem RIn)))"
    "p + length (concat (X # rows h a k X)) \<le> length (mem ROut)"
  shows "\<exists>mem'. BuildTree tb u (a ^ k * ca) (ROut, p) (RIn, s) True nd mem = Some (Inr (root h a k X, mem')) \<and>
    mem' ROut = overlay p (concat (X # rows h a k X)) (mem ROut) \<and> mem' RIn = mem RIn"
proof -
  have mh: "merkle_hash a" using assms(1) by (rule merkle_hash.intro)
  let ?T = "concat (rows h a k X)"
  let ?m = "mem(ROut := overlay p X (mem ROut))"
  have lX: "length X = a ^ k" using assms(5,7,8) by simp
  have st: "?T \<noteq> []" "last ?T = root h a k X" using merkle_hash.last_of_rows [OF mh lX assms(6)] by simp_all
  have "row_ok ca (a ^ k) (RIn, s) (ROut, p) mem" using assms(7,9) lX by (simp add: row_ok_def)
  from hash_row_overlay [OF assms(5) this, of "col_hash tb"]
  have row: "hash_row (col_hash tb) ca (a ^ k) (RIn, s) (ROut, p) mem = Inr ?m" using assms(8) by simp
  have "build_loop h a (ROut, p) (a ^ k) (ROut, p) (ROut, p + a ^ k) (- 1) ?m =
    Some (Inr ((ROut, p + a ^ k + length ?T), ?m(ROut := overlay (p + a ^ k) ?T (?m ROut))))"
  proof (rule merkle_hash.build_loop_plain [OF mh])
    show "X = take (a ^ k) (drop p (?m ROut))"
      using take_drop_overlay_same [of p X "mem ROut"] lX assms(9) by simp
  qed (use assms(9) lX in simp_all)
  moreover have "a ^ k mod a = 0" using assms(6) by (cases k) simp_all
  moreover have "build_result ((ROut, p + a ^ k + length ?T), ?m(ROut := overlay (p + a ^ k) ?T (?m ROut))) =
      Inr (root h a k X, ?m(ROut := overlay (p + a ^ k) ?T (?m ROut), RDisc := []))"
    using build_result_overlay [OF st(1), of "p + a ^ k" ?m] st(2) assms(9) lX by simp
  ultimately have "BuildTree tb u (a ^ k * ca) (ROut, p) (RIn, s) True nd mem =
      Some (Inr (root h a k X, ?m(ROut := overlay (p + a ^ k) ?T (?m ROut), RDisc := [])))"
    using row assms(1,5) div_ceil_exact [OF assms(5), of "a ^ k"]
    by (simp add: BuildTree_def Let_def assms(2-4) [symmetric])
  moreover have "overlay (p + a ^ k) ?T (overlay p X (mem ROut)) = overlay p (concat (X # rows h a k X)) (mem ROut)"
    using overlay_append [of p X ?T "mem ROut"] lX assms(9) by simp
  ultimately show ?thesis by simp
qed

lemma BuildTree_mt_of_chunks:
  assumes "2 \<le> a" "a = tb_arity tb" "h = tb_hash tb" "0 < m" "length Y = a ^ m" "Rs = P @ [Y]"
    "tree_size tb count cols False = Some (Inr (length (concat Rs) + (\<Sum>i<m. a ^ i)))"
    "p + length (concat Rs) + (\<Sum>i<m. a ^ i) \<le> length (mem ROut)" "\<forall>R \<in> set Rs. a ^ m dvd length R"
    "grow_chunks a (pool_size * 4) a = Some (a ^ m)" "set (schedule (a ^ m)) = {0..<a ^ m}"
    "cols \<Longrightarrow> 0 < col_arity tb \<and> count mod col_arity tb = 0"
    "(if cols then count div col_arity tb else count) mod a = 0" "(if cols then 128 else 64) < count"
    "\<And>c mem'. c < a ^ m \<Longrightarrow> mem' RIn = mem RIn \<Longrightarrow> length (mem' ROut) = length (mem ROut) \<Longrightarrow>
      \<exists>mem''. build_chunk tb u count (count div a ^ m) (ROut, p) in_p cols False c mem' = Some (Inr mem'') \<and>
        mem'' RIn = mem RIn \<and> mem'' ROut = put_slices (a ^ m) c Rs p (mem' ROut)"
  shows "\<exists>mem'. BuildTree_mt tb u pool_size schedule count (ROut, p) in_p cols False mem =
      Some (Inr (root h a m Y, mem')) \<and>
    mem' ROut = overlay p (concat Rs @ concat (rows h a m Y)) (mem ROut) \<and> mem' RIn = mem RIn"
proof -
  have am: "0 < a ^ m" using assms(1) by simp
  have fit: "p + length (concat Rs) \<le> length (mem ROut)" using assms(8) by simp
  obtain m1 where m1: "par_map (build_chunk tb u count (count div a ^ m) (ROut, p) in_p cols False)
      (schedule (a ^ m)) mem = Some (Inr m1)" "m1 RIn = mem RIn"
    "m1 ROut = fold (\<lambda>c. put_slices (a ^ m) c Rs p) (schedule (a ^ m)) (mem ROut)"
    using par_map_slices [of "a ^ m" "mem RIn" "length (mem ROut)"
        "build_chunk tb u count (count div a ^ m) (ROut, p) in_p cols False" Rs p "schedule (a ^ m)" mem]
      assms(9,11,15) fit by auto
  have "m1 ROut = overlay p (concat Rs) (mem ROut)"
    using m1(3) put_all_slices [OF assms(9) am assms(11) fit] by simp
  from merge_chunks_spec [where mem = m1 and p = p and u = u, OF assms(1-7) this assms(8)] obtain m2 where
    "merge_chunks tb u count (a ^ m) (ROut, p) cols m1 = Some (Inr (root h a m Y, m2))"
    "m2 ROut = overlay p (concat Rs @ concat (rows h a m Y)) (mem ROut)" "m2 RIn = m1 RIn" by blast
  moreover have "\<not> (a = 0 \<or> cols \<and> col_arity tb = 0)" "\<not> (cols \<and> count mod col_arity tb \<noteq> 0)"
    using assms(1,12) by auto
  ultimately show ?thesis
    using m1(1,2) assms(10,13,14) by (simp add: BuildTree_mt_def Let_def assms(2) [symmetric])
qed

lemma BuildTree_mt_spec:
  assumes "2 \<le> a" "a = tb_arity tb" "h = tb_hash tb" "d = (if cols then 0 else discard_rows tb)" "d \<le> 2"
    "w = (if cols then col_arity tb else 1)" "0 < w" "d + 1 < k" "pool_size * 4 \<le> a ^ (k - d - 1)"
    "\<forall>n. set (schedule n) = {0..<n}" "(if cols then 128 else 64) < a ^ k * w"
    "s + a ^ k * w \<le> length (mem RIn)" "leaves = take (a ^ k * w) (drop s (mem RIn))"
    "X = (if cols then level (col_hash tb) (col_arity tb) leaves else leaves)"
    "stored = (if cols then concat (X # rows h a k X) else concat (drop d (rows h a k X)))"
    "p + length stored \<le> length (mem ROut)"
  shows "\<exists>mem'. BuildTree_mt tb u pool_size schedule (a ^ k * w) (ROut, p) (RIn, s) cols False mem =
      Some (Inr (root h a k X, mem')) \<and> mem' ROut = overlay p stored (mem ROut) \<and> mem' RIn = mem RIn"
proof -
  have mh: "merkle_hash a" using assms(1) by (rule merkle_hash.intro)
  obtain m where m: "grow_chunks a (pool_size * 4) a = Some (a ^ m)" "0 < m" "m \<le> k - d - 1"
    using grow_chunks_depth [OF assms(1) _ assms(9)] assms(8) by auto
  define K where "K = k - m"
  have K: "k = K + m" "d < K" "0 < K" using m assms(8) by (auto simp: K_def)
  define Y where "Y = levels h a K X"
  define Rs where "Rs = (if cols then X # rows h a K X else drop d (rows h a K X))"
  have "length leaves = a ^ k * w" using assms(12,13) by simp
  then have lX2: "length X = a ^ k" using assms(6,7,14) by (cases cols) simp_all
  then have lX: "length X = a ^ m * a ^ K" using K(1) by (simp add: power_add mult.commute)
  have lY: "length Y = a ^ m" unfolding Y_def by (rule merkle_hash.length_levels [OF mh lX])
  have cnt: "a ^ k * w = a ^ m * (a ^ K * w)" "a ^ k * w div a ^ m = a ^ K * w"
    using K(1) assms(1) by (simp_all add: power_add mult.commute mult.left_commute)
  have st: "stored = concat Rs @ concat (rows h a m Y)"
    using K(1,2) by (simp add: assms(15) Rs_def Y_def rows_add merkle_hash.length_rows [OF mh])
  have sz: "length stored = length (concat Rs) + (\<Sum>i<m. a ^ i)"
    using st length_rows_sum [OF assms(1) lY] by simp
  have fits: "p + length (concat Rs) \<le> length (mem ROut)" using sz assms(16) by simp
  have P: "\<exists>P. Rs = P @ [Y]"
  proof -
    obtain j where j: "K = Suc j" using K(3) by (cases K) auto
    with K(2) drop_rows_Suc [of d j h a X] drop_rows_Suc [of 0 j h a X] show ?thesis
      by (simp add: Rs_def Y_def del: rows.simps levels.simps)
  qed
  then obtain P where P: "Rs = P @ [Y]" by blast
  have rt: "root h a k X = root h a m Y"
    using merkle_hash.levels_add [OF mh] by (simp add: root_def Y_def K(1) merkle_hash.levels_add [OF mh])
  have ts: "tree_size tb (a ^ k * w) cols False = Some (Inr (length stored))"
  proof (cases cols)
    case True
    then show ?thesis
      using tree_size_cols [OF assms(1,2) refl, of k False] assms(6,7,8,15) lX2 length_rows_sum [OF assms(1) lX2, of h] by simp
  next
    case False
    then show ?thesis
      using tree_size_plain [OF assms(1,2), of k] assms(4,6,8,15) merkle_hash.length_concat_drop_rows [OF mh lX2, of d h]
      by simp
  qed
  have dv: "\<forall>R \<in> set Rs. a ^ m dvd length R"
    using merkle_hash.rows_dvd [OF mh lX, of h] lX by (auto simp: Rs_def dest: in_set_dropD)
  have ka: "a ^ k mod a = 0" using K by (cases k) simp_all
  have "\<exists>mem'. BuildTree_mt tb u pool_size schedule (a ^ k * w) (ROut, p) (RIn, s) cols False mem =
      Some (Inr (root h a m Y, mem')) \<and>
    mem' ROut = overlay p (concat Rs @ concat (rows h a m Y)) (mem ROut) \<and> mem' RIn = mem RIn"
  proof (rule BuildTree_mt_of_chunks [OF assms(1-3) m(2) lY P _ _ dv m(1)])
    fix c and mem' :: "'a store"
    assume c: "c < a ^ m" and mem': "mem' RIn = mem RIn" "length (mem' ROut) = length (mem ROut)"
    show "\<exists>mem''. build_chunk tb u (a ^ k * w) (a ^ k * w div a ^ m) (ROut, p) (RIn, s) cols False c mem' = Some (Inr mem'') \<and>
        mem'' RIn = mem RIn \<and> mem'' ROut = put_slices (a ^ m) c Rs p (mem' ROut)"
    proof (cases cols)
      case True
      then have X: "X = level (col_hash tb) (col_arity tb) (take (a ^ m * (a ^ K * col_arity tb)) (drop s (mem' RIn)))"
        and w: "w = col_arity tb" and R: "Rs = X # rows h a K X"
        using assms(6,14) assms(13) [unfolded cnt(1)] mem'(1) by (simp_all add: Rs_def)
      have "s + a ^ m * (a ^ K * col_arity tb) \<le> length (mem' RIn)" "p + length (concat (X # rows h a K X)) \<le> length (mem' ROut)"
        using assms(12) [unfolded cnt(1)] w mem' fits R by simp_all
      from build_chunk_cols [where u = u and nd = False, OF assms(1-3) refl _ c this(1) X this(2)]
      show ?thesis unfolding cnt(2) unfolding cnt(1) unfolding w R using True mem' assms(7) w by simp
    next
      case False
      then have X: "X = take (a ^ m * a ^ K) (drop s (mem' RIn))" and w: "w = 1" and R: "Rs = drop d (rows h a K X)"
        and d: "d = discard_rows tb"
        using assms(4,6,14) assms(13) [unfolded cnt(1)] mem'(1) by (simp_all add: Rs_def)
      have "s + a ^ m * a ^ K \<le> length (mem' RIn)" "p + length (concat (drop d (rows h a K X))) \<le> length (mem' ROut)"
        using assms(12) [unfolded cnt(1)] w mem' fits R by simp_all
      from build_chunk_plain [where u = u, OF assms(1-3) d assms(5) K(2) c this(1) X this(2)]
      show ?thesis using False mem' cnt w R by simp
    qed
  qed (use assms ts sz ka in auto)
  then show ?thesis using rt st by simp
qed

text \<open>
  With too many threads the chunks are not deeper than the discarded rows;
  the index of the merged top of the tree then wraps below zero.  For the
  tree-R of an 8 MiB sector (arity 8, six rows, two discarded) this happens
  with more than 128 threads.
\<close>

lemma merge_chunks_too_shallow:
  assumes "2 \<le> a" "a = tb_arity tb" "discard_rows tb \<le> k" "k - discard_rows tb \<le> m" "0 < k"
  shows "merge_chunks tb u (a ^ k) (a ^ m) out_p False mem = Some (Inl OutOfBounds)"
proof -
  have "(\<Sum>i<k - discard_rows tb. a ^ i) \<le> (\<Sum>i<m. a ^ i)"
    using assms(4) by (intro sum_mono2) auto
  moreover have "0 < a ^ m" using assms(1) by simp
  ultimately have "(\<Sum>i<k - discard_rows tb. a ^ i) < a ^ m + (\<Sum>i<m. a ^ i)" by linarith
  then show ?thesis
    using tree_size_top [OF assms(1,2), of m] tree_size_plain [OF assms(1-3,5)]
    by (simp add: merge_chunks_def assms(2) [symmetric])
qed

lemma too_many_threads_8MB:
  assumes "128 < pool_size" "pool_size \<le> 1024"
  shows "grow_chunks 8 (pool_size * 4) 8 = Some (8 ^ 4)"
  using assms by (simp add: grow_chunks.simps [of 8])

text \<open>
  C15: the builder over the thread pool is equivalent to the single threaded
  one, for tree-R (up to two discarded rows) and for tree-C (with columns),
  whatever the number of threads and the order in which the chunks complete,
  as long as a chunk is a tree with more rows than are discarded: both return
  the Merkle root and leave the same rows in the output, within its size.
\<close>
theorem BuildTree_mt_equiv:
  fixes tb :: "'n TreeBuilder"
  assumes "2 \<le> a" "a = tb_arity tb" "h = tb_hash tb" "d = (if cols then 0 else discard_rows tb)" "d \<le> 2"
    "w = (if cols then col_arity tb else 1)" "0 < w" "d + 1 < k" "pool_size * 4 \<le> a ^ (k - d - 1)"
    "\<forall>n. set (schedule n) = {0..<n}" "(if cols then 128 else 64) < a ^ k * w"
    "s + a ^ k * w \<le> length (mem RIn)" "leaves = take (a ^ k * w) (drop s (mem RIn))"
    "X = (if cols then level (col_hash tb) (col_arity tb) leaves else leaves)"
    "stored = (if cols then concat (X # rows h a k X) else concat (drop d (rows h a k X)))"
    "p + length stored \<le> length (mem ROut)"
  shows "\<exists>m1 m2. BuildTree tb u (a ^ k * w) (ROut, p) (RIn, s) cols False mem = Some (Inr (root h a k X, m1)) \<and>
    BuildTree_mt tb u pool_size schedule (a ^ k * w) (ROut, p) (RIn, s) cols False mem = Some (Inr (root h a k X, m2)) \<and>
    m1 ROut = overlay p stored (mem ROut) \<and> m2 ROut = m1 ROut \<and> m2 RIn = m1 RIn"
proof -
  have "\<exists>m1. BuildTree tb u (a ^ k * w) (ROut, p) (RIn, s) cols False mem = Some (Inr (root h a k X, m1)) \<and>
      m1 ROut = overlay p stored (mem ROut) \<and> m1 RIn = mem RIn"
  proof (cases cols)
    case True
    with assms show ?thesis using BuildTree_cols_spec [of a tb h w k s mem X p u False] by simp
  next
    case False
    with assms show ?thesis using BuildTree_spec [of tb d False k s mem X stored p u] by auto
  qed
  with BuildTree_mt_spec [OF assms] show ?thesis by fastforce
qed

theorem BuildTree_mt_equiv_witness:
  "let tb = TreeBuilder_new (\<lambda>n. sum_list) 2 2 1; X = replicate 128 (1 :: nat);
       mem = (\<lambda>_. [])(RIn := X, ROut := replicate 63 0)
   in \<exists>m1 m2. BuildTree tb 0 (2 ^ 7 * 1) (ROut, 0) (RIn, 0) False False mem = Some (Inr (root sum_list 2 7 X, m1)) \<and>
    BuildTree_mt tb 0 8 (\<lambda>n. rev [0..<n]) (2 ^ 7 * 1) (ROut, 0) (RIn, 0) False False mem =
      Some (Inr (root sum_list 2 7 X, m2)) \<and>
    m1 ROut = overlay 0 (concat (drop 1 (rows sum_list 2 7 X))) (replicate 63 0) \<and>
    m2 ROut = m1 ROut \<and> m2 RIn = m1 RIn"
proof -
  let ?tb = "TreeBuilder_new (\<lambda>n. sum_list) 2 2 1 :: nat TreeBuilder" and ?X = "replicate 128 (1 :: nat)"
  let ?mem = "(\<lambda>_. [])(RIn := ?X, ROut := replicate 63 0)"
  have "merkle_hash 2" by (simp add: merkle_hash.intro)
  then have "length (concat (drop 1 (rows sum_list 2 7 ?X))) = (\<Sum>i<6. 2 ^ i)"
    using merkle_hash.length_concat_drop_rows [of 2 ?X 7 1 sum_list] by simp
  then have l: "length (concat (drop 1 (rows sum_list 2 7 ?X))) = 63"
    by (simp add: eval_nat_numeral lessThan_Suc)
  show ?thesis
    using BuildTree_mt_equiv [where tb = ?tb and a = 2 and h = sum_list and d = 1 and cols = False and w = 1 and k = 7
        and pool_size = 8 and schedule = "\<lambda>n. rev [0..<n]" and s = 0 and mem = ?mem and leaves = ?X and X = ?X
        and stored = "concat (drop 1 (rows sum_list 2 7 ?X))" and p = 0 and u = 0] l
    by (simp add: TreeBuilder_new_def)
qed

end
