(* ===== verification/Files.thy ===== *)
theory Files
  imports Merkle
begin

text \<open>
  Files on disk: the memory-mapped file of \<open>src/util/mmap_t.hpp\<close> and the
  file written with \<open>lseek\<close> and \<open>write\<close> of \<open>src/util/file_t.hpp\<close>.

  The file system is a map from names to contents, as lists of elements of the
  template type \<open>T\<close> (\<open>szT\<close> bytes each); sizes in bytes are kept as the code
  computes them.  What the operating system may refuse is a record of
  predicates (\<open>os\<close>): opening for reading or writing, mapping, and writing.
  Allocated space reads as \<open>zero\<close>.  The mutex of \<open>file_t\<close> makes an
  operation atomic.
\<close>

type_synonym 'a fs = "string \<Rightarrow> 'a list option"

record os =
  os_open_r :: "string \<Rightarrow> bool"
  os_open_w :: "string \<Rightarrow> bool"
  os_mmap :: "string \<Rightarrow> bool"
  os_write :: "string \<Rightarrow> bool"

datatype map_ptr = MNull | MFailed | MData

record mmap_t =
  mm_fname :: string
  mm_size :: nat
  mm_fd :: bool
  mm_data :: map_ptr
  mm_is_write :: bool

record file_t =
  f_fname :: string
  f_size :: nat
  f_fd :: bool
  f_is_write :: bool

definition SIZE_MAX :: nat where
  "SIZE_MAX = SIZE_MOD - 1"

definition file_at :: "'a fs \<Rightarrow> string \<Rightarrow> 'a list" where
  "file_at fs f = (case fs f of None \<Rightarrow> [] | Some x \<Rightarrow> x)"

definition fallocate :: "'a \<Rightarrow> nat \<Rightarrow> 'a list \<Rightarrow> 'a list" where
  "fallocate zero n xs = xs @ replicate (n - length xs) zero"

definition open_fd :: "os \<Rightarrow> 'a \<Rightarrow> nat \<Rightarrow> string \<Rightarrow> nat \<Rightarrow> bool \<Rightarrow> bool \<Rightarrow> 'a fs \<Rightarrow> (bool \<times> nat) option \<times> 'a fs" where
  "open_fd os zero szT f sz wr remove_first fs =
     (let fs1 = (if wr \<and> remove_first then fs(f := None) else fs) in
      if \<not> (if wr then os_open_w os f else os_open_r os f \<and> fs1 f \<noteq> None) then (None, fs1)
      else if wr then (Some (True, sz), fs1(f := Some (fallocate zero (sz div szT) (file_at fs1 f))))
      else
        let st_size = length (file_at fs1 f) * szT in
        if sz = SIZE_MAX then (Some (True, st_size), fs1)
        else (Some (st_size = sz, sz), fs1))"

definition mmap_new :: mmap_t where
  "mmap_new = \<lparr>mm_fname = '''', mm_size = 0, mm_fd = False, mm_data = MNull, mm_is_write = False\<rparr>"

definition mmap_is_open :: "mmap_t \<Rightarrow> bool" where
  "mmap_is_open m \<longleftrightarrow> mm_data m \<noteq> MNull"

definition open_mmap :: "os \<Rightarrow> 'a \<Rightarrow> nat \<Rightarrow> string \<Rightarrow> nat \<Rightarrow> bool \<Rightarrow> bool \<Rightarrow> mmap_t \<Rightarrow> 'a fs \<Rightarrow> int \<times> mmap_t \<times> 'a fs" where
  "open_mmap os zero szT f sz wr remove_first m fs =
     (let m1 = m\<lparr>mm_fname := f, mm_size := sz, mm_is_write := wr\<rparr> in
      case open_fd os zero szT f sz wr remove_first fs of
        (None, fs') \<Rightarrow> (1, m1\<lparr>mm_fd := False\<rparr>, fs')
      | (Some (size_ok, sz'), fs') \<Rightarrow>
          let m2 = m1\<lparr>mm_fd := True, mm_size := sz'\<rparr> in
          if \<not> size_ok then (1, m2, fs')
          else if os_mmap os f then (0, m2\<lparr>mm_data := MData\<rparr>, fs')
          else (1, m2\<lparr>mm_data := MFailed\<rparr>, fs'))"

definition mmap_read :: "os \<Rightarrow> 'a \<Rightarrow> nat \<Rightarrow> string \<Rightarrow> nat \<Rightarrow> mmap_t \<Rightarrow> 'a fs \<Rightarrow> int \<times> mmap_t \<times> 'a fs" where
  "mmap_read os zero szT f sz = open_mmap os zero szT f sz False False"

definition mmap_write :: "os \<Rightarrow> 'a \<Rightarrow> nat \<Rightarrow> string \<Rightarrow> nat \<Rightarrow> bool \<Rightarrow> mmap_t \<Rightarrow> 'a fs \<Rightarrow> int \<times> mmap_t \<times> 'a fs" where
  "mmap_write os zero szT f sz remove_first = open_mmap os zero szT f sz True remove_first"

definition mmap_buf :: "nat \<Rightarrow> mmap_t \<Rightarrow> 'a fs \<Rightarrow> 'a list result" where
  "mmap_buf szT m fs =
     (if mm_data m = MData then Inr (take (mm_size m div szT) (file_at fs (mm_fname m))) else Inl NullDeref)"

definition mmap_get :: "nat \<Rightarrow> mmap_t \<Rightarrow> 'a fs \<Rightarrow> nat \<Rightarrow> 'a result" where
  "mmap_get szT m fs i = bind_result (mmap_buf szT m fs) (\<lambda>b. vec_get b i)"

definition put_block :: "nat \<Rightarrow> 'a list \<Rightarrow> 'a list \<Rightarrow> 'a list result" where
  "put_block off buf b = (if off + length buf \<le> length b then Inr (overlay off buf b) else Inl OutOfBounds)"

definition mmap_write_data :: "nat \<Rightarrow> mmap_t \<Rightarrow> nat \<Rightarrow> 'a list \<Rightarrow> 'a fs \<Rightarrow> 'a fs result" where
  "mmap_write_data szT m off buf fs =
     bind_result (assert_that (mmap_is_open m)) (\<lambda>_.
     bind_result (mmap_buf szT m fs) (\<lambda>b.
     bind_result (if mm_is_write m then put_block off buf b else Inl OutOfBounds) (\<lambda>b'.
     Inr (fs(mm_fname m := Some (overlay 0 b' (file_at fs (mm_fname m))))))))"

definition mmap_read_data :: "nat \<Rightarrow> mmap_t \<Rightarrow> nat \<Rightarrow> nat \<Rightarrow> 'a fs \<Rightarrow> 'a list result" where
  "mmap_read_data szT m off n fs =
     bind_result (assert_that (mmap_is_open m)) (\<lambda>_.
     bind_result (mmap_buf szT m fs) (\<lambda>b.
     if off + n \<le> length b then Inr (take n (drop off b)) else Inl OutOfBounds))"

definition file_new :: file_t where
  "file_new = \<lparr>f_fname = '''', f_size = 0, f_fd = False, f_is_write = False\<rparr>"

definition file_is_open :: "file_t \<Rightarrow> bool" where
  "file_is_open t \<longleftrightarrow> f_fd t"

definition open_file :: "os \<Rightarrow> 'a \<Rightarrow> nat \<Rightarrow> string \<Rightarrow> nat \<Rightarrow> bool \<Rightarrow> bool \<Rightarrow> file_t \<Rightarrow> 'a fs \<Rightarrow> int \<times> file_t \<times> 'a fs" where
  "open_file os zero szT f sz wr remove_first t fs =
     (let t1 = t\<lparr>f_fname := f, f_size := sz, f_is_write := wr\<rparr> in
      case open_fd os zero szT f sz wr remove_first fs of
        (None, fs') \<Rightarrow> (1, t1\<lparr>f_fd := False\<rparr>, fs')
      | (Some (size_ok, sz'), fs') \<Rightarrow> (if size_ok then 0 else 1, t1\<lparr>f_fd := True, f_size := sz'\<rparr>, fs'))"

definition file_write :: "os \<Rightarrow> 'a \<Rightarrow> nat \<Rightarrow> string \<Rightarrow> nat \<Rightarrow> bool \<Rightarrow> file_t \<Rightarrow> 'a fs \<Rightarrow> int \<times> file_t \<times> 'a fs" where
  "file_write os zero szT f sz remove_first = open_file os zero szT f sz True remove_first"

definition file_read :: "os \<Rightarrow> 'a \<Rightarrow> nat \<Rightarrow> string \<Rightarrow> nat \<Rightarrow> file_t \<Rightarrow> 'a fs \<Rightarrow> int \<times> file_t \<times> 'a fs" where
  "file_read os zero szT f sz = open_file os zero szT f sz False False"

text \<open>
  A write beyond the end extends the file, and a gap reads as zeroes.  A file
  opened for reading refuses the write, and the code then exits.
\<close>

definition file_write_data :: "os \<Rightarrow> 'a \<Rightarrow> file_t \<Rightarrow> nat \<Rightarrow> 'a list \<Rightarrow> 'a fs \<Rightarrow> 'a fs result" where
  "file_write_data os zero t off buf fs =
     bind_result (assert_that (file_is_open t)) (\<lambda>_.
     if f_is_write t \<and> os_write os (f_fname t) then
       Inr (if buf = [] then fs
            else fs(f_fname t := Some (overlay off buf (fallocate zero (off + length buf) (file_at fs (f_fname t))))))
     else Inl ExitFailure)"

definition file_read_data :: "file_t \<Rightarrow> nat \<Rightarrow> nat \<Rightarrow> 'a list \<Rightarrow> 'a fs \<Rightarrow> 'a list result" where
  "file_read_data t off n buf fs =
     bind_result (assert_that (file_is_open t)) (\<lambda>_.
     bind_result (put_block 0 (take n (drop off (file_at fs (f_fname t)))) buf) Inr)"


section \<open>Reading back what was written\<close>

lemma file_at_upd [simp]: "file_at (fs(f := Some x)) f = x" "file_at (fs(f := None)) f = []"
  "g \<noteq> f \<Longrightarrow> file_at (fs(f := y)) g = file_at fs g"
  by (simp_all add: file_at_def)

lemma length_fallocate [simp]: "length (fallocate zero n xs) = max n (length xs)"
  by (auto simp: fallocate_def)

lemma fallocate_Nil [simp]: "fallocate zero n [] = replicate n zero"
  by (simp add: fallocate_def)

lemma overlay_0_self [simp]: "length ys = length xs \<Longrightarrow> overlay 0 ys xs = ys"
  by (simp add: overlay_def)

lemma mmap_write_fresh:
  assumes "os_open_w os f" "os_mmap os f" "0 < szT"
  shows "mmap_write os zero szT f (n * szT) True m fs =
    (0, m\<lparr>mm_fname := f, mm_size := n * szT, mm_fd := True, mm_data := MData, mm_is_write := True\<rparr>,
     fs(f := Some (replicate n zero)))"
  using assms by (simp add: mmap_write_def open_mmap_def open_fd_def Let_def)

lemma mmap_read_whole:
  assumes "os_open_r os f" "os_mmap os f" "fs f = Some x"
  shows "mmap_read os zero szT f SIZE_MAX m fs =
    (0, m\<lparr>mm_fname := f, mm_size := length x * szT, mm_fd := True, mm_data := MData, mm_is_write := False\<rparr>, fs)"
  using assms by (simp add: mmap_read_def open_mmap_def open_fd_def Let_def file_at_def)

lemma failed_map_is_open:
  assumes "os_open_w os f" "\<not> os_mmap os f"
  shows "\<exists>m'. mmap_write os zero szT f sz True m fs = (1, m', fs(f := Some (replicate (sz div szT) zero))) \<and>
    mmap_is_open m' \<and> mmap_buf szT m' fs' = Inl NullDeref"
  using assms by (simp add: mmap_write_def open_mmap_def open_fd_def Let_def mmap_is_open_def mmap_buf_def)



end
