(* ===== verification/Tree_RC.thy ===== *)
theory Tree_RC
  imports C1 Tree_Builder_MT Files
begin

text \<open>
  Tree-C and tree-R of a sector: \<open>src/pc1/tree_c.hpp\<close> and
  \<open>src/pc1/tree_r.hpp\<close>.  Both build one Poseidon tree per file with the tree
  builder, and hash the roots of the files together.

  The Poseidon hash is the parameter \<open>poseidon\<close> (by arity), the addition of
  field elements the parameter \<open>element_add\<close>; files are those of the
  theory \<open>Files\<close>, a freshly allocated array is filled with \<open>uninit\<close>.
  The results of \<open>mmap_write\<close> and \<open>mmap_read\<close> are not checked by the code:
  the first access then fails.  The template parameter is the sector size
  \<open>sz\<close>; timing and printing are left out.
\<close>

definition select_builder :: "'n TreeBuilder \<Rightarrow> 'n \<Rightarrow> nat \<Rightarrow> (nat \<Rightarrow> nat list) \<Rightarrow> nat \<Rightarrow> nat \<Rightarrow> nat \<Rightarrow> bool \<Rightarrow>
    'n store \<Rightarrow> ('n \<times> 'n store) result option" where
  "select_builder tb uninit pool_size schedule sz count s cols mem =
     (if GetSectorSizeLg sz > 15 then BuildTree_mt tb uninit pool_size schedule count (ROut, 0) (RIn, s) cols False mem
      else BuildTree tb uninit count (ROut, 0) (RIn, s) cols False mem)"

definition build_file :: "os \<Rightarrow> 'n \<Rightarrow> (nat \<Rightarrow> 'n store \<Rightarrow> ('n \<times> 'n store) result option) \<Rightarrow> nat \<Rightarrow> string \<Rightarrow>
    'n list \<Rightarrow> nat \<Rightarrow> 'n fs \<Rightarrow> ('n \<times> 'n fs) result option" where
  "build_file os zero builder elmts fname leaves s fs =
     (case mmap_write os zero NODE_SIZE fname (elmts * NODE_SIZE) True mmap_new fs of
        (rc, m, fs') \<Rightarrow>
          case mmap_buf NODE_SIZE m fs' of
            Inl e \<Rightarrow> Some (Inl e)
          | Inr out_file \<Rightarrow>
              map_option (\<lambda>r. bind_result r (\<lambda>(x, mem). Inr (x, fs'(fname := Some (mem ROut)))))
                (builder s (\<lambda>r. case r of RIn \<Rightarrow> leaves | ROut \<Rightarrow> out_file | RDisc \<Rightarrow> [])))"

fun build_files :: "os \<Rightarrow> 'n \<Rightarrow> (nat \<Rightarrow> 'n store \<Rightarrow> ('n \<times> 'n store) result option) \<Rightarrow> nat \<Rightarrow> (nat \<Rightarrow> string) \<Rightarrow>
    'n list \<Rightarrow> nat \<Rightarrow> nat list \<Rightarrow> 'n fs \<Rightarrow> ('n list \<times> 'n fs) result option" where
  "build_files os zero builder elmts fname leaves sub_tree_size [] fs = Some (Inr ([], fs))"
| "build_files os zero builder elmts fname leaves sub_tree_size (i # is') fs =
     (case build_file os zero builder elmts (snprintf256 (fname i)) leaves (i * sub_tree_size) fs of
        None \<Rightarrow> None
      | Some (Inl e) \<Rightarrow> Some (Inl e)
      | Some (Inr (x, fs')) \<Rightarrow>
          map_option (\<lambda>r. bind_result r (\<lambda>(xs, fs''). Inr (x # xs, fs'')))
            (build_files os zero builder elmts fname leaves sub_tree_size is' fs'))"

definition combine_roots :: "(nat \<Rightarrow> 'n list \<Rightarrow> 'n) \<Rightarrow> nat \<Rightarrow> 'n list \<Rightarrow> 'n" where
  "combine_roots poseidon num_files final_row =
     (if num_files = 16 then poseidon 2 [poseidon 8 (take 8 final_row), poseidon 8 (take 8 (drop 8 final_row))]
      else if num_files > 1 then poseidon num_files (take num_files final_row)
      else final_row ! 0)"

definition build_sector_tree :: "(nat \<Rightarrow> 'n list \<Rightarrow> 'n) \<Rightarrow> os \<Rightarrow> 'n \<Rightarrow> 'n \<Rightarrow> nat \<Rightarrow> (nat \<Rightarrow> nat list) \<Rightarrow> nat \<Rightarrow>
    'n TreeBuilder \<Rightarrow> bool \<Rightarrow> string \<Rightarrow> nat \<Rightarrow> 'n list \<Rightarrow> string \<Rightarrow> 'n fs \<Rightarrow> ('n \<times> 'n fs) result option" where
  "build_sector_tree poseidon os zero uninit pool_size schedule sz tb cols stem cur_nodes leaves output_path fs =
     (let num_files = GetNumTreeRCFiles sz; sub_tree_size = cur_nodes div num_files in
      case tree_size tb sub_tree_size cols False of
        None \<Rightarrow> None
      | Some (Inl e) \<Rightarrow> Some (Inl e)
      | Some (Inr elmts) \<Rightarrow>
          map_option (\<lambda>r. bind_result r (\<lambda>(final_row, fs'). Inr (combine_roots poseidon num_files final_row, fs')))
            (if output_path \<noteq> [] then
               build_files os zero (\<lambda>s. select_builder tb uninit pool_size schedule sz sub_tree_size s cols) elmts
                 (tree_name output_path stem num_files) leaves sub_tree_size [0..<num_files] fs
             else
               map_option (\<lambda>r. bind_result r (\<lambda>_. Inr (replicate num_files uninit, fs)))
                 (select_builder tb uninit pool_size schedule sz cur_nodes 0 cols
                   (\<lambda>r. case r of RIn \<Rightarrow> leaves | ROut \<Rightarrow> replicate elmts uninit | RDisc \<Rightarrow> []))))"

definition BuildTreeC_leaves :: "(nat \<Rightarrow> 'n list \<Rightarrow> 'n) \<Rightarrow> os \<Rightarrow> 'n \<Rightarrow> 'n \<Rightarrow> nat \<Rightarrow> (nat \<Rightarrow> nat list) \<Rightarrow> nat \<Rightarrow>
    'n list \<Rightarrow> string \<Rightarrow> 'n fs \<Rightarrow> ('n \<times> 'n fs) result option" where
  "BuildTreeC_leaves poseidon os zero uninit pool_size schedule sz leaves output_path fs =
     build_sector_tree poseidon os zero uninit pool_size schedule sz
       (TreeBuilder_new poseidon (GetNumLayers sz) GetNumTreeRCArity (GetNumTreeRDiscardRows sz)) True
       ''/sc-02-data-tree-c'' (sz * GetNumLayers sz div NODE_SIZE) leaves output_path fs"

definition BuildTreeR_leaves :: "(nat \<Rightarrow> 'n list \<Rightarrow> 'n) \<Rightarrow> os \<Rightarrow> 'n \<Rightarrow> 'n \<Rightarrow> nat \<Rightarrow> (nat \<Rightarrow> nat list) \<Rightarrow> nat \<Rightarrow>
    'n list \<Rightarrow> string \<Rightarrow> 'n fs \<Rightarrow> ('n \<times> 'n fs) result option" where
  "BuildTreeR_leaves poseidon os zero uninit pool_size schedule sz leaves output_path fs =
     build_sector_tree poseidon os zero uninit pool_size schedule sz
       (TreeBuilder_new poseidon 2 GetNumTreeRCArity (GetNumTreeRDiscardRows sz)) False
       ''/sc-02-data-tree-r-last'' (sz div NODE_SIZE) leaves output_path fs"

text \<open>
  The layers of a sector are read from one file each and merged into
  columns; the replica is the sum of the last layer and the data.  When the
  first layer cannot be opened, \<open>get_size\<close> is \<open>(size_t)-1\<close> and the vector of
  that many bytes cannot be allocated.
\<close>

definition merge_layer :: "os \<Rightarrow> 'n \<Rightarrow> 'n fs \<Rightarrow> string \<Rightarrow> nat \<Rightarrow> nat \<Rightarrow> nat \<Rightarrow> 'n list \<Rightarrow> 'n list result" where
  "merge_layer os zero fs layers_cache num_layers n layer_idx merged =
     (case mmap_read os zero NODE_SIZE
         (layers_cache @ ''/sc-02-data-layer-'' @ show_nat (layer_idx + 1) @ ''.dat'') SIZE_MAX mmap_new fs of
        (rc, m, _) \<Rightarrow>
          fold_result (\<lambda>i merged'. bind_result (mmap_get NODE_SIZE m fs i)
              (\<lambda>x. vec_set merged' (i * num_layers + layer_idx) x)) [0..<n] merged)"

definition merge_layers :: "os \<Rightarrow> 'n \<Rightarrow> 'n fs \<Rightarrow> string \<Rightarrow> nat \<Rightarrow> 'n list result" where
  "merge_layers os zero fs layers_cache num_layers =
     (case mmap_read os zero NODE_SIZE
         (layers_cache @ ''/sc-02-data-layer-1.dat'') SIZE_MAX mmap_new fs of
        (rc, m, _) \<Rightarrow>
          let cur_nodes = num_layers * mm_size m div NODE_SIZE in
          if mm_size m = SIZE_MAX then Inl LibFail
          else fold_result (merge_layer os zero fs layers_cache num_layers (cur_nodes div num_layers))
                 [0..<num_layers] (replicate cur_nodes zero))"

definition BuildTreeC :: "(nat \<Rightarrow> 'n list \<Rightarrow> 'n) \<Rightarrow> os \<Rightarrow> 'n \<Rightarrow> 'n \<Rightarrow> nat \<Rightarrow> (nat \<Rightarrow> nat list) \<Rightarrow> nat \<Rightarrow>
    string \<Rightarrow> string \<Rightarrow> 'n fs \<Rightarrow> ('n \<times> 'n fs) result option" where
  "BuildTreeC poseidon os zero uninit pool_size schedule sz layers_cache output_path fs =
     (case merge_layers os zero fs layers_cache (GetNumLayers sz) of
        Inl e \<Rightarrow> Some (Inl e)
      | Inr leaves \<Rightarrow> BuildTreeC_leaves poseidon os zero uninit pool_size schedule sz leaves output_path fs)"

definition encode_chunk :: "('n \<Rightarrow> 'n \<Rightarrow> 'n) \<Rightarrow> mmap_t \<Rightarrow> mmap_t \<Rightarrow> 'n fs \<Rightarrow> nat \<Rightarrow> nat \<Rightarrow> nat \<Rightarrow> 'n list \<Rightarrow> 'n list result" where
  "encode_chunk element_add data_file last_layer fs chunk_size sector_nodes chunk encoded =
     (let start = chunk * chunk_size; stop = min (start + chunk_size) sector_nodes in
      fold_result (\<lambda>i encoded'.
        bind_result (mmap_get NODE_SIZE data_file fs i) (\<lambda>x.
        bind_result (mmap_get NODE_SIZE last_layer fs i) (\<lambda>y.
        vec_set encoded' i (element_add x y)))) [start..<stop] encoded)"

definition BuildTreeR :: "(nat \<Rightarrow> 'n list \<Rightarrow> 'n) \<Rightarrow> ('n \<Rightarrow> 'n \<Rightarrow> 'n) \<Rightarrow> os \<Rightarrow> 'n \<Rightarrow> 'n \<Rightarrow> nat \<Rightarrow> (nat \<Rightarrow> nat list) \<Rightarrow> nat \<Rightarrow>
    string \<Rightarrow> string \<Rightarrow> string \<Rightarrow> 'n fs \<Rightarrow> ('n \<times> 'n fs) result option" where
  "BuildTreeR poseidon element_add os zero uninit pool_size schedule sz last_layer_filename data_filename output_path fs =
     (case mmap_read os zero NODE_SIZE last_layer_filename SIZE_MAX mmap_new fs of
        (rc, last_layer, _) \<Rightarrow>
          let last_layer_size = mm_size last_layer; sector_nodes = last_layer_size div NODE_SIZE in
          if data_filename = [] then
            (case mmap_buf NODE_SIZE last_layer fs of
               Inl e \<Rightarrow> Some (Inl e)
             | Inr leaves \<Rightarrow> BuildTreeR_leaves poseidon os zero uninit pool_size schedule sz leaves output_path fs)
          else if pool_size = 0 then Some (Inl DivByZero)
          else
            let num_chunks = pool_size * 4;
                chunk_size = div_ceil sector_nodes num_chunks;
                sealed_filename = output_path @ ''/sealed-file''
            in case mmap_write os zero NODE_SIZE sealed_filename last_layer_size True mmap_new fs of
                 (rc2, sealed_file, fs') \<Rightarrow>
                   (case mmap_read os zero NODE_SIZE data_filename last_layer_size mmap_new fs' of
                      (rc3, data_file, _) \<Rightarrow>
                        case bind_result (mmap_buf NODE_SIZE sealed_file fs')
                               (fold_result (encode_chunk element_add data_file last_layer fs' chunk_size sector_nodes)
                                  (schedule num_chunks)) of
                          Inl e \<Rightarrow> Some (Inl e)
                        | Inr leaves \<Rightarrow>
                            BuildTreeR_leaves poseidon os zero uninit pool_size schedule sz leaves output_path
                              (fs'(sealed_filename := Some leaves))))"


section \<open>The shape of the trees of a sector\<close>

lemma sector_tree_shape:
  fixes s :: SectorSizeLg
  defines "sz \<equiv> 2 ^ sector_lg s"
  shows "\<exists>K. GetNumLeaves sz div GetNumTreeRCFiles sz = GetNumTreeRCArity ^ K \<and>
    GetNumLeaves sz = GetNumTreeRCFiles sz * GetNumTreeRCArity ^ K \<and>
    (if GetSectorSizeLg sz > 15 then 6 \<le> K \<and> GetNumTreeRDiscardRows sz = 2
     else K = 2 \<and> GetNumTreeRDiscardRows sz = 1)"
proof -
  have lg: "GetSectorSizeLg sz = sector_lg s"
    unfolding sz_def using sector_lg_bounds [of s] by (intro GetSectorSizeLg_pow2) simp
  have "\<exists>K \<in> {2, 6, 8, 9}. GetNumLeaves sz = GetNumTreeRCFiles sz * GetNumTreeRCArity ^ K \<and>
    (if sector_lg s > 15 then 6 \<le> K \<and> GetNumTreeRDiscardRows sz = 2
     else K = 2 \<and> GetNumTreeRDiscardRows sz = 1)"
    unfolding sz_def GetNumLeaves_sector by (cases s) (simp_all add: sector_defs constant_defs)
  moreover have "0 < GetNumTreeRCFiles sz"
    unfolding sz_def by (cases s) (simp_all add: sector_defs constant_defs)
  ultimately show ?thesis unfolding lg by auto
qed

lemma GetNumTreeRCFiles_le: "0 < GetNumTreeRCFiles (2 ^ sector_lg s)" "GetNumTreeRCFiles (2 ^ sector_lg s) \<le> 16"
  by (cases s; simp add: sector_defs constant_defs)+

lemma GetNumLayers_pos: "2 \<le> GetNumLayers (2 ^ sector_lg s)"
  by (cases s; simp add: sector_defs constant_defs)

text \<open>
  What one file holds: for tree-C the column hashes and all rows above
  them, for tree-R the rows above the discarded ones.
\<close>

definition file_leaves :: "(nat \<Rightarrow> 'n list \<Rightarrow> 'n) \<Rightarrow> bool \<Rightarrow> nat \<Rightarrow> 'n list \<Rightarrow> 'n list" where
  "file_leaves poseidon cols ca leaves = (if cols then level (poseidon ca) ca leaves else leaves)"

definition file_rows :: "(nat \<Rightarrow> 'n list \<Rightarrow> 'n) \<Rightarrow> bool \<Rightarrow> nat \<Rightarrow> nat \<Rightarrow> 'n list \<Rightarrow> 'n list" where
  "file_rows poseidon cols d K X =
     stored_rows (poseidon GetNumTreeRCArity) GetNumTreeRCArity (if cols then 0 else Suc d) K X"

lemma stored_rows_cols: "stored_rows h a 0 K X = concat (X # rows h a K X)"
  using stored_rows_rows [of h a X K] by (simp add: stored_rows_def)

lemma stored_rows_drop: "stored_rows h a (Suc d) K X = concat (drop d (rows h a K X))"
  by (simp add: stored_rows_def rows_levels drop_map del: upt_Suc)

lemma select_builder_spec:
  fixes s :: SectorSizeLg and poseidon :: "nat \<Rightarrow> 'n list \<Rightarrow> 'n"
  defines "sz \<equiv> 2 ^ sector_lg s"
  assumes "GetNumLeaves sz div GetNumTreeRCFiles sz = GetNumTreeRCArity ^ K" "d = GetNumTreeRDiscardRows sz"
    and "tb = TreeBuilder_new poseidon ca GetNumTreeRCArity d" "0 < ca" "w = (if cols then ca else 1)"
    and "15 < GetSectorSizeLg sz \<Longrightarrow> pool_size * 4 \<le> GetNumTreeRCArity ^ (K - 3)"
    and "\<forall>n. set (schedule n) = {0..<n}"
    and "p + GetNumTreeRCArity ^ K * w \<le> length (mem RIn)"
    and "X = file_leaves poseidon cols ca (take (GetNumTreeRCArity ^ K * w) (drop p (mem RIn)))"
    and "length (file_rows poseidon cols d K X) \<le> length (mem ROut)"
  shows "\<exists>mem'. select_builder tb u pool_size schedule sz (GetNumTreeRCArity ^ K * w) p cols mem =
      Some (Inr (root (poseidon GetNumTreeRCArity) GetNumTreeRCArity K X, mem')) \<and>
    mem' ROut = overlay 0 (file_rows poseidon cols d K X) (mem ROut)"
    "tree_size tb (GetNumTreeRCArity ^ K * w) cols False = Some (Inr (length (file_rows poseidon cols d K X)))"
proof -
  let ?a = GetNumTreeRCArity and ?h = "poseidon GetNumTreeRCArity"
  have a: "2 \<le> ?a" by (simp add: GetNumTreeRCArity_def GetNumTreeRCLgArity_def)
  have mh: "merkle_hash ?a" using a by (rule merkle_hash.intro)
  have tb: "?a = tb_arity tb" "?h = tb_hash tb" "discard_rows tb = d" "col_arity tb = ca" "col_hash tb = poseidon ca"
    using assms(4) by (simp_all add: TreeBuilder_new_def)
  obtain K' where K': "?a ^ K' = ?a ^ K" "if GetSectorSizeLg sz > 15 then 6 \<le> K' \<and> d = 2 else K' = 2 \<and> d = 1"
    using sector_tree_shape [of s] assms(2,3) unfolding sz_def by metis
  have "K' = K" using K'(1) power_inject_exp [of ?a K' K] a by simp
  note K = K'(2) [unfolded this]
  define e where "e = (if cols then 0 else d)"
  have e: "e \<le> 2" "e + 1 < K \<or> GetSectorSizeLg sz \<le> 15 \<and> e < K" "0 < K" "d \<le> K" "d < K"
    using K by (auto simp: e_def split: if_splits)
  have st: "file_rows poseidon cols d K X =
      (if cols then concat (X # rows ?h ?a K X) else concat (drop e (rows ?h ?a K X)))"
    by (simp add: file_rows_def stored_rows_cols stored_rows_drop e_def)
  have w: "0 < w" using assms(5,6) by simp
  have lX: "length X = ?a ^ K" using assms(5,6,9,10) by (cases cols) (simp_all add: file_leaves_def)
  show "tree_size tb (?a ^ K * w) cols False = Some (Inr (length (file_rows poseidon cols d K X)))"
  proof (cases cols)
    case True
    then show ?thesis
      using tree_size_cols [OF a tb(1) refl, of K False] tb(4) assms(5,6) e(3) st lX length_rows_sum [OF a lX, of ?h] by simp
  next
    case False
    then show ?thesis
      using tree_size_plain [OF a tb(1), of K] tb(3) assms(6) e st merkle_hash.length_concat_drop_rows [OF mh lX, of e ?h]
      by (simp add: e_def)
  qed
  show "\<exists>mem'. select_builder tb u pool_size schedule sz (?a ^ K * w) p cols mem =
      Some (Inr (root ?h ?a K X, mem')) \<and> mem' ROut = overlay 0 (file_rows poseidon cols d K X) (mem ROut)"
  proof (cases "GetSectorSizeLg sz > 15")
    case True
    have k6: "6 \<le> K" "e + 1 < K" using K True e by auto
    have pw: "?a ^ (K - 3) \<le> ?a ^ (K - e - 1)" using a e(1) by (intro power_increasing) auto
    have "?a ^ 6 \<le> ?a ^ K" using a k6 by (intro power_increasing) auto
    moreover have "?a ^ K \<le> ?a ^ K * w" using w by simp
    moreover have "(128 :: nat) < ?a ^ 6" by (simp add: GetNumTreeRCArity_def GetNumTreeRCLgArity_def)
    ultimately have "128 < ?a ^ K * w" by linarith
    then have big: "(if cols then 128 else 64) < ?a ^ K * w" by auto
    have "\<exists>mem'. BuildTree_mt tb u pool_size schedule (?a ^ K * w) (ROut, 0) (RIn, p) cols False mem =
        Some (Inr (root ?h ?a K X, mem')) \<and>
      mem' ROut = overlay 0 (file_rows poseidon cols d K X) (mem ROut) \<and> mem' RIn = mem RIn"
      using True assms(7) pw
      by (intro BuildTree_mt_spec [where mem = mem and s = p and p = 0 and X = X, OF a tb(1,2) _ e(1) _ w k6(2) _ assms(8) big assms(9) refl _ st])
        (use assms(6,10,11) tb in \<open>auto simp: e_def file_leaves_def\<close>)
    then show ?thesis using True unfolding select_builder_def by auto
  next
    case False
    have "\<exists>mem'. BuildTree tb u (?a ^ K * w) (ROut, 0) (RIn, p) cols False mem =
        Some (Inr (root ?h ?a K X, mem')) \<and>
      mem' ROut = overlay 0 (file_rows poseidon cols d K X) (mem ROut)"
    proof (cases cols)
      case True
      then show ?thesis
        using BuildTree_cols_spec [OF a tb(1,2) tb(4) [symmetric] assms(5) e(3), of p mem X 0 u False]
          assms(6,9,10,11) st tb(5) by (auto simp: file_leaves_def)
    next
      case False
      then show ?thesis
        using BuildTree_spec [of tb d False K p mem X "file_rows poseidon cols d K X" 0 u] a tb assms(6,9,10,11) st e
        by (auto simp: file_leaves_def e_def)
    qed
    then show ?thesis using False unfolding select_builder_def by auto
  qed
qed

lemma build_file_spec:
  assumes "os_open_w os f" "os_mmap os f"
    "\<And>mem. mem RIn = leaves \<Longrightarrow> length (mem ROut) = elmts \<Longrightarrow>
      \<exists>mem'. builder p mem = Some (Inr (x, mem')) \<and> mem' ROut = overlay 0 rws (mem ROut)"
    "length rws = elmts"
  shows "build_file os zero builder elmts f leaves p fs = Some (Inr (x, fs(f := Some rws)))"
proof -
  let ?mem = "\<lambda>r. case r of RIn \<Rightarrow> leaves | ROut \<Rightarrow> replicate elmts zero | RDisc \<Rightarrow> []"
  obtain mem' where "builder p ?mem = Some (Inr (x, mem'))" "mem' ROut = rws"
    using assms(3) [of ?mem] assms(4) by auto
  moreover have "mmap_write os zero NODE_SIZE f (elmts * NODE_SIZE) True mmap_new fs =
      (0, mmap_new\<lparr>mm_fname := f, mm_size := elmts * NODE_SIZE, mm_fd := True, mm_data := MData, mm_is_write := True\<rparr>,
       fs(f := Some (replicate elmts zero)))"
    using assms(1,2) by (intro mmap_write_fresh) (simp_all add: NODE_SIZE_def)
  ultimately show ?thesis by (simp add: build_file_def mmap_buf_def NODE_SIZE_def)
qed

definition put_file :: "(nat \<Rightarrow> string) \<Rightarrow> (nat \<Rightarrow> 'n list) \<Rightarrow> nat \<Rightarrow> 'n fs \<Rightarrow> 'n fs" where
  "put_file name rws i fs = fs(name i := Some (rws i))"

lemma put_file_simps [simp]:
  "put_file name rws i fs (name i) = Some (rws i)"
  "f \<noteq> name i \<Longrightarrow> put_file name rws i fs f = fs f"
  by (simp_all add: put_file_def)

lemma build_files_spec:
  assumes "\<And>i. i \<in> set js \<Longrightarrow> os_open_w os (snprintf256 (fname i)) \<and> os_mmap os (snprintf256 (fname i))"
    "\<And>i mem. i \<in> set js \<Longrightarrow> mem RIn = leaves \<Longrightarrow> length (mem ROut) = elmts \<Longrightarrow>
      \<exists>mem'. builder (i * n) mem = Some (Inr (x i, mem')) \<and> mem' ROut = overlay 0 (rws i) (mem ROut)"
    "\<And>i. i \<in> set js \<Longrightarrow> length (rws i) = elmts"
  shows "build_files os zero builder elmts fname leaves n js fs =
    Some (Inr (map x js, fold (put_file (\<lambda>i. snprintf256 (fname i)) rws) js fs))"
  using assms
proof (induction js arbitrary: fs)
  case (Cons i js)
  have "build_file os zero builder elmts (snprintf256 (fname i)) leaves (i * n) fs =
      Some (Inr (x i, put_file (\<lambda>i. snprintf256 (fname i)) rws i fs))"
    unfolding put_file_def using Cons.prems by (intro build_file_spec) auto
  with Cons show ?case by simp
qed simp

lemma fold_upd_notin: "f \<notin> name ` set js \<Longrightarrow> fold (put_file name rws) js fs f = fs f"
  by (induction js arbitrary: fs) auto

lemma fold_upd_in:
  "distinct (map name js) \<Longrightarrow> i \<in> set js \<Longrightarrow> fold (put_file name rws) js fs (name i) = Some (rws i)"
proof (induction js arbitrary: fs)
  case (Cons j js)
  then show ?case by (cases "i \<in> set js") (auto simp: fold_upd_notin image_iff)
qed simp

lemma show_nat_1: "show_nat 1 = ''1''"
  by code_simp

lemma show_nat_small: "distinct (map show_nat [0..<16])" "\<forall>i \<in> set [0..<16]. length (show_nat i) \<le> 2"
  by code_simp+

lemma tree_names_distinct:
  assumes "length path \<le> 200" "length stem \<le> 40" "num_files \<le> 16"
  shows "distinct (map (\<lambda>i. snprintf256 (tree_name path stem num_files i)) [0..<num_files])"
proof (cases "num_files = 1")
  case False
  have "inj_on (\<lambda>i. snprintf256 (tree_name path stem num_files i)) {0..<num_files}"
  proof (rule inj_onI)
    fix i j
    assume ij: "i \<in> {0..<num_files}" "j \<in> {0..<num_files}"
      and eq: "snprintf256 (tree_name path stem num_files i) = snprintf256 (tree_name path stem num_files j)"
    have "snprintf256 (tree_name path stem num_files l) = path @ stem @ ''-'' @ show_nat l @ ''.dat''"
      if "l < 16" for l
    proof -
      have "length (show_nat l) \<le> 2" using show_nat_small(2) that by simp
      then show ?thesis using assms(1,2) False by (simp add: snprintf256_def tree_name_def)
    qed
    with eq ij assms(3) have "show_nat i = show_nat j" by simp
    moreover have "inj_on show_nat {0..<16}" using show_nat_small(1) by (simp add: distinct_map del: upt_rec_numeral)
    ultimately show "i = j" using ij assms(3) by (auto dest: inj_onD)
  qed
  then show ?thesis by (simp add: distinct_map)
qed simp


section \<open>The trees of a sector\<close>

lemma file_leaves_block:
  assumes "length leaves = M * (n * w)" "c < M" "0 < ca" "w = (if cols then ca else 1)"
  shows "file_leaves poseidon cols ca (take (n * w) (drop (c * (n * w)) leaves)) =
    block n (file_leaves poseidon cols ca leaves) c"
proof (cases cols)
  case True
  with level_block [of leaves M n ca c "poseidon ca"] assms show ?thesis
    by (simp add: file_leaves_def block_def)
qed (use assms(4) in \<open>simp add: file_leaves_def block_def\<close>)

lemma build_sector_tree_spec:
  fixes s :: SectorSizeLg and poseidon :: "nat \<Rightarrow> 'n list \<Rightarrow> 'n"
  defines "sz \<equiv> 2 ^ sector_lg s" and "a \<equiv> GetNumTreeRCArity"
  assumes "GetNumLeaves sz div GetNumTreeRCFiles sz = a ^ K" "d = GetNumTreeRDiscardRows sz"
    and "tb = TreeBuilder_new poseidon ca a d" "0 < ca" "w = (if cols then ca else 1)"
    and "15 < GetSectorSizeLg sz \<Longrightarrow> pool_size * 4 \<le> a ^ (K - 3)"
    and "\<forall>n. set (schedule n) = {0..<n}"
    and "output_path \<noteq> []" "length output_path \<le> 200" "length stem \<le> 40"
    and "\<forall>f. os_open_w os f \<and> os_mmap os f"
    and "length leaves = GetNumLeaves sz * w" "X = file_leaves poseidon cols ca leaves"
  shows "\<exists>fs'. build_sector_tree poseidon os zero u pool_size schedule sz tb cols stem (GetNumLeaves sz * w) leaves output_path fs =
      Some (Inr (combine_roots poseidon (GetNumTreeRCFiles sz)
        (map (\<lambda>i. root (poseidon a) a K (block (a ^ K) X i)) [0..<GetNumTreeRCFiles sz]), fs')) \<and>
    (\<forall>i < GetNumTreeRCFiles sz. fs' (snprintf256 (tree_name output_path stem (GetNumTreeRCFiles sz) i)) =
      Some (file_rows poseidon cols d K (block (a ^ K) X i)))"
proof -
  let ?n = "GetNumTreeRCFiles sz"
  let ?name = "\<lambda>i. snprintf256 (tree_name output_path stem ?n i)"
  let ?rws = "\<lambda>i. file_rows poseidon cols d K (block (a ^ K) X i)"
  let ?x = "\<lambda>i. root (poseidon a) a K (block (a ^ K) X i)"
  have n: "0 < ?n" "?n \<le> 16" unfolding sz_def by (rule GetNumTreeRCFiles_le)+
  have gl: "GetNumLeaves sz = ?n * a ^ K"
    using sector_tree_shape [of s] assms(3) unfolding sz_def a_def by auto
  have sub: "GetNumLeaves sz * w div ?n = a ^ K * w" using gl n(1) by simp
  have ll: "length leaves = ?n * (a ^ K * w)" using assms(14) gl by simp
  have blk: "file_leaves poseidon cols ca (take (a ^ K * w) (drop (i * (a ^ K * w)) leaves)) = block (a ^ K) X i" if "i < ?n" for i
    using file_leaves_block [OF ll that assms(6,7)] assms(15) by simp
  have fit: "i * (a ^ K * w) + a ^ K * w \<le> length leaves" if "i < ?n" for i
    using ll that mult_le_mono1 [of "Suc i" ?n "a ^ K * w"] by simp
  note sb = select_builder_spec [OF assms(3-7) [unfolded sz_def a_def] assms(8) [unfolded sz_def a_def] assms(9), folded sz_def a_def]
  have size_i: "tree_size tb (a ^ K * w) cols False = Some (Inr (length (?rws i)))" if "i < ?n" for i
    using sb(2) [of "i * (a ^ K * w)" "\<lambda>r. if r = RIn then leaves else ?rws i" "block (a ^ K) X i"] fit [OF that] blk [OF that]
    by simp
  obtain elmts where ts: "tree_size tb (a ^ K * w) cols False = Some (Inr elmts)"
    and el: "\<And>i. i < ?n \<Longrightarrow> length (?rws i) = elmts"
    using size_i n(1) by (metis old.sum.inject(2) option.inject)
  have "build_files os zero (\<lambda>p. select_builder tb u pool_size schedule sz (a ^ K * w) p cols) elmts
      (tree_name output_path stem ?n) leaves (a ^ K * w) [0..<?n] fs =
    Some (Inr (map ?x [0..<?n], fold (put_file ?name ?rws) [0..<?n] fs))"
  proof (rule build_files_spec)
    fix i and mem :: "'n store"
    assume i: "i \<in> set [0..<?n]" and mem: "mem RIn = leaves" "length (mem ROut) = elmts"
    then show "\<exists>mem'. select_builder tb u pool_size schedule sz (a ^ K * w) (i * (a ^ K * w)) cols mem =
        Some (Inr (?x i, mem')) \<and> mem' ROut = overlay 0 (?rws i) (mem ROut)"
      using sb(1) [of "i * (a ^ K * w)" mem "block (a ^ K) X i" u] fit [of i] blk [of i] el [of i] by simp
  qed (use assms(13) el in simp_all)
  moreover have "fold (put_file ?name ?rws) [0..<?n] fs (?name i) = Some (?rws i)" if "i < ?n" for i
    using fold_upd_in [OF tree_names_distinct [OF assms(11,12) n(2)], of i ?rws fs] that by simp
  ultimately show ?thesis
    using ts assms(10) by (simp add: build_sector_tree_def Let_def sub)
qed

lemma combine_roots_rc:
  fixes s :: SectorSizeLg
  defines "sz \<equiv> 2 ^ sector_lg s" and "a \<equiv> GetNumTreeRCArity"
  assumes "GetNumTreeRCLevels sz = Inr k" "GetNumLeaves sz div GetNumTreeRCFiles sz = a ^ K" "length X = GetNumLeaves sz"
  shows "combine_roots poseidon (GetNumTreeRCFiles sz)
    (map (\<lambda>i. root (poseidon a) a K (block (a ^ K) X i)) [0..<GetNumTreeRCFiles sz]) = root (poseidon a) a k X"
proof -
  note sh = tree_rc_shape [OF assms(3) [unfolded sz_def], folded sz_def a_def]
  have a8: "a = 8" by (simp add: a_def GetNumTreeRCArity_def GetNumTreeRCLgArity_def)
  show ?thesis
  proof (cases "GetNumTreeRCFiles sz = 1")
    case True
    then have "a ^ K = a ^ k" using assms(4) sh(1) by simp
    then have "K = k" "length X = a ^ K" using a8 assms(5) sh(1) by (simp_all add: power_inject_exp)
    with True show ?thesis by (simp add: combine_roots_def block_def)
  next
    case False
    then have n: "GetNumTreeRCFiles sz = a" using sh(4) by simp
    have "a ^ k div a = a ^ (k - 1)" using sh(3) a8 by (cases k) simp_all
    then have "a ^ K = a ^ (k - 1)" using assms(4) sh(1) n by simp
    then have k: "k = Suc K" using a8 sh(3) by (simp add: power_inject_exp)
    have lX: "length X = a * a ^ K" using assms(5) sh(1) k by simp
    have "combine_roots poseidon a (map (\<lambda>i. root (poseidon a) a K (block (a ^ K) X i)) [0..<a]) =
        poseidon a (map (root (poseidon a) a K) (blocks (a ^ K) X))"
      using lX a8 by (simp add: combine_roots_def blocks_def comp_def)
    also have "\<dots> = poseidon a (levels (poseidon a) a K X)"
      using tree_rc.levels_blocks [of X a K "poseidon a", folded a_def] lX by simp
    also have "\<dots> = root (poseidon a) a (Suc K) X"
      using tree_rc.root_Suc_block [of X K "poseidon a", folded a_def] lX by simp
    finally show ?thesis using n k by simp
  qed
qed


section \<open>Reading the layers and encoding the data\<close>

lemma fold_result_concat: "fold_result (\<lambda>c. fold_result g (blk c)) cs s = fold_result g (concat (map blk cs)) s"
proof (induction cs arbitrary: s)
  case (Cons c cs)
  then show ?case by (cases "fold_result g (blk c) s") (simp_all add: fold_result_append)
qed simp

lemma fold_result_map: "fold_result f (map g xs) = fold_result (\<lambda>x. f (g x)) xs"
proof
  show "fold_result f (map g xs) s = fold_result (\<lambda>x. f (g x)) xs s" for s
  proof (induction xs arbitrary: s)
    case (Cons x xs)
    then show ?case by (cases "f (g x) s") simp_all
  qed simp
qed

lemma fold_vec_set_some:
  assumes "\<And>i. i \<in> set js \<Longrightarrow> pos i < length T \<and> (\<forall>xs. length xs = length T \<longrightarrow> f i xs = vec_set xs (pos i) (T ! pos i))"
    "length xs = length T"
  shows "\<exists>r. fold_result f js xs = Inr r \<and> length r = length T \<and>
    (\<forall>q < length T. r ! q = (if q \<in> pos ` set js then T ! q else xs ! q))"
  using assms
proof (induction js arbitrary: xs)
  case (Cons i js)
  let ?xs = "xs[pos i := T ! pos i]"
  have i: "f i xs = Inr ?xs" using Cons.prems by simp
  have "\<exists>r. fold_result f js ?xs = Inr r \<and> length r = length T \<and>
      (\<forall>q < length T. r ! q = (if q \<in> pos ` set js then T ! q else ?xs ! q))"
    using Cons.prems by (intro Cons.IH) simp_all
  with i Cons.prems(2) show ?case by (auto simp: nth_list_update)
qed simp

lemma fold_vec_set_all:
  assumes "\<And>i. i \<in> set js \<Longrightarrow> pos i < length T \<and> (\<forall>xs. length xs = length T \<longrightarrow> f i xs = vec_set xs (pos i) (T ! pos i))"
    "length xs = length T" "pos ` set js = {0..<length T}"
  shows "fold_result f js xs = Inr T"
proof -
  obtain r where r: "fold_result f js xs = Inr r" "length r = length T"
    "\<forall>q < length T. r ! q = (if q \<in> pos ` set js then T ! q else xs ! q)"
    using fold_vec_set_some [of js pos T f xs] assms(1,2) by blast
  then have "r = T" using assms(3) by (intro nth_equalityI) auto
  with r(1) show ?thesis by simp
qed

lemma encode_chunks:
  assumes "\<And>i. i < n \<Longrightarrow> mmap_get NODE_SIZE data_file fs i = Inr (xs ! i)"
    "\<And>i. i < n \<Longrightarrow> mmap_get NODE_SIZE last_layer fs i = Inr (ys ! i)"
    "length xs = n" "length ys = n" "length e = n" "set cs = {0..<num_chunks}" "n \<le> num_chunks * chunk_size"
  shows "fold_result (encode_chunk add data_file last_layer fs chunk_size n) cs e = Inr (map2 add xs ys)"
proof -
  let ?blk = "\<lambda>c. [c * chunk_size..<min (c * chunk_size + chunk_size) n]"
  let ?T = "map2 add xs ys"
  have "\<exists>c \<in> set cs. i \<in> set (?blk c)" if "i < n" for i
  proof (intro bexI)
    have "i < chunk_size * num_chunks" using that assms(7) by (simp add: mult.commute)
    moreover then have "0 < chunk_size" by (cases chunk_size) simp_all
    ultimately show "i div chunk_size \<in> set cs"
      using assms(6) by (simp add: less_mult_imp_div_less mult.commute)
    show "i \<in> set (?blk (i div chunk_size))"
      using that \<open>0 < chunk_size\<close> dividend_less_div_times [of chunk_size i] by (simp add: add.commute)
  qed
  then have cover: "(\<lambda>i. i) ` set (concat (map ?blk cs)) = {0..<length ?T}"
    using assms(3,4) by (auto simp: min_def split: if_splits)
  show ?thesis
    unfolding encode_chunk_def Let_def fold_result_concat
    by (rule fold_vec_set_all [where pos = "\<lambda>i. i"]) (use assms cover in auto)
qed

lemma mmap_get_whole:
  assumes "i < length x" "fs f = Some x" "m = mmap_new\<lparr>mm_fname := f, mm_size := length x * NODE_SIZE, mm_fd := True,
      mm_data := MData, mm_is_write := wr\<rparr>"
  shows "mmap_get NODE_SIZE m fs i = Inr (x ! i)"
  using assms by (simp add: mmap_get_def mmap_buf_def file_at_def NODE_SIZE_def)

definition layer_name :: "string \<Rightarrow> nat \<Rightarrow> string" where
  "layer_name layers_cache layer_idx = layers_cache @ ''/sc-02-data-layer-'' @ show_nat (layer_idx + 1) @ ''.dat''"

lemma pair_index:
  assumes "i < n" "l < (m :: nat)"
  shows "i * m + l < n * m" "(i * m + l) div m = i" "(i * m + l) mod m = l"
proof -
  have "Suc i * m \<le> n * m" using assms(1) by (intro mult_le_mono1) simp
  then show "i * m + l < n * m" using assms(2) by simp
qed (use assms in simp_all)

lemma merge_layers_spec:
  assumes "\<And>l. l < m \<Longrightarrow> fs (layer_name cache l) = Some (L l) \<and> length (L l) = n"
    "\<forall>f. os_open_r os f \<and> os_mmap os f" "0 < m" "n * NODE_SIZE < SIZE_MAX"
  shows "merge_layers os zero fs cache m = Inr (map (\<lambda>q. L (q mod m) ! (q div m)) [0..<n * m])"
proof -
  let ?T = "map (\<lambda>q. L (q mod m) ! (q div m)) [0..<n * m]"
  let ?mm = "\<lambda>l. mmap_new\<lparr>mm_fname := layer_name cache l, mm_size := n * NODE_SIZE, mm_fd := True,
      mm_data := MData, mm_is_write := False\<rparr>"
  have rd: "mmap_read os zero NODE_SIZE (layer_name cache l) SIZE_MAX mmap_new fs = (0, ?mm l, fs)" if "l < m" for l
    using mmap_read_whole [of os "layer_name cache l" fs "L l" zero NODE_SIZE mmap_new] assms(1) [OF that] assms(2) by simp
  have one: "cache @ ''/sc-02-data-layer-1.dat'' = layer_name cache 0"
    using show_nat_1 by (simp add: layer_name_def)
  have cn: "m * (n * NODE_SIZE) div NODE_SIZE = n * m" by (simp add: NODE_SIZE_def)
  let ?f = "\<lambda>l i merged. bind_result (mmap_get NODE_SIZE (?mm l) fs i) (\<lambda>x. vec_set merged (i * m + l) x)"
  have "fold_result (merge_layer os zero fs cache m n) [0..<m] xs =
      fold_result (\<lambda>l. fold_result (?f l) [0..<n]) [0..<m] xs" for xs
    using rd by (intro fold_result_cong) (simp_all add: merge_layer_def layer_name_def)
  also have "\<dots> xs = fold_result (\<lambda>(l, i). ?f l i) (concat (map (\<lambda>l. map (Pair l) [0..<n]) [0..<m])) xs" for xs
    using fold_result_concat [of "\<lambda>(l, i). ?f l i" "\<lambda>l. map (Pair l) [0..<n]"] by (simp add: fold_result_map)
  also have "\<dots> (replicate (n * m) zero) = Inr ?T"
  proof (rule fold_vec_set_all [where pos = "\<lambda>(l, i). i * m + l"])
    fix p
    assume "p \<in> set (concat (map (\<lambda>l. map (Pair l) [0..<n]) [0..<m]))"
    then obtain l i where p: "p = (l, i)" "l < m" "i < n" by auto
    have "mmap_get NODE_SIZE (?mm l) fs i = Inr (L l ! i)"
      using mmap_get_whole [of i "L l" fs "layer_name cache l"] assms(1) [OF p(2)] p(3) by simp
    then show "(case p of (l, i) \<Rightarrow> i * m + l) < length ?T \<and>
        (\<forall>xs. length xs = length ?T \<longrightarrow> (case p of (l, i) \<Rightarrow> ?f l i) xs =
          vec_set xs (case p of (l, i) \<Rightarrow> i * m + l) (?T ! (case p of (l, i) \<Rightarrow> i * m + l)))"
      using pair_index [OF p(3,2)] p(1) by simp
  next
    have "q \<in> (\<lambda>(l, i). i * m + l) ` ({0..<m} \<times> {0..<n})" if "q < n * m" for q
      using that assms(3) by (intro image_eqI [of _ _ "(q mod m, q div m)"]) (simp_all add: less_mult_imp_div_less mult.commute)
    then show "(\<lambda>(l, i). i * m + l) ` set (concat (map (\<lambda>l. map (Pair l) [0..<n]) [0..<m])) = {0..<length ?T}"
      using pair_index(1) by fastforce
  qed simp
  finally have "fold_result (merge_layer os zero fs cache m n) [0..<m] (replicate (n * m) zero) = Inr ?T" .
  then show ?thesis
    using rd [OF assms(3)] assms(3,4) cn by (simp add: merge_layers_def one)
qed


section \<open>From the layers to the proofs\<close>

lemma SetTreeBufs_all:
  assumes "\<And>l. l < n \<Longrightarrow> node_files fs (snprintf256 (fname l)) = Some (f l)" "length bufs = n" "i \<le> n"
  shows "SetTreeBufs fs fname [i..<n] bufs = Inr (take i bufs @ map (\<lambda>l. Some (f l)) [i..<n])"
  using assms
proof (induction "n - i" arbitrary: i bufs)
  case (Suc k)
  then have i: "i < n" by simp
  have "SetTreeBufs fs fname [Suc i..<n] (bufs[i := Some (f i)]) =
      Inr (take (Suc i) (bufs[i := Some (f i)]) @ map (\<lambda>l. Some (f l)) [Suc i..<n])"
    using Suc i by (intro Suc.hyps(1)) simp_all
  then show ?case using i Suc.prems by (simp add: upt_conv_Cons take_Suc_conv_app_nth)
qed simp

lemma level_columns:
  assumes "0 < m" "ls = map (\<lambda>q. L (q mod m) ! (q div m)) [0..<n * m]"
  shows "level h m ls = map (\<lambda>i. h (map (\<lambda>l. L l ! i) [0..<m])) [0..<n]"
proof (rule nth_equalityI)
  fix i
  assume "i < length (level h m ls)"
  then have i: "i < n" using assms by simp
  have "block m ls i = map (\<lambda>l. L l ! i) [0..<m]"
  proof (rule nth_equalityI)
    have b: "Suc i * m \<le> length ls" using i assms(2) mult_le_mono1 [of "Suc i" n m] by simp
    then show "length (block m ls i) = length (map (\<lambda>l. L l ! i) [0..<m])" by (simp add: length_block)
    fix l
    assume "l < length (block m ls i)"
    then have l: "l < m" using b by (simp add: length_block)
    then show "block m ls i ! l = map (\<lambda>l. L l ! i) [0..<m] ! l"
      using nth_block [OF l b] pair_index [OF i l] assms(2) by simp
  qed
  then show "level h m ls ! i = map (\<lambda>i. h (map (\<lambda>l. L l ! i) [0..<m])) [0..<n] ! i"
    using i assms by (simp add: nth_level)
qed (use assms in simp)

lemma RC_sizes:
  fixes s :: SectorSizeLg
  defines "sz \<equiv> 2 ^ sector_lg s"
  shows "sz * m div NODE_SIZE = GetNumLeaves sz * m" "sz div NODE_SIZE = GetNumLeaves sz"
    "GetNumLeaves sz * NODE_SIZE = sz" "sz < SIZE_MAX"
proof -
  obtain j where j: "sector_lg s = j + 5"
    using sector_lg_bounds(1) [of s] that [of "sector_lg s - 5"] by simp
  have g: "GetNumLeaves sz = 2 ^ j" unfolding sz_def GetNumLeaves_sector using j by simp
  show "sz * m div NODE_SIZE = GetNumLeaves sz * m" "sz div NODE_SIZE = GetNumLeaves sz" "GetNumLeaves sz * NODE_SIZE = sz"
    unfolding g unfolding sz_def j by (simp_all add: power_add constant_defs)
  have "sz \<le> 2 ^ 36" unfolding sz_def using sector_lg_bounds(2) [of s] by (intro power_increasing) simp_all
  then show "sz < SIZE_MAX" by (simp add: SIZE_MAX_def SIZE_MOD_def)
qed

text \<open>
  C14: tree-C from the layer files to the C1 proof: with the layers of a
  sector on disk (any sector size that C1 supports, any number of
  threads up to a bound that grows with the sector, any order of completion), \<open>BuildTreeC\<close> returns the
  root over the column hashes and writes tree files in which the C1 prover
  finds, for every node, an inclusion path from the hash of the node's column
  to the returned root.
\<close>
theorem tree_c_pipeline:
  fixes s :: SectorSizeLg and poseidon :: "nat \<Rightarrow> node_t list \<Rightarrow> node_t"
  defines "sz \<equiv> 2 ^ sector_lg s"
  assumes "GetNumTreeRCLevels sz = Inr k" "GetNumLeaves sz div GetNumTreeRCFiles sz = GetNumTreeRCArity ^ K"
    and "15 < GetSectorSizeLg sz \<Longrightarrow> pool_size * 4 \<le> GetNumTreeRCArity ^ (K - 3)"
    and "\<forall>n. set (schedule n) = {0..<n}" "\<forall>f. os_open_r os f \<and> os_open_w os f \<and> os_mmap os f"
    and "cache \<noteq> []" "length cache \<le> 200" "c < GetNumLeaves sz"
    and "\<And>l. l < GetNumLayers sz \<Longrightarrow> fs (layer_name layers l) = Some (L l) \<and> length (L l) = GetNumLeaves sz"
  shows "\<exists>rt fs' c1' tp. BuildTreeC poseidon os zero u pool_size schedule sz layers cache fs = Some (Inr (rt, fs')) \<and>
    SetTreeCBufs \<lparr>node_files = fs', parent_files = pf\<rparr> sz cache c1 = Inr c1' \<and>
    GenInclusionPath (poseidon GetNumTreeRCArity) c nullptr
      (SetRoot rt (TreeProof_new GetNumTreeRCArity k (map mapped (tree_c_bufs c1')) 0)) = Inr tp \<and>
    tp_leaf tp = Some (poseidon (GetNumLayers sz) (map (\<lambda>l. L l ! c) [0..<GetNumLayers sz])) \<and>
    path_root (poseidon GetNumTreeRCArity) (tp_path tp)
      (poseidon (GetNumLayers sz) (map (\<lambda>l. L l ! c) [0..<GetNumLayers sz])) = rt"
proof -
  let ?a = GetNumTreeRCArity and ?m = "GetNumLayers sz" and ?n = "GetNumTreeRCFiles sz"
  let ?name = "\<lambda>i. snprintf256 (tree_name cache ''/sc-02-data-tree-c'' ?n i)"
  have m: "0 < ?m" using GetNumLayers_pos [of s] by (simp add: sz_def)
  note gs = RC_sizes [of s, folded sz_def]
  define ls where "ls = map (\<lambda>q. L (q mod ?m) ! (q div ?m)) [0..<GetNumLeaves sz * ?m]"
  have ml: "merge_layers os zero fs layers ?m = Inr ls"
    using merge_layers_spec [of ?m fs layers L "GetNumLeaves sz" os zero] assms(6,10) m gs(3,4) by (simp add: ls_def)
  define X where "X = map (\<lambda>i. poseidon ?m (map (\<lambda>l. L l ! i) [0..<?m])) [0..<GetNumLeaves sz]"
  have X: "X = file_leaves poseidon True ?m ls"
    using level_columns [OF m ls_def, of "poseidon ?m"] by (simp add: X_def file_leaves_def)
  have lX: "length X = GetNumLeaves sz" by (simp add: X_def)
  define rt where "rt = root (poseidon ?a) ?a k X"
  have "\<exists>fs'. BuildTreeC_leaves poseidon os zero u pool_size schedule sz ls cache fs =
      Some (Inr (combine_roots poseidon ?n (map (\<lambda>i. root (poseidon ?a) ?a K (block (?a ^ K) X i)) [0..<?n]), fs')) \<and>
    (\<forall>i < ?n. fs' (?name i) = Some (file_rows poseidon True (GetNumTreeRDiscardRows sz) K (block (?a ^ K) X i)))"
    unfolding BuildTreeC_leaves_def gs(1)
    using build_sector_tree_spec [where s = s and K = K and ca = ?m and cols = True and X = X and leaves = ls
        and stem = "''/sc-02-data-tree-c''" and output_path = cache and poseidon = poseidon and fs = fs and zero = zero and u = u
        and pool_size = pool_size and schedule = schedule and os = os, folded sz_def, OF assms(3) refl refl m refl]
      assms(4-8) X by (simp add: ls_def)
  then obtain fs' where fs': "BuildTreeC_leaves poseidon os zero u pool_size schedule sz ls cache fs = Some (Inr (rt, fs'))"
    "\<forall>i < ?n. fs' (?name i) = Some (stored_rows (poseidon ?a) ?a 0 K (block (?a ^ K) X i))"
    using combine_roots_rc [OF assms(2,3) [unfolded sz_def], of X poseidon] lX unfolding rt_def sz_def file_rows_def by auto
  define bufs where "bufs = map (\<lambda>f. stored_rows (poseidon ?a) ?a 0 K (block (?a ^ K) X f)) [0..<?n]"
  have sb: "SetTreeCBufs \<lparr>node_files = fs', parent_files = pf\<rparr> sz cache c1 = Inr (c1\<lparr>tree_c_bufs := map Some bufs\<rparr>)"
    using SetTreeBufs_all [of ?n "\<lparr>node_files = fs', parent_files = pf\<rparr>" "tree_name cache ''/sc-02-data-tree-c'' ?n"
        "\<lambda>f. stored_rows (poseidon ?a) ?a 0 K (block (?a ^ K) X f)" "replicate ?n None" 0] fs'(2)
    by (simp add: SetTreeCBufs_def bufs_def comp_def Let_def)
  obtain tp where tp: "GenInclusionPath (poseidon ?a) c nullptr (SetRoot rt (TreeProof_new ?a k bufs 0)) = Inr tp"
    "tp_path tp = spec_path (poseidon ?a) ?a k X c" "tp_leaf tp = Some (X ! c)"
    using tree_c_path [OF assms(2,3) [unfolded sz_def], of X c bufs "poseidon ?a" rt] lX assms(9)
    unfolding bufs_def sz_def by blast
  have "path_root (poseidon ?a) (tp_path tp) (X ! c) = rt"
    using tree_rc.spec_path_root [of X k c "poseidon ?a"] tp(2) assms(9) lX tree_rc_shape(1) [OF assms(2) [unfolded sz_def]]
    by (simp add: rt_def sz_def spec_path_def)
  moreover have "X ! c = poseidon ?m (map (\<lambda>l. L l ! c) [0..<?m])" using assms(9) by (simp add: X_def)
  moreover have "map mapped (map Some bufs) = bufs" by (simp add: mapped_def comp_def)
  ultimately show ?thesis
    using ml fs'(1) sb tp by (simp add: BuildTreeC_def del: map_map)
qed

theorem tree_c_pipeline_witness:
  "let sz = 2 ^ sector_lg Sector2KB; node = replicate NODE_WORDS 1 in
   \<exists>rt fs' c1' tp. BuildTreeC (\<lambda>_. hd) \<lparr>os_open_r = \<lambda>_. True, os_open_w = \<lambda>_. True, os_mmap = \<lambda>_. True, os_write = \<lambda>_. True\<rparr>
      [] [] 1 (\<lambda>n. [0..<n]) sz ''l'' ''c'' (\<lambda>_. Some (replicate 64 node)) = Some (Inr (rt, fs')) \<and>
    SetTreeCBufs \<lparr>node_files = fs', parent_files = \<lambda>_. None\<rparr> sz ''c'' (C1_new sz) = Inr c1' \<and>
    GenInclusionPath hd 5 nullptr (SetRoot rt (TreeProof_new GetNumTreeRCArity 2 (map mapped (tree_c_bufs c1')) 0)) = Inr tp \<and>
    path_root hd (tp_path tp) node = rt"
proof -
  let ?sz = "2 ^ sector_lg Sector2KB :: nat" and ?os = "\<lparr>os_open_r = \<lambda>_. True, os_open_w = \<lambda>_. True, os_mmap = \<lambda>_. True, os_write = \<lambda>_. True\<rparr>"
  let ?node = "replicate NODE_WORDS 1 :: node_t"
  have "GetNumTreeRCLevels ?sz = Inr 2"
    by (simp add: GetNumTreeRCLevels_def GetNumLeaves_sector sector_defs constant_defs
        log2_floor_pow2 [of 3, simplified] log2_floor_pow2 [of 6, simplified])
  moreover have "GetNumLeaves ?sz = 64" "GetNumTreeRCFiles ?sz = 1" "GetNumTreeRCArity = 8" "GetNumLayers ?sz = 2"
    unfolding GetNumLeaves_sector by (simp_all add: sector_defs constant_defs)
  moreover have "GetSectorSizeLg ?sz = 11" using GetSectorSizeLg_pow2 [of 11] by simp
  moreover have "GetNumTreeRCArity ^ 2 = 64" by (simp add: sector_defs)
  moreover have "hd (map (\<lambda>l. ?node) [0..<2]) = ?node" by (simp add: upt_rec)
  ultimately show ?thesis
    using tree_c_pipeline [where s = Sector2KB and k = 2 and K = 2 and poseidon = "\<lambda>_. hd" and pool_size = 1
        and schedule = "\<lambda>n. [0..<n]" and os = ?os and cache = "''c''" and c = 5 and layers = "''l''"
        and fs = "\<lambda>_. Some (replicate 64 ?node)" and L = "\<lambda>_. replicate 64 ?node" and zero = "[]" and u = "[]"
        and pf = "\<lambda>_. None" and ?c1.0 = "C1_new ?sz"]
    by (simp add: Let_def del: replicate.simps sector_lg.simps upt_rec_numeral) blast
qed



end
