(* ===== verification/PC2_Batcher.thy ===== *)
theory PC2_Batcher
  imports Fifo "HOL-Library.Multiset"
begin

text \<open>
  The buffers that carry the results of PC2 from the GPU to the disk
  writers: \<open>pc2_batcher_t\<close> of \<open>src/pc2/cuda/pc2.cu\<close> over the three
  queues of batches of \<open>pc2_t\<close>.

  A pointer to a batch or to a buffer is its index in \<open>host_batches\<close> or
  \<open>host_bufs\<close>; only the \<open>size\<close> field of a buffer matters here.  The three
  queues are the \<open>mtx_fifo_t\<close> of the theory \<open>Fifo\<close>.  Every operation of
  the batcher holds its mutex, so the threads interleave whole operations: the GPU
  loop takes a buffer (after the check \<open>size() >= 1\<close>), the callback thread returns one, and a
  disk writer takes a batch and puts it back.  These are the steps of the
  relation \<open>bstep\<close>; its state also records the buffers in the hands of the GPU
  and the batches in the hands of the writers.
\<close>

definition disk_io_batch_size :: nat where
  "disk_io_batch_size = 64"

definition num_host_bufs :: nat where
  "num_host_bufs = 2 ^ 13"

definition num_host_batches :: nat where
  "num_host_batches = num_host_bufs div disk_io_batch_size"

definition num_host_empty_batches :: nat where
  "num_host_empty_batches = 8"

record batcher =
  host_batches :: "nat ptr list list"
  host_sizes :: "nat list"
  to_disk :: "nat mtx_fifo_t"
  pool_full :: "nat mtx_fifo_t"
  pool_empty :: "nat mtx_fifo_t"
  unbundle_p :: "nat ptr"
  bundle_p :: "nat ptr"
  idx_unbundle :: nat
  idx_bundle :: nat

text \<open>The constructor of \<open>pc2_t\<close> fills the pools.\<close>

definition host_pools :: "batcher result" where
  "host_pools =
     (let n = num_host_batches; e = num_host_empty_batches;
          q = \<lparr>pool = fifo_new, mtx_locked = False\<rparr> in
      bind_result (mtx_create (n + e) q) (\<lambda>(_, full0).
      bind_result (mtx_create (n + e) q) (\<lambda>(_, empty0).
      bind_result (mtx_create (n + e) q) (\<lambda>(_, disk0).
      bind_result (fold_result (\<lambda>i. mtx_enqueue (Some i)) [0..<n] full0) (\<lambda>full1.
      bind_result (fold_result (\<lambda>i. mtx_enqueue (Some (i + n))) [0..<e] empty0) (\<lambda>empty1.
      Inr \<lparr>host_batches = map (\<lambda>i. map (\<lambda>j. Some (i * disk_io_batch_size + j)) [0..<disk_io_batch_size]) [0..<n] @
             replicate e (replicate disk_io_batch_size nullptr),
           host_sizes = replicate (n * disk_io_batch_size) 0,
           to_disk = disk0, pool_full = full1, pool_empty = empty1,
           unbundle_p = nullptr, bundle_p = nullptr, idx_unbundle = 0, idx_bundle = 0\<rparr>))))))"

definition batcher_new :: "batcher \<Rightarrow> batcher result" where
  "batcher_new s =
     bind_result (mtx_dequeue (pool_full s)) (\<lambda>(u, full).
     bind_result (mtx_dequeue (pool_empty s)) (\<lambda>(b, em).
     bind_result (assert_that (u \<noteq> nullptr)) (\<lambda>_.
     bind_result (assert_that (b \<noteq> nullptr)) (\<lambda>_.
     Inr (s\<lparr>pool_full := full, pool_empty := em, unbundle_p := u, bundle_p := b,
            idx_unbundle := 0, idx_bundle := 0\<rparr>)))))"

definition batch_get :: "batcher \<Rightarrow> nat ptr \<Rightarrow> nat \<Rightarrow> nat ptr result" where
  "batch_get s p i =
     (case p of None \<Rightarrow> Inl NullDeref
      | Some b \<Rightarrow> bind_result (vec_get (host_batches s) b) (\<lambda>entries. vec_get entries i))"

definition batch_set :: "nat ptr \<Rightarrow> nat \<Rightarrow> nat ptr \<Rightarrow> batcher \<Rightarrow> batcher result" where
  "batch_set p i x s =
     (case p of None \<Rightarrow> Inl NullDeref
      | Some b \<Rightarrow>
          bind_result (vec_get (host_batches s) b) (\<lambda>entries.
          bind_result (vec_set entries i x) (\<lambda>entries'.
          bind_result (vec_set (host_batches s) b entries') (\<lambda>bs. Inr (s\<lparr>host_batches := bs\<rparr>)))))"

definition set_size :: "nat ptr \<Rightarrow> nat \<Rightarrow> batcher \<Rightarrow> batcher result" where
  "set_size p n s =
     (case p of None \<Rightarrow> Inl NullDeref
      | Some b \<Rightarrow> bind_result (vec_set (host_sizes s) b n) (\<lambda>sz. Inr (s\<lparr>host_sizes := sz\<rparr>)))"

definition batcher_dequeue :: "batcher \<Rightarrow> (nat ptr \<times> batcher) result" where
  "batcher_dequeue s =
     bind_result (if unbundle_p s = nullptr
                  then bind_result (mtx_dequeue (pool_full s)) (\<lambda>(u, full). Inr (s\<lparr>unbundle_p := u, pool_full := full\<rparr>))
                  else Inr s) (\<lambda>s1.
     if unbundle_p s1 = nullptr then Inr (nullptr, s1)
     else
       bind_result (batch_get s1 (unbundle_p s1) (idx_unbundle s1)) (\<lambda>buf.
       let s2 = s1\<lparr>idx_unbundle := idx_unbundle s1 + 1\<rparr> in
       if idx_unbundle s2 = disk_io_batch_size then
         bind_result (mtx_enqueue (unbundle_p s2) (pool_empty s2)) (\<lambda>em.
         Inr (buf, s2\<lparr>pool_empty := em, unbundle_p := nullptr, idx_unbundle := 0\<rparr>))
       else Inr (buf, s2)))"

definition batcher_enqueue :: "nat ptr \<Rightarrow> batcher \<Rightarrow> batcher result" where
  "batcher_enqueue buf s =
     bind_result (if bundle_p s = nullptr
                  then bind_result (mtx_dequeue (pool_empty s)) (\<lambda>(b, em).
                       bind_result (assert_that (b \<noteq> nullptr)) (\<lambda>_. Inr (s\<lparr>bundle_p := b, pool_empty := em\<rparr>)))
                  else Inr s) (\<lambda>s1.
     bind_result (batch_set (bundle_p s1) (idx_bundle s1) buf s1) (\<lambda>s2.
     let s3 = s2\<lparr>idx_bundle := idx_bundle s2 + 1\<rparr> in
     if idx_bundle s3 = disk_io_batch_size then
       bind_result (mtx_enqueue (bundle_p s3) (to_disk s3)) (\<lambda>d.
       Inr (s3\<lparr>to_disk := d, bundle_p := nullptr, idx_bundle := 0\<rparr>))
     else Inr s3))"

definition batcher_size :: "batcher \<Rightarrow> nat result" where
  "batcher_size s =
     bind_result (mtx_size (pool_full s)) (\<lambda>(f, _).
     bind_result (mtx_size (pool_empty s)) (\<lambda>(e, _).
     Inr (min ((if unbundle_p s = nullptr then 0 else disk_io_batch_size - idx_unbundle s) + f * disk_io_batch_size)
              ((if bundle_p s = nullptr then 0 else disk_io_batch_size - idx_bundle s) + e * disk_io_batch_size))))"

text \<open>The loop of \<open>flush\<close>: the index of the batch that is read advances twice.\<close>

function flush_loop :: "batcher \<Rightarrow> batcher result" where
  "flush_loop s =
     (if idx_bundle s < disk_io_batch_size then
        case bind_result (batch_get s (unbundle_p s) (idx_unbundle s)) (\<lambda>p. set_size p 0 s) of
          Inl e \<Rightarrow> Inl e
        | Inr s1 \<Rightarrow>
            (case bind_result (batch_get s1 (unbundle_p s1) (idx_unbundle s1)) (\<lambda>x. batch_set (bundle_p s1) (idx_bundle s1) x s1) of
               Inl e \<Rightarrow> Inl e
             | Inr s2 \<Rightarrow> flush_loop (s2\<lparr>idx_unbundle := idx_unbundle s + 2, idx_bundle := idx_bundle s + 1\<rparr>))
      else Inr s)"
  by pat_completeness auto

termination
  by (relation "measure (\<lambda>s. disk_io_batch_size - idx_bundle s)") auto

definition batcher_flush :: "batcher \<Rightarrow> batcher result" where
  "batcher_flush s =
     bind_result (assert_that (idx_bundle s = idx_unbundle s)) (\<lambda>_.
     bind_result
       (if idx_bundle s > 0 then
          bind_result (flush_loop s) (\<lambda>s1.
          bind_result (mtx_enqueue (bundle_p s1) (to_disk s1)) (\<lambda>d.
          bind_result (mtx_enqueue (unbundle_p s1) (pool_empty s1)) (\<lambda>em.
          Inr (s1\<lparr>to_disk := d, pool_empty := em\<rparr>))))
        else
          bind_result (if bundle_p s \<noteq> nullptr then mtx_enqueue (bundle_p s) (pool_empty s) else Inr (pool_empty s)) (\<lambda>em.
          bind_result (if unbundle_p s \<noteq> nullptr then mtx_enqueue (bundle_p s) (pool_full s) else Inr (pool_full s)) (\<lambda>full.
          Inr (s\<lparr>pool_empty := em, pool_full := full\<rparr>)))) (\<lambda>s2.
     Inr (s2\<lparr>bundle_p := nullptr, unbundle_p := nullptr, idx_unbundle := 0, idx_bundle := 0\<rparr>)))"

record bstate =
  bt :: batcher
  in_flight :: "nat list"
  in_writer :: "nat list"

inductive bstep :: "bstate \<Rightarrow> bstate \<Rightarrow> bool" where
  gpu_take: "batcher_size (bt S) = Inr n \<Longrightarrow> 1 \<le> n \<Longrightarrow> batcher_dequeue (bt S) = Inr (Some b, s') \<Longrightarrow>
     bstep S (S\<lparr>bt := s', in_flight := b # in_flight S\<rparr>)"
| gpu_fill: "b \<in> set (in_flight S) \<Longrightarrow> set_size (Some b) k (bt S) = Inr s' \<Longrightarrow> bstep S (S\<lparr>bt := s'\<rparr>)"
| gpu_return: "in_flight S = bs @ b # bs' \<Longrightarrow> batcher_enqueue (Some b) (bt S) = Inr s' \<Longrightarrow>
     bstep S (S\<lparr>bt := s', in_flight := bs @ bs'\<rparr>)"
| writer_take: "mtx_dequeue (to_disk (bt S)) = Inr (Some i, d) \<Longrightarrow>
     bstep S (S\<lparr>bt := (bt S)\<lparr>to_disk := d\<rparr>, in_writer := i # in_writer S\<rparr>)"
| writer_put: "in_writer S = w @ i # w' \<Longrightarrow> mtx_enqueue (Some i) (pool_full (bt S)) = Inr full \<Longrightarrow>
     bstep S (S\<lparr>bt := (bt S)\<lparr>pool_full := full\<rparr>, in_writer := w @ w'\<rparr>)"

inductive breach :: "bstate \<Rightarrow> bool" where
  start: "host_pools = Inr s0 \<Longrightarrow> batcher_new s0 = Inr s \<Longrightarrow>
     breach \<lparr>bt = s, in_flight = [], in_writer = []\<rparr>"
| step: "breach S \<Longrightarrow> bstep S S' \<Longrightarrow> breach S'"

inductive_cases bstep_cases: "bstep S S'"


section \<open>Where the buffers are\<close>

definition num_batches :: nat where
  "num_batches = num_host_batches + num_host_empty_batches"

definition queue_is :: "nat mtx_fifo_t \<Rightarrow> nat list \<Rightarrow> bool" where
  "queue_is q L \<longleftrightarrow> mtx_inv q \<and> fifo_list (pool q) = map Some L \<and> fifo_capacity (pool q) = num_batches"

definition opt :: "'a option \<Rightarrow> 'a list" where
  "opt p = (case p of None \<Rightarrow> [] | Some x \<Rightarrow> [x])"

definition rest_of :: "batcher \<Rightarrow> nat ptr list" where
  "rest_of s = (case unbundle_p s of None \<Rightarrow> [] | Some i \<Rightarrow> drop (idx_unbundle s) (host_batches s ! i))"

definition first_of :: "batcher \<Rightarrow> nat ptr list" where
  "first_of s = (case bundle_p s of None \<Rightarrow> [] | Some i \<Rightarrow> take (idx_bundle s) (host_batches s ! i))"

text \<open>
  \<open>binv s F W L E D\<close>: the queues hold the batches \<open>L\<close> (full), \<open>E\<close> (empty)
  and \<open>D\<close> (to disk), the writers \<open>W\<close> and the GPU the buffers \<open>F\<close>; every batch and
  every buffer is in exactly one place.
\<close>

definition binv :: "batcher \<Rightarrow> nat list \<Rightarrow> nat list \<Rightarrow> nat list \<Rightarrow> nat list \<Rightarrow> nat list \<Rightarrow> bool" where
  "binv s F W L E D \<longleftrightarrow>
     queue_is (pool_full s) L \<and> queue_is (pool_empty s) E \<and> queue_is (to_disk s) D \<and>
     mset (L @ E @ D @ W @ opt (unbundle_p s) @ opt (bundle_p s)) = mset [0..<num_batches] \<and>
     length (host_batches s) = num_batches \<and> length (host_sizes s) = num_host_batches * disk_io_batch_size \<and>
     (\<forall>e \<in> set (host_batches s). length e = disk_io_batch_size) \<and>
     idx_unbundle s < disk_io_batch_size \<and> idx_bundle s < disk_io_batch_size \<and>
     (unbundle_p s = nullptr \<longrightarrow> idx_unbundle s = 0) \<and> (bundle_p s = nullptr \<longrightarrow> idx_bundle s = 0) \<and>
     mset (concat (map ((!) (host_batches s)) (L @ D @ W)) @ rest_of s @ first_of s @ map Some F) =
       mset (map Some [0..<num_host_batches * disk_io_batch_size])"

lemma queue_deq_cons: "queue_is q (x # L) \<Longrightarrow> \<exists>q'. mtx_dequeue q = Inr (Some x, q') \<and> queue_is q' L"
  using mtxq.deq_cons [of q "Some x" "map Some L"] by (auto simp: queue_is_def)

lemma queue_deq_nil: "queue_is q [] \<Longrightarrow> mtx_dequeue q = Inr (nullptr, q)"
  using mtxq.deq_empty [of q] by (simp add: queue_is_def)

lemma queue_enq: "queue_is q L \<Longrightarrow> length L < num_batches \<Longrightarrow> \<exists>q'. mtx_enqueue (Some x) q = Inr q' \<and> queue_is q' (L @ [x])"
  using mtxq.enq_room [of q "Some x"] by (auto simp: queue_is_def)

lemma queue_size: "queue_is q L \<Longrightarrow> mtx_size q = Inr (length L, q)"
  by (cases q) (auto simp: queue_is_def mtx_size_def with_lock_def mtx_inv_def fifo_size_list [symmetric])

lemma binv_batch:
  assumes "binv s F W L E D" "i \<in> set (L @ E @ D @ W @ opt (unbundle_p s) @ opt (bundle_p s))"
  shows "i < length (host_batches s)" "length (host_batches s ! i) = disk_io_batch_size"
proof -
  have "i \<in># mset [0..<num_batches]" using assms unfolding binv_def by (metis set_mset_mset)
  then show "i < length (host_batches s)" using assms(1) by (simp add: binv_def)
  then show "length (host_batches s ! i) = disk_io_batch_size" using assms(1) by (simp add: binv_def)
qed

lemma binv_distinct:
  assumes "binv s F W L E D"
  shows "distinct (L @ E @ D @ W @ opt (unbundle_p s) @ opt (bundle_p s))"
    "length L + length E + length D + length W + length (opt (unbundle_p s)) + length (opt (bundle_p s)) = num_batches"
proof -
  have m: "mset (L @ E @ D @ W @ opt (unbundle_p s) @ opt (bundle_p s)) = mset [0..<num_batches]"
    using assms by (simp add: binv_def)
  then show "distinct (L @ E @ D @ W @ opt (unbundle_p s) @ opt (bundle_p s))"
    by (metis distinct_upt mset_eq_imp_distinct_iff)
  from arg_cong [OF m, of size]
  show "length L + length E + length D + length W + length (opt (unbundle_p s)) + length (opt (bundle_p s)) = num_batches"
    by simp
qed

lemma length_concat_batches:
  assumes "\<And>i. i \<in> set xs \<Longrightarrow> length (B ! i) = n"
  shows "length (concat (map ((!) B) xs)) = length xs * n"
  using assms by (induction xs) simp_all

lemma binv_count:
  assumes "binv s F W L E D"
  shows "(length L + length D + length W) * disk_io_batch_size + length (rest_of s) + length (first_of s) + length F =
      num_host_batches * disk_io_batch_size"
    "length (rest_of s) = (if unbundle_p s = nullptr then 0 else disk_io_batch_size - idx_unbundle s)"
    "length (first_of s) = (if bundle_p s = nullptr then 0 else idx_bundle s)"
proof -
  have "mset (concat (map ((!) (host_batches s)) (L @ D @ W)) @ rest_of s @ first_of s @ map Some F) =
       mset (map Some [0..<num_host_batches * disk_io_batch_size])" using assms by (simp add: binv_def)
  from arg_cong [OF this, of size]
  have "length (concat (map ((!) (host_batches s)) (L @ D @ W))) + length (rest_of s) + length (first_of s) + length F =
      num_host_batches * disk_io_batch_size"
    by (simp del: map_append concat_append)
  moreover have "length (concat (map ((!) (host_batches s)) (L @ D @ W))) = length (L @ D @ W) * disk_io_batch_size"
    by (rule length_concat_batches) (use binv_batch(2) [OF assms] in auto)
  ultimately show "(length L + length D + length W) * disk_io_batch_size + length (rest_of s) + length (first_of s) + length F =
      num_host_batches * disk_io_batch_size" by (simp add: add.assoc)
  show "length (rest_of s) = (if unbundle_p s = nullptr then 0 else disk_io_batch_size - idx_unbundle s)"
    using binv_batch(2) [OF assms] by (auto simp: rest_of_def opt_def split: option.splits)
  show "length (first_of s) = (if bundle_p s = nullptr then 0 else idx_bundle s)"
    using binv_batch(2) [OF assms] assms by (auto simp: first_of_def opt_def binv_def split: option.splits)
qed

text \<open>The slots that are free for returned buffers: the empty batches exceed what is in flight.\<close>

lemma binv_slots:
  assumes "binv s F W L E D"
  shows "length E * disk_io_batch_size + (if bundle_p s = nullptr then 0 else disk_io_batch_size - idx_bundle s) + idx_unbundle s =
    num_host_empty_batches * disk_io_batch_size + length F"
proof -
  let ?d = disk_io_batch_size
  note c = binv_count [OF assms] and n = binv_distinct(2) [OF assms]
  have i: "idx_unbundle s < ?d" "idx_bundle s < ?d" "unbundle_p s = nullptr \<Longrightarrow> idx_unbundle s = 0"
    "bundle_p s = nullptr \<Longrightarrow> idx_bundle s = 0" using assms by (simp_all add: binv_def)
  have "(length L + length E + length D + length W + length (opt (unbundle_p s)) + length (opt (bundle_p s))) * ?d =
      (num_host_batches + num_host_empty_batches) * ?d" using n by (simp add: num_batches_def)
  then have "(length L + length D + length W) * ?d + length E * ?d + length (opt (unbundle_p s)) * ?d + length (opt (bundle_p s)) * ?d =
      num_host_batches * ?d + num_host_empty_batches * ?d" by (simp add: algebra_simps)
  with c i show ?thesis by (cases "unbundle_p s"; cases "bundle_p s") (simp_all add: opt_def)
qed

lemma binv_queues:
  assumes "binv s F W L E D"
  shows "queue_is (pool_full s) L" "queue_is (pool_empty s) E" "queue_is (to_disk s) D"
  using assms by (simp_all add: binv_def)

lemma binv_size:
  assumes "binv s F W L E D"
  shows "batcher_size s = Inr (min (length (rest_of s) + length L * disk_io_batch_size)
    (num_host_empty_batches * disk_io_batch_size + length F - idx_unbundle s))"
proof -
  have q: "queue_is (pool_full s) L" "queue_is (pool_empty s) E" using assms by (simp_all add: binv_def)
  have "(if bundle_p s = nullptr then 0 else disk_io_batch_size - idx_bundle s) + length E * disk_io_batch_size =
      num_host_empty_batches * disk_io_batch_size + length F - idx_unbundle s"
    using binv_slots [OF assms] by linarith
  then show ?thesis
    using binv_count(2) [OF assms] by (simp only: batcher_size_def queue_size [OF q(1)] queue_size [OF q(2)] bind_result_simps prod.case)
qed


section \<open>Every step keeps the buffers accounted for\<close>

lemma entry_Some:
  assumes "binv s F W L E D" "x \<in> set (concat (map ((!) (host_batches s)) (L @ D @ W)) @ rest_of s @ first_of s @ map Some F)"
  shows "\<exists>b. x = Some b \<and> b < num_host_batches * disk_io_batch_size"
proof -
  have "x \<in># mset (map Some [0..<num_host_batches * disk_io_batch_size])"
    using assms unfolding binv_def by (metis set_mset_mset)
  then show ?thesis by auto
qed

lemma dequeue_ok:
  assumes "binv s F W L E D" "rest_of s \<noteq> [] \<or> L \<noteq> []"
  shows "\<exists>b s' L' E'. batcher_dequeue s = Inr (Some b, s') \<and> binv s' (b # F) W L' E' D"
proof (cases "unbundle_p s")
  case None
  then obtain i L' where L: "L = i # L'" using assms(2) by (cases L) (simp_all add: rest_of_def)
  have i: "i < length (host_batches s)" "length (host_batches s ! i) = disk_io_batch_size"
    using binv_batch [OF assms(1), of i] L by simp_all
  then obtain x xs where x: "host_batches s ! i = x # xs"
    by (cases "host_batches s ! i") (simp_all add: disk_io_batch_size_def)
  obtain b where b: "x = Some b" using entry_Some [OF assms(1), of x] L x by auto
  have u0: "idx_unbundle s = 0" using assms(1) None by (simp add: binv_def)
  obtain q' where q: "mtx_dequeue (pool_full s) = Inr (Some i, q')" "queue_is q' L'"
    using queue_deq_cons [of "pool_full s" i L'] binv_queues(1) [OF assms(1)] L by auto
  let ?s = "s\<lparr>pool_full := q', unbundle_p := Some i, idx_unbundle := 1\<rparr>"
  have "batcher_dequeue s = Inr (Some b, ?s)"
    using None q(1) i x b u0 by (simp add: batcher_dequeue_def batch_get_def disk_io_batch_size_def)
  moreover have "binv ?s (b # F) W L' E D"
    using assms(1) None L q(2) x b u0 i
    unfolding binv_def by (auto simp: rest_of_def first_of_def opt_def disk_io_batch_size_def ac_simps split: option.splits)
  ultimately show ?thesis by blast
next
  case (Some i)
  have i: "i < length (host_batches s)" "length (host_batches s ! i) = disk_io_batch_size" "idx_unbundle s < disk_io_batch_size"
    using binv_batch [OF assms(1), of i] Some assms(1) by (simp_all add: opt_def binv_def)
  let ?x = "host_batches s ! i ! idx_unbundle s"
  have d: "drop (idx_unbundle s) (host_batches s ! i) = ?x # drop (Suc (idx_unbundle s)) (host_batches s ! i)"
    using i by (simp add: Cons_nth_drop_Suc)
  obtain b where b: "?x = Some b" using entry_Some [OF assms(1), of ?x] Some d by (auto simp: rest_of_def)
  show ?thesis
  proof (cases "Suc (idx_unbundle s) = disk_io_batch_size")
    case True
    have "length E < num_batches" using binv_distinct(2) [OF assms(1)] Some by (simp add: opt_def)
    then obtain q' where q: "mtx_enqueue (Some i) (pool_empty s) = Inr q'" "queue_is q' (E @ [i])"
      using queue_enq [of "pool_empty s" E i] binv_queues(2) [OF assms(1)] by auto
    let ?s = "s\<lparr>pool_empty := q', unbundle_p := nullptr, idx_unbundle := 0\<rparr>"
    have "batcher_dequeue s = Inr (Some b, ?s)"
      using Some q(1) i b True by (simp add: batcher_dequeue_def batch_get_def)
    moreover have "binv ?s (b # F) W L (E @ [i]) D"
      using assms(1) Some q(2) d b True i
      unfolding binv_def by (auto simp: rest_of_def first_of_def opt_def ac_simps split: option.splits)
    ultimately show ?thesis by blast
  next
    case False
    let ?s = "s\<lparr>idx_unbundle := Suc (idx_unbundle s)\<rparr>"
    have "batcher_dequeue s = Inr (Some b, ?s)"
      using Some i b False by (simp add: batcher_dequeue_def batch_get_def)
    moreover have "binv ?s (b # F) W L E D"
      using assms(1) Some d b False i
      unfolding binv_def by (auto simp: rest_of_def first_of_def opt_def ac_simps split: option.splits)
    ultimately show ?thesis by blast
  qed
qed

lemma map_nth_update_other: "i \<notin> set xs \<Longrightarrow> map ((!) (B[i := e])) xs = map ((!) B) xs"
  by (intro map_cong refl nth_list_update_neq) auto

lemma batch_set_ok:
  assumes "i < length (host_batches s)" "j < length (host_batches s ! i)"
  shows "batch_set (Some i) j x s = Inr (s\<lparr>host_batches := (host_batches s)[i := (host_batches s ! i)[j := x]]\<rparr>)"
  using assms by (simp add: batch_set_def)

lemma enqueue_bundle:
  assumes "binv s F W L E D" "bundle_p s = Some i" "mset F = add_mset b (mset F')"
  shows "\<exists>s' D'. batcher_enqueue (Some b) s = Inr s' \<and> binv s' F' W L E D'"
proof -
  let ?B = "host_batches s" and ?j = "idx_bundle s"
  let ?e = "(?B ! i)[?j := Some b]"
  have i: "i < length ?B" "length (?B ! i) = disk_io_batch_size" "?j < disk_io_batch_size"
    using binv_batch [OF assms(1), of i] assms(1,2) by (simp_all add: opt_def binv_def)
  have ni: "i \<notin> set L" "i \<notin> set E" "i \<notin> set D" "i \<notin> set W" "unbundle_p s \<noteq> Some i"
    using binv_distinct(1) [OF assms(1)] assms(2) by (auto simp: opt_def split: option.splits)
  have tk: "take (Suc ?j) ?e = take ?j (?B ! i) @ [Some b]" using i by (simp add: take_Suc_conv_app_nth)
  have rest: "rest_of (s\<lparr>host_batches := ?B[i := ?e]\<rparr>) = rest_of s"
    using ni(5) by (auto simp: rest_of_def split: option.splits)
  let ?s1 = "s\<lparr>host_batches := ?B[i := ?e], idx_bundle := Suc ?j\<rparr>"
  have set: "batch_set (Some i) ?j (Some b) s = Inr (s\<lparr>host_batches := ?B[i := ?e]\<rparr>)"
    using i by (intro batch_set_ok) simp_all
  have lens: "\<forall>e \<in> set (?B[i := ?e]). length e = disk_io_batch_size"
    using assms(1) i set_update_subset_insert [of ?B i ?e] by (auto simp: binv_def)
  show ?thesis
  proof (cases "Suc ?j = disk_io_batch_size")
    case True
    have "length D < num_batches" using binv_distinct(2) [OF assms(1)] assms(2) by (simp add: opt_def)
    then obtain q' where q: "mtx_enqueue (Some i) (to_disk s) = Inr q'" "queue_is q' (D @ [i])"
      using queue_enq [of "to_disk s" D i] binv_queues(3) [OF assms(1)] by auto
    let ?s = "?s1\<lparr>to_disk := q', bundle_p := nullptr, idx_bundle := 0\<rparr>"
    have all: "?e = take ?j (?B ! i) @ [Some b]" using tk True i by simp
    have "batcher_enqueue (Some b) s = Inr ?s"
      using assms(2) set q(1) True by (simp add: batcher_enqueue_def)
    moreover have "binv ?s F' W L E (D @ [i])"
      using assms q(2) rest lens i ni all
      unfolding binv_def by (auto simp: rest_of_def first_of_def opt_def map_nth_update_other ac_simps split: option.splits)
    ultimately show ?thesis by blast
  next
    case False
    have "batcher_enqueue (Some b) s = Inr ?s1"
      using assms(2) set False by (simp add: batcher_enqueue_def)
    moreover have "binv ?s1 F' W L E D"
      using assms rest lens i ni tk False
      unfolding binv_def by (auto simp: rest_of_def first_of_def opt_def map_nth_update_other ac_simps split: option.splits)
    ultimately show ?thesis by blast
  qed
qed

lemma enqueue_ok:
  assumes "binv s F W L E D" "mset F = add_mset b (mset F')"
  shows "\<exists>s' E' D'. batcher_enqueue (Some b) s = Inr s' \<and> binv s' F' W L E' D'"
proof (cases "bundle_p s")
  case (Some i)
  with enqueue_bundle [OF assms(1) Some assms(2)] show ?thesis by blast
next
  case None
  have "0 < length E"
    using binv_slots [OF assms(1)] None assms(1)
    by (cases E) (auto simp: num_host_empty_batches_def disk_io_batch_size_def binv_def)
  then obtain i E' where E: "E = i # E'" by (cases E) auto
  obtain q' where q: "mtx_dequeue (pool_empty s) = Inr (Some i, q')" "queue_is q' E'"
    using queue_deq_cons [of "pool_empty s" i E'] binv_queues(2) [OF assms(1)] E by auto
  let ?s = "s\<lparr>bundle_p := Some i, pool_empty := q'\<rparr>"
  have "binv ?s F W L E' D"
    using assms(1) None E q(2) unfolding binv_def by (auto simp: rest_of_def first_of_def opt_def split: option.splits)
  from enqueue_bundle [OF this _ assms(2), of i] obtain s' D' where
    "batcher_enqueue (Some b) ?s = Inr s'" "binv s' F' W L E' D'" by auto
  moreover have "batcher_enqueue (Some b) s = batcher_enqueue (Some b) ?s"
    using None q(1) by (simp add: batcher_enqueue_def)
  ultimately show ?thesis by auto
qed

lemma queue_update_simps [simp]:
  "rest_of (s\<lparr>to_disk := q\<rparr>) = rest_of s" "first_of (s\<lparr>to_disk := q\<rparr>) = first_of s"
  "rest_of (s\<lparr>pool_full := q\<rparr>) = rest_of s" "first_of (s\<lparr>pool_full := q\<rparr>) = first_of s"
  "rest_of (s\<lparr>host_sizes := z\<rparr>) = rest_of s" "first_of (s\<lparr>host_sizes := z\<rparr>) = first_of s"
  by (simp_all add: rest_of_def first_of_def split: option.split)

lemma mset_concat_map: "mset (concat (map f W)) = (\<Sum>x\<in>#mset W. mset (f x))"
  by (induction W) simp_all

lemma writer_take_ok:
  assumes "binv s F W L E (i # D)"
  shows "\<exists>q. mtx_dequeue (to_disk s) = Inr (Some i, q) \<and> binv (s\<lparr>to_disk := q\<rparr>) F (i # W) L E D"
proof -
  obtain q where q: "mtx_dequeue (to_disk s) = Inr (Some i, q)" "queue_is q D"
    using queue_deq_cons [of "to_disk s" i D] binv_queues(3) [OF assms] by auto
  then show ?thesis
    using assms unfolding binv_def by (simp add: ac_simps)
qed

lemma writer_put_ok:
  assumes "binv s F W L E D" "mset W = add_mset i (mset W')"
  shows "\<exists>q. mtx_enqueue (Some i) (pool_full s) = Inr q \<and> binv (s\<lparr>pool_full := q\<rparr>) F W' (L @ [i]) E D"
proof -
  have "length W = Suc (length W')" using arg_cong [OF assms(2), of size] by simp
  then have "length L < num_batches" using binv_distinct(2) [OF assms(1)] by simp
  then obtain q where q: "mtx_enqueue (Some i) (pool_full s) = Inr q" "queue_is q (L @ [i])"
    using queue_enq [of "pool_full s" L i] binv_queues(1) [OF assms(1)] by auto
  have "mset (concat (map f W)) = mset (f i) + mset (concat (map f W'))" for f :: "nat \<Rightarrow> nat ptr list"
    using assms(2) by (simp add: mset_concat_map)
  with q assms show ?thesis
    unfolding binv_def by (simp add: ac_simps)
qed

lemma set_size_ok:
  assumes "binv s F W L E D" "set_size p n s = Inr s'"
  shows "binv s' F W L E D"
  using assms by (auto simp: set_size_def vec_set_def binv_def split: option.splits if_splits)


section \<open>The initial state\<close>

lemma enqueue_all:
  "queue_is q L \<Longrightarrow> length L + length xs \<le> num_batches \<Longrightarrow>
   \<exists>q'. fold_result (\<lambda>i. mtx_enqueue (Some (f i))) xs q = Inr q' \<and> queue_is q' (L @ map f xs)"
proof (induction xs arbitrary: q L)
  case (Cons x xs)
  then obtain q1 where q1: "mtx_enqueue (Some (f x)) q = Inr q1" "queue_is q1 (L @ [f x])"
    using queue_enq [of q L "f x"] by auto
  with Cons.IH [of q1 "L @ [f x]"] Cons.prems(2) show ?case by simp
qed simp

lemma fresh_queue:
  "\<exists>q. mtx_create num_batches \<lparr>pool = fifo_new, mtx_locked = False\<rparr> = Inr (0, q) \<and> queue_is q []"
proof -
  have "num_batches < 2 ^ 63 - 1"
    by (simp add: num_batches_def num_host_batches_def num_host_bufs_def disk_io_batch_size_def num_host_empty_batches_def)
  from fifo_create_inv [OF this refl, where ?'a = nat] show ?thesis
    by (simp add: mtx_create_def with_lock_def queue_is_def mtx_inv_def)
qed

definition start_batches :: "nat ptr list list" where
  "start_batches = map (\<lambda>i. map (\<lambda>j. Some (i * disk_io_batch_size + j)) [0..<disk_io_batch_size]) [0..<num_host_batches] @
     replicate num_host_empty_batches (replicate disk_io_batch_size nullptr)"

lemma host_pools_ok:
  "\<exists>s0. host_pools = Inr s0 \<and> queue_is (pool_full s0) [0..<num_host_batches] \<and>
    queue_is (pool_empty s0) [num_host_batches..<num_batches] \<and> queue_is (to_disk s0) [] \<and>
    host_batches s0 = start_batches \<and> length (host_sizes s0) = num_host_batches * disk_io_batch_size"
proof -
  obtain q where q: "mtx_create num_batches \<lparr>pool = fifo_new, mtx_locked = False\<rparr> = Inr (0, q)" "queue_is q []"
    using fresh_queue by blast
  obtain full where full: "fold_result (\<lambda>i. mtx_enqueue (Some i)) [0..<num_host_batches] q = Inr full"
    "queue_is full [0..<num_host_batches]"
    using enqueue_all [OF q(2), of "[0..<num_host_batches]" "\<lambda>i. i"] by (auto simp: num_batches_def)
  have sh: "map (\<lambda>i. i + num_host_batches) [0..<num_host_empty_batches] = [num_host_batches..<num_batches]"
    by (simp add: num_batches_def map_add_upt add.commute)
  obtain em where em: "fold_result (\<lambda>i. mtx_enqueue (Some (i + num_host_batches))) [0..<num_host_empty_batches] q = Inr em"
    "queue_is em [num_host_batches..<num_batches]"
    using enqueue_all [OF q(2), of "[0..<num_host_empty_batches]" "\<lambda>i. i + num_host_batches"] sh by (auto simp: num_batches_def)
  show ?thesis
    using q full em by (simp add: host_pools_def start_batches_def num_batches_def [symmetric] Let_def)
qed

lemma start_entries:
  "concat (map (\<lambda>i. map (\<lambda>j. Some (i * d + j)) [0..<d]) [0..<n]) = map Some [0..<n * d]"
proof (induction n)
  case (Suc n)
  have "[0..<Suc n * d] = [0..<n * d] @ map (\<lambda>j. n * d + j) [0..<d]"
    using upt_add_eq_append [of 0 "n * d" d] map_add_upt [of "n * d" d] by (simp add: add.commute)
  with Suc show ?case by (simp add: comp_def)
qed simp

lemma start_state_inv:
  assumes "host_pools = Inr s0" "batcher_new s0 = Inr s"
  shows "binv s [] [] [1..<num_host_batches] [Suc num_host_batches..<num_batches] []"
proof -
  let ?n = num_host_batches and ?d = disk_io_batch_size
  have n: "0 < ?n" "?n < num_batches" "0 < ?d"
    by (simp_all add: num_host_batches_def num_host_bufs_def disk_io_batch_size_def num_host_empty_batches_def num_batches_def)
  obtain t where t: "host_pools = Inr t" "queue_is (pool_full t) [0..<?n]" "queue_is (pool_empty t) [?n..<num_batches]"
    "queue_is (to_disk t) []" "host_batches t = start_batches" "length (host_sizes t) = ?n * ?d" using host_pools_ok by blast
  have "(Inr t :: batcher result) = Inr s0" using t(1) assms(1) by (rule subst)
  then have "t = s0" by simp
  note s0 = t(2-6) [unfolded this]
  obtain f where f: "mtx_dequeue (pool_full s0) = Inr (Some 0, f)" "queue_is f [1..<?n]"
    using queue_deq_cons [of "pool_full s0" 0 "[1..<?n]"] s0(1) n(1) by (auto simp: upt_conv_Cons)
  obtain e where e: "mtx_dequeue (pool_empty s0) = Inr (Some ?n, e)" "queue_is e [Suc ?n..<num_batches]"
    using queue_deq_cons [of "pool_empty s0" ?n "[Suc ?n..<num_batches]"] s0(2) n(2) by (auto simp: upt_conv_Cons)
  have s: "s = s0\<lparr>pool_full := f, pool_empty := e, unbundle_p := Some 0, bundle_p := Some ?n, idx_unbundle := 0, idx_bundle := 0\<rparr>"
    using assms(2) f(1) e(1) by (simp add: batcher_new_def)
  have "[0..<num_batches] = [0..<?n] @ [?n..<num_batches]" using n(2) upt_add_eq_append [of 0 ?n "num_batches - ?n"] by simp
  then have m: "mset ([1..<?n] @ [Suc ?n..<num_batches] @ [0] @ [?n]) = mset [0..<num_batches]"
    using n by (simp only: upt_conv_Cons mset_append) simp
  have nth: "map ((!) start_batches) [0..<?n] = map (\<lambda>i. map (\<lambda>j. Some (i * ?d + j)) [0..<?d]) [0..<?n]"
    by (simp add: start_batches_def nth_append)
  have "mset (concat (map ((!) start_batches) [1..<?n]) @ start_batches ! 0) = mset (concat (map ((!) start_batches) [0..<?n]))"
    using n(1) by (simp add: upt_conv_Cons)
  also have "\<dots> = mset (map Some [0..<?n * ?d])" unfolding nth start_entries ..
  finally have c: "mset (concat (map ((!) start_batches) [1..<?n]) @ start_batches ! 0) = mset (map Some [0..<?n * ?d])" .
  have l: "length start_batches = num_batches" "\<forall>e \<in> set start_batches. length e = ?d"
    by (auto simp: start_batches_def num_batches_def)
  show ?thesis
    unfolding binv_def s using s0 f(2) e(2) m c l n(3) by (simp add: rest_of_def first_of_def opt_def)
qed

lemma breach_binv: "breach S \<Longrightarrow> \<exists>L E D. binv (bt S) (in_flight S) (in_writer S) L E D"
proof (induction rule: breach.induct)
  case (start s0 s)
  from start_state_inv [OF this] show ?case unfolding bstate.simps by blast
next
  case (step S S')
  then obtain L E D where I: "binv (bt S) (in_flight S) (in_writer S) L E D" by blast
  from step.hyps(2) show ?case
  proof cases
    case (gpu_take n b s')
    have "rest_of (bt S) \<noteq> [] \<or> L \<noteq> []" using binv_size [OF I] gpu_take(2,3) by auto
    from dequeue_ok [OF I this] gpu_take show ?thesis by auto
  next
    case (gpu_fill b k s')
    then have "binv s' (in_flight S) (in_writer S) L E D" using set_size_ok [OF I, of "Some b" k s'] by simp
    with gpu_fill(1) show ?thesis by auto
  next
    case (gpu_return bs b bs' s')
    with enqueue_ok [OF I, of b "bs @ bs'"] show ?thesis by auto
  next
    case (writer_take i d)
    have "D \<noteq> []" using writer_take(2) queue_deq_nil [of "to_disk (bt S)"] binv_queues(3) [OF I] by auto
    then obtain j D' where "D = j # D'" by (cases D) auto
    with writer_take_ok [of "bt S" "in_flight S" "in_writer S" L E j D'] I writer_take show ?thesis by auto
  next
    case (writer_put w i w' full)
    with writer_put_ok [OF I, of i "w @ w'"] show ?thesis by auto
  qed
qed


section \<open>The end of a partition\<close>

lemma flush_loop_overrun:
  assumes "unbundle_p s = Some u" "bundle_p s = Some b" "u \<noteq> b" "u < length (host_batches s)" "b < length (host_batches s)"
    "length (host_batches s ! u) = disk_io_batch_size" "length (host_batches s ! b) = disk_io_batch_size"
    "\<And>j. idx_bundle s \<le> j \<Longrightarrow> j < disk_io_batch_size \<Longrightarrow> \<exists>p. host_batches s ! u ! j = Some p \<and> p < length (host_sizes s)"
    "idx_bundle s < disk_io_batch_size" "idx_bundle s \<le> idx_unbundle s"
    "idx_bundle s < idx_unbundle s \<or> Suc (idx_bundle s) < disk_io_batch_size"
  shows "flush_loop s = Inl OutOfBounds"
  using assms
proof (induction "disk_io_batch_size - idx_bundle s" arbitrary: s rule: less_induct)
  case less
  let ?B = "host_batches s" and ?d = disk_io_batch_size
  show ?case
  proof (cases "idx_unbundle s < ?d")
    case False
    then have "batch_get s (unbundle_p s) (idx_unbundle s) = Inl OutOfBounds"
      using less.prems by (simp add: batch_get_def vec_get_def)
    then show ?thesis using less.prems(9) by (subst flush_loop.simps) simp
  next
    case True
    obtain p where p: "?B ! u ! idx_unbundle s = Some p" "p < length (host_sizes s)"
      using less.prems(8) [of "idx_unbundle s"] less.prems(10) True by auto
    let ?s1 = "s\<lparr>host_sizes := (host_sizes s)[p := 0]\<rparr>"
    let ?e = "(?B ! b)[idx_bundle s := Some p]"
    let ?s2 = "s\<lparr>host_sizes := (host_sizes s)[p := 0], host_batches := ?B[b := ?e],
        idx_unbundle := idx_unbundle s + 2, idx_bundle := idx_bundle s + 1\<rparr>"
    have g: "batch_get s (unbundle_p s) (idx_unbundle s) = Inr (Some p)" "batch_get ?s1 (unbundle_p ?s1) (idx_unbundle ?s1) = Inr (Some p)"
      using less.prems True p(1) by (simp_all add: batch_get_def)
    have z: "set_size (Some p) 0 s = Inr ?s1" using p(2) by (simp add: set_size_def)
    have st: "batch_set (bundle_p ?s1) (idx_bundle ?s1) (Some p) ?s1 = Inr (?s1\<lparr>host_batches := ?B[b := ?e]\<rparr>)"
      using batch_set_ok [of b ?s1 "idx_bundle s" "Some p"] less.prems by simp
    have "flush_loop s = flush_loop ?s2"
      using less.prems(9) g z st by (subst flush_loop.simps) simp
    also have "\<dots> = Inl OutOfBounds"
      using less.prems True
      by (intro less.hyps) (auto simp: nth_list_update)
    finally show ?thesis .
  qed
qed

lemma flush_indices:
  assumes "binv s [] W L E D"
  shows "idx_bundle s = idx_unbundle s" "0 < idx_bundle s \<Longrightarrow> bundle_p s \<noteq> nullptr \<and> unbundle_p s \<noteq> nullptr"
proof -
  let ?d = disk_io_batch_size
  have sl: "length E * ?d + (if bundle_p s = nullptr then 0 else ?d - idx_bundle s) + idx_unbundle s = 8 * ?d"
    using binv_slots [OF assms] by (simp add: num_host_empty_batches_def)
  have i: "idx_unbundle s < ?d" "idx_bundle s < ?d" "unbundle_p s = nullptr \<Longrightarrow> idx_unbundle s = 0"
    "bundle_p s = nullptr \<Longrightarrow> idx_bundle s = 0" using assms by (simp_all add: binv_def)
  show eq: "idx_bundle s = idx_unbundle s"
  proof (cases "bundle_p s")
    case None
    have "idx_unbundle s mod ?d = (length E * ?d + idx_unbundle s) mod ?d" by simp
    also have "\<dots> = 8 * ?d mod ?d" using sl None by simp
    finally show ?thesis using i None by simp
  next
    case (Some b)
    then have "length E * ?d + ?d + idx_unbundle s = 8 * ?d + idx_bundle s" using sl i(2) by simp
    then have "(idx_unbundle s + (length E + 1) * ?d) mod ?d = (idx_bundle s + 8 * ?d) mod ?d" by (simp add: algebra_simps)
    then have "idx_unbundle s mod ?d = idx_bundle s mod ?d" by (simp only: mod_mult_self1)
    then show ?thesis using i(1,2) by simp
  qed
  show "0 < idx_bundle s \<Longrightarrow> bundle_p s \<noteq> nullptr \<and> unbundle_p s \<noteq> nullptr" using i eq by auto
qed

lemma flush_overrun:
  assumes "binv s [] W L E D" "0 < idx_bundle s" "Suc (idx_bundle s) < disk_io_batch_size"
  shows "batcher_flush s = Inl OutOfBounds"
proof -
  obtain u b where ub: "unbundle_p s = Some u" "bundle_p s = Some b"
    using flush_indices(2) [OF assms(1,2)] by auto
  have ne: "u \<noteq> b" using binv_distinct(1) [OF assms(1)] ub by (auto simp: opt_def)
  have u: "u < length (host_batches s)" "length (host_batches s ! u) = disk_io_batch_size"
    "b < length (host_batches s)" "length (host_batches s ! b) = disk_io_batch_size"
    using binv_batch [OF assms(1), of u] binv_batch [OF assms(1), of b] ub by (simp_all add: opt_def)
  have "\<exists>p. host_batches s ! u ! j = Some p \<and> p < length (host_sizes s)"
    if "idx_bundle s \<le> j" "j < disk_io_batch_size" for j
  proof -
    have "host_batches s ! u ! j \<in> set (drop (idx_bundle s) (host_batches s ! u))"
      using that u by (auto simp: in_set_conv_nth intro!: exI [of _ "j - idx_bundle s"])
    then have "host_batches s ! u ! j \<in> set (rest_of s)" using ub flush_indices(1) [OF assms(1)] by (simp add: rest_of_def)
    with entry_Some [OF assms(1), of "host_batches s ! u ! j"] assms(1) show ?thesis by (auto simp: binv_def)
  qed
  then have "flush_loop s = Inl OutOfBounds"
    using ub ne u assms flush_indices(1) [OF assms(1)] by (intro flush_loop_overrun [of s u b]) simp_all
  then show ?thesis using assms(2) flush_indices(1) [OF assms(1)] by (simp add: batcher_flush_def)
qed


section \<open>Progress\<close>

definition pending :: "bstate \<Rightarrow> nat" where
  "pending S = 3 * length (in_flight S) + 2 * fifo_size (pool (to_disk (bt S))) + length (in_writer S)"

lemma queue_fifo_size: "queue_is q L \<Longrightarrow> fifo_size (pool q) = length L"
  by (simp add: queue_is_def mtx_inv_def fifo_size_list [symmetric])

lemma enqueue_disk:
  assumes "binv s F W L E D" "binv s' F' W' L' E' D'" "batcher_enqueue b s = Inr s'"
  shows "length D' \<le> Suc (length D)"
proof -
  have q: "queue_is (to_disk s) D" "queue_is (to_disk s') D'" using binv_queues(3) assms(1,2) by blast+
  have s1: "to_disk s' = to_disk s \<or> (\<exists>p. mtx_enqueue p (to_disk s) = Inr (to_disk s'))"
    using assms(3)
    by (auto simp: batcher_enqueue_def bind_result_Inr_iff batch_set_def Let_def vec_set_def vec_get_def
        split: if_splits option.splits prod.splits)
  show ?thesis
  proof (cases "to_disk s' = to_disk s")
    case True
    with queue_fifo_size [OF q(1)] queue_fifo_size [OF q(2)] show ?thesis by simp
  next
    case False
    then obtain p where p: "mtx_enqueue p (to_disk s) = Inr (to_disk s')" using s1 by auto
    have "\<exists>q'. mtx_enqueue p (to_disk s) = Inr q' \<and> fifo_list (pool q') = fifo_list (pool (to_disk s)) @ [p]"
    proof (cases "length (fifo_list (pool (to_disk s))) = fifo_capacity (pool (to_disk s))")
      case True
      with mtxq.enq_full [of "to_disk s" p] q(1) p show ?thesis by (simp add: queue_is_def)
    next
      case False
      with mtxq.enq_room [of "to_disk s" p] q(1) show ?thesis by (auto simp: queue_is_def)
    qed
    with p q have "map Some D' = map Some D @ [p]" by (auto simp: queue_is_def)
    from arg_cong [OF this, of length] show ?thesis by simp
  qed
qed

inductive drain :: "bstate \<Rightarrow> bstate \<Rightarrow> bool" where
  drain_return: "in_flight S = bs @ b # bs' \<Longrightarrow> batcher_enqueue (Some b) (bt S) = Inr s' \<Longrightarrow>
     drain S (S\<lparr>bt := s', in_flight := bs @ bs'\<rparr>)"
| drain_take: "mtx_dequeue (to_disk (bt S)) = Inr (Some i, d) \<Longrightarrow>
     drain S (S\<lparr>bt := (bt S)\<lparr>to_disk := d\<rparr>, in_writer := i # in_writer S\<rparr>)"
| drain_put: "in_writer S = w @ i # w' \<Longrightarrow> mtx_enqueue (Some i) (pool_full (bt S)) = Inr full \<Longrightarrow>
     drain S (S\<lparr>bt := (bt S)\<lparr>pool_full := full\<rparr>, in_writer := w @ w'\<rparr>)"

lemma drain_bstep: "drain S S' \<Longrightarrow> bstep S S'"
  by (induction rule: drain.induct) (auto intro: bstep.intros)

lemma drain_decreases:
  assumes "binv (bt S) (in_flight S) (in_writer S) L E D" "drain S S'"
  shows "pending S' < pending S"
  using assms(2)
proof cases
  case (drain_return bs b bs' s')
  from enqueue_ok [OF assms(1), of b "bs @ bs'"] drain_return obtain E' D' where
    I': "binv s' (bs @ bs') (in_writer S) L E' D'" by auto
  have "length D' \<le> Suc (length D)" using enqueue_disk [OF assms(1) I'] drain_return(3) by blast
  with drain_return queue_fifo_size [OF binv_queues(3) [OF assms(1)]] queue_fifo_size [OF binv_queues(3) [OF I']]
  show ?thesis by (simp add: pending_def)
next
  case (drain_take i d)
  have "D \<noteq> []" using drain_take(2) queue_deq_nil [of "to_disk (bt S)"] binv_queues(3) [OF assms(1)] by auto
  then obtain j D' where D: "D = j # D'" by (cases D) auto
  with queue_deq_cons [of "to_disk (bt S)" j D'] binv_queues(3) [OF assms(1)] drain_take(2) have "queue_is d D'" by auto
  with drain_take(1) D queue_fifo_size [OF binv_queues(3) [OF assms(1)]] queue_fifo_size [of d D'] show ?thesis
    by (simp add: pending_def)
next
  case (drain_put w i w' full)
  then show ?thesis by (simp add: pending_def)
qed

lemma drain_enabled:
  assumes "binv (bt S) (in_flight S) (in_writer S) L E D" "\<forall>S'. \<not> drain S S'"
  shows "in_flight S = []" "D = []" "in_writer S = []"
proof -
  show "in_flight S = []"
  proof (rule ccontr)
    assume "in_flight S \<noteq> []"
    then obtain b bs where b: "in_flight S = [] @ b # bs" by (cases "in_flight S") auto
    from enqueue_ok [OF assms(1), of b bs] b obtain s' where "batcher_enqueue (Some b) (bt S) = Inr s'" by auto
    from drain_return [OF b this] assms(2) show False by blast
  qed
  show "D = []"
  proof (rule ccontr)
    assume "D \<noteq> []"
    then obtain j D' where "D = j # D'" by (cases D) auto
    with queue_deq_cons [of "to_disk (bt S)" j D'] binv_queues(3) [OF assms(1)]
    obtain d where "mtx_dequeue (to_disk (bt S)) = Inr (Some j, d)" by auto
    from drain_take [OF this] assms(2) show False by blast
  qed
  show "in_writer S = []"
  proof (rule ccontr)
    assume "in_writer S \<noteq> []"
    then obtain i w where w: "in_writer S = [] @ i # w" by (cases "in_writer S") auto
    from writer_put_ok [OF assms(1), of i w] w obtain q where "mtx_enqueue (Some i) (pool_full (bt S)) = Inr q" by auto
    from drain_put [OF w this] assms(2) show False by blast
  qed
qed

lemma drained_size:
  assumes "binv s [] [] L E []"
  shows "\<exists>n. batcher_size s = Inr n \<and> 2 \<le> n"
proof -
  have "length L * disk_io_batch_size + length (rest_of s) + length (first_of s) = num_host_batches * disk_io_batch_size"
    using binv_count(1) [OF assms] by simp
  moreover have "length (first_of s) < disk_io_batch_size" "idx_unbundle s < disk_io_batch_size"
    using binv_count(3) [OF assms] assms by (auto simp: binv_def)
  ultimately show ?thesis
    using binv_size [OF assms]
    by (simp add: num_host_batches_def num_host_bufs_def disk_io_batch_size_def num_host_empty_batches_def)
qed


section \<open>Properties\<close>


lemma start_state: "\<exists>s0 s. host_pools = Inr s0 \<and> batcher_new s0 = Inr s"
proof -
  obtain s0 where s0: "host_pools = Inr s0" "queue_is (pool_full s0) [0..<num_host_batches]"
    "queue_is (pool_empty s0) [num_host_batches..<num_batches]" using host_pools_ok by blast
  have n: "0 < num_host_batches" "num_host_batches < num_batches"
    by (simp_all add: num_host_batches_def num_host_bufs_def disk_io_batch_size_def num_host_empty_batches_def num_batches_def)
  obtain f e where "mtx_dequeue (pool_full s0) = Inr (Some 0, f)" "mtx_dequeue (pool_empty s0) = Inr (Some num_host_batches, e)"
    using queue_deq_cons [of "pool_full s0" 0 "[1..<num_host_batches]"] s0(2,3) n
      queue_deq_cons [of "pool_empty s0" num_host_batches "[Suc num_host_batches..<num_batches]"]
    by (auto simp: upt_conv_Cons)
  then show ?thesis using s0(1) by (auto simp: batcher_new_def)
qed


text \<open>
  C39: the GPU loop never waits for buffers for ever: from every reachable
  state in which fewer than two buffers are available, a step of the callback
  thread or of a writer is possible, every such step decreases the bound
  \<open>pending\<close>, and so within \<open>pending S\<close> such steps at least two buffers are available, which is what
  the loop waits for at most.
\<close>
theorem batcher_progress:
  assumes "breach S"
  shows "\<exists>k S' n. k \<le> pending S \<and> (drain ^^ k) S S' \<and> breach S' \<and> batcher_size (bt S') = Inr n \<and> 2 \<le> n"
  using assms
proof (induction "pending S" arbitrary: S rule: less_induct)
  case less
  obtain L E D where I: "binv (bt S) (in_flight S) (in_writer S) L E D" using breach_binv [OF less.prems] by blast
  show ?case
  proof (cases "\<forall>S'. \<not> drain S S'")
    case True
    with drain_enabled [OF I True] I have "binv (bt S) [] [] L E []" by simp
    with drained_size less.prems show ?thesis by (intro exI [of _ 0]) auto
  next
    case False
    then obtain S1 where S1: "drain S S1" by blast
    have lt: "pending S1 < pending S" by (rule drain_decreases [OF I S1])
    have "breach S1" using less.prems drain_bstep [OF S1] by (rule breach.step)
    from less.hyps [OF lt this] obtain k S' n where
      k: "k \<le> pending S1" "(drain ^^ k) S1 S'" "breach S'" "batcher_size (bt S') = Inr n" "2 \<le> n" by blast
    have "(drain ^^ Suc k) S S'" using S1 k(2) by (rule relpowp_Suc_I2)
    with k lt show ?thesis by (intro exI [of _ "Suc k"] exI [of _ S'] exI [of _ n]) simp
  qed
qed

theorem batcher_progress_witness:
  "\<exists>S S' k n. breach S \<and> (drain ^^ k) S S' \<and> batcher_size (bt S') = Inr n \<and> 2 \<le> n"
proof -
  obtain s0 s where "host_pools = Inr s0" "batcher_new s0 = Inr s" using start_state by blast
  then have "breach \<lparr>bt = s, in_flight = [], in_writer = []\<rparr>" by (rule breach.start)
  with batcher_progress [OF this] show ?thesis by blast
qed

text \<open>
  C40: \<open>flush\<close> at the end of a partition, when all buffers have been
  returned: its assertion holds, but when between one and 62 buffers are in the
  partial batch its loop, which advances the index of the batch it reads twice per
  round, reads outside the array of the batch.
\<close>
theorem flush_reads_outside:
  assumes "breach S" "in_flight S = []"
  shows "idx_bundle (bt S) = idx_unbundle (bt S) \<and>
    (0 < idx_bundle (bt S) \<and> Suc (idx_bundle (bt S)) < disk_io_batch_size \<longrightarrow> batcher_flush (bt S) = Inl OutOfBounds)"
proof -
  obtain L E D where "binv (bt S) [] (in_writer S) L E D" using breach_binv [OF assms(1)] assms(2) by auto
  with flush_indices(1) flush_overrun show ?thesis by blast
qed

theorem flush_reads_outside_witness:
  "\<exists>S. breach S \<and> in_flight S = [] \<and> batcher_flush (bt S) = Inl OutOfBounds"
proof -
  obtain s0 s where s: "host_pools = Inr s0" "batcher_new s0 = Inr s" using start_state by blast
  let ?S = "\<lparr>bt = s, in_flight = [], in_writer = []\<rparr>"
  have R: "breach ?S" using s by (rule breach.start)
  have I: "binv s [] [] [1..<num_host_batches] [Suc num_host_batches..<num_batches] []" using start_state_inv [OF s] .
  have u: "unbundle_p s \<noteq> nullptr" "idx_unbundle s = 0"
    using s(2) by (auto simp: batcher_new_def bind_result_Inr_iff assert_that_def split: if_splits prod.splits)
  have n: "1 < num_host_batches" by (simp add: num_host_batches_def num_host_bufs_def disk_io_batch_size_def)
  then have L: "[1..<num_host_batches] \<noteq> []" by simp
  obtain m where "batcher_size s = Inr m" "1 \<le> m"
    using binv_size [OF I] u n by (auto simp: num_host_empty_batches_def disk_io_batch_size_def)
  moreover obtain b s1 L1 E1 where d: "batcher_dequeue s = Inr (Some b, s1)" "binv s1 [b] [] L1 E1 []"
    using dequeue_ok [OF I disjI2 [OF L]] by blast
  ultimately have "bstep ?S (?S\<lparr>bt := s1, in_flight := b # in_flight ?S\<rparr>)" by (intro gpu_take) simp_all
  with R have R1: "breach \<lparr>bt = s1, in_flight = [b], in_writer = []\<rparr>" using breach.step by fastforce
  obtain s2 E2 D2 where e: "batcher_enqueue (Some b) s1 = Inr s2" "binv s2 [] [] L1 E2 D2"
    using enqueue_ok [OF d(2), of b "[]"] by auto
  have "bstep \<lparr>bt = s1, in_flight = [b], in_writer = []\<rparr> \<lparr>bt = s2, in_flight = [], in_writer = []\<rparr>"
    using gpu_return [of "\<lparr>bt = s1, in_flight = [b], in_writer = []\<rparr>" "[]" b "[]" s2] e(1) by simp
  with R1 have R2: "breach \<lparr>bt = s2, in_flight = [], in_writer = []\<rparr>" by (rule breach.step)
  have "idx_unbundle s1 = 1"
    using d(1) u by (auto simp: batcher_dequeue_def bind_result_Inr_iff disk_io_batch_size_def split: if_splits)
  then have "idx_unbundle s2 = 1"
    using e(1) by (auto simp: batcher_enqueue_def bind_result_Inr_iff batch_set_def Let_def vec_set_def vec_get_def
        split: if_splits option.splits prod.splits)
  with flush_reads_outside [OF R2] R2 show ?thesis by (auto simp: disk_io_batch_size_def)
qed

end
