(* ===== verification/Sched_Order.thy ===== *)
theory Sched_Order
  imports Planner "HOL-Library.Multiset"
begin

text \<open>
  How the scheduler of PC2 behaves when it is driven from outside, as
  \<open>pc2_t::hash_gpu\<close> does: work items are taken one at a time with
  \<open>scheduler_t::next\<close>, and between two calls the pool of buffers, which is shared by the
  schedulers of tree-C and tree-R, and the stored data may change.

  \<^item> \<open>pops\<close> is a sequence of such calls; \<open>order\<close> is the post-order of the
    nodes of a tree of arity 8, and the lemma \<open>pops_order\<close> shows that whatever the
    environment does to the pool, the scheduler hands out the nodes in this
    order.
  \<^item> \<open>held\<close> lists the buffers a scheduler holds as inputs of waiting
    items; \<open>pop_data\<close> shows what one call does to them, with the buffers
    of the environment as a frame.
\<close>

inductive pops :: "nat \<Rightarrow> 'd scheduler_t \<Rightarrow> work_item_t list \<Rightarrow> 'd scheduler_t \<Rightarrow> bool" for bits where
  pops_Nil: "pops bits s [] s"
| pops_Cons: "sched_next bits (\<lambda>_ x. x) True (s\<lparr>bufs := B, data := d\<rparr>) = (mo, Some w, s') \<Longrightarrow> buf w = Some b \<Longrightarrow>
    pops bits s' ws t \<Longrightarrow> pops bits s (w # ws) t"

inductive_cases pops_NilE: "pops bits s [] t"
inductive_cases pops_ConsE: "pops bits s (w # ws) t"

fun order :: "nat \<Rightarrow> nat \<Rightarrow> (nat \<times> nat) list" where
  "order 0 n = [(1, n)]"
| "order (Suc j) n = concat (map (\<lambda>q. order j (8 * n + q)) [0..<8]) @ [(j + 2, n)]"

lemma length_order [simp]: "length (order j n) = tree_steps j"
proof (induction j arbitrary: n)
  case (Suc j)
  have "length (concat (map (\<lambda>q. order j (8 * n + q)) [0..<8])) = 8 * tree_steps j"
    by (rule length_grid) (rule Suc.IH)
  then show ?case by simp
qed simp

lemma nth_order_Suc:
  assumes "i < 8" "r < tree_steps j"
  shows "order (Suc j) n ! (i * tree_steps j + r) = order j (8 * n + i) ! r"
proof -
  have "Suc i * tree_steps j \<le> 8 * tree_steps j" using assms(1) by (intro mult_le_mono1) simp
  then have lt: "i * tree_steps j + r < 8 * tree_steps j" using assms(2) unfolding mult_Suc by linarith
  have "length (concat (map (\<lambda>q. order j (8 * n + q)) [0..<8])) = 8 * tree_steps j"
    by (rule length_grid) simp
  with lt have "order (Suc j) n ! (i * tree_steps j + r) = concat (map (\<lambda>q. order j (8 * n + q)) [0..<8]) ! (i * tree_steps j + r)"
    by (simp only: order.simps nth_append if_True)
  also have "\<dots> = order j (8 * n + (i * tree_steps j + r) div tree_steps j) ! ((i * tree_steps j + r) mod tree_steps j)"
    by (rule nth_grid [OF _ lt]) simp
  also have "\<dots> = order j (8 * n + i) ! r" using assms(2) by simp
  finally show ?thesis .
qed

lemma nth_order_last: "order (Suc j) n ! (8 * tree_steps j) = (j + 2, n)"
proof -
  have "length (concat (map (\<lambda>q. order j (8 * n + q)) [0..<8])) = 8 * tree_steps j"
    by (rule length_grid) simp
  then show ?thesis by (simp only: order.simps nth_append) simp
qed

lemma pops_append: "pops bits s (us @ ws) t \<longleftrightarrow> (\<exists>u. pops bits s us u \<and> pops bits u ws t)"
proof
  show "pops bits s (us @ ws) t \<Longrightarrow> \<exists>u. pops bits s us u \<and> pops bits u ws t"
  proof (induction us arbitrary: s)
    case (Cons w us)
    from Cons.prems obtain B d mo s' b where
      st: "sched_next bits (\<lambda>_ x. x) True (s\<lparr>bufs := B, data := d\<rparr>) = (mo, Some w, s')" "buf w = Some b"
        "pops bits s' (us @ ws) t" by (auto elim: pops_ConsE)
    from Cons.IH [OF st(3)] obtain u where "pops bits s' us u" "pops bits u ws t" by blast
    with pops_Cons [OF st(1,2)] show ?case by blast
  qed (auto intro: pops_Nil)
  have "pops bits s us u \<Longrightarrow> pops bits u ws t \<Longrightarrow> pops bits s (us @ ws) t" for u
    by (induction rule: pops.induct) (auto intro: pops.intros)
  then show "\<exists>u. pops bits s us u \<and> pops bits u ws t \<Longrightarrow> pops bits s (us @ ws) t" by blast
qed


section \<open>The order of the work items\<close>

text \<open>
  \<open>node_ctl bits s l n w0 X bs m\<close>: the item on top of the stack is the node
  \<open>n\<close> of layer \<open>l\<close>, with its eight inputs, and exactly the
  results of its left siblings, in the buffers \<open>bs\<close>, are recorded for its parent.
\<close>

definition node_ctl :: "nat \<Rightarrow> 'd scheduler_t \<Rightarrow> nat \<Rightarrow> nat \<Rightarrow> work_item_t \<Rightarrow> work_item_t list \<Rightarrow> nat list \<Rightarrow>
    work_map_t \<Rightarrow> bool" where
  "node_ctl bits s l n w0 X bs m \<longleftrightarrow>
     bits \<le> 32 \<and> Suc l < 2 ^ 32 \<and> n < 2 ^ bits \<and> arity s = 8 \<and> stack s = w0 # X \<and>
     (l = 1 \<and> w0 = work_item (nid bits l n) True \<or> 1 < l \<and> (\<exists>xs. length xs = 8 \<and> w0 = pending (nid bits l n) xs)) \<and>
     nid bits (Suc l) (n div 8) \<notin> keys m \<and> length bs = n mod 8 \<and> wip s = wip_with (nid bits (Suc l) (n div 8)) bs m"

definition at_node :: "nat \<Rightarrow> 'd scheduler_t \<Rightarrow> nat \<times> nat \<Rightarrow> bool" where
  "at_node bits s p \<longleftrightarrow> (\<exists>w0 X bs m. node_ctl bits s (fst p) (snd p) w0 X bs m)"

lemma node_ctl_idx: "node_ctl bits s l n w0 X bs m \<Longrightarrow> wi_idx w0 = nid bits l n"
  by (auto simp: node_ctl_def work_item_def pending_def)

lemma pop_unfold:
  assumes "stack s = w0 # X" "sched_next bits cb True s = (mo, Some w, s')"
  shows "w = w0\<lparr>buf := fst (buffers_get (bufs s))\<rparr>"
    "s' = sched_record bits w (s\<lparr>stack := X,
        bufs := (if is_leaf w0 then snd (buffers_get (bufs s)) else fold buffers_put (inputs w0) (snd (buffers_get (bufs s)))),
        hash_count := hash_count s + 1\<rparr>)"
    "mo \<longleftrightarrow> stack s' \<noteq> []"
  using assms by (auto simp: sched_next_def Let_def split: prod.splits)

lemma pop_record:
  assumes "node_ctl bits s l n w0 X bs m" "sched_next bits cb True s = (mo, Some w, s')" "buf w = Some b"
  shows "s' = (let u = s\<lparr>stack := X,
        bufs := (if is_leaf w0 then snd (buffers_get (bufs s)) else fold buffers_put (inputs w0) (snd (buffers_get (bufs s)))),
        hash_count := hash_count s + 1\<rparr>;
        k = nid bits (Suc l) (n div 8)
      in if length bs = 7 then u\<lparr>stack := pending k (bs @ [b]) # X, wip := m\<rparr> else u\<lparr>wip := wip_with k (bs @ [b]) m\<rparr>)"
    "w = w0\<lparr>buf := Some b\<rparr>"
proof -
  let ?u = "s\<lparr>stack := X,
        bufs := (if is_leaf w0 then snd (buffers_get (bufs s)) else fold buffers_put (inputs w0) (snd (buffers_get (bufs s)))),
        hash_count := hash_count s + 1\<rparr>"
  have st: "stack s = w0 # X" using assms(1) by (simp add: node_ctl_def)
  note p = pop_unfold [OF st assms(2)]
  show w: "w = w0\<lparr>buf := Some b\<rparr>" using p(1) assms(3) by simp
  have "wi_idx w = nid bits l n" using w node_ctl_idx [OF assms(1)] by simp
  then have "sched_record bits w ?u =
    (if length bs = 7 then ?u\<lparr>stack := pending (nid bits (Suc l) (n div 8)) (bs @ [b]) # stack ?u, wip := m\<rparr>
     else ?u\<lparr>wip := wip_with (nid bits (Suc l) (n div 8)) (bs @ [b]) m\<rparr>)"
    using assms(1,3) by (intro sched_record_pending [of bits l n]) (simp_all add: node_ctl_def)
  with p(2) show "s' = (let u = ?u; k = nid bits (Suc l) (n div 8)
      in if length bs = 7 then u\<lparr>stack := pending k (bs @ [b]) # X, wip := m\<rparr> else u\<lparr>wip := wip_with k (bs @ [b]) m\<rparr>)"
    by (simp add: Let_def)
qed

definition ctl_ready :: "nat \<Rightarrow> nat \<Rightarrow> nat \<Rightarrow> 'd scheduler_t \<Rightarrow> work_item_t list \<Rightarrow> nat list \<Rightarrow> work_map_t \<Rightarrow> bool" where
  "ctl_ready bits j n s rest bs m \<longleftrightarrow>
     stack s = leaf_items bits (n * 8 ^ j) (Suc n * 8 ^ j) @ rest \<and> arity s = 8 \<and> low_free bits j (wip s) \<and>
     Suc n * 8 ^ j \<le> 2 ^ bits \<and> nid bits (j + 2) (n div 8) \<notin> keys m \<and> length bs = n mod 8 \<and>
     wip s = wip_with (nid bits (j + 2) (n div 8)) bs m"

definition recorded :: "nat \<Rightarrow> nat \<Rightarrow> nat \<Rightarrow> 'd scheduler_t \<Rightarrow> work_item_t list \<Rightarrow> nat list \<Rightarrow> work_map_t \<Rightarrow> bool" where
  "recorded bits j n t rest bs m \<longleftrightarrow>
     arity t = 8 \<and> (\<exists>b. if length bs = 7 then stack t = pending (nid bits (j + 2) (n div 8)) (bs @ [b]) # rest \<and> wip t = m
       else stack t = rest \<and> wip t = wip_with (nid bits (j + 2) (n div 8)) (bs @ [b]) m)"

lemma pop_recorded:
  assumes "node_ctl bits s (Suc j) n w0 X bs m" "pops bits s [w] t"
  shows "recorded bits j n t X bs m"
proof -
  from assms(2) obtain B d mo b where p: "sched_next bits (\<lambda>_ x. x) True (s\<lparr>bufs := B, data := d\<rparr>) = (mo, Some w, t)"
    "buf w = Some b" by (auto elim!: pops_ConsE pops_NilE)
  have "node_ctl bits (s\<lparr>bufs := B, data := d\<rparr>) (Suc j) n w0 X bs m" using assms(1) by (simp add: node_ctl_def)
  from pop_record(1) [OF this p] assms(1) show ?thesis by (auto simp: recorded_def node_ctl_def Let_def)
qed

definition subtree_order :: "nat \<Rightarrow> nat \<Rightarrow> 'd itself \<Rightarrow> bool" where
  "subtree_order bits j T \<longleftrightarrow>
     (\<forall>n (s :: 'd scheduler_t) rest bs m ws t. ctl_ready bits j n s rest bs m \<longrightarrow> pops bits s ws t \<longrightarrow>
        (length ws < tree_steps j \<longrightarrow> at_node bits t (order j n ! length ws) \<and> (\<exists>X. X \<noteq> [] \<and> stack t = X @ rest)) \<and>
        (length ws = tree_steps j \<longrightarrow> recorded bits j n t rest bs m))"

lemma subtree_orderD:
  assumes "subtree_order bits j TYPE('d)" "ctl_ready bits j n s rest bs m" "pops bits (s :: 'd scheduler_t) ws t"
  shows "length ws < tree_steps j \<Longrightarrow> at_node bits t (order j n ! length ws)"
    "length ws < tree_steps j \<Longrightarrow> \<exists>X. X \<noteq> [] \<and> stack t = X @ rest"
    "length ws = tree_steps j \<Longrightarrow> recorded bits j n t rest bs m"
  using assms unfolding subtree_order_def by blast+

lemma leaf_node:
  assumes "bits \<le> 32" "ctl_ready bits 0 n s rest bs m"
  shows "node_ctl bits s 1 n (work_item (nid bits 1 n) True) rest bs m"
  using assms by (simp add: ctl_ready_def node_ctl_def leaf_items_def flip: numeral_2_eq_2)

lemma subtree_order_0:
  assumes "bits \<le> 32"
  shows "subtree_order bits 0 TYPE('d)"
  unfolding subtree_order_def
proof (intro allI impI conjI)
  fix n and s :: "'d scheduler_t" and rest bs m ws t
  assume r: "ctl_ready bits 0 n s rest bs m" and p: "pops bits s ws t"
  note c = leaf_node [OF assms r]
  {
    assume "length ws < tree_steps 0"
    then have "t = s" using p by (auto elim: pops_NilE)
    with c have "at_node bits t (order 0 n ! length ws)" "stack t = work_item (nid bits 1 n) True # rest"
      using \<open>length ws < tree_steps 0\<close> by (auto simp: at_node_def node_ctl_def)
    then show "at_node bits t (order 0 n ! length ws)" "\<exists>X. X \<noteq> [] \<and> stack t = X @ rest" by auto
  }
  assume "length ws = tree_steps 0"
  then obtain w where "ws = [w]" by (cases ws) auto
  with pop_recorded [of bits s 0 n _ rest bs m w t] c p show "recorded bits 0 n t rest bs m" by simp
qed

lemma split_pops:
  assumes "pops bits s ws t" "a \<le> length ws"
  shows "\<exists>u. pops bits s (take a ws) u \<and> pops bits u (drop a ws) t"
  using assms pops_append [of bits s "take a ws" "drop a ws" t] by simp

definition sibling_ctl :: "nat \<Rightarrow> nat \<Rightarrow> nat \<Rightarrow> work_map_t \<Rightarrow> work_item_t list \<Rightarrow> nat \<Rightarrow> 'd scheduler_t \<Rightarrow> bool" where
  "sibling_ctl bits j n m rest i t \<longleftrightarrow>
     (\<exists>xs. ctl_ready bits j (8 * n + i) t (leaf_items bits (Suc (8 * n + i) * 8 ^ j) (Suc n * 8 ^ Suc j) @ rest) xs m)"

lemma sibling_ctlI:
  assumes "bits \<le> 32" "j + 2 < 2 ^ 32" "i < 8" "Suc n * 8 ^ Suc j \<le> 2 ^ bits" "low_free bits (Suc j) m" "arity t = 8"
    "stack t = leaf_items bits ((8 * n + i) * 8 ^ j) (Suc n * 8 ^ Suc j) @ rest" "length xs = i"
    "wip t = wip_with (nid bits (j + 2) n) xs m"
  shows "sibling_ctl bits j n m rest i t"
proof -
  note le = subtree_bound [OF assms(3), of n j]
  have nb: "n < 2 ^ bits" using node_bound [OF assms(4)] .
  have sp: "leaf_items bits ((8 * n + i) * 8 ^ j) (Suc n * 8 ^ Suc j) =
      leaf_items bits ((8 * n + i) * 8 ^ j) (Suc (8 * n + i) * 8 ^ j) @
      leaf_items bits (Suc (8 * n + i) * 8 ^ j) (Suc n * 8 ^ Suc j)"
    by (rule leaf_items_split) (use le in simp_all)
  have "low_free bits j (wip t)" using low_free_with [OF assms(1,5) nb assms(2)] assms(9) by simp
  moreover have "nid bits (j + 2) n \<notin> keys m" using assms(5) nb unfolding low_free_def by simp
  moreover have "Suc (8 * n + i) * 8 ^ j \<le> 2 ^ bits" using le assms(4) by (rule order.trans)
  moreover have "(8 * n + i) div 8 = n" "(8 * n + i) mod 8 = i" using assms(3) by simp_all
  ultimately show ?thesis
    unfolding sibling_ctl_def ctl_ready_def assms(7) sp using assms(6,8,9) by auto
qed

lemma ctl_readyD:
  assumes "ctl_ready bits j n s rest bs m"
  shows "low_free bits j (wip s)" "arity s = 8" "Suc n * 8 ^ j \<le> 2 ^ bits"
  using assms unfolding ctl_ready_def by blast+

lemma siblings_ctl:
  assumes IH: "subtree_order bits j TYPE('d)" and b: "bits \<le> 32" "j + 2 < 2 ^ 32"
    and r: "ctl_ready bits (Suc j) n (s :: 'd scheduler_t) rest bs m"
  shows "i < 8 \<Longrightarrow> pops bits s ws t \<Longrightarrow> length ws = i * tree_steps j \<Longrightarrow> sibling_ctl bits j n (wip s) rest i t"
proof (induction i arbitrary: ws t)
  case 0
  then have "t = s" by (auto elim: pops_NilE)
  moreover have "stack s = leaf_items bits ((8 * n + 0) * 8 ^ j) (Suc n * 8 ^ Suc j) @ rest"
    using r by (simp add: ctl_ready_def mult_ac)
  ultimately show ?case using b ctl_readyD [OF r] by (intro sibling_ctlI [where xs = "[]"]) (simp_all add: wip_with_def)
next
  case (Suc i)
  from split_pops [OF Suc.prems(2), of "i * tree_steps j"] Suc.prems(3)
  obtain u where u: "pops bits s (take (i * tree_steps j) ws) u" "pops bits u (drop (i * tree_steps j) ws) t" by auto
  have "sibling_ctl bits j n (wip s) rest i u" using Suc.prems by (intro Suc.IH [OF _ u(1)]) simp_all
  then obtain xs where xs: "ctl_ready bits j (8 * n + i) u
      (leaf_items bits (Suc (8 * n + i) * 8 ^ j) (Suc n * 8 ^ Suc j) @ rest) xs (wip s)" by (auto simp: sibling_ctl_def)
  have "recorded bits j (8 * n + i) t (leaf_items bits (Suc (8 * n + i) * 8 ^ j) (Suc n * 8 ^ Suc j) @ rest) xs (wip s)"
    using subtree_orderD(3) [OF IH xs u(2)] Suc.prems(3) by simp
  moreover have "length xs = i" "(8 * n + i) div 8 = n" using xs Suc.prems(1) by (simp_all add: ctl_ready_def)
  ultimately obtain b' where "arity t = 8" "wip t = wip_with (nid bits (j + 2) n) (xs @ [b']) (wip s)"
    "stack t = leaf_items bits ((8 * n + Suc i) * 8 ^ j) (Suc n * 8 ^ Suc j) @ rest"
    using Suc.prems(1) by (auto simp: recorded_def)
  with Suc.prems(1) ctl_readyD [OF r] b \<open>length xs = i\<close> show ?case
    by (intro sibling_ctlI [where xs = "xs @ [b']"]) simp_all
qed

lemma parent_node:
  assumes IH: "subtree_order bits j TYPE('d)" and b: "bits \<le> 32" "j + 3 < 2 ^ 32"
    and r: "ctl_ready bits (Suc j) n (s :: 'd scheduler_t) rest bs m"
    and p: "pops bits s ws t" "length ws = 8 * tree_steps j"
  shows "\<exists>w0. node_ctl bits t (j + 2) n w0 rest bs m"
proof -
  from split_pops [OF p(1), of "7 * tree_steps j"] p(2)
  obtain u where u: "pops bits s (take (7 * tree_steps j) ws) u" "pops bits u (drop (7 * tree_steps j) ws) t" by auto
  have "sibling_ctl bits j n (wip s) rest 7 u" using siblings_ctl [OF IH b(1) _ r _ u(1)] b(2) p(2) by simp
  then obtain xs where xs: "ctl_ready bits j (8 * n + 7) u
      (leaf_items bits (Suc (8 * n + 7) * 8 ^ j) (Suc n * 8 ^ Suc j) @ rest) xs (wip s)" by (auto simp: sibling_ctl_def)
  have e: "leaf_items bits (Suc (8 * n + 7) * 8 ^ j) (Suc n * 8 ^ Suc j) = []" by (simp add: leaf_items_def algebra_simps)
  have d: "(8 * n + 7) div 8 = n" "(8 * n + 7) mod 8 = 7" by simp_all
  have lx: "length xs = 7" using xs d by (simp add: ctl_ready_def)
  have "recorded bits j (8 * n + 7) t rest xs (wip s)"
    using subtree_orderD(3) [OF IH xs u(2)] p(2) e by simp
  then obtain b' where t: "arity t = 8" "stack t = pending (nid bits (j + 2) n) (xs @ [b']) # rest" "wip t = wip s"
    using lx d by (auto simp: recorded_def)
  have "n < 2 ^ bits" using r node_bound [of n "Suc j"] by (simp only: ctl_ready_def)
  with t lx r b show ?thesis
    by (intro exI [of _ "pending (nid bits (j + 2) n) (xs @ [b'])"])
      (auto simp: node_ctl_def ctl_ready_def intro!: exI [of _ "xs @ [b']"])
qed

lemma subtree_order_Suc:
  assumes IH: "subtree_order bits j TYPE('d)" and b: "bits \<le> 32" "j + 3 < 2 ^ 32"
  shows "subtree_order bits (Suc j) TYPE('d)"
  unfolding subtree_order_def
proof (intro allI impI)
  fix n and s :: "'d scheduler_t" and rest bs m ws t
  assume r: "ctl_ready bits (Suc j) n s rest bs m" and p: "pops bits s ws t"
  let ?T = "tree_steps j" and ?L = "length ws"
  have T: "0 < ?T" by (rule tree_steps_pos)
  have inner: "at_node bits t (order (Suc j) n ! ?L) \<and> (\<exists>X. X \<noteq> [] \<and> stack t = X @ rest)" if L: "?L < 8 * ?T"
  proof -
    let ?i = "?L div ?T" and ?r = "?L mod ?T"
    have i: "?i < 8" using L by (simp add: less_mult_imp_div_less)
    have le: "?i * ?T \<le> ?L" by simp
    have rr: "?r < ?T" using T by simp
    from split_pops [OF p le] obtain u where u: "pops bits s (take (?i * ?T) ws) u" "pops bits u (drop (?i * ?T) ws) t" by auto
    have "sibling_ctl bits j n (wip s) rest ?i u"
      using siblings_ctl [OF IH b(1) _ r i u(1)] b(2) by simp
    then obtain xs where xs: "ctl_ready bits j (8 * n + ?i) u
        (leaf_items bits (Suc (8 * n + ?i) * 8 ^ j) (Suc n * 8 ^ Suc j) @ rest) xs (wip s)" unfolding sibling_ctl_def by blast
    have lr: "length (drop (?i * ?T) ws) = ?r" by (simp add: minus_div_mult_eq_mod)
    note c = subtree_orderD [OF IH xs u(2), unfolded lr]
    have "order (Suc j) n ! ?L = order j (8 * n + ?i) ! ?r" using nth_order_Suc [OF i rr, of n] by simp
    with c(1,2) [OF rr] show ?thesis by auto
  qed
  have last: "\<exists>w0. node_ctl bits t (j + 2) n w0 rest bs m" if "?L = 8 * ?T"
    using parent_node [OF IH b r p that] .
  have fin: "recorded bits (Suc j) n t rest bs m" if "?L = tree_steps (Suc j)"
  proof -
    from split_pops [OF p, of "8 * ?T"] that obtain u where
      u: "pops bits s (take (8 * ?T) ws) u" "pops bits u (drop (8 * ?T) ws) t" by auto
    from parent_node [OF IH b r u(1)] that obtain w0 where w0: "node_ctl bits u (j + 2) n w0 rest bs m" by auto
    have "length (drop (8 * ?T) ws) = 1" using that by simp
    then obtain w where "drop (8 * ?T) ws = [w]" by (cases "drop (8 * ?T) ws") auto
    with pop_recorded [of bits u "Suc j" n w0 rest bs m w t] w0 u(2) show ?thesis by simp
  qed
  show "(?L < tree_steps (Suc j) \<longrightarrow> at_node bits t (order (Suc j) n ! ?L) \<and> (\<exists>X. X \<noteq> [] \<and> stack t = X @ rest)) \<and>
      (?L = tree_steps (Suc j) \<longrightarrow> recorded bits (Suc j) n t rest bs m)"
  proof (intro conjI impI)
    assume "?L < tree_steps (Suc j)"
    then consider "?L < 8 * ?T" | "?L = 8 * ?T" by fastforce
    then have "at_node bits t (order (Suc j) n ! ?L) \<and> (\<exists>X. X \<noteq> [] \<and> stack t = X @ rest)"
    proof cases
      case 2
      from last [OF 2] obtain w0 where w0: "node_ctl bits t (j + 2) n w0 rest bs m" by blast
      moreover have "order (Suc j) n ! ?L = (j + 2, n)" using 2 nth_order_last by simp
      moreover have "stack t = [w0] @ rest" using w0 by (simp add: node_ctl_def)
      ultimately show ?thesis by (auto simp: at_node_def)
    qed (rule inner)
    then show "at_node bits t (order (Suc j) n ! ?L)" "\<exists>X. X \<noteq> [] \<and> stack t = X @ rest" by blast+
  qed (rule fin)
qed

lemma subtree_order_all:
  assumes "bits \<le> 32"
  shows "j + 2 < 2 ^ 32 \<Longrightarrow> subtree_order bits j TYPE('d)"
proof (induction j)
  case 0
  show ?case by (rule subtree_order_0 [OF assms])
next
  case (Suc j)
  then show ?case using assms by (intro subtree_order_Suc) simp_all
qed

text \<open>
  From a fresh scheduler over \<open>8 ^ k\<close> bottom nodes, the items come in the order
  of \<open>order k 0\<close>; the last one leaves the stack empty.
\<close>

lemma fresh_ctl:
  assumes "8 ^ k \<le> (2 :: nat) ^ bits"
  shows "ctl_ready bits k 0 (sched_new bits (8 ^ k) 8 bs d) [] [] []"
  using assms sched_reset_stack [of "8 ^ k" bits]
  by (simp add: ctl_ready_def sched_new_def sched_reset_def low_free_def wip_with_def)

lemma tree_depth:
  assumes "bits \<le> 32" "8 ^ k \<le> (2 :: nat) ^ bits"
  shows "k \<le> 10"
proof -
  have "(2 :: nat) ^ (3 * k) \<le> 2 ^ bits" using assms(2) by (simp add: power_mult)
  then have "3 * k \<le> bits" by (simp add: power_le_imp_le_exp)
  with assms(1) show ?thesis by simp
qed

lemma pops_order:
  assumes "bits \<le> 32" "8 ^ k \<le> (2 :: nat) ^ bits" "pops bits (sched_new bits (8 ^ k) 8 bs (d :: 'd)) ws t"
  shows "length ws < tree_steps k \<Longrightarrow> at_node bits t (order k 0 ! length ws) \<and> stack t \<noteq> []"
    "length ws = tree_steps k \<Longrightarrow> stack t = [] \<and> (\<exists>b. wip t = [(nid bits (k + 2) 0, pending (nid bits (k + 2) 0) [b])])"
proof -
  have "subtree_order bits k TYPE('d)" using tree_depth [OF assms(1,2)] by (intro subtree_order_all [OF assms(1)]) simp
  note c = subtree_orderD [OF this fresh_ctl [OF assms(2)] assms(3)]
  show "length ws < tree_steps k \<Longrightarrow> at_node bits t (order k 0 ! length ws) \<and> stack t \<noteq> []"
    using c(1,2) by auto
  show "length ws = tree_steps k \<Longrightarrow> stack t = [] \<and> (\<exists>b. wip t = [(nid bits (k + 2) 0, pending (nid bits (k + 2) 0) [b])])"
    using c(3) by (auto simp: recorded_def wip_with_def)
qed


section \<open>The buffers of the waiting items\<close>

definition live_inputs :: "work_item_t \<Rightarrow> nat list" where
  "live_inputs w = map the (filter (\<lambda>p. p \<noteq> nullptr) (inputs w))"

definition wip_held :: "work_map_t \<Rightarrow> nat list" where
  "wip_held m = concat (map (live_inputs \<circ> snd) m)"

definition held :: "'d scheduler_t \<Rightarrow> nat list" where
  "held s = concat (map live_inputs (stack s)) @ wip_held (wip s)"

definition item_vals :: "(node_id_t \<Rightarrow> nat \<Rightarrow> 'v) \<Rightarrow> (nat \<Rightarrow> 'v) \<Rightarrow> work_item_t \<Rightarrow> bool" where
  "item_vals V mem w \<longleftrightarrow> (\<forall>q < 8. \<forall>b. inputs w ! q = Some b \<longrightarrow> mem b = V (wi_idx w) q)"

definition vals_ok :: "(node_id_t \<Rightarrow> nat \<Rightarrow> 'v) \<Rightarrow> (nat \<Rightarrow> 'v) \<Rightarrow> 'd scheduler_t \<Rightarrow> bool" where
  "vals_ok V mem s \<longleftrightarrow> (\<forall>w \<in> set (stack s) \<union> snd ` set (wip s). item_vals V mem w)"

lemma filter_Some: "filter (\<lambda>p. p \<noteq> nullptr) (map Some xs) = map Some xs"
  by (induction xs) simp_all

lemma live_pending [simp]: "live_inputs (pending k xs) = xs"
  by (simp add: live_inputs_def pending_def filter_Some comp_def)

lemma live_leaf [simp]: "live_inputs (work_item k leaf) = []"
  by (simp add: live_inputs_def work_item_def)

lemma wip_held_emplace: "mset (wip_held (wip_emplace k v m)) = mset (live_inputs v) + mset (wip_held m)"
  by (induction k v m rule: wip_emplace.induct) (auto simp: wip_held_def)

lemma wip_held_with [simp]: "mset (wip_held (wip_with k bs m)) = mset bs + mset (wip_held m)"
  by (simp add: wip_with_def wip_held_emplace)

lemma set_wip_with: "snd ` set (wip_with k bs m) = (if bs = [] then {} else {pending k bs}) \<union> snd ` set m"
proof -
  have "set (wip_emplace k v m) = insert (k, v) (set m)" for v
    by (induction k v m rule: wip_emplace.induct) (simp_all add: insert_commute)
  then show ?thesis by (auto simp: wip_with_def)
qed

lemma item_vals_pending:
  assumes "length bs \<le> 8"
  shows "item_vals V mem (pending k bs) \<longleftrightarrow> (\<forall>q < length bs. mem (bs ! q) = V k q)"
  using assms by (auto simp: item_vals_def pending_def nth_append split: if_splits)

lemma item_vals_leaf: "item_vals V mem (work_item k leaf)"
  by (simp add: item_vals_def work_item_def arity8)

lemma node_ctl_held:
  assumes "node_ctl bits s l n w0 X bs m"
  shows "mset (held s) = mset (live_inputs w0) + mset (concat (map live_inputs X)) + mset bs + mset (wip_held m)"
  using assms by (auto simp: node_ctl_def held_def)

lemma pop_held:
  assumes "node_ctl bits s l n w0 X bs m" "sched_next bits cb True s = (mo, Some w, s')" "buf w = Some b"
  shows "mset (held s') = mset (concat (map live_inputs X)) + mset (bs @ [b]) + mset (wip_held m)"
  using pop_record(1) [OF assms] by (auto simp: held_def Let_def)

lemma item_vals_keep:
  assumes "item_vals V mem w" "length (inputs w) = 8" "\<forall>x \<in> set (live_inputs w). mem' x = mem x"
  shows "item_vals V mem' w"
  unfolding item_vals_def
proof (intro allI impI)
  fix q b
  assume q: "q < 8" "inputs w ! q = Some b"
  then have "b \<in> set (live_inputs w)"
    using assms(2) nth_mem [of q "inputs w"] by (auto simp: live_inputs_def image_iff intro!: bexI [of _ "Some b"])
  with assms q show "mem' b = V (wi_idx w) q" by (simp add: item_vals_def)
qed

definition inputs8 :: "'d scheduler_t \<Rightarrow> bool" where
  "inputs8 s \<longleftrightarrow> (\<forall>w \<in> set (stack s) \<union> snd ` set (wip s). length (inputs w) = 8)"

lemma pop_inputs8:
  assumes "node_ctl bits s l n w0 X bs m" "sched_next bits cb True s = (mo, Some w, s')" "buf w = Some b" "inputs8 s"
  shows "inputs8 s'"
proof -
  have "length (inputs (pending k (bs @ [b]))) = 8" for k
    using assms(1) by (simp add: node_ctl_def pending_def)
  moreover have "\<forall>w \<in> set X \<union> snd ` set m. length (inputs w) = 8"
    using assms(1,4) by (auto simp: inputs8_def node_ctl_def set_wip_with)
  ultimately show ?thesis
    using pop_record(1) [OF assms(1-3)] by (auto simp: inputs8_def set_wip_with Let_def)
qed

lemma pop_vals:
  assumes c: "node_ctl bits s l n w0 X bs m" and p: "sched_next bits cb True s = (mo, Some w, s')" "buf w = Some b"
    and s: "inputs8 s" "vals_ok V mem s"
    and m': "mem' b = V (nid bits (Suc l) (n div 8)) (n mod 8)" "\<forall>x \<in> set (held s'). x \<noteq> b \<longrightarrow> mem' x = mem x"
    and fresh: "b \<notin> set (held s)"
  shows "vals_ok V mem' s'"
proof -
  let ?k = "nid bits (Suc l) (n div 8)"
  have hs: "set (held s') = set (concat (map live_inputs X)) \<union> set bs \<union> {b} \<union> set (wip_held m)"
    using arg_cong [OF pop_held [OF c p], of set_mset] by auto
  have h0: "set (held s) = set (live_inputs w0) \<union> set (concat (map live_inputs X)) \<union> set bs \<union> set (wip_held m)"
    using arg_cong [OF node_ctl_held [OF c], of set_mset] by simp
  have old: "item_vals V mem' v" if "v \<in> set X \<union> snd ` set m" for v
  proof (rule item_vals_keep)
    show "item_vals V mem v" "length (inputs v) = 8"
      using that s c by (auto simp: vals_ok_def inputs8_def node_ctl_def set_wip_with)
    have "set (live_inputs v) \<subseteq> set (held s') \<inter> set (held s)"
      using that unfolding hs h0 by (force simp: wip_held_def)
    with m'(2) fresh show "\<forall>x \<in> set (live_inputs v). mem' x = mem x" by (metis Int_iff subset_iff)
  qed
  have "item_vals V mem' (pending ?k (bs @ [b]))"
  proof -
    have len: "length (bs @ [b]) \<le> 8" "length bs = n mod 8" using c by (simp_all add: node_ctl_def)
    have "mem (bs ! q) = V ?k q" if "q < length bs" for q
    proof -
      have "bs \<noteq> []" using that by auto
      then have "item_vals V mem (pending ?k bs)" using s(2) c by (auto simp: vals_ok_def node_ctl_def set_wip_with)
      then show ?thesis using item_vals_pending [of bs V mem ?k] len that by simp
    qed
    moreover have "mem' (bs ! q) = mem (bs ! q)" if "q < length bs" for q
    proof -
      have "bs ! q \<in> set (held s')" "bs ! q \<in> set (held s)" using nth_mem [OF that] h0 hs by auto
      then show ?thesis using m'(2) fresh by metis
    qed
    ultimately have "mem' ((bs @ [b]) ! q) = V ?k q" if "q < length (bs @ [b])" for q
      using that m'(1) len by (cases "q < length bs") (auto simp: nth_append less_Suc_eq)
    then show ?thesis using item_vals_pending [OF len(1)] by blast
  qed
  with old show ?thesis
    using pop_record(1) [OF c p] by (auto simp: vals_ok_def set_wip_with Let_def)
qed

lemma pop_pool:
  assumes c: "node_ctl bits s l n w0 X bs m" and p: "sched_next bits cb True s = (mo, Some w, s')"
    and pl: "pool_ok (bufs s) (set (held s) \<union> F)" "distinct (held s)" "set (held s) \<inter> F = {}"
  shows "\<exists>b. buf w = Some b \<and> b \<notin> set (held s) \<union> F \<and> pool_ok (bufs s') (set (held s') \<union> F) \<and> distinct (held s') \<and>
    set (held s') \<inter> F = {}"
proof -
  have st: "stack s = w0 # X" using c by (simp add: node_ctl_def)
  from pool_get [OF pl(1)] obtain b bs1 where g: "buffers_get (bufs s) = (Some b, bs1)" "b \<notin> set (held s) \<union> F"
    "pool_ok bs1 (insert b (set (held s) \<union> F))" by blast
  have w: "buf w = Some b" using pop_unfold(1) [OF st p] g(1) by simp
  have h': "mset (held s') = mset (concat (map live_inputs X)) + mset bs + {#b#} + mset (wip_held m)"
    using pop_held [OF c p w] by simp
  note h = node_ctl_held [OF c]
  have "mset (held s') + mset (live_inputs w0) = mset (b # held s)" using h h' by simp
  then have mm: "mset (held s' @ live_inputs w0) = mset (b # held s)" by simp
  have ds: "distinct (held s' @ live_inputs w0)" using mset_eq_imp_distinct_iff [OF mm] pl(2) g(2) by simp
  have ss: "set (held s') \<union> set (live_inputs w0) = insert b (set (held s))" using mset_eq_setD [OF mm] by auto
  have bf: "bufs s' = fold buffers_put (map Some (live_inputs w0)) bs1"
  proof -
    have "is_leaf w0 \<and> live_inputs w0 = [] \<or> \<not> is_leaf w0 \<and> inputs w0 = map Some (live_inputs w0)"
      using c by (auto simp: node_ctl_def work_item_def live_inputs_def pending_def filter_Some comp_def)
    then show ?thesis using pop_record(1) [OF c p w] g(1) by (auto simp: Let_def)
  qed
  have "pool_ok (bufs s') (set (held s') \<union> F)" unfolding bf
    using g(3) ss ds pl(3) g(2) by (intro pool_put) (auto simp: Un_ac intro: back_subst [of "pool_ok bs1"])
  moreover have "set (held s') \<inter> F = {}" using ss pl(3) g(2) by auto
  ultimately show ?thesis using w g(2) ds by auto
qed

end
