(* ===== verification/PC2_Files.thy ===== *)
theory PC2_Files
  imports Planner Files Tree_Builder_MT Poseidon
begin

text \<open>
  Where PC2 puts its results: \<open>tree_address_t\<close> of \<open>src/pc2/cuda/pc2.cuh\<close>
  (the position of a tree node in a tree file), \<open>file_writer_t\<close> of
  \<open>src/pc2/cuda/file_writer_t.hpp\<close>, the write requests \<open>buf_to_disk_t\<close>, and
  the body of the disk writer, \<open>pc2_t::process_writes\<close>.

  An element of a file is one field element (\<open>fr_t\<close>, 32 bytes).  A write
  request points into its block of data with one index per sector.
\<close>

definition fr_size :: nat where
  "fr_size = 32"


section \<open>Positions in a tree file\<close>

record tree_address_t =
  ta_node_size :: nat
  layer_offsets :: "nat list"

function ta_layers :: "nat \<Rightarrow> nat \<Rightarrow> nat \<Rightarrow> nat list" where
  "ta_layers node_count node_size offset =
     (if 1 < node_count
      then offset # ta_layers (node_count div GetNumTreeRCArity) node_size (offset + node_count * node_size)
      else [offset])"
  by pat_completeness auto

termination
  by (relation "measure fst") (simp_all add: arity8)

declare ta_layers.simps [simp del]

definition tree_address_new :: "nat \<Rightarrow> nat \<Rightarrow> nat \<Rightarrow> tree_address_t" where
  "tree_address_new node_count node_size layer_skips =
     \<lparr>ta_node_size = node_size,
      layer_offsets = ta_layers (iterate layer_skips (\<lambda>c. c div GetNumTreeRCArity) node_count) node_size 0\<rparr>"

definition ta_address :: "nat \<Rightarrow> tree_address_t \<Rightarrow> node_id_t \<Rightarrow> nat result" where
  "ta_address bits ta node =
     bind_result (vec_get (layer_offsets ta) (unat (node_id_layer bits node)))
       (\<lambda>base. Inr (base + unat (node_id_node bits node) * ta_node_size ta))"

definition ta_data_size :: "tree_address_t \<Rightarrow> nat" where
  "ta_data_size ta = last (layer_offsets ta) + ta_node_size ta"


section \<open>The disk writer\<close>

record file_writer_t =
  fw_file :: file_t
  fw_mmap :: mmap_t
  use_mmap :: bool

definition file_writer_new :: file_writer_t where
  "file_writer_new = \<lparr>fw_file = file_new, fw_mmap = mmap_new, use_mmap = False\<rparr>"

definition fw_open :: "os \<Rightarrow> 'f \<Rightarrow> string \<Rightarrow> nat \<Rightarrow> bool \<Rightarrow> bool \<Rightarrow> file_writer_t \<Rightarrow> 'f fs \<Rightarrow> int \<times> file_writer_t \<times> 'f fs" where
  "fw_open os zero fname sz remove_first um w fs =
     (if um then
        (case mmap_write os zero fr_size fname sz remove_first (fw_mmap w) fs of
           (r, m, fs') \<Rightarrow> (r, w\<lparr>fw_mmap := m, use_mmap := um\<rparr>, fs'))
      else
        (case file_write os zero fr_size fname sz remove_first (fw_file w) fs of
           (r, t, fs') \<Rightarrow> (r, w\<lparr>fw_file := t, use_mmap := um\<rparr>, fs')))"

definition fw_write_data :: "os \<Rightarrow> 'f \<Rightarrow> file_writer_t \<Rightarrow> nat \<Rightarrow> 'f list \<Rightarrow> 'f fs \<Rightarrow> 'f fs result" where
  "fw_write_data os zero w off xs fs =
     (if use_mmap w then mmap_write_data fr_size (fw_mmap w) off xs fs
      else file_write_data os zero (fw_file w) off xs fs)"

record 'f buf_to_disk_t =
  bd_data :: "'f list"
  bd_dst :: "file_writer_t list"
  bd_offset :: nat
  bd_src :: "nat ptr list"
  bd_size :: nat
  bd_stride :: nat
  bd_reverse :: bool

definition write_packed :: "os \<Rightarrow> 'f \<Rightarrow> 'f buf_to_disk_t \<Rightarrow> nat \<Rightarrow> 'f fs \<Rightarrow> 'f fs result" where
  "write_packed os zero td i fs =
     bind_result (vec_get (bd_src td) i) (\<lambda>p.
     case p of
       None \<Rightarrow> Inr fs
     | Some k \<Rightarrow>
         bind_result (vec_get (bd_dst td) i) (\<lambda>w.
         bind_result (get_block (bd_data td) k (bd_size td)) (\<lambda>xs.
         fw_write_data os zero w (bd_offset td) xs fs)))"

definition stage :: "('f \<Rightarrow> 'f) \<Rightarrow> nat \<Rightarrow> 'f buf_to_disk_t \<Rightarrow> nat \<Rightarrow> 'f list result" where
  "stage reverse_l max_write_size td k =
     map_result (\<lambda>j.
       bind_result (vec_get (bd_data td) (k + j * bd_stride td)) (\<lambda>x.
       if j < max_write_size then Inr (if bd_reverse td then reverse_l x else x) else Inl OutOfBounds)) [0..<bd_size td]"

definition write_strided :: "os \<Rightarrow> 'f \<Rightarrow> ('f \<Rightarrow> 'f) \<Rightarrow> nat \<Rightarrow> 'f buf_to_disk_t \<Rightarrow> nat \<Rightarrow> 'f fs \<Rightarrow> 'f fs result" where
  "write_strided os zero reverse_l max_write_size td i fs =
     bind_result (vec_get (bd_src td) i) (\<lambda>p.
     case p of
       None \<Rightarrow> Inr fs
     | Some k \<Rightarrow>
         bind_result (stage reverse_l max_write_size td k) (\<lambda>staging.
         bind_result (vec_get (bd_dst td) i) (\<lambda>w.
         fw_write_data os zero w (bd_offset td) staging fs)))"

definition write_buf :: "os \<Rightarrow> 'f \<Rightarrow> ('f \<Rightarrow> 'f) \<Rightarrow> nat \<Rightarrow> nat \<Rightarrow> 'f buf_to_disk_t ptr \<Rightarrow> 'f fs \<Rightarrow> 'f fs result" where
  "write_buf os zero reverse_l sectors max_write_size p fs =
     (case p of
        None \<Rightarrow> Inr fs
      | Some td \<Rightarrow>
          if bd_size td = 0 then Inr fs
          else if bd_stride td = 1 then fold_result (write_packed os zero td) [0..<sectors] fs
          else
            bind_result (assert_that (max_write_size \<le> bd_size td)) (\<lambda>_.
            fold_result (write_strided os zero reverse_l max_write_size td) [0..<sectors] fs))"

definition process_batch :: "os \<Rightarrow> 'f \<Rightarrow> ('f \<Rightarrow> 'f) \<Rightarrow> nat \<Rightarrow> nat \<Rightarrow> 'f buf_to_disk_t ptr list \<Rightarrow> 'f fs \<Rightarrow> 'f fs result" where
  "process_batch os zero reverse_l sectors max_write_size =
     fold_result (write_buf os zero reverse_l sectors max_write_size)"


section \<open>The address of a node\<close>

text \<open>
  \<open>row_start K l\<close> is the number of nodes in the rows below row \<open>l\<close> of
  a tree with \<open>8 ^ K\<close> nodes in row 0.
\<close>

definition row_start :: "nat \<Rightarrow> nat \<Rightarrow> nat" where
  "row_start K l = (\<Sum>i<l. 8 ^ (K - i))"

lemma row_start_0 [simp]: "row_start K 0 = 0"
  by (simp add: row_start_def)

lemma row_start_Suc: "row_start K (Suc l) = row_start K l + 8 ^ (K - l)"
  by (simp add: row_start_def)

lemma row_start_shift: "row_start (Suc K) (Suc l) = 8 ^ Suc K + row_start K l"
  unfolding row_start_def sum.lessThan_Suc_shift by simp

lemma ta_layers_power:
  "ta_layers (8 ^ K) sz off = map (\<lambda>l. off + row_start K l * sz) [0..<Suc K]"
proof (induction K arbitrary: off)
  case (Suc K)
  have "(8 :: nat) ^ Suc K div 8 = 8 ^ K" "(1 :: nat) < 8 ^ Suc K" using one_less_power [of "8 :: nat" "Suc K"] by simp_all
  then have "ta_layers (8 ^ Suc K) sz off = off # ta_layers (8 ^ K) sz (off + 8 ^ Suc K * sz)"
    by (subst ta_layers.simps) (simp add: arity8)
  also have "\<dots> = off # map (\<lambda>l. off + row_start (Suc K) (Suc l) * sz) [0..<Suc K]"
    using Suc.IH by (simp add: row_start_shift algebra_simps del: upt_Suc)
  also have "\<dots> = map (\<lambda>l. off + row_start (Suc K) l * sz) [0..<Suc (Suc K)]"
    by (simp only: map_upt_Suc) simp
  finally show ?case .
qed (simp add: ta_layers.simps)

lemma skip_layers: "d \<le> K \<Longrightarrow> iterate d (\<lambda>c. c div GetNumTreeRCArity) (8 ^ K) = 8 ^ (K - d)"
proof (induction d arbitrary: K)
  case (Suc d)
  then obtain K' where K: "K = Suc K'" "d \<le> K'" by (cases K) auto
  then show ?case using Suc.IH [of K'] by (simp add: arity8)
qed simp

lemma address_layers:
  assumes "d \<le> K"
  shows "layer_offsets (tree_address_new (8 ^ K) sz d) = map (\<lambda>l. row_start (K - d) l * sz) [0..<Suc (K - d)]"
  using ta_layers_power [of "K - d" sz 0] skip_layers [OF assms] by (simp add: tree_address_new_def del: upt_Suc)

lemma ta_address_row:
  assumes "d \<le> K" "l \<le> K - d" "bits \<le> 32" "n < 2 ^ bits" "K \<le> 32"
  shows "ta_address bits (tree_address_new (8 ^ K) sz d) (nid bits l n) = Inr ((row_start (K - d) l + n) * sz)"
proof -
  have "(2 :: nat) ^ bits \<le> 2 ^ 32" using assms(3) by (intro power_increasing) simp_all
  with assms(4) have "n < 2 ^ 32" by linarith
  moreover have "l < 2 ^ 32" using assms(2,5) by simp
  ultimately have u: "unat (node_id_layer bits (nid bits l n)) = l" "unat (node_id_node bits (nid bits l n)) = n"
    using assms by (simp_all add: nid_layer nid_node unat_of_nat32)
  have "vec_get (layer_offsets (tree_address_new (8 ^ K) sz d)) l = Inr (row_start (K - d) l * sz)"
    using assms(2) unfolding address_layers [OF assms(1)] by (simp del: upt_Suc)
  moreover have "ta_node_size (tree_address_new (8 ^ K) sz d) = sz" by (simp add: tree_address_new_def)
  ultimately show ?thesis by (simp add: ta_address_def u add_mult_distrib)
qed

lemma ta_data_size_rows:
  assumes "d \<le> K"
  shows "ta_data_size (tree_address_new (8 ^ K) sz d) = row_start (K - d) (Suc (K - d)) * sz"
proof -
  have "ta_node_size (tree_address_new (8 ^ K) sz d) = sz" by (simp add: tree_address_new_def)
  then show ?thesis by (simp add: ta_data_size_def address_layers [OF assms] row_start_Suc add_mult_distrib)
qed

end
