(* ===== verification/PC2_Gpu.thy ===== *)
theory PC2_Gpu
  imports Sched_Order PC2_Files Poseidon
begin

text \<open>
  The GPU part of PC2: the constructor of \<open>pc2_t\<close> and the state machine of a
  GPU stream in \<open>pc2_t::hash_gpu\<close> (\<open>src/pc2/cuda/pc2.cu\<close>).

  One resource (a stream) is a record \<open>gpu_resource_t\<close>: its state, the two
  schedulers with their shared pool of device buffers, the two current work
  items, the layer data, the replica data and the device buffers.  A device
  buffer is the list of the elements that have been written to it; reading
  beyond them is \<open>OutOfBounds\<close>.  Operations on a CUDA stream run in the order in
  which they are issued and take effect at once in the model; the host sees a
  result only after the callback \<open>cuda_callback\<close>, which passes the buffers
  of the step to the disk batcher and sets \<open>async_done\<close>.  The data of the
  requests in \<open>written\<close> have been handed to the batcher.

  \<open>resource_step\<close> is one turn of the loop of \<open>hash_gpu\<close> for the
  resource.  What the turn reads from its surroundings is an argument: the number of
  buffers of the batcher (\<open>avail\<close>), whether the reader has delivered all
  pages (\<open>loaded\<close>) and whether the lock of the result buffers is free
  (\<open>lock\<close>).

  The record \<open>env\<close> holds what the code takes from elsewhere: the field
  library, the layers as the node reader delivers them and the data files.
  The kernel's \<open>bswap\<close> and \<open>node_t::reverse_l\<close> are the same function, the
  reversal of the bytes of every 32-bit limb.
\<close>

datatype ResourceState =
  IDLE | DATA_READ | DATA_WAIT | HASH_COLUMN | HASH_COLUMN_WRITE | HASH_COLUMN_LEAVES | HASH_LEAF | HASH_WAIT | DONE

record 'f env =
  e_dot :: "'f list \<Rightarrow> 'f list \<Rightarrow> 'f"
  e_to :: "'f \<Rightarrow> 'f"
  e_from :: "'f \<Rightarrow> 'f"
  e_bswap :: "'f \<Rightarrow> 'f"
  e_add :: "'f \<Rightarrow> 'f \<Rightarrow> 'f"
  e_columns :: "'f Poseidon"
  e_trees :: "'f Poseidon"
  e_layer :: "nat \<Rightarrow> nat \<Rightarrow> nat \<Rightarrow> 'f"
  e_big_endian :: bool
  e_data :: "nat \<Rightarrow> 'f list option"

record pc2_t =
  p_size :: nat
  p_bits :: nat
  sectors :: nat
  tree_r_only :: bool
  nodes_to_read :: nat
  batch_size :: nat
  stream_count :: nat
  nodes_per_stream :: nat
  tree_c_address :: tree_address_t
  tree_r_address :: tree_address_t
  final_gpu_offset_c :: nat
  final_gpu_offset_r :: nat
  layer_offsets_c :: "nat list"
  layer_offsets_r :: "nat list"
  tree_c_files :: "file_writer_t list list"
  tree_r_files :: "file_writer_t list list"
  sealed_files :: "file_writer_t list"
  has_non_cc_sectors :: bool

function offset_table :: "nat \<Rightarrow> nat list" where
  "offset_table lo = (if GetNumTreeRCArity \<le> lo then lo # offset_table (lo div GetNumTreeRCArity) else [])"
  by pat_completeness auto

termination
  by (relation "measure id") (simp_all add: arity8)

declare offset_table.simps [simp del]

definition pc2_new :: "nat \<Rightarrow> nat \<Rightarrow> bool \<Rightarrow> nat \<Rightarrow> nat \<Rightarrow> nat \<Rightarrow> file_writer_t list list \<Rightarrow> file_writer_t list list \<Rightarrow>
    file_writer_t list \<Rightarrow> bool \<Rightarrow> pc2_t result" where
  "pc2_new sz S tro ntr batch streams cfiles rfiles sfiles non_cc =
     (if streams = 0 then Inl DivByZero
      else
        bind_result (assert_that (ntr mod streams = 0)) (\<lambda>_.
        let a = GetNumTreeRCArity;
            file_nodes = GetNumNodes sz div GetNumTreeRCFiles sz;
            tca = tree_address_new file_nodes NODE_SIZE 0;
            tra = tree_address_new file_nodes NODE_SIZE (GetNumTreeRDiscardRows sz + 1);
            cpu_nodes_to_hash = batch * streams div a div a;
            final_tree = tree_address_new cpu_nodes_to_hash fr_size 0;
            nps = ntr div streams
        in Inr \<lparr>p_size = sz, p_bits = GetNodeBits sz, sectors = S, tree_r_only = tro, nodes_to_read = ntr, batch_size = batch,
             stream_count = streams, nodes_per_stream = nps, tree_c_address = tca, tree_r_address = tra,
             final_gpu_offset_c = size_sub (ta_data_size tca) (ta_data_size final_tree),
             final_gpu_offset_r = size_sub (ta_data_size tra) (ta_data_size final_tree),
             layer_offsets_c = offset_table nps,
             layer_offsets_r = offset_table (iterate (GetNumTreeRDiscardRows sz + 1) (\<lambda>x. x div a) nps),
             tree_c_files = cfiles, tree_r_files = rfiles, sealed_files = sfiles, has_non_cc_sectors = non_cc\<rparr>))"

record 'f gpu_resource_t =
  r_id :: nat
  r_state :: ResourceState
  r_last :: bool
  async_done :: bool
  scheduler_c :: "unit scheduler_t"
  scheduler_r :: "unit scheduler_t"
  work_c :: work_item_t
  work_r :: work_item_t
  start_node :: nat
  column_data :: "'f list"
  column_data_d :: "'f list"
  replica_data :: "'f list"
  dev :: "nat \<Rightarrow> 'f list"
  pend :: "'f buf_to_disk_t list"
  written :: "'f buf_to_disk_t list"
  result_c :: "'f list"
  result_r :: "'f list"

definition resource_new :: "pc2_t \<Rightarrow> 'f \<Rightarrow> nat \<Rightarrow> 'f gpu_resource_t" where
  "resource_new c junk i =
     (let n = nodes_per_stream c div batch_size c;
          bs = buffers_new (batch_size c * sectors c);
          s = sched_new (p_bits c) n GetNumTreeRCArity bs ()
      in \<lparr>r_id = i, r_state = IDLE, r_last = False, async_done = True, scheduler_c = s, scheduler_r = s,
           work_c = work_item_new, work_r = work_item_new, start_node = 0, column_data = [],
           column_data_d = replicate (sectors c * GetNumLayers (p_size c) * batch_size c) junk,
           replica_data = [], dev = (\<lambda>_. []), pend = [], written = [], result_c = [], result_r = []\<rparr>)"

text \<open>
  \<open>reset\<close> at the start of a part: the pool of buffers stays, and with it the
  buffer of the last root, which no scheduler returns.  The list of requests starts anew.
\<close>

definition resource_reset :: "pc2_t \<Rightarrow> 'f gpu_resource_t \<Rightarrow> 'f gpu_resource_t" where
  "resource_reset c g =
     g\<lparr>r_state := IDLE, r_last := False, async_done := True, scheduler_c := sched_reset (p_bits c) (scheduler_c g),
       scheduler_r := sched_reset (p_bits c) (scheduler_r g), written := []\<rparr>"

definition wi_layer :: "pc2_t \<Rightarrow> work_item_t \<Rightarrow> nat" where
  "wi_layer c w = unat (node_id_layer (p_bits c) (wi_idx w))"

definition wi_node :: "pc2_t \<Rightarrow> work_item_t \<Rightarrow> nat" where
  "wi_node c w = unat (node_id_node (p_bits c) (wi_idx w))"

definition step_idle :: "pc2_t \<Rightarrow> 'f gpu_resource_t \<Rightarrow> 'f gpu_resource_t" where
  "step_idle c g =
     (let (more_c, wc, sc) = sched_next (p_bits c) (\<lambda>_ x. x) True (scheduler_c g);
          (more_r, wr, sr) = sched_next (p_bits c) (\<lambda>_ x. x) True ((scheduler_r g)\<lparr>bufs := bufs sc\<rparr>);
          g1 = g\<lparr>r_last := \<not> more_c, scheduler_c := sc\<lparr>bufs := bufs sr\<rparr>, scheduler_r := sr,
                 work_c := (case wc of None \<Rightarrow> work_c g | Some w \<Rightarrow> w),
                 work_r := (case wr of None \<Rightarrow> work_r g | Some w \<Rightarrow> w)\<rparr>
      in g1\<lparr>r_state := if is_leaf (work_c g1) then DATA_READ else HASH_LEAF\<rparr>)"

definition load_layers :: "'f env \<Rightarrow> nat \<Rightarrow> nat \<Rightarrow> nat \<Rightarrow> nat \<Rightarrow> nat \<Rightarrow> 'f list" where
  "load_layers e S layer node node_count num_layers =
     concat (map (\<lambda>i. concat (map (\<lambda>j. map (\<lambda>s. e_layer e (layer + i) (node + j) s) [0..<S]) [0..<node_count])) [0..<num_layers])"

definition step_data_read :: "'f env \<Rightarrow> pc2_t \<Rightarrow> nat \<Rightarrow> 'f gpu_resource_t \<Rightarrow> 'f gpu_resource_t" where
  "step_data_read e c part g =
     (let L = GetNumLayers (p_size c);
          sn = wi_node c (work_c g) * batch_size c + nodes_per_stream c * r_id g + part * nodes_to_read c
      in g\<lparr>start_node := sn,
           column_data := load_layers e (sectors c) (if tree_r_only c then L - 1 else 0) sn (batch_size c)
             (if tree_r_only c then 1 else L),
           r_state := DATA_WAIT\<rparr>)"

definition encode_element :: "'f env \<Rightarrow> 'f \<Rightarrow> 'f \<Rightarrow> 'f" where
  "encode_element e x d =
     (let x1 = (if \<not> e_big_endian e then e_bswap e x else x); x2 = e_add e x1 d
      in if \<not> e_big_endian e then e_bswap e x2 else x2)"

definition encode_sector :: "'f env \<Rightarrow> pc2_t \<Rightarrow> nat \<Rightarrow> nat \<Rightarrow> 'f list \<Rightarrow> 'f list result" where
  "encode_sector e c sn i buf0 =
     (case e_data e i of
        None \<Rightarrow> Inr buf0
      | Some df \<Rightarrow>
          fold_result (\<lambda>j b.
            bind_result (vec_get df (sn + j)) (\<lambda>d.
            bind_result (vec_get b (i + j * sectors c)) (\<lambda>x.
            vec_set b (i + j * sectors c) (encode_element e x d)))) [0..<batch_size c] buf0)"

definition step_data_wait :: "'f env \<Rightarrow> pc2_t \<Rightarrow> nat \<Rightarrow> bool \<Rightarrow> 'f gpu_resource_t \<Rightarrow> 'f gpu_resource_t result" where
  "step_data_wait e c avail loaded g =
     (if \<not> loaded \<or> avail < 1 then Inr g
      else
        let S = sectors c; n = batch_size c;
            off = (if tree_r_only c then 0 else S * (GetNumLayers (p_size c) - 1) * n) in
        bind_result (get_block (column_data g) off (S * n)) (\<lambda>layer11.
        bind_result (fold_result (encode_sector e c (start_node g)) [0..<S] layer11) (\<lambda>enc.
        let td = \<lparr>bd_data = enc, bd_dst = sealed_files c, bd_offset = start_node g,
                  bd_src = map Some [0..<S], bd_size = n, bd_stride = S, bd_reverse = True\<rparr>
        in Inr (g\<lparr>replica_data := enc, written := written g @ [td],
                  r_state := if tree_r_only c then HASH_COLUMN_LEAVES else HASH_COLUMN\<rparr>))))"

definition dev_read :: "'f gpu_resource_t \<Rightarrow> nat ptr \<Rightarrow> 'f list result" where
  "dev_read g p = (case p of None \<Rightarrow> Inl NullDeref | Some b \<Rightarrow> Inr (dev g b))"

definition dev_write :: "pc2_t \<Rightarrow> nat ptr \<Rightarrow> 'f list \<Rightarrow> 'f gpu_resource_t \<Rightarrow> 'f gpu_resource_t result" where
  "dev_write c p xs g =
     (case p of None \<Rightarrow> Inl NullDeref
      | Some b \<Rightarrow> if length xs \<le> batch_size c * sectors c then Inr (g\<lparr>dev := (dev g)(b := xs)\<rparr>) else Inl OutOfBounds)"

definition flags :: "'f env \<Rightarrow> bool \<Rightarrow> bool \<Rightarrow> bool \<Rightarrow> hash_flags" where
  "flags e tc tr multi = \<lparr>to_mont = True, from_mont = True, do_bswap = \<not> e_big_endian e, first_tree_c = tc,
     first_tree_r = tr, multi_in_ptr = multi\<rparr>"

definition hash_columns :: "'f :: comm_ring_1 env \<Rightarrow> pc2_t \<Rightarrow> 'f list \<Rightarrow> 'f list result" where
  "hash_columns e c xs =
     (if GetNumLayers (p_size c) = 2 \<or> GetNumLayers (p_size c) = 11
      then hash_batch_device (e_dot e) (e_to e) (e_from e) (e_bswap e) (e_columns e) (flags e True False False)
             (batch_size c * sectors c) (sectors c) xs
      else Inl AssertFail)"

definition hash_packed :: "'f :: comm_ring_1 env \<Rightarrow> pc2_t \<Rightarrow> 'f list \<Rightarrow> 'f list result" where
  "hash_packed e c xs =
     hash_batch_device (e_dot e) (e_to e) (e_from e) (e_bswap e) (e_trees e) (flags e False False False)
       (batch_size c * sectors c div GetNumTreeRCArity) 1 xs"

definition hash_replica :: "'f :: comm_ring_1 env \<Rightarrow> pc2_t \<Rightarrow> 'f list \<Rightarrow> 'f list result" where
  "hash_replica e c xs =
     hash_batch_device (e_dot e) (e_to e) (e_from e) (e_bswap e) (e_trees e) (flags e False True False)
       (batch_size c * sectors c div GetNumTreeRCArity) (sectors c) xs"

definition hash_children :: "'f :: comm_ring_1 env \<Rightarrow> pc2_t \<Rightarrow> 'f list list \<Rightarrow> 'f list result" where
  "hash_children e c xs =
     hash_batch_device_ptrs (e_dot e) (e_to e) (e_from e) (e_bswap e) (e_trees e) (flags e False False True)
       (batch_size c * sectors c div GetNumTreeRCArity) (sectors c) xs"

definition tree_request :: "pc2_t \<Rightarrow> tree_address_t \<Rightarrow> nat list \<Rightarrow> file_writer_t list list \<Rightarrow> nat \<Rightarrow> nat \<Rightarrow> nat \<Rightarrow> nat \<Rightarrow> nat \<Rightarrow>
    'f list \<Rightarrow> 'f buf_to_disk_t result" where
  "tree_request c ta offs files part resource_num layer first n xs =
     bind_result (vec_get offs layer) (\<lambda>layer_offset.
     bind_result (ta_address (p_bits c) ta (nid (p_bits c) layer (first + layer_offset * resource_num))) (\<lambda>off.
     bind_result (map_result (\<lambda>i. bind_result (vec_get files i) (\<lambda>fs. vec_get fs part)) [0..<sectors c]) (\<lambda>dst.
     Inr \<lparr>bd_data = xs, bd_dst = dst, bd_offset = off div fr_size, bd_src = map (\<lambda>i. Some (i * n)) [0..<sectors c],
          bd_size = n, bd_stride = 1, bd_reverse = False\<rparr>)))"

definition step_hash_column :: "'f :: comm_ring_1 env \<Rightarrow> pc2_t \<Rightarrow> nat \<Rightarrow> nat \<Rightarrow> 'f gpu_resource_t \<Rightarrow> 'f gpu_resource_t result" where
  "step_hash_column e c part avail g =
     (if avail < 1 then Inr g
      else
        bind_result (get_block (column_data g) 0 (sectors c * GetNumLayers (p_size c) * batch_size c)) (\<lambda>cd.
        bind_result (hash_columns e c cd) (\<lambda>out.
        bind_result (dev_write c (buf (work_c g)) out (g\<lparr>column_data_d := cd\<rparr>)) (\<lambda>g1.
        bind_result (get_block out 0 (batch_size c * sectors c)) (\<lambda>fr.
        bind_result (tree_request c (tree_c_address c) (layer_offsets_c c) (tree_c_files c) part (r_id g)
            (wi_layer c (work_c g) - 1) (wi_node c (work_c g) * batch_size c) (batch_size c) fr) (\<lambda>td.
        Inr (g1\<lparr>pend := [td], async_done := False, r_state := HASH_COLUMN_LEAVES\<rparr>)))))))"

definition step_hash_column_leaves :: "'f :: comm_ring_1 env \<Rightarrow> pc2_t \<Rightarrow> nat \<Rightarrow> nat \<Rightarrow> 'f gpu_resource_t \<Rightarrow>
    'f gpu_resource_t result" where
  "step_hash_column_leaves e c part avail g =
     (if \<not> async_done g \<or> \<not> tree_r_only c \<and> avail < 1 then Inr g
      else
        let S = sectors c; n = batch_size c; a = GetNumTreeRCArity; off = n * S * (GetNumLayers (p_size c) - 1) in
        bind_result (if tree_r_only c then Inr g
                     else bind_result (dev_read g (buf (work_c g))) (\<lambda>inp.
                          bind_result (hash_packed e c inp) (\<lambda>out. dev_write c (buf (work_c g)) out g))) (\<lambda>g1.
        bind_result (if has_non_cc_sectors c \<or> tree_r_only c
                     then bind_result (get_block (replica_data g1) 0 (S * n)) (\<lambda>rd. put_block off rd (column_data_d g1))
                     else Inr (column_data_d g1)) (\<lambda>cd.
        bind_result (get_block cd off (S * n)) (\<lambda>rin.
        bind_result (hash_replica e c rin) (\<lambda>out_r.
        bind_result (dev_write c (buf (work_r g1)) out_r (g1\<lparr>column_data_d := cd\<rparr>)) (\<lambda>g2.
        bind_result (if tree_r_only c then Inr []
                     else bind_result (dev_read g2 (buf (work_c g))) (\<lambda>out.
                          bind_result (get_block out 0 (n * S div a)) (\<lambda>fr.
                          bind_result (tree_request c (tree_c_address c) (layer_offsets_c c) (tree_c_files c) part (r_id g)
                              (wi_layer c (work_c g)) (wi_node c (work_c g) * n div a) (n div a) fr) (\<lambda>td. Inr [td])))) (\<lambda>tds.
        Inr (g2\<lparr>pend := tds, async_done := False, r_state := HASH_WAIT\<rparr>))))))))"

definition hash_inputs :: "'f :: comm_ring_1 env \<Rightarrow> pc2_t \<Rightarrow> work_item_t \<Rightarrow> 'f gpu_resource_t \<Rightarrow> 'f gpu_resource_t result" where
  "hash_inputs e c w g =
     bind_result (map_result (dev_read g) (inputs w)) (\<lambda>inp.
     bind_result (hash_children e c inp) (\<lambda>out. dev_write c (buf w) out g))"

definition step_hash_leaf :: "'f :: comm_ring_1 env \<Rightarrow> pc2_t \<Rightarrow> nat \<Rightarrow> nat \<Rightarrow> bool \<Rightarrow> 'f gpu_resource_t \<Rightarrow> 'f gpu_resource_t result" where
  "step_hash_leaf e c part avail lock g =
     (let S = sectors c; n = batch_size c; a = GetNumTreeRCArity; d = GetNumTreeRDiscardRows (p_size c);
          write_tree_c = (\<not> tree_r_only c);
          write_tree_r = (d < wi_layer c (work_r g)) in
      if avail < (if write_tree_c then 1 else 0) + (if write_tree_r then 1 else 0) then Inr g
      else if r_last g \<and> \<not> lock then Inr g
      else
        bind_result (if write_tree_c then hash_inputs e c (work_c g) g else Inr g) (\<lambda>g1.
        bind_result (hash_inputs e c (work_r g) g1) (\<lambda>g2.
        bind_result (if write_tree_c
                     then bind_result (dev_read g2 (buf (work_c g))) (\<lambda>out.
                          bind_result (get_block out 0 (n * S div a)) (\<lambda>fr.
                          bind_result (tree_request c (tree_c_address c) (layer_offsets_c c) (tree_c_files c) part (r_id g)
                              (wi_layer c (work_c g)) (wi_node c (work_c g) * n div a) (n div a) fr) (\<lambda>td. Inr [td])))
                     else Inr []) (\<lambda>tc.
        bind_result (bind_result (dev_read g2 (buf (work_r g))) (\<lambda>out. get_block out 0 (n * S div a))) (\<lambda>fr_r.
        bind_result (if write_tree_r
                     then bind_result (tree_request c (tree_r_address c) (layer_offsets_r c) (tree_r_files c) part (r_id g)
                              (wi_layer c (work_r g) - d - 1) (wi_node c (work_r g) * n div a) (n div a) fr_r) (\<lambda>td. Inr [td])
                     else Inr []) (\<lambda>tr.
        Inr (g2\<lparr>result_c := (if r_last g \<and> write_tree_c then concat (map bd_data tc) else result_c g),
                result_r := (if r_last g then fr_r else result_r g),
                pend := tc @ tr, async_done := False, r_state := HASH_WAIT\<rparr>)))))))"

definition step_hash_wait :: "'f gpu_resource_t \<Rightarrow> 'f gpu_resource_t" where
  "step_hash_wait g = (if async_done g then g\<lparr>r_state := if r_last g then DONE else IDLE\<rparr> else g)"

definition resource_step :: "'f :: comm_ring_1 env \<Rightarrow> pc2_t \<Rightarrow> nat \<Rightarrow> nat \<Rightarrow> bool \<Rightarrow> bool \<Rightarrow> 'f gpu_resource_t \<Rightarrow>
    'f gpu_resource_t result" where
  "resource_step e c part avail loaded lock g =
     (case r_state g of
        DONE \<Rightarrow> Inr g
      | IDLE \<Rightarrow> Inr (step_idle c g)
      | DATA_READ \<Rightarrow> Inr (step_data_read e c part g)
      | DATA_WAIT \<Rightarrow> step_data_wait e c avail loaded g
      | HASH_COLUMN \<Rightarrow> step_hash_column e c part avail g
      | HASH_COLUMN_LEAVES \<Rightarrow> step_hash_column_leaves e c part avail g
      | HASH_LEAF \<Rightarrow> step_hash_leaf e c part avail lock g
      | HASH_WAIT \<Rightarrow> Inr (step_hash_wait g)
      | HASH_COLUMN_WRITE \<Rightarrow> Inl ExitFailure)"

definition cuda_callback :: "'f gpu_resource_t \<Rightarrow> 'f gpu_resource_t" where
  "cuda_callback g = g\<lparr>written := written g @ pend g, pend := [], async_done := True\<rparr>"

inductive gpu_reach :: "'f :: comm_ring_1 env \<Rightarrow> pc2_t \<Rightarrow> nat \<Rightarrow> 'f gpu_resource_t \<Rightarrow> 'f gpu_resource_t \<Rightarrow> bool"
  for e c part g0 where
  gpu_start: "gpu_reach e c part g0 g0"
| gpu_turn: "gpu_reach e c part g0 g \<Longrightarrow> resource_step e c part avail loaded lock g = Inr g' \<Longrightarrow>
    gpu_reach e c part g0 g'"
| gpu_cb: "gpu_reach e c part g0 g \<Longrightarrow> \<not> async_done g \<Longrightarrow> gpu_reach e c part g0 (cuda_callback g)"


section \<open>What the kernels compute\<close>

definition conv :: "'f env \<Rightarrow> 'f \<Rightarrow> 'f" where
  "conv e x = (if e_big_endian e then x else e_bswap e x)"

definition h8 :: "'f :: comm_ring_1 env \<Rightarrow> 'f list \<Rightarrow> 'f" where
  "h8 e xs = e_from e (poseidon_spec (consts_of (e_trees e)) (domain_tag (e_trees e)) (map (e_to e) xs))"

definition hcol :: "'f :: comm_ring_1 env \<Rightarrow> 'f list \<Rightarrow> 'f" where
  "hcol e xs = e_from e (poseidon_spec (consts_of (e_columns e)) (domain_tag (e_columns e)) (map (e_to e) (map (conv e) xs)))"

definition device_ok :: "'f :: comm_ring_1 env \<Rightarrow> nat \<Rightarrow> bool" where
  "device_ok e L \<longleftrightarrow>
     (\<forall>xs ys. length xs = length ys \<longrightarrow> e_dot e xs ys = (\<Sum>i<length xs. xs ! i * ys ! i)) \<and>
     poseidon_ok (e_columns e) \<and> ps_t (e_columns e) = L + 1 \<and> poseidon_ok (e_trees e) \<and> ps_t (e_trees e) = 8 + 1"

definition by_sector :: "nat \<Rightarrow> (nat \<Rightarrow> 'f list) \<Rightarrow> 'f list" where
  "by_sector S X = concat (map X [0..<S])"

lemma length_by_sector: "(\<And>s. s < S \<Longrightarrow> length (X s) = n) \<Longrightarrow> length (by_sector S X) = S * n"
  unfolding by_sector_def by (rule length_grid)

lemma nth_by_sector:
  assumes "\<And>s. s < S \<Longrightarrow> length (X s) = n" "s < S" "j < n"
  shows "by_sector S X ! (s * n + j) = X s ! j"
proof -
  have "Suc s * n \<le> S * n" using assms(2) by (intro mult_le_mono1) simp
  then have "s * n + j < S * n" using assms(3) unfolding mult_Suc by linarith
  from nth_grid [of S X n, OF assms(1) this] assms(3) show ?thesis by (simp add: by_sector_def)
qed

lemma level_map:
  assumes "length xs = n * a" "0 < a"
  shows "level h a xs = map (\<lambda>j. h (map (\<lambda>i. xs ! (j * a + i)) [0..<a])) [0..<n]"
proof -
  have "block a xs j = map (\<lambda>i. xs ! (j * a + i)) [0..<a]" if "j < n" for j
  proof -
    have "Suc j * a \<le> n * a" using that by (intro mult_le_mono1) simp
    then have le: "Suc j * a \<le> length xs" using assms by simp
    show ?thesis using length_block [OF le] nth_block [OF _ le] by (intro nth_equalityI) simp_all
  qed
  with assms show ?thesis by (simp add: level_def blocks_def)
qed

lemma level_8: "length xs = 8 * G \<Longrightarrow> level h 8 xs = map (\<lambda>j. h (map (\<lambda>i. xs ! (j * 8 + i)) [0..<8])) [0..<G]"
  by (rule level_map) (simp_all add: mult.commute)

lemma hash_by_sector:
  fixes p :: "'f :: comm_ring_1 Poseidon"
  assumes "\<forall>xs ys. length xs = length ys \<longrightarrow> dot_product xs ys = (\<Sum>i<length xs. xs ! i * ys ! i)"
    "poseidon_ok p" "ps_t p = a + 1" "0 < B" "0 < S"
    "if multi_in_ptr fl then length in_d = a \<and> (\<forall>b \<in> set in_d. length b = B * S)
      else in_d \<noteq> [] \<and> length (in_d ! 0) = a * (B * S)"
    "to_mont fl" "from_mont fl"
    and x: "\<And>s j i. s < S \<Longrightarrow> j < B \<Longrightarrow> i < a \<Longrightarrow> converted to bswap fl (gathered fl a B S in_d (s * B + j) i) = to (x s j i)"
  shows "hash_batch_device_ptrs dot_product to from bswap p fl (B * S) S in_d =
    Inr (by_sector S (\<lambda>s. map (\<lambda>j. from (poseidon_spec (consts_of p) (domain_tag p) (map to (map (x s j) [0..<a])))) [0..<B]))"
proof -
  let ?f = "\<lambda>s j. from (poseidon_spec (consts_of p) (domain_tag p) (map to (map (x s j) [0..<a])))"
  have h: "from (poseidon_spec (consts_of p) (domain_tag p)
      (map (\<lambda>i. converted to bswap fl (gathered fl a B S in_d h i)) [0..<a])) = ?f (h div B) (h mod B)" if "h < B * S" for h
  proof -
    have "h div B < S" "h mod B < B" "h div B * B + h mod B = h"
      using that assms(4) by (simp_all add: less_mult_imp_div_less mult.commute)
    with x [of "h div B" "h mod B"] have "map (\<lambda>i. converted to bswap fl (gathered fl a B S in_d h i)) [0..<a] =
        map to (map (x (h div B) (h mod B)) [0..<a])" by simp
    then show ?thesis by (simp only:)
  qed
  have "map (\<lambda>h. from (poseidon_spec (consts_of p) (domain_tag p)
      (map (\<lambda>i. converted to bswap fl (gathered fl a B S in_d h i)) [0..<a]))) [0..<B * S] =
      map (\<lambda>h. ?f (h div B) (h mod B)) [0..<S * B]"
    using h by (simp add: mult.commute)
  also have "\<dots> = by_sector S (\<lambda>s. map (?f s) [0..<B])" unfolding by_sector_def by (rule grid_map [OF assms(4)])
  finally show ?thesis using gpu_hash_spec [OF assms(1-6), of to "from" bswap] assms(8) by (simp add: Let_def)
qed

lemma div_mod_pair: "j < (B :: nat) \<Longrightarrow> (s * B + j) div B = s \<and> (s * B + j) mod B = j"
  by simp

lemma hash_columns_spec:
  assumes "device_ok e L" "GetNumLayers (p_size c) = L" "L = 2 \<or> L = 11" "0 < sectors c" "0 < batch_size c"
    and len: "length xs = L * (batch_size c * sectors c)"
    and el: "\<And>l j s. l < L \<Longrightarrow> j < batch_size c \<Longrightarrow> s < sectors c \<Longrightarrow> xs ! ((l * batch_size c + j) * sectors c + s) = f l j s"
  shows "hash_columns e c xs = Inr (by_sector (sectors c) (\<lambda>s. map (\<lambda>j. hcol e (map (\<lambda>l. f l j s) [0..<L])) [0..<batch_size c]))"
proof -
  let ?B = "batch_size c" and ?S = "sectors c"
  have d: "\<forall>xs ys. length xs = length ys \<longrightarrow> e_dot e xs ys = (\<Sum>i<length xs. xs ! i * ys ! i)"
    "poseidon_ok (e_columns e)" "ps_t (e_columns e) = L + 1" using assms(1) unfolding device_ok_def by blast+
  have "hash_batch_device_ptrs (e_dot e) (e_to e) (e_from e) (e_bswap e) (e_columns e) (flags e True False False) (?B * ?S) ?S [xs] =
    Inr (by_sector ?S (\<lambda>s. map (\<lambda>j. e_from e (poseidon_spec (consts_of (e_columns e)) (domain_tag (e_columns e))
      (map (e_to e) (map (\<lambda>l. conv e (f l j s)) [0..<L])))) [0..<?B]))"
  proof (rule hash_by_sector [OF d assms(5,4)])
    fix s j i
    assume b: "s < ?S" "j < ?B" "i < L"
    then show "converted (e_to e) (e_bswap e) (flags e True False False)
        (gathered (flags e True False False) L ?B ?S [xs] (s * ?B + j) i) = e_to e (conv e (f i j s))"
      using el [OF b(3,2,1)] by (simp add: gathered_def converted_def flags_def conv_def)
  qed (simp_all add: flags_def len)
  then show ?thesis
    using assms(2,3) by (auto simp: hash_columns_def hash_batch_device_def hcol_def flags_def comp_def)
qed

lemma hash_packed_spec:
  assumes "device_ok e L" "0 < sectors c" "batch_size c = 8 * G" "0 < G" "\<And>s. s < sectors c \<Longrightarrow> length (X s) = 8 * G"
  shows "hash_packed e c (by_sector (sectors c) X) = Inr (by_sector (sectors c) (\<lambda>s. level (h8 e) 8 (X s)))"
proof -
  let ?S = "sectors c" and ?xs = "by_sector (sectors c) X"
  have d: "\<forall>xs ys. length xs = length ys \<longrightarrow> e_dot e xs ys = (\<Sum>i<length xs. xs ! i * ys ! i)"
    "poseidon_ok (e_trees e)" "ps_t (e_trees e) = 8 + 1" using assms(1) unfolding device_ok_def by blast+
  have len: "length ?xs = ?S * (8 * G)" using assms(5) by (intro length_by_sector) simp
  have "hash_batch_device_ptrs (e_dot e) (e_to e) (e_from e) (e_bswap e) (e_trees e) (flags e False False False) ((G * ?S) * 1) 1 [?xs] =
    Inr (by_sector 1 (\<lambda>s. map (\<lambda>j. e_from e (poseidon_spec (consts_of (e_trees e)) (domain_tag (e_trees e))
      (map (e_to e) (map (\<lambda>i. ?xs ! (j * 8 + i)) [0..<8])))) [0..<G * ?S]))"
    by (rule hash_by_sector [OF d]) (use assms(2,4) len in \<open>simp_all add: flags_def gathered_def converted_def\<close>)
  moreover have "map (\<lambda>j. h8 e (map (\<lambda>i. ?xs ! (j * 8 + i)) [0..<8])) [0..<G * ?S] =
      by_sector ?S (\<lambda>s. level (h8 e) 8 (X s))"
  proof -
    let ?F = "\<lambda>s j. h8 e (map (\<lambda>i. X s ! (j * 8 + i)) [0..<8])"
    have "h8 e (map (\<lambda>i. ?xs ! (h * 8 + i)) [0..<8]) = ?F (h div G) (h mod G)" if "h < ?S * G" for h
    proof -
      have "?xs ! (h * 8 + i) = X (h div G) ! (h mod G * 8 + i)" if i: "i < 8" for i
      proof -
        have "Suc (h mod G) * 8 \<le> G * 8" using assms(4) by (intro mult_le_mono1) (simp add: Suc_leI)
        then have "h mod G * 8 + i < 8 * G" using i by simp
        moreover have "h div G < ?S" using \<open>h < ?S * G\<close> by (simp add: less_mult_imp_div_less)
        moreover have "h * 8 + i = h div G * (8 * G) + (h mod G * 8 + i)"
          using div_mult_mod_eq [of h G] by (metis add_mult_distrib add.assoc mult.assoc mult.commute)
        ultimately show ?thesis using nth_by_sector [of ?S X "8 * G" "h div G" "h mod G * 8 + i"] assms(5) by metis
      qed
      then show ?thesis by (metis (no_types, lifting) map_cong atLeastLessThan_iff set_upt)
    qed
    then have "map (\<lambda>j. h8 e (map (\<lambda>i. ?xs ! (j * 8 + i)) [0..<8])) [0..<G * ?S] = map (\<lambda>h. ?F (h div G) (h mod G)) [0..<?S * G]"
      by (simp add: mult.commute)
    also have "\<dots> = by_sector ?S (\<lambda>s. map (?F s) [0..<G])" unfolding by_sector_def by (rule grid_map [OF assms(4)])
    also have "\<dots> = by_sector ?S (\<lambda>s. level (h8 e) 8 (X s))"
      unfolding by_sector_def using assms(5) by (intro arg_cong [of _ _ concat] map_cong) (simp_all add: level_8 [of _ G])
    finally show ?thesis .
  qed
  moreover have "batch_size c * ?S div 8 = G * ?S" using assms(3) by simp
  ultimately show ?thesis
    by (simp add: hash_packed_def hash_batch_device_def flags_def arity8 by_sector_def h8_def)
qed

lemma hash_replica_spec:
  assumes "device_ok e L" "0 < sectors c" "batch_size c = 8 * G" "0 < G" "length xs = 8 * G * sectors c"
    and el: "\<And>j s. j < 8 * G \<Longrightarrow> s < sectors c \<Longrightarrow> xs ! (j * sectors c + s) = f s j"
  shows "hash_replica e c xs = Inr (by_sector (sectors c) (\<lambda>s. level (h8 e) 8 (map (\<lambda>j. conv e (f s j)) [0..<8 * G])))"
proof -
  let ?S = "sectors c"
  have d: "\<forall>xs ys. length xs = length ys \<longrightarrow> e_dot e xs ys = (\<Sum>i<length xs. xs ! i * ys ! i)"
    "poseidon_ok (e_trees e)" "ps_t (e_trees e) = 8 + 1" using assms(1) unfolding device_ok_def by blast+
  have lt: "j * 8 + i < 8 * G" if "j < G" "i < 8" for i j
    using that mult_le_mono1 [of "Suc j" G 8] by simp
  have "hash_batch_device_ptrs (e_dot e) (e_to e) (e_from e) (e_bswap e) (e_trees e) (flags e False True False) (G * ?S) ?S [xs] =
    Inr (by_sector ?S (\<lambda>s. map (\<lambda>j. e_from e (poseidon_spec (consts_of (e_trees e)) (domain_tag (e_trees e))
      (map (e_to e) (map (\<lambda>i. conv e (f s (j * 8 + i))) [0..<8])))) [0..<G]))"
  proof (rule hash_by_sector [OF d assms(4,2)])
    fix s j i :: nat
    assume b: "s < ?S" "j < G" "i < 8"
    then show "converted (e_to e) (e_bswap e) (flags e False True False)
        (gathered (flags e False True False) 8 G ?S [xs] (s * G + j) i) = e_to e (conv e (f s (j * 8 + i)))"
      using el [OF lt [OF b(2,3)] b(1)] by (simp add: gathered_def converted_def flags_def conv_def)
  qed (simp_all add: flags_def assms(5))
  moreover have "level (h8 e) 8 (map (\<lambda>j. conv e (f s j)) [0..<8 * G]) =
      map (\<lambda>j. h8 e (map (\<lambda>i. conv e (f s (j * 8 + i))) [0..<8])) [0..<G]" for s
    by (subst level_8 [of _ G], simp, intro map_cong refl arg_cong [of _ _ "h8 e"]) (use lt in simp_all)
  moreover have "batch_size c * ?S div 8 = G * ?S" using assms(3) by simp
  ultimately show ?thesis
    by (simp add: hash_replica_def hash_batch_device_def flags_def arity8 h8_def)
qed

lemma hash_children_spec:
  assumes "device_ok e L" "0 < sectors c" "batch_size c = 8 * G" "0 < G"
    "\<And>q s. q < 8 \<Longrightarrow> s < sectors c \<Longrightarrow> length (Y q s) = G"
  shows "hash_children e c (map (\<lambda>q. by_sector (sectors c) (Y q)) [0..<8]) =
    Inr (by_sector (sectors c) (\<lambda>s. level (h8 e) 8 (concat (map (\<lambda>q. Y q s) [0..<8]))))"
proof -
  let ?S = "sectors c" and ?in = "map (\<lambda>q. by_sector (sectors c) (Y q)) [0..<8]"
  let ?X = "\<lambda>s. concat (map (\<lambda>q. Y q s) [0..<8])"
  have d: "\<forall>xs ys. length xs = length ys \<longrightarrow> e_dot e xs ys = (\<Sum>i<length xs. xs ! i * ys ! i)"
    "poseidon_ok (e_trees e)" "ps_t (e_trees e) = 8 + 1" using assms(1) unfolding device_ok_def by blast+
  have lx: "length (?X s) = 8 * G" if "s < ?S" for s using assms(5) that by (intro length_grid) simp
  have li: "length (by_sector ?S (Y q)) = G * ?S" if "q < 8" for q
    using length_by_sector [of ?S "Y q" G] assms(5) that by (simp add: mult.commute)
  have "hash_batch_device_ptrs (e_dot e) (e_to e) (e_from e) (e_bswap e) (e_trees e) (flags e False False True) (G * ?S) ?S ?in =
    Inr (by_sector ?S (\<lambda>s. map (\<lambda>j. e_from e (poseidon_spec (consts_of (e_trees e)) (domain_tag (e_trees e))
      (map (e_to e) (map (\<lambda>i. ?X s ! (j * 8 + i)) [0..<8])))) [0..<G]))"
  proof (rule hash_by_sector [OF d assms(4,2)])
    show "if multi_in_ptr (flags e False False True) then length ?in = 8 \<and> (\<forall>b\<in>set ?in. length b = G * ?S)
        else ?in \<noteq> [] \<and> length (?in ! 0) = 8 * (G * ?S)"
      using li by (simp add: flags_def)
    fix s j i :: nat
    assume b: "s < ?S" "j < G" "i < 8"
    let ?q = "j * 8 + i"
    have q: "?q < 8 * G" using b mult_le_mono1 [of "Suc j" G 8] by simp
    then have qd: "?q div G < 8" by (simp add: less_mult_imp_div_less)
    have "?in ! (?q div G) ! (s * G + ?q mod G) = Y (?q div G) s ! (?q mod G)"
      using nth_by_sector [of ?S "Y (?q div G)" G s "?q mod G"] assms(4,5) qd b(1) by simp
    also have "\<dots> = ?X s ! ?q" using nth_grid [of 8 "\<lambda>q. Y q s" G ?q] assms(5) b(1) q by simp
    finally show "converted (e_to e) (e_bswap e) (flags e False False True)
        (gathered (flags e False False True) 8 G ?S ?in (s * G + j) i) = e_to e (?X s ! (j * 8 + i))"
      using b(2) by (simp add: gathered_def converted_def flags_def del: map_upt_eqI)
  qed (simp_all add: flags_def)
  moreover have "batch_size c * ?S div 8 = G * ?S" using assms(3) by simp
  moreover have "by_sector ?S (\<lambda>s. level (h8 e) 8 (?X s)) =
      by_sector ?S (\<lambda>s. map (\<lambda>j. h8 e (map (\<lambda>i. ?X s ! (j * 8 + i)) [0..<8])) [0..<G])"
    unfolding by_sector_def using lx
    by (intro arg_cong [of _ _ concat] map_cong) (simp_all add: level_8 [of _ G] del: length_concat)
  ultimately show ?thesis by (simp add: hash_children_def arity8 h8_def)
qed

end
