(* ===== verification/Sched_Item.thy ===== *)
theory Sched_Item
  imports Sched_Order
begin

text \<open>
  What a user of \<open>scheduler_t\<close> sees.  \<open>sched_inv bits k s m\<close>: the scheduler
  \<open>s\<close> over \<open>8 ^ k\<close> bottom nodes has handed out \<open>m\<close> items; its pool may
  have been changed by others.  \<open>pop_item\<close> says what the next item is, which buffers
  it gets and which values they hold.  The locale \<open>tree_client\<close> states what
  a callback has to do with an item, and its theorem is that \<open>scheduler_t::run\<close>
  ends with the value of the root, having called the callback for every
  node in the order of the scheduler.
\<close>

section \<open>The positions of the items\<close>

lemma order_range:
  assumes "(l, m) \<in> set (order j n)"
  shows "1 \<le> l \<and> l \<le> Suc j \<and> n * 8 ^ (Suc j - l) \<le> m \<and> Suc m \<le> Suc n * 8 ^ (Suc j - l)"
  using assms
proof (induction j arbitrary: n)
  case (Suc j)
  show ?case
  proof (cases "(l, m) = (j + 2, n)")
    case False
    then obtain q where q: "q < 8" "(l, m) \<in> set (order j (8 * n + q))" using Suc.prems by auto
    from Suc.IH [OF q(2)] have h: "1 \<le> l" "l \<le> Suc j" "(8 * n + q) * 8 ^ (Suc j - l) \<le> m"
      "Suc m \<le> Suc (8 * n + q) * 8 ^ (Suc j - l)" by auto
    have e: "(8 :: nat) ^ (Suc (Suc j) - l) = 8 * 8 ^ (Suc j - l)" using h(2) by (simp add: Suc_diff_le)
    have "n * 8 ^ (Suc (Suc j) - l) \<le> (8 * n + q) * 8 ^ (Suc j - l)" unfolding e by (simp add: algebra_simps)
    moreover have "Suc (8 * n + q) * 8 ^ (Suc j - l) \<le> Suc n * 8 ^ (Suc (Suc j) - l)"
    proof -
      have "Suc (8 * n + q) * 8 ^ (Suc j - l) \<le> (8 * Suc n) * 8 ^ (Suc j - l)" using q(1) by (intro mult_le_mono1) simp
      then show ?thesis unfolding e by (simp only: mult_ac)
    qed
    ultimately show ?thesis using h by linarith
  qed simp
qed simp

lemma order_nth_range:
  assumes "m < tree_steps k" "order k 0 ! m = (l, n)"
  shows "1 \<le> l" "l \<le> Suc k" "n < 8 ^ (Suc k - l)"
  using order_range [of l n k 0] nth_mem [of m "order k 0"] assms by auto

lemma order_complete:
  assumes "1 \<le> l" "l \<le> Suc j" "n * 8 ^ (Suc j - l) \<le> m" "m < Suc n * 8 ^ (Suc j - l)"
  shows "(l, m) \<in> set (order j n)"
  using assms
proof (induction j arbitrary: n)
  case 0
  then have "l = 1" by simp
  with 0 show ?case by simp
next
  case (Suc j)
  show ?case
  proof (cases "l = Suc (Suc j)")
    case False
    then have l: "l \<le> Suc j" using Suc.prems by simp
    let ?w = "(8 :: nat) ^ (Suc j - l)"
    have e: "(8 :: nat) ^ (Suc (Suc j) - l) = 8 * ?w" using l by (simp add: Suc_diff_le)
    have "m div ?w < Suc n * 8" using Suc.prems(4) unfolding e mult.assoc [symmetric] by (rule less_mult_imp_div_less)
    moreover have "n * 8 \<le> m div ?w" using Suc.prems(3) unfolding e by (simp add: less_eq_div_iff_mult_less_eq mult.assoc)
    ultimately obtain q where q: "q < 8" "m div ?w = 8 * n + q"
      by (metis add.commute less_diff_conv2 le_add_diff_inverse mult.commute mult_Suc add_less_cancel_left le_iff_add)
    have "(8 * n + q) * ?w \<le> m" "m < Suc (8 * n + q) * ?w"
      using q(2) div_times_less_eq_dividend [of m ?w] dividend_less_div_times [of ?w m] by (auto simp: mult.commute)
    from Suc.IH [OF Suc.prems(1) l this] q(1) show ?thesis by auto
  qed (use Suc.prems in auto)
qed


section \<open>Taking a work item\<close>

definition sched_inv :: "nat \<Rightarrow> nat \<Rightarrow> 'd scheduler_t \<Rightarrow> nat \<Rightarrow> bool" where
  "sched_inv bits k s m \<longleftrightarrow>
     (\<exists>bs0 d0 ws s' B D. pops bits (sched_new bits (8 ^ k) 8 bs0 d0) ws s' \<and> length ws = m \<and> s = s'\<lparr>bufs := B, data := D\<rparr>)"

lemma sched_invE:
  assumes "sched_inv bits k s m"
  obtains bs0 d0 ws s' B D where "pops bits (sched_new bits (8 ^ k) 8 bs0 d0) ws s'" "length ws = m" "s = s'\<lparr>bufs := B, data := D\<rparr>"
  using assms unfolding sched_inv_def by blast

lemma sched_inv_update:
  assumes "sched_inv bits k s m"
  shows "sched_inv bits k (s\<lparr>bufs := B, data := D\<rparr>) m"
proof -
  obtain bs0 d0 ws s' B' D' where "pops bits (sched_new bits (8 ^ k) 8 bs0 d0) ws s'" "length ws = m" "s = s'\<lparr>bufs := B', data := D'\<rparr>"
    using assms by (rule sched_invE)
  then show ?thesis
    unfolding sched_inv_def
    by (intro exI [of _ bs0] exI [of _ d0] exI [of _ ws] exI [of _ s'] exI [of _ B] exI [of _ D]) simp
qed

lemma sched_inv_bufs: "sched_inv bits k s m \<Longrightarrow> sched_inv bits k (s\<lparr>bufs := B\<rparr>) m"
  by (drule sched_inv_update [where B = B and D = "data s"]) (cases s, simp)

lemma sched_inv_data: "sched_inv bits k s m \<Longrightarrow> sched_inv bits k (s\<lparr>data := D\<rparr>) m"
  by (drule sched_inv_update [where B = "bufs s" and D = D]) (cases s, simp)

lemma sched_inv_node:
  assumes "sched_inv bits k s m" "bits \<le> 32" "8 ^ k \<le> (2 :: nat) ^ bits"
  shows "m < tree_steps k \<Longrightarrow> at_node bits s (order k 0 ! m) \<and> stack s \<noteq> []"
    "m = tree_steps k \<Longrightarrow> stack s = []"
proof -
  obtain bs0 d0 ws s' B D where p: "pops bits (sched_new bits (8 ^ k) 8 bs0 d0) ws s'" "length ws = m" "s = s'\<lparr>bufs := B, data := D\<rparr>"
    using assms(1) by (rule sched_invE)
  note o = pops_order [OF assms(2,3) p(1)]
  show "m < tree_steps k \<Longrightarrow> at_node bits s (order k 0 ! m) \<and> stack s \<noteq> []"
    using o(1) p(2,3) by (auto simp: at_node_def node_ctl_def)
  show "m = tree_steps k \<Longrightarrow> stack s = []" using o(2) p(2,3) by simp
qed

lemma sched_inv_pop:
  assumes "sched_inv bits k s m" "sched_next bits (\<lambda>_ x. x) True s = (mo, Some w, s')" "buf w = Some b"
  shows "sched_inv bits k s' (Suc m)"
proof -
  obtain bs0 d0 ws t B D where p: "pops bits (sched_new bits (8 ^ k) 8 bs0 d0) ws t" "length ws = m" "s = t\<lparr>bufs := B, data := D\<rparr>"
    using assms(1) by (rule sched_invE)
  from assms(2) p(3) have "sched_next bits (\<lambda>_ x. x) True (t\<lparr>bufs := B, data := D\<rparr>) = (mo, Some w, s')" by simp
  from pops_Cons [OF this assms(3) pops_Nil] have "pops bits t [w] s'" .
  with p(1) have "pops bits (sched_new bits (8 ^ k) 8 bs0 d0) (ws @ [w]) s'" unfolding pops_append by blast
  then show ?thesis
    unfolding sched_inv_def using p(2)
    by (intro exI [of _ bs0] exI [of _ d0] exI [of _ "ws @ [w]"] exI [of _ s'] exI [of _ "bufs s'"] exI [of _ "data s'"]) simp
qed

lemma sched_next_some: "stack s \<noteq> [] \<Longrightarrow> \<exists>mo w s'. sched_next bits cb True s = (mo, Some w, s')"
  by (cases "stack s") (simp_all add: sched_next_def Let_def split: prod.splits)

definition cur_item :: "nat \<Rightarrow> nat \<times> nat \<Rightarrow> work_item_t \<Rightarrow> nat \<Rightarrow> bool" where
  "cur_item bits p w b \<longleftrightarrow> wi_idx w = nid bits (fst p) (snd p) \<and> (is_leaf w \<longleftrightarrow> fst p = 1) \<and> buf w = Some b"

text \<open>
  \<open>cur_vals\<close>: the inputs of the item are in place, and once its result is
  stored in its buffer, every buffer the scheduler holds has its value.
\<close>

definition cur_vals :: "(nat \<Rightarrow> nat \<Rightarrow> 'v) \<Rightarrow> (node_id_t \<Rightarrow> nat \<Rightarrow> 'v) \<Rightarrow> nat \<times> nat \<Rightarrow> work_item_t \<Rightarrow> nat \<Rightarrow> (nat \<Rightarrow> 'v) \<Rightarrow>
    'd scheduler_t \<Rightarrow> bool" where
  "cur_vals val V p w b mem s \<longleftrightarrow>
     (1 < fst p \<longrightarrow> (\<exists>xs. length xs = 8 \<and> inputs w = map Some xs \<and> b \<notin> set xs \<and>
        (\<forall>q < 8. mem (xs ! q) = val (fst p - 1) (8 * snd p + q)))) \<and>
     (\<forall>mem'. mem' b = val (fst p) (snd p) \<longrightarrow> (\<forall>x \<in> set (held s). x \<noteq> b \<longrightarrow> mem' x = mem x) \<longrightarrow> vals_ok V mem' s)"

definition in_val :: "nat \<Rightarrow> (nat \<Rightarrow> nat \<Rightarrow> 'v) \<Rightarrow> node_id_t \<Rightarrow> nat \<Rightarrow> 'v" where
  "in_val bits val idx q = val (unat (node_id_layer bits idx) - 1) (8 * unat (node_id_node bits idx) + q)"

lemma in_val_nid:
  assumes "bits \<le> 32" "l < 2 ^ 32" "n < 2 ^ bits"
  shows "in_val bits val (nid bits l n) q = val (l - 1) (8 * n + q)"
proof -
  have "(2 :: nat) ^ bits \<le> 2 ^ 32" using assms(1) by (intro power_increasing) simp_all
  with assms(3) have "n < 2 ^ 32" by linarith
  with assms show ?thesis by (simp add: in_val_def nid_layer nid_node unat_of_nat32)
qed

definition pool_inv :: "'d scheduler_t \<Rightarrow> nat set \<Rightarrow> bool" where
  "pool_inv s F \<longleftrightarrow> pool_ok (bufs s) (set (held s) \<union> F) \<and> distinct (held s) \<and> set (held s) \<inter> F = {} \<and> inputs8 s"

lemma pop_item:
  assumes s: "sched_inv bits k s m" "bits \<le> 32" "8 ^ k \<le> (2 :: nat) ^ bits" "m < tree_steps k" and pl: "pool_inv s F"
  obtains mo w s' b where "sched_next bits (\<lambda>_ x. x) True s = (mo, Some w, s')" "mo \<longleftrightarrow> Suc m < tree_steps k"
    "sched_inv bits k s' (Suc m)" "cur_item bits (order k 0 ! m) w b" "b \<notin> set (held s) \<union> F" "pool_inv s' F"
    "set (live_inputs w) \<subseteq> set (held s)" "b \<in> set (held s')" "set (held s') \<subseteq> insert b (set (held s))"
    "\<And>(val :: nat \<Rightarrow> nat \<Rightarrow> 'v) mem. vals_ok (in_val bits val) mem s \<Longrightarrow> cur_vals val (in_val bits val) (order k 0 ! m) w b mem s'"
proof -
  let ?l = "fst (order k 0 ! m)" and ?n = "snd (order k 0 ! m)"
  note nd = sched_inv_node(1) [OF s]
  obtain w0 X bs mm where c: "node_ctl bits s ?l ?n w0 X bs mm" using nd by (auto simp: at_node_def)
  obtain mo w s' where p: "sched_next bits (\<lambda>_ x. x) True s = (mo, Some w, s')" using sched_next_some nd by blast
  obtain b where b: "buf w = Some b" "b \<notin> set (held s) \<union> F" "pool_ok (bufs s') (set (held s') \<union> F)" "distinct (held s')"
    "set (held s') \<inter> F = {}"
    using pop_pool [OF c p] pl unfolding pool_inv_def by blast
  have i8: "inputs8 s" "inputs8 s'" using pop_inputs8 [OF c p b(1)] pl by (simp_all add: pool_inv_def)
  have inv': "sched_inv bits k s' (Suc m)" by (rule sched_inv_pop [OF s(1) p b(1)])
  have st: "stack s = w0 # X" using c by (simp add: node_ctl_def)
  have w: "w = w0\<lparr>buf := Some b\<rparr>" by (rule pop_record(2) [OF c p b(1)])
  have lo: "mo \<longleftrightarrow> Suc m < tree_steps k"
    using pop_unfold(3) [OF st p] sched_inv_node [OF inv' s(2,3)] s(4) by (metis Suc_leI le_neq_implies_less)
  have bnd: "Suc ?l < 2 ^ 32" "?n < 2 ^ bits" "?l < 2 ^ 32" using c by (auto simp: node_ctl_def)
  have shape: "?l = 1 \<and> w0 = work_item (nid bits ?l ?n) True \<or> 1 < ?l \<and> (\<exists>xs. length xs = 8 \<and> w0 = pending (nid bits ?l ?n) xs)"
    using c by (simp add: node_ctl_def)
  have cur: "cur_item bits (order k 0 ! m) w b"
    using shape w by (auto simp: cur_item_def work_item_def pending_def)
  have h': "mset (held s') = mset (concat (map live_inputs X)) + mset (bs @ [b]) + mset (wip_held mm)" by (rule pop_held [OF c p b(1)])
  have h: "mset (held s) = mset (live_inputs w0) + mset (concat (map live_inputs X)) + mset bs + mset (wip_held mm)"
    by (rule node_ctl_held [OF c])
  have hs: "b \<in> set (held s')" "set (held s') \<subseteq> insert b (set (held s))" "set (live_inputs w0) \<subseteq> set (held s)"
    using arg_cong [OF h', of set_mset] arg_cong [OF h, of set_mset] by auto
  have live: "live_inputs w = live_inputs w0" using w by (simp add: live_inputs_def)
  have cv: "cur_vals val (in_val bits val) (order k 0 ! m) w b mem s'" if v: "vals_ok (in_val bits val) mem s" for val :: "nat \<Rightarrow> nat \<Rightarrow> 'v" and mem
    unfolding cur_vals_def
  proof (intro conjI impI allI)
    assume "1 < ?l"
    then obtain xs where xs: "length xs = 8" "w0 = pending (nid bits ?l ?n) xs" using shape by auto
    have "item_vals (in_val bits val) mem w0" using v st by (simp add: vals_ok_def)
    then have "\<forall>q < 8. mem (xs ! q) = val (?l - 1) (8 * ?n + q)"
      using xs item_vals_pending [of xs "in_val bits val" mem] in_val_nid [OF s(2) bnd(3,2), of val] by simp
    moreover have "b \<notin> set xs" using hs(3) b(2) xs(2) by auto
    ultimately show "\<exists>xs. length xs = 8 \<and> inputs w = map Some xs \<and> b \<notin> set xs \<and> (\<forall>q < 8. mem (xs ! q) = val (?l - 1) (8 * ?n + q))"
      using xs w by (intro exI [of _ xs]) (simp add: pending_def)
  next
    fix mem'
    assume m': "mem' b = val ?l ?n" "\<forall>x \<in> set (held s'). x \<noteq> b \<longrightarrow> mem' x = mem x"
    have "?n div 8 < 2 ^ bits" using bnd(2) by (meson div_le_dividend le_less_trans)
    then have "in_val bits val (nid bits (Suc ?l) (?n div 8)) (?n mod 8) = val ?l ?n"
      using in_val_nid [OF s(2) bnd(1), of "?n div 8" val "?n mod 8"] by simp
    with m'(1) have "mem' b = in_val bits val (nid bits (Suc ?l) (?n div 8)) (?n mod 8)" by simp
    then show "vals_ok (in_val bits val) mem' s'"
      using b(2) by (intro pop_vals [OF c p b(1) i8(1) v _ m'(2)]) auto
  qed
  have "pool_inv s' F" using b i8 by (simp add: pool_inv_def)
  from that [OF p lo inv' cur b(2) this _ hs(1,2) cv] hs(3) live show ?thesis by simp
qed

lemma pool_inv_bufs:
  assumes "pool_ok B (set (held s) \<union> F)" "distinct (held s)" "set (held s) \<inter> F = {}" "inputs8 s"
  shows "pool_inv (s\<lparr>bufs := B\<rparr>) F"
  using assms by (simp add: pool_inv_def held_def inputs8_def)

lemma held_bufs [simp]: "held (s\<lparr>bufs := B\<rparr>) = held s"
  by (simp add: held_def)

lemma cur_vals_bufs [simp]: "cur_vals val V p w b mem (s\<lparr>bufs := B\<rparr>) = cur_vals val V p w b mem s"
  by (simp add: cur_vals_def vals_ok_def)

lemma vals_ok_bufs [simp]: "vals_ok V mem (s\<lparr>bufs := B\<rparr>) = vals_ok V mem s"
  by (simp add: vals_ok_def)


section \<open>A new scheduler\<close>

lemma pops_fields:
  fixes s t :: "'d scheduler_t"
  assumes "pops bits s ws t"
  shows "initial_nodes t = initial_nodes s \<and> arity t = arity s"
  using assms
proof (induction rule: pops.induct)
  case (pops_Cons B d s mo w s' b ws t)
  have "initial_nodes s' = initial_nodes s \<and> arity s' = arity s"
    using pops_Cons.hyps(1)
    by (cases "stack s") (auto simp: sched_next_def sched_record_def Let_def split: if_splits option.splits prod.splits)
  with pops_Cons.IH show ?case by simp
qed simp

lemma sched_inv_fields:
  assumes "sched_inv bits k s m"
  shows "initial_nodes s = 8 ^ k" "arity s = 8"
proof -
  obtain bs0 d0 ws s' B D where p: "pops bits (sched_new bits (8 ^ k) 8 bs0 d0) ws s'" "s = s'\<lparr>bufs := B, data := D\<rparr>"
    using assms by (rule sched_invE)
  from pops_fields [OF p(1)] p(2) show "initial_nodes s = 8 ^ k" "arity s = 8"
    by (simp_all add: sched_new_def sched_reset_def)
qed

lemma sched_inv_start:
  assumes "initial_nodes s = 8 ^ k" "arity s = 8"
  shows "sched_inv bits k (sched_reset bits s) 0"
proof -
  have "sched_reset bits s = sched_new bits (8 ^ k) 8 (bufs s) (data s)"
    using assms by (cases s) (simp add: sched_new_def sched_reset_def)
  moreover have "(sched_reset bits s)\<lparr>bufs := bufs s, data := data s\<rparr> = sched_reset bits s" by (cases s) (simp add: sched_reset_def)
  ultimately show ?thesis
    unfolding sched_inv_def
    by (intro exI [of _ "bufs s"] exI [of _ "data s"] exI [of _ "[]"] exI [of _ "sched_reset bits s"]
        exI [of _ "bufs s"] exI [of _ "data s"]) (simp add: pops_Nil)
qed

lemma reset_fields [simp]:
  "bufs (sched_reset bits s) = bufs s" "held (sched_reset bits s) = []" "inputs8 (sched_reset bits s)"
  "vals_ok V mem (sched_reset bits s)"
  by (auto simp: sched_reset_def held_def live_inputs_def wip_held_def inputs8_def vals_ok_def
      work_item_def item_vals_def arity8)


section \<open>Running the tree\<close>

lemma sched_record_data: "sched_record bits w (s\<lparr>data := D\<rparr>) = (sched_record bits w s)\<lparr>data := D\<rparr>"
  by (simp add: sched_record_def Let_def split: option.splits)

lemma sched_next_cb:
  assumes "sched_next bits (\<lambda>_ x. x) True s = (mo, Some w, s')"
  shows "sched_next bits cb False s = (mo, nullptr, s'\<lparr>data := cb w (data s)\<rparr>)"
proof (cases "stack s")
  case Nil
  then show ?thesis using assms by (simp add: sched_next_def)
next
  case (Cons w0 X)
  note p = pop_unfold [OF Cons assms]
  let ?B = "if is_leaf w0 then snd (buffers_get (bufs s)) else fold buffers_put (inputs w0) (snd (buffers_get (bufs s)))"
  have "snd (snd (sched_next bits cb False s)) =
      sched_record bits w ((s\<lparr>stack := X, bufs := ?B, hash_count := hash_count s + 1\<rparr>)\<lparr>data := cb w (data s)\<rparr>)"
    using Cons p(1) by (simp add: sched_next_def Let_def split: prod.splits)
  then have s': "snd (snd (sched_next bits cb False s)) = s'\<lparr>data := cb w (data s)\<rparr>"
    unfolding sched_record_data p(2) by simp
  moreover have "fst (sched_next bits cb False s) \<longleftrightarrow> stack (snd (snd (sched_next bits cb False s))) \<noteq> []"
    "fst (snd (sched_next bits cb False s)) = nullptr"
    using Cons by (simp_all add: sched_next_def Let_def case_prod_beta)
  ultimately show ?thesis using p(3) by (simp add: prod_eq_iff)
qed

lemma sched_inv_done:
  assumes "sched_inv bits k s (tree_steps k)" "bits \<le> 32" "8 ^ k \<le> (2 :: nat) ^ bits"
  obtains b where "wip s = [(nid bits (k + 2) 0, pending (nid bits (k + 2) 0) [b])]"
proof -
  obtain bs0 d0 ws s' B D where p: "pops bits (sched_new bits (8 ^ k) 8 bs0 d0) ws s'" "length ws = tree_steps k" "s = s'\<lparr>bufs := B, data := D\<rparr>"
    using assms(1) by (rule sched_invE)
  from pops_order(2) [OF assms(2,3) p(1,2)] p(3) that show ?thesis by auto
qed

lemma data_update [simp]:
  "held (s\<lparr>data := D\<rparr>) = held s" "pool_inv (s\<lparr>data := D\<rparr>) F = pool_inv s F" "vals_ok V mem (s\<lparr>data := D\<rparr>) = vals_ok V mem s"
  by (simp_all add: held_def pool_inv_def inputs8_def vals_ok_def)

locale tree_client =
  fixes bits k :: nat and cb :: "'d hash_cb_t" and mem :: "'d \<Rightarrow> nat \<Rightarrow> 'v" and val :: "nat \<Rightarrow> nat \<Rightarrow> 'v" and Inv :: "nat \<Rightarrow> 'd \<Rightarrow> bool"
  assumes bits: "bits \<le> 32" "8 ^ k \<le> (2 :: nat) ^ bits"
    and callback: "m < tree_steps k \<Longrightarrow> order k 0 ! m = (l, n) \<Longrightarrow> cur_item bits (l, n) w b \<Longrightarrow>
      (1 < l \<Longrightarrow> \<exists>xs. length xs = 8 \<and> inputs w = map Some xs \<and> b \<notin> set xs \<and> (\<forall>q < 8. mem d (xs ! q) = val (l - 1) (8 * n + q))) \<Longrightarrow>
      Inv m d \<Longrightarrow> Inv (Suc m) (cb w d) \<and> mem (cb w d) b = val l n \<and> (\<forall>x. x \<noteq> b \<longrightarrow> mem (cb w d) x = mem d x)"
begin

definition run_inv :: "nat \<Rightarrow> 'd scheduler_t \<Rightarrow> bool" where
  "run_inv m s \<longleftrightarrow> sched_inv bits k s m \<and> pool_inv s {} \<and> vals_ok (in_val bits val) (mem (data s)) s \<and> Inv m (data s)"

lemma run_next:
  assumes "run_inv m s" "m < tree_steps k"
  shows "\<exists>s'. sched_next bits cb False s = (Suc m < tree_steps k, nullptr, s') \<and> run_inv (Suc m) s'"
proof -
  have I: "sched_inv bits k s m" "pool_inv s {}" "vals_ok (in_val bits val) (mem (data s)) s" "Inv m (data s)"
    using assms(1) by (simp_all add: run_inv_def)
  obtain l n where o: "order k 0 ! m = (l, n)" by (cases "order k 0 ! m")
  from pop_item [OF I(1) bits assms(2) I(2)] obtain mo w s' b where
    p: "sched_next bits (\<lambda>_ x. x) True s = (mo, Some w, s')" "mo \<longleftrightarrow> Suc m < tree_steps k" "sched_inv bits k s' (Suc m)"
      "cur_item bits (l, n) w b" "pool_inv s' {}"
      "cur_vals val (in_val bits val) (l, n) w b (mem (data s)) s'"
    using I(3) unfolding o by metis
  let ?d = "cb w (data s)"
  have "1 < l \<Longrightarrow> \<exists>xs. length xs = 8 \<and> inputs w = map Some xs \<and> b \<notin> set xs \<and> (\<forall>q < 8. mem (data s) (xs ! q) = val (l - 1) (8 * n + q))"
    using p(6) unfolding cur_vals_def by auto
  from callback [OF assms(2) o p(4) this I(4)]
  have c: "Inv (Suc m) ?d" "mem ?d b = val l n" "\<forall>x. x \<noteq> b \<longrightarrow> mem ?d x = mem (data s) x" by auto
  then have "vals_ok (in_val bits val) (mem ?d) s'" using p(6) by (simp add: cur_vals_def)
  with c(1) p(5) sched_inv_data [OF p(3), of ?d] have "run_inv (Suc m) (s'\<lparr>data := ?d\<rparr>)" by (simp add: run_inv_def)
  with sched_next_cb [OF p(1), of cb] p(2) show ?thesis by blast
qed

lemma run_loop:
  assumes "run_inv m s" "m < tree_steps k"
  shows "\<exists>s'. sched_loop bits cb s = Some s' \<and> run_inv (tree_steps k) s'"
  using assms
proof (induction "tree_steps k - m" arbitrary: m s)
  case (Suc j)
  from run_next [OF Suc.prems] obtain s' where
    n: "sched_next bits cb False s = (Suc m < tree_steps k, nullptr, s')" "run_inv (Suc m) s'" by blast
  show ?case
  proof (cases "Suc m < tree_steps k")
    case True
    have "j = tree_steps k - Suc m" using Suc.hyps(2) by simp
    from Suc.hyps(1) [OF this n(2) True] n(1) True show ?thesis by (subst sched_loop.simps) simp
  next
    case False
    then have "Suc m = tree_steps k" using Suc.prems(2) by simp
    with n False show ?thesis by (subst sched_loop.simps) simp
  qed
qed simp

theorem run_root:
  assumes "Inv 0 d" "pool_ok bs {}"
  shows "\<exists>b s'. sched_run bits cb (sched_new bits (8 ^ k) 8 bs d) = Some (Inr (Some b, s')) \<and>
    mem (data s') b = val (Suc k) 0 \<and> Inv (tree_steps k) (data s') \<and> sched_is_done s' = Inr True"
proof -
  let ?s = "sched_new bits (8 ^ k) 8 bs d"
  have "sched_inv bits k ?s 0"
    unfolding sched_new_def by (rule sched_inv_start) simp_all
  moreover have "bufs ?s = bs" "data ?s = d" by (simp_all add: sched_new_def sched_reset_def)
  ultimately have "run_inv 0 ?s" using assms by (simp add: run_inv_def pool_inv_def sched_new_def)
  from run_loop [OF this tree_steps_pos] obtain s' where
    s': "sched_loop bits cb ?s = Some s'" "run_inv (tree_steps k) s'" by blast
  let ?key = "nid bits (k + 2) 0"
  have "sched_inv bits k s' (tree_steps k)" using s'(2) by (simp add: run_inv_def)
  then obtain b where b: "wip s' = [(?key, pending ?key [b])]" using bits by (rule sched_inv_done)
  have "item_vals (in_val bits val) (mem (data s')) (pending ?key [b])" using s'(2) b by (simp add: run_inv_def vals_ok_def)
  then have "mem (data s') b = in_val bits val ?key 0" using item_vals_pending [of "[b]" "in_val bits val"] by simp
  moreover have "k + 2 < 2 ^ 32" using tree_depth [OF bits] by simp
  ultimately have "mem (data s') b = val (Suc k) 0" using in_val_nid [OF bits(1), of "k + 2" 0 val 0] by simp
  moreover have "inputs (pending ?key [b]) = Some b # replicate 7 nullptr" by (simp add: pending_def eval_nat_numeral)
  ultimately show ?thesis
    using s' b by (simp add: sched_run_def sched_is_done_def run_inv_def eval_nat_numeral)
qed

end

end
