(* ===== verification/PC2_Stream.thy ===== *)
theory PC2_Stream
  imports PC2_Gpu Sched_Item
begin

text \<open>
  Correctness of a GPU stream of PC2.  The two schedulers of a stream share
  one pool of device buffers, so that the buffer which tree-R gets for its
  result may be one that tree-C has just returned and still has to read.  The
  invariant \<open>stream_inv\<close> states which buffers hold which tree nodes in
  every state of the state machine, and which requests have been handed to the
  disk writers; it is preserved by every turn of the loop, whatever the loop
  reads from its surroundings, and by the callbacks.
\<close>

section \<open>The nodes of a stream and its requests\<close>

definition stream_base :: "pc2_t \<Rightarrow> nat \<Rightarrow> nat \<Rightarrow> nat" where
  "stream_base c part i = nodes_per_stream c * i + part * nodes_to_read c"

definition column :: "'f :: comm_ring_1 env \<Rightarrow> pc2_t \<Rightarrow> nat \<Rightarrow> nat \<Rightarrow> 'f" where
  "column e c s n = hcol e (map (\<lambda>l. e_layer e l n s) [0..<GetNumLayers (p_size c)])"

definition replica :: "'f env \<Rightarrow> pc2_t \<Rightarrow> nat \<Rightarrow> nat \<Rightarrow> 'f" where
  "replica e c s n =
     (let x = e_layer e (GetNumLayers (p_size c) - 1) n s in
      case e_data e s of None \<Rightarrow> x | Some df \<Rightarrow> encode_element e x (df ! n))"

definition leaves_c :: "'f :: comm_ring_1 env \<Rightarrow> pc2_t \<Rightarrow> nat \<Rightarrow> nat \<Rightarrow> nat \<Rightarrow> 'f list" where
  "leaves_c e c part i s = map (\<lambda>j. column e c s (stream_base c part i + j)) [0..<nodes_per_stream c]"

definition leaves_r :: "'f :: comm_ring_1 env \<Rightarrow> pc2_t \<Rightarrow> nat \<Rightarrow> nat \<Rightarrow> nat \<Rightarrow> 'f list" where
  "leaves_r e c part i s = map (\<lambda>j. conv e (replica e c s (stream_base c part i + j))) [0..<nodes_per_stream c]"

definition node_val :: "'f :: comm_ring_1 env \<Rightarrow> nat \<Rightarrow> nat \<Rightarrow> (nat \<Rightarrow> 'f list) \<Rightarrow> nat \<Rightarrow> nat \<Rightarrow> 'f list" where
  "node_val e S G leaves l n = by_sector S (\<lambda>s. block G (levels (h8 e) 8 l (leaves s)) n)"

definition request :: "pc2_t \<Rightarrow> file_writer_t list list \<Rightarrow> nat \<Rightarrow> nat \<Rightarrow> nat \<Rightarrow> 'f list \<Rightarrow> 'f buf_to_disk_t" where
  "request c files part off n xs =
     \<lparr>bd_data = xs, bd_dst = map (\<lambda>s. files ! s ! part) [0..<sectors c], bd_offset = off,
      bd_src = map (\<lambda>i. Some (i * n)) [0..<sectors c], bd_size = n, bd_stride = 1, bd_reverse = False\<rparr>"

definition replica_block :: "'f env \<Rightarrow> pc2_t \<Rightarrow> nat \<Rightarrow> 'f list" where
  "replica_block e c sn = concat (map (\<lambda>j. map (\<lambda>s. replica e c s (sn + j)) [0..<sectors c]) [0..<batch_size c])"

definition req_sealed :: "'f env \<Rightarrow> pc2_t \<Rightarrow> nat \<Rightarrow> 'f buf_to_disk_t" where
  "req_sealed e c sn =
     \<lparr>bd_data = replica_block e c sn, bd_dst = sealed_files c, bd_offset = sn, bd_src = map Some [0..<sectors c],
      bd_size = batch_size c, bd_stride = sectors c, bd_reverse = True\<rparr>"

definition req_col :: "'f :: comm_ring_1 env \<Rightarrow> pc2_t \<Rightarrow> nat \<Rightarrow> nat \<Rightarrow> nat \<Rightarrow> 'f buf_to_disk_t" where
  "req_col e c part i n =
     request c (tree_c_files c) part (n * batch_size c + nodes_per_stream c * i) (batch_size c)
       (by_sector (sectors c) (\<lambda>s. block (batch_size c) (leaves_c e c part i s) n))"

definition req_c :: "'f :: comm_ring_1 env \<Rightarrow> pc2_t \<Rightarrow> nat \<Rightarrow> nat \<Rightarrow> nat \<Rightarrow> nat \<Rightarrow> nat \<Rightarrow> nat \<Rightarrow> 'f buf_to_disk_t" where
  "req_c e c part i K G l n =
     request c (tree_c_files c) part (row_start K l + (n * G + nodes_per_stream c div 8 ^ l * i)) G
       (node_val e (sectors c) G (leaves_c e c part i) l n)"

definition req_r :: "'f :: comm_ring_1 env \<Rightarrow> pc2_t \<Rightarrow> nat \<Rightarrow> nat \<Rightarrow> nat \<Rightarrow> nat \<Rightarrow> nat \<Rightarrow> nat \<Rightarrow> nat \<Rightarrow> 'f buf_to_disk_t" where
  "req_r e c part i K G d l n =
     request c (tree_r_files c) part (row_start (K - (d + 1)) (l - d - 1) + (n * G + nodes_per_stream c div 8 ^ l * i)) G
       (node_val e (sectors c) G (leaves_r e c part i) l n)"

definition reqs :: "'f :: comm_ring_1 env \<Rightarrow> pc2_t \<Rightarrow> nat \<Rightarrow> nat \<Rightarrow> nat \<Rightarrow> nat \<Rightarrow> nat \<Rightarrow> nat \<times> nat \<Rightarrow> 'f buf_to_disk_t list" where
  "reqs e c part i K G d p =
     (let l = fst p; n = snd p in
      if l = 1 then [req_sealed e c (stream_base c part i + n * batch_size c)] @
        (if tree_r_only c then [] else [req_col e c part i n, req_c e c part i K G 1 n])
      else (if tree_r_only c then [] else [req_c e c part i K G l n]) @
        (if d < l then [req_r e c part i K G d l n] else []))"

definition all_reqs :: "'f :: comm_ring_1 env \<Rightarrow> pc2_t \<Rightarrow> nat \<Rightarrow> nat \<Rightarrow> nat \<Rightarrow> nat \<Rightarrow> nat \<Rightarrow> nat \<Rightarrow> nat \<Rightarrow> 'f buf_to_disk_t list" where
  "all_reqs e c part i K G d k m = concat (map (reqs e c part i K G d) (take m (order k 0)))"

text \<open>
  The shapes the proofs need: \<open>8 ^ k\<close> batches per stream, a batch of
  \<open>8 * G\<close> nodes, and a part of \<open>8 ^ K\<close> nodes.
\<close>

definition stream_ok :: "'f :: comm_ring_1 env \<Rightarrow> pc2_t \<Rightarrow> nat \<Rightarrow> nat \<Rightarrow> nat \<Rightarrow> nat \<Rightarrow> nat \<Rightarrow> nat \<Rightarrow> bool" where
  "stream_ok e c part i k G K d \<longleftrightarrow>
     device_ok e (GetNumLayers (p_size c)) \<and> (GetNumLayers (p_size c) = 2 \<or> GetNumLayers (p_size c) = 11) \<and>
     0 < sectors c \<and> batch_size c = 8 * G \<and> 8 \<le> G \<and> nodes_per_stream c = 8 ^ k * batch_size c \<and>
     nodes_to_read c = 8 ^ K \<and> nodes_to_read c = nodes_per_stream c * stream_count c \<and> i < stream_count c \<and>
     p_bits c \<le> 32 \<and> 8 ^ K \<le> (2 :: nat) ^ p_bits c \<and> d = GetNumTreeRDiscardRows (p_size c) \<and> d \<le> k \<and>
     tree_c_address c = tree_address_new (8 ^ K) fr_size 0 \<and> tree_r_address c = tree_address_new (8 ^ K) fr_size (d + 1) \<and>
     layer_offsets_c c = offset_table (8 ^ Suc k * G) \<and> layer_offsets_r c = offset_table (8 ^ (k - d) * G) \<and>
     (\<not> tree_r_only c \<longrightarrow> length (tree_c_files c) = sectors c \<and> (\<forall>fs \<in> set (tree_c_files c). part < length fs)) \<and>
     length (tree_r_files c) = sectors c \<and> (\<forall>fs \<in> set (tree_r_files c). part < length fs) \<and>
     (\<forall>s < sectors c. \<forall>df. e_data e s = Some df \<longrightarrow> Suc part * nodes_to_read c \<le> length df) \<and>
     (\<not> has_non_cc_sectors c \<longrightarrow> (\<forall>s < sectors c. e_data e s = None))"

lemma stream_okD:
  assumes "stream_ok e c part i k G K d"
  shows "nodes_per_stream c = 8 ^ k * batch_size c" "nodes_to_read c = nodes_per_stream c * stream_count c" "i < stream_count c"
    "\<forall>s < sectors c. \<forall>df. e_data e s = Some df \<longrightarrow> Suc part * nodes_to_read c \<le> length df"
    "\<not> has_non_cc_sectors c \<Longrightarrow> \<forall>s < sectors c. e_data e s = None"
    "tree_c_address c = tree_address_new (8 ^ K) fr_size 0" "tree_r_address c = tree_address_new (8 ^ K) fr_size (d + 1)"
    "layer_offsets_c c = offset_table (8 ^ Suc k * G)" "layer_offsets_r c = offset_table (8 ^ (k - d) * G)"
    "\<not> tree_r_only c \<Longrightarrow> length (tree_c_files c) = sectors c"
    "\<not> tree_r_only c \<Longrightarrow> \<forall>fs \<in> set (tree_c_files c). part < length fs"
    "length (tree_r_files c) = sectors c" "\<forall>fs \<in> set (tree_r_files c). part < length fs"
    "d = GetNumTreeRDiscardRows (p_size c)" "d \<le> k" "batch_size c = 8 * G" "8 \<le> G" "0 < sectors c" "p_bits c \<le> 32"
    "device_ok e (GetNumLayers (p_size c))" "GetNumLayers (p_size c) = 2 \<or> GetNumLayers (p_size c) = 11"
  using assms unfolding stream_ok_def by blast+

lemma offset_table_power:
  assumes "8 \<le> G" "l \<le> m"
  shows "vec_get (offset_table (8 ^ m * G)) l = Inr (8 ^ (m - l) * G)"
  using assms(2)
proof (induction m arbitrary: l)
  case 0
  then show ?case using assms(1) by (subst offset_table.simps) (simp add: arity8)
next
  case (Suc m)
  have "8 * 1 \<le> 8 * (8 ^ m * G)" using assms(1) by (intro mult_le_mono2) (simp add: Suc_leI)
  then have ge: "8 \<le> 8 ^ Suc m * G" by simp
  have "8 ^ Suc m * G div 8 = 8 ^ m * G" by simp
  with ge have t: "offset_table (8 ^ Suc m * G) = 8 ^ Suc m * G # offset_table (8 ^ m * G)"
    by (subst offset_table.simps) (simp only: arity8 if_True)
  show ?case
  proof (cases l)
    case (Suc l')
    then show ?thesis unfolding t using Suc.IH [of l'] Suc.prems by (simp add: vec_get_def split: if_splits)
  qed (simp only: t, simp)
qed


section \<open>Arithmetic of the stream\<close>

lemma stream_facts:
  assumes "stream_ok e c part i k G K d"
  shows "nodes_per_stream c = 8 ^ Suc k * G" "Suc k \<le> K" "K \<le> 10" "8 ^ k \<le> (2 :: nat) ^ p_bits c" "0 < G"
    "l \<le> Suc k \<Longrightarrow> nodes_per_stream c div 8 ^ l = 8 ^ (Suc k - l) * G"
    "l \<le> Suc k \<Longrightarrow> 8 ^ (Suc k - l) * G * stream_count c \<le> 2 ^ p_bits c"
proof -
  have s: "batch_size c = 8 * G" "8 \<le> G" "nodes_per_stream c = 8 ^ k * batch_size c" "nodes_to_read c = 8 ^ K"
    "nodes_to_read c = nodes_per_stream c * stream_count c" "i < stream_count c" "p_bits c \<le> 32" "8 ^ K \<le> (2 :: nat) ^ p_bits c"
    using assms by (auto simp: stream_ok_def)
  show nps: "nodes_per_stream c = 8 ^ Suc k * G" using s by simp
  show G: "0 < G" using s(2) by simp
  have pos: "1 \<le> G * stream_count c" using G s(6) by (simp add: Suc_leI)
  have tot: "8 ^ K = 8 ^ Suc k * (G * stream_count c)" using s(4,5) nps by (simp add: mult.assoc)
  with pos have "(8 :: nat) ^ Suc k \<le> 8 ^ K" using mult_le_mono2 [of 1 "G * stream_count c" "8 ^ Suc k"] by simp
  then show Kk: "Suc k \<le> K" using power_le_imp_le_exp [of "8 :: nat" "Suc k" K] by simp
  show "K \<le> 10" by (rule tree_depth [OF s(7,8)])
  have "(8 :: nat) ^ k \<le> 8 ^ K" using Kk by (intro power_increasing) simp_all
  then show "8 ^ k \<le> (2 :: nat) ^ p_bits c" using s(8) by linarith
  assume l: "l \<le> Suc k"
  then have e: "(8 :: nat) ^ Suc k = 8 ^ (Suc k - l) * 8 ^ l" by (metis le_add_diff_inverse2 power_add)
  have "nodes_per_stream c = 8 ^ (Suc k - l) * G * 8 ^ l" unfolding nps e by (simp only: mult_ac)
  then show "nodes_per_stream c div 8 ^ l = 8 ^ (Suc k - l) * G" by simp
  have "8 ^ (Suc k - l) * (G * stream_count c) \<le> 8 ^ Suc k * (G * stream_count c)"
    by (intro mult_le_mono1 power_increasing) simp_all
  then have "8 ^ (Suc k - l) * G * stream_count c \<le> 8 ^ K" unfolding tot mult.assoc .
  then show "8 ^ (Suc k - l) * G * stream_count c \<le> 2 ^ p_bits c" using s(8) by linarith
qed

lemma node_in_row:
  assumes "stream_ok e c part i k G K d" "l \<le> Suc k" "n < 8 ^ (Suc k - l)"
  shows "Suc n * G \<le> 8 ^ (Suc k - l) * G" "n * G + 8 ^ (Suc k - l) * G * i < 2 ^ p_bits c"
proof -
  show a: "Suc n * G \<le> 8 ^ (Suc k - l) * G" using assms(3) by (intro mult_le_mono1) simp
  have "8 ^ (Suc k - l) * G * Suc i \<le> 8 ^ (Suc k - l) * G * stream_count c"
    using assms(1) by (intro mult_le_mono2) (simp add: stream_ok_def Suc_leI)
  also have "\<dots> \<le> 2 ^ p_bits c" by (rule stream_facts(7) [OF assms(1,2)])
  finally have "8 ^ (Suc k - l) * G + 8 ^ (Suc k - l) * G * i \<le> 2 ^ p_bits c" by (simp add: algebra_simps)
  moreover have "0 < G" by (rule stream_facts(5) [OF assms(1)])
  ultimately show "n * G + 8 ^ (Suc k - l) * G * i < 2 ^ p_bits c" using a unfolding mult_Suc by linarith
qed

lemma tree_request_ok:
  assumes "vec_get offs layer = Inr lo" "ta = tree_address_new (8 ^ K) fr_size d" "d \<le> K" "layer \<le> K - d" "p_bits c \<le> 32"
    "first + lo * i < 2 ^ p_bits c" "K \<le> 10" "length files = sectors c" "\<forall>fs \<in> set files. part < length fs"
  shows "tree_request c ta offs files part i layer first n xs =
    Inr (request c files part (row_start (K - d) layer + (first + lo * i)) n xs)"
proof -
  have "map_result (\<lambda>i. bind_result (vec_get files i) (\<lambda>fs. vec_get fs part)) [0..<sectors c] =
      Inr (map (\<lambda>i. files ! i ! part) [0..<sectors c])"
    using assms(8,9) by (intro map_result_Inr) simp
  moreover have "ta_address (p_bits c) ta (nid (p_bits c) layer (first + lo * i)) =
      Inr ((row_start (K - d) layer + (first + lo * i)) * fr_size)"
    using ta_address_row [OF assms(3,4,5,6)] assms(2,7) by simp
  ultimately show ?thesis using assms(1) by (simp add: tree_request_def request_def fr_size_def)
qed


section \<open>Values\<close>

lemma concat_sub_blocks:
  assumes "Suc n * (m * G) \<le> length ys" "0 < G"
  shows "concat (map (\<lambda>q. block G ys (m * n + q)) [0..<m]) = block (m * G) ys n"
proof -
  let ?b = "block (m * G) ys n"
  have lb: "length ?b = m * G" by (rule length_block [OF assms(1)])
  have "block G ?b q = block G ys (m * n + q)" if q: "q < m" for q
  proof -
    have "Suc q * G \<le> m * G" using q by (intro mult_le_mono1) simp
    then have "min G (m * G - q * G) = G" by simp
    moreover have "q * G + n * (m * G) = (m * n + q) * G" by (simp add: algebra_simps)
    ultimately show ?thesis by (simp add: block_def drop_take)
  qed
  then have "map (\<lambda>q. block G ys (m * n + q)) [0..<m] = blocks G ?b"
    using lb assms(2) by (simp add: blocks_def)
  then show ?thesis using concat_blocks [of G ?b] lb assms(2) by simp
qed

lemma node_val_step:
  assumes "\<And>s. s < S \<Longrightarrow> length (leaves s) = 8 ^ Suc k * G" "1 < l" "l \<le> Suc k" "n < 8 ^ (Suc k - l)" "0 < G"
  shows "by_sector S (\<lambda>s. level (h8 e) 8 (concat (map (\<lambda>q. block G (levels (h8 e) 8 (l - 1) (leaves s)) (8 * n + q)) [0..<8]))) =
    node_val e S G leaves l n"
proof -
  have "level (h8 e) 8 (concat (map (\<lambda>q. block G (levels (h8 e) 8 (l - 1) (leaves s)) (8 * n + q)) [0..<8])) =
      block G (levels (h8 e) 8 l (leaves s)) n" if s: "s < S" for s
  proof -
    let ?ys = "levels (h8 e) 8 (l - 1) (leaves s)"
    have "Suc k = (Suc k - l) + 1 + (l - 1)" using assms(2,3) by simp
    then have "(8 :: nat) ^ Suc k = 8 ^ (Suc k - l) * 8 * 8 ^ (l - 1)" by (metis power_add power_one_right)
    then have "length (leaves s) = 8 ^ (Suc k - l) * (G * 8) * 8 ^ (l - 1)" using assms(1) [OF s] by (simp only: mult_ac)
    then have ly: "length ?ys = 8 ^ (Suc k - l) * (G * 8)"
      using tree8.length_levels [of "leaves s" _ "l - 1" "h8 e"] by (simp only: arity8)
    have "Suc n * (8 * G) \<le> 8 ^ (Suc k - l) * (8 * G)" using assms(4) by (intro mult_le_mono1) simp
    with ly have "Suc n * (8 * G) \<le> length ?ys" by (simp add: mult.commute)
    from concat_sub_blocks [OF this assms(5)]
    have "concat (map (\<lambda>q. block G ?ys (8 * n + q)) [0..<8]) = block (G * 8) ?ys n" by (simp add: mult.commute)
    moreover have "level (h8 e) 8 (block (G * 8) ?ys n) = block G (level (h8 e) 8 ?ys) n"
      using level_block [OF ly assms(4)] by simp
    moreover have "level (h8 e) 8 ?ys = levels (h8 e) 8 l (leaves s)"
      using assms(2) levels_Suc_end [of "h8 e" 8 "l - 1" "leaves s"] by simp
    ultimately show ?thesis by simp
  qed
  then show ?thesis unfolding node_val_def by_sector_def by (intro arg_cong [of _ _ concat] map_cong) simp_all
qed

lemma node_val_length:
  assumes "\<And>s. s < S \<Longrightarrow> length (leaves s) = 8 ^ Suc k * G" "l \<le> Suc k" "n < 8 ^ (Suc k - l)" "s < S"
  shows "length (block G (levels (h8 e) 8 l (leaves s)) n) = G" "length (levels (h8 e) 8 l (leaves s)) = 8 ^ (Suc k - l) * G"
proof -
  have "(8 :: nat) ^ Suc k = 8 ^ (Suc k - l) * 8 ^ l" using assms(2) by (metis le_add_diff_inverse2 power_add)
  then have "length (leaves s) = 8 ^ (Suc k - l) * G * 8 ^ l" using assms(1) [OF assms(4)] by (simp only: mult_ac)
  then show ly: "length (levels (h8 e) 8 l (leaves s)) = 8 ^ (Suc k - l) * G"
    using tree8.length_levels [of "leaves s" _ l "h8 e"] by (simp add: arity8)
  have "Suc n * G \<le> 8 ^ (Suc k - l) * G" using assms(3) by (intro mult_le_mono1) simp
  then show "length (block G (levels (h8 e) 8 l (leaves s)) n) = G" using ly by (intro length_block) simp
qed

lemma length_node_val:
  assumes "\<And>s. s < S \<Longrightarrow> length (leaves s) = 8 ^ Suc k * G" "l \<le> Suc k" "n < 8 ^ (Suc k - l)"
  shows "length (node_val e S G leaves l n) = S * G"
  unfolding node_val_def
  by (rule length_by_sector) (rule node_val_length(1) [where S = S and leaves = leaves, OF assms])

lemma hash_inputs_ok:
  assumes "stream_ok e c part i k G K d" "\<And>s. s < sectors c \<Longrightarrow> length (leaves s) = 8 ^ Suc k * G"
    "1 < l" "l \<le> Suc k" "n < 8 ^ (Suc k - l)" "length xs = 8" "inputs w = map Some xs" "buf w = Some b"
    "\<forall>q < 8. dev g (xs ! q) = node_val e (sectors c) G leaves (l - 1) (8 * n + q)"
  shows "hash_inputs e c w g = Inr (g\<lparr>dev := (dev g)(b := node_val e (sectors c) G leaves l n)\<rparr>)"
proof -
  let ?S = "sectors c"
  have so: "device_ok e (GetNumLayers (p_size c))" "0 < ?S" "batch_size c = 8 * G" "0 < G"
    using assms(1) stream_facts(5) [OF assms(1)] by (simp_all add: stream_ok_def)
  let ?Y = "\<lambda>q s. block G (levels (h8 e) 8 (l - 1) (leaves s)) (8 * n + q)"
  have ex: "Suc k - (l - 1) = Suc (Suc k - l)" using assms(3,4) by simp
  have lY: "length (?Y q s) = G" if "q < 8" "s < ?S" for q s
    using node_val_length(1) [where S = ?S and leaves = leaves and k = k and l = "l - 1" and n = "8 * n + q" and s = s and e = e]
      assms(2-5) that ex by simp
  have "map_result (dev_read g) (inputs w) = Inr (map (\<lambda>p. dev g (the p)) (inputs w))"
    unfolding assms(7) by (intro map_result_Inr) (auto simp: dev_read_def)
  moreover have "map (\<lambda>p. dev g (the p)) (inputs w) = map (\<lambda>q. by_sector ?S (?Y q)) [0..<8]"
    unfolding assms(7) using assms(6,9) by (intro nth_equalityI) (simp_all add: node_val_def)
  moreover have "hash_children e c (map (\<lambda>q. by_sector ?S (?Y q)) [0..<8]) = Inr (node_val e ?S G leaves l n)"
    using hash_children_spec [OF so, of ?Y] lY node_val_step [where S = ?S and leaves = leaves and k = k and l = l and n = n and e = e and G = G, OF assms(2-5) so(4)] by simp
  moreover have "length (node_val e ?S G leaves l n) \<le> batch_size c * ?S"
    using length_node_val [where S = ?S and leaves = leaves and e = e, OF assms(2,4,5)] so(3) by simp
  ultimately show ?thesis using assms(8) by (simp add: hash_inputs_def dev_write_def)
qed


section \<open>The invariant\<close>

definition val_c :: "'f :: comm_ring_1 env \<Rightarrow> pc2_t \<Rightarrow> nat \<Rightarrow> nat \<Rightarrow> nat \<Rightarrow> nat \<Rightarrow> nat \<Rightarrow> 'f list" where
  "val_c e c part i G = node_val e (sectors c) G (leaves_c e c part i)"

definition val_r :: "'f :: comm_ring_1 env \<Rightarrow> pc2_t \<Rightarrow> nat \<Rightarrow> nat \<Rightarrow> nat \<Rightarrow> nat \<Rightarrow> nat \<Rightarrow> 'f list" where
  "val_r e c part i G = node_val e (sectors c) G (leaves_r e c part i)"

definition stored_vals :: "'f :: comm_ring_1 env \<Rightarrow> pc2_t \<Rightarrow> nat \<Rightarrow> nat \<Rightarrow> nat \<Rightarrow> 'f gpu_resource_t \<Rightarrow> bool" where
  "stored_vals e c part i G g \<longleftrightarrow>
     (\<not> tree_r_only c \<longrightarrow> vals_ok (in_val (p_bits c) (val_c e c part i G)) (dev g) (scheduler_c g)) \<and>
     vals_ok (in_val (p_bits c) (val_r e c part i G)) (dev g) (scheduler_r g)"

definition item_inv :: "'f :: comm_ring_1 env \<Rightarrow> pc2_t \<Rightarrow> nat \<Rightarrow> nat \<Rightarrow> nat \<Rightarrow> nat \<times> nat \<Rightarrow> nat \<Rightarrow> nat \<Rightarrow> 'f gpu_resource_t \<Rightarrow> bool" where
  "item_inv e c part i G p bc br g \<longleftrightarrow>
     cur_item (p_bits c) p (work_c g) bc \<and> cur_item (p_bits c) p (work_r g) br \<and> bc \<noteq> br \<and>
     bc \<notin> set (held (scheduler_r g)) \<and> br \<notin> set (held (scheduler_c g)) \<and> bc \<notin> set (live_inputs (work_r g)) \<and>
     (\<not> tree_r_only c \<longrightarrow> cur_vals (val_c e c part i G) (in_val (p_bits c) (val_c e c part i G)) p (work_c g) bc (dev g) (scheduler_c g)) \<and>
     cur_vals (val_r e c part i G) (in_val (p_bits c) (val_r e c part i G)) p (work_r g) br (dev g) (scheduler_r g)"

definition result_inv :: "'f :: comm_ring_1 env \<Rightarrow> pc2_t \<Rightarrow> nat \<Rightarrow> nat \<Rightarrow> nat \<Rightarrow> nat \<Rightarrow> 'f gpu_resource_t \<Rightarrow> bool" where
  "result_inv e c part i G k g \<longleftrightarrow>
     (\<not> tree_r_only c \<longrightarrow> result_c g = val_c e c part i G (Suc k) 0) \<and> result_r g = val_r e c part i G (Suc k) 0"

definition layer_data :: "'f env \<Rightarrow> pc2_t \<Rightarrow> nat \<Rightarrow> 'f list" where
  "layer_data e c sn =
     load_layers e (sectors c) (if tree_r_only c then GetNumLayers (p_size c) - 1 else 0) sn (batch_size c)
       (if tree_r_only c then 1 else GetNumLayers (p_size c))"

definition phase_inv :: "'f :: comm_ring_1 env \<Rightarrow> pc2_t \<Rightarrow> nat \<Rightarrow> nat \<Rightarrow> nat \<Rightarrow> nat \<Rightarrow> nat \<Rightarrow> nat \<Rightarrow> nat \<Rightarrow> 'f gpu_resource_t \<Rightarrow> bool" where
  "phase_inv e c part i k G K d m g \<longleftrightarrow>
     (let p = order k 0 ! (m - 1); sn = stream_base c part i + snd p * batch_size c;
          W = (\<lambda>j. all_reqs e c part i K G d k j); S = req_sealed e c sn in
      case r_state g of
        IDLE \<Rightarrow> m < tree_steps k \<and> async_done g \<and> stored_vals e c part i G g \<and> written g = W m
      | DATA_READ \<Rightarrow> fst p = 1 \<and> async_done g \<and> (\<exists>bc br. item_inv e c part i G p bc br g) \<and> written g = W (m - 1)
      | DATA_WAIT \<Rightarrow> fst p = 1 \<and> async_done g \<and> (\<exists>bc br. item_inv e c part i G p bc br g) \<and> written g = W (m - 1) \<and>
          start_node g = sn \<and> column_data g = layer_data e c sn
      | HASH_COLUMN \<Rightarrow> fst p = 1 \<and> \<not> tree_r_only c \<and> async_done g \<and> (\<exists>bc br. item_inv e c part i G p bc br g) \<and>
          written g = W (m - 1) @ [S] \<and> column_data g = layer_data e c sn \<and> replica_data g = replica_block e c sn
      | HASH_COLUMN_LEAVES \<Rightarrow> fst p = 1 \<and> replica_data g = replica_block e c sn \<and>
          (\<exists>bc br. item_inv e c part i G p bc br g \<and>
             (if tree_r_only c then async_done g \<and> written g = W (m - 1) @ [S]
              else dev g bc = by_sector (sectors c) (\<lambda>s. block (batch_size c) (leaves_c e c part i s) (snd p)) \<and>
                column_data_d g = layer_data e c sn \<and> written g @ pend g = W (m - 1) @ [S, req_col e c part i (snd p)]))
      | HASH_LEAF \<Rightarrow> 1 < fst p \<and> async_done g \<and> (\<exists>bc br. item_inv e c part i G p bc br g) \<and> written g = W (m - 1)
      | HASH_WAIT \<Rightarrow> stored_vals e c part i G g \<and> written g @ pend g = W m \<and> (m = tree_steps k \<longrightarrow> result_inv e c part i G k g)
      | DONE \<Rightarrow> m = tree_steps k \<and> async_done g \<and> written g = W m \<and> result_inv e c part i G k g
      | HASH_COLUMN_WRITE \<Rightarrow> False)"

definition core_inv :: "pc2_t \<Rightarrow> nat \<Rightarrow> nat \<Rightarrow> nat set \<Rightarrow> nat \<Rightarrow> 'f gpu_resource_t \<Rightarrow> bool" where
  "core_inv c i k F m g \<longleftrightarrow>
     r_id g = i \<and> sched_inv (p_bits c) k (scheduler_c g) m \<and> sched_inv (p_bits c) k (scheduler_r g) m \<and>
     bufs (scheduler_c g) = bufs (scheduler_r g) \<and>
     pool_inv (scheduler_c g) (set (held (scheduler_r g)) \<union> F) \<and> pool_inv (scheduler_r g) (set (held (scheduler_c g)) \<union> F) \<and>
     length (column_data_d g) = sectors c * GetNumLayers (p_size c) * batch_size c \<and> m \<le> tree_steps k"

definition stream_inv :: "'f :: comm_ring_1 env \<Rightarrow> pc2_t \<Rightarrow> nat \<Rightarrow> nat \<Rightarrow> nat \<Rightarrow> nat \<Rightarrow> nat \<Rightarrow> nat \<Rightarrow> nat set \<Rightarrow> nat \<Rightarrow>
    'f gpu_resource_t \<Rightarrow> bool" where
  "stream_inv e c part i k G K d F m g \<longleftrightarrow>
     core_inv c i k F m g \<and> (async_done g \<longrightarrow> pend g = []) \<and> (r_state g \<noteq> IDLE \<longrightarrow> 0 < m \<and> (r_last g \<longleftrightarrow> m = tree_steps k)) \<and>
     phase_inv e c part i k G K d m g"

lemma item_inv_update [simp]:
  "item_inv e c part i G p bc br (g\<lparr>start_node := n\<rparr>) = item_inv e c part i G p bc br g"
  "item_inv e c part i G p bc br (g\<lparr>column_data := xs\<rparr>) = item_inv e c part i G p bc br g"
  "item_inv e c part i G p bc br (g\<lparr>column_data_d := xs\<rparr>) = item_inv e c part i G p bc br g"
  "item_inv e c part i G p bc br (g\<lparr>replica_data := xs\<rparr>) = item_inv e c part i G p bc br g"
  "item_inv e c part i G p bc br (g\<lparr>written := w\<rparr>) = item_inv e c part i G p bc br g"
  "item_inv e c part i G p bc br (g\<lparr>pend := w\<rparr>) = item_inv e c part i G p bc br g"
  "item_inv e c part i G p bc br (g\<lparr>async_done := a\<rparr>) = item_inv e c part i G p bc br g"
  "item_inv e c part i G p bc br (g\<lparr>r_state := st\<rparr>) = item_inv e c part i G p bc br g"
  by (simp_all add: item_inv_def)

lemma stored_vals_update [simp]:
  "stored_vals e c part i G (g\<lparr>written := w\<rparr>) = stored_vals e c part i G g"
  "stored_vals e c part i G (g\<lparr>pend := w\<rparr>) = stored_vals e c part i G g"
  "stored_vals e c part i G (g\<lparr>async_done := a\<rparr>) = stored_vals e c part i G g"
  "stored_vals e c part i G (g\<lparr>r_state := st\<rparr>) = stored_vals e c part i G g"
  "stored_vals e c part i G (g\<lparr>result_c := xs\<rparr>) = stored_vals e c part i G g"
  "stored_vals e c part i G (g\<lparr>result_r := xs\<rparr>) = stored_vals e c part i G g"
  "stored_vals e c part i G (g\<lparr>column_data_d := xs\<rparr>) = stored_vals e c part i G g"
  by (simp_all add: stored_vals_def)

lemma core_inv_update [simp]:
  "core_inv c i k F m (g\<lparr>start_node := n\<rparr>) = core_inv c i k F m g"
  "core_inv c i k F m (g\<lparr>column_data := xs\<rparr>) = core_inv c i k F m g"
  "core_inv c i k F m (g\<lparr>replica_data := xs\<rparr>) = core_inv c i k F m g"
  "core_inv c i k F m (g\<lparr>written := w\<rparr>) = core_inv c i k F m g"
  "core_inv c i k F m (g\<lparr>pend := w\<rparr>) = core_inv c i k F m g"
  "core_inv c i k F m (g\<lparr>async_done := a\<rparr>) = core_inv c i k F m g"
  "core_inv c i k F m (g\<lparr>r_state := st\<rparr>) = core_inv c i k F m g"
  "core_inv c i k F m (g\<lparr>dev := mem\<rparr>) = core_inv c i k F m g"
  "core_inv c i k F m (g\<lparr>result_c := xs\<rparr>) = core_inv c i k F m g"
  "core_inv c i k F m (g\<lparr>result_r := xs\<rparr>) = core_inv c i k F m g"
  "length xs = sectors c * GetNumLayers (p_size c) * batch_size c \<Longrightarrow> core_inv c i k F m g \<Longrightarrow> core_inv c i k F m (g\<lparr>column_data_d := xs\<rparr>)"
  by (simp_all add: core_inv_def)

lemma step_idle_inv:
  assumes ok: "stream_ok e c part i k G K d" and inv: "stream_inv e c part i k G K d F m g" and st: "r_state g = IDLE"
  shows "stream_inv e c part i k G K d F (Suc m) (step_idle c g)"
proof -
  let ?b = "p_bits c" and ?sc = "scheduler_c g" and ?sr = "scheduler_r g"
  have I: "r_id g = i" "sched_inv ?b k ?sc m" "sched_inv ?b k ?sr m" "bufs ?sc = bufs ?sr"
    "pool_inv ?sc (set (held ?sr) \<union> F)" "pool_inv ?sr (set (held ?sc) \<union> F)"
    "length (column_data_d g) = sectors c * GetNumLayers (p_size c) * batch_size c" "pend g = []"
    "m < tree_steps k" "async_done g" "stored_vals e c part i G g" "written g = all_reqs e c part i K G d k m"
    using inv st by (auto simp: stream_inv_def core_inv_def phase_inv_def Let_def)
  have bits: "?b \<le> 32" "8 ^ k \<le> (2 :: nat) ^ ?b" using ok stream_facts(4) [OF ok] by (simp_all add: stream_ok_def)
  obtain mc wc sc bc where c: "sched_next ?b (\<lambda>_ x. x) True ?sc = (mc, Some wc, sc)" "mc \<longleftrightarrow> Suc m < tree_steps k"
    "sched_inv ?b k sc (Suc m)" "cur_item ?b (order k 0 ! m) wc bc" "bc \<notin> set (held ?sc) \<union> (set (held ?sr) \<union> F)"
    "pool_inv sc (set (held ?sr) \<union> F)" "set (live_inputs wc) \<subseteq> set (held ?sc)" "bc \<in> set (held sc)"
    "set (held sc) \<subseteq> insert bc (set (held ?sc))"
    "\<And>(val :: nat \<Rightarrow> nat \<Rightarrow> 'a list) mem. vals_ok (in_val ?b val) mem ?sc \<Longrightarrow> cur_vals val (in_val ?b val) (order k 0 ! m) wc bc mem sc"
    using pop_item [OF I(2) bits I(9) I(5), where 'v = "'a list"] by metis
  let ?r = "?sr\<lparr>bufs := bufs sc\<rparr>"
  have pr: "pool_inv ?r (set (held sc) \<union> F)"
  proof (rule pool_inv_bufs)
    show "pool_ok (bufs sc) (set (held ?sr) \<union> (set (held sc) \<union> F))" using c(6) by (simp add: pool_inv_def Un_ac)
    show "set (held ?sr) \<inter> (set (held sc) \<union> F) = {}" using c(6) I(6) by (auto simp: pool_inv_def)
  qed (use I(6) in \<open>simp_all add: pool_inv_def\<close>)
  obtain mr wr sr br where r: "sched_next ?b (\<lambda>_ x. x) True ?r = (mr, Some wr, sr)" "sched_inv ?b k sr (Suc m)"
    "cur_item ?b (order k 0 ! m) wr br" "br \<notin> set (held ?r) \<union> (set (held sc) \<union> F)"
    "pool_inv sr (set (held sc) \<union> F)" "set (live_inputs wr) \<subseteq> set (held ?r)" "set (held sr) \<subseteq> insert br (set (held ?r))"
    "\<And>(val :: nat \<Rightarrow> nat \<Rightarrow> 'a list) mem. vals_ok (in_val ?b val) mem ?r \<Longrightarrow> cur_vals val (in_val ?b val) (order k 0 ! m) wr br mem sr"
    using pop_item [OF sched_inv_bufs [OF I(3)] bits I(9) pr, where 'v = "'a list"] by metis
  let ?g = "step_idle c g"
  have leaf: "is_leaf wc \<longleftrightarrow> fst (order k 0 ! m) = 1" using c(4) by (simp add: cur_item_def)
  have g: "?g = g\<lparr>r_last := \<not> mc, scheduler_c := sc\<lparr>bufs := bufs sr\<rparr>, scheduler_r := sr, work_c := wc, work_r := wr,
      r_state := if fst (order k 0 ! m) = 1 then DATA_READ else HASH_LEAF\<rparr>"
    using c(1) r(1) leaf by (simp add: step_idle_def)
  have ne: "bc \<noteq> br" "bc \<notin> set (held sr)" "br \<notin> set (held sc)" "bc \<notin> set (live_inputs wr)"
    using c(5,8) r(4,6,7) by auto
  have item: "item_inv e c part i G (order k 0 ! m) bc br ?g"
    unfolding item_inv_def g using c(4,10) r(3,8) ne I(11) by (simp add: stored_vals_def)
  have pc: "pool_inv (sc\<lparr>bufs := bufs sr\<rparr>) (set (held sr) \<union> F)"
  proof (rule pool_inv_bufs)
    show "pool_ok (bufs sr) (set (held sc) \<union> (set (held sr) \<union> F))" using r(5) by (simp add: pool_inv_def Un_ac)
    show "set (held sc) \<inter> (set (held sr) \<union> F) = {}" using r(5) c(6) by (auto simp: pool_inv_def)
  qed (use c(6) in \<open>simp_all add: pool_inv_def\<close>)
  have l1: "1 \<le> fst (order k 0 ! m)" using order_nth_range(1) [OF I(9), of "fst (order k 0 ! m)" "snd (order k 0 ! m)"] by simp
  have "\<exists>bc br. item_inv e c part i G (order k 0 ! m) bc br ?g" using item by blast
  then have "phase_inv e c part i k G K d (Suc m) ?g"
    using I(10,12) l1 by (cases "fst (order k 0 ! m) = 1") (simp_all add: phase_inv_def g Let_def)
  then show ?thesis
    using I c(2) sched_inv_bufs [OF c(3)] r(2,5) pc unfolding stream_inv_def core_inv_def by (simp add: g) (metis Suc_leI Suc_lessI less_irrefl_nat)
qed


section \<open>Reading and encoding\<close>

lemma step_data_read_inv:
  assumes ok: "stream_ok e c part i k G K d" and inv: "stream_inv e c part i k G K d F m g" and st: "r_state g = DATA_READ"
  shows "stream_inv e c part i k G K d F m (step_data_read e c part g)"
proof -
  let ?p = "order k 0 ! (m - 1)"
  have id: "r_id g = i" using inv by (simp add: stream_inv_def core_inv_def)
  have m: "m - 1 < tree_steps k" using inv st by (auto simp: stream_inv_def core_inv_def)
  obtain bc br where it: "item_inv e c part i G ?p bc br g" using inv st by (auto simp: stream_inv_def phase_inv_def Let_def)
  have l1: "fst ?p = 1" using inv st by (simp add: stream_inv_def phase_inv_def Let_def)
  have "snd ?p < 8 ^ k" using order_nth_range(3) [OF m, of "fst ?p" "snd ?p"] l1 by simp
  then have n: "snd ?p < 2 ^ p_bits c" using stream_facts(4) [OF ok] by linarith
  have b: "p_bits c \<le> 32" using ok by (simp add: stream_ok_def)
  have "(2 :: nat) ^ p_bits c \<le> 2 ^ 32" using b by (intro power_increasing) simp_all
  with n have "snd ?p < 2 ^ 32" by linarith
  then have "wi_node c (work_c g) = snd ?p"
    using it n b l1 by (simp add: wi_node_def item_inv_def cur_item_def nid_node unat_of_nat32)
  then have sn: "wi_node c (work_c g) * batch_size c + nodes_per_stream c * r_id g + part * nodes_to_read c =
      stream_base c part i + snd ?p * batch_size c"
    using id by (simp add: stream_base_def)
  then show ?thesis
    using inv st by (simp add: step_data_read_def stream_inv_def phase_inv_def Let_def layer_data_def)
qed

definition grid :: "nat \<Rightarrow> nat \<Rightarrow> (nat \<Rightarrow> nat \<Rightarrow> 'f) \<Rightarrow> 'f list" where
  "grid S B f = concat (map (\<lambda>j. map (f j) [0..<S]) [0..<B])"

lemma length_grid_table [simp]: "length (grid S B f) = B * S"
  unfolding grid_def by (rule length_grid) simp

lemma nth_grid_table: "x < B * S \<Longrightarrow> grid S B f ! x = f (x div S) (x mod S)"
proof -
  assume x: "x < B * S"
  then have "0 < S" by (cases S) simp_all
  with nth_grid [of B "\<lambda>j. map (f j) [0..<S]" S x] x show ?thesis by (simp add: grid_def)
qed

lemma grid_index: "j < B \<Longrightarrow> s < S \<Longrightarrow> s + j * S < (B :: nat) * S \<and> (s + j * S) div S = j \<and> (s + j * S) mod S = s"
  using mult_le_mono1 [of "Suc j" B S] by simp

lemma grid_cong: "(\<And>j s. j < B \<Longrightarrow> s < S \<Longrightarrow> f j s = g j s) \<Longrightarrow> grid S B f = grid S B g"
  unfolding grid_def by (intro arg_cong [of _ _ concat] map_cong) simp_all

lemma grid_update:
  assumes "j < B" "s < S"
  shows "(grid S B f)[s + j * S := x] = grid S B (\<lambda>j' s'. if j' = j \<and> s' = s then x else f j' s')"
proof (rule nth_equalityI)
  fix y
  assume "y < length ((grid S B f)[s + j * S := x])"
  then have y: "y < B * S" by simp
  have "y = s + j * S \<longleftrightarrow> y div S = j \<and> y mod S = s"
    using grid_index [OF assms] div_mult_mod_eq [of y S] by (metis add.commute)
  then show "(grid S B f)[s + j * S := x] ! y = grid S B (\<lambda>j' s'. if j' = j \<and> s' = s then x else f j' s') ! y"
    using y grid_index [OF assms] by (auto simp: nth_list_update nth_grid_table)
qed simp

lemma encode_sector_grid:
  assumes "i < sectors c" "\<And>df. e_data e i = Some df \<Longrightarrow> sn + batch_size c \<le> length df"
  shows "encode_sector e c sn i (grid (sectors c) (batch_size c) f) =
    Inr (grid (sectors c) (batch_size c) (\<lambda>j s. if s = i then
      (case e_data e i of None \<Rightarrow> f j s | Some df \<Rightarrow> encode_element e (f j s) (df ! (sn + j))) else f j s))"
proof (cases "e_data e i")
  case None
  have "grid (sectors c) (batch_size c) f = grid (sectors c) (batch_size c) (\<lambda>j s. if s = i then
      (case e_data e i of None \<Rightarrow> f j s | Some df \<Rightarrow> encode_element e (f j s) (df ! (sn + j))) else f j s)"
    by (rule grid_cong) (simp add: None)
  then show ?thesis using None by (simp add: encode_sector_def)
next
  case (Some df)
  let ?S = "sectors c" and ?B = "batch_size c"
  let ?h = "\<lambda>n j s. if s = i \<and> j < n then encode_element e (f j s) (df ! (sn + j)) else f j s"
  have "fold_result (\<lambda>j b. bind_result (vec_get df (sn + j)) (\<lambda>d. bind_result (vec_get b (i + j * ?S)) (\<lambda>x.
      vec_set b (i + j * ?S) (encode_element e x d)))) [0..<n] (grid ?S ?B f) = Inr (grid ?S ?B (?h n))" if "n \<le> ?B" for n
    using that
  proof (induction n)
    case (Suc n)
    have b: "n < ?B" "sn + n < length df" using Suc.prems assms(2) [OF Some] by simp_all
    note x = grid_index [OF b(1) assms(1)]
    have g: "vec_get (grid ?S ?B (?h n)) (i + n * ?S) = Inr (f n i)" using x by (simp add: nth_grid_table)
    have "(grid ?S ?B (?h n))[i + n * ?S := encode_element e (f n i) (df ! (sn + n))] = grid ?S ?B (?h (Suc n))"
      unfolding grid_update [OF b(1) assms(1)] by (rule grid_cong) auto
    with x have s: "vec_set (grid ?S ?B (?h n)) (i + n * ?S) (encode_element e (f n i) (df ! (sn + n))) = Inr (grid ?S ?B (?h (Suc n)))"
      by simp
    show ?case using Suc b g s by (simp add: fold_result_append)
  qed simp
  then have "encode_sector e c sn i (grid ?S ?B f) = Inr (grid ?S ?B (?h ?B))" using Some by (simp add: encode_sector_def)
  moreover have "grid ?S ?B (?h ?B) = grid ?S ?B (\<lambda>j s. if s = i then
      (case e_data e i of None \<Rightarrow> f j s | Some df \<Rightarrow> encode_element e (f j s) (df ! (sn + j))) else f j s)"
    by (rule grid_cong) (simp add: Some)
  ultimately show ?thesis by simp
qed

lemma encode_all:
  assumes "\<And>s df. s < sectors c \<Longrightarrow> e_data e s = Some df \<Longrightarrow> sn + batch_size c \<le> length df"
  shows "fold_result (encode_sector e c sn) [0..<sectors c]
      (grid (sectors c) (batch_size c) (\<lambda>j s. e_layer e (GetNumLayers (p_size c) - 1) (sn + j) s)) = Inr (replica_block e c sn)"
proof -
  let ?S = "sectors c" and ?B = "batch_size c" and ?f = "\<lambda>j s. e_layer e (GetNumLayers (p_size c) - 1) (sn + j) s"
  let ?h = "\<lambda>n j s. if s < n then replica e c s (sn + j) else ?f j s"
  have "fold_result (encode_sector e c sn) [0..<n] (grid ?S ?B ?f) = Inr (grid ?S ?B (?h n))" if "n \<le> ?S" for n
    using that
  proof (induction n)
    case (Suc n)
    have "encode_sector e c sn n (grid ?S ?B (?h n)) = Inr (grid ?S ?B (?h (Suc n)))"
    proof -
      have "grid ?S ?B (\<lambda>j s. if s = n then (case e_data e n of None \<Rightarrow> ?h n j s
          | Some df \<Rightarrow> encode_element e (?h n j s) (df ! (sn + j))) else ?h n j s) = grid ?S ?B (?h (Suc n))"
        by (rule grid_cong) (auto simp: replica_def Let_def split: option.splits)
      moreover have "n < ?S" using Suc.prems by simp
      ultimately show ?thesis using encode_sector_grid [of n c e sn "?h n", OF _ assms] by (simp only:)
    qed
    with Suc show ?case by (simp add: fold_result_append)
  qed simp
  from this [of ?S] have "fold_result (encode_sector e c sn) [0..<?S] (grid ?S ?B ?f) = Inr (grid ?S ?B (?h ?S))" by simp
  moreover have "grid ?S ?B (?h ?S) = replica_block e c sn"
    unfolding replica_block_def grid_def by (intro arg_cong [of _ _ concat] map_cong) simp_all
  ultimately show ?thesis by simp
qed

lemma layer_data_last:
  shows "length (layer_data e c sn) = (if tree_r_only c then 1 else GetNumLayers (p_size c)) * (batch_size c * sectors c)"
    "0 < GetNumLayers (p_size c) \<Longrightarrow>
     get_block (layer_data e c sn) (if tree_r_only c then 0 else sectors c * (GetNumLayers (p_size c) - 1) * batch_size c)
       (sectors c * batch_size c) =
     Inr (grid (sectors c) (batch_size c) (\<lambda>j s. e_layer e (GetNumLayers (p_size c) - 1) (sn + j) s))"
proof -
  let ?S = "sectors c" and ?B = "batch_size c" and ?L = "GetNumLayers (p_size c)"
  let ?n = "if tree_r_only c then 1 else ?L" and ?l = "if tree_r_only c then ?L - 1 else 0"
  let ?f = "\<lambda>i. grid ?S ?B (\<lambda>j s. e_layer e (?l + i) (sn + j) s)"
  have ld: "layer_data e c sn = concat (map ?f [0..<?n])" by (simp add: layer_data_def load_layers_def grid_def)
  show len: "length (layer_data e c sn) = ?n * (?B * ?S)" unfolding ld by (rule length_grid) simp
  assume L: "0 < ?L"
  have lt: "?n - 1 < ?n" using L by simp
  have "block (?B * ?S) (layer_data e c sn) (?n - 1) = ?f (?n - 1)" unfolding ld by (rule block_grid [OF _ lt]) simp
  moreover have "(?n - 1) * (?B * ?S) + ?B * ?S \<le> length (layer_data e c sn)" using len L by (cases ?L) auto
  moreover have "(?n - 1) * (?B * ?S) = (if tree_r_only c then 0 else ?S * (?L - 1) * ?B)" by simp
  moreover have "?f (?n - 1) = grid ?S ?B (\<lambda>j s. e_layer e (?L - 1) (sn + j) s)" by simp
  ultimately show "get_block (layer_data e c sn) (if tree_r_only c then 0 else ?S * (?L - 1) * ?B) (?S * ?B) =
     Inr (grid ?S ?B (\<lambda>j s. e_layer e (?L - 1) (sn + j) s))"
    by (simp add: get_block_def block_def mult.commute)
qed

lemma batch_in_part:
  assumes ok: "stream_ok e c part i k G K d" and "n < 8 ^ k"
  shows "stream_base c part i + n * batch_size c + batch_size c \<le> Suc part * nodes_to_read c"
proof -
  note s = stream_okD(1-3) [OF ok]
  have "Suc n * batch_size c \<le> nodes_per_stream c" unfolding s(1) using assms(2) by (intro mult_le_mono1) simp
  moreover have "nodes_per_stream c * Suc i \<le> nodes_per_stream c * stream_count c" using s(3) by (intro mult_le_mono2) simp
  ultimately show ?thesis using s(2) by (simp add: stream_base_def algebra_simps)
qed

lemma step_data_wait_inv:
  assumes ok: "stream_ok e c part i k G K d" and inv: "stream_inv e c part i k G K d F m g" and st: "r_state g = DATA_WAIT"
  shows "\<exists>g'. step_data_wait e c avail loaded g = Inr g' \<and> stream_inv e c part i k G K d F m g'"
proof (cases "\<not> loaded \<or> avail < 1")
  case True
  then show ?thesis using inv by (simp add: step_data_wait_def)
next
  case False
  let ?p = "order k 0 ! (m - 1)" and ?sn = "stream_base c part i + snd (order k 0 ! (m - 1)) * batch_size c"
  have m: "m - 1 < tree_steps k" using inv st by (auto simp: stream_inv_def core_inv_def)
  have P: "fst ?p = 1" "async_done g" "written g = all_reqs e c part i K G d k (m - 1)" "start_node g = ?sn"
    "column_data g = layer_data e c ?sn" "\<exists>bc br. item_inv e c part i G ?p bc br g"
    using inv st by (simp_all add: stream_inv_def phase_inv_def Let_def)
  have n: "snd ?p < 8 ^ k" using order_nth_range(3) [OF m, of "fst ?p" "snd ?p"] P(1) by simp
  have L: "0 < GetNumLayers (p_size c)" using ok by (auto simp: stream_ok_def)
  have data: "?sn + batch_size c \<le> length df" if "s < sectors c" "e_data e s = Some df" for s df
    using batch_in_part [OF ok n] stream_okD(4) [OF ok] that by (meson le_trans)
  note enc = encode_all [of c e ?sn, OF data]
  note l11 = layer_data_last(2) [of c e ?sn, OF L]
  let ?td = "req_sealed e c ?sn"
  have "step_data_wait e c avail loaded g = Inr (g\<lparr>replica_data := replica_block e c ?sn, written := written g @ [?td],
      r_state := if tree_r_only c then HASH_COLUMN_LEAVES else HASH_COLUMN\<rparr>)"
    unfolding step_data_wait_def Let_def using False P(4,5) l11 enc by (simp add: req_sealed_def)
  moreover have "stream_inv e c part i k G K d F m (g\<lparr>replica_data := replica_block e c ?sn, written := written g @ [?td],
      r_state := if tree_r_only c then HASH_COLUMN_LEAVES else HASH_COLUMN\<rparr>)"
    using inv st P by (simp add: stream_inv_def phase_inv_def Let_def)
  ultimately show ?thesis by blast
qed


section \<open>Hashing the leaves\<close>

lemma cur_item_pos:
  assumes ok: "stream_ok e c part i k G K d" and m: "m < tree_steps k" and it: "cur_item (p_bits c) (order k 0 ! m) w b"
  shows "wi_layer c w = fst (order k 0 ! m)" "wi_node c w = snd (order k 0 ! m)" "1 \<le> fst (order k 0 ! m)"
    "fst (order k 0 ! m) \<le> Suc k" "snd (order k 0 ! m) < 8 ^ (Suc k - fst (order k 0 ! m))" "buf w = Some b"
proof -
  let ?l = "fst (order k 0 ! m)" and ?n = "snd (order k 0 ! m)"
  show r: "1 \<le> ?l" "?l \<le> Suc k" "?n < 8 ^ (Suc k - ?l)" using order_nth_range [OF m, of ?l ?n] by simp_all
  have K: "k \<le> 10" using stream_facts(2,3) [OF ok] by simp
  have "(8 :: nat) ^ (Suc k - ?l) \<le> 8 ^ k" using r(1) by (intro power_increasing) simp_all
  then have n: "?n < 2 ^ p_bits c" using r(3) stream_facts(4) [OF ok] by linarith
  have b: "p_bits c \<le> 32" by (rule stream_okD(19) [OF ok])
  have "(2 :: nat) ^ p_bits c \<le> 2 ^ 32" using b by (intro power_increasing) simp_all
  with n have n32: "?n < 2 ^ 32" by linarith
  have "?l < 2 ^ 32" using r(2) K by simp
  with n n32 b it show "wi_layer c w = ?l" "wi_node c w = ?n"
    by (simp_all add: wi_layer_def wi_node_def cur_item_def nid_layer nid_node unat_of_nat32)
  show "buf w = Some b" using it by (simp add: cur_item_def)
qed

lemma order_last: "order k 0 ! (tree_steps k - 1) = (Suc k, 0)"
  by (cases k) (simp_all add: nth_order_last del: order.simps(2))

lemma item_inv_dev:
  assumes "item_inv e c part i G p bc br g" "fst p = 1"
  shows "item_inv e c part i G p bc br (g\<lparr>dev := (dev g)(bc := xs)\<rparr>)"
  using assms by (auto simp: item_inv_def cur_vals_def)

lemma block_map_upt: "Suc n * B \<le> N \<Longrightarrow> block B (map f [0..<N]) n = map (\<lambda>j. f (n * B + j)) [0..<B]"
  by (intro nth_equalityI) (simp_all add: length_block nth_block)

lemma leaf_lengths:
  assumes "stream_ok e c part i k G K d"
  shows "length (leaves_c e c part i s) = 8 ^ Suc k * G" "length (leaves_r e c part i s) = 8 ^ Suc k * G"
  by (simp_all add: leaves_c_def leaves_r_def stream_facts(1) [OF assms])

lemma level_1:
  assumes "length xs = 8 ^ Suc k * G" "n < 8 ^ k"
  shows "level h 8 (block (8 * G) xs n) = block G (levels h 8 1 xs) n"
  using level_block [of xs "8 ^ k" G 8 n h] assms by (simp add: mult_ac)

lemma hash_columns_ok:
  assumes ok: "stream_ok e c part i k G K d" and n: "n < 8 ^ k" and tro: "\<not> tree_r_only c"
  shows "hash_columns e c (layer_data e c (stream_base c part i + n * batch_size c)) =
    Inr (by_sector (sectors c) (\<lambda>s. block (batch_size c) (leaves_c e c part i s) n))"
proof -
  let ?S = "sectors c" and ?B = "batch_size c" and ?L = "GetNumLayers (p_size c)" and ?sn = "stream_base c part i + n * batch_size c"
  note f = stream_okD [OF ok]
  have B: "0 < ?B" using f(16,17) by simp
  have ld: "layer_data e c ?sn = concat (map (\<lambda>i. grid ?S ?B (\<lambda>j s. e_layer e i (?sn + j) s)) [0..<?L])"
    using tro by (simp add: layer_data_def load_layers_def grid_def)
  have el: "layer_data e c ?sn ! ((l * ?B + j) * ?S + s) = e_layer e l (?sn + j) s" if b: "l < ?L" "j < ?B" "s < ?S" for l j s
  proof -
    have js: "s + j * ?S < ?B * ?S" using grid_index [OF b(2,3)] by simp
    have x: "(l * ?B + j) * ?S + s = l * (?B * ?S) + (s + j * ?S)" by (simp add: algebra_simps)
    have "Suc l * (?B * ?S) \<le> ?L * (?B * ?S)" using b(1) by (intro mult_le_mono1) simp
    then have lt: "l * (?B * ?S) + (s + j * ?S) < ?L * (?B * ?S)" using js unfolding mult_Suc by linarith
    from div_mod_pair [OF js, of l] nth_grid [of ?L "\<lambda>i. grid ?S ?B (\<lambda>j s. e_layer e i (?sn + j) s)" "?B * ?S", OF _ lt]
      nth_grid_table [OF js, of "\<lambda>j s. e_layer e l (?sn + j) s"] grid_index [OF b(2,3)]
    show ?thesis unfolding ld x by simp
  qed
  have len: "length (layer_data e c ?sn) = ?L * (?B * ?S)" using layer_data_last(1) [of e c ?sn] tro by simp
  have le: "Suc n * ?B \<le> nodes_per_stream c" unfolding f(1) using n by (intro mult_le_mono1) simp
  have "hash_columns e c (layer_data e c ?sn) =
      Inr (by_sector ?S (\<lambda>s. map (\<lambda>j. hcol e (map (\<lambda>l. e_layer e l (?sn + j) s) [0..<?L])) [0..<?B]))"
    by (rule hash_columns_spec [OF f(20) refl f(21,18) B len el])
  moreover have "block ?B (leaves_c e c part i s) n = map (\<lambda>j. hcol e (map (\<lambda>l. e_layer e l (?sn + j) s) [0..<?L])) [0..<?B]" for s
    unfolding leaves_c_def block_map_upt [OF le] by (simp add: column_def add.assoc)
  ultimately show ?thesis by simp
qed

lemma item_facts:
  assumes ok: "stream_ok e c part i k G K d" and inv: "stream_inv e c part i k G K d F m g" and st: "r_state g \<noteq> IDLE"
  shows "0 < m" "m - 1 < tree_steps k" "r_id g = i" "r_last g \<longleftrightarrow> m = tree_steps k" "m \<le> tree_steps k"
  using inv st by (auto simp: stream_inv_def core_inv_def)

lemma c_request:
  assumes ok: "stream_ok e c part i k G K d" and "l \<le> Suc k" "first + 8 ^ (Suc k - l) * G * i < 2 ^ p_bits c" "\<not> tree_r_only c"
  shows "tree_request c (tree_c_address c) (layer_offsets_c c) (tree_c_files c) part i l first n xs =
    Inr (request c (tree_c_files c) part (row_start K l + (first + nodes_per_stream c div 8 ^ l * i)) n xs)"
proof -
  note f = stream_okD [OF ok] and sf = stream_facts [OF ok]
  have "vec_get (layer_offsets_c c) l = Inr (8 ^ (Suc k - l) * G)" unfolding f(8) by (rule offset_table_power [OF f(17) assms(2)])
  then show ?thesis
    using tree_request_ok [OF _ f(6), where xs = xs and layer = l and first = first and i = i and part = part and n = n and files = "tree_c_files c"]
      assms(2,3) f(10,11) [OF assms(4)] f(19) sf(2,3) sf(6) [OF assms(2)] by simp
qed

lemma r_request:
  assumes ok: "stream_ok e c part i k G K d" and "d < l" "l \<le> Suc k" "first + 8 ^ (Suc k - l) * G * i < 2 ^ p_bits c"
  shows "tree_request c (tree_r_address c) (layer_offsets_r c) (tree_r_files c) part i (l - d - 1) first n xs =
    Inr (request c (tree_r_files c) part (row_start (K - (d + 1)) (l - d - 1) + (first + nodes_per_stream c div 8 ^ l * i)) n xs)"
proof -
  note f = stream_okD [OF ok] and sf = stream_facts [OF ok]
  have e: "k - d - (l - d - 1) = Suc k - l" "l - d - 1 \<le> k - d" using assms(2,3) by simp_all
  have "vec_get (layer_offsets_r c) (l - d - 1) = Inr (8 ^ (Suc k - l) * G)" unfolding f(9)
    using offset_table_power [OF f(17) e(2)] e(1) by simp
  moreover have "d + 1 \<le> K" "l - d - 1 \<le> K - (d + 1)" using f(15) sf(2) assms(2,3) by simp_all
  ultimately show ?thesis
    using tree_request_ok [OF _ f(7), where xs = xs and layer = "l - d - 1" and first = first and i = i and part = part and n = n and
        files = "tree_r_files c"]
      assms(4) f(12,13,19) sf(3) sf(6) [OF assms(3)] by simp
qed

lemma step_hash_column_inv:
  assumes ok: "stream_ok e c part i k G K d" and inv: "stream_inv e c part i k G K d F m g" and st: "r_state g = HASH_COLUMN"
  shows "\<exists>g'. step_hash_column e c part avail g = Inr g' \<and> stream_inv e c part i k G K d F m g'"
proof (cases "avail < 1")
  case True
  then show ?thesis using inv by (simp add: step_hash_column_def)
next
  case False
  let ?S = "sectors c" and ?B = "batch_size c" and ?L = "GetNumLayers (p_size c)"
  let ?p = "order k 0 ! (m - 1)" and ?sn = "stream_base c part i + snd (order k 0 ! (m - 1)) * batch_size c"
  have mm: "m - 1 < tree_steps k" "r_id g = i" using item_facts [OF ok inv] st by simp_all
  obtain bc br where it: "item_inv e c part i G ?p bc br g" and P: "fst ?p = 1" "\<not> tree_r_only c" "async_done g"
    "written g = all_reqs e c part i K G d k (m - 1) @ [req_sealed e c ?sn]" "column_data g = layer_data e c ?sn"
    "replica_data g = replica_block e c ?sn"
    using inv st by (auto simp: stream_inv_def phase_inv_def Let_def)
  note f = stream_okD [OF ok] and sf = stream_facts [OF ok]
  have cur: "cur_item (p_bits c) ?p (work_c g) bc" using it by (simp add: item_inv_def)
  note pos = cur_item_pos [OF ok mm(1) cur]
  have n: "snd ?p < 8 ^ k" using pos(5) P(1) by simp
  let ?out = "by_sector ?S (\<lambda>s. block ?B (leaves_c e c part i s) (snd ?p))"
  have le: "Suc (snd ?p) * ?B \<le> nodes_per_stream c" unfolding f(1) using n by (intro mult_le_mono1) simp
  have lo: "length ?out = ?S * ?B"
    using le by (intro length_by_sector) (simp add: length_block leaves_c_def)
  have len: "length (layer_data e c ?sn) = ?S * ?L * ?B" using layer_data_last(1) [of e c ?sn] P(2) by simp
  have "snd ?p * ?B + 8 ^ (Suc k - 0) * G * i < 2 ^ p_bits c"
    using node_in_row(2) [OF ok, of 0 "8 * snd ?p"] n f(16) by (simp add: mult_ac)
  then have rq: "tree_request c (tree_c_address c) (layer_offsets_c c) (tree_c_files c) part i 0 (snd ?p * ?B) ?B ?out =
      Inr (req_col e c part i (snd ?p))"
    using P(2) by (simp add: c_request [OF ok] req_col_def)
  let ?g = "g\<lparr>column_data_d := layer_data e c ?sn, dev := (dev g)(bc := ?out), pend := [req_col e c part i (snd ?p)],
      async_done := False, r_state := HASH_COLUMN_LEAVES\<rparr>"
  have step: "step_hash_column e c part avail g = Inr ?g"
    unfolding step_hash_column_def pos(1,2,6) P(1,5) mm(2)
    using False len lo hash_columns_ok [OF ok n P(2)] rq by (simp add: get_block_def dev_write_def mult.commute)
  have "item_inv e c part i G ?p bc br ?g"
    using item_inv_dev [OF it P(1), of ?out] by (simp add: item_inv_def)
  moreover have "core_inv c i k F m ?g" using inv len by (simp add: stream_inv_def)
  moreover have "dev ?g bc = ?out" by simp
  ultimately have "stream_inv e c part i k G K d F m ?g"
    using inv st P by (simp add: stream_inv_def phase_inv_def Let_def) blast
  with step show ?thesis by blast
qed


lemma hash_leaf_c:
  assumes ok: "stream_ok e c part i k G K d" and n: "n < 8 ^ k"
  shows "hash_packed e c (by_sector (sectors c) (\<lambda>s. block (batch_size c) (leaves_c e c part i s) n)) = Inr (val_c e c part i G 1 n)"
proof -
  note f = stream_okD [OF ok]
  have "Suc n * (8 * G) \<le> 8 ^ k * (8 * G)" using n by (intro mult_le_mono1) simp
  then have "Suc n * (8 * G) \<le> 8 ^ Suc k * G" by (simp add: mult_ac)
  then have "length (block (8 * G) (leaves_c e c part i s) n) = 8 * G" for s
    using leaf_lengths(1) [OF ok, of s] by (intro length_block) simp
  with hash_packed_spec [OF f(20,18,16) stream_facts(5) [OF ok], of "\<lambda>s. block (8 * G) (leaves_c e c part i s) n"]
  show ?thesis unfolding val_c_def node_val_def f(16) level_1 [OF leaf_lengths(1) [OF ok] n, symmetric] by simp
qed

lemma replica_block_grid: "replica_block e c sn = grid (sectors c) (batch_size c) (\<lambda>j s. replica e c s (sn + j))"
  by (simp add: replica_block_def grid_def)

lemma hash_leaf_r:
  assumes ok: "stream_ok e c part i k G K d" and n: "n < 8 ^ k"
  shows "hash_replica e c (replica_block e c (stream_base c part i + n * batch_size c)) = Inr (val_r e c part i G 1 n)"
proof -
  let ?sn = "stream_base c part i + n * batch_size c"
  note f = stream_okD [OF ok]
  have el: "replica_block e c ?sn ! (j * sectors c + s) = replica e c s (?sn + j)" if "j < 8 * G" "s < sectors c" for j s
    using grid_index [of j "batch_size c" s "sectors c"] that f(16)
    unfolding replica_block_grid by (simp add: nth_grid_table add.commute)
  have len: "length (replica_block e c ?sn) = 8 * G * sectors c" by (simp add: replica_block_grid f(16))
  have "Suc n * batch_size c \<le> nodes_per_stream c" unfolding f(1) using n by (intro mult_le_mono1) simp
  then have "block (8 * G) (leaves_r e c part i s) n = map (\<lambda>j. conv e (replica e c s (?sn + j))) [0..<8 * G]" for s
    unfolding leaves_r_def by (subst block_map_upt) (simp_all add: f(16) add.assoc)
  with hash_replica_spec [OF f(20,18,16) stream_facts(5) [OF ok] len el]
  show ?thesis unfolding val_r_def node_val_def level_1 [OF leaf_lengths(2) [OF ok] n, symmetric] by simp
qed

lemma replica_input:
  assumes ok: "stream_ok e c part i k G K d" and rd: "replica_data g = replica_block e c sn"
    and len: "length (column_data_d g) = sectors c * GetNumLayers (p_size c) * batch_size c"
    and cd: "\<not> tree_r_only c \<Longrightarrow> column_data_d g = layer_data e c sn"
  defines "off \<equiv> batch_size c * sectors c * (GetNumLayers (p_size c) - 1)"
  shows "\<exists>cd. (if has_non_cc_sectors c \<or> tree_r_only c
         then bind_result (get_block (replica_data g) 0 (sectors c * batch_size c)) (\<lambda>rd. put_block off rd (column_data_d g))
         else Inr (column_data_d g)) = Inr cd \<and> length cd = length (column_data_d g) \<and>
       get_block cd off (sectors c * batch_size c) = Inr (replica_block e c sn)"
proof -
  let ?S = "sectors c" and ?B = "batch_size c" and ?L = "GetNumLayers (p_size c)"
  note f = stream_okD [OF ok]
  have L: "0 < ?L" using f(21) by auto
  have lr: "length (replica_block e c sn) = ?S * ?B" by (simp add: replica_block_grid)
  have le: "off + ?S * ?B \<le> length (column_data_d g)" unfolding len off_def using L by (cases ?L) (simp_all add: algebra_simps)
  show ?thesis
  proof (cases "has_non_cc_sectors c \<or> tree_r_only c")
    case True
    then show ?thesis
      using rd lr le take_drop_overlay_same [of off "replica_block e c sn" "column_data_d g"]
      by (simp add: get_block_def put_block_def)
  next
    case False
    then have "\<forall>s < ?S. e_data e s = None" using f(5) by simp
    then have "replica_block e c sn = grid ?S ?B (\<lambda>j s. e_layer e (?L - 1) (sn + j) s)"
      unfolding replica_block_grid by (intro grid_cong) (simp add: replica_def)
    moreover have "off = (if tree_r_only c then 0 else ?S * (?L - 1) * ?B)" using False by (simp add: off_def)
    ultimately show ?thesis using False cd layer_data_last(2) [OF L, of e sn] by simp
  qed
qed

lemma all_reqs_step:
  assumes "0 < m" "m \<le> tree_steps k"
  shows "all_reqs e c part i K G d k m = all_reqs e c part i K G d k (m - 1) @ reqs e c part i K G d (order k 0 ! (m - 1))"
proof -
  have "take m (order k 0) = take (m - 1) (order k 0) @ [order k 0 ! (m - 1)]"
    using assms take_Suc_conv_app_nth [of "m - 1" "order k 0"] by simp
  then show ?thesis by (simp add: all_reqs_def)
qed

lemma item_done:
  assumes it: "item_inv e c part i G p bc br g" and sc: "scheduler_c g' = scheduler_c g" "scheduler_r g' = scheduler_r g"
    and r: "dev g' br = val_r e c part i G (fst p) (snd p)"
    and cc: "\<not> tree_r_only c \<Longrightarrow> dev g' bc = val_c e c part i G (fst p) (snd p)"
    and x: "\<And>x. x \<noteq> bc \<Longrightarrow> x \<noteq> br \<Longrightarrow> dev g' x = dev g x"
  shows "stored_vals e c part i G g'"
proof -
  have "vals_ok (in_val (p_bits c) (val_r e c part i G)) (dev g') (scheduler_r g)"
  proof -
    have "bc \<notin> set (held (scheduler_r g))" using it by (simp add: item_inv_def)
    then have "\<forall>y \<in> set (held (scheduler_r g)). y \<noteq> br \<longrightarrow> dev g' y = dev g y" using x by metis
    with it r show ?thesis by (simp add: item_inv_def cur_vals_def)
  qed
  moreover have "vals_ok (in_val (p_bits c) (val_c e c part i G)) (dev g') (scheduler_c g)" if tro: "\<not> tree_r_only c"
  proof -
    have "br \<notin> set (held (scheduler_c g))" using it by (simp add: item_inv_def)
    then have "\<forall>y \<in> set (held (scheduler_c g)). y \<noteq> bc \<longrightarrow> dev g' y = dev g y" using x by metis
    with it cc [OF tro] tro show ?thesis by (simp add: item_inv_def cur_vals_def)
  qed
  ultimately show ?thesis using sc by (simp add: stored_vals_def)
qed

lemma val_lengths:
  assumes ok: "stream_ok e c part i k G K d" and "l \<le> Suc k" "n < 8 ^ (Suc k - l)"
  shows "length (val_c e c part i G l n) = sectors c * G" "length (val_r e c part i G l n) = sectors c * G"
  unfolding val_c_def val_r_def using leaf_lengths [OF ok] by (simp_all add: length_node_val [OF _ assms(2,3)])

lemma step_hash_column_leaves_inv:
  assumes ok: "stream_ok e c part i k G K d" and inv: "stream_inv e c part i k G K d F m g" and st: "r_state g = HASH_COLUMN_LEAVES"
    and k: "0 < k"
  shows "\<exists>g'. step_hash_column_leaves e c part avail g = Inr g' \<and> stream_inv e c part i k G K d F m g'"
proof (cases "\<not> async_done g \<or> \<not> tree_r_only c \<and> avail < 1")
  case True
  then show ?thesis using inv by (simp add: step_hash_column_leaves_def)
next
  case False
  let ?S = "sectors c" and ?B = "batch_size c" and ?off = "batch_size c * sectors c * (GetNumLayers (p_size c) - 1)"
  let ?p = "order k 0 ! (m - 1)"
  let ?n = "snd ?p" and ?sn = "stream_base c part i + snd (order k 0 ! (m - 1)) * batch_size c"
  let ?W = "all_reqs e c part i K G d k (m - 1)"
  have mm: "0 < m" "m - 1 < tree_steps k" "r_id g = i" "m \<le> tree_steps k" using item_facts [OF ok inv] st by simp_all
  have "phase_inv e c part i k G K d m g" using inv by (simp add: stream_inv_def)
  then have "fst ?p = 1 \<and> replica_data g = replica_block e c ?sn \<and> (\<exists>bc br. item_inv e c part i G ?p bc br g \<and>
      (if tree_r_only c then async_done g \<and> written g = ?W @ [req_sealed e c ?sn]
       else dev g bc = by_sector ?S (\<lambda>s. block ?B (leaves_c e c part i s) ?n) \<and> column_data_d g = layer_data e c ?sn \<and>
         written g @ pend g = ?W @ [req_sealed e c ?sn, req_col e c part i ?n]))"
    unfolding phase_inv_def Let_def st by simp
  then obtain bc br where it: "item_inv e c part i G ?p bc br g" and P: "fst ?p = 1" "replica_data g = replica_block e c ?sn"
    and Q: "if tree_r_only c then async_done g \<and> written g = ?W @ [req_sealed e c ?sn]
      else dev g bc = by_sector ?S (\<lambda>s. block ?B (leaves_c e c part i s) ?n) \<and> column_data_d g = layer_data e c ?sn \<and>
        written g @ pend g = ?W @ [req_sealed e c ?sn, req_col e c part i ?n]" by blast
  have pend: "pend g = []" using False inv by (simp add: stream_inv_def)
  note f = stream_okD [OF ok] and sf = stream_facts [OF ok]
  have curc: "cur_item (p_bits c) ?p (work_c g) bc" "cur_item (p_bits c) ?p (work_r g) br" "bc \<noteq> br" using it by (simp_all add: item_inv_def)
  note pos = cur_item_pos [OF ok mm(2) curc(1)] and posr = cur_item_pos [OF ok mm(2) curc(2)]
  have n: "?n < 8 ^ k" "?n < 8 ^ (Suc k - 1)" using pos(5) P(1) by simp_all
  note vl = val_lengths [OF ok _ n(2)]
  have Gs: "?B * ?S div 8 = ?S * G" "?B div 8 = G" "?n * ?B div 8 = ?n * G" using f(16) by simp_all
  have lcd: "length (column_data_d g) = ?S * GetNumLayers (p_size c) * ?B" using inv by (simp add: stream_inv_def core_inv_def)
  have "\<not> tree_r_only c \<Longrightarrow> column_data_d g = layer_data e c ?sn" using Q by simp
  from replica_input [OF ok P(2) lcd this] obtain cd where
    cd: "(if has_non_cc_sectors c \<or> tree_r_only c
         then bind_result (get_block (replica_data g) 0 (?S * ?B)) (\<lambda>rd. put_block ?off rd (column_data_d g))
         else Inr (column_data_d g)) = Inr cd" "length cd = length (column_data_d g)"
      "get_block cd ?off (?S * ?B) = Inr (replica_block e c ?sn)" by blast
  let ?g1 = "if tree_r_only c then g else g\<lparr>dev := (dev g)(bc := val_c e c part i G 1 ?n)\<rparr>"
  let ?tds = "if tree_r_only c then [] else [req_c e c part i K G 1 ?n]"
  let ?g = "?g1\<lparr>column_data_d := cd, dev := (dev ?g1)(br := val_r e c part i G 1 ?n), pend := ?tds,
      async_done := False, r_state := HASH_WAIT\<rparr>"
  have rq: "tree_request c (tree_c_address c) (layer_offsets_c c) (tree_c_files c) part i 1 (?n * G) G (val_c e c part i G 1 ?n) =
      Inr (req_c e c part i K G 1 ?n)" if "\<not> tree_r_only c"
    using that c_request [OF ok, of 1 "?n * G" G "val_c e c part i G 1 ?n"] node_in_row(2) [OF ok _ n(2)]
    by (simp add: req_c_def val_c_def)
  have s1: "(if tree_r_only c then Inr g else bind_result (dev_read g (buf (work_c g))) (\<lambda>inp.
      bind_result (hash_packed e c inp) (\<lambda>out. dev_write c (buf (work_c g)) out g))) = Inr ?g1"
    using Q pos(6) hash_leaf_c [OF ok n(1)] vl(1) f(16) by (simp add: dev_read_def dev_write_def)
  have s2: "(if has_non_cc_sectors c \<or> tree_r_only c
         then bind_result (get_block (replica_data ?g1) 0 (?S * ?B)) (\<lambda>rd. put_block ?off rd (column_data_d ?g1))
         else Inr (column_data_d ?g1)) = Inr cd"
  proof -
    have "replica_data ?g1 = replica_data g" "column_data_d ?g1 = column_data_d g" by simp_all
    then show ?thesis using cd(1) by (simp only:)
  qed
  have s3: "dev_write c (buf (work_r ?g1)) (val_r e c part i G 1 ?n) (?g1\<lparr>column_data_d := cd\<rparr>) =
      Inr (?g1\<lparr>column_data_d := cd, dev := (dev ?g1)(br := val_r e c part i G 1 ?n)\<rparr>)"
    using posr(6) vl(2) f(16) by (simp add: dev_write_def)
  have s4: "(if tree_r_only c then Inr [] else bind_result (dev_read
      (?g1\<lparr>column_data_d := cd, dev := (dev ?g1)(br := val_r e c part i G 1 ?n)\<rparr>) (buf (work_c g))) (\<lambda>out.
      bind_result (get_block out 0 (?B * ?S div 8)) (\<lambda>fr.
      bind_result (tree_request c (tree_c_address c) (layer_offsets_c c) (tree_c_files c) part (r_id g)
        (wi_layer c (work_c g)) (wi_node c (work_c g) * ?B div 8) (?B div 8) fr) (\<lambda>td. Inr [td])))) = Inr ?tds"
    unfolding pos(1,2) P(1) mm(3) Gs using rq pos(6) vl(1) curc(3) by (simp add: dev_read_def get_block_def)
  have step: "step_hash_column_leaves e c part avail g = Inr ?g"
    unfolding step_hash_column_leaves_def Let_def if_not_P [OF False] arity8 s1 bind_result_simps s2 cd(3)
      hash_leaf_r [OF ok n(1)] s3 s4 by simp
  have sv: "stored_vals e c part i G ?g"
    using curc(3) P(1) by (intro item_done [OF it]) auto
  have "m \<noteq> tree_steps k" using order_last [of k] P(1) k by auto
  moreover have "all_reqs e c part i K G d k m = written g @ ?tds"
    unfolding all_reqs_step [OF mm(1,4)] using P(1) Q pend by (cases "tree_r_only c") (simp_all add: reqs_def Let_def)
  moreover have "core_inv c i k F m ?g" using inv cd(2) lcd by (simp add: stream_inv_def)
  ultimately have "stream_inv e c part i k G K d F m ?g"
    using inv st sv by (simp add: stream_inv_def phase_inv_def Let_def)
  with step show ?thesis by blast
qed


section \<open>Hashing the inner nodes\<close>

lemma step_hash_leaf_inv:
  assumes ok: "stream_ok e c part i k G K d" and inv: "stream_inv e c part i k G K d F m g" and st: "r_state g = HASH_LEAF"
  shows "\<exists>g'. step_hash_leaf e c part avail lock g = Inr g' \<and> stream_inv e c part i k G K d F m g'"
proof -
  let ?S = "sectors c" and ?B = "batch_size c"
  let ?p = "order k 0 ! (m - 1)"
  let ?l = "fst ?p" and ?n = "snd ?p" and ?W = "all_reqs e c part i K G d k (m - 1)"
  let ?wc = "\<not> tree_r_only c" and ?wr = "d < fst ?p"
  have mm: "0 < m" "m - 1 < tree_steps k" "r_id g = i" "m \<le> tree_steps k" "r_last g \<longleftrightarrow> m = tree_steps k"
    using item_facts [OF ok inv] st by simp_all
  have "phase_inv e c part i k G K d m g" using inv by (simp add: stream_inv_def)
  then have "1 < ?l \<and> async_done g \<and> (\<exists>bc br. item_inv e c part i G ?p bc br g) \<and> written g = ?W"
    unfolding phase_inv_def Let_def st by simp
  then obtain bc br where it: "item_inv e c part i G ?p bc br g" and P: "1 < ?l" "written g = ?W" "async_done g" by blast
  note f = stream_okD [OF ok] and sf = stream_facts [OF ok]
  have cur: "cur_item (p_bits c) ?p (work_c g) bc" "cur_item (p_bits c) ?p (work_r g) br" "bc \<noteq> br" using it by (simp_all add: item_inv_def)
  note pos = cur_item_pos [OF ok mm(2) cur(1)] and posr = cur_item_pos [OF ok mm(2) cur(2)]
  note vl = val_lengths [OF ok pos(4,5)]
  have Gs: "?B * ?S div 8 = ?S * G" "?B div 8 = G" "?n * ?B div 8 = ?n * G" using f(16) by simp_all
  let ?vc = "val_c e c part i G ?l ?n" and ?vr = "val_r e c part i G ?l ?n"
  let ?g1 = "if ?wc then g\<lparr>dev := (dev g)(bc := ?vc)\<rparr> else g"
  let ?g2 = "?g1\<lparr>dev := (dev ?g1)(br := ?vr)\<rparr>"
  let ?tc = "if ?wc then [req_c e c part i K G ?l ?n] else []" and ?tr = "if ?wr then [req_r e c part i K G d ?l ?n] else []"
  have s1: "(if ?wc then hash_inputs e c (work_c g) g else Inr g) = Inr ?g1"
  proof (cases ?wc)
    case True
    then obtain xs where "length xs = 8" "inputs (work_c g) = map Some xs" "\<forall>q < 8. dev g (xs ! q) = val_c e c part i G (?l - 1) (8 * ?n + q)"
      using it P(1) by (auto simp: item_inv_def cur_vals_def)
    with hash_inputs_ok [OF ok leaf_lengths(1) [OF ok] P(1) pos(4,5) _ _ pos(6), of xs g] True show ?thesis by (simp add: val_c_def)
  qed simp
  have s2: "hash_inputs e c (work_r g) ?g1 = Inr ?g2"
  proof -
    obtain xs where xs: "length xs = 8" "inputs (work_r g) = map Some xs" "\<forall>q < 8. dev g (xs ! q) = val_r e c part i G (?l - 1) (8 * ?n + q)"
      using it P(1) by (auto simp: item_inv_def cur_vals_def)
    have "bc \<notin> set xs" using it xs(2) by (simp add: item_inv_def live_inputs_def filter_Some comp_def)
    then have "\<forall>q < 8. dev ?g1 (xs ! q) = val_r e c part i G (?l - 1) (8 * ?n + q)" using xs(1,3) nth_mem [of _ xs] by (auto simp: fun_upd_def)
    with hash_inputs_ok [OF ok leaf_lengths(2) [OF ok] P(1) pos(4,5) xs(1,2) posr(6), of ?g1] show ?thesis by (simp add: val_r_def)
  qed
  have row: "?n * G + 8 ^ (Suc k - ?l) * G * i < 2 ^ p_bits c" by (rule node_in_row(2) [OF ok pos(4,5)])
  have s3: "(if ?wc then bind_result (dev_read ?g2 (buf (work_c g))) (\<lambda>out.
      bind_result (get_block out 0 (?B * ?S div 8)) (\<lambda>fr.
      bind_result (tree_request c (tree_c_address c) (layer_offsets_c c) (tree_c_files c) part (r_id g)
        (wi_layer c (work_c g)) (wi_node c (work_c g) * ?B div 8) (?B div 8) fr) (\<lambda>td. Inr [td]))) else Inr []) = Inr ?tc"
    unfolding pos(1,2) mm(3) Gs using pos(6) vl(1) cur(3) c_request [OF ok pos(4) row, of G ?vc]
    by (simp add: dev_read_def get_block_def req_c_def val_c_def)
  have s4: "bind_result (dev_read ?g2 (buf (work_r g))) (\<lambda>out. get_block out 0 (?B * ?S div 8)) = Inr ?vr"
    using posr(6) vl(2) Gs(1) by (simp add: dev_read_def get_block_def)
  have s5: "(if d < wi_layer c (work_r g) then bind_result (tree_request c (tree_r_address c) (layer_offsets_r c) (tree_r_files c) part (r_id g)
        (wi_layer c (work_r g) - d - 1) (wi_node c (work_r g) * ?B div 8) (?B div 8) ?vr) (\<lambda>td. Inr [td]) else Inr []) = Inr ?tr"
    unfolding posr(1,2) mm(3) Gs using r_request [OF ok _ pos(4) row, of G ?vr] by (simp add: req_r_def val_r_def)
  let ?g = "?g2\<lparr>result_c := (if r_last g \<and> ?wc then concat (map bd_data ?tc) else result_c g),
      result_r := (if r_last g then ?vr else result_r g), pend := ?tc @ ?tr, async_done := False, r_state := HASH_WAIT\<rparr>"
  have step: "step_hash_leaf e c part avail lock g = Inr g \<or> step_hash_leaf e c part avail lock g = Inr ?g"
    unfolding step_hash_leaf_def Let_def arity8 f(14) [symmetric] s1 bind_result_simps s2 s3 s4 s5 by simp
  have sv: "stored_vals e c part i G ?g" using cur(3) by (intro item_done [OF it]) auto
  have "result_inv e c part i G k ?g" if "m = tree_steps k"
    using that order_last [of k] mm(5) by (simp add: result_inv_def req_c_def request_def val_c_def)
  moreover have "all_reqs e c part i K G d k m = written g @ ?tc @ ?tr"
    unfolding all_reqs_step [OF mm(1,4)] using P by (simp add: reqs_def Let_def)
  moreover have "core_inv c i k F m ?g" using inv by (simp add: stream_inv_def)
  ultimately have "stream_inv e c part i k G K d F m ?g"
    using inv st sv by (simp add: stream_inv_def phase_inv_def Let_def)
  with step inv show ?thesis by auto
qed

lemma step_hash_wait_inv:
  assumes ok: "stream_ok e c part i k G K d" and inv: "stream_inv e c part i k G K d F m g" and st: "r_state g = HASH_WAIT"
  shows "stream_inv e c part i k G K d F m (step_hash_wait g)"
proof (cases "async_done g")
  case True
  have mm: "0 < m" "m \<le> tree_steps k" "r_last g \<longleftrightarrow> m = tree_steps k" "pend g = []"
    using item_facts [OF ok inv] st inv True by (auto simp: stream_inv_def)
  then show ?thesis using inv st True
    by (auto simp: step_hash_wait_def stream_inv_def phase_inv_def Let_def result_inv_def)
qed (use inv in \<open>simp add: step_hash_wait_def\<close>)

lemma callback_inv:
  assumes inv: "stream_inv e c part i k G K d F m g" and a: "\<not> async_done g"
  shows "stream_inv e c part i k G K d F m (cuda_callback g)"
  using assms
  by (cases "r_state g") (auto simp: cuda_callback_def stream_inv_def phase_inv_def Let_def result_inv_def)

lemma resource_step_inv:
  assumes ok: "stream_ok e c part i k G K d" and k: "0 < k" and inv: "stream_inv e c part i k G K d F m g"
  shows "\<exists>g'. resource_step e c part avail loaded lock g = Inr g' \<and>
    stream_inv e c part i k G K d F (if r_state g = IDLE then Suc m else m) g'"
proof (cases "r_state g")
  case HASH_COLUMN_WRITE
  then show ?thesis using inv by (simp add: stream_inv_def phase_inv_def Let_def)
qed (use step_idle_inv [OF ok inv] step_data_read_inv [OF ok inv] step_data_wait_inv [OF ok inv, of avail loaded]
    step_hash_column_inv [OF ok inv, of avail] step_hash_column_leaves_inv [OF ok inv _ k, of avail]
    step_hash_leaf_inv [OF ok inv, of avail lock] step_hash_wait_inv [OF ok inv] inv in \<open>auto simp: resource_step_def\<close>)

lemma gpu_reach_inv:
  assumes "gpu_reach e c part g0 g" "stream_ok e c part i k G K d" "0 < k" "stream_inv e c part i k G K d F m0 g0"
  shows "\<exists>m. stream_inv e c part i k G K d F m g"
  using assms(1)
proof induction
  case gpu_start
  then show ?case using assms(4) by blast
next
  case (gpu_turn g avail loaded lock g')
  then obtain m where "stream_inv e c part i k G K d F m g" by blast
  from resource_step_inv [OF assms(2,3) this, of avail loaded lock] gpu_turn.hyps(2) show ?case by auto
next
  case (gpu_cb g)
  then show ?case using callback_inv by blast
qed

end
