(* ===== verification/PC2_Run.thy ===== *)
theory PC2_Run
  imports PC2_Stream
begin

text \<open>
  A GPU stream of PC2 over the parts of a sector.  \<open>part_start\<close> holds
  of the states in which a stream starts a part: it is reset, the buffers of
  the roots of the parts before are no longer in the pool.  The theorems
  say that a stream never fails, that it ends, and what it has handed to the disk
  writers and to the CPU when it is done.
\<close>

section \<open>The start of a part\<close>

text \<open>\<open>at_rest\<close>: what a stream keeps from one part to the next.\<close>

definition at_rest :: "pc2_t \<Rightarrow> nat \<Rightarrow> nat \<Rightarrow> 'f gpu_resource_t \<Rightarrow> bool" where
  "at_rest c i k g \<longleftrightarrow>
     r_id g = i \<and> (\<forall>s \<in> {scheduler_c g, scheduler_r g}. initial_nodes s = 8 ^ k \<and> arity s = 8) \<and>
     bufs (scheduler_c g) = bufs (scheduler_r g) \<and> (\<exists>F. pool_ok (bufs (scheduler_c g)) F) \<and>
     length (column_data_d g) = sectors c * GetNumLayers (p_size c) * batch_size c \<and> pend g = []"

lemma reset_inv:
  assumes "at_rest c i k g" "0 < tree_steps k"
  shows "\<exists>F. stream_inv e c part i k G K d F 0 (resource_reset c g)"
proof -
  obtain F where F: "pool_ok (bufs (scheduler_c g)) F" using assms(1) by (auto simp: at_rest_def)
  have "stream_inv e c part i k G K d F 0 (resource_reset c g)"
    using assms F
    by (auto simp: at_rest_def stream_inv_def core_inv_def phase_inv_def resource_reset_def stored_vals_def pool_inv_def
        all_reqs_def Let_def intro: sched_inv_start)
  then show ?thesis ..
qed

lemma done_at_rest:
  assumes "stream_inv e c part i k G K d F m g" "r_state g = DONE"
  shows "at_rest c i k g"
  using assms sched_inv_fields
  by (auto simp: at_rest_def stream_inv_def core_inv_def phase_inv_def Let_def pool_inv_def)

lemma new_at_rest:
  assumes "nodes_per_stream c div batch_size c = 8 ^ k"
  shows "at_rest c i k (resource_new c junk i)"
proof -
  have "pool_ok (buffers_new n) {}" for n by (simp add: pool_ok_def buffers_new_def)
  then show ?thesis
    using assms by (auto simp: at_rest_def resource_new_def Let_def sched_new_def sched_reset_def arity8)
qed

inductive part_start :: "'f :: comm_ring_1 env \<Rightarrow> pc2_t \<Rightarrow> nat \<Rightarrow> nat \<Rightarrow> 'f gpu_resource_t \<Rightarrow> bool" for e c i where
  part_first: "part_start e c i 0 (resource_reset c (resource_new c junk i))"
| part_next: "part_start e c i part g0 \<Longrightarrow> gpu_reach e c part g0 g \<Longrightarrow> r_state g = DONE \<Longrightarrow>
    part_start e c i (Suc part) (resource_reset c g)"

lemma stream_ok_earlier: "stream_ok e c (Suc part) i k G K d \<Longrightarrow> stream_ok e c part i k G K d"
  unfolding stream_ok_def by (auto dest: Suc_lessD)

lemma part_start_inv:
  assumes "part_start e c i part g0" "stream_ok e c part i k G K d" "0 < k"
  shows "\<exists>F. stream_inv e c part i k G K d F 0 g0"
  using assms(1,2)
proof induction
  case (part_first junk)
  then have "nodes_per_stream c div batch_size c = 8 ^ k" by (auto simp: stream_ok_def)
  from reset_inv [OF new_at_rest [OF this] tree_steps_pos] show ?case .
next
  case (part_next part g0 g)
  note ok = stream_ok_earlier [OF part_next.prems]
  from part_next.IH [OF ok] obtain F where "stream_inv e c part i k G K d F 0 g0" ..
  from gpu_reach_inv [OF part_next.hyps(2) ok assms(3) this] obtain m where "stream_inv e c part i k G K d F m g" ..
  from reset_inv [OF done_at_rest [OF this part_next.hyps(3)] tree_steps_pos] show ?case .
qed


section \<open>Progress\<close>

text \<open>
  \<open>gpu_busy e c part g0 n g\<close>: the stream gets from \<open>g0\<close> to \<open>g\<close> with
  \<open>n\<close> turns that find everything they may wait for.
\<close>

inductive gpu_busy :: "'f :: comm_ring_1 env \<Rightarrow> pc2_t \<Rightarrow> nat \<Rightarrow> 'f gpu_resource_t \<Rightarrow> nat \<Rightarrow> 'f gpu_resource_t \<Rightarrow> bool"
  for e c part g0 where
  busy_start: "gpu_busy e c part g0 0 g0"
| busy_turn: "gpu_busy e c part g0 n g \<Longrightarrow> resource_step e c part avail loaded lock g = Inr g' \<Longrightarrow>
    gpu_busy e c part g0 (if 2 \<le> avail \<and> loaded \<and> lock \<and> async_done g then Suc n else n) g'"
| busy_cb: "gpu_busy e c part g0 n g \<Longrightarrow> \<not> async_done g \<Longrightarrow> gpu_busy e c part g0 n (cuda_callback g)"

fun phase_rank :: "ResourceState \<Rightarrow> nat" where
  "phase_rank DATA_READ = 5"
| "phase_rank DATA_WAIT = 4"
| "phase_rank HASH_COLUMN = 3"
| "phase_rank HASH_COLUMN_LEAVES = 2"
| "phase_rank HASH_LEAF = 2"
| "phase_rank HASH_WAIT = 1"
| "phase_rank _ = 0"

lemma dev_write_state: "dev_write c p xs g = Inr g' \<Longrightarrow> r_state g' = r_state g"
  by (auto simp: dev_write_def split: option.splits if_splits)

lemma step_rank:
  assumes "resource_step e c part avail loaded lock g = Inr g'" "r_state g \<noteq> IDLE"
  shows "phase_rank (r_state g') \<le> phase_rank (r_state g)"
    "2 \<le> avail \<Longrightarrow> loaded \<Longrightarrow> lock \<Longrightarrow> async_done g \<Longrightarrow> r_state g \<noteq> DONE \<Longrightarrow> phase_rank (r_state g') < phase_rank (r_state g)"
  using assms
  by (cases "r_state g";
      auto simp: resource_step_def step_data_read_def step_data_wait_def step_hash_column_def step_hash_column_leaves_def
        step_hash_leaf_def step_hash_wait_def Let_def bind_result_Inr_iff split: if_splits)+

lemma step_done: "resource_step e c part avail loaded lock g = Inr g' \<Longrightarrow> r_state g = DONE \<Longrightarrow> g' = g"
  by (simp add: resource_step_def)

lemma phase_rank_le: "phase_rank s \<le> 5"
  by (cases s) simp_all

lemma gpu_busy_rank:
  assumes "gpu_busy e c part g0 n g" "stream_ok e c part i k G K d" "0 < k" "stream_inv e c part i k G K d F 0 g0"
  shows "\<exists>m. stream_inv e c part i k G K d F m g \<and>
    (r_state g \<noteq> DONE \<longrightarrow> n + (6 * (tree_steps k - m) + phase_rank (r_state g)) \<le> 6 * tree_steps k)"
  using assms(1)
proof induction
  case busy_start
  have "r_state g0 = IDLE" using assms(4) by (auto simp: stream_inv_def)
  with assms(4) show ?case by auto
next
  case (busy_turn n g avail loaded lock g')
  then obtain m where m: "stream_inv e c part i k G K d F m g"
    "r_state g \<noteq> DONE \<longrightarrow> n + (6 * (tree_steps k - m) + phase_rank (r_state g)) \<le> 6 * tree_steps k" by blast
  have inv: "stream_inv e c part i k G K d F (if r_state g = IDLE then Suc m else m) g'"
    using resource_step_inv [OF assms(2,3) m(1), of avail loaded lock] busy_turn.hyps(2) by simp
  show ?case
  proof (cases "r_state g = IDLE")
    case True
    then have "m < tree_steps k" using m(1) by (simp add: stream_inv_def phase_inv_def Let_def)
    with True inv m(2) phase_rank_le [of "r_state g'"] show ?thesis by (intro exI [of _ "Suc m"]) auto
  next
    case False
    show ?thesis
    proof (intro exI [of _ m] conjI impI)
      show "stream_inv e c part i k G K d F m g'" using inv False by simp
      assume "r_state g' \<noteq> DONE"
      then have "r_state g \<noteq> DONE" using step_done [OF busy_turn.hyps(2)] by auto
      with m(2) step_rank [OF busy_turn.hyps(2) False]
      show "(if 2 \<le> avail \<and> loaded \<and> lock \<and> async_done g then Suc n else n) +
          (6 * (tree_steps k - m) + phase_rank (r_state g')) \<le> 6 * tree_steps k" by auto
    qed
  qed
next
  case (busy_cb n g)
  then obtain m where m: "stream_inv e c part i k G K d F m g"
    "r_state g \<noteq> DONE \<longrightarrow> n + (6 * (tree_steps k - m) + phase_rank (r_state g)) \<le> 6 * tree_steps k" by blast
  with callback_inv [OF m(1) busy_cb.hyps(2)] show ?case by (auto simp: cuda_callback_def)
qed

lemma gpu_busy_done:
  assumes "gpu_busy e c part g0 n g" "stream_ok e c part i k G K d" "0 < k" "stream_inv e c part i k G K d F 0 g0"
    "6 * tree_steps k \<le> n"
  shows "r_state g = DONE"
proof (rule ccontr)
  assume nd: "r_state g \<noteq> DONE"
  then obtain m where m: "stream_inv e c part i k G K d F m g"
    "n + (6 * (tree_steps k - m) + phase_rank (r_state g)) \<le> 6 * tree_steps k"
    using gpu_busy_rank [OF assms(1-4)] by blast
  have "0 < 6 * (tree_steps k - m) + phase_rank (r_state g)"
    using m(1) nd by (cases "r_state g") (auto simp: stream_inv_def phase_inv_def Let_def)
  with m(2) assms(5) show False by simp
qed


section \<open>The configurations\<close>

text \<open>
  \<open>pc2_params\<close>: the number of streams, the nodes of a batch and the nodes of a part,
  as \<open>do_pc2\<close> (\<open>src/pc2/pc2.hpp\<close>) chooses them for the sectors it hashes on the GPU.
  Every such sector has parts of \<open>8 ^ part_depth\<close> nodes and gives a stream
  \<open>8 ^ (part_depth - 4)\<close> batches.
\<close>

definition pc2_params :: "nat \<Rightarrow> nat \<times> nat \<times> nat" where
  "pc2_params sz =
     (if GetSectorSizeLg sz < 24 then 8 else 64, if GetSectorSizeLg sz < 24 then 64 * 8 else 64,
      GetNumNodes sz div GetNumTreeRCFiles sz)"

fun part_depth :: "SectorSizeLg \<Rightarrow> nat" where
  "part_depth Sector8MB = 6"
| "part_depth Sector16MB = 6"
| "part_depth Sector512MB = 8"
| "part_depth Sector1GB = 8"
| "part_depth Sector32GB = 9"
| "part_depth Sector64GB = 9"
| "part_depth _ = 0"

lemma gpu_sector_shape:
  assumes "15 < sector_lg s"
  defines "sz \<equiv> 2 ^ sector_lg s :: nat"
  shows "GetNumNodes sz = GetNumTreeRCFiles sz * 8 ^ part_depth s" "GetNodeBits sz \<le> 32"
    "8 ^ part_depth s \<le> (2 :: nat) ^ GetNodeBits sz" "GetNumLayers sz = 2 \<or> GetNumLayers sz = 11"
    "0 < GetNumTreeRDiscardRows sz" "GetNumTreeRDiscardRows sz + 4 \<le> part_depth s" "0 < GetNumTreeRCFiles sz"
proof -
  have nb: "GetNodeBits sz = sector_lg s - 5" "GetNumNodes sz = 2 ^ (sector_lg s - 5)"
    unfolding sz_def by (simp_all add: GetNodeBits_sector GetNumNodes_def GetNumLeaves_sector)
  show "GetNodeBits sz \<le> 32" unfolding nb by (cases s) simp_all
  show "8 ^ part_depth s \<le> (2 :: nat) ^ GetNodeBits sz" unfolding nb by (cases s) simp_all
  have f: "GetNumTreeRCFiles sz = (case s of Sector16MB \<Rightarrow> 2 | Sector1GB \<Rightarrow> 2 | Sector32GB \<Rightarrow> 8 | Sector64GB \<Rightarrow> 16 | _ \<Rightarrow> 1)"
    using assms(1) unfolding sz_def by (cases s) (simp_all add: sector_defs)
  show "0 < GetNumTreeRCFiles sz" unfolding f by (cases s) simp_all
  show "GetNumNodes sz = GetNumTreeRCFiles sz * 8 ^ part_depth s"
    using assms(1) unfolding nb f by (cases s) simp_all
  show "GetNumLayers sz = 2 \<or> GetNumLayers sz = 11" by (simp add: GetNumLayers_def)
  have d: "GetNumTreeRDiscardRows sz = 2" using assms(1) unfolding sz_def by (cases s) (simp_all add: sector_defs)
  show "0 < GetNumTreeRDiscardRows sz" "GetNumTreeRDiscardRows sz + 4 \<le> part_depth s"
    using assms(1) unfolding d by (cases s; simp)+
qed

lemma pc2_params_shape:
  assumes "15 < sector_lg s" "pc2_params (2 ^ sector_lg s) = (streams, batch, ntr)"
  shows "ntr = 8 ^ part_depth s" "batch * streams = 8 ^ 4" "batch = 8 * (batch div 8)" "8 \<le> batch div 8" "0 < streams"
proof -
  have "GetSectorSizeLg (2 ^ sector_lg s) = sector_lg s"
    using sector_lg_bounds [of s] by (intro GetSectorSizeLg_pow2) simp
  then have p: "ntr = GetNumNodes (2 ^ sector_lg s) div GetNumTreeRCFiles (2 ^ sector_lg s)"
    "streams = 8 \<and> batch = 512 \<or> streams = 64 \<and> batch = 64"
    using assms(2) by (auto simp: pc2_params_def split: if_splits)
  show "ntr = 8 ^ part_depth s"
    unfolding p(1) gpu_sector_shape(1) [OF assms(1)] using gpu_sector_shape(7) [OF assms(1)] by simp
  show "batch * streams = 8 ^ 4" "batch = 8 * (batch div 8)" "8 \<le> batch div 8" "0 < streams" using p(2) by auto
qed

lemma pc2_new_stream_ok:
  fixes s :: SectorSizeLg and e :: "'f :: comm_ring_1 env"
  defines "sz \<equiv> 2 ^ sector_lg s :: nat"
  assumes s: "15 < sector_lg s" "pc2_params sz = (streams, batch, ntr)"
    and c: "pc2_new sz S tro ntr batch streams cf rf sf non_cc = Inr c"
    and dev: "device_ok e (GetNumLayers sz)" "0 < S" "i < streams" "part < GetNumTreeRCFiles sz"
    and f: "\<not> tro \<Longrightarrow> length cf = S" "\<not> tro \<Longrightarrow> \<forall>fs \<in> set cf. length fs = GetNumTreeRCFiles sz"
      "length rf = S" "\<forall>fs \<in> set rf. length fs = GetNumTreeRCFiles sz"
    and data: "\<forall>j < S. \<forall>df. e_data e j = Some df \<longrightarrow> non_cc \<and> length df = GetNumNodes sz"
  shows "stream_ok e c part i (part_depth s - 4) (batch div 8) (part_depth s) (GetNumTreeRDiscardRows sz)"
proof -
  note g = gpu_sector_shape [OF s(1), folded sz_def]
  note p = pc2_params_shape [OF s(1) s(2) [unfolded sz_def]]
  let ?K = "part_depth s" and ?k = "part_depth s - 4" and ?G = "batch div 8" and ?d = "GetNumTreeRDiscardRows sz"
  have "?K = ?k + 4" using g(6) by simp
  then have "(8 :: nat) ^ ?K = 8 ^ ?k * 8 ^ 4" by (metis power_add)
  then have K: "ntr = 8 ^ ?k * (batch * streams)" unfolding p(1,2) .
  then have nps: "ntr div streams = 8 ^ ?k * batch" using p(5) by (simp add: mult.assoc [symmetric])
  then have nps': "ntr div streams = 8 ^ Suc ?k * ?G" using p(3) by (metis mult.assoc mult.commute power_Suc)
  have parts: "GetNumNodes sz div GetNumTreeRCFiles sz = 8 ^ ?K" using g(1,7) by simp
  have rows: "iterate (?d + 1) (\<lambda>x. x div GetNumTreeRCArity) (8 ^ Suc ?k * ?G) = 8 ^ (?k - ?d) * ?G"
  proof -
    have "iterate d (\<lambda>x. x div GetNumTreeRCArity) (8 ^ m * ?G) = 8 ^ (m - d) * ?G" if "d \<le> m" for d m
      using that
    proof (induction d arbitrary: m)
      case (Suc d)
      then obtain m' where "m = Suc m'" "d \<le> m'" by (cases m) auto
      with Suc.IH [of m'] show ?case by (simp add: arity8)
    qed simp
    from this [of "?d + 1" "Suc ?k"] g(6) show ?thesis by simp
  qed
  have le: "Suc part * ntr \<le> GetNumNodes sz" unfolding p(1) g(1) using dev(4) by (intro mult_le_mono1) simp
  have tot: "ntr = ntr div streams * streams" unfolding nps using K by (simp add: mult.assoc)
  have node: "NODE_SIZE = fr_size" by (simp add: NODE_SIZE_def NODE_SIZE_LG_def fr_size_def)
  have fields: "p_size c = sz" "p_bits c = GetNodeBits sz" "sectors c = S" "nodes_to_read c = ntr" "batch_size c = batch"
    "stream_count c = streams" "nodes_per_stream c = ntr div streams" "tree_c_address c = tree_address_new (8 ^ ?K) fr_size 0"
    "tree_r_address c = tree_address_new (8 ^ ?K) fr_size (?d + 1)" "layer_offsets_c c = offset_table (8 ^ Suc ?k * ?G)"
    "layer_offsets_r c = offset_table (8 ^ (?k - ?d) * ?G)" "tree_c_files c = cf" "tree_r_files c = rf" "has_non_cc_sectors c = non_cc"
    "tree_r_only c = tro"
    using c p(5) unfolding pc2_new_def Let_def parts node nps' rows by (auto simp: bind_result_Inr_iff)
  have "\<forall>j < S. \<forall>df. e_data e j = Some df \<longrightarrow> Suc part * ntr \<le> length df" using data le by auto
  moreover have "\<not> non_cc \<longrightarrow> (\<forall>j < S. e_data e j = None)" using data by (metis option.exhaust)
  moreover have "?d \<le> ?k" using g(6) by simp
  moreover have "\<not> tro \<longrightarrow> length cf = S \<and> (\<forall>fs \<in> set cf. part < length fs)" "\<forall>fs \<in> set rf. part < length fs" using f dev(4) by auto
  moreover note p(1,3,4) g(2-4) dev(1-3) f(3) nps tot
  ultimately show ?thesis unfolding stream_ok_def fields by - (intro conjI refl; assumption)
qed


text \<open>
  \<open>pc2_config e s c\<close>: \<open>c\<close> is the state that the constructor builds for
  sector size \<open>s\<close> with the parameters of \<open>do_pc2\<close>, every sector has its
  files, and a sector with a data file has data for all nodes.
\<close>

definition pc2_config :: "'f :: comm_ring_1 env \<Rightarrow> SectorSizeLg \<Rightarrow> pc2_t \<Rightarrow> bool" where
  "pc2_config e s c \<longleftrightarrow>
     15 < sector_lg s \<and>
     (case pc2_params (2 ^ sector_lg s) of (streams, batch, ntr) \<Rightarrow>
        pc2_new (2 ^ sector_lg s) (sectors c) (tree_r_only c) ntr batch streams (tree_c_files c) (tree_r_files c)
          (sealed_files c) (has_non_cc_sectors c) = Inr c) \<and>
     device_ok e (GetNumLayers (2 ^ sector_lg s)) \<and> 0 < sectors c \<and>
     (\<not> tree_r_only c \<longrightarrow> length (tree_c_files c) = sectors c \<and>
        (\<forall>fs \<in> set (tree_c_files c). length fs = GetNumTreeRCFiles (2 ^ sector_lg s))) \<and>
     length (tree_r_files c) = sectors c \<and> (\<forall>fs \<in> set (tree_r_files c). length fs = GetNumTreeRCFiles (2 ^ sector_lg s)) \<and>
     (\<forall>j < sectors c. \<forall>df. e_data e j = Some df \<longrightarrow> has_non_cc_sectors c \<and> length df = GetNumNodes (2 ^ sector_lg s))"

lemma pc2_new_fields:
  assumes "pc2_new sz S tro ntr batch streams cf rf sf non_cc = Inr c"
  shows "p_size c = sz" "stream_count c = streams" "batch_size c = batch" "nodes_to_read c = ntr" "nodes_per_stream c = ntr div streams"
  using assms by (auto simp: pc2_new_def Let_def bind_result_Inr_iff split: if_splits)

lemma config_stream:
  assumes "pc2_config e s c" "i < stream_count c" "part < GetNumTreeRCFiles (2 ^ sector_lg s)"
  shows "stream_ok e c part i (part_depth s - 4) (batch_size c div 8) (part_depth s) (GetNumTreeRDiscardRows (2 ^ sector_lg s))"
    "0 < part_depth s - 4"
proof -
  obtain streams batch ntr where p: "pc2_params (2 ^ sector_lg s) = (streams, batch, ntr)" by (cases "pc2_params (2 ^ sector_lg s)")
  note c = assms(1) [unfolded pc2_config_def p prod.case]
  from c have n: "pc2_new (2 ^ sector_lg s) (sectors c) (tree_r_only c) ntr batch streams (tree_c_files c) (tree_r_files c)
      (sealed_files c) (has_non_cc_sectors c) = Inr c" by blast
  note f = pc2_new_fields [OF n]
  show "stream_ok e c part i (part_depth s - 4) (batch_size c div 8) (part_depth s) (GetNumTreeRDiscardRows (2 ^ sector_lg s))"
    unfolding f(3) using c assms(2,3) f(2) by (intro pc2_new_stream_ok [OF _ p n]) auto
  show "0 < part_depth s - 4" using gpu_sector_shape(5,6) [of s] c by auto
qed

lemma busy_reach: "gpu_busy e c part g0 n g \<Longrightarrow> gpu_reach e c part g0 g"
  by (induction rule: gpu_busy.induct) (auto intro: gpu_reach.intros)

lemma busy_ready:
  assumes "gpu_busy e c part g0 n g"
  obtains h where "gpu_busy e c part g0 n h" "async_done h"
  using assms busy_cb [OF assms] that by (cases "async_done g") (auto simp: cuda_callback_def)

lemma busy_exists:
  assumes "stream_ok e c part i k G K d" "0 < k" "stream_inv e c part i k G K d F 0 g0"
  shows "\<exists>g. gpu_busy e c part g0 n g"
proof (induction n)
  case (Suc n)
  then obtain h where h: "gpu_busy e c part g0 n h" "async_done h" using busy_ready by blast
  from gpu_busy_rank [OF h(1) assms] obtain m where "stream_inv e c part i k G K d F m h" by blast
  from resource_step_inv [OF assms(1,2) this, of 2 True True] obtain h' where "resource_step e c part 2 True True h = Inr h'" by blast
  from busy_turn [OF h(1) this] h(2) show ?case by auto
qed (use busy_start in blast)

lemma config_example_files:
  assumes "length cf = 1" "\<forall>ws \<in> set cf. length ws = 1" "length rf = 1" "\<forall>ws \<in> set rf. length ws = 1"
  obtains e :: "int env" and c ntr batch streams where "pc2_config e Sector8MB c" "0 < stream_count c" "\<not> tree_r_only c"
    "pc2_new (2 ^ sector_lg Sector8MB) 1 False ntr batch streams cf rf sf False = Inr c" "\<And>x. e_data e x = None"
proof -
  obtain p2 :: "int Poseidon" where p2: "poseidon_ok p2" "ps_t p2 = 2 + 1"
    using Poseidon_new_ok [of 2 11904 "\<lambda>_. replicate 372 (1 :: int)"] by (auto simp: constants_len_def fr_bytes_def)
  obtain p8 :: "int Poseidon" where p8: "poseidon_ok p8" "ps_t p8 = 8 + 1"
    using Poseidon_new_ok [of 8 40320 "\<lambda>_. replicate 1260 (1 :: int)"] by (auto simp: constants_len_def fr_bytes_def)
  let ?e = "\<lparr>e_dot = dot_sum, e_to = id, e_from = id, e_bswap = id, e_add = (+), e_columns = p2, e_trees = p8,
    e_layer = (\<lambda>l n s. int (l + n + s)), e_big_endian = False, e_data = (\<lambda>_. None)\<rparr>"
  let ?sz = "2 ^ sector_lg Sector8MB"
  have f: "GetNumTreeRCFiles ?sz = 1" "GetNumLayers ?sz = 2" by (simp_all add: sector_defs)
  obtain streams batch ntr where p: "pc2_params ?sz = (streams, batch, ntr)" by (cases "pc2_params ?sz")
  have "ntr mod streams = 0" "0 < streams"
  proof -
    have s8: "15 < sector_lg Sector8MB" by simp
    show "0 < streams" using pc2_params_shape [OF s8 p] by simp
    have "GetSectorSizeLg ?sz = 23" by (simp only: sector_lg.simps GetSectorSizeLg_pow2)
    then have "streams = 8" using p by (simp add: pc2_params_def)
    then show "ntr mod streams = 0" using pc2_params_shape(1) [OF s8 p] by simp
  qed
  then obtain c where c: "pc2_new ?sz 1 False ntr batch streams cf rf sf False = Inr c"
    by (simp add: pc2_new_def Let_def assert_that_def)
  then have "sectors c = 1" "tree_r_only c = False" "tree_c_files c = cf" "tree_r_files c = rf"
    "sealed_files c = sf" "has_non_cc_sectors c = False"
    by (auto simp: pc2_new_def Let_def bind_result_Inr_iff split: if_splits)
  with c p p2 p8 f assms have "pc2_config ?e Sector8MB c"
    by (simp add: pc2_config_def device_ok_def dot_sum_def)
  moreover have "0 < stream_count c" using pc2_new_fields(2) [OF c] \<open>0 < streams\<close> by simp
  ultimately show ?thesis using that [of ?e c] c \<open>tree_r_only c = False\<close> by simp
qed

lemma config_example:
  obtains e :: "int env" and c where "pc2_config e Sector8MB c" "0 < stream_count c" "0 < GetNumTreeRCFiles (2 ^ sector_lg Sector8MB)"
    "\<not> tree_r_only c"
proof -
  have "0 < GetNumTreeRCFiles (2 ^ sector_lg Sector8MB)" by (simp add: sector_defs)
  with that config_example_files [of "[[file_writer_new]]" "[[file_writer_new]]"] show ?thesis by (metis length_Cons list.set_cases list.size(3) One_nat_def set_ConsD empty_iff empty_set)
qed


section \<open>Properties\<close>



text \<open>
  C37: a GPU stream ends with the right results.  A run with any number of
  unobstructed turns exists (the stream cannot be blocked), and after six such turns per
  node of its tree the stream is done, whatever other turns and callbacks
  come between.  It has then handed over exactly the requests of its tree nodes in
  the order of the scheduler, and its results for the CPU are the rows above its
  last node: level \<open>part_depth - 3\<close> of the 8-ary Poseidon tree over its
  columns (tree-C) and over its replica (tree-R), for each sector.
\<close>
theorem gpu_stream_terminates:
  fixes e :: "'f :: comm_ring_1 env"
  assumes "pc2_config e s c" "i < stream_count c" "part < GetNumTreeRCFiles (2 ^ sector_lg s)"
    "part_start e c i part g0" "6 * tree_steps (part_depth s - 4) \<le> n"
  defines "top_row \<equiv> \<lambda>leaves :: nat \<Rightarrow> 'f list. by_sector (sectors c) (\<lambda>j. levels (h8 e) 8 (part_depth s - 3) (leaves j))"
  shows "(\<exists>g. gpu_busy e c part g0 n g) \<and>
    (\<forall>g. gpu_busy e c part g0 n g \<longrightarrow>
       r_state g = DONE \<and> written g = all_reqs e c part i (part_depth s) (batch_size c div 8)
         (GetNumTreeRDiscardRows (2 ^ sector_lg s)) (part_depth s - 4) (tree_steps (part_depth s - 4)) \<and>
       (\<not> tree_r_only c \<longrightarrow> result_c g = top_row (leaves_c e c part i)) \<and> result_r g = top_row (leaves_r e c part i))"
proof -
  let ?k = "part_depth s - 4" and ?G = "batch_size c div 8" and ?K = "part_depth s" and ?d = "GetNumTreeRDiscardRows (2 ^ sector_lg s)"
  note ok = config_stream [OF assms(1-3)]
  obtain F where F: "stream_inv e c part i ?k ?G ?K ?d F 0 g0" using part_start_inv [OF assms(4) ok] ..
  have k3: "Suc ?k = ?K - 3" using ok(2) by simp
  have root: "node_val e (sectors c) ?G leaves (Suc ?k) 0 = top_row leaves"
    if len: "\<And>j. length (leaves j) = nodes_per_stream c" for leaves :: "nat \<Rightarrow> 'f list"
  proof -
    have "length (leaves j) = 8 ^ Suc ?k * ?G" for j using len [of j] stream_facts(1) [OF ok(1)] by simp
    then have "length (levels (h8 e) 8 (Suc ?k) (leaves j)) = ?G" for j
      using node_val_length(2) [of "Suc j" leaves ?k ?G "Suc ?k" 0 j e] by simp
    then have "block ?G (levels (h8 e) 8 (Suc ?k) (leaves j)) 0 = levels (h8 e) 8 (Suc ?k) (leaves j)" for j
      by (simp add: block_def)
    then show ?thesis by (simp add: node_val_def top_row_def k3)
  qed
  have "r_state g = DONE \<and> written g = all_reqs e c part i ?K ?G ?d ?k (tree_steps ?k) \<and>
      (\<not> tree_r_only c \<longrightarrow> result_c g = top_row (leaves_c e c part i)) \<and> result_r g = top_row (leaves_r e c part i)"
    if b: "gpu_busy e c part g0 n g" for g
  proof -
    have "r_state g = DONE" by (rule gpu_busy_done [OF b ok F assms(5)])
    moreover obtain m where "stream_inv e c part i ?k ?G ?K ?d F m g" using gpu_busy_rank [OF b ok F] by blast
    ultimately show ?thesis
      using root [of "leaves_c e c part i"] root [of "leaves_r e c part i"]
      by (auto simp: stream_inv_def phase_inv_def Let_def result_inv_def val_c_def val_r_def leaves_c_def leaves_r_def)
  qed
  with busy_exists [OF ok F, of n] show ?thesis by blast
qed

theorem gpu_stream_terminates_witness:
  "\<exists>(e :: int env) c g0 g. pc2_config e Sector8MB c \<and> part_start e c 0 0 g0 \<and> gpu_busy e c 0 g0 (6 * tree_steps 2) g \<and> r_state g = DONE \<and>
    result_c g = by_sector (sectors c) (\<lambda>j. levels (h8 e) 8 3 (leaves_c e c 0 0 j))"
proof -
  obtain e :: "int env" and c where c: "pc2_config e Sector8MB c" "0 < stream_count c" "0 < GetNumTreeRCFiles (2 ^ sector_lg Sector8MB)"
    "\<not> tree_r_only c" by (rule config_example)
  have p: "part_start e c 0 0 (resource_reset c (resource_new c 0 0))" by (rule part_first)
  have "6 * tree_steps (part_depth Sector8MB - 4) \<le> 6 * tree_steps 2" by simp
  from gpu_stream_terminates [OF c(1-3) p this] c(4) obtain g where
    "gpu_busy e c 0 (resource_reset c (resource_new c 0 0)) (6 * tree_steps 2) g" "r_state g = DONE"
    "result_c g = by_sector (sectors c) (\<lambda>j. levels (h8 e) 8 3 (leaves_c e c 0 0 j))" by auto
  with c(1) p show ?thesis by blast
qed

end
