(* ===== verification/PC2_Cpu.thy ===== *)
theory PC2_Cpu
  imports PC2_Gpu Sched_Item Tree_RC
begin

text \<open>
  The CPU part of PC2: \<open>pc2_t::hash_cpu\<close> hashes the top of the tree of
  a part from the results of the GPU streams and writes it to the tree
  files, and \<open>pc2_t::write_roots\<close> combines the roots of the parts and writes the
  \<open>p_aux\<close> files (\<open>src/pc2/cuda/pc2.cu\<close>).

  The data of the scheduler is the host memory, a map from buffers to their
  elements, and the file system; a failure of the callback is kept.
\<close>

type_synonym 'f cpu_data = "((nat \<Rightarrow> 'f list) \<times> 'f fs) result"

definition leaf_inputs :: "pc2_t \<Rightarrow> 'f list \<Rightarrow> nat \<Rightarrow> nat \<Rightarrow> 'f list result" where
  "leaf_inputs c input node sector =
     (let group_size = batch_size c div GetNumTreeRCArity; first_input_node = node * GetNumTreeRCArity in
      map_result (\<lambda>i.
        let input_group = (first_input_node + i) div group_size; node_in_group = (first_input_node + i) mod group_size
        in vec_get input (input_group * group_size * sectors c + sector * group_size + node_in_group))
        [0..<GetNumTreeRCArity])"

definition node_inputs :: "(nat \<Rightarrow> 'f list) \<Rightarrow> work_item_t \<Rightarrow> nat \<Rightarrow> 'f list result" where
  "node_inputs mem w sector =
     map_result (\<lambda>i.
       bind_result (vec_get (inputs w) i) (\<lambda>p. case p of None \<Rightarrow> Inl NullDeref | Some b \<Rightarrow> vec_get (mem b) sector))
       [0..<GetNumTreeRCArity]"

definition cpu_sector :: "os \<Rightarrow> 'f :: comm_ring_1 \<Rightarrow> 'f env \<Rightarrow> pc2_t \<Rightarrow> nat \<Rightarrow> 'f list \<Rightarrow> file_writer_t list list \<Rightarrow> nat \<Rightarrow>
    work_item_t \<Rightarrow> nat \<Rightarrow> (nat \<Rightarrow> 'f list) \<times> 'f fs \<Rightarrow> 'f cpu_data" where
  "cpu_sector os zero e c part input files offset w sector d =
     (case d of (mem, fs) \<Rightarrow>
        bind_result (if is_leaf w then leaf_inputs c input (wi_node c w) sector else node_inputs mem w sector) (\<lambda>inp.
        bind_result (Hash (e_to e) (e_from e) (e_trees e) inp) (\<lambda>out.
        bind_result (case buf w of None \<Rightarrow> Inl NullDeref
                     | Some b \<Rightarrow> bind_result (vec_set (mem b) sector out) (\<lambda>x. Inr (mem(b := x)))) (\<lambda>mem'.
        bind_result (vec_get files sector) (\<lambda>fws.
        bind_result (vec_get fws part) (\<lambda>fw.
        bind_result (fw_write_data os zero fw (offset div fr_size) [out] fs) (\<lambda>fs'. Inr (mem', fs'))))))))"

definition hash_func :: "os \<Rightarrow> 'f :: comm_ring_1 \<Rightarrow> 'f env \<Rightarrow> pc2_t \<Rightarrow> nat \<Rightarrow> 'f list \<Rightarrow> file_writer_t list list \<Rightarrow> nat \<Rightarrow>
    tree_address_t \<Rightarrow> work_item_t \<Rightarrow> 'f cpu_data \<Rightarrow> 'f cpu_data" where
  "hash_func os zero e c part input files file_offset final_tree w d =
     bind_result d (\<lambda>mf.
     bind_result (ta_address (p_bits c) final_tree (nid (p_bits c) (wi_layer c w - 1) (wi_node c w))) (\<lambda>a.
     fold_result (cpu_sector os zero e c part input files (a + file_offset) w) [0..<sectors c] mf))"

definition hash_cpu :: "os \<Rightarrow> 'f :: comm_ring_1 \<Rightarrow> 'f env \<Rightarrow> pc2_t \<Rightarrow> nat \<Rightarrow> 'f list \<Rightarrow> file_writer_t list list \<Rightarrow> nat \<Rightarrow>
    'f \<Rightarrow> 'f fs \<Rightarrow> ('f list \<times> 'f fs) result option" where
  "hash_cpu os zero e c part input files file_offset junk fs =
     (let nodes_to_hash = batch_size c * stream_count c div GetNumTreeRCArity div GetNumTreeRCArity;
          group_size = batch_size c div GetNumTreeRCArity;
          final_tree = tree_address_new nodes_to_hash fr_size 0
      in if group_size mod GetNumTreeRCArity \<noteq> 0 then Some (Inl AssertFail)
         else
           map_option (\<lambda>r.
             bind_result r (\<lambda>ps. case ps of (p, s) \<Rightarrow>
             bind_result (data s) (\<lambda>mf. case mf of (mem, fs') \<Rightarrow>
             bind_result (case p of None \<Rightarrow> Inl NullDeref | Some b \<Rightarrow> get_block (mem b) 0 (sectors c)) (\<lambda>roots.
             bind_result (sched_is_done s) (\<lambda>dn. bind_result (assert_that dn) (\<lambda>_. Inr (roots, fs')))))))
             (sched_run (p_bits c) (hash_func os zero e c part input files file_offset final_tree)
               (sched_new (p_bits c) nodes_to_hash GetNumTreeRCArity (buffers_new (sectors c))
                 (Inr (\<lambda>_. replicate (sectors c) junk, fs)))))"


text \<open>
  \<open>write_roots\<close>: a hasher is built for the number of files, and one of arity 8;
  with 16 files two hashes of eight roots come first.  The file is opened
  without truncation and gets the two commitments.
\<close>

definition root_hash :: "('f \<Rightarrow> 'f) \<Rightarrow> ('f \<Rightarrow> 'f) \<Rightarrow> (nat \<Rightarrow> 'f :: comm_ring_1 list) \<Rightarrow> nat \<Rightarrow> nat \<Rightarrow> 'f list \<Rightarrow> nat \<Rightarrow> 'f result" where
  "root_hash to from constants num_files S roots sector =
     bind_result (Poseidon_new constants (if num_files = 16 then 2 else num_files)) (\<lambda>hasher.
     bind_result (Poseidon_new constants 8) (\<lambda>hasher8.
     bind_result (map_result (\<lambda>i. vec_get roots (i * S + sector)) [0..<num_files]) (\<lambda>in0.
     bind_result (if num_files = 16
                  then bind_result (Hash to from hasher8 in0) (\<lambda>a.
                       bind_result (vec_set in0 0 a) (\<lambda>in1.
                       bind_result (Hash to from hasher8 (drop 8 in1)) (\<lambda>b. vec_set in1 1 b)))
                  else Inr in0) (\<lambda>in2.
     Hash to from hasher in2))))"

definition write_p_aux :: "os \<Rightarrow> 'f \<Rightarrow> string \<Rightarrow> 'f \<Rightarrow> 'f \<Rightarrow> 'f fs \<Rightarrow> 'f fs result" where
  "write_p_aux os zero f out_c out_r fs =
     (if os_open_w os f \<and> os_write os f
      then Inr (fs(f := Some (overlay 0 [out_c, out_r] (fallocate zero 2 (file_at fs f)))))
      else Inl AssertFail)"

definition write_roots :: "os \<Rightarrow> 'f :: comm_ring_1 \<Rightarrow> 'f env \<Rightarrow> (nat \<Rightarrow> 'f list) \<Rightarrow> pc2_t \<Rightarrow> string list \<Rightarrow> 'f list \<Rightarrow> 'f list \<Rightarrow> 'f fs \<Rightarrow>
    'f fs result" where
  "write_roots os zero e constants c p_aux_filenames roots_c roots_r fs =
     (let num_files = GetNumTreeRCFiles (p_size c);
          out = (\<lambda>roots sector. if num_files > 1 then root_hash (e_to e) (e_from e) constants num_files (sectors c) roots sector
                               else vec_get roots sector) in
      fold_result (\<lambda>sector fs'.
        bind_result (if tree_r_only c then Inr zero else out roots_c sector) (\<lambda>out_c.
        bind_result (out roots_r sector) (\<lambda>out_r.
        bind_result (vec_get p_aux_filenames sector) (\<lambda>f.
        write_p_aux os zero f out_c out_r fs')))) [0..<sectors c] fs)"


section \<open>Writes\<close>

text \<open>
  A write is a file name, an offset and the elements.  \<open>put_write\<close> is its
  effect on the file system.
\<close>

type_synonym 'f write_op = "string \<times> nat \<times> 'f list"

definition put_write :: "'f \<Rightarrow> 'f write_op \<Rightarrow> 'f fs \<Rightarrow> 'f fs" where
  "put_write zero w fs =
     (case w of (f, off, xs) \<Rightarrow>
        if xs = [] then fs else fs(f := Some (overlay off xs (fallocate zero (off + length xs) (file_at fs f)))))"

definition put_writes :: "'f \<Rightarrow> 'f write_op list \<Rightarrow> 'f fs \<Rightarrow> 'f fs" where
  "put_writes zero = fold (put_write zero)"

definition writer_ok :: "os \<Rightarrow> file_writer_t \<Rightarrow> bool" where
  "writer_ok os w \<longleftrightarrow> \<not> use_mmap w \<and> file_is_open (fw_file w) \<and> f_is_write (fw_file w) \<and> os_write os (f_fname (fw_file w))"

definition fw_name :: "file_writer_t \<Rightarrow> string" where
  "fw_name w = f_fname (fw_file w)"

lemma fw_write_put: "writer_ok os w \<Longrightarrow> fw_write_data os zero w off xs fs = Inr (put_write zero (fw_name w, off, xs) fs)"
  by (simp add: writer_ok_def fw_write_data_def file_write_data_def put_write_def fw_name_def)

lemma put_writes_append: "put_writes zero (xs @ ys) fs = put_writes zero ys (put_writes zero xs fs)"
  by (simp add: put_writes_def)

text \<open>
  If every write to a file agrees with \<open>t\<close> and together they cover it, the
  file is \<open>t\<close> in the end, in whatever order they are made.
\<close>

definition agrees :: "string \<Rightarrow> 'f list \<Rightarrow> 'f write_op list \<Rightarrow> bool" where
  "agrees f t W \<longleftrightarrow> (\<forall>off xs. (f, off, xs) \<in> set W \<longrightarrow> off + length xs \<le> length t \<and> take (length xs) (drop off t) = xs)"

definition covered :: "string \<Rightarrow> 'f write_op list \<Rightarrow> nat \<Rightarrow> bool" where
  "covered f W p \<longleftrightarrow> (\<exists>off xs. (f, off, xs) \<in> set W \<and> off \<le> p \<and> p < off + length xs)"

lemma put_write_nth:
  assumes "agrees f t [w]" "length (file_at fs f) = length t"
  shows "length (file_at (put_write zero w fs) f) = length t"
    "p < length t \<Longrightarrow> file_at (put_write zero w fs) f ! p = (if covered f [w] p then t ! p else file_at fs f ! p)"
proof -
  obtain g off xs where w: "w = (g, off, xs)" by (cases w)
  have both: "length (file_at (put_write zero w fs) f) = length t \<and>
    (p < length t \<longrightarrow> file_at (put_write zero w fs) f ! p = (if covered f [w] p then t ! p else file_at fs f ! p))"
  proof (cases "g = f \<and> xs \<noteq> []")
    case True
    with assms(1) w have t: "off + length xs \<le> length t" "take (length xs) (drop off t) = xs" by (auto simp: agrees_def)
    have "fallocate zero (off + length xs) (file_at fs f) = file_at fs f" using t(1) assms(2) by (simp add: fallocate_def)
    then have fa: "file_at (put_write zero w fs) f = overlay off xs (file_at fs f)" using True w by (simp add: put_write_def)
    have "xs ! (p - off) = t ! p" if "off \<le> p" "p < off + length xs"
    proof -
      have "xs ! (p - off) = take (length xs) (drop off t) ! (p - off)" using t(2) by simp
      also have "\<dots> = t ! p" using that t(1) by simp
      finally show ?thesis .
    qed
    with True t(1) assms(2) w show ?thesis unfolding fa by (auto simp: nth_overlay covered_def)
  qed (use w assms(2) in \<open>auto simp: put_write_def covered_def\<close>)
  then show "length (file_at (put_write zero w fs) f) = length t"
    "p < length t \<Longrightarrow> file_at (put_write zero w fs) f ! p = (if covered f [w] p then t ! p else file_at fs f ! p)" by auto
qed

lemma agrees_Cons: "agrees f t (w # W) \<longleftrightarrow> agrees f t [w] \<and> agrees f t W"
  by (auto simp: agrees_def)

lemma covered_Cons: "covered f (w # W) p \<longleftrightarrow> covered f [w] p \<or> covered f W p"
  by (auto simp: covered_def)

lemma put_writes_Cons: "put_writes zero (w # W) fs = put_writes zero W (put_write zero w fs)"
  by (simp add: put_writes_def)

lemma put_writes_nth:
  assumes "agrees f t W" "length (file_at fs f) = length t"
  shows "length (file_at (put_writes zero W fs) f) = length t"
    "p < length t \<Longrightarrow> file_at (put_writes zero W fs) f ! p = (if covered f W p then t ! p else file_at fs f ! p)"
proof -
  have "length (file_at (put_writes zero W fs) f) = length t \<and>
    (p < length t \<longrightarrow> file_at (put_writes zero W fs) f ! p = (if covered f W p then t ! p else file_at fs f ! p))"
    using assms
  proof (induction W arbitrary: fs)
    case Nil
    then show ?case by (simp add: put_writes_def covered_def)
  next
    case (Cons w W)
    have a: "agrees f t [w]" "agrees f t W" using Cons.prems(1) agrees_Cons [of f t w W] by simp_all
    note n = put_write_nth [OF a(1) Cons.prems(2), where zero = zero]
    from Cons.IH [OF a(2) n(1)] n(2) [of p] show ?case unfolding put_writes_Cons covered_Cons [of f w W] by simp
  qed
  then show "length (file_at (put_writes zero W fs) f) = length t"
    "p < length t \<Longrightarrow> file_at (put_writes zero W fs) f ! p = (if covered f W p then t ! p else file_at fs f ! p)" by auto
qed

lemma put_writes_whole:
  assumes "agrees f t W" "length (file_at fs f) = length t" "\<And>p. p < length t \<Longrightarrow> covered f W p"
  shows "file_at (put_writes zero W fs) f = t"
  using put_writes_nth [OF assms(1,2), where zero = zero] assms(3) by (intro nth_equalityI) simp_all


section \<open>The top of the tree\<close>

text \<open>
  The input of \<open>hash_cpu\<close> is the concatenation of the results of the
  streams; \<open>cpu_row\<close> is the row of a sector in it.
\<close>

definition cpu_input :: "nat \<Rightarrow> nat \<Rightarrow> (nat \<Rightarrow> nat \<Rightarrow> 'f list) \<Rightarrow> 'f list" where
  "cpu_input S streams R = concat (map (\<lambda>i. by_sector S (R i)) [0..<streams])"

definition cpu_row :: "nat \<Rightarrow> (nat \<Rightarrow> nat \<Rightarrow> 'f list) \<Rightarrow> nat \<Rightarrow> 'f list" where
  "cpu_row streams R s = concat (map (\<lambda>i. R i s) [0..<streams])"

definition cpu_val :: "'f :: comm_ring_1 env \<Rightarrow> nat \<Rightarrow> nat \<Rightarrow> (nat \<Rightarrow> nat \<Rightarrow> 'f list) \<Rightarrow> nat \<Rightarrow> nat \<Rightarrow> 'f list" where
  "cpu_val e S streams R l n = map (\<lambda>s. levels (h8 e) 8 l (cpu_row streams R s) ! n) [0..<S]"

definition cpu_writes :: "nat \<Rightarrow> file_writer_t list list \<Rightarrow> nat \<Rightarrow> nat \<Rightarrow> nat \<Rightarrow> (nat \<Rightarrow> nat \<Rightarrow> 'f list) \<Rightarrow> nat \<times> nat \<Rightarrow> 'f write_op list" where
  "cpu_writes S files part base k V p =
     map (\<lambda>s. (fw_name (files ! s ! part), row_start k (fst p - 1) + snd p + base, [V (fst p) (snd p) ! s])) [0..<S]"

definition cpu_ok :: "os \<Rightarrow> 'f :: comm_ring_1 env \<Rightarrow> pc2_t \<Rightarrow> nat \<Rightarrow> file_writer_t list list \<Rightarrow> nat \<Rightarrow> (nat \<Rightarrow> nat \<Rightarrow> 'f list) \<Rightarrow> bool" where
  "cpu_ok os e c part files G R \<longleftrightarrow>
     device_ok e (GetNumLayers (p_size c)) \<and> batch_size c = 8 * G \<and> 0 < G \<and>
     length files = sectors c \<and> (\<forall>s < sectors c. part < length (files ! s) \<and> writer_ok os (files ! s ! part)) \<and>
     (\<forall>i < stream_count c. \<forall>s < sectors c. length (R i s) = G)"

lemma nth_cpu_input:
  assumes "\<forall>i < streams. \<forall>s < S. length (R i s) = G" "x < G * streams" "s < S" "0 < G"
  shows "x div G * G * S + s * G + x mod G < length (cpu_input S streams R)"
    "cpu_input S streams R ! (x div G * G * S + s * G + x mod G) = cpu_row streams R s ! x"
proof -
  let ?i = "x div G" and ?j = "s * G + x mod G"
  have i: "?i < streams" using assms(2) by (simp add: less_mult_imp_div_less mult.commute)
  have "Suc s * G \<le> S * G" using assms(3) by (intro mult_le_mono1) simp
  then have j: "?j < S * G" using assms(4) mod_less_divisor [of G x] unfolding mult_Suc by linarith
  have len: "length (by_sector S (R i)) = S * G" if "i < streams" for i
    using assms(1) that by (intro length_by_sector) simp
  have "Suc ?i * (S * G) \<le> streams * (S * G)" using i by (intro mult_le_mono1) simp
  then have lt: "?i * (S * G) + ?j < streams * (S * G)" using j unfolding mult_Suc by linarith
  have e: "x div G * G * S + s * G + x mod G = ?i * (S * G) + ?j" by (simp add: mult_ac)
  show "x div G * G * S + s * G + x mod G < length (cpu_input S streams R)"
    unfolding e using lt length_grid [of streams "\<lambda>i. by_sector S (R i)" "S * G"] len by (simp add: cpu_input_def)
  have "cpu_input S streams R ! (?i * (S * G) + ?j) = by_sector S (R ?i) ! ?j"
    using nth_by_sector [of streams "\<lambda>i. by_sector S (R i)" "S * G" ?i ?j] len i j by (simp add: cpu_input_def by_sector_def)
  also have "\<dots> = R ?i s ! (x mod G)"
    using nth_by_sector [of S "R ?i" G s "x mod G"] assms i by simp
  also have "\<dots> = cpu_row streams R s ! x"
    using nth_by_sector [of streams "\<lambda>i. R i s" G ?i "x mod G"] assms i by (simp add: cpu_row_def by_sector_def)
  finally show "cpu_input S streams R ! (x div G * G * S + s * G + x mod G) = cpu_row streams R s ! x" unfolding e .
qed

lemma length_cpu_row:
  assumes "\<forall>i < streams. \<forall>s < S. length (R i s) = G" "s < S"
  shows "length (cpu_row streams R s) = G * streams"
  using length_grid [of streams "\<lambda>i. R i s" G] assms by (simp add: cpu_row_def mult.commute)

lemma hash8:
  assumes "device_ok e L" "length xs = 8"
  shows "Hash (e_to e) (e_from e) (e_trees e) xs = Inr (h8 e xs)"
proof -
  have d: "poseidon_ok (e_trees e)" "ps_t (e_trees e) = 8 + 1" using assms(1) by (simp_all add: device_ok_def)
  then show ?thesis
    using Hash_elements_spec [OF d(1), of "map (e_to e) xs"] assms(2) by (simp add: Hash_def get_block_def h8_def)
qed

lemma length_cpu_level:
  assumes "length xs = 8 ^ Suc k" "l \<le> Suc k"
  shows "length (levels h 8 l xs) = 8 ^ (Suc k - l)"
proof -
  have "(8 :: nat) ^ Suc k = 8 ^ (Suc k - l) * 8 ^ l" using assms(2) by (metis le_add_diff_inverse2 power_add)
  then show ?thesis using assms(1) tree8.length_levels [of xs _ l h] by (simp add: arity8)
qed

lemma cpu_level_nth:
  assumes "length xs = 8 ^ Suc k" "1 \<le> l" "l \<le> Suc k" "n < 8 ^ (Suc k - l)"
  shows "levels h 8 l xs ! n = h (map (\<lambda>q. levels h 8 (l - 1) xs ! (8 * n + q)) [0..<8])"
proof -
  obtain l' where l: "l = Suc l'" using assms(2) by (cases l) auto
  have len: "length (levels h 8 l' xs) = 8 * 8 ^ (Suc k - l)"
    using length_cpu_level [OF assms(1), of l' h] assms(3) l by (simp add: Suc_diff_le)
  have "levels h 8 l xs = level h 8 (levels h 8 l' xs)" unfolding l by (rule levels_Suc_end)
  then show ?thesis using level_8 [OF len, of h] assms(4) l by (simp add: mult.commute)
qed



section \<open>The callback\<close>

definition cpu_mem :: "'f cpu_data \<Rightarrow> nat \<Rightarrow> 'f list" where
  "cpu_mem d b = (case d of Inl _ \<Rightarrow> [] | Inr (mem, _) \<Rightarrow> mem b)"

definition cpu_inv :: "os \<Rightarrow> 'f :: comm_ring_1 \<Rightarrow> 'f env \<Rightarrow> pc2_t \<Rightarrow> nat \<Rightarrow> file_writer_t list list \<Rightarrow> nat \<Rightarrow> (nat \<Rightarrow> nat \<Rightarrow> 'f list) \<Rightarrow>
    nat \<Rightarrow> nat \<Rightarrow> 'f fs \<Rightarrow> nat \<Rightarrow> nat \<Rightarrow> 'f cpu_data \<Rightarrow> bool" where
  "cpu_inv os zero e c part files G R base k fs0 bits m d \<longleftrightarrow>
     cpu_ok os e c part files G R \<and> p_bits c = bits \<and> G * stream_count c = 8 ^ Suc k \<and>
     (\<exists>mem. d = Inr (mem, put_writes zero
          (concat (map (cpu_writes (sectors c) files part base k (cpu_val e (sectors c) (stream_count c) R)) (take m (order k 0)))) fs0) \<and>
        (\<forall>b. length (mem b) = sectors c))"

lemma cpu_sector_fold:
  assumes inp: "\<And>s mem'. s < S \<Longrightarrow> (\<And>x. x \<noteq> b \<Longrightarrow> mem' x = mem x) \<Longrightarrow>
      (if is_leaf w then leaf_inputs c input (wi_node c w) s else node_inputs mem' w s) = Inr (I s)"
    and h: "\<And>s. s < S \<Longrightarrow> Hash (e_to e) (e_from e) (e_trees e) (I s) = Inr (V ! s)"
    and b: "buf w = Some b" "length (mem b) = S" "length V = S"
    and f: "length files = S" "\<And>s. s < S \<Longrightarrow> part < length (files ! s) \<and> writer_ok os (files ! s ! part)"
    and j: "j \<le> S"
  shows "fold_result (cpu_sector os zero e c part input files offset w) [0..<j] (mem, fs) =
    Inr (mem(b := take j V @ drop j (mem b)),
         put_writes zero (map (\<lambda>s. (fw_name (files ! s ! part), offset div fr_size, [V ! s])) [0..<j]) fs)"
  using j
proof (induction j)
  case 0
  then show ?case by (simp add: put_writes_def)
next
  case (Suc j)
  let ?mem = "mem(b := take j V @ drop j (mem b))"
  let ?W = "\<lambda>j. map (\<lambda>s. (fw_name (files ! s ! part), offset div fr_size, [V ! s])) [0..<j]"
  have i: "(if is_leaf w then leaf_inputs c input (wi_node c w) j else node_inputs ?mem w j) = Inr (I j)"
    using Suc.prems by (intro inp) simp_all
  have m: "vec_set (?mem b) j (V ! j) = Inr (take (Suc j) V @ drop (Suc j) (mem b))"
  proof -
    have "(take j V @ drop j (mem b))[j := V ! j] = take (Suc j) V @ drop (Suc j) (mem b)"
      using Suc.prems b(2,3) by (simp add: list_update_append take_Suc_conv_app_nth flip: Cons_nth_drop_Suc)
    then show ?thesis using Suc.prems b(2,3) by (simp add: vec_set_def)
  qed
  have "cpu_sector os zero e c part input files offset w j (?mem, put_writes zero (?W j) fs) =
      Inr (mem(b := take (Suc j) V @ drop (Suc j) (mem b)), put_writes zero (?W (Suc j)) fs)"
    unfolding cpu_sector_def prod.case i bind_result_simps h [OF Suc_le_lessD [OF Suc.prems]] b(1) option.case m
    using f Suc.prems by (simp add: fw_write_put put_writes_append) (simp add: put_writes_def)
  moreover have "fold_result (cpu_sector os zero e c part input files offset w) [0..<j] (mem, fs) = Inr (?mem, put_writes zero (?W j) fs)"
    by (rule Suc.IH [OF Suc_leD [OF Suc.prems]])
  moreover have "[0..<Suc j] = [0..<j] @ [j]" by simp
  ultimately show ?case by (simp only: fold_result_append bind_result_simps fold_result.simps)
qed

lemma node_inputs_ok:
  assumes "inputs w = map Some xs" "length xs = 8" "\<And>q. q < 8 \<Longrightarrow> mem (xs ! q) = Y q" "\<And>q. q < 8 \<Longrightarrow> s < length (Y q)"
  shows "node_inputs mem w s = Inr (map (\<lambda>q. Y q ! s) [0..<8])"
  unfolding node_inputs_def arity8 using assms by (intro map_result_Inr) simp

lemma leaf_inputs_ok:
  assumes "cpu_ok os e c part files G R" "G * stream_count c = 8 ^ Suc k" "n < 8 ^ k" "s < sectors c"
  shows "leaf_inputs c (cpu_input (sectors c) (stream_count c) R) n s =
    Inr (map (\<lambda>q. cpu_row (stream_count c) R s ! (8 * n + q)) [0..<8])"
proof -
  have c: "batch_size c div 8 = G" "0 < G" "\<forall>i < stream_count c. \<forall>s < sectors c. length (R i s) = G"
    using assms(1) by (auto simp: cpu_ok_def)
  have "8 * n + q < G * stream_count c" if "q < 8" for q
    using assms(2,3) that mult_le_mono1 [of "Suc n" "8 ^ k" 8] by simp
  from nth_cpu_input [OF c(3) this assms(4) c(2)] show ?thesis
    unfolding leaf_inputs_def arity8 c(1) Let_def by (intro map_result_Inr) (simp add: mult.commute)
qed

lemma cpu_callback:
  assumes o: "m < tree_steps k" "order k 0 ! m = (l, n)" and w: "cur_item bits (l, n) w b" and bits: "bits \<le> 32" "8 ^ k \<le> (2 :: nat) ^ bits"
    and inp: "1 < l \<Longrightarrow> \<exists>xs. length xs = 8 \<and> inputs w = map Some xs \<and> b \<notin> set xs \<and>
      (\<forall>q < 8. cpu_mem d (xs ! q) = cpu_val e (sectors c) (stream_count c) R (l - 1) (8 * n + q))"
    and inv: "cpu_inv os zero e c part files G R base k fs0 bits m d"
  defines "d' \<equiv> hash_func os zero e c part (cpu_input (sectors c) (stream_count c) R) files (base * fr_size)
      (tree_address_new (8 ^ k) fr_size 0) w d"
  shows "cpu_inv os zero e c part files G R base k fs0 bits (Suc m) d' \<and>
    cpu_mem d' b = cpu_val e (sectors c) (stream_count c) R l n \<and> (\<forall>x. x \<noteq> b \<longrightarrow> cpu_mem d' x = cpu_mem d x)"
proof -
  let ?S = "sectors c" and ?V = "cpu_val e (sectors c) (stream_count c) R" and ?X = "cpu_row (stream_count c) R"
  let ?W = "cpu_writes (sectors c) files part base k ?V"
  let ?fs = "put_writes zero (concat (map ?W (take m (order k 0)))) fs0"
  have c: "cpu_ok os e c part files G R" "p_bits c = bits" "G * stream_count c = 8 ^ Suc k" using inv by (simp_all add: cpu_inv_def)
  obtain mem where mem: "d = Inr (mem, ?fs)" "\<forall>b. length (mem b) = ?S" using inv by (auto simp: cpu_inv_def)
  have dev: "device_ok e (GetNumLayers (p_size c))" "length files = ?S"
    "\<And>s. s < ?S \<Longrightarrow> part < length (files ! s) \<and> writer_ok os (files ! s ! part)"
    "\<forall>i < stream_count c. \<forall>s < ?S. length (R i s) = G" using c(1) by (simp_all add: cpu_ok_def)
  have ln: "1 \<le> l" "l \<le> Suc k" "n < 8 ^ (Suc k - l)" using order_nth_range [OF o] by auto
  have K: "k \<le> 10" by (rule tree_depth [OF bits])
  have "(8 :: nat) ^ (Suc k - l) \<le> 8 ^ k" using ln(1) by (intro power_increasing) simp_all
  then have nb: "n < 2 ^ bits" "n < 8 ^ k" using ln(3) bits(2) by linarith+
  have lw: "wi_layer c w = l" "wi_node c w = n" "is_leaf w \<longleftrightarrow> l = 1" "buf w = Some b"
    using w nb(1) ln(2) K bits(1) c(2) power_increasing [of bits 32 "2 :: nat"]
    by (simp_all add: cur_item_def wi_layer_def wi_node_def nid_layer nid_node unat_of_nat32)
  have X: "length (?X s) = 8 ^ Suc k" if "s < ?S" for s using length_cpu_row [OF dev(4) that] c(3) by simp
  have addr: "ta_address (p_bits c) (tree_address_new (8 ^ k) fr_size 0) (nid (p_bits c) (l - 1) n) =
      Inr ((row_start k (l - 1) + n) * fr_size)"
    using ta_address_row [of 0 k "l - 1" bits n fr_size] c(2) ln(2) bits(1) nb(1) K by simp
  have lV: "length (?V l n) = ?S" for l n by (simp add: cpu_val_def)
  let ?I = "\<lambda>s. map (\<lambda>q. levels (h8 e) 8 (l - 1) (?X s) ! (8 * n + q)) [0..<8]"
  have "fold_result (cpu_sector os zero e c part (cpu_input ?S (stream_count c) R) files ((row_start k (l - 1) + n) * fr_size + base * fr_size) w)
      [0..<?S] (mem, ?fs) = Inr (mem(b := take ?S (?V l n) @ drop ?S (mem b)),
        put_writes zero (map (\<lambda>s. (fw_name (files ! s ! part),
          ((row_start k (l - 1) + n) * fr_size + base * fr_size) div fr_size, [?V l n ! s])) [0..<?S]) ?fs)"
  proof (rule cpu_sector_fold [where I = ?I and S = ?S])
    fix s :: nat and mem' :: "nat \<Rightarrow> 'a list"
    assume s: "s < ?S" and mem': "\<And>x. x \<noteq> b \<Longrightarrow> mem' x = mem x"
    show "(if is_leaf w then leaf_inputs c (cpu_input ?S (stream_count c) R) (wi_node c w) s else node_inputs mem' w s) = Inr (?I s)"
    proof (cases "l = 1")
      case True
      then show ?thesis using leaf_inputs_ok [OF c(1,3) nb(2) s] lw by simp
    next
      case False
      then obtain xs where xs: "length xs = 8" "inputs w = map Some xs" "b \<notin> set xs"
        "\<forall>q < 8. mem (xs ! q) = ?V (l - 1) (8 * n + q)"
        using inp ln(1) mem(1) by (auto simp: cpu_mem_def)
      have "mem' (xs ! q) = ?V (l - 1) (8 * n + q)" if "q < 8" for q
      proof -
        have "xs ! q \<noteq> b" using xs(1,3) nth_mem [of q xs] that by metis
        with mem' xs(4) that show ?thesis by simp
      qed
      from node_inputs_ok [where Y = "\<lambda>q. ?V (l - 1) (8 * n + q)" and s = s, OF xs(2,1) this] lV s have "node_inputs mem' w s = Inr (map (\<lambda>q. ?V (l - 1) (8 * n + q) ! s) [0..<8])" by simp
      then show ?thesis using False lw s by (simp add: cpu_val_def)
    qed
  next
    fix s
    assume s: "s < ?S"
    show "Hash (e_to e) (e_from e) (e_trees e) (?I s) = Inr (?V l n ! s)"
      using hash8 [OF dev(1), of "?I s"] cpu_level_nth [OF X [OF s] ln, of "h8 e"] s by (simp add: cpu_val_def)
  qed (use lw mem dev lV in simp_all)
  moreover have "((row_start k (l - 1) + n) * fr_size + base * fr_size) div fr_size = row_start k (l - 1) + n + base"
    unfolding add_mult_distrib [symmetric] by (simp add: fr_size_def)
  moreover have "take ?S (?V l n) @ drop ?S (mem b) = ?V l n" using mem(2) lV by simp
  moreover have "map (\<lambda>s. (fw_name (files ! s ! part), row_start k (l - 1) + n + base, [?V l n ! s])) [0..<?S] = ?W (l, n)"
    by (simp add: cpu_writes_def)
  ultimately have d': "d' = Inr (mem(b := ?V l n), put_writes zero (?W (l, n)) ?fs)"
    unfolding d'_def hash_func_def mem(1) bind_result_simps lw addr by (simp only:)
  have "take (Suc m) (order k 0) = take m (order k 0) @ [(l, n)]" using o by (simp add: take_Suc_conv_app_nth)
  then have "put_writes zero (?W (l, n)) ?fs = put_writes zero (concat (map ?W (take (Suc m) (order k 0)))) fs0"
    by (simp add: put_writes_append)
  then show ?thesis unfolding d' using c mem lV by (auto simp: cpu_inv_def cpu_mem_def)
qed


lemma sector_bits: "GetNodeBits (2 ^ sector_lg s) \<le> 32" "8 ^ 2 \<le> (2 :: nat) ^ GetNodeBits (2 ^ sector_lg s)"
proof -
  show "GetNodeBits (2 ^ sector_lg s) \<le> 32" using sector_lg_bounds [of s] by (simp add: GetNodeBits_sector)
  have "(2 :: nat) ^ 6 \<le> 2 ^ GetNodeBits (2 ^ sector_lg s)"
    unfolding GetNodeBits_sector using sector_lg_bounds [of s] by (intro power_increasing) simp_all
  then show "8 ^ 2 \<le> (2 :: nat) ^ GetNodeBits (2 ^ sector_lg s)" by simp
qed

interpretation cpu: tree_client "GetNodeBits (2 ^ sector_lg s)" 2
  "hash_func os zero e c part (cpu_input (sectors c) (stream_count c) R) files (base * fr_size) (tree_address_new (8 ^ 2) fr_size 0)"
  cpu_mem "cpu_val e (sectors c) (stream_count c) R"
  "cpu_inv os zero e c part files G R base 2 fs0 (GetNodeBits (2 ^ sector_lg s))"
  for s and os and zero :: "'f :: comm_ring_1" and e c part R files base G fs0
proof (unfold_locales, goal_cases)
  case (3 m l n w b d)
  show ?case by (rule cpu_callback [OF 3(1-3) sector_bits 3(4,5)])
qed (rule sector_bits)+

lemma hash_cpu_run:
  assumes ok: "cpu_ok os e c part files G R" and bits: "p_bits c = GetNodeBits (2 ^ sector_lg s)"
    and sh: "G * stream_count c = 8 ^ 3" "8 dvd G"
  shows "hash_cpu os zero e c part (cpu_input (sectors c) (stream_count c) R) files (base * fr_size) junk fs =
    Some (Inr (map (\<lambda>j. root (h8 e) 8 3 (cpu_row (stream_count c) R j)) [0..<sectors c],
      put_writes zero (concat (map (cpu_writes (sectors c) files part base 2 (cpu_val e (sectors c) (stream_count c) R)) (order 2 0))) fs))"
proof -
  let ?S = "sectors c" and ?V = "cpu_val e (sectors c) (stream_count c) R"
  let ?d = "Inr (\<lambda>_. replicate ?S junk, fs) :: 'a cpu_data"
  have "batch_size c = 8 * G" using ok by (simp add: cpu_ok_def)
  then have n: "batch_size c * stream_count c div 8 div 8 = 8 ^ 2" "batch_size c div 8 mod 8 = 0"
    using sh by (simp_all add: mult.assoc)
  have inv: "cpu_inv os zero e c part files G R base 2 fs (GetNodeBits (2 ^ sector_lg s)) 0 ?d"
    using ok bits sh(1) by (simp add: cpu_inv_def put_writes_def)
  have "pool_ok (buffers_new ?S) {}" by (simp add: pool_ok_def buffers_new_def)
  from cpu.run_root [OF inv this] obtain b s' where
    r: "sched_run (p_bits c) (hash_func os zero e c part (cpu_input ?S (stream_count c) R) files (base * fr_size)
          (tree_address_new (8 ^ 2) fr_size 0)) (sched_new (p_bits c) (8 ^ 2) 8 (buffers_new ?S) ?d) = Some (Inr (Some b, s'))"
      "cpu_mem (data s') b = ?V (Suc 2) 0" "sched_is_done s' = Inr True"
      "cpu_inv os zero e c part files G R base 2 fs (GetNodeBits (2 ^ sector_lg s)) (tree_steps 2) (data s')"
    unfolding bits by metis
  from r(4) obtain mem where mem: "data s' = Inr (mem, put_writes zero (concat (map
      (cpu_writes ?S files part base 2 ?V) (order 2 0))) fs)" "length (mem b) = ?S"
    by (auto simp: cpu_inv_def)
  have G: "\<forall>i < stream_count c. \<forall>s < ?S. length (R i s) = G" using ok by (simp add: cpu_ok_def)
  have top: "levels (h8 e) 8 3 (cpu_row (stream_count c) R j) ! 0 = root (h8 e) 8 3 (cpu_row (stream_count c) R j)" if "j < ?S" for j
  proof -
    have "length (cpu_row (stream_count c) R j) = 8 ^ 3" using length_cpu_row [OF G that] sh(1) by simp
    then have "length (levels (h8 e) 8 3 (cpu_row (stream_count c) R j)) = 1"
      using length_cpu_level [of _ 2 3] by simp
    then show ?thesis unfolding root_def by (metis hd_conv_nth list.size(3) zero_neq_one)
  qed
  have "mem b = map (\<lambda>j. root (h8 e) 8 3 (cpu_row (stream_count c) R j)) [0..<?S]"
  proof -
    have "mem b = ?V 3 0" using r(2) mem(1) by (simp add: cpu_mem_def)
    then show ?thesis using top by (simp add: cpu_val_def)
  qed
  then show ?thesis
    unfolding hash_cpu_def Let_def arity8 n r(1) using mem r(3) by (simp add: get_block_def)
qed



section \<open>The roots\<close>

definition poseidon_of :: "'f :: comm_ring_1 env \<Rightarrow> (nat \<Rightarrow> 'f list) \<Rightarrow> nat \<Rightarrow> 'f list \<Rightarrow> 'f" where
  "poseidon_of e constants a xs =
     (case Poseidon_new constants a of
        Inl _ \<Rightarrow> 0
      | Inr p \<Rightarrow> e_from e (poseidon_spec (consts_of p) (domain_tag p) (map (e_to e) xs)))"

lemma poseidon_of_hash:
  assumes "constants_len a = Some len" "length (constants a) * fr_bytes = len" "a < 31"
  obtains p where "Poseidon_new constants a = Inr p"
    "\<And>xs. a \<le> length xs \<Longrightarrow> Hash (e_to e) (e_from e) p xs = Inr (poseidon_of e constants a (take a xs))"
proof -
  obtain p where p: "Poseidon_new constants a = Inr p" "poseidon_ok p" "ps_t p = a + 1"
    using Poseidon_new_ok [of a len constants] assms by blast
  have "Hash (e_to e) (e_from e) p xs = Inr (poseidon_of e constants a (take a xs))" if "a \<le> length xs" for xs
    using Hash_elements_spec [OF p(2), of "map (e_to e) (take a xs)"] that p(1,3)
    by (simp add: Hash_def get_block_def poseidon_of_def)
  with p(1) that show ?thesis by blast
qed

text \<open>
  The roots of the parts, combined as in the CPU construction of a tree (\<open>Tree_RC.combine_roots\<close>).
\<close>

lemma root_hash_combines:
  assumes "\<forall>a \<in> {2, 8}. \<exists>len. constants_len a = Some len \<and> length (constants a) * fr_bytes = len"
    "n \<in> {2, 8, 16}" "length roots = n * S" "j < S"
  shows "root_hash (e_to e) (e_from e) constants n S roots j =
    Inr (combine_roots (poseidon_of e constants) n (map (\<lambda>i. roots ! (i * S + j)) [0..<n]))"
proof -
  obtain l2 l8 where l: "constants_len 2 = Some l2" "length (constants 2) * fr_bytes = l2" "constants_len 8 = Some l8"
    "length (constants 8) * fr_bytes = l8" using assms(1) by auto
  obtain p8 where p8: "Poseidon_new constants 8 = Inr p8"
    "\<And>xs. 8 \<le> length xs \<Longrightarrow> Hash (e_to e) (e_from e) p8 xs = Inr (poseidon_of e constants 8 (take 8 xs))"
    using poseidon_of_hash [where constants = constants and e = e, OF l(3,4)] by auto
  obtain p2 where p2: "Poseidon_new constants 2 = Inr p2"
    "\<And>xs. 2 \<le> length xs \<Longrightarrow> Hash (e_to e) (e_from e) p2 xs = Inr (poseidon_of e constants 2 (take 2 xs))"
    using poseidon_of_hash [where constants = constants and e = e, OF l(1,2)] by auto
  let ?in = "map (\<lambda>i. roots ! (i * S + j)) [0..<n]"
  have "i * S + j < length roots" if "i < n" for i
    using assms(3,4) that mult_le_mono1 [of "Suc i" n S] by simp
  then have m: "map_result (\<lambda>i. vec_get roots (i * S + j)) [0..<n] = Inr ?in" by (intro map_result_Inr) simp
  show ?thesis
  proof (cases "n = 16")
    case True
    have len: "length ?in = 16" using True by simp
    let ?a = "poseidon_of e constants 8 (take 8 ?in)"
    have d: "drop 8 (?in[0 := ?a]) = drop 8 ?in" by (simp add: drop_update_swap)
    have "take 2 (?in[0 := ?a, 1 := b]) = [?a, b]" for b
      using len by (intro nth_equalityI) (auto simp: nth_list_update less_Suc_eq numeral_2_eq_2)
    then show ?thesis
      unfolding root_hash_def m bind_result_simps using True p2 p8 len d by (simp add: combine_roots_def vec_set_def)
  next
    case False
    then consider "n = 2" | "n = 8" using assms(2) by auto
    then show ?thesis
      by cases (unfold root_hash_def m bind_result_simps, use p2 p8 in \<open>simp_all add: combine_roots_def\<close>)
  qed
qed

end
