(* ===== verification/PC2_Output.thy ===== *)
theory PC2_Output
  imports PC2_Run PC2_Cpu
begin

text \<open>
  What PC2 leaves on disk for a part.  The requests that the streams of a
  part have handed over are written by the disk writers in any order, and the CPU adds
  the top of the trees.  The theorem is that the tree files then hold the rows
  of the 8-ary Poseidon trees over the columns and over the replica of the part, from the
  bottom up, and the sealed file holds the replica.
\<close>

section \<open>Writing a request\<close>

definition td_writes :: "('f \<Rightarrow> 'f) \<Rightarrow> nat \<Rightarrow> 'f buf_to_disk_t \<Rightarrow> 'f write_op list" where
  "td_writes rv S td =
     map (\<lambda>i. (fw_name (bd_dst td ! i), bd_offset td,
       if bd_stride td = 1 then take (bd_size td) (drop (the (bd_src td ! i)) (bd_data td))
       else map (\<lambda>j. rv (bd_data td ! (the (bd_src td ! i) + j * bd_stride td))) [0..<bd_size td])) [0..<S]"

definition td_ok :: "os \<Rightarrow> nat \<Rightarrow> nat \<Rightarrow> 'f buf_to_disk_t \<Rightarrow> bool" where
  "td_ok os S B td \<longleftrightarrow>
     0 < bd_size td \<and> length (bd_src td) = S \<and> length (bd_dst td) = S \<and>
     (bd_stride td \<noteq> 1 \<longrightarrow> bd_size td = B \<and> bd_reverse td) \<and>
     (\<forall>i < S. \<exists>k. bd_src td ! i = Some k \<and> writer_ok os (bd_dst td ! i) \<and>
        (\<forall>j < bd_size td. k + j * bd_stride td < length (bd_data td)))"

lemma fold_writes:
  assumes "\<And>i fs. i \<in> set xs \<Longrightarrow> f i fs = Inr (put_write zero (w i) fs)"
  shows "fold_result f xs fs = Inr (put_writes zero (map w xs) fs)"
  using assms by (induction xs arbitrary: fs) (simp_all add: put_writes_def)

lemma write_buf_put:
  assumes "td_ok os S B td"
  shows "write_buf os zero rv S B (Some td) fs = Inr (put_writes zero (td_writes rv S td) fs)"
proof -
  have t: "0 < bd_size td" "length (bd_src td) = S" "length (bd_dst td) = S" using assms by (simp_all add: td_ok_def)
  have src: "\<exists>k. bd_src td ! i = Some k \<and> writer_ok os (bd_dst td ! i) \<and> (\<forall>j < bd_size td. k + j * bd_stride td < length (bd_data td))"
    if "i < S" for i using assms that by (simp add: td_ok_def)
  show ?thesis
  proof (cases "bd_stride td = 1")
    case True
    have "write_packed os zero td i fs = Inr (put_write zero (fw_name (bd_dst td ! i), bd_offset td,
        take (bd_size td) (drop (the (bd_src td ! i)) (bd_data td))) fs)" if i: "i \<in> set [0..<S]" for i fs
    proof -
      obtain k where k: "bd_src td ! i = Some k" "writer_ok os (bd_dst td ! i)" "k + (bd_size td - 1) < length (bd_data td)"
        using src [of i] i t(1) True by (metis atLeastLessThan_iff diff_less mult.right_neutral set_upt zero_less_one)
      then have "k + bd_size td \<le> length (bd_data td)" using t(1) by simp
      then show ?thesis using k t i by (simp add: write_packed_def get_block_def fw_write_put)
    qed
    from fold_writes [where xs = "[0..<S]" and f = "write_packed os zero td", OF this] True t(1) show ?thesis by (simp add: write_buf_def td_writes_def)
  next
    case False
    then have st: "bd_size td = B" "bd_reverse td" using assms by (simp_all add: td_ok_def)
    have "write_strided os zero rv B td i fs = Inr (put_write zero (fw_name (bd_dst td ! i), bd_offset td,
        map (\<lambda>j. rv (bd_data td ! (the (bd_src td ! i) + j * bd_stride td))) [0..<bd_size td]) fs)" if i: "i \<in> set [0..<S]" for i fs
    proof -
      obtain k where k: "bd_src td ! i = Some k" "writer_ok os (bd_dst td ! i)"
        "\<forall>j < bd_size td. k + j * bd_stride td < length (bd_data td)" using src [of i] i by auto
      have "stage rv B td k = Inr (map (\<lambda>j. rv (bd_data td ! (k + j * bd_stride td))) [0..<bd_size td])"
        unfolding stage_def using k(3) st by (intro map_result_Inr) simp
      then show ?thesis using k t i by (simp add: write_strided_def fw_write_put)
    qed
    from fold_writes [where xs = "[0..<S]" and f = "write_strided os zero rv B td", OF this] False t(1) st show ?thesis by (simp add: write_buf_def td_writes_def)
  qed
qed

lemma process_batch_put:
  assumes "\<forall>td \<in> set ws. td_ok os S B td"
  shows "process_batch os zero rv S B (map Some ws) fs = Inr (put_writes zero (concat (map (td_writes rv S) ws)) fs)"
  using assms
proof (induction ws arbitrary: fs)
  case (Cons td ws)
  then show ?case by (simp add: process_batch_def write_buf_put put_writes_append)
qed (simp add: process_batch_def put_writes_def)

lemma request_writes:
  assumes "\<And>s. s < sectors c \<Longrightarrow> length (Y s) = n" "0 < n"
  shows "td_writes rv (sectors c) (request c files part off n (by_sector (sectors c) Y)) =
      map (\<lambda>s. (fw_name (files ! s ! part), off, Y s)) [0..<sectors c]"
    "(\<And>s. s < sectors c \<Longrightarrow> writer_ok os (files ! s ! part)) \<Longrightarrow>
      td_ok os (sectors c) B (request c files part off n (by_sector (sectors c) Y))"
proof -
  let ?S = "sectors c"
  have len: "length (by_sector ?S Y) = ?S * n" using assms(1) by (rule length_by_sector)
  have lt: "s * n + j < ?S * n" if "s < ?S" "j < n" for s j
    using that mult_le_mono1 [of "Suc s" ?S n] by simp
  have "take n (drop (s * n) (by_sector ?S Y)) = Y s" if "s < ?S" for s
    using block_grid [of ?S Y n s] assms(1) that by (simp add: by_sector_def block_def)
  then show "td_writes rv ?S (request c files part off n (by_sector ?S Y)) = map (\<lambda>s. (fw_name (files ! s ! part), off, Y s)) [0..<?S]"
    by (simp add: td_writes_def request_def)
  show "(\<And>s. s < ?S \<Longrightarrow> writer_ok os (files ! s ! part)) \<Longrightarrow> td_ok os ?S B (request c files part off n (by_sector ?S Y))"
    using assms(2) len lt by (simp add: td_ok_def request_def)
qed

definition sealed_val :: "'f env \<Rightarrow> pc2_t \<Rightarrow> nat \<Rightarrow> nat \<Rightarrow> 'f" where
  "sealed_val e c s n = (if sectors c = 1 then replica e c s n else e_bswap e (replica e c s n))"

lemma sealed_writes:
  assumes "0 < batch_size c" "0 < sectors c" "length (sealed_files c) = sectors c"
  shows "td_writes (e_bswap e) (sectors c) (req_sealed e c sn) =
      map (\<lambda>s. (fw_name (sealed_files c ! s), sn, map (\<lambda>j. sealed_val e c s (sn + j)) [0..<batch_size c])) [0..<sectors c]"
    "(\<And>s. s < sectors c \<Longrightarrow> writer_ok os (sealed_files c ! s)) \<Longrightarrow> td_ok os (sectors c) (batch_size c) (req_sealed e c sn)"
proof -
  let ?S = "sectors c" and ?B = "batch_size c"
  have lr: "length (replica_block e c sn) = ?B * ?S" by (simp add: replica_block_grid)
  have idx: "s + j * ?S < ?B * ?S" "replica_block e c sn ! (s + j * ?S) = replica e c s (sn + j)" if "s < ?S" "j < ?B" for s j
    using grid_index [OF that(2,1)] nth_grid_table [of "s + j * ?S" ?B ?S] by (simp_all add: replica_block_grid)
  have "take ?B (replica_block e c sn) = map (\<lambda>j. replica e c 0 (sn + j)) [0..<?B]" if "?S = 1"
    using that lr idx [of 0] by (intro nth_equalityI) simp_all
  then show "td_writes (e_bswap e) ?S (req_sealed e c sn) =
      map (\<lambda>s. (fw_name (sealed_files c ! s), sn, map (\<lambda>j. sealed_val e c s (sn + j)) [0..<?B])) [0..<?S]"
    using idx by (auto simp: td_writes_def req_sealed_def sealed_val_def)
  show "(\<And>s. s < ?S \<Longrightarrow> writer_ok os (sealed_files c ! s)) \<Longrightarrow> td_ok os ?S ?B (req_sealed e c sn)"
    using assms lr idx by (simp add: td_ok_def req_sealed_def)
qed


section \<open>The rows of a tree in a file\<close>

definition tree_rows :: "('f list \<Rightarrow> 'f) \<Rightarrow> nat \<Rightarrow> nat \<Rightarrow> 'f list \<Rightarrow> 'f list" where
  "tree_rows h d K xs = concat (map (\<lambda>l. levels h 8 l xs) [d..<Suc K])"

lemma length_level_power:
  assumes "length xs = 8 ^ K" "l \<le> K"
  shows "length (levels h 8 l xs) = 8 ^ (K - l)"
proof -
  have "(8 :: nat) ^ K = 8 ^ (K - l) * 8 ^ l" using assms(2) by (metis le_add_diff_inverse2 power_add)
  then show ?thesis using assms(1) tree8.length_levels [of xs _ l h] by (simp add: arity8)
qed

lemma rows_prefix:
  assumes "length xs = 8 ^ K" "d \<le> l" "l \<le> Suc K"
  shows "length (concat (map (\<lambda>l. levels h 8 l xs) [d..<l])) = row_start (K - d) (l - d)"
  using assms(2,3)
proof (induction l rule: dec_induct)
  case (step m)
  then show ?case
    using length_level_power [OF assms(1), of m h] by (simp add: Suc_diff_le row_start_Suc)
qed simp

lemma length_tree_rows: "length xs = 8 ^ K \<Longrightarrow> d \<le> K \<Longrightarrow> length (tree_rows h d K xs) = row_start (K - d) (Suc (K - d))"
  unfolding tree_rows_def using rows_prefix [of xs K d "Suc K" h] by (simp add: Suc_diff_le del: upt_Suc)

lemma tree_rows_split:
  assumes "length xs = 8 ^ K" "d \<le> l" "l \<le> K"
  shows "\<exists>ys zs. tree_rows h d K xs = ys @ levels h 8 l xs @ zs \<and> length ys = row_start (K - d) (l - d)"
proof -
  have "[d..<Suc K] = [d..<l] @ l # [Suc l..<Suc K]"
    using assms(2,3) upt_add_eq_append [of d l "Suc K - l"] by (simp add: upt_conv_Cons del: upt_Suc)
  with rows_prefix [OF assms(1,2), of h] assms(3) show ?thesis
    by (intro exI [of _ "concat (map (\<lambda>l. levels h 8 l xs) [d..<l])"]
        exI [of _ "concat (map (\<lambda>l. levels h 8 l xs) [Suc l..<Suc K])"]) (simp add: tree_rows_def del: upt_Suc)
qed

lemma tree_rows_at:
  assumes "length xs = 8 ^ K" "d \<le> l" "l \<le> K" "p + n \<le> 8 ^ (K - l)"
  shows "row_start (K - d) (l - d) + p + n \<le> length (tree_rows h d K xs)"
    "take n (drop (row_start (K - d) (l - d) + p) (tree_rows h d K xs)) = take n (drop p (levels h 8 l xs))"
proof -
  obtain ys zs where t: "tree_rows h d K xs = ys @ levels h 8 l xs @ zs" "length ys = row_start (K - d) (l - d)"
    using tree_rows_split [OF assms(1-3)] by blast
  then show "row_start (K - d) (l - d) + p + n \<le> length (tree_rows h d K xs)"
    "take n (drop (row_start (K - d) (l - d) + p) (tree_rows h d K xs)) = take n (drop p (levels h 8 l xs))"
    using length_level_power [OF assms(1,3), of h] assms(4) by simp_all
qed

lemma tree_rows_position:
  assumes "length xs = 8 ^ K" "d \<le> K" "x < length (tree_rows h d K xs)"
  obtains l p where "d \<le> l" "l \<le> K" "p < 8 ^ (K - l)" "x = row_start (K - d) (l - d) + p"
proof -
  have "\<exists>l p. d \<le> l \<and> l < m \<and> p < 8 ^ (K - l) \<and> x = row_start (K - d) (l - d) + p"
    if "d \<le> m" "m \<le> Suc K" "x < row_start (K - d) (m - d)" for m
    using that
  proof (induction m rule: dec_induct)
    case (step m)
    show ?case
    proof (cases "x < row_start (K - d) (m - d)")
      case False
      then have "x - row_start (K - d) (m - d) < 8 ^ (K - m)" using step by (simp add: Suc_diff_le row_start_Suc)
      with step.hyps False show ?thesis by (intro exI [of _ m] exI [of _ "x - row_start (K - d) (m - d)"]) simp
    qed (use step less_Suc_eq in auto)
  qed simp
  from this [of "Suc K"] assms(2,3) length_tree_rows [OF assms(1,2), of h]
  obtain l p where "d \<le> l" "l < Suc K" "p < 8 ^ (K - l)" "x = row_start (K - d) (l - d) + p" by (auto simp: Suc_diff_le)
  with that [of l p] show ?thesis by simp
qed


text \<open>
  \<open>row_op\<close>: a write of \<open>n\<close> nodes at position \<open>p\<close> of row \<open>l\<close>.
\<close>

definition row_op :: "string \<Rightarrow> ('f list \<Rightarrow> 'f) \<Rightarrow> nat \<Rightarrow> nat \<Rightarrow> 'f list \<Rightarrow> nat \<Rightarrow> nat \<Rightarrow> nat \<Rightarrow> 'f write_op" where
  "row_op f h d K X l p n = (f, row_start (K - d) (l - d) + p, take n (drop p (levels h 8 l X)))"

lemma tree_file_written:
  assumes X: "length X = 8 ^ K" "d \<le> K" and len: "length (file_at fs f) = row_start (K - d) (Suc (K - d))"
    and ops: "\<And>off xs. (f, off, xs) \<in> set W \<Longrightarrow>
      \<exists>l p n. (f, off, xs) = row_op f h d K X l p n \<and> d \<le> l \<and> l \<le> K \<and> p + n \<le> 8 ^ (K - l)"
    and cov: "\<And>l x. d \<le> l \<Longrightarrow> l \<le> K \<Longrightarrow> x < 8 ^ (K - l) \<Longrightarrow>
      \<exists>p n. row_op f h d K X l p n \<in> set W \<and> p \<le> x \<and> x < p + n \<and> p + n \<le> 8 ^ (K - l)"
  shows "file_at (put_writes zero W fs) f = tree_rows h d K X"
proof (rule put_writes_whole)
  show "length (file_at fs f) = length (tree_rows h d K X)" using length_tree_rows [OF X, of h] len by simp
  show "agrees f (tree_rows h d K X) W" unfolding agrees_def
  proof (intro allI impI)
    fix off xs
    assume "(f, off, xs) \<in> set W"
    from ops [OF this] obtain l p n where o: "off = row_start (K - d) (l - d) + p" "xs = take n (drop p (levels h 8 l X))"
      "d \<le> l" "l \<le> K" "p + n \<le> 8 ^ (K - l)" by (auto simp: row_op_def)
    have "length xs = n" using o(2,5) length_level_power [OF X(1) o(4), of h] by simp
    with o tree_rows_at [OF X(1) o(3-5), of h] show "off + length xs \<le> length (tree_rows h d K X) \<and>
        take (length xs) (drop off (tree_rows h d K X)) = xs" by simp
  qed
  fix x
  assume "x < length (tree_rows h d K X)"
  then obtain l y where y: "d \<le> l" "l \<le> K" "y < 8 ^ (K - l)" "x = row_start (K - d) (l - d) + y"
    by (rule tree_rows_position [OF X])
  from cov [OF y(1-3)] obtain p n where c: "row_op f h d K X l p n \<in> set W" "p \<le> y" "y < p + n" "p + n \<le> 8 ^ (K - l)" by blast
  have "length (take n (drop p (levels h 8 l X))) = n" using c(4) length_level_power [OF X(1) y(2), of h] by simp
  with c y(4) show "covered f W x" unfolding covered_def row_op_def by force
qed

lemma row_start_shift_top: "m \<le> D \<Longrightarrow> j \<le> Suc m \<Longrightarrow> row_start D (D - m + j) = row_start D (D - m) + row_start m j"
proof (induction j)
  case (Suc j)
  then have "D - (D - m + j) = m - j" by simp
  with Suc show ?case by (simp add: row_start_Suc)
qed simp

lemma levels_concat:
  assumes "\<And>i. i < n \<Longrightarrow> length (X i) = m * 8 ^ l"
  shows "levels h 8 l (concat (map X [0..<n])) = concat (map (\<lambda>i. levels h 8 l (X i)) [0..<n])"
  using assms
proof (induction n)
  case 0
  have "length (levels h 8 l []) = 0" using tree8.length_levels [of "[]" 0 l h] by (simp add: arity8)
  then show ?case by simp
next
  case (Suc n)
  have "length (concat (map X [0..<n])) = n * m * 8 ^ l" using length_grid [of n X "m * 8 ^ l"] Suc.prems by simp
  from tree8.levels_append [unfolded arity8, OF this] Suc show ?case by simp
qed

lemma sub_block:
  assumes "\<And>i. i < N \<Longrightarrow> length (Y i) = M" "i < N" "Suc n * b \<le> M"
  shows "block b (Y i) n = take b (drop (n * b + M * i) (concat (map Y [0..<N])))" "n * b + M * i + b \<le> N * M"
proof -
  have "Suc i * M \<le> N * M" using assms(2) by (intro mult_le_mono1) simp
  then show "n * b + M * i + b \<le> N * M" using assms(3) unfolding mult_Suc by (simp add: mult.commute)
  have "Y i = block M (concat (map Y [0..<N])) i" using block_grid [of N Y M i] assms(1,2) by simp
  then have "block b (Y i) n = take b (drop (n * b) (take M (drop (i * M) (concat (map Y [0..<N])))))" by (simp add: block_def)
  also have "\<dots> = take b (drop (n * b + M * i) (concat (map Y [0..<N])))"
    using assms(3) by (simp add: drop_take min_def mult.commute add.commute)
  finally show "block b (Y i) n = take b (drop (n * b + M * i) (concat (map Y [0..<N])))" .
qed



section \<open>The leaves of a part\<close>

definition stream_leaves :: "pc2_t \<Rightarrow> nat \<Rightarrow> (nat \<Rightarrow> 'f) \<Rightarrow> nat \<Rightarrow> 'f list" where
  "stream_leaves c part f i = map (\<lambda>j. f (stream_base c part i + j)) [0..<nodes_per_stream c]"

definition part_leaves :: "pc2_t \<Rightarrow> nat \<Rightarrow> (nat \<Rightarrow> 'f) \<Rightarrow> 'f list" where
  "part_leaves c part f = map (\<lambda>j. f (part * nodes_to_read c + j)) [0..<nodes_to_read c]"

lemma stream_leaves_eq:
  "leaves_c e c part i s = stream_leaves c part (column e c s) i"
  "leaves_r e c part i s = stream_leaves c part (\<lambda>n. conv e (replica e c s n)) i"
  by (simp_all add: leaves_c_def leaves_r_def stream_leaves_def)

lemma part_concat:
  assumes "nodes_to_read c = nodes_per_stream c * stream_count c" "0 < nodes_per_stream c"
  shows "part_leaves c part f = concat (map (stream_leaves c part f) [0..<stream_count c])"
proof -
  let ?n = "nodes_per_stream c"
  have "part_leaves c part f = map (\<lambda>h. f (stream_base c part (h div ?n) + h mod ?n)) [0..<stream_count c * ?n]"
    unfolding part_leaves_def using assms(1)
    by (simp add: stream_base_def add.commute add.left_commute mult.commute [of ?n])
  also have "\<dots> = concat (map (\<lambda>i. map (\<lambda>j. f (stream_base c part i + j)) [0..<?n]) [0..<stream_count c])"
    by (rule grid_map [OF assms(2)])
  also have "\<dots> = concat (map (stream_leaves c part f) [0..<stream_count c])"
    by (intro arg_cong [of _ _ concat] map_cong) (simp_all add: stream_leaves_def)
  finally show ?thesis .
qed

lemma stream_rows:
  assumes ok: "stream_ok e c part i k G K d" and l: "l \<le> Suc k"
  shows "levels h 8 l (part_leaves c part f) = concat (map (\<lambda>i. levels h 8 l (stream_leaves c part f i)) [0..<stream_count c])"
    "length (levels h 8 l (stream_leaves c part f i')) = 8 ^ (Suc k - l) * G" "length (part_leaves c part f) = 8 ^ K"
    "stream_count c * (8 ^ (Suc k - l) * G) = 8 ^ (K - l)"
proof -
  note f = stream_okD [OF ok] and sf = stream_facts [OF ok]
  have e: "(8 :: nat) ^ Suc k = 8 ^ (Suc k - l) * 8 ^ l" using l by (metis le_add_diff_inverse2 power_add)
  have len: "length (stream_leaves c part f i) = 8 ^ (Suc k - l) * G * 8 ^ l" for i
    unfolding stream_leaves_def using sf(1) e by (simp add: mult_ac)
  show "levels h 8 l (part_leaves c part f) = concat (map (\<lambda>i. levels h 8 l (stream_leaves c part f i)) [0..<stream_count c])"
    using levels_concat [of "stream_count c" "stream_leaves c part f" "8 ^ (Suc k - l) * G" l h] len
      part_concat [OF f(2), of part f] sf(1,5) by simp
  show "length (levels h 8 l (stream_leaves c part f i')) = 8 ^ (Suc k - l) * G"
    using tree8.length_levels [OF len [of i', folded arity8], of h] by (simp add: arity8)
  have K: "nodes_to_read c = 8 ^ K" using ok by (simp add: stream_ok_def)
  then show "length (part_leaves c part f) = 8 ^ K" by (simp add: part_leaves_def)
  have "(8 :: nat) ^ K = 8 ^ (K - l) * 8 ^ l" using l sf(2) by (metis le_add_diff_inverse2 le_trans power_add)
  moreover have "8 ^ K = stream_count c * (8 ^ (Suc k - l) * G) * 8 ^ l" using K f(2) sf(1) e by (simp add: mult_ac)
  ultimately show "stream_count c * (8 ^ (Suc k - l) * G) = 8 ^ (K - l)" by simp
qed



section \<open>The writes of a part\<close>

abbreviation name_c :: "pc2_t \<Rightarrow> nat \<Rightarrow> nat \<Rightarrow> string" where
  "name_c c part s \<equiv> fw_name (tree_c_files c ! s ! part)"

abbreviation name_r :: "pc2_t \<Rightarrow> nat \<Rightarrow> nat \<Rightarrow> string" where
  "name_r c part s \<equiv> fw_name (tree_r_files c ! s ! part)"

abbreviation name_s :: "pc2_t \<Rightarrow> nat \<Rightarrow> string" where
  "name_s c s \<equiv> fw_name (sealed_files c ! s)"

definition tree_c_leaves :: "'f :: comm_ring_1 env \<Rightarrow> pc2_t \<Rightarrow> nat \<Rightarrow> nat \<Rightarrow> 'f list" where
  "tree_c_leaves e c part s = part_leaves c part (column e c s)"

definition tree_r_leaves :: "'f :: comm_ring_1 env \<Rightarrow> pc2_t \<Rightarrow> nat \<Rightarrow> nat \<Rightarrow> 'f list" where
  "tree_r_leaves e c part s = part_leaves c part (\<lambda>n. conv e (replica e c s n))"

definition op_c :: "'f :: comm_ring_1 env \<Rightarrow> pc2_t \<Rightarrow> nat \<Rightarrow> nat \<Rightarrow> nat \<Rightarrow> nat \<Rightarrow> nat \<Rightarrow> nat \<Rightarrow> 'f write_op" where
  "op_c e c part K l p n s = row_op (name_c c part s) (h8 e) 0 K (tree_c_leaves e c part s) l p n"

definition op_r :: "'f :: comm_ring_1 env \<Rightarrow> pc2_t \<Rightarrow> nat \<Rightarrow> nat \<Rightarrow> nat \<Rightarrow> nat \<Rightarrow> nat \<Rightarrow> nat \<Rightarrow> nat \<Rightarrow> 'f write_op" where
  "op_r e c part K d l p n s = row_op (name_r c part s) (h8 e) (d + 1) K (tree_r_leaves e c part s) l p n"

definition op_s :: "'f env \<Rightarrow> pc2_t \<Rightarrow> nat \<Rightarrow> nat \<Rightarrow> 'f write_op" where
  "op_s e c sn s = (name_s c s, sn, map (\<lambda>j. sealed_val e c s (sn + j)) [0..<batch_size c])"

lemma stream_block:
  assumes ok: "stream_ok e c part i k G K d" and l: "l \<le> Suc k" "n < 8 ^ (Suc k - l)"
  shows "block G (levels h 8 l (stream_leaves c part f i)) n =
      take G (drop (n * G + nodes_per_stream c div 8 ^ l * i) (levels h 8 l (part_leaves c part f)))"
    "n * G + nodes_per_stream c div 8 ^ l * i + G \<le> 8 ^ (K - l)" "length (block G (levels h 8 l (stream_leaves c part f i)) n) = G"
proof -
  note r = stream_rows [OF ok l(1)]
  have i: "i < stream_count c" using stream_okD(3) [OF ok] .
  have M: "nodes_per_stream c div 8 ^ l = 8 ^ (Suc k - l) * G" using stream_facts(6) [OF ok l(1)] .
  have le: "Suc n * G \<le> 8 ^ (Suc k - l) * G" using l(2) by (intro mult_le_mono1) simp
  note b = sub_block [of "stream_count c" "\<lambda>i. levels h 8 l (stream_leaves c part f i)", OF r(2) i le]
  show "block G (levels h 8 l (stream_leaves c part f i)) n =
      take G (drop (n * G + nodes_per_stream c div 8 ^ l * i) (levels h 8 l (part_leaves c part f)))"
    unfolding M r(1) by (rule b(1))
  show "n * G + nodes_per_stream c div 8 ^ l * i + G \<le> 8 ^ (K - l)" unfolding M using b(2) r(4) by simp
  show "length (block G (levels h 8 l (stream_leaves c part f i)) n) = G"
    using le r(2) [of h f i] by (intro length_block) simp
qed

lemma req_c_writes:
  assumes ok: "stream_ok e c part i k G K d" and l: "l \<le> Suc k" "n < 8 ^ (Suc k - l)"
  shows "td_writes rv (sectors c) (req_c e c part i K G l n) =
      map (op_c e c part K l (n * G + nodes_per_stream c div 8 ^ l * i) G) [0..<sectors c]"
    "(\<And>s. s < sectors c \<Longrightarrow> writer_ok os (tree_c_files c ! s ! part)) \<Longrightarrow> td_ok os (sectors c) B (req_c e c part i K G l n)"
proof -
  note b = stream_block [OF ok l]
  have G: "0 < G" using stream_facts(5) [OF ok] .
  note w = request_writes [of c "\<lambda>s. block G (levels (h8 e) 8 l (leaves_c e c part i s)) n" G, unfolded stream_leaves_eq, OF b(3) G]
  show "td_writes rv (sectors c) (req_c e c part i K G l n) =
      map (op_c e c part K l (n * G + nodes_per_stream c div 8 ^ l * i) G) [0..<sectors c]"
    unfolding req_c_def node_val_def stream_leaves_eq w(1) by (simp add: b(1) op_c_def row_op_def tree_c_leaves_def)
  show "(\<And>s. s < sectors c \<Longrightarrow> writer_ok os (tree_c_files c ! s ! part)) \<Longrightarrow> td_ok os (sectors c) B (req_c e c part i K G l n)"
    unfolding req_c_def node_val_def stream_leaves_eq by (rule w(2))
qed

lemma req_r_writes:
  assumes ok: "stream_ok e c part i k G K d" and l: "d < l" "l \<le> Suc k" "n < 8 ^ (Suc k - l)"
  shows "td_writes rv (sectors c) (req_r e c part i K G d l n) =
      map (op_r e c part K d l (n * G + nodes_per_stream c div 8 ^ l * i) G) [0..<sectors c]"
    "(\<And>s. s < sectors c \<Longrightarrow> writer_ok os (tree_r_files c ! s ! part)) \<Longrightarrow> td_ok os (sectors c) B (req_r e c part i K G d l n)"
proof -
  note b = stream_block [OF ok l(2,3)]
  have G: "0 < G" using stream_facts(5) [OF ok] .
  note w = request_writes [of c "\<lambda>s. block G (levels (h8 e) 8 l (leaves_r e c part i s)) n" G, unfolded stream_leaves_eq, OF b(3) G]
  show "td_writes rv (sectors c) (req_r e c part i K G d l n) =
      map (op_r e c part K d l (n * G + nodes_per_stream c div 8 ^ l * i) G) [0..<sectors c]"
    unfolding req_r_def node_val_def stream_leaves_eq w(1) by (simp add: b(1) op_r_def row_op_def tree_r_leaves_def)
  show "(\<And>s. s < sectors c \<Longrightarrow> writer_ok os (tree_r_files c ! s ! part)) \<Longrightarrow> td_ok os (sectors c) B (req_r e c part i K G d l n)"
    unfolding req_r_def node_val_def stream_leaves_eq by (rule w(2))
qed

lemma req_col_writes:
  assumes ok: "stream_ok e c part i k G K d" and n: "n < 8 ^ k"
  shows "td_writes rv (sectors c) (req_col e c part i n) =
      map (op_c e c part K 0 (n * batch_size c + nodes_per_stream c * i) (batch_size c)) [0..<sectors c]"
    "(\<And>s. s < sectors c \<Longrightarrow> writer_ok os (tree_c_files c ! s ! part)) \<Longrightarrow> td_ok os (sectors c) B (req_col e c part i n)"
    "n * batch_size c + nodes_per_stream c * i + batch_size c \<le> 8 ^ K"
proof -
  let ?B = "batch_size c"
  note f = stream_okD [OF ok] and sf = stream_facts [OF ok]
  have B: "0 < ?B" using f(16,17) by simp
  have le: "Suc n * ?B \<le> nodes_per_stream c" unfolding f(1) using n by (intro mult_le_mono1) simp
  have len: "length (stream_leaves c part g i) = nodes_per_stream c" for g :: "nat \<Rightarrow> 'a" and i by (simp add: stream_leaves_def)
  have b: "block ?B (stream_leaves c part g i) n = take ?B (drop (n * ?B + nodes_per_stream c * i) (part_leaves c part g))"
    "n * ?B + nodes_per_stream c * i + ?B \<le> stream_count c * nodes_per_stream c" for g :: "nat \<Rightarrow> 'a"
    using sub_block [of "stream_count c" "stream_leaves c part g", OF len f(3) le] part_concat [OF f(2), of part g] sf(1,5)
    by (simp_all del: block_def)
  have lb: "length (block ?B (stream_leaves c part g i) n) = ?B" for g :: "nat \<Rightarrow> 'a" using le len by (intro length_block) simp
  note w = request_writes [of c "\<lambda>s. block ?B (leaves_c e c part i s) n" ?B, unfolded stream_leaves_eq, OF lb B]
  show "td_writes rv (sectors c) (req_col e c part i n) =
      map (op_c e c part K 0 (n * ?B + nodes_per_stream c * i) ?B) [0..<sectors c]"
    unfolding req_col_def stream_leaves_eq w(1) by (simp add: b(1) op_c_def row_op_def tree_c_leaves_def)
  show "(\<And>s. s < sectors c \<Longrightarrow> writer_ok os (tree_c_files c ! s ! part)) \<Longrightarrow> td_ok os (sectors c) B (req_col e c part i n)"
    unfolding req_col_def stream_leaves_eq by (rule w(2))
  have "nodes_to_read c = 8 ^ K" using ok by (simp add: stream_ok_def)
  with b(2) f(2) show "n * ?B + nodes_per_stream c * i + ?B \<le> 8 ^ K" by (simp add: mult.commute)
qed

lemma all_reqs_set:
  assumes "0 < d"
  shows "td \<in> set (all_reqs e c part i K G d k (tree_steps k)) \<longleftrightarrow>
    (\<exists>n < 8 ^ k. td = req_sealed e c (stream_base c part i + n * batch_size c)) \<or>
    \<not> tree_r_only c \<and> (\<exists>n < 8 ^ k. td = req_col e c part i n) \<or>
    \<not> tree_r_only c \<and> (\<exists>l n. 1 \<le> l \<and> l \<le> Suc k \<and> n < 8 ^ (Suc k - l) \<and> td = req_c e c part i K G l n) \<or>
    (\<exists>l n. d < l \<and> l \<le> Suc k \<and> n < 8 ^ (Suc k - l) \<and> td = req_r e c part i K G d l n)"
proof -
  have o: "(l, n) \<in> set (order k 0) \<longleftrightarrow> 1 \<le> l \<and> l \<le> Suc k \<and> n < 8 ^ (Suc k - l)" for l n
    using order_range [of l n k 0] order_complete [of l k 0 n] by auto
  have "td \<in> set (all_reqs e c part i K G d k (tree_steps k)) \<longleftrightarrow> (\<exists>p \<in> set (order k 0). td \<in> set (reqs e c part i K G d p))"
    by (simp add: all_reqs_def)
  also have "\<dots> \<longleftrightarrow> (\<exists>l n. (l, n) \<in> set (order k 0) \<and> td \<in> set (reqs e c part i K G d (l, n)))" by (metis surj_pair)
  finally have A: "td \<in> set (all_reqs e c part i K G d k (tree_steps k)) \<longleftrightarrow>
      (\<exists>l n. 1 \<le> l \<and> l \<le> Suc k \<and> n < 8 ^ (Suc k - l) \<and> td \<in> set (reqs e c part i K G d (l, n)))"
    (is "_ \<longleftrightarrow> ?R") unfolding o by blast
  show ?thesis (is "_ \<longleftrightarrow> ?S \<or> ?C \<or> ?T \<or> ?U")
  proof
    assume "td \<in> set (all_reqs e c part i K G d k (tree_steps k))"
    then obtain l n where r: "1 \<le> l" "l \<le> Suc k" "n < 8 ^ (Suc k - l)" "td \<in> set (reqs e c part i K G d (l, n))"
      using A by blast
    show "?S \<or> ?C \<or> ?T \<or> ?U"
    proof (cases "l = 1")
      case True
      with r have "td = req_sealed e c (stream_base c part i + n * batch_size c) \<or>
          \<not> tree_r_only c \<and> (td = req_col e c part i n \<or> td = req_c e c part i K G l n)" "n < 8 ^ k"
        by (auto simp: reqs_def split: if_splits)
      with r(1-3) show ?thesis by blast
    next
      case False
      with r have "\<not> tree_r_only c \<and> td = req_c e c part i K G l n \<or> d < l \<and> td = req_r e c part i K G d l n"
        by (auto simp: reqs_def split: if_splits)
      with r show ?thesis by blast
    qed
  next
    have R: ?R if "1 \<le> l" "l \<le> Suc k" "n < 8 ^ (Suc k - l)" "td \<in> set (reqs e c part i K G d (l, n))" for l n
      using that by blast
    assume "?S \<or> ?C \<or> ?T \<or> ?U"
    then have ?R
    proof (elim disjE exE conjE)
      fix n
      assume "n < 8 ^ k" "td = req_sealed e c (stream_base c part i + n * batch_size c)"
      then show ?R by (intro R [of 1 n]) (simp_all add: reqs_def)
    next
      fix n
      assume "\<not> tree_r_only c" "n < 8 ^ k" "td = req_col e c part i n"
      then show ?R by (intro R [of 1 n]) (simp_all add: reqs_def)
    next
      fix l n
      assume "\<not> tree_r_only c" "1 \<le> l" "l \<le> Suc k" "n < 8 ^ (Suc k - l)" "td = req_c e c part i K G l n"
      then show ?R by (intro R [of l n]) (simp_all add: reqs_def)
    next
      fix l n
      assume "d < l" "l \<le> Suc k" "n < 8 ^ (Suc k - l)" "td = req_r e c part i K G d l n"
      then show ?R using assms by (intro R [of l n]) (simp_all add: reqs_def)
    qed
    with A show "td \<in> set (all_reqs e c part i K G d k (tree_steps k))" by blast
  qed
qed


definition gpu_op :: "'f :: comm_ring_1 env \<Rightarrow> pc2_t \<Rightarrow> nat \<Rightarrow> nat \<Rightarrow> nat \<Rightarrow> nat \<Rightarrow> nat \<Rightarrow> nat \<Rightarrow> nat \<Rightarrow> 'f write_op \<Rightarrow> bool" where
  "gpu_op e c part k G K d i s w \<longleftrightarrow>
     (\<exists>n < 8 ^ k. w = op_s e c (stream_base c part i + n * batch_size c) s) \<or>
     \<not> tree_r_only c \<and> (\<exists>n < 8 ^ k. w = op_c e c part K 0 (n * batch_size c + nodes_per_stream c * i) (batch_size c) s) \<or>
     \<not> tree_r_only c \<and> (\<exists>l n. 1 \<le> l \<and> l \<le> Suc k \<and> n < 8 ^ (Suc k - l) \<and>
       w = op_c e c part K l (n * G + nodes_per_stream c div 8 ^ l * i) G s) \<or>
     (\<exists>l n. d < l \<and> l \<le> Suc k \<and> n < 8 ^ (Suc k - l) \<and> w = op_r e c part K d l (n * G + nodes_per_stream c div 8 ^ l * i) G s)"

lemma stream_ops:
  assumes ok: "stream_ok e c part i k G K d" and d: "0 < d" and sf: "length (sealed_files c) = sectors c"
  shows "(\<exists>td \<in> set (all_reqs e c part i K G d k (tree_steps k)). w \<in> set (td_writes (e_bswap e) (sectors c) td)) \<longleftrightarrow>
    (\<exists>s < sectors c. gpu_op e c part k G K d i s w)"
proof -
  note f = stream_okD [OF ok]
  have sw: "w \<in> set (td_writes (e_bswap e) (sectors c) (req_sealed e c sn)) \<longleftrightarrow> (\<exists>s < sectors c. w = op_s e c sn s)" for sn
    using sealed_writes(1) [of c e sn] f(16-18) sf by (auto simp: op_s_def)
  have cw: "w \<in> set (td_writes (e_bswap e) (sectors c) (req_col e c part i n)) \<longleftrightarrow>
      (\<exists>s < sectors c. w = op_c e c part K 0 (n * batch_size c + nodes_per_stream c * i) (batch_size c) s)" if "n < 8 ^ k" for n
    using req_col_writes(1) [OF ok that] by auto
  have tw: "w \<in> set (td_writes (e_bswap e) (sectors c) (req_c e c part i K G l n)) \<longleftrightarrow>
      (\<exists>s < sectors c. w = op_c e c part K l (n * G + nodes_per_stream c div 8 ^ l * i) G s)"
    if "l \<le> Suc k" "n < 8 ^ (Suc k - l)" for l n using req_c_writes(1) [OF ok that] by auto
  have rw: "w \<in> set (td_writes (e_bswap e) (sectors c) (req_r e c part i K G d l n)) \<longleftrightarrow>
      (\<exists>s < sectors c. w = op_r e c part K d l (n * G + nodes_per_stream c div 8 ^ l * i) G s)"
    if "d < l" "l \<le> Suc k" "n < 8 ^ (Suc k - l)" for l n using req_r_writes(1) [OF ok that] by auto
  let ?W = "\<lambda>td. w \<in> set (td_writes (e_bswap e) (sectors c) td)"
  have "(\<exists>td \<in> set (all_reqs e c part i K G d k (tree_steps k)). ?W td) \<longleftrightarrow>
      (\<exists>n < 8 ^ k. ?W (req_sealed e c (stream_base c part i + n * batch_size c))) \<or>
      \<not> tree_r_only c \<and> (\<exists>n < 8 ^ k. ?W (req_col e c part i n)) \<or>
      \<not> tree_r_only c \<and> (\<exists>l n. 1 \<le> l \<and> l \<le> Suc k \<and> n < 8 ^ (Suc k - l) \<and> ?W (req_c e c part i K G l n)) \<or>
      (\<exists>l n. d < l \<and> l \<le> Suc k \<and> n < 8 ^ (Suc k - l) \<and> ?W (req_r e c part i K G d l n))"
    unfolding Bex_def all_reqs_set [OF d] by blast
  also have "(\<exists>n < 8 ^ k. ?W (req_sealed e c (stream_base c part i + n * batch_size c))) \<longleftrightarrow>
      (\<exists>s < sectors c. \<exists>n < 8 ^ k. w = op_s e c (stream_base c part i + n * batch_size c) s)" unfolding sw by blast
  also have "(\<exists>n < 8 ^ k. ?W (req_col e c part i n)) \<longleftrightarrow> (\<exists>s < sectors c. \<exists>n < 8 ^ k.
      w = op_c e c part K 0 (n * batch_size c + nodes_per_stream c * i) (batch_size c) s)" using cw by blast
  also have "(\<exists>l n. 1 \<le> l \<and> l \<le> Suc k \<and> n < 8 ^ (Suc k - l) \<and> ?W (req_c e c part i K G l n)) \<longleftrightarrow>
      (\<exists>s < sectors c. \<exists>l n. 1 \<le> l \<and> l \<le> Suc k \<and> n < 8 ^ (Suc k - l) \<and>
         w = op_c e c part K l (n * G + nodes_per_stream c div 8 ^ l * i) G s)" using tw by blast
  also have "(\<exists>l n. d < l \<and> l \<le> Suc k \<and> n < 8 ^ (Suc k - l) \<and> ?W (req_r e c part i K G d l n)) \<longleftrightarrow>
      (\<exists>s < sectors c. \<exists>l n. d < l \<and> l \<le> Suc k \<and> n < 8 ^ (Suc k - l) \<and>
         w = op_r e c part K d l (n * G + nodes_per_stream c div 8 ^ l * i) G s)" using rw by blast
  finally show ?thesis unfolding gpu_op_def by blast
qed

lemma gpu_op_fits:
  assumes ok: "stream_ok e c part i k G K d"
  shows "n < 8 ^ k \<Longrightarrow> n * batch_size c + nodes_per_stream c * i + batch_size c \<le> 8 ^ (K - 0)"
    "l \<le> Suc k \<Longrightarrow> n < 8 ^ (Suc k - l) \<Longrightarrow> n * G + nodes_per_stream c div 8 ^ l * i + G \<le> 8 ^ (K - l)"
  using req_col_writes(3) [OF ok] stream_block(2) [OF ok] by auto

text \<open>Every node of a row that a stream computes is written by it.\<close>

lemma gpu_op_covers:
  assumes ok: "\<And>i. i < stream_count c \<Longrightarrow> stream_ok e c part i k G K d" and c: "0 < stream_count c"
  shows "x < 8 ^ K \<Longrightarrow> \<exists>i n. i < stream_count c \<and> n < 8 ^ k \<and> n * batch_size c + nodes_per_stream c * i \<le> x \<and>
      x < n * batch_size c + nodes_per_stream c * i + batch_size c"
    "l \<le> Suc k \<Longrightarrow> x < 8 ^ (K - l) \<Longrightarrow> \<exists>i n. i < stream_count c \<and> n < 8 ^ (Suc k - l) \<and>
      n * G + nodes_per_stream c div 8 ^ l * i \<le> x \<and> x < n * G + nodes_per_stream c div 8 ^ l * i + G"
proof -
  have split: "\<exists>i n. i < N \<and> n < M \<and> n * b + M * b * i \<le> x \<and> x < n * b + M * b * i + b" if "x < N * (M * b)" for N M b x :: nat
  proof -
    have M: "0 < M * b" using that by (cases "M * b") simp_all
    then have b: "0 < b" by simp
    have "x div (M * b) < N" using that by (simp add: less_mult_imp_div_less)
    moreover have "x mod (M * b) div b < M" using M by (simp add: less_mult_imp_div_less)
    moreover have "x = x mod (M * b) mod b + (x mod (M * b) div b * b + M * b * (x div (M * b)))"
      using div_mult_mod_eq [of x "M * b"] div_mult_mod_eq [of "x mod (M * b)" b] by (simp add: mult.commute)
    moreover have "x mod (M * b) mod b < b" using b by simp
    ultimately show ?thesis by (intro exI [of _ "x div (M * b)"] exI [of _ "x mod (M * b) div b"]) linarith
  qed
  note o = ok [OF c] and sf = stream_facts [OF ok [OF c]]
  { assume "x < 8 ^ K"
    moreover have "8 ^ K = stream_count c * (8 ^ k * batch_size c)" "nodes_per_stream c = 8 ^ k * batch_size c"
      using o by (auto simp: stream_ok_def mult_ac)
    ultimately show "\<exists>i n. i < stream_count c \<and> n < 8 ^ k \<and> n * batch_size c + nodes_per_stream c * i \<le> x \<and>
        x < n * batch_size c + nodes_per_stream c * i + batch_size c" using split [of x "stream_count c" "8 ^ k" "batch_size c"] by simp }
  assume l: "l \<le> Suc k" "x < 8 ^ (K - l)"
  then show "\<exists>i n. i < stream_count c \<and> n < 8 ^ (Suc k - l) \<and>
      n * G + nodes_per_stream c div 8 ^ l * i \<le> x \<and> x < n * G + nodes_per_stream c div 8 ^ l * i + G"
    using split [of x "stream_count c" "8 ^ (Suc k - l)" G] stream_rows(4) [OF o l(1)] unfolding sf(6) [OF l(1)] by simp
qed


lemma cpu_ops:
  assumes X: "\<And>j. j < S \<Longrightarrow> length (X j) = 8 ^ K" and K: "d + 3 \<le> K"
    and V: "\<And>l n j. j < S \<Longrightarrow> V l n ! j = levels h 8 l (levels h 8 (K - 3) (X j)) ! n"
  shows "w \<in> set (concat (map (cpu_writes S files part (row_start (K - d) (K - d - 2)) 2 V) (order 2 0))) \<longleftrightarrow>
    (\<exists>j < S. \<exists>l n. 1 \<le> l \<and> l \<le> 3 \<and> n < 8 ^ (3 - l) \<and> w = row_op (fw_name (files ! j ! part)) h d K (X j) (K - 3 + l) n 1)"
proof -
  have o: "(l, n) \<in> set (order 2 0) \<longleftrightarrow> 1 \<le> l \<and> l \<le> 3 \<and> n < 8 ^ (3 - l)" for l n
    using order_range [of l n 2 0] order_complete [of l 2 0 n] by auto
  have op: "(fw_name (files ! j ! part), row_start 2 (l - 1) + n + row_start (K - d) (K - d - 2), [V l n ! j]) =
      row_op (fw_name (files ! j ! part)) h d K (X j) (K - 3 + l) n 1" if "j < S" "1 \<le> l" "l \<le> 3" "n < 8 ^ (3 - l)" for j l n
  proof -
    have "K - (K - 3 + l) = 3 - l" "K - 3 + l - d = K - d - 2 + (l - 1)" using K that by auto
    moreover have "row_start (K - d) (K - d - 2 + (l - 1)) = row_start (K - d) (K - d - 2) + row_start 2 (l - 1)"
      using K that by (intro row_start_shift_top) auto
    moreover have "length (levels h 8 (K - 3 + l) (X j)) = 8 ^ (K - (K - 3 + l))"
      using K that by (intro length_level_power [OF X [OF that(1)]]) simp
    moreover have "V l n ! j = levels h 8 (K - 3 + l) (X j) ! n" unfolding V [OF that(1)] tree8.levels_add [unfolded arity8] ..
    ultimately show ?thesis using that(4) by (simp add: row_op_def take_Suc_conv_app_nth flip: One_nat_def)
      (simp add: hd_drop_conv_nth take_Suc)
  qed
  have cw: "w \<in> set (cpu_writes S files part b 2 V (l, n)) \<longleftrightarrow>
      (\<exists>j < S. w = (fw_name (files ! j ! part), row_start 2 (l - 1) + n + b, [V l n ! j]))" for b l n
    by (auto simp: cpu_writes_def)
  have "w \<in> set (concat (map (cpu_writes S files part (row_start (K - d) (K - d - 2)) 2 V) (order 2 0))) \<longleftrightarrow>
      (\<exists>l n. (l, n) \<in> set (order 2 0) \<and> w \<in> set (cpu_writes S files part (row_start (K - d) (K - d - 2)) 2 V (l, n)))"
    by (simp del: order.simps) (metis surj_pair)
  also have "\<dots> \<longleftrightarrow> (\<exists>l n. 1 \<le> l \<and> l \<le> 3 \<and> n < 8 ^ (3 - l) \<and> (\<exists>j < S.
      w = (fw_name (files ! j ! part), row_start 2 (l - 1) + n + row_start (K - d) (K - d - 2), [V l n ! j])))"
    unfolding o cw by blast
  also have "\<dots> \<longleftrightarrow> (\<exists>j < S. \<exists>l n. 1 \<le> l \<and> l \<le> 3 \<and> n < 8 ^ (3 - l) \<and>
      w = row_op (fw_name (files ! j ! part)) h d K (X j) (K - 3 + l) n 1)" using op by metis
  finally show ?thesis .
qed

lemma cpu_rows:
  assumes ok: "\<And>i. i < stream_count c \<Longrightarrow> stream_ok e c part i k G K d" and c: "0 < stream_count c"
  shows "cpu_row (stream_count c) (\<lambda>i s. levels h 8 (Suc k) (stream_leaves c part (f s) i)) s = levels h 8 (Suc k) (part_leaves c part (f s))"
  unfolding cpu_row_def stream_rows(1) [OF ok [OF c] order_refl] ..

text \<open>
  \<open>part_files_ok\<close>: the files of the part are open for writing, have
  different names and the sizes that \<open>open_files\<close> gives them.
\<close>

definition part_files_ok :: "os \<Rightarrow> pc2_t \<Rightarrow> nat \<Rightarrow> 'f fs \<Rightarrow> bool" where
  "part_files_ok os c part fs \<longleftrightarrow>
     (let S = sectors c in
      distinct ((if tree_r_only c then [] else map (name_c c part) [0..<S]) @ map (name_r c part) [0..<S] @ map (name_s c) [0..<S]) \<and>
      length (sealed_files c) = S \<and>
      (\<forall>s < S. (\<not> tree_r_only c \<longrightarrow> writer_ok os (tree_c_files c ! s ! part) \<and>
             length (file_at fs (name_c c part s)) * fr_size = ta_data_size (tree_c_address c)) \<and>
           writer_ok os (tree_r_files c ! s ! part) \<and>
           length (file_at fs (name_r c part s)) * fr_size = ta_data_size (tree_r_address c) \<and>
           writer_ok os (sealed_files c ! s) \<and> length (file_at fs (name_s c s)) = GetNumNodes (p_size c)))"

lemma distinct_pair:
  assumes "distinct (map f [0..<S] @ map g [0..<S])" "i < S" "j < S"
  shows "f i = f j \<longleftrightarrow> i = j" "g i = g j \<longleftrightarrow> i = j" "f i \<noteq> g j"
proof -
  have d: "inj_on f {0..<S}" "inj_on g {0..<S}" "f ` {0..<S} \<inter> g ` {0..<S} = {}" using assms(1) by (simp_all add: distinct_map)
  have ij: "i \<in> {0..<S}" "j \<in> {0..<S}" using assms by simp_all
  show "f i = f j \<longleftrightarrow> i = j" "g i = g j \<longleftrightarrow> i = j" using d(1,2) ij by (simp_all add: inj_on_eq_iff)
  show "f i \<noteq> g j" using d(3) ij by blast
qed

lemma part_names:
  assumes "part_files_ok os c part fs" "i < sectors c" "j < sectors c"
  shows "name_r c part i = name_r c part j \<longleftrightarrow> i = j" "name_s c i = name_s c j \<longleftrightarrow> i = j" "name_r c part i \<noteq> name_s c j"
    "\<not> tree_r_only c \<Longrightarrow> name_c c part i = name_c c part j \<longleftrightarrow> i = j" "\<not> tree_r_only c \<Longrightarrow> name_c c part i \<noteq> name_r c part j"
    "\<not> tree_r_only c \<Longrightarrow> name_c c part i \<noteq> name_s c j"
proof -
  let ?S = "sectors c"
  have "distinct (map (name_r c part) [0..<?S] @ map (name_s c) [0..<?S])" using assms(1) by (simp add: part_files_ok_def Let_def)
  from distinct_pair [OF this assms(2,3)]
  show "name_r c part i = name_r c part j \<longleftrightarrow> i = j" "name_s c i = name_s c j \<longleftrightarrow> i = j" "name_r c part i \<noteq> name_s c j" by blast+
  assume "\<not> tree_r_only c"
  then have "distinct (map (name_c c part) [0..<?S] @ map (name_r c part) [0..<?S])"
    "distinct (map (name_c c part) [0..<?S] @ map (name_s c) [0..<?S])" using assms(1) by (auto simp: part_files_ok_def Let_def)
  from distinct_pair [OF this(1) assms(2,3)] distinct_pair [OF this(2) assms(2,3)]
  show "name_c c part i = name_c c part j \<longleftrightarrow> i = j" "name_c c part i \<noteq> name_r c part j" "name_c c part i \<noteq> name_s c j" by blast+
qed


inductive part_op :: "'f :: comm_ring_1 env \<Rightarrow> pc2_t \<Rightarrow> nat \<Rightarrow> nat \<Rightarrow> nat \<Rightarrow> nat \<Rightarrow> nat \<Rightarrow> nat \<Rightarrow> 'f write_op \<Rightarrow> bool"
  for e c part k G K d j where
  po_sealed: "i < stream_count c \<Longrightarrow> n < 8 ^ k \<Longrightarrow> part_op e c part k G K d j (op_s e c (stream_base c part i + n * batch_size c) j)"
| po_col: "\<not> tree_r_only c \<Longrightarrow> i < stream_count c \<Longrightarrow> n < 8 ^ k \<Longrightarrow>
    part_op e c part k G K d j (op_c e c part K 0 (n * batch_size c + nodes_per_stream c * i) (batch_size c) j)"
| po_c: "\<not> tree_r_only c \<Longrightarrow> i < stream_count c \<Longrightarrow> 1 \<le> l \<Longrightarrow> l \<le> Suc k \<Longrightarrow> n < 8 ^ (Suc k - l) \<Longrightarrow>
    part_op e c part k G K d j (op_c e c part K l (n * G + nodes_per_stream c div 8 ^ l * i) G j)"
| po_r: "i < stream_count c \<Longrightarrow> d < l \<Longrightarrow> l \<le> Suc k \<Longrightarrow> n < 8 ^ (Suc k - l) \<Longrightarrow>
    part_op e c part k G K d j (op_r e c part K d l (n * G + nodes_per_stream c div 8 ^ l * i) G j)"
| po_top_c: "\<not> tree_r_only c \<Longrightarrow> 1 \<le> l \<Longrightarrow> l \<le> 3 \<Longrightarrow> n < 8 ^ (3 - l) \<Longrightarrow> part_op e c part k G K d j (op_c e c part K (K - 3 + l) n 1 j)"
| po_top_r: "1 \<le> l \<Longrightarrow> l \<le> 3 \<Longrightarrow> n < 8 ^ (3 - l) \<Longrightarrow> part_op e c part k G K d j (op_r e c part K d (K - 3 + l) n 1 j)"

lemma fst_ops [simp]: "fst (op_c e c part K l p n s) = name_c c part s" "fst (op_r e c part K d l p n s) = name_r c part s"
  "fst (op_s e c sn s) = name_s c s"
  by (simp_all add: op_c_def op_r_def op_s_def row_op_def)

text \<open>The writes to one file are those of its sector and kind.\<close>

lemma part_op_name:
  assumes names: "part_files_ok os c part fs" and w: "part_op e c part k G K d j' w" and j: "j' < sectors c" "j < sectors c"
  shows "\<not> tree_r_only c \<Longrightarrow> fst w = name_c c part j \<Longrightarrow> j' = j \<and> (\<exists>l p n. w = op_c e c part K l p n j)"
    "fst w = name_r c part j \<Longrightarrow> j' = j \<and> (\<exists>l p n. w = op_r e c part K d l p n j)"
    "fst w = name_s c j \<Longrightarrow> j' = j \<and> (\<exists>sn. w = op_s e c sn j)"
proof -
  note n = part_names [OF names j] part_names [OF names j(2,1)]
  show "\<not> tree_r_only c \<Longrightarrow> fst w = name_c c part j \<Longrightarrow> j' = j \<and> (\<exists>l p n. w = op_c e c part K l p n j)"
    using w n by cases auto
  show "fst w = name_r c part j \<Longrightarrow> j' = j \<and> (\<exists>l p n. w = op_r e c part K d l p n j)"
    using w n by cases auto
  show "fst w = name_s c j \<Longrightarrow> j' = j \<and> (\<exists>sn. w = op_s e c sn j)"
    using w n by cases auto
qed

lemma top_rows:
  assumes "K = k + 4" "Suc k < l" "l \<le> K"
  obtains l' where "1 \<le> l'" "l' \<le> 3" "l = K - 3 + l'" "3 - l' = K - l"
  using assms that [of "l - (K - 3)"] by auto

lemma part_op_rows:
  assumes ok: "\<And>i. i < stream_count c \<Longrightarrow> stream_ok e c part i k G K d" and K: "K = k + 4" and d: "d \<le> k"
    and w: "part_op e c part k G K d j w"
  shows "fst w = name_c c part j \<Longrightarrow> name_c c part j \<noteq> name_r c part j \<Longrightarrow> name_c c part j \<noteq> name_s c j \<Longrightarrow>
      \<exists>l p n. w = op_c e c part K l p n j \<and> l \<le> K \<and> p + n \<le> 8 ^ (K - l)"
    "fst w = name_r c part j \<Longrightarrow> \<not> tree_r_only c \<longrightarrow> name_c c part j \<noteq> name_r c part j \<Longrightarrow> name_r c part j \<noteq> name_s c j \<Longrightarrow>
      \<exists>l p n. w = op_r e c part K d l p n j \<and> d + 1 \<le> l \<and> l \<le> K \<and> p + n \<le> 8 ^ (K - l)"
proof -
  note fits = gpu_op_fits [OF ok]
  have top: "K - 3 + l \<le> K \<and> n + 1 \<le> 8 ^ (K - (K - 3 + l)) \<and> d + 1 \<le> K - 3 + l" if "1 \<le> l" "l \<le> 3" "n < 8 ^ (3 - l)" for l n :: nat
  proof -
    have "K - (K - 3 + l) = 3 - l" using K that by simp
    then show ?thesis using K d that by simp
  qed
  show "fst w = name_c c part j \<Longrightarrow> name_c c part j \<noteq> name_r c part j \<Longrightarrow> name_c c part j \<noteq> name_s c j \<Longrightarrow>
      \<exists>l p n. w = op_c e c part K l p n j \<and> l \<le> K \<and> p + n \<le> 8 ^ (K - l)"
    using w
  proof cases
    case (po_col i n)
    with fits(1) [of i n] show ?thesis by blast
  next
    case (po_c i l n)
    with fits(2) [of i l n] K show ?thesis by (metis le_trans le_SucI add_leE Suc_le_mono le_add1 Suc_eq_plus1 add_le_mono1 one_le_numeral add_left_mono)
  next
    case (po_top_c l n)
    with top [of l n] show ?thesis by blast
  qed auto
  show "fst w = name_r c part j \<Longrightarrow> \<not> tree_r_only c \<longrightarrow> name_c c part j \<noteq> name_r c part j \<Longrightarrow> name_r c part j \<noteq> name_s c j \<Longrightarrow>
      \<exists>l p n. w = op_r e c part K d l p n j \<and> d + 1 \<le> l \<and> l \<le> K \<and> p + n \<le> 8 ^ (K - l)"
    using w
  proof cases
    case (po_r i l n)
    moreover have "l \<le> K" "d + 1 \<le> l" using po_r K by simp_all
    ultimately show ?thesis using fits(2) [of i l n] by blast
  next
    case (po_top_r l n)
    with top [of l n] show ?thesis by blast
  qed auto
qed

lemma part_op_covers:
  assumes ok: "\<And>i. i < stream_count c \<Longrightarrow> stream_ok e c part i k G K d" and c: "0 < stream_count c" and K: "K = k + 4" and l: "l \<le> K" "x < 8 ^ (K - l)"
  shows "\<not> tree_r_only c \<Longrightarrow> \<exists>p n. part_op e c part k G K d j (op_c e c part K l p n j) \<and> p \<le> x \<and> x < p + n \<and> p + n \<le> 8 ^ (K - l)"
    "d + 1 \<le> l \<Longrightarrow> \<exists>p n. part_op e c part k G K d j (op_r e c part K d l p n j) \<and> p \<le> x \<and> x < p + n \<and> p + n \<le> 8 ^ (K - l)"
proof -
  note fits = gpu_op_fits [OF ok] and cov = gpu_op_covers [OF ok c]
  { assume t: "\<not> tree_r_only c"
    consider "l = 0" | "1 \<le> l" "l \<le> Suc k" | "Suc k < l" by linarith
    then show "\<exists>p n. part_op e c part k G K d j (op_c e c part K l p n j) \<and> p \<le> x \<and> x < p + n \<and> p + n \<le> 8 ^ (K - l)"
    proof cases
      case 1
      with cov(1) [of x] l(2) obtain i n where i: "i < stream_count c" "n < 8 ^ k" "n * batch_size c + nodes_per_stream c * i \<le> x"
        "x < n * batch_size c + nodes_per_stream c * i + batch_size c" by auto
      from po_col [OF t i(1,2)] fits(1) [OF i(1,2)] i(3,4) show ?thesis unfolding 1 by blast
    next
      case 2
      with cov(2) [of l x] l(2) obtain i n where i: "i < stream_count c" "n < 8 ^ (Suc k - l)"
        "n * G + nodes_per_stream c div 8 ^ l * i \<le> x" "x < n * G + nodes_per_stream c div 8 ^ l * i + G" by blast
      from po_c [OF t i(1) 2 i(2)] fits(2) [OF i(1) 2(2) i(2)] i(3,4) show ?thesis by blast
    next
      case 3
      obtain l' where l': "1 \<le> l'" "l' \<le> 3" "l = K - 3 + l'" "3 - l' = K - l" by (rule top_rows [OF K 3 l(1)])
      have x: "x < 8 ^ (3 - l')" using l(2) l'(4) by simp
      from po_top_c [OF t l'(1,2) x, where K = K] show ?thesis unfolding l'(3) [symmetric]
        by (intro exI [of _ x] exI [of _ 1]) (use l(2) in simp)
    qed }
  assume dl: "d + 1 \<le> l"
  show "\<exists>p n. part_op e c part k G K d j (op_r e c part K d l p n j) \<and> p \<le> x \<and> x < p + n \<and> p + n \<le> 8 ^ (K - l)"
  proof (cases "l \<le> Suc k")
    case True
    with cov(2) [of l x] l(2) obtain i n where i: "i < stream_count c" "n < 8 ^ (Suc k - l)"
      "n * G + nodes_per_stream c div 8 ^ l * i \<le> x" "x < n * G + nodes_per_stream c div 8 ^ l * i + G" by blast
    have "d < l" using dl by simp
    from po_r [OF i(1) this True i(2)] fits(2) [OF i(1) True i(2)] i(3,4) show ?thesis by blast
  next
    case False
    then have "Suc k < l" by simp
    then obtain l' where l': "1 \<le> l'" "l' \<le> 3" "l = K - 3 + l'" "3 - l' = K - l" by (rule top_rows [OF K _ l(1)])
    have x: "x < 8 ^ (3 - l')" using l(2) l'(4) by simp
    from po_top_r [OF l'(1,2) x, where K = K] show ?thesis unfolding l'(3) [symmetric]
      by (intro exI [of _ x] exI [of _ 1]) (use l(2) in simp)
  qed
qed

end
