(* ===== verification/PC2_Part.thy ===== *)
theory PC2_Part
  imports PC2_Output
begin

text \<open>
  The end of a part of PC2: the theorem that the files of the part are
  right once its streams are done, their requests are written and the CPU has hashed the top of
  the trees, and the theorem on the commitments that \<open>write_roots\<close> writes.
\<close>

section \<open>The CPU work of a part\<close>

text \<open>
  The task that \<open>pc2_t::hash\<close> gives to its thread pool when the streams of
  a part are done: the results of the streams are copied, and the top of both trees is
  hashed and written.  The buffer \<open>gpu_results_c\<close> is the
  concatenation of the results of the streams.
\<close>

definition gpu_results :: "pc2_t \<Rightarrow> (nat \<Rightarrow> 'f list) \<Rightarrow> 'f list" where
  "gpu_results c r = concat (map r [0..<stream_count c])"

definition hash_part_cpu :: "os \<Rightarrow> 'f :: comm_ring_1 \<Rightarrow> 'f env \<Rightarrow> pc2_t \<Rightarrow> nat \<Rightarrow> 'f list \<Rightarrow> 'f list \<Rightarrow> 'f \<Rightarrow> 'f fs \<Rightarrow>
    ('f list \<times> 'f list \<times> 'f fs) result option" where
  "hash_part_cpu os zero e c part cpu_input_c cpu_input_r junk fs =
     (case (if tree_r_only c then Some (Inr ([], fs))
            else hash_cpu os zero e c part cpu_input_c (tree_c_files c) (final_gpu_offset_c c) junk fs) of
        None \<Rightarrow> None
      | Some (Inl x) \<Rightarrow> Some (Inl x)
      | Some (Inr (roots_c, fs1)) \<Rightarrow>
          map_option (\<lambda>r. bind_result r (\<lambda>q. case q of (roots_r, fs2) \<Rightarrow> Inr (roots_c, roots_r, fs2)))
            (hash_cpu os zero e c part cpu_input_r (tree_r_files c) (final_gpu_offset_r c) junk fs1))"

section \<open>The shape of a configuration\<close>

lemma top_offset:
  assumes "2 \<le> D"
  shows "row_start D (Suc D) - row_start 2 3 = row_start D (D - 2)"
proof -
  have "D - 2 + 3 = Suc D" using assms by simp
  with row_start_shift_top [OF assms, of 3] show ?thesis by simp
qed

lemma row_start_le: "D \<le> 9 \<Longrightarrow> row_start D (Suc D) \<le> 10 * 8 ^ 9"
proof -
  assume D: "D \<le> 9"
  have "row_start D (Suc D) \<le> (\<Sum>i<Suc D. 8 ^ 9)"
    unfolding row_start_def using D by (intro sum_mono power_increasing) simp_all
  also have "\<dots> \<le> 10 * 8 ^ 9" using D by simp
  finally show ?thesis .
qed

lemma part_depth_le: "part_depth s \<le> 9"
  by (cases s) simp_all

lemma gpu_offset:
  assumes "D \<le> 9" "2 \<le> D"
  shows "size_sub (row_start D (Suc D) * fr_size) (ta_data_size (tree_address_new (8 ^ 2) fr_size 0)) = row_start D (D - 2) * fr_size"
proof -
  have f: "ta_data_size (tree_address_new (8 ^ 2) fr_size 0) = row_start 2 3 * fr_size"
    using ta_data_size_rows [of 0 2 fr_size] by (simp add: numeral_3_eq_3)
  have "row_start 2 3 \<le> row_start D (Suc D)" using row_start_shift_top [OF assms(2), of 3] assms(2) by simp
  moreover have "row_start D (Suc D) * fr_size < SIZE_MOD"
    using row_start_le [OF assms(1)] by (simp add: fr_size_def SIZE_MOD_def)
  ultimately show ?thesis unfolding f using top_offset [OF assms(2)] by (simp add: diff_mult_distrib [symmetric])
qed

lemma pc2_new_addresses:
  assumes "pc2_new sz S tro ntr batch streams cf rf sf non_cc = Inr c"
  defines "file_nodes \<equiv> GetNumNodes sz div GetNumTreeRCFiles sz" and "final_tree \<equiv> tree_address_new (batch * streams div 8 div 8) fr_size 0"
  shows "p_bits c = GetNodeBits sz" "tree_c_address c = tree_address_new file_nodes fr_size 0"
    "tree_r_address c = tree_address_new file_nodes fr_size (GetNumTreeRDiscardRows sz + 1)"
    "final_gpu_offset_c c = size_sub (ta_data_size (tree_c_address c)) (ta_data_size final_tree)"
    "final_gpu_offset_r c = size_sub (ta_data_size (tree_r_address c)) (ta_data_size final_tree)"
proof -
  have node: "NODE_SIZE = fr_size" by (simp add: NODE_SIZE_def NODE_SIZE_LG_def fr_size_def)
  show "p_bits c = GetNodeBits sz" "tree_c_address c = tree_address_new file_nodes fr_size 0"
    "tree_r_address c = tree_address_new file_nodes fr_size (GetNumTreeRDiscardRows sz + 1)"
    "final_gpu_offset_c c = size_sub (ta_data_size (tree_c_address c)) (ta_data_size final_tree)"
    "final_gpu_offset_r c = size_sub (ta_data_size (tree_r_address c)) (ta_data_size final_tree)"
    using assms(1) unfolding pc2_new_def Let_def node arity8 file_nodes_def final_tree_def
    by (auto simp: bind_result_Inr_iff split: if_splits)
qed

lemma config_shape:
  assumes "pc2_config e s c"
  defines "K \<equiv> part_depth s" and "k \<equiv> part_depth s - 4" and "G \<equiv> batch_size c div 8" and "d \<equiv> GetNumTreeRDiscardRows (2 ^ sector_lg s)"
  shows "K = k + 4" "d \<le> k" "0 < d" "batch_size c = 8 * G" "8 \<le> G" "8 dvd G" "G * stream_count c = 8 ^ 3" "0 < stream_count c"
    "p_bits c = GetNodeBits (2 ^ sector_lg s)" "p_size c = 2 ^ sector_lg s" "nodes_to_read c = 8 ^ K"
    "final_gpu_offset_c c = row_start K (K - 2) * fr_size" "final_gpu_offset_r c = row_start (K - (d + 1)) (K - (d + 1) - 2) * fr_size"
    "ta_data_size (tree_c_address c) = row_start K (Suc K) * fr_size"
    "ta_data_size (tree_r_address c) = row_start (K - (d + 1)) (Suc (K - (d + 1))) * fr_size"
proof -
  let ?sz = "2 ^ sector_lg s"
  obtain streams batch ntr where p: "pc2_params ?sz = (streams, batch, ntr)" by (cases "pc2_params ?sz")
  note c = assms(1) [unfolded pc2_config_def p prod.case]
  from c have n: "pc2_new ?sz (sectors c) (tree_r_only c) ntr batch streams (tree_c_files c) (tree_r_files c)
      (sealed_files c) (has_non_cc_sectors c) = Inr c" by blast
  from c have s: "15 < sector_lg s" by blast
  note g = gpu_sector_shape [OF s] and q = pc2_params_shape [OF s p] and f = pc2_new_fields [OF n]
  show k: "K = k + 4" "d \<le> k" "0 < d" using g(5,6) by (simp_all add: K_def k_def d_def)
  show b: "batch_size c = 8 * G" "8 \<le> G" "0 < stream_count c" using q f by (simp_all add: G_def)
  have "streams = 8 \<and> batch = 512 \<or> streams = 64 \<and> batch = 64"
    using p by (auto simp: pc2_params_def split: if_splits)
  then show "8 dvd G" "G * stream_count c = 8 ^ 3" using f by (auto simp: G_def)
  show "p_size c = 2 ^ sector_lg s" "nodes_to_read c = 8 ^ K" using f q(1) by (simp_all add: K_def)
  have parts: "GetNumNodes ?sz div GetNumTreeRCFiles ?sz = 8 ^ K" using g(1,7) by (simp add: K_def)
  have cpu: "batch * streams div 8 div 8 = 8 ^ 2" using q(2) by simp
  have dk: "d + 1 \<le> K" using k by simp
  have K9: "K \<le> 9" by (simp add: K_def part_depth_le)
  note sizes = ta_data_size_rows [of 0 K fr_size] ta_data_size_rows [OF dk, of fr_size]
  from pc2_new_addresses [OF n, unfolded parts cpu, folded d_def] sizes gpu_offset [of K] gpu_offset [of "K - (d + 1)"] k K9
  show "p_bits c = GetNodeBits ?sz" "final_gpu_offset_c c = row_start K (K - 2) * fr_size"
    "final_gpu_offset_r c = row_start (K - (d + 1)) (K - (d + 1) - 2) * fr_size"
    "ta_data_size (tree_c_address c) = row_start K (Suc K) * fr_size"
    "ta_data_size (tree_r_address c) = row_start (K - (d + 1)) (Suc (K - (d + 1))) * fr_size" by simp_all
qed


section \<open>The writes of the streams and of the CPU\<close>

lemma stream_done:
  fixes e :: "'f :: comm_ring_1 env"
  assumes "pc2_config e s c" "i < stream_count c" "part < GetNumTreeRCFiles (2 ^ sector_lg s)"
    "part_start e c i part g0" "gpu_reach e c part g0 g" "r_state g = DONE"
  defines "k \<equiv> part_depth s - 4"
  defines "top_row \<equiv> \<lambda>f :: nat \<Rightarrow> nat \<Rightarrow> 'f. by_sector (sectors c) (\<lambda>j. levels (h8 e) 8 (Suc k) (stream_leaves c part (f j) i))"
  shows "written g = all_reqs e c part i (part_depth s) (batch_size c div 8) (GetNumTreeRDiscardRows (2 ^ sector_lg s)) k (tree_steps k)"
    "\<not> tree_r_only c \<Longrightarrow> result_c g = top_row (column e c)" "result_r g = top_row (\<lambda>j n. conv e (replica e c j n))"
proof -
  let ?G = "batch_size c div 8" and ?K = "part_depth s" and ?d = "GetNumTreeRDiscardRows (2 ^ sector_lg s)"
  note ok = config_stream [OF assms(1-3), folded k_def]
  obtain F where F: "stream_inv e c part i k ?G ?K ?d F 0 g0" using part_start_inv [OF assms(4) ok] ..
  obtain m where m: "stream_inv e c part i k ?G ?K ?d F m g" using gpu_reach_inv [OF assms(5) ok F] ..
  have "node_val e (sectors c) ?G (\<lambda>j. stream_leaves c part (f j) i) (Suc k) 0 = top_row f" for f :: "nat \<Rightarrow> nat \<Rightarrow> 'f"
  proof -
    have "length (levels (h8 e) 8 (Suc k) (stream_leaves c part (f j) i)) = ?G" for j
      using stream_rows(2) [OF ok(1) order_refl] by simp
    then show ?thesis by (simp add: node_val_def top_row_def block_def)
  qed
  moreover have "leaves_c e c part i = (\<lambda>j. stream_leaves c part (column e c j) i)"
    "leaves_r e c part i = (\<lambda>j. stream_leaves c part (\<lambda>n. conv e (replica e c j n)) i)" by (simp_all add: fun_eq_iff stream_leaves_eq)
  ultimately show "written g = all_reqs e c part i ?K ?G ?d k (tree_steps k)"
    "\<not> tree_r_only c \<Longrightarrow> result_c g = top_row (column e c)" "result_r g = top_row (\<lambda>j n. conv e (replica e c j n))"
    using m assms(6) by (auto simp: stream_inv_def phase_inv_def Let_def result_inv_def val_c_def val_r_def)
qed

lemma part_op_iff:
  "(\<exists>j < S. part_op e c part k G K d j w) \<longleftrightarrow>
    (\<exists>i < stream_count c. \<exists>j < S. gpu_op e c part k G K d i j w) \<or>
    \<not> tree_r_only c \<and> (\<exists>j < S. \<exists>l n. 1 \<le> l \<and> l \<le> 3 \<and> n < 8 ^ (3 - l) \<and> w = op_c e c part K (K - 3 + l) n 1 j) \<or>
    (\<exists>j < S. \<exists>l n. 1 \<le> l \<and> l \<le> 3 \<and> n < 8 ^ (3 - l) \<and> w = op_r e c part K d (K - 3 + l) n 1 j)"
  (is "_ \<longleftrightarrow> ?G \<or> ?C \<or> ?R")
proof
  assume "\<exists>j < S. part_op e c part k G K d j w"
  then obtain j where j: "j < S" "part_op e c part k G K d j w" by blast
  from j(2) show "?G \<or> ?C \<or> ?R" by cases (use j(1) in \<open>unfold gpu_op_def, blast+\<close>)
next
  assume "?G \<or> ?C \<or> ?R"
  then show "\<exists>j < S. part_op e c part k G K d j w"
  proof (elim disjE)
    assume ?G
    then obtain i j where "i < stream_count c" "j < S" "gpu_op e c part k G K d i j w" by blast
    then show ?thesis unfolding gpu_op_def by (elim disjE) (blast intro: part_op.intros)+
  qed (blast intro: part_op.intros)+
qed


lemma part_tree_files:
  assumes ok: "\<And>i. i < stream_count c \<Longrightarrow> stream_ok e c part i k G K d" and c: "0 < stream_count c" and K: "K = k + 4" and d: "d \<le> k"
    and names: "part_files_ok os c part fs" and j: "j < sectors c"
    and W: "\<And>w. w \<in> set W \<longleftrightarrow> (\<exists>j < sectors c. part_op e c part k G K d j w)"
  shows "\<not> tree_r_only c \<Longrightarrow> length (file_at fs (name_c c part j)) = row_start K (Suc K) \<Longrightarrow>
      file_at (put_writes zero W fs) (name_c c part j) = tree_rows (h8 e) 0 K (tree_c_leaves e c part j)"
    "length (file_at fs (name_r c part j)) = row_start (K - (d + 1)) (Suc (K - (d + 1))) \<Longrightarrow>
      file_at (put_writes zero W fs) (name_r c part j) = tree_rows (h8 e) (d + 1) K (tree_r_leaves e c part j)"
proof -
  note n = part_names [OF names j j] and nm = part_op_name [OF names _ _ j] and rows = part_op_rows [OF ok K d]
  note cov = part_op_covers [OF ok c K] and len = stream_rows(3) [OF ok [OF c] order_refl]
  { assume t: "\<not> tree_r_only c" and l: "length (file_at fs (name_c c part j)) = row_start K (Suc K)"
    show "file_at (put_writes zero W fs) (name_c c part j) = tree_rows (h8 e) 0 K (tree_c_leaves e c part j)"
    proof (rule tree_file_written)
      fix off xs
      assume "(name_c c part j, off, xs) \<in> set W"
      then obtain j' where j': "j' < sectors c" "part_op e c part k G K d j' (name_c c part j, off, xs)" unfolding W by blast
      from nm(1) [OF j'(2,1) t] have "part_op e c part k G K d j (name_c c part j, off, xs)" using j'(2) by simp
      from rows(1) [OF _ this] n(5,6) [OF t]
      show "\<exists>l p n. (name_c c part j, off, xs) = row_op (name_c c part j) (h8 e) 0 K (tree_c_leaves e c part j) l p n \<and>
          0 \<le> l \<and> l \<le> K \<and> p + n \<le> 8 ^ (K - l)" by (auto simp: op_c_def)
    next
      fix l x :: nat
      assume "l \<le> K" "x < 8 ^ (K - l)"
      from cov(1) [OF _ this t, of j] show "\<exists>p n. row_op (name_c c part j) (h8 e) 0 K (tree_c_leaves e c part j) l p n \<in> set W \<and>
          p \<le> x \<and> x < p + n \<and> p + n \<le> 8 ^ (K - l)" unfolding W op_c_def using j by blast
    qed (use l len in \<open>simp_all add: tree_c_leaves_def\<close>) }
  assume l: "length (file_at fs (name_r c part j)) = row_start (K - (d + 1)) (Suc (K - (d + 1)))"
  show "file_at (put_writes zero W fs) (name_r c part j) = tree_rows (h8 e) (d + 1) K (tree_r_leaves e c part j)"
  proof (rule tree_file_written)
    fix off xs
    assume "(name_r c part j, off, xs) \<in> set W"
    then obtain j' where j': "j' < sectors c" "part_op e c part k G K d j' (name_r c part j, off, xs)" unfolding W by blast
    from nm(2) [OF j'(2,1)] have "part_op e c part k G K d j (name_r c part j, off, xs)" using j'(2) by simp
    from rows(2) [OF _ this] n(3,5)
    show "\<exists>l p n. (name_r c part j, off, xs) = row_op (name_r c part j) (h8 e) (d + 1) K (tree_r_leaves e c part j) l p n \<and>
        d + 1 \<le> l \<and> l \<le> K \<and> p + n \<le> 8 ^ (K - l)" by (auto simp: op_r_def)
  next
    fix l x :: nat
    assume "d + 1 \<le> l" "l \<le> K" "x < 8 ^ (K - l)"
    from cov(2) [OF _ this(2,3,1), of j] show "\<exists>p n. row_op (name_r c part j) (h8 e) (d + 1) K (tree_r_leaves e c part j) l p n \<in> set W \<and>
        p \<le> x \<and> x < p + n \<and> p + n \<le> 8 ^ (K - l)" unfolding W op_r_def using j by blast
  qed (use l len K d in \<open>simp_all add: tree_r_leaves_def\<close>)
qed

lemma part_sealed_file:
  assumes ok: "\<And>i. i < stream_count c \<Longrightarrow> stream_ok e c part i k G K d" and c: "0 < stream_count c"
    and names: "part_files_ok os c part fs" and j: "j < sectors c"
    and W: "\<And>w. w \<in> set W \<longleftrightarrow> (\<exists>j < sectors c. part_op e c part k G K d j w)"
    and N: "length (file_at fs (name_s c j)) = N" "Suc part * 8 ^ K \<le> N"
  shows "length (file_at (put_writes zero W fs) (name_s c j)) = N"
    "x < N \<Longrightarrow> file_at (put_writes zero W fs) (name_s c j) ! x =
      (if x div 8 ^ K = part then sealed_val e c j x else file_at fs (name_s c j) ! x)"
proof -
  let ?t = "map (sealed_val e c j) [0..<N]"
  note o = ok [OF c] and nm = part_op_name [OF names _ _ j]
  have K: "nodes_to_read c = 8 ^ K" using o by (simp add: stream_ok_def)
  have base: "stream_base c part i + y = part * 8 ^ K + (y + nodes_per_stream c * i)" for i y
    by (simp add: stream_base_def K mult_ac)
  have fits: "part * 8 ^ K + (n * batch_size c + nodes_per_stream c * i) + batch_size c \<le> Suc part * 8 ^ K"
    if "i < stream_count c" "n < 8 ^ k" for i n using gpu_op_fits(1) [OF ok [OF that(1)] that(2)] by simp
  have ws: "\<exists>i n. i < stream_count c \<and> n < 8 ^ k \<and> off = part * 8 ^ K + (n * batch_size c + nodes_per_stream c * i) \<and>
      xs = map (\<lambda>y. sealed_val e c j (off + y)) [0..<batch_size c]" if "(name_s c j, off, xs) \<in> set W" for off xs
  proof -
    from that [unfolded W] obtain j' where j': "j' < sectors c" "part_op e c part k G K d j' (name_s c j, off, xs)" by blast
    with nm(3) [OF j'(2,1)] have p: "part_op e c part k G K d j (name_s c j, off, xs)" by simp
    have n: "name_s c j \<noteq> name_r c part j" "\<not> tree_r_only c \<Longrightarrow> name_s c j \<noteq> name_c c part j"
      using part_names [OF names j j] by simp_all
    from p show ?thesis
      by cases (use n in \<open>auto simp: op_s_def op_c_def op_r_def row_op_def base\<close>)
  qed
  have "agrees (name_s c j) ?t W" unfolding agrees_def
  proof (intro allI impI)
    fix off xs
    assume "(name_s c j, off, xs) \<in> set W"
    from ws [OF this] fits obtain i n where o: "off + batch_size c \<le> N" "xs = map (\<lambda>y. sealed_val e c j (off + y)) [0..<batch_size c]"
      using N(2) by (metis le_trans)
    then show "off + length xs \<le> length ?t \<and> take (length xs) (drop off ?t) = xs" by (auto intro: nth_equalityI)
  qed
  note pw = put_writes_nth [OF this, where zero = zero and fs = fs]
  show "length (file_at (put_writes zero W fs) (name_s c j)) = N" using pw(1) N(1) by simp
  assume x: "x < N"
  have "covered (name_s c j) W x \<longleftrightarrow> x div 8 ^ K = part"
  proof
    assume "covered (name_s c j) W x"
    then obtain off xs where w: "(name_s c j, off, xs) \<in> set W" "off \<le> x" "x < off + length xs" by (auto simp: covered_def)
    from ws [OF w(1)] obtain i n where o: "i < stream_count c" "n < 8 ^ k" "off = part * 8 ^ K + (n * batch_size c + nodes_per_stream c * i)"
      "length xs = batch_size c" by auto
    from fits [OF o(1,2)] o(3,4) w(2,3) have "part * 8 ^ K \<le> x" "x < Suc part * 8 ^ K" by linarith+
    then show "x div 8 ^ K = part" by (intro div_nat_eqI) (simp_all add: mult.commute)
  next
    assume p: "x div 8 ^ K = part"
    have "x mod 8 ^ K < 8 ^ K" by simp
    from gpu_op_covers(1) [OF ok c this] obtain i n where i: "i < stream_count c" "n < 8 ^ k"
      "n * batch_size c + nodes_per_stream c * i \<le> x mod 8 ^ K" "x mod 8 ^ K < n * batch_size c + nodes_per_stream c * i + batch_size c" by blast
    have xe: "x = part * 8 ^ K + x mod 8 ^ K" using p div_mult_mod_eq [of x "8 ^ K"] by simp
    have "op_s e c (stream_base c part i + n * batch_size c) j \<in> set W" unfolding W using j po_sealed [OF i(1,2)] by blast
    then have "(name_s c j, part * 8 ^ K + (n * batch_size c + nodes_per_stream c * i),
        map (\<lambda>y. sealed_val e c j (part * 8 ^ K + (n * batch_size c + nodes_per_stream c * i) + y)) [0..<batch_size c]) \<in> set W"
      unfolding op_s_def base .
    moreover have "part * 8 ^ K + (n * batch_size c + nodes_per_stream c * i) \<le> x"
      "x < part * 8 ^ K + (n * batch_size c + nodes_per_stream c * i) + batch_size c" using i(3,4) xe by linarith+
    ultimately show "covered (name_s c j) W x" unfolding covered_def by fastforce
  qed
  with pw(2) [of x] N(1) x show "file_at (put_writes zero W fs) (name_s c j) ! x =
      (if x div 8 ^ K = part then sealed_val e c j x else file_at fs (name_s c j) ! x)" by simp
qed


lemma requests_ok:
  assumes ok: "stream_ok e c part i k G K d" and d: "0 < d" and f: "part_files_ok os c part fs"
    and td: "td \<in> set (all_reqs e c part i K G d k (tree_steps k))"
  shows "td_ok os (sectors c) (batch_size c) td"
proof -
  note s = stream_okD [OF ok]
  have w: "length (sealed_files c) = sectors c" "\<And>j. j < sectors c \<Longrightarrow> \<not> tree_r_only c \<Longrightarrow> writer_ok os (tree_c_files c ! j ! part)"
    "\<And>j. j < sectors c \<Longrightarrow> writer_ok os (tree_r_files c ! j ! part)" "\<And>j. j < sectors c \<Longrightarrow> writer_ok os (sealed_files c ! j)"
    using f by (simp_all add: part_files_ok_def Let_def)
  have B: "0 < batch_size c" "0 < sectors c" using s(16-18) by simp_all
  from td [unfolded all_reqs_set [OF d]] show ?thesis
    using sealed_writes(2) [OF B w(1,4)] req_col_writes(2) [OF ok _ w(2)] req_c_writes(2) [OF ok _ _ w(2)] req_r_writes(2) [OF ok _ _ _ w(3)]
    by blast
qed

lemma cpu_part:
  fixes e :: "'f :: comm_ring_1 env"
  assumes ok: "\<And>i. i < stream_count c \<Longrightarrow> stream_ok e c part i k G K d" and c: "0 < stream_count c" and K: "K = k + 4" "d' + 3 \<le> K"
    and G: "G * stream_count c = 8 ^ 3" "8 dvd G" and bits: "p_bits c = GetNodeBits (2 ^ sector_lg s)"
    and files: "length files = sectors c" "\<forall>j < sectors c. part < length (files ! j) \<and> writer_ok os (files ! j ! part)"
  shows "\<exists>CW. (\<forall>fs. hash_cpu os zero e c part (concat (map (\<lambda>i. by_sector (sectors c)
          (\<lambda>j. levels (h8 e) 8 (Suc k) (stream_leaves c part (f j) i))) [0..<stream_count c])) files
          (row_start (K - d') (K - d' - 2) * fr_size) junk fs =
        Some (Inr (map (\<lambda>j. root (h8 e) 8 K (part_leaves c part (f j))) [0..<sectors c], put_writes zero CW fs))) \<and>
      (\<forall>w. w \<in> set CW \<longleftrightarrow> (\<exists>j < sectors c. \<exists>l n. 1 \<le> l \<and> l \<le> 3 \<and> n < 8 ^ (3 - l) \<and>
         w = row_op (fw_name (files ! j ! part)) (h8 e) d' K (part_leaves c part (f j)) (K - 3 + l) n 1))"
proof -
  let ?S = "sectors c" and ?X = "\<lambda>j. part_leaves c part (f j)"
  let ?R = "\<lambda>i j. levels (h8 e) 8 (Suc k) (stream_leaves c part (f j) i)"
  let ?CW = "concat (map (cpu_writes ?S files part (row_start (K - d') (K - d' - 2)) 2 (cpu_val e ?S (stream_count c) ?R)) (order 2 0))"
  note o = stream_okD [OF ok [OF c]] and r = stream_rows [OF ok [OF c] order_refl]
  have k3: "Suc k = K - 3" "K = Suc k + 3" using K(1) by simp_all
  have row: "cpu_row (stream_count c) ?R j = levels (h8 e) 8 (Suc k) (?X j)" for j by (rule cpu_rows [OF ok c])
  have co: "cpu_ok os e c part files G ?R" unfolding cpu_ok_def using o files r(2) by auto
  have "root (h8 e) 8 3 (levels (h8 e) 8 (Suc k) (?X j)) = root (h8 e) 8 K (?X j)" for j
    unfolding root_def k3(2) tree8.levels_add [unfolded arity8] ..
  then have "hash_cpu os zero e c part (concat (map (\<lambda>i. by_sector ?S (?R i)) [0..<stream_count c])) files
      (row_start (K - d') (K - d' - 2) * fr_size) junk fs = Some (Inr (map (\<lambda>j. root (h8 e) 8 K (?X j)) [0..<?S], put_writes zero ?CW fs))" for fs
    using hash_cpu_run [OF co bits G, of zero "row_start (K - d') (K - d' - 2)" junk fs] unfolding row cpu_input_def by simp
  moreover have "w \<in> set ?CW \<longleftrightarrow> (\<exists>j < ?S. \<exists>l n. 1 \<le> l \<and> l \<le> 3 \<and> n < 8 ^ (3 - l) \<and>
      w = row_op (fw_name (files ! j ! part)) (h8 e) d' K (?X j) (K - 3 + l) n 1)" for w
    by (rule cpu_ops) (use r(3) K(2) row k3(1) in \<open>simp_all add: cpu_val_def\<close>)
  ultimately show ?thesis by (intro exI [of _ ?CW] conjI allI)
qed


section \<open>The files of a part\<close>

text \<open>
  \<open>streams_done e c part g\<close>: every stream of the part has run from the start of
  the part to its end.
\<close>

definition streams_done :: "'f :: comm_ring_1 env \<Rightarrow> pc2_t \<Rightarrow> nat \<Rightarrow> (nat \<Rightarrow> 'f gpu_resource_t) \<Rightarrow> bool" where
  "streams_done e c part g \<longleftrightarrow>
     (\<forall>i < stream_count c. \<exists>g0. part_start e c i part g0 \<and> gpu_reach e c part g0 (g i) \<and> r_state (g i) = DONE)"

definition part_written :: "pc2_t \<Rightarrow> (nat \<Rightarrow> 'f gpu_resource_t) \<Rightarrow> 'f buf_to_disk_t set" where
  "part_written c g = (\<Union>i < stream_count c. set (written (g i)))"

lemma part_run:
  fixes e :: "'f :: comm_ring_1 env"
  assumes cfg: "pc2_config e s c" "part < GetNumTreeRCFiles (2 ^ sector_lg s)" and files: "part_files_ok os c part fs"
    and g: "streams_done e c part g" and ws: "set ws = part_written c g"
  defines "K \<equiv> part_depth s" and "d \<equiv> GetNumTreeRDiscardRows (2 ^ sector_lg s)"
  shows "\<exists>W1 W2.
    process_batch os zero (e_bswap e) (sectors c) (batch_size c) (map Some ws) fs = Inr (put_writes zero W1 fs) \<and>
    hash_part_cpu os zero e c part (gpu_results c (\<lambda>i. result_c (g i))) (gpu_results c (\<lambda>i. result_r (g i))) junk (put_writes zero W1 fs) =
      Some (Inr (if tree_r_only c then [] else map (\<lambda>j. root (h8 e) 8 K (tree_c_leaves e c part j)) [0..<sectors c],
        map (\<lambda>j. root (h8 e) 8 K (tree_r_leaves e c part j)) [0..<sectors c], put_writes zero (W1 @ W2) fs)) \<and>
    (\<forall>w. w \<in> set (W1 @ W2) \<longleftrightarrow> (\<exists>j < sectors c. part_op e c part (K - 4) (batch_size c div 8) K d j w))"
proof -
  let ?k = "K - 4" and ?G = "batch_size c div 8" and ?S = "sectors c"
  note sh = config_shape [OF cfg(1), folded K_def d_def]
  have ok: "stream_ok e c part i ?k ?G K d" if "i < stream_count c" for i
    using config_stream(1) [OF cfg(1) that cfg(2)] by (simp add: K_def d_def)
  have f: "length (sealed_files c) = ?S" "\<forall>j < ?S. (\<not> tree_r_only c \<longrightarrow> writer_ok os (tree_c_files c ! j ! part)) \<and>
      writer_ok os (tree_r_files c ! j ! part)" using files by (simp_all add: part_files_ok_def Let_def)
  have cf: "\<not> tree_r_only c \<Longrightarrow> length (tree_c_files c) = ?S \<and> (\<forall>j < ?S. part < length (tree_c_files c ! j))"
    "length (tree_r_files c) = ?S" "\<forall>j < ?S. part < length (tree_r_files c ! j)"
    using stream_okD [OF ok [OF sh(8)]] by (auto simp: all_set_conv_all_nth)
  have dn: "written (g i) = all_reqs e c part i K ?G d ?k (tree_steps ?k)"
    "\<not> tree_r_only c \<Longrightarrow> result_c (g i) = by_sector ?S (\<lambda>j. levels (h8 e) 8 (Suc ?k) (stream_leaves c part (column e c j) i))"
    "result_r (g i) = by_sector ?S (\<lambda>j. levels (h8 e) 8 (Suc ?k) (stream_leaves c part (\<lambda>n. conv e (replica e c j n)) i))"
    if i: "i < stream_count c" for i
  proof -
    obtain g0 where g0: "part_start e c i part g0" "gpu_reach e c part g0 (g i)" "r_state (g i) = DONE"
      using g i unfolding streams_done_def by blast
    from stream_done [OF cfg(1) i cfg(2) g0]
    show "written (g i) = all_reqs e c part i K ?G d ?k (tree_steps ?k)"
      "\<not> tree_r_only c \<Longrightarrow> result_c (g i) = by_sector ?S (\<lambda>j. levels (h8 e) 8 (Suc ?k) (stream_leaves c part (column e c j) i))"
      "result_r (g i) = by_sector ?S (\<lambda>j. levels (h8 e) 8 (Suc ?k) (stream_leaves c part (\<lambda>n. conv e (replica e c j n)) i))"
      by (simp_all add: K_def d_def)
  qed
  let ?W1 = "concat (map (td_writes (e_bswap e) ?S) ws)"
  have tds: "td \<in> set ws \<longleftrightarrow> (\<exists>i < stream_count c. td \<in> set (all_reqs e c part i K ?G d ?k (tree_steps ?k)))" for td
    unfolding ws part_written_def using dn(1) by auto
  have pb: "process_batch os zero (e_bswap e) ?S (batch_size c) (map Some ws) fs = Inr (put_writes zero ?W1 fs)"
    using tds requests_ok [OF ok sh(3) files] by (intro process_batch_put) blast
  have W1: "w \<in> set ?W1 \<longleftrightarrow> (\<exists>i < stream_count c. \<exists>j < ?S. gpu_op e c part ?k ?G K d i j w)" for w
  proof -
    have "w \<in> set ?W1 \<longleftrightarrow> (\<exists>td \<in> set ws. w \<in> set (td_writes (e_bswap e) ?S td))" by auto
    also have "\<dots> \<longleftrightarrow> (\<exists>i < stream_count c. \<exists>td \<in> set (all_reqs e c part i K ?G d ?k (tree_steps ?k)). w \<in> set (td_writes (e_bswap e) ?S td))"
      using tds by blast
    finally show ?thesis using stream_ops [OF ok sh(3) f(1)] by blast
  qed
  have res: "\<not> tree_r_only c \<Longrightarrow> gpu_results c (\<lambda>i. result_c (g i)) = concat (map (\<lambda>i. by_sector ?S (\<lambda>j. levels (h8 e) 8 (Suc ?k) (stream_leaves c part (column e c j) i))) [0..<stream_count c])"
    "gpu_results c (\<lambda>i. result_r (g i)) = concat (map (\<lambda>i. by_sector ?S (\<lambda>j. levels (h8 e) 8 (Suc ?k) (stream_leaves c part (\<lambda>n. conv e (replica e c j n)) i))) [0..<stream_count c])"
    unfolding gpu_results_def using dn(2,3) by (auto intro!: arg_cong [of _ _ concat])
  have cpu: "\<exists>CW. (\<forall>fs. hash_cpu os zero e c part (concat (map (\<lambda>i. by_sector ?S
          (\<lambda>j. levels (h8 e) 8 (Suc ?k) (stream_leaves c part (f j) i))) [0..<stream_count c])) files
          (row_start (K - d') (K - d' - 2) * fr_size) junk fs =
        Some (Inr (map (\<lambda>j. root (h8 e) 8 K (part_leaves c part (f j))) [0..<?S], put_writes zero CW fs))) \<and>
      (\<forall>w. w \<in> set CW \<longleftrightarrow> (\<exists>j < ?S. \<exists>l n. 1 \<le> l \<and> l \<le> 3 \<and> n < 8 ^ (3 - l) \<and>
         w = row_op (fw_name (files ! j ! part)) (h8 e) d' K (part_leaves c part (f j)) (K - 3 + l) n 1))"
    if "d' + 3 \<le> K" "length files = ?S" "\<forall>j < ?S. part < length (files ! j) \<and> writer_ok os (files ! j ! part)"
    for d' files and f :: "nat \<Rightarrow> nat \<Rightarrow> 'f"
    using cpu_part [OF ok sh(8,1) that(1) sh(7,6,9) that(2,3)] by blast
  obtain Wr where Wr: "\<And>fs. hash_cpu os zero e c part (gpu_results c (\<lambda>i. result_r (g i))) (tree_r_files c) (final_gpu_offset_r c) junk fs =
      Some (Inr (map (\<lambda>j. root (h8 e) 8 K (tree_r_leaves e c part j)) [0..<?S], put_writes zero Wr fs))"
    "\<And>w. w \<in> set Wr \<longleftrightarrow> (\<exists>j < ?S. \<exists>l n. 1 \<le> l \<and> l \<le> 3 \<and> n < 8 ^ (3 - l) \<and> w = op_r e c part K d (K - 3 + l) n 1 j)"
    using cpu [of "d + 1" "tree_r_files c" "\<lambda>j n. conv e (replica e c j n)"] cf(2,3) f(2) sh(1,2)
    unfolding res(2) sh(13) tree_r_leaves_def op_r_def by auto
  show ?thesis
  proof (cases "tree_r_only c")
    case True
    have "w \<in> set (?W1 @ Wr) \<longleftrightarrow> (\<exists>j < ?S. part_op e c part ?k ?G K d j w)" for w
      unfolding part_op_iff set_append Un_iff W1 Wr(2) using True by blast
    then show ?thesis using pb Wr(1) True
      by (intro exI [of _ ?W1] exI [of _ Wr]) (simp add: hash_part_cpu_def put_writes_append)
  next
    case False
    obtain Wc where Wc: "\<And>fs. hash_cpu os zero e c part (gpu_results c (\<lambda>i. result_c (g i))) (tree_c_files c) (final_gpu_offset_c c) junk fs =
        Some (Inr (map (\<lambda>j. root (h8 e) 8 K (tree_c_leaves e c part j)) [0..<?S], put_writes zero Wc fs))"
      "\<And>w. w \<in> set Wc \<longleftrightarrow> (\<exists>j < ?S. \<exists>l n. 1 \<le> l \<and> l \<le> 3 \<and> n < 8 ^ (3 - l) \<and> w = op_c e c part K (K - 3 + l) n 1 j)"
      using cpu [of 0 "tree_c_files c" "column e c"] cf(1) f(2) sh(1,2) False
      unfolding res(1) [OF False] sh(12) tree_c_leaves_def op_c_def by auto
    have "w \<in> set (?W1 @ Wc @ Wr) \<longleftrightarrow> (\<exists>j < ?S. part_op e c part ?k ?G K d j w)" for w
      unfolding part_op_iff set_append Un_iff W1 Wr(2) Wc(2) using False by blast
    then show ?thesis using pb Wr(1) Wc(1) False
      by (intro exI [of _ ?W1] exI [of _ "Wc @ Wr"]) (simp add: hash_part_cpu_def put_writes_append)
  qed
qed

end
