(* ===== verification/PC2_Sector.thy ===== *)
theory PC2_Sector
  imports PC2_Part
begin

text \<open>
  A whole run of \<open>pc2_t::hash\<close> (\<open>src/pc2/cuda/pc2.cu\<close>): the parts one after the
  other, then \<open>write_roots\<close>.  A run of the GPU on a part is given by the requests it hands to the
  disk writers and its two result buffers.

  The disk writers and the CPU task of a part run beside the GPU; the
  files they write are determined by the set of the writes
  (\<open>PC2_Cpu.put_writes_whole\<close>), so that the model may run them one after the other.
\<close>

section \<open>The run\<close>

type_synonym 'f part_run = "'f buf_to_disk_t list \<times> 'f list \<times> 'f list"

definition hash_part :: "os \<Rightarrow> 'f :: comm_ring_1 \<Rightarrow> 'f env \<Rightarrow> pc2_t \<Rightarrow> 'f \<Rightarrow> nat \<Rightarrow> 'f part_run \<Rightarrow> 'f fs \<Rightarrow>
    ('f list \<times> 'f list \<times> 'f fs) result option" where
  "hash_part os zero e c junk part run fs =
     (case run of (ws, gpu_results_c, gpu_results_r) \<Rightarrow>
        case process_batch os zero (e_bswap e) (sectors c) (batch_size c) (map Some ws) fs of
          Inl x \<Rightarrow> Some (Inl x)
        | Inr fs1 \<Rightarrow> hash_part_cpu os zero e c part gpu_results_c gpu_results_r junk fs1)"

fun hash_parts :: "os \<Rightarrow> 'f :: comm_ring_1 \<Rightarrow> 'f env \<Rightarrow> pc2_t \<Rightarrow> 'f \<Rightarrow> nat \<Rightarrow> 'f part_run list \<Rightarrow> 'f list \<times> 'f list \<times> 'f fs \<Rightarrow>
    ('f list \<times> 'f list \<times> 'f fs) result option" where
  "hash_parts os zero e c junk part [] acc = Some (Inr acc)"
| "hash_parts os zero e c junk part (run # gpu_runs) (roots_c, roots_r, fs) =
     (case hash_part os zero e c junk part run fs of
        None \<Rightarrow> None
      | Some (Inl x) \<Rightarrow> Some (Inl x)
      | Some (Inr (rc, rr, fs')) \<Rightarrow> hash_parts os zero e c junk (Suc part) gpu_runs (roots_c @ rc, roots_r @ rr, fs'))"

definition hash_sector :: "os \<Rightarrow> 'f :: comm_ring_1 \<Rightarrow> 'f env \<Rightarrow> (nat \<Rightarrow> 'f list) \<Rightarrow> pc2_t \<Rightarrow> 'f \<Rightarrow> string list \<Rightarrow> 'f part_run list \<Rightarrow> 'f fs \<Rightarrow>
    'f fs result option" where
  "hash_sector os zero e constants c junk p_aux_filenames gpu_runs fs =
     map_option (\<lambda>r. bind_result r (\<lambda>(roots_c, roots_r, fs'). write_roots os zero e constants c p_aux_filenames roots_c roots_r fs'))
       (hash_parts os zero e c junk 0 gpu_runs ([], [], fs))"


section \<open>The files of a sector\<close>

text \<open>
  \<open>sector_files_ok\<close>: the files of all parts are open for writing under
  different names, with the sizes of \<open>open_files\<close>, and the \<open>p_aux\<close> files can be written.
\<close>

definition out_names :: "pc2_t \<Rightarrow> string list \<Rightarrow> string list" where
  "out_names c p_aux =
     map fw_name ((if tree_r_only c then [] else concat (tree_c_files c)) @ concat (tree_r_files c) @ sealed_files c) @ p_aux"

definition sector_files_ok :: "os \<Rightarrow> pc2_t \<Rightarrow> string list \<Rightarrow> 'f fs \<Rightarrow> bool" where
  "sector_files_ok os c p_aux fs \<longleftrightarrow>
     distinct (out_names c p_aux) \<and> length (sealed_files c) = sectors c \<and> length p_aux = sectors c \<and>
     (\<not> tree_r_only c \<longrightarrow> (\<forall>w \<in> set (concat (tree_c_files c)).
        writer_ok os w \<and> length (file_at fs (fw_name w)) * fr_size = ta_data_size (tree_c_address c))) \<and>
     (\<forall>w \<in> set (concat (tree_r_files c)).
        writer_ok os w \<and> length (file_at fs (fw_name w)) * fr_size = ta_data_size (tree_r_address c)) \<and>
     (\<forall>w \<in> set (sealed_files c). writer_ok os w \<and> length (file_at fs (fw_name w)) = GetNumNodes (p_size c)) \<and>
     (\<forall>f \<in> set p_aux. os_open_w os f \<and> os_write os f)"

lemma distinct_concat_nth:
  assumes "distinct (map f (concat xss))" "i < length xss" "j < length xss" "p < length (xss ! i)" "q < length (xss ! j)"
  shows "f (xss ! i ! p) = f (xss ! j ! q) \<longleftrightarrow> i = j \<and> p = q"
proof
  assume eq: "f (xss ! i ! p) = f (xss ! j ! q)"
  have m: "xss ! i ! p \<in> set (concat xss)" "xss ! j ! q \<in> set (concat xss)" 
    using nth_mem [OF assms(2)] nth_mem [OF assms(3)] nth_mem [OF assms(4)] nth_mem [OF assms(5)] by auto
  have "inj_on f (set (concat xss))" "distinct (concat xss)" using assms(1) by (simp_all add: distinct_map)
  with eq m have x: "xss ! i ! p = xss ! j ! q" by (simp only: inj_on_eq_iff)
  show "i = j \<and> p = q"
  proof (cases "i = j")
    case True
    have "distinct (xss ! i)" using \<open>distinct (concat xss)\<close> assms(2) by (simp add: distinct_concat_iff)
    with x True assms(4,5) show ?thesis by (simp add: nth_eq_iff_index_eq)
  next
    case False
    have "xss ! i \<noteq> []" "xss ! j \<noteq> []" using assms(4,5) by auto
    then have "set (xss ! i) \<inter> set (xss ! j) = {}"
      using \<open>distinct (concat xss)\<close> assms(2,3) False
    proof (induction xss arbitrary: i j)
      case (Cons xs xss)
      have "distinct (concat xss)" "set xs \<inter> \<Union> (set ` set xss) = {}" using Cons.prems(3) by auto
      moreover have "xss ! (k - 1) \<in> set xss" if "k < length (xs # xss)" "0 < k" for k using that by simp
      ultimately show ?case using Cons.IH [of "i - 1" "j - 1"] Cons.prems by (cases i; cases j) (auto simp: disjoint_iff)
    qed simp
    with x assms(4,5) show ?thesis by (metis disjoint_iff nth_mem)
  qed
qed simp


lemma concat_nth_mem: "i < length xss \<Longrightarrow> p < length (xss ! i) \<Longrightarrow> xss ! i ! p \<in> set (concat xss)"
  by (auto intro: bexI [of _ "xss ! i"])

lemma concat_memE:
  assumes "x \<in> set (concat xss)"
  obtains i p where "i < length xss" "p < length (xss ! i)" "x = xss ! i ! p"
  using assms by (auto simp: in_set_conv_nth)

lemma put_write_other: "fst w \<noteq> f \<Longrightarrow> file_at (put_write zero w fs) f = file_at fs f"
  by (cases w) (simp add: put_write_def file_at_def)

lemma put_writes_other: "(\<And>w. w \<in> set W \<Longrightarrow> fst w \<noteq> f) \<Longrightarrow> file_at (put_writes zero W fs) f = file_at fs f"
  by (induction W arbitrary: fs) (simp_all add: put_writes_def put_write_other)

text \<open>The names of the output files.\<close>

lemma sector_names:
  assumes "sector_files_ok os c p_aux fs" "length (tree_r_files c) = sectors c" "\<forall>fs \<in> set (tree_r_files c). length fs = n"
    and j: "j < sectors c" "j' < sectors c" "q < n" "q' < n"
  shows "name_r c q j = name_r c q' j' \<longleftrightarrow> j = j' \<and> q = q'" "name_s c j = name_s c j' \<longleftrightarrow> j = j'" "name_r c q j \<noteq> name_s c j'"
    "p_aux ! j = p_aux ! j' \<longleftrightarrow> j = j'" "p_aux ! j \<noteq> name_r c q j'" "p_aux ! j \<noteq> name_s c j'"
proof -
  let ?R = "fw_name ` set (concat (tree_r_files c))"
  have d: "distinct (map fw_name (concat (tree_r_files c)))" "distinct (map fw_name (sealed_files c))" "distinct p_aux"
    "?R \<inter> fw_name ` set (sealed_files c) = {}" "?R \<inter> set p_aux = {}" "fw_name ` set (sealed_files c) \<inter> set p_aux = {}"
    and l: "length (sealed_files c) = sectors c" "length p_aux = sectors c"
    using assms(1) unfolding sector_files_ok_def out_names_def distinct_append map_append set_append set_map by blast+
  have r: "i < length (tree_r_files c) \<and> p < length (tree_r_files c ! i)" if "i < sectors c" "p < n" for i p
    using assms(2,3) that by simp
  have m: "name_r c p i \<in> ?R" if "i < sectors c" "p < n" for i p using concat_nth_mem r [OF that] by (intro imageI) blast
  have ms: "name_s c i \<in> fw_name ` set (sealed_files c)" "p_aux ! i \<in> set p_aux" if "i < sectors c" for i
    using l that by simp_all
  show "name_r c q j = name_r c q' j' \<longleftrightarrow> j = j' \<and> q = q'"
    using distinct_concat_nth [OF d(1), of j j' q q'] r j by simp
  show "name_s c j = name_s c j' \<longleftrightarrow> j = j'"
    using nth_eq_iff_index_eq [OF d(2), of j j'] l j by simp
  show "p_aux ! j = p_aux ! j' \<longleftrightarrow> j = j'" using nth_eq_iff_index_eq [OF d(3), of j j'] l j by simp
  show "name_r c q j \<noteq> name_s c j'" "p_aux ! j \<noteq> name_r c q j'" "p_aux ! j \<noteq> name_s c j'"
    using d(4-6) m ms j by (metis disjoint_iff)+
qed

lemma sector_names_c:
  assumes "sector_files_ok os c p_aux fs" "\<not> tree_r_only c" "length (tree_r_files c) = sectors c" "\<forall>fs \<in> set (tree_r_files c). length fs = n"
    "length (tree_c_files c) = sectors c" "\<forall>fs \<in> set (tree_c_files c). length fs = n"
    and j: "j < sectors c" "j' < sectors c" "q < n" "q' < n"
  shows "name_c c q j = name_c c q' j' \<longleftrightarrow> j = j' \<and> q = q'" "name_c c q j \<noteq> name_s c j'" "name_c c q j \<noteq> name_r c q' j'"
    "p_aux ! j \<noteq> name_c c q j'"
proof -
  let ?C = "fw_name ` set (concat (tree_c_files c))"
  have o: "out_names c p_aux = map fw_name (concat (tree_c_files c)) @ map fw_name (concat (tree_r_files c)) @ map fw_name (sealed_files c) @ p_aux"
    using assms(2) by (simp add: out_names_def)
  have d: "distinct (map fw_name (concat (tree_c_files c)))" "?C \<inter> fw_name ` set (concat (tree_r_files c)) = {}"
    "?C \<inter> fw_name ` set (sealed_files c) = {}" "?C \<inter> set p_aux = {}"
    and l: "length (sealed_files c) = sectors c" "length p_aux = sectors c"
    using assms(1) unfolding sector_files_ok_def o distinct_append set_append set_map by blast+
  have r: "i < length (tree_c_files c) \<and> p < length (tree_c_files c ! i)" "i < length (tree_r_files c) \<and> p < length (tree_r_files c ! i)"
    if "i < sectors c" "p < n" for i p using assms(3-6) that by simp_all
  have m: "name_c c p i \<in> ?C" "name_r c p i \<in> fw_name ` set (concat (tree_r_files c))" if "i < sectors c" "p < n" for i p
    using concat_nth_mem r [OF that] by (intro imageI; blast)+
  have ms: "name_s c i \<in> fw_name ` set (sealed_files c)" "p_aux ! i \<in> set p_aux" if "i < sectors c" for i
    using l that by simp_all
  show "name_c c q j = name_c c q' j' \<longleftrightarrow> j = j' \<and> q = q'"
    using distinct_concat_nth [OF d(1), of j j' q q'] r j by simp
  show "name_c c q j \<noteq> name_s c j'" "name_c c q j \<noteq> name_r c q' j'" "p_aux ! j \<noteq> name_c c q j'"
    using d(2-4) m ms j by (metis disjoint_iff)+
qed


lemma part_names_distinct:
  assumes "sector_files_ok os c p_aux fs" "length (tree_r_files c) = sectors c" "\<forall>fs \<in> set (tree_r_files c). length fs = n"
    "\<not> tree_r_only c \<Longrightarrow> length (tree_c_files c) = sectors c" "\<not> tree_r_only c \<Longrightarrow> \<forall>fs \<in> set (tree_c_files c). length fs = n" "part < n"
  shows "part_files_ok os c part fs"
proof -
  note r = sector_names [OF assms(1-3) _ _ assms(6,6)] and c = sector_names_c [OF assms(1) _ assms(2,3) _ _ _ _ assms(6,6)]
  have "distinct (map (name_r c part) [0..<sectors c] @ map (name_s c) [0..<sectors c])"
    using r(1-3) by (auto simp: distinct_map inj_on_def)
  moreover have "distinct (map (name_c c part) [0..<sectors c])"
    "name_c c part ` {0..<sectors c} \<inter> (name_r c part ` {0..<sectors c} \<union> name_s c ` {0..<sectors c}) = {}" if "\<not> tree_r_only c"
    using c(1-3) [OF that] assms(4,5) that by (auto simp: distinct_map inj_on_def)
  moreover have "tree_r_files c ! j ! part \<in> set (concat (tree_r_files c))" "sealed_files c ! j \<in> set (sealed_files c)"
    "\<not> tree_r_only c \<Longrightarrow> tree_c_files c ! j ! part \<in> set (concat (tree_c_files c))" if "j < sectors c" for j
    using that assms by (auto simp: sector_files_ok_def simp del: set_concat intro!: concat_nth_mem)
  ultimately show ?thesis using assms(1) unfolding part_files_ok_def sector_files_ok_def Let_def
    by (auto simp del: set_concat)
qed

text \<open>\<open>parts_done\<close>: what the files hold after the first parts.\<close>

definition parts_done :: "'f :: comm_ring_1 env \<Rightarrow> pc2_t \<Rightarrow> nat \<Rightarrow> nat \<Rightarrow> nat \<Rightarrow> 'f fs \<Rightarrow> bool" where
  "parts_done e c K d p fs \<longleftrightarrow>
     (\<forall>j < sectors c. (\<forall>q < p. (\<not> tree_r_only c \<longrightarrow> file_at fs (name_c c q j) = tree_rows (h8 e) 0 K (tree_c_leaves e c q j)) \<and>
          file_at fs (name_r c q j) = tree_rows (h8 e) (d + 1) K (tree_r_leaves e c q j)) \<and>
        (\<forall>x < p * 8 ^ K. file_at fs (name_s c j) ! x = sealed_val e c j x))"

lemma part_op_names:
  assumes "part_op e c part k G K d j w"
  shows "fst w = name_s c j \<or> fst w = name_r c part j \<or> \<not> tree_r_only c \<and> fst w = name_c c part j"
  using assms by cases simp_all

lemma part_frame:
  assumes W: "\<And>w. w \<in> set W \<longleftrightarrow> (\<exists>j < sectors c. part_op e c part k G K d j w)"
    and f: "\<And>j. j < sectors c \<Longrightarrow> f \<noteq> name_s c j" "\<And>j. j < sectors c \<Longrightarrow> f \<noteq> name_r c part j"
      "\<And>j. j < sectors c \<Longrightarrow> \<not> tree_r_only c \<Longrightarrow> f \<noteq> name_c c part j"
  shows "file_at (put_writes zero W fs) f = file_at fs f"
proof (rule put_writes_other)
  fix w
  assume "w \<in> set W"
  then obtain j where "j < sectors c" "part_op e c part k G K d j w" using W by blast
  with f [of j] part_op_names [OF this(2)] show "fst w \<noteq> f" by auto
qed


lemma other_part_files:
  assumes fs: "sector_files_ok os c p_aux fs" and r: "length (tree_r_files c) = sectors c" "\<forall>fs \<in> set (tree_r_files c). length fs = n"
    and cf: "\<not> tree_r_only c \<Longrightarrow> length (tree_c_files c) = sectors c" "\<not> tree_r_only c \<Longrightarrow> \<forall>fs \<in> set (tree_c_files c). length fs = n"
    and W: "\<And>w. w \<in> set W \<longleftrightarrow> (\<exists>j < sectors c. part_op e c part k G K d j w)"
    and j: "j < sectors c" "q < n" "part < n" "q \<noteq> part"
  shows "file_at (put_writes zero W fs) (name_r c q j) = file_at fs (name_r c q j)"
    "\<not> tree_r_only c \<Longrightarrow> file_at (put_writes zero W fs) (name_c c q j) = file_at fs (name_c c q j)"
proof -
  note nm = sector_names [OF fs r] and nc = sector_names_c [OF fs _ r cf]
  show "file_at (put_writes zero W fs) (name_r c q j) = file_at fs (name_r c q j)"
  proof (rule part_frame [OF W])
    fix j'
    assume j': "j' < sectors c"
    show "name_r c q j \<noteq> name_s c j'" by (rule nm(3) [OF j(1) j' j(2,2)])
    show "name_r c q j \<noteq> name_r c part j'" using nm(1) [OF j(1) j' j(2,3)] j(4) by simp
    show "name_r c q j \<noteq> name_c c part j'" if t: "\<not> tree_r_only c" using nc(3) [OF t t t j' j(1,3,2)] by simp
  qed
  show "file_at (put_writes zero W fs) (name_c c q j) = file_at fs (name_c c q j)" if t: "\<not> tree_r_only c"
  proof (rule part_frame [OF W])
    fix j'
    assume j': "j' < sectors c"
    show "name_c c q j \<noteq> name_s c j'" by (rule nc(2) [OF t t t j(1) j' j(2,2)])
    show "name_c c q j \<noteq> name_r c part j'" by (rule nc(3) [OF t t t j(1) j' j(2,3)])
    show "name_c c q j \<noteq> name_c c part j'" using nc(1) [OF t t t j(1) j' j(2,3)] j(4) by simp
  qed
qed

text \<open>The sizes of the files do not change.\<close>

lemma files_ok_lengths:
  assumes "sector_files_ok os c p_aux fs" "length (tree_r_files c) = sectors c" "\<forall>fs \<in> set (tree_r_files c). length fs = n"
    "\<not> tree_r_only c \<Longrightarrow> length (tree_c_files c) = sectors c" "\<not> tree_r_only c \<Longrightarrow> \<forall>fs \<in> set (tree_c_files c). length fs = n"
    and len: "\<And>j q. j < sectors c \<Longrightarrow> q < n \<Longrightarrow> length (file_at fs' (name_r c q j)) = length (file_at fs (name_r c q j))"
      "\<And>j q. \<not> tree_r_only c \<Longrightarrow> j < sectors c \<Longrightarrow> q < n \<Longrightarrow> length (file_at fs' (name_c c q j)) = length (file_at fs (name_c c q j))"
      "\<And>j. j < sectors c \<Longrightarrow> length (file_at fs' (name_s c j)) = length (file_at fs (name_s c j))"
  shows "sector_files_ok os c p_aux fs'"
proof -
  note f = assms(1) [unfolded sector_files_ok_def]
  have "length (file_at fs' (fw_name w)) = length (file_at fs (fw_name w))" if w: "w \<in> set (concat (tree_r_files c))" for w
    using w by (rule concat_memE) (use assms(2,3) len(1) in auto)
  moreover have "length (file_at fs' (fw_name w)) = length (file_at fs (fw_name w))"
    if t: "\<not> tree_r_only c" and w: "w \<in> set (concat (tree_c_files c))" for w
    using w by (rule concat_memE) (use assms(4,5) t len(2) in auto)
  moreover have "length (file_at fs' (fw_name w)) = length (file_at fs (fw_name w))" if "w \<in> set (sealed_files c)" for w
    using that f len(3) by (metis in_set_conv_nth)
  ultimately show ?thesis using f unfolding sector_files_ok_def by (auto simp del: set_concat)
qed

lemma part_step:
  fixes e :: "'f :: comm_ring_1 env"
  assumes cfg: "pc2_config e s c" and part: "part < n" "n = GetNumTreeRCFiles (2 ^ sector_lg s)" and fs: "sector_files_ok os c p_aux fs"
    and g: "streams_done e c part g" "set ws = part_written c g" and dn: "parts_done e c K d part fs"
    and K: "K = part_depth s" "d = GetNumTreeRDiscardRows (2 ^ sector_lg s)"
  shows "\<exists>fs'. hash_part os zero e c junk part (ws, gpu_results c (\<lambda>i. result_c (g i)), gpu_results c (\<lambda>i. result_r (g i))) fs =
      Some (Inr (if tree_r_only c then [] else map (\<lambda>j. root (h8 e) 8 K (tree_c_leaves e c part j)) [0..<sectors c],
        map (\<lambda>j. root (h8 e) 8 K (tree_r_leaves e c part j)) [0..<sectors c], fs')) \<and>
    sector_files_ok os c p_aux fs' \<and> parts_done e c K d (Suc part) fs'"
proof -
  let ?S = "sectors c" and ?G = "batch_size c div 8" and ?k = "K - 4"
  note sh = config_shape [OF cfg, folded K]
  have files: "length (tree_r_files c) = ?S" "\<forall>fs \<in> set (tree_r_files c). length fs = n"
    "\<not> tree_r_only c \<Longrightarrow> length (tree_c_files c) = ?S" "\<not> tree_r_only c \<Longrightarrow> \<forall>fs \<in> set (tree_c_files c). length fs = n"
    using cfg part(2) unfolding pc2_config_def by blast+
  have pf: "part_files_ok os c part fs" using part_names_distinct [OF fs files part(1)] by blast
  from part_run [OF cfg part(1) [unfolded part(2)] pf g, folded K, of zero junk] obtain W1 W2 where
    W: "process_batch os zero (e_bswap e) ?S (batch_size c) (map Some ws) fs = Inr (put_writes zero W1 fs)"
      "hash_part_cpu os zero e c part (gpu_results c (\<lambda>i. result_c (g i))) (gpu_results c (\<lambda>i. result_r (g i))) junk (put_writes zero W1 fs) =
        Some (Inr (if tree_r_only c then [] else map (\<lambda>j. root (h8 e) 8 K (tree_c_leaves e c part j)) [0..<?S],
          map (\<lambda>j. root (h8 e) 8 K (tree_r_leaves e c part j)) [0..<?S], put_writes zero (W1 @ W2) fs))"
      "\<And>w. w \<in> set (W1 @ W2) \<longleftrightarrow> (\<exists>j < ?S. part_op e c part ?k ?G K d j w)" by blast
  let ?fs = "put_writes zero (W1 @ W2) fs"
  have ok: "stream_ok e c part i ?k ?G K d" if "i < stream_count c" for i
    using config_stream(1) [OF cfg that part(1) [unfolded part(2)]] by (simp add: K)
  have len: "\<not> tree_r_only c \<Longrightarrow> length (file_at fs (name_c c part j)) = row_start K (Suc K)"
    "length (file_at fs (name_r c part j)) = row_start (K - (d + 1)) (Suc (K - (d + 1)))"
    "length (file_at fs (name_s c j)) = GetNumNodes (2 ^ sector_lg s)" if "j < ?S" for j
    using pf that sh(10,14,15) by (auto simp: part_files_ok_def Let_def fr_size_def)
  have N: "Suc part * 8 ^ K \<le> GetNumNodes (2 ^ sector_lg s)"
    using cfg part gpu_sector_shape(1) [of s] mult_le_mono1 [of "Suc part" n "8 ^ K"] by (simp add: pc2_config_def K)
  have tf: "\<not> tree_r_only c \<Longrightarrow> file_at ?fs (name_c c part j) = tree_rows (h8 e) 0 K (tree_c_leaves e c part j)"
    "file_at ?fs (name_r c part j) = tree_rows (h8 e) (d + 1) K (tree_r_leaves e c part j)" if "j < ?S" for j
    using part_tree_files [OF ok sh(8,1,2) pf that W(3), where zero = zero] len(1,2) [OF that] by blast+
  have sl: "length (file_at ?fs (name_s c j)) = GetNumNodes (2 ^ sector_lg s)" "x < GetNumNodes (2 ^ sector_lg s) \<Longrightarrow>
      file_at ?fs (name_s c j) ! x = (if x div 8 ^ K = part then sealed_val e c j x else file_at fs (name_s c j) ! x)" if "j < ?S" for j x
    using part_sealed_file [OF ok sh(8) pf that W(3) len(3) [OF that] N, where zero = zero] by blast+
  have other: "file_at ?fs (name_r c q j) = file_at fs (name_r c q j)"
    "\<not> tree_r_only c \<Longrightarrow> file_at ?fs (name_c c q j) = file_at fs (name_c c q j)" if "j < ?S" "q < n" "q \<noteq> part" for j q
    using other_part_files [OF fs files W(3) _ _ part(1), of j q zero] that by blast+
  note lv = stream_rows(3) [OF ok [OF sh(8)] order_refl]
  have dK: "d + 1 \<le> K" using sh(1,2) by linarith
  have rl: "length (tree_rows (h8 e) 0 K (tree_c_leaves e c part j)) = row_start K (Suc K)"
    "length (tree_rows (h8 e) (d + 1) K (tree_r_leaves e c part j)) = row_start (K - (d + 1)) (Suc (K - (d + 1)))" for j
    using length_tree_rows [OF lv, of 0 "h8 e"] length_tree_rows [OF lv dK, of "h8 e"] by (simp_all add: tree_c_leaves_def tree_r_leaves_def)
  have "sector_files_ok os c p_aux ?fs"
  proof (rule files_ok_lengths [OF fs files])
    fix j q
    assume j: "j < ?S" "q < n"
    show "length (file_at ?fs (name_r c q j)) = length (file_at fs (name_r c q j))"
      using other(1) [OF j] tf(2) [OF j(1)] rl(2) len(2) [OF j(1)] by (cases "q = part") simp_all
    show "length (file_at ?fs (name_c c q j)) = length (file_at fs (name_c c q j))" if t: "\<not> tree_r_only c"
      using other(2) [OF j _ t] tf(1) [OF j(1) t] rl(1) len(1) [OF j(1) t] by (cases "q = part") simp_all
  next
    show "length (file_at ?fs (name_s c j)) = length (file_at fs (name_s c j))" if "j < ?S" for j
      using sl(1) [OF that] len(3) [OF that] that by simp
  qed
  moreover have "parts_done e c K d (Suc part) ?fs" unfolding parts_done_def
  proof (intro allI impI conjI)
    fix j q
    assume j: "j < ?S" "q < Suc part"
    then have q: "q < n" using part(1) by simp
    show "file_at ?fs (name_r c q j) = tree_rows (h8 e) (d + 1) K (tree_r_leaves e c q j)"
      using other(1) [OF j(1) q] tf(2) [OF j(1)] dn j by (cases "q = part") (simp_all add: parts_done_def)
    show "file_at ?fs (name_c c q j) = tree_rows (h8 e) 0 K (tree_c_leaves e c q j)" if t: "\<not> tree_r_only c"
      using other(2) [OF j(1) q _ t] tf(1) [OF j(1) t] dn t j by (cases "q = part") (simp_all add: parts_done_def)
  next
    fix j x
    assume j: "j < ?S" "x < Suc part * 8 ^ K"
    then have x: "x < GetNumNodes (2 ^ sector_lg s)" using N by linarith
    have "x div 8 ^ K = part" if "\<not> x < part * 8 ^ K" using that j(2) by (intro div_nat_eqI) (simp_all add: mult.commute)
    then show "file_at ?fs (name_s c j) ! x = sealed_val e c j x"
      using sl(2) [OF j(1) x] dn j(1) by (cases "x < part * 8 ^ K") (auto simp: parts_done_def)
  qed
  ultimately show ?thesis using W(1,2) by (auto simp: hash_part_def)
qed


section \<open>All parts\<close>

definition part_roots :: "'f :: comm_ring_1 env \<Rightarrow> nat \<Rightarrow> nat \<Rightarrow> (nat \<Rightarrow> nat \<Rightarrow> 'f list) \<Rightarrow> nat \<Rightarrow> 'f list" where
  "part_roots e S K leaves n = concat (map (\<lambda>q. map (\<lambda>j. root (h8 e) 8 K (leaves q j)) [0..<S]) [0..<n])"

lemma part_roots_Suc: "part_roots e S K leaves (Suc n) = part_roots e S K leaves n @ map (\<lambda>j. root (h8 e) 8 K (leaves n j)) [0..<S]"
  by (simp add: part_roots_def)

lemma nth_part_roots:
  assumes "q < n" "j < S"
  shows "q * S + j < length (part_roots e S K leaves n)" "part_roots e S K leaves n ! (q * S + j) = root (h8 e) 8 K (leaves q j)"
proof -
  have len: "length (part_roots e S K leaves n) = n * S"
    unfolding part_roots_def by (rule length_grid) simp
  show "q * S + j < length (part_roots e S K leaves n)"
    unfolding len using assms mult_le_mono1 [of "Suc q" n S] by simp
  show "part_roots e S K leaves n ! (q * S + j) = root (h8 e) 8 K (leaves q j)"
    using nth_by_sector [of n "\<lambda>q. map (\<lambda>j. root (h8 e) 8 K (leaves q j)) [0..<S]" S q j] assms
    by (simp add: part_roots_def by_sector_def)
qed

definition gpu_run :: "pc2_t \<Rightarrow> (nat \<Rightarrow> nat \<Rightarrow> 'f gpu_resource_t) \<Rightarrow> (nat \<Rightarrow> 'f buf_to_disk_t list) \<Rightarrow> nat \<Rightarrow> 'f part_run" where
  "gpu_run c g ws part = (ws part, gpu_results c (\<lambda>i. result_c (g part i)), gpu_results c (\<lambda>i. result_r (g part i)))"

lemma hash_parts_run:
  fixes e :: "'f :: comm_ring_1 env"
  assumes cfg: "pc2_config e s c" and n: "n = GetNumTreeRCFiles (2 ^ sector_lg s)"
    and g: "\<And>q. q < n \<Longrightarrow> streams_done e c q (g q) \<and> set (ws q) = part_written c (g q)"
    and K: "K = part_depth s" "d = GetNumTreeRDiscardRows (2 ^ sector_lg s)"
    and inv: "sector_files_ok os c p_aux fs" "parts_done e c K d p fs" "p \<le> n"
  defines "RC \<equiv> \<lambda>p. if tree_r_only c then [] else part_roots e (sectors c) K (tree_c_leaves e c) p"
    and "RR \<equiv> part_roots e (sectors c) K (tree_r_leaves e c)"
  shows "\<exists>fs'. hash_parts os zero e c junk p (map (gpu_run c g ws) [p..<n]) (RC p, RR p, fs) = Some (Inr (RC n, RR n, fs')) \<and>
    sector_files_ok os c p_aux fs' \<and> parts_done e c K d n fs'"
  using inv
proof (induction "n - p" arbitrary: p fs)
  case (Suc m)
  then have p: "p < n" "[p..<n] = p # [Suc p..<n]" by (simp_all add: upt_conv_Cons)
  from part_step [OF cfg p(1) n Suc.prems(1) _ _ Suc.prems(2) K, of "g p" "ws p" zero junk] g [OF p(1)]
  obtain fs1 where fs1: "hash_part os zero e c junk p (gpu_run c g ws p) fs =
      Some (Inr (if tree_r_only c then [] else map (\<lambda>j. root (h8 e) 8 K (tree_c_leaves e c p j)) [0..<sectors c],
        map (\<lambda>j. root (h8 e) 8 K (tree_r_leaves e c p j)) [0..<sectors c], fs1))"
    "sector_files_ok os c p_aux fs1" "parts_done e c K d (Suc p) fs1" unfolding gpu_run_def by blast
  have "RC (Suc p) = RC p @ (if tree_r_only c then [] else map (\<lambda>j. root (h8 e) 8 K (tree_c_leaves e c p j)) [0..<sectors c])"
    "RR (Suc p) = RR p @ map (\<lambda>j. root (h8 e) 8 K (tree_r_leaves e c p j)) [0..<sectors c]"
    by (simp_all add: RC_def RR_def part_roots_Suc)
  with Suc.hyps(1) [OF _ fs1(2,3)] Suc.hyps(2) p(1) fs1(1) show ?case unfolding p(2) by simp
qed simp

text \<open>The commitment of a sector: the roots of the parts, combined.\<close>

definition sector_root :: "'f :: comm_ring_1 env \<Rightarrow> (nat \<Rightarrow> 'f list) \<Rightarrow> nat \<Rightarrow> nat \<Rightarrow> (nat \<Rightarrow> 'f list) \<Rightarrow> 'f" where
  "sector_root e constants n K leaves =
     (if 1 < n then combine_roots (poseidon_of e constants) n (map (\<lambda>q. root (h8 e) 8 K (leaves q)) [0..<n])
      else root (h8 e) 8 K (leaves 0))"

definition constants_ok :: "(nat \<Rightarrow> 'f list) \<Rightarrow> bool" where
  "constants_ok constants \<longleftrightarrow> (\<forall>a \<in> {2, 8}. \<exists>len. constants_len a = Some len \<and> length (constants a) * fr_bytes = len)"

lemma sector_root_ok:
  assumes "constants_ok constants" "n \<in> {1, 2, 8, 16}" "j < S"
  shows "(if n > 1 then root_hash (e_to e) (e_from e) constants n S (part_roots e S K leaves n) j else vec_get (part_roots e S K leaves n) j) =
    Inr (sector_root e constants n K (\<lambda>q. leaves q j))"
proof (cases "n > 1")
  case True
  have len: "length (part_roots e S K leaves n) = n * S" unfolding part_roots_def by (rule length_grid) simp
  have "map (\<lambda>i. part_roots e S K leaves n ! (i * S + j)) [0..<n] = map (\<lambda>q. root (h8 e) 8 K (leaves q j)) [0..<n]"
    using nth_part_roots(2) assms(3) by (intro map_cong) simp_all
  with root_hash_combines [of constants n "part_roots e S K leaves n" S j e] assms True len show ?thesis
    by (auto simp: constants_ok_def sector_root_def)
next
  case False
  then have "n = 1" using assms(2) by auto
  with nth_part_roots [of 0 n j S e K leaves] assms(3) show ?thesis by (simp add: sector_root_def vec_get_def)
qed

lemma num_files_cases: "GetNumTreeRCFiles (2 ^ sector_lg s) \<in> {1, 2, 8, 16}"
  by (cases s) (simp_all add: sector_defs)

lemma write_p_aux_ok:
  assumes "os_open_w os f" "os_write os f"
  shows "\<exists>fs'. write_p_aux os zero f x y fs = Inr fs' \<and> take 2 (file_at fs' f) = [x, y] \<and> (\<forall>h. h \<noteq> f \<longrightarrow> file_at fs' h = file_at fs h)"
  using assms by (auto simp: write_p_aux_def file_at_def overlay_def numeral_2_eq_2)

lemma write_roots_ok:
  assumes n: "n = GetNumTreeRCFiles (p_size c)" "n \<in> {1, 2, 8, 16}" and k: "constants_ok constants"
    and p: "distinct p_aux" "length p_aux = sectors c" "\<forall>f \<in> set p_aux. os_open_w os f \<and> os_write os f"
    and rc: "\<not> tree_r_only c \<Longrightarrow> rc = part_roots e (sectors c) K lc n"
  shows "\<exists>fs'. write_roots os zero e constants c p_aux rc (part_roots e (sectors c) K lr n) fs = Inr fs' \<and>
    (\<forall>j < sectors c. take 2 (file_at fs' (p_aux ! j)) =
       [if tree_r_only c then zero else sector_root e constants n K (\<lambda>q. lc q j), sector_root e constants n K (\<lambda>q. lr q j)]) \<and>
    (\<forall>f. f \<notin> set p_aux \<longrightarrow> file_at fs' f = file_at fs f)"
proof -
  let ?S = "sectors c" and ?C = "\<lambda>j. if tree_r_only c then zero else sector_root e constants n K (\<lambda>q. lc q j)"
  let ?R = "\<lambda>j. sector_root e constants n K (\<lambda>q. lr q j)"
  let ?f = "\<lambda>sector fs'.
      bind_result (if tree_r_only c then Inr zero
        else if n > 1 then root_hash (e_to e) (e_from e) constants n ?S rc sector else vec_get rc sector) (\<lambda>out_c.
      bind_result (if n > 1 then root_hash (e_to e) (e_from e) constants n ?S (part_roots e ?S K lr n) sector
        else vec_get (part_roots e ?S K lr n) sector) (\<lambda>out_r.
      bind_result (vec_get p_aux sector) (\<lambda>f. write_p_aux os zero f out_c out_r fs')))"
  have f: "?f j fs' = write_p_aux os zero (p_aux ! j) (?C j) (?R j) fs'" if "j < ?S" for j fs'
  proof -
    have "(if tree_r_only c then Inr zero
        else if n > 1 then root_hash (e_to e) (e_from e) constants n ?S rc j else vec_get rc j) = Inr (?C j)"
      using rc sector_root_ok [OF k n(2) that, of e K lc] by (auto split: if_splits)
    then show ?thesis unfolding sector_root_ok [OF k n(2) that] using p(2) that by (simp add: vec_get_def)
  qed
  have "\<exists>fs'. fold_result ?f [0..<m] fs = Inr fs' \<and> (\<forall>j < m. take 2 (file_at fs' (p_aux ! j)) = [?C j, ?R j]) \<and>
      (\<forall>f. f \<notin> set p_aux \<longrightarrow> file_at fs' f = file_at fs f)" if "m \<le> ?S" for m
    using that
  proof (induction m)
    case (Suc m)
    then obtain fs1 where fs1: "fold_result ?f [0..<m] fs = Inr fs1" "\<forall>j < m. take 2 (file_at fs1 (p_aux ! j)) = [?C j, ?R j]"
      "\<forall>f. f \<notin> set p_aux \<longrightarrow> file_at fs1 f = file_at fs f" by auto
    have m: "p_aux ! m \<in> set p_aux" "\<And>j. j < m \<Longrightarrow> p_aux ! j \<noteq> p_aux ! m" using Suc.prems p(1,2) by (simp_all add: nth_eq_iff_index_eq)
    have w: "os_open_w os (p_aux ! m)" "os_write os (p_aux ! m)" using m(1) p(3) by simp_all
    obtain fs2 where fs2: "write_p_aux os zero (p_aux ! m) (?C m) (?R m) fs1 = Inr fs2" "take 2 (file_at fs2 (p_aux ! m)) = [?C m, ?R m]"
      "\<forall>h. h \<noteq> p_aux ! m \<longrightarrow> file_at fs2 h = file_at fs1 h"
      using write_p_aux_ok [OF w, of zero "?C m" "?R m" fs1] by (elim exE conjE)
    have "fold_result ?f [0..<Suc m] fs = Inr fs2" using fs1(1) fs2(1) f [of m fs1] Suc.prems
      by (simp add: fold_result_append)
    moreover have "file_at fs2 f = file_at fs f" if "f \<notin> set p_aux" for f
    proof -
      have "f \<noteq> p_aux ! m" using that m(1) by blast
      then show ?thesis using that fs1(3) fs2(3) by simp
    qed
    ultimately show ?case using fs1(2) fs2(2,3) m(2) by (intro exI [of _ fs2]) (simp add: less_Suc_eq)
  qed simp
  from this [of ?S] show ?thesis unfolding write_roots_def Let_def n(1) [symmetric] by simp
qed

end
