(* ===== verification/PC2_Open.thy ===== *)
theory PC2_Open
  imports PC2_Sector
begin

text \<open>
  The output files of PC2: \<open>pc2_t::get_filenames\<close>, \<open>pc2_t::open_files\<close> and
  \<open>do_pc2_cleanup\<close> (\<open>src/pc2/cuda/pc2.cu\<close>).

  Directories are a predicate on names (\<open>dirs\<close>); \<open>mkdir\<close> says which directories can be
  created, and \<open>create_directory\<close> throws for the others.
\<close>

section \<open>File names\<close>

definition pad3 :: "nat \<Rightarrow> string" where
  "pad3 n = replicate (3 - length (show_nat n)) CHR ''0'' @ show_nat n"

definition sector_dir :: "nat \<Rightarrow> string \<Rightarrow> nat \<Rightarrow> string" where
  "sector_dir S dir i = (if S = 1 then dir else dir @ ''/'' @ pad3 i)"

definition replica_dir :: "(string \<Rightarrow> bool) \<Rightarrow> string \<Rightarrow> string" where
  "replica_dir dirs output_dir = (if dirs (output_dir @ ''/replicas'') then output_dir @ ''/replicas'' else output_dir)"

record filenames =
  directories :: "string list"
  p_aux_filenames :: "string list"
  tree_c_filenames :: "string list list"
  tree_r_filenames :: "string list list"
  sealed_filenames :: "string list"

definition get_filenames :: "(string \<Rightarrow> bool) \<Rightarrow> nat \<Rightarrow> nat \<Rightarrow> string \<Rightarrow> filenames" where
  "get_filenames dirs sz S output_dir =
     (let rep = replica_dir dirs output_dir; n = GetNumTreeRCFiles sz;
          tree = (\<lambda>stem i. map (\<lambda>j. snprintf256 (tree_name (sector_dir S output_dir i) stem n j)) [0..<n]) in
      \<lparr>directories = output_dir # concat (map (\<lambda>i. [snprintf256 (sector_dir S output_dir i), snprintf256 (sector_dir S rep i)]) [0..<S]),
       p_aux_filenames = map (\<lambda>i. snprintf256 (sector_dir S output_dir i @ ''/p_aux'')) [0..<S],
       tree_c_filenames = map (tree ''/sc-02-data-tree-c'') [0..<S],
       tree_r_filenames = map (tree ''/sc-02-data-tree-r-last'') [0..<S],
       sealed_filenames = map (\<lambda>i. snprintf256 (sector_dir S rep i @ ''/sealed-file'')) [0..<S]\<rparr>)"


section \<open>Opening the files\<close>

definition create_directories :: "(string \<Rightarrow> bool) \<Rightarrow> string list \<Rightarrow> (string \<Rightarrow> bool) \<Rightarrow> (string \<Rightarrow> bool) result" where
  "create_directories mkdir =
     fold_result (\<lambda>d dirs. if dirs d then Inr dirs else if mkdir d then Inr (dirs(d := True)) else Inl LibFail)"

definition open_writer :: "os \<Rightarrow> 'f \<Rightarrow> string \<Rightarrow> nat \<Rightarrow> 'f fs \<Rightarrow> (file_writer_t \<times> 'f fs) result" where
  "open_writer os zero f bytes fs =
     (case fw_open os zero f bytes True False file_writer_new fs of
        (r, w, fs') \<Rightarrow> bind_result (assert_that (r = 0)) (\<lambda>_. Inr (w, fs')))"

fun open_trees :: "os \<Rightarrow> 'f \<Rightarrow> bool \<Rightarrow> nat \<Rightarrow> nat \<Rightarrow> (string \<times> string) list \<Rightarrow> 'f fs \<Rightarrow>
    (file_writer_t list \<times> file_writer_t list \<times> 'f fs) result" where
  "open_trees os zero tro csize rsize [] fs = Inr ([], [], fs)"
| "open_trees os zero tro csize rsize ((fc, fr) # rest) fs =
     bind_result (if tro then Inr ([], fs) else bind_result (open_writer os zero fc csize fs) (\<lambda>(w, fs1). Inr ([w], fs1))) (\<lambda>(cw, fs1).
     bind_result (open_writer os zero fr rsize fs1) (\<lambda>(rw, fs2).
     bind_result (open_trees os zero tro csize rsize rest fs2) (\<lambda>(cws, rws, fs3).
     Inr (cw @ cws, rw # rws, fs3))))"

record 'f opened =
  o_tree_c :: "file_writer_t list list"
  o_tree_r :: "file_writer_t list list"
  o_sealed :: "file_writer_t list"
  o_data :: "mmap_t list"
  o_cc :: bool
  o_non_cc :: bool
  o_fs :: "'f fs"

definition open_sector :: "os \<Rightarrow> 'f \<Rightarrow> nat \<Rightarrow> bool \<Rightarrow> nat \<Rightarrow> nat \<Rightarrow> filenames \<Rightarrow> (nat \<Rightarrow> string ptr) \<Rightarrow> nat \<Rightarrow> 'f opened \<Rightarrow> 'f opened result" where
  "open_sector os zero sz tro csize rsize names data_filenames i st =
     bind_result (open_trees os zero tro csize rsize (zip (tree_c_filenames names ! i) (tree_r_filenames names ! i)) (o_fs st)) (\<lambda>(cw, rw, fs1).
     let (m, fs2) = (case data_filenames i of
           None \<Rightarrow> (mmap_new, fs1)
         | Some f \<Rightarrow> (case mmap_read os zero fr_size f sz mmap_new fs1 of (_, m, fs') \<Rightarrow> (m, fs'))) in
     bind_result (open_writer os zero (sealed_filenames names ! i) sz fs2) (\<lambda>(sw, fs3).
     Inr (st\<lparr>o_tree_c := o_tree_c st @ [cw], o_tree_r := o_tree_r st @ [rw], o_sealed := o_sealed st @ [sw], o_data := o_data st @ [m],
       o_cc := o_cc st \<or> data_filenames i = None, o_non_cc := o_non_cc st \<or> data_filenames i \<noteq> None, o_fs := fs3\<rparr>)))"

definition open_files :: "os \<Rightarrow> 'f \<Rightarrow> (string \<Rightarrow> bool) \<Rightarrow> nat \<Rightarrow> nat \<Rightarrow> bool \<Rightarrow> (nat \<Rightarrow> string ptr) \<Rightarrow> string \<Rightarrow> (string \<Rightarrow> bool) \<Rightarrow> 'f fs \<Rightarrow>
    ((string \<Rightarrow> bool) \<times> string list \<times> 'f opened) result" where
  "open_files os zero mkdir sz S tro data_filenames output_dir dirs fs =
     (let names = get_filenames dirs sz S output_dir;
          file_nodes = GetNumNodes sz div GetNumTreeRCFiles sz;
          csize = ta_data_size (tree_address_new file_nodes NODE_SIZE 0);
          rsize = ta_data_size (tree_address_new file_nodes NODE_SIZE (GetNumTreeRDiscardRows sz + 1)) in
      bind_result (create_directories mkdir (directories names) dirs) (\<lambda>dirs'.
      bind_result (fold_result (open_sector os zero sz tro csize rsize names data_filenames) [0..<S]
          \<lparr>o_tree_c = [], o_tree_r = [], o_sealed = [], o_data = [], o_cc = False, o_non_cc = False, o_fs = fs\<rparr>) (\<lambda>st.
      Inr (dirs', p_aux_filenames names, st))))"

definition do_pc2_cleanup :: "(string \<Rightarrow> bool) \<Rightarrow> nat \<Rightarrow> nat \<Rightarrow> string \<Rightarrow> 'f fs \<Rightarrow> 'f fs" where
  "do_pc2_cleanup dirs sz S output_dir fs =
     (let names = get_filenames dirs sz S output_dir; rm = fold (\<lambda>f fs. fs(f := None)) in
      rm (concat (tree_r_filenames names)) (rm (concat (tree_c_filenames names)) (rm (sealed_filenames names) (rm (p_aux_filenames names) fs))))"



section \<open>The names are different\<close>

definition read_nat :: "string \<Rightarrow> nat" where
  "read_nat = foldl (\<lambda>a c. a * 10 + (of_char c - 48)) 0"

lemma read_show_aux: "n < 10 ^ k \<Longrightarrow> read_nat (show_nat_aux k n) = n"
proof (induction k arbitrary: n)
  case (Suc k)
  have "n div 10 < 10 ^ k" using Suc.prems by (simp add: less_mult_imp_div_less mult.commute)
  with Suc.IH show ?case by (auto simp: read_nat_def)
qed (simp add: read_nat_def)

lemma length_show_aux: "n < 10 ^ m \<Longrightarrow> 0 < m \<Longrightarrow> length (show_nat_aux k n) \<le> m"
proof (induction k arbitrary: n m)
  case (Suc k)
  show ?case
  proof (cases "n < 10")
    case False
    then obtain m' where m: "m = Suc m'" "0 < m'" using Suc.prems by (cases m; cases "m - 1") auto
    have "n div 10 < 10 ^ m'" using Suc.prems m by (simp add: less_mult_imp_div_less mult.commute)
    with Suc.IH [of "n div 10" m'] m False show ?thesis by simp
  qed (use Suc.prems in simp)
qed simp

lemma read_pad: "read_nat (replicate m CHR ''0'' @ x) = read_nat x"
  by (induction m) (simp_all add: read_nat_def)

lemma pad3_facts: "i < 128 \<Longrightarrow> read_nat (pad3 i) = i" "i < 128 \<Longrightarrow> length (pad3 i) = 3"
  using read_show_aux [of i 20] length_show_aux [of i 3 20] by (simp_all add: pad3_def read_pad show_nat_def)

lemma pad3_inj: "i < 128 \<Longrightarrow> j < 128 \<Longrightarrow> pad3 i = pad3 j \<longleftrightarrow> i = j"
  using pad3_facts(1) by metis

lemma sector_dir_inj:
  assumes "S \<le> 128" "i < S" "j < S"
  shows "length (sector_dir S dir i) = length (sector_dir S dir j)" "sector_dir S dir i = sector_dir S dir j \<longleftrightarrow> i = j"
    "length (sector_dir S dir i) \<le> length dir + 4"
  using pad3_facts(2) pad3_inj [of i j] assms by (auto simp: sector_dir_def)

lemma sector_dir_append:
  assumes "S \<le> 128" "i < S" "j < S"
  shows "sector_dir S dir i @ x = sector_dir S dir j @ y \<longleftrightarrow> i = j \<and> x = y"
  using sector_dir_inj [OF assms] append_eq_append_conv [of "sector_dir S dir i" "sector_dir S dir j" x y] by auto

definition tree_stem :: "nat \<Rightarrow> string \<Rightarrow> nat \<Rightarrow> string" where
  "tree_stem n stem j = stem @ (if n = 1 then [] else ''-'' @ show_nat j) @ ''.dat''"

lemma tree_name_short:
  assumes "length dir \<le> 204" "length stem \<le> 40" "j < 16"
  shows "snprintf256 (tree_name dir stem n j) = dir @ tree_stem n stem j"
proof -
  have "length (show_nat j) \<le> 2" using show_nat_small(2) assms(3) by simp
  then show ?thesis using assms(1,2) by (auto simp: snprintf256_def tree_name_def tree_stem_def)
qed

lemma tree_stem_inj:
  assumes "n \<le> 16" "j < n" "k < n"
  shows "tree_stem n stem j = tree_stem n stem k \<longleftrightarrow> j = k"
proof -
  have "inj_on show_nat {0..<16}" using show_nat_small(1) by (simp add: distinct_map del: upt_rec_numeral)
  then have "show_nat j = show_nat k \<longleftrightarrow> j = k" using assms by (intro inj_on_eq_iff [of show_nat "{0..<16}"]) auto
  then show ?thesis using assms by (auto simp: tree_stem_def)
qed

definition t_names :: "nat \<Rightarrow> string \<Rightarrow> nat \<Rightarrow> string \<Rightarrow> string list" where
  "t_names S dir n stem = concat (map (\<lambda>i. map (\<lambda>j. sector_dir S dir i @ tree_stem n stem j) [0..<n]) [0..<S])"

lemma distinct_grid:
  assumes "\<And>i j i' j'. i < m \<Longrightarrow> j < n \<Longrightarrow> i' < m \<Longrightarrow> j' < n \<Longrightarrow> f i j = f i' j' \<longleftrightarrow> i = i' \<and> j = j'"
  shows "distinct (concat (map (\<lambda>i. map (f i) [0..<n]) [0..<m]))"
  using assms
proof (induction m)
  case (Suc m)
  then have "distinct (concat (map (\<lambda>i. map (f i) [0..<n]) [0..<m]))" by simp
  moreover have "distinct (map (f m) [0..<n])" using Suc.prems [of m _ m] by (auto simp: distinct_map inj_on_def)
  ultimately show ?case using Suc.prems [of m _ _ _] by (auto simp: less_Suc_eq)
qed simp

lemma distinct_t_names: "S \<le> 128 \<Longrightarrow> n \<le> 16 \<Longrightarrow> distinct (t_names S dir n stem)"
  unfolding t_names_def by (intro distinct_grid) (simp add: sector_dir_append tree_stem_inj)

lemma last_t_names: "f \<in> set (t_names S dir n stem) \<Longrightarrow> last f = CHR ''t''"
  by (auto simp: t_names_def tree_stem_def)

lemma t_names_disjoint:
  assumes "S \<le> 128"
  shows "set (t_names S dir n ''/sc-02-data-tree-c'') \<inter> set (t_names S dir n ''/sc-02-data-tree-r-last'') = {}"
  using sector_dir_append [OF assms] by (auto simp: t_names_def tree_stem_def)

lemma output_names_distinct:
  assumes S: "S \<le> 128" and n: "n \<le> 16"
  shows "distinct ((if tro then [] else t_names S dir n ''/sc-02-data-tree-c'') @ t_names S dir n ''/sc-02-data-tree-r-last'' @
    map (\<lambda>i. sector_dir S rep i @ ''/sealed-file'') [0..<S] @ map (\<lambda>i. sector_dir S dir i @ ''/p_aux'') [0..<S])"
proof -
  let ?s = "map (\<lambda>i. sector_dir S rep i @ ''/sealed-file'') [0..<S]" and ?p = "map (\<lambda>i. sector_dir S dir i @ ''/p_aux'') [0..<S]"
  have "distinct ?s" "distinct ?p" using sector_dir_inj(2) [OF S] by (auto simp: distinct_map inj_on_def)
  moreover have "last f = CHR ''e''" if "f \<in> set ?s" for f using that by auto
  moreover have "last f = CHR ''x''" if "f \<in> set ?p" for f using that by auto
  ultimately show ?thesis
    using distinct_t_names [OF S n] last_t_names t_names_disjoint [OF S] by (simp add: disjoint_iff del: set_map) fastforce
qed



section \<open>The opened files\<close>

definition opened_writer :: "nat \<Rightarrow> string \<Rightarrow> file_writer_t" where
  "opened_writer bytes f =
     file_writer_new\<lparr>fw_file := \<lparr>f_fname = f, f_size = bytes, f_fd = True, f_is_write = True\<rparr>, use_mmap := False\<rparr>"

definition create_all :: "'f \<Rightarrow> (string \<times> nat) list \<Rightarrow> 'f fs \<Rightarrow> 'f fs" where
  "create_all zero = fold (\<lambda>(f, bytes) fs. fs(f := Some (replicate (bytes div fr_size) zero)))"

lemma create_all_append: "create_all zero (xs @ ys) fs = create_all zero ys (create_all zero xs fs)"
  by (simp add: create_all_def)

lemma create_all_Cons: "create_all zero ((f, n) # xs) fs = create_all zero xs (fs(f := Some (replicate (n div fr_size) zero)))"
  by (simp add: create_all_def)

lemma create_all_Nil [simp]: "create_all zero [] fs = fs"
  by (simp add: create_all_def)

lemma create_all_at:
  assumes "f \<in> fst ` set L" "\<And>n'. (f, n') \<in> set L \<Longrightarrow> n' = n"
  shows "create_all zero L fs f = Some (replicate (n div fr_size) zero)"
  using assms
proof (induction L rule: rev_induct)
  case (snoc p L)
  then show ?case by (cases p) (auto simp: create_all_append create_all_def)
qed simp

lemma opened_writer_ok [simp]:
  "fw_name (opened_writer n f) = f" "writer_ok os (opened_writer n f) \<longleftrightarrow> os_write os f"
  by (simp_all add: fw_name_def opened_writer_def writer_ok_def file_is_open_def)

lemma open_writer_ok:
  "os_open_w os f \<Longrightarrow> open_writer os zero f n fs = Inr (opened_writer n f, create_all zero [(f, n)] fs)"
  by (simp add: open_writer_def fw_open_def file_write_def open_file_def open_fd_def Let_def opened_writer_def file_writer_new_def
      file_new_def create_all_def assert_that_def file_at_def fallocate_def)

definition tree_list :: "bool \<Rightarrow> nat \<Rightarrow> nat \<Rightarrow> (string \<times> string) list \<Rightarrow> (string \<times> nat) list" where
  "tree_list tro cn rn ps = concat (map (\<lambda>(fc, fr). (if tro then [] else [(fc, cn)]) @ [(fr, rn)]) ps)"

lemma open_trees_ok:
  assumes "\<And>fc fr. (fc, fr) \<in> set ps \<Longrightarrow> (\<not> tro \<longrightarrow> os_open_w os fc) \<and> os_open_w os fr"
  shows "open_trees os zero tro cn rn ps fs =
    Inr (if tro then [] else map (opened_writer cn \<circ> fst) ps, map (opened_writer rn \<circ> snd) ps, create_all zero (tree_list tro cn rn ps) fs)"
  using assms
proof (induction ps arbitrary: fs)
  case (Cons p ps)
  obtain fc fr where p: "p = (fc, fr)" by (cases p)
  have w: "\<not> tro \<Longrightarrow> os_open_w os fc" "os_open_w os fr" using Cons.prems [of fc fr] p by auto
  have IH: "open_trees os zero tro cn rn ps fs = Inr (if tro then [] else map (opened_writer cn \<circ> fst) ps, map (opened_writer rn \<circ> snd) ps,
      create_all zero (tree_list tro cn rn ps) fs)" for fs using Cons.prems by (intro Cons.IH) auto
  show ?case using w by (simp add: p open_writer_ok IH tree_list_def create_all_append create_all_Cons)
qed (simp add: tree_list_def create_all_def)

lemma mmap_read_fs: "mmap_read os zero szT f n m fs = (r, m', fs') \<Longrightarrow> fs' = fs"
  by (auto simp: mmap_read_def open_mmap_def open_fd_def Let_def split: if_splits)

definition sector_list :: "bool \<Rightarrow> nat \<Rightarrow> nat \<Rightarrow> nat \<Rightarrow> filenames \<Rightarrow> nat \<Rightarrow> (string \<times> nat) list" where
  "sector_list tro cn rn sz names i =
     tree_list tro cn rn (zip (tree_c_filenames names ! i) (tree_r_filenames names ! i)) @ [(sealed_filenames names ! i, sz)]"

definition data_file :: "os \<Rightarrow> nat \<Rightarrow> string ptr \<Rightarrow> 'f fs \<Rightarrow> 'f \<Rightarrow> mmap_t" where
  "data_file os sz fname fs zero = (case fname of None \<Rightarrow> mmap_new | Some f \<Rightarrow> fst (snd (mmap_read os zero fr_size f sz mmap_new fs)))"

lemma open_sector_ok:
  fixes names i
  defines "ps \<equiv> zip (tree_c_filenames names ! i) (tree_r_filenames names ! i)"
  assumes "\<And>fc fr. (fc, fr) \<in> set ps \<Longrightarrow> (\<not> tro \<longrightarrow> os_open_w os fc) \<and> os_open_w os fr" "os_open_w os (sealed_filenames names ! i)"
  shows "open_sector os zero sz tro cn rn names data_filenames i st =
    Inr (st\<lparr>o_tree_c := o_tree_c st @ [if tro then [] else map (opened_writer cn \<circ> fst) ps],
      o_tree_r := o_tree_r st @ [map (opened_writer rn \<circ> snd) ps], o_sealed := o_sealed st @ [opened_writer sz (sealed_filenames names ! i)],
      o_data := o_data st @ [data_file os sz (data_filenames i) (create_all zero (tree_list tro cn rn ps) (o_fs st)) zero],
      o_cc := o_cc st \<or> data_filenames i = None, o_non_cc := o_non_cc st \<or> data_filenames i \<noteq> None,
      o_fs := create_all zero (sector_list tro cn rn sz names i) (o_fs st)\<rparr>)"
proof -
  let ?fs = "create_all zero (tree_list tro cn rn ps) (o_fs st)"
  have t: "open_trees os zero tro cn rn ps (o_fs st) =
      Inr (if tro then [] else map (opened_writer cn \<circ> fst) ps, map (opened_writer rn \<circ> snd) ps, ?fs)"
    by (rule open_trees_ok) (rule assms(2))
  have d: "(case data_filenames i of None \<Rightarrow> (mmap_new, ?fs)
      | Some f \<Rightarrow> (case mmap_read os zero fr_size f sz mmap_new ?fs of (_, m, fs') \<Rightarrow> (m, fs'))) =
      (data_file os sz (data_filenames i) ?fs zero, ?fs)"
    by (auto simp: data_file_def split: option.splits prod.splits dest: mmap_read_fs)
  have "sector_list tro cn rn sz names i = tree_list tro cn rn ps @ [(sealed_filenames names ! i, sz)]"
    by (simp add: sector_list_def ps_def)
  then show ?thesis
    unfolding open_sector_def ps_def [symmetric] t bind_result_simps prod.case Let_def d
    by (simp add: open_writer_ok [OF assms(3)] create_all_append)
qed


lemma create_all_other: "f \<notin> fst ` set L \<Longrightarrow> create_all zero L fs f = fs f"
  by (induction L arbitrary: fs) (auto simp: create_all_def)

lemma data_file_cong: "(\<And>f. fname = Some f \<Longrightarrow> fs f = fs' f) \<Longrightarrow> data_file os sz fname fs zero = data_file os sz fname fs' zero"
  by (cases fname) (simp_all add: data_file_def mmap_read_def open_mmap_def open_fd_def Let_def file_at_def)

lemma open_sectors_ok:
  fixes names sz rn cn tro
  defines "ps \<equiv> \<lambda>i. zip (tree_c_filenames names ! i) (tree_r_filenames names ! i)"
    and "L \<equiv> \<lambda>m. concat (map (sector_list tro cn rn sz names) [0..<m])"
  assumes w: "\<And>i fc fr. i < S \<Longrightarrow> (fc, fr) \<in> set (ps i) \<Longrightarrow> (\<not> tro \<longrightarrow> os_open_w os fc) \<and> os_open_w os fr"
      "\<And>i. i < S \<Longrightarrow> os_open_w os (sealed_filenames names ! i)"
    and data: "\<And>i f. i < S \<Longrightarrow> data_filenames i = Some f \<Longrightarrow> f \<notin> fst ` set (L S)" and m: "m \<le> S"
  shows "fold_result (open_sector os zero sz tro cn rn names data_filenames) [0..<m]
      \<lparr>o_tree_c = [], o_tree_r = [], o_sealed = [], o_data = [], o_cc = False, o_non_cc = False, o_fs = fs\<rparr> =
    Inr \<lparr>o_tree_c = map (\<lambda>i. if tro then [] else map (opened_writer cn \<circ> fst) (ps i)) [0..<m],
      o_tree_r = map (\<lambda>i. map (opened_writer rn \<circ> snd) (ps i)) [0..<m],
      o_sealed = map (\<lambda>i. opened_writer sz (sealed_filenames names ! i)) [0..<m],
      o_data = map (\<lambda>i. data_file os sz (data_filenames i) fs zero) [0..<m],
      o_cc = (\<exists>i < m. data_filenames i = None), o_non_cc = (\<exists>i < m. data_filenames i \<noteq> None),
      o_fs = create_all zero (L m) fs\<rparr>"
  using m
proof (induction m)
  case (Suc m)
  let ?T = "tree_list tro cn rn (ps m)"
  have sub: "set (sector_list tro cn rn sz names i) \<subseteq> set (L S)" if "i < S" for i using that by (auto simp: L_def)
  have "set (L m) = (\<Union>i < m. set (sector_list tro cn rn sz names i))" by (auto simp: L_def)
  with sub Suc.prems have "set (L m) \<subseteq> set (L S)" by (simp add: UN_subset_iff)
  moreover have "set ?T \<subseteq> set (L S)" using sub [of m] Suc.prems by (auto simp: sector_list_def ps_def)
  ultimately have "f \<notin> fst ` set (L m @ ?T)" if "data_filenames m = Some f" for f using data [OF _ that] Suc.prems by auto
  then have d: "data_file os sz (data_filenames m) (create_all zero ?T (create_all zero (L m) fs)) zero = data_file os sz (data_filenames m) fs zero"
    unfolding create_all_append [symmetric] by (intro data_file_cong) (rule create_all_other)
  have L: "L (Suc m) = L m @ sector_list tro cn rn sz names m" by (simp add: L_def)
  have cc: "(\<exists>i < Suc m. P i) \<longleftrightarrow> (\<exists>i < m. P i) \<or> P m" for P by (auto simp: less_Suc_eq)
  have s: "open_sector os zero sz tro cn rn names data_filenames m st =
    Inr (st\<lparr>o_tree_c := o_tree_c st @ [if tro then [] else map (opened_writer cn \<circ> fst) (ps m)],
      o_tree_r := o_tree_r st @ [map (opened_writer rn \<circ> snd) (ps m)], o_sealed := o_sealed st @ [opened_writer sz (sealed_filenames names ! m)],
      o_data := o_data st @ [data_file os sz (data_filenames m) (create_all zero ?T (o_fs st)) zero],
      o_cc := o_cc st \<or> data_filenames m = None, o_non_cc := o_non_cc st \<or> data_filenames m \<noteq> None,
      o_fs := create_all zero (sector_list tro cn rn sz names m) (o_fs st)\<rparr>)" for st
    unfolding ps_def using w [of m] Suc.prems by (intro open_sector_ok) (simp_all add: ps_def)
  have u: "[0..<Suc m] = [0..<m] @ [m]" by simp
  show ?case unfolding u fold_result_append Suc.IH [OF Suc_leD [OF Suc.prems]] bind_result_simps fold_result.simps s
    by (simp add: d L cc create_all_append)
qed (simp add: L_def)



lemma create_directories_ok:
  assumes "\<And>d. d \<in> set ds \<Longrightarrow> dirs d \<or> mkdir d"
  shows "\<exists>dirs'. create_directories mkdir ds dirs = Inr dirs' \<and> (\<forall>d. dirs' d \<longleftrightarrow> dirs d \<or> d \<in> set ds)"
  using assms
proof (induction ds arbitrary: dirs)
  case (Cons d ds)
  let ?d = "if dirs d then dirs else dirs(d := True)"
  have "\<And>x. x \<in> set ds \<Longrightarrow> ?d x \<or> mkdir x" using Cons.prems by auto
  from Cons.IH [OF this] obtain dirs' where "create_directories mkdir ds ?d = Inr dirs'" "\<forall>x. dirs' x \<longleftrightarrow> ?d x \<or> x \<in> set ds" by blast
  then show ?case using Cons.prems [of d] by (auto simp: create_directories_def split: if_splits)
qed (simp add: create_directories_def)

definition output_names :: "bool \<Rightarrow> filenames \<Rightarrow> string list" where
  "output_names tro N =
     (if tro then [] else concat (tree_c_filenames N)) @ concat (tree_r_filenames N) @ sealed_filenames N @ p_aux_filenames N"

lemma get_filenames_short:
  fixes dirs
  assumes "length dir \<le> 190" "S \<le> 128" "n = GetNumTreeRCFiles sz" "n \<le> 16"
  defines "N \<equiv> get_filenames dirs sz S dir"
  shows "tree_c_filenames N = map (\<lambda>i. map (\<lambda>j. sector_dir S dir i @ tree_stem n ''/sc-02-data-tree-c'' j) [0..<n]) [0..<S]"
    "tree_r_filenames N = map (\<lambda>i. map (\<lambda>j. sector_dir S dir i @ tree_stem n ''/sc-02-data-tree-r-last'' j) [0..<n]) [0..<S]"
    "sealed_filenames N = map (\<lambda>i. sector_dir S (replica_dir dirs dir) i @ ''/sealed-file'') [0..<S]"
    "p_aux_filenames N = map (\<lambda>i. sector_dir S dir i @ ''/p_aux'') [0..<S]"
proof -
  have len: "length (sector_dir S dir i) \<le> 194" "length (sector_dir S (replica_dir dirs dir) i) \<le> 203" if "i < S" for i
    using sector_dir_inj(3) [OF assms(2) that that, of dir] sector_dir_inj(3) [OF assms(2) that that, of "replica_dir dirs dir"] assms(1)
    by (auto simp: replica_dir_def split: if_splits)
  have t: "snprintf256 (tree_name (sector_dir S dir i) stem n j) = sector_dir S dir i @ tree_stem n stem j"
    if "i < S" "j < n" "length stem \<le> 40" for i j stem
    using len(1) [OF that(1)] that(2,3) assms(4) by (intro tree_name_short) auto
  then show "tree_c_filenames N = map (\<lambda>i. map (\<lambda>j. sector_dir S dir i @ tree_stem n ''/sc-02-data-tree-c'' j) [0..<n]) [0..<S]"
    "tree_r_filenames N = map (\<lambda>i. map (\<lambda>j. sector_dir S dir i @ tree_stem n ''/sc-02-data-tree-r-last'' j) [0..<n]) [0..<S]"
    by (simp_all add: N_def get_filenames_def Let_def assms(3) [symmetric])
  have p: "snprintf256 (x @ y) = x @ y" if "length x \<le> 203" "length y \<le> 40" for x y using that by (simp add: snprintf256_def)
  have "length (sector_dir S dir i) \<le> 203" if "i < S" for i using len(1) [OF that] by simp
  with len(2) show "sealed_filenames N = map (\<lambda>i. sector_dir S (replica_dir dirs dir) i @ ''/sealed-file'') [0..<S]"
    "p_aux_filenames N = map (\<lambda>i. sector_dir S dir i @ ''/p_aux'') [0..<S]"
    by (auto simp: N_def get_filenames_def Let_def intro!: p)
qed

lemma set_tree_list:
  "length xs = length ys \<Longrightarrow> set (tree_list tro cn rn (zip xs ys)) = (if tro then {} else set xs \<times> {cn}) \<union> set ys \<times> {rn}"
  by (induction xs ys rule: list_induct2) (auto simp: tree_list_def)

lemma output_names_ok:
  fixes dirs
  assumes "length dir \<le> 190" "S \<le> 128" "n = GetNumTreeRCFiles sz" "n \<le> 16"
  defines "N \<equiv> get_filenames dirs sz S dir"
  shows "distinct (output_names tro N)"
  using output_names_distinct [OF assms(2,4), of tro dir "replica_dir dirs dir"]
  unfolding output_names_def N_def get_filenames_short [OF assms(1-4)] t_names_def .


text \<open>
  \<open>open_shape\<close>: one writer for each tree file of each sector, and one for each sealed file.
\<close>

definition open_shape :: "bool \<Rightarrow> nat \<Rightarrow> nat \<Rightarrow> 'f opened \<Rightarrow> bool" where
  "open_shape tro S n st \<longleftrightarrow>
     (\<not> tro \<longrightarrow> length (o_tree_c st) = S \<and> (\<forall>ws \<in> set (o_tree_c st). length ws = n)) \<and>
     length (o_tree_r st) = S \<and> (\<forall>ws \<in> set (o_tree_r st). length ws = n) \<and> length (o_sealed st) = S"

definition names_shape :: "nat \<Rightarrow> nat \<Rightarrow> filenames \<Rightarrow> bool" where
  "names_shape S n N \<longleftrightarrow>
     length (tree_c_filenames N) = S \<and> length (tree_r_filenames N) = S \<and> length (sealed_filenames N) = S \<and>
     (\<forall>fs \<in> set (tree_c_filenames N) \<union> set (tree_r_filenames N). length fs = n)"

lemma in_concat_nth: "length xss = S \<Longrightarrow> f \<in> set (concat xss) \<longleftrightarrow> (\<exists>i < S. f \<in> set (xss ! i))"
  by (fastforce simp: in_set_conv_nth)

lemma concat_map_nth: "length xss = S \<Longrightarrow> concat (map (\<lambda>i. map g (xss ! i)) [0..<S]) = map g (concat xss)"
proof -
  assume "length xss = S"
  then have "map (\<lambda>i. map g (xss ! i)) [0..<S] = map (map g) xss" by (intro nth_equalityI) simp_all
  then show ?thesis by (simp add: map_concat)
qed

lemma set_sector_lists:
  assumes "names_shape S n N"
  shows "(f, m) \<in> set (concat (map (sector_list tro cn rn sz N) [0..<S])) \<longleftrightarrow>
    \<not> tro \<and> f \<in> set (concat (tree_c_filenames N)) \<and> m = cn \<or> f \<in> set (concat (tree_r_filenames N)) \<and> m = rn \<or>
    f \<in> set (sealed_filenames N) \<and> m = sz"
proof -
  let ?c = "\<lambda>i. tree_c_filenames N ! i" and ?r = "\<lambda>i. tree_r_filenames N ! i" and ?s = "\<lambda>i. sealed_filenames N ! i"
  have len: "length (tree_c_filenames N) = S" "length (tree_r_filenames N) = S" "length (sealed_filenames N) = S"
    "\<And>i. i < S \<Longrightarrow> length (?c i) = length (?r i)" using assms by (auto simp: names_shape_def)
  have "(f, m) \<in> set (sector_list tro cn rn sz N i) \<longleftrightarrow>
      \<not> tro \<and> f \<in> set (?c i) \<and> m = cn \<or> f \<in> set (?r i) \<and> m = rn \<or> f = ?s i \<and> m = sz" if "i < S" for i
    unfolding sector_list_def set_append set_tree_list [OF len(4) [OF that]] by auto
  then have "(f, m) \<in> set (concat (map (sector_list tro cn rn sz N) [0..<S])) \<longleftrightarrow>
      (\<exists>i < S. \<not> tro \<and> f \<in> set (?c i) \<and> m = cn \<or> f \<in> set (?r i) \<and> m = rn \<or> f = ?s i \<and> m = sz)" by auto
  moreover have "f \<in> set (sealed_filenames N) \<longleftrightarrow> (\<exists>i < S. f = ?s i)" using len(3) by (metis in_set_conv_nth)
  ultimately show ?thesis unfolding in_concat_nth [OF len(1)] in_concat_nth [OF len(2)] by blast
qed

lemma open_all:
  assumes sh: "names_shape S n N" and w: "\<And>f. f \<in> set (output_names tro N) \<Longrightarrow> os_open_w os f"
    and data: "\<And>i f. i < S \<Longrightarrow> data_filenames i = Some f \<Longrightarrow> f \<notin> set (output_names tro N)"
  shows "\<exists>st. fold_result (open_sector os zero sz tro cn rn N data_filenames) [0..<S]
      \<lparr>o_tree_c = [], o_tree_r = [], o_sealed = [], o_data = [], o_cc = False, o_non_cc = False, o_fs = fs\<rparr> = Inr st \<and>
    open_shape tro S n st \<and> (\<not> tro \<longrightarrow> concat (o_tree_c st) = map (opened_writer cn) (concat (tree_c_filenames N))) \<and>
    concat (o_tree_r st) = map (opened_writer rn) (concat (tree_r_filenames N)) \<and> o_sealed st = map (opened_writer sz) (sealed_filenames N) \<and>
    o_data st = map (\<lambda>i. data_file os sz (data_filenames i) fs zero) [0..<S] \<and> o_non_cc st = (\<exists>i < S. data_filenames i \<noteq> None) \<and>
    o_fs st = create_all zero (concat (map (sector_list tro cn rn sz N) [0..<S])) fs"
proof -
  let ?c = "\<lambda>i. tree_c_filenames N ! i" and ?r = "\<lambda>i. tree_r_filenames N ! i" and ?s = "\<lambda>i. sealed_filenames N ! i"
  let ?L = "concat (map (sector_list tro cn rn sz N) [0..<S])"
  have len: "length (tree_c_filenames N) = S" "length (tree_r_filenames N) = S" "length (sealed_filenames N) = S"
    "\<And>i. i < S \<Longrightarrow> length (?c i) = n \<and> length (?r i) = n" using sh by (auto simp: names_shape_def)
  have fstL: "fst ` set ?L \<subseteq> set (output_names tro N)"
    using set_sector_lists [OF sh] by (auto simp: output_names_def image_subset_iff simp del: set_concat)
  let ?st = "\<lparr>o_tree_c = map (\<lambda>i. if tro then [] else map (opened_writer cn \<circ> fst) (zip (?c i) (?r i))) [0..<S],
      o_tree_r = map (\<lambda>i. map (opened_writer rn \<circ> snd) (zip (?c i) (?r i))) [0..<S],
      o_sealed = map (\<lambda>i. opened_writer sz (?s i)) [0..<S], o_data = map (\<lambda>i. data_file os sz (data_filenames i) fs zero) [0..<S],
      o_cc = (\<exists>i < S. data_filenames i = None), o_non_cc = (\<exists>i < S. data_filenames i \<noteq> None), o_fs = create_all zero ?L fs\<rparr>"
  have run: "fold_result (open_sector os zero sz tro cn rn N data_filenames) [0..<S]
      \<lparr>o_tree_c = [], o_tree_r = [], o_sealed = [], o_data = [], o_cc = False, o_non_cc = False, o_fs = fs\<rparr> = Inr ?st"
  proof (rule open_sectors_ok [where S = S])
    show "f \<notin> fst ` set ?L" if "i < S" "data_filenames i = Some f" for i f using data [OF that] fstL by blast
    show "(\<not> tro \<longrightarrow> os_open_w os fc) \<and> os_open_w os fr" if i: "i < S" "(fc, fr) \<in> set (zip (?c i) (?r i))" for i fc fr
    proof -
      have "fc \<in> set (concat (tree_c_filenames N))" "fr \<in> set (concat (tree_r_filenames N))"
        unfolding in_concat_nth [OF len(1)] in_concat_nth [OF len(2)] using i set_zip_leftD [OF i(2)] set_zip_rightD [OF i(2)] by blast+
      then show ?thesis using w [of fc] w [of fr] by (auto simp: output_names_def simp del: set_concat)
    qed
    show "os_open_w os (?s i)" if "i < S" for i using w [of "?s i"] len(3) that by (simp add: output_names_def)
  qed simp
  have z: "map (opened_writer k \<circ> fst) (zip (?c i) (?r i)) = map (opened_writer k) (?c i)"
    "map (opened_writer k \<circ> snd) (zip (?c i) (?r i)) = map (opened_writer k) (?r i)" if "i < S" for k i
    using len(4) [OF that] by (simp_all flip: map_map)
  have m: "map (\<lambda>i. map (opened_writer rn \<circ> snd) (zip (?c i) (?r i))) [0..<S] = map (\<lambda>i. map (opened_writer rn) (?r i)) [0..<S]"
    "map (\<lambda>i. map (opened_writer cn \<circ> fst) (zip (?c i) (?r i))) [0..<S] = map (\<lambda>i. map (opened_writer cn) (?c i)) [0..<S]"
    using z by (auto intro!: map_cong)
  have "concat (o_tree_r ?st) = map (opened_writer rn) (concat (tree_r_filenames N))"
    unfolding opened.select_convs m concat_map_nth [OF len(2)] ..
  moreover have "concat (o_tree_c ?st) = map (opened_writer cn) (concat (tree_c_filenames N))" if "\<not> tro"
    unfolding opened.select_convs if_not_P [OF that] m concat_map_nth [OF len(1)] ..
  moreover have "o_sealed ?st = map (opened_writer sz) (sealed_filenames N)" using len(3) by (intro nth_equalityI) simp_all
  moreover have "open_shape tro S n ?st" using len(4) by (auto simp: open_shape_def)
  ultimately show ?thesis using run by (intro exI [of _ ?st]) simp
qed


lemma open_files_run:
  fixes dirs sz S dir tro
  defines "N \<equiv> get_filenames dirs sz S dir" and "n \<equiv> GetNumTreeRCFiles sz" and "file_nodes \<equiv> GetNumNodes sz div GetNumTreeRCFiles sz"
  assumes size: "length dir \<le> 190" "S \<le> 128" "n \<le> 16"
    and dirs: "\<forall>d \<in> set (directories N). dirs d \<or> mkdir d" and w: "\<forall>f \<in> set (output_names tro N). os_open_w os f"
    and data: "\<forall>i < S. \<forall>f. data_filenames i = Some f \<longrightarrow> f \<notin> set (output_names tro N)"
  shows "\<exists>dirs' st. open_files os zero mkdir sz S tro data_filenames dir dirs fs = Inr (dirs', p_aux_filenames N, st) \<and> open_shape tro S n st \<and>
    (\<not> tro \<longrightarrow> concat (o_tree_c st) = map (opened_writer (ta_data_size (tree_address_new file_nodes NODE_SIZE 0))) (concat (tree_c_filenames N))) \<and>
    concat (o_tree_r st) = map (opened_writer (ta_data_size (tree_address_new file_nodes NODE_SIZE (GetNumTreeRDiscardRows sz + 1)))) (concat (tree_r_filenames N)) \<and>
    o_sealed st = map (opened_writer sz) (sealed_filenames N) \<and>
    o_data st = map (\<lambda>i. data_file os sz (data_filenames i) fs zero) [0..<S] \<and> o_non_cc st = (\<exists>i < S. data_filenames i \<noteq> None) \<and>
    o_fs st = create_all zero (concat (map (sector_list tro (ta_data_size (tree_address_new file_nodes NODE_SIZE 0))
      (ta_data_size (tree_address_new file_nodes NODE_SIZE (GetNumTreeRDiscardRows sz + 1))) sz N) [0..<S])) fs"
proof -
  let ?cn = "ta_data_size (tree_address_new file_nodes NODE_SIZE 0)"
  let ?rn = "ta_data_size (tree_address_new file_nodes NODE_SIZE (GetNumTreeRDiscardRows sz + 1))"
  note short = get_filenames_short [OF size(1,2) n_def [THEN meta_eq_to_obj_eq] size(3), of dirs, folded N_def]
  have sh: "names_shape S n N" unfolding names_shape_def short by auto
  obtain dirs' where d: "create_directories mkdir (directories N) dirs = Inr dirs'"
    using create_directories_ok [of "directories N" dirs mkdir] dirs by blast
  obtain st where st: "fold_result (open_sector os zero sz tro ?cn ?rn N data_filenames) [0..<S]
      \<lparr>o_tree_c = [], o_tree_r = [], o_sealed = [], o_data = [], o_cc = False, o_non_cc = False, o_fs = fs\<rparr> = Inr st"
    "open_shape tro S n st" "\<not> tro \<longrightarrow> concat (o_tree_c st) = map (opened_writer ?cn) (concat (tree_c_filenames N))"
    "concat (o_tree_r st) = map (opened_writer ?rn) (concat (tree_r_filenames N))" "o_sealed st = map (opened_writer sz) (sealed_filenames N)"
    "o_data st = map (\<lambda>i. data_file os sz (data_filenames i) fs zero) [0..<S]" "o_non_cc st = (\<exists>i < S. data_filenames i \<noteq> None)"
    "o_fs st = create_all zero (concat (map (sector_list tro ?cn ?rn sz N) [0..<S])) fs"
    using open_all [OF sh, of tro os data_filenames zero sz ?cn ?rn fs] w data by blast
  have "open_files os zero mkdir sz S tro data_filenames dir dirs fs = Inr (dirs', p_aux_filenames N, st)"
    unfolding open_files_def Let_def N_def [symmetric] file_nodes_def [symmetric] d using st(1) by simp
  with st(2-) show ?thesis by blast
qed

text \<open>The sizes of the created files.\<close>

lemma created_sizes:
  fixes zero :: 'f and fs :: "'f fs" and sz rn cn :: nat
  assumes sh: "names_shape S n N" and d: "distinct (output_names tro N)"
  defines "fs' \<equiv> create_all zero (concat (map (sector_list tro cn rn sz N) [0..<S])) fs"
  shows "\<not> tro \<Longrightarrow> f \<in> set (concat (tree_c_filenames N)) \<Longrightarrow> length (file_at fs' f) = cn div fr_size"
    "f \<in> set (concat (tree_r_filenames N)) \<Longrightarrow> length (file_at fs' f) = rn div fr_size"
    "f \<in> set (sealed_filenames N) \<Longrightarrow> length (file_at fs' f) = sz div fr_size"
proof -
  let ?L = "concat (map (sector_list tro cn rn sz N) [0..<S])"
  note L = set_sector_lists [OF sh, of _ _ tro cn rn sz]
  have dj: "\<not> tro \<longrightarrow> set (concat (tree_c_filenames N)) \<inter> set (concat (tree_r_filenames N)) = {} \<and>
      set (concat (tree_c_filenames N)) \<inter> set (sealed_filenames N) = {}"
    "set (concat (tree_r_filenames N)) \<inter> set (sealed_filenames N) = {}"
    using d unfolding output_names_def distinct_append set_append by (cases tro; simp; blast)+
  have at: "length (file_at fs' f) = m div fr_size" if "(f, m) \<in> set ?L" "\<And>m'. (f, m') \<in> set ?L \<Longrightarrow> m' = m" for m
  proof -
    have "f \<in> fst ` set ?L" using that(1) by (metis fst_conv image_eqI)
    then have "fs' f = Some (replicate (m div fr_size) zero)" unfolding fs'_def by (rule create_all_at) (rule that(2))
    then show ?thesis by (simp add: file_at_def)
  qed
  show "length (file_at fs' f) = cn div fr_size" if "\<not> tro" "f \<in> set (concat (tree_c_filenames N))"
    using that dj(1) unfolding disjoint_iff by (intro at) (unfold L, blast+)
  show "length (file_at fs' f) = rn div fr_size" if "f \<in> set (concat (tree_r_filenames N))"
    using that dj unfolding disjoint_iff by (intro at) (unfold L, blast+)
  show "length (file_at fs' f) = sz div fr_size" if "f \<in> set (sealed_filenames N)"
    using that dj unfolding disjoint_iff by (intro at) (unfold L, blast+)
qed


lemma opened_sector_files:
  assumes c: "pc2_new sz S tro ntr batch streams (o_tree_c st) (o_tree_r st) (o_sealed st) ncc = Inr c"
    and sh: "names_shape S n N" "length (p_aux_filenames N) = S" and d: "distinct (output_names tro N)"
    and w: "\<forall>f \<in> set (output_names tro N). os_open_w os f \<and> os_write os f"
    and st: "\<not> tro \<longrightarrow> concat (o_tree_c st) = map (opened_writer cn) (concat (tree_c_filenames N))"
      "concat (o_tree_r st) = map (opened_writer rn) (concat (tree_r_filenames N))" "o_sealed st = map (opened_writer sz) (sealed_filenames N)"
      "o_fs st = create_all zero (concat (map (sector_list tro cn rn sz N) [0..<S])) fs"
    and sizes: "ta_data_size (tree_c_address c) = cn" "ta_data_size (tree_r_address c) = rn" "fr_size dvd cn" "fr_size dvd rn"
      "GetNumNodes sz = sz div fr_size"
  shows "sector_files_ok os c (p_aux_filenames N) (o_fs st)"
proof -
  note l = created_sizes [OF sh(1) d, of _ zero cn rn sz fs, folded st(4)]
  have f: "tree_c_files c = o_tree_c st" "tree_r_files c = o_tree_r st" "sealed_files c = o_sealed st" "tree_r_only c = tro"
    "sectors c = S" "p_size c = sz"
    using c by (auto simp: pc2_new_def Let_def bind_result_Inr_iff split: if_splits)
  have "out_names c (p_aux_filenames N) = output_names tro N"
    using st(1-3) by (simp add: out_names_def output_names_def f comp_def)
  moreover have "length (sealed_files c) = sectors c" using sh(1) st(3) by (simp add: f names_shape_def)
  moreover have "\<not> tro \<longrightarrow> (\<forall>w \<in> set (concat (o_tree_c st)). writer_ok os w \<and> length (file_at (o_fs st) (fw_name w)) * fr_size = cn)"
    using st(1) l(1) w sizes(3) by (auto simp: output_names_def simp del: set_concat)
  moreover have "\<forall>w \<in> set (concat (o_tree_r st)). writer_ok os w \<and> length (file_at (o_fs st) (fw_name w)) * fr_size = rn"
    unfolding st(2) using l(2) w sizes(4) by (auto simp: output_names_def simp del: set_concat)
  moreover have "\<forall>w \<in> set (o_sealed st). writer_ok os w \<and> length (file_at (o_fs st) (fw_name w)) = GetNumNodes sz"
    unfolding st(3) using l(3) w sizes(5) by (auto simp: output_names_def)
  moreover have "\<forall>f \<in> set (p_aux_filenames N). os_open_w os f \<and> os_write os f" using w by (simp add: output_names_def)
  ultimately show ?thesis unfolding sector_files_ok_def f sizes(1,2) using d sh(2) by simp
qed

lemma open_files_sector:
  fixes os :: os and s S tro output_dir dirs mkdir and fs :: "'f fs"
  defines "sz \<equiv> 2 ^ sector_lg s"
  defines "N \<equiv> get_filenames dirs sz S output_dir"
  assumes "15 < sector_lg s" "S \<le> 128" "length output_dir \<le> 190" "\<forall>d \<in> set (directories N). dirs d \<or> mkdir d"
    "\<forall>f \<in> set (output_names tro N). os_open_w os f \<and> os_write os f"
    "\<forall>i < S. \<forall>f. data_filenames i = Some f \<longrightarrow> f \<notin> set (output_names tro N)"
  shows "\<exists>dirs' st. open_files os zero mkdir sz S tro data_filenames output_dir dirs fs = Inr (dirs', p_aux_filenames N, st) \<and>
    open_shape tro S (GetNumTreeRCFiles sz) st \<and> distinct (output_names tro N) \<and>
    o_data st = map (\<lambda>i. data_file os sz (data_filenames i) fs zero) [0..<S] \<and> o_non_cc st = (\<exists>i < S. data_filenames i \<noteq> None) \<and>
    (\<forall>ntr batch streams ncc c. pc2_new sz S tro ntr batch streams (o_tree_c st) (o_tree_r st) (o_sealed st) ncc = Inr c \<longrightarrow>
       sector_files_ok os c (p_aux_filenames N) (o_fs st))"
proof -
  let ?n = "GetNumTreeRCFiles sz" and ?K = "part_depth s" and ?d = "GetNumTreeRDiscardRows sz"
  let ?nodes = "GetNumNodes sz div GetNumTreeRCFiles sz"
  let ?cn = "ta_data_size (tree_address_new ?nodes NODE_SIZE 0)" and ?rn = "ta_data_size (tree_address_new ?nodes NODE_SIZE (?d + 1))"
  note g = gpu_sector_shape [OF assms(3), folded sz_def]
  have n: "?n \<le> 16" using GetNumTreeRCFiles_le(2) [of s] by (simp add: sz_def)
  note short = get_filenames_short [OF assms(5,4) HOL.refl n, of dirs, folded N_def]
  have sh: "names_shape S ?n N" "length (p_aux_filenames N) = S" unfolding names_shape_def short by auto
  have d: "distinct (output_names tro N)" unfolding N_def by (rule output_names_ok [OF assms(5,4) HOL.refl n])
  have node: "NODE_SIZE = fr_size" by (simp add: NODE_SIZE_def NODE_SIZE_LG_def fr_size_def)
  have nodes: "?nodes = 8 ^ ?K" using g(1,7) by simp
  have dvd: "fr_size dvd ?cn" "fr_size dvd ?rn"
    unfolding nodes node using ta_data_size_rows [of 0 ?K fr_size] ta_data_size_rows [of "?d + 1" ?K fr_size] g(6) by simp_all
  have sz: "GetNumNodes sz = sz div fr_size"
    by (simp add: GetNumNodes_def GetNumLeaves_def node)
  have data: "\<forall>f \<in> set (output_names tro N). os_open_w os f" using assms(7) by blast
  from open_files_run [OF assms(5,4) n assms(6) [unfolded N_def] data [unfolded N_def] assms(8) [unfolded N_def], of zero fs, folded N_def]
  obtain dirs' st where o: "open_files os zero mkdir sz S tro data_filenames output_dir dirs fs = Inr (dirs', p_aux_filenames N, st)"
    "open_shape tro S ?n st" "\<not> tro \<longrightarrow> concat (o_tree_c st) = map (opened_writer ?cn) (concat (tree_c_filenames N))"
    "concat (o_tree_r st) = map (opened_writer ?rn) (concat (tree_r_filenames N))" "o_sealed st = map (opened_writer sz) (sealed_filenames N)"
    "o_data st = map (\<lambda>i. data_file os sz (data_filenames i) fs zero) [0..<S]" "o_non_cc st = (\<exists>i < S. data_filenames i \<noteq> None)"
    "o_fs st = create_all zero (concat (map (sector_list tro ?cn ?rn sz N) [0..<S])) fs" by blast
  have "sector_files_ok os c (p_aux_filenames N) (o_fs st)"
    if c: "pc2_new sz S tro ntr batch streams (o_tree_c st) (o_tree_r st) (o_sealed st) ncc = Inr c" for ntr batch streams ncc c
    using pc2_new_addresses(2,3) [OF c] unfolding node
    by (intro opened_sector_files [OF c sh d assms(7) o(3-5,8) _ _ dvd sz]) (simp_all add: node)
  with o(1,2,6,7) d show ?thesis by blast
qed

lemma streams_done_first:
  assumes "pc2_config e s c" "0 < GetNumTreeRCFiles (2 ^ sector_lg s)"
  shows "\<exists>g. streams_done e c 0 g"
proof -
  let ?k = "part_depth s - 4"
  have "\<exists>g g0. part_start e c i 0 g0 \<and> gpu_reach e c 0 g0 g \<and> r_state g = DONE" if i: "i < stream_count c" for i
  proof -
    let ?g0 = "resource_reset c (resource_new c 0 i)"
    note ok = config_stream [OF assms(1) i assms(2)]
    have p: "part_start e c i 0 ?g0" by (rule part_first)
    obtain F where F: "stream_inv e c 0 i ?k (batch_size c div 8) (part_depth s) (GetNumTreeRDiscardRows (2 ^ sector_lg s)) F 0 ?g0"
      using part_start_inv [OF p ok] ..
    obtain g where g: "gpu_busy e c 0 ?g0 (6 * tree_steps ?k) g" using busy_exists [OF ok F] by blast
    from gpu_busy_done [OF g ok F order_refl] busy_reach [OF g] p show ?thesis by blast
  qed
  then have "\<exists>g. \<forall>i < stream_count c. \<exists>g0. part_start e c i 0 g0 \<and> gpu_reach e c 0 g0 (g i) \<and> r_state (g i) = DONE" by metis
  then show ?thesis by (simp add: streams_done_def)
qed

definition all_allowed :: os where
  "all_allowed = \<lparr>os_open_r = \<lambda>_. True, os_open_w = \<lambda>_. True, os_mmap = \<lambda>_. True, os_write = \<lambda>_. True\<rparr>"

lemma config_example_opened:
  obtains e :: "int env" and c p_aux and fs :: "int fs" where "pc2_config e Sector8MB c" "\<not> tree_r_only c" "sectors c = 1"
    "sector_files_ok all_allowed c p_aux fs"
proof -
  have p: "15 < sector_lg Sector8MB" "(1 :: nat) \<le> 128" "length ''out'' \<le> 190" by simp_all
  obtain st :: "int opened" where st: "open_shape False 1 (GetNumTreeRCFiles (2 ^ sector_lg Sector8MB)) st"
    "\<And>ntr batch streams ncc c. pc2_new (2 ^ sector_lg Sector8MB) 1 False ntr batch streams (o_tree_c st) (o_tree_r st) (o_sealed st) ncc = Inr c \<Longrightarrow>
       sector_files_ok all_allowed c (p_aux_filenames (get_filenames (\<lambda>_. True) (2 ^ sector_lg Sector8MB) 1 ''out'')) (o_fs st)"
    using open_files_sector [OF p, of "\<lambda>_. True" "\<lambda>_. True" False all_allowed "\<lambda>_. None" 0 "\<lambda>_. None"] by (auto simp: all_allowed_def)
  have "GetNumTreeRCFiles (2 ^ sector_lg Sector8MB) = 1" by (simp add: sector_defs)
  with st(1) have sh: "length (o_tree_c st) = 1" "\<forall>ws \<in> set (o_tree_c st). length ws = 1" "length (o_tree_r st) = 1"
    "\<forall>ws \<in> set (o_tree_r st). length ws = 1" by (simp_all add: open_shape_def)
  obtain e :: "int env" and c ntr batch streams where c: "pc2_config e Sector8MB c" "\<not> tree_r_only c"
    "pc2_new (2 ^ sector_lg Sector8MB) 1 False ntr batch streams (o_tree_c st) (o_tree_r st) (o_sealed st) False = Inr c"
    using config_example_files [OF sh] by metis
  have "sectors c = 1" using c(3) by (auto simp: pc2_new_def Let_def bind_result_Inr_iff split: if_splits)
  with that c st(2) [OF c(3)] show ?thesis by blast
qed


section \<open>Properties\<close>

text \<open>
  C34: opening the files of PC2.  For every sector size that PC2 hashes on the GPU, up to 128 sectors
  and an output directory whose name has at most 190 characters, if the directories can be
  made and the output files can be opened and written, then \<open>open_files\<close> opens every
  tree file of every part and every sealed file, under names that are all different, and
  allocates them the sizes that the tree addresses need: whatever streams and batches the constructor is given,
  its state satisfies what the run of PC2 needs of its files.
\<close>
theorem open_files_ready:
  fixes os :: os and s S tro output_dir dirs mkdir and fs :: "'f fs"
  defines "sz \<equiv> 2 ^ sector_lg s"
  defines "N \<equiv> get_filenames dirs sz S output_dir"
  assumes "15 < sector_lg s" "S \<le> 128" "length output_dir \<le> 190" "\<forall>d \<in> set (directories N). dirs d \<or> mkdir d"
    "\<forall>f \<in> set (output_names tro N). os_open_w os f \<and> os_write os f"
    "\<forall>i < S. \<forall>f. data_filenames i = Some f \<longrightarrow> f \<notin> set (output_names tro N)"
  shows "\<exists>dirs' st. open_files os zero mkdir sz S tro data_filenames output_dir dirs fs = Inr (dirs', p_aux_filenames N, st) \<and>
    open_shape tro S (GetNumTreeRCFiles sz) st \<and> distinct (output_names tro N) \<and>
    o_data st = map (\<lambda>i. data_file os sz (data_filenames i) fs zero) [0..<S] \<and> o_non_cc st = (\<exists>i < S. data_filenames i \<noteq> None) \<and>
    (\<forall>ntr batch streams ncc c. pc2_new sz S tro ntr batch streams (o_tree_c st) (o_tree_r st) (o_sealed st) ncc = Inr c \<longrightarrow>
       sector_files_ok os c (p_aux_filenames N) (o_fs st))"
  unfolding sz_def N_def by (rule open_files_sector [OF assms(3-8) [unfolded sz_def N_def]])

theorem open_files_ready_witness:
  "\<exists>dirs' (st :: int opened). open_files all_allowed 0 (\<lambda>_. True) (2 ^ sector_lg Sector32GB) 128 False (\<lambda>_. None) ''out'' (\<lambda>_. True) (\<lambda>_. None) =
      Inr (dirs', p_aux_filenames (get_filenames (\<lambda>_. True) (2 ^ sector_lg Sector32GB) 128 ''out''), st) \<and>
    open_shape False 128 (GetNumTreeRCFiles (2 ^ sector_lg Sector32GB)) st"
proof -
  have p: "15 < sector_lg Sector32GB" "(128 :: nat) \<le> 128" "length ''out'' \<le> 190" by simp_all
  from open_files_ready [OF p, of "\<lambda>_. True" "\<lambda>_. True" False all_allowed "\<lambda>_. None" 0 "\<lambda>_. None"] show ?thesis
    by (auto simp: all_allowed_def)
qed



text \<open>
  \<open>do_pc2_cleanup\<close> removes exactly the output files: the \<open>p_aux\<close>, sealed and tree files under the
  names that \<open>open_files\<close> and \<open>write_roots\<close> use, and no other file.
\<close>
theorem do_pc2_cleanup_exact:
  "do_pc2_cleanup dirs sz S output_dir fs f =
    (if f \<in> set (output_names False (get_filenames dirs sz S output_dir)) then None else fs f)"
proof -
  have "fold (\<lambda>f fs. fs(f := None)) xs g f = (if f \<in> set xs then None else g f)" for xs and g :: "'a fs"
    by (induction xs arbitrary: g) simp_all
  then show ?thesis by (simp add: do_pc2_cleanup_def Let_def output_names_def del: set_concat)
qed



end
