(* ===== verification/PC1_System.thy ===== *)
theory PC1_System
  imports Node_Id Ring_Buffer
begin

unbundle bit_operations_syntax

text \<open>
  The shared buffers of PC1 (\<open>system_buffers_t\<close>, \<open>src/pc1/system_buffers_t.hpp\<close>)
  and the threads that move pages between them and the disks (\<open>node_rw_t\<close>,
  \<open>src/pc1/node_rw_t.hpp\<close>).

  \<^item> Memory is an explicit store: a page is a function from the node in the page
    and the sector to a node of 8 words; the parent buffer has a page for each
    slot and parent, the node buffer a page for each slot.  A pointer to a
    parallel node is \<open>NodePtr\<close> (slot, node in page), \<open>PagePtr\<close> (slot, parent,
    node in page) or \<open>NullPtr\<close>.  The entry pointers of the two ring buffers are
    the slot numbers.
  \<^item> A request keeps the slot and index of the \<open>node_io_t\<close> it was issued for and
    the address on disk that was computed when it was issued.  The transfer of
    the page and the completion (which the thread sees when it polls) are two
    steps, in any order between requests: \<open>rq_done\<close> says that the page has been
    transferred.
  \<^item> The sizes that the code has as constants and template arguments are the
    fields of a configuration; \<open>code_cfg\<close> has the values of the code.
\<close>

type_synonym label_t = "32 word list"
type_synonym parallel_node_t = "nat \<Rightarrow> label_t"
type_synonym page_t = "nat \<Rightarrow> parallel_node_t"

datatype parent_ptr_t = NullPtr | NodePtr nat nat | PagePtr nat nat nat

record pc1_cfg =
  cf_npp :: nat
  cf_bits :: nat
  cf_layers :: nat
  cf_parents :: nat
  cf_nodes :: nat
  cf_batch :: nat
  cf_batches :: nat
  cf_queue :: nat
  cf_disks :: nat
  cf_offset :: nat
  cf_hashers :: "nat list"

definition nvme_queue_size :: nat where
  "nvme_queue_size = 1024"

definition code_cfg :: "sealing_config_t \<Rightarrow> nat \<Rightarrow> nat \<Rightarrow> nat list \<Rightarrow> pc1_cfg" where
  "code_cfg sc disks offset hashers =
     \<lparr>cf_npp = NODES_PER_PAGE (PARALLEL_SECTORS sc),
      cf_bits = GetNodeBits (sector_size sc),
      cf_layers = GetNumLayers (sector_size sc),
      cf_parents = PARENT_BUFFER_BATCHES,
      cf_nodes = NODE_BUFFER_BATCHES,
      cf_batch = COORD_BATCH_SIZE,
      cf_batches = COORD_BATCH_COUNT,
      cf_queue = nvme_queue_size,
      cf_disks = disks,
      cf_offset = offset,
      cf_hashers = hashers\<rparr>"

record node_sync_t =
  reference_count :: "16 word"
  consumed_count :: "16 word"

record system_buffers_t =
  parent_buffer :: "nat ring_buffer_t"
  parent_buffer_store :: "nat \<Rightarrow> nat \<Rightarrow> page_t"
  parent_buffer_io :: "nat \<Rightarrow> nat \<Rightarrow> node_io_t"
  parent_ptrs :: "nat \<Rightarrow> nat \<Rightarrow> parent_ptr_t"
  parent_ptr_syncs :: "nat \<Rightarrow> nat \<Rightarrow> 32 word"
  node_buffer :: "nat ring_buffer_t"
  node_buffer_store :: "nat \<Rightarrow> page_t"
  node_buffer_io :: "nat \<Rightarrow> nat \<Rightarrow> node_io_t"
  node_buffer_sync :: "nat \<Rightarrow> node_sync_t"
  parent_read_fifo :: "nat fifo_t"
  node_write_fifo :: "nat fifo_t"
  coordinator_node :: "nat list"

definition disk_fifo_depth :: "pc1_cfg \<Rightarrow> nat" where
  "disk_fifo_depth cf = size_mul (size_mul (cf_disks cf) (cf_queue cf) div PAGE_BATCH_SIZE) 16"

definition init_io :: "nat \<Rightarrow> nat \<Rightarrow> io_type \<Rightarrow> (nat \<Rightarrow> nat \<Rightarrow> node_io_t) \<Rightarrow> nat \<Rightarrow> nat \<Rightarrow> node_io_t" where
  "init_io batches batch_size ty ios =
     (\<lambda>i j. if i < batches \<and> j < batch_size then (ios i j)\<lparr>io_valid := Some i, io_type := ty\<rparr>
            else ios i j)"

definition system_init :: "pc1_cfg \<Rightarrow> system_buffers_t \<Rightarrow> system_buffers_t" where
  "system_init cf s =
     s\<lparr>parent_read_fifo := fifo_create (disk_fifo_depth cf) fifo_new,
       parent_buffer := rb_create (cf_parents cf) (Some (\<lambda>i. i)) rb_new,
       parent_buffer_io := init_io (cf_parents cf) PAGE_BATCH_SIZE READ (parent_buffer_io s),
       node_write_fifo := fifo_create (disk_fifo_depth cf) fifo_new,
       node_buffer := rb_create (cf_nodes cf) (Some (\<lambda>i. i)) rb_new,
       node_buffer_io := init_io (cf_nodes cf) 1 WRITE (node_buffer_io s),
       node_buffer_sync :=
         (\<lambda>i. if i < cf_nodes cf div NODE_BUFFER_SYNC_BATCH_SIZE
              then \<lparr>reference_count = 0, consumed_count = 0\<rparr> else node_buffer_sync s i),
       coordinator_node := replicate (length (cf_hashers cf)) 0\<rparr>"

definition read_ptr :: "system_buffers_t \<Rightarrow> parent_ptr_t \<Rightarrow> parallel_node_t" where
  "read_ptr s p = (case p of
     NullPtr \<Rightarrow> (\<lambda>_. [])
   | NodePtr e k \<Rightarrow> node_buffer_store s e k
   | PagePtr i j k \<Rightarrow> parent_buffer_store s i j k)"


section \<open>Disk I/O\<close>

definition nvme_node_indexes :: "nat \<Rightarrow> nat \<Rightarrow> nat \<Rightarrow> nat \<times> nat" where
  "nvme_node_indexes npp num_controllers node =
     (let blk = node div npp;
          block_on_controller = blk div num_controllers;
          ctrl_id = size_sub blk (size_mul block_on_controller num_controllers)
      in (ctrl_id, block_on_controller))"

record io_req_t =
  rq_slot :: nat
  rq_j :: nat
  rq_type :: io_type
  rq_ctrl :: nat
  rq_block :: nat
  rq_done :: bool

record node_rw_t =
  rw_todo :: nat
  rw_inflight :: "io_req_t list"

type_synonym disk_t = "nat \<Rightarrow> nat \<Rightarrow> page_t"

definition node_rw_new :: node_rw_t where
  "node_rw_new = \<lparr>rw_todo = 0, rw_inflight = []\<rparr>"

definition get_outstanding_io_ops :: "nat \<Rightarrow> node_rw_t \<Rightarrow> nat" where
  "get_outstanding_io_ops ctrl rw = length (filter (\<lambda>r. rq_ctrl r = ctrl) (rw_inflight rw))"

definition rw_min_free :: "pc1_cfg \<Rightarrow> node_rw_t \<Rightarrow> nat" where
  "rw_min_free cf rw =
     fold (\<lambda>c m. min m (size_sub (cf_queue cf) (get_outstanding_io_ops c rw))) [1..<cf_disks cf]
       (size_sub (cf_queue cf) (get_outstanding_io_ops 0 rw))"

definition rw_begin :: "pc1_cfg \<Rightarrow> nat \<Rightarrow> nat fifo_t \<Rightarrow> node_rw_t \<Rightarrow> node_rw_t" where
  "rw_begin cf batch_size q rw =
     rw\<lparr>rw_todo := min (rw_min_free cf rw div batch_size) (fifo_size q)\<rparr>"

definition rw_issue :: "pc1_cfg \<Rightarrow> nat \<Rightarrow> node_io_t \<Rightarrow> nat \<Rightarrow> node_rw_t \<Rightarrow> node_rw_t result" where
  "rw_issue cf slot io j rw =
     (if io_type io = NOP then Inr rw
      else
        let (ctrl_id, strided_block) = nvme_node_indexes (cf_npp cf) (cf_disks cf) (unat (io_node io)) in
        if ctrl_id < cf_disks cf then
          Inr (rw\<lparr>rw_inflight := rw_inflight rw @
                 [\<lparr>rq_slot = slot, rq_j = j, rq_type = io_type io, rq_ctrl = ctrl_id,
                   rq_block = size_add strided_block (cf_offset cf), rq_done = False\<rparr>]\<rparr>)
        else Inl OutOfBounds)"

definition rw_batch :: "pc1_cfg \<Rightarrow> nat \<Rightarrow> (nat \<Rightarrow> nat \<Rightarrow> node_io_t) \<Rightarrow> nat fifo_t \<Rightarrow> node_rw_t \<Rightarrow>
    (nat fifo_t \<times> node_rw_t) result" where
  "rw_batch cf batch_size ios q rw =
     bind_result (mt_dequeue q) (\<lambda>(req_batch, q').
     case req_batch of
       None \<Rightarrow> Inl AssertFail
     | Some slot \<Rightarrow>
         bind_result (fold_result (\<lambda>j. rw_issue cf slot (ios slot j) j) [0..<batch_size] rw) (\<lambda>rw'.
         Inr (q', rw'\<lparr>rw_todo := rw_todo rw - 1\<rparr>)))"

definition completion_cb :: "node_io_t \<Rightarrow> nat ring_buffer_t \<Rightarrow> nat ring_buffer_t result" where
  "completion_cb io rb = (case io_valid io of None \<Rightarrow> Inl NullDeref | Some i \<Rightarrow> incr_valid i 1 rb)"

definition remove_nth :: "nat \<Rightarrow> 'a list \<Rightarrow> 'a list" where
  "remove_nth k xs = take k xs @ drop (Suc k) xs"

definition set_done :: "nat \<Rightarrow> node_rw_t \<Rightarrow> node_rw_t" where
  "set_done k rw = rw\<lparr>rw_inflight := (rw_inflight rw)[k := (rw_inflight rw ! k)\<lparr>rq_done := True\<rparr>]\<rparr>"

definition drop_request :: "nat \<Rightarrow> node_rw_t \<Rightarrow> node_rw_t" where
  "drop_request k rw = rw\<lparr>rw_inflight := remove_nth k (rw_inflight rw)\<rparr>"

definition disk_write :: "nat \<Rightarrow> nat \<Rightarrow> page_t \<Rightarrow> disk_t \<Rightarrow> disk_t" where
  "disk_write ctrl blk pg d = d(ctrl := (d ctrl)(blk := pg))"

text \<open>The transfer of a page for a request on the parent buffer and on the node buffer.\<close>

definition parent_transfer :: "io_req_t \<Rightarrow> system_buffers_t \<Rightarrow> disk_t \<Rightarrow> system_buffers_t \<times> disk_t" where
  "parent_transfer r s d =
     (if rq_type r = READ then
        (s\<lparr>parent_buffer_store := (parent_buffer_store s)
             (rq_slot r := (parent_buffer_store s (rq_slot r))(rq_j r := d (rq_ctrl r) (rq_block r)))\<rparr>, d)
      else (s, disk_write (rq_ctrl r) (rq_block r) (parent_buffer_store s (rq_slot r) (rq_j r)) d))"

definition node_transfer :: "io_req_t \<Rightarrow> system_buffers_t \<Rightarrow> disk_t \<Rightarrow> system_buffers_t \<times> disk_t" where
  "node_transfer r s d =
     (if rq_type r = READ then
        (s\<lparr>node_buffer_store := (node_buffer_store s)(rq_slot r := d (rq_ctrl r) (rq_block r))\<rparr>, d)
      else (s, disk_write (rq_ctrl r) (rq_block r) (node_buffer_store s (rq_slot r)) d))"

end
