(* ===== verification/PC1_Orchestrator.thy ===== *)
theory PC1_Orchestrator
  imports PC1_System
begin

unbundle bit_operations_syntax

text \<open>
  The orchestrator of PC1 (\<open>src/pc1/orchestrator_t.hpp\<close>): it reserves buffers and
  prepares the parents of every node (\<open>read_batch\<close>), hands hashed pages to the
  writer (\<open>write_nodes\<close>), releases parent slots when all coordinators are past
  them, follows the writes that have completed and releases node buffer pages.

  The loop of \<open>process\<close> is cut at every access to data that another thread
  changes: \<open>orch_pc\<close> is the program point, with the loop counters that the
  code keeps in locals, and \<open>orch_step\<close> runs to the next point.  Node ids are
  \<open>size_t\<close> numbers, except in the parent iterator, which keeps the 64-bit word.
  The statistics counters are left out: they feed only the printed reports.
\<close>

datatype orch_pc = OTop | OMin nat | ORead | ONodes | OWrites nat | OParents nat | OWritten nat
  | ORelease nat nat | OCheck | ODone

record read_batch_t =
  rb_i :: nat
  rb_max_batch :: nat
  parent_buffer_id :: nat
  page_batch_ptrs :: "nat ptr list"
  node_batch_ptrs :: "nat ptr list"
  cur_node_buffer_id :: nat
  node_buffer_count :: nat
  cache_min_node :: nat
  cache_min_cacheable_node :: nat

record orchestrator_t =
  orch_pc :: orch_pc
  node_stop :: nat
  prev_hashed_node :: parent_ptr_t
  tail_node :: nat
  tail_node_parents :: nat
  tail_node_write :: ring_counter_t
  head_node_write :: ring_counter_t
  min_node_hash :: nat
  parent_iter :: parent_iter_t
  outstanding_writes :: nat
  loop_node :: nat
  next_node :: nat
  min_node :: nat
  rb_locals :: read_batch_t

definition ACTION_BATCH :: nat where
  "ACTION_BATCH = 8"

definition read_batch_none :: read_batch_t where
  "read_batch_none = \<lparr>rb_i = 0, rb_max_batch = 0, parent_buffer_id = 0, page_batch_ptrs = [],
     node_batch_ptrs = [], cur_node_buffer_id = 0, node_buffer_count = 0, cache_min_node = 0,
     cache_min_cacheable_node = 0\<rparr>"

definition orchestrator_new :: "pc1_cfg \<Rightarrow> nat \<Rightarrow> nat \<Rightarrow> 32 word list option \<Rightarrow> orchestrator_t result" where
  "orchestrator_new cf start stop parents_file =
     (case parents_file of
        None \<Rightarrow> Inl ExitFailure
      | Some buf \<Rightarrow>
          if 4 * length buf \<noteq> parent_bytes (2 ^ cf_bits cf) then Inl ExitFailure
          else Inr \<lparr>orch_pc = OTop, node_stop = stop, prev_hashed_node = NullPtr,
                 tail_node = start, tail_node_parents = start,
                 tail_node_write = ring_counter_new start, head_node_write = ring_counter_new start,
                 min_node_hash = 0,
                 parent_iter = set_buf buf (parent_iter_new (word_of_nat start)),
                 outstanding_writes = 0, loop_node = start, next_node = 0, min_node = 0,
                 rb_locals = read_batch_none\<rparr>)"

definition node_of :: "orchestrator_t \<Rightarrow> nat" where
  "node_of o1 = unat (pi_node (parent_iter o1))"


section \<open>Reading the parents of a batch of nodes\<close>

definition max_batch :: "pc1_cfg \<Rightarrow> system_buffers_t \<Rightarrow> nat \<Rightarrow> nat" where
  "max_batch cf s remaining_nodes =
     (let parent_read_fifo_free = fifo_free_count (parent_read_fifo s);
          node_buffer_free = rb_free_count (cf_nodes cf) (node_buffer s);
          parent_buffer_free = rb_free_count (cf_parents cf) (parent_buffer s);
          min_free = min parent_read_fifo_free (size_mul node_buffer_free (cf_npp cf));
          min_free = min min_free parent_buffer_free;
          mb = min min_free remaining_nodes;
          mb = min mb (cf_npp cf * 2)
      in unat (word_of_nat mb AND NOT (word_of_nat (size_sub (cf_npp cf) 1)) :: 64 word))"

definition read_batch_begin :: "pc1_cfg \<Rightarrow> nat \<Rightarrow> system_buffers_t \<Rightarrow> orchestrator_t \<Rightarrow>
    (system_buffers_t \<times> orchestrator_t) result" where
  "read_batch_begin cf remaining_nodes s o1 =
     (let mb = max_batch cf s remaining_nodes in
      if mb = 0 then Inr (s, o1\<lparr>orch_pc := OWrites ACTION_BATCH\<rparr>)
      else
        bind_result (reserve_batch_nocheck (cf_parents cf) mb (parent_buffer s)) (\<lambda>((pid, pages), pbuf).
        bind_result (reserve_batch_nocheck (cf_nodes cf) (mb div cf_npp cf) (node_buffer s))
          (\<lambda>((nid, nodes), nbuf).
        let cnt = size_sub (size_mul (cur_size nbuf) (cf_npp cf)) mb;
            cmin = size_sub (node_of o1) cnt;
            cacheable = min (size_add cmin (cf_parents cf)) (rc_abs (tail_node_write o1))
        in Inr (s\<lparr>parent_buffer := pbuf, node_buffer := nbuf\<rparr>,
                o1\<lparr>orch_pc := ONodes,
                   rb_locals := \<lparr>rb_i = 0, rb_max_batch = mb, parent_buffer_id = pid,
                     page_batch_ptrs = pages, node_batch_ptrs = nodes, cur_node_buffer_id = nid,
                     node_buffer_count = cnt, cache_min_node = cmin,
                     cache_min_cacheable_node = cacheable\<rparr>\<rparr>))))"

definition set_parent :: "nat \<Rightarrow> nat \<Rightarrow> parent_ptr_t \<Rightarrow> 32 word \<Rightarrow> system_buffers_t \<Rightarrow> system_buffers_t" where
  "set_parent pid j p sync s =
     s\<lparr>parent_ptrs := (parent_ptrs s)(pid := (parent_ptrs s pid)(j := p)),
       parent_ptr_syncs := (parent_ptr_syncs s)(pid := (parent_ptr_syncs s pid)(j := sync))\<rparr>"

definition set_io :: "nat \<Rightarrow> nat \<Rightarrow> (node_io_t \<Rightarrow> node_io_t) \<Rightarrow> system_buffers_t \<Rightarrow> system_buffers_t" where
  "set_io pid j f s =
     s\<lparr>parent_buffer_io := (parent_buffer_io s)(pid := (parent_buffer_io s pid)(j := f (parent_buffer_io s pid j)))\<rparr>"

definition add_reference :: "nat \<Rightarrow> system_buffers_t \<Rightarrow> system_buffers_t" where
  "add_reference entry s =
     (let i = entry div NODE_BUFFER_SYNC_BATCH_SIZE; sync = node_buffer_sync s i
      in s\<lparr>node_buffer_sync := (node_buffer_sync s)(i := sync\<lparr>reference_count := reference_count sync + 1\<rparr>)\<rparr>)"

definition no_parents :: "nat \<Rightarrow> nat \<Rightarrow> nat list \<Rightarrow> system_buffers_t \<times> parent_iter_t \<Rightarrow> system_buffers_t \<times> parent_iter_t" where
  "no_parents nbits pid js =
     fold (\<lambda>j (s, it). (set_parent pid j NullPtr NOT_NODE_BUFFER s, parent_iter_next nbits it)) js"

definition find_parent :: "nat \<Rightarrow> node_id_t \<Rightarrow> parent_iter_t \<Rightarrow> node_id_t result" where
  "find_parent nbits node it =
     (if node_id_layer nbits node = 0 \<and> is_prev_layer it then Inr (node_id_decr node)
      else parent_iter_deref nbits it)"

definition read_parent :: "pc1_cfg \<Rightarrow> read_batch_t \<Rightarrow> node_id_t \<Rightarrow> nat \<Rightarrow> nat \<Rightarrow>
    system_buffers_t \<times> parent_iter_t \<times> nat \<Rightarrow> (system_buffers_t \<times> parent_iter_t \<times> nat) result" where
  "read_parent cf rb node page j = (\<lambda>(s, it, reads_issued).
     bind_result (assert_that (node = pi_node it)) (\<lambda>_.
     bind_result (find_parent (cf_bits cf) node it) (\<lambda>parent_node.
     let pid = parent_buffer_id rb;
         use_cache = cache_min_cacheable_node rb \<le> unat parent_node;
         is_local = size_sub (unat node) (unat parent_node) < cf_batch cf * cf_batches cf;
         node_in_page = unat (node_id_node (cf_bits cf) parent_node) mod cf_npp cf;
         it' = parent_iter_next (cf_bits cf) it
     in if use_cache then
          let cache_offset = size_sub (unat parent_node) (cache_min_node rb);
              entry = rb_add (cf_nodes cf) (rb_tail (node_buffer s)) (cache_offset div cf_npp cf)
          in bind_result (assert_that (cache_offset < size_add (node_buffer_count rb) (rb_i rb))) (\<lambda>_.
             let s1 = set_io pid j (\<lambda>io. io\<lparr>io_type := NOP\<rparr>) s in
             Inr (if is_local
                  then (set_parent pid (j + 1) (NodePtr entry node_in_page) LOCAL_NODE s1, it', reads_issued)
                  else (add_reference entry
                          (set_parent pid (j + 1) (NodePtr entry node_in_page) (word_of_nat entry) s1),
                        it', reads_issued)))
        else
          Inr (set_parent pid (j + 1) (PagePtr page j node_in_page) NOT_NODE_BUFFER
                 (set_io pid j (\<lambda>io. io\<lparr>io_node := parent_node, io_type := READ\<rparr>) s),
               it', reads_issued + 1))))"

definition deref_ptr :: "'a ptr list \<Rightarrow> nat \<Rightarrow> 'a result" where
  "deref_ptr ps i =
     bind_result (vec_get ps i) (\<lambda>p. case p of None \<Rightarrow> Inl NullDeref | Some x \<Rightarrow> Inr x)"

definition read_next :: "pc1_cfg \<Rightarrow> parent_ptr_t \<Rightarrow> parent_iter_t \<Rightarrow> orchestrator_t \<Rightarrow> orchestrator_t" where
  "read_next cf cur_node_buffer it o1 =
     (let rb = rb_locals o1 in
      o1\<lparr>prev_hashed_node := cur_node_buffer, parent_iter := it,
         rb_locals := rb\<lparr>rb_i := rb_i rb + 1,
                        parent_buffer_id := rb_incr (cf_parents cf) (parent_buffer_id rb)\<rparr>\<rparr>)"

definition read_node :: "pc1_cfg \<Rightarrow> system_buffers_t \<Rightarrow> orchestrator_t \<Rightarrow>
    (system_buffers_t \<times> orchestrator_t) result" where
  "read_node cf s o1 =
     (let it = parent_iter o1; node = pi_node it; nbits = cf_bits cf;
          node_in_node_buffer_page = unat (node_id_node nbits node) mod cf_npp cf;
          nid = (if rb_i (rb_locals o1) > 0 \<and> node_in_node_buffer_page = 0
                 then rb_incr (cf_nodes cf) (cur_node_buffer_id (rb_locals o1))
                 else cur_node_buffer_id (rb_locals o1));
          rb = (rb_locals o1)\<lparr>cur_node_buffer_id := nid\<rparr>;
          o1 = o1\<lparr>rb_locals := rb\<rparr>;
          pid = parent_buffer_id rb
      in bind_result (deref_ptr (node_batch_ptrs rb) (rb_i rb div cf_npp cf)) (\<lambda>nb.
         bind_result (deref_ptr (page_batch_ptrs rb) (rb_i rb)) (\<lambda>page.
         let cur_node_buffer = NodePtr nb node_in_node_buffer_page in
         if node = 0 then
           let (s1, it1) = no_parents nbits pid [0..<PARENT_COUNT] (s, it) in
           bind_result (incr_valid pid PAGE_BATCH_SIZE (parent_buffer s1)) (\<lambda>pbuf.
           Inr (s1\<lparr>parent_buffer := pbuf\<rparr>, read_next cf cur_node_buffer it1 o1))
         else
           bind_result
             (if node_id_node nbits node = 0
              then let (s1, it1) = no_parents nbits pid [0..<PARENT_COUNT_BASE + 1] (s, it)
                   in Inr (s1, it1, PARENT_COUNT_BASE)
              else bind_result (assert_that (pi_parent it = 0)) (\<lambda>_.
                   Inr (set_parent pid 0 (prev_hashed_node o1) LOCAL_NODE s, parent_iter_next nbits it, 0)))
             (\<lambda>(s1, it1, parent_start_idx).
           bind_result (fold_result (read_parent cf rb node page) [parent_start_idx..<PAGE_BATCH_SIZE] (s1, it1, 0))
             (\<lambda>(s2, it2, reads_issued).
           bind_result (incr_valid pid (size_sub PAGE_BATCH_SIZE reads_issued) (parent_buffer s2)) (\<lambda>pbuf.
           bind_result (mt_enqueue_nocheck (Some pid) (parent_read_fifo s2)) (\<lambda>fifo.
           Inr (s2\<lparr>parent_buffer := pbuf, parent_read_fifo := fifo\<rparr>,
                read_next cf cur_node_buffer it2 o1))))))))"


section \<open>Writing nodes and releasing buffers\<close>

definition write_nodes :: "pc1_cfg \<Rightarrow> system_buffers_t \<Rightarrow> orchestrator_t \<Rightarrow> (nat \<times> system_buffers_t) result" where
  "write_nodes cf s o1 =
     (let hw = head_node_write o1;
          head_page_write = rc_abs hw div cf_npp cf;
          min_page_hash = min_node_hash o1 div cf_npp cf;
          idx = counter_idx (cf_npp cf) hw
      in if \<not> head_page_write < min_page_hash then Inr (0, s)
         else if fifo_is_full (node_write_fifo s) then Inr (0, s)
         else
           let s1 = s\<lparr>node_buffer_io := (node_buffer_io s)(idx := (node_buffer_io s idx)
                        (0 := (node_buffer_io s idx 0)\<lparr>io_node := word_of_nat (rc_abs hw)\<rparr>))\<rparr>
           in bind_result (vec_get (valid (node_buffer s1)) idx) (\<lambda>v.
              bind_result (assert_that (v = 0)) (\<lambda>_.
              bind_result (mt_enqueue (Some idx) (node_write_fifo s1)) (\<lambda>fifo.
              Inr (cf_npp cf, s1\<lparr>node_write_fifo := fifo\<rparr>)))))"

definition ring_nodes :: "pc1_cfg \<Rightarrow> nat" where
  "ring_nodes cf = cf_nodes cf * cf_npp cf"

definition write_action :: "pc1_cfg \<Rightarrow> system_buffers_t \<Rightarrow> orchestrator_t \<Rightarrow>
    (system_buffers_t \<times> orchestrator_t) result" where
  "write_action cf s o1 =
     bind_result (write_nodes cf s o1) (\<lambda>(writes_issued, s1).
     Inr (s1, o1\<lparr>head_node_write := counter_add (ring_nodes cf) writes_issued (head_node_write o1),
                 outstanding_writes := size_add (outstanding_writes o1) (writes_issued div cf_npp cf)\<rparr>))"

definition add_consumed :: "32 word \<Rightarrow> system_buffers_t \<Rightarrow> system_buffers_t" where
  "add_consumed idx s =
     (if is_node_buffer idx then
        let i = unat idx div NODE_BUFFER_SYNC_BATCH_SIZE; sync = node_buffer_sync s i
        in s\<lparr>node_buffer_sync := (node_buffer_sync s)(i := sync\<lparr>consumed_count := consumed_count sync + 1\<rparr>)\<rparr>
      else s)"

definition release_parent :: "pc1_cfg \<Rightarrow> system_buffers_t \<Rightarrow> orchestrator_t \<Rightarrow> system_buffers_t \<times> orchestrator_t" where
  "release_parent cf s o1 =
     (let t = rb_tail (parent_buffer s);
          s1 = fold (\<lambda>j s. add_consumed (parent_ptr_syncs s t j) s) [0..<PARENT_PTR_BATCH_SIZE] s
      in (s1\<lparr>parent_buffer := release (cf_parents cf) (parent_buffer s1)\<rparr>,
          o1\<lparr>tail_node_parents := size_add (tail_node_parents o1) 1\<rparr>))"

definition advance_written :: "pc1_cfg \<Rightarrow> orchestrator_t \<Rightarrow> orchestrator_t" where
  "advance_written cf o1 =
     o1\<lparr>outstanding_writes := size_sub (outstanding_writes o1) 1,
        tail_node_write := counter_add (ring_nodes cf) (cf_npp cf) (tail_node_write o1)\<rparr>"

definition sync_batch_free :: "system_buffers_t \<Rightarrow> system_buffers_t option" where
  "sync_batch_free s =
     (if rb_tail (node_buffer s) mod NODE_BUFFER_SYNC_BATCH_SIZE = 0 then
        let i = rb_tail (node_buffer s) div NODE_BUFFER_SYNC_BATCH_SIZE; sync = node_buffer_sync s i
        in if reference_count sync = consumed_count sync
           then Some (s\<lparr>node_buffer_sync := (node_buffer_sync s)
                  (i := \<lparr>reference_count = 0, consumed_count = 0\<rparr>)\<rparr>)
           else None
      else Some s)"

definition release_node :: "pc1_cfg \<Rightarrow> system_buffers_t \<Rightarrow> orchestrator_t \<Rightarrow>
    (system_buffers_t \<times> orchestrator_t) option" where
  "release_node cf s o1 =
     map_option (\<lambda>s1.
       (if unat (node_id_node (cf_bits cf) (word_of_nat (tail_node o1))) mod cf_npp cf = cf_npp cf - 1
        then s1\<lparr>node_buffer := release (cf_nodes cf) (node_buffer s1)\<rparr> else s1,
        o1\<lparr>tail_node := size_add (tail_node o1) 1\<rparr>)) (sync_batch_free s)"


section \<open>The loop of process\<close>

definition orch_top :: "system_buffers_t \<Rightarrow> orchestrator_t \<Rightarrow> (system_buffers_t \<times> orchestrator_t) result" where
  "orch_top s o1 =
     (if loop_node o1 < node_stop o1 \<or> rc_abs (tail_node_write o1) < node_stop o1 \<or> outstanding_writes o1 > 0
      then bind_result (vec_get (coordinator_node s) 0) (\<lambda>n.
           Inr (s, o1\<lparr>next_node := node_of o1, min_node_hash := n, orch_pc := OMin 1\<rparr>))
      else Inr (s, o1\<lparr>orch_pc := ODone\<rparr>))"

definition orch_min :: "nat \<Rightarrow> system_buffers_t \<Rightarrow> orchestrator_t \<Rightarrow> (system_buffers_t \<times> orchestrator_t) result" where
  "orch_min i s o1 =
     (if i < length (coordinator_node s)
      then Inr (s, o1\<lparr>min_node_hash := min (min_node_hash o1) (coordinator_node s ! i), orch_pc := OMin (i + 1)\<rparr>)
      else Inr (s, o1\<lparr>min_node := min (min_node_hash o1) (rc_abs (tail_node_write o1)), orch_pc := ORead\<rparr>))"

definition orch_read :: "pc1_cfg \<Rightarrow> system_buffers_t \<Rightarrow> orchestrator_t \<Rightarrow> (system_buffers_t \<times> orchestrator_t) result" where
  "orch_read cf s o1 =
     (if node_of o1 < node_stop o1
      then read_batch_begin cf (size_sub (node_stop o1) (node_of o1)) s o1
      else Inr (s, o1\<lparr>orch_pc := OWrites ACTION_BATCH\<rparr>))"

definition orch_nodes :: "pc1_cfg \<Rightarrow> system_buffers_t \<Rightarrow> orchestrator_t \<Rightarrow> (system_buffers_t \<times> orchestrator_t) result" where
  "orch_nodes cf s o1 =
     (if rb_i (rb_locals o1) < rb_max_batch (rb_locals o1) then read_node cf s o1
      else Inr (s, o1\<lparr>orch_pc := OWrites ACTION_BATCH\<rparr>))"

definition orch_writes :: "pc1_cfg \<Rightarrow> nat \<Rightarrow> system_buffers_t \<Rightarrow> orchestrator_t \<Rightarrow> (system_buffers_t \<times> orchestrator_t) result" where
  "orch_writes cf a s o1 =
     (if a > 0 \<and> rc_abs (head_node_write o1) < min_node_hash o1
      then bind_result (write_action cf s o1) (\<lambda>(s1, o2). Inr (s1, o2\<lparr>orch_pc := OWrites (a - 1)\<rparr>))
      else Inr (s, o1\<lparr>orch_pc := OParents ACTION_BATCH\<rparr>))"

definition orch_parents :: "pc1_cfg \<Rightarrow> nat \<Rightarrow> system_buffers_t \<Rightarrow> orchestrator_t \<Rightarrow> system_buffers_t \<times> orchestrator_t" where
  "orch_parents cf a s o1 =
     (if a > 0 \<and> tail_node_parents o1 < min_node_hash o1
      then let (s1, o2) = release_parent cf s o1 in (s1, o2\<lparr>orch_pc := OParents (a - 1)\<rparr>)
      else (s, o1\<lparr>orch_pc := OWritten ACTION_BATCH\<rparr>))"

definition orch_written :: "pc1_cfg \<Rightarrow> nat \<Rightarrow> system_buffers_t \<Rightarrow> orchestrator_t \<Rightarrow> (system_buffers_t \<times> orchestrator_t) result" where
  "orch_written cf a s o1 =
     (let ti = counter_idx (cf_npp cf) (tail_node_write o1);
          hi = counter_idx (cf_npp cf) (head_node_write o1);
          leave = Inr (s, o1\<lparr>orch_pc := ORelease ACTION_BATCH (rb_free_count (cf_nodes cf) (node_buffer s))\<rparr>)
      in if a > 0 \<and> ti \<noteq> hi then
           bind_result (vec_get (valid (node_buffer s)) ti) (\<lambda>v.
           if v \<noteq> 0 then Inr (s, (advance_written cf o1)\<lparr>orch_pc := OWritten (a - 1)\<rparr>) else leave)
         else leave)"

definition orch_release :: "pc1_cfg \<Rightarrow> nat \<Rightarrow> nat \<Rightarrow> system_buffers_t \<Rightarrow> orchestrator_t \<Rightarrow> system_buffers_t \<times> orchestrator_t" where
  "orch_release cf a free_count s o1 =
     (if a > 0 \<and> tail_node o1 < min_node o1 \<and> tail_node o1 < rc_abs (tail_node_write o1) \<and>
         free_count < cf_queue cf * 512
      then (case release_node cf s o1 of
              Some (s1, o2) \<Rightarrow> (s1, o2\<lparr>orch_pc := ORelease (a - 1) free_count\<rparr>)
            | None \<Rightarrow> (s, o1\<lparr>orch_pc := OCheck\<rparr>))
      else (s, o1\<lparr>orch_pc := OCheck\<rparr>))"

definition orch_check :: "pc1_cfg \<Rightarrow> system_buffers_t \<Rightarrow> orchestrator_t \<Rightarrow> (system_buffers_t \<times> orchestrator_t) result" where
  "orch_check cf s o1 =
     (let o2 = o1\<lparr>loop_node := next_node o1, orch_pc := OTop\<rparr>
      in if size_sub (node_of o1) (tail_node o1) \<ge> ring_nodes cf then Inl ExitFailure else Inr (s, o2))"

definition orch_step :: "pc1_cfg \<Rightarrow> system_buffers_t \<Rightarrow> orchestrator_t \<Rightarrow> (system_buffers_t \<times> orchestrator_t) result" where
  "orch_step cf s o1 = (case orch_pc o1 of
     OTop \<Rightarrow> orch_top s o1
   | OMin i \<Rightarrow> orch_min i s o1
   | ORead \<Rightarrow> orch_read cf s o1
   | ONodes \<Rightarrow> orch_nodes cf s o1
   | OWrites a \<Rightarrow> orch_writes cf a s o1
   | OParents a \<Rightarrow> Inr (orch_parents cf a s o1)
   | OWritten a \<Rightarrow> orch_written cf a s o1
   | ORelease a f \<Rightarrow> Inr (orch_release cf a f s o1)
   | OCheck \<Rightarrow> orch_check cf s o1
   | ODone \<Rightarrow> Inr (s, o1))"

end
