(* ===== verification/PC1_Coordinator.thy ===== *)
theory PC1_Coordinator
  imports PC1_System
begin

unbundle bit_operations_syntax

text \<open>
  The coordinators of PC1 and their hashing threads (\<open>src/pc1/coordinator_t.hpp\<close>).
  A coordinator follows the parent buffer: for every node whose parents are
  valid it copies them into a local ring of \<open>COORD_BATCH_COUNT\<close> batches, or
  passes the pointer on for near parents, and hands full batches to its hashing
  threads, each of which labels two sectors.  A batch is taken back when all
  threads have counted themselves in \<open>coord_done_count\<close>.

  One step of a coordinator copies the parents of one node, or recovers a
  batch; one step of a thread hashes one node.  The \<open>coord_ready_mtx\<close> mutexes
  only keep a waiting thread from spinning and are left out: the thread tests
  \<open>coord_next_valid\<close> in any case.  The assembly routine \<open>sha_ext_mbx2\<close>
  works on two independent messages; its effect on one of them is the argument
  \<open>sha\<close> (the replica id buffer of the lane, the data blocks, the number of SHA
  blocks and the repeat count).
\<close>

record replica_id_buffer_t =
  ids :: "label_t list"
  cur_loc :: "label_t list"
  pad_0 :: "label_t list"
  pad_1 :: "label_t list"
  padding :: "label_t list"

record hasher_t =
  th_node :: nat
  th_coord_idx :: nat
  th_node_idx :: nat
  th_valid_nodes :: nat
  th_i :: nat
  th_offset_id :: nat
  th_replica :: replica_id_buffer_t

datatype coord_pc = CRun | CRecover | CDrain | CDone

record coordinator_t =
  co_pc :: coord_pc
  start_sector :: nat
  co_node :: nat
  completed_node :: nat
  co_idx :: nat
  co_node_idx :: nat
  node_update_batch_count :: nat
  co_cur_valid :: bool
  co_done :: bool
  coord_batch_count :: nat
  coord_batch_idx :: nat
  coord_ring :: "nat ring_buffer_t"
  coord_ring_storage :: "nat \<Rightarrow> nat \<Rightarrow> nat \<Rightarrow> label_t"
  coord_ring_ptrs :: "nat \<Rightarrow> nat \<Rightarrow> parent_ptr_t"
  coord_done_count :: "nat list"
  coord_next_valid :: nat
  threads :: "hasher_t list"

type_synonym sha_fun = "label_t list \<Rightarrow> label_t list \<Rightarrow> nat \<Rightarrow> nat \<Rightarrow> label_t"

definition NODE_0_REPEAT :: nat where "NODE_0_REPEAT = 1"
definition NODE_0_BLOCKS :: nat where "NODE_0_BLOCKS = 2"
definition LAYER_1_REPEAT :: nat where "LAYER_1_REPEAT = 3"
definition LAYERS_GT_1_REPEAT :: nat where "LAYERS_GT_1_REPEAT = 7"
definition NODE_GT_0_BLOCKS :: nat where "NODE_GT_0_BLOCKS = 20"
definition NODE_COUNT_UPDATE_INTERVAL :: nat where "NODE_COUNT_UPDATE_INTERVAL = 4"


section \<open>The hashing threads\<close>

definition hasher_new :: "nat \<Rightarrow> nat \<Rightarrow> replica_id_buffer_t \<Rightarrow> hasher_t" where
  "hasher_new start sector rid =
     \<lparr>th_node = start, th_coord_idx = 0, th_node_idx = 0, th_valid_nodes = 0, th_i = 0,
      th_offset_id = sector, th_replica = rid\<rparr>"

definition set_cur_loc :: "32 word \<Rightarrow> 32 word \<Rightarrow> replica_id_buffer_t \<Rightarrow> replica_id_buffer_t" where
  "set_cur_loc layer node rid = rid\<lparr>cur_loc := map (\<lambda>ws. ws[0 := layer, 2 := node]) (cur_loc rid)\<rparr>"

definition replica_lane :: "replica_id_buffer_t \<Rightarrow> nat \<Rightarrow> label_t list" where
  "replica_lane rid l = [ids rid ! l, cur_loc rid ! l, pad_0 rid ! l, pad_1 rid ! l, padding rid ! l]"

definition hash_repeat :: "32 word \<Rightarrow> 32 word \<Rightarrow> nat" where
  "hash_repeat node cur_layer =
     (if node = 0 then NODE_0_REPEAT else if cur_layer = 1 then LAYER_1_REPEAT else LAYERS_GT_1_REPEAT)"

definition hash_node :: "sha_fun \<Rightarrow> nat \<Rightarrow> node_id_t \<Rightarrow> (nat \<Rightarrow> label_t list) \<Rightarrow> replica_id_buffer_t \<Rightarrow>
    nat \<Rightarrow> label_t" where
  "hash_node sha nbits node parents rid l =
     (let cur_layer = node_id_layer nbits node + 1;
          n = node_id_node nbits node;
          rid' = set_cur_loc cur_layer n rid
      in if n = 0 then sha (replica_lane rid' l) [pad_0 rid' ! l, pad_1 rid' ! l] NODE_0_BLOCKS NODE_0_REPEAT
         else sha (replica_lane rid' l) (parents l) NODE_GT_0_BLOCKS (hash_repeat n cur_layer))"

definition hash_parents :: "system_buffers_t \<Rightarrow> (nat \<Rightarrow> nat \<Rightarrow> label_t) \<Rightarrow> (nat \<Rightarrow> parent_ptr_t) \<Rightarrow> nat \<Rightarrow> nat \<Rightarrow>
    nat \<Rightarrow> label_t list" where
  "hash_parents s parent_nodes local_ptrs offset_id thread_id l =
     map (\<lambda>i. if local_ptrs i \<noteq> NullPtr then read_ptr s (local_ptrs i) (offset_id + l)
              else parent_nodes i (thread_id * NODES_PER_HASHER + l)) [0..<PARENT_COUNT]"

definition hash_store :: "nat \<Rightarrow> nat \<Rightarrow> nat \<Rightarrow> (nat \<Rightarrow> label_t) \<Rightarrow> system_buffers_t \<Rightarrow> system_buffers_t" where
  "hash_store e k offset_id out s =
     s\<lparr>node_buffer_store := (node_buffer_store s)(e := (node_buffer_store s e)(k :=
         (node_buffer_store s e k)(offset_id := out 0, offset_id + 1 := out 1)))\<rparr>"

definition hash :: "sha_fun \<Rightarrow> pc1_cfg \<Rightarrow> coordinator_t \<Rightarrow> nat \<Rightarrow> hasher_t \<Rightarrow> nat \<Rightarrow> system_buffers_t \<Rightarrow>
    system_buffers_t \<times> hasher_t" where
  "hash sha cf c thread_id th e s =
     (let node = word_of_nat (th_node th) :: node_id_t;
          k = unat (node_id_node (cf_bits cf) node) mod cf_npp cf;
          base = th_i th * PARENT_COUNT;
          parents = hash_parents s (\<lambda>i. coord_ring_storage c (th_coord_idx th) (base + i))
            (\<lambda>i. coord_ring_ptrs c (th_coord_idx th) (base + i)) (th_offset_id th) thread_id;
          out = hash_node sha (cf_bits cf) node parents (th_replica th);
          rid = set_cur_loc (node_id_layer (cf_bits cf) node + 1) (node_id_node (cf_bits cf) node) (th_replica th)
      in (hash_store e k (th_offset_id th) out s, th\<lparr>th_replica := rid\<rparr>))"

definition hasher_next :: "pc1_cfg \<Rightarrow> hasher_t \<Rightarrow> hasher_t" where
  "hasher_next cf th =
     (let n = size_add (th_node th) 1;
          i = th_i th + 1;
          full = (i = cf_batch cf)
      in th\<lparr>th_node := n,
            th_node_idx := if unat (node_id_node (cf_bits cf) (word_of_nat n)) mod cf_npp cf = 0
                           then rb_incr (cf_nodes cf) (th_node_idx th) else th_node_idx th,
            th_i := if full then 0 else i,
            th_coord_idx := if full then rb_incr (cf_batches cf) (th_coord_idx th) else th_coord_idx th\<rparr>)"

definition run_thread_hash :: "sha_fun \<Rightarrow> pc1_cfg \<Rightarrow> nat \<Rightarrow> hasher_t \<Rightarrow> system_buffers_t \<Rightarrow> coordinator_t \<Rightarrow>
    (system_buffers_t \<times> coordinator_t) result" where
  "run_thread_hash sha cf t th s c =
     (case get_entry (node_buffer s) (th_node_idx th) of
        None \<Rightarrow> Inl NullDeref
      | Some e \<Rightarrow>
          let (s1, th1) = hash sha cf c t th e s;
              th2 = hasher_next cf th1;
              c1 = c\<lparr>threads := (threads c)[t := th2]\<rparr>
          in if th_i th + 1 = cf_batch cf then
               bind_result (vec_get (coord_done_count c1) (th_coord_idx th)) (\<lambda>d.
               Inr (s1, c1\<lparr>coord_done_count := (coord_done_count c1)[th_coord_idx th := d + 1]\<rparr>))
             else Inr (s1, c1))"

definition thread_step :: "sha_fun \<Rightarrow> pc1_cfg \<Rightarrow> nat \<Rightarrow> nat \<Rightarrow> system_buffers_t \<Rightarrow> coordinator_t \<Rightarrow>
    (system_buffers_t \<times> coordinator_t) result" where
  "thread_step sha cf stop t s c =
     bind_result (vec_get (threads c) t) (\<lambda>th.
     if th_i th > 0 \<or> th_node th < th_valid_nodes th then run_thread_hash sha cf t th s c
     else if th_node th < stop \<and> th_node th < coord_next_valid c then
       Inr (s, c\<lparr>threads := (threads c)[t := th\<lparr>th_valid_nodes := coord_next_valid c\<rparr>]\<rparr>)
     else Inr (s, c))"


section \<open>The coordinator\<close>

definition coordinator_new :: "pc1_cfg \<Rightarrow> nat \<Rightarrow> nat \<Rightarrow> replica_id_buffer_t list \<Rightarrow>
    (nat \<Rightarrow> nat \<Rightarrow> nat \<Rightarrow> label_t) \<Rightarrow> (nat \<Rightarrow> nat \<Rightarrow> parent_ptr_t) \<Rightarrow> coordinator_t result" where
  "coordinator_new cf start sector rids storage ptrs =
     bind_result (reserve (cf_batches cf) (rb_create (cf_batches cf) (Some (\<lambda>i. i)) rb_new)) (\<lambda>(r, ring).
     case r of
       None \<Rightarrow> Inl NullDeref
     | Some (b, _) \<Rightarrow>
         Inr \<lparr>co_pc = CRun, start_sector = sector, co_node = start, completed_node = start,
           co_idx = 0, co_node_idx = 0, node_update_batch_count = 0, co_cur_valid = False, co_done = False,
           coord_batch_count = 0, coord_batch_idx = b, coord_ring = ring,
           coord_ring_storage = storage, coord_ring_ptrs = ptrs,
           coord_done_count = replicate (cf_batches cf) 0, coord_next_valid = start,
           threads = map (\<lambda>(i, rid). hasher_new start (sector + i * NODES_PER_HASHER) rid)
             (enumerate 0 rids)\<rparr>)"

definition copy_parent :: "system_buffers_t \<Rightarrow> nat \<Rightarrow> coordinator_t \<Rightarrow> coordinator_t" where
  "copy_parent s j c =
     (let b = coord_batch_idx c;
          e = coord_batch_count c * PARENT_COUNT + j;
          src = parent_ptrs s (co_idx c) j;
          set_ptr = (\<lambda>p c. c\<lparr>coord_ring_ptrs := (coord_ring_ptrs c)(b := (coord_ring_ptrs c b)(e := p))\<rparr>)
      in if src = NullPtr then set_ptr NullPtr c
         else if parent_ptr_syncs s (co_idx c) j = LOCAL_NODE then set_ptr src c
         else set_ptr NullPtr
           (c\<lparr>coord_ring_storage := (coord_ring_storage c)(b := (coord_ring_storage c b)(e :=
                (\<lambda>k. if k < length (threads c) * NODES_PER_HASHER then read_ptr s src (start_sector c + k)
                     else coord_ring_storage c b e k)))\<rparr>))"

definition coord_advance :: "pc1_cfg \<Rightarrow> nat \<Rightarrow> system_buffers_t \<Rightarrow> coordinator_t \<Rightarrow>
    (system_buffers_t \<times> coordinator_t) result" where
  "coord_advance cf cid s c =
     (let n = size_add (co_node c) 1;
          c1 = c\<lparr>co_node := n, co_idx := rb_incr (cf_parents cf) (co_idx c),
                 co_node_idx := if unat (node_id_node (cf_bits cf) (word_of_nat n)) mod cf_npp cf = 0
                                then rb_incr (cf_nodes cf) (co_node_idx c) else co_node_idx c,
                 co_pc := CRun\<rparr>
      in if node_update_batch_count c1 = NODE_COUNT_UPDATE_INTERVAL then
           bind_result (vec_set (coordinator_node s) cid (completed_node c1)) (\<lambda>cn.
           Inr (s\<lparr>coordinator_node := cn\<rparr>, c1\<lparr>node_update_batch_count := 0\<rparr>))
         else Inr (s, c1))"

definition coord_copy :: "pc1_cfg \<Rightarrow> nat \<Rightarrow> nat \<Rightarrow> system_buffers_t \<Rightarrow> coordinator_t \<Rightarrow>
    (system_buffers_t \<times> coordinator_t) result" where
  "coord_copy cf stop cid s c =
     bind_result (is_valid PAGE_BATCH_SIZE (rb_incr (cf_parents cf) (co_idx c)) (parent_buffer s)) (\<lambda>v.
     let c1 = fold (copy_parent s) [0..<PARENT_COUNT]
           (c\<lparr>co_cur_valid := v, co_done := (size_add (co_node c) 1 = stop)\<rparr>);
         c2 = c1\<lparr>coord_batch_count := coord_batch_count c1 + 1\<rparr>
     in if coord_batch_count c2 = cf_batch cf
        then Inr (s, c2\<lparr>coord_next_valid := size_add (coord_next_valid c2) (cf_batch cf), co_pc := CRecover\<rparr>)
        else coord_advance cf cid s c2)"

definition coord_reserve :: "pc1_cfg \<Rightarrow> nat \<Rightarrow> system_buffers_t \<Rightarrow> coordinator_t \<Rightarrow>
    (system_buffers_t \<times> coordinator_t) result" where
  "coord_reserve cf cid s c =
     bind_result (reserve (cf_batches cf) (coord_ring c)) (\<lambda>(r, ring).
     case r of
       None \<Rightarrow> Inl AssertFail
     | Some (b, _) \<Rightarrow>
         coord_advance cf cid s
           (c\<lparr>coord_ring := ring, coord_batch_idx := b, coord_batch_count := 0,
              node_update_batch_count := node_update_batch_count c + 1\<rparr>))"

definition take_back :: "pc1_cfg \<Rightarrow> coordinator_t \<Rightarrow> coordinator_t" where
  "take_back cf c =
     c\<lparr>coord_done_count := (coord_done_count c)[rb_tail (coord_ring c) := 0],
       coord_ring := release (cf_batches cf) (coord_ring c),
       completed_node := size_add (completed_node c) (cf_batch cf)\<rparr>"

definition coord_recover :: "pc1_cfg \<Rightarrow> nat \<Rightarrow> system_buffers_t \<Rightarrow> coordinator_t \<Rightarrow>
    (system_buffers_t \<times> coordinator_t) result" where
  "coord_recover cf cid s c =
     (if rb_is_full (cf_batches cf) (coord_ring c) then
        bind_result (vec_get (coord_done_count c) (rb_tail (coord_ring c))) (\<lambda>d.
        if d = length (threads c) then coord_reserve cf cid s (take_back cf c) else Inr (s, c))
      else coord_reserve cf cid s c)"

definition coord_drain :: "pc1_cfg \<Rightarrow> nat \<Rightarrow> nat \<Rightarrow> system_buffers_t \<Rightarrow> coordinator_t \<Rightarrow>
    (system_buffers_t \<times> coordinator_t) result" where
  "coord_drain cf stop cid s c =
     (if completed_node c < stop then
        bind_result (assert_that (cur_size (coord_ring c) > 0)) (\<lambda>_.
        bind_result (vec_get (coord_done_count c) (rb_tail (coord_ring c))) (\<lambda>d.
        if d < length (threads c) then Inr (s, c) else Inr (s, take_back cf c)))
      else
        bind_result (vec_set (coordinator_node s) cid (completed_node c)) (\<lambda>cn.
        Inr (s\<lparr>coordinator_node := cn\<rparr>, c\<lparr>co_pc := CDone\<rparr>)))"

definition coord_step :: "pc1_cfg \<Rightarrow> nat \<Rightarrow> nat \<Rightarrow> system_buffers_t \<Rightarrow> coordinator_t \<Rightarrow>
    (system_buffers_t \<times> coordinator_t) result" where
  "coord_step cf stop cid s c = (case co_pc c of
     CRun \<Rightarrow>
       if \<not> co_done c \<and> co_cur_valid c then coord_copy cf stop cid s c
       else if co_node c < stop then
         bind_result (is_valid PAGE_BATCH_SIZE (co_idx c) (parent_buffer s)) (\<lambda>v.
         Inr (s, c\<lparr>co_done := False, co_cur_valid := v\<rparr>))
       else Inr (s, c\<lparr>co_pc := CDrain\<rparr>)
   | CRecover \<Rightarrow> coord_recover cf cid s c
   | CDrain \<Rightarrow> coord_drain cf stop cid s c
   | CDone \<Rightarrow> Inr (s, c))"

end
