(* ===== verification/PC1_Run.thy ===== *)
theory PC1_Run
  imports PC1_Orchestrator PC1_Coordinator
begin

unbundle bit_operations_syntax

text \<open>
  PC1 as a whole (\<open>do_pc1\<close>, \<open>src/pc1/pc1.cpp\<close>): the buffers, the disks, the
  reader, the writer, the orchestrator, the coordinators and their hashing
  threads.  \<open>do_pc1_init\<close> is the state after the set-up; \<open>pc1_act\<close> is one step of
  one thread (or of the disks), \<open>None\<close> when it is not enabled; a run is any
  interleaving of such steps.
\<close>

record pc1_state =
  st_sys :: system_buffers_t
  st_disk :: disk_t
  st_reader :: node_rw_t
  st_writer :: node_rw_t
  st_orch :: orchestrator_t
  st_coords :: "coordinator_t list"

definition htonl :: "32 word \<Rightarrow> 32 word" where
  "htonl w = push_bit 24 (w AND 0xFF) OR push_bit 8 (w AND 0xFF00) OR
     (drop_bit 8 w AND 0xFF00) OR (drop_bit 24 w AND 0xFF)"

definition zero_words :: label_t where
  "zero_words = replicate NODE_WORDS 0"

definition replica_id_buf :: "32 word list \<Rightarrow> nat \<Rightarrow> replica_id_buffer_t result" where
  "replica_id_buf replica_ids i =
     bind_result
       (map_result (\<lambda>j. map_result (\<lambda>k.
          bind_result (vec_get replica_ids (i * NODES_PER_HASHER * NODE_WORDS + j * NODE_WORDS + k)) (\<lambda>w.
          Inr (htonl w))) [0..<NODE_WORDS]) [0..<NODES_PER_HASHER])
       (\<lambda>rids. Inr
         \<lparr>ids = rids,
          cur_loc = replicate NODES_PER_HASHER zero_words,
          pad_0 = replicate NODES_PER_HASHER (zero_words[0 := 0x80000000]),
          pad_1 = replicate NODES_PER_HASHER (zero_words[7 := 0x00000200]),
          padding = replicate NODES_PER_HASHER (zero_words[0 := 0x80000000, 7 := 0x00002700])\<rparr>)"

definition replica_id_bufs :: "32 word list \<Rightarrow> nat \<Rightarrow> replica_id_buffer_t list result" where
  "replica_id_bufs replica_ids num_hashers = map_result (replica_id_buf replica_ids) [0..<num_hashers]"

fun spawn_coordinators :: "pc1_cfg \<Rightarrow> nat \<Rightarrow> nat list \<Rightarrow> nat \<Rightarrow> nat \<Rightarrow> replica_id_buffer_t list \<Rightarrow>
    (nat \<Rightarrow> nat \<Rightarrow> nat \<Rightarrow> label_t) \<Rightarrow> (nat \<Rightarrow> nat \<Rightarrow> parent_ptr_t) \<Rightarrow> coordinator_t list result" where
  "spawn_coordinators cf start [] sector hasher_count bufs storage ptrs = Inr []"
| "spawn_coordinators cf start (h # hs) sector hasher_count bufs storage ptrs =
     bind_result (map_result (\<lambda>i. vec_get bufs (hasher_count + i)) [0..<h]) (\<lambda>rids.
     bind_result (coordinator_new cf start sector rids storage ptrs) (\<lambda>c.
     bind_result (spawn_coordinators cf start hs (sector + h * NODES_PER_HASHER) (hasher_count + h) bufs storage ptrs)
       (\<lambda>cs. Inr (c # cs))))"

definition node_total :: "pc1_cfg \<Rightarrow> nat" where
  "node_total cf = 2 ^ cf_bits cf * cf_layers cf"

definition do_pc1_init :: "pc1_cfg \<Rightarrow> 32 word list \<Rightarrow> 32 word list option \<Rightarrow> system_buffers_t \<Rightarrow>
    (nat \<Rightarrow> nat \<Rightarrow> nat \<Rightarrow> label_t) \<Rightarrow> (nat \<Rightarrow> nat \<Rightarrow> parent_ptr_t) \<Rightarrow> disk_t \<Rightarrow> pc1_state result" where
  "do_pc1_init cf replica_ids parents_file raw storage ptrs d =
     bind_result (orchestrator_new cf 0 (node_total cf) parents_file) (\<lambda>o1.
     bind_result (replica_id_bufs replica_ids (sum_list (cf_hashers cf))) (\<lambda>bufs.
     bind_result (spawn_coordinators cf 0 (cf_hashers cf) 0 0 bufs storage ptrs) (\<lambda>cs.
     Inr \<lparr>st_sys = system_init cf raw, st_disk = d, st_reader = node_rw_new, st_writer = node_rw_new,
          st_orch = o1, st_coords = cs\<rparr>)))"


section \<open>Steps\<close>

datatype pc1_action =
    Orch
  | Coord nat
  | Thread nat nat
  | ReaderBegin
  | ReaderBatch
  | ReaderTransfer nat
  | ReaderComplete nat
  | WriterBegin
  | WriterBatch
  | WriterTransfer nat
  | WriterComplete nat

definition act_orch :: "pc1_cfg \<Rightarrow> pc1_state \<Rightarrow> pc1_state result option" where
  "act_orch cf st =
     (if orch_pc (st_orch st) = ODone then None
      else Some (bind_result (orch_step cf (st_sys st) (st_orch st)) (\<lambda>(s, o1).
             Inr (st\<lparr>st_sys := s, st_orch := o1\<rparr>))))"

definition act_coord :: "pc1_cfg \<Rightarrow> nat \<Rightarrow> pc1_state \<Rightarrow> pc1_state result option" where
  "act_coord cf i st =
     (if i < length (st_coords st) then
        Some (bind_result (coord_step cf (node_total cf) i (st_sys st) (st_coords st ! i)) (\<lambda>(s, c).
          Inr (st\<lparr>st_sys := s, st_coords := (st_coords st)[i := c]\<rparr>)))
      else None)"

definition act_thread :: "sha_fun \<Rightarrow> pc1_cfg \<Rightarrow> nat \<Rightarrow> nat \<Rightarrow> pc1_state \<Rightarrow> pc1_state result option" where
  "act_thread sha cf i t st =
     (if i < length (st_coords st) \<and> t < length (threads (st_coords st ! i)) then
        Some (bind_result (thread_step sha cf (node_total cf) t (st_sys st) (st_coords st ! i)) (\<lambda>(s, c).
          Inr (st\<lparr>st_sys := s, st_coords := (st_coords st)[i := c]\<rparr>)))
      else None)"

definition act_reader_batch :: "pc1_cfg \<Rightarrow> pc1_state \<Rightarrow> pc1_state result option" where
  "act_reader_batch cf st =
     (if rw_todo (st_reader st) > 0 then
        Some (bind_result (rw_batch cf PAGE_BATCH_SIZE (parent_buffer_io (st_sys st))
            (parent_read_fifo (st_sys st)) (st_reader st)) (\<lambda>(q, rw).
          Inr (st\<lparr>st_sys := (st_sys st)\<lparr>parent_read_fifo := q\<rparr>, st_reader := rw\<rparr>)))
      else None)"

definition act_writer_batch :: "pc1_cfg \<Rightarrow> pc1_state \<Rightarrow> pc1_state result option" where
  "act_writer_batch cf st =
     (if rw_todo (st_writer st) > 0 then
        Some (bind_result (rw_batch cf 1 (node_buffer_io (st_sys st))
            (node_write_fifo (st_sys st)) (st_writer st)) (\<lambda>(q, rw).
          Inr (st\<lparr>st_sys := (st_sys st)\<lparr>node_write_fifo := q\<rparr>, st_writer := rw\<rparr>)))
      else None)"

definition act_reader_transfer :: "nat \<Rightarrow> pc1_state \<Rightarrow> pc1_state result option" where
  "act_reader_transfer k st =
     (if k < length (rw_inflight (st_reader st)) \<and> \<not> rq_done (rw_inflight (st_reader st) ! k) then
        let (s, d) = parent_transfer (rw_inflight (st_reader st) ! k) (st_sys st) (st_disk st)
        in Some (Inr (st\<lparr>st_sys := s, st_disk := d, st_reader := set_done k (st_reader st)\<rparr>))
      else None)"

definition act_writer_transfer :: "nat \<Rightarrow> pc1_state \<Rightarrow> pc1_state result option" where
  "act_writer_transfer k st =
     (if k < length (rw_inflight (st_writer st)) \<and> \<not> rq_done (rw_inflight (st_writer st) ! k) then
        let (s, d) = node_transfer (rw_inflight (st_writer st) ! k) (st_sys st) (st_disk st)
        in Some (Inr (st\<lparr>st_sys := s, st_disk := d, st_writer := set_done k (st_writer st)\<rparr>))
      else None)"

definition act_reader_complete :: "nat \<Rightarrow> pc1_state \<Rightarrow> pc1_state result option" where
  "act_reader_complete k st =
     (if rw_todo (st_reader st) = 0 \<and> k < length (rw_inflight (st_reader st)) \<and>
         rq_done (rw_inflight (st_reader st) ! k) then
        let r = rw_inflight (st_reader st) ! k; s = st_sys st
        in Some (bind_result (completion_cb (parent_buffer_io s (rq_slot r) (rq_j r)) (parent_buffer s)) (\<lambda>b.
             Inr (st\<lparr>st_sys := s\<lparr>parent_buffer := b\<rparr>, st_reader := drop_request k (st_reader st)\<rparr>)))
      else None)"

definition act_writer_complete :: "nat \<Rightarrow> pc1_state \<Rightarrow> pc1_state result option" where
  "act_writer_complete k st =
     (if rw_todo (st_writer st) = 0 \<and> k < length (rw_inflight (st_writer st)) \<and>
         rq_done (rw_inflight (st_writer st) ! k) then
        let r = rw_inflight (st_writer st) ! k; s = st_sys st
        in Some (bind_result (completion_cb (node_buffer_io s (rq_slot r) (rq_j r)) (node_buffer s)) (\<lambda>b.
             Inr (st\<lparr>st_sys := s\<lparr>node_buffer := b\<rparr>, st_writer := drop_request k (st_writer st)\<rparr>)))
      else None)"

definition pc1_act :: "sha_fun \<Rightarrow> pc1_cfg \<Rightarrow> pc1_action \<Rightarrow> pc1_state \<Rightarrow> pc1_state result option" where
  "pc1_act sha cf a st = (case a of
     Orch \<Rightarrow> act_orch cf st
   | Coord i \<Rightarrow> act_coord cf i st
   | Thread i t \<Rightarrow> act_thread sha cf i t st
   | ReaderBegin \<Rightarrow>
       if rw_todo (st_reader st) = 0
       then Some (Inr (st\<lparr>st_reader := rw_begin cf PAGE_BATCH_SIZE (parent_read_fifo (st_sys st)) (st_reader st)\<rparr>))
       else None
   | ReaderBatch \<Rightarrow> act_reader_batch cf st
   | ReaderTransfer k \<Rightarrow> act_reader_transfer k st
   | ReaderComplete k \<Rightarrow> act_reader_complete k st
   | WriterBegin \<Rightarrow>
       if rw_todo (st_writer st) = 0
       then Some (Inr (st\<lparr>st_writer := rw_begin cf 1 (node_write_fifo (st_sys st)) (st_writer st)\<rparr>))
       else None
   | WriterBatch \<Rightarrow> act_writer_batch cf st
   | WriterTransfer k \<Rightarrow> act_writer_transfer k st
   | WriterComplete k \<Rightarrow> act_writer_complete k st)"

fun pc1_exec :: "sha_fun \<Rightarrow> pc1_cfg \<Rightarrow> pc1_action list \<Rightarrow> pc1_state \<Rightarrow> pc1_state result option" where
  "pc1_exec sha cf [] st = Some (Inr st)"
| "pc1_exec sha cf (a # as) st = (case pc1_act sha cf a st of
     None \<Rightarrow> None
   | Some (Inl e) \<Rightarrow> Some (Inl e)
   | Some (Inr st') \<Rightarrow> pc1_exec sha cf as st')"

end
