(* ===== verification/PC1_Ring.thy ===== *)
theory PC1_Ring
  imports PC1_Run
begin

text \<open>
  The ring buffers of PC1 seen with absolute positions: \<open>ring_at cnt rb lo hi\<close>
  says that the reserved entries of \<open>rb\<close> are those of the positions from \<open>lo\<close>
  to \<open>hi\<close>, position \<open>n\<close> in slot \<open>n mod cnt\<close>.  The lemmas give the effect of
  every operation on the positions and on the valid counters.  The last section
  has the fifo of slot numbers and the arithmetic of pages.
\<close>

definition ring_at :: "nat \<Rightarrow> nat ring_buffer_t \<Rightarrow> nat \<Rightarrow> nat \<Rightarrow> bool" where
  "ring_at cnt rb lo hi \<longleftrightarrow>
     rb_inv cnt rb \<and> lo \<le> hi \<and> hi < lo + cnt \<and> rb_tail rb = lo mod cnt \<and> rb_head rb = hi mod cnt \<and>
     cur_size rb = hi - lo \<and> entries rb = Some (\<lambda>i. i)"

lemma slot_inj:
  assumes "a mod c = b mod (c :: nat)" "a < b + c" "b < a + c"
  shows "a = b"
proof (rule ccontr)
  assume ne: "a \<noteq> b"
  have "c dvd (if a < b then b - a else a - b)"
    using assms(1) by (metis dvd_refl mod_eq_dvd_iff_nat nat_le_linear not_less_iff_gr_or_eq order_less_imp_le)
  moreover have "0 < (if a < b then b - a else a - b)" "(if a < b then b - a else a - b) < c"
    using ne assms(2,3) by auto
  ultimately show False using nat_dvd_not_less by blast
qed

lemma ring_atD:
  assumes "ring_at cnt rb lo hi"
  shows "rb_inv cnt rb" "lo \<le> hi" "hi < lo + cnt" "rb_tail rb = lo mod cnt" "rb_head rb = hi mod cnt"
    "cur_size rb = hi - lo" "entries rb = Some (\<lambda>i. i)" "length (valid rb) = cnt" "2 \<le> cnt" "cnt < 2 ^ 31"
    "valid rb ! (hi mod cnt) = 0"
  using assms by (auto simp: ring_at_def rb_inv_def)

lemma rb_incr_mod: "2 \<le> cnt \<Longrightarrow> cnt < 2 ^ 31 \<Longrightarrow> rb_incr cnt (n mod cnt) = Suc n mod cnt"
  by (simp add: rb_incr_next ring_next_mod mod_Suc_eq)

lemma ring_at_get_entry: "ring_at cnt rb lo hi \<Longrightarrow> get_entry rb i = Some i"
  by (simp add: ring_at_def get_entry_def)

lemma ring_at_create:
  assumes "2 \<le> cnt" "cnt < 2 ^ 31"
  shows "ring_at cnt (rb_create cnt (Some (\<lambda>i. i)) rb_new) 0 0"
  using rb_create_inv [OF assms, of "Some (\<lambda>i. i)"] assms by (simp add: ring_at_def rb_create_def rb_new_def)

lemma ring_at_free_count: "ring_at cnt rb lo hi \<Longrightarrow> rb_free_count cnt rb = cnt - 1 - (hi - lo)"
  by (simp add: ring_at_def rb_free_count_eq)

lemma ring_at_full: "ring_at cnt rb lo hi \<Longrightarrow> rb_is_full cnt rb \<longleftrightarrow> hi + 1 = lo + cnt"
  using ring_atD [of cnt rb lo hi] by (auto simp: rb_is_full_def rb_capacity_eq)

lemma ring_at_reserve_nocheck:
  assumes "ring_at cnt rb lo hi" "Suc hi < lo + cnt"
  shows "\<exists>rb'. reserve_nocheck cnt rb = Inr ((hi mod cnt, Some (hi mod cnt)), rb') \<and>
    ring_at cnt rb' lo (Suc hi) \<and> valid rb' = (valid rb)[Suc hi mod cnt := 0]"
proof -
  note d = ring_atD [OF assms(1)]
  have "cur_size rb < cnt - 1" using assms(2) d by simp
  from reserve_nocheck_spec [OF d(1) this] obtain rb' where r:
    "reserve_nocheck cnt rb = Inr ((rb_head rb, get_entry rb (rb_head rb)), rb')" "rb_inv cnt rb'"
    "cur_size rb' = Suc (cur_size rb)" "entries rb' = entries rb" "valid rb' = (valid rb)[rb_head rb' := 0]"
    by auto
  have h: "rb_head rb' = Suc hi mod cnt" and t: "rb_tail rb' = rb_tail rb"
    using r(1) d rb_incr_mod [OF d(9,10), of hi]
    by (auto simp: reserve_nocheck_def Let_def bind_result_Inr_iff)
  show ?thesis
    using r h t d assms(2) by (simp add: ring_at_def get_entry_def)
qed

lemma ring_at_reserve:
  assumes "ring_at cnt rb lo hi" "Suc hi < lo + cnt"
  shows "\<exists>rb'. reserve cnt rb = Inr (Some (hi mod cnt, Some (hi mod cnt)), rb') \<and>
    ring_at cnt rb' lo (Suc hi) \<and> valid rb' = (valid rb)[Suc hi mod cnt := 0]"
  using ring_at_reserve_nocheck [OF assms] ring_at_full [OF assms(1)] assms(2)
  by (auto simp: reserve_eq_nocheck)

lemma ring_at_reserve_times:
  assumes "ring_at cnt rb lo hi" "hi + n < lo + cnt"
  shows "\<exists>rb'. reserve_times cnt n rb = Inr (map (\<lambda>k. Some ((hi + k) mod cnt)) [0..<n], rb') \<and>
    ring_at cnt rb' lo (hi + n) \<and>
    (\<forall>m. lo \<le> m \<and> m \<le> hi \<longrightarrow> valid rb' ! (m mod cnt) = valid rb ! (m mod cnt)) \<and>
    (\<forall>m. hi < m \<and> m \<le> hi + n \<longrightarrow> valid rb' ! (m mod cnt) = 0)"
  using assms
proof (induction n arbitrary: rb hi)
  case 0
  then show ?case by (intro exI [of _ rb]) auto
next
  case (Suc n)
  have "Suc hi < lo + cnt" using Suc.prems(2) by simp
  from ring_at_reserve_nocheck [OF Suc.prems(1) this] obtain rb1 where r:
    "reserve_nocheck cnt rb = Inr ((hi mod cnt, Some (hi mod cnt)), rb1)"
    "ring_at cnt rb1 lo (Suc hi)" "valid rb1 = (valid rb)[Suc hi mod cnt := 0]" by auto
  have "Suc hi + n < lo + cnt" using Suc.prems(2) by simp
  from Suc.IH [OF r(2) this] obtain rb2 where t:
    "reserve_times cnt n rb1 = Inr (map (\<lambda>k. Some ((Suc hi + k) mod cnt)) [0..<n], rb2)"
    "ring_at cnt rb2 lo (Suc hi + n)"
    "\<forall>m. lo \<le> m \<and> m \<le> Suc hi \<longrightarrow> valid rb2 ! (m mod cnt) = valid rb1 ! (m mod cnt)"
    "\<forall>m. Suc hi < m \<and> m \<le> Suc hi + n \<longrightarrow> valid rb2 ! (m mod cnt) = 0" by auto
  note d = ring_atD [OF Suc.prems(1)]
  have old: "valid rb2 ! (m mod cnt) = valid rb ! (m mod cnt)" if "lo \<le> m" "m \<le> hi" for m
  proof -
    have "Suc hi mod cnt \<noteq> m mod cnt" using slot_inj [of "Suc hi" cnt m] that Suc.prems(2) by auto
    then show ?thesis using t(3) r(3) that by (simp add: nth_list_update_neq)
  qed
  have "valid rb2 ! (Suc hi mod cnt) = 0"
  proof -
    have "Suc hi mod cnt < length (valid rb)" using d(8,9) by simp
    then have "valid rb1 ! (Suc hi mod cnt) = 0" unfolding r(3) by (rule nth_list_update_eq)
    moreover have "valid rb2 ! (Suc hi mod cnt) = valid rb1 ! (Suc hi mod cnt)"
      using t(3) d(2) by simp
    ultimately show ?thesis by simp
  qed
  then have new: "valid rb2 ! (m mod cnt) = 0" if "hi < m" "m \<le> hi + Suc n" for m
    using t(4) that by (cases "m = Suc hi") auto
  have es: "map (\<lambda>k. Some ((hi + k) mod cnt)) [0..<Suc n] =
      Some (hi mod cnt) # map (\<lambda>k. Some ((Suc hi + k) mod cnt)) [0..<n]"
    by (simp del: upt_Suc add: upt_conv_Cons map_Suc_upt [symmetric])
  show ?case
    using r(1) t(1,2) old new by (simp del: upt_Suc add: es)
qed

lemma ring_at_reserve_batch:
  assumes "ring_at cnt rb lo hi" "hi + n < lo + cnt"
  shows "\<exists>rb'. reserve_batch_nocheck cnt n rb =
      Inr ((hi mod cnt, map (\<lambda>k. Some ((hi + k) mod cnt)) [0..<n]), rb') \<and>
    ring_at cnt rb' lo (hi + n) \<and>
    (\<forall>m. lo \<le> m \<and> m \<le> hi \<longrightarrow> valid rb' ! (m mod cnt) = valid rb ! (m mod cnt)) \<and>
    (\<forall>m. hi < m \<and> m \<le> hi + n \<longrightarrow> valid rb' ! (m mod cnt) = 0)"
proof -
  note d = ring_atD [OF assms(1)]
  have "n \<le> rb_free_count cnt rb" using assms(2) d ring_at_free_count [OF assms(1)] by simp
  from reserve_batch_times [OF d(1) this] ring_at_reserve_times [OF assms] d(5)
  show ?thesis by auto
qed

lemma ring_at_release:
  assumes "ring_at cnt rb lo hi" "lo < hi"
  shows "ring_at cnt (release cnt rb) (Suc lo) hi" "valid (release cnt rb) = valid rb"
proof -
  note d = ring_atD [OF assms(1)]
  have s: "0 < cur_size rb" using assms d by simp
  show "ring_at cnt (release cnt rb) (Suc lo) hi"
    using release_spec [OF d(1) s] d assms(2) rb_incr_mod [OF d(9,10), of lo]
    by (simp add: ring_at_def release_def)
  show "valid (release cnt rb) = valid rb" by (simp add: release_def)
qed

lemma ring_at_set_valid:
  assumes "ring_at cnt rb lo hi" "i \<noteq> hi mod cnt"
  shows "ring_at cnt (rb\<lparr>valid := (valid rb)[i := x]\<rparr>) lo hi"
  using assms by (auto simp: ring_at_def rb_inv_def)

lemma ring_at_incr_valid:
  assumes "ring_at cnt rb lo hi" "i < cnt" "i \<noteq> hi mod cnt"
  shows "incr_valid i x rb = Inr (rb\<lparr>valid := (valid rb)[i := size_add (valid rb ! i) x]\<rparr>)"
    "ring_at cnt (rb\<lparr>valid := (valid rb)[i := size_add (valid rb ! i) x]\<rparr>) lo hi"
  using ring_atD(8) [OF assms(1)] assms(2) ring_at_set_valid [OF assms(1,3)] by (simp_all add: incr_valid_def)

lemma ring_at_is_valid:
  assumes "ring_at cnt rb lo hi" "i < cnt"
  shows "is_valid thr i rb = Inr (valid rb ! i \<ge> thr)"
  using ring_atD(8) [OF assms(1)] assms(2) by (simp add: is_valid_def)

lemma ring_at_add:
  assumes "ring_at cnt rb lo hi" "k < cnt"
  shows "rb_add cnt (rb_tail rb) k = (lo + k) mod cnt"
proof -
  note d = ring_atD [OF assms(1)]
  have l: "lo mod cnt < cnt" using d(9) by simp
  then have b: "lo mod cnt + k < 2 * cnt" using assms(2) by linarith
  have "(lo mod cnt + k) mod cnt = (if cnt \<le> lo mod cnt + k then lo mod cnt + k - cnt else lo mod cnt + k)"
    using l b by (simp add: mod_if [of "lo mod cnt + k" cnt])
  then have m: "(lo + k) mod cnt = (if cnt \<le> lo mod cnt + k then lo mod cnt + k - cnt else lo mod cnt + k)"
    by (simp add: mod_add_left_eq)
  have "size_add (lo mod cnt) k = lo mod cnt + k" using b(1) d(10) by (simp add: SIZE_MOD_def)
  moreover have "size_sub (lo mod cnt + k) cnt = lo mod cnt + k - cnt" if "cnt \<le> lo mod cnt + k"
    using that b(1) d(10) by (intro size_sub_small) (simp_all add: SIZE_MOD_def)
  ultimately show ?thesis unfolding rb_add_def d(4) m by (simp add: Let_def)
qed

end
