(* ===== verification/PC1_Spec.thy ===== *)
theory PC1_Spec
  imports PC1_Ring
begin

text \<open>
  What PC1 has to compute, and the assumptions under which it does.

  \<^item> \<open>cfg_ok\<close>: the relations between the buffer sizes that the code relies on;
    \<open>code_cfg_ok\<close> shows them for the constants of the code.
  \<^item> \<open>graph_ok\<close>: the parents file has 14 entries for each node, the base parents
    of a node are earlier nodes and the first of them is the previous node.
  \<^item> \<open>ref_parent\<close> and \<open>label\<close>: the parents of a node by the graph and the label
    of a node as a function of the labels of its parents.
\<close>

definition cfg_ok :: "pc1_cfg \<Rightarrow> bool" where
  "cfg_ok cf \<longleftrightarrow>
     (\<exists>k \<le> cf_bits cf. cf_npp cf = 2 ^ k) \<and> cf_bits cf \<le> 32 \<and> cf_layers cf < 2 ^ 30 \<and>
     2 \<le> cf_parents cf \<and> cf_parents cf < 2 ^ 31 \<and> 2 \<le> cf_nodes cf \<and> cf_nodes cf < 2 ^ 31 \<and>
     0 < cf_batch cf \<and> 2 \<le> cf_batches cf \<and> cf_batches cf < 2 ^ 31 \<and>
     cf_batch cf * cf_batches cf \<le> cf_nodes cf * cf_npp cf \<and>
     0 < cf_disks cf \<and> disk_fifo_depth cf < cf_parents cf \<and>
     cf_offset cf < 2 ^ 62 \<and> cf_hashers cf \<noteq> [] \<and> (\<forall>h \<in> set (cf_hashers cf). 0 < h)"

definition graph_ok :: "pc1_cfg \<Rightarrow> 32 word list \<Rightarrow> bool" where
  "graph_ok cf buf \<longleftrightarrow>
     length buf = 2 ^ cf_bits cf * PARENT_COUNT \<and>
     (\<forall>p \<in> set buf. unat p < 2 ^ cf_bits cf) \<and>
     (\<forall>v < 2 ^ cf_bits cf. 0 < v \<longrightarrow>
        unat (buf ! (v * PARENT_COUNT)) = v - 1 \<and>
        (\<forall>j < PARENT_COUNT_BASE. unat (buf ! (v * PARENT_COUNT + j)) < v))"

definition ref_parent :: "pc1_cfg \<Rightarrow> 32 word list \<Rightarrow> nat \<Rightarrow> nat \<Rightarrow> nat" where
  "ref_parent cf buf n j =
     (let layer = n div 2 ^ cf_bits cf; v = n mod 2 ^ cf_bits cf
      in if layer = 0 \<and> PARENT_COUNT_BASE \<le> j then n - 1
         else (if PARENT_COUNT_BASE \<le> j then layer - 1 else layer) * 2 ^ cf_bits cf +
              unat (buf ! (v * PARENT_COUNT + j)))"

function label :: "sha_fun \<Rightarrow> pc1_cfg \<Rightarrow> 32 word list \<Rightarrow> replica_id_buffer_t \<Rightarrow> nat \<Rightarrow> nat \<Rightarrow> label_t" where
  "label sha cf buf rid l n =
     hash_node sha (cf_bits cf) (word_of_nat n)
       (\<lambda>_. map (\<lambda>j. if ref_parent cf buf n j < n then label sha cf buf rid l (ref_parent cf buf n j) else [])
              [0..<PARENT_COUNT]) rid l"
  by pat_completeness auto
termination by (relation "measure (\<lambda>(sha, cf, buf, rid, l, n). n)") auto

declare label.simps [simp del]

definition sector_label :: "sha_fun \<Rightarrow> pc1_cfg \<Rightarrow> 32 word list \<Rightarrow> replica_id_buffer_t list \<Rightarrow> nat \<Rightarrow> nat \<Rightarrow> label_t" where
  "sector_label sha cf buf bufs s n =
     label sha cf buf (bufs ! (s div NODES_PER_HASHER)) (s mod NODES_PER_HASHER) n"


section \<open>The configuration\<close>

lemma cfg_okD:
  assumes "cfg_ok cf"
  shows "cf_bits cf \<le> 32" "cf_layers cf < 2 ^ 30" "2 \<le> cf_parents cf" "cf_parents cf < 2 ^ 31"
    "2 \<le> cf_nodes cf" "cf_nodes cf < 2 ^ 31" "0 < cf_batch cf" "2 \<le> cf_batches cf" "cf_batches cf < 2 ^ 31"
    "cf_batch cf * cf_batches cf \<le> ring_nodes cf" "0 < cf_disks cf" "disk_fifo_depth cf < cf_parents cf"
    "cf_offset cf < 2 ^ 62" "cf_hashers cf \<noteq> []"
  using assms by (auto simp: cfg_ok_def ring_nodes_def)

lemma npp_facts:
  assumes "cfg_ok cf"
  shows "0 < cf_npp cf" "cf_npp cf dvd 2 ^ cf_bits cf" "cf_npp cf \<le> 2 ^ 32"
proof -
  from assms obtain k where k: "k \<le> cf_bits cf" "cf_npp cf = 2 ^ k" "cf_bits cf \<le> 32" by (auto simp: cfg_ok_def)
  then show "0 < cf_npp cf" "cf_npp cf dvd 2 ^ cf_bits cf" by (simp_all add: le_imp_power_dvd)
  show "cf_npp cf \<le> 2 ^ 32" unfolding k(2) by (intro power_increasing) (use k in auto)
qed

lemma node_total_bound:
  assumes "cfg_ok cf"
  shows "node_total cf < 2 ^ 62"
proof -
  have "(2::nat) ^ cf_bits cf \<le> 2 ^ 32" by (intro power_increasing) (use cfg_okD [OF assms] in auto)
  then have "2 ^ cf_bits cf * cf_layers cf \<le> 2 ^ 32 * cf_layers cf" by (rule mult_le_mono1)
  also have "\<dots> < 2 ^ 32 * 2 ^ 30" using cfg_okD(2) [OF assms] by (intro mult_strict_left_mono) auto
  finally show ?thesis by (simp add: node_total_def)
qed

lemma ring_nodes_bound:
  assumes "cfg_ok cf"
  shows "ring_nodes cf < 2 ^ 63" "0 < ring_nodes cf"
proof -
  have "cf_nodes cf * cf_npp cf \<le> cf_nodes cf * 2 ^ 32" using npp_facts(3) [OF assms] by (intro mult_le_mono2)
  also have "\<dots> < 2 ^ 31 * 2 ^ 32" using cfg_okD(6) [OF assms] by (intro mult_strict_right_mono) auto
  finally show "ring_nodes cf < 2 ^ 63" by (simp add: ring_nodes_def)
  show "0 < ring_nodes cf" using cfg_okD(5) [OF assms] npp_facts(1) [OF assms] by (simp add: ring_nodes_def)
qed

lemma total_npp_dvd: "cfg_ok cf \<Longrightarrow> cf_npp cf dvd node_total cf"
  by (simp add: node_total_def npp_facts)

lemma unat_node: "cfg_ok cf \<Longrightarrow> n \<le> node_total cf \<Longrightarrow> unat (word_of_nat n :: 64 word) = n"
  using node_total_bound [of cf] by (simp add: unsigned_of_nat take_bit_nat_eq_self)

lemma node_node:
  assumes "cfg_ok cf" "unat w \<le> node_total cf"
  shows "unat (node_id_node (cf_bits cf) w) = unat w mod 2 ^ cf_bits cf"
    "node_id_node (cf_bits cf) w = 0 \<longleftrightarrow> unat w mod 2 ^ cf_bits cf = 0"
proof -
  show "unat (node_id_node (cf_bits cf) w) = unat w mod 2 ^ cf_bits cf"
    using unat_node_id_node cfg_okD(1) [OF assms(1)] by blast
  then show "node_id_node (cf_bits cf) w = 0 \<longleftrightarrow> unat w mod 2 ^ cf_bits cf = 0"
    by (metis unat_eq_zero)
qed

lemma node_in_page:
  assumes "cfg_ok cf"
  shows "unat (node_id_node (cf_bits cf) w) mod cf_npp cf = unat w mod cf_npp cf"
  using unat_node_id_node [OF cfg_okD(1) [OF assms]] npp_facts(2) [OF assms] by (simp add: mod_mod_cancel)

lemma node_layer:
  assumes "cfg_ok cf" "unat w \<le> node_total cf"
  shows "unat (node_id_layer (cf_bits cf) w) = unat w div 2 ^ cf_bits cf"
proof (rule unat_node_id_layer)
  have "unat w div 2 ^ cf_bits cf \<le> cf_layers cf"
    using div_le_mono [OF assms(2), of "2 ^ cf_bits cf"] by (simp add: node_total_def)
  with cfg_okD(2) [OF assms(1)] show "unat w div 2 ^ cf_bits cf < 2 ^ 32" by simp
qed

lemma layer_start_npp:
  assumes "cfg_ok cf" "n mod 2 ^ cf_bits cf = 0"
  shows "n mod cf_npp cf = 0"
  using assms npp_facts(2) [OF assms(1)] by (metis mod_mod_cancel mod_0)


section \<open>Slots and pages\<close>

definition node_slot :: "pc1_cfg \<Rightarrow> nat \<Rightarrow> nat" where
  "node_slot cf n = (n div cf_npp cf) mod cf_nodes cf"

definition node_ptr :: "pc1_cfg \<Rightarrow> nat \<Rightarrow> parent_ptr_t" where
  "node_ptr cf n = NodePtr (node_slot cf n) (n mod cf_npp cf)"

lemma node_slot_lt [simp]: "cfg_ok cf \<Longrightarrow> node_slot cf n < cf_nodes cf"
  using cfg_okD(5) [of cf] by (simp add: node_slot_def)

lemma mod_ring_nodes:
  assumes "cfg_ok cf"
  shows "n mod ring_nodes cf div cf_npp cf = node_slot cf n" "n mod ring_nodes cf mod cf_npp cf = n mod cf_npp cf"
proof -
  have "n mod ring_nodes cf = cf_npp cf * node_slot cf n + n mod cf_npp cf"
    by (simp add: ring_nodes_def node_slot_def mod_mult2_eq mult.commute [of "cf_nodes cf"])
  then show "n mod ring_nodes cf div cf_npp cf = node_slot cf n" "n mod ring_nodes cf mod cf_npp cf = n mod cf_npp cf"
    using npp_facts(1) [OF assms] by simp_all
qed

lemma node_cell_inj:
  assumes "cfg_ok cf" "node_slot cf a = node_slot cf b" "a mod cf_npp cf = b mod cf_npp cf"
    "a < b + ring_nodes cf" "b < a + ring_nodes cf"
  shows "a = b"
proof -
  have "a mod ring_nodes cf = b mod ring_nodes cf"
    using assms(2,3) mod_ring_nodes [OF assms(1), of a] mod_ring_nodes [OF assms(1), of b] by (metis div_mult_mod_eq)
  from slot_inj [OF this assms(4,5)] show ?thesis .
qed


section \<open>Parents\<close>

lemma graph_index:
  assumes "graph_ok cf buf" "v < 2 ^ cf_bits cf" "j < PARENT_COUNT"
  shows "v * PARENT_COUNT + j < length buf" "unat (buf ! (v * PARENT_COUNT + j)) < 2 ^ cf_bits cf"
proof -
  have "v * PARENT_COUNT + j < Suc v * PARENT_COUNT" using assms(3) by simp
  also have "\<dots> \<le> 2 ^ cf_bits cf * PARENT_COUNT" using assms(2) by (intro mult_le_mono1) simp
  finally show l: "v * PARENT_COUNT + j < length buf" using assms(1) by (simp add: graph_ok_def)
  then show "unat (buf ! (v * PARENT_COUNT + j)) < 2 ^ cf_bits cf" using assms(1) by (simp add: graph_ok_def)
qed

lemma ref_parent_less:
  assumes "graph_ok cf buf" "j < PARENT_COUNT" "0 < n" "n mod 2 ^ cf_bits cf \<noteq> 0 \<or> PARENT_COUNT_BASE \<le> j"
  shows "ref_parent cf buf n j < n"
proof -
  let ?b = "2 ^ cf_bits cf :: nat"
  let ?l = "n div ?b" and ?v = "n mod ?b"
  have n: "n = ?l * ?b + ?v" by (rule div_mult_mod_eq [symmetric])
  have u: "unat (buf ! (?v * PARENT_COUNT + j)) < ?b" using graph_index(2) [OF assms(1) _ assms(2)] by simp
  show ?thesis
  proof (cases "PARENT_COUNT_BASE \<le> j")
    case True
    show ?thesis
    proof (cases "?l = 0")
      case False
      then have "(?l - 1) * ?b + ?b = ?l * ?b" by (cases ?l) simp_all
      then have "(?l - 1) * ?b + unat (buf ! (?v * PARENT_COUNT + j)) < n" using u n by linarith
      with False True show ?thesis by (simp add: ref_parent_def Let_def)
    qed (use True assms(3) in \<open>simp add: ref_parent_def Let_def\<close>)
  next
    case False
    with assms have "0 < ?v" "?v < ?b" by simp_all
    then have "unat (buf ! (?v * PARENT_COUNT + j)) < ?v" using assms(1) False by (simp add: graph_ok_def)
    then have "?l * ?b + unat (buf ! (?v * PARENT_COUNT + j)) < n" using n by linarith
    with False show ?thesis by (simp add: ref_parent_def Let_def)
  qed
qed

lemma ref_parent_0:
  assumes "graph_ok cf buf" "n mod 2 ^ cf_bits cf \<noteq> 0"
  shows "ref_parent cf buf n 0 = n - 1"
proof -
  let ?b = "2 ^ cf_bits cf :: nat"
  have "0 < n mod ?b" "n mod ?b < ?b" using assms(2) by simp_all
  then have "unat (buf ! (n mod ?b * PARENT_COUNT)) = n mod ?b - 1" using assms(1) by (simp add: graph_ok_def)
  moreover have "n div ?b * ?b + n mod ?b = n" by (rule div_mult_mod_eq)
  ultimately have "n div ?b * ?b + unat (buf ! (n mod ?b * PARENT_COUNT)) = n - 1" using \<open>0 < n mod ?b\<close> by linarith
  then show ?thesis by (simp add: ref_parent_def Let_def constant_defs)
qed

lemma find_parent_ref:
  assumes "cfg_ok cf" "graph_ok cf buf" "walk_inv (cf_bits cf) 0 k it" "parent_buf it = buf"
    "unat (pi_node it) < node_total cf" "0 < unat (pi_node it)"
  shows "\<exists>w. find_parent (cf_bits cf) (pi_node it) it = Inr w \<and>
    unat w = ref_parent cf buf (unat (pi_node it)) (k mod PARENT_COUNT)"
proof -
  let ?n = "unat (pi_node it)" and ?b = "2 ^ cf_bits cf :: nat" and ?j = "k mod PARENT_COUNT"
  let ?l = "node_id_layer (cf_bits cf) (pi_node it)"
  have j: "?j < PARENT_COUNT" by (simp add: constant_defs)
  have pp: "unat (pi_parent it) = ?j" and pt: "parent_ptr it = ?n mod ?b * PARENT_COUNT + ?j"
    using assms(3) by (simp_all add: walk_inv_def)
  have lay: "unat ?l = ?n div ?b" using node_layer [OF assms(1)] assms(5) by simp
  then have l0: "?l = 0 \<longleftrightarrow> ?n div ?b = 0" by (metis unat_eq_zero)
  have lm: "?l \<noteq> 0 \<Longrightarrow> unat (?l - 1) = ?n div ?b - 1" using lay by (metis unat_minus_one)
  note g = graph_index [OF assms(2) _ j, of "?n mod ?b"]
  have prev: "is_prev_layer it \<longleftrightarrow> PARENT_COUNT_BASE \<le> ?j" by (simp add: is_prev_layer_def pp)
  show ?thesis
  proof (cases "?n div ?b = 0 \<and> PARENT_COUNT_BASE \<le> ?j")
    case True
    have "pi_node it \<noteq> 0" using assms(6) by (metis gr_implies_not_zero unat_0)
    with True l0 prev show ?thesis
      by (simp add: find_parent_def node_id_decr_def ref_parent_def Let_def unat_minus_one)
  next
    case False
    have "parent_iter_deref (cf_bits cf) it = Inr (node_id_of (cf_bits cf)
        (if ?l = 0 then 0 else if is_prev_layer it then ?l - 1 else ?l) (buf ! (?n mod ?b * PARENT_COUNT + ?j)))"
      using g(1) assms(4) pt by (simp add: parent_iter_deref_def Let_def)
    moreover have "unat (if ?l = 0 then 0 else if is_prev_layer it then ?l - 1 else ?l) =
        (if PARENT_COUNT_BASE \<le> ?j then ?n div ?b - 1 else ?n div ?b)"
      using False l0 lm lay prev by auto
    ultimately show ?thesis
      using False l0 prev g(2) unat_node_id_of [OF cfg_okD(1) [OF assms(1)], of "buf ! (?n mod ?b * PARENT_COUNT + ?j)"]
      by (auto simp: find_parent_def ref_parent_def Let_def)
  qed
qed


section \<open>Labels\<close>

lemma set_cur_loc_idem: "set_cur_loc a b (set_cur_loc c d rid) = set_cur_loc a b rid"
  by (simp add: set_cur_loc_def list_update_swap)

lemma hash_node_cur_loc: "hash_node sha nbits node ps (set_cur_loc a b rid) l = hash_node sha nbits node ps rid l"
  by (simp add: hash_node_def set_cur_loc_idem Let_def)

definition same_replica :: "replica_id_buffer_t \<Rightarrow> replica_id_buffer_t \<Rightarrow> bool" where
  "same_replica r r0 \<longleftrightarrow> r = r0 \<or> (\<exists>a b. r = set_cur_loc a b r0)"

lemma same_replica_set: "same_replica r r0 \<Longrightarrow> same_replica (set_cur_loc a b r) r0"
  unfolding same_replica_def by (metis set_cur_loc_idem)

lemma same_replica_hash: "same_replica r r0 \<Longrightarrow> hash_node sha nbits node ps r l = hash_node sha nbits node ps r0 l"
  by (auto simp: same_replica_def hash_node_cur_loc)

lemma label_step:
  assumes "cfg_ok cf" "graph_ok cf buf" "n < node_total cf" "same_replica r r0"
    "n mod 2 ^ cf_bits cf \<noteq> 0 \<Longrightarrow> \<forall>j < PARENT_COUNT. ps l ! j = label sha cf buf r0 l (ref_parent cf buf n j)"
    "length (ps l) = PARENT_COUNT"
  shows "hash_node sha (cf_bits cf) (word_of_nat n) ps r l = label sha cf buf r0 l n"
proof -
  let ?qs = "map (\<lambda>j. if ref_parent cf buf n j < n then label sha cf buf r0 l (ref_parent cf buf n j) else [])
              [0..<PARENT_COUNT]"
  have z: "node_id_node (cf_bits cf) (word_of_nat n) = 0 \<longleftrightarrow> n mod 2 ^ cf_bits cf = 0"
    using node_node(2) [OF assms(1), of "word_of_nat n"] unat_node [OF assms(1), of n] assms(3) by simp
  have "ps l = ?qs" if "n mod 2 ^ cf_bits cf \<noteq> 0"
  proof (rule nth_equalityI)
    fix j assume "j < length (ps l)"
    then have j: "j < PARENT_COUNT" using assms(6) by simp
    have "0 < n" using that by (cases n) simp_all
    with ref_parent_less [OF assms(2) j] that assms(5) j show "ps l ! j = ?qs ! j" by simp
  qed (simp add: assms(6))
  then have "hash_node sha (cf_bits cf) (word_of_nat n) ps r0 l =
      hash_node sha (cf_bits cf) (word_of_nat n) (\<lambda>_. ?qs) r0 l"
    using z by (auto simp: hash_node_def Let_def)
  then show ?thesis using same_replica_hash [OF assms(4)] by (simp add: label.simps [of _ _ _ _ _ n])
qed

end
