(* ===== verification/PC1_Inv.thy ===== *)
theory PC1_Inv
  imports PC1_Spec
begin

text \<open>
  The invariant of a PC1 run.  Its parts speak of the positions of the threads:
  nodes below \<open>tail_node_parents\<close> have left the parent buffer, nodes below
  \<open>node_of\<close> have their parents prepared, nodes below \<open>reserved\<close> have their buffer
  entries; a coordinator has copied the parents of the nodes below \<open>copied\<close>
  and a thread has hashed the nodes below \<open>th_node\<close>.

  \<^item> \<open>orch_base\<close>, \<open>orch_rings\<close>, \<open>orch_mins\<close>, \<open>orch_locals\<close>: the counters of the orchestrator,
    the ring buffers at these positions, the oldest hashed node, the locals of
    \<open>read_batch\<close>.
  \<^item> \<open>fifo_shape\<close>, \<open>io_static\<close>: the fifo to the reader and the constant part of the
    I/O structures.
  \<^item> \<open>desc_inv\<close>: the prepared parents point at the node buffer entry of the parent
    or at the page that is read from disk for it.
  \<^item> \<open>read_inv\<close>: the valid counter of a slot and the outstanding reads add up to
    the threshold, and what is not outstanding is in the page.
  \<^item> \<open>coord_inv\<close>: the local ring of a coordinator and its threads.
  \<^item> \<open>node_mem_inv\<close>, \<open>write_inv\<close>, \<open>disk_inv\<close>: the node buffer, the writes and the disks hold
    labels.

  The first node of a layer has no base parents and its label does not depend
  on parents: of its slot only the valid counter matters, which counts up to the
  threshold and, with the reads that nothing waits for, beyond it (\<open>start_inv\<close>).
\<close>

definition reserved :: "orchestrator_t \<Rightarrow> nat" where
  "reserved o1 = node_of o1 +
     (if orch_pc o1 = ONodes then rb_max_batch (rb_locals o1) - rb_i (rb_locals o1) else 0)"

abbreviation written :: "orchestrator_t \<Rightarrow> nat" where
  "written o1 \<equiv> rc_abs (tail_node_write o1)"

abbreviation writing :: "orchestrator_t \<Rightarrow> nat" where
  "writing o1 \<equiv> rc_abs (head_node_write o1)"

definition layer_start :: "pc1_cfg \<Rightarrow> nat \<Rightarrow> bool" where
  "layer_start cf n \<longleftrightarrow> n mod 2 ^ cf_bits cf = 0"

definition orch_base :: "pc1_cfg \<Rightarrow> 32 word list \<Rightarrow> orchestrator_t \<Rightarrow> bool" where
  "orch_base cf buf o1 \<longleftrightarrow>
     node_stop o1 = node_total cf \<and>
     walk_inv (cf_bits cf) 0 (PARENT_COUNT * node_of o1) (parent_iter o1) \<and> parent_buf (parent_iter o1) = buf \<and>
     (0 < node_of o1 \<longrightarrow> prev_hashed_node o1 = node_ptr cf (node_of o1 - 1)) \<and>
     reserved o1 \<le> node_total cf \<and> cf_npp cf dvd reserved o1 \<and>
     tail_node o1 \<le> written o1 \<and> written o1 \<le> writing o1 \<and> writing o1 \<le> node_of o1 \<and>
     tail_node_parents o1 \<le> node_of o1 \<and>
     cf_npp cf dvd written o1 \<and> cf_npp cf dvd writing o1 \<and>
     rc_idx (tail_node_write o1) = written o1 mod ring_nodes cf \<and>
     rc_idx (head_node_write o1) = writing o1 mod ring_nodes cf \<and>
     outstanding_writes o1 = (writing o1 - written o1) div cf_npp cf"

definition orch_rings :: "pc1_cfg \<Rightarrow> system_buffers_t \<Rightarrow> orchestrator_t \<Rightarrow> bool" where
  "orch_rings cf s o1 \<longleftrightarrow>
     ring_at (cf_parents cf) (parent_buffer s) (tail_node_parents o1) (reserved o1) \<and>
     ring_at (cf_nodes cf) (node_buffer s) (tail_node o1 div cf_npp cf) (reserved o1 div cf_npp cf)"

definition orch_mins :: "pc1_cfg \<Rightarrow> nat list \<Rightarrow> orchestrator_t \<Rightarrow> bool" where
  "orch_mins cf cn o1 \<longleftrightarrow>
     length cn = length (cf_hashers cf) \<and>
     (\<forall>k < length cn. writing o1 \<le> cn ! k \<and> tail_node_parents o1 \<le> cn ! k \<and> cn ! k \<le> node_of o1) \<and>
     (case orch_pc o1 of OMin i \<Rightarrow> 0 < i \<and> (\<forall>k < length cn. k < i \<longrightarrow> min_node_hash o1 \<le> cn ! k)
      | _ \<Rightarrow> \<forall>k < length cn. min_node_hash o1 \<le> cn ! k)"

definition orch_locals :: "pc1_cfg \<Rightarrow> orchestrator_t \<Rightarrow> bool" where
  "orch_locals cf o1 \<longleftrightarrow> (orch_pc o1 = ONodes \<longrightarrow>
     (let rb = rb_locals o1; base = node_of o1 - rb_i rb; npp = cf_npp cf in
        rb_i rb \<le> node_of o1 \<and> rb_i rb \<le> rb_max_batch rb \<and> npp dvd base \<and> npp dvd rb_max_batch rb \<and>
        (rb_i rb < rb_max_batch rb \<longrightarrow> parent_buffer_id rb = node_of o1 mod cf_parents cf) \<and>
        page_batch_ptrs rb = map (\<lambda>k. Some ((base + k) mod cf_parents cf)) [0..<rb_max_batch rb] \<and>
        node_batch_ptrs rb = map (\<lambda>k. Some ((base div npp + k) mod cf_nodes cf)) [0..<rb_max_batch rb div npp] \<and>
        cache_min_node rb = tail_node o1 div npp * npp \<and> cache_min_node rb \<le> base \<and>
        node_buffer_count rb = base - cache_min_node rb \<and>
        cache_min_node rb \<le> cache_min_cacheable_node rb \<and> cache_min_cacheable_node rb \<le> written o1))"

definition fifo_shape :: "pc1_cfg \<Rightarrow> nat fifo_t \<Rightarrow> nat \<Rightarrow> nat \<Rightarrow> bool" where
  "fifo_shape cf q node res \<longleftrightarrow>
     fifo_inv q \<and> fifo_capacity q = disk_fifo_depth cf \<and>
     length (fifo_list q) + (res - node) \<le> disk_fifo_depth cf \<and>
     (0 < length (fifo_list q) \<longrightarrow> length (fifo_list q) < node) \<and>
     fifo_list q = map (\<lambda>n. Some (n mod cf_parents cf)) [node - length (fifo_list q)..<node]"

definition io_static :: "pc1_cfg \<Rightarrow> system_buffers_t \<Rightarrow> bool" where
  "io_static cf s \<longleftrightarrow>
     (\<forall>i < cf_parents cf. \<forall>j < PAGE_BATCH_SIZE.
        io_valid (parent_buffer_io s i j) = Some i \<and> io_type (parent_buffer_io s i j) \<noteq> WRITE) \<and>
     (\<forall>i < cf_nodes cf. io_valid (node_buffer_io s i 0) = Some i \<and> io_type (node_buffer_io s i 0) = WRITE)"

definition parent_ok :: "pc1_cfg \<Rightarrow> 32 word list \<Rightarrow> system_buffers_t \<Rightarrow> nat \<Rightarrow> nat \<Rightarrow> nat \<Rightarrow> bool" where
  "parent_ok cf buf s w n j \<longleftrightarrow>
     (let i = n mod cf_parents cf; p = ref_parent cf buf n j;
          src = parent_ptrs s i j; sync = parent_ptr_syncs s i j; io = parent_buffer_io s i (j - 1)
      in src = node_ptr cf p \<and> n < p + ring_nodes cf \<and> (sync \<noteq> LOCAL_NODE \<longrightarrow> p + cf_batch cf * cf_batches cf \<le> n) \<and>
           (0 < j \<longrightarrow> io_type io = NOP) \<or>
         0 < j \<and> src = PagePtr i (j - 1) (p mod cf_npp cf) \<and> sync \<noteq> LOCAL_NODE \<and> p < w \<and>
           io_type io = READ \<and> io_node io = word_of_nat p)"

definition desc_inv :: "pc1_cfg \<Rightarrow> 32 word list \<Rightarrow> system_buffers_t \<Rightarrow> nat \<Rightarrow> nat \<Rightarrow> nat \<Rightarrow> bool" where
  "desc_inv cf buf s w lo hi \<longleftrightarrow>
     (\<forall>n. lo \<le> n \<and> n < hi \<and> \<not> layer_start cf n \<longrightarrow> (\<forall>j < PARENT_COUNT. parent_ok cf buf s w n j))"


section \<open>Disk addresses and sectors\<close>

definition page_ctrl :: "pc1_cfg \<Rightarrow> nat \<Rightarrow> nat" where
  "page_ctrl cf n = n div cf_npp cf mod cf_disks cf"

definition page_block :: "pc1_cfg \<Rightarrow> nat \<Rightarrow> nat" where
  "page_block cf n = n div cf_npp cf div cf_disks cf + cf_offset cf"

definition num_sectors :: "pc1_cfg \<Rightarrow> nat" where
  "num_sectors cf = sum_list (cf_hashers cf) * NODES_PER_HASHER"

definition hasher_base :: "pc1_cfg \<Rightarrow> nat \<Rightarrow> nat" where
  "hasher_base cf i = sum_list (take i (cf_hashers cf))"

definition disk_ok :: "pc1_cfg \<Rightarrow> (nat \<Rightarrow> nat \<Rightarrow> label_t) \<Rightarrow> disk_t \<Rightarrow> nat \<Rightarrow> bool" where
  "disk_ok cf lab d n \<longleftrightarrow>
     (\<forall>x < num_sectors cf. d (page_ctrl cf n) (page_block cf n) (n mod cf_npp cf) x = lab x n)"

definition page_ok :: "pc1_cfg \<Rightarrow> (nat \<Rightarrow> nat \<Rightarrow> label_t) \<Rightarrow> system_buffers_t \<Rightarrow> nat \<Rightarrow> nat \<Rightarrow> nat \<Rightarrow> bool" where
  "page_ok cf lab s i j p \<longleftrightarrow>
     (\<forall>x < num_sectors cf. parent_buffer_store s i j (p mod cf_npp cf) x = lab x p)"


section \<open>Reads\<close>

definition reads_of :: "system_buffers_t \<Rightarrow> nat \<Rightarrow> nat" where
  "reads_of s i = length (filter (\<lambda>j. io_type (parent_buffer_io s i j) = READ) [0..<PAGE_BATCH_SIZE])"

definition pending :: "io_req_t list \<Rightarrow> nat \<Rightarrow> nat" where
  "pending rs i = length (filter (\<lambda>r. rq_slot r = i) rs)"

definition req_ok :: "pc1_cfg \<Rightarrow> nat \<Rightarrow> nat \<Rightarrow> nat \<Rightarrow> io_req_t \<Rightarrow> bool" where
  "req_ok cf lo issued res r \<longleftrightarrow> rq_j r < PAGE_BATCH_SIZE \<and> rq_type r = READ \<and>
     (\<exists>n. rq_slot r = n mod cf_parents cf \<and> n < issued \<and> res < n + cf_parents cf \<and> (layer_start cf n \<or> lo \<le> n))"

definition slot_inv :: "pc1_cfg \<Rightarrow> 32 word list \<Rightarrow> (nat \<Rightarrow> nat \<Rightarrow> label_t) \<Rightarrow> system_buffers_t \<Rightarrow> io_req_t list \<Rightarrow>
    nat \<Rightarrow> nat \<Rightarrow> bool" where
  "slot_inv cf buf lab s rs issued n \<longleftrightarrow>
     (let i = n mod cf_parents cf in
        valid (parent_buffer s) ! i + (if n < issued then pending rs i else reads_of s i) = PAGE_BATCH_SIZE \<and>
        (n < issued \<longrightarrow>
          (\<forall>j < PAGE_BATCH_SIZE. io_type (parent_buffer_io s i j) = READ \<longrightarrow>
             page_ok cf lab s i j (ref_parent cf buf n (j + 1)) \<or>
             (\<exists>r \<in> set rs. rq_slot r = i \<and> rq_j r = j \<and> \<not> rq_done r)) \<and>
          (\<forall>r \<in> set rs. rq_slot r = i \<longrightarrow>
             ref_parent cf buf n (rq_j r + 1) < node_total cf \<and>
             io_type (parent_buffer_io s i (rq_j r)) = READ \<and>
             rq_ctrl r = page_ctrl cf (ref_parent cf buf n (rq_j r + 1)) \<and>
             rq_block r = page_block cf (ref_parent cf buf n (rq_j r + 1)))))"

definition start_inv :: "pc1_cfg \<Rightarrow> system_buffers_t \<Rightarrow> io_req_t list \<Rightarrow> nat \<Rightarrow> nat \<Rightarrow> bool" where
  "start_inv cf s rs issued n \<longleftrightarrow>
     (let i = n mod cf_parents cf; x = valid (parent_buffer s) ! i + (if n < issued then pending rs i else reads_of s i)
      in PAGE_BATCH_SIZE \<le> x \<and> x \<le> 2 * PAGE_BATCH_SIZE)"

definition read_inv :: "pc1_cfg \<Rightarrow> 32 word list \<Rightarrow> (nat \<Rightarrow> nat \<Rightarrow> label_t) \<Rightarrow> system_buffers_t \<Rightarrow> io_req_t list \<Rightarrow>
    nat \<Rightarrow> nat \<Rightarrow> nat \<Rightarrow> bool" where
  "read_inv cf buf lab s rs lo node res \<longleftrightarrow>
     (let issued = node - length (fifo_list (parent_read_fifo s)) in
        (\<forall>r \<in> set rs. req_ok cf lo issued res r) \<and>
        (\<forall>n. lo \<le> n \<and> n < node \<and> \<not> layer_start cf n \<longrightarrow> slot_inv cf buf lab s rs issued n) \<and>
        (\<forall>n. issued \<le> n \<and> n < lo \<and> \<not> layer_start cf n \<longrightarrow> reads_of s (n mod cf_parents cf) = 0) \<and>
        (\<forall>n. node \<le> n \<and> n \<le> res \<longrightarrow> valid (parent_buffer s) ! (n mod cf_parents cf) = 0) \<and>
        (\<forall>n. lo \<le> n \<and> n < node \<and> layer_start cf n \<longrightarrow> start_inv cf s rs issued n))"


section \<open>Coordinators and threads\<close>

definition copied :: "coordinator_t \<Rightarrow> nat" where
  "copied c = co_node c + (if co_pc c = CRecover then 1 else 0)"

definition thread_inv :: "pc1_cfg \<Rightarrow> replica_id_buffer_t list \<Rightarrow> nat \<Rightarrow> nat \<Rightarrow> nat \<Rightarrow> hasher_t \<Rightarrow> bool" where
  "thread_inv cf bufs lo hi g th \<longleftrightarrow>
     lo \<le> th_node th \<and> th_node th \<le> th_valid_nodes th \<and> th_valid_nodes th \<le> hi \<and>
     cf_batch cf dvd th_valid_nodes th \<and>
     th_i th = th_node th mod cf_batch cf \<and>
     th_coord_idx th = th_node th div cf_batch cf mod cf_batches cf \<and>
     th_node_idx th = node_slot cf (th_node th) \<and>
     th_offset_id th = g * NODES_PER_HASHER \<and>
     same_replica (th_replica th) (bufs ! g)"

definition stored_ok :: "pc1_cfg \<Rightarrow> 32 word list \<Rightarrow> (nat \<Rightarrow> nat \<Rightarrow> label_t) \<Rightarrow> coordinator_t \<Rightarrow> nat \<Rightarrow> nat \<Rightarrow> bool" where
  "stored_ok cf buf lab c m j \<longleftrightarrow>
     (let b = m div cf_batch cf mod cf_batches cf; e = m mod cf_batch cf * PARENT_COUNT + j;
          p = ref_parent cf buf m j
      in coord_ring_ptrs c b e = node_ptr cf p \<and> m < p + ring_nodes cf \<or>
         coord_ring_ptrs c b e = NullPtr \<and>
           (\<forall>x < length (threads c) * NODES_PER_HASHER. coord_ring_storage c b e x = lab (start_sector c + x) p))"

definition done_inv :: "pc1_cfg \<Rightarrow> coordinator_t \<Rightarrow> bool" where
  "done_inv cf c \<longleftrightarrow> length (coord_done_count c) = cf_batches cf \<and>
     (\<forall>b. completed_node c div cf_batch cf \<le> b \<and> b < completed_node c div cf_batch cf + cf_batches cf \<longrightarrow>
        coord_done_count c ! (b mod cf_batches cf) =
        length (filter (\<lambda>th. Suc b * cf_batch cf \<le> th_node th) (threads c)))"

definition coord_inv :: "pc1_cfg \<Rightarrow> 32 word list \<Rightarrow> (nat \<Rightarrow> nat \<Rightarrow> label_t) \<Rightarrow> replica_id_buffer_t list \<Rightarrow>
    nat \<Rightarrow> coordinator_t \<Rightarrow> bool" where
  "coord_inv cf buf lab bufs i c \<longleftrightarrow>
     start_sector c = hasher_base cf i * NODES_PER_HASHER \<and> length (threads c) = cf_hashers cf ! i \<and>
     co_idx c = co_node c mod cf_parents cf \<and>
     coord_batch_idx c = co_node c div cf_batch cf mod cf_batches cf \<and>
     (if co_pc c = CRecover then Suc (co_node c) mod cf_batch cf = 0 else coord_batch_count c = co_node c mod cf_batch cf) \<and>
     coord_next_valid c = copied c div cf_batch cf * cf_batch cf \<and>
     cf_batch cf dvd completed_node c \<and> completed_node c \<le> coord_next_valid c \<and>
     ring_at (cf_batches cf) (coord_ring c) (completed_node c div cf_batch cf)
       (copied c div cf_batch cf + (if co_pc c = CRecover then 0 else 1)) \<and>
     done_inv cf c \<and>
     (\<forall>t < length (threads c). thread_inv cf bufs (completed_node c) (coord_next_valid c) (hasher_base cf i + t) (threads c ! t)) \<and>
     (\<forall>m. completed_node c \<le> m \<and> m < copied c \<and> \<not> layer_start cf m \<longrightarrow> (\<forall>j < PARENT_COUNT. stored_ok cf buf lab c m j))"

definition coord_link :: "pc1_cfg \<Rightarrow> nat ring_buffer_t \<Rightarrow> nat \<Rightarrow> nat \<Rightarrow> nat \<Rightarrow> coordinator_t \<Rightarrow> bool" where
  "coord_link cf rb cn lo node c \<longleftrightarrow>
     cn \<le> completed_node c \<and> copied c \<le> node \<and>
     (\<forall>n. lo \<le> n \<and> n < copied c \<and> \<not> layer_start cf n \<longrightarrow>
        PAGE_BATCH_SIZE \<le> valid rb ! (n mod cf_parents cf)) \<and>
     (co_cur_valid c \<longrightarrow> copied c < node \<and>
        (layer_start cf (copied c) \<or> PAGE_BATCH_SIZE \<le> valid rb ! (copied c mod cf_parents cf)))"

definition coords_inv :: "pc1_cfg \<Rightarrow> 32 word list \<Rightarrow> (nat \<Rightarrow> nat \<Rightarrow> label_t) \<Rightarrow> replica_id_buffer_t list \<Rightarrow>
    nat ring_buffer_t \<Rightarrow> nat list \<Rightarrow> nat \<Rightarrow> nat \<Rightarrow> coordinator_t list \<Rightarrow> bool" where
  "coords_inv cf buf lab bufs rb cn lo node cs \<longleftrightarrow> length cs = length (cf_hashers cf) \<and>
     (\<forall>i < length cs. coord_inv cf buf lab bufs i (cs ! i) \<and> coord_link cf rb (cn ! i) lo node (cs ! i))"

definition node_mem_inv :: "pc1_cfg \<Rightarrow> (nat \<Rightarrow> nat \<Rightarrow> label_t) \<Rightarrow> (nat \<Rightarrow> page_t) \<Rightarrow> coordinator_t list \<Rightarrow> bool" where
  "node_mem_inv cf lab mem cs \<longleftrightarrow>
     (\<forall>i < length cs. \<forall>t < length (threads (cs ! i)). \<forall>l < NODES_PER_HASHER. \<forall>n.
        n < th_node (threads (cs ! i) ! t) \<and> th_node (threads (cs ! i) ! t) \<le> n + ring_nodes cf \<longrightarrow>
        mem (node_slot cf n) (n mod cf_npp cf) (th_offset_id (threads (cs ! i) ! t) + l) =
        lab (th_offset_id (threads (cs ! i) ! t) + l) n)"


section \<open>Writes\<close>

definition write_req_ok :: "pc1_cfg \<Rightarrow> (nat \<Rightarrow> nat \<Rightarrow> label_t) \<Rightarrow> disk_t \<Rightarrow> nat ring_buffer_t \<Rightarrow> nat \<Rightarrow> nat \<Rightarrow>
    io_req_t \<Rightarrow> bool" where
  "write_req_ok cf lab d rb lo issued r \<longleftrightarrow> rq_j r = 0 \<and> rq_type r = WRITE \<and>
     (\<exists>q. lo \<le> q \<and> q < issued \<and> rq_slot r = q mod cf_nodes cf \<and>
        rq_ctrl r = page_ctrl cf (q * cf_npp cf) \<and> rq_block r = page_block cf (q * cf_npp cf) \<and>
        (rq_done r \<longrightarrow> (\<forall>n. n div cf_npp cf = q \<longrightarrow> disk_ok cf lab d n)) \<and> valid rb ! rq_slot r = 0)"

definition write_inv :: "pc1_cfg \<Rightarrow> (nat \<Rightarrow> nat \<Rightarrow> label_t) \<Rightarrow> disk_t \<Rightarrow> system_buffers_t \<Rightarrow> io_req_t list \<Rightarrow>
    nat \<Rightarrow> nat \<Rightarrow> nat \<Rightarrow> bool" where
  "write_inv cf lab d s ws lo hi res \<longleftrightarrow>
     (let q = node_write_fifo s; issued = hi - length (fifo_list q) in
        fifo_inv q \<and> fifo_capacity q = disk_fifo_depth cf \<and> length (fifo_list q) \<le> hi - lo \<and>
        fifo_list q = map (\<lambda>n. Some (n mod cf_nodes cf)) [issued..<hi] \<and>
        (\<forall>n. lo \<le> n \<and> n < hi \<longrightarrow> io_node (node_buffer_io s (n mod cf_nodes cf) 0) = word_of_nat (n * cf_npp cf)) \<and>
        (\<forall>r \<in> set ws. write_req_ok cf lab d (node_buffer s) lo issued r) \<and>
        distinct (map rq_slot ws) \<and>
        (\<forall>p. lo \<le> p \<and> p < issued \<and> valid (node_buffer s) ! (p mod cf_nodes cf) \<noteq> 0 \<longrightarrow>
           (\<forall>n. n div cf_npp cf = p \<longrightarrow> disk_ok cf lab d n)) \<and>
        (\<forall>p. issued \<le> p \<and> p \<le> res \<longrightarrow> valid (node_buffer s) ! (p mod cf_nodes cf) = 0) \<and>
        (\<forall>p. lo \<le> p \<and> p < issued \<and> valid (node_buffer s) ! (p mod cf_nodes cf) = 0 \<longrightarrow>
           p mod cf_nodes cf \<in> rq_slot ` set ws))"

definition disk_inv :: "pc1_cfg \<Rightarrow> (nat \<Rightarrow> nat \<Rightarrow> label_t) \<Rightarrow> disk_t \<Rightarrow> nat \<Rightarrow> bool" where
  "disk_inv cf lab d w \<longleftrightarrow> (\<forall>n < w. disk_ok cf lab d n)"


section \<open>Frames\<close>

text \<open>Which fields of the buffers each part of the invariant depends on.\<close>

lemma orch_rings_frame [simp]:
  "orch_rings cf (s\<lparr>parent_buffer_store := x_parent_buffer_store\<rparr>) o1 = orch_rings cf s o1"
  "orch_rings cf (s\<lparr>parent_buffer_io := x_parent_buffer_io\<rparr>) o1 = orch_rings cf s o1"
  "orch_rings cf (s\<lparr>parent_ptrs := x_parent_ptrs\<rparr>) o1 = orch_rings cf s o1"
  "orch_rings cf (s\<lparr>parent_ptr_syncs := x_parent_ptr_syncs\<rparr>) o1 = orch_rings cf s o1"
  "orch_rings cf (s\<lparr>node_buffer_store := x_node_buffer_store\<rparr>) o1 = orch_rings cf s o1"
  "orch_rings cf (s\<lparr>node_buffer_io := x_node_buffer_io\<rparr>) o1 = orch_rings cf s o1"
  "orch_rings cf (s\<lparr>node_buffer_sync := x_node_buffer_sync\<rparr>) o1 = orch_rings cf s o1"
  "orch_rings cf (s\<lparr>parent_read_fifo := x_parent_read_fifo\<rparr>) o1 = orch_rings cf s o1"
  "orch_rings cf (s\<lparr>node_write_fifo := x_node_write_fifo\<rparr>) o1 = orch_rings cf s o1"
  "orch_rings cf (s\<lparr>coordinator_node := x_coordinator_node\<rparr>) o1 = orch_rings cf s o1"
  by (simp_all add: orch_rings_def)

lemma io_static_frame [simp]:
  "io_static cf (s\<lparr>parent_buffer := x_parent_buffer\<rparr>) = io_static cf s"
  "io_static cf (s\<lparr>parent_buffer_store := x_parent_buffer_store\<rparr>) = io_static cf s"
  "io_static cf (s\<lparr>parent_ptrs := x_parent_ptrs\<rparr>) = io_static cf s"
  "io_static cf (s\<lparr>parent_ptr_syncs := x_parent_ptr_syncs\<rparr>) = io_static cf s"
  "io_static cf (s\<lparr>node_buffer := x_node_buffer\<rparr>) = io_static cf s"
  "io_static cf (s\<lparr>node_buffer_store := x_node_buffer_store\<rparr>) = io_static cf s"
  "io_static cf (s\<lparr>node_buffer_sync := x_node_buffer_sync\<rparr>) = io_static cf s"
  "io_static cf (s\<lparr>parent_read_fifo := x_parent_read_fifo\<rparr>) = io_static cf s"
  "io_static cf (s\<lparr>node_write_fifo := x_node_write_fifo\<rparr>) = io_static cf s"
  "io_static cf (s\<lparr>coordinator_node := x_coordinator_node\<rparr>) = io_static cf s"
  by (simp_all add: io_static_def)

lemma desc_inv_frame [simp]:
  "desc_inv cf buf (s\<lparr>parent_buffer := x_parent_buffer\<rparr>) w lo hi = desc_inv cf buf s w lo hi"
  "desc_inv cf buf (s\<lparr>parent_buffer_store := x_parent_buffer_store\<rparr>) w lo hi = desc_inv cf buf s w lo hi"
  "desc_inv cf buf (s\<lparr>node_buffer := x_node_buffer\<rparr>) w lo hi = desc_inv cf buf s w lo hi"
  "desc_inv cf buf (s\<lparr>node_buffer_store := x_node_buffer_store\<rparr>) w lo hi = desc_inv cf buf s w lo hi"
  "desc_inv cf buf (s\<lparr>node_buffer_io := x_node_buffer_io\<rparr>) w lo hi = desc_inv cf buf s w lo hi"
  "desc_inv cf buf (s\<lparr>node_buffer_sync := x_node_buffer_sync\<rparr>) w lo hi = desc_inv cf buf s w lo hi"
  "desc_inv cf buf (s\<lparr>parent_read_fifo := x_parent_read_fifo\<rparr>) w lo hi = desc_inv cf buf s w lo hi"
  "desc_inv cf buf (s\<lparr>node_write_fifo := x_node_write_fifo\<rparr>) w lo hi = desc_inv cf buf s w lo hi"
  "desc_inv cf buf (s\<lparr>coordinator_node := x_coordinator_node\<rparr>) w lo hi = desc_inv cf buf s w lo hi"
  by (simp_all add: desc_inv_def parent_ok_def)

lemma page_ok_frame [simp]:
  "page_ok cf lab (s\<lparr>parent_buffer := x_parent_buffer\<rparr>) i j p = page_ok cf lab s i j p"
  "page_ok cf lab (s\<lparr>parent_buffer_io := x_parent_buffer_io\<rparr>) i j p = page_ok cf lab s i j p"
  "page_ok cf lab (s\<lparr>parent_ptrs := x_parent_ptrs\<rparr>) i j p = page_ok cf lab s i j p"
  "page_ok cf lab (s\<lparr>parent_ptr_syncs := x_parent_ptr_syncs\<rparr>) i j p = page_ok cf lab s i j p"
  "page_ok cf lab (s\<lparr>node_buffer := x_node_buffer\<rparr>) i j p = page_ok cf lab s i j p"
  "page_ok cf lab (s\<lparr>node_buffer_store := x_node_buffer_store\<rparr>) i j p = page_ok cf lab s i j p"
  "page_ok cf lab (s\<lparr>node_buffer_io := x_node_buffer_io\<rparr>) i j p = page_ok cf lab s i j p"
  "page_ok cf lab (s\<lparr>node_buffer_sync := x_node_buffer_sync\<rparr>) i j p = page_ok cf lab s i j p"
  "page_ok cf lab (s\<lparr>parent_read_fifo := x_parent_read_fifo\<rparr>) i j p = page_ok cf lab s i j p"
  "page_ok cf lab (s\<lparr>node_write_fifo := x_node_write_fifo\<rparr>) i j p = page_ok cf lab s i j p"
  "page_ok cf lab (s\<lparr>coordinator_node := x_coordinator_node\<rparr>) i j p = page_ok cf lab s i j p"
  by (simp_all add: page_ok_def)

lemma reads_of_frame [simp]:
  "reads_of (s\<lparr>parent_buffer := x_parent_buffer\<rparr>) i = reads_of s i"
  "reads_of (s\<lparr>parent_buffer_store := x_parent_buffer_store\<rparr>) i = reads_of s i"
  "reads_of (s\<lparr>parent_ptrs := x_parent_ptrs\<rparr>) i = reads_of s i"
  "reads_of (s\<lparr>parent_ptr_syncs := x_parent_ptr_syncs\<rparr>) i = reads_of s i"
  "reads_of (s\<lparr>node_buffer := x_node_buffer\<rparr>) i = reads_of s i"
  "reads_of (s\<lparr>node_buffer_store := x_node_buffer_store\<rparr>) i = reads_of s i"
  "reads_of (s\<lparr>node_buffer_io := x_node_buffer_io\<rparr>) i = reads_of s i"
  "reads_of (s\<lparr>node_buffer_sync := x_node_buffer_sync\<rparr>) i = reads_of s i"
  "reads_of (s\<lparr>parent_read_fifo := x_parent_read_fifo\<rparr>) i = reads_of s i"
  "reads_of (s\<lparr>node_write_fifo := x_node_write_fifo\<rparr>) i = reads_of s i"
  "reads_of (s\<lparr>coordinator_node := x_coordinator_node\<rparr>) i = reads_of s i"
  by (simp_all add: reads_of_def)

lemma slot_inv_frame [simp]:
  "slot_inv cf buf lab (s\<lparr>parent_ptrs := x_parent_ptrs\<rparr>) rs issued n = slot_inv cf buf lab s rs issued n"
  "slot_inv cf buf lab (s\<lparr>parent_ptr_syncs := x_parent_ptr_syncs\<rparr>) rs issued n = slot_inv cf buf lab s rs issued n"
  "slot_inv cf buf lab (s\<lparr>node_buffer := x_node_buffer\<rparr>) rs issued n = slot_inv cf buf lab s rs issued n"
  "slot_inv cf buf lab (s\<lparr>node_buffer_store := x_node_buffer_store\<rparr>) rs issued n = slot_inv cf buf lab s rs issued n"
  "slot_inv cf buf lab (s\<lparr>node_buffer_io := x_node_buffer_io\<rparr>) rs issued n = slot_inv cf buf lab s rs issued n"
  "slot_inv cf buf lab (s\<lparr>node_buffer_sync := x_node_buffer_sync\<rparr>) rs issued n = slot_inv cf buf lab s rs issued n"
  "slot_inv cf buf lab (s\<lparr>parent_read_fifo := x_parent_read_fifo\<rparr>) rs issued n = slot_inv cf buf lab s rs issued n"
  "slot_inv cf buf lab (s\<lparr>node_write_fifo := x_node_write_fifo\<rparr>) rs issued n = slot_inv cf buf lab s rs issued n"
  "slot_inv cf buf lab (s\<lparr>coordinator_node := x_coordinator_node\<rparr>) rs issued n = slot_inv cf buf lab s rs issued n"
  by (simp_all add: slot_inv_def)

lemma start_inv_frame [simp]:
  "start_inv cf (s\<lparr>parent_buffer_store := x_parent_buffer_store\<rparr>) rs issued n = start_inv cf s rs issued n"
  "start_inv cf (s\<lparr>parent_ptrs := x_parent_ptrs\<rparr>) rs issued n = start_inv cf s rs issued n"
  "start_inv cf (s\<lparr>parent_ptr_syncs := x_parent_ptr_syncs\<rparr>) rs issued n = start_inv cf s rs issued n"
  "start_inv cf (s\<lparr>node_buffer := x_node_buffer\<rparr>) rs issued n = start_inv cf s rs issued n"
  "start_inv cf (s\<lparr>node_buffer_store := x_node_buffer_store\<rparr>) rs issued n = start_inv cf s rs issued n"
  "start_inv cf (s\<lparr>node_buffer_io := x_node_buffer_io\<rparr>) rs issued n = start_inv cf s rs issued n"
  "start_inv cf (s\<lparr>node_buffer_sync := x_node_buffer_sync\<rparr>) rs issued n = start_inv cf s rs issued n"
  "start_inv cf (s\<lparr>parent_read_fifo := x_parent_read_fifo\<rparr>) rs issued n = start_inv cf s rs issued n"
  "start_inv cf (s\<lparr>node_write_fifo := x_node_write_fifo\<rparr>) rs issued n = start_inv cf s rs issued n"
  "start_inv cf (s\<lparr>coordinator_node := x_coordinator_node\<rparr>) rs issued n = start_inv cf s rs issued n"
  by (simp_all add: start_inv_def)

lemma read_inv_frame [simp]:
  "read_inv cf buf lab (s\<lparr>parent_ptrs := x_parent_ptrs\<rparr>) rs lo node res = read_inv cf buf lab s rs lo node res"
  "read_inv cf buf lab (s\<lparr>parent_ptr_syncs := x_parent_ptr_syncs\<rparr>) rs lo node res = read_inv cf buf lab s rs lo node res"
  "read_inv cf buf lab (s\<lparr>node_buffer := x_node_buffer\<rparr>) rs lo node res = read_inv cf buf lab s rs lo node res"
  "read_inv cf buf lab (s\<lparr>node_buffer_store := x_node_buffer_store\<rparr>) rs lo node res = read_inv cf buf lab s rs lo node res"
  "read_inv cf buf lab (s\<lparr>node_buffer_io := x_node_buffer_io\<rparr>) rs lo node res = read_inv cf buf lab s rs lo node res"
  "read_inv cf buf lab (s\<lparr>node_buffer_sync := x_node_buffer_sync\<rparr>) rs lo node res = read_inv cf buf lab s rs lo node res"
  "read_inv cf buf lab (s\<lparr>node_write_fifo := x_node_write_fifo\<rparr>) rs lo node res = read_inv cf buf lab s rs lo node res"
  "read_inv cf buf lab (s\<lparr>coordinator_node := x_coordinator_node\<rparr>) rs lo node res = read_inv cf buf lab s rs lo node res"
  by (simp_all add: read_inv_def)

lemma write_inv_frame [simp]:
  "write_inv cf lab d (s\<lparr>parent_buffer := x_parent_buffer\<rparr>) ws lo hi res = write_inv cf lab d s ws lo hi res"
  "write_inv cf lab d (s\<lparr>parent_buffer_store := x_parent_buffer_store\<rparr>) ws lo hi res = write_inv cf lab d s ws lo hi res"
  "write_inv cf lab d (s\<lparr>parent_buffer_io := x_parent_buffer_io\<rparr>) ws lo hi res = write_inv cf lab d s ws lo hi res"
  "write_inv cf lab d (s\<lparr>parent_ptrs := x_parent_ptrs\<rparr>) ws lo hi res = write_inv cf lab d s ws lo hi res"
  "write_inv cf lab d (s\<lparr>parent_ptr_syncs := x_parent_ptr_syncs\<rparr>) ws lo hi res = write_inv cf lab d s ws lo hi res"
  "write_inv cf lab d (s\<lparr>node_buffer_store := x_node_buffer_store\<rparr>) ws lo hi res = write_inv cf lab d s ws lo hi res"
  "write_inv cf lab d (s\<lparr>node_buffer_sync := x_node_buffer_sync\<rparr>) ws lo hi res = write_inv cf lab d s ws lo hi res"
  "write_inv cf lab d (s\<lparr>parent_read_fifo := x_parent_read_fifo\<rparr>) ws lo hi res = write_inv cf lab d s ws lo hi res"
  "write_inv cf lab d (s\<lparr>coordinator_node := x_coordinator_node\<rparr>) ws lo hi res = write_inv cf lab d s ws lo hi res"
  by (simp_all add: write_inv_def)


section \<open>The whole invariant\<close>

definition todo_inv :: "pc1_state \<Rightarrow> bool" where
  "todo_inv st \<longleftrightarrow>
     rw_todo (st_reader st) \<le> length (fifo_list (parent_read_fifo (st_sys st))) \<and>
     rw_todo (st_writer st) \<le> length (fifo_list (node_write_fifo (st_sys st)))"

definition pc1_inv :: "pc1_cfg \<Rightarrow> 32 word list \<Rightarrow> (nat \<Rightarrow> nat \<Rightarrow> label_t) \<Rightarrow> replica_id_buffer_t list \<Rightarrow> pc1_state \<Rightarrow> bool" where
  "pc1_inv cf buf lab bufs st \<longleftrightarrow>
     (let s = st_sys st; o1 = st_orch st; cs = st_coords st; rs = rw_inflight (st_reader st);
          ws = rw_inflight (st_writer st); npp = cf_npp cf
      in orch_base cf buf o1 \<and> orch_rings cf s o1 \<and> orch_mins cf (coordinator_node s) o1 \<and> orch_locals cf o1 \<and>
         fifo_shape cf (parent_read_fifo s) (node_of o1) (reserved o1) \<and> io_static cf s \<and>
         desc_inv cf buf s (written o1) (tail_node_parents o1) (node_of o1) \<and>
         read_inv cf buf lab s rs (tail_node_parents o1) (node_of o1) (reserved o1) \<and>
         coords_inv cf buf lab bufs (parent_buffer s) (coordinator_node s) (tail_node_parents o1) (node_of o1) cs \<and>
         node_mem_inv cf lab (node_buffer_store s) cs \<and>
         write_inv cf lab (st_disk st) s ws (written o1 div npp) (writing o1 div npp) (reserved o1 div npp) \<and>
         disk_inv cf lab (st_disk st) (written o1) \<and> todo_inv st)"

lemma pc1_invI:
  assumes "orch_base cf buf (st_orch st)" "orch_rings cf (st_sys st) (st_orch st)"
    "orch_mins cf (coordinator_node (st_sys st)) (st_orch st)" "orch_locals cf (st_orch st)"
    "fifo_shape cf (parent_read_fifo (st_sys st)) (node_of (st_orch st)) (reserved (st_orch st))"
    "io_static cf (st_sys st)"
    "desc_inv cf buf (st_sys st) (written (st_orch st)) (tail_node_parents (st_orch st)) (node_of (st_orch st))"
    "read_inv cf buf lab (st_sys st) (rw_inflight (st_reader st)) (tail_node_parents (st_orch st))
       (node_of (st_orch st)) (reserved (st_orch st))"
    "coords_inv cf buf lab bufs (parent_buffer (st_sys st)) (coordinator_node (st_sys st))
       (tail_node_parents (st_orch st)) (node_of (st_orch st)) (st_coords st)"
    "node_mem_inv cf lab (node_buffer_store (st_sys st)) (st_coords st)"
    "write_inv cf lab (st_disk st) (st_sys st) (rw_inflight (st_writer st)) (written (st_orch st) div cf_npp cf)
       (writing (st_orch st) div cf_npp cf) (reserved (st_orch st) div cf_npp cf)"
    "disk_inv cf lab (st_disk st) (written (st_orch st))" "todo_inv st"
  shows "pc1_inv cf buf lab bufs st"
  using assms by (simp add: pc1_inv_def)

lemma pc1_invD:
  assumes "pc1_inv cf buf lab bufs st"
  shows "orch_base cf buf (st_orch st)" "orch_rings cf (st_sys st) (st_orch st)"
    "orch_mins cf (coordinator_node (st_sys st)) (st_orch st)" "orch_locals cf (st_orch st)"
    "fifo_shape cf (parent_read_fifo (st_sys st)) (node_of (st_orch st)) (reserved (st_orch st))"
    "io_static cf (st_sys st)"
    "desc_inv cf buf (st_sys st) (written (st_orch st)) (tail_node_parents (st_orch st)) (node_of (st_orch st))"
    "read_inv cf buf lab (st_sys st) (rw_inflight (st_reader st)) (tail_node_parents (st_orch st))
       (node_of (st_orch st)) (reserved (st_orch st))"
    "coords_inv cf buf lab bufs (parent_buffer (st_sys st)) (coordinator_node (st_sys st))
       (tail_node_parents (st_orch st)) (node_of (st_orch st)) (st_coords st)"
    "node_mem_inv cf lab (node_buffer_store (st_sys st)) (st_coords st)"
    "write_inv cf lab (st_disk st) (st_sys st) (rw_inflight (st_writer st)) (written (st_orch st) div cf_npp cf)
       (writing (st_orch st) div cf_npp cf) (reserved (st_orch st) div cf_npp cf)"
    "disk_inv cf lab (st_disk st) (written (st_orch st))" "todo_inv st"
  using assms by (simp_all add: pc1_inv_def Let_def)

end
