(* ===== verification/PC1_Hash.thy ===== *)
theory PC1_Hash
  imports PC1_Inv
begin

text \<open>
  The hashing threads keep the invariant of PC1: a thread that hashes node \<open>n\<close>
  reads the labels of the parents of \<open>n\<close>, from the copies of its coordinator or
  directly from the node buffer, and stores the label of \<open>n\<close>.
\<close>

section \<open>Arithmetic of positions\<close>

lemma node_slot_Suc:
  assumes "cfg_ok cf"
  shows "node_slot cf (Suc n) =
    (if Suc n mod cf_npp cf = 0 then rb_incr (cf_nodes cf) (node_slot cf n) else node_slot cf n)"
  using rb_incr_mod [of "cf_nodes cf" "n div cf_npp cf"] cfg_okD(5,6) [OF assms]
  by (simp add: node_slot_def div_Suc)

lemma batch_Suc:
  fixes c :: nat
  assumes "0 < c"
  shows "Suc n mod c = (if n mod c + 1 = c then 0 else n mod c + 1)"
    "Suc n div c = (if n mod c + 1 = c then n div c + 1 else n div c)"
  using assms by (auto simp: mod_Suc div_Suc)

lemma next_page:
  assumes "cfg_ok cf" "n < node_total cf"
  shows "unat (node_id_node (cf_bits cf) (word_of_nat (Suc n))) mod cf_npp cf = Suc n mod cf_npp cf"
  using node_in_page [OF assms(1), of "word_of_nat (Suc n)"] unat_node [OF assms(1), of "Suc n"] assms(2)
  by (simp del: of_nat_Suc)

lemma multiple_less:
  assumes "n \<le> v" "(c :: nat) dvd v" "n mod c \<noteq> 0"
  shows "n < v"
  using assms by (metis dvd_imp_mod_0 le_neq_implies_less)

lemma count_update:
  assumes "t < length xs" "P (xs ! t) \<Longrightarrow> P x"
  shows "length (filter P (xs[t := x])) = length (filter P xs) + (if P x \<and> \<not> P (xs ! t) then 1 else 0)"
proof -
  have "length (filter P xs) = length (filter P (take t xs @ xs ! t # drop (Suc t) xs))"
    using id_take_nth_drop [OF assms(1)] by simp
  then show ?thesis using assms by (simp add: upd_conv_take_nth_drop)
qed

lemma hasher_base_Suc: "i < length (cf_hashers cf) \<Longrightarrow> hasher_base cf (Suc i) = hasher_base cf i + cf_hashers cf ! i"
  by (simp add: hasher_base_def take_Suc_conv_app_nth)

lemma hasher_base_mono: "i \<le> j \<Longrightarrow> hasher_base cf i \<le> hasher_base cf j"
proof -
  assume "i \<le> j"
  then have "take j (cf_hashers cf) = take i (cf_hashers cf) @ drop i (take j (cf_hashers cf))"
    by (metis append_take_drop_id min.absorb1 take_take)
  then have "hasher_base cf j = sum_list (take i (cf_hashers cf) @ drop i (take j (cf_hashers cf)))"
    unfolding hasher_base_def by metis
  then show ?thesis by (simp add: hasher_base_def)
qed

lemma hasher_index_inj:
  assumes "i < length (cf_hashers cf)" "t < cf_hashers cf ! i" "j < length (cf_hashers cf)" "u < cf_hashers cf ! j"
    "hasher_base cf i + t = hasher_base cf j + u"
  shows "i = j \<and> t = u"
proof -
  have "\<not> i < j" using hasher_base_mono [of "Suc i" j cf] hasher_base_Suc [OF assms(1)] assms(2,5) by auto
  moreover have "\<not> j < i" using hasher_base_mono [of "Suc j" i cf] hasher_base_Suc [OF assms(3)] assms(4,5) by auto
  ultimately show ?thesis using assms(5) by simp
qed

lemma hasher_index_lt:
  assumes "i < length (cf_hashers cf)" "t < cf_hashers cf ! i"
  shows "hasher_base cf i + t < sum_list (cf_hashers cf)"
proof -
  have "hasher_base cf (Suc i) \<le> hasher_base cf (length (cf_hashers cf))" using assms(1) by (intro hasher_base_mono) simp
  then show ?thesis using hasher_base_Suc [OF assms(1)] assms(2) by (simp add: hasher_base_def)
qed

lemma hasher_index_ex:
  assumes "x < num_sectors cf"
  shows "\<exists>i < length (cf_hashers cf). \<exists>t < cf_hashers cf ! i. \<exists>l < NODES_PER_HASHER.
    x = (hasher_base cf i + t) * NODES_PER_HASHER + l"
proof -
  let ?g = "x div NODES_PER_HASHER"
  have N: "0 < NODES_PER_HASHER" by (simp add: constant_defs)
  have g: "?g < sum_list (cf_hashers cf)" using assms by (simp add: num_sectors_def less_mult_imp_div_less)
  have "\<exists>i < length hs. \<exists>t < hs ! i. g = sum_list (take i hs) + t" if "g < sum_list hs" for g and hs :: "nat list"
    using that
  proof (induction hs arbitrary: g)
    case (Cons h hs)
    show ?case
    proof (cases "g < h")
      case True
      then show ?thesis by (intro exI [of _ 0]) simp
    next
      case False
      then have "g - h < sum_list hs" using Cons.prems by simp
      from Cons.IH [OF this] obtain i t where "i < length hs" "t < hs ! i" "g - h = sum_list (take i hs) + t" by blast
      with False show ?thesis by (intro exI [of _ "Suc i"]) auto
    qed
  qed simp
  from this [OF g] obtain i t where it: "i < length (cf_hashers cf)" "t < cf_hashers cf ! i" "?g = hasher_base cf i + t"
    by (auto simp: hasher_base_def)
  have "x = ?g * NODES_PER_HASHER + x mod NODES_PER_HASHER" "x mod NODES_PER_HASHER < NODES_PER_HASHER" using N by simp_all
  with it show ?thesis by metis
qed


section \<open>The label of a node\<close>

lemma coord_invD:
  assumes "coord_inv cf buf lab bufs i c"
  shows "start_sector c = hasher_base cf i * NODES_PER_HASHER" "length (threads c) = cf_hashers cf ! i"
    "co_idx c = co_node c mod cf_parents cf" "coord_batch_idx c = co_node c div cf_batch cf mod cf_batches cf"
    "co_pc c = CRecover \<Longrightarrow> Suc (co_node c) mod cf_batch cf = 0"
    "co_pc c \<noteq> CRecover \<Longrightarrow> coord_batch_count c = co_node c mod cf_batch cf"
    "coord_next_valid c = copied c div cf_batch cf * cf_batch cf"
    "cf_batch cf dvd completed_node c" "completed_node c \<le> coord_next_valid c"
    "ring_at (cf_batches cf) (coord_ring c) (completed_node c div cf_batch cf)
       (copied c div cf_batch cf + (if co_pc c = CRecover then 0 else 1))"
    "done_inv cf c"
    "\<And>t. t < length (threads c) \<Longrightarrow>
      thread_inv cf bufs (completed_node c) (coord_next_valid c) (hasher_base cf i + t) (threads c ! t)"
    "\<And>m j. completed_node c \<le> m \<Longrightarrow> m < copied c \<Longrightarrow> \<not> layer_start cf m \<Longrightarrow> j < PARENT_COUNT \<Longrightarrow>
      stored_ok cf buf lab c m j"
  using assms by (auto simp: coord_inv_def split: if_splits)

lemma next_valid_le: "coord_inv cf buf lab bufs i c \<Longrightarrow> coord_next_valid c \<le> copied c"
  using coord_invD(7) [of cf buf lab bufs i c] by simp

lemma thread_invD:
  assumes "thread_inv cf bufs lo hi g th"
  shows "lo \<le> th_node th" "th_node th \<le> th_valid_nodes th" "th_valid_nodes th \<le> hi" "cf_batch cf dvd th_valid_nodes th"
    "th_i th = th_node th mod cf_batch cf" "th_coord_idx th = th_node th div cf_batch cf mod cf_batches cf"
    "th_node_idx th = node_slot cf (th_node th)" "th_offset_id th = g * NODES_PER_HASHER"
    "same_replica (th_replica th) (bufs ! g)"
  using assms by (simp_all add: thread_inv_def)

lemma hash_parents_labels:
  assumes ok: "cfg_ok cf" "graph_ok cf buf" and inv: "coord_inv cf buf lab bufs i c"
    and t: "t < length (threads c)" and th: "th = threads c ! t" and n: "n = th_node th" "n < copied c"
    and st: "\<not> layer_start cf n" and l: "l < NODES_PER_HASHER" and j: "j < PARENT_COUNT"
    and mem: "\<And>m. m < n \<Longrightarrow> n \<le> m + ring_nodes cf \<Longrightarrow>
      node_buffer_store s (node_slot cf m) (m mod cf_npp cf) (th_offset_id th + l) = lab (th_offset_id th + l) m"
  shows "hash_parents s (\<lambda>i. coord_ring_storage c (th_coord_idx th) (th_i th * PARENT_COUNT + i))
    (\<lambda>i. coord_ring_ptrs c (th_coord_idx th) (th_i th * PARENT_COUNT + i)) (th_offset_id th) t l ! j =
    lab (th_offset_id th + l) (ref_parent cf buf n j)"
proof -
  note T = thread_invD [OF coord_invD(12) [OF inv t], folded th]
  have lo: "completed_node c \<le> n" using T(1) n by simp
  from coord_invD(13) [OF inv lo n(2) st j] consider
      "coord_ring_ptrs c (th_coord_idx th) (th_i th * PARENT_COUNT + j) = node_ptr cf (ref_parent cf buf n j)"
        "n < ref_parent cf buf n j + ring_nodes cf"
    | "coord_ring_ptrs c (th_coord_idx th) (th_i th * PARENT_COUNT + j) = NullPtr"
        "\<forall>x < length (threads c) * NODES_PER_HASHER.
           coord_ring_storage c (th_coord_idx th) (th_i th * PARENT_COUNT + j) x = lab (start_sector c + x) (ref_parent cf buf n j)"
    using T(5,6) n(1) by (auto simp: stored_ok_def Let_def)
  then show ?thesis
  proof cases
    case 1
    have "0 < n" using st by (cases n) (simp_all add: layer_start_def)
    then have "ref_parent cf buf n j < n" using ref_parent_less [OF ok(2) j] st by (simp add: layer_start_def)
    with 1 mem j show ?thesis by (simp add: hash_parents_def node_ptr_def read_ptr_def)
  next
    case 2
    have "Suc t * NODES_PER_HASHER \<le> length (threads c) * NODES_PER_HASHER" using t by (intro mult_le_mono1) simp
    then have "t * NODES_PER_HASHER + l < length (threads c) * NODES_PER_HASHER" using l by simp
    with 2 j show ?thesis
      using T(8) coord_invD(1) [OF inv] by (simp add: hash_parents_def algebra_simps)
  qed
qed

lemma hash_out_label:
  assumes ok: "cfg_ok cf" "graph_ok cf buf" and inv: "coord_inv cf buf lab bufs i c"
    and t: "t < length (threads c)" and th: "th = threads c ! t" and n: "n = th_node th" "n < copied c" "n < node_total cf"
    and l: "l < NODES_PER_HASHER" and lab: "lab = sector_label sha cf buf bufs"
    and mem: "\<And>m. m < n \<Longrightarrow> n \<le> m + ring_nodes cf \<Longrightarrow>
      node_buffer_store s (node_slot cf m) (m mod cf_npp cf) (th_offset_id th + l) = lab (th_offset_id th + l) m"
  shows "hash_node sha (cf_bits cf) (word_of_nat n)
    (hash_parents s (\<lambda>i. coord_ring_storage c (th_coord_idx th) (th_i th * PARENT_COUNT + i))
       (\<lambda>i. coord_ring_ptrs c (th_coord_idx th) (th_i th * PARENT_COUNT + i)) (th_offset_id th) t)
    (th_replica th) l = lab (th_offset_id th + l) n"
proof -
  note T = thread_invD [OF coord_invD(12) [OF inv t], folded th]
  let ?g = "hasher_base cf i + t"
  have x: "lab (th_offset_id th + l) m = label sha cf buf (bufs ! ?g) l m" for m
    using l unfolding lab sector_label_def T(8) by simp
  have len: "length (hash_parents s a b c d l) = PARENT_COUNT" for a b c d by (simp add: hash_parents_def)
  show ?thesis unfolding x
  proof (rule label_step [OF ok n(3) T(9)], intro allI impI)
    fix j assume st: "n mod 2 ^ cf_bits cf \<noteq> 0" and j: "j < PARENT_COUNT"
    show "hash_parents s (\<lambda>i. coord_ring_storage c (th_coord_idx th) (th_i th * PARENT_COUNT + i))
        (\<lambda>i. coord_ring_ptrs c (th_coord_idx th) (th_i th * PARENT_COUNT + i)) (th_offset_id th) t l ! j =
        label sha cf buf (bufs ! ?g) l (ref_parent cf buf n j)"
      using hash_parents_labels [OF ok inv t th n(1,2) _ l j mem] st by (simp add: layer_start_def x)
  qed (rule len)
qed


section \<open>One step of a thread\<close>

lemma threads_update_frame [simp]:
  "copied (c\<lparr>threads := ths\<rparr>) = copied c" "copied (c\<lparr>coord_done_count := dc\<rparr>) = copied c"
  "length ths = length (threads c) \<Longrightarrow> stored_ok cf buf lab (c\<lparr>threads := ths\<rparr>) m j = stored_ok cf buf lab c m j"
  "stored_ok cf buf lab (c\<lparr>coord_done_count := dc\<rparr>) m j = stored_ok cf buf lab c m j"
  by (simp_all add: copied_def stored_ok_def)

lemma coord_inv_threads:
  assumes "coord_inv cf buf lab bufs i c" "length ths = length (threads c)"
    "done_inv cf (c\<lparr>threads := ths, coord_done_count := dc\<rparr>)"
    "\<And>t. t < length ths \<Longrightarrow> thread_inv cf bufs (completed_node c) (coord_next_valid c) (hasher_base cf i + t) (ths ! t)"
  shows "coord_inv cf buf lab bufs i (c\<lparr>threads := ths, coord_done_count := dc\<rparr>)"
  using assms by (simp add: coord_inv_def)

lemma thread_busy:
  assumes "coord_inv cf buf lab bufs i c" "t < length (threads c)" "cfg_ok cf"
    "th_i (threads c ! t) > 0 \<or> th_node (threads c ! t) < th_valid_nodes (threads c ! t)"
  shows "th_node (threads c ! t) < th_valid_nodes (threads c ! t)" "th_node (threads c ! t) < coord_next_valid c"
    "th_node (threads c ! t) < copied c"
proof -
  note T = thread_invD [OF coord_invD(12) [OF assms(1,2)]]
  show "th_node (threads c ! t) < th_valid_nodes (threads c ! t)"
    using assms(4) T(5) multiple_less [OF T(2,4)] by auto
  then show "th_node (threads c ! t) < coord_next_valid c" using T(3) by simp
  then show "th_node (threads c ! t) < copied c" using next_valid_le [OF assms(1)] by simp
qed

lemma hasher_next_inv:
  assumes ok: "cfg_ok cf" and T: "thread_inv cf bufs lo hi g th" and n: "th_node th < th_valid_nodes th" "th_node th < node_total cf"
  shows "thread_inv cf bufs lo hi g (hasher_next cf (th\<lparr>th_replica := set_cur_loc a b (th_replica th)\<rparr>))"
    "th_node (hasher_next cf (th\<lparr>th_replica := r\<rparr>)) = Suc (th_node th)"
proof -
  have sa: "size_add (th_node th) 1 = Suc (th_node th)"
    using n(2) node_total_bound [OF ok] by (simp add: SIZE_MOD_def)
  then show "th_node (hasher_next cf (th\<lparr>th_replica := r\<rparr>)) = Suc (th_node th)" by (simp add: hasher_next_def Let_def)
  note D = thread_invD [OF T]
  have "0 < cf_batch cf" using cfg_okD(7) [OF ok] .
  note bs = batch_Suc [OF this, of "th_node th"]
  have ci: "rb_incr (cf_batches cf) (th_node th div cf_batch cf mod cf_batches cf) = Suc (th_node th div cf_batch cf) mod cf_batches cf"
    using rb_incr_mod cfg_okD(8,9) [OF ok] by simp
  show "thread_inv cf bufs lo hi g (hasher_next cf (th\<lparr>th_replica := set_cur_loc a b (th_replica th)\<rparr>))"
    using D n(1) sa bs ci node_slot_Suc [OF ok, of "th_node th"] next_page [OF ok n(2)] same_replica_set [OF D(9)]
    by (simp add: thread_inv_def hasher_next_def Let_def del: of_nat_Suc)
qed

lemma done_inv_hash:
  assumes ok: "cfg_ok cf" and inv: "coord_inv cf buf lab bufs i c" and t: "t < length (threads c)"
    and n: "n = th_node (threads c ! t)" "n < coord_next_valid c" "th_node th' = Suc n"
    and dc: "dc = (if n mod cf_batch cf + 1 = cf_batch cf
      then (coord_done_count c)[n div cf_batch cf mod cf_batches cf :=
        coord_done_count c ! (n div cf_batch cf mod cf_batches cf) + 1] else coord_done_count c)"
  shows "done_inv cf (c\<lparr>threads := (threads c)[t := th'], coord_done_count := dc\<rparr>)"
proof -
  let ?B = "cf_batch cf" and ?C = "cf_batches cf"
  let ?lo = "completed_node c div ?B" and ?b0 = "n div ?B"
  have B: "0 < ?B" using cfg_okD(7) [OF ok] .
  have D: "length (coord_done_count c) = ?C"
    "\<And>b. ?lo \<le> b \<Longrightarrow> b < ?lo + ?C \<Longrightarrow> coord_done_count c ! (b mod ?C) =
      length (filter (\<lambda>th. Suc b * ?B \<le> th_node th) (threads c))"
    using coord_invD(11) [OF inv] by (simp_all add: done_inv_def)
  have T1: "completed_node c \<le> n" using thread_invD(1) [OF coord_invD(12) [OF inv t]] n(1) by simp
  then have lo: "?lo \<le> ?b0" by (rule div_le_mono)
  have "?b0 \<le> copied c div ?B" using n(2) next_valid_le [OF inv] by (intro div_le_mono) simp
  moreover have "copied c div ?B < ?lo + ?C" using ring_atD(3) [OF coord_invD(10) [OF inv]] by (simp split: if_splits)
  ultimately have hi: "?b0 < ?lo + ?C" by simp
  have pass: "Suc b * ?B \<le> Suc n \<and> \<not> Suc b * ?B \<le> n \<longleftrightarrow> n mod ?B + 1 = ?B \<and> b = ?b0" for b
  proof
    assume "Suc b * ?B \<le> Suc n \<and> \<not> Suc b * ?B \<le> n"
    then have e: "Suc n = Suc b * ?B" by simp
    then have "Suc n mod ?B = 0" "Suc n div ?B = Suc b" using B by (simp_all del: mult_Suc)
    with batch_Suc [OF B, of n] show "n mod ?B + 1 = ?B \<and> b = ?b0" by (auto split: if_splits)
  next
    assume a: "n mod ?B + 1 = ?B \<and> b = ?b0"
    have "Suc n = ?b0 * ?B + (n mod ?B + 1)" by simp
    also have "\<dots> = Suc b * ?B" using a by simp
    finally show "Suc b * ?B \<le> Suc n \<and> \<not> Suc b * ?B \<le> n" by simp
  qed
  have "dc ! (b mod ?C) = length (filter (\<lambda>th. Suc b * ?B \<le> th_node th) ((threads c)[t := th']))"
    if b: "?lo \<le> b" "b < ?lo + ?C" for b
  proof -
    have "length (filter (\<lambda>th. Suc b * ?B \<le> th_node th) ((threads c)[t := th'])) =
      coord_done_count c ! (b mod ?C) + (if n mod ?B + 1 = ?B \<and> b = ?b0 then 1 else 0)"
      using count_update [OF t, of "\<lambda>th. Suc b * ?B \<le> th_node th" th'] n D(2) [OF b] pass [of b] by simp
    moreover have "b mod ?C = ?b0 mod ?C \<longleftrightarrow> b = ?b0" using slot_inj [of b ?C ?b0] b lo hi by auto
    moreover have "b mod ?C < length (coord_done_count c)" using D(1) cfg_okD(8) [OF ok] by simp
    ultimately show ?thesis unfolding dc by (auto simp: nth_list_update)
  qed
  with D(1) dc show ?thesis by (simp add: done_inv_def)
qed

lemma run_thread_hash_spec:
  assumes ok: "cfg_ok cf" "graph_ok cf buf" and inv: "coord_inv cf buf lab bufs i c" and t: "t < length (threads c)"
    and th: "th = threads c ! t" and busy: "th_i th > 0 \<or> th_node th < th_valid_nodes th"
    and total: "copied c \<le> node_total cf" and lab: "lab = sector_label sha cf buf bufs"
    and ring: "ring_at (cf_nodes cf) (node_buffer s) a b"
    and mem: "\<And>m l. l < NODES_PER_HASHER \<Longrightarrow> m < th_node th \<Longrightarrow> th_node th \<le> m + ring_nodes cf \<Longrightarrow>
      node_buffer_store s (node_slot cf m) (m mod cf_npp cf) (th_offset_id th + l) = lab (th_offset_id th + l) m"
  shows "\<exists>th' dc out. run_thread_hash sha cf t th s c =
      Inr (hash_store (node_slot cf (th_node th)) (th_node th mod cf_npp cf) (th_offset_id th) out s,
           c\<lparr>threads := (threads c)[t := th'], coord_done_count := dc\<rparr>) \<and>
    th_node th' = Suc (th_node th) \<and> th_offset_id th' = th_offset_id th \<and>
    (\<forall>l < NODES_PER_HASHER. out l = lab (th_offset_id th + l) (th_node th)) \<and>
    coord_inv cf buf lab bufs i (c\<lparr>threads := (threads c)[t := th'], coord_done_count := dc\<rparr>)"
proof -
  note T0 = coord_invD(12) [OF inv t, folded th]
  note T = thread_invD [OF T0]
  note n = thread_busy [OF inv t ok(1), folded th, OF busy]
  have nt: "th_node th < node_total cf" using n(3) total by simp
  let ?n = "th_node th"
  let ?a = "node_id_layer (cf_bits cf) (word_of_nat ?n) + 1" and ?b = "node_id_node (cf_bits cf) (word_of_nat ?n)"
  define out where "out = hash_node sha (cf_bits cf) (word_of_nat ?n)
    (hash_parents s (\<lambda>i. coord_ring_storage c (th_coord_idx th) (th_i th * PARENT_COUNT + i))
       (\<lambda>i. coord_ring_ptrs c (th_coord_idx th) (th_i th * PARENT_COUNT + i)) (th_offset_id th) t) (th_replica th)"
  define th' where "th' = hasher_next cf (th\<lparr>th_replica := set_cur_loc ?a ?b (th_replica th)\<rparr>)"
  define dc where "dc = (if ?n mod cf_batch cf + 1 = cf_batch cf
      then (coord_done_count c)[?n div cf_batch cf mod cf_batches cf :=
        coord_done_count c ! (?n div cf_batch cf mod cf_batches cf) + 1] else coord_done_count c)"
  have pg: "unat ?b mod cf_npp cf = ?n mod cf_npp cf"
    using node_in_page [OF ok(1)] unat_node [OF ok(1), of ?n] nt by simp
  have ge: "get_entry (node_buffer s) (th_node_idx th) = Some (node_slot cf ?n)"
    using ring_at_get_entry [OF ring] T(7) by simp
  have dlen: "length (coord_done_count c) = cf_batches cf" using coord_invD(11) [OF inv] by (simp add: done_inv_def)
  have ci: "th_coord_idx th < cf_batches cf" using T(6) cfg_okD(8) [OF ok(1)] by simp
  have "run_thread_hash sha cf t th s c =
      Inr (hash_store (node_slot cf ?n) (?n mod cf_npp cf) (th_offset_id th) out s,
           c\<lparr>threads := (threads c)[t := th'], coord_done_count := dc\<rparr>)"
    using ge pg dlen ci T(5,6)
    by (simp add: run_thread_hash_def hash_def Let_def out_def th'_def dc_def)
  moreover have "th_node th' = Suc ?n" "th_offset_id th' = th_offset_id th"
    using hasher_next_inv(2) [OF ok(1) T0 n(1) nt] by (simp_all add: th'_def) (simp add: hasher_next_def Let_def)
  moreover have "\<forall>l < NODES_PER_HASHER. out l = lab (th_offset_id th + l) ?n"
    unfolding out_def using hash_out_label [OF ok inv t th refl n(3) nt _ lab mem] by blast
  moreover have "coord_inv cf buf lab bufs i (c\<lparr>threads := (threads c)[t := th'], coord_done_count := dc\<rparr>)"
  proof (rule coord_inv_threads [OF inv])
    show "done_inv cf (c\<lparr>threads := (threads c)[t := th'], coord_done_count := dc\<rparr>)"
      using done_inv_hash [OF ok(1) inv t] th n(2) hasher_next_inv(2) [OF ok(1) T0 n(1) nt] dc_def th'_def by blast
    show "thread_inv cf bufs (completed_node c) (coord_next_valid c) (hasher_base cf i + u) ((threads c)[t := th'] ! u)"
      if "u < length ((threads c)[t := th'])" for u
      using that coord_invD(12) [OF inv, of u] hasher_next_inv(1) [OF ok(1) T0 n(1) nt] t
      by (cases "u = t") (simp_all add: th'_def)
  qed simp
  ultimately show ?thesis by blast
qed

end
