(* ===== verification/PC1_IO.thy ===== *)
theory PC1_IO
  imports PC1_Inv
begin

text \<open>
  The reader, the writer and the disks keep the invariant of PC1.
\<close>

section \<open>Issuing requests\<close>

definition mk_req :: "pc1_cfg \<Rightarrow> nat \<Rightarrow> node_io_t \<Rightarrow> nat \<Rightarrow> io_req_t" where
  "mk_req cf slot io j =
     \<lparr>rq_slot = slot, rq_j = j, rq_type = io_type io, rq_ctrl = page_ctrl cf (unat (io_node io)),
      rq_block = size_add (unat (io_node io) div cf_npp cf div cf_disks cf) (cf_offset cf), rq_done = False\<rparr>"

lemma mk_req_simps [simp]:
  "rq_slot (mk_req cf slot io j) = slot" "rq_j (mk_req cf slot io j) = j"
  "rq_type (mk_req cf slot io j) = io_type io" "\<not> rq_done (mk_req cf slot io j)"
  by (simp_all add: mk_req_def)

lemma nvme_node_indexes_eq:
  assumes "0 < disks" "node < SIZE_MOD"
  shows "nvme_node_indexes npp disks node = (node div npp mod disks, node div npp div disks)"
proof -
  let ?b = "node div npp"
  have "?b \<le> node" by (rule div_le_dividend)
  then have b: "?b < SIZE_MOD" using assms(2) by (rule le_less_trans)
  have le: "?b div disks * disks \<le> ?b" by simp
  then have m: "size_mul (?b div disks) disks = ?b div disks * disks" using b by (intro size_mul_small) linarith
  have "size_sub ?b (size_mul (?b div disks) disks) = ?b - ?b div disks * disks"
    unfolding m by (rule size_sub_small [OF le b])
  also have "\<dots> = ?b mod disks" by (simp add: minus_div_mult_eq_mod)
  finally show ?thesis by (simp add: nvme_node_indexes_def Let_def)
qed

lemma rw_issue_eq:
  assumes "cfg_ok cf"
  shows "rw_issue cf slot io j rw =
    Inr (if io_type io = NOP then rw else rw\<lparr>rw_inflight := rw_inflight rw @ [mk_req cf slot io j]\<rparr>)"
proof -
  have "unat (io_node io) < SIZE_MOD" using unat64_lt [of "io_node io"] by (simp add: SIZE_MOD_def)
  from nvme_node_indexes_eq [OF cfg_okD(11) [OF assms] this] show ?thesis
    using cfg_okD(11) [OF assms] by (simp add: rw_issue_def mk_req_def page_ctrl_def)
qed

lemma rw_issue_fold:
  assumes "cfg_ok cf"
  shows "fold_result (\<lambda>j. rw_issue cf slot (ios j) j) js rw =
    Inr (rw\<lparr>rw_inflight := rw_inflight rw @
      map (\<lambda>j. mk_req cf slot (ios j) j) (filter (\<lambda>j. io_type (ios j) \<noteq> NOP) js)\<rparr>)"
  by (induction js arbitrary: rw) (simp_all add: rw_issue_eq [OF assms])

lemma rw_batch_eq:
  assumes "cfg_ok cf" "fifo_inv q" "fifo_list q = Some slot # qs"
  shows "\<exists>q'. rw_batch cf batch_size ios q rw =
      Inr (q', \<lparr>rw_todo = rw_todo rw - 1, rw_inflight = rw_inflight rw @
        map (\<lambda>j. mk_req cf slot (ios slot j) j) (filter (\<lambda>j. io_type (ios slot j) \<noteq> NOP) [0..<batch_size])\<rparr>) \<and>
    fifo_inv q' \<and> fifo_list q' = qs \<and> fifo_capacity q' = fifo_capacity q"
  using mtq.deq_cons [OF assms(2,3)]
  by (auto simp: rw_batch_def rw_issue_fold [OF assms(1)])

lemma page_block_word:
  assumes "cfg_ok cf" "p < node_total cf" "w = word_of_nat p"
  shows "page_ctrl cf (unat (w :: 64 word)) = page_ctrl cf p"
    "size_add (unat w div cf_npp cf div cf_disks cf) (cf_offset cf) = page_block cf p"
proof -
  have u: "unat w = p" using unat_node [OF assms(1), of p] assms(2,3) by simp
  have "p div cf_npp cf div cf_disks cf \<le> p" by (meson div_le_dividend order_trans)
  then have "p div cf_npp cf div cf_disks cf + cf_offset cf < SIZE_MOD"
    using node_total_bound [OF assms(1)] cfg_okD(13) [OF assms(1)] assms(2) by (simp add: SIZE_MOD_def)
  with u show "page_ctrl cf (unat w) = page_ctrl cf p"
    "size_add (unat w div cf_npp cf div cf_disks cf) (cf_offset cf) = page_block cf p"
    by (simp_all add: page_block_def)
qed


section \<open>The reader\<close>

lemma parent_ok_read:
  assumes "parent_ok cf buf s w n (j + 1)" "io_type (parent_buffer_io s (n mod cf_parents cf) j) = READ"
  shows "ref_parent cf buf n (j + 1) < w"
    "io_node (parent_buffer_io s (n mod cf_parents cf) j) = word_of_nat (ref_parent cf buf n (j + 1))"
    "parent_ptrs s (n mod cf_parents cf) (j + 1) =
      PagePtr (n mod cf_parents cf) j (ref_parent cf buf n (j + 1) mod cf_npp cf)"
  using assms by (auto simp: parent_ok_def Let_def)

lemma desc_invD:
  assumes "desc_inv cf buf s w lo hi" "lo \<le> n" "n < hi" "\<not> layer_start cf n" "j < PARENT_COUNT"
  shows "parent_ok cf buf s w n j"
  using assms by (simp add: desc_inv_def)

lemma req_not_issued:
  assumes "req_ok cf lo issued res r" "issued \<le> n" "n \<le> res"
  shows "rq_slot r \<noteq> n mod cf_parents cf"
proof
  assume e: "rq_slot r = n mod cf_parents cf"
  from assms(1) obtain m where m: "rq_slot r = m mod cf_parents cf" "m < issued" "res < m + cf_parents cf"
    by (auto simp: req_ok_def)
  have "m = n" by (rule slot_inj [of m "cf_parents cf"]) (use m e assms in auto)
  with m assms show False by simp
qed

lemma filter_not_NOP:
  assumes "io_static cf s" "i < cf_parents cf"
  shows "filter (\<lambda>j. io_type (parent_buffer_io s i j) \<noteq> NOP) [0..<PAGE_BATCH_SIZE] =
    filter (\<lambda>j. io_type (parent_buffer_io s i j) = READ) [0..<PAGE_BATCH_SIZE]"
  using assms by (intro filter_cong) (auto simp: io_static_def, metis io_type.exhaust)

lemma pending_append [simp]: "pending (rs @ rs') i = pending rs i + pending rs' i"
  by (simp add: pending_def)

lemma pending_0: "(\<And>r. r \<in> set rs \<Longrightarrow> rq_slot r \<noteq> i) \<Longrightarrow> pending rs i = 0"
  by (auto simp: pending_def filter_empty_conv)

lemma pending_new [simp]:
  "pending (map (\<lambda>j. mk_req cf slot (ios j) j) js) i = (if i = slot then length js else 0)"
  by (induction js) (auto simp: pending_def)

lemma slot_inv_issue_other:
  assumes "slot_inv cf buf lab s rs issued n" "n \<noteq> issued" "n mod cf_parents cf \<noteq> slot"
  shows "slot_inv cf buf lab s (rs @ map (\<lambda>j. mk_req cf slot (ios j) j) js) (Suc issued) n"
  using assms by (auto simp: slot_inv_def Let_def less_Suc_eq)

lemma slot_inv_issue:
  assumes ok: "cfg_ok cf" and inv: "slot_inv cf buf lab s rs n n" and i: "i = n mod cf_parents cf"
    and old: "\<And>r. r \<in> set rs \<Longrightarrow> rq_slot r \<noteq> i"
    and desc: "\<And>j. j < PARENT_COUNT \<Longrightarrow> parent_ok cf buf s w n j" and w: "w \<le> node_total cf"
  shows "slot_inv cf buf lab s (rs @ map (\<lambda>j. mk_req cf i (parent_buffer_io s i j) j)
    (filter (\<lambda>j. io_type (parent_buffer_io s i j) = READ) [0..<PAGE_BATCH_SIZE])) (Suc n) n"
    (is "slot_inv _ _ _ _ (rs @ ?new) _ _")
proof -
  have P: "PARENT_COUNT = Suc PAGE_BATCH_SIZE" by (simp add: constant_defs)
  have "pending (rs @ ?new) i = reads_of s i" using pending_0 [of rs i] old by (simp add: reads_of_def)
  then have "valid (parent_buffer s) ! i + pending (rs @ ?new) i = PAGE_BATCH_SIZE"
    using inv i by (simp add: slot_inv_def Let_def)
  moreover have "\<exists>r \<in> set (rs @ ?new). rq_slot r = i \<and> rq_j r = j \<and> \<not> rq_done r"
    if "j < PAGE_BATCH_SIZE" "io_type (parent_buffer_io s i j) = READ" for j
    using that by (intro bexI [of _ "mk_req cf i (parent_buffer_io s i j) j"]) auto
  moreover have "ref_parent cf buf n (rq_j r + 1) < node_total cf \<and>
      io_type (parent_buffer_io s i (rq_j r)) = READ \<and>
      rq_ctrl r = page_ctrl cf (ref_parent cf buf n (rq_j r + 1)) \<and>
      rq_block r = page_block cf (ref_parent cf buf n (rq_j r + 1))"
    if "r \<in> set (rs @ ?new)" "rq_slot r = i" for r
  proof -
    from that old obtain j where j: "j < PAGE_BATCH_SIZE" "io_type (parent_buffer_io s i j) = READ"
      "r = mk_req cf i (parent_buffer_io s i j) j" by auto
    note p = parent_ok_read [OF desc [of "j + 1"], folded i, OF _ j(2)]
    have lt: "ref_parent cf buf n (j + 1) < node_total cf" using p(1) j(1) w P by simp
    with page_block_word [OF ok lt p(2)] j P show ?thesis by (simp add: mk_req_def)
  qed
  ultimately show ?thesis using i by (simp add: slot_inv_def Let_def)
qed

lemma fifo_shape_head:
  assumes "fifo_shape cf q node res" "fifo_list q \<noteq> []"
  defines "n0 \<equiv> node - length (fifo_list q)"
  shows "fifo_list q = Some (n0 mod cf_parents cf) # map (\<lambda>n. Some (n mod cf_parents cf)) [Suc n0..<node]"
    "n0 < node" "0 < n0"
proof -
  let ?k = "length (fifo_list q)"
  have k: "0 < ?k" "?k < node" using assms by (auto simp: fifo_shape_def)
  then show "n0 < node" "0 < n0" by (auto simp: n0_def)
  then show "fifo_list q = Some (n0 mod cf_parents cf) # map (\<lambda>n. Some (n mod cf_parents cf)) [Suc n0..<node]"
    using assms(1) upt_conv_Cons [of n0 node] by (simp add: fifo_shape_def n0_def)
qed

lemma read_inv_issue:
  assumes ok: "cfg_ok cf" and inv: "read_inv cf buf lab s rs lo node res"
    and shape: "fifo_shape cf (parent_read_fifo s) node res" and ne: "fifo_list (parent_read_fifo s) \<noteq> []"
    and desc: "desc_inv cf buf s w lo node" and w: "w \<le> node_total cf" and io: "io_static cf s"
    and pos: "node \<le> res" "res < lo + cf_parents cf"
    and i: "i = (node - length (fifo_list (parent_read_fifo s))) mod cf_parents cf"
    and q: "fifo_list q = tl (fifo_list (parent_read_fifo s))"
  shows "read_inv cf buf lab (s\<lparr>parent_read_fifo := q\<rparr>) (rs @ map (\<lambda>j. mk_req cf i (parent_buffer_io s i j) j)
    (filter (\<lambda>j. io_type (parent_buffer_io s i j) \<noteq> NOP) [0..<PAGE_BATCH_SIZE])) lo node res"
proof -
  define n0 where "n0 = node - length (fifo_list (parent_read_fifo s))"
  define js where "js = filter (\<lambda>j. io_type (parent_buffer_io s i j) = READ) [0..<PAGE_BATCH_SIZE]"
  define new where "new = map (\<lambda>j. mk_req cf i (parent_buffer_io s i j) j) js"
  have i0: "i = n0 mod cf_parents cf" "i < cf_parents cf" using i cfg_okD(3) [OF ok] by (auto simp: n0_def)
  note h = fifo_shape_head [OF shape ne, folded n0_def]
  have near: "res < n0 + cf_parents cf"
    using shape h(2) pos(1) cfg_okD(12) [OF ok] by (auto simp: fifo_shape_def n0_def)
  have "length (fifo_list (parent_read_fifo s)) < node" using shape ne by (auto simp: fifo_shape_def)
  then have len: "node - length (fifo_list q) = Suc n0" using ne q by (cases "fifo_list (parent_read_fifo s)") (auto simp: n0_def)
  have R: "\<forall>r \<in> set rs. req_ok cf lo n0 res r"
    "\<forall>n. lo \<le> n \<and> n < node \<and> \<not> layer_start cf n \<longrightarrow> slot_inv cf buf lab s rs n0 n"
    "\<forall>n. n0 \<le> n \<and> n < lo \<and> \<not> layer_start cf n \<longrightarrow> reads_of s (n mod cf_parents cf) = 0"
    "\<forall>n. node \<le> n \<and> n \<le> res \<longrightarrow> valid (parent_buffer s) ! (n mod cf_parents cf) = 0"
    "\<forall>n. lo \<le> n \<and> n < node \<and> layer_start cf n \<longrightarrow> start_inv cf s rs n0 n"
    using inv by (simp_all add: read_inv_def Let_def n0_def)
  have old: "rq_slot r \<noteq> i" if "r \<in> set rs" for r
    using req_not_issued [of cf lo n0 res r n0] R(1) that i0(1) h(2) pos(1) by simp
  have neq: "n mod cf_parents cf \<noteq> i" if "n \<noteq> n0" "lo \<le> n" "n < node" for n
    using slot_inj [of n "cf_parents cf" n0] that near pos h(2) i0(1) by auto
  have "req_ok cf lo (Suc n0) res r" if rin: "r \<in> set (rs @ new)" for r
  proof (cases "r \<in> set rs")
    case True
    with R(1) show ?thesis by (auto simp: req_ok_def) (meson less_SucI)+
  next
    case False
    then obtain j where j: "j < PAGE_BATCH_SIZE" "io_type (parent_buffer_io s i j) = READ"
      "r = mk_req cf i (parent_buffer_io s i j) j" using rin by (auto simp: new_def js_def)
    then have "0 < reads_of s i" by (auto simp: reads_of_def filter_empty_conv)
    then have "layer_start cf n0 \<or> lo \<le> n0" using R(3) i0(1) by (metis le_refl not_gr_zero not_le_imp_less)
    with j i0 near show ?thesis by (auto simp: req_ok_def)
  qed
  moreover have "slot_inv cf buf lab s (rs @ new) (Suc n0) n"
    if n: "lo \<le> n" "n < node" "\<not> layer_start cf n" for n
  proof (cases "n = n0")
    case True
    have d: "parent_ok cf buf s w n0 j" if "j < PARENT_COUNT" for j
      using desc_invD [OF desc] n True that by simp
    show ?thesis unfolding True new_def js_def
      using slot_inv_issue [OF ok _ i0(1) old d w] R(2) n True by simp
  next
    case False
    with slot_inv_issue_other [of cf buf lab s rs n0 n i] neq R(2) n show ?thesis by (simp add: new_def)
  qed
  moreover have "start_inv cf s (rs @ new) (Suc n0) n" if n: "lo \<le> n" "n < node" "layer_start cf n" for n
  proof (cases "n = n0")
    case True
    have "pending new i = reads_of s i" by (simp add: new_def js_def reads_of_def)
    then show ?thesis using R(5) n pending_0 [OF old] by (auto simp: start_inv_def Let_def True i0(1))
  next
    case False
    then have "pending new (n mod cf_parents cf) = 0" "n < Suc n0 \<longleftrightarrow> n < n0" using neq n by (auto simp: new_def)
    moreover have "start_inv cf s rs n0 n" using R(5) n by simp
    ultimately show ?thesis by (simp add: start_inv_def Let_def split: if_splits)
  qed
  ultimately show ?thesis
    using R(3,4) by (simp add: read_inv_def Let_def len filter_not_NOP [OF io i0(2)] flip: new_def js_def)
qed


lemma fifo_shape_deq:
  assumes "fifo_shape cf q node res" "fifo_list q \<noteq> []" "fifo_inv q'" "fifo_list q' = tl (fifo_list q)"
    "fifo_capacity q' = fifo_capacity q"
  shows "fifo_shape cf q' node res"
proof -
  define n0 where "n0 = node - length (fifo_list q)"
  note h = fifo_shape_head [OF assms(1,2), folded n0_def]
  have k: "length (fifo_list q) < node" "0 < length (fifo_list q)" using assms(1,2) by (auto simp: fifo_shape_def)
  then have "Suc n0 = node - (length (fifo_list q) - 1)" unfolding n0_def by linarith
  then have "fifo_list q' = map (\<lambda>n. Some (n mod cf_parents cf)) [node - length (fifo_list q')..<node]"
    using h(1) assms(4) by (metis length_tl list.sel(3))
  with k assms show ?thesis by (auto simp: fifo_shape_def)
qed

lemma in_set_update_neq:
  assumes "r \<in> set rs" "r \<noteq> rs ! k"
  shows "r \<in> set (rs[k := x])"
  using assms by (metis in_set_conv_nth length_list_update nth_list_update_neq)

lemma in_set_remove_nth:
  assumes "r \<in> set rs" "k < length rs" "r \<noteq> rs ! k"
  shows "r \<in> set (remove_nth k rs)"
  using assms id_take_nth_drop [OF assms(2)]
  by (metis Un_iff remove_nth_def set_ConsD set_append)

lemma set_remove_nth_subset: "set (remove_nth k rs) \<subseteq> set rs"
  by (auto simp: remove_nth_def dest: in_set_takeD in_set_dropD)

lemma distinct_remove_nth:
  assumes "distinct (map f xs)" "k < length xs"
  shows "distinct (map f (remove_nth k xs))"
proof -
  have "distinct (map f (take k xs @ xs ! k # drop (Suc k) xs))" using assms id_take_nth_drop [OF assms(2)] by simp
  then show ?thesis by (simp add: remove_nth_def)
qed

lemma pending_remove_nth:
  assumes "k < length rs"
  shows "pending rs i = pending (remove_nth k rs) i + (if rq_slot (rs ! k) = i then 1 else 0)"
proof -
  have "pending rs i = pending (take k rs @ rs ! k # drop (Suc k) rs) i"
    using id_take_nth_drop [OF assms] by simp
  then show ?thesis by (simp add: pending_def remove_nth_def)
qed

lemma pending_set_done:
  assumes "k < length rs"
  shows "pending (rs[k := (rs ! k)\<lparr>rq_done := True\<rparr>]) i = pending rs i"
  unfolding upd_conv_take_nth_drop [OF assms]
  by (subst (3) id_take_nth_drop [OF assms]) (simp add: pending_def)

lemma req_ok_done [simp]: "req_ok cf lo issued res (r\<lparr>rq_done := b\<rparr>) = req_ok cf lo issued res r"
  by (simp add: req_ok_def)

lemma slot_inv_transfer:
  assumes inv: "slot_inv cf buf lab s rs issued n" and k: "k < length rs" and ty: "rq_type (rs ! k) = READ"
    and jr: "rq_j (rs ! k) < PAGE_BATCH_SIZE"
    and desc: "\<And>j. j < PARENT_COUNT \<Longrightarrow> parent_ok cf buf s w n j" and disk: "disk_inv cf lab d w"
    and fifo: "issued \<le> n \<Longrightarrow> rq_slot (rs ! k) \<noteq> n mod cf_parents cf"
  shows "slot_inv cf buf lab (fst (parent_transfer (rs ! k) s d)) (rs[k := (rs ! k)\<lparr>rq_done := True\<rparr>]) issued n"
proof -
  let ?r = "rs ! k" and ?i = "n mod cf_parents cf" and ?s = "fst (parent_transfer (rs ! k) s d)"
    and ?rs = "rs[k := (rs ! k)\<lparr>rq_done := True\<rparr>]"
  have P: "PARENT_COUNT = Suc PAGE_BATCH_SIZE" by (simp add: constant_defs)
  have same: "parent_buffer ?s = parent_buffer s" "parent_buffer_io ?s = parent_buffer_io s"
    by (simp_all add: parent_transfer_def)
  then have ro: "reads_of ?s = reads_of s" by (simp add: reads_of_def fun_eq_iff)
  have addr: "rq_ctrl r = page_ctrl cf (ref_parent cf buf n (rq_j r + 1)) \<and>
      rq_block r = page_block cf (ref_parent cf buf n (rq_j r + 1)) \<and> io_type (parent_buffer_io s ?i (rq_j r)) = READ \<and>
      ref_parent cf buf n (rq_j r + 1) < node_total cf"
    if "n < issued" "r \<in> set rs" "rq_slot r = ?i" for r
    using inv that by (simp add: slot_inv_def Let_def)
  have "page_ok cf lab ?s ?i j (ref_parent cf buf n (j + 1)) \<or>
      (\<exists>r \<in> set ?rs. rq_slot r = ?i \<and> rq_j r = j \<and> \<not> rq_done r)"
    if n: "n < issued" and j: "j < PAGE_BATCH_SIZE" "io_type (parent_buffer_io s ?i j) = READ" for j
  proof (cases "rq_slot ?r = ?i \<and> rq_j ?r = j")
    case True
    have "ref_parent cf buf n (j + 1) < w" using parent_ok_read(1) [OF desc [of "j + 1"] j(2)] j(1) P by simp
    then have "disk_ok cf lab d (ref_parent cf buf n (j + 1))" using disk by (simp add: disk_inv_def)
    with True addr [OF n nth_mem [OF k]] ty show ?thesis
      by (auto simp: page_ok_def disk_ok_def parent_transfer_def)
  next
    case False
    then have st: "parent_buffer_store ?s ?i j = parent_buffer_store s ?i j"
      by (auto simp: parent_transfer_def)
    from inv n j consider "page_ok cf lab s ?i j (ref_parent cf buf n (j + 1))"
      | r where "r \<in> set rs" "rq_slot r = ?i" "rq_j r = j" "\<not> rq_done r"
      by (auto simp: slot_inv_def Let_def)
    then show ?thesis
    proof cases
      case 2
      with False in_set_update_neq [of r rs k] show ?thesis by auto
    qed (simp add: page_ok_def st)
  qed
  moreover have "r \<in> set ?rs \<Longrightarrow> r \<in> set rs \<or> r = ?r\<lparr>rq_done := True\<rparr>" for r
    using set_update_subset_insert [of rs k] by blast
  ultimately show ?thesis
    using inv k addr nth_mem [OF k] fifo
    by (fastforce simp: slot_inv_def Let_def same ro pending_set_done)
qed

lemma read_inv_transfer:
  assumes inv: "read_inv cf buf lab s rs lo node res" and k: "k < length rs"
    and desc: "desc_inv cf buf s w lo node" and disk: "disk_inv cf lab d w" and pos: "node \<le> res"
  shows "read_inv cf buf lab (fst (parent_transfer (rs ! k) s d)) (rs[k := (rs ! k)\<lparr>rq_done := True\<rparr>]) lo node res"
proof -
  let ?s = "fst (parent_transfer (rs ! k) s d)" and ?rs = "rs[k := (rs ! k)\<lparr>rq_done := True\<rparr>]"
  let ?issued = "node - length (fifo_list (parent_read_fifo s))"
  have same: "parent_buffer ?s = parent_buffer s" "parent_buffer_io ?s = parent_buffer_io s"
    "parent_read_fifo ?s = parent_read_fifo s"
    by (simp_all add: parent_transfer_def)
  then have ro: "reads_of ?s = reads_of s" by (simp add: reads_of_def fun_eq_iff)
  have R: "\<forall>r \<in> set rs. req_ok cf lo ?issued res r" using inv by (simp add: read_inv_def Let_def)
  then have r: "req_ok cf lo ?issued res (rs ! k)" using k by simp
  have "req_ok cf lo ?issued res r" if "r \<in> set ?rs" for r
    using subsetD [OF set_update_subset_insert that] R r by auto
  moreover have "slot_inv cf buf lab ?s ?rs ?issued n" if n: "lo \<le> n" "n < node" "\<not> layer_start cf n" for n
  proof (rule slot_inv_transfer [OF _ k _ _ _ disk])
    show "slot_inv cf buf lab s rs ?issued n" using inv n by (simp add: read_inv_def Let_def)
    show "rq_type (rs ! k) = READ" "rq_j (rs ! k) < PAGE_BATCH_SIZE" using r by (simp_all add: req_ok_def)
    show "\<And>j. j < PARENT_COUNT \<Longrightarrow> parent_ok cf buf s w n j" using desc_invD [OF desc n] .
    show "?issued \<le> n \<Longrightarrow> rq_slot (rs ! k) \<noteq> n mod cf_parents cf"
      using req_not_issued [OF r] n pos by simp
  qed
  moreover have "start_inv cf ?s ?rs ?issued n = start_inv cf s rs ?issued n" for n
    by (simp add: start_inv_def same ro pending_set_done [OF k])
  ultimately show ?thesis using inv by (simp add: read_inv_def Let_def same ro)
qed


lemma read_slot:
  assumes "req_ok cf lo issued res r" "cfg_ok cf" "issued \<le> res"
  shows "rq_slot r < cf_parents cf" "rq_slot r \<noteq> res mod cf_parents cf"
  using assms req_not_issued [OF assms(1,3)] cfg_okD(3) [OF assms(2)] by (auto simp: req_ok_def)

lemma slot_inv_valid_le: "slot_inv cf buf lab s rs issued n \<Longrightarrow> valid (parent_buffer s) ! (n mod cf_parents cf) \<le> PAGE_BATCH_SIZE"
  by (auto simp: slot_inv_def Let_def split: if_splits)

lemma slot_inv_complete:
  assumes inv: "slot_inv cf buf lab s rs issued n" and k: "k < length rs" and dn: "rq_done (rs ! k)"
    and slot: "rq_slot (rs ! k) < length (valid (parent_buffer s))"
    and fifo: "issued \<le> n \<Longrightarrow> rq_slot (rs ! k) \<noteq> n mod cf_parents cf"
    and v: "v = (valid (parent_buffer s))[rq_slot (rs ! k) := size_add (valid (parent_buffer s) ! rq_slot (rs ! k)) 1]"
  shows "slot_inv cf buf lab (s\<lparr>parent_buffer := (parent_buffer s)\<lparr>valid := v\<rparr>\<rparr>) (remove_nth k rs) issued n"
    "valid (parent_buffer s) ! (n mod cf_parents cf) \<le> v ! (n mod cf_parents cf)"
proof -
  let ?r = "rs ! k" and ?i = "n mod cf_parents cf" and ?rs = "remove_nth k rs"
  let ?s = "s\<lparr>parent_buffer := (parent_buffer s)\<lparr>valid := v\<rparr>\<rparr>"
  note pend = pending_remove_nth [OF k, of ?i]
  have inc: "v ! ?i = valid (parent_buffer s) ! ?i + (if rq_slot ?r = ?i then 1 else 0)"
  proof (cases "rq_slot ?r = ?i")
    case True
    have "n < issued" using fifo True by fastforce
    with True pend inv have "valid (parent_buffer s) ! ?i < PAGE_BATCH_SIZE"
      by (auto simp: slot_inv_def Let_def)
    then have "valid (parent_buffer s) ! ?i + 1 < SIZE_MOD" by (simp add: constant_defs SIZE_MOD_def)
    with True slot v show ?thesis by simp
  qed (simp add: v nth_list_update_neq)
  then show "valid (parent_buffer s) ! ?i \<le> v ! ?i" by simp
  have sum: "v ! ?i + (if n < issued then pending ?rs ?i else reads_of s ?i) = PAGE_BATCH_SIZE"
    using inv inc pend fifo by (cases "n < issued") (auto simp: slot_inv_def Let_def)
  have "page_ok cf lab s ?i j (ref_parent cf buf n (j + 1)) \<or>
      (\<exists>r \<in> set ?rs. rq_slot r = ?i \<and> rq_j r = j \<and> \<not> rq_done r)"
    if n: "n < issued" and j: "j < PAGE_BATCH_SIZE" "io_type (parent_buffer_io s ?i j) = READ" for j
  proof -
    from inv n j consider "page_ok cf lab s ?i j (ref_parent cf buf n (j + 1))"
      | r where "r \<in> set rs" "rq_slot r = ?i" "rq_j r = j" "\<not> rq_done r"
      by (auto simp: slot_inv_def Let_def)
    then show ?thesis
    proof cases
      case 2
      with dn in_set_remove_nth [OF _ k, of r] show ?thesis by auto
    qed simp
  qed
  with sum inv show "slot_inv cf buf lab ?s ?rs issued n"
    using set_remove_nth_subset [of k rs] by (auto simp: slot_inv_def Let_def)
qed

lemma start_inv_complete:
  assumes inv: "start_inv cf s rs issued n" and k: "k < length rs"
    and slot: "rq_slot (rs ! k) < length (valid (parent_buffer s))"
    and fifo: "issued \<le> n \<Longrightarrow> rq_slot (rs ! k) \<noteq> n mod cf_parents cf"
    and v: "v = (valid (parent_buffer s))[rq_slot (rs ! k) := size_add (valid (parent_buffer s) ! rq_slot (rs ! k)) 1]"
  shows "start_inv cf (s\<lparr>parent_buffer := (parent_buffer s)\<lparr>valid := v\<rparr>\<rparr>) (remove_nth k rs) issued n"
proof -
  let ?i = "n mod cf_parents cf"
  have b: "valid (parent_buffer s) ! ?i \<le> 2 * PAGE_BATCH_SIZE" using inv by (auto simp: start_inv_def Let_def)
  have "v ! ?i = valid (parent_buffer s) ! ?i + (if rq_slot (rs ! k) = ?i then 1 else 0)"
    using b slot by (auto simp: v nth_list_update_neq constant_defs SIZE_MOD_def)
  then show ?thesis using inv pending_remove_nth [OF k, of ?i] fifo
    by (cases "n < issued") (auto simp: start_inv_def Let_def)
qed

lemma read_complete:
  assumes ok: "cfg_ok cf" and inv: "read_inv cf buf lab s rs lo node res" and k: "k < length rs"
    and dn: "rq_done (rs ! k)" and io: "io_static cf s" and ring: "ring_at (cf_parents cf) (parent_buffer s) lo res"
    and pos: "node \<le> res"
  shows "\<exists>b. completion_cb (parent_buffer_io s (rq_slot (rs ! k)) (rq_j (rs ! k))) (parent_buffer s) = Inr b \<and>
    ring_at (cf_parents cf) b lo res \<and>
    read_inv cf buf lab (s\<lparr>parent_buffer := b\<rparr>) (remove_nth k rs) lo node res \<and>
    (\<forall>n. lo \<le> n \<and> n < node \<and> \<not> layer_start cf n \<longrightarrow>
      valid (parent_buffer s) ! (n mod cf_parents cf) \<le> valid b ! (n mod cf_parents cf))"
proof -
  let ?r = "rs ! k" and ?issued = "node - length (fifo_list (parent_read_fifo s))"
  define v where "v = (valid (parent_buffer s))[rq_slot ?r := size_add (valid (parent_buffer s) ! rq_slot ?r) 1]"
  let ?b = "(parent_buffer s)\<lparr>valid := v\<rparr>"
  have R: "\<forall>r \<in> set rs. req_ok cf lo ?issued res r" using inv by (simp add: read_inv_def Let_def)
  then have r: "req_ok cf lo ?issued res ?r" using k by simp
  note sl = read_slot [OF r ok]
  have sl': "rq_slot ?r < cf_parents cf" "rq_slot ?r \<noteq> res mod cf_parents cf" using sl pos by simp_all
  have jr: "rq_j ?r < PAGE_BATCH_SIZE" using r by (simp add: req_ok_def)
  note iv = ring_at_incr_valid [OF ring sl', of 1, folded v_def]
  have "completion_cb (parent_buffer_io s (rq_slot ?r) (rq_j ?r)) (parent_buffer s) = Inr ?b"
    using io sl'(1) jr iv(1) by (simp add: io_static_def completion_cb_def)
  moreover note iv(2)
  moreover have si: "slot_inv cf buf lab s rs ?issued n" if "lo \<le> n" "n < node" "\<not> layer_start cf n" for n
    using inv that by (simp add: read_inv_def Let_def)
  have nf: "rq_slot ?r \<noteq> n mod cf_parents cf" if "?issued \<le> n" "n \<le> res" for n
    using req_not_issued [OF r that] .
  note sc = slot_inv_complete [OF si k dn _ _ v_def]
  have new: "slot_inv cf buf lab (s\<lparr>parent_buffer := ?b\<rparr>) (remove_nth k rs) ?issued n"
    "valid (parent_buffer s) ! (n mod cf_parents cf) \<le> v ! (n mod cf_parents cf)"
    if "lo \<le> n" "n < node" "\<not> layer_start cf n" for n
    using sc [OF that] ring_atD(8) [OF ring] sl'(1) nf [of n] that pos by simp_all
  have zero: "v ! (n mod cf_parents cf) = 0" if "node \<le> n" "n \<le> res" for n
  proof -
    have "valid (parent_buffer s) ! (n mod cf_parents cf) = 0" using inv that by (simp add: read_inv_def Let_def)
    with nf [of n] that show ?thesis by (simp add: v_def nth_list_update_neq)
  qed
  have start: "start_inv cf (s\<lparr>parent_buffer := ?b\<rparr>) (remove_nth k rs) ?issued n" if "lo \<le> n" "n < node" "layer_start cf n" for n
    using start_inv_complete [OF _ k _ _ v_def, of cf ?issued n] inv ring_atD(8) [OF ring] sl'(1) nf [of n] that pos
    by (simp add: read_inv_def Let_def)
  have "read_inv cf buf lab (s\<lparr>parent_buffer := ?b\<rparr>) (remove_nth k rs) lo node res"
    using inv new(1) R zero start set_remove_nth_subset [of k rs] by (auto simp: read_inv_def Let_def)
  ultimately show ?thesis using new(2) by auto
qed


section \<open>The writer\<close>

lemma page_address_inj:
  assumes "cfg_ok cf" "page_ctrl cf a = page_ctrl cf b" "page_block cf a = page_block cf b"
  shows "a div cf_npp cf = b div cf_npp cf"
proof -
  have "a div cf_npp cf mod cf_disks cf = b div cf_npp cf mod cf_disks cf"
    "a div cf_npp cf div cf_disks cf = b div cf_npp cf div cf_disks cf"
    using assms(2,3) by (simp_all only: page_ctrl_def page_block_def add_right_cancel)
  then show ?thesis by (metis div_mult_mod_eq)
qed

lemma disk_ok_write_other:
  assumes "cfg_ok cf" "n div cf_npp cf \<noteq> q"
  shows "disk_ok cf lab (disk_write (page_ctrl cf (q * cf_npp cf)) (page_block cf (q * cf_npp cf)) pg d) n =
    disk_ok cf lab d n"
proof -
  have "q * cf_npp cf div cf_npp cf = q" using npp_facts(1) [OF assms(1)] by simp
  then have "page_ctrl cf n \<noteq> page_ctrl cf (q * cf_npp cf) \<or> page_block cf n \<noteq> page_block cf (q * cf_npp cf)"
    using page_address_inj [OF assms(1), of n "q * cf_npp cf"] assms(2) by metis
  then show ?thesis by (auto simp: disk_ok_def disk_write_def)
qed

lemma disk_ok_write_same:
  assumes "cfg_ok cf" "n div cf_npp cf = q" "\<And>x. x < num_sectors cf \<Longrightarrow> pg (n mod cf_npp cf) x = lab x n"
  shows "disk_ok cf lab (disk_write (page_ctrl cf (q * cf_npp cf)) (page_block cf (q * cf_npp cf)) pg d) n"
proof -
  have "q * cf_npp cf div cf_npp cf = q" using npp_facts(1) [OF assms(1)] by simp
  then have "page_ctrl cf (q * cf_npp cf) = page_ctrl cf n" "page_block cf (q * cf_npp cf) = page_block cf n"
    using assms(2) by (simp_all add: page_ctrl_def page_block_def)
  then show ?thesis using assms(3) by (simp add: disk_ok_def disk_write_def)
qed

lemma write_slot_inj:
  assumes "a mod cf_nodes cf = b mod cf_nodes cf" "lo \<le> a" "a \<le> res" "lo \<le> b" "b \<le> res" "res < lo + cf_nodes cf"
  shows "a = b"
  by (rule slot_inj [OF assms(1)]) (use assms in auto)

lemma write_invD:
  assumes "write_inv cf lab d s ws lo hi res"
  defines "issued \<equiv> hi - length (fifo_list (node_write_fifo s))"
  shows "fifo_inv (node_write_fifo s)" "fifo_capacity (node_write_fifo s) = disk_fifo_depth cf"
    "length (fifo_list (node_write_fifo s)) \<le> hi - lo"
    "fifo_list (node_write_fifo s) = map (\<lambda>n. Some (n mod cf_nodes cf)) [issued..<hi]"
    "\<And>n. lo \<le> n \<Longrightarrow> n < hi \<Longrightarrow> io_node (node_buffer_io s (n mod cf_nodes cf) 0) = word_of_nat (n * cf_npp cf)"
    "\<And>r. r \<in> set ws \<Longrightarrow> write_req_ok cf lab d (node_buffer s) lo issued r"
    "distinct (map rq_slot ws)"
    "\<And>p n. lo \<le> p \<Longrightarrow> p < issued \<Longrightarrow> valid (node_buffer s) ! (p mod cf_nodes cf) \<noteq> 0 \<Longrightarrow> n div cf_npp cf = p \<Longrightarrow>
      disk_ok cf lab d n"
    "\<And>p. issued \<le> p \<Longrightarrow> p \<le> res \<Longrightarrow> valid (node_buffer s) ! (p mod cf_nodes cf) = 0"
    "\<And>p. lo \<le> p \<Longrightarrow> p < issued \<Longrightarrow> valid (node_buffer s) ! (p mod cf_nodes cf) = 0 \<Longrightarrow> p mod cf_nodes cf \<in> rq_slot ` set ws"
  using assms by (simp_all add: write_inv_def Let_def)

lemma write_invI:
  assumes "issued = hi - length (fifo_list (node_write_fifo s))"
    "fifo_inv (node_write_fifo s)" "fifo_capacity (node_write_fifo s) = disk_fifo_depth cf"
    "length (fifo_list (node_write_fifo s)) \<le> hi - lo"
    "fifo_list (node_write_fifo s) = map (\<lambda>n. Some (n mod cf_nodes cf)) [issued..<hi]"
    "\<And>n. lo \<le> n \<Longrightarrow> n < hi \<Longrightarrow> io_node (node_buffer_io s (n mod cf_nodes cf) 0) = word_of_nat (n * cf_npp cf)"
    "\<And>r. r \<in> set ws \<Longrightarrow> write_req_ok cf lab d (node_buffer s) lo issued r"
    "distinct (map rq_slot ws)"
    "\<And>p n. lo \<le> p \<Longrightarrow> p < issued \<Longrightarrow> valid (node_buffer s) ! (p mod cf_nodes cf) \<noteq> 0 \<Longrightarrow> n div cf_npp cf = p \<Longrightarrow>
      disk_ok cf lab d n"
    "\<And>p. issued \<le> p \<Longrightarrow> p \<le> res \<Longrightarrow> valid (node_buffer s) ! (p mod cf_nodes cf) = 0"
    "\<And>p. lo \<le> p \<Longrightarrow> p < issued \<Longrightarrow> valid (node_buffer s) ! (p mod cf_nodes cf) = 0 \<Longrightarrow> p mod cf_nodes cf \<in> rq_slot ` set ws"
  shows "write_inv cf lab d s ws lo hi res"
  unfolding write_inv_def Let_def assms(1) [symmetric] using assms(2-) by blast

lemma write_inv_issue:
  assumes ok: "cfg_ok cf" and inv: "write_inv cf lab d s ws lo hi res" and ne: "fifo_list (node_write_fifo s) \<noteq> []"
    and io: "io_static cf s" and pos: "lo \<le> hi" "hi \<le> res" "res < lo + cf_nodes cf" "hi * cf_npp cf \<le> node_total cf"
    and i: "i = (hi - length (fifo_list (node_write_fifo s))) mod cf_nodes cf"
    and q: "fifo_inv q" "fifo_list q = tl (fifo_list (node_write_fifo s))" "fifo_capacity q = fifo_capacity (node_write_fifo s)"
  shows "fifo_list (node_write_fifo s) = Some i # fifo_list q"
    "write_inv cf lab d (s\<lparr>node_write_fifo := q\<rparr>) (ws @ map (\<lambda>j. mk_req cf i (node_buffer_io s i j) j)
    (filter (\<lambda>j. io_type (node_buffer_io s i j) \<noteq> NOP) [0..<1])) lo hi res"
proof -
  define q0 where "q0 = hi - length (fifo_list (node_write_fifo s))"
  note W = write_invD [OF inv, folded q0_def]
  have k: "0 < length (fifo_list (node_write_fifo s))" using ne by simp
  then have b: "lo \<le> q0" "q0 < hi" using W(3) pos(1) unfolding q0_def by linarith+
  have i0: "i = q0 mod cf_nodes cf" "i < cf_nodes cf" using i cfg_okD(5) [OF ok] by (auto simp: q0_def)
  have fl: "fifo_list (node_write_fifo s) = Some i # map (\<lambda>n. Some (n mod cf_nodes cf)) [Suc q0..<hi]"
    using W(4) b(2) i0(1) by (simp add: upt_conv_Cons)
  then show "fifo_list (node_write_fifo s) = Some i # fifo_list q" using q(2) by simp
  have len: "hi - length (fifo_list q) = Suc q0" using fl b(2) q(2) by simp
  have ty: "io_type (node_buffer_io s i 0) = WRITE" using io i0(2) by (simp add: io_static_def)
  let ?new = "mk_req cf i (node_buffer_io s i 0) 0"
  have lt: "q0 * cf_npp cf < node_total cf"
    using pos(4) b(2) npp_facts(1) [OF ok] by (meson less_le_trans mult_less_mono1)
  have v0: "valid (node_buffer s) ! i = 0" using W(9) [of q0] i0(1) b(2) pos(2) by simp
  have new: "write_req_ok cf lab d (node_buffer s) lo (Suc q0) ?new"
    using page_block_word [OF ok lt W(5) [OF b]] ty b v0 i0
    by (auto simp: write_req_ok_def mk_req_def intro!: exI [of _ q0])
  have old: "write_req_ok cf lab d (node_buffer s) lo (Suc q0) r" "rq_slot r \<noteq> i" if "r \<in> set ws" for r
  proof -
    from W(6) [OF that] show "write_req_ok cf lab d (node_buffer s) lo (Suc q0) r"
      unfolding write_req_ok_def by (metis less_SucI)
    from W(6) [OF that] obtain p where p: "lo \<le> p" "p < q0" "rq_slot r = p mod cf_nodes cf" by (auto simp: write_req_ok_def)
    then show "rq_slot r \<noteq> i" using write_slot_inj [of p cf q0 lo res] b pos i0(1) by auto
  qed
  have eq: "map (\<lambda>j. mk_req cf i (node_buffer_io s i j) j) (filter (\<lambda>j. io_type (node_buffer_io s i j) \<noteq> NOP) [0..<1]) = [?new]"
    using ty by simp
  show "write_inv cf lab d (s\<lparr>node_write_fifo := q\<rparr>) (ws @ map (\<lambda>j. mk_req cf i (node_buffer_io s i j) j)
    (filter (\<lambda>j. io_type (node_buffer_io s i j) \<noteq> NOP) [0..<1])) lo hi res"
    unfolding eq
  proof (rule write_invI [of "Suc q0"])
    show "Suc q0 = hi - length (fifo_list (node_write_fifo (s\<lparr>node_write_fifo := q\<rparr>)))" using len by simp
    show "fifo_list (node_write_fifo (s\<lparr>node_write_fifo := q\<rparr>)) = map (\<lambda>n. Some (n mod cf_nodes cf)) [Suc q0..<hi]"
      using fl q(2) by simp
    show "length (fifo_list (node_write_fifo (s\<lparr>node_write_fifo := q\<rparr>))) \<le> hi - lo" using W(3) q(2) by simp
    show "disk_ok cf lab d n"
      if "lo \<le> p" "p < Suc q0" "valid (node_buffer (s\<lparr>node_write_fifo := q\<rparr>)) ! (p mod cf_nodes cf) \<noteq> 0" "n div cf_npp cf = p" for p n
      using W(8) [of p n] that v0 i0(1) by (cases "p = q0") auto
    show "p mod cf_nodes cf \<in> rq_slot ` set (ws @ [?new])"
      if "lo \<le> p" "p < Suc q0" "valid (node_buffer (s\<lparr>node_write_fifo := q\<rparr>)) ! (p mod cf_nodes cf) = 0" for p
      using W(10) [of p] that i0(1) by (cases "p = q0") auto
  qed (use W(2,5,7,9) new old q in auto)
qed

lemma write_inv_transfer:
  assumes ok: "cfg_ok cf" and inv: "write_inv cf lab d s ws lo hi res" and k: "k < length ws"
    and pos: "hi \<le> res" "res < lo + cf_nodes cf"
    and mem: "\<And>n x. lo \<le> n div cf_npp cf \<Longrightarrow> n div cf_npp cf < hi \<Longrightarrow> x < num_sectors cf \<Longrightarrow>
      node_buffer_store s (node_slot cf n) (n mod cf_npp cf) x = lab x n"
    and disk: "disk_inv cf lab d (lo * cf_npp cf)"
  shows "node_transfer (ws ! k) s d = (s, snd (node_transfer (ws ! k) s d)) \<and>
    write_inv cf lab (snd (node_transfer (ws ! k) s d)) s (ws[k := (ws ! k)\<lparr>rq_done := True\<rparr>]) lo hi res \<and>
    disk_inv cf lab (snd (node_transfer (ws ! k) s d)) (lo * cf_npp cf)"
proof -
  let ?r = "ws ! k" and ?ws = "ws[k := (ws ! k)\<lparr>rq_done := True\<rparr>]"
  define issued where "issued = hi - length (fifo_list (node_write_fifo s))"
  note W = write_invD [OF inv, folded issued_def]
  have "write_req_ok cf lab d (node_buffer s) lo issued ?r" using W(6) k by simp
  then obtain q where q: "lo \<le> q" "q < issued" "rq_slot ?r = q mod cf_nodes cf"
    "rq_ctrl ?r = page_ctrl cf (q * cf_npp cf)" "rq_block ?r = page_block cf (q * cf_npp cf)"
    "rq_j ?r = 0" "rq_type ?r = WRITE" "valid (node_buffer s) ! rq_slot ?r = 0"
    by (auto simp: write_req_ok_def)
  have qh: "q < hi" using q(2) by (simp add: issued_def)
  define d' where "d' = disk_write (page_ctrl cf (q * cf_npp cf)) (page_block cf (q * cf_npp cf)) (node_buffer_store s (rq_slot ?r)) d"
  have tr: "node_transfer ?r s d = (s, d')" using q by (simp add: node_transfer_def d'_def)
  have same: "disk_ok cf lab d' n" if "n div cf_npp cf = q" for n
    unfolding d'_def by (rule disk_ok_write_same [OF ok that]) (use mem [of n] q qh that in \<open>simp add: node_slot_def\<close>)
  have keep: "disk_ok cf lab d n \<Longrightarrow> disk_ok cf lab d' n" for n
    using same disk_ok_write_other [OF ok, of n q] by (cases "n div cf_npp cf = q") (simp_all add: d'_def)
  have "write_req_ok cf lab d' (node_buffer s) lo issued r" if "r \<in> set ?ws" for r
  proof -
    have "r = ?r\<lparr>rq_done := True\<rparr> \<or> r \<in> set ws" using subsetD [OF set_update_subset_insert that] by auto
    then show ?thesis
    proof
      assume "r = ?r\<lparr>rq_done := True\<rparr>"
      with q same show ?thesis by (auto simp: write_req_ok_def)
    next
      assume "r \<in> set ws"
      from W(6) [OF this] keep show ?thesis unfolding write_req_ok_def by metis
    qed
  qed
  moreover have "map rq_slot ?ws = map rq_slot ws"
    using k by (simp add: map_update list_update_same_conv)
  moreover from this have "rq_slot ` set ?ws = rq_slot ` set ws" by (metis set_map)
  ultimately have "write_inv cf lab d' s ?ws lo hi res"
    using W(1-5,7-10) keep by (intro write_invI [OF issued_def]) simp_all
  moreover have "disk_inv cf lab d' (lo * cf_npp cf)" using disk keep by (simp add: disk_inv_def)
  ultimately show ?thesis by (simp add: tr)
qed

lemma write_complete:
  assumes ok: "cfg_ok cf" and inv: "write_inv cf lab d s ws lo hi res" and k: "k < length ws" and dn: "rq_done (ws ! k)"
    and io: "io_static cf s" and ring: "ring_at (cf_nodes cf) (node_buffer s) tl1 res" and pos: "hi \<le> res" "tl1 \<le> lo"
  shows "\<exists>b. completion_cb (node_buffer_io s (rq_slot (ws ! k)) (rq_j (ws ! k))) (node_buffer s) = Inr b \<and>
    ring_at (cf_nodes cf) b tl1 res \<and> write_inv cf lab d (s\<lparr>node_buffer := b\<rparr>) (remove_nth k ws) lo hi res"
proof -
  let ?r = "ws ! k"
  define issued where "issued = hi - length (fifo_list (node_write_fifo s))"
  note W = write_invD [OF inv, folded issued_def]
  have win: "res < lo + cf_nodes cf" using ring_atD(3) [OF ring] pos(2) by simp
  have "write_req_ok cf lab d (node_buffer s) lo issued ?r" using W(6) k by simp
  then obtain q where q: "lo \<le> q" "q < issued" "rq_slot ?r = q mod cf_nodes cf" "rq_j ?r = 0"
    "\<And>n. n div cf_npp cf = q \<Longrightarrow> disk_ok cf lab d n" "valid (node_buffer s) ! rq_slot ?r = 0"
    using dn by (auto simp: write_req_ok_def)
  have qh: "q < hi" using q(2) by (simp add: issued_def)
  define v where "v = (valid (node_buffer s))[rq_slot ?r := size_add (valid (node_buffer s) ! rq_slot ?r) 1]"
  let ?b = "(node_buffer s)\<lparr>valid := v\<rparr>"
  have sl: "rq_slot ?r < cf_nodes cf" "rq_slot ?r \<noteq> res mod cf_nodes cf"
    using q cfg_okD(5) [OF ok] write_slot_inj [of q cf res lo res] qh pos(1) win by auto
  note iv = ring_at_incr_valid [OF ring sl, of 1, folded v_def]
  have cb: "completion_cb (node_buffer_io s (rq_slot ?r) (rq_j ?r)) (node_buffer s) = Inr ?b"
    using io sl(1) q(4) iv(1) by (simp add: io_static_def completion_cb_def)
  have other: "v ! (p mod cf_nodes cf) = valid (node_buffer s) ! (p mod cf_nodes cf)" if "lo \<le> p" "p \<le> res" "p \<noteq> q" for p
  proof -
    have "rq_slot ?r \<noteq> p mod cf_nodes cf" using write_slot_inj [of p cf q lo res] that q(1,3) qh pos(1) win by auto
    then show ?thesis by (simp add: v_def)
  qed
  have reqs: "write_req_ok cf lab d ?b lo issued r" if r: "r \<in> set (remove_nth k ws)" for r
  proof -
    have "distinct (map rq_slot (take k ws @ ?r # drop (Suc k) ws))" using W(7) id_take_nth_drop [OF k] by simp
    then have "rq_slot ?r \<notin> rq_slot ` set (remove_nth k ws)" by (simp add: remove_nth_def image_Un)
    then have "rq_slot r \<noteq> rq_slot ?r" using imageI [OF r, of rq_slot] by metis
    then have "valid ?b ! rq_slot r = valid (node_buffer s) ! rq_slot r" by (simp add: v_def nth_list_update_neq)
    moreover have "write_req_ok cf lab d (node_buffer s) lo issued r" by (rule W(6) [OF subsetD [OF set_remove_nth_subset r]])
    ultimately show ?thesis by (simp add: write_req_ok_def)
  qed
  have "write_inv cf lab d (s\<lparr>node_buffer := ?b\<rparr>) (remove_nth k ws) lo hi res"
  proof (rule write_invI [of issued])
    show "issued = hi - length (fifo_list (node_write_fifo (s\<lparr>node_buffer := ?b\<rparr>)))" by (simp add: issued_def)
    show "distinct (map rq_slot (remove_nth k ws))" by (rule distinct_remove_nth [OF W(7) k])
    show "disk_ok cf lab d n" if "lo \<le> p" "p < issued"
      "valid (node_buffer (s\<lparr>node_buffer := ?b\<rparr>)) ! (p mod cf_nodes cf) \<noteq> 0" "n div cf_npp cf = p" for p n
      using that q(5) W(8) [of p n] other [of p] pos(1) by (cases "p = q") (auto simp: issued_def)
    show "valid (node_buffer (s\<lparr>node_buffer := ?b\<rparr>)) ! (p mod cf_nodes cf) = 0" if "issued \<le> p" "p \<le> res" for p
      using W(9) [OF that] other [of p] that q by auto
    show "p mod cf_nodes cf \<in> rq_slot ` set (remove_nth k ws)" if "lo \<le> p" "p < issued"
      "valid (node_buffer (s\<lparr>node_buffer := ?b\<rparr>)) ! (p mod cf_nodes cf) = 0" for p
    proof -
      have "v ! rq_slot ?r = 1" using q(6) sl(1) ring_atD(8) [OF ring] by (simp add: v_def SIZE_MOD_def)
      moreover have "p \<le> res" using that(2) pos(1) by (simp add: issued_def)
      ultimately have "p \<noteq> q" "p \<le> res" using that(3) q(3) by auto
      then have "p mod cf_nodes cf \<in> rq_slot ` set ws" "p mod cf_nodes cf \<noteq> rq_slot ?r"
        using W(10) [of p] other [of p] that write_slot_inj [of p cf q lo res] q(1,3) qh pos(1) win by auto
      then show ?thesis using in_set_remove_nth [OF _ k] by fastforce
    qed
  qed (use W(1-5) reqs in simp_all)
  with cb iv(2) show ?thesis by blast
qed

end
