(* ===== verification/PC1_Coord.thy ===== *)
theory PC1_Coord
  imports PC1_Hash PC1_IO
begin

text \<open>
  The coordinators keep the invariant of PC1: what a coordinator copies for a
  node whose slot is valid are the labels of the parents, a pointer that it
  passes on is the node buffer entry of the parent, and a batch is taken back
  only when all its threads are past it.
\<close>

section \<open>The node buffer\<close>

lemma coords_invD:
  assumes "coords_inv cf buf lab bufs rb cn lo node cs"
  shows "length cs = length (cf_hashers cf)" "\<And>i. i < length cs \<Longrightarrow> coord_inv cf buf lab bufs i (cs ! i)"
    "\<And>i. i < length cs \<Longrightarrow> coord_link cf rb (cn ! i) lo node (cs ! i)"
  using assms by (simp_all add: coords_inv_def)

lemma node_mem_invD:
  assumes "node_mem_inv cf lab mem cs" "i < length cs" "t < length (threads (cs ! i))" "l < NODES_PER_HASHER"
    "n < th_node (threads (cs ! i) ! t)" "th_node (threads (cs ! i) ! t) \<le> n + ring_nodes cf"
  shows "mem (node_slot cf n) (n mod cf_npp cf) (th_offset_id (threads (cs ! i) ! t) + l) =
    lab (th_offset_id (threads (cs ! i) ! t) + l) n"
  using assms by (simp add: node_mem_inv_def)

lemma node_mem_same_threads:
  assumes "node_mem_inv cf lab mem cs" "threads c' = threads (cs ! i)"
  shows "node_mem_inv cf lab mem (cs[i := c'])"
proof -
  have "threads (cs[i := c'] ! k) = threads (cs ! k)" if "k < length cs" for k
    using assms(2) that by (cases "k = i") auto
  with assms(1) show ?thesis by (simp add: node_mem_inv_def)
qed

lemma hash_store_other:
  assumes "x \<noteq> offset_id" "x \<noteq> offset_id + 1"
  shows "node_buffer_store (hash_store e k offset_id out s) e' k' x = node_buffer_store s e' k' x"
  using assms by (auto simp: hash_store_def)

lemma hash_store_cell:
  "l < NODES_PER_HASHER \<Longrightarrow> node_buffer_store (hash_store e k offset_id out s) e k (offset_id + l) = out l"
  "e' \<noteq> e \<or> k' \<noteq> k \<Longrightarrow> node_buffer_store (hash_store e k offset_id out s) e' k' x = node_buffer_store s e' k' x"
  by (auto simp: hash_store_def constant_defs less_Suc_eq numeral_2_eq_2)

lemma node_mem_hash:
  assumes ok: "cfg_ok cf" and cs: "length cs = length (cf_hashers cf)" "\<And>i. i < length cs \<Longrightarrow> coord_inv cf buf lab bufs i (cs ! i)"
    and i: "i < length cs" and t: "t < length (threads (cs ! i))" and th: "th = threads (cs ! i) ! t"
    and mem: "node_mem_inv cf lab (node_buffer_store s) cs"
    and out: "\<forall>l < NODES_PER_HASHER. out l = lab (th_offset_id th + l) (th_node th)"
    and th': "th_node th' = Suc (th_node th)" "th_offset_id th' = th_offset_id th"
    and c': "threads c' = (threads (cs ! i))[t := th']"
  shows "node_mem_inv cf lab
    (node_buffer_store (hash_store (node_slot cf (th_node th)) (th_node th mod cf_npp cf) (th_offset_id th) out s)) (cs[i := c'])"
    (is "node_mem_inv _ _ ?mem _")
  unfolding node_mem_inv_def
proof (intro allI impI, elim conjE)
  fix k u l n
  assume k: "k < length (cs[i := c'])" and u: "u < length (threads (cs[i := c'] ! k))" and l: "l < NODES_PER_HASHER"
    and n: "n < th_node (threads (cs[i := c'] ! k) ! u)" "th_node (threads (cs[i := c'] ! k) ! u) \<le> n + ring_nodes cf"
  show "?mem (node_slot cf n) (n mod cf_npp cf) (th_offset_id (threads (cs[i := c'] ! k) ! u) + l) =
    lab (th_offset_id (threads (cs[i := c'] ! k) ! u) + l) n"
  proof (cases "k = i \<and> u = t")
    case True
    then have e: "threads (cs[i := c'] ! k) ! u = th'" using i t c' by simp
    show ?thesis
    proof (cases "n = th_node th")
      case True
      with e th'(2) hash_store_cell(1) [OF l] out l show ?thesis by simp
    next
      case False
      then have lt: "n < th_node th" "th_node th \<le> n + ring_nodes cf" using n e th'(1) by simp_all
      have "node_slot cf n \<noteq> node_slot cf (th_node th) \<or> n mod cf_npp cf \<noteq> th_node th mod cf_npp cf"
        using node_cell_inj [OF ok, of n "th_node th"] n e th'(1) False lt by auto
      from hash_store_cell(2) [OF this] node_mem_invD [OF mem i t l] lt th e th'(2) show ?thesis by simp
    qed
  next
    case False
    have kl: "k < length cs" using k by simp
    have e: "threads (cs[i := c'] ! k) ! u = threads (cs ! k) ! u" and ul: "u < length (threads (cs ! k))"
      using False u i c' kl by (cases "k = i"; simp)+
    note T = thread_invD(8) [OF coord_invD(12) [OF cs(2) [OF i] t]] thread_invD(8) [OF coord_invD(12) [OF cs(2) [OF kl] ul]]
    have "hasher_base cf i + t \<noteq> hasher_base cf k + u"
      using hasher_index_inj [of i cf t k u] False i kl t ul cs(1)
        coord_invD(2) [OF cs(2) [OF i]] coord_invD(2) [OF cs(2) [OF kl]] by auto
    then have "th_offset_id (threads (cs ! k) ! u) + l \<noteq> th_offset_id th"
      "th_offset_id (threads (cs ! k) ! u) + l \<noteq> th_offset_id th + 1"
      using T l th by (auto simp: constant_defs)
    from hash_store_other [OF this] node_mem_invD [OF mem kl ul l] n e show ?thesis by simp
  qed
qed


section \<open>Copying the parents of a node\<close>

definition source_ok :: "pc1_cfg \<Rightarrow> 32 word list \<Rightarrow> (nat \<Rightarrow> nat \<Rightarrow> label_t) \<Rightarrow> system_buffers_t \<Rightarrow> nat \<Rightarrow> nat \<Rightarrow> nat \<Rightarrow>
    nat \<Rightarrow> bool" where
  "source_ok cf buf lab s start cnt m j \<longleftrightarrow>
     (let i = m mod cf_parents cf; p = ref_parent cf buf m j; src = parent_ptrs s i j
      in src \<noteq> NullPtr \<and>
         (if parent_ptr_syncs s i j = LOCAL_NODE then src = node_ptr cf p \<and> m < p + ring_nodes cf
          else \<forall>k < cnt. read_ptr s src (start + k) = lab (start + k) p))"

lemma completed_ahead:
  assumes ok: "cfg_ok cf" and inv: "coord_inv cf buf lab bufs i c" and pc: "co_pc c \<noteq> CRecover"
    and p: "p + cf_batch cf * cf_batches cf \<le> copied c"
  shows "p < completed_node c"
proof -
  let ?B = "cf_batch cf" and ?C = "cf_batches cf"
  note D = coord_invD [OF inv]
  have "copied c div ?B + 1 < completed_node c div ?B + ?C" using ring_atD(3) [OF D(10)] pc by simp
  then have "(copied c div ?B + 1) * ?B \<le> (completed_node c div ?B + ?C) * ?B" by (intro mult_le_mono1) simp
  also have "\<dots> = completed_node c + ?B * ?C" using D(8) by (simp add: add_mult_distrib mult.commute [of ?C])
  finally have "(copied c div ?B + 1) * ?B \<le> completed_node c + ?B * ?C" .
  moreover have "copied c < (copied c div ?B + 1) * ?B"
    using cfg_okD(7) [OF ok] dividend_less_div_times [of ?B "copied c"] by simp
  ultimately show ?thesis using p by linarith
qed

lemma source_okI:
  assumes ok: "cfg_ok cf" and cs: "i < length cs" "c = cs ! i" "length cs = length (cf_hashers cf)"
    and inv: "coord_inv cf buf lab bufs i c" and pc: "co_pc c \<noteq> CRecover"
    and m: "m = copied c" "\<not> layer_start cf m" and j: "j < PARENT_COUNT"
    and desc: "parent_ok cf buf s w m j" and slot: "slot_inv cf buf lab s rs issued m"
    and v: "PAGE_BATCH_SIZE \<le> valid (parent_buffer s) ! (m mod cf_parents cf)"
    and mem: "node_mem_inv cf lab (node_buffer_store s) cs"
  shows "source_ok cf buf lab s (start_sector c) (length (threads c) * NODES_PER_HASHER) m j"
proof -
  let ?i = "m mod cf_parents cf" and ?p = "ref_parent cf buf m j" and ?N = "NODES_PER_HASHER"
  note D = coord_invD [OF inv]
  have node: "node_buffer_store s (node_slot cf ?p) (?p mod cf_npp cf) (start_sector c + k) = lab (start_sector c + k) ?p"
    if near: "m < ?p + ring_nodes cf" and far: "?p + cf_batch cf * cf_batches cf \<le> m" and k: "k < length (threads c) * ?N" for k
  proof -
    let ?t = "k div ?N"
    have t: "?t < length (threads c)" using k by (simp add: less_mult_imp_div_less)
    note T = thread_invD [OF D(12) [OF t]]
    have "?p < th_node (threads c ! ?t)" using completed_ahead [OF ok inv pc] far m(1) T(1) by fastforce
    moreover have "th_node (threads c ! ?t) \<le> ?p + ring_nodes cf"
      using T(2,3) next_valid_le [OF inv] near m(1) by linarith
    moreover have "th_offset_id (threads c ! ?t) + k mod ?N = start_sector c + k"
      unfolding T(8) D(1) by (simp add: add_mult_distrib)
    ultimately show ?thesis
      using node_mem_invD [OF mem cs(1), of ?t "k mod ?N" ?p] t cs(2) by (simp add: constant_defs)
  qed
  have page: "parent_buffer_store s ?i (j - 1) (?p mod cf_npp cf) (start_sector c + k) = lab (start_sector c + k) ?p"
    if io: "io_type (parent_buffer_io s ?i (j - 1)) = READ" and j0: "0 < j" and k: "k < length (threads c) * ?N" for k
  proof -
    have jb: "j - 1 < PAGE_BATCH_SIZE" using j j0 by (simp add: constant_defs)
    then have "0 < reads_of s ?i" using io by (auto simp: reads_of_def filter_empty_conv)
    then have isd: "m < issued" "pending rs ?i = 0" using slot v by (auto simp: slot_inv_def Let_def split: if_splits)
    then have "r \<in> set rs \<Longrightarrow> rq_slot r \<noteq> ?i" for r by (auto simp: pending_def filter_empty_conv)
    then have po: "page_ok cf lab s ?i (j - 1) ?p" using slot isd(1) jb io j0 by (auto simp: slot_inv_def Let_def)
    have "start_sector c + k < (hasher_base cf i + cf_hashers cf ! i) * ?N" using k D(1,2) by (simp add: add_mult_distrib)
    also have "\<dots> \<le> num_sectors cf"
      using hasher_base_Suc [of i cf] hasher_base_mono [of "Suc i" "length (cf_hashers cf)" cf] cs
      by (simp add: num_sectors_def hasher_base_def)
    finally show ?thesis using po by (simp add: page_ok_def)
  qed
  from desc show ?thesis
    unfolding parent_ok_def source_ok_def Let_def
    using node page by (auto simp: node_ptr_def read_ptr_def)
qed


lemma copy_parents_fold:
  fixes c :: coordinator_t
  defines "b \<equiv> coord_batch_idx c" and "base \<equiv> coord_batch_count c * PARENT_COUNT"
    and "cnt \<equiv> length (threads c) * NODES_PER_HASHER"
  shows "\<exists>stg pts. fold (copy_parent s) [0..<n] c = c\<lparr>coord_ring_storage := stg, coord_ring_ptrs := pts\<rparr> \<and>
    (\<forall>b' e. b' \<noteq> b \<or> e < base \<or> base + n \<le> e \<longrightarrow> pts b' e = coord_ring_ptrs c b' e \<and> stg b' e = coord_ring_storage c b' e) \<and>
    (\<forall>j < n. let src = parent_ptrs s (co_idx c) j; loc = (parent_ptr_syncs s (co_idx c) j = LOCAL_NODE)
       in pts b (base + j) = (if src = NullPtr \<or> \<not> loc then NullPtr else src) \<and>
          (src \<noteq> NullPtr \<and> \<not> loc \<longrightarrow> (\<forall>k < cnt. stg b (base + j) k = read_ptr s src (start_sector c + k))))"
proof (induction n)
  case 0
  show ?case by (intro exI [of _ "coord_ring_storage c"] exI [of _ "coord_ring_ptrs c"]) simp
next
  case (Suc n)
  then obtain stg pts where IH:
    "fold (copy_parent s) [0..<n] c = c\<lparr>coord_ring_storage := stg, coord_ring_ptrs := pts\<rparr>"
    "\<And>b' e. b' \<noteq> b \<or> e < base \<or> base + n \<le> e \<Longrightarrow> pts b' e = coord_ring_ptrs c b' e \<and> stg b' e = coord_ring_storage c b' e"
    "\<And>j. j < n \<Longrightarrow> let src = parent_ptrs s (co_idx c) j; loc = (parent_ptr_syncs s (co_idx c) j = LOCAL_NODE)
       in pts b (base + j) = (if src = NullPtr \<or> \<not> loc then NullPtr else src) \<and>
          (src \<noteq> NullPtr \<and> \<not> loc \<longrightarrow> (\<forall>k < cnt. stg b (base + j) k = read_ptr s src (start_sector c + k)))"
    by auto
  let ?src = "parent_ptrs s (co_idx c) n" and ?loc = "parent_ptr_syncs s (co_idx c) n = LOCAL_NODE"
  define pts' where "pts' = pts(b := (pts b)(base + n := if ?src = NullPtr \<or> \<not> ?loc then NullPtr else ?src))"
  define stg' where "stg' = (if ?src \<noteq> NullPtr \<and> \<not> ?loc then stg(b := (stg b)(base + n :=
      (\<lambda>k. if k < cnt then read_ptr s ?src (start_sector c + k) else stg b (base + n) k))) else stg)"
  have "fold (copy_parent s) [0..<Suc n] c = copy_parent s n (c\<lparr>coord_ring_storage := stg, coord_ring_ptrs := pts\<rparr>)"
    by (simp add: IH(1))
  also have "\<dots> = c\<lparr>coord_ring_storage := stg', coord_ring_ptrs := pts'\<rparr>"
    by (simp add: copy_parent_def Let_def pts'_def stg'_def b_def base_def cnt_def cong: if_cong)
  finally have f: "fold (copy_parent s) [0..<Suc n] c = c\<lparr>coord_ring_storage := stg', coord_ring_ptrs := pts'\<rparr>" .
  have keep: "pts' b' e = coord_ring_ptrs c b' e \<and> stg' b' e = coord_ring_storage c b' e"
    if "b' \<noteq> b \<or> e < base \<or> base + Suc n \<le> e" for b' e
    using IH(2) [of b' e] that by (auto simp: pts'_def stg'_def)
  have "let src = parent_ptrs s (co_idx c) j; loc = (parent_ptr_syncs s (co_idx c) j = LOCAL_NODE)
       in pts' b (base + j) = (if src = NullPtr \<or> \<not> loc then NullPtr else src) \<and>
          (src \<noteq> NullPtr \<and> \<not> loc \<longrightarrow> (\<forall>k < cnt. stg' b (base + j) k = read_ptr s src (start_sector c + k)))"
    if "j < Suc n" for j
    using IH(3) [of j] that by (cases "j = n") (simp_all add: pts'_def stg'_def Let_def)
  with f keep show ?case by blast
qed

lemma stored_ok_new:
  assumes src: "source_ok cf buf lab s (start_sector c) (length (threads c) * NODES_PER_HASHER) m j"
    and idx: "co_idx c = m mod cf_parents cf" and b: "b = m div cf_batch cf mod cf_batches cf"
    and base: "base = m mod cf_batch cf * PARENT_COUNT"
    and f: "let src = parent_ptrs s (co_idx c) j; loc = (parent_ptr_syncs s (co_idx c) j = LOCAL_NODE)
       in pts b (base + j) = (if src = NullPtr \<or> \<not> loc then NullPtr else src) \<and>
          (src \<noteq> NullPtr \<and> \<not> loc \<longrightarrow> (\<forall>k < length (threads c) * NODES_PER_HASHER.
             stg b (base + j) k = read_ptr s src (start_sector c + k)))"
    and c': "coord_ring_ptrs c' = pts" "coord_ring_storage c' = stg" "threads c' = threads c" "start_sector c' = start_sector c"
  shows "stored_ok cf buf lab c' m j"
  using src f unfolding source_ok_def stored_ok_def Let_def idx b [symmetric] base [symmetric] c'
  by (auto split: if_splits)

lemma stored_ok_keep:
  assumes "stored_ok cf buf lab c m' j" and "b' = m' div cf_batch cf mod cf_batches cf" "e' = m' mod cf_batch cf * PARENT_COUNT + j"
    and "coord_ring_ptrs c' b' e' = coord_ring_ptrs c b' e'" "coord_ring_storage c' b' e' = coord_ring_storage c b' e'"
    "threads c' = threads c" "start_sector c' = start_sector c"
  shows "stored_ok cf buf lab c' m' j"
  using assms by (simp add: stored_ok_def)

lemma copy_all_stored:
  assumes ok: "cfg_ok cf" and inv: "coord_inv cf buf lab bufs i c" and pc: "co_pc c \<noteq> CRecover"
    and src: "\<And>j. \<not> layer_start cf (co_node c) \<Longrightarrow> j < PARENT_COUNT \<Longrightarrow>
      source_ok cf buf lab s (start_sector c) (length (threads c) * NODES_PER_HASHER) (co_node c) j"
  shows "\<exists>stg pts. fold (copy_parent s) [0..<PARENT_COUNT] (c\<lparr>co_cur_valid := v, co_done := d\<rparr>) =
      c\<lparr>co_cur_valid := v, co_done := d, coord_ring_storage := stg, coord_ring_ptrs := pts\<rparr> \<and>
    (\<forall>m j. completed_node c \<le> m \<and> m < Suc (co_node c) \<and> \<not> layer_start cf m \<and> j < PARENT_COUNT \<longrightarrow>
      stored_ok cf buf lab (c\<lparr>co_cur_valid := v, co_done := d, coord_ring_storage := stg, coord_ring_ptrs := pts\<rparr>) m j)"
proof -
  let ?c = "c\<lparr>co_cur_valid := v, co_done := d\<rparr>" and ?B = "cf_batch cf" and ?C = "cf_batches cf"
  note D = coord_invD [OF inv]
  have cp: "copied c = co_node c" using pc by (simp add: copied_def)
  from copy_parents_fold [of s PARENT_COUNT ?c] obtain stg pts where f:
    "fold (copy_parent s) [0..<PARENT_COUNT] ?c = ?c\<lparr>coord_ring_storage := stg, coord_ring_ptrs := pts\<rparr>"
    "\<And>b' e. b' \<noteq> coord_batch_idx c \<or> e < coord_batch_count c * PARENT_COUNT \<or> coord_batch_count c * PARENT_COUNT + PARENT_COUNT \<le> e \<Longrightarrow>
       pts b' e = coord_ring_ptrs c b' e \<and> stg b' e = coord_ring_storage c b' e"
    "\<And>j. j < PARENT_COUNT \<Longrightarrow> let src = parent_ptrs s (co_idx c) j; loc = (parent_ptr_syncs s (co_idx c) j = LOCAL_NODE)
       in pts (coord_batch_idx c) (coord_batch_count c * PARENT_COUNT + j) = (if src = NullPtr \<or> \<not> loc then NullPtr else src) \<and>
          (src \<noteq> NullPtr \<and> \<not> loc \<longrightarrow> (\<forall>k < length (threads c) * NODES_PER_HASHER.
             stg (coord_batch_idx c) (coord_batch_count c * PARENT_COUNT + j) k = read_ptr s src (start_sector c + k)))"
    by (auto simp del: upt_rec_numeral)
  let ?c' = "?c\<lparr>coord_ring_storage := stg, coord_ring_ptrs := pts\<rparr>"
  have cnt: "coord_batch_count c = co_node c mod ?B" using D(6) pc .
  have "stored_ok cf buf lab ?c' m j"
    if m: "completed_node c \<le> m" "m < Suc (co_node c)" "\<not> layer_start cf m" and j: "j < PARENT_COUNT" for m j
  proof (cases "m = co_node c")
    case True
    show ?thesis unfolding True
      by (rule stored_ok_new [where c = c and pts = pts and stg = stg, OF src D(3) D(4)])
        (use f(3) [OF j] m True j cnt in auto)
  next
    case False
    then have lt: "m < co_node c" using m(2) by simp
    have "m div ?B mod ?C \<noteq> coord_batch_idx c \<or> m mod ?B * PARENT_COUNT + j < coord_batch_count c * PARENT_COUNT"
    proof (cases "m div ?B = co_node c div ?B")
      case True
      have "m div ?B * ?B + m mod ?B < co_node c div ?B * ?B + co_node c mod ?B"
        using lt by (simp only: div_mult_mod_eq)
      then have "co_node c div ?B * ?B + m mod ?B < co_node c div ?B * ?B + co_node c mod ?B" by (simp only: True)
      then have "m mod ?B < co_node c mod ?B" by (rule add_less_imp_less_left)
      then have "Suc (m mod ?B) * PARENT_COUNT \<le> co_node c mod ?B * PARENT_COUNT" by (intro mult_le_mono1) simp
      then show ?thesis using j cnt by simp
    next
      case False
      have "m div ?B \<le> co_node c div ?B" using lt by (intro div_le_mono) simp
      moreover have "completed_node c div ?B \<le> m div ?B" using m(1) by (rule div_le_mono)
      moreover have "co_node c div ?B < completed_node c div ?B + ?C" using ring_atD(3) [OF D(10)] pc cp by simp
      ultimately show ?thesis using slot_inj [of "m div ?B" ?C "co_node c div ?B"] False D(4) by auto
    qed
    then have e: "pts (m div ?B mod ?C) (m mod ?B * PARENT_COUNT + j) = coord_ring_ptrs c (m div ?B mod ?C) (m mod ?B * PARENT_COUNT + j)"
      "stg (m div ?B mod ?C) (m mod ?B * PARENT_COUNT + j) = coord_ring_storage c (m div ?B mod ?C) (m mod ?B * PARENT_COUNT + j)"
      using f(2) [of "m div ?B mod ?C" "m mod ?B * PARENT_COUNT + j"] by auto
    have "stored_ok cf buf lab c m j" using D(13) [OF m(1) _ m(3) j] lt cp by simp
    then show ?thesis by (rule stored_ok_keep [OF _ refl refl]) (simp_all add: e)
  qed
  with f(1) show ?thesis by auto
qed



section \<open>Steps of a coordinator\<close>

lemma coord_advance_spec:
  assumes "cfg_ok cf" "i < length (coordinator_node s)" "co_node c < node_total cf"
  shows "\<exists>x k u. coord_advance cf i s c = Inr (s\<lparr>coordinator_node := (coordinator_node s)[i := x]\<rparr>,
      c\<lparr>co_node := Suc (co_node c), co_idx := rb_incr (cf_parents cf) (co_idx c), co_node_idx := k, co_pc := CRun,
        node_update_batch_count := u\<rparr>) \<and> (x = coordinator_node s ! i \<or> x = completed_node c)"
proof -
  have "size_add (co_node c) 1 = Suc (co_node c)"
    using assms(3) node_total_bound [OF assms(1)] by (simp add: SIZE_MOD_def)
  then show ?thesis
  proof (cases "node_update_batch_count c = NODE_COUNT_UPDATE_INTERVAL")
    case True
    then show ?thesis
      using assms(2) \<open>size_add (co_node c) 1 = Suc (co_node c)\<close>
      by (intro exI [of _ "completed_node c"] exI [of _ "if unat (node_id_node (cf_bits cf) (word_of_nat (Suc (co_node c)))) mod cf_npp cf = 0
          then rb_incr (cf_nodes cf) (co_node_idx c) else co_node_idx c"] exI [of _ 0])
        (simp add: coord_advance_def Let_def)
  next
    case False
    then show ?thesis
      using \<open>size_add (co_node c) 1 = Suc (co_node c)\<close>
      by (intro exI [of _ "coordinator_node s ! i"] exI [of _ "if unat (node_id_node (cf_bits cf) (word_of_nat (Suc (co_node c)))) mod cf_npp cf = 0
          then rb_incr (cf_nodes cf) (co_node_idx c) else co_node_idx c"] exI [of _ "node_update_batch_count c"])
        (cases c, simp add: coord_advance_def Let_def)
  qed
qed

text \<open>The fields a coordinator changes between batches.\<close>

lemma coord_inv_advance:
  assumes ok: "cfg_ok cf" and inv: "coord_inv cf buf lab bufs i c" and pc: "co_pc c \<noteq> CRecover"
    and stored: "\<And>m j. completed_node c \<le> m \<Longrightarrow> m < Suc (co_node c) \<Longrightarrow> \<not> layer_start cf m \<Longrightarrow> j < PARENT_COUNT \<Longrightarrow>
      stored_ok cf buf lab c' m j"
    and nf: "co_node c mod cf_batch cf + 1 \<noteq> cf_batch cf"
    and c': "co_node c' = Suc (co_node c)" "co_idx c' = rb_incr (cf_parents cf) (co_idx c)" "co_pc c' = CRun"
      "coord_batch_count c' = Suc (coord_batch_count c)" "coord_batch_idx c' = coord_batch_idx c"
      "completed_node c' = completed_node c" "coord_next_valid c' = coord_next_valid c" "coord_ring c' = coord_ring c"
      "coord_done_count c' = coord_done_count c" "threads c' = threads c" "start_sector c' = start_sector c"
  shows "coord_inv cf buf lab bufs i c'"
proof -
  note D = coord_invD [OF inv]
  note bs = batch_Suc [OF cfg_okD(7) [OF ok], of "co_node c"]
  have cp: "copied c = co_node c" "copied c' = Suc (co_node c)" using pc c' by (simp_all add: copied_def)
  have "rb_incr (cf_parents cf) (co_idx c) = Suc (co_node c) mod cf_parents cf"
    unfolding D(3) using rb_incr_mod cfg_okD(3,4) [OF ok] by simp
  moreover have "done_inv cf c'" using D(11) c' by (simp add: done_inv_def)
  ultimately show ?thesis
    using D(1,2,4,7-10,12) D(6) [OF pc] stored bs nf pc
    by (simp add: coord_inv_def c' cp)
qed

lemma coord_inv_publish:
  assumes ok: "cfg_ok cf" and inv: "coord_inv cf buf lab bufs i c" and pc: "co_pc c \<noteq> CRecover"
    and stored: "\<And>m j. completed_node c \<le> m \<Longrightarrow> m < Suc (co_node c) \<Longrightarrow> \<not> layer_start cf m \<Longrightarrow> j < PARENT_COUNT \<Longrightarrow>
      stored_ok cf buf lab c' m j"
    and f: "co_node c mod cf_batch cf + 1 = cf_batch cf"
    and c': "co_node c' = co_node c" "co_idx c' = co_idx c" "co_pc c' = CRecover" "coord_batch_idx c' = coord_batch_idx c"
      "completed_node c' = completed_node c" "coord_next_valid c' = coord_next_valid c + cf_batch cf" "coord_ring c' = coord_ring c"
      "coord_done_count c' = coord_done_count c" "threads c' = threads c" "start_sector c' = start_sector c"
  shows "coord_inv cf buf lab bufs i c'"
proof -
  note D = coord_invD [OF inv]
  note bs = batch_Suc [OF cfg_okD(7) [OF ok], of "co_node c"]
  have cp: "copied c = co_node c" "copied c' = Suc (co_node c)" using pc c' by (simp_all add: copied_def)
  have "done_inv cf c'" using D(11) c' by (simp add: done_inv_def)
  moreover have "thread_inv cf bufs (completed_node c) (coord_next_valid c + cf_batch cf) (hasher_base cf i + t) (threads c ! t)"
    if "t < length (threads c)" for t
    using D(12) [OF that] by (simp add: thread_inv_def)
  ultimately show ?thesis
    using D(1-4,7-10) stored bs f pc by (simp add: coord_inv_def c' cp)
qed

lemma coord_inv_reserve:
  assumes ok: "cfg_ok cf" and inv: "coord_inv cf buf lab bufs i c" and pc: "co_pc c = CRecover"
    and ring: "ring_at (cf_batches cf) (coord_ring c') (completed_node c div cf_batch cf) (Suc (copied c div cf_batch cf))"
    and c': "co_node c' = Suc (co_node c)" "co_idx c' = rb_incr (cf_parents cf) (co_idx c)" "co_pc c' = CRun"
      "coord_batch_count c' = 0" "coord_batch_idx c' = copied c div cf_batch cf mod cf_batches cf"
      "completed_node c' = completed_node c" "coord_next_valid c' = coord_next_valid c"
      "coord_done_count c' = coord_done_count c" "threads c' = threads c" "start_sector c' = start_sector c"
      "coord_ring_ptrs c' = coord_ring_ptrs c" "coord_ring_storage c' = coord_ring_storage c"
  shows "coord_inv cf buf lab bufs i c'"
proof -
  note D = coord_invD [OF inv]
  have cp: "copied c = Suc (co_node c)" "copied c' = Suc (co_node c)" using pc c' by (simp_all add: copied_def)
  have "rb_incr (cf_parents cf) (co_idx c) = Suc (co_node c) mod cf_parents cf"
    unfolding D(3) using rb_incr_mod cfg_okD(3,4) [OF ok] by simp
  moreover have "done_inv cf c'" using D(11) c' by (simp add: done_inv_def)
  moreover have "stored_ok cf buf lab c' m j = stored_ok cf buf lab c m j" for m j by (simp add: stored_ok_def c')
  ultimately show ?thesis
    using D(1,2,7-9,12,13) D(5) [OF pc] ring cp by (simp add: coord_inv_def c')
qed

lemma take_back_inv:
  assumes ok: "cfg_ok cf" and i: "i < length (cf_hashers cf)" and inv: "coord_inv cf buf lab bufs i c"
    and total: "copied c \<le> node_total cf"
    and d: "coord_done_count c ! rb_tail (coord_ring c) = length (threads c)"
  shows "coord_inv cf buf lab bufs i (take_back cf c)" "completed_node (take_back cf c) = completed_node c + cf_batch cf"
    "ring_at (cf_batches cf) (coord_ring (take_back cf c)) (completed_node c div cf_batch cf + 1)
      (copied c div cf_batch cf + (if co_pc c = CRecover then 0 else 1))"
proof -
  let ?B = "cf_batch cf" and ?C = "cf_batches cf" and ?c = "take_back cf c"
  let ?lo = "completed_node c div ?B" and ?hi = "copied c div ?B + (if co_pc c = CRecover then 0 else 1)"
  note D = coord_invD [OF inv]
  note R = ring_atD [OF D(10)]
  have B: "0 < ?B" using cfg_okD(7) [OF ok] .
  have dn: "length (coord_done_count c) = ?C" "\<And>b. ?lo \<le> b \<Longrightarrow> b < ?lo + ?C \<Longrightarrow> coord_done_count c ! (b mod ?C) =
      length (filter (\<lambda>th. Suc b * ?B \<le> th_node th) (threads c))"
    using D(11) by (simp_all add: done_inv_def)
  have cl: "?lo * ?B = completed_node c" using D(8) by simp
  have "length (filter (\<lambda>th. Suc ?lo * ?B \<le> th_node th) (threads c)) = length (threads c)"
    using dn(2) [of ?lo] d R(4) cfg_okD(8) [OF ok] by simp
  then have all: "Suc ?lo * ?B \<le> th_node th" if "th \<in> set (threads c)" for th
    using that by (metis (no_types, lifting) filter_True length_filter_less less_irrefl)
  have low: "completed_node c + ?B \<le> th_node (threads c ! t)" if "t < length (threads c)" for t
    using all [OF nth_mem [OF that]] cl by simp
  have "0 < cf_hashers cf ! i" using ok nth_mem [OF i] by (auto simp: cfg_ok_def)
  then have "0 < length (threads c)" using D(2) by simp
  then have nv: "completed_node c + ?B \<le> coord_next_valid c"
    using low [of 0] thread_invD(2,3) [OF D(12) [of 0]] by linarith
  then have "Suc ?lo * ?B \<le> copied c div ?B * ?B" using cl D(7) by simp
  then have "?lo < copied c div ?B" using B by (simp only: mult_le_cancel2 Suc_le_eq)
  then have lt: "?lo < ?hi" by simp
  have sa: "size_add (completed_node c) ?B = completed_node c + ?B"
    using nv next_valid_le [OF inv] total node_total_bound [OF ok] by (intro size_add_small) (simp add: SIZE_MOD_def)
  then show cn: "completed_node ?c = completed_node c + ?B" by (simp add: take_back_def)
  have lo': "(completed_node c + ?B) div ?B = ?lo + 1" using div_add_self2 [of ?B "completed_node c"] B by simp
  show ring: "ring_at ?C (coord_ring ?c) (?lo + 1) ?hi"
    using ring_at_release(1) [OF D(10) lt] by (simp add: take_back_def)
  have cp: "copied ?c = copied c" by (simp add: take_back_def copied_def)
  have stored: "stored_ok cf buf lab ?c m j = stored_ok cf buf lab c m j" for m j by (simp add: take_back_def stored_ok_def)
  have "done_inv cf ?c"
  proof -
    have "coord_done_count ?c ! (b mod ?C) = length (filter (\<lambda>th. Suc b * ?B \<le> th_node th) (threads c))"
      if b: "?lo + 1 \<le> b" "b < ?lo + 1 + ?C" for b
    proof (cases "b = ?lo + ?C")
      case True
      have "\<not> Suc b * ?B \<le> th_node th" if "th \<in> set (threads c)" for th
      proof -
        from that obtain t where "t < length (threads c)" "th = threads c ! t" by (metis in_set_conv_nth)
        then have "th_node th \<le> coord_next_valid c" using thread_invD(2,3) [OF D(12)] by fastforce
        also have "\<dots> \<le> ?hi * ?B" unfolding D(7) by (intro mult_le_mono1) simp
        also have "\<dots> < Suc b * ?B" using R(3) True B by (intro mult_strict_right_mono) simp_all
        finally show ?thesis by simp
      qed
      then have "filter (\<lambda>th. Suc b * ?B \<le> th_node th) (threads c) = []" by (simp add: filter_empty_conv)
      moreover have "rb_tail (coord_ring c) < ?C" using R(4) cfg_okD(8) [OF ok] by simp
      ultimately show ?thesis using True R(4) dn(1) by (simp add: take_back_def)
    next
      case False
      then have bl: "?lo \<le> b" "b < ?lo + ?C" using b by simp_all
      have "b mod ?C \<noteq> ?lo mod ?C" using slot_inj [of b ?C ?lo] b bl by auto
      then show ?thesis using dn(2) [OF bl] R(4) by (simp add: take_back_def)
    qed
    then show ?thesis using dn(1) cn lo' by (simp add: done_inv_def) (simp add: take_back_def)
  qed
  moreover have "thread_inv cf bufs (completed_node c + ?B) (coord_next_valid c) (hasher_base cf i + t) (threads c ! t)"
    if "t < length (threads c)" for t
    using D(12) [OF that] low [OF that] by (simp add: thread_inv_def)
  ultimately show "coord_inv cf buf lab bufs i ?c"
    using D(1-8,13) nv ring cn lo' stored cp
    unfolding coord_inv_def by (simp add: take_back_def)
qed

end
