(* ===== verification/PC1_Coord_Step.thy ===== *)
theory PC1_Coord_Step
  imports PC1_Coord
begin

text \<open>
  Every step of a coordinator succeeds and keeps the invariant, in the state
  that the other threads leave at any moment.
\<close>

lemma coord_linkD:
  assumes "coord_link cf rb cn lo node c"
  shows "cn \<le> completed_node c" "copied c \<le> node"
    "\<And>n. lo \<le> n \<Longrightarrow> n < copied c \<Longrightarrow> \<not> layer_start cf n \<Longrightarrow> PAGE_BATCH_SIZE \<le> valid rb ! (n mod cf_parents cf)"
    "co_cur_valid c \<Longrightarrow> copied c < node"
    "co_cur_valid c \<Longrightarrow> \<not> layer_start cf (copied c) \<Longrightarrow> PAGE_BATCH_SIZE \<le> valid rb ! (copied c mod cf_parents cf)"
  using assms by (auto simp: coord_link_def)

definition coord_result :: "pc1_cfg \<Rightarrow> 32 word list \<Rightarrow> (nat \<Rightarrow> nat \<Rightarrow> label_t) \<Rightarrow> replica_id_buffer_t list \<Rightarrow> nat \<Rightarrow>
    system_buffers_t \<Rightarrow> nat \<Rightarrow> nat \<Rightarrow> coordinator_t \<Rightarrow> (system_buffers_t \<times> coordinator_t) result \<Rightarrow> bool" where
  "coord_result cf buf lab bufs i s lo node c r \<longleftrightarrow>
     (\<exists>x c'. r = Inr (s\<lparr>coordinator_node := (coordinator_node s)[i := x]\<rparr>, c') \<and> coord_inv cf buf lab bufs i c' \<and>
        coord_link cf (parent_buffer s) x lo node c' \<and> threads c' = threads c \<and> coordinator_node s ! i \<le> x \<and> x \<le> node)"

lemma coord_resultI:
  assumes "r = Inr (s\<lparr>coordinator_node := (coordinator_node s)[i := x]\<rparr>, c')" "coord_inv cf buf lab bufs i c'"
    "coord_link cf (parent_buffer s) x lo node c'" "threads c' = threads c" "coordinator_node s ! i \<le> x" "x \<le> node"
  shows "coord_result cf buf lab bufs i s lo node c r"
  using assms by (auto simp: coord_result_def)

lemma coord_result_same:
  assumes "r = Inr (s, c')" "coord_inv cf buf lab bufs i c'"
    "coord_link cf (parent_buffer s) (coordinator_node s ! i) lo node c'" "threads c' = threads c"
    "coordinator_node s ! i \<le> node"
  shows "coord_result cf buf lab bufs i s lo node c r"
  by (rule coord_resultI [of _ _ _ "coordinator_node s ! i" c']) (use assms in simp_all)

text \<open>What the rest of the system promises to the coordinator of index \<open>i\<close>.\<close>

definition coord_env :: "pc1_cfg \<Rightarrow> 32 word list \<Rightarrow> (nat \<Rightarrow> nat \<Rightarrow> label_t) \<Rightarrow> replica_id_buffer_t list \<Rightarrow>
    system_buffers_t \<Rightarrow> coordinator_t list \<Rightarrow> io_req_t list \<Rightarrow> nat \<Rightarrow> nat \<Rightarrow> nat \<Rightarrow> nat \<Rightarrow> nat \<Rightarrow> bool" where
  "coord_env cf buf lab bufs s cs rs w lo node res i \<longleftrightarrow>
     cfg_ok cf \<and> i < length cs \<and> length cs = length (cf_hashers cf) \<and> coord_inv cf buf lab bufs i (cs ! i) \<and>
     coord_link cf (parent_buffer s) (coordinator_node s ! i) lo node (cs ! i) \<and>
     i < length (coordinator_node s) \<and> lo \<le> coordinator_node s ! i \<and> node \<le> res \<and> node \<le> node_total cf \<and>
     ring_at (cf_parents cf) (parent_buffer s) lo res \<and> desc_inv cf buf s w lo node \<and>
     read_inv cf buf lab s rs lo node res \<and> node_mem_inv cf lab (node_buffer_store s) cs"

lemma coord_envD:
  assumes "coord_env cf buf lab bufs s cs rs w lo node res i"
  shows "cfg_ok cf" "i < length cs" "length cs = length (cf_hashers cf)" "coord_inv cf buf lab bufs i (cs ! i)"
    "coord_link cf (parent_buffer s) (coordinator_node s ! i) lo node (cs ! i)"
    "i < length (coordinator_node s)" "lo \<le> coordinator_node s ! i" "node \<le> res" "node \<le> node_total cf"
    "ring_at (cf_parents cf) (parent_buffer s) lo res" "desc_inv cf buf s w lo node"
    "read_inv cf buf lab s rs lo node res" "node_mem_inv cf lab (node_buffer_store s) cs"
  using assms by (simp_all add: coord_env_def)

lemma coord_low:
  assumes env: "coord_env cf buf lab bufs s cs rs w lo node res i"
  shows "lo \<le> copied (cs ! i)" "completed_node (cs ! i) \<le> copied (cs ! i)" "copied (cs ! i) \<le> node_total cf"
  using coord_envD(7-9) [OF env] coord_linkD(1,2) [OF coord_envD(5) [OF env]] coord_invD(9) [OF coord_envD(4) [OF env]]
    next_valid_le [OF coord_envD(4) [OF env]] by linarith+

lemma coord_slots: "coord_env cf buf lab bufs s cs rs w lo node res i \<Longrightarrow> lo \<le> n \<Longrightarrow> n < node \<Longrightarrow> \<not> layer_start cf n \<Longrightarrow>
    slot_inv cf buf lab s rs (node - length (fifo_list (parent_read_fifo s))) n"
  using coord_envD(12) by (simp add: read_inv_def Let_def)

lemma coord_sources:
  assumes env: "coord_env cf buf lab bufs s cs rs w lo node res i" and a: "co_pc (cs ! i) \<noteq> CRecover" "co_cur_valid (cs ! i)" "\<not> layer_start cf (copied (cs ! i))" "j < PARENT_COUNT"
  shows "source_ok cf buf lab s (start_sector (cs ! i)) (length (threads (cs ! i)) * NODES_PER_HASHER) (copied (cs ! i)) j"
proof -
  note ok = coord_envD(1) [OF env] and i_lt = coord_envD(2) [OF env] and cs_len = coord_envD(3) [OF env]
    and inv = coord_envD(4) [OF env] and link = coord_envD(5) [OF env] and cn_lt = coord_envD(6) [OF env]
    and cn_lo = coord_envD(7) [OF env] and pos = coord_envD(8,9) [OF env] and ring = coord_envD(10) [OF env]
    and desc = coord_envD(11) [OF env] and reads = coord_envD(12) [OF env] and mem = coord_envD(13) [OF env]
  show ?thesis
    by (rule source_okI [OF ok i_lt refl cs_len inv a(1) refl a(3,4) desc_invD [OF desc coord_low(1) [OF env] _ a(3,4)]
          coord_slots [OF env coord_low(1) [OF env] _ a(3)] _ mem])
      (use coord_linkD(4,5) [OF link a(2)] a(3) in simp_all)
qed

lemma coord_next_slot:
  assumes env: "coord_env cf buf lab bufs s cs rs w lo node res i" and a: "n < node"
  shows "is_valid PAGE_BATCH_SIZE (Suc n mod cf_parents cf) (parent_buffer s) =
      Inr (PAGE_BATCH_SIZE \<le> valid (parent_buffer s) ! (Suc n mod cf_parents cf))"
    "PAGE_BATCH_SIZE \<le> valid (parent_buffer s) ! (Suc n mod cf_parents cf) \<Longrightarrow> Suc n < node"
proof -
  note ok = coord_envD(1) [OF env] and i_lt = coord_envD(2) [OF env] and cs_len = coord_envD(3) [OF env]
    and inv = coord_envD(4) [OF env] and link = coord_envD(5) [OF env] and cn_lt = coord_envD(6) [OF env]
    and cn_lo = coord_envD(7) [OF env] and pos = coord_envD(8,9) [OF env] and ring = coord_envD(10) [OF env]
    and desc = coord_envD(11) [OF env] and reads = coord_envD(12) [OF env] and mem = coord_envD(13) [OF env]
  have "Suc n mod cf_parents cf < cf_parents cf" using cfg_okD(3) [OF ok] by simp
  from ring_at_is_valid [OF ring this] show "is_valid PAGE_BATCH_SIZE (Suc n mod cf_parents cf) (parent_buffer s) =
      Inr (PAGE_BATCH_SIZE \<le> valid (parent_buffer s) ! (Suc n mod cf_parents cf))" .
  assume v: "PAGE_BATCH_SIZE \<le> valid (parent_buffer s) ! (Suc n mod cf_parents cf)"
  show "Suc n < node"
  proof (rule ccontr)
    assume "\<not> Suc n < node"
    then have "Suc n = node" using a by simp
    then have "valid (parent_buffer s) ! (Suc n mod cf_parents cf) = 0"
      using reads pos(1) by (simp add: read_inv_def Let_def)
    with v show False by (simp add: constant_defs)
  qed
qed

lemma coord_this_slot:
  assumes env: "coord_env cf buf lab bufs s cs rs w lo node res i" and a: "n \<le> node" "lo \<le> n"
  shows "is_valid PAGE_BATCH_SIZE (n mod cf_parents cf) (parent_buffer s) =
      Inr (PAGE_BATCH_SIZE \<le> valid (parent_buffer s) ! (n mod cf_parents cf))"
    "PAGE_BATCH_SIZE \<le> valid (parent_buffer s) ! (n mod cf_parents cf) \<Longrightarrow> n < node"
proof -
  note ok = coord_envD(1) [OF env] and i_lt = coord_envD(2) [OF env] and cs_len = coord_envD(3) [OF env]
    and inv = coord_envD(4) [OF env] and link = coord_envD(5) [OF env] and cn_lt = coord_envD(6) [OF env]
    and cn_lo = coord_envD(7) [OF env] and pos = coord_envD(8,9) [OF env] and ring = coord_envD(10) [OF env]
    and desc = coord_envD(11) [OF env] and reads = coord_envD(12) [OF env] and mem = coord_envD(13) [OF env]
  have "n mod cf_parents cf < cf_parents cf" using cfg_okD(3) [OF ok] by simp
  from ring_at_is_valid [OF ring this] show "is_valid PAGE_BATCH_SIZE (n mod cf_parents cf) (parent_buffer s) =
      Inr (PAGE_BATCH_SIZE \<le> valid (parent_buffer s) ! (n mod cf_parents cf))" .
  show "PAGE_BATCH_SIZE \<le> valid (parent_buffer s) ! (n mod cf_parents cf) \<Longrightarrow> n < node"
    using reads pos(1) a(1) by (cases "n = node") (auto simp: read_inv_def Let_def constant_defs)
qed

lemma coord_link_copied:
  assumes env: "coord_env cf buf lab bufs s cs rs w lo node res i" and a: "co_pc (cs ! i) \<noteq> CRecover" "co_cur_valid (cs ! i)" "copied c' = Suc (copied (cs ! i))"
    "x \<le> completed_node c'" "co_cur_valid c' = (PAGE_BATCH_SIZE \<le> valid (parent_buffer s) ! (copied c' mod cf_parents cf))"
  shows "coord_link cf (parent_buffer s) x lo node c'"
proof -
  note ok = coord_envD(1) [OF env] and i_lt = coord_envD(2) [OF env] and cs_len = coord_envD(3) [OF env]
    and inv = coord_envD(4) [OF env] and link = coord_envD(5) [OF env] and cn_lt = coord_envD(6) [OF env]
    and cn_lo = coord_envD(7) [OF env] and pos = coord_envD(8,9) [OF env] and ring = coord_envD(10) [OF env]
    and desc = coord_envD(11) [OF env] and reads = coord_envD(12) [OF env] and mem = coord_envD(13) [OF env]
  note L = coord_linkD [OF link]
  have "PAGE_BATCH_SIZE \<le> valid (parent_buffer s) ! (n mod cf_parents cf)"
    if "lo \<le> n" "n < Suc (copied (cs ! i))" "\<not> layer_start cf n" for n
    using L(3) [OF that(1) _ that(3)] L(5) [OF a(2)] that by (cases "n = copied (cs ! i)") auto
  then show ?thesis
    using a(3-5) L(4) [OF a(2)] coord_next_slot(2) [OF env L(4) [OF a(2)]] by (auto simp: coord_link_def)
qed

lemma coord_copy_step:
  assumes env: "coord_env cf buf lab bufs s cs rs w lo node res i" and pc: "co_pc (cs ! i) = CRun" and cv: "co_cur_valid (cs ! i)"
  shows "coord_result cf buf lab bufs i s lo node (cs ! i) (coord_copy cf (node_total cf) i s (cs ! i))"
proof -
  note ok = coord_envD(1) [OF env] and i_lt = coord_envD(2) [OF env] and cs_len = coord_envD(3) [OF env]
    and inv = coord_envD(4) [OF env] and link = coord_envD(5) [OF env] and cn_lt = coord_envD(6) [OF env]
    and cn_lo = coord_envD(7) [OF env] and pos = coord_envD(8,9) [OF env] and ring = coord_envD(10) [OF env]
    and desc = coord_envD(11) [OF env] and reads = coord_envD(12) [OF env] and mem = coord_envD(13) [OF env]
  let ?c = "cs ! i" and ?B = "cf_batch cf"
  note D = coord_invD [OF inv] and L = coord_linkD [OF link]
  have pcr: "co_pc ?c \<noteq> CRecover" using pc by simp
  have cp: "copied ?c = co_node ?c" using pc by (simp add: copied_def)
  have lt: "co_node ?c < node" "co_node ?c < node_total cf" using L(4) [OF cv] cp pos by simp_all
  define v where "v = (PAGE_BATCH_SIZE \<le> valid (parent_buffer s) ! (Suc (co_node ?c) mod cf_parents cf))"
  define d where "d = (size_add (co_node ?c) (Suc 0) = node_total cf)"
  have nx: "rb_incr (cf_parents cf) (co_idx ?c) = Suc (co_node ?c) mod cf_parents cf"
    unfolding D(3) using rb_incr_mod cfg_okD(3,4) [OF ok] by simp
  from copy_all_stored [where s = s and v = v and d = d, OF ok inv pcr] coord_sources [OF env pcr cv] cp obtain stg pts where f:
    "fold (copy_parent s) [0..<PARENT_COUNT] (?c\<lparr>co_cur_valid := v, co_done := d\<rparr>) =
      ?c\<lparr>co_cur_valid := v, co_done := d, coord_ring_storage := stg, coord_ring_ptrs := pts\<rparr>"
    "\<And>m j. completed_node ?c \<le> m \<Longrightarrow> m < Suc (co_node ?c) \<Longrightarrow> \<not> layer_start cf m \<Longrightarrow> j < PARENT_COUNT \<Longrightarrow>
      stored_ok cf buf lab (?c\<lparr>co_cur_valid := v, co_done := d, coord_ring_storage := stg, coord_ring_ptrs := pts\<rparr>) m j"
    by auto
  let ?c1 = "?c\<lparr>co_cur_valid := v, co_done := d, coord_ring_storage := stg, coord_ring_ptrs := pts,
     coord_batch_count := coord_batch_count ?c + 1\<rparr>"
  have run: "coord_copy cf (node_total cf) i s ?c =
    (if coord_batch_count ?c + 1 = ?B then Inr (s, ?c1\<lparr>coord_next_valid := size_add (coord_next_valid ?c) ?B, co_pc := CRecover\<rparr>)
     else coord_advance cf i s ?c1)"
    using coord_next_slot(1) [OF env lt(1)] f(1)
    by (simp add: coord_copy_def nx v_def [symmetric] d_def [symmetric] Let_def del: upt_rec_numeral)
  have st: "stored_ok cf buf lab c' m j"
    if "completed_node ?c \<le> m" "m < Suc (co_node ?c)" "\<not> layer_start cf m" "j < PARENT_COUNT"
      "coord_ring_ptrs c' = pts" "coord_ring_storage c' = stg" "threads c' = threads ?c" "start_sector c' = start_sector ?c" for c' m j
    using f(2) [OF that(1-4)] that(5-) by (simp add: stored_ok_def)
  have cn: "coordinator_node s ! i \<le> completed_node ?c" "completed_node ?c \<le> node" using L(1) coord_low [OF env] L(2) by linarith+
  show ?thesis
  proof (cases "coord_batch_count ?c + 1 = ?B")
    case True
    have "coord_next_valid ?c + ?B \<le> Suc (co_node ?c)"
      using batch_Suc(2) [OF cfg_okD(7) [OF ok], of "co_node ?c"] True D(6) [OF pcr] D(7) cp
      by (metis add_mult_distrib div_times_less_eq_dividend mult_1)
    then have sa: "size_add (coord_next_valid ?c) ?B = coord_next_valid ?c + ?B"
      using lt(2) node_total_bound [OF ok] by (intro size_add_small) (simp add: SIZE_MOD_def)
    let ?c' = "?c1\<lparr>coord_next_valid := size_add (coord_next_valid ?c) ?B, co_pc := CRecover\<rparr>"
    show ?thesis
    proof (rule coord_result_same [of _ _ ?c'])
      show "coord_copy cf (node_total cf) i s ?c = Inr (s, ?c')" using run True by simp
      show "coord_inv cf buf lab bufs i ?c'"
        by (rule coord_inv_publish [OF ok inv pcr]) (use st True D(6) [OF pcr] sa in simp_all)
      show "coord_link cf (parent_buffer s) (coordinator_node s ! i) lo node ?c'"
        by (rule coord_link_copied [OF env pcr cv]) (use cn cp in \<open>simp_all add: copied_def v_def\<close>)
    qed (use cn in simp_all)
  next
    case False
    from coord_advance_spec [OF ok cn_lt, of ?c1] lt(2) obtain x k u where a:
      "coord_advance cf i s ?c1 = Inr (s\<lparr>coordinator_node := (coordinator_node s)[i := x]\<rparr>,
        ?c1\<lparr>co_node := Suc (co_node ?c), co_idx := rb_incr (cf_parents cf) (co_idx ?c), co_node_idx := k, co_pc := CRun,
        node_update_batch_count := u\<rparr>)" "x = coordinator_node s ! i \<or> x = completed_node ?c" by auto
    let ?c' = "?c1\<lparr>co_node := Suc (co_node ?c), co_idx := rb_incr (cf_parents cf) (co_idx ?c), co_node_idx := k, co_pc := CRun,
        node_update_batch_count := u\<rparr>"
    show ?thesis
    proof (rule coord_resultI [of _ _ _ x ?c'])
      show "coord_copy cf (node_total cf) i s ?c = Inr (s\<lparr>coordinator_node := (coordinator_node s)[i := x]\<rparr>, ?c')"
        using run False a(1) by simp
      show "coord_inv cf buf lab bufs i ?c'"
        by (rule coord_inv_advance [OF ok inv pcr]) (use st False D(6) [OF pcr] in simp_all)
      show "coord_link cf (parent_buffer s) x lo node ?c'"
        by (rule coord_link_copied [OF env pcr cv]) (use cn cp a(2) in \<open>auto simp: copied_def v_def\<close>)
    qed (use cn a(2) in auto)
  qed
qed


lemma coord_reserve_spec:
  assumes ok: "cfg_ok cf" and inv: "coord_inv cf buf lab bufs i c" and pc: "co_pc c = CRecover"
    and room: "copied c div cf_batch cf + 1 < completed_node c div cf_batch cf + cf_batches cf"
    and i: "i < length (coordinator_node s)" and total: "copied c \<le> node_total cf"
  shows "\<exists>x c'. coord_reserve cf i s c = Inr (s\<lparr>coordinator_node := (coordinator_node s)[i := x]\<rparr>, c') \<and>
    coord_inv cf buf lab bufs i c' \<and> copied c' = copied c \<and> completed_node c' = completed_node c \<and>
    co_cur_valid c' = co_cur_valid c \<and> threads c' = threads c \<and> (x = coordinator_node s ! i \<or> x = completed_node c)"
proof -
  let ?hi = "copied c div cf_batch cf" and ?C = "cf_batches cf"
  have ring: "ring_at ?C (coord_ring c) (completed_node c div cf_batch cf) ?hi" using coord_invD(10) [OF inv] pc by simp
  have cp: "copied c = Suc (co_node c)" using pc by (simp add: copied_def)
  from ring_at_reserve [OF ring] room obtain r where r:
    "reserve ?C (coord_ring c) = Inr (Some (?hi mod ?C, Some (?hi mod ?C)), r)"
    "ring_at ?C r (completed_node c div cf_batch cf) (Suc ?hi)" by auto
  let ?c1 = "c\<lparr>coord_ring := r, coord_batch_idx := ?hi mod ?C, coord_batch_count := 0,
      node_update_batch_count := node_update_batch_count c + 1\<rparr>"
  have "co_node ?c1 < node_total cf" using total cp by simp
  from coord_advance_spec [OF ok i this] obtain x k u where a:
    "coord_advance cf i s ?c1 = Inr (s\<lparr>coordinator_node := (coordinator_node s)[i := x]\<rparr>,
      ?c1\<lparr>co_node := Suc (co_node c), co_idx := rb_incr (cf_parents cf) (co_idx c), co_node_idx := k, co_pc := CRun,
      node_update_batch_count := u\<rparr>)" "x = coordinator_node s ! i \<or> x = completed_node c" by auto
  let ?c' = "?c1\<lparr>co_node := Suc (co_node c), co_idx := rb_incr (cf_parents cf) (co_idx c), co_node_idx := k, co_pc := CRun,
      node_update_batch_count := u\<rparr>"
  have "coord_reserve cf i s c = Inr (s\<lparr>coordinator_node := (coordinator_node s)[i := x]\<rparr>, ?c')"
    using r(1) a(1) by (simp add: coord_reserve_def)
  moreover have "coord_inv cf buf lab bufs i ?c'" by (rule coord_inv_reserve [OF ok inv pc]) (use r(2) in simp_all)
  moreover have "copied ?c' = copied c" using cp by (simp add: copied_def)
  ultimately show ?thesis using a(2) by (intro exI [of _ x] exI [of _ ?c']) simp
qed

lemma coord_link_keep:
  assumes "coord_link cf rb cn lo node c" "copied c' = copied c" "co_cur_valid c' = co_cur_valid c" "x \<le> completed_node c'"
  shows "coord_link cf rb x lo node c'"
  using assms by (simp add: coord_link_def)

lemma take_back_frame [simp]:
  "copied (take_back cf c) = copied c" "co_cur_valid (take_back cf c) = co_cur_valid c" "threads (take_back cf c) = threads c"
  "co_pc (take_back cf c) = co_pc c"
  by (simp_all add: take_back_def copied_def)

lemma coord_done_index:
  assumes "cfg_ok cf" "coord_inv cf buf lab bufs i c"
  shows "vec_get (coord_done_count c) (rb_tail (coord_ring c)) = Inr (coord_done_count c ! rb_tail (coord_ring c))"
    "coord_done_count c ! rb_tail (coord_ring c) \<le> length (threads c)"
proof -
  note D = coord_invD [OF assms(2)] and R = ring_atD [OF coord_invD(10) [OF assms(2)]]
  have C: "0 < cf_batches cf" using cfg_okD(8) [OF assms(1)] by simp
  then show "vec_get (coord_done_count c) (rb_tail (coord_ring c)) = Inr (coord_done_count c ! rb_tail (coord_ring c))"
    using D(11) R(4) by (simp add: done_inv_def)
  show "coord_done_count c ! rb_tail (coord_ring c) \<le> length (threads c)"
    using D(11) R(4) C unfolding done_inv_def by simp
qed

lemma coord_recover_step:
  assumes env: "coord_env cf buf lab bufs s cs rs w lo node res i" and pc: "co_pc (cs ! i) = CRecover"
  shows "coord_result cf buf lab bufs i s lo node (cs ! i) (coord_recover cf i s (cs ! i))"
proof -
  let ?c = "cs ! i" and ?B = "cf_batch cf" and ?C = "cf_batches cf"
  note ok = coord_envD(1) [OF env] and inv = coord_envD(4) [OF env] and link = coord_envD(5) [OF env]
    and cn_lt = coord_envD(6) [OF env]
  have total: "copied ?c \<le> node_total cf" and low: "completed_node ?c \<le> copied ?c" using coord_low [OF env] by simp_all
  have ring: "ring_at ?C (coord_ring ?c) (completed_node ?c div ?B) (copied ?c div ?B)" using coord_invD(10) [OF inv] pc by simp
  note L = coord_linkD(1,2) [OF link]
  have fin: "coord_result cf buf lab bufs i s lo node ?c (coord_reserve cf i s c)"
    if c: "coord_inv cf buf lab bufs i c" "co_pc c = CRecover" "copied c = copied ?c" "co_cur_valid c = co_cur_valid ?c"
      "threads c = threads ?c" "completed_node ?c \<le> completed_node c"
      and room: "copied c div ?B + 1 < completed_node c div ?B + ?C" for c
  proof -
    from coord_reserve_spec [OF ok c(1,2) room cn_lt] total c(3) obtain x c' where r:
      "coord_reserve cf i s c = Inr (s\<lparr>coordinator_node := (coordinator_node s)[i := x]\<rparr>, c')"
      "coord_inv cf buf lab bufs i c'" "copied c' = copied c" "completed_node c' = completed_node c"
      "co_cur_valid c' = co_cur_valid c" "threads c' = threads c" "x = coordinator_node s ! i \<or> x = completed_node c" by auto
    have "completed_node c \<le> copied c" using coord_invD(9) [OF c(1)] next_valid_le [OF c(1)] by simp
    then have x: "coordinator_node s ! i \<le> x" "x \<le> completed_node c" "x \<le> node" using r(7) L c(3,6) by auto
    show ?thesis
      by (rule coord_resultI [OF r(1,2) coord_link_keep [OF link]]) (use r c x in simp_all)
  qed
  show ?thesis
  proof (cases "rb_is_full ?C (coord_ring ?c)")
    case True
    note d = coord_done_index [OF ok inv]
    show ?thesis
    proof (cases "coord_done_count ?c ! rb_tail (coord_ring ?c) = length (threads ?c)")
      case fin1: True
      have il: "i < length (cf_hashers cf)" using coord_envD(2,3) [OF env] by simp
      note tb = take_back_inv [OF ok il inv total fin1]
      have "completed_node (take_back cf ?c) div ?B = completed_node ?c div ?B + 1"
        using tb(2) div_add_self2 [of ?B "completed_node ?c"] cfg_okD(7) [OF ok] by simp
      then have "coord_result cf buf lab bufs i s lo node ?c (coord_reserve cf i s (take_back cf ?c))"
        using ring_at_full [OF ring] True tb(1,2) pc by (intro fin) simp_all
      then show ?thesis using True d(1) fin1 by (simp add: coord_recover_def)
    next
      case False
      then have "coord_recover cf i s ?c = Inr (s, ?c)" using True d(1) by (simp add: coord_recover_def)
      then show ?thesis by (rule coord_result_same [OF _ inv link]) (use L low in simp_all)
    qed
  next
    case False
    then have "copied ?c div ?B + 1 < completed_node ?c div ?B + ?C"
      using ring_at_full [OF ring] ring_atD(3) [OF ring] by simp
    from fin [OF inv pc _ _ _ _ this] show ?thesis using False by (simp add: coord_recover_def)
  qed
qed

lemma coord_inv_pc:
  assumes "coord_inv cf buf lab bufs i c" "co_pc c \<noteq> CRecover" "p \<noteq> CRecover"
  shows "coord_inv cf buf lab bufs i (c\<lparr>co_pc := p\<rparr>)" "copied (c\<lparr>co_pc := p\<rparr>) = copied c"
proof -
  show cp: "copied (c\<lparr>co_pc := p\<rparr>) = copied c" using assms by (simp add: copied_def)
  have "stored_ok cf buf lab (c\<lparr>co_pc := p\<rparr>) m j = stored_ok cf buf lab c m j" for m j by (simp add: stored_ok_def)
  moreover have "done_inv cf (c\<lparr>co_pc := p\<rparr>) = done_inv cf c" by (simp add: done_inv_def)
  ultimately show "coord_inv cf buf lab bufs i (c\<lparr>co_pc := p\<rparr>)"
    using coord_invD [OF assms(1)] assms(2,3) cp by (simp add: coord_inv_def)
qed

lemma coord_inv_flags:
  assumes "coord_inv cf buf lab bufs i c"
  shows "coord_inv cf buf lab bufs i (c\<lparr>co_done := d, co_cur_valid := v\<rparr>)" "copied (c\<lparr>co_done := d, co_cur_valid := v\<rparr>) = copied c"
proof -
  show cp: "copied (c\<lparr>co_done := d, co_cur_valid := v\<rparr>) = copied c" by (simp add: copied_def)
  have "stored_ok cf buf lab (c\<lparr>co_done := d, co_cur_valid := v\<rparr>) m j = stored_ok cf buf lab c m j" for m j
    by (simp add: stored_ok_def)
  moreover have "done_inv cf (c\<lparr>co_done := d, co_cur_valid := v\<rparr>) = done_inv cf c" by (simp add: done_inv_def)
  ultimately show "coord_inv cf buf lab bufs i (c\<lparr>co_done := d, co_cur_valid := v\<rparr>)"
    using coord_invD [OF assms(1)] cp by (simp add: coord_inv_def)
qed

lemma coord_drain_step:
  assumes env: "coord_env cf buf lab bufs s cs rs w lo node res i" and pc: "co_pc (cs ! i) = CDrain"
  shows "coord_result cf buf lab bufs i s lo node (cs ! i) (coord_drain cf (node_total cf) i s (cs ! i))"
proof -
  let ?c = "cs ! i"
  note ok = coord_envD(1) [OF env] and inv = coord_envD(4) [OF env] and link = coord_envD(5) [OF env]
    and cn_lt = coord_envD(6) [OF env]
  note L = coord_linkD(1,2) [OF link] and low = coord_low [OF env]
  have pcr: "co_pc ?c \<noteq> CRecover" using pc by simp
  show ?thesis
  proof (cases "completed_node ?c < node_total cf")
    case True
    have "completed_node ?c div cf_batch cf \<le> copied ?c div cf_batch cf" using low(2) by (rule div_le_mono)
    then have "0 < cur_size (coord_ring ?c)" using ring_atD(6) [OF coord_invD(10) [OF inv]] pcr by simp
    note d = coord_done_index [OF ok inv]
    have il: "i < length (cf_hashers cf)" using coord_envD(2,3) [OF env] by simp
    have run: "coord_drain cf (node_total cf) i s ?c =
      (if coord_done_count ?c ! rb_tail (coord_ring ?c) < length (threads ?c) then Inr (s, ?c) else Inr (s, take_back cf ?c))"
      using True \<open>0 < cur_size (coord_ring ?c)\<close> d(1) by (simp add: coord_drain_def assert_that_def)
    show ?thesis
    proof (cases "coord_done_count ?c ! rb_tail (coord_ring ?c) < length (threads ?c)")
      case True
      then have "coord_drain cf (node_total cf) i s ?c = Inr (s, ?c)" using run by simp
      then show ?thesis by (rule coord_result_same [OF _ inv link]) (use L low in simp_all)
    next
      case False
      then have e: "coord_done_count ?c ! rb_tail (coord_ring ?c) = length (threads ?c)" using d(2) by simp
      note tb = take_back_inv [OF ok il inv low(3) e]
      have "coord_drain cf (node_total cf) i s ?c = Inr (s, take_back cf ?c)" using run False by simp
      then show ?thesis
        by (rule coord_result_same [OF _ tb(1) coord_link_keep [OF link]]) (use L low tb(2) in simp_all)
    qed
  next
    case False
    have run: "coord_drain cf (node_total cf) i s ?c =
      Inr (s\<lparr>coordinator_node := (coordinator_node s)[i := completed_node ?c]\<rparr>, ?c\<lparr>co_pc := CDone\<rparr>)"
      using False cn_lt by (simp add: coord_drain_def)
    note p = coord_inv_pc [OF inv pcr, of CDone]
    show ?thesis
      by (rule coord_resultI [OF run _ coord_link_keep [OF link]]) (use p L low in simp_all)
  qed
qed

lemma coord_step_result:
  assumes env: "coord_env cf buf lab bufs s cs rs w lo node res i"
  shows "coord_result cf buf lab bufs i s lo node (cs ! i) (coord_step cf (node_total cf) i s (cs ! i))"
proof -
  let ?c = "cs ! i"
  note inv = coord_envD(4) [OF env] and link = coord_envD(5) [OF env]
  note L = coord_linkD(1,2) [OF link] and low = coord_low [OF env]
  have cn: "coordinator_node s ! i \<le> node" using L low by simp
  show ?thesis
  proof (cases "co_pc ?c")
    case CRun
    have pcr: "co_pc ?c \<noteq> CRecover" using CRun by simp
    consider "\<not> co_done ?c \<and> co_cur_valid ?c" | "\<not> (\<not> co_done ?c \<and> co_cur_valid ?c)" "co_node ?c < node_total cf"
      | "\<not> (\<not> co_done ?c \<and> co_cur_valid ?c)" "\<not> co_node ?c < node_total cf" by blast
    then show ?thesis
    proof cases
      case 1
      then show ?thesis using coord_copy_step [OF env CRun] CRun by (simp add: coord_step_def)
    next
      case 2
      have cp: "copied ?c = co_node ?c" using CRun by (simp add: copied_def)
      let ?v = "PAGE_BATCH_SIZE \<le> valid (parent_buffer s) ! (copied ?c mod cf_parents cf)"
      note ts = coord_this_slot [OF env L(2) low(1)]
      have run: "coord_step cf (node_total cf) i s ?c = Inr (s, ?c\<lparr>co_done := False, co_cur_valid := ?v\<rparr>)"
        using CRun 2 ts(1) coord_invD(3) [OF inv] cp by (auto simp: coord_step_def)
      note f = coord_inv_flags [where d = False and v = ?v, OF inv]
      have "coord_link cf (parent_buffer s) (coordinator_node s ! i) lo node (?c\<lparr>co_done := False, co_cur_valid := ?v\<rparr>)"
        using link ts(2) by (simp add: coord_link_def coord_inv_flags(2) [OF inv])
      from coord_result_same [OF run f(1) this] cn show ?thesis by simp
    next
      case 3
      have run: "coord_step cf (node_total cf) i s ?c = Inr (s, ?c\<lparr>co_pc := CDrain\<rparr>)"
        using CRun 3 by (auto simp: coord_step_def)
      note p = coord_inv_pc [OF inv pcr, of CDrain]
      show ?thesis by (rule coord_result_same [OF run _ coord_link_keep [OF link]]) (use p L cn in simp_all)
    qed
  next
    case CRecover
    then show ?thesis using coord_recover_step [OF env CRecover] by (simp add: coord_step_def)
  next
    case CDrain
    then show ?thesis using coord_drain_step [OF env CDrain] by (simp add: coord_step_def)
  next
    case CDone
    then have run: "coord_step cf (node_total cf) i s ?c = Inr (s, ?c)" by (simp add: coord_step_def)
    show ?thesis by (rule coord_result_same [OF run inv link]) (use cn in simp_all)
  qed
qed

end
