(* ===== verification/PC1_Orch_Step.thy ===== *)
theory PC1_Orch_Step
  imports PC1_Coord_Step
begin

text \<open>
  The steps of the orchestrator that reserve and release buffers keep the
  invariant of PC1.
\<close>

unbundle bit_operations_syntax

section \<open>The size of a batch\<close>

lemma and_not_mask_unat:
  fixes a :: "64 word"
  shows "unat (a AND NOT (mask k)) = unat a div 2 ^ k * 2 ^ k"
proof -
  have "a AND NOT (mask k) = a - take_bit k a"
  proof -
    have "a - take_bit k a = a AND NOT (take_bit k a)" by (rule disjunctive_diff) (simp add: bit_take_bit_iff)
    also have "\<dots> = a AND NOT (mask k)" by (rule bit_eqI) (auto simp: bit_simps)
    finally show ?thesis by simp
  qed
  moreover have t: "unat (take_bit k a) = unat a mod 2 ^ k" by (simp add: unsigned_take_bit_eq flip: take_bit_eq_mod)
  moreover have "unat (take_bit k a) \<le> unat a" unfolding t by simp
  ultimately have "unat (a AND NOT (mask k)) = unat a - unat a mod 2 ^ k" by (simp add: unat_sub word_le_nat_alt)
  then show ?thesis by (simp add: minus_mod_eq_div_mult)
qed

lemma round_down:
  assumes "cfg_ok cf" "x < SIZE_MOD"
  shows "unat (word_of_nat x AND NOT (word_of_nat (size_sub (cf_npp cf) 1)) :: 64 word) = x div cf_npp cf * cf_npp cf"
proof -
  from assms(1) obtain k where k: "cf_npp cf = 2 ^ k" "k \<le> 32" by (auto simp: cfg_ok_def)
  have "(2 :: nat) ^ k \<le> 2 ^ 32" by (rule power_increasing) (use k in auto)
  then have "size_sub (cf_npp cf) 1 = 2 ^ k - 1" using k by (subst size_sub_small) (simp_all add: SIZE_MOD_def)
  moreover have "word_of_nat (2 ^ k - 1) = (mask k :: 64 word)" by (simp add: mask_eq_exp_minus_1 of_nat_diff)
  moreover have "unat (word_of_nat x :: 64 word) = x" using assms(2) by (simp add: SIZE_MOD_def unsigned_of_nat take_bit_nat_eq_self)
  ultimately show ?thesis by (simp add: and_not_mask_unat k)
qed

lemma max_batch_bounds:
  assumes ok: "cfg_ok cf" and rings: "orch_rings cf s o1" and q: "fifo_inv (parent_read_fifo s)" "fifo_capacity (parent_read_fifo s) = disk_fifo_depth cf"
    and rem: "rem < SIZE_MOD"
  defines "mb \<equiv> max_batch cf s rem"
  shows "cf_npp cf dvd mb" "mb \<le> rem" "mb \<le> cf_npp cf * 2"
    "length (fifo_list (parent_read_fifo s)) + mb \<le> disk_fifo_depth cf"
    "reserved o1 + mb < tail_node_parents o1 + cf_parents cf"
    "reserved o1 div cf_npp cf + mb div cf_npp cf < tail_node o1 div cf_npp cf + cf_nodes cf"
proof -
  let ?npp = "cf_npp cf"
  have R: "ring_at (cf_parents cf) (parent_buffer s) (tail_node_parents o1) (reserved o1)"
    "ring_at (cf_nodes cf) (node_buffer s) (tail_node o1 div ?npp) (reserved o1 div ?npp)"
    using rings by (simp_all add: orch_rings_def)
  define nf where "nf = rb_free_count (cf_nodes cf) (node_buffer s)"
  define x where "x = min (min (min (min (fifo_free_count (parent_read_fifo s)) (size_mul nf ?npp))
      (rb_free_count (cf_parents cf) (parent_buffer s))) rem) (?npp * 2)"
  have "x < SIZE_MOD" using rem by (simp add: x_def)
  have "mb = unat (word_of_nat x AND NOT (word_of_nat (size_sub ?npp 1)) :: 64 word)"
    unfolding mb_def max_batch_def Let_def x_def nf_def by (rule HOL.refl)
  also have "\<dots> = x div ?npp * ?npp" by (rule round_down [OF ok \<open>x < SIZE_MOD\<close>])
  finally have mb: "mb = x div ?npp * ?npp" .
  then have "mb \<le> x" by simp
  then have le: "mb \<le> fifo_free_count (parent_read_fifo s)" "mb \<le> size_mul nf ?npp"
    "mb \<le> rb_free_count (cf_parents cf) (parent_buffer s)" "mb \<le> rem" "mb \<le> ?npp * 2" by (simp_all add: x_def)
  show "?npp dvd mb" "mb \<le> rem" "mb \<le> ?npp * 2" using mb le by simp_all
  have "length (fifo_list (parent_read_fifo s)) \<le> disk_fifo_depth cf" using mtq.abs_le_cap [OF q(1)] q(2) by simp
  moreover have "disk_fifo_depth cf < SIZE_MOD" using cfg_okD(4,12) [OF ok] by (simp add: SIZE_MOD_def)
  ultimately have "fifo_free_count (parent_read_fifo s) = disk_fifo_depth cf - length (fifo_list (parent_read_fifo s))"
    using q by (simp add: fifo_free_count_def fifo_size_list)
  then show "length (fifo_list (parent_read_fifo s)) + mb \<le> disk_fifo_depth cf"
    using le(1) \<open>length (fifo_list (parent_read_fifo s)) \<le> disk_fifo_depth cf\<close> by linarith
  have "mb \<le> cf_parents cf - 1 - (reserved o1 - tail_node_parents o1)"
    using le(3) ring_at_free_count [OF R(1)] by simp
  then show "reserved o1 + mb < tail_node_parents o1 + cf_parents cf" using ring_atD(2,3) [OF R(1)] by linarith
  have "size_mul nf ?npp \<le> nf * ?npp" by (simp add: size_mul_def)
  then have "mb \<le> nf * ?npp" using le(2) by linarith
  then have "mb div ?npp \<le> nf" using div_le_mono [of mb "nf * ?npp" ?npp] npp_facts(1) [OF ok] by simp
  then show "reserved o1 div ?npp + mb div ?npp < tail_node o1 div ?npp + cf_nodes cf"
    using ring_at_free_count [OF R(2)] ring_atD(2,3) [OF R(2)] unfolding nf_def by linarith
qed


section \<open>The orchestrator alone\<close>

definition orch_result :: "pc1_cfg \<Rightarrow> 32 word list \<Rightarrow> (nat \<Rightarrow> nat \<Rightarrow> label_t) \<Rightarrow> replica_id_buffer_t list \<Rightarrow> pc1_state \<Rightarrow>
    (system_buffers_t \<times> orchestrator_t) result \<Rightarrow> bool" where
  "orch_result cf buf lab bufs st r \<longleftrightarrow>
     (\<exists>s o1. r = Inr (s, o1) \<and> pc1_inv cf buf lab bufs (st\<lparr>st_sys := s, st_orch := o1\<rparr>))"

lemma orch_baseD:
  assumes "orch_base cf buf o1"
  shows "node_stop o1 = node_total cf" "walk_inv (cf_bits cf) 0 (PARENT_COUNT * node_of o1) (parent_iter o1)"
    "parent_buf (parent_iter o1) = buf" "0 < node_of o1 \<Longrightarrow> prev_hashed_node o1 = node_ptr cf (node_of o1 - 1)"
    "reserved o1 \<le> node_total cf" "cf_npp cf dvd reserved o1"
    "tail_node o1 \<le> written o1" "written o1 \<le> writing o1" "writing o1 \<le> node_of o1" "tail_node_parents o1 \<le> node_of o1"
    "cf_npp cf dvd written o1" "cf_npp cf dvd writing o1"
    "rc_idx (tail_node_write o1) = written o1 mod ring_nodes cf" "rc_idx (head_node_write o1) = writing o1 mod ring_nodes cf"
    "outstanding_writes o1 = (writing o1 - written o1) div cf_npp cf"
  using assms by (simp_all add: orch_base_def)

lemma node_le_reserved: "node_of o1 \<le> reserved o1"
  by (simp add: reserved_def)

lemma pc1_bounds:
  assumes "orch_base cf buf o1"
  shows "node_of o1 \<le> reserved o1" "node_of o1 \<le> node_total cf" "writing o1 \<le> node_total cf" "written o1 \<le> node_total cf"
  using orch_baseD(5,8,9) [OF assms] node_le_reserved [of o1] by linarith+

text \<open>A step that only moves the program point and locals outside the invariant.\<close>

lemma orch_idle:
  assumes inv: "pc1_inv cf buf lab bufs st"
    and eq: "node_of o2 = node_of (st_orch st)" "reserved o2 = reserved (st_orch st)"
      "node_stop o2 = node_stop (st_orch st)" "prev_hashed_node o2 = prev_hashed_node (st_orch st)"
      "tail_node o2 = tail_node (st_orch st)" "tail_node_parents o2 = tail_node_parents (st_orch st)"
      "tail_node_write o2 = tail_node_write (st_orch st)" "head_node_write o2 = head_node_write (st_orch st)"
      "parent_iter o2 = parent_iter (st_orch st)" "outstanding_writes o2 = outstanding_writes (st_orch st)"
      "orch_pc o2 \<noteq> ONodes"
    and mins: "orch_mins cf (coordinator_node (st_sys st)) o2"
  shows "orch_result cf buf lab bufs st (Inr (st_sys st, o2))"
proof -
  have "orch_base cf buf o2" using pc1_invD(1) [OF inv] by (simp add: orch_base_def eq)
  moreover have "orch_rings cf (st_sys st) o2" using pc1_invD(2) [OF inv] by (simp add: orch_rings_def eq)
  moreover have "orch_locals cf o2" using eq by (simp add: orch_locals_def)
  ultimately have "pc1_inv cf buf lab bufs (st\<lparr>st_sys := st_sys st, st_orch := o2\<rparr>)"
    using pc1_invD [OF inv] mins by (intro pc1_invI) (simp_all add: eq todo_inv_def)
  then show ?thesis by (simp add: orch_result_def)
qed

lemma orch_minsD:
  assumes "orch_mins cf cn o1"
  shows "length cn = length (cf_hashers cf)" "\<And>k. k < length cn \<Longrightarrow> writing o1 \<le> cn ! k"
    "\<And>k. k < length cn \<Longrightarrow> tail_node_parents o1 \<le> cn ! k" "\<And>k. k < length cn \<Longrightarrow> cn ! k \<le> node_of o1"
    "\<And>i k. orch_pc o1 = OMin i \<Longrightarrow> k < length cn \<Longrightarrow> k < i \<Longrightarrow> min_node_hash o1 \<le> cn ! k"
    "\<And>k. (\<And>i. orch_pc o1 \<noteq> OMin i) \<Longrightarrow> k < length cn \<Longrightarrow> min_node_hash o1 \<le> cn ! k"
    "\<And>i. orch_pc o1 = OMin i \<Longrightarrow> 0 < i"
  using assms by (auto simp: orch_mins_def split: orch_pc.splits)

lemma orch_top_step:
  assumes ok: "cfg_ok cf" and inv: "pc1_inv cf buf lab bufs st" and pc: "orch_pc (st_orch st) = OTop"
  shows "orch_result cf buf lab bufs st (orch_top (st_sys st) (st_orch st))"
proof -
  note M = orch_minsD [OF pc1_invD(3) [OF inv]]
  have n0: "0 < length (coordinator_node (st_sys st))" using M(1) cfg_okD(14) [OF ok] by simp
  let ?o = "st_orch st"
  have r: "reserved (?o\<lparr>next_node := node_of ?o, min_node_hash := coordinator_node (st_sys st) ! 0, orch_pc := OMin 1\<rparr>) = reserved ?o"
    "reserved (?o\<lparr>orch_pc := ODone\<rparr>) = reserved ?o"
    using pc by (simp_all add: reserved_def node_of_def)
  have nd: "node_of (?o\<lparr>next_node := node_of ?o, min_node_hash := coordinator_node (st_sys st) ! 0, orch_pc := OMin 1\<rparr>) = node_of ?o"
    "node_of (?o\<lparr>orch_pc := ODone\<rparr>) = node_of ?o" by (simp_all add: node_of_def)
  show ?thesis
    unfolding orch_top_def using n0 M pc r nd
    by (auto intro!: orch_idle [OF inv] simp: orch_mins_def split: if_splits)
qed


lemma orch_min_step:
  assumes inv: "pc1_inv cf buf lab bufs st" and pc: "orch_pc (st_orch st) = OMin i"
  shows "orch_result cf buf lab bufs st (orch_min i (st_sys st) (st_orch st))"
proof -
  note M = orch_minsD [OF pc1_invD(3) [OF inv]]
  let ?o = "st_orch st" and ?cn = "coordinator_node (st_sys st)"
  let ?a = "?o\<lparr>min_node_hash := min (min_node_hash ?o) (?cn ! i), orch_pc := OMin (i + 1)\<rparr>"
  let ?b = "?o\<lparr>min_node := min (min_node_hash ?o) (written ?o), orch_pc := ORead\<rparr>"
  have r: "reserved ?a = reserved ?o" "reserved ?b = reserved ?o" "node_of ?a = node_of ?o" "node_of ?b = node_of ?o"
    using pc by (simp_all add: reserved_def node_of_def)
  have k: "min_node_hash ?o \<le> ?cn ! k" if "k < i" "k < length ?cn" for k using M(5) [OF pc that(2,1)] .
  have "orch_mins cf ?cn ?a" if "i < length ?cn"
  proof -
    have "min (min_node_hash ?o) (?cn ! i) \<le> ?cn ! n" if "n < length ?cn" "n < i + 1" for n
      using k [of n] that by (cases "n = i") (simp_all add: min.coboundedI1)
    then show ?thesis using M(1-4) r by (simp add: orch_mins_def)
  qed
  moreover have "orch_mins cf ?cn ?b" if "\<not> i < length ?cn"
    using M(1-4) r k that by (simp add: orch_mins_def)
  ultimately show ?thesis
    unfolding orch_min_def using r by (auto intro!: orch_idle [OF inv])
qed

lemma orch_move:
  assumes inv: "pc1_inv cf buf lab bufs st" and pc: "\<And>i. orch_pc (st_orch st) \<noteq> OMin i"
    and res: "node_of (st_orch st) = reserved (st_orch st)" and pc': "pc' \<noteq> ONodes" "\<And>i. pc' \<noteq> OMin i"
  shows "orch_result cf buf lab bufs st (Inr (st_sys st, (st_orch st)\<lparr>orch_pc := pc'\<rparr>))"
    "orch_result cf buf lab bufs st (Inr (st_sys st, (st_orch st)\<lparr>loop_node := x, orch_pc := pc'\<rparr>))"
proof -
  note M = orch_minsD [OF pc1_invD(3) [OF inv]]
  let ?o = "st_orch st"
  have m: "orch_mins cf (coordinator_node (st_sys st)) (?o\<lparr>orch_pc := pc'\<rparr>)"
    "orch_mins cf (coordinator_node (st_sys st)) (?o\<lparr>loop_node := x, orch_pc := pc'\<rparr>)"
    using M(1-4,6) pc pc' by (auto simp: orch_mins_def node_of_def split: orch_pc.splits)
  have r: "reserved (?o\<lparr>orch_pc := pc'\<rparr>) = reserved ?o" "reserved (?o\<lparr>loop_node := x, orch_pc := pc'\<rparr>) = reserved ?o"
    using pc' res by (simp_all add: reserved_def [of "?o\<lparr>orch_pc := pc'\<rparr>"] reserved_def [of "?o\<lparr>loop_node := x, orch_pc := pc'\<rparr>"] node_of_def)
  show "orch_result cf buf lab bufs st (Inr (st_sys st, ?o\<lparr>orch_pc := pc'\<rparr>))"
    by (rule orch_idle [OF inv]) (use m r pc' in \<open>simp_all add: node_of_def\<close>)
  show "orch_result cf buf lab bufs st (Inr (st_sys st, ?o\<lparr>loop_node := x, orch_pc := pc'\<rparr>))"
    by (rule orch_idle [OF inv]) (use m r pc' in \<open>simp_all add: node_of_def\<close>)
qed

lemma reserved_node: "orch_pc o1 \<noteq> ONodes \<Longrightarrow> reserved o1 = node_of o1"
  by (simp add: reserved_def)

lemma orch_check_step:
  assumes ok: "cfg_ok cf" and inv: "pc1_inv cf buf lab bufs st" and pc: "orch_pc (st_orch st) = OCheck"
  shows "orch_result cf buf lab bufs st (orch_check cf (st_sys st) (st_orch st))"
proof -
  let ?o = "st_orch st" and ?npp = "cf_npp cf"
  note B = orch_baseD [OF pc1_invD(1) [OF inv]] and P = pc1_bounds [OF pc1_invD(1) [OF inv]]
  have r: "reserved ?o = node_of ?o" using pc by (simp add: reserved_node)
  have "ring_at (cf_nodes cf) (node_buffer (st_sys st)) (tail_node ?o div ?npp) (reserved ?o div ?npp)"
    using pc1_invD(2) [OF inv] by (simp add: orch_rings_def)
  from ring_atD(3) [OF this] have "(node_of ?o div ?npp) * ?npp < (tail_node ?o div ?npp + cf_nodes cf) * ?npp"
    using npp_facts(1) [OF ok] r by (simp add: mult_less_mono1)
  also have "\<dots> \<le> tail_node ?o + ring_nodes cf" by (simp add: ring_nodes_def distrib_right)
  finally have "node_of ?o < tail_node ?o + ring_nodes cf" using B(6) r by simp
  moreover have "size_sub (node_of ?o) (tail_node ?o) = node_of ?o - tail_node ?o"
    using P(2) B(7,8,9) node_total_bound [OF ok] by (intro size_sub_small) (simp_all add: SIZE_MOD_def)
  ultimately have "\<not> size_sub (node_of ?o) (tail_node ?o) \<ge> ring_nodes cf" using B(7-9) by linarith
  then show ?thesis
    unfolding orch_check_def Let_def using orch_move(2) [OF inv _ r [symmetric], of OTop "next_node ?o"] pc by simp
qed

lemma orch_nodes_leave:
  assumes inv: "pc1_inv cf buf lab bufs st" and pc: "orch_pc (st_orch st) = ONodes"
    and i: "\<not> rb_i (rb_locals (st_orch st)) < rb_max_batch (rb_locals (st_orch st))"
  shows "orch_result cf buf lab bufs st (orch_nodes cf (st_sys st) (st_orch st))"
  using orch_move(1) [OF inv, of "OWrites ACTION_BATCH"] pc i by (simp add: orch_nodes_def reserved_def)


section \<open>Reserving the buffers of a batch\<close>

text \<open>
  A request that was issued for the first node of a layer completes before the
  slot comes up again: nothing in the code waits for such a request, so this is
  an assumption on the speed of the disks.
\<close>

definition timely :: "pc1_cfg \<Rightarrow> pc1_state \<Rightarrow> bool" where
  "timely cf st \<longleftrightarrow>
     (let res = reserved (st_orch st) in
      \<forall>r \<in> set (rw_inflight (st_reader st)). \<forall>n < node_of (st_orch st).
        layer_start cf n \<and> rq_slot r = n mod cf_parents cf \<and> res < n + cf_parents cf \<longrightarrow>
        res + cf_npp cf * 2 < n + cf_parents cf)"

lemma slot_inv_valid:
  assumes "valid b ! (n mod cf_parents cf) = valid (parent_buffer s) ! (n mod cf_parents cf)"
  shows "slot_inv cf buf lab (s\<lparr>parent_buffer := b\<rparr>) rs issued n = slot_inv cf buf lab s rs issued n"
  by (simp add: slot_inv_def Let_def assms)

lemma read_inv_reserve:
  assumes inv: "read_inv cf buf lab s rs lo node node" and mb: "node + mb < lo + cf_parents cf" and pos: "lo \<le> node"
    and time: "\<And>r n. r \<in> set rs \<Longrightarrow> n < node \<Longrightarrow> layer_start cf n \<Longrightarrow> rq_slot r = n mod cf_parents cf \<Longrightarrow>
      node < n + cf_parents cf \<Longrightarrow> node + mb < n + cf_parents cf"
    and old: "\<And>m. lo \<le> m \<Longrightarrow> m \<le> node \<Longrightarrow> valid b ! (m mod cf_parents cf) = valid (parent_buffer s) ! (m mod cf_parents cf)"
    and new: "\<And>m. node < m \<Longrightarrow> m \<le> node + mb \<Longrightarrow> valid b ! (m mod cf_parents cf) = 0"
  shows "read_inv cf buf lab (s\<lparr>parent_buffer := b\<rparr>) rs lo node (node + mb)"
proof -
  let ?is = "node - length (fifo_list (parent_read_fifo s))"
  have "req_ok cf lo ?is (node + mb) r" if r: "r \<in> set rs" for r
  proof -
    have "req_ok cf lo ?is node r" using inv r by (simp add: read_inv_def Let_def)
    then obtain n where n: "rq_j r < PAGE_BATCH_SIZE" "rq_type r = READ" "rq_slot r = n mod cf_parents cf" "n < ?is"
      "node < n + cf_parents cf" "layer_start cf n \<or> lo \<le> n" by (auto simp: req_ok_def)
    have "node + mb < n + cf_parents cf" using n(4-6) time [OF r _ _ n(3)] mb by fastforce
    with n show ?thesis unfolding req_ok_def by blast
  qed
  moreover have "slot_inv cf buf lab (s\<lparr>parent_buffer := b\<rparr>) rs ?is n" if "lo \<le> n" "n < node" "\<not> layer_start cf n" for n
  proof -
    have "slot_inv cf buf lab s rs ?is n" using inv that by (simp add: read_inv_def Let_def)
    then show ?thesis using old [of n] that by (simp add: slot_inv_valid)
  qed
  moreover have "valid b ! (n mod cf_parents cf) = 0" if "node \<le> n" "n \<le> node + mb" for n
    using that inv old [of node] new [of n] pos by (cases "n = node") (simp_all add: read_inv_def Let_def)
  moreover have "start_inv cf (s\<lparr>parent_buffer := b\<rparr>) rs ?is n" if "lo \<le> n" "n < node" "layer_start cf n" for n
  proof -
    have "start_inv cf s rs ?is n" using inv that by (simp add: read_inv_def Let_def)
    then show ?thesis using old [of n] that by (simp add: start_inv_def Let_def split: if_splits)
  qed
  ultimately show ?thesis using inv by (simp add: read_inv_def Let_def)
qed

lemma write_inv_reserve:
  assumes inv: "write_inv cf lab d s ws lo hi res" and le: "tl1 \<le> lo" "lo \<le> hi" "hi \<le> res"
    and old: "\<And>m. tl1 \<le> m \<Longrightarrow> m \<le> res \<Longrightarrow> valid b ! (m mod cf_nodes cf) = valid (node_buffer s) ! (m mod cf_nodes cf)"
    and new: "\<And>m. res < m \<Longrightarrow> m \<le> res + k \<Longrightarrow> valid b ! (m mod cf_nodes cf) = 0"
  shows "write_inv cf lab d (s\<lparr>node_buffer := b\<rparr>) ws lo hi (res + k)"
proof -
  let ?is = "hi - length (fifo_list (node_write_fifo s))"
  note W = write_invD [OF inv]
  have same: "valid b ! (p mod cf_nodes cf) = valid (node_buffer s) ! (p mod cf_nodes cf)" if "lo \<le> p" "p < ?is" for p
    using that le by (intro old) auto
  have lohi: "lo \<le> ?is" using W(3) le(2) by linarith
  have "write_req_ok cf lab d b lo ?is r" if "r \<in> set ws" for r
    using W(6) [OF that] same unfolding write_req_ok_def by metis
  moreover have "valid b ! (p mod cf_nodes cf) = 0" if "?is \<le> p" "p \<le> res + k" for p
  proof (cases "p \<le> res")
    case True
    have "lo \<le> p" using lohi le that(1) by linarith
    then show ?thesis using W(9) [OF that(1) True] old [of p] le True by simp
  qed (use new that in simp)
  ultimately show ?thesis
    by (intro write_invI [where issued = ?is]) (use W same in \<open>simp_all\<close>)
qed


lemma coords_inv_valid:
  assumes inv: "coords_inv cf buf lab bufs rb cn lo node cs" and lo: "\<And>k. k < length cs \<Longrightarrow> lo \<le> cn ! k"
    and old: "\<And>m. lo \<le> m \<Longrightarrow> m < node \<Longrightarrow> \<not> layer_start cf m \<Longrightarrow> valid rb ! (m mod cf_parents cf) \<le> valid b ! (m mod cf_parents cf)"
  shows "coords_inv cf buf lab bufs b cn lo node cs"
  unfolding coords_inv_def
proof (intro conjI allI impI)
  show "length cs = length (cf_hashers cf)" using inv by (simp add: coords_inv_def)
  fix i assume i: "i < length cs"
  then have C: "coord_inv cf buf lab bufs i (cs ! i)" "coord_link cf rb (cn ! i) lo node (cs ! i)"
    using inv by (simp_all add: coords_inv_def)
  show "coord_inv cf buf lab bufs i (cs ! i)" by (rule C)
  note L = coord_linkD [OF C(2)]
  have "lo \<le> copied (cs ! i)" using lo [OF i] L(1) coord_invD(9) [OF C(1)] next_valid_le [OF C(1)] by linarith
  then show "coord_link cf b (cn ! i) lo node (cs ! i)"
    unfolding coord_link_def using L old by (meson dual_order.trans less_le_trans)
qed

text \<open>The locals of \<open>read_batch\<close> after the reservation.\<close>

lemma read_batch_locals:
  assumes ok: "cfg_ok cf" and base: "orch_base cf buf o1" and mb: "cf_npp cf dvd mb" "node_of o1 + mb \<le> node_total cf"
    and npp: "cf_npp cf dvd node_of o1"
    and sz: "sz = (node_of o1 + mb) div cf_npp cf - tail_node o1 div cf_npp cf"
    and cnt: "cnt = size_sub (size_mul sz (cf_npp cf)) mb" and cmin: "cmin = size_sub (node_of o1) cnt"
  shows "cmin = tail_node o1 div cf_npp cf * cf_npp cf" "cnt = node_of o1 - cmin" "cmin \<le> node_of o1" "cmin \<le> written o1"
    "cmin \<le> min (size_add cmin (cf_parents cf)) (written o1)"
proof -
  let ?npp = "cf_npp cf" and ?F = "node_of o1"
  let ?t = "tail_node o1 div ?npp * ?npp"
  have t: "?t \<le> ?F" "?t \<le> written o1" using div_times_less_eq_dividend [of "tail_node o1" ?npp] orch_baseD(7,8,9) [OF base] by linarith+
  have "sz * ?npp = ?F + mb - ?t" using mb(1) npp by (simp add: sz diff_mult_distrib distrib_right)
  moreover have "?F + mb - ?t < SIZE_MOD" using mb(2) node_total_bound [OF ok] by (simp add: SIZE_MOD_def)
  ultimately have "size_mul sz ?npp = ?F + mb - ?t" by (simp add: size_mul_def)
  then have c: "cnt = ?F - ?t"
    unfolding cnt using t mb(2) node_total_bound [OF ok] by (subst size_sub_small) (simp_all add: SIZE_MOD_def)
  have "size_sub ?F (?F - ?t) = ?F - (?F - ?t)"
    using mb(2) node_total_bound [OF ok] by (intro size_sub_small) (simp_all add: SIZE_MOD_def)
  then have m: "cmin = ?t" using t by (simp add: cmin c)
  show "cmin = ?t" "cnt = ?F - cmin" "cmin \<le> ?F" "cmin \<le> written o1" using m c t by simp_all
  have "size_add cmin (cf_parents cf) = cmin + cf_parents cf"
    using m t(1) mb(2) node_total_bound [OF ok] cfg_okD(4) [OF ok] by (simp add: SIZE_MOD_def)
  then show "cmin \<le> min (size_add cmin (cf_parents cf)) (written o1)" using m t by simp
qed


lemma pc1_invI_orch:
  assumes "node_of o2 = F" "reserved o2 = R" "orch_base cf buf o2" "orch_rings cf s2 o2" "orch_mins cf (coordinator_node s2) o2"
    "orch_locals cf o2" "fifo_shape cf (parent_read_fifo s2) F R" "io_static cf s2"
    "desc_inv cf buf s2 (written o2) (tail_node_parents o2) F"
    "read_inv cf buf lab s2 (rw_inflight (st_reader st)) (tail_node_parents o2) F R"
    "coords_inv cf buf lab bufs (parent_buffer s2) (coordinator_node s2) (tail_node_parents o2) F (st_coords st)"
    "node_mem_inv cf lab (node_buffer_store s2) (st_coords st)"
    "write_inv cf lab (st_disk st) s2 (rw_inflight (st_writer st)) (written o2 div cf_npp cf) (writing o2 div cf_npp cf) (R div cf_npp cf)"
    "disk_inv cf lab (st_disk st) (written o2)" "todo_inv (st\<lparr>st_sys := s2\<rparr>)"
  shows "pc1_inv cf buf lab bufs (st\<lparr>st_sys := s2, st_orch := o2\<rparr>)"
  using assms by (intro pc1_invI) (simp_all add: todo_inv_def)

lemma read_batch_begin_step:
  assumes ok: "cfg_ok cf" and inv: "pc1_inv cf buf lab bufs st" and time: "timely cf st" and pc: "orch_pc (st_orch st) = ORead"
    and n: "node_of (st_orch st) < node_total cf"
  shows "orch_result cf buf lab bufs st
    (read_batch_begin cf (size_sub (node_total cf) (node_of (st_orch st))) (st_sys st) (st_orch st))"
proof -
  let ?o = "st_orch st" and ?s = "st_sys st" and ?npp = "cf_npp cf" and ?rs = "rw_inflight (st_reader st)"
  note I = pc1_invD [OF inv] and B = orch_baseD [OF pc1_invD(1) [OF inv]] and M = orch_minsD [OF pc1_invD(3) [OF inv]]
  define F where "F = node_of ?o"
  have r: "reserved ?o = F" using pc by (simp add: reserved_node F_def)
  have rem: "size_sub (node_total cf) F = node_total cf - F" "node_total cf - F < SIZE_MOD"
    using n node_total_bound [OF ok] by (simp_all add: F_def size_sub_small SIZE_MOD_def)
  define mb where "mb = max_batch cf ?s (node_total cf - F)"
  have q: "fifo_inv (parent_read_fifo ?s)" "fifo_capacity (parent_read_fifo ?s) = disk_fifo_depth cf"
    using I(5) by (simp_all add: fifo_shape_def)
  note mx = max_batch_bounds [OF ok I(2) q rem(2), folded mb_def, unfolded r]
  have R: "ring_at (cf_parents cf) (parent_buffer ?s) (tail_node_parents ?o) F"
    "ring_at (cf_nodes cf) (node_buffer ?s) (tail_node ?o div ?npp) (F div ?npp)"
    using I(2) by (simp_all add: orch_rings_def r)
  from ring_at_reserve_batch [OF R(1) mx(5)] obtain pb where pb:
    "reserve_batch_nocheck (cf_parents cf) mb (parent_buffer ?s) =
       Inr ((F mod cf_parents cf, map (\<lambda>k. Some ((F + k) mod cf_parents cf)) [0..<mb]), pb)"
    "ring_at (cf_parents cf) pb (tail_node_parents ?o) (F + mb)"
    "\<And>m. tail_node_parents ?o \<le> m \<Longrightarrow> m \<le> F \<Longrightarrow>
       valid pb ! (m mod cf_parents cf) = valid (parent_buffer ?s) ! (m mod cf_parents cf)"
    "\<And>m. F < m \<Longrightarrow> m \<le> F + mb \<Longrightarrow> valid pb ! (m mod cf_parents cf) = 0" by auto
  from ring_at_reserve_batch [OF R(2) mx(6)] obtain nb where nb:
    "reserve_batch_nocheck (cf_nodes cf) (mb div ?npp) (node_buffer ?s) =
       Inr ((F div ?npp mod cf_nodes cf, map (\<lambda>k. Some ((F div ?npp + k) mod cf_nodes cf)) [0..<mb div ?npp]), nb)"
    "ring_at (cf_nodes cf) nb (tail_node ?o div ?npp) (F div ?npp + mb div ?npp)"
    "\<And>m. tail_node ?o div ?npp \<le> m \<Longrightarrow> m \<le> F div ?npp \<Longrightarrow>
       valid nb ! (m mod cf_nodes cf) = valid (node_buffer ?s) ! (m mod cf_nodes cf)"
    "\<And>m. F div ?npp < m \<Longrightarrow> m \<le> F div ?npp + mb div ?npp \<Longrightarrow> valid nb ! (m mod cf_nodes cf) = 0" by auto
  have dv: "?npp dvd F" "(F + mb) div ?npp = F div ?npp + mb div ?npp" using B(6) mx(1) r by (simp_all add: div_plus_div_distrib_dvd_left)
  have le: "F + mb \<le> node_total cf" using mx(2) n by (simp add: F_def)
  define cnt where "cnt = size_sub (size_mul (cur_size nb) ?npp) mb"
  define cmin where "cmin = size_sub F cnt"
  have sz: "cur_size nb = (F + mb) div ?npp - tail_node ?o div ?npp" using ring_atD(6) [OF nb(2)] dv(2) by simp
  note Lc = read_batch_locals [OF ok I(1) mx(1) le [unfolded F_def] dv(1) [unfolded F_def] sz [unfolded F_def] cnt_def cmin_def [unfolded F_def]]
  define o2 where "o2 = ?o\<lparr>orch_pc := ONodes, rb_locals := \<lparr>rb_i = 0, rb_max_batch = mb,
     parent_buffer_id = F mod cf_parents cf, page_batch_ptrs = map (\<lambda>k. Some ((F + k) mod cf_parents cf)) [0..<mb],
     node_batch_ptrs = map (\<lambda>k. Some ((F div ?npp + k) mod cf_nodes cf)) [0..<mb div ?npp],
     cur_node_buffer_id = F div ?npp mod cf_nodes cf, node_buffer_count = cnt, cache_min_node = cmin,
     cache_min_cacheable_node = min (size_add cmin (cf_parents cf)) (written ?o)\<rparr>\<rparr>"
  define s2 where "s2 = ?s\<lparr>parent_buffer := pb, node_buffer := nb\<rparr>"
  have eq: "read_batch_begin cf (size_sub (node_total cf) F) ?s ?o = (if mb = 0 then Inr (?s, ?o\<lparr>orch_pc := OWrites ACTION_BATCH\<rparr>) else Inr (s2, o2))"
    unfolding read_batch_begin_def rem(1) mb_def [symmetric] Let_def pb(1) nb(1)
    by (simp add: s2_def o2_def cnt_def cmin_def F_def)
  have o2: "node_of o2 = F" "reserved o2 = F + mb" by (simp_all add: o2_def node_of_def F_def reserved_def)
  have "pc1_inv cf buf lab bufs (st\<lparr>st_sys := s2, st_orch := o2\<rparr>)"
  proof (rule pc1_invI_orch [OF o2])
    show "orch_base cf buf o2" using I(1) o2 le dv mx(1) unfolding orch_base_def by (simp add: o2_def F_def)
    show "orch_rings cf s2 o2" using pb(2) nb(2) dv(2) unfolding orch_rings_def o2 by (simp add: s2_def o2_def)
    show "orch_mins cf (coordinator_node s2) o2" using M(1-4,6) pc unfolding orch_mins_def o2 by (simp add: s2_def o2_def F_def)
    show "orch_locals cf o2" using Lc dv(1) mx(1) unfolding orch_locals_def o2 Let_def by (simp add: o2_def F_def)
    show "fifo_shape cf (parent_read_fifo s2) F (F + mb)"
      using I(5) mx(4) unfolding fifo_shape_def r by (simp add: s2_def F_def)
    show "io_static cf s2" "desc_inv cf buf s2 (written o2) (tail_node_parents o2) F" "node_mem_inv cf lab (node_buffer_store s2) (st_coords st)"
      "disk_inv cf lab (st_disk st) (written o2)"
      using I(6,7,10,12) by (simp_all add: s2_def o2_def F_def)
    have "read_inv cf buf lab (?s\<lparr>parent_buffer := pb\<rparr>) ?rs (tail_node_parents ?o) F (F + mb)"
    proof (rule read_inv_reserve)
      show "read_inv cf buf lab ?s ?rs (tail_node_parents ?o) F F" using I(8) by (simp add: r F_def)
      fix x m assume "x \<in> set ?rs" "m < F" "layer_start cf m" "rq_slot x = m mod cf_parents cf" "F < m + cf_parents cf"
      then have "F + cf_npp cf * 2 < m + cf_parents cf" using time unfolding timely_def r Let_def F_def [symmetric] by blast
      then show "F + mb < m + cf_parents cf" using mx(3) by linarith
    qed (use mx(5) B(10) pb in \<open>simp_all add: F_def\<close>)
    then show "read_inv cf buf lab s2 ?rs (tail_node_parents o2) F (F + mb)" by (simp add: s2_def o2_def)
    show "coords_inv cf buf lab bufs (parent_buffer s2) (coordinator_node s2) (tail_node_parents o2) F (st_coords st)"
      using coords_inv_valid [OF I(9), of pb] M(1,3) pb(3) I(9) by (simp add: s2_def o2_def F_def coords_inv_def)
    have "write_inv cf lab (st_disk st) (?s\<lparr>parent_buffer := pb, node_buffer := nb\<rparr>) (rw_inflight (st_writer st)) (written ?o div ?npp)
       (writing ?o div ?npp) (F div ?npp + mb div ?npp)"
      by (rule write_inv_reserve [where ?tl1.0 = "tail_node ?o div ?npp"]) (use I(11) nb B(7-9) in \<open>simp_all add: r F_def div_le_mono\<close>)
    then show "write_inv cf lab (st_disk st) s2 (rw_inflight (st_writer st)) (written o2 div ?npp) (writing o2 div ?npp) ((F + mb) div ?npp)"
      unfolding dv(2) by (simp add: s2_def o2_def)
    show "todo_inv (st\<lparr>st_sys := s2\<rparr>)" using I(13) by (simp add: todo_inv_def s2_def)
  qed
  then show ?thesis
    using eq orch_move(1) [OF inv, of "OWrites ACTION_BATCH"] pc r
    by (auto simp: orch_result_def F_def)
qed

lemma orch_read_step:
  assumes "cfg_ok cf" "pc1_inv cf buf lab bufs st" "timely cf st" "orch_pc (st_orch st) = ORead"
  shows "orch_result cf buf lab bufs st (orch_read cf (st_sys st) (st_orch st))"
  using read_batch_begin_step [OF assms] orch_move(1) [OF assms(2), of "OWrites ACTION_BATCH"]
    orch_baseD(1) [OF pc1_invD(1) [OF assms(2)]] reserved_node [of "st_orch st"] assms(4)
  by (simp add: orch_read_def)

end
