(* ===== verification/PC1_Orch_Node.thy ===== *)
theory PC1_Orch_Node
  imports PC1_Orch_Step
begin

text \<open>
  Preparing the parents of one node (\<open>read_node\<close>) keeps the invariant of PC1:
  every parent is found in the node buffer or a read of its page is requested,
  and the valid counter of the slot counts the parents that need no read.
\<close>

section \<open>Updates of one slot\<close>

definition upd_slot :: "nat \<Rightarrow> (nat \<Rightarrow> node_io_t) \<Rightarrow> (nat \<Rightarrow> parent_ptr_t) \<Rightarrow> (nat \<Rightarrow> 32 word) \<Rightarrow> (nat \<Rightarrow> node_sync_t) \<Rightarrow>
    system_buffers_t \<Rightarrow> system_buffers_t" where
  "upd_slot pid io ps sy ns s =
     s\<lparr>parent_buffer_io := (parent_buffer_io s)(pid := io), parent_ptrs := (parent_ptrs s)(pid := ps),
       parent_ptr_syncs := (parent_ptr_syncs s)(pid := sy), node_buffer_sync := ns\<rparr>"

lemma upd_slot_self: "s = upd_slot pid (parent_buffer_io s pid) (parent_ptrs s pid) (parent_ptr_syncs s pid) (node_buffer_sync s) s"
  by (simp add: upd_slot_def)

lemma upd_slot_simps [simp]:
  "parent_buffer (upd_slot pid io ps sy ns s) = parent_buffer s"
  "parent_buffer_store (upd_slot pid io ps sy ns s) = parent_buffer_store s"
  "parent_buffer_io (upd_slot pid io ps sy ns s) = (parent_buffer_io s)(pid := io)"
  "parent_ptrs (upd_slot pid io ps sy ns s) = (parent_ptrs s)(pid := ps)"
  "parent_ptr_syncs (upd_slot pid io ps sy ns s) = (parent_ptr_syncs s)(pid := sy)"
  "node_buffer (upd_slot pid io ps sy ns s) = node_buffer s"
  "node_buffer_store (upd_slot pid io ps sy ns s) = node_buffer_store s"
  "node_buffer_io (upd_slot pid io ps sy ns s) = node_buffer_io s"
  "parent_read_fifo (upd_slot pid io ps sy ns s) = parent_read_fifo s"
  "node_write_fifo (upd_slot pid io ps sy ns s) = node_write_fifo s"
  "coordinator_node (upd_slot pid io ps sy ns s) = coordinator_node s"
  by (simp_all add: upd_slot_def)

lemma set_parent_slot: "set_parent pid j p y (upd_slot pid io ps sy ns s) = upd_slot pid io (ps(j := p)) (sy(j := y)) ns s"
  by (simp add: set_parent_def upd_slot_def)

lemma set_io_slot: "set_io pid j f (upd_slot pid io ps sy ns s) = upd_slot pid (io(j := f (io j))) ps sy ns s"
  by (simp add: set_io_def upd_slot_def)

lemma add_reference_slot: "\<exists>ns'. add_reference e (upd_slot pid io ps sy ns s) = upd_slot pid io ps sy ns' s"
  by (auto simp: add_reference_def upd_slot_def Let_def)

lemma parent_iter_next_buf [simp]: "parent_buf (parent_iter_next bits it) = parent_buf it"
  by (simp add: parent_iter_next_def Let_def)

lemma walk_next:
  assumes "cfg_ok cf" "walk_inv (cf_bits cf) 0 k it" "k < PARENT_COUNT * node_total cf"
  shows "walk_inv (cf_bits cf) 0 (Suc k) (parent_iter_next (cf_bits cf) it)"
proof (rule walk_inv_step [OF cfg_okD(1) [OF assms(1)] assms(2)])
  have "Suc k div PARENT_COUNT \<le> PARENT_COUNT * node_total cf div PARENT_COUNT" using assms(3) by (intro div_le_mono) simp
  then show "0 + Suc k div PARENT_COUNT < 2 ^ 64" using node_total_bound [OF assms(1)] by (simp add: constant_defs)
qed

lemma no_parents_slot:
  assumes ok: "cfg_ok cf" and "walk_inv (cf_bits cf) 0 k it" "k + length js \<le> PARENT_COUNT * node_total cf"
  shows "\<exists>ps sy it'. no_parents (cf_bits cf) pid js (upd_slot pid io ps0 sy0 ns s, it) = (upd_slot pid io ps sy ns s, it') \<and>
    walk_inv (cf_bits cf) 0 (k + length js) it' \<and> parent_buf it' = parent_buf it"
  using assms(2,3)
proof (induction js arbitrary: k it ps0 sy0)
  case (Cons j js)
  have "walk_inv (cf_bits cf) 0 (Suc k) (parent_iter_next (cf_bits cf) it)" using Cons.prems by (intro walk_next [OF ok]) simp_all
  from Cons.IH [OF this, of "ps0(j := NullPtr)" "sy0(j := NOT_NODE_BUFFER)"] Cons.prems(2)
  show ?case by (auto simp: no_parents_def set_parent_slot simp del: fun_upd_apply)
qed (auto simp: no_parents_def)


section \<open>One parent\<close>

text \<open>What \<open>read_parent\<close> leaves in the slot for the parent \<open>j + 1\<close>.\<close>

definition slot_parent :: "pc1_cfg \<Rightarrow> 32 word list \<Rightarrow> nat \<Rightarrow> nat \<Rightarrow> (nat \<Rightarrow> node_io_t) \<Rightarrow> (nat \<Rightarrow> parent_ptr_t) \<Rightarrow>
    (nat \<Rightarrow> 32 word) \<Rightarrow> nat \<Rightarrow> bool" where
  "slot_parent cf buf w n io ps sy j \<longleftrightarrow>
     (let p = ref_parent cf buf n (j + 1) in
        ps (j + 1) = node_ptr cf p \<and> n < p + ring_nodes cf \<and>
          (sy (j + 1) \<noteq> LOCAL_NODE \<longrightarrow> p + cf_batch cf * cf_batches cf \<le> n) \<and> io_type (io j) = NOP \<or>
        ps (j + 1) = PagePtr (n mod cf_parents cf) j (p mod cf_npp cf) \<and> sy (j + 1) \<noteq> LOCAL_NODE \<and> p < w \<and>
          io_type (io j) = READ \<and> io_node (io j) = word_of_nat p)"

lemma slot_parent_ok:
  assumes "slot_parent cf buf w n io ps sy j"
  shows "parent_ok cf buf (upd_slot (n mod cf_parents cf) io ps sy ns s) w n (Suc j)"
  using assms by (simp add: slot_parent_def parent_ok_def Let_def)

definition batch_ok :: "pc1_cfg \<Rightarrow> nat \<Rightarrow> nat \<Rightarrow> read_batch_t \<Rightarrow> nat \<Rightarrow> nat \<Rightarrow> bool" where
  "batch_ok cf w n rb t res \<longleftrightarrow> n < node_total cf \<and> n < res \<and> w \<le> node_total cf \<and>
     cache_min_node rb = t * cf_npp cf \<and> cache_min_node rb \<le> n \<and>
     node_buffer_count rb + rb_i rb = n - cache_min_node rb \<and>
     cache_min_node rb \<le> cache_min_cacheable_node rb \<and> cache_min_cacheable_node rb \<le> w \<and>
     parent_buffer_id rb = n mod cf_parents cf \<and> n div cf_npp cf < t + cf_nodes cf"

lemma cached_parent:
  assumes ok: "cfg_ok cf" and b: "batch_ok cf w n rb t res" and ring: "ring_at (cf_nodes cf) nb t hi"
    and p: "cache_min_cacheable_node rb \<le> p" "p < n"
  defines "off \<equiv> size_sub p (cache_min_node rb)"
  shows "off < size_add (node_buffer_count rb) (rb_i rb)" "rb_add (cf_nodes cf) (rb_tail nb) (off div cf_npp cf) = node_slot cf p"
    "n < p + ring_nodes cf"
proof -
  let ?npp = "cf_npp cf"
  have npp: "0 < ?npp" using npp_facts(1) [OF ok] .
  have b': "n < node_total cf" "cache_min_node rb = t * ?npp" "node_buffer_count rb + rb_i rb = n - t * ?npp" "t * ?npp \<le> p"
    "n div ?npp < t + cf_nodes cf" "t * ?npp \<le> n"
    using b p by (auto simp: batch_ok_def)
  have off: "off = p - t * ?npp" unfolding off_def b'(2)
    using b'(1,4) p(2) node_total_bound [OF ok] by (intro size_sub_small) (simp_all add: SIZE_MOD_def)
  have "size_add (node_buffer_count rb) (rb_i rb) = n - t * ?npp"
    using b'(1,3) node_total_bound [OF ok] by (simp add: SIZE_MOD_def)
  then show "off < size_add (node_buffer_count rb) (rb_i rb)" using off p(2) b'(4) by simp
  have p0: "p = t * ?npp + off" using off b'(4) by simp
  have pd: "p div ?npp = t + off div ?npp" unfolding p0 using npp by simp
  moreover have "p div ?npp \<le> n div ?npp" using p(2) by (intro div_le_mono) simp
  ultimately have "off div ?npp < cf_nodes cf" using b'(5) by linarith
  from ring_at_add [OF ring this] show "rb_add (cf_nodes cf) (rb_tail nb) (off div ?npp) = node_slot cf p"
    by (simp add: node_slot_def pd)
  have "n < Suc (n div ?npp) * ?npp" using npp by (simp add: dividend_less_div_times add.commute)
  also have "\<dots> \<le> (t + cf_nodes cf) * ?npp" using b'(5) by (intro mult_le_mono1) simp
  also have "\<dots> = t * ?npp + ring_nodes cf" by (simp add: ring_nodes_def distrib_right)
  finally show "n < p + ring_nodes cf" using b'(4) by linarith
qed

lemma read_parent_step:
  assumes ok: "cfg_ok cf" and g: "graph_ok cf buf" and b: "batch_ok cf w n rb t res" and n: "0 < n" "unat node = n"
    and j: "j < PAGE_BATCH_SIZE" "\<not> layer_start cf n \<or> PARENT_COUNT_BASE \<le> j + 1"
    and it: "walk_inv (cf_bits cf) 0 (PARENT_COUNT * n + j + 1) it" "parent_buf it = buf"
    and ring: "ring_at (cf_nodes cf) (node_buffer s) t hi" and page: "page = n mod cf_parents cf"
    and s1: "s1 = upd_slot page io ps sy ns s"
  shows "\<exists>io' p' y' ns' it'. read_parent cf rb node page j (s1, it, k) =
      Inr (upd_slot page (io(j := io')) (ps(j + 1 := p')) (sy(j + 1 := y')) ns' s, it', k + (if io_type io' = READ then 1 else 0)) \<and>
    walk_inv (cf_bits cf) 0 (PARENT_COUNT * n + j + 2) it' \<and> parent_buf it' = buf \<and>
    slot_parent cf buf w n (io(j := io')) (ps(j + 1 := p')) (sy(j + 1 := y')) j \<and> io_valid io' = io_valid (io j)"
proof -
  let ?P = "ref_parent cf buf n (j + 1)"
  have P13: "PARENT_COUNT = 14" "PAGE_BATCH_SIZE = 13" by (simp_all add: constant_defs)
  have nt: "n < node_total cf" and pid: "parent_buffer_id rb = page" and w: "cache_min_cacheable_node rb \<le> w"
    using b page by (simp_all add: batch_ok_def)
  have k14: "(PARENT_COUNT * n + j + 1) mod PARENT_COUNT = j + 1" "(PARENT_COUNT * n + j + 1) div PARENT_COUNT = n"
    using j(1) unfolding P13 by simp_all
  have nd: "pi_node it = node" using it(1) n(2) k14(2) by (simp add: walk_inv_def word_unat_eq_iff)
  obtain wd where wd: "find_parent (cf_bits cf) node it = Inr wd" "unat wd = ?P"
    using find_parent_ref [OF ok g it] n nt nd k14(1) by auto
  have pl: "?P < n" using ref_parent_less [OF g _ n(1), of "j + 1"] j unfolding P13 layer_start_def by auto
  have wn: "wd = word_of_nat ?P" using wd(2) using unat_node [OF ok, of ?P] pl nt by (simp add: word_unat_eq_iff)
  have pg: "unat (node_id_node (cf_bits cf) wd) mod cf_npp cf = ?P mod cf_npp cf" using node_in_page [OF ok, of wd] wd(2) by simp
  have "PARENT_COUNT * n + j + 1 < PARENT_COUNT * Suc n" using j(1) unfolding P13 by simp
  also have "\<dots> \<le> PARENT_COUNT * node_total cf" using nt by (intro mult_le_mono2) simp
  finally have it': "walk_inv (cf_bits cf) 0 (PARENT_COUNT * n + j + 2) (parent_iter_next (cf_bits cf) it)"
    using walk_next [OF ok it(1)] by simp
  have loc: "size_sub n ?P = n - ?P" using pl nt node_total_bound [OF ok] by (intro size_sub_small) (simp_all add: SIZE_MOD_def)
  show ?thesis
  proof (cases "cache_min_cacheable_node rb \<le> ?P")
    case True
    note C = cached_parent [OF ok b ring True pl]
    let ?io = "(io j)\<lparr>io_type := NOP\<rparr>" and ?p = "node_ptr cf ?P"
    obtain ns' where ns': "add_reference (node_slot cf ?P) (upd_slot page (io(j := ?io)) (ps(j + 1 := ?p)) (sy(j + 1 := word_of_nat (node_slot cf ?P))) ns s)
        = upd_slot page (io(j := ?io)) (ps(j + 1 := ?p)) (sy(j + 1 := word_of_nat (node_slot cf ?P))) ns' s"
      using add_reference_slot by blast
    let ?l = "n - ?P < cf_batch cf * cf_batches cf"
    have "read_parent cf rb node page j (s1, it, k) =
        Inr (upd_slot page (io(j := ?io)) (ps(j + 1 := ?p)) (sy(j + 1 := if ?l then LOCAL_NODE else word_of_nat (node_slot cf ?P)))
          (if ?l then ns else ns') s, parent_iter_next (cf_bits cf) it, k)"
      using True C(1,2) ns' loc wd(2) pg unfolding read_parent_def s1
      by (simp add: nd wd(1) pid n(2) assert_that_def Let_def set_io_slot set_parent_slot node_ptr_def del: fun_upd_apply)
    moreover have "slot_parent cf buf w n (io(j := ?io)) (ps(j + 1 := ?p)) (sy(j + 1 := if ?l then LOCAL_NODE else word_of_nat (node_slot cf ?P))) j"
      using C(3) pl by (auto simp: slot_parent_def Let_def)
    ultimately show ?thesis using it' it(2)
      by (intro exI [of _ ?io] exI [of _ ?p] exI [of _ "if ?l then LOCAL_NODE else word_of_nat (node_slot cf ?P)"]
          exI [of _ "if ?l then ns else ns'"] exI [of _ "parent_iter_next (cf_bits cf) it"]) (simp del: fun_upd_apply)
  next
    case False
    let ?io = "(io j)\<lparr>io_node := wd, io_type := READ\<rparr>" and ?p = "PagePtr page j (?P mod cf_npp cf)"
    have "read_parent cf rb node page j (s1, it, k) =
        Inr (upd_slot page (io(j := ?io)) (ps(j + 1 := ?p)) (sy(j + 1 := NOT_NODE_BUFFER)) ns s, parent_iter_next (cf_bits cf) it, k + 1)"
      using False wd(2) pg unfolding read_parent_def s1
      by (simp add: nd wd(1) pid n(2) assert_that_def Let_def set_io_slot set_parent_slot del: fun_upd_apply)
    moreover have "slot_parent cf buf w n (io(j := ?io)) (ps(j + 1 := ?p)) (sy(j + 1 := NOT_NODE_BUFFER)) j"
      using False w by (simp add: slot_parent_def Let_def page wn NOT_NODE_BUFFER_def LOCAL_NODE_def)
    ultimately show ?thesis using it' it(2)
      by (intro exI [of _ ?io] exI [of _ ?p] exI [of _ NOT_NODE_BUFFER] exI [of _ ns] exI [of _ "parent_iter_next (cf_bits cf) it"])
        (simp del: fun_upd_apply)
  qed
qed


section \<open>All parents of a node\<close>

lemma slot_parent_cong:
  "io j = io' j \<Longrightarrow> ps (j + 1) = ps' (j + 1) \<Longrightarrow> sy (j + 1) = sy' (j + 1) \<Longrightarrow>
   slot_parent cf buf w n io ps sy j = slot_parent cf buf w n io' ps' sy' j"
  by (simp add: slot_parent_def)

lemma read_parents:
  assumes ok: "cfg_ok cf" and g: "graph_ok cf buf" and b: "batch_ok cf w n rb t res" and n: "0 < n" "unat node = n"
    and a: "a \<le> m" "m \<le> PAGE_BATCH_SIZE" "\<not> layer_start cf n \<or> PARENT_COUNT_BASE \<le> a + 1"
    and it: "walk_inv (cf_bits cf) 0 (PARENT_COUNT * n + a + 1) it" "parent_buf it = buf"
    and ring: "ring_at (cf_nodes cf) (node_buffer s) t hi" and page: "page = n mod cf_parents cf"
  shows "\<exists>io' ps' sy' ns' it'.
    fold_result (read_parent cf rb node page) [a..<m] (upd_slot page io ps sy ns s, it, 0) =
      Inr (upd_slot page io' ps' sy' ns' s, it', length (filter (\<lambda>j. io_type (io' j) = READ) [a..<m])) \<and>
    walk_inv (cf_bits cf) 0 (PARENT_COUNT * n + m + 1) it' \<and> parent_buf it' = buf \<and>
    (\<forall>j. a \<le> j \<and> j < m \<longrightarrow> slot_parent cf buf w n io' ps' sy' j) \<and> (\<forall>j. io_valid (io' j) = io_valid (io j)) \<and>
    (\<forall>j. j < a \<or> m \<le> j \<longrightarrow> io' j = io j) \<and> (\<forall>j. j \<le> a \<or> m < j \<longrightarrow> ps' j = ps j \<and> sy' j = sy j)"
  using a(1,2)
proof (induction m rule: dec_induct)
  case base
  show ?case
    by (intro exI [of _ io] exI [of _ ps] exI [of _ sy] exI [of _ ns] exI [of _ it]) (use it in auto)
next
  case (step m)
  have "m \<le> PAGE_BATCH_SIZE" using step(4) by simp
  from step(3) [OF this] obtain io1 ps1 sy1 ns1 it1 where S:
    "fold_result (read_parent cf rb node page) [a..<m] (upd_slot page io ps sy ns s, it, 0) =
      Inr (upd_slot page io1 ps1 sy1 ns1 s, it1, length (filter (\<lambda>j. io_type (io1 j) = READ) [a..<m]))"
    "walk_inv (cf_bits cf) 0 (PARENT_COUNT * n + m + 1) it1" "parent_buf it1 = buf"
    "\<And>j. a \<le> j \<Longrightarrow> j < m \<Longrightarrow> slot_parent cf buf w n io1 ps1 sy1 j" "\<And>j. io_valid (io1 j) = io_valid (io j)"
    "\<And>j. j < a \<or> m \<le> j \<Longrightarrow> io1 j = io j" "\<And>j. j \<le> a \<or> m < j \<Longrightarrow> ps1 j = ps j \<and> sy1 j = sy j"
    by blast
  have m: "m < PAGE_BATCH_SIZE" "\<not> layer_start cf n \<or> PARENT_COUNT_BASE \<le> m + 1" using step a(3) by auto
  let ?k = "length (filter (\<lambda>j. io_type (io1 j) = READ) [a..<m])"
  from read_parent_step [OF ok g b n m S(2,3) ring page HOL.refl, where k = ?k and io = io1 and ps = ps1 and sy = sy1 and ns = ns1]
  obtain io2 p2 y2 ns2 it2 where T:
    "read_parent cf rb node page m (upd_slot page io1 ps1 sy1 ns1 s, it1, ?k) =
      Inr (upd_slot page (io1(m := io2)) (ps1(m + 1 := p2)) (sy1(m + 1 := y2)) ns2 s, it2, ?k + (if io_type io2 = READ then 1 else 0))"
    "walk_inv (cf_bits cf) 0 (PARENT_COUNT * n + m + 2) it2" "parent_buf it2 = buf"
    "slot_parent cf buf w n (io1(m := io2)) (ps1(m + 1 := p2)) (sy1(m + 1 := y2)) m" "io_valid io2 = io_valid (io1 m)"
    by blast
  let ?io = "io1(m := io2)" and ?ps = "ps1(m + 1 := p2)" and ?sy = "sy1(m + 1 := y2)"
  have c: "filter (\<lambda>j. io_type (?io j) = READ) [a..<m] = filter (\<lambda>j. io_type (io1 j) = READ) [a..<m]"
    by (rule filter_cong) auto
  have sp: "slot_parent cf buf w n ?io ?ps ?sy j" if "a \<le> j" "j < Suc m" for j
  proof (cases "j = m")
    case False
    then have "slot_parent cf buf w n io1 ps1 sy1 j" using S(4) that by simp
    then show ?thesis using False slot_parent_cong [of io1 j ?io ps1 ?ps sy1 ?sy] by simp
  qed (use T(4) in simp)
  have u: "[a..<Suc m] = [a..<m] @ [m]" using step(1) by simp
  have f: "fold_result (read_parent cf rb node page) [a..<Suc m] (upd_slot page io ps sy ns s, it, 0) =
      Inr (upd_slot page ?io ?ps ?sy ns2 s, it2, length (filter (\<lambda>j. io_type (?io j) = READ) [a..<Suc m]))"
    unfolding u fold_result_append S(1) using T(1) by (simp add: c del: fun_upd_apply) (simp)
  have keep: "\<forall>j. io_valid (?io j) = io_valid (io j)" "\<forall>j. j < a \<or> Suc m \<le> j \<longrightarrow> ?io j = io j"
    "\<forall>j. j \<le> a \<or> Suc m < j \<longrightarrow> ?ps j = ps j \<and> ?sy j = sy j" using S(5-7) T(5) step(1) by auto
  have wk: "walk_inv (cf_bits cf) 0 (PARENT_COUNT * n + Suc m + 1) it2" using T(2) by simp
  show ?case using f wk T(3) sp keep by blast
qed

end
