(* ===== verification/PC1_Orch_Next.thy ===== *)
theory PC1_Orch_Next
  imports PC1_Orch_Node
begin

text \<open>
  The parts of the invariant after the parents of node \<open>n\<close> have been prepared,
  and the step \<open>read_node\<close> of the orchestrator.
\<close>

section \<open>The parts of the invariant\<close>

lemma slot_neq:
  assumes "m < n" "n < m + c"
  shows "m mod c \<noteq> n mod (c :: nat)"
  using slot_inj [of m c n] assms by auto

lemma desc_inv_node:
  assumes inv: "desc_inv cf buf s w lo n" and n: "n < lo + cf_parents cf" and pid: "pid = n mod cf_parents cf"
    and new: "\<And>j. \<not> layer_start cf n \<Longrightarrow> j < PARENT_COUNT \<Longrightarrow> parent_ok cf buf (upd_slot pid io ps sy ns s) w n j"
  shows "desc_inv cf buf (upd_slot pid io ps sy ns s) w lo (Suc n)"
  unfolding desc_inv_def
proof (intro allI impI)
  fix m j assume m: "lo \<le> m \<and> m < Suc n \<and> \<not> layer_start cf m" and j: "j < PARENT_COUNT"
  show "parent_ok cf buf (upd_slot pid io ps sy ns s) w m j"
  proof (cases "m = n")
    case False
    have "m mod cf_parents cf \<noteq> pid" unfolding pid using slot_neq [of m n "cf_parents cf"] m False n by auto
    moreover have "parent_ok cf buf s w m j" using desc_invD [OF inv _ _ _ j] m False by auto
    ultimately show ?thesis by (simp add: parent_ok_def)
  qed (use new m j in simp)
qed

lemma slot_inv_other:
  assumes "slot_inv cf buf lab s rs issued m" "m mod cf_parents cf \<noteq> pid"
    "valid b ! (m mod cf_parents cf) = valid (parent_buffer s) ! (m mod cf_parents cf)"
  shows "slot_inv cf buf lab ((upd_slot pid io ps sy ns s)\<lparr>parent_buffer := b, parent_read_fifo := q\<rparr>) rs issued m"
proof -
  have "slot_inv cf buf lab ((upd_slot pid io ps sy ns s)\<lparr>parent_buffer := b, parent_read_fifo := q\<rparr>) rs issued m =
      slot_inv cf buf lab s rs issued m"
    using assms(2,3) by (simp add: slot_inv_def Let_def reads_of_def page_ok_def)
  with assms(1) show ?thesis by simp
qed

lemma read_inv_node:
  assumes inv: "read_inv cf buf lab s rs lo n res" and pos: "lo \<le> n" "n < res" "res < lo + cf_parents cf"
    and shape: "fifo_shape cf (parent_read_fifo s) n res" and ok: "cfg_ok cf" and pid: "pid = n mod cf_parents cf"
    and b: "valid b = (valid (parent_buffer s))[pid := v]" "length (valid (parent_buffer s)) = cf_parents cf"
    and q: "length (fifo_list q) = Suc (length (fifo_list (parent_read_fifo s))) \<or> n = 0 \<and> length (fifo_list q) = 0"
    and v: "\<not> layer_start cf n \<Longrightarrow> v + length (filter (\<lambda>j. io_type (io j) = READ) [0..<PAGE_BATCH_SIZE]) = PAGE_BATCH_SIZE"
    and vs: "layer_start cf n \<Longrightarrow> PAGE_BATCH_SIZE \<le> v + (if n = 0 then 0 else length (filter (\<lambda>j. io_type (io j) = READ) [0..<PAGE_BATCH_SIZE])) \<and> v \<le> PAGE_BATCH_SIZE"
  shows "read_inv cf buf lab ((upd_slot pid io ps sy ns s)\<lparr>parent_buffer := b, parent_read_fifo := q\<rparr>) rs lo (Suc n) res"
    (is "read_inv _ _ _ ?s2 _ _ _ _")
proof -
  let ?len = "length (fifo_list (parent_read_fifo s))" and ?is = "n - length (fifo_list (parent_read_fifo s))"
  let ?is' = "Suc n - length (fifo_list q)"
  have R: "\<And>r. r \<in> set rs \<Longrightarrow> req_ok cf lo ?is res r"
    "\<And>m. lo \<le> m \<Longrightarrow> m < n \<Longrightarrow> \<not> layer_start cf m \<Longrightarrow> slot_inv cf buf lab s rs ?is m"
    "\<And>m. ?is \<le> m \<Longrightarrow> m < lo \<Longrightarrow> \<not> layer_start cf m \<Longrightarrow> reads_of s (m mod cf_parents cf) = 0"
    "\<And>m. n \<le> m \<Longrightarrow> m \<le> res \<Longrightarrow> valid (parent_buffer s) ! (m mod cf_parents cf) = 0"
    "\<And>m. lo \<le> m \<Longrightarrow> m < n \<Longrightarrow> layer_start cf m \<Longrightarrow> start_inv cf s rs ?is m"
    using inv by (auto simp: read_inv_def Let_def)
  have F: "?len < cf_parents cf" "0 < ?len \<longrightarrow> ?len < n" using shape cfg_okD(12) [OF ok] by (auto simp: fifo_shape_def)
  have l0: "layer_start cf 0" by (simp add: layer_start_def)
  have iss: "?is' = ?is \<or> n = 0 \<and> rs = []"
  proof (rule disjCI)
    assume "\<not> (n = 0 \<and> rs = [])"
    then have "n \<noteq> 0" using R(1) [of "hd rs"] by (cases rs) (auto simp: req_ok_def)
    then show "?is' = ?is" using q by auto
  qed
  have vv: "valid b ! (m mod cf_parents cf) = valid (parent_buffer s) ! (m mod cf_parents cf)" if "m mod cf_parents cf \<noteq> pid" for m
    using that b(1) by simp
  have vn: "valid b ! pid = v" using b cfg_okD(3) [OF ok] by (simp add: pid)
  have "req_ok cf lo ?is' res r" if "r \<in> set rs" for r using iss R(1) [OF that] that by auto
  moreover have "slot_inv cf buf lab ?s2 rs ?is' m" if m: "lo \<le> m" "m < Suc n" "\<not> layer_start cf m" for m
  proof (cases "m = n")
    case True
    then have "n \<noteq> 0" using l0 m(3) by metis
    then have "?is' = ?is" using iss by auto
    moreover have "\<not> n < ?is" by simp
    moreover have "reads_of ?s2 pid = length (filter (\<lambda>j. io_type (io j) = READ) [0..<PAGE_BATCH_SIZE])" by (simp add: reads_of_def)
    ultimately show ?thesis using v True m(3) vn \<open>\<not> n < ?is\<close> by (simp add: slot_inv_def Let_def pid)
  next
    case False
    then have "m < n" "n \<noteq> 0" using m by auto
    then have "slot_inv cf buf lab s rs ?is' m" "m mod cf_parents cf \<noteq> pid" using iss R(2) m slot_neq [of m n "cf_parents cf"] pos by (auto simp: pid)
    then show ?thesis using vv by (intro slot_inv_other) auto
  qed
  moreover have "reads_of ?s2 (m mod cf_parents cf) = 0" if m: "?is' \<le> m" "m < lo" "\<not> layer_start cf m" for m
  proof -
    have "?is' = ?is" using iss m pos by auto
    then have "m mod cf_parents cf \<noteq> pid" using slot_neq [of m n "cf_parents cf"] m pos F(1) by (auto simp: pid)
    moreover have "reads_of s (m mod cf_parents cf) = 0" using R(3) \<open>?is' = ?is\<close> m by simp
    ultimately show ?thesis by (simp add: reads_of_def)
  qed
  moreover have "valid b ! (m mod cf_parents cf) = 0" if m: "Suc n \<le> m" "m \<le> res" for m
  proof -
    have "n mod cf_parents cf \<noteq> m mod cf_parents cf" using slot_neq [of n m "cf_parents cf"] m pos by auto
    then show ?thesis using vv [of m] R(4) [of m] m by (simp add: pid)
  qed
  moreover have "start_inv cf ?s2 rs ?is' m" if m: "lo \<le> m" "m < Suc n" "layer_start cf m" for m
  proof (cases "m = n")
    case True
    have r: "reads_of ?s2 pid = length (filter (\<lambda>j. io_type (io j) = READ) [0..<PAGE_BATCH_SIZE])" "reads_of ?s2 pid \<le> PAGE_BATCH_SIZE"
      using length_filter_le [of "\<lambda>j. io_type (io j) = READ" "[0..<PAGE_BATCH_SIZE]"] by (simp_all add: reads_of_def)
    show ?thesis
    proof (cases "n = 0")
      case True
      then have "pending rs pid = 0" using R(1) by (intro pending_0) (auto simp: req_ok_def)
      then show ?thesis using r vs m(3) vn \<open>m = n\<close> True by (simp add: start_inv_def Let_def pid)
    next
      case False
      then have "?is' = ?is" using iss by auto
      moreover have "\<not> n < ?is" by simp
      ultimately show ?thesis using r vs m(3) vn \<open>m = n\<close> False by (simp add: start_inv_def Let_def pid)
    qed
  next
    case False
    then have "m < n" "n \<noteq> 0" using m by auto
    then have "start_inv cf s rs ?is' m" "m mod cf_parents cf \<noteq> pid" using iss R(5) m slot_neq [of m n "cf_parents cf"] pos by (auto simp: pid)
    then show ?thesis using vv [of m] by (simp add: start_inv_def Let_def reads_of_def split: if_splits)
  qed
  ultimately show ?thesis by (simp add: read_inv_def Let_def)
qed

lemma coords_inv_node:
  assumes inv: "coords_inv cf buf lab bufs rb cn lo n cs" and lo: "\<And>k. k < length cs \<Longrightarrow> lo \<le> cn ! k"
    and n: "n < lo + cf_parents cf" and b: "valid b = (valid rb)[n mod cf_parents cf := v]"
  shows "coords_inv cf buf lab bufs b cn lo (Suc n) cs"
proof -
  have "valid rb ! (m mod cf_parents cf) \<le> valid b ! (m mod cf_parents cf)" if "lo \<le> m" "m < n" for m
    using slot_neq [of m n "cf_parents cf"] that n b by simp
  then have "coords_inv cf buf lab bufs b cn lo n cs" by (intro coords_inv_valid [OF inv lo]) simp_all
  then show ?thesis unfolding coords_inv_def coord_link_def by (meson le_SucI less_SucI)
qed

lemma io_static_slot:
  assumes "io_static cf s" "\<And>j. io_valid (io j) = io_valid (parent_buffer_io s pid j)"
    "\<And>j. j < PAGE_BATCH_SIZE \<Longrightarrow> io_type (io j) \<noteq> WRITE"
  shows "io_static cf (upd_slot pid io ps sy ns s)"
  using assms by (auto simp: io_static_def)

lemma fifo_shape_enq:
  assumes inv: "fifo_shape cf q n res" and pos: "0 < n" "n < res"
    and q: "fifo_inv q'" "fifo_list q' = fifo_list q @ [Some (n mod cf_parents cf)]" "fifo_capacity q' = fifo_capacity q"
  shows "fifo_shape cf q' (Suc n) res"
proof -
  let ?l = "length (fifo_list q)"
  have F: "fifo_capacity q = disk_fifo_depth cf" "?l + (res - n) \<le> disk_fifo_depth cf" "0 < ?l \<longrightarrow> ?l < n"
    "fifo_list q = map (\<lambda>n. Some (n mod cf_parents cf)) [n - ?l..<n]" using inv by (auto simp: fifo_shape_def)
  have u: "[n - ?l..<Suc n] = [n - ?l..<n] @ [n]" by simp
  have "fifo_list q' = map (\<lambda>n. Some (n mod cf_parents cf)) [n - ?l..<Suc n]"
    unfolding u map_append F(4) [symmetric] q(2) by simp
  moreover have "length (fifo_list q') = Suc ?l" by (simp add: q(2))
  moreover have "Suc ?l < Suc n" using F(3) pos by auto
  moreover have "Suc ?l + (res - Suc n) \<le> disk_fifo_depth cf" using F(2) pos by linarith
  ultimately show ?thesis unfolding fifo_shape_def using q(1,3) F(1) by simp
qed

lemma mt_enqueue_nocheck_room:
  assumes "fifo_inv q" "length (fifo_list q) < fifo_capacity q"
  shows "\<exists>q'. mt_enqueue_nocheck x q = Inr q' \<and> fifo_inv q' \<and> fifo_list q' = fifo_list q @ [x] \<and> fifo_capacity q' = fifo_capacity q"
proof -
  have "\<not> fifo_is_full q" using assms fifo_is_full_iff by fastforce
  then have "mt_enqueue_nocheck x q = mt_enqueue x q" by (simp add: mt_enqueue_nocheck_def mt_enqueue_def assert_that_def)
  then show ?thesis using mtq.enq_room [OF assms(1), of x] assms(2) by auto
qed


section \<open>The step\<close>

lemma orch_localsD:
  assumes "orch_locals cf o1" "orch_pc o1 = ONodes"
  defines "rb \<equiv> rb_locals o1"
  defines "base \<equiv> node_of o1 - rb_i rb"
  shows "rb_i rb \<le> node_of o1" "rb_i rb \<le> rb_max_batch rb" "cf_npp cf dvd base" "cf_npp cf dvd rb_max_batch rb"
    "rb_i rb < rb_max_batch rb \<Longrightarrow> parent_buffer_id rb = node_of o1 mod cf_parents cf"
    "page_batch_ptrs rb = map (\<lambda>k. Some ((base + k) mod cf_parents cf)) [0..<rb_max_batch rb]"
    "node_batch_ptrs rb = map (\<lambda>k. Some ((base div cf_npp cf + k) mod cf_nodes cf)) [0..<rb_max_batch rb div cf_npp cf]"
    "cache_min_node rb = tail_node o1 div cf_npp cf * cf_npp cf" "cache_min_node rb \<le> base"
    "node_buffer_count rb = base - cache_min_node rb"
    "cache_min_node rb \<le> cache_min_cacheable_node rb" "cache_min_cacheable_node rb \<le> written o1"
  using assms by (simp_all add: orch_locals_def Let_def)

lemma read_node_setup:
  assumes ok: "cfg_ok cf" and base: "orch_base cf buf o1" and loc: "orch_locals cf o1" and rings: "orch_rings cf s o1"
    and pc: "orch_pc o1 = ONodes" "rb_i (rb_locals o1) < rb_max_batch (rb_locals o1)"
  shows "deref_ptr (node_batch_ptrs (rb_locals o1)) (rb_i (rb_locals o1) div cf_npp cf) = Inr (node_slot cf (node_of o1))"
    "deref_ptr (page_batch_ptrs (rb_locals o1)) (rb_i (rb_locals o1)) = Inr (node_of o1 mod cf_parents cf)"
    "batch_ok cf (written o1) (node_of o1) ((rb_locals o1)\<lparr>cur_node_buffer_id := k\<rparr>) (tail_node o1 div cf_npp cf) (reserved o1)"
proof -
  let ?rb = "rb_locals o1" and ?F = "node_of o1" and ?npp = "cf_npp cf"
  let ?i = "rb_i ?rb" and ?mb = "rb_max_batch ?rb"
  note L = orch_localsD [OF loc pc(1)] and B = orch_baseD [OF base] and P = pc1_bounds [OF base]
  have npp: "0 < ?npp" using npp_facts(1) [OF ok] .
  have "?i < ?mb div ?npp * ?npp" using pc(2) L(4) by simp
  then have lt: "?i div ?npp < ?mb div ?npp" by (rule less_mult_imp_div_less)
  have "?F = (?F - ?i) + ?i" using L(1) by simp
  then have "?F div ?npp = (?F - ?i) div ?npp + ?i div ?npp" using L(3) by (metis div_plus_div_distrib_dvd_left)
  then show "deref_ptr (node_batch_ptrs ?rb) (?i div ?npp) = Inr (node_slot cf ?F)"
    using lt by (simp add: deref_ptr_def L(7) node_slot_def)
  show "deref_ptr (page_batch_ptrs ?rb) ?i = Inr (?F mod cf_parents cf)"
    using pc(2) L(1) by (simp add: deref_ptr_def L(6))
  have R: "reserved o1 = ?F + (?mb - ?i)" using pc(1) by (simp add: reserved_def)
  have "ring_at (cf_nodes cf) (node_buffer s) (tail_node o1 div ?npp) (reserved o1 div ?npp)" using rings by (simp add: orch_rings_def)
  from ring_atD(3) [OF this] have "?F div ?npp < tail_node o1 div ?npp + cf_nodes cf"
    using div_le_mono [OF P(1), of ?npp] by linarith
  moreover have "?F < reserved o1" "?F < node_total cf" "cache_min_node ?rb \<le> ?F" "node_buffer_count ?rb + ?i = ?F - cache_min_node ?rb"
    using R pc(2) B(5) L(1,9,10) by linarith+
  note n = calculation this
  show "batch_ok cf (written o1) ?F (?rb\<lparr>cur_node_buffer_id := k\<rparr>) (tail_node o1 div ?npp) (reserved o1)"
    using L(5,8,11,12) pc(2) P(4) n unfolding batch_ok_def by simp
qed


definition node_result :: "pc1_cfg \<Rightarrow> 32 word list \<Rightarrow> system_buffers_t \<Rightarrow> orchestrator_t \<Rightarrow>
    (system_buffers_t \<times> orchestrator_t) result \<Rightarrow> bool" where
  "node_result cf buf s o1 r \<longleftrightarrow>
     (\<exists>io ps sy ns it q v k.
        let n = node_of o1; pid = n mod cf_parents cf; s1 = upd_slot pid io ps sy ns s in
        r = Inr (s1\<lparr>parent_buffer := (parent_buffer s)\<lparr>valid := (valid (parent_buffer s))[pid := v]\<rparr>, parent_read_fifo := q\<rparr>,
              read_next cf (node_ptr cf n) it (o1\<lparr>rb_locals := (rb_locals o1)\<lparr>cur_node_buffer_id := k\<rparr>\<rparr>)) \<and>
        walk_inv (cf_bits cf) 0 (PARENT_COUNT * Suc n) it \<and> parent_buf it = buf \<and>
        (\<forall>j. io_valid (io j) = io_valid (parent_buffer_io s pid j)) \<and> (\<forall>j < PAGE_BATCH_SIZE. io_type (io j) \<noteq> WRITE) \<and>
        (\<not> layer_start cf n \<longrightarrow> (\<forall>j < PARENT_COUNT. parent_ok cf buf s1 (written o1) n j) \<and>
           v + length (filter (\<lambda>j. io_type (io j) = READ) [0..<PAGE_BATCH_SIZE]) = PAGE_BATCH_SIZE) \<and>
        (layer_start cf n \<longrightarrow> PAGE_BATCH_SIZE \<le> v + (if n = 0 then 0 else length (filter (\<lambda>j. io_type (io j) = READ) [0..<PAGE_BATCH_SIZE])) \<and>
           v \<le> PAGE_BATCH_SIZE) \<and>
        fifo_shape cf q (Suc n) (reserved o1) \<and> length (fifo_list (parent_read_fifo s)) \<le> length (fifo_list q) \<and>
        (length (fifo_list q) = Suc (length (fifo_list (parent_read_fifo s))) \<or> n = 0 \<and> length (fifo_list q) = 0))"

lemma node_resultI:
  assumes "r = Inr ((upd_slot (node_of o1 mod cf_parents cf) io ps sy ns s)\<lparr>parent_buffer := (parent_buffer s)
        \<lparr>valid := (valid (parent_buffer s))[node_of o1 mod cf_parents cf := v]\<rparr>, parent_read_fifo := q\<rparr>,
      read_next cf (node_ptr cf (node_of o1)) it (o1\<lparr>rb_locals := (rb_locals o1)\<lparr>cur_node_buffer_id := k\<rparr>\<rparr>))"
    "walk_inv (cf_bits cf) 0 (PARENT_COUNT * Suc (node_of o1)) it" "parent_buf it = buf"
    "\<And>j. io_valid (io j) = io_valid (parent_buffer_io s (node_of o1 mod cf_parents cf) j)"
    "\<And>j. j < PAGE_BATCH_SIZE \<Longrightarrow> io_type (io j) \<noteq> WRITE"
    "\<And>j. \<not> layer_start cf (node_of o1) \<Longrightarrow> j < PARENT_COUNT \<Longrightarrow>
      parent_ok cf buf (upd_slot (node_of o1 mod cf_parents cf) io ps sy ns s) (written o1) (node_of o1) j"
    "\<not> layer_start cf (node_of o1) \<Longrightarrow> v + length (filter (\<lambda>j. io_type (io j) = READ) [0..<PAGE_BATCH_SIZE]) = PAGE_BATCH_SIZE"
    "layer_start cf (node_of o1) \<Longrightarrow> PAGE_BATCH_SIZE \<le> v + (if node_of o1 = 0 then 0 else length (filter (\<lambda>j. io_type (io j) = READ) [0..<PAGE_BATCH_SIZE])) \<and> v \<le> PAGE_BATCH_SIZE"
    "fifo_shape cf q (Suc (node_of o1)) (reserved o1)" "length (fifo_list (parent_read_fifo s)) \<le> length (fifo_list q)"
    "length (fifo_list q) = Suc (length (fifo_list (parent_read_fifo s))) \<or> node_of o1 = 0 \<and> length (fifo_list q) = 0"
  shows "node_result cf buf s o1 r"
  unfolding node_result_def Let_def using assms by blast

lemma read_node_first:
  assumes ok: "cfg_ok cf" and inv: "pc1_inv cf buf lab bufs st" and pc: "orch_pc (st_orch st) = ONodes"
      "rb_i (rb_locals (st_orch st)) < rb_max_batch (rb_locals (st_orch st))" and z: "node_of (st_orch st) = 0"
  shows "node_result cf buf (st_sys st) (st_orch st) (read_node cf (st_sys st) (st_orch st))"
proof -
  let ?o = "st_orch st" and ?s = "st_sys st" and ?pid = "node_of (st_orch st) mod cf_parents cf"
  note I = pc1_invD [OF inv] and B = orch_baseD [OF pc1_invD(1) [OF inv]] and P = pc1_bounds [OF pc1_invD(1) [OF inv]]
  note S = read_node_setup [OF ok I(1,4,2) pc]
  have b: "node_of ?o < node_total cf" "node_of ?o < reserved ?o" using S(3) by (auto simp: batch_ok_def)
  have w0: "pi_node (parent_iter ?o) = 0" using z by (simp add: node_of_def word_unat_eq_iff)
  have ring: "ring_at (cf_parents cf) (parent_buffer ?s) (tail_node_parents ?o) (reserved ?o)" using I(2) by (simp add: orch_rings_def)
  have pid: "?pid < cf_parents cf" "?pid \<noteq> reserved ?o mod cf_parents cf"
    using cfg_okD(3) [OF ok] slot_neq [OF b(2)] ring_atD(3) [OF ring] B(10) z by auto
  have v0: "valid (parent_buffer ?s) ! ?pid = 0" using I(8) b(2) by (simp add: read_inv_def Let_def)
  have "PARENT_COUNT * node_of ?o + length [0..<PARENT_COUNT] \<le> PARENT_COUNT * node_total cf" using b(1) z by (simp add: constant_defs)
  from no_parents_slot [OF ok B(2) this, of ?pid, where s = ?s and io = "parent_buffer_io ?s ?pid" and ?ps0.0 = "parent_ptrs ?s ?pid" and
      ?sy0.0 = "parent_ptr_syncs ?s ?pid" and ns = "node_buffer_sync ?s"] B(3)
  obtain ps sy it' where N: "no_parents (cf_bits cf) ?pid [0..<PARENT_COUNT] (?s, parent_iter ?o) =
      (upd_slot ?pid (parent_buffer_io ?s ?pid) ps sy (node_buffer_sync ?s) ?s, it')"
    "walk_inv (cf_bits cf) 0 (PARENT_COUNT * Suc (node_of ?o)) it'" "parent_buf it' = buf"
    unfolding upd_slot_self [symmetric] by (auto simp: z)
  have e: "fifo_list (parent_read_fifo ?s) = []" using I(5) z by (auto simp: fifo_shape_def)
  then have sh: "fifo_shape cf (parent_read_fifo ?s) (Suc (node_of ?o)) (reserved ?o)" using I(5) b(2) by (auto simp: fifo_shape_def)
  have id: "parent_buffer_id (rb_locals ?o) = ?pid" using S(3) by (simp add: batch_ok_def)
  have sz: "size_add 0 PAGE_BATCH_SIZE = PAGE_BATCH_SIZE" by (simp add: constant_defs SIZE_MOD_def)
  have np: "node_id_node (cf_bits cf) 0 = 0" using node_node(2) [OF ok, of 0] by simp
  have eq: "read_node cf ?s ?o = Inr (upd_slot ?pid (parent_buffer_io ?s ?pid) ps sy (node_buffer_sync ?s) ?s
      \<lparr>parent_buffer := (parent_buffer ?s)\<lparr>valid := (valid (parent_buffer ?s))[?pid := PAGE_BATCH_SIZE]\<rparr>, parent_read_fifo := parent_read_fifo ?s\<rparr>,
    read_next cf (node_ptr cf (node_of ?o)) it' (?o\<lparr>rb_locals := (rb_locals ?o)\<lparr>cur_node_buffer_id :=
      if rb_i (rb_locals ?o) > 0 then rb_incr (cf_nodes cf) (cur_node_buffer_id (rb_locals ?o)) else cur_node_buffer_id (rb_locals ?o)\<rparr>\<rparr>))"
    using S(1,2) N(1) ring_at_incr_valid(1) [OF ring pid, of PAGE_BATCH_SIZE] v0 sz
    by (simp add: read_node_def Let_def w0 id z node_ptr_def np upd_slot_def)
  have "io_type (parent_buffer_io ?s ?pid j) \<noteq> WRITE" if "j < PAGE_BATCH_SIZE" for j using I(6) pid(1) that by (simp add: io_static_def)
  then show ?thesis by (intro node_resultI [OF eq N(2,3)]) (use sh e z in \<open>simp_all add: layer_start_def\<close>)
qed


definition finish_node :: "pc1_cfg \<Rightarrow> read_batch_t \<Rightarrow> node_id_t \<Rightarrow> nat \<Rightarrow> parent_ptr_t \<Rightarrow> orchestrator_t \<Rightarrow> nat \<Rightarrow>
    system_buffers_t \<Rightarrow> parent_iter_t \<Rightarrow> (system_buffers_t \<times> orchestrator_t) result" where
  "finish_node cf rb node pid cur o1 a s1 it1 =
     bind_result (fold_result (read_parent cf rb node pid) [a..<PAGE_BATCH_SIZE] (s1, it1, 0)) (\<lambda>(s2, it2, reads_issued).
     bind_result (incr_valid pid (size_sub PAGE_BATCH_SIZE reads_issued) (parent_buffer s2)) (\<lambda>pbuf.
     bind_result (mt_enqueue_nocheck (Some pid) (parent_read_fifo s2)) (\<lambda>fifo.
     Inr (s2\<lparr>parent_buffer := pbuf, parent_read_fifo := fifo\<rparr>, read_next cf cur it2 o1))))"

lemma finish_node_result:
  assumes ok: "cfg_ok cf" and g: "graph_ok cf buf" and inv: "pc1_inv cf buf lab bufs st" and pc: "orch_pc (st_orch st) = ONodes"
      "rb_i (rb_locals (st_orch st)) < rb_max_batch (rb_locals (st_orch st))"
    and n: "n = node_of (st_orch st)" "0 < n" "unat node = n" and pid: "pid = n mod cf_parents cf"
    and o2: "o2 = (st_orch st)\<lparr>rb_locals := rb\<rparr>" "rb = (rb_locals (st_orch st))\<lparr>cur_node_buffer_id := k\<rparr>"
    and a: "a \<le> PAGE_BATCH_SIZE" "\<not> layer_start cf n \<or> PARENT_COUNT_BASE \<le> a + 1"
    and it: "walk_inv (cf_bits cf) 0 (PARENT_COUNT * n + a + 1) it" "parent_buf it = buf"
    and s1: "s1 = upd_slot pid (parent_buffer_io (st_sys st) pid) ps sy (node_buffer_sync (st_sys st)) (st_sys st)"
    and first: "\<not> layer_start cf n \<Longrightarrow> a = 0 \<and> ps 0 = node_ptr cf (n - 1) \<and> sy 0 = LOCAL_NODE"
  shows "node_result cf buf (st_sys st) (st_orch st) (finish_node cf rb node pid (node_ptr cf n) o2 a s1 it)"
proof -
  let ?o = "st_orch st" and ?s = "st_sys st"
  note I = pc1_invD [OF inv] and B = orch_baseD [OF pc1_invD(1) [OF inv]] and P = pc1_bounds [OF pc1_invD(1) [OF inv]]
  note S = read_node_setup(3) [OF ok I(1,4,2) pc, of k, folded o2(2) n(1)]
  have b: "n < node_total cf" "n < reserved ?o" using S by (auto simp: batch_ok_def)
  have R: "ring_at (cf_parents cf) (parent_buffer ?s) (tail_node_parents ?o) (reserved ?o)"
    "ring_at (cf_nodes cf) (node_buffer ?s) (tail_node ?o div cf_npp cf) (reserved ?o div cf_npp cf)" using I(2) by (simp_all add: orch_rings_def)
  have pid': "pid < cf_parents cf" "pid \<noteq> reserved ?o mod cf_parents cf"
    using cfg_okD(3) [OF ok] slot_neq [OF b(2)] ring_atD(3) [OF R(1)] B(10) n(1) by (auto simp: pid)
  have v0: "valid (parent_buffer ?s) ! pid = 0" using I(8) b(2) n(1) by (simp add: read_inv_def Let_def pid)
  let ?io0 = "parent_buffer_io ?s pid" and ?ns = "node_buffer_sync ?s"
  from read_parents [OF ok g S n(2,3) a(1) order.refl a(2) it R(2) pid, of ?io0 ps sy ?ns]
  obtain io ps' sy' ns' it' where T:
    "fold_result (read_parent cf rb node pid) [a..<PAGE_BATCH_SIZE] (s1, it, 0) =
      Inr (upd_slot pid io ps' sy' ns' ?s, it', length (filter (\<lambda>j. io_type (io j) = READ) [a..<PAGE_BATCH_SIZE]))"
    "walk_inv (cf_bits cf) 0 (PARENT_COUNT * n + PAGE_BATCH_SIZE + 1) it'" "parent_buf it' = buf"
    "\<And>j. a \<le> j \<Longrightarrow> j < PAGE_BATCH_SIZE \<Longrightarrow> slot_parent cf buf (written ?o) n io ps' sy' j"
    "\<And>j. io_valid (io j) = io_valid (?io0 j)" "\<And>j. j < a \<Longrightarrow> io j = ?io0 j" "ps' 0 = ps 0" "sy' 0 = sy 0"
    unfolding s1 by blast
  let ?r = "length (filter (\<lambda>j. io_type (io j) = READ) [a..<PAGE_BATCH_SIZE])"
  have r: "?r \<le> PAGE_BATCH_SIZE" using length_filter_le [of "\<lambda>j. io_type (io j) = READ" "[a..<PAGE_BATCH_SIZE]"] by simp
  have sz: "size_sub PAGE_BATCH_SIZE ?r = PAGE_BATCH_SIZE - ?r" "size_add 0 (PAGE_BATCH_SIZE - ?r) = PAGE_BATCH_SIZE - ?r"
    using r by (simp_all add: size_sub_small SIZE_MOD_def constant_defs)
  have room: "length (fifo_list (parent_read_fifo ?s)) < fifo_capacity (parent_read_fifo ?s)" and fi: "fifo_inv (parent_read_fifo ?s)"
    using I(5) b(2) n(1) by (auto simp: fifo_shape_def)
  from mt_enqueue_nocheck_room [OF fi room, of "Some pid"] obtain q where q:
    "mt_enqueue_nocheck (Some pid) (parent_read_fifo ?s) = Inr q" "fifo_inv q"
    "fifo_list q = fifo_list (parent_read_fifo ?s) @ [Some (n mod cf_parents cf)]" "fifo_capacity q = fifo_capacity (parent_read_fifo ?s)"
    unfolding pid by blast
  have eq: "finish_node cf rb node pid (node_ptr cf n) o2 a s1 it =
      Inr ((upd_slot pid io ps' sy' ns' ?s)\<lparr>parent_buffer := (parent_buffer ?s)\<lparr>valid := (valid (parent_buffer ?s))[pid := PAGE_BATCH_SIZE - ?r]\<rparr>,
        parent_read_fifo := q\<rparr>, read_next cf (node_ptr cf n) it' o2)"
    unfolding finish_node_def T(1) using ring_at_incr_valid(1) [OF R(1) pid', of "PAGE_BATCH_SIZE - ?r"] v0 sz q(1) by simp
  have ty: "io_type (io j) \<noteq> WRITE" if "j < PAGE_BATCH_SIZE" for j
  proof (cases "j < a")
    case True
    then show ?thesis using T(6) I(6) pid'(1) that by (simp add: io_static_def)
  next
    case False
    then show ?thesis using T(4) [of j] that by (auto simp: slot_parent_def Let_def)
  qed
  have po: "parent_ok cf buf (upd_slot pid io ps' sy' ns' ?s) (written ?o) n j" if st: "\<not> layer_start cf n" and j: "j < PARENT_COUNT" for j
  proof (cases j)
    case 0
    have "n < n - 1 + ring_nodes cf" using n(2) cfg_okD(5) [OF ok] npp_facts(1) [OF ok] mult_le_mono [of 2 "cf_nodes cf" 1 "cf_npp cf"] by (simp add: ring_nodes_def)
    then show ?thesis using 0 first [OF st] T(7,8) ref_parent_0 [OF g, of n] st by (simp add: parent_ok_def layer_start_def pid Let_def)
  next
    case (Suc i)
    then have "slot_parent cf buf (written ?o) n io ps' sy' i" using T(4) [of i] first [OF st] j by (simp add: constant_defs)
    from slot_parent_ok [OF this] show ?thesis unfolding Suc pid .
  qed
  have wk: "walk_inv (cf_bits cf) 0 (PARENT_COUNT * Suc n) it'" using T(2) by (simp add: constant_defs)
  have sh: "fifo_shape cf q (Suc n) (reserved ?o)" using fifo_shape_enq [OF I(5) _ _ q(2-4) [unfolded n(1)]] n b(2) by simp
  show ?thesis
  proof (rule node_resultI [where k = k and v = "PAGE_BATCH_SIZE - ?r" and q = q and io = io and ps = ps' and sy = sy' and ns = ns' and it = it'],
      unfold n(1) [symmetric] pid [symmetric])
    show "PAGE_BATCH_SIZE - ?r + length (filter (\<lambda>j. io_type (io j) = READ) [0..<PAGE_BATCH_SIZE]) = PAGE_BATCH_SIZE" if "\<not> layer_start cf n"
      using r first [OF that] by simp
    have "[0..<PAGE_BATCH_SIZE] = [0..<a] @ [a..<PAGE_BATCH_SIZE]" using a(1) upt_add_eq_append [of 0 a "PAGE_BATCH_SIZE - a"] by simp
    then have "?r \<le> length (filter (\<lambda>j. io_type (io j) = READ) [0..<PAGE_BATCH_SIZE])" by simp
    then show "PAGE_BATCH_SIZE \<le> PAGE_BATCH_SIZE - ?r + (if n = 0 then 0 else length (filter (\<lambda>j. io_type (io j) = READ) [0..<PAGE_BATCH_SIZE])) \<and>
        PAGE_BATCH_SIZE - ?r \<le> PAGE_BATCH_SIZE" using n(2) r by simp
  qed (use eq wk T(3,5) ty po sh q(3) in \<open>simp_all add: o2\<close>)
qed


lemma read_node_finish:
  assumes ok: "cfg_ok cf" and inv: "pc1_inv cf buf lab bufs st" and pc: "orch_pc (st_orch st) = ONodes"
      "rb_i (rb_locals (st_orch st)) < rb_max_batch (rb_locals (st_orch st))"
    and n: "n = node_of (st_orch st)" "0 < n" and pid: "pid = n mod cf_parents cf"
  defines "rb \<equiv> (rb_locals (st_orch st))\<lparr>cur_node_buffer_id :=
      if rb_i (rb_locals (st_orch st)) > 0 \<and> n mod cf_npp cf = 0 then rb_incr (cf_nodes cf) (cur_node_buffer_id (rb_locals (st_orch st)))
      else cur_node_buffer_id (rb_locals (st_orch st))\<rparr>"
  defines "fin \<equiv> finish_node cf rb (pi_node (parent_iter (st_orch st))) pid (node_ptr cf n) ((st_orch st)\<lparr>rb_locals := rb\<rparr>)"
  shows "read_node cf (st_sys st) (st_orch st) =
    (if layer_start cf n
     then let (s1, it1) = no_parents (cf_bits cf) pid [0..<PARENT_COUNT_BASE + 1] (st_sys st, parent_iter (st_orch st)) in fin PARENT_COUNT_BASE s1 it1
     else fin 0 (set_parent pid 0 (prev_hashed_node (st_orch st)) LOCAL_NODE (st_sys st)) (parent_iter_next (cf_bits cf) (parent_iter (st_orch st))))"
proof -
  let ?o = "st_orch st" and ?w = "pi_node (parent_iter (st_orch st))"
  note I = pc1_invD [OF inv] and B = orch_baseD [OF pc1_invD(1) [OF inv]] and P = pc1_bounds [OF pc1_invD(1) [OF inv]]
  note S = read_node_setup [OF ok I(1,4,2) pc, folded n(1)]
  have u: "unat ?w = n" by (simp add: n(1) node_of_def)
  have w0: "?w \<noteq> 0" using u n(2) by (metis less_numeral_extra(3) unat_0)
  have ls: "node_id_node (cf_bits cf) ?w = 0 \<longleftrightarrow> layer_start cf n" using node_node(2) [OF ok, of ?w] P(2) u n(1) by (simp add: layer_start_def)
  have pg: "unat (node_id_node (cf_bits cf) ?w) mod cf_npp cf = n mod cf_npp cf" using node_in_page [OF ok, of ?w] u by simp
  have pp: "pi_parent (parent_iter ?o) = 0" using B(2) by (simp add: walk_inv_def word_unat_eq_iff)
  have id: "parent_buffer_id (rb_locals ?o) = pid" using S(3) by (simp add: batch_ok_def pid)
  show ?thesis
    unfolding read_node_def Let_def fin_def finish_node_def rb_def
    using S(1,2) by (simp add: pg w0 ls pp id pid node_ptr_def assert_that_def split_beta)
qed

lemma read_node_result:
  assumes ok: "cfg_ok cf" and g: "graph_ok cf buf" and inv: "pc1_inv cf buf lab bufs st" and pc: "orch_pc (st_orch st) = ONodes"
      "rb_i (rb_locals (st_orch st)) < rb_max_batch (rb_locals (st_orch st))"
  shows "node_result cf buf (st_sys st) (st_orch st) (read_node cf (st_sys st) (st_orch st))"
proof (cases "node_of (st_orch st) = 0")
  case False
  let ?o = "st_orch st" and ?s = "st_sys st" and ?it = "parent_iter (st_orch st)"
  define n where "n = node_of ?o"
  define pid where "pid = n mod cf_parents cf"
  have n: "0 < n" "unat (pi_node ?it) = n" using False by (simp_all add: n_def node_of_def)
  note I = pc1_invD [OF inv] and B = orch_baseD [OF pc1_invD(1) [OF inv], folded n_def]
  note eq = read_node_finish [OF ok inv pc n_def n(1) pid_def] and fin = finish_node_result [OF ok g inv pc n_def n pid_def HOL.refl HOL.refl]
  have nt: "n < node_total cf" using read_node_setup(3) [OF ok I(1,4,2) pc] by (auto simp: batch_ok_def n_def)
  then have "PARENT_COUNT * Suc n \<le> PARENT_COUNT * node_total cf" by (intro mult_le_mono2) simp
  then have le: "PARENT_COUNT * n + length [0..<PARENT_COUNT_BASE + 1] \<le> PARENT_COUNT * node_total cf"
    "PARENT_COUNT * n < PARENT_COUNT * node_total cf" by (simp_all add: constant_defs)
  note self = upd_slot_self [of ?s pid]
  show ?thesis
  proof (cases "layer_start cf n")
    case True
    from no_parents_slot [OF ok B(2) le(1), of pid, where s = ?s and io = "parent_buffer_io ?s pid" and ?ps0.0 = "parent_ptrs ?s pid" and
      ?sy0.0 = "parent_ptr_syncs ?s pid" and ns = "node_buffer_sync ?s"] B(3)
    obtain ps sy it' where N: "no_parents (cf_bits cf) pid [0..<PARENT_COUNT_BASE + 1] (?s, ?it) =
        (upd_slot pid (parent_buffer_io ?s pid) ps sy (node_buffer_sync ?s) ?s, it')"
      "walk_inv (cf_bits cf) 0 (PARENT_COUNT * n + PARENT_COUNT_BASE + 1) it'" "parent_buf it' = buf"
      unfolding upd_slot_self [symmetric] by auto
    show ?thesis unfolding eq N(1)
      using fin [OF _ _ N(2,3) HOL.refl] True by (simp add: constant_defs)
  next
    case False
    have "set_parent pid 0 (prev_hashed_node ?o) LOCAL_NODE ?s =
        upd_slot pid (parent_buffer_io ?s pid) ((parent_ptrs ?s pid)(0 := prev_hashed_node ?o))
          ((parent_ptr_syncs ?s pid)(0 := LOCAL_NODE)) (node_buffer_sync ?s) ?s"
      by (subst self) (simp add: set_parent_slot)
    moreover have "walk_inv (cf_bits cf) 0 (PARENT_COUNT * n + 0 + 1) (parent_iter_next (cf_bits cf) ?it)" using walk_next [OF ok B(2) le(2)] by simp
    ultimately show ?thesis unfolding eq using fin [where a = 0] B(3) B(4) n False by simp
  qed
qed (rule read_node_first [OF ok inv pc])


lemma next_locals:
  fixes k :: nat and p :: parent_ptr_t
  assumes ok: "cfg_ok cf" and loc: "orch_locals cf o1" and pc: "orch_pc o1 = ONodes" "rb_i (rb_locals o1) < rb_max_batch (rb_locals o1)"
    and nd: "unat (pi_node it) = Suc (node_of o1)"
  defines "o2 \<equiv> read_next cf p it (o1\<lparr>rb_locals := (rb_locals o1)\<lparr>cur_node_buffer_id := k\<rparr>\<rparr>)"
  shows "node_of o2 = Suc (node_of o1)" "reserved o2 = reserved o1" "orch_locals cf o2"
proof -
  note L = orch_localsD [OF loc pc(1)]
  show n2: "node_of o2 = Suc (node_of o1)" using nd by (simp add: o2_def read_next_def node_of_def Let_def)
  show "reserved o2 = reserved o1" unfolding reserved_def n2 using pc by (simp add: o2_def read_next_def Let_def)
  have "rb_incr (cf_parents cf) (node_of o1 mod cf_parents cf) = Suc (node_of o1) mod cf_parents cf"
    using rb_incr_mod [OF cfg_okD(3,4) [OF ok]] .
  then show "orch_locals cf o2"
    unfolding orch_locals_def n2 Let_def using L pc by (simp add: o2_def read_next_def Let_def)
qed

lemma orch_nodes_step:
  assumes ok: "cfg_ok cf" and g: "graph_ok cf buf" and inv: "pc1_inv cf buf lab bufs st" and pc: "orch_pc (st_orch st) = ONodes"
  shows "orch_result cf buf lab bufs st (orch_nodes cf (st_sys st) (st_orch st))"
proof (cases "rb_i (rb_locals (st_orch st)) < rb_max_batch (rb_locals (st_orch st))")
  case True
  let ?o = "st_orch st" and ?s = "st_sys st"
  define n where "n = node_of ?o"
  define pid where "pid = n mod cf_parents cf"
  define R where "R = reserved ?o"
  from read_node_result [OF ok g inv pc True] obtain io ps sy ns it q v k where N:
    "read_node cf ?s ?o = Inr ((upd_slot pid io ps sy ns ?s)\<lparr>parent_buffer := (parent_buffer ?s)\<lparr>valid := (valid (parent_buffer ?s))[pid := v]\<rparr>,
        parent_read_fifo := q\<rparr>, read_next cf (node_ptr cf n) it (?o\<lparr>rb_locals := (rb_locals ?o)\<lparr>cur_node_buffer_id := k\<rparr>\<rparr>))"
    "walk_inv (cf_bits cf) 0 (PARENT_COUNT * Suc n) it" "parent_buf it = buf"
    "\<And>j. io_valid (io j) = io_valid (parent_buffer_io ?s pid j)" "\<And>j. j < PAGE_BATCH_SIZE \<Longrightarrow> io_type (io j) \<noteq> WRITE"
    "\<And>j. \<not> layer_start cf n \<Longrightarrow> j < PARENT_COUNT \<Longrightarrow> parent_ok cf buf (upd_slot pid io ps sy ns ?s) (written ?o) n j"
    "\<not> layer_start cf n \<Longrightarrow> v + length (filter (\<lambda>j. io_type (io j) = READ) [0..<PAGE_BATCH_SIZE]) = PAGE_BATCH_SIZE"
    "fifo_shape cf q (Suc n) R" "length (fifo_list (parent_read_fifo ?s)) \<le> length (fifo_list q)"
    "length (fifo_list q) = Suc (length (fifo_list (parent_read_fifo ?s))) \<or> n = 0 \<and> length (fifo_list q) = 0"
    "layer_start cf n \<Longrightarrow> PAGE_BATCH_SIZE \<le> v + (if n = 0 then 0 else length (filter (\<lambda>j. io_type (io j) = READ) [0..<PAGE_BATCH_SIZE])) \<and> v \<le> PAGE_BATCH_SIZE"
    unfolding node_result_def Let_def n_def [symmetric] pid_def [symmetric] R_def [symmetric] by blast
  note I = pc1_invD [OF inv, folded n_def R_def] and B = orch_baseD [OF pc1_invD(1) [OF inv], folded n_def R_def]
  note M = orch_minsD [OF pc1_invD(3) [OF inv], folded n_def]
  have nd: "unat (pi_node it) = Suc (node_of ?o)" using N(2) by (simp add: walk_inv_def n_def constant_defs)
  define o2 where "o2 = read_next cf (node_ptr cf n) it (?o\<lparr>rb_locals := (rb_locals ?o)\<lparr>cur_node_buffer_id := k\<rparr>\<rparr>)"
  define b where "b = (parent_buffer ?s)\<lparr>valid := (valid (parent_buffer ?s))[pid := v]\<rparr>"
  define s2 where "s2 = (upd_slot pid io ps sy ns ?s)\<lparr>parent_buffer := b, parent_read_fifo := q\<rparr>"
  note X = next_locals [OF ok I(4) pc True nd, of "node_ptr cf n" k, folded o2_def n_def R_def]
  have o2: "written o2 = written ?o" "writing o2 = writing ?o" "tail_node_parents o2 = tail_node_parents ?o" "tail_node o2 = tail_node ?o"
    "orch_pc o2 = ONodes" "min_node_hash o2 = min_node_hash ?o" using pc by (simp_all add: o2_def read_next_def Let_def)
  have R: "ring_at (cf_parents cf) (parent_buffer ?s) (tail_node_parents ?o) R"
    "ring_at (cf_nodes cf) (node_buffer ?s) (tail_node ?o div cf_npp cf) (R div cf_npp cf)" using I(2) by (simp_all add: orch_rings_def R_def)
  have nR: "n < R" using read_node_setup(3) [OF ok I(1,4,2) pc True] by (auto simp: batch_ok_def n_def R_def)
  have pos: "tail_node_parents ?o \<le> n" "R < tail_node_parents ?o + cf_parents cf" using B(10) ring_atD(3) [OF R(1)] by simp_all
  have pid': "pid \<noteq> R mod cf_parents cf" unfolding pid_def using slot_neq [OF nR] pos by auto
  have len: "length (valid (parent_buffer ?s)) = cf_parents cf" using ring_atD(8) [OF R(1)] .
  have "pc1_inv cf buf lab bufs (st\<lparr>st_sys := s2, st_orch := o2\<rparr>)"
  proof (rule pc1_invI_orch [OF X(1,2)])
    show "orch_base cf buf o2"
      using I(1) X(1,2) N(2,3) B(9,10) unfolding orch_base_def by (simp add: o2_def read_next_def Let_def n_def R_def)
    show "orch_rings cf s2 o2" using R ring_at_set_valid [OF R(1) pid', of v] unfolding orch_rings_def X(2) o2 by (simp add: s2_def b_def)
    show "orch_mins cf (coordinator_node s2) o2"
      using M(1-4,6) pc unfolding orch_mins_def o2 X(1) by (simp add: s2_def le_SucI)
    show "orch_locals cf o2" "fifo_shape cf (parent_read_fifo s2) (Suc n) R" using X(3) N(8) by (simp_all add: s2_def)
    show "io_static cf s2" using io_static_slot [OF I(6) N(4,5)] by (simp add: s2_def)
    have "n < tail_node_parents ?o + cf_parents cf" using nR pos by linarith
    then show "desc_inv cf buf s2 (written o2) (tail_node_parents o2) (Suc n)"
      "coords_inv cf buf lab bufs (parent_buffer s2) (coordinator_node s2) (tail_node_parents o2) (Suc n) (st_coords st)"
      using desc_inv_node [OF I(7) _ pid_def N(6)] coords_inv_node [OF I(9), of b v] M(1,3) I(9)
      by (simp_all add: s2_def o2 b_def pid_def coords_inv_def)
    show "read_inv cf buf lab s2 (rw_inflight (st_reader st)) (tail_node_parents o2) (Suc n) R"
      unfolding s2_def o2 by (rule read_inv_node [OF I(8) pos(1) nR pos(2) I(5) ok pid_def _ len N(10) N(7) N(11)]) (simp_all add: b_def)
    show "todo_inv (st\<lparr>st_sys := s2\<rparr>)" using I(13) N(9) by (simp add: todo_inv_def s2_def)
  qed (use I in \<open>simp_all add: s2_def o2 upd_slot_def\<close>)
  then show ?thesis unfolding orch_nodes_def using True N(1) by (simp add: orch_result_def s2_def o2_def b_def)
qed (rule orch_nodes_leave [OF inv pc])

end
