(* ===== verification/PC1_Orch_Release.thy ===== *)
theory PC1_Orch_Release
  imports PC1_Orch_Step
begin

text \<open>
  The steps of the orchestrator that hand hashed pages to the writer, follow the
  completed writes and release parent slots and node pages keep the invariant
  of PC1.
\<close>

section \<open>Counters over the node buffer\<close>

lemma counter_add_ring:
  assumes ok: "cfg_ok cf" and x: "rc_idx c = rc_abs c mod ring_nodes cf" "rc_abs c \<le> node_total cf" and k: "k \<le> cf_npp cf"
  shows "rc_abs (counter_add (ring_nodes cf) k c) = rc_abs c + k"
    "rc_idx (counter_add (ring_nodes cf) k c) = (rc_abs c + k) mod ring_nodes cf"
proof -
  let ?R = "ring_nodes cf"
  have k2: "k \<le> ?R" using k cfg_okD(5) [OF ok] by (simp add: ring_nodes_def le_trans [OF k])
  have b: "?R < 2 ^ 63" "0 < ?R" "rc_abs c mod ?R < ?R" using ring_nodes_bound [OF ok] by simp_all
  have "rc_abs c + k < SIZE_MOD" using x(2) node_total_bound [OF ok] k npp_facts(3) [OF ok] by (simp add: SIZE_MOD_def)
  then show "rc_abs (counter_add ?R k c) = rc_abs c + k" by (simp add: counter_add_def Let_def)
  have s: "size_add (rc_abs c mod ?R) k = rc_abs c mod ?R + k" using b k2 by (simp add: SIZE_MOD_def)
  have d: "size_sub (rc_abs c mod ?R + k) ?R = rc_abs c mod ?R + k - ?R" if "?R \<le> rc_abs c mod ?R + k"
    using that b k2 by (intro size_sub_small) (simp_all add: SIZE_MOD_def)
  have "(rc_abs c + k) mod ?R = (rc_abs c mod ?R + k) mod ?R" by (simp add: mod_add_left_eq)
  also have "\<dots> = (if ?R \<le> rc_abs c mod ?R + k then rc_abs c mod ?R + k - ?R else rc_abs c mod ?R + k)"
    using b k2 by (auto simp: mod_if [of "rc_abs c mod ?R + k" ?R])
  finally show "rc_idx (counter_add ?R k c) = (rc_abs c + k) mod ?R"
    by (simp add: counter_add_def Let_def x(1) s d)
qed

lemma page_next:
  assumes "0 < p" "p dvd (a :: nat)" "a div p < b div p"
  shows "a + p \<le> b"
proof -
  have "(a div p + 1) * p \<le> b div p * p" using assms(3) by (intro mult_le_mono1) simp
  also have "\<dots> \<le> b" by simp
  finally show ?thesis using assms(2) by simp
qed


section \<open>Writes\<close>

lemma write_inv_enqueue:
  assumes inv: "write_inv cf lab d s ws lo hi res" and pos: "lo \<le> hi" "hi < res" "res < lo + cf_nodes cf"
    and q: "fifo_inv q" "fifo_list q = fifo_list (node_write_fifo s) @ [Some (hi mod cf_nodes cf)]"
      "fifo_capacity q = fifo_capacity (node_write_fifo s)"
    and i: "i = hi mod cf_nodes cf"
  shows "write_inv cf lab d (s\<lparr>node_buffer_io := (node_buffer_io s)(i := (node_buffer_io s i)
      (0 := (node_buffer_io s i 0)\<lparr>io_node := word_of_nat (hi * cf_npp cf)\<rparr>)), node_write_fifo := q\<rparr>) ws lo (Suc hi) res"
    (is "write_inv _ _ _ ?s2 _ _ _ _")
proof -
  note W = write_invD [OF inv]
  let ?is = "hi - length (fifo_list (node_write_fifo s))"
  have iss: "Suc hi - length (fifo_list q) = ?is" "?is \<le> hi" by (simp_all add: q(2))
  have io: "io_node (node_buffer_io ?s2 (n mod cf_nodes cf) 0) = word_of_nat (n * cf_npp cf)" if "lo \<le> n" "n < Suc hi" for n
  proof (cases "n = hi")
    case False
    then have "n mod cf_nodes cf \<noteq> i" using write_slot_inj [of n cf hi lo res] that pos i by auto
    then show ?thesis using W(5) [of n] that False by simp
  qed (simp add: i)
  show ?thesis
  proof (rule write_invI [where issued = ?is])
    show "fifo_list (node_write_fifo ?s2) = map (\<lambda>n. Some (n mod cf_nodes cf)) [?is..<Suc hi]"
      using W(4) iss(2) q(2) by simp
    show "length (fifo_list (node_write_fifo ?s2)) \<le> Suc hi - lo" using W(3) q(2) pos(1) by simp
  qed (use W q iss io in simp_all)
qed

lemma io_static_node: "io_static cf s \<Longrightarrow> io_static cf (s\<lparr>node_buffer_io := (node_buffer_io s)(i := (node_buffer_io s i)
      (0 := (node_buffer_io s i 0)\<lparr>io_node := w\<rparr>))\<rparr>)"
  by (auto simp: io_static_def)

lemma orch_writes_step:
  assumes ok: "cfg_ok cf" and inv: "pc1_inv cf buf lab bufs st" and pc: "orch_pc (st_orch st) = OWrites a"
  shows "orch_result cf buf lab bufs st (orch_writes cf a (st_sys st) (st_orch st))"
proof -
  let ?o = "st_orch st" and ?s = "st_sys st" and ?npp = "cf_npp cf"
  note I = pc1_invD [OF inv] and B = orch_baseD [OF pc1_invD(1) [OF inv]] and M = orch_minsD [OF pc1_invD(3) [OF inv]]
  note P = pc1_bounds [OF pc1_invD(1) [OF inv]]
  define hi where "hi = writing ?o div ?npp"
  have hw: "hi * ?npp = writing ?o" using B(12) by (simp add: hi_def)
  have r: "reserved ?o = node_of ?o" using pc by (simp add: reserved_node)
  have idx: "counter_idx ?npp (head_node_write ?o) = hi mod cf_nodes cf"
    using B(14) mod_ring_nodes(1) [OF ok] by (simp add: counter_idx_def hi_def node_slot_def)
  have c0: "counter_add (ring_nodes cf) 0 (head_node_write ?o) = head_node_write ?o"
    by (rule ring_counter_t.equality) (use counter_add_ring [OF ok B(14) P(3), of 0] B(14) in simp_all)
  have stay: "orch_result cf buf lab bufs st (Inr (?s, ?o\<lparr>orch_pc := p\<rparr>))" if "p \<noteq> ONodes" "\<And>i. p \<noteq> OMin i" for p
    using orch_move(1) [OF inv, of p] pc r that by simp
  have out: "size_add (outstanding_writes ?o) k = outstanding_writes ?o + k" if "k \<le> 1" for k
  proof -
    have "outstanding_writes ?o \<le> node_total cf" unfolding B(15) using P(3) div_le_dividend [of "writing ?o - written ?o" ?npp] by linarith
    then have "outstanding_writes ?o + k < SIZE_MOD" using that node_total_bound [OF ok] by (simp add: SIZE_MOD_def)
    then show ?thesis by simp
  qed
  have W0: "write_action cf ?s ?o = Inr (?s, ?o)" if "write_nodes cf ?s ?o = Inr (0, ?s)"
    using out [of 0] by (simp add: write_action_def that c0)
  show ?thesis
  proof (cases "a > 0 \<and> writing ?o < min_node_hash ?o \<and> writing ?o div ?npp < min_node_hash ?o div ?npp \<and> \<not> fifo_is_full (node_write_fifo ?s)")
    case False
    then have "a > 0 \<and> writing ?o < min_node_hash ?o \<Longrightarrow> write_nodes cf ?s ?o = Inr (0, ?s)"
      by (auto simp: write_nodes_def Let_def)
    then show ?thesis
      using stay [of "OWrites (a - 1)"] stay [of "OParents ACTION_BATCH"] W0 by (simp add: orch_writes_def)
  next
    case True
    note W = write_invD [OF I(11)]
    have ring: "ring_at (cf_nodes cf) (node_buffer ?s) (tail_node ?o div ?npp) (node_of ?o div ?npp)"
      using I(2) r by (simp add: orch_rings_def)
    have mnh: "min_node_hash ?o \<le> coordinator_node ?s ! k" if "k < length (coordinator_node ?s)" for k using M(6) that pc by simp
    have n0: "0 < length (coordinator_node ?s)" using M(1) cfg_okD(14) [OF ok] by simp
    have nxt: "writing ?o + ?npp \<le> min_node_hash ?o" using page_next [OF npp_facts(1) [OF ok] B(12)] True by blast
    from nxt have nx: "writing ?o + ?npp \<le> node_of ?o" using mnh [OF n0] M(4) [OF n0] by linarith
    have hi: "(writing ?o + ?npp) div ?npp = Suc hi" using npp_facts(1) [OF ok] by (simp add: hi_def div_add_self2)
    have pos: "written ?o div ?npp \<le> hi" "hi < node_of ?o div ?npp" "node_of ?o div ?npp < written ?o div ?npp + cf_nodes cf"
      using div_le_mono [OF B(8), of ?npp] div_le_mono [OF nx, of ?npp] hi ring_atD(3) [OF ring] div_le_mono [OF B(7), of ?npp]
      by (simp_all add: hi_def)
    have v: "valid (node_buffer ?s) ! (hi mod cf_nodes cf) = 0" using W(9) [of hi] pos(2) r by (simp add: hi_def)
    have "length (fifo_list (node_write_fifo ?s)) \<noteq> fifo_capacity (node_write_fifo ?s)"
      using True fifo_is_full_iff [OF W(1)] by simp
    from mtq.enq_room [OF W(1) this, of "Some (hi mod cf_nodes cf)"] obtain q where
      q: "mt_enqueue (Some (hi mod cf_nodes cf)) (node_write_fifo ?s) = Inr q" "fifo_inv q"
        "fifo_list q = fifo_list (node_write_fifo ?s) @ [Some (hi mod cf_nodes cf)]"
        "fifo_capacity q = fifo_capacity (node_write_fifo ?s)" by blast
    define s1 where "s1 = ?s\<lparr>node_buffer_io := (node_buffer_io ?s)(hi mod cf_nodes cf := (node_buffer_io ?s (hi mod cf_nodes cf))
      (0 := (node_buffer_io ?s (hi mod cf_nodes cf) 0)\<lparr>io_node := word_of_nat (hi * ?npp)\<rparr>))\<rparr>"
    have ln: "hi mod cf_nodes cf < length (valid (node_buffer ?s))" using ring_atD(8,9) [OF ring] by simp
    define hw' where "hw' = counter_add (ring_nodes cf) ?npp (head_node_write ?o)"
    define o2 where "o2 = ?o\<lparr>head_node_write := hw', outstanding_writes := outstanding_writes ?o + 1, orch_pc := OWrites (a - 1)\<rparr>"
    define s2 where "s2 = s1\<lparr>node_write_fifo := q\<rparr>"
    have "write_nodes cf ?s ?o = Inr (?npp, s2)"
      using True v ln q(1) unfolding write_nodes_def Let_def idx s2_def
      by (simp add: s1_def hw assert_that_def)
    then have eq: "orch_writes cf a ?s ?o = Inr (s2, o2)"
      using True out [of 1] npp_facts(1) [OF ok] by (simp add: orch_writes_def write_action_def o2_def hw'_def)
    have H: "rc_abs hw' = writing ?o + ?npp" "rc_idx hw' = (writing ?o + ?npp) mod ring_nodes cf"
      using counter_add_ring [OF ok B(14) P(3), of ?npp] by (simp_all add: hw'_def)
    have o2: "node_of o2 = node_of ?o" "reserved o2 = node_of ?o" by (simp_all add: o2_def node_of_def reserved_def)
    have "pc1_inv cf buf lab bufs (st\<lparr>st_sys := s2, st_orch := o2\<rparr>)"
    proof (rule pc1_invI_orch [OF o2])
      have "writing ?o + ?npp - written ?o = (writing ?o - written ?o) + ?npp" using B(8) by linarith
      moreover have "((writing ?o - written ?o) + ?npp) div ?npp = outstanding_writes ?o + 1"
        unfolding B(15) by (rule div_add_self2) (use npp_facts(1) [OF ok] in simp)
      ultimately have "(writing ?o + ?npp - written ?o) div ?npp = outstanding_writes ?o + 1" by (simp only:)
      then show "orch_base cf buf o2" using I(1) H nx B(8,12) r o2 unfolding orch_base_def by (simp add: o2_def)
      show "orch_rings cf s2 o2" using I(2) r o2 unfolding orch_rings_def by (simp add: s2_def s1_def o2_def)
      have "writing ?o + ?npp \<le> coordinator_node ?s ! k" if "k < length (coordinator_node ?s)" for k
        using mnh [OF that] nxt by linarith
      then show "orch_mins cf (coordinator_node s2) o2"
        using M(1-4) mnh H o2 unfolding orch_mins_def by (simp add: s2_def s1_def o2_def)
      show "orch_locals cf o2" by (simp add: orch_locals_def o2_def)
      show "io_static cf s2" using io_static_node [OF I(6)] by (simp add: s2_def s1_def)
      have "write_inv cf lab (st_disk st) s2 (rw_inflight (st_writer st)) (written ?o div ?npp) (Suc hi) (node_of ?o div ?npp)"
        unfolding s2_def s1_def by (rule write_inv_enqueue) (use I(11) pos q r in \<open>simp_all add: hi_def\<close>)
      then show "write_inv cf lab (st_disk st) s2 (rw_inflight (st_writer st)) (written o2 div ?npp) (writing o2 div ?npp) (node_of ?o div ?npp)"
        using hi H by (simp add: o2_def)
      show "todo_inv (st\<lparr>st_sys := s2\<rparr>)" using I(13) q(3) by (simp add: todo_inv_def s2_def s1_def)
    qed (use I r in \<open>simp_all add: s2_def s1_def o2_def\<close>)
    then show ?thesis using eq by (simp add: orch_result_def)
  qed
qed


section \<open>Releasing parents\<close>

lemma fold_add_consumed:
  "\<exists>x. fold (\<lambda>j s. add_consumed (parent_ptr_syncs s t j) s) js s = s\<lparr>node_buffer_sync := x\<rparr>"
proof (induction js arbitrary: s)
  case Nil
  show ?case by (intro exI [of _ "node_buffer_sync s"]) simp
next
  case (Cons j js)
  have "\<exists>y. add_consumed (parent_ptr_syncs s t j) s = s\<lparr>node_buffer_sync := y\<rparr>"
    unfolding add_consumed_def Let_def by (cases "is_node_buffer (parent_ptr_syncs s t j)") (auto intro: exI [of _ "node_buffer_sync s"])
  then obtain y where "add_consumed (parent_ptr_syncs s t j) s = s\<lparr>node_buffer_sync := y\<rparr>" by blast
  with Cons.IH [of "s\<lparr>node_buffer_sync := y\<rparr>"] show ?case by auto
qed

lemma read_inv_release:
  assumes inv: "read_inv cf buf lab s rs lo node res" and lo: "lo < node"
    and v: "\<not> layer_start cf lo \<Longrightarrow> PAGE_BATCH_SIZE \<le> valid (parent_buffer s) ! (lo mod cf_parents cf)"
    and b: "valid b = valid (parent_buffer s)"
  shows "read_inv cf buf lab (s\<lparr>parent_buffer := b\<rparr>) rs (Suc lo) node res"
proof -
  let ?is = "node - length (fifo_list (parent_read_fifo s))" and ?i = "lo mod cf_parents cf"
  have S: "slot_inv cf buf lab s rs ?is n" if "lo \<le> n" "n < node" "\<not> layer_start cf n" for n
    using inv that by (simp add: read_inv_def Let_def)
  have z: "(if lo < ?is then pending rs ?i else reads_of s ?i) = 0" if "\<not> layer_start cf lo"
    using S [of lo] v that lo unfolding slot_inv_def Let_def by linarith
  have "req_ok cf (Suc lo) ?is res r" if r: "r \<in> set rs" for r
  proof -
    have "req_ok cf lo ?is res r" using inv r by (simp add: read_inv_def Let_def)
    then obtain n where n: "rq_j r < PAGE_BATCH_SIZE" "rq_type r = READ" "rq_slot r = n mod cf_parents cf" "n < ?is"
      "res < n + cf_parents cf" "layer_start cf n \<or> lo \<le> n" by (auto simp: req_ok_def)
    have "n \<noteq> lo" if "\<not> layer_start cf n"
    proof
      assume "n = lo"
      then have "pending rs ?i = 0" using z that n(4) by auto
      then show False using r n(3) \<open>n = lo\<close> by (auto simp: pending_def filter_empty_conv)
    qed
    with n show ?thesis unfolding req_ok_def by (metis Suc_leI le_neq_implies_less)
  qed
  moreover have "reads_of s (n mod cf_parents cf) = 0" if "?is \<le> n" "n < Suc lo" "\<not> layer_start cf n" for n
    using inv z that by (cases "n = lo") (auto simp: read_inv_def Let_def)
  moreover have "start_inv cf (s\<lparr>parent_buffer := b\<rparr>) rs ?is n = start_inv cf s rs ?is n" for n by (simp add: start_inv_def b)
  ultimately show ?thesis using inv S by (simp add: read_inv_def Let_def b slot_inv_valid)
qed

lemma coord_link_release: "coord_link cf rb cn lo node c \<Longrightarrow> valid b = valid rb \<Longrightarrow> coord_link cf b cn (Suc lo) node c"
  by (auto simp: coord_link_def)

lemma orch_parents_step:
  assumes ok: "cfg_ok cf" and inv: "pc1_inv cf buf lab bufs st" and pc: "orch_pc (st_orch st) = OParents a"
  shows "orch_result cf buf lab bufs st (Inr (orch_parents cf a (st_sys st) (st_orch st)))"
proof -
  let ?o = "st_orch st" and ?s = "st_sys st" and ?npp = "cf_npp cf" and ?cs = "st_coords st"
  let ?lo = "tail_node_parents ?o"
  note I = pc1_invD [OF inv] and B = orch_baseD [OF pc1_invD(1) [OF inv]] and M = orch_minsD [OF pc1_invD(3) [OF inv]]
  note P = pc1_bounds [OF pc1_invD(1) [OF inv]]
  have r: "reserved ?o = node_of ?o" using pc by (simp add: reserved_node)
  show ?thesis
  proof (cases "a > 0 \<and> ?lo < min_node_hash ?o")
    case False
    then show ?thesis using orch_move(1) [OF inv, of "OWritten ACTION_BATCH"] pc r by (auto simp: orch_parents_def)
  next
    case True
    have lo: "?lo < coordinator_node ?s ! k" if "k < length (coordinator_node ?s)" for k using M(6) that pc True by fastforce
    have n0: "0 < length (coordinator_node ?s)" using M(1) cfg_okD(14) [OF ok] by simp
    then have ln: "?lo < node_of ?o" using lo [OF n0] M(4) [OF n0] by linarith
    have ring: "ring_at (cf_parents cf) (parent_buffer ?s) ?lo (node_of ?o)" using I(2) r by (simp add: orch_rings_def)
    note rel = ring_at_release [OF ring ln]
    obtain x where x: "fold (\<lambda>j s. add_consumed (parent_ptr_syncs s (rb_tail (parent_buffer ?s)) j) s) [0..<PARENT_PTR_BATCH_SIZE] ?s
        = ?s\<lparr>node_buffer_sync := x\<rparr>" using fold_add_consumed by blast
    define b where "b = release (cf_parents cf) (parent_buffer ?s)"
    define s2 where "s2 = ?s\<lparr>node_buffer_sync := x, parent_buffer := b\<rparr>"
    define o2 where "o2 = ?o\<lparr>tail_node_parents := Suc ?lo, orch_pc := OParents (a - 1)\<rparr>"
    have "size_add ?lo 1 = Suc ?lo" using ln P(2) node_total_bound [OF ok] by (simp add: SIZE_MOD_def)
    then have eq: "orch_parents cf a ?s ?o = (s2, o2)"
      using True by (simp add: orch_parents_def release_parent_def x Let_def s2_def o2_def b_def)
    have o2: "node_of o2 = node_of ?o" "reserved o2 = node_of ?o" by (simp_all add: o2_def node_of_def reserved_def)
    have cs: "length ?cs = length (coordinator_node ?s)" using I(9) M(1) by (simp add: coords_inv_def)
    have v: "PAGE_BATCH_SIZE \<le> valid (parent_buffer ?s) ! (?lo mod cf_parents cf)" if "\<not> layer_start cf ?lo"
    proof -
      have C: "coord_inv cf buf lab bufs 0 (?cs ! 0)" "coord_link cf (parent_buffer ?s) (coordinator_node ?s ! 0) ?lo (node_of ?o) (?cs ! 0)"
        using I(9) n0 cs by (simp_all add: coords_inv_def)
      have "?lo < copied (?cs ! 0)"
        using lo [OF n0] coord_linkD(1) [OF C(2)] coord_invD(9) [OF C(1)] next_valid_le [OF C(1)] by linarith
      then show ?thesis using coord_linkD(3) [OF C(2)] that by simp
    qed
    have "pc1_inv cf buf lab bufs (st\<lparr>st_sys := s2, st_orch := o2\<rparr>)"
    proof (rule pc1_invI_orch [OF o2])
      show "orch_base cf buf o2" using I(1) ln r o2 unfolding orch_base_def by (simp add: o2_def)
      show "orch_rings cf s2 o2" using I(2) r o2 rel(1) unfolding orch_rings_def by (simp add: s2_def o2_def b_def)
      show "orch_mins cf (coordinator_node s2) o2"
        using M(1-4,6) lo pc o2 unfolding orch_mins_def by (simp add: s2_def o2_def Suc_le_eq)
      show "orch_locals cf o2" by (simp add: orch_locals_def o2_def)
      show "desc_inv cf buf s2 (written o2) (tail_node_parents o2) (node_of ?o)"
        using I(7) by (simp add: s2_def o2_def desc_inv_def parent_ok_def Let_def)
      show "read_inv cf buf lab s2 (rw_inflight (st_reader st)) (tail_node_parents o2) (node_of ?o) (node_of ?o)"
        unfolding s2_def o2_def using read_inv_release [of cf buf lab "?s\<lparr>node_buffer_sync := x\<rparr>"] I(8) ln v rel(2) r
        by (simp add: b_def)
      show "coords_inv cf buf lab bufs (parent_buffer s2) (coordinator_node s2) (tail_node_parents o2) (node_of ?o) ?cs"
        using I(9) coord_link_release [OF _ rel(2)] unfolding coords_inv_def by (simp add: s2_def o2_def b_def)
      show "todo_inv (st\<lparr>st_sys := s2\<rparr>)" using I(13) by (simp add: todo_inv_def s2_def)
    qed (use I r in \<open>simp_all add: s2_def o2_def\<close>)
    then show ?thesis using eq by (simp add: orch_result_def)
  qed
qed


section \<open>Completed writes\<close>

lemma write_inv_written:
  assumes inv: "write_inv cf lab d s ws lo hi res" and pos: "lo < hi" "hi \<le> res"
    and v: "valid (node_buffer s) ! (lo mod cf_nodes cf) \<noteq> 0"
  shows "write_inv cf lab d s ws (Suc lo) hi res" "n div cf_npp cf = lo \<Longrightarrow> disk_ok cf lab d n"
proof -
  note W = write_invD [OF inv]
  let ?is = "hi - length (fifo_list (node_write_fifo s))"
  have iss: "lo < ?is" using W(9) [of lo] v pos by (meson leI le_trans less_imp_le)
  then show "n div cf_npp cf = lo \<Longrightarrow> disk_ok cf lab d n" using W(8) [of lo] v by blast
  have "write_req_ok cf lab d (node_buffer s) (Suc lo) ?is r" if "r \<in> set ws" for r
  proof -
    from W(6) [OF that] obtain q where q: "rq_j r = 0" "rq_type r = WRITE" "lo \<le> q" "q < ?is" "rq_slot r = q mod cf_nodes cf"
      "rq_ctrl r = page_ctrl cf (q * cf_npp cf)" "rq_block r = page_block cf (q * cf_npp cf)"
      "rq_done r \<longrightarrow> (\<forall>n. n div cf_npp cf = q \<longrightarrow> disk_ok cf lab d n)" "valid (node_buffer s) ! rq_slot r = 0"
      by (auto simp: write_req_ok_def)
    have "q \<noteq> lo" using q(5,9) v by auto
    with q show ?thesis unfolding write_req_ok_def by (metis Suc_leI le_neq_implies_less)
  qed
  moreover have "length (fifo_list (node_write_fifo s)) \<le> hi - Suc lo" using iss by linarith
  ultimately show "write_inv cf lab d s ws (Suc lo) hi res"
  proof (intro write_invI [where issued = ?is])
    fix p n assume "Suc lo \<le> p" "p < ?is" "valid (node_buffer s) ! (p mod cf_nodes cf) \<noteq> 0" "n div cf_npp cf = p"
    then show "disk_ok cf lab d n" using W(8) [of p n] by linarith
  qed (use W(1-5,7,9,10) in simp_all)
qed

lemma desc_inv_mono: "desc_inv cf buf s w lo hi \<Longrightarrow> w \<le> w' \<Longrightarrow> desc_inv cf buf s w' lo hi"
  unfolding desc_inv_def parent_ok_def Let_def by (meson less_le_trans)

lemma orch_written_step:
  assumes ok: "cfg_ok cf" and inv: "pc1_inv cf buf lab bufs st" and pc: "orch_pc (st_orch st) = OWritten a"
  shows "orch_result cf buf lab bufs st (orch_written cf a (st_sys st) (st_orch st))"
proof -
  let ?o = "st_orch st" and ?s = "st_sys st" and ?npp = "cf_npp cf"
  note I = pc1_invD [OF inv] and B = orch_baseD [OF pc1_invD(1) [OF inv]] and M = orch_minsD [OF pc1_invD(3) [OF inv]]
  note P = pc1_bounds [OF pc1_invD(1) [OF inv]]
  have r: "reserved ?o = node_of ?o" using pc by (simp add: reserved_node)
  define lo where "lo = written ?o div ?npp"
  define hi where "hi = writing ?o div ?npp"
  have w: "lo * ?npp = written ?o" "hi * ?npp = writing ?o" using B(11,12) by (simp_all add: lo_def hi_def)
  have idx: "counter_idx ?npp (tail_node_write ?o) = lo mod cf_nodes cf" "counter_idx ?npp (head_node_write ?o) = hi mod cf_nodes cf"
    using B(13,14) mod_ring_nodes(1) [OF ok] by (simp_all add: counter_idx_def hi_def lo_def node_slot_def)
  have ring: "ring_at (cf_nodes cf) (node_buffer ?s) (tail_node ?o div ?npp) (node_of ?o div ?npp)"
    using I(2) r by (simp add: orch_rings_def)
  have ln: "lo mod cf_nodes cf < length (valid (node_buffer ?s))" using ring_atD(8,9) [OF ring] by simp
  have leave: "orch_result cf buf lab bufs st (Inr (?s, ?o\<lparr>orch_pc := ORelease a f\<rparr>))" for a f
    using orch_move(1) [OF inv, of "ORelease a f"] pc r by simp
  show ?thesis
  proof (cases "a > 0 \<and> lo mod cf_nodes cf \<noteq> hi mod cf_nodes cf \<and> valid (node_buffer ?s) ! (lo mod cf_nodes cf) \<noteq> 0")
    case False
    then show ?thesis using leave ln by (auto simp: orch_written_def idx Let_def)
  next
    case True
    define tw where "tw = counter_add (ring_nodes cf) ?npp (tail_node_write ?o)"
    have T: "rc_abs tw = written ?o + ?npp" "rc_idx tw = (written ?o + ?npp) mod ring_nodes cf"
      using counter_add_ring [OF ok B(13) P(4), of ?npp] by (simp_all add: tw_def)
    have "lo \<noteq> hi" using True by auto
    then have pos: "lo < hi" "hi \<le> node_of ?o div ?npp"
      using div_le_mono [OF B(8), of ?npp] div_le_mono [OF B(9), of ?npp] by (simp_all add: lo_def hi_def)
    have "Suc lo * ?npp \<le> hi * ?npp" using pos(1) by (intro mult_le_mono1) simp
    then have le: "written ?o + ?npp \<le> writing ?o" using w by simp
    have "write_inv cf lab (st_disk st) ?s (rw_inflight (st_writer st)) lo hi (node_of ?o div ?npp)"
      using I(11) r by (simp add: lo_def hi_def)
    note V = write_inv_written [OF this pos conjunct2 [OF conjunct2 [OF True]]]
    have ow: "outstanding_writes ?o = hi - lo" using B(15) w npp_facts(1) [OF ok] diff_mult_distrib [of hi lo ?npp] by (metis div_mult_self_is_m)
    have "hi \<le> node_total cf" unfolding hi_def using P(3) div_le_dividend [of "writing ?o" ?npp] by linarith
    then have "size_sub (hi - lo) 1 = hi - lo - 1"
      using pos(1) node_total_bound [OF ok] by (intro size_sub_small) (simp_all add: SIZE_MOD_def)
    define o2 where "o2 = ?o\<lparr>outstanding_writes := hi - lo - 1, tail_node_write := tw, orch_pc := OWritten (a - 1)\<rparr>"
    have eq: "orch_written cf a ?s ?o = Inr (?s, o2)"
      using True ln \<open>size_sub (hi - lo) 1 = hi - lo - 1\<close> ow by (simp add: orch_written_def idx Let_def advance_written_def o2_def tw_def)
    have o2: "node_of o2 = node_of ?o" "reserved o2 = node_of ?o" by (simp_all add: o2_def node_of_def reserved_def)
    have wd: "(written ?o + ?npp) div ?npp = Suc lo" using npp_facts(1) [OF ok] by (simp add: lo_def div_add_self2)
    have "writing ?o - (written ?o + ?npp) = (hi - lo - 1) * ?npp"
      using w by (simp add: diff_mult_distrib algebra_simps)
    then have od: "(writing ?o - (written ?o + ?npp)) div ?npp = hi - lo - 1" using npp_facts(1) [OF ok] by simp
    have "pc1_inv cf buf lab bufs (st\<lparr>st_sys := ?s, st_orch := o2\<rparr>)"
    proof (rule pc1_invI_orch [OF o2])
      show "orch_base cf buf o2" using I(1) T od le r o2 B(7,11) unfolding orch_base_def by (simp add: o2_def)
      show "orch_rings cf ?s o2" using I(2) r o2 unfolding orch_rings_def by (simp add: o2_def)
      show "orch_mins cf (coordinator_node ?s) o2" using M(1-4,6) pc o2 unfolding orch_mins_def by (simp add: o2_def)
      show "orch_locals cf o2" by (simp add: orch_locals_def o2_def)
      show "desc_inv cf buf ?s (written o2) (tail_node_parents o2) (node_of ?o)"
        using desc_inv_mono [OF I(7), of "written o2"] T(1) by (simp add: o2_def)
      show "write_inv cf lab (st_disk st) ?s (rw_inflight (st_writer st)) (written o2 div ?npp) (writing o2 div ?npp) (node_of ?o div ?npp)"
        using V(1) wd T(1) by (simp add: o2_def hi_def)
      have "disk_ok cf lab (st_disk st) n" if "n < written ?o + ?npp" for n
      proof (cases "n < written ?o")
        case False
        have "n < Suc lo * ?npp" using that w by simp
        then have "n div ?npp < Suc lo" by (rule less_mult_imp_div_less)
        moreover have "lo \<le> n div ?npp" unfolding lo_def using False by (intro div_le_mono) simp
        ultimately have "n div ?npp = lo" by simp
        then show ?thesis by (rule V(2))
      qed (use I(12) in \<open>simp add: disk_inv_def\<close>)
      then show "disk_inv cf lab (st_disk st) (written o2)" using T(1) by (simp add: disk_inv_def o2_def)
    qed (use I r in \<open>simp_all add: o2_def\<close>)
    then show ?thesis using eq by (simp add: orch_result_def)
  qed
qed


section \<open>Releasing node pages\<close>

lemma write_inv_release: "write_inv cf lab d s ws lo hi res \<Longrightarrow> valid b = valid (node_buffer s) \<Longrightarrow>
    write_inv cf lab d (s\<lparr>node_buffer := b\<rparr>) ws lo hi res"
  by (simp add: write_inv_def write_req_ok_def)

lemma sync_batch_free_frame: "sync_batch_free s = Some s1 \<Longrightarrow> \<exists>x. s1 = s\<lparr>node_buffer_sync := x\<rparr>"
  by (auto simp: sync_batch_free_def Let_def split: if_splits intro: exI [of _ "node_buffer_sync s"])

lemma orch_release_step:
  assumes ok: "cfg_ok cf" and inv: "pc1_inv cf buf lab bufs st" and pc: "orch_pc (st_orch st) = ORelease a f"
  shows "orch_result cf buf lab bufs st (Inr (orch_release cf a f (st_sys st) (st_orch st)))"
proof -
  let ?o = "st_orch st" and ?s = "st_sys st" and ?npp = "cf_npp cf"
  let ?t = "tail_node (st_orch st)"
  note I = pc1_invD [OF inv] and B = orch_baseD [OF pc1_invD(1) [OF inv]] and M = orch_minsD [OF pc1_invD(3) [OF inv]]
  note P = pc1_bounds [OF pc1_invD(1) [OF inv]]
  have r: "reserved ?o = node_of ?o" using pc by (simp add: reserved_node)
  have leave: "orch_result cf buf lab bufs st (Inr (?s, ?o\<lparr>orch_pc := OCheck\<rparr>))"
    using orch_move(1) [OF inv, of OCheck] pc r by simp
  show ?thesis
  proof (cases "a > 0 \<and> ?t < min_node ?o \<and> ?t < written ?o \<and> f < cf_queue cf * 512 \<and> sync_batch_free ?s \<noteq> None")
    case False
    then show ?thesis using leave by (auto simp: orch_release_def release_node_def)
  next
    case True
    then obtain x where x: "sync_batch_free ?s = Some (?s\<lparr>node_buffer_sync := x\<rparr>)" using sync_batch_free_frame by blast
    have ring: "ring_at (cf_nodes cf) (node_buffer ?s) (?t div ?npp) (node_of ?o div ?npp)"
      using I(2) r by (simp add: orch_rings_def)
    have tn: "?t < node_of ?o" using True B(8,9) by linarith
    have tt: "?t \<le> node_total cf" using tn P(2) by linarith
    have "node_of ?o div ?npp * ?npp = node_of ?o" using B(6) r by simp
    then have lt: "?t div ?npp < node_of ?o div ?npp" using tn by (metis less_mult_imp_div_less)
    have cond: "unat (node_id_node (cf_bits cf) (word_of_nat ?t)) mod ?npp = ?t mod ?npp"
      using node_in_page [OF ok, of "word_of_nat ?t"] unat_node [OF ok tt] by simp
    define b where "b = (if ?t mod ?npp = ?npp - 1 then release (cf_nodes cf) (node_buffer ?s) else node_buffer ?s)"
    have b: "ring_at (cf_nodes cf) b (Suc ?t div ?npp) (node_of ?o div ?npp)" "valid b = valid (node_buffer ?s)"
      using ring ring_at_release [OF ring lt] batch_Suc(2) [OF npp_facts(1) [OF ok], of ?t] npp_facts(1) [OF ok]
      by (auto simp: b_def)
    have "size_add ?t 1 = Suc ?t" using tt node_total_bound [OF ok] by (simp add: SIZE_MOD_def)
    define o2 where "o2 = ?o\<lparr>tail_node := Suc ?t, orch_pc := ORelease (a - 1) f\<rparr>"
    define s2 where "s2 = ?s\<lparr>node_buffer_sync := x, node_buffer := b\<rparr>"
    have eq: "orch_release cf a f ?s ?o = (s2, o2)"
      using True \<open>size_add ?t 1 = Suc ?t\<close> by (simp add: orch_release_def release_node_def x cond s2_def o2_def b_def)
    have o2: "node_of o2 = node_of ?o" "reserved o2 = node_of ?o" by (simp_all add: o2_def node_of_def reserved_def)
    have "pc1_inv cf buf lab bufs (st\<lparr>st_sys := s2, st_orch := o2\<rparr>)"
    proof (rule pc1_invI_orch [OF o2])
      show "orch_base cf buf o2" using I(1) True r o2 unfolding orch_base_def by (simp add: o2_def)
      show "orch_rings cf s2 o2" using I(2) r o2 b(1) unfolding orch_rings_def by (simp add: s2_def o2_def)
      show "orch_mins cf (coordinator_node s2) o2" using M(1-4,6) pc o2 unfolding orch_mins_def by (simp add: s2_def o2_def)
      show "orch_locals cf o2" by (simp add: orch_locals_def o2_def)
      show "write_inv cf lab (st_disk st) s2 (rw_inflight (st_writer st)) (written o2 div ?npp) (writing o2 div ?npp) (node_of ?o div ?npp)"
        unfolding s2_def using write_inv_release [of cf lab "st_disk st" "?s\<lparr>node_buffer_sync := x\<rparr>"] I(11) r b(2) by (simp add: o2_def)
      show "todo_inv (st\<lparr>st_sys := s2\<rparr>)" using I(13) by (simp add: todo_inv_def s2_def)
    qed (use I r in \<open>simp_all add: s2_def o2_def\<close>)
    then show ?thesis using eq by (simp add: orch_result_def)
  qed
qed

end
