(* ===== verification/PC1_Steps.thy ===== *)
theory PC1_Steps
  imports PC1_Orch_Next PC1_Orch_Release
begin

text \<open>
  Every step of a PC1 run succeeds and keeps the invariant: the orchestrator,
  the coordinators, the hashing threads, the reader, the writer and the disks.
\<close>

definition step_ok :: "pc1_cfg \<Rightarrow> 32 word list \<Rightarrow> (nat \<Rightarrow> nat \<Rightarrow> label_t) \<Rightarrow> replica_id_buffer_t list \<Rightarrow>
    pc1_state result option \<Rightarrow> bool" where
  "step_ok cf buf lab bufs r \<longleftrightarrow> (case r of None \<Rightarrow> True | Some x \<Rightarrow> (\<exists>st. x = Inr st \<and> pc1_inv cf buf lab bufs st))"

lemma step_ok_simps [simp]:
  "step_ok cf buf lab bufs None" "step_ok cf buf lab bufs (Some (Inr st)) = pc1_inv cf buf lab bufs st"
  "\<not> step_ok cf buf lab bufs (Some (Inl e))"
  by (simp_all add: step_ok_def)

lemma act_orch_ok:
  assumes "cfg_ok cf" "graph_ok cf buf" "pc1_inv cf buf lab bufs st" "timely cf st"
  shows "step_ok cf buf lab bufs (act_orch cf st)"
proof (cases "orch_pc (st_orch st) = ODone")
  case False
  have "orch_result cf buf lab bufs st (orch_step cf (st_sys st) (st_orch st))"
    using orch_top_step [OF assms(1,3)] orch_min_step [OF assms(3)] orch_read_step [OF assms(1,3,4)] orch_nodes_step [OF assms(1-3)]
      orch_writes_step [OF assms(1,3)] orch_parents_step [OF assms(1,3)] orch_written_step [OF assms(1,3)]
      orch_release_step [OF assms(1,3)] orch_check_step [OF assms(1,3)] False
    by (cases "orch_pc (st_orch st)") (simp_all add: orch_step_def)
  then show ?thesis using False by (auto simp: orch_result_def act_orch_def)
qed (simp add: act_orch_def)


section \<open>Coordinators and threads\<close>

lemma pc1_env:
  assumes ok: "cfg_ok cf" and inv: "pc1_inv cf buf lab bufs st" and i: "i < length (st_coords st)"
  shows "coord_env cf buf lab bufs (st_sys st) (st_coords st) (rw_inflight (st_reader st)) (written (st_orch st))
    (tail_node_parents (st_orch st)) (node_of (st_orch st)) (reserved (st_orch st)) i"
proof -
  note I = pc1_invD [OF inv] and M = orch_minsD [OF pc1_invD(3) [OF inv]] and P = pc1_bounds [OF pc1_invD(1) [OF inv]]
  note C = coords_invD [OF I(9)]
  have "i < length (coordinator_node (st_sys st))" using C(1) M(1) i by simp
  then show ?thesis unfolding coord_env_def using ok i C(1) C(2,3) [OF i] M(3) P(1,2) I(2,7,8,10) by (simp add: orch_rings_def)
qed

lemma coords_inv_update:
  assumes "coords_inv cf buf lab bufs rb cn lo node cs" "coord_inv cf buf lab bufs i c" "coord_link cf rb x lo node c"
    "i < length cs" "length cn = length cs"
  shows "coords_inv cf buf lab bufs rb (cn[i := x]) lo node (cs[i := c])"
  using assms unfolding coords_inv_def by (auto simp: nth_list_update)

lemma orch_mins_update:
  assumes inv: "orch_mins cf cn o1" and x: "cn ! i \<le> x" "x \<le> node_of o1"
  shows "orch_mins cf (cn[i := x]) o1"
proof -
  note M = orch_minsD [OF inv]
  have ge: "cn ! k \<le> cn[i := x] ! k" if "k < length cn" for k using x(1) that by (cases "k = i") simp_all
  have le: "cn[i := x] ! k \<le> node_of o1" if "k < length cn" for k using x(2) M(4) that by (cases "k = i") simp_all
  show ?thesis
    unfolding orch_mins_def using M(1) le ge M(2,3,5-7)
    by (auto split: orch_pc.splits intro: le_trans [OF _ ge])
qed

lemma act_coord_ok:
  assumes ok: "cfg_ok cf" and inv: "pc1_inv cf buf lab bufs st"
  shows "step_ok cf buf lab bufs (act_coord cf i st)"
proof (cases "i < length (st_coords st)")
  case True
  let ?s = "st_sys st" and ?o = "st_orch st" and ?cs = "st_coords st"
  note I = pc1_invD [OF inv] and M = orch_minsD [OF pc1_invD(3) [OF inv]]
  from coord_step_result [OF pc1_env [OF ok inv True]] obtain x c where C:
    "coord_step cf (node_total cf) i ?s (?cs ! i) = Inr (?s\<lparr>coordinator_node := (coordinator_node ?s)[i := x]\<rparr>, c)"
    "coord_inv cf buf lab bufs i c" "coord_link cf (parent_buffer ?s) x (tail_node_parents ?o) (node_of ?o) c"
    "threads c = threads (?cs ! i)" "coordinator_node ?s ! i \<le> x" "x \<le> node_of ?o" by (auto simp: coord_result_def)
  have len: "length (coordinator_node ?s) = length ?cs" using M(1) coords_invD(1) [OF I(9)] by simp
  have "pc1_inv cf buf lab bufs (st\<lparr>st_sys := ?s\<lparr>coordinator_node := (coordinator_node ?s)[i := x]\<rparr>, st_coords := ?cs[i := c]\<rparr>)"
    using I orch_mins_update [OF I(3) C(5,6)] coords_inv_update [OF I(9) C(2,3) True len] node_mem_same_threads [OF I(10) C(4)]
    by (intro pc1_invI) (simp_all add: todo_inv_def)
  then show ?thesis using True C(1) by (simp add: act_coord_def)
qed (simp add: act_coord_def)

lemma coord_link_threads: "coord_link cf rb cn lo node (c\<lparr>threads := ths, coord_done_count := dc\<rparr>) = coord_link cf rb cn lo node c"
  by (simp add: coord_link_def copied_def)

lemma count_map: "length (filter (\<lambda>x. P (f x)) xs) = length (filter P (map f xs))"
  by (simp add: filter_map comp_def)

lemma thread_load:
  assumes inv: "coord_inv cf buf lab bufs i c" and t: "t < length (threads c)" and n: "th_node (threads c ! t) < coord_next_valid c"
  shows "coord_inv cf buf lab bufs i (c\<lparr>threads := (threads c)[t := (threads c ! t)\<lparr>th_valid_nodes := coord_next_valid c\<rparr>]\<rparr>)"
proof -
  let ?th = "(threads c ! t)\<lparr>th_valid_nodes := coord_next_valid c\<rparr>"
  have "thread_inv cf bufs (completed_node c) (coord_next_valid c) (hasher_base cf i + t) ?th"
    using coord_invD(12) [OF inv t] coord_invD(7) [OF inv] n by (simp add: thread_inv_def)
  then have T: "thread_inv cf bufs (completed_node c) (coord_next_valid c) (hasher_base cf i + u) ((threads c)[t := ?th] ! u)"
    if "u < length (threads c)" for u using coord_invD(12) [OF inv that] that by (cases "u = t") simp_all
  have "map th_node ((threads c)[t := ?th]) = map th_node (threads c)" 
  proof (rule nth_equalityI)
    fix u assume "u < length (map th_node ((threads c)[t := ?th]))"
    then show "map th_node ((threads c)[t := ?th]) ! u = map th_node (threads c) ! u" by (cases "u = t") simp_all
  qed simp
  then have "length (filter (\<lambda>th. P (th_node th)) ((threads c)[t := ?th])) = length (filter (\<lambda>th. P (th_node th)) (threads c))" for P
    unfolding count_map [of P th_node] by simp
  then have "done_inv cf (c\<lparr>threads := (threads c)[t := ?th], coord_done_count := coord_done_count c\<rparr>)"
    using coord_invD(11) [OF inv] by (simp add: done_inv_def)
  from coord_inv_threads [OF inv _ this] T show ?thesis by simp
qed

lemma act_thread_ok:
  assumes ok: "cfg_ok cf" "graph_ok cf buf" and inv: "pc1_inv cf buf lab bufs st" and lab: "lab = sector_label sha cf buf bufs"
  shows "step_ok cf buf lab bufs (act_thread sha cf i t st)"
proof (cases "i < length (st_coords st) \<and> t < length (threads (st_coords st ! i))")
  case True
  let ?s = "st_sys st" and ?o = "st_orch st" and ?cs = "st_coords st"
  let ?c = "?cs ! i" and ?th = "threads (?cs ! i) ! t"
  note I = pc1_invD [OF inv] and P = pc1_bounds [OF pc1_invD(1) [OF inv]] and C = coords_invD [OF pc1_invD(9) [OF inv]]
  have i: "i < length ?cs" and t: "t < length (threads ?c)" using True by auto
  have len: "length (coordinator_node ?s) = length ?cs" using orch_minsD(1) [OF I(3)] C(1) by simp
  have keep: "coords_inv cf buf lab bufs (parent_buffer ?s) (coordinator_node ?s) (tail_node_parents ?o) (node_of ?o) (?cs[i := c])"
    if "coord_inv cf buf lab bufs i c" "coord_link cf (parent_buffer ?s) (coordinator_node ?s ! i) (tail_node_parents ?o) (node_of ?o) c" for c
    using coords_inv_update [OF I(9) that i len] by simp
  consider "th_i ?th > 0 \<or> th_node ?th < th_valid_nodes ?th"
    | "\<not> (th_i ?th > 0 \<or> th_node ?th < th_valid_nodes ?th)" "th_node ?th < node_total cf \<and> th_node ?th < coord_next_valid ?c"
    | "\<not> (th_i ?th > 0 \<or> th_node ?th < th_valid_nodes ?th)" "\<not> (th_node ?th < node_total cf \<and> th_node ?th < coord_next_valid ?c)" by blast
  then show ?thesis
  proof cases
    case 1
    have ring: "ring_at (cf_nodes cf) (node_buffer ?s) (tail_node ?o div cf_npp cf) (reserved ?o div cf_npp cf)"
      using I(2) by (simp add: orch_rings_def)
    have "copied ?c \<le> node_total cf" using coord_linkD(2) [OF C(3) [OF i]] P(2) by linarith
    from run_thread_hash_spec [OF ok C(2) [OF i] t HOL.refl 1 this lab ring] node_mem_invD [OF I(10) i t]
    obtain th' dc out where R: "run_thread_hash sha cf t ?th ?s ?c =
        Inr (hash_store (node_slot cf (th_node ?th)) (th_node ?th mod cf_npp cf) (th_offset_id ?th) out ?s,
             ?c\<lparr>threads := (threads ?c)[t := th'], coord_done_count := dc\<rparr>)"
      "th_node th' = Suc (th_node ?th)" "th_offset_id th' = th_offset_id ?th"
      "\<forall>l < NODES_PER_HASHER. out l = lab (th_offset_id ?th + l) (th_node ?th)"
      "coord_inv cf buf lab bufs i (?c\<lparr>threads := (threads ?c)[t := th'], coord_done_count := dc\<rparr>)" by blast
    define c where "c = ?c\<lparr>threads := (threads ?c)[t := th'], coord_done_count := dc\<rparr>"
    obtain m where m: "hash_store (node_slot cf (th_node ?th)) (th_node ?th mod cf_npp cf) (th_offset_id ?th) out ?s = ?s\<lparr>node_buffer_store := m\<rparr>"
      by (auto simp: hash_store_def)
    have "node_mem_inv cf lab m (?cs[i := c])"
      using node_mem_hash [OF ok(1) C(1,2) i t HOL.refl I(10) R(4,2,3), of c] by (simp add: m c_def)
    moreover have "coord_link cf (parent_buffer ?s) (coordinator_node ?s ! i) (tail_node_parents ?o) (node_of ?o) c"
      using C(3) [OF i] by (simp add: c_def coord_link_threads)
    ultimately have "pc1_inv cf buf lab bufs (st\<lparr>st_sys := ?s\<lparr>node_buffer_store := m\<rparr>, st_coords := ?cs[i := c]\<rparr>)"
      using I keep [of c] R(5) by (intro pc1_invI) (simp_all add: todo_inv_def c_def)
    then show ?thesis using True 1 t R(1) by (simp add: act_thread_def thread_step_def m c_def)
  next
    case 2
    define c where "c = ?c\<lparr>threads := (threads ?c)[t := ?th\<lparr>th_valid_nodes := coord_next_valid ?c\<rparr>]\<rparr>"
    have "coord_inv cf buf lab bufs i c" unfolding c_def using thread_load [OF C(2) [OF i] t] 2 by blast
    moreover have "coord_link cf (parent_buffer ?s) (coordinator_node ?s ! i) (tail_node_parents ?o) (node_of ?o) c"
      using C(3) [OF i] coord_link_threads [where c = ?c and dc = "coord_done_count ?c"] by (simp add: c_def)
    moreover have "node_mem_inv cf lab (node_buffer_store ?s) (?cs[i := c])"
    proof -
      have "th_node (threads (?cs[i := c] ! k) ! u) = th_node (threads (?cs ! k) ! u) \<and>
          th_offset_id (threads (?cs[i := c] ! k) ! u) = th_offset_id (threads (?cs ! k) ! u)" if "k < length ?cs" "u < length (threads (?cs ! k))" for k u
        using that by (cases "k = i"; cases "u = t") (simp_all add: c_def)
      moreover have "length (threads (?cs[i := c] ! k)) = length (threads (?cs ! k))" if "k < length ?cs" for k
        using that by (cases "k = i") (simp_all add: c_def)
      ultimately show ?thesis using I(10) by (simp add: node_mem_inv_def)
    qed
    ultimately have "pc1_inv cf buf lab bufs (st\<lparr>st_coords := ?cs[i := c]\<rparr>)"
      using I keep [of c] by (intro pc1_invI) (simp_all add: todo_inv_def)
    then show ?thesis using True 2 t by (simp add: act_thread_def thread_step_def c_def)
  next
    case 3
    have "pc1_inv cf buf lab bufs (st\<lparr>st_coords := ?cs[i := ?c]\<rparr>)" using inv by simp
    then show ?thesis using True 3 t by (auto simp: act_thread_def thread_step_def)
  qed
qed (auto simp: act_thread_def)


section \<open>Reader\<close>

lemma rw_begin_todo: "fifo_inv q \<Longrightarrow> rw_todo (rw_begin cf n q rw) \<le> length (fifo_list q) \<and> rw_inflight (rw_begin cf n q rw) = rw_inflight rw"
  by (simp add: rw_begin_def fifo_size_list)

lemma reader_begin_ok:
  assumes inv: "pc1_inv cf buf lab bufs st"
  shows "pc1_inv cf buf lab bufs (st\<lparr>st_reader := rw_begin cf n (parent_read_fifo (st_sys st)) (st_reader st)\<rparr>)"
    "pc1_inv cf buf lab bufs (st\<lparr>st_writer := rw_begin cf n (node_write_fifo (st_sys st)) (st_writer st)\<rparr>)"
proof -
  note I = pc1_invD [OF inv]
  have q: "fifo_inv (parent_read_fifo (st_sys st))" "fifo_inv (node_write_fifo (st_sys st))"
    using I(5) write_invD(1) [OF I(11)] by (simp_all add: fifo_shape_def)
  note T = rw_begin_todo [OF q(1), of cf n "st_reader st"] rw_begin_todo [OF q(2), of cf n "st_writer st"]
  show "pc1_inv cf buf lab bufs (st\<lparr>st_reader := rw_begin cf n (parent_read_fifo (st_sys st)) (st_reader st)\<rparr>)"
    "pc1_inv cf buf lab bufs (st\<lparr>st_writer := rw_begin cf n (node_write_fifo (st_sys st)) (st_writer st)\<rparr>)"
    by (rule pc1_invI; use I T in \<open>simp add: todo_inv_def\<close>)+
qed

lemma act_reader_batch_ok:
  assumes ok: "cfg_ok cf" and inv: "pc1_inv cf buf lab bufs st"
  shows "step_ok cf buf lab bufs (act_reader_batch cf st)"
proof (cases "rw_todo (st_reader st) > 0")
  case True
  let ?s = "st_sys st" and ?o = "st_orch st" and ?rw = "st_reader st"
  let ?q = "parent_read_fifo ?s" and ?n = "node_of ?o" and ?R = "reserved ?o"
  let ?i = "(node_of ?o - length (fifo_list (parent_read_fifo ?s))) mod cf_parents cf"
  note I = pc1_invD [OF inv] and P = pc1_bounds [OF pc1_invD(1) [OF inv]]
  have ring: "ring_at (cf_parents cf) (parent_buffer ?s) (tail_node_parents ?o) ?R" using I(2) by (simp add: orch_rings_def)
  have todo: "rw_todo ?rw \<le> length (fifo_list ?q)" using I(13) by (simp add: todo_inv_def)
  then have ne: "fifo_list ?q \<noteq> []" using True by auto
  have fi: "fifo_inv ?q" using I(5) by (simp add: fifo_shape_def)
  have tlq: "tl (fifo_list ?q) = map (\<lambda>n. Some (n mod cf_parents cf)) [Suc (?n - length (fifo_list ?q))..<?n]"
    using arg_cong [OF fifo_shape_head(1) [OF I(5) ne], of tl] by (simp only: list.sel)
  from rw_batch_eq [OF ok fi fifo_shape_head(1) [OF I(5) ne], of PAGE_BATCH_SIZE "parent_buffer_io ?s" ?rw] obtain q' where Q:
    "rw_batch cf PAGE_BATCH_SIZE (parent_buffer_io ?s) ?q ?rw = Inr (q', \<lparr>rw_todo = rw_todo ?rw - 1, rw_inflight = rw_inflight ?rw @
        map (\<lambda>j. mk_req cf ?i (parent_buffer_io ?s ?i j) j) (filter (\<lambda>j. io_type (parent_buffer_io ?s ?i j) \<noteq> NOP) [0..<PAGE_BATCH_SIZE])\<rparr>)"
    "fifo_inv q'" "fifo_list q' = tl (fifo_list ?q)" "fifo_capacity q' = fifo_capacity ?q"
    unfolding tlq by blast
  have "pc1_inv cf buf lab bufs (st\<lparr>st_sys := ?s\<lparr>parent_read_fifo := q'\<rparr>, st_reader := \<lparr>rw_todo = rw_todo ?rw - 1, rw_inflight = rw_inflight ?rw @
        map (\<lambda>j. mk_req cf ?i (parent_buffer_io ?s ?i j) j) (filter (\<lambda>j. io_type (parent_buffer_io ?s ?i j) \<noteq> NOP) [0..<PAGE_BATCH_SIZE])\<rparr>\<rparr>)"
    using I read_inv_issue [OF ok I(8,5) ne I(7) P(4) I(6) P(1) ring_atD(3) [OF ring] HOL.refl Q(3)] fifo_shape_deq [OF I(5) ne Q(2-4)] todo Q(3) True
    by (intro pc1_invI) (simp_all add: todo_inv_def)
  then show ?thesis using True Q(1) by (simp add: act_reader_batch_def)
qed (simp add: act_reader_batch_def)

lemma act_reader_transfer_ok:
  assumes ok: "cfg_ok cf" and inv: "pc1_inv cf buf lab bufs st"
  shows "step_ok cf buf lab bufs (act_reader_transfer k st)"
proof (cases "k < length (rw_inflight (st_reader st)) \<and> \<not> rq_done (rw_inflight (st_reader st) ! k)")
  case True
  let ?s = "st_sys st" and ?d = "st_disk st" and ?r = "rw_inflight (st_reader st) ! k"
  note I = pc1_invD [OF inv] and P = pc1_bounds [OF pc1_invD(1) [OF inv]]
  have "?r \<in> set (rw_inflight (st_reader st))" using True by simp
  then have ty: "rq_type ?r = READ" using I(8) by (auto simp: read_inv_def Let_def req_ok_def)
  obtain m where m: "parent_transfer ?r ?s ?d = (?s\<lparr>parent_buffer_store := m\<rparr>, ?d)" using ty by (auto simp: parent_transfer_def)
  have "read_inv cf buf lab (?s\<lparr>parent_buffer_store := m\<rparr>) ((rw_inflight (st_reader st))[k := ?r\<lparr>rq_done := True\<rparr>])
      (tail_node_parents (st_orch st)) (node_of (st_orch st)) (reserved (st_orch st))"
    using read_inv_transfer [OF I(8) _ I(7,12) P(1), of k] True m by simp
  then have "pc1_inv cf buf lab bufs (st\<lparr>st_sys := ?s\<lparr>parent_buffer_store := m\<rparr>, st_disk := ?d, st_reader := set_done k (st_reader st)\<rparr>)"
    using I by (intro pc1_invI) (simp_all add: todo_inv_def set_done_def)
  then show ?thesis using True m by (simp add: act_reader_transfer_def)
qed (auto simp: act_reader_transfer_def)

lemma act_reader_complete_ok:
  assumes ok: "cfg_ok cf" and inv: "pc1_inv cf buf lab bufs st"
  shows "step_ok cf buf lab bufs (act_reader_complete k st)"
proof (cases "rw_todo (st_reader st) = 0 \<and> k < length (rw_inflight (st_reader st)) \<and> rq_done (rw_inflight (st_reader st) ! k)")
  case True
  let ?s = "st_sys st" and ?o = "st_orch st" and ?rs = "rw_inflight (st_reader st)"
  note I = pc1_invD [OF inv] and P = pc1_bounds [OF pc1_invD(1) [OF inv]] and M = orch_minsD [OF pc1_invD(3) [OF inv]]
  have R: "ring_at (cf_parents cf) (parent_buffer ?s) (tail_node_parents ?o) (reserved ?o)" using I(2) by (simp add: orch_rings_def)
  have k: "k < length ?rs" "rq_done (?rs ! k)" using True by auto
  from read_complete [OF ok I(8) k I(6) R P(1)] obtain b where b:
    "completion_cb (parent_buffer_io ?s (rq_slot (?rs ! k)) (rq_j (?rs ! k))) (parent_buffer ?s) = Inr b"
    "ring_at (cf_parents cf) b (tail_node_parents ?o) (reserved ?o)"
    "read_inv cf buf lab (?s\<lparr>parent_buffer := b\<rparr>) (remove_nth k ?rs) (tail_node_parents ?o) (node_of ?o) (reserved ?o)"
    "\<And>n. tail_node_parents ?o \<le> n \<Longrightarrow> n < node_of ?o \<Longrightarrow> \<not> layer_start cf n \<Longrightarrow>
      valid (parent_buffer ?s) ! (n mod cf_parents cf) \<le> valid b ! (n mod cf_parents cf)" by blast
  have "coords_inv cf buf lab bufs b (coordinator_node ?s) (tail_node_parents ?o) (node_of ?o) (st_coords st)"
    using coords_inv_valid [OF I(9) _ b(4)] M(1,3) coords_invD(1) [OF I(9)] by simp
  moreover have "orch_rings cf (?s\<lparr>parent_buffer := b\<rparr>) ?o" using I(2) b(2) by (simp add: orch_rings_def)
  ultimately have "pc1_inv cf buf lab bufs (st\<lparr>st_sys := ?s\<lparr>parent_buffer := b\<rparr>, st_reader := drop_request k (st_reader st)\<rparr>)"
    using I b(3) by (intro pc1_invI) (simp_all add: todo_inv_def drop_request_def)
  then show ?thesis using True b(1) by (simp add: act_reader_complete_def)
qed (auto simp: act_reader_complete_def)


section \<open>Writer\<close>

lemma page_lt: "0 < p \<Longrightarrow> a div p < b div p \<Longrightarrow> a < (b :: nat)"
  by (meson div_le_mono leD leI)

lemma pages_hold_labels:
  assumes ok: "cfg_ok cf" and inv: "pc1_inv cf buf lab bufs st"
    and n: "written (st_orch st) div cf_npp cf \<le> n div cf_npp cf" "n div cf_npp cf < writing (st_orch st) div cf_npp cf"
    and x: "x < num_sectors cf"
  shows "node_buffer_store (st_sys st) (node_slot cf n) (n mod cf_npp cf) x = lab x n"
proof -
  let ?s = "st_sys st" and ?o = "st_orch st" and ?cs = "st_coords st" and ?npp = "cf_npp cf"
  note I = pc1_invD [OF inv] and B = orch_baseD [OF pc1_invD(1) [OF inv]] and P = pc1_bounds [OF pc1_invD(1) [OF inv]]
  note C = coords_invD [OF pc1_invD(9) [OF inv]] and M = orch_minsD [OF pc1_invD(3) [OF inv]]
  from hasher_index_ex [OF x] obtain i t l where h: "i < length (cf_hashers cf)" "t < cf_hashers cf ! i" "l < NODES_PER_HASHER"
    "x = (hasher_base cf i + t) * NODES_PER_HASHER + l" by blast
  have i: "i < length ?cs" using h(1) C(1) by simp
  note K = C(2) [OF i] C(3) [OF i]
  have t: "t < length (threads (?cs ! i))" using coord_invD(2) [OF K(1)] h(2) by simp
  let ?th = "threads (?cs ! i) ! t"
  note T = thread_invD [OF coord_invD(12) [OF K(1) t]]
  have off: "x = th_offset_id ?th + l" using h(4) T(8) by simp
  have "n < writing ?o" using page_lt [OF npp_facts(1) [OF ok] n(2)] .
  moreover have "writing ?o \<le> coordinator_node ?s ! i" using M(1,2) h(1) by simp
  ultimately have lt: "n < th_node ?th" using coord_linkD(1) [OF K(2)] T(1) by linarith
  have "ring_at (cf_nodes cf) (node_buffer ?s) (tail_node ?o div ?npp) (reserved ?o div ?npp)" using I(2) by (simp add: orch_rings_def)
  from ring_atD(3) [OF this] have "reserved ?o div ?npp * ?npp < (tail_node ?o div ?npp + cf_nodes cf) * ?npp"
    using npp_facts(1) [OF ok] by (simp add: mult_less_mono1)
  then have "reserved ?o < tail_node ?o div ?npp * ?npp + ring_nodes cf" using B(6) by (simp add: ring_nodes_def distrib_right)
  moreover have "tail_node ?o div ?npp * ?npp \<le> n"
  proof -
    have "tail_node ?o div ?npp \<le> n div ?npp" using div_le_mono [OF B(7), of ?npp] n(1) by linarith
    then have "tail_node ?o div ?npp * ?npp \<le> n div ?npp * ?npp" by (rule mult_le_mono1)
    also have "\<dots> \<le> n" by simp
    finally show ?thesis .
  qed
  moreover have "th_node ?th \<le> reserved ?o" using T(2,3) next_valid_le [OF K(1)] coord_linkD(2) [OF K(2)] P(1) by linarith
  ultimately show ?thesis unfolding off using node_mem_invD [OF I(10) i t h(3) lt] by linarith
qed

lemma write_positions:
  assumes ok: "cfg_ok cf" and inv: "pc1_inv cf buf lab bufs st"
  defines "lo \<equiv> written (st_orch st) div cf_npp cf" and "hi \<equiv> writing (st_orch st) div cf_npp cf"
    and "res \<equiv> reserved (st_orch st) div cf_npp cf"
  shows "lo \<le> hi" "hi \<le> res" "res < lo + cf_nodes cf" "hi * cf_npp cf \<le> node_total cf" "lo * cf_npp cf = written (st_orch st)"
    "ring_at (cf_nodes cf) (node_buffer (st_sys st)) (tail_node (st_orch st) div cf_npp cf) res" "tail_node (st_orch st) div cf_npp cf \<le> lo"
proof -
  note I = pc1_invD [OF inv] and B = orch_baseD [OF pc1_invD(1) [OF inv]] and P = pc1_bounds [OF pc1_invD(1) [OF inv]]
  show "lo \<le> hi" unfolding lo_def hi_def by (rule div_le_mono [OF B(8)])
  show "hi \<le> res" unfolding res_def hi_def using B(9) P(1) by (intro div_le_mono) linarith
  show ring: "ring_at (cf_nodes cf) (node_buffer (st_sys st)) (tail_node (st_orch st) div cf_npp cf) res"
    using I(2) by (simp add: orch_rings_def res_def)
  show tl: "tail_node (st_orch st) div cf_npp cf \<le> lo" unfolding lo_def by (rule div_le_mono [OF B(7)])
  show "res < lo + cf_nodes cf" using ring_atD(3) [OF ring] tl by linarith
  show "hi * cf_npp cf \<le> node_total cf" "lo * cf_npp cf = written (st_orch st)" using B(11,12) P(3) by (simp_all add: hi_def lo_def)
qed

lemma act_writer_batch_ok:
  assumes ok: "cfg_ok cf" and inv: "pc1_inv cf buf lab bufs st"
  shows "step_ok cf buf lab bufs (act_writer_batch cf st)"
proof (cases "rw_todo (st_writer st) > 0")
  case True
  let ?s = "st_sys st" and ?o = "st_orch st" and ?rw = "st_writer st" and ?hi = "writing (st_orch st) div cf_npp cf"
  let ?q = "node_write_fifo ?s"
  note I = pc1_invD [OF inv] and W = write_invD [OF pc1_invD(11) [OF inv]] and P = write_positions [OF ok inv]
  define i where "i = (?hi - length (fifo_list ?q)) mod cf_nodes cf"
  have todo: "rw_todo ?rw \<le> length (fifo_list ?q)" using I(13) by (simp add: todo_inv_def)
  then have ne: "fifo_list ?q \<noteq> []" using True by auto
  obtain a l where al: "fifo_list ?q = Some a # l"
    using ne W(4) by (cases "fifo_list ?q") (auto simp: map_eq_Cons_conv)
  from rw_batch_eq [OF ok W(1) al, of 1 "node_buffer_io ?s" ?rw] obtain q' where Q:
    "rw_batch cf 1 (node_buffer_io ?s) ?q ?rw = Inr (q', \<lparr>rw_todo = rw_todo ?rw - 1, rw_inflight = rw_inflight ?rw @
        map (\<lambda>j. mk_req cf a (node_buffer_io ?s a j) j) (filter (\<lambda>j. io_type (node_buffer_io ?s a j) \<noteq> NOP) [0..<1])\<rparr>)"
    "fifo_inv q'" "fifo_list q' = tl (fifo_list ?q)" "fifo_capacity q' = fifo_capacity ?q" unfolding al list.sel by blast
  note X = write_inv_issue [OF ok I(11) ne I(6) P(1-4) i_def Q(2-4)]
  have a: "a = i" using X(1) al by simp
  have "pc1_inv cf buf lab bufs (st\<lparr>st_sys := ?s\<lparr>node_write_fifo := q'\<rparr>, st_writer := \<lparr>rw_todo = rw_todo ?rw - 1, rw_inflight = rw_inflight ?rw @
        map (\<lambda>j. mk_req cf a (node_buffer_io ?s a j) j) (filter (\<lambda>j. io_type (node_buffer_io ?s a j) \<noteq> NOP) [0..<1])\<rparr>\<rparr>)"
    using I X(2) todo Q(3) True by (intro pc1_invI) (simp_all add: todo_inv_def a)
  then show ?thesis using True Q(1) by (simp add: act_writer_batch_def)
qed (simp add: act_writer_batch_def)

lemma act_writer_transfer_ok:
  assumes ok: "cfg_ok cf" and inv: "pc1_inv cf buf lab bufs st"
  shows "step_ok cf buf lab bufs (act_writer_transfer k st)"
proof (cases "k < length (rw_inflight (st_writer st)) \<and> \<not> rq_done (rw_inflight (st_writer st) ! k)")
  case True
  let ?s = "st_sys st" and ?d = "st_disk st" and ?ws = "rw_inflight (st_writer st)"
  let ?d' = "snd (node_transfer (?ws ! k) ?s ?d)"
  note I = pc1_invD [OF inv] and P = write_positions [OF ok inv]
  have k: "k < length ?ws" using True by simp
  have "disk_inv cf lab ?d (written (st_orch st) div cf_npp cf * cf_npp cf)" using I(12) P(5) by simp
  note X = write_inv_transfer [OF ok I(11) k P(2,3) pages_hold_labels [OF ok inv] this, unfolded P(5)]
  have "pc1_inv cf buf lab bufs (st\<lparr>st_sys := ?s, st_disk := ?d', st_writer := set_done k (st_writer st)\<rparr>)"
    using I X by (intro pc1_invI) (simp_all add: todo_inv_def set_done_def)
  moreover have "fst (node_transfer (?ws ! k) ?s ?d) = ?s" using X by (metis fst_conv)
  ultimately show ?thesis using True unfolding act_writer_transfer_def by (simp add: split_beta Let_def)
qed (auto simp: act_writer_transfer_def)

lemma act_writer_complete_ok:
  assumes ok: "cfg_ok cf" and inv: "pc1_inv cf buf lab bufs st"
  shows "step_ok cf buf lab bufs (act_writer_complete k st)"
proof (cases "rw_todo (st_writer st) = 0 \<and> k < length (rw_inflight (st_writer st)) \<and> rq_done (rw_inflight (st_writer st) ! k)")
  case True
  let ?s = "st_sys st" and ?o = "st_orch st" and ?ws = "rw_inflight (st_writer st)"
  note I = pc1_invD [OF inv] and P = write_positions [OF ok inv]
  have k: "k < length ?ws" "rq_done (?ws ! k)" using True by auto
  from write_complete [OF ok I(11) k I(6) P(6,2,7)] obtain b where b:
    "completion_cb (node_buffer_io ?s (rq_slot (?ws ! k)) (rq_j (?ws ! k))) (node_buffer ?s) = Inr b"
    "ring_at (cf_nodes cf) b (tail_node ?o div cf_npp cf) (reserved ?o div cf_npp cf)"
    "write_inv cf lab (st_disk st) (?s\<lparr>node_buffer := b\<rparr>) (remove_nth k ?ws) (written ?o div cf_npp cf) (writing ?o div cf_npp cf) (reserved ?o div cf_npp cf)"
    by blast
  have "orch_rings cf (?s\<lparr>node_buffer := b\<rparr>) ?o" using I(2) b(2) by (simp add: orch_rings_def)
  then have "pc1_inv cf buf lab bufs (st\<lparr>st_sys := ?s\<lparr>node_buffer := b\<rparr>, st_writer := drop_request k (st_writer st)\<rparr>)"
    using I b(3) by (intro pc1_invI) (simp_all add: todo_inv_def drop_request_def)
  then show ?thesis using True b(1) by (simp add: act_writer_complete_def)
qed (auto simp: act_writer_complete_def)


section \<open>Any step\<close>

theorem pc1_act_ok:
  assumes "cfg_ok cf" "graph_ok cf buf" "pc1_inv cf buf (sector_label sha cf buf bufs) bufs st" "timely cf st"
  shows "step_ok cf buf (sector_label sha cf buf bufs) bufs (pc1_act sha cf a st)"
  using act_orch_ok [OF assms] act_coord_ok [OF assms(1,3)] act_thread_ok [OF assms(1-3) HOL.refl] reader_begin_ok [OF assms(3)]
    act_reader_batch_ok [OF assms(1,3)] act_reader_transfer_ok [OF assms(1,3)] act_reader_complete_ok [OF assms(1,3)]
    act_writer_batch_ok [OF assms(1,3)] act_writer_transfer_ok [OF assms(1,3)] act_writer_complete_ok [OF assms(1,3)]
  by (cases a) (simp_all add: pc1_act_def)

end
