(* ===== verification/PC1_Init.thy ===== *)
theory PC1_Init
  imports PC1_Inv PC1_Coord_Step
begin

text \<open>
  The set-up of \<open>do_pc1\<close>: with a parents file of the right length and the
  replica ids of all sectors it succeeds, and the state before the threads start
  satisfies the invariant of PC1.
\<close>

section \<open>Replica ids and coordinators\<close>

lemma replica_id_bufs_ok:
  assumes "hashers * NODES_PER_HASHER * NODE_WORDS \<le> length rids"
  shows "\<exists>bufs. replica_id_bufs rids hashers = Inr bufs \<and> length bufs = hashers"
proof -
  have idx: "i * NODES_PER_HASHER * NODE_WORDS + j * NODE_WORDS + k < length rids"
    if "i < hashers" "j < NODES_PER_HASHER" "k < NODE_WORDS" for i j k
  proof -
    have "j * NODE_WORDS + k < NODES_PER_HASHER * NODE_WORDS" using that(2,3) by (simp add: constant_defs)
    then have "i * (NODES_PER_HASHER * NODE_WORDS) + (j * NODE_WORDS + k) < Suc i * (NODES_PER_HASHER * NODE_WORDS)" by simp
    also have "\<dots> \<le> hashers * (NODES_PER_HASHER * NODE_WORDS)" using that(1) by (intro mult_le_mono1) simp
    finally show ?thesis using assms by (simp add: mult.assoc)
  qed
  have "\<exists>b. replica_id_buf rids i = Inr b" if "i < hashers" for i
  proof -
    let ?w = "\<lambda>j k. htonl (rids ! (i * NODES_PER_HASHER * NODE_WORDS + j * NODE_WORDS + k))"
    have "map_result (\<lambda>j. map_result (\<lambda>k. bind_result (vec_get rids (i * NODES_PER_HASHER * NODE_WORDS + j * NODE_WORDS + k))
        (\<lambda>w. Inr (htonl w))) [0..<NODE_WORDS]) [0..<NODES_PER_HASHER] =
        Inr (map (\<lambda>j. map (?w j) [0..<NODE_WORDS]) [0..<NODES_PER_HASHER])"
    proof (rule map_result_Inr)
      fix j assume "j \<in> set [0..<NODES_PER_HASHER]"
      then show "map_result (\<lambda>k. bind_result (vec_get rids (i * NODES_PER_HASHER * NODE_WORDS + j * NODE_WORDS + k))
          (\<lambda>w. Inr (htonl w))) [0..<NODE_WORDS] = Inr (map (?w j) [0..<NODE_WORDS])"
        using idx [OF that, of j] by (intro map_result_Inr) simp
    qed
    then show ?thesis by (simp add: replica_id_buf_def)
  qed
  then obtain f where "\<And>i. i < hashers \<Longrightarrow> replica_id_buf rids i = Inr (f i)" by metis
  then have "map_result (replica_id_buf rids) [0..<hashers] = Inr (map f [0..<hashers])" by (intro map_result_Inr) simp
  then show ?thesis by (simp add: replica_id_bufs_def)
qed

definition first_coord :: "pc1_cfg \<Rightarrow> nat \<Rightarrow> nat \<Rightarrow> nat \<Rightarrow> replica_id_buffer_t list \<Rightarrow> coordinator_t \<Rightarrow> bool" where
  "first_coord cf h sector g bufs c \<longleftrightarrow>
     start_sector c = sector \<and> co_pc c = CRun \<and> co_node c = 0 \<and> completed_node c = 0 \<and> co_idx c = 0 \<and> \<not> co_cur_valid c \<and>
     coord_batch_count c = 0 \<and> coord_batch_idx c = 0 \<and> ring_at (cf_batches cf) (coord_ring c) 0 1 \<and>
     coord_done_count c = replicate (cf_batches cf) 0 \<and> coord_next_valid c = 0 \<and> length (threads c) = h \<and>
     (\<forall>t < h. threads c ! t = hasher_new 0 (sector + t * NODES_PER_HASHER) (bufs ! (g + t)))"

lemma coordinator_new_ok:
  assumes "cfg_ok cf"
  shows "\<exists>c. coordinator_new cf 0 sector (map (\<lambda>t. bufs ! (g + t)) [0..<h]) storage ptrs = Inr c \<and> first_coord cf h sector g bufs c"
proof -
  note b = cfg_okD(8,9) [OF assms]
  from ring_at_reserve [OF ring_at_create [OF b]] b obtain rb where
    "reserve (cf_batches cf) (rb_create (cf_batches cf) (Some (\<lambda>i. i)) rb_new) = Inr (Some (0, Some 0), rb)" "ring_at (cf_batches cf) rb 0 1"
    by auto
  then show ?thesis by (simp add: coordinator_new_def first_coord_def nth_enumerate_eq)
qed

lemma spawn_coordinators_ok:
  assumes ok: "cfg_ok cf" and "g + sum_list hs \<le> length bufs"
  shows "\<exists>cs. spawn_coordinators cf 0 hs sector g bufs storage ptrs = Inr cs \<and> length cs = length hs \<and>
    (\<forall>i < length hs. first_coord cf (hs ! i) (sector + sum_list (take i hs) * NODES_PER_HASHER) (g + sum_list (take i hs)) bufs (cs ! i))"
  using assms(2)
proof (induction hs arbitrary: sector g)
  case (Cons h hs)
  have "map_result (\<lambda>i. vec_get bufs (g + i)) [0..<h] = Inr (map (\<lambda>t. bufs ! (g + t)) [0..<h])"
    using Cons.prems by (intro map_result_Inr) simp
  moreover obtain c where c: "coordinator_new cf 0 sector (map (\<lambda>t. bufs ! (g + t)) [0..<h]) storage ptrs = Inr c"
    "first_coord cf h sector g bufs c" using coordinator_new_ok [OF ok] by blast
  moreover have "g + h + sum_list hs \<le> length bufs" using Cons.prems by simp
  from Cons.IH [OF this, of "sector + h * NODES_PER_HASHER"] obtain cs where cs:
    "spawn_coordinators cf 0 hs (sector + h * NODES_PER_HASHER) (g + h) bufs storage ptrs = Inr cs" "length cs = length hs"
    "\<And>i. i < length hs \<Longrightarrow> first_coord cf (hs ! i) (sector + h * NODES_PER_HASHER + sum_list (take i hs) * NODES_PER_HASHER)
      (g + h + sum_list (take i hs)) bufs (cs ! i)" by blast
  ultimately have "spawn_coordinators cf 0 (h # hs) sector g bufs storage ptrs = Inr (c # cs)" by simp
  moreover have "first_coord cf ((h # hs) ! i) (sector + sum_list (take i (h # hs)) * NODES_PER_HASHER) (g + sum_list (take i (h # hs))) bufs ((c # cs) ! i)"
    if "i < length (h # hs)" for i
    using c(2) cs(3) [of "i - 1"] that by (cases i) (simp_all add: distrib_right add.assoc)
  ultimately show ?case using cs(2) by (intro exI [of _ "c # cs"]) simp
qed simp

lemma first_coord_inv:
  assumes ok: "cfg_ok cf" and c: "first_coord cf (cf_hashers cf ! i) (hasher_base cf i * NODES_PER_HASHER) (hasher_base cf i) bufs c"
  shows "coord_inv cf buf lab bufs i c" "coord_link cf rb 0 0 0 c"
proof -
  have cp: "copied c = 0" using c by (simp add: first_coord_def copied_def)
  note b = cfg_okD(7,8) [OF ok]
  have "done_inv cf c"
  proof -
    have "filter (\<lambda>th. Suc b * cf_batch cf \<le> th_node th) (threads c) = []" for b
    proof -
      have "th_node th = 0" if "th \<in> set (threads c)" for th
        using that c by (auto simp: first_coord_def in_set_conv_nth hasher_new_def)
      then show ?thesis using b(1) by (auto simp: filter_empty_conv)
    qed
    then show ?thesis using c b(2) by (auto simp: done_inv_def first_coord_def)
  qed
  moreover have "thread_inv cf bufs 0 0 (hasher_base cf i + t) (threads c ! t)" if "t < length (threads c)" for t
    using c that by (simp add: first_coord_def thread_inv_def hasher_new_def node_slot_def same_replica_def distrib_right)
  ultimately show "coord_inv cf buf lab bufs i c" using c cp by (simp add: coord_inv_def first_coord_def)
  show "coord_link cf rb 0 0 0 c" using c cp by (simp add: coord_link_def first_coord_def)
qed


section \<open>The state before the threads start\<close>

lemma orchestrator_new_ok:
  assumes ok: "cfg_ok cf" and g: "graph_ok cf buf"
  shows "\<exists>o1. orchestrator_new cf 0 (node_total cf) (Some buf) = Inr o1 \<and> orch_base cf buf o1 \<and> orch_pc o1 = OTop \<and>
    node_of o1 = 0 \<and> reserved o1 = 0 \<and> tail_node o1 = 0 \<and> tail_node_parents o1 = 0 \<and> written o1 = 0 \<and> writing o1 = 0 \<and> min_node_hash o1 = 0"
proof -
  have "(2 :: nat) ^ cf_bits cf \<le> 2 ^ 32" by (intro power_increasing) (use cfg_okD(1) [OF ok] in auto)
  then have "4 * length buf = parent_bytes (2 ^ cf_bits cf)"
    using g by (simp add: graph_ok_def parent_bytes_def size_mul_def constant_defs SIZE_MOD_def)
  then show ?thesis
    by (simp add: orchestrator_new_def orch_base_def node_of_def reserved_def parent_iter_new_def set_buf_def ring_counter_new_def
        walk_inv_def constant_defs)
qed

lemma do_pc1_init_inv:
  assumes ok: "cfg_ok cf" and g: "graph_ok cf buf" and rids: "num_sectors cf * NODE_WORDS \<le> length rids"
  shows "\<exists>bufs st. replica_id_bufs rids (sum_list (cf_hashers cf)) = Inr bufs \<and>
    do_pc1_init cf rids (Some buf) raw storage ptrs d = Inr st \<and> pc1_inv cf buf lab bufs st \<and>
    orch_pc (st_orch st) = OTop"
proof -
  obtain bufs where bufs: "replica_id_bufs rids (sum_list (cf_hashers cf)) = Inr bufs" "length bufs = sum_list (cf_hashers cf)"
    using replica_id_bufs_ok rids by (auto simp: num_sectors_def)
  obtain o1 where o1: "orchestrator_new cf 0 (node_total cf) (Some buf) = Inr o1" "orch_base cf buf o1" "orch_pc o1 = OTop"
    "node_of o1 = 0" "reserved o1 = 0" "tail_node o1 = 0" "tail_node_parents o1 = 0" "written o1 = 0" "writing o1 = 0" "min_node_hash o1 = 0"
    using orchestrator_new_ok [OF ok g] by blast
  obtain cs where cs: "spawn_coordinators cf 0 (cf_hashers cf) 0 0 bufs storage ptrs = Inr cs" "length cs = length (cf_hashers cf)"
    "\<And>i. i < length (cf_hashers cf) \<Longrightarrow> first_coord cf (cf_hashers cf ! i) (hasher_base cf i * NODES_PER_HASHER) (hasher_base cf i) bufs (cs ! i)"
    using spawn_coordinators_ok [OF ok, of 0 "cf_hashers cf" bufs 0 storage ptrs] bufs(2) by (auto simp: hasher_base_def)
  define s where "s = system_init cf raw"
  have "disk_fifo_depth cf < 2 ^ 63 - 1" using cfg_okD(4,12) [OF ok] by simp
  note Q = fifo_create_inv [OF this HOL.refl, where ?'a = nat]
  have cn: "coordinator_node s = replicate (length (cf_hashers cf)) 0" by (simp add: s_def system_init_def)
  have parts: "orch_rings cf s o1" "orch_mins cf (coordinator_node s) o1" "orch_locals cf o1"
    "fifo_shape cf (parent_read_fifo s) 0 0" "io_static cf s" "desc_inv cf buf s 0 0 0" "read_inv cf buf lab s [] 0 0 0"
    "write_inv cf lab d s [] 0 0 0" "disk_inv cf lab d 0"
    using ring_at_create cfg_okD(3-6) [OF ok]
    by (simp_all add: orch_rings_def o1(3-10) s_def system_init_def orch_mins_def orch_locals_def Q fifo_shape_def io_static_def init_io_def
        desc_inv_def read_inv_def write_inv_def rb_create_def disk_inv_def)
  have coords: "coords_inv cf buf lab bufs (parent_buffer s) (coordinator_node s) 0 0 cs"
    using cs(2) first_coord_inv [OF ok cs(3)] by (simp add: coords_inv_def cn)
  have "th_node (threads (cs ! i) ! t) = 0" if "i < length cs" "t < length (threads (cs ! i))" for i t
    using cs(3) [of i] cs(2) that by (simp add: first_coord_def hasher_new_def)
  then have "node_mem_inv cf lab (node_buffer_store s) cs" by (simp add: node_mem_inv_def)
  then have "pc1_inv cf buf lab bufs \<lparr>st_sys = s, st_disk = d, st_reader = node_rw_new, st_writer = node_rw_new, st_orch = o1, st_coords = cs\<rparr>"
    by (intro pc1_invI) (use parts coords o1(2) in \<open>simp_all add: o1(4-9) node_rw_new_def todo_inv_def\<close>)
  moreover have "do_pc1_init cf rids (Some buf) raw storage ptrs d =
      Inr \<lparr>st_sys = s, st_disk = d, st_reader = node_rw_new, st_writer = node_rw_new, st_orch = o1, st_coords = cs\<rparr>"
    using o1(1) bufs(1) cs(1) by (simp add: do_pc1_init_def s_def)
  ultimately show ?thesis using bufs(1) o1(3) by auto
qed

end
