(* ===== verification/PC1_Reach.thy ===== *)
theory PC1_Reach
  imports PC1_Steps PC1_Init
begin

text \<open>
  The reachable states of PC1.  \<open>pc1_reach\<close> are the states of the runs of \<open>do_pc1\<close>: any
  interleaving of the steps of the orchestrator, the coordinators, the hashing
  threads, the reader, the writer and the disks, from the state after the
  set-up, as long as \<open>timely\<close> holds.
\<close>

section \<open>Reachable states\<close>

inductive pc1_reach :: "sha_fun \<Rightarrow> pc1_cfg \<Rightarrow> pc1_state \<Rightarrow> pc1_state \<Rightarrow> bool" for sha cf st0 where
  reach_init: "pc1_reach sha cf st0 st0"
| reach_act: "pc1_reach sha cf st0 st \<Longrightarrow> timely cf st \<Longrightarrow> pc1_act sha cf a st = Some (Inr st') \<Longrightarrow> pc1_reach sha cf st0 st'"

inductive_cases pc1_reachE: "pc1_reach sha cf st0 st"

lemma pc1_reach_inv:
  assumes "pc1_reach sha cf st0 st" "cfg_ok cf" "graph_ok cf buf" "pc1_inv cf buf (sector_label sha cf buf bufs) bufs st0"
  shows "pc1_inv cf buf (sector_label sha cf buf bufs) bufs st"
  using assms(1)
proof induction
  case (reach_act st a st')
  then show ?case using pc1_act_ok [OF assms(2,3) reach_act.IH, of a] by simp
qed (rule assms(4))

lemma pc1_start:
  assumes "cfg_ok cf" "graph_ok cf buf" "num_sectors cf * NODE_WORDS \<le> length rids"
  shows "\<exists>bufs st0. replica_id_bufs rids (sum_list (cf_hashers cf)) = Inr bufs \<and>
    do_pc1_init cf rids (Some buf) raw storage ptrs d = Inr st0 \<and>
    pc1_inv cf buf (sector_label sha cf buf bufs) bufs st0 \<and> orch_pc (st_orch st0) = OTop"
proof -
  from replica_id_bufs_ok [of "sum_list (cf_hashers cf)" rids] assms(3) obtain bufs where
    b: "replica_id_bufs rids (sum_list (cf_hashers cf)) = Inr bufs" by (auto simp: num_sectors_def)
  from do_pc1_init_inv [OF assms, of raw storage ptrs d "sector_label sha cf buf bufs"] b show ?thesis by auto
qed

end
