(* ===== verification/Progress.thy ===== *)
theory Progress
  imports Prelude
begin

text \<open>
  Progress of a system of threads.  \<open>leads reach live P Q\<close>: from every state with
  the invariant and \<open>P\<close> some run goes to a state with \<open>Q\<close>.  The locale
  \<open>run_system\<close> has the laws of the runs of a system, the lemmas are the rules
  by which progress is shown: runs are joined, and a run that always can come
  closer to \<open>Q\<close> gets there.
\<close>

definition leads :: "('s \<Rightarrow> 's \<Rightarrow> bool) \<Rightarrow> ('s \<Rightarrow> bool) \<Rightarrow> ('s \<Rightarrow> bool) \<Rightarrow> ('s \<Rightarrow> bool) \<Rightarrow> bool" where
  "leads reach live P Q \<longleftrightarrow> (\<forall>s. live s \<and> P s \<longrightarrow> (\<exists>t. reach s t \<and> Q t))"

lemma leadsI: "(\<And>s. live s \<Longrightarrow> P s \<Longrightarrow> \<exists>t. reach s t \<and> Q t) \<Longrightarrow> leads reach live P Q"
  by (simp add: leads_def)

lemma leadsD: "leads reach live P Q \<Longrightarrow> live s \<Longrightarrow> P s \<Longrightarrow> \<exists>t. reach s t \<and> Q t"
  by (simp add: leads_def)

locale run_system =
  fixes reach :: "'s \<Rightarrow> 's \<Rightarrow> bool" and live :: "'s \<Rightarrow> bool"
  assumes reach_refl: "reach s s"
    and reach_trans: "reach s t \<Longrightarrow> reach t u \<Longrightarrow> reach s u"
    and reach_inv: "live s \<Longrightarrow> reach s t \<Longrightarrow> live t"
begin

lemma leads_now: "(\<And>s. live s \<Longrightarrow> P s \<Longrightarrow> Q s) \<Longrightarrow> leads reach live P Q"
  by (auto intro!: leadsI intro: reach_refl)

lemma leads_trans: "leads reach live P Q \<Longrightarrow> leads reach live Q R \<Longrightarrow> leads reach live P R"
  unfolding leads_def by (meson reach_inv reach_trans)

lemma leads_cases: "leads reach live P R \<Longrightarrow> leads reach live Q R \<Longrightarrow> leads reach live (\<lambda>s. P s \<or> Q s) R"
  unfolding leads_def by blast

lemma leads_weaken: "leads reach live P Q \<Longrightarrow> (\<And>s. live s \<Longrightarrow> P' s \<Longrightarrow> P s) \<Longrightarrow> (\<And>s. live s \<Longrightarrow> Q s \<Longrightarrow> Q' s) \<Longrightarrow> leads reach live P' Q'"
  unfolding leads_def by (meson reach_inv)

lemma leads_measure:
  fixes m :: "'s \<Rightarrow> nat"
  assumes step: "\<And>k. leads reach live (\<lambda>s. P s \<and> \<not> Q s \<and> m s = k) (\<lambda>s. Q s \<or> P s \<and> m s < k)"
  shows "leads reach live P Q"
proof (rule leadsI)
  fix s assume "live s" "P s"
  then show "\<exists>t. reach s t \<and> Q t"
  proof (induction "m s" arbitrary: s rule: less_induct)
    case less
    show ?case
    proof (cases "Q s")
      case False
      then obtain t where t: "reach s t" "Q t \<or> P t \<and> m t < m s" using leadsD [OF step [of "m s"] less.prems(1)] less.prems(2) by auto
      show ?thesis
      proof (cases "Q t")
        case False
        then obtain u where "reach t u" "Q u" using less.hyps [of t] t reach_inv [OF less.prems(1) t(1)] by blast
        then show ?thesis using reach_trans [OF t(1)] by blast
      qed (use t in blast)
    qed (use reach_refl in blast)
  qed
qed

end

end
