(* ===== verification/PC1_Live.thy ===== *)
theory PC1_Live
  imports PC1_Reach Progress
begin

text \<open>
  Runs of PC1 on sectors that fit in the buffers.  \<open>fits\<close>: the nodes of all layers
  have room in the parent buffer and in the node buffer, so that nothing has to
  be released before the end, and they are whole batches of the coordinators.
  Then every state is \<open>timely\<close>, and \<open>pc1_live\<close> is an invariant of the runs; the
  interpretation of \<open>run_system\<close> gives the rules of progress for them.
\<close>

definition fits :: "pc1_cfg \<Rightarrow> bool" where
  "fits cf \<longleftrightarrow> cf_batch cf dvd node_total cf \<and> node_total cf + cf_npp cf * 2 < cf_parents cf \<and>
     node_total cf + cf_npp cf \<le> ring_nodes cf \<and> cf_npp cf \<le> disk_fifo_depth cf \<and>
     PAGE_BATCH_SIZE \<le> cf_queue cf \<and> cf_queue cf < SIZE_MOD"

definition drain_inv :: "pc1_cfg \<Rightarrow> nat list \<Rightarrow> coordinator_t list \<Rightarrow> bool" where
  "drain_inv cf cn cs \<longleftrightarrow> (\<forall>i < length cs.
     (co_pc (cs ! i) \<in> {CDrain, CDone} \<longrightarrow> node_total cf \<le> co_node (cs ! i)) \<and>
     (co_pc (cs ! i) = CDone \<longrightarrow> node_total cf \<le> cn ! i))"

definition pc1_live :: "sha_fun \<Rightarrow> pc1_cfg \<Rightarrow> 32 word list \<Rightarrow> replica_id_buffer_t list \<Rightarrow> pc1_state \<Rightarrow> bool" where
  "pc1_live sha cf buf bufs st \<longleftrightarrow> cfg_ok cf \<and> graph_ok cf buf \<and> fits cf \<and>
     pc1_inv cf buf (sector_label sha cf buf bufs) bufs st \<and> drain_inv cf (coordinator_node (st_sys st)) (st_coords st)"

lemma fitsD:
  assumes "fits cf"
  shows "cf_batch cf dvd node_total cf" "node_total cf + cf_npp cf * 2 < cf_parents cf" "node_total cf + cf_npp cf \<le> ring_nodes cf"
    "cf_npp cf \<le> disk_fifo_depth cf" "PAGE_BATCH_SIZE \<le> cf_queue cf" "cf_queue cf < SIZE_MOD"
  using assms by (simp_all add: fits_def)

lemma pc1_liveD:
  assumes "pc1_live sha cf buf bufs st"
  shows "cfg_ok cf" "graph_ok cf buf" "fits cf" "pc1_inv cf buf (sector_label sha cf buf bufs) bufs st"
    "drain_inv cf (coordinator_node (st_sys st)) (st_coords st)"
  using assms by (simp_all add: pc1_live_def)

lemma live_timely:
  assumes "pc1_live sha cf buf bufs st"
  shows "timely cf st"
proof -
  note L = pc1_liveD [OF assms]
  have "reserved (st_orch st) \<le> node_total cf" using orch_baseD(5) [OF pc1_invD(1) [OF L(4)]] .
  then show ?thesis using fitsD(2) [OF L(3)] unfolding timely_def Let_def by auto
qed


section \<open>The coordinators at the end\<close>

lemma coord_advance_pc:
  assumes "coord_advance cf i s c = Inr (s', c')"
  shows "co_pc c' = CRun"
  using assms by (auto simp: coord_advance_def Let_def bind_result_Inr_iff split: if_splits)

lemma coord_reserve_pc:
  assumes "coord_reserve cf i s c = Inr (s', c')"
  shows "co_pc c' = CRun"
  using assms coord_advance_pc by (auto simp: coord_reserve_def bind_result_Inr_iff split: option.splits prod.splits)

lemma vec_set_nth: "vec_set xs i x = Inr ys \<Longrightarrow> ys = xs[i := x] \<and> i < length xs"
  by (auto simp: vec_set_def split: if_splits)

lemma coord_step_end:
  assumes "coord_step cf stop i s c = Inr (s', c')"
  shows "(co_pc c' \<in> {CDrain, CDone} \<longrightarrow> stop \<le> co_node c' \<or> co_pc c \<in> {CDrain, CDone} \<and> co_node c' = co_node c) \<and>
    (co_pc c' = CDone \<longrightarrow> (co_pc c = CDone \<and> coordinator_node s' = coordinator_node s) \<or> (i < length (coordinator_node s) \<and> stop \<le> coordinator_node s' ! i))"
proof -
  have copy: "co_pc c' \<in> {CRun, CRecover}" if "coord_copy cf stop i s c = Inr (s', c')"
    using that coord_advance_pc [of cf i s _ s' c'] by (auto simp: coord_copy_def Let_def bind_result_Inr_iff split: if_splits)
  have rec: "co_pc c' = CRun \<or> c' = c" if "coord_recover cf i s c = Inr (s', c')"
    using that coord_reserve_pc by (auto simp: coord_recover_def bind_result_Inr_iff split: if_splits)
  show ?thesis
  proof (cases "co_pc c")
    case CRun
    then show ?thesis using assms copy by (auto simp: coord_step_def bind_result_Inr_iff split: if_splits)
  next
    case CRecover
    then show ?thesis using assms rec by (auto simp: coord_step_def)
  next
    case CDrain
    then show ?thesis using assms
      by (auto simp: coord_step_def coord_drain_def take_back_def bind_result_Inr_iff dest!: vec_set_nth split: if_splits)
  qed (use assms in \<open>auto simp: coord_step_def\<close>)
qed


section \<open>Steps of the orchestrator\<close>

definition orch_rank :: "pc1_cfg \<Rightarrow> orchestrator_t \<Rightarrow> nat" where
  "orch_rank cf o1 = (case orch_pc o1 of
     OTop \<Rightarrow> 0 | ODone \<Rightarrow> 0 | OCheck \<Rightarrow> 1 | ORelease a f \<Rightarrow> 2 + a | OWritten a \<Rightarrow> 11 + a | OParents a \<Rightarrow> 20 + a
   | OWrites a \<Rightarrow> 29 + a | ONodes \<Rightarrow> 38 + (rb_max_batch (rb_locals o1) - rb_i (rb_locals o1)) | ORead \<Rightarrow> 39 + cf_npp cf * 2
   | OMin i \<Rightarrow> 40 + cf_npp cf * 2 + (length (cf_hashers cf) - i))"

definition orch_effect :: "pc1_cfg \<Rightarrow> system_buffers_t \<Rightarrow> orchestrator_t \<Rightarrow> system_buffers_t \<Rightarrow> orchestrator_t \<Rightarrow> bool" where
  "orch_effect cf s o1 s' o2 \<longleftrightarrow> coordinator_node s' = coordinator_node s \<and> node_of o1 \<le> node_of o2 \<and>
     writing o1 \<le> writing o2 \<and> written o1 \<le> written o2 \<and> (orch_pc o1 \<noteq> OTop \<and> orch_pc o1 \<noteq> ODone \<longrightarrow> orch_rank cf o2 < orch_rank cf o1)"

lemma node_of_frame [simp]:
  "node_of (o1\<lparr>orch_pc := pc\<rparr>) = node_of o1" "node_of (o1\<lparr>min_node_hash := x\<rparr>) = node_of o1" "node_of (o1\<lparr>min_node := x\<rparr>) = node_of o1"
  "node_of (o1\<lparr>next_node := x\<rparr>) = node_of o1" "node_of (o1\<lparr>loop_node := x\<rparr>) = node_of o1" "node_of (o1\<lparr>rb_locals := rb\<rparr>) = node_of o1"
  "node_of (o1\<lparr>tail_node := x\<rparr>) = node_of o1" "node_of (o1\<lparr>tail_node_parents := x\<rparr>) = node_of o1" "node_of (o1\<lparr>outstanding_writes := x\<rparr>) = node_of o1"
  "node_of (o1\<lparr>head_node_write := w\<rparr>) = node_of o1" "node_of (o1\<lparr>tail_node_write := w\<rparr>) = node_of o1"
  by (simp_all add: node_of_def)

lemma orch_read_effect:
  assumes live: "pc1_live sha cf buf bufs st" and pc: "orch_pc (st_orch st) = ORead"
    and e: "orch_read cf (st_sys st) (st_orch st) = Inr (s', o2)"
  shows "orch_effect cf (st_sys st) (st_orch st) s' o2"
proof -
  let ?s = "st_sys st" and ?o = "st_orch st"
  note L = pc1_liveD [OF live] and I = pc1_invD [OF pc1_liveD(4) [OF live]]
  have "size_sub (node_stop ?o) (node_of ?o) < SIZE_MOD" by (simp add: size_sub_def SIZE_MOD_def)
  then have "max_batch cf ?s (size_sub (node_stop ?o) (node_of ?o)) \<le> cf_npp cf * 2"
    using max_batch_bounds(3) [OF L(1) I(2)] I(5) by (simp add: fifo_shape_def)
  then show ?thesis using e pc unfolding orch_effect_def orch_read_def read_batch_begin_def Let_def orch_rank_def
    by (auto simp: bind_result_Inr_iff ACTION_BATCH_def split: if_splits)
qed

lemma orch_nodes_effect:
  assumes live: "pc1_live sha cf buf bufs st" and pc: "orch_pc (st_orch st) = ONodes"
    and e: "orch_nodes cf (st_sys st) (st_orch st) = Inr (s', o2)"
  shows "orch_effect cf (st_sys st) (st_orch st) s' o2"
    "rb_i (rb_locals (st_orch st)) < rb_max_batch (rb_locals (st_orch st)) \<Longrightarrow> node_of o2 = Suc (node_of (st_orch st))"
proof -
  let ?s = "st_sys st" and ?o = "st_orch st" and ?rb = "rb_locals (st_orch st)"
  note L = pc1_liveD [OF live] and I = pc1_invD [OF pc1_liveD(4) [OF live]]
  have N: "orch_effect cf ?s ?o s' o2 \<and> node_of o2 = Suc (node_of ?o)" if lt: "rb_i ?rb < rb_max_batch ?rb"
  proof -
    have e': "read_node cf ?s ?o = Inr (s', o2)" using e lt by (simp add: orch_nodes_def)
    from read_node_result [OF L(1,2,4) pc lt] obtain io ps sy ns it q v k b where
      s': "s' = (upd_slot (node_of ?o mod cf_parents cf) io ps sy ns ?s)\<lparr>parent_buffer := b, parent_read_fifo := q\<rparr>" and
      o2: "o2 = read_next cf (node_ptr cf (node_of ?o)) it (?o\<lparr>rb_locals := ?rb\<lparr>cur_node_buffer_id := k\<rparr>\<rparr>)" and
      w: "walk_inv (cf_bits cf) 0 (PARENT_COUNT * Suc (node_of ?o)) it"
      unfolding node_result_def Let_def e' sum.inject prod.inject by blast
    have "unat (pi_node it) = Suc (node_of ?o)" using w by (simp add: walk_inv_def constant_defs)
    then have "node_of o2 = Suc (node_of ?o)" by (simp add: o2 read_next_def Let_def node_of_def)
    then show ?thesis using pc lt by (simp add: orch_effect_def s' o2 read_next_def Let_def orch_rank_def)
  qed
  then show "orch_effect cf ?s ?o s' o2" using e pc
    by (cases "rb_i ?rb < rb_max_batch ?rb") (auto simp: orch_nodes_def orch_effect_def orch_rank_def ACTION_BATCH_def)
  show "rb_i ?rb < rb_max_batch ?rb \<Longrightarrow> node_of o2 = Suc (node_of ?o)" using N by blast
qed

lemma orch_writes_effect:
  assumes live: "pc1_live sha cf buf bufs st" and pc: "orch_pc (st_orch st) = OWrites a"
    and e: "orch_writes cf a (st_sys st) (st_orch st) = Inr (s', o2)"
  shows "orch_effect cf (st_sys st) (st_orch st) s' o2"
proof -
  let ?s = "st_sys st" and ?o = "st_orch st"
  note L = pc1_liveD [OF live] and B = orch_baseD [OF pc1_invD(1) [OF pc1_liveD(4) [OF live]]]
  note P = pc1_bounds [OF pc1_invD(1) [OF L(4)]]
  have "w \<le> cf_npp cf \<and> coordinator_node s1 = coordinator_node ?s" if "write_nodes cf ?s ?o = Inr (w, s1)" for w s1
    using that by (auto simp: write_nodes_def Let_def bind_result_Inr_iff split: if_splits)
  then show ?thesis using e pc counter_add_ring(1) [OF L(1) B(14) P(3)]
    by (auto simp: orch_writes_def write_action_def orch_effect_def orch_rank_def ACTION_BATCH_def bind_result_Inr_iff split: if_splits)
qed

lemma orch_written_effect:
  assumes live: "pc1_live sha cf buf bufs st" and pc: "orch_pc (st_orch st) = OWritten a"
    and e: "orch_written cf a (st_sys st) (st_orch st) = Inr (s', o2)"
  shows "orch_effect cf (st_sys st) (st_orch st) s' o2"
proof -
  note L = pc1_liveD [OF live] and B = orch_baseD [OF pc1_invD(1) [OF pc1_liveD(4) [OF live]]]
  note P = pc1_bounds [OF pc1_invD(1) [OF L(4)]]
  show ?thesis using e pc counter_add_ring(1) [OF L(1) B(13) P(4) order.refl]
    by (auto simp: orch_written_def advance_written_def Let_def orch_effect_def orch_rank_def ACTION_BATCH_def bind_result_Inr_iff split: if_splits)
qed

lemma orch_release_effect:
  assumes "orch_pc o1 = ORelease a f" "orch_release cf a f s o1 = (s', o2)"
  shows "orch_effect cf s o1 s' o2"
  using assms sync_batch_free_frame [of s]
  by (auto simp: orch_release_def release_node_def orch_effect_def orch_rank_def split: if_splits option.splits)

lemma release_parent_frame:
  obtains x where "release_parent cf s o1 = (s\<lparr>node_buffer_sync := x, parent_buffer := release (cf_parents cf) (parent_buffer s)\<rparr>,
      o1\<lparr>tail_node_parents := size_add (tail_node_parents o1) 1\<rparr>)"
proof -
  obtain x where "fold (\<lambda>j s. add_consumed (parent_ptr_syncs s (rb_tail (parent_buffer s1)) j) s) [0..<PARENT_PTR_BATCH_SIZE] s =
      s\<lparr>node_buffer_sync := x\<rparr>" if "s1 = s" for s1 using fold_add_consumed by blast
  then show ?thesis by (intro that [of x]) (simp add: release_parent_def Let_def)
qed

lemma orch_parents_effect:
  assumes "orch_pc o1 = OParents a" "orch_parents cf a s o1 = (s', o2)"
  shows "orch_effect cf s o1 s' o2"
proof -
  obtain x where "release_parent cf s o1 = (s\<lparr>node_buffer_sync := x, parent_buffer := release (cf_parents cf) (parent_buffer s)\<rparr>,
      o1\<lparr>tail_node_parents := size_add (tail_node_parents o1) 1\<rparr>)" by (rule release_parent_frame)
  then show ?thesis using assms
    by (cases "a > 0 \<and> tail_node_parents o1 < min_node_hash o1")
      (simp_all add: orch_parents_def orch_effect_def orch_rank_def ACTION_BATCH_def, auto)
qed

lemma orch_step_effect:
  assumes live: "pc1_live sha cf buf bufs st" and e: "orch_step cf (st_sys st) (st_orch st) = Inr (s', o2)"
  shows "orch_effect cf (st_sys st) (st_orch st) s' o2"
proof -
  have len: "length (coordinator_node (st_sys st)) = length (cf_hashers cf)"
    using orch_minsD(1) [OF pc1_invD(3) [OF pc1_liveD(4) [OF live]]] .
  show ?thesis
  proof (cases "orch_pc (st_orch st)")
    case ORead
    then show ?thesis using orch_read_effect [OF live] e by (simp add: orch_step_def)
  next
    case ONodes
    then show ?thesis using orch_nodes_effect(1) [OF live] e by (simp add: orch_step_def)
  next
    case (OWrites a)
    then show ?thesis using orch_writes_effect [OF live] e by (simp add: orch_step_def)
  next
    case (OWritten a)
    then show ?thesis using orch_written_effect [OF live] e by (simp add: orch_step_def)
  next
    case (OParents a)
    then show ?thesis using orch_parents_effect e by (auto simp: orch_step_def)
  next
    case (ORelease a f)
    then show ?thesis using orch_release_effect e by (auto simp: orch_step_def)
  next
    case (OMin i)
    then show ?thesis using e len by (auto simp: orch_step_def orch_min_def orch_effect_def orch_rank_def split: if_splits)
  qed (use e in \<open>auto simp: orch_step_def orch_top_def orch_check_def Let_def bind_result_Inr_iff orch_effect_def orch_rank_def split: if_splits\<close>)
qed


section \<open>The invariant of the runs\<close>

lemma hash_frame: "coordinator_node (fst (hash sha cf c t th e s)) = coordinator_node s"
  by (simp add: hash_def Let_def hash_store_def)

lemma run_thread_frame:
  assumes "run_thread_hash sha cf t th s c = Inr (s', c')"
  shows "coordinator_node s' = coordinator_node s" "co_pc c' = co_pc c" "co_node c' = co_node c"
proof -
  obtain e where e: "get_entry (node_buffer s) (th_node_idx th) = Some e" using assms by (auto simp: run_thread_hash_def split: option.splits)
  obtain s1 th1 where h: "hash sha cf c t th e s = (s1, th1)" by fastforce
  have "coordinator_node s1 = coordinator_node s" using hash_frame [of sha cf c t th e s] h by simp
  then have "coordinator_node s' = coordinator_node s \<and> co_pc c' = co_pc c \<and> co_node c' = co_node c"
    using assms by (auto simp: run_thread_hash_def e h Let_def bind_result_Inr_iff split: if_splits)
  then show "coordinator_node s' = coordinator_node s" "co_pc c' = co_pc c" "co_node c' = co_node c" by simp_all
qed

lemma thread_step_frame:
  assumes "thread_step sha cf stop t s c = Inr (s', c')"
  shows "coordinator_node s' = coordinator_node s" "co_pc c' = co_pc c" "co_node c' = co_node c"
proof -
  obtain th where th: "vec_get (threads c) t = Inr th" using assms by (auto simp: thread_step_def bind_result_Inr_iff)
  have "coordinator_node s' = coordinator_node s \<and> co_pc c' = co_pc c \<and> co_node c' = co_node c"
  proof (cases "th_i th > 0 \<or> th_node th < th_valid_nodes th")
    case True
    then have "run_thread_hash sha cf t th s c = Inr (s', c')" using assms by (simp add: thread_step_def th)
    from run_thread_frame [OF this] show ?thesis by simp
  next
    case False
    then show ?thesis using assms by (auto simp: thread_step_def th split: if_splits)
  qed
  then show "coordinator_node s' = coordinator_node s" "co_pc c' = co_pc c" "co_node c' = co_node c" by simp_all
qed

lemma drain_inv_update:
  assumes "drain_inv cf cn cs" "\<And>j. j \<noteq> i \<Longrightarrow> cn' ! j = cn ! j"
    "i < length cs \<Longrightarrow> (co_pc c' \<in> {CDrain, CDone} \<longrightarrow> node_total cf \<le> co_node c') \<and> (co_pc c' = CDone \<longrightarrow> node_total cf \<le> cn' ! i)"
  shows "drain_inv cf cn' (cs[i := c'])"
  unfolding drain_inv_def
proof (intro allI impI)
  fix j assume j: "j < length (cs[i := c'])"
  show "(co_pc (cs[i := c'] ! j) \<in> {CDrain, CDone} \<longrightarrow> node_total cf \<le> co_node (cs[i := c'] ! j)) \<and>
      (co_pc (cs[i := c'] ! j) = CDone \<longrightarrow> node_total cf \<le> cn' ! j)"
    using assms j by (cases "j = i") (simp_all add: drain_inv_def)
qed

lemma drain_act:
  assumes live: "pc1_live sha cf buf bufs st" and act: "pc1_act sha cf a st = Some (Inr st')"
  shows "drain_inv cf (coordinator_node (st_sys st')) (st_coords st')"
proof -
  note D = pc1_liveD(5) [OF live]
  show ?thesis
  proof (cases a)
    case Orch
    then obtain s' o2 where "orch_step cf (st_sys st) (st_orch st) = Inr (s', o2)" "st' = st\<lparr>st_sys := s', st_orch := o2\<rparr>"
      using act by (auto simp: pc1_act_def act_orch_def bind_result_Inr_iff split: if_splits)
    with orch_step_effect [OF live this(1)] D show ?thesis by (simp add: orch_effect_def)
  next
    case (Coord i)
    then obtain s' c' where i: "i < length (st_coords st)" and e: "coord_step cf (node_total cf) i (st_sys st) (st_coords st ! i) = Inr (s', c')"
      and st': "st' = st\<lparr>st_sys := s', st_coords := (st_coords st)[i := c']\<rparr>"
      using act by (auto simp: pc1_act_def act_coord_def bind_result_Inr_iff split: if_splits)
    obtain x where "coordinator_node s' = (coordinator_node (st_sys st))[i := x]"
      using coord_step_result [OF pc1_env [OF pc1_liveD(1,4) [OF live] i]] e by (auto simp: coord_result_def)
    then show ?thesis unfolding st' using D coord_step_end [OF e] i
      by (simp, intro drain_inv_update [OF D]) (auto simp: drain_inv_def)
  next
    case (Thread i t)
    then obtain s' c' where i: "i < length (st_coords st)" and e: "thread_step sha cf (node_total cf) t (st_sys st) (st_coords st ! i) = Inr (s', c')"
      and st': "st' = st\<lparr>st_sys := s', st_coords := (st_coords st)[i := c']\<rparr>"
      using act by (auto simp: pc1_act_def act_thread_def bind_result_Inr_iff split: if_splits)
    show ?thesis unfolding st' using D thread_step_frame [OF e] i
      by (simp, intro drain_inv_update [OF D]) (auto simp: drain_inv_def)
  qed (use act D in \<open>auto simp: pc1_act_def act_reader_batch_def act_reader_transfer_def act_reader_complete_def act_writer_batch_def
      act_writer_transfer_def act_writer_complete_def parent_transfer_def node_transfer_def bind_result_Inr_iff Let_def split: if_splits prod.splits\<close>)
qed

lemma live_act:
  assumes live: "pc1_live sha cf buf bufs st" and act: "pc1_act sha cf a st = Some r"
  shows "\<exists>st'. r = Inr st' \<and> pc1_live sha cf buf bufs st' \<and> pc1_reach sha cf st st'"
proof -
  note L = pc1_liveD [OF live] and T = live_timely [OF live]
  obtain st' where r: "r = Inr st'" and inv: "pc1_inv cf buf (sector_label sha cf buf bufs) bufs st'"
    using pc1_act_ok [OF L(1,2,4) T, of a] act by (auto simp: step_ok_def)
  have "pc1_live sha cf buf bufs st'" using L(1-3) inv drain_act [OF live act [unfolded r]] by (simp add: pc1_live_def)
  moreover have "pc1_reach sha cf st st'" using reach_act [OF reach_init T act [unfolded r]] .
  ultimately show ?thesis using r by blast
qed

lemma live_reach:
  assumes "pc1_reach sha cf st st'" "pc1_live sha cf buf bufs st"
  shows "pc1_live sha cf buf bufs st'"
  using assms
proof induction
  case (reach_act st1 a st2)
  then show ?case using live_act [of sha cf buf bufs st1 a] by fastforce
qed simp

lemma reach_trans:
  assumes "pc1_reach sha cf st1 st2" "pc1_reach sha cf st0 st1"
  shows "pc1_reach sha cf st0 st2"
  using assms by induction (auto intro: pc1_reach.reach_act)

interpretation pr: run_system "pc1_reach sha cf" "pc1_live sha cf buf bufs" for sha cf buf bufs
  by unfold_locales (auto intro: reach_init reach_trans live_reach)

text \<open>A step that is enabled and whose effect is known.\<close>

lemma leads_act:
  assumes "\<And>st. pc1_live sha cf buf bufs st \<Longrightarrow> P st \<Longrightarrow>
    \<exists>a. pc1_act sha cf a st \<noteq> None \<and> (\<forall>st'. pc1_act sha cf a st = Some (Inr st') \<longrightarrow> pc1_live sha cf buf bufs st' \<longrightarrow> Q st')"
  shows "leads (pc1_reach sha cf) (pc1_live sha cf buf bufs) P Q"
proof (rule leadsI)
  fix st assume "pc1_live sha cf buf bufs st" "P st"
  with assms obtain a where "pc1_act sha cf a st \<noteq> None"
    "\<forall>st'. pc1_act sha cf a st = Some (Inr st') \<longrightarrow> pc1_live sha cf buf bufs st' \<longrightarrow> Q st'" by blast
  with live_act [OF \<open>pc1_live sha cf buf bufs st\<close>, of a] show "\<exists>t. pc1_reach sha cf st t \<and> Q t" by blast
qed

end
