(* ===== verification/PC1_Idle.thy ===== *)
theory PC1_Idle
  imports PC1_Live
begin

text \<open>
  The reader and the writer can always finish what they have been given:
  without steps of the other threads they come to a state with an empty fifo and
  no request under way.
\<close>

definition io_weight :: "io_req_t \<Rightarrow> nat" where
  "io_weight r = (if rq_done r then 1 else 2)"

definition io_measure :: "nat fifo_t \<Rightarrow> node_rw_t \<Rightarrow> nat" where
  "io_measure q rw = 28 * length (fifo_list q) + sum_list (map io_weight (rw_inflight rw)) + (if rw_todo rw = 0 then 1 else 0)"

definition io_idle :: "nat fifo_t \<Rightarrow> node_rw_t \<Rightarrow> bool" where
  "io_idle q rw \<longleftrightarrow> fifo_list q = [] \<and> rw_inflight rw = [] \<and> rw_todo rw = 0"

lemma rw_batch_measure:
  assumes ok: "cfg_ok cf" and q: "fifo_inv q" "fifo_list q = Some slot # qs" and t: "0 < rw_todo rw" and b: "batch_size \<le> PAGE_BATCH_SIZE"
    and e: "rw_batch cf batch_size ios q rw = Inr (q', rw')"
  shows "io_measure q' rw' < io_measure q rw"
proof -
  let ?js = "filter (\<lambda>j. io_type (ios slot j) \<noteq> NOP) [0..<batch_size]"
  have "length ?js \<le> 13" using length_filter_le [of "\<lambda>j. io_type (ios slot j) \<noteq> NOP" "[0..<batch_size]"] b by (simp add: constant_defs)
  moreover have "sum_list (map io_weight (map (\<lambda>j. mk_req cf slot (ios slot j) j) js)) = 2 * length js" for js
    by (induction js) (simp_all add: io_weight_def)
  ultimately have "sum_list (map io_weight (map (\<lambda>j. mk_req cf slot (ios slot j) j) ?js)) \<le> 26" by simp
  then show ?thesis using rw_batch_eq [OF ok q, of batch_size ios rw] e q(2) t by (auto simp: io_measure_def)
qed

lemma rw_min_free_idle:
  assumes "rw_inflight rw = []" "cf_queue cf < SIZE_MOD"
  shows "rw_min_free cf rw = cf_queue cf"
proof -
  have z: "size_sub (cf_queue cf) (get_outstanding_io_ops c rw) = cf_queue cf" for c
    using assms size_sub_small [of 0 "cf_queue cf"] by (simp add: get_outstanding_io_ops_def)
  have "fold (\<lambda>c m. min m (cf_queue cf)) cs (cf_queue cf) = cf_queue cf" for cs :: "nat list" by (induction cs) simp_all
  then show ?thesis by (simp add: rw_min_free_def z)
qed

lemma rw_begin_measure:
  assumes f: "fits cf" and q: "fifo_inv q" "fifo_list q \<noteq> []" and rw: "rw_inflight rw = []" "rw_todo rw = 0"
    and b: "0 < batch_size" "batch_size \<le> PAGE_BATCH_SIZE"
  shows "io_measure q (rw_begin cf batch_size q rw) < io_measure q rw"
proof -
  have "0 < cf_queue cf div batch_size" using fitsD(5) [OF f] b by (simp add: div_greater_zero_iff)
  moreover have "0 < fifo_size q" using q fifo_size_list [OF q(1)] by (metis length_greater_0_conv)
  ultimately have "0 < rw_todo (rw_begin cf batch_size q rw)"
    using rw_min_free_idle [OF rw(1) fitsD(6) [OF f]] by (simp add: rw_begin_def)
  then show ?thesis using rw by (simp add: io_measure_def rw_begin_def)
qed

lemma io_first_measure:
  assumes "rw_inflight rw \<noteq> []"
  shows "\<not> rq_done (rw_inflight rw ! 0) \<Longrightarrow> io_measure q (set_done 0 rw) < io_measure q rw"
    "rq_done (rw_inflight rw ! 0) \<Longrightarrow> io_measure q (drop_request 0 rw) < io_measure q rw"
  using assms by (cases "rw_inflight rw"; simp add: io_measure_def set_done_def drop_request_def remove_nth_def io_weight_def)+

text \<open>What the reader and the writer leave unchanged.\<close>

definition kept :: "pc1_state \<Rightarrow> orchestrator_t \<times> coordinator_t list \<times> nat list" where
  "kept st = (st_orch st, st_coords st, coordinator_node (st_sys st))"

lemma transfer_frame [simp]:
  "coordinator_node (fst (parent_transfer r s d)) = coordinator_node s" "parent_read_fifo (fst (parent_transfer r s d)) = parent_read_fifo s"
  "coordinator_node (fst (node_transfer r s d)) = coordinator_node s" "node_write_fifo (fst (node_transfer r s d)) = node_write_fifo s"
  by (simp_all add: parent_transfer_def node_transfer_def)

lemma reader_step:
  assumes live: "pc1_live sha cf buf bufs st" and busy: "\<not> io_idle (parent_read_fifo (st_sys st)) (st_reader st)"
  shows "\<exists>a. pc1_act sha cf a st \<noteq> None \<and> (\<forall>st'. pc1_act sha cf a st = Some (Inr st') \<longrightarrow> kept st' = kept st \<and>
    io_measure (parent_read_fifo (st_sys st')) (st_reader st') < io_measure (parent_read_fifo (st_sys st)) (st_reader st))"
proof -
  let ?q = "parent_read_fifo (st_sys st)" and ?rw = "st_reader st"
  note L = pc1_liveD [OF live] and I = pc1_invD [OF pc1_liveD(4) [OF live]]
  have q: "fifo_inv ?q" using I(5) by (simp add: fifo_shape_def)
  have head: "\<exists>slot qs. fifo_list ?q = Some slot # qs" if "fifo_list ?q \<noteq> []" using fifo_shape_head(1) [OF I(5) that] by blast
  consider "0 < rw_todo ?rw" | "rw_todo ?rw = 0" "rw_inflight ?rw \<noteq> []" "\<not> rq_done (rw_inflight ?rw ! 0)"
    | "rw_todo ?rw = 0" "rw_inflight ?rw \<noteq> []" "rq_done (rw_inflight ?rw ! 0)" | "rw_todo ?rw = 0" "rw_inflight ?rw = []" "fifo_list ?q \<noteq> []"
    using busy unfolding io_idle_def by auto
  then show ?thesis
  proof cases
    case 1
    then have "fifo_list ?q \<noteq> []" using I(13) by (auto simp: todo_inv_def)
    then obtain slot qs where "fifo_list ?q = Some slot # qs" using head by blast
    from rw_batch_measure [OF L(1) q this 1 order.refl] 1 show ?thesis
      by (intro exI [of _ ReaderBatch]) (auto simp: pc1_act_def act_reader_batch_def bind_result_Inr_iff kept_def)
  next
    case 2
    then show ?thesis using io_first_measure(1) [OF 2(2,3), of ?q]
      by (intro exI [of _ "ReaderTransfer 0"]) (auto simp: pc1_act_def act_reader_transfer_def Let_def split_beta kept_def)
  next
    case 3
    then show ?thesis using io_first_measure(2) [OF 3(2,3), of ?q]
      by (intro exI [of _ "ReaderComplete 0"]) (auto simp: pc1_act_def act_reader_complete_def Let_def bind_result_Inr_iff kept_def)
  next
    case 4
    then show ?thesis using rw_begin_measure [OF L(3) q 4(3,2,1), of PAGE_BATCH_SIZE]
      by (intro exI [of _ ReaderBegin]) (auto simp: pc1_act_def kept_def constant_defs)
  qed
qed

lemma writer_step:
  assumes live: "pc1_live sha cf buf bufs st" and busy: "\<not> io_idle (node_write_fifo (st_sys st)) (st_writer st)"
  shows "\<exists>a. pc1_act sha cf a st \<noteq> None \<and> (\<forall>st'. pc1_act sha cf a st = Some (Inr st') \<longrightarrow> kept st' = kept st \<and>
    io_measure (node_write_fifo (st_sys st')) (st_writer st') < io_measure (node_write_fifo (st_sys st)) (st_writer st))"
proof -
  let ?q = "node_write_fifo (st_sys st)" and ?rw = "st_writer st"
  note L = pc1_liveD [OF live] and I = pc1_invD [OF pc1_liveD(4) [OF live]]
  note W = write_invD [OF I(11)]
  have head: "\<exists>slot qs. fifo_list ?q = Some slot # qs" if "fifo_list ?q \<noteq> []"
    using that W(4) by (cases "fifo_list ?q") (auto simp: Cons_eq_map_conv)
  consider "0 < rw_todo ?rw" | "rw_todo ?rw = 0" "rw_inflight ?rw \<noteq> []" "\<not> rq_done (rw_inflight ?rw ! 0)"
    | "rw_todo ?rw = 0" "rw_inflight ?rw \<noteq> []" "rq_done (rw_inflight ?rw ! 0)" | "rw_todo ?rw = 0" "rw_inflight ?rw = []" "fifo_list ?q \<noteq> []"
    using busy unfolding io_idle_def by auto
  then show ?thesis
  proof cases
    case 1
    then have "fifo_list ?q \<noteq> []" using I(13) by (auto simp: todo_inv_def)
    then obtain slot qs where "fifo_list ?q = Some slot # qs" using head by blast
    from rw_batch_measure [OF L(1) W(1) this 1, of 1] 1 show ?thesis
      by (intro exI [of _ WriterBatch]) (auto simp: pc1_act_def act_writer_batch_def bind_result_Inr_iff kept_def constant_defs)
  next
    case 2
    then show ?thesis using io_first_measure(1) [OF 2(2,3), of ?q]
      by (intro exI [of _ "WriterTransfer 0"]) (auto simp: pc1_act_def act_writer_transfer_def Let_def split_beta kept_def)
  next
    case 3
    then show ?thesis using io_first_measure(2) [OF 3(2,3), of ?q]
      by (intro exI [of _ "WriterComplete 0"]) (auto simp: pc1_act_def act_writer_complete_def Let_def bind_result_Inr_iff kept_def)
  next
    case 4
    then show ?thesis using rw_begin_measure [OF L(3) W(1) 4(3,2,1), of 1]
      by (intro exI [of _ WriterBegin]) (auto simp: pc1_act_def kept_def constant_defs)
  qed
qed

lemma reader_drains:
  "leads (pc1_reach sha cf) (pc1_live sha cf buf bufs) (\<lambda>st. kept st = k)
    (\<lambda>st. kept st = k \<and> io_idle (parent_read_fifo (st_sys st)) (st_reader st))"
  by (rule pr.leads_measure [where m = "\<lambda>st. io_measure (parent_read_fifo (st_sys st)) (st_reader st)"], rule leads_act)
    (use reader_step in blast)

lemma writer_drains:
  "leads (pc1_reach sha cf) (pc1_live sha cf buf bufs) (\<lambda>st. kept st = k)
    (\<lambda>st. kept st = k \<and> io_idle (node_write_fifo (st_sys st)) (st_writer st))"
  by (rule pr.leads_measure [where m = "\<lambda>st. io_measure (node_write_fifo (st_sys st)) (st_writer st)"], rule leads_act)
    (use writer_step in blast)

end
