(* ===== verification/PC1_Prepare.thy ===== *)
theory PC1_Prepare
  imports PC1_Idle
begin

text \<open>
  The orchestrator comes to the end of its loop body from every program point,
  and it prepares the next nodes when the reader has emptied its fifo: the
  parents of all nodes can be prepared.
\<close>

definition orch_from :: "coordinator_t list \<Rightarrow> nat list \<Rightarrow> nat \<Rightarrow> nat \<Rightarrow> nat \<Rightarrow> pc1_state \<Rightarrow> bool" where
  "orch_from cs cn n a b st \<longleftrightarrow> st_coords st = cs \<and> coordinator_node (st_sys st) = cn \<and>
     n \<le> node_of (st_orch st) \<and> a \<le> writing (st_orch st) \<and> b \<le> written (st_orch st)"

lemma orch_act:
  assumes "pc1_act sha cf Orch st = Some (Inr st')"
  shows "\<exists>s' o2. orch_step cf (st_sys st) (st_orch st) = Inr (s', o2) \<and> st' = st\<lparr>st_sys := s', st_orch := o2\<rparr>"
  using assms by (auto simp: pc1_act_def act_orch_def bind_result_Inr_iff split: if_splits)

lemma orch_enabled: "orch_pc (st_orch st) \<noteq> ODone \<Longrightarrow> pc1_act sha cf Orch st \<noteq> None"
  by (simp add: pc1_act_def act_orch_def)

lemma orch_from_step:
  assumes live: "pc1_live sha cf buf bufs st" and f: "orch_from cs cn n a b st" and act: "pc1_act sha cf Orch st = Some (Inr st')"
  shows "orch_from cs cn n a b st'"
    "orch_pc (st_orch st) \<noteq> OTop \<Longrightarrow> orch_pc (st_orch st) \<noteq> ODone \<Longrightarrow> orch_rank cf (st_orch st') < orch_rank cf (st_orch st)"
proof -
  from orch_act [OF act] obtain s' o2 where e: "orch_step cf (st_sys st) (st_orch st) = Inr (s', o2)" "st' = st\<lparr>st_sys := s', st_orch := o2\<rparr>" by blast
  note E = orch_step_effect [OF live e(1), unfolded orch_effect_def]
  show "orch_from cs cn n a b st'" using f E unfolding orch_from_def e(2) by simp
  show "orch_pc (st_orch st) \<noteq> OTop \<Longrightarrow> orch_pc (st_orch st) \<noteq> ODone \<Longrightarrow> orch_rank cf (st_orch st') < orch_rank cf (st_orch st)"
    using E by (simp add: e(2))
qed

lemma orch_to_top:
  "leads (pc1_reach sha cf) (pc1_live sha cf buf bufs) (orch_from cs cn n a b)
    (\<lambda>st. orch_from cs cn n a b st \<and> (orch_pc (st_orch st) = OTop \<or> orch_pc (st_orch st) = ODone))"
proof (rule pr.leads_measure [where m = "\<lambda>st. orch_rank cf (st_orch st)"], rule leads_act, intro exI [of _ Orch] conjI allI impI)
  fix k st
  assume live: "pc1_live sha cf buf bufs st" and
    P: "orch_from cs cn n a b st \<and> \<not> (orch_from cs cn n a b st \<and> (orch_pc (st_orch st) = OTop \<or> orch_pc (st_orch st) = ODone)) \<and>
      orch_rank cf (st_orch st) = k"
  then show "pc1_act sha cf Orch st \<noteq> None" using orch_enabled by blast
  fix st' assume "pc1_act sha cf Orch st = Some (Inr st')"
  from orch_from_step [OF live _ this] P
  show "orch_from cs cn n a b st' \<and> (orch_pc (st_orch st') = OTop \<or> orch_pc (st_orch st') = ODone) \<or>
      orch_from cs cn n a b st' \<and> orch_rank cf (st_orch st') < k" by blast
qed


section \<open>Preparing nodes\<close>

lemma max_batch_pos:
  assumes live: "pc1_live sha cf buf bufs st" and pc: "orch_pc (st_orch st) \<noteq> ONodes" and n: "node_of (st_orch st) < node_total cf"
    and e: "fifo_list (parent_read_fifo (st_sys st)) = []"
  shows "0 < max_batch cf (st_sys st) (node_total cf - node_of (st_orch st))"
proof -
  let ?s = "st_sys st" and ?o = "st_orch st" and ?npp = "cf_npp cf"
  note L = pc1_liveD [OF live] and I = pc1_invD [OF pc1_liveD(4) [OF live]] and F = fitsD [OF pc1_liveD(3) [OF live]]
  note B = orch_baseD [OF I(1)] and npp = npp_facts(1) [OF L(1)]
  have R: "ring_at (cf_parents cf) (parent_buffer ?s) (tail_node_parents ?o) (node_of ?o)"
    "ring_at (cf_nodes cf) (node_buffer ?s) (tail_node ?o div ?npp) (node_of ?o div ?npp)"
    using I(2) reserved_node [OF pc] by (simp_all add: orch_rings_def)
  have dv: "?npp dvd node_of ?o" using B(6) reserved_node [OF pc] by simp
  have q: "fifo_inv (parent_read_fifo ?s)" "fifo_capacity (parent_read_fifo ?s) = disk_fifo_depth cf" using I(5) by (simp_all add: fifo_shape_def)
  have "disk_fifo_depth cf < SIZE_MOD" using cfg_okD(4,12) [OF L(1)] by (simp add: SIZE_MOD_def)
  then have free: "fifo_free_count (parent_read_fifo ?s) = disk_fifo_depth cf" using q e fifo_size_list [OF q(1)] by (simp add: fifo_free_count_def)
  have rem: "?npp \<le> node_total cf - node_of ?o"
    using n dv total_npp_dvd [OF L(1)] by (intro dvd_imp_le) (simp_all add: dvd_diff_nat)
  have par: "?npp \<le> rb_free_count (cf_parents cf) (parent_buffer ?s)" using ring_at_free_count [OF R(1)] F(2) n by simp
  define nf where "nf = rb_free_count (cf_nodes cf) (node_buffer ?s)"
  have "(node_of ?o + 2 * ?npp) div ?npp \<le> ring_nodes cf div ?npp" using rem n F(3) by (intro div_le_mono) linarith
  then have "node_of ?o div ?npp + 2 \<le> cf_nodes cf" using npp by (simp add: ring_nodes_def)
  then have nf: "1 \<le> nf" "nf \<le> cf_nodes cf" using ring_at_free_count [OF R(2)] by (simp_all add: nf_def)
  have "nf * ?npp \<le> ring_nodes cf" using nf(2) by (simp add: ring_nodes_def)
  then have "size_mul nf ?npp = nf * ?npp" using ring_nodes_bound(1) [OF L(1)] by (simp add: SIZE_MOD_def)
  then have nod: "?npp \<le> size_mul nf ?npp" using nf(1) by simp
  define x where "x = min (min (min (min (fifo_free_count (parent_read_fifo ?s)) (size_mul nf ?npp))
      (rb_free_count (cf_parents cf) (parent_buffer ?s))) (node_total cf - node_of ?o)) (?npp * 2)"
  have x: "?npp \<le> x" using F(4) free nod par rem by (simp add: x_def)
  have "x \<le> node_total cf" by (simp add: x_def)
  then have "x < SIZE_MOD" using node_total_bound [OF L(1)] by (simp add: SIZE_MOD_def)
  moreover have "max_batch cf ?s (node_total cf - node_of ?o) = unat (word_of_nat x AND NOT (word_of_nat (size_sub ?npp 1)) :: 64 word)"
    unfolding max_batch_def Let_def x_def nf_def by (rule HOL.refl)
  ultimately have "max_batch cf ?s (node_total cf - node_of ?o) = x div ?npp * ?npp" using round_down [OF L(1)] by simp
  moreover have "0 < x div ?npp" using x npp by (simp add: div_greater_zero_iff)
  ultimately show ?thesis using npp by simp
qed

definition preparing :: "pc1_cfg \<Rightarrow> nat \<Rightarrow> pc1_state \<Rightarrow> bool" where
  "preparing cf n st \<longleftrightarrow> node_of (st_orch st) = n \<and> n < node_total cf \<and> fifo_list (parent_read_fifo (st_sys st)) = [] \<and>
     (case orch_pc (st_orch st) of OMin i \<Rightarrow> True | ORead \<Rightarrow> True
      | ONodes \<Rightarrow> rb_i (rb_locals (st_orch st)) < rb_max_batch (rb_locals (st_orch st)) | _ \<Rightarrow> False)"

lemma preparing_step:
  assumes live: "pc1_live sha cf buf bufs st" and p: "preparing cf n st" and act: "pc1_act sha cf Orch st = Some (Inr st')"
  shows "node_of (st_orch st') = Suc n \<or> preparing cf n st' \<and> orch_rank cf (st_orch st') < orch_rank cf (st_orch st)"
proof -
  let ?s = "st_sys st" and ?o = "st_orch st"
  note L = pc1_liveD [OF live] and B = orch_baseD [OF pc1_invD(1) [OF pc1_liveD(4) [OF live]]]
  from orch_act [OF act] obtain s' o2 where e: "orch_step cf ?s ?o = Inr (s', o2)" and st': "st' = st\<lparr>st_sys := s', st_orch := o2\<rparr>" by blast
  have n: "node_of ?o = n" "n < node_total cf" "fifo_list (parent_read_fifo ?s) = []" using p by (simp_all add: preparing_def)
  have rank: "orch_rank cf (st_orch st') < orch_rank cf ?o"
    by (rule orch_from_step(2) [OF live _ act, of "st_coords st" "coordinator_node ?s" 0 0 0])
      (use p in \<open>auto simp: orch_from_def preparing_def\<close>)
  show ?thesis
  proof (cases "orch_pc ?o")
    case (OMin i)
    then show ?thesis using e n rank unfolding st' by (auto simp: orch_step_def orch_min_def preparing_def split: if_splits)
  next
    case ORead
    have "size_sub (node_total cf) n = node_total cf - n" using n(2) node_total_bound [OF L(1)] by (simp add: size_sub_small SIZE_MOD_def)
    moreover have "0 < max_batch cf ?s (node_total cf - n)" using max_batch_pos [OF live] ORead n by simp
    ultimately show ?thesis using e n rank ORead B(1) unfolding st'
      by (auto simp: orch_step_def orch_read_def read_batch_begin_def Let_def preparing_def bind_result_Inr_iff)
  next
    case ONodes
    then show ?thesis using orch_nodes_effect(2) [OF live ONodes] e p n(1) unfolding st' by (auto simp: orch_step_def preparing_def)
  qed (use p in \<open>simp_all add: preparing_def\<close>)
qed

lemma preparing_ends: "leads (pc1_reach sha cf) (pc1_live sha cf buf bufs) (preparing cf n) (\<lambda>st. node_of (st_orch st) = Suc n)"
proof (rule pr.leads_measure [where m = "\<lambda>st. orch_rank cf (st_orch st)"], rule leads_act, intro exI [of _ Orch] conjI allI impI)
  fix k st
  assume live: "pc1_live sha cf buf bufs st" and
    P: "preparing cf n st \<and> node_of (st_orch st) \<noteq> Suc n \<and> orch_rank cf (st_orch st) = k"
  have "orch_pc (st_orch st) \<noteq> ODone" using P by (auto simp: preparing_def)
  then show "pc1_act sha cf Orch st \<noteq> None" by (rule orch_enabled)
  fix st' assume "pc1_act sha cf Orch st = Some (Inr st')"
  from preparing_step [OF live _ this, of n] P
  show "node_of (st_orch st') = Suc n \<or> preparing cf n st' \<and> orch_rank cf (st_orch st') < k" by blast
qed

text \<open>At the top of the loop, with nodes left, the orchestrator goes on to prepare them.\<close>

lemma loop_entered:
  assumes live: "pc1_live sha cf buf bufs st" and pc: "orch_pc (st_orch st) = OTop" and act: "pc1_act sha cf Orch st = Some (Inr st')"
    and c: "written (st_orch st) < node_total cf \<or> loop_node (st_orch st) < node_total cf"
  shows "st' = st\<lparr>st_orch := (st_orch st)\<lparr>next_node := node_of (st_orch st), min_node_hash := coordinator_node (st_sys st) ! 0, orch_pc := OMin 1\<rparr>\<rparr>"
proof -
  note B = orch_baseD [OF pc1_invD(1) [OF pc1_liveD(4) [OF live]]]
  from orch_act [OF act] obtain s' o2 where e: "orch_step cf (st_sys st) (st_orch st) = Inr (s', o2)" and st': "st' = st\<lparr>st_sys := s', st_orch := o2\<rparr>" by blast
  show ?thesis using e c pc B(1) unfolding st' by (auto simp: orch_step_def orch_top_def bind_result_Inr_iff vec_get_def split: if_splits)
qed

lemma prepare_top:
  "leads (pc1_reach sha cf) (pc1_live sha cf buf bufs)
    (\<lambda>st. node_of (st_orch st) = n \<and> n < node_total cf \<and> orch_pc (st_orch st) = OTop \<and> fifo_list (parent_read_fifo (st_sys st)) = [])
    (\<lambda>st. node_of (st_orch st) = Suc n)"
proof (rule pr.leads_trans [OF _ preparing_ends], rule leads_act, intro exI [of _ Orch] conjI allI impI)
  fix st
  assume live: "pc1_live sha cf buf bufs st" and P: "node_of (st_orch st) = n \<and> n < node_total cf \<and> orch_pc (st_orch st) = OTop \<and>
      fifo_list (parent_read_fifo (st_sys st)) = []"
  then show "pc1_act sha cf Orch st \<noteq> None" by (intro orch_enabled) simp
  have c: "written (st_orch st) < node_total cf" using P orch_baseD(8,9) [OF pc1_invD(1) [OF pc1_liveD(4) [OF live]]] by simp
  fix st' assume "pc1_act sha cf Orch st = Some (Inr st')"
  from loop_entered [OF live _ this] P c show "preparing cf n st'" by (simp add: preparing_def)
qed

lemma prepare_next:
  "leads (pc1_reach sha cf) (pc1_live sha cf buf bufs) (\<lambda>st. node_of (st_orch st) = n \<and> n < node_total cf)
    (\<lambda>st. n < node_of (st_orch st) \<or> orch_pc (st_orch st) = ODone)"
proof (rule leadsI)
  fix st assume live: "pc1_live sha cf buf bufs st" and P: "node_of (st_orch st) = n \<and> n < node_total cf"
  have "orch_from (st_coords st) (coordinator_node (st_sys st)) n 0 0 st" using P by (simp add: orch_from_def)
  from leadsD [OF orch_to_top live this] obtain t where t: "pc1_reach sha cf st t" "n \<le> node_of (st_orch t)"
    "orch_pc (st_orch t) = OTop \<or> orch_pc (st_orch t) = ODone" by (auto simp: orch_from_def)
  show "\<exists>t. pc1_reach sha cf st t \<and> (n < node_of (st_orch t) \<or> orch_pc (st_orch t) = ODone)"
  proof (cases "n < node_of (st_orch t) \<or> orch_pc (st_orch t) = ODone")
    case False
    note live1 = live_reach [OF t(1) live]
    from leadsD [OF reader_drains live1 HOL.refl] obtain u where u: "pc1_reach sha cf t u" "kept u = kept t"
      "io_idle (parent_read_fifo (st_sys u)) (st_reader u)" by blast
    have "node_of (st_orch u) = n \<and> n < node_total cf \<and> orch_pc (st_orch u) = OTop \<and> fifo_list (parent_read_fifo (st_sys u)) = []"
      using False t u P by (auto simp: kept_def io_idle_def)
    from leadsD [OF prepare_top live_reach [OF u(1) live1] this] obtain v where "pc1_reach sha cf u v" "node_of (st_orch v) = Suc n" by blast
    then show ?thesis by (intro exI [of _ v]) (simp add: reach_trans [OF reach_trans [OF _ u(1)] t(1)])
  qed (use t(1) in blast)
qed

lemma live_node: "pc1_live sha cf buf bufs st \<Longrightarrow> node_of (st_orch st) \<le> node_total cf"
  using pc1_bounds(2) [OF pc1_invD(1) [OF pc1_liveD(4)]] .

lemma all_prepared:
  "leads (pc1_reach sha cf) (pc1_live sha cf buf bufs) (\<lambda>st. True)
    (\<lambda>st. node_of (st_orch st) = node_total cf \<or> orch_pc (st_orch st) = ODone)"
proof (rule pr.leads_measure [where m = "\<lambda>st. node_total cf - node_of (st_orch st)"])
  fix k
  show "leads (pc1_reach sha cf) (pc1_live sha cf buf bufs)
      (\<lambda>st. True \<and> \<not> (node_of (st_orch st) = node_total cf \<or> orch_pc (st_orch st) = ODone) \<and> node_total cf - node_of (st_orch st) = k)
      (\<lambda>st. (node_of (st_orch st) = node_total cf \<or> orch_pc (st_orch st) = ODone) \<or> True \<and> node_total cf - node_of (st_orch st) < k)"
  proof (rule pr.leads_weaken [OF prepare_next [of sha cf buf bufs "node_total cf - k"]])
    fix st
    assume "pc1_live sha cf buf bufs st"
    note b = live_node [OF this]
    show "node_of (st_orch st) = node_total cf - k \<and> node_total cf - k < node_total cf"
      if "True \<and> \<not> (node_of (st_orch st) = node_total cf \<or> orch_pc (st_orch st) = ODone) \<and> node_total cf - node_of (st_orch st) = k"
      using that b by auto
    show "(node_of (st_orch st) = node_total cf \<or> orch_pc (st_orch st) = ODone) \<or> True \<and> node_total cf - node_of (st_orch st) < k"
      if "node_total cf - k < node_of (st_orch st) \<or> orch_pc (st_orch st) = ODone"
      using that b by auto
  qed
qed

end
