(* ===== verification/PC1_Hashing.thy ===== *)
theory PC1_Hashing
  imports PC1_Prepare
begin

text \<open>
  The coordinators and the threads come to the end when all parents are
  prepared and read: \<open>coord_work\<close> counts what a coordinator and its threads have
  left to do, and while a coordinator is not done a step of it, or of a
  thread it waits for, makes that smaller.
\<close>

definition thread_work :: "pc1_cfg \<Rightarrow> hasher_t \<Rightarrow> nat" where
  "thread_work cf th = 2 * (node_total cf - th_node th) + (if th_node th < th_valid_nodes th then 0 else 1)"

definition coord_work :: "pc1_cfg \<Rightarrow> coordinator_t \<Rightarrow> nat" where
  "coord_work cf c = 3 * (node_total cf - copied c) + (node_total cf - completed_node c) +
     (case co_pc c of CRecover \<Rightarrow> 3 | CRun \<Rightarrow> 2 | CDrain \<Rightarrow> 1 | CDone \<Rightarrow> 0) +
     (if \<not> co_done c \<and> co_cur_valid c then 0 else 1) + sum_list (map (thread_work cf) (threads c))"

text \<open>The coordinator waits for its threads to finish its oldest batch.\<close>

definition awaits :: "pc1_cfg \<Rightarrow> coordinator_t \<Rightarrow> bool" where
  "awaits cf c \<longleftrightarrow> coord_done_count c ! rb_tail (coord_ring c) < length (threads c) \<and>
     (co_pc c = CRecover \<and> rb_is_full (cf_batches cf) (coord_ring c) \<or> co_pc c = CDrain \<and> completed_node c < node_total cf)"

lemma sum_list_decrease:
  fixes f :: "'a \<Rightarrow> nat"
  assumes "i < length xs" "f x < f (xs ! i)"
  shows "sum_list (map f (xs[i := x])) < sum_list (map f xs)"
proof -
  have "f (xs ! i) \<le> sum_list (map f xs)" using assms(1) by (intro member_le_sum_list) simp_all
  then show ?thesis using assms sum_list_update [of i "map f xs" "f x"] by (simp add: map_update)
qed

lemma copy_parents_frame:
  obtains stg pts where "fold (copy_parent s) [0..<n] c = c\<lparr>coord_ring_storage := stg, coord_ring_ptrs := pts\<rparr>"
  using copy_parents_fold [of s n c] by blast

lemma coord_advance_work:
  assumes ok: "cfg_ok cf" and n: "co_node c < node_total cf" and e: "coord_advance cf i s c = Inr (s', c')"
  shows "copied c' = Suc (co_node c)" "completed_node c' = completed_node c" "co_pc c' = CRun" "threads c' = threads c"
    "co_done c' = co_done c" "co_cur_valid c' = co_cur_valid c"
proof -
  have "size_add (co_node c) 1 = Suc (co_node c)" using n node_total_bound [OF ok] by (simp add: SIZE_MOD_def)
  then have "copied c' = Suc (co_node c) \<and> completed_node c' = completed_node c \<and> co_pc c' = CRun \<and> threads c' = threads c \<and>
      co_done c' = co_done c \<and> co_cur_valid c' = co_cur_valid c"
    using e by (auto simp: coord_advance_def Let_def bind_result_Inr_iff copied_def split: if_splits)
  then show "copied c' = Suc (co_node c)" "completed_node c' = completed_node c" "co_pc c' = CRun" "threads c' = threads c"
    "co_done c' = co_done c" "co_cur_valid c' = co_cur_valid c" by simp_all
qed

lemma coord_copy_work:
  assumes ok: "cfg_ok cf" and pc: "co_pc c = CRun" and flag: "\<not> co_done c" "co_cur_valid c"
    and n: "co_node c < node_total cf" and e: "coord_copy cf (node_total cf) i s c = Inr (s', c')"
  shows "coord_work cf c' < coord_work cf c"
proof -
  obtain v where v: "is_valid PAGE_BATCH_SIZE (rb_incr (cf_parents cf) (co_idx c)) (parent_buffer s) = Inr v"
    using e by (auto simp: coord_copy_def bind_result_Inr_iff)
  define d where "d = (size_add (co_node c) (Suc 0) = node_total cf)"
  obtain stg pts where f: "fold (copy_parent s) [0..<PARENT_COUNT] (c\<lparr>co_cur_valid := v, co_done := d\<rparr>) =
      c\<lparr>co_cur_valid := v, co_done := d, coord_ring_storage := stg, coord_ring_ptrs := pts\<rparr>"
    using copy_parents_frame [of s PARENT_COUNT] by blast
  define c2 where "c2 = c\<lparr>co_cur_valid := v, co_done := d, coord_ring_storage := stg, coord_ring_ptrs := pts,
      coord_batch_count := Suc (coord_batch_count c)\<rparr>"
  have "coord_copy cf (node_total cf) i s c = (if coord_batch_count c2 = cf_batch cf
      then Inr (s, c2\<lparr>coord_next_valid := size_add (coord_next_valid c2) (cf_batch cf), co_pc := CRecover\<rparr>)
      else coord_advance cf i s c2)"
    by (simp add: coord_copy_def v d_def [symmetric] f c2_def Let_def del: upt_rec_numeral)
  note e2 = this [symmetric, unfolded e]
  have c2: "copied c2 = copied c" "completed_node c2 = completed_node c" "threads c2 = threads c" "co_node c2 = co_node c" "copied c = co_node c"
    using pc by (simp_all add: c2_def copied_def)
  have "copied c' = Suc (co_node c) \<and> completed_node c' = completed_node c \<and> threads c' = threads c \<and> co_pc c' \<in> {CRun, CRecover}"
  proof (cases "coord_batch_count c2 = cf_batch cf")
    case True
    then show ?thesis using e2 c2 by (auto simp: copied_def)
  next
    case False
    then show ?thesis using e2 coord_advance_work [OF ok, of c2 i s s' c'] c2 n by simp
  qed
  then show ?thesis using n pc flag c2(5) by (auto simp: coord_work_def)
qed

lemma coord_reserve_work:
  assumes ok: "cfg_ok cf" and pc: "co_pc c = CRecover" and n: "co_node c < node_total cf" and e: "coord_reserve cf i s c = Inr (s', c')"
  shows "coord_work cf c' < coord_work cf c"
proof -
  obtain c1 where c1: "coord_advance cf i s c1 = Inr (s', c')" "co_node c1 = co_node c" "completed_node c1 = completed_node c" "threads c1 = threads c"
    "co_done c1 = co_done c" "co_cur_valid c1 = co_cur_valid c"
    using e by (auto simp: coord_reserve_def bind_result_Inr_iff split: option.splits prod.splits)
  have "copied c = Suc (co_node c)" using pc by (simp add: copied_def)
  then show ?thesis using coord_advance_work [OF ok _ c1(1)] c1(2-) n pc by (simp add: coord_work_def)
qed

lemma take_back_work:
  assumes "completed_node c \<le> completed_node (take_back cf c)"
  shows "coord_work cf (take_back cf c) \<le> coord_work cf c"
    "completed_node c < completed_node (take_back cf c) \<Longrightarrow> completed_node c < node_total cf \<Longrightarrow> coord_work cf (take_back cf c) < coord_work cf c"
proof -
  have "co_done (take_back cf c) = co_done c" by (simp add: take_back_def)
  then show "coord_work cf (take_back cf c) \<le> coord_work cf c"
    "completed_node c < completed_node (take_back cf c) \<Longrightarrow> completed_node c < node_total cf \<Longrightarrow> coord_work cf (take_back cf c) < coord_work cf c"
    using assms by (simp_all add: coord_work_def)
qed

definition ready :: "pc1_cfg \<Rightarrow> orchestrator_t \<Rightarrow> pc1_state \<Rightarrow> bool" where
  "ready cf o1 st \<longleftrightarrow> st_orch st = o1 \<and> node_of o1 = node_total cf \<and> io_idle (parent_read_fifo (st_sys st)) (st_reader st)"

lemma ready_slot:
  assumes live: "pc1_live sha cf buf bufs st" and r: "ready cf o1 st" and n: "tail_node_parents o1 \<le> n" "n < node_total cf"
  shows "PAGE_BATCH_SIZE \<le> valid (parent_buffer (st_sys st)) ! (n mod cf_parents cf)"
proof -
  have q: "fifo_list (parent_read_fifo (st_sys st)) = []" "rw_inflight (st_reader st) = []" "st_orch st = o1" "node_of o1 = node_total cf"
    using r by (simp_all add: ready_def io_idle_def)
  note R = pc1_invD(8) [OF pc1_liveD(4) [OF live], unfolded q read_inv_def Let_def]
  show ?thesis
  proof (cases "layer_start cf n")
    case True
    then have "start_inv cf (st_sys st) [] (node_total cf) n" using R n by simp
    then show ?thesis using n(2) by (simp add: start_inv_def Let_def pending_def)
  next
    case False
    then have "slot_inv cf buf (sector_label sha cf buf bufs) (st_sys st) [] (node_total cf) n" using R n by simp
    then have "valid (parent_buffer (st_sys st)) ! (n mod cf_parents cf) + pending [] (n mod cf_parents cf) = PAGE_BATCH_SIZE"
      using n(2) by (simp add: slot_inv_def Let_def)
    then show ?thesis by (simp add: pending_def)
  qed
qed

lemma coord_recover_work:
  assumes env: "coord_env cf buf lab bufs s cs rs w lo node res i" and pc: "co_pc (cs ! i) = CRecover"
    and e: "coord_recover cf i s (cs ! i) = Inr (s', c')"
  shows "coord_work cf c' < coord_work cf (cs ! i) \<or> awaits cf (cs ! i)"
proof -
  let ?c = "cs ! i"
  note ok = coord_envD(1) [OF env] and inv = coord_envD(4) [OF env]
  have n: "co_node ?c < node_total cf" using coord_low(3) [OF env] pc by (simp add: copied_def)
  note d = coord_done_index [OF ok inv]
  have il: "i < length (cf_hashers cf)" using coord_envD(2,3) [OF env] by simp
  consider "\<not> rb_is_full (cf_batches cf) (coord_ring ?c)"
    | "rb_is_full (cf_batches cf) (coord_ring ?c)" "coord_done_count ?c ! rb_tail (coord_ring ?c) = length (threads ?c)"
    | "rb_is_full (cf_batches cf) (coord_ring ?c)" "coord_done_count ?c ! rb_tail (coord_ring ?c) < length (threads ?c)"
    using d(2) by linarith
  then show ?thesis
  proof cases
    case 1
    then show ?thesis using e coord_reserve_work [OF ok pc n] by (simp add: coord_recover_def)
  next
    case 2
    note tb = take_back_inv(2) [OF ok il inv coord_low(3) [OF env] 2(2)]
    have "coord_reserve cf i s (take_back cf ?c) = Inr (s', c')" using e 2 d(1) by (simp add: coord_recover_def)
    moreover have "co_node (take_back cf ?c) = co_node ?c" by (simp add: take_back_def)
    ultimately have "coord_work cf c' < coord_work cf (take_back cf ?c)" using coord_reserve_work [OF ok] pc n by simp
    then show ?thesis using take_back_work(1) [of ?c cf] tb by simp
  next
    case 3
    then show ?thesis using pc by (simp add: awaits_def)
  qed
qed

lemma coord_drain_work:
  assumes env: "coord_env cf buf lab bufs s cs rs w lo node res i" and pc: "co_pc (cs ! i) = CDrain"
    and e: "coord_drain cf (node_total cf) i s (cs ! i) = Inr (s', c')"
  shows "coord_work cf c' < coord_work cf (cs ! i) \<or> awaits cf (cs ! i)"
proof -
  let ?c = "cs ! i"
  note ok = coord_envD(1) [OF env] and inv = coord_envD(4) [OF env]
  note d = coord_done_index [OF ok inv]
  have il: "i < length (cf_hashers cf)" using coord_envD(2,3) [OF env] by simp
  consider "\<not> completed_node ?c < node_total cf"
    | "completed_node ?c < node_total cf" "coord_done_count ?c ! rb_tail (coord_ring ?c) = length (threads ?c)"
    | "completed_node ?c < node_total cf" "coord_done_count ?c ! rb_tail (coord_ring ?c) < length (threads ?c)"
    using d(2) by linarith
  then show ?thesis
  proof cases
    case 1
    then have "c' = ?c\<lparr>co_pc := CDone\<rparr>" using e by (auto simp: coord_drain_def bind_result_Inr_iff)
    then show ?thesis using pc by (simp add: coord_work_def copied_def)
  next
    case 2
    note tb = take_back_inv(2) [OF ok il inv coord_low(3) [OF env] 2(2)]
    have "c' = take_back cf ?c" using e 2 d(1) by (auto simp: coord_drain_def bind_result_Inr_iff assert_that_def split: if_splits)
    then show ?thesis using take_back_work(2) [of ?c cf] tb 2(1) cfg_okD(7) [OF ok] by simp
  next
    case 3
    then show ?thesis using pc by (simp add: awaits_def)
  qed
qed

lemma coord_step_work:
  assumes live: "pc1_live sha cf buf bufs st" and r: "ready cf o1 st" and i: "i < length (st_coords st)"
    and pc: "co_pc (st_coords st ! i) \<noteq> CDone"
    and e: "coord_step cf (node_total cf) i (st_sys st) (st_coords st ! i) = Inr (s', c')"
  shows "coord_work cf c' < coord_work cf (st_coords st ! i) \<or> awaits cf (st_coords st ! i)"
proof -
  let ?c = "st_coords st ! i"
  note L = pc1_liveD [OF live] and env = pc1_env [OF pc1_liveD(1,4) [OF live] i]
  have o1: "st_orch st = o1" "node_of o1 = node_total cf" using r by (simp_all add: ready_def)
  show ?thesis
  proof (cases "co_pc ?c")
    case CRun
    have cp: "copied ?c = co_node ?c" using CRun by (simp add: copied_def)
    consider "\<not> co_done ?c \<and> co_cur_valid ?c" | "\<not> (\<not> co_done ?c \<and> co_cur_valid ?c)" "co_node ?c < node_total cf"
      | "\<not> (\<not> co_done ?c \<and> co_cur_valid ?c)" "\<not> co_node ?c < node_total cf" by blast
    then show ?thesis
    proof cases
      case 1
      then have "co_node ?c < node_total cf" using coord_linkD(4) [OF coord_envD(5) [OF env]] cp o1 by simp
      then show ?thesis using coord_copy_work [OF L(1) CRun] 1 e CRun by (simp add: coord_step_def)
    next
      case 2
      have "PAGE_BATCH_SIZE \<le> valid (parent_buffer (st_sys st)) ! (co_node ?c mod cf_parents cf)"
        using ready_slot [OF live r, of "co_node ?c"] coord_low(1) [OF env] 2 cp o1 by simp
      moreover have "co_idx ?c = co_node ?c mod cf_parents cf" using coord_invD(3) [OF coord_envD(4) [OF env]] .
      ultimately have "c' = ?c\<lparr>co_done := False, co_cur_valid := True\<rparr>"
        using e 2 CRun coord_this_slot(1) [OF env, of "co_node ?c"] coord_low(1) [OF env] cp o1
        by (auto simp: coord_step_def bind_result_Inr_iff)
      then show ?thesis using 2(1) CRun by (auto simp: coord_work_def copied_def)
    next
      case 3
      then have "c' = ?c\<lparr>co_pc := CDrain\<rparr>" using e CRun by (auto simp: coord_step_def)
      then show ?thesis using CRun by (simp add: coord_work_def copied_def)
    qed
  next
    case CRecover
    then show ?thesis using coord_recover_work [OF env CRecover] e by (simp add: coord_step_def)
  next
    case CDrain
    then show ?thesis using coord_drain_work [OF env CDrain] e by (simp add: coord_step_def)
  qed (use pc in simp)
qed


section \<open>The threads\<close>

lemma awaits_room:
  assumes ok: "cfg_ok cf" "fits cf" and inv: "coord_inv cf buf lab bufs i c" and w: "awaits cf c"
    and dr: "co_pc c = CDrain \<Longrightarrow> node_total cf \<le> co_node c"
  shows "completed_node c + cf_batch cf \<le> coord_next_valid c"
proof -
  let ?B = "cf_batch cf" and ?C = "cf_batches cf"
  note D = coord_invD [OF inv]
  have B: "0 < ?B" using cfg_okD(7) [OF ok(1)] .
  have cl: "completed_node c div ?B * ?B = completed_node c" using D(8) by simp
  have "completed_node c div ?B < copied c div ?B"
  proof (cases "co_pc c = CRecover")
    case True
    then have "rb_is_full ?C (coord_ring c)" using w by (auto simp: awaits_def)
    then show ?thesis using ring_at_full [OF D(10)] True cfg_okD(8) [OF ok(1)] by simp
  next
    case False
    then have dp: "co_pc c = CDrain" "completed_node c < node_total cf" using w by (auto simp: awaits_def)
    have "completed_node c div ?B * ?B < node_total cf div ?B * ?B" using cl fitsD(1) [OF ok(2)] dp(2) by simp
    then have "completed_node c div ?B < node_total cf div ?B" using B by (simp only: mult_less_cancel2)
    also have "\<dots> \<le> copied c div ?B" using dr [OF dp(1)] by (intro div_le_mono) (simp add: copied_def)
    finally show ?thesis .
  qed
  then have "Suc (completed_node c div ?B) * ?B \<le> coord_next_valid c" unfolding D(7) by (intro mult_le_mono1) simp
  then show ?thesis using cl by simp
qed

lemma awaits_thread:
  assumes live: "pc1_live sha cf buf bufs st" and i: "i < length (st_coords st)" and w: "awaits cf (st_coords st ! i)"
  obtains t where "t < length (threads (st_coords st ! i))"
    "th_node (threads (st_coords st ! i) ! t) < coord_next_valid (st_coords st ! i)"
proof -
  let ?c = "st_coords st ! i" and ?B = "cf_batch cf" and ?C = "cf_batches cf"
  let ?lo = "completed_node ?c div ?B"
  note L = pc1_liveD [OF live] and env = pc1_env [OF pc1_liveD(1,4) [OF live] i]
  note inv = coord_envD(4) [OF env]
  note D = coord_invD [OF inv] and R = ring_atD [OF coord_invD(10) [OF inv]]
  have "coord_done_count ?c ! (?lo mod ?C) = length (filter (\<lambda>th. Suc ?lo * ?B \<le> th_node th) (threads ?c))"
    using D(11) cfg_okD(8) [OF L(1)] by (simp add: done_inv_def)
  then have "length (filter (\<lambda>th. Suc ?lo * ?B \<le> th_node th) (threads ?c)) < length (threads ?c)" using w R(4) by (simp add: awaits_def)
  then obtain th where "th \<in> set (threads ?c)" "\<not> Suc ?lo * ?B \<le> th_node th"
    by (metis (no_types, lifting) filter_True less_irrefl)
  then obtain t where t: "t < length (threads ?c)" "th_node (threads ?c ! t) < Suc ?lo * ?B" by (auto simp: in_set_conv_nth)
  have "Suc ?lo * ?B = completed_node ?c + ?B" using D(8) by simp
  moreover have "completed_node ?c + ?B \<le> coord_next_valid ?c"
    by (rule awaits_room [OF L(1,3) inv w]) (use L(5) i in \<open>simp add: drain_inv_def\<close>)
  ultimately show ?thesis using that [OF t(1)] t(2) by simp
qed

lemma run_thread_work:
  assumes e: "run_thread_hash sha cf t th s c = Inr (s', c')"
  shows "parent_read_fifo s' = parent_read_fifo s"
    "\<exists>dc r. c' = c\<lparr>threads := (threads c)[t := hasher_next cf (th\<lparr>th_replica := r\<rparr>)], coord_done_count := dc\<rparr>"
proof -
  obtain k where k: "get_entry (node_buffer s) (th_node_idx th) = Some k" using e by (auto simp: run_thread_hash_def split: option.splits)
  obtain s1 r where h: "hash sha cf c t th k s = (s1, th\<lparr>th_replica := r\<rparr>)" "parent_read_fifo s1 = parent_read_fifo s"
    by (simp add: hash_def Let_def hash_store_def)
  have u: "\<exists>dc. c\<lparr>threads := x\<rparr> = c\<lparr>threads := x, coord_done_count := dc\<rparr>" for x
    by (rule exI [of _ "coord_done_count c"]) simp
  have "parent_read_fifo s' = parent_read_fifo s \<and>
      (\<exists>dc. c' = c\<lparr>threads := (threads c)[t := hasher_next cf (th\<lparr>th_replica := r\<rparr>)], coord_done_count := dc\<rparr>)"
    using e h u by (auto simp: run_thread_hash_def k Let_def bind_result_Inr_iff split: if_splits)
  then show "parent_read_fifo s' = parent_read_fifo s"
    "\<exists>dc r. c' = c\<lparr>threads := (threads c)[t := hasher_next cf (th\<lparr>th_replica := r\<rparr>)], coord_done_count := dc\<rparr>" by blast+
qed

lemma thread_step_work:
  assumes ok: "cfg_ok cf" and inv: "coord_inv cf buf lab bufs i c" and t: "t < length (threads c)"
    and n: "th_node (threads c ! t) < coord_next_valid c" "coord_next_valid c \<le> node_total cf"
    and e: "thread_step sha cf (node_total cf) t s c = Inr (s', c')"
  shows "parent_read_fifo s' = parent_read_fifo s" "coord_work cf c' < coord_work cf c"
proof -
  let ?th = "threads c ! t"
  have W: "coord_work cf (c\<lparr>threads := (threads c)[t := th'], coord_done_count := dc\<rparr>) < coord_work cf c"
    if "thread_work cf th' < thread_work cf ?th" for th' dc
    using sum_list_decrease [OF t, of "thread_work cf" th'] that by (simp add: coord_work_def)
  have nt: "th_node ?th < node_total cf" using n by simp
  have "parent_read_fifo s' = parent_read_fifo s \<and> coord_work cf c' < coord_work cf c"
  proof (cases "th_i ?th > 0 \<or> th_node ?th < th_valid_nodes ?th")
    case True
    then have h: "run_thread_hash sha cf t ?th s c = Inr (s', c')" using e t by (simp add: thread_step_def)
    from run_thread_work(2) [OF this] obtain dc r where
      c': "c' = c\<lparr>threads := (threads c)[t := hasher_next cf (?th\<lparr>th_replica := r\<rparr>)], coord_done_count := dc\<rparr>" by blast
    have "th_node (hasher_next cf (?th\<lparr>th_replica := r\<rparr>)) = Suc (th_node ?th)"
      using hasher_next_inv(2) [OF ok coord_invD(12) [OF inv t] thread_busy(1) [OF inv t ok True] nt] .
    then have "thread_work cf (hasher_next cf (?th\<lparr>th_replica := r\<rparr>)) < thread_work cf ?th"
      unfolding thread_work_def using nt by (simp only:) (simp split: if_splits; linarith)
    from W [OF this] run_thread_work(1) [OF h] c' show ?thesis by simp
  next
    case False
    then have c': "s' = s" "c' = c\<lparr>threads := (threads c)[t := ?th\<lparr>th_valid_nodes := coord_next_valid c\<rparr>], coord_done_count := coord_done_count c\<rparr>"
      using e t n nt by (auto simp: thread_step_def)
    have "thread_work cf (?th\<lparr>th_valid_nodes := coord_next_valid c\<rparr>) < thread_work cf ?th" using n(1) False by (simp add: thread_work_def)
    from W [OF this, of "coord_done_count c"] c' show ?thesis by simp
  qed
  then show "parent_read_fifo s' = parent_read_fifo s" "coord_work cf c' < coord_work cf c" by simp_all
qed


section \<open>All coordinators are done\<close>

definition work :: "pc1_cfg \<Rightarrow> pc1_state \<Rightarrow> nat" where
  "work cf st = sum_list (map (coord_work cf) (st_coords st))"

lemma coord_progress:
  assumes live: "pc1_live sha cf buf bufs st" and r: "ready cf o1 st" and i: "i < length (st_coords st)"
    and pc: "co_pc (st_coords st ! i) \<noteq> CDone"
  shows "\<exists>a. pc1_act sha cf a st \<noteq> None \<and> (\<forall>st'. pc1_act sha cf a st = Some (Inr st') \<longrightarrow> ready cf o1 st' \<and> work cf st' < work cf st)"
proof (cases "awaits cf (st_coords st ! i)")
  case True
  let ?c = "st_coords st ! i"
  note env = pc1_env [OF pc1_liveD(1,4) [OF live] i]
  note inv = coord_envD(4) [OF env]
  from awaits_thread [OF live i True] obtain t where t: "t < length (threads ?c)" "th_node (threads ?c ! t) < coord_next_valid ?c" by blast
  have nv: "coord_next_valid ?c \<le> node_total cf" using next_valid_le [OF inv] coord_low(3) [OF env] by linarith
  show ?thesis
  proof (intro exI [of _ "Thread i t"] conjI allI impI)
    show "pc1_act sha cf (Thread i t) st \<noteq> None" using i t by (simp add: pc1_act_def act_thread_def)
    fix st' assume "pc1_act sha cf (Thread i t) st = Some (Inr st')"
    then obtain s' c' where e: "thread_step sha cf (node_total cf) t (st_sys st) ?c = Inr (s', c')"
      and st': "st' = st\<lparr>st_sys := s', st_coords := (st_coords st)[i := c']\<rparr>"
      by (auto simp: pc1_act_def act_thread_def bind_result_Inr_iff split: if_splits)
    note W = thread_step_work [OF pc1_liveD(1) [OF live] inv t nv e]
    show "ready cf o1 st'" using r W(1) by (simp add: ready_def st')
    show "work cf st' < work cf st" using sum_list_decrease [OF i, of "coord_work cf" c'] W(2) by (simp add: work_def st')
  qed
next
  case False
  let ?c = "st_coords st ! i"
  show ?thesis
  proof (intro exI [of _ "Coord i"] conjI allI impI)
    show "pc1_act sha cf (Coord i) st \<noteq> None" using i by (simp add: pc1_act_def act_coord_def)
    fix st' assume "pc1_act sha cf (Coord i) st = Some (Inr st')"
    then obtain s' c' where e: "coord_step cf (node_total cf) i (st_sys st) ?c = Inr (s', c')"
      and st': "st' = st\<lparr>st_sys := s', st_coords := (st_coords st)[i := c']\<rparr>"
      by (auto simp: pc1_act_def act_coord_def bind_result_Inr_iff split: if_splits)
    have "parent_read_fifo s' = parent_read_fifo (st_sys st)"
      using coord_step_result [OF pc1_env [OF pc1_liveD(1,4) [OF live] i]] e by (auto simp: coord_result_def)
    then show "ready cf o1 st'" using r by (simp add: ready_def st')
    have "coord_work cf c' < coord_work cf ?c" using coord_step_work [OF live r i pc e] False by simp
    then show "work cf st' < work cf st" using sum_list_decrease [OF i, of "coord_work cf" c'] by (simp add: work_def st')
  qed
qed

definition hashed :: "pc1_cfg \<Rightarrow> pc1_state \<Rightarrow> bool" where
  "hashed cf st \<longleftrightarrow> node_of (st_orch st) = node_total cf \<and> (\<forall>c \<in> set (st_coords st). co_pc c = CDone)"

lemma ready_hashed: "leads (pc1_reach sha cf) (pc1_live sha cf buf bufs) (ready cf o1) (hashed cf)"
proof (rule pr.leads_measure [where m = "work cf"], rule leads_act)
  fix k st
  assume live: "pc1_live sha cf buf bufs st" and P: "ready cf o1 st \<and> \<not> hashed cf st \<and> work cf st = k"
  then obtain i where "i < length (st_coords st)" "co_pc (st_coords st ! i) \<noteq> CDone" by (auto simp: hashed_def ready_def in_set_conv_nth)
  from coord_progress [OF live _ this, of o1] P
  show "\<exists>a. pc1_act sha cf a st \<noteq> None \<and> (\<forall>st'. pc1_act sha cf a st = Some (Inr st') \<longrightarrow> pc1_live sha cf buf bufs st' \<longrightarrow>
      hashed cf st' \<or> ready cf o1 st' \<and> work cf st' < k)" by blast
qed

lemma all_hashed:
  "leads (pc1_reach sha cf) (pc1_live sha cf buf bufs) (\<lambda>st. True) (\<lambda>st. hashed cf st \<or> orch_pc (st_orch st) = ODone)"
proof (rule pr.leads_trans [OF all_prepared], rule leadsI)
  fix st assume live: "pc1_live sha cf buf bufs st" and P: "node_of (st_orch st) = node_total cf \<or> orch_pc (st_orch st) = ODone"
  show "\<exists>t. pc1_reach sha cf st t \<and> (hashed cf t \<or> orch_pc (st_orch t) = ODone)"
  proof (cases "orch_pc (st_orch st) = ODone")
    case False
    from leadsD [OF reader_drains live HOL.refl] obtain t where t: "pc1_reach sha cf st t" "kept t = kept st"
      "io_idle (parent_read_fifo (st_sys t)) (st_reader t)" by blast
    have "ready cf (st_orch st) t" using False P t by (auto simp: ready_def kept_def)
    from leadsD [OF ready_hashed live_reach [OF t(1) live] this] obtain u where "pc1_reach sha cf t u" "hashed cf u" by blast
    then show ?thesis by (intro exI [of _ u]) (simp add: reach_trans [OF _ t(1)])
  qed (use reach_init in blast)
qed

lemma hashed_nodes:
  assumes live: "pc1_live sha cf buf bufs st" and h: "hashed cf st" and k: "k < length (coordinator_node (st_sys st))"
  shows "coordinator_node (st_sys st) ! k = node_total cf"
proof -
  note I = pc1_invD [OF pc1_liveD(4) [OF live]]
  have "length (st_coords st) = length (coordinator_node (st_sys st))"
    using orch_minsD(1) [OF I(3)] coords_invD(1) [OF I(9)] by simp
  then have "node_total cf \<le> coordinator_node (st_sys st) ! k" using pc1_liveD(5) [OF live] h k by (simp add: drain_inv_def hashed_def)
  moreover have "coordinator_node (st_sys st) ! k \<le> node_total cf" using orch_minsD(4) [OF I(3) k] h by (simp add: hashed_def)
  ultimately show ?thesis by simp
qed

end
