(* ===== verification/PC1_Finish.thy ===== *)
theory PC1_Finish
  imports PC1_Hashing
begin

text \<open>
  The orchestrator ends.  When all nodes are hashed, the orchestrator with an
  idle writer hands over the next page, or finds the next page written; when all
  pages are written it goes round its loop once more and leaves it.
\<close>

lemma hashed_step:
  assumes live: "pc1_live sha cf buf bufs st" and h: "hashed cf st" and act: "pc1_act sha cf Orch st = Some (Inr st')" and live': "pc1_live sha cf buf bufs st'"
  shows "hashed cf st'"
proof -
  have "orch_from (st_coords st) (coordinator_node (st_sys st)) (node_total cf) 0 0 st" using h by (simp add: orch_from_def hashed_def)
  from orch_from_step(1) [OF live this act] live_node [OF live'] h show ?thesis by (simp add: orch_from_def hashed_def)
qed


section \<open>Writing the pages\<close>

definition flushing :: "pc1_cfg \<Rightarrow> nat \<Rightarrow> nat \<Rightarrow> pc1_state \<Rightarrow> bool" where
  "flushing cf a b st \<longleftrightarrow> hashed cf st \<and> io_idle (node_write_fifo (st_sys st)) (st_writer st) \<and>
     writing (st_orch st) = a \<and> written (st_orch st) = b \<and> b < node_total cf \<and>
     (case orch_pc (st_orch st) of
        OMin i \<Rightarrow> min_node_hash (st_orch st) = node_total cf
      | ORead \<Rightarrow> min_node_hash (st_orch st) = node_total cf
      | OWrites x \<Rightarrow> min_node_hash (st_orch st) = node_total cf \<and> 0 < x
      | OParents x \<Rightarrow> a = node_total cf
      | OWritten x \<Rightarrow> a = node_total cf \<and> 0 < x
      | _ \<Rightarrow> False)"

lemma flush_write:
  assumes live: "pc1_live sha cf buf bufs st" and f: "flushing cf a b st" and pc: "orch_pc (st_orch st) = OWrites x" and a: "a < node_total cf"
    and e: "orch_writes cf x (st_sys st) (st_orch st) = Inr (s', o2)"
  shows "a < writing o2"
proof -
  let ?s = "st_sys st" and ?o = "st_orch st" and ?npp = "cf_npp cf"
  note L = pc1_liveD [OF live] and I = pc1_invD [OF pc1_liveD(4) [OF live]]
  note B = orch_baseD [OF I(1)] and W = write_invD [OF I(11)] and npp = npp_facts(1) [OF L(1)]
  have F: "min_node_hash ?o = node_total cf" "0 < x" "writing ?o = a" "fifo_list (node_write_fifo ?s) = []"
    using f pc by (simp_all add: flushing_def io_idle_def)
  have "a div ?npp * ?npp < node_total cf div ?npp * ?npp" using a B(12) F(3) total_npp_dvd [OF L(1)] by simp
  then have "a div ?npp < node_total cf div ?npp" using npp by (simp only: mult_less_cancel2)
  moreover have "\<not> fifo_is_full (node_write_fifo ?s)"
    using fifo_is_full_iff [OF W(1)] W(2) F(4) fitsD(4) [OF L(3)] npp by simp
  ultimately have "w = ?npp" if "write_nodes cf ?s ?o = Inr (w, s1)" for w s1
    using that F by (auto simp: write_nodes_def Let_def bind_result_Inr_iff)
  moreover have "writing (o1\<lparr>orch_pc := p\<rparr>) = writing o1" for o1 p by simp
  ultimately show ?thesis
    using e F a npp counter_add_ring(1) [OF L(1) B(14) pc1_bounds(3) [OF I(1)] order.refl]
    by (auto simp: orch_writes_def write_action_def bind_result_Inr_iff)
qed

lemma flush_written:
  assumes live: "pc1_live sha cf buf bufs st" and f: "flushing cf a b st" and pc: "orch_pc (st_orch st) = OWritten x"
    and e: "orch_written cf x (st_sys st) (st_orch st) = Inr (s', o2)"
  shows "b < written o2"
proof -
  let ?s = "st_sys st" and ?o = "st_orch st" and ?npp = "cf_npp cf"
  note L = pc1_liveD [OF live] and I = pc1_invD [OF pc1_liveD(4) [OF live]]
  note B = orch_baseD [OF I(1)] and W = write_invD [OF I(11)] and npp = npp_facts(1) [OF L(1)]
  have F: "0 < x" "writing ?o = node_total cf" "written ?o = b" "b < node_total cf" "fifo_list (node_write_fifo ?s) = []" "rw_inflight (st_writer st) = []"
    using f pc by (auto simp: flushing_def io_idle_def)
  have idx: "counter_idx ?npp (tail_node_write ?o) = b div ?npp mod cf_nodes cf" "counter_idx ?npp (head_node_write ?o) = node_total cf div ?npp mod cf_nodes cf"
    using B(13,14) F mod_ring_nodes(1) [OF L(1)] by (simp_all add: counter_idx_def node_slot_def)
  have "b div ?npp * ?npp < node_total cf div ?npp * ?npp" using B(11) F(3,4) total_npp_dvd [OF L(1)] by simp
  then have lt: "b div ?npp < node_total cf div ?npp" using npp by (simp only: mult_less_cancel2)
  have "(node_total cf + ?npp) div ?npp \<le> ring_nodes cf div ?npp" using fitsD(3) [OF L(3)] by (rule div_le_mono)
  then have hi: "node_total cf div ?npp < cf_nodes cf" using npp div_add_self2 [of ?npp "node_total cf"] by (simp add: ring_nodes_def)
  then have sm: "node_total cf div ?npp mod cf_nodes cf = node_total cf div ?npp" "b div ?npp mod cf_nodes cf = b div ?npp" using lt by simp_all
  have "valid (node_buffer ?s) ! (b div ?npp mod cf_nodes cf) \<noteq> 0"
    using W(10) [of "b div ?npp"] F lt by auto
  then show ?thesis
    using e F idx sm lt npp counter_add_ring(1) [OF L(1) B(13) pc1_bounds(4) [OF I(1)] order.refl]
    by (auto simp: orch_written_def advance_written_def Let_def bind_result_Inr_iff vec_get_def split: if_splits)
qed

lemma flushing_step:
  assumes live: "pc1_live sha cf buf bufs st" and f: "flushing cf a b st" and act: "pc1_act sha cf Orch st = Some (Inr st')"
    and live': "pc1_live sha cf buf bufs st'"
  shows "a < writing (st_orch st') \<or> b < written (st_orch st') \<or> flushing cf a b st' \<and> orch_rank cf (st_orch st') < orch_rank cf (st_orch st)"
proof -
  let ?s = "st_sys st" and ?o = "st_orch st"
  note L = pc1_liveD [OF live] and B = orch_baseD [OF pc1_invD(1) [OF pc1_liveD(4) [OF live]]]
  from orch_act [OF act] obtain s' o2 where e: "orch_step cf ?s ?o = Inr (s', o2)" and st': "st' = st\<lparr>st_sys := s', st_orch := o2\<rparr>" by blast
  have h: "hashed cf st" using f by (simp add: flushing_def)
  note h' = hashed_step [OF live h act live']
  have nd: "orch_pc ?o \<noteq> OTop" "orch_pc ?o \<noteq> ODone" using f by (auto simp: flushing_def)
  have rank: "orch_rank cf (st_orch st') < orch_rank cf ?o"
    using orch_step_effect [OF live e] nd by (simp add: orch_effect_def st')
  have F: "node_of ?o = node_total cf" "writing ?o = a" "written ?o = b" "b < node_total cf" "io_idle (node_write_fifo ?s) (st_writer st)"
    using f by (simp_all add: flushing_def hashed_def)
  show ?thesis
  proof (cases "orch_pc ?o")
    case (OMin i)
    have "coordinator_node ?s ! k = node_total cf" if "k < length (coordinator_node ?s)" for k using hashed_nodes [OF live h that] .
    then show ?thesis using e f F h' rank OMin unfolding st' by (auto simp: orch_step_def orch_min_def flushing_def split: if_splits)
  next
    case ORead
    then show ?thesis using e f F h' rank B(1) unfolding st' by (auto simp: orch_step_def orch_read_def flushing_def ACTION_BATCH_def)
  next
    case (OWrites x)
    show ?thesis
    proof (cases "a < node_total cf")
      case True
      then show ?thesis using flush_write [OF live f OWrites True] e OWrites by (simp add: orch_step_def st')
    next
      case False
      then have "a = node_total cf" using pc1_bounds(3) [OF pc1_invD(1) [OF L(4)]] F(2) by simp
      then show ?thesis using e f F h' rank OWrites False unfolding st' by (auto simp: orch_step_def orch_writes_def flushing_def)
    qed
  next
    case (OParents x)
    obtain y where "release_parent cf ?s ?o = (?s\<lparr>node_buffer_sync := y, parent_buffer := release (cf_parents cf) (parent_buffer ?s)\<rparr>,
      ?o\<lparr>tail_node_parents := size_add (tail_node_parents ?o) 1\<rparr>)" by (rule release_parent_frame)
    then show ?thesis using e f F h' rank OParents unfolding st'
      by (auto simp: orch_step_def orch_parents_def flushing_def ACTION_BATCH_def split: if_splits prod.splits)
  next
    case (OWritten x)
    then show ?thesis using flush_written [OF live f OWritten] e by (simp add: orch_step_def st')
  qed (use f in \<open>simp_all add: flushing_def\<close>)
qed

lemma flushing_ends:
  "leads (pc1_reach sha cf) (pc1_live sha cf buf bufs) (flushing cf a b)
    (\<lambda>st. hashed cf st \<and> (a < writing (st_orch st) \<and> b \<le> written (st_orch st) \<or> a \<le> writing (st_orch st) \<and> b < written (st_orch st)))"
proof (rule pr.leads_measure [where m = "\<lambda>st. orch_rank cf (st_orch st)"], rule leads_act, intro exI [of _ Orch] conjI allI impI)
  let ?Q = "\<lambda>st. hashed cf st \<and> (a < writing (st_orch st) \<and> b \<le> written (st_orch st) \<or> a \<le> writing (st_orch st) \<and> b < written (st_orch st))"
  fix k st
  assume live: "pc1_live sha cf buf bufs st" and P: "flushing cf a b st \<and> \<not> ?Q st \<and> orch_rank cf (st_orch st) = k"
  have "orch_pc (st_orch st) \<noteq> ODone" using P by (auto simp: flushing_def)
  then show "pc1_act sha cf Orch st \<noteq> None" by (rule orch_enabled)
  fix st' assume act: "pc1_act sha cf Orch st = Some (Inr st')" and live': "pc1_live sha cf buf bufs st'"
  have "hashed cf st" "orch_from (st_coords st) (coordinator_node (st_sys st)) 0 a b st" using P by (auto simp: flushing_def orch_from_def)
  then have "hashed cf st'" "a \<le> writing (st_orch st')" "b \<le> written (st_orch st')"
    using hashed_step [OF live _ act live'] orch_from_step(1) [OF live _ act] by (auto simp: orch_from_def)
  with flushing_step [OF live _ act live', of a b] P show "?Q st' \<or> flushing cf a b st' \<and> orch_rank cf (st_orch st') < k" by blast
qed

definition unwritten :: "pc1_cfg \<Rightarrow> pc1_state \<Rightarrow> nat" where
  "unwritten cf st = (node_total cf - writing (st_orch st)) + (node_total cf - written (st_orch st))"

lemma unwritten_less:
  assumes "pc1_live sha cf buf bufs st" "pc1_live sha cf buf bufs st'"
    "writing (st_orch st) < writing (st_orch st') \<and> written (st_orch st) \<le> written (st_orch st') \<or>
     writing (st_orch st) \<le> writing (st_orch st') \<and> written (st_orch st) < written (st_orch st')"
  shows "unwritten cf st' < unwritten cf st"
  using assms(3) pc1_bounds(3,4) [OF pc1_invD(1) [OF pc1_liveD(4) [OF assms(2)]]]
  by (auto simp: unwritten_def)

text \<open>From the top of the loop with an idle writer.\<close>

lemma flush_top:
  "leads (pc1_reach sha cf) (pc1_live sha cf buf bufs)
    (\<lambda>st. hashed cf st \<and> orch_pc (st_orch st) = OTop \<and> io_idle (node_write_fifo (st_sys st)) (st_writer st) \<and>
      writing (st_orch st) = a \<and> written (st_orch st) = b \<and> b < node_total cf)
    (\<lambda>st. hashed cf st \<and> (a < writing (st_orch st) \<and> b \<le> written (st_orch st) \<or> a \<le> writing (st_orch st) \<and> b < written (st_orch st)))"
proof (rule pr.leads_trans [OF _ flushing_ends], rule leads_act, intro exI [of _ Orch] conjI allI impI)
  fix st
  assume live: "pc1_live sha cf buf bufs st" and P: "hashed cf st \<and> orch_pc (st_orch st) = OTop \<and>
      io_idle (node_write_fifo (st_sys st)) (st_writer st) \<and> writing (st_orch st) = a \<and> written (st_orch st) = b \<and> b < node_total cf"
  then show "pc1_act sha cf Orch st \<noteq> None" by (intro orch_enabled) simp
  fix st' assume act: "pc1_act sha cf Orch st = Some (Inr st')"
  have "0 < length (coordinator_node (st_sys st))"
    using orch_minsD(1) [OF pc1_invD(3) [OF pc1_liveD(4) [OF live]]] cfg_okD(14) [OF pc1_liveD(1) [OF live]] by simp
  then have "coordinator_node (st_sys st) ! 0 = node_total cf" using hashed_nodes [OF live] P by blast
  with loop_entered [OF live _ act] P show "flushing cf a b st'" by (simp add: flushing_def hashed_def)
qed

lemma flush_next:
  "leads (pc1_reach sha cf) (pc1_live sha cf buf bufs)
    (\<lambda>st. hashed cf st \<and> written (st_orch st) < node_total cf \<and> unwritten cf st = k)
    (\<lambda>st. orch_pc (st_orch st) = ODone \<or> hashed cf st \<and> unwritten cf st < k)"
proof (rule leadsI)
  fix st assume live: "pc1_live sha cf buf bufs st" and P: "hashed cf st \<and> written (st_orch st) < node_total cf \<and> unwritten cf st = k"
  let ?a = "writing (st_orch st)" and ?b = "written (st_orch st)"
  have "orch_from (st_coords st) (coordinator_node (st_sys st)) (node_total cf) ?a ?b st" using P by (simp add: orch_from_def hashed_def)
  from leadsD [OF orch_to_top live this] obtain t where t: "pc1_reach sha cf st t"
    "orch_from (st_coords st) (coordinator_node (st_sys st)) (node_total cf) ?a ?b t" "orch_pc (st_orch t) = OTop \<or> orch_pc (st_orch t) = ODone" by blast
  note live1 = live_reach [OF t(1) live]
  have h: "hashed cf t" "?a \<le> writing (st_orch t)" "?b \<le> written (st_orch t)"
    using t(2) P live_node [OF live1] by (auto simp: hashed_def orch_from_def)
  show "\<exists>t. pc1_reach sha cf st t \<and> (orch_pc (st_orch t) = ODone \<or> hashed cf t \<and> unwritten cf t < k)"
  proof (cases "orch_pc (st_orch t) = ODone \<or> unwritten cf t < k")
    case False
    then have eq: "writing (st_orch t) = ?a" "written (st_orch t) = ?b" using unwritten_less [OF live live1] h P by force+
    from leadsD [OF writer_drains live1 HOL.refl] obtain u where u: "pc1_reach sha cf t u" "kept u = kept t"
      "io_idle (node_write_fifo (st_sys u)) (st_writer u)" by blast
    note live2 = live_reach [OF u(1) live1]
    have "hashed cf u \<and> orch_pc (st_orch u) = OTop \<and> io_idle (node_write_fifo (st_sys u)) (st_writer u) \<and>
      writing (st_orch u) = ?a \<and> written (st_orch u) = ?b \<and> ?b < node_total cf"
      using False t(3) h(1) u(2,3) eq P by (auto simp: kept_def hashed_def)
    from leadsD [OF flush_top live2 this] obtain v where v: "pc1_reach sha cf u v" "hashed cf v"
      "?a < writing (st_orch v) \<and> ?b \<le> written (st_orch v) \<or> ?a \<le> writing (st_orch v) \<and> ?b < written (st_orch v)" by blast
    have "unwritten cf v < k" using unwritten_less [OF live live_reach [OF v(1) live2] v(3)] P by simp
    then show ?thesis using v(2) by (intro exI [of _ v]) (simp add: reach_trans [OF reach_trans [OF v(1) u(1)] t(1)])
  qed (use t(1) h(1) in blast)
qed

lemma all_written:
  "leads (pc1_reach sha cf) (pc1_live sha cf buf bufs) (hashed cf)
    (\<lambda>st. hashed cf st \<and> written (st_orch st) = node_total cf \<or> orch_pc (st_orch st) = ODone)"
proof (rule pr.leads_measure [where m = "unwritten cf"])
  fix k
  show "leads (pc1_reach sha cf) (pc1_live sha cf buf bufs)
      (\<lambda>st. hashed cf st \<and> \<not> (hashed cf st \<and> written (st_orch st) = node_total cf \<or> orch_pc (st_orch st) = ODone) \<and> unwritten cf st = k)
      (\<lambda>st. (hashed cf st \<and> written (st_orch st) = node_total cf \<or> orch_pc (st_orch st) = ODone) \<or> hashed cf st \<and> unwritten cf st < k)"
  proof (rule pr.leads_weaken [OF flush_next [of sha cf buf bufs k]])
    fix st
    assume "pc1_live sha cf buf bufs st"
      "hashed cf st \<and> \<not> (hashed cf st \<and> written (st_orch st) = node_total cf \<or> orch_pc (st_orch st) = ODone) \<and> unwritten cf st = k"
    then show "hashed cf st \<and> written (st_orch st) < node_total cf \<and> unwritten cf st = k"
      using pc1_bounds(4) [OF pc1_invD(1) [OF pc1_liveD(4)]] by (auto simp: order.strict_iff_order)
  qed blast
qed


section \<open>The last round\<close>

lemma read_node_round:
  assumes "read_node cf s o1 = Inr (s', o2)"
  shows "orch_pc o2 = orch_pc o1" "next_node o2 = next_node o1"
proof -
  have n: "orch_pc (read_next cf p it x) = orch_pc x" "next_node (read_next cf p it x) = next_node x" for p it x
    by (simp_all add: read_next_def Let_def)
  have "orch_pc o2 = orch_pc o1 \<and> next_node o2 = next_node o1" using assms unfolding read_node_def Let_def
    by (auto simp: bind_result_Inr_iff n split: if_splits prod.splits)
  then show "orch_pc o2 = orch_pc o1" "next_node o2 = next_node o1" by simp_all
qed

lemma release_node_round: "release_node cf s o1 = Some (s', o2) \<Longrightarrow> next_node o2 = next_node o1"
  by (auto simp: release_node_def)

lemma orch_step_round:
  assumes e: "orch_step cf s o1 = Inr (s', o2)" and pc: "orch_pc o1 \<noteq> OTop"
  shows "next_node o2 = next_node o1 \<and> (orch_pc o2 = OTop \<longrightarrow> loop_node o2 = next_node o1)"
proof (cases "orch_pc o1")
  case ORead
  then show ?thesis using e by (auto simp: orch_step_def orch_read_def read_batch_begin_def Let_def bind_result_Inr_iff split: if_splits)
next
  case ONodes
  then show ?thesis using e read_node_round [of cf s o1 s' o2] by (auto simp: orch_step_def orch_nodes_def split: if_splits)
next
  case (OWrites a)
  then show ?thesis using e by (auto simp: orch_step_def orch_writes_def write_action_def bind_result_Inr_iff split: if_splits)
next
  case (OParents a)
  then show ?thesis using e by (auto simp: orch_step_def orch_parents_def release_parent_def Let_def split: if_splits)
next
  case (OWritten a)
  then show ?thesis using e by (auto simp: orch_step_def orch_written_def advance_written_def Let_def bind_result_Inr_iff split: if_splits)
next
  case (ORelease a f)
  then show ?thesis using e by (auto simp: orch_step_def orch_release_def dest!: release_node_round split: if_splits option.splits)
qed (use e pc in \<open>auto simp: orch_step_def orch_min_def orch_check_def Let_def split: if_splits\<close>)

definition last_round :: "pc1_cfg \<Rightarrow> pc1_state \<Rightarrow> bool" where
  "last_round cf st \<longleftrightarrow> written (st_orch st) = node_total cf \<and> next_node (st_orch st) = node_total cf \<and>
     (orch_pc (st_orch st) = OTop \<longrightarrow> loop_node (st_orch st) = node_total cf)"

lemma last_round_top:
  "leads (pc1_reach sha cf) (pc1_live sha cf buf bufs) (last_round cf)
    (\<lambda>st. last_round cf st \<and> orch_pc (st_orch st) = OTop \<or> orch_pc (st_orch st) = ODone)"
proof (rule pr.leads_measure [where m = "\<lambda>st. orch_rank cf (st_orch st)"], rule leads_act, intro exI [of _ Orch] conjI allI impI)
  fix k st
  assume live: "pc1_live sha cf buf bufs st" and
    P: "last_round cf st \<and> \<not> (last_round cf st \<and> orch_pc (st_orch st) = OTop \<or> orch_pc (st_orch st) = ODone) \<and> orch_rank cf (st_orch st) = k"
  then show "pc1_act sha cf Orch st \<noteq> None" using orch_enabled by blast
  fix st' assume act: "pc1_act sha cf Orch st = Some (Inr st')" and live': "pc1_live sha cf buf bufs st'"
  from orch_act [OF act] obtain s' o2 where e: "orch_step cf (st_sys st) (st_orch st) = Inr (s', o2)" and
    st': "st' = st\<lparr>st_sys := s', st_orch := o2\<rparr>" by blast
  have "orch_from (st_coords st) (coordinator_node (st_sys st)) 0 0 (node_total cf) st" using P by (simp add: orch_from_def last_round_def)
  note f = orch_from_step [OF live this act]
  have "written (st_orch st') = node_total cf"
    using f(1) pc1_bounds(4) [OF pc1_invD(1) [OF pc1_liveD(4) [OF live']]] by (simp add: orch_from_def)
  then have "last_round cf st'" using orch_step_round [OF e] P by (auto simp: last_round_def st')
  with f(2) P show "(last_round cf st' \<and> orch_pc (st_orch st') = OTop \<or> orch_pc (st_orch st') = ODone) \<or>
      last_round cf st' \<and> orch_rank cf (st_orch st') < k" by blast
qed

lemma top_done:
  "leads (pc1_reach sha cf) (pc1_live sha cf buf bufs) (\<lambda>st. last_round cf st \<and> orch_pc (st_orch st) = OTop)
    (\<lambda>st. orch_pc (st_orch st) = ODone)"
proof (rule leads_act, intro exI [of _ Orch] conjI allI impI)
  fix st assume live: "pc1_live sha cf buf bufs st" and P: "last_round cf st \<and> orch_pc (st_orch st) = OTop"
  then show "pc1_act sha cf Orch st \<noteq> None" by (intro orch_enabled) simp
  fix st' assume act: "pc1_act sha cf Orch st = Some (Inr st')"
  note B = orch_baseD [OF pc1_invD(1) [OF pc1_liveD(4) [OF live]]]
  have "outstanding_writes (st_orch st) = 0"
    using B(15) pc1_bounds(3) [OF pc1_invD(1) [OF pc1_liveD(4) [OF live]]] P by (simp add: last_round_def)
  then show "orch_pc (st_orch st') = ODone" using orch_act [OF act] P B(1) by (auto simp: orch_step_def orch_top_def last_round_def)
qed

lemma last_round_done: "leads (pc1_reach sha cf) (pc1_live sha cf buf bufs) (last_round cf) (\<lambda>st. orch_pc (st_orch st) = ODone)"
  by (rule pr.leads_trans [OF last_round_top pr.leads_cases [OF top_done pr.leads_now]])

lemma written_done:
  "leads (pc1_reach sha cf) (pc1_live sha cf buf bufs) (\<lambda>st. hashed cf st \<and> written (st_orch st) = node_total cf)
    (\<lambda>st. orch_pc (st_orch st) = ODone)"
proof (rule leadsI)
  fix st assume live: "pc1_live sha cf buf bufs st" and P: "hashed cf st \<and> written (st_orch st) = node_total cf"
  have "orch_from (st_coords st) (coordinator_node (st_sys st)) (node_total cf) 0 (node_total cf) st" using P by (simp add: orch_from_def hashed_def)
  from leadsD [OF orch_to_top live this] obtain t where t: "pc1_reach sha cf st t"
    "orch_from (st_coords st) (coordinator_node (st_sys st)) (node_total cf) 0 (node_total cf) t" "orch_pc (st_orch t) = OTop \<or> orch_pc (st_orch t) = ODone" by blast
  note live1 = live_reach [OF t(1) live]
  have n: "node_of (st_orch t) = node_total cf" "written (st_orch t) = node_total cf"
    using t(2) live_node [OF live1] pc1_bounds(4) [OF pc1_invD(1) [OF pc1_liveD(4) [OF live1]]] by (auto simp: orch_from_def)
  have "\<exists>u. pc1_reach sha cf t u \<and> (last_round cf u \<or> orch_pc (st_orch u) = ODone)"
  proof (cases "orch_pc (st_orch t) = ODone")
    case False
    then have top: "orch_pc (st_orch t) = OTop" using t(3) by simp
    then obtain r where r: "pc1_act sha cf Orch t = Some r" using orch_enabled [of t sha cf] by auto
    from live_act [OF live1 r] obtain u where u: "r = Inr u" "pc1_live sha cf buf bufs u" "pc1_reach sha cf t u" by blast
    have "last_round cf u \<or> orch_pc (st_orch u) = ODone"
    proof (cases "loop_node (st_orch t) < node_total cf")
      case True
      with loop_entered [OF live1 top r [unfolded u(1)]] n show ?thesis by (simp add: last_round_def)
    next
      case False
      note B = orch_baseD [OF pc1_invD(1) [OF pc1_liveD(4) [OF live1]]]
      have "outstanding_writes (st_orch t) = 0"
        using B(15) pc1_bounds(3) [OF pc1_invD(1) [OF pc1_liveD(4) [OF live1]]] n by simp
      then show ?thesis using orch_act [OF r [unfolded u(1)]] False top n B(1) by (auto simp: orch_step_def orch_top_def)
    qed
    then show ?thesis using u(3) by blast
  qed (use reach_init in blast)
  then obtain u where u: "pc1_reach sha cf t u" "last_round cf u \<or> orch_pc (st_orch u) = ODone" by blast
  then obtain v where "pc1_reach sha cf u v" "orch_pc (st_orch v) = ODone"
    using leadsD [OF last_round_done live_reach [OF u(1) live1]] reach_init by blast
  then show "\<exists>t. pc1_reach sha cf st t \<and> orch_pc (st_orch t) = ODone"
    by (intro exI [of _ v]) (simp add: reach_trans [OF reach_trans [OF _ u(1)] t(1)])
qed

lemma run_ends: "leads (pc1_reach sha cf) (pc1_live sha cf buf bufs) (\<lambda>st. True) (\<lambda>st. orch_pc (st_orch st) = ODone)"
proof -
  have W: "leads (pc1_reach sha cf) (pc1_live sha cf buf bufs) (hashed cf) (\<lambda>st. orch_pc (st_orch st) = ODone)"
    by (rule pr.leads_trans [OF all_written pr.leads_cases [OF written_done pr.leads_now]])
  show ?thesis by (rule pr.leads_trans [OF all_hashed pr.leads_cases [OF W pr.leads_now]])
qed


section \<open>Runs from the start\<close>

lemma spawned_run:
  assumes "spawn_coordinators cf start hs sector g bufs storage ptrs = Inr cs" "c \<in> set cs"
  shows "co_pc c = CRun"
  using assms
proof (induction hs arbitrary: sector g cs)
  case (Cons h hs)
  have n: "co_pc c0 = CRun" if "coordinator_new cf start sector rids storage ptrs = Inr c0" for rids c0
    using that by (auto simp: coordinator_new_def bind_result_Inr_iff split: option.splits prod.splits)
  from Cons.prems n Cons.IH show ?case by (auto simp: bind_result_Inr_iff)
qed simp

lemma init_live:
  assumes "cfg_ok cf" "graph_ok cf buf" "fits cf" "do_pc1_init cf rids (Some buf) raw storage ptrs d = Inr st0"
    "pc1_inv cf buf (sector_label sha cf buf bufs) bufs st0"
  shows "pc1_live sha cf buf bufs st0"
proof -
  have "co_pc c = CRun" if "c \<in> set (st_coords st0)" for c
    using that spawned_run assms(4) by (auto simp: do_pc1_init_def bind_result_Inr_iff)
  then show ?thesis using assms by (simp add: pc1_live_def drain_inv_def)
qed

lemma exec_append:
  assumes "pc1_exec sha cf as st = Some (Inr st')"
  shows "pc1_exec sha cf (as @ bs) st = pc1_exec sha cf bs st'"
  using assms by (induction as arbitrary: st) (auto split: option.splits sum.splits)

lemma reach_exec:
  assumes "pc1_reach sha cf st st'"
  shows "\<exists>as. pc1_exec sha cf as st = Some (Inr st')"
  using assms
proof induction
  case reach_init
  have "pc1_exec sha cf [] st = Some (Inr st)" by simp
  then show ?case by (rule exI)
next
  case (reach_act st1 a st2)
  then obtain as where "pc1_exec sha cf as st = Some (Inr st1)" by blast
  from exec_append [OF this, of "[a]"] reach_act.hyps(3) have "pc1_exec sha cf (as @ [a]) st = Some (Inr st2)" by simp
  then show ?case by (rule exI)
qed

end
