(* ===== verification/PC1.thy ===== *)
theory PC1
  imports PC1_Finish
begin

text \<open>
  Correctness of PC1.  In the reachable states no step fails, and when the
  orchestrator has ended the disks hold the label of every node of every
  sector.
\<close>

section \<open>The end of the orchestrator\<close>

text \<open>The orchestrator ends only when everything is written.\<close>

lemma read_node_pc:
  assumes "read_node cf s o1 = Inr (s', o2)"
  shows "orch_pc o2 = orch_pc o1"
proof -
  have n: "orch_pc (read_next cf p it x) = orch_pc x" for p it x by (simp add: read_next_def Let_def)
  show ?thesis using assms unfolding read_node_def Let_def
    by (auto simp: bind_result_Inr_iff n split: if_splits prod.splits)
qed

lemma orch_step_done:
  assumes "orch_step cf s o1 = Inr (s', o2)" "orch_pc o2 = ODone" "orch_pc o1 \<noteq> ODone"
  shows "node_stop o1 \<le> written o2"
proof -
  have r: "orch_pc o2 \<noteq> ODone" if "orch_read cf s o1 = Inr (s', o2)"
    using that unfolding orch_read_def read_batch_begin_def Let_def by (auto simp: bind_result_Inr_iff split: if_splits)
  have n: "orch_pc o2 \<noteq> ODone" if "orch_nodes cf s o1 = Inr (s', o2)" "orch_pc o1 = ONodes"
    using that read_node_pc [of cf s o1 s' o2] by (auto simp: orch_nodes_def split: if_splits)
  show ?thesis
  proof (cases "orch_pc o1")
    case OTop
    then show ?thesis using assms by (auto simp: orch_step_def orch_top_def bind_result_Inr_iff split: if_splits)
  next
    case (OWrites a)
    then show ?thesis using assms by (auto simp: orch_step_def orch_writes_def bind_result_Inr_iff split: if_splits)
  next
    case (ORelease a f)
    then show ?thesis using assms by (auto simp: orch_step_def orch_release_def split: if_splits option.splits)
  next
    case (OParents a)
    then show ?thesis using assms by (auto simp: orch_step_def orch_parents_def split: if_splits prod.splits)
  qed (use assms r n in \<open>auto simp: orch_step_def orch_min_def orch_written_def orch_check_def bind_result_Inr_iff Let_def split: if_splits\<close>)
qed

lemma pc1_act_orch:
  assumes "pc1_act sha cf a st = Some (Inr st')"
  shows "st_orch st' = st_orch st \<or> (orch_pc (st_orch st) \<noteq> ODone \<and> (\<exists>s. orch_step cf (st_sys st) (st_orch st) = Inr (s, st_orch st')))"
  using assms
  by (cases a) (auto simp: pc1_act_def act_orch_def act_coord_def act_thread_def act_reader_batch_def act_reader_transfer_def
      act_reader_complete_def act_writer_batch_def act_writer_transfer_def act_writer_complete_def bind_result_Inr_iff Let_def
      split: if_splits prod.splits)

lemma pc1_done_written:
  assumes "pc1_reach sha cf st0 st" "cfg_ok cf" "graph_ok cf buf" "pc1_inv cf buf (sector_label sha cf buf bufs) bufs st0"
    "orch_pc (st_orch st0) = OTop" "orch_pc (st_orch st) = ODone"
  shows "node_total cf \<le> written (st_orch st)"
  using assms(1,6)
proof induction
  case (reach_act st a st')
  have inv: "pc1_inv cf buf (sector_label sha cf buf bufs) bufs st" using pc1_reach_inv [OF reach_act(1) assms(2-4)] .
  from pc1_act_orch [OF reach_act(3)] show ?case
  proof
    assume "st_orch st' = st_orch st" then show ?thesis using reach_act by simp
  next
    assume "orch_pc (st_orch st) \<noteq> ODone \<and> (\<exists>s. orch_step cf (st_sys st) (st_orch st) = Inr (s, st_orch st'))"
    then show ?thesis using orch_step_done reach_act.prems orch_baseD(1) [OF pc1_invD(1) [OF inv]] by metis
  qed
qed (use assms(5) in simp)


lemma disk_labels:
  assumes "pc1_reach sha cf st0 st" "cfg_ok cf" "graph_ok cf buf" "pc1_inv cf buf (sector_label sha cf buf bufs) bufs st0"
    "orch_pc (st_orch st0) = OTop" "orch_pc (st_orch st) = ODone" "n < node_total cf"
  shows "disk_ok cf (sector_label sha cf buf bufs) (st_disk st) n"
  using pc1_invD(12) [OF pc1_reach_inv [OF assms(1-4)]] pc1_done_written [OF assms(1-6)] assms(7) by (simp add: disk_inv_def)


section \<open>Addresses\<close>

lemma disk_address:
  assumes "cfg_ok cf" "n < node_total cf"
  shows "nvme_node_indexes (cf_npp cf) (cf_disks cf) n = (page_ctrl cf n, page_block cf n - cf_offset cf)"
    "page_block cf n - cf_offset cf + cf_offset cf = page_block cf n"
  using nvme_node_indexes_eq [of "cf_disks cf" n "cf_npp cf"] cfg_okD(11) [OF assms(1)] node_total_bound [OF assms(1)] assms(2)
  by (simp_all add: page_ctrl_def page_block_def SIZE_MOD_def)


section \<open>An example\<close>

text \<open>
  Two layers of two nodes, one hasher, one disk and buffers of a few entries: an
  input for the theorems below.
\<close>

definition example_cfg :: pc1_cfg where
  "example_cfg = \<lparr>cf_npp = 2, cf_bits = 1, cf_layers = 2, cf_parents = 17, cf_nodes = 4, cf_batch = 1, cf_batches = 2,
     cf_queue = 13, cf_disks = 1, cf_offset = 3, cf_hashers = [1]\<rparr>"

definition example_graph :: "32 word list" where
  "example_graph = replicate 20 0 @ [1, 0, 1, 0, 1, 0, 1, 0]"

definition example_raw :: system_buffers_t where
  "example_raw =
     \<lparr>parent_buffer = rb_new, parent_buffer_store = (\<lambda>_ _ _ _. []),
      parent_buffer_io = (\<lambda>_ _. \<lparr>io_node = 0, io_type = NOP, io_valid = None\<rparr>),
      parent_ptrs = (\<lambda>_ _. NullPtr), parent_ptr_syncs = (\<lambda>_ _. 0), node_buffer = rb_new, node_buffer_store = (\<lambda>_ _ _. []),
      node_buffer_io = (\<lambda>_ _. \<lparr>io_node = 0, io_type = NOP, io_valid = None\<rparr>),
      node_buffer_sync = (\<lambda>_. \<lparr>reference_count = 0, consumed_count = 0\<rparr>),
      parent_read_fifo = fifo_new, node_write_fifo = fifo_new, coordinator_node = []\<rparr>"

definition example_sha :: sha_fun where
  "example_sha lane parents n_blocks repeat = [lane ! 0 ! 0 + word_of_nat (length parents + repeat)]"

lemma example_ok:
  "cfg_ok example_cfg" "graph_ok example_cfg example_graph"
  "num_sectors example_cfg * NODE_WORDS \<le> length (replicate 16 (7 :: 32 word))"
proof -
  show "cfg_ok example_cfg"
    unfolding cfg_ok_def by (auto simp: example_cfg_def disk_fifo_depth_def size_mul_def constant_defs SIZE_MOD_def intro!: exI [of _ 1])
  show "graph_ok example_cfg example_graph"
    by (auto simp: graph_ok_def example_cfg_def example_graph_def constant_defs less_Suc_eq numeral_eq_Suc nth_append)
  show "num_sectors example_cfg * NODE_WORDS \<le> length (replicate 16 (7 :: 32 word))"
    by (simp add: num_sectors_def example_cfg_def constant_defs)
qed


lemma example_partial:
  "cfg_ok (example_cfg\<lparr>cf_batch := 3\<rparr>)" "graph_ok (example_cfg\<lparr>cf_batch := 3\<rparr>) example_graph"
  "num_sectors (example_cfg\<lparr>cf_batch := 3\<rparr>) * NODE_WORDS \<le> length (replicate 16 (7 :: 32 word))"
  "\<not> cf_batch (example_cfg\<lparr>cf_batch := 3\<rparr>) dvd node_total (example_cfg\<lparr>cf_batch := 3\<rparr>)"
proof -
  show "cfg_ok (example_cfg\<lparr>cf_batch := 3\<rparr>)" using example_ok(1) by (simp add: cfg_ok_def example_cfg_def disk_fifo_depth_def)
  show "graph_ok (example_cfg\<lparr>cf_batch := 3\<rparr>) example_graph" using example_ok(2) by (simp add: graph_ok_def)
  show "num_sectors (example_cfg\<lparr>cf_batch := 3\<rparr>) * NODE_WORDS \<le> length (replicate 16 (7 :: 32 word))"
    using example_ok(3) by (simp add: num_sectors_def)
  show "\<not> cf_batch (example_cfg\<lparr>cf_batch := 3\<rparr>) dvd node_total (example_cfg\<lparr>cf_batch := 3\<rparr>)"
    by (simp add: example_cfg_def node_total_def)
qed


section \<open>Properties\<close>












lemma example_fits: "fits example_cfg"
  by (simp add: fits_def example_cfg_def node_total_def ring_nodes_def disk_fifo_depth_def size_mul_def constant_defs SIZE_MOD_def)




lemma code_cfg_fits:
  assumes d: "COORD_BATCH_SIZE dvd node_total (code_cfg sc disks offset hashers) \<longleftrightarrow> s \<noteq> Sector2KB"
    and t: "node_total (code_cfg sc disks offset hashers) = 2 ^ (sector_lg s - 5) * (if sector_lg s \<le> 30 then 2 else 11)"
    and npp: "1 \<le> cf_npp (code_cfg sc disks offset hashers)" "cf_npp (code_cfg sc disks offset hashers) \<le> 128"
    and disks: "0 < disks" "disks \<le> 207"
  shows "fits (code_cfg sc disks offset hashers) \<longleftrightarrow> s \<in> {Sector4KB, Sector16KB, Sector32KB}"
proof -
  let ?cf = "code_cfg sc disks offset hashers"
  have "1 * 1024 div 13 \<le> disks * 1024 div 13" "disks * 1024 div 13 \<le> 207 * 1024 div 13" using disks by (intro div_le_mono; simp)+
  then have "128 \<le> disk_fifo_depth ?cf"
    using disks by (simp add: disk_fifo_depth_def code_cfg_def nvme_queue_size_def size_mul_def constant_defs SIZE_MOD_def)
  then have depth: "cf_npp ?cf \<le> disk_fifo_depth ?cf" using npp by simp
  have "fits ?cf \<longleftrightarrow> s \<noteq> Sector2KB \<and> node_total ?cf + cf_npp ?cf * 2 < 2 ^ 18 \<and> node_total ?cf + cf_npp ?cf \<le> 2 ^ 19 * cf_npp ?cf"
    unfolding fits_def using depth d by (simp add: ring_nodes_def) (simp add: code_cfg_def constant_defs nvme_queue_size_def SIZE_MOD_def)
  then show ?thesis unfolding t using npp by (cases s) simp_all
qed




end
